(* ===== verification/Prelude.thy ===== *)
theory Prelude
  imports Main "HOL-Library.Monad_Syntax" "HOL-Library.Signed_Division" "HOL-Library.Word"
begin

text \<open>
  What the components share: the reading of a C run as an option value, checked array access,
  checked \<open>int\<close> arithmetic, the allocator as a parameter, and the error codes of
  \<open>ocoms/platform/ocoms_constants.h\<close>.

  A run of a C function is a value of \<open>'a option\<close>: \<open>Some r\<close> when the function returns
  \<open>r\<close> having had defined behaviour throughout, \<open>None\<close> when it has undefined behaviour (a read
  or write outside an object, a null dereference, division by zero, overflow of a signed
  \<open>int\<close>, a failed assertion) or never returns.  A lemma whose conclusion is \<open>f x = Some r\<close>
  therefore states memory safety and termination of the call together with its result.
\<close>

section \<open>Collections of rules\<close>

named_theorems c_simps \<open>evaluation of checked accesses and arithmetic\<close>
named_theorems wf_intros \<open>introduction rules for the well-formedness invariants\<close>

section \<open>Return codes\<close>

definition OCOMS_SUCCESS :: int where "OCOMS_SUCCESS = 0"
definition OCOMS_ERROR :: int where "OCOMS_ERROR = - 1"
definition OCOMS_ERR_OUT_OF_RESOURCE :: int where "OCOMS_ERR_OUT_OF_RESOURCE = - 2"
definition OCOMS_ERR_TEMP_OUT_OF_RESOURCE :: int where "OCOMS_ERR_TEMP_OUT_OF_RESOURCE = - 3"
definition OCOMS_ERR_BAD_PARAM :: int where "OCOMS_ERR_BAD_PARAM = - 5"
definition OCOMS_ERR_NOT_FOUND :: int where "OCOMS_ERR_NOT_FOUND = - 13"
definition OCOMS_EXISTS :: int where "OCOMS_EXISTS = - 14"

lemmas rc_defs = OCOMS_SUCCESS_def OCOMS_ERROR_def OCOMS_ERR_OUT_OF_RESOURCE_def
  OCOMS_ERR_BAD_PARAM_def OCOMS_ERR_NOT_FOUND_def OCOMS_EXISTS_def

lemma rc_neq_success [simp]:
  "OCOMS_ERROR \<noteq> OCOMS_SUCCESS" "OCOMS_ERR_OUT_OF_RESOURCE \<noteq> OCOMS_SUCCESS"
  "OCOMS_ERR_BAD_PARAM \<noteq> OCOMS_SUCCESS" "OCOMS_ERR_NOT_FOUND \<noteq> OCOMS_SUCCESS"
  "OCOMS_SUCCESS \<noteq> OCOMS_ERROR" "OCOMS_SUCCESS \<noteq> OCOMS_ERR_OUT_OF_RESOURCE"
  "OCOMS_SUCCESS \<noteq> OCOMS_ERR_BAD_PARAM" "OCOMS_SUCCESS \<noteq> OCOMS_ERR_NOT_FOUND"
  "OCOMS_ERR_NOT_FOUND \<noteq> OCOMS_ERR_OUT_OF_RESOURCE"
  "OCOMS_ERR_OUT_OF_RESOURCE \<noteq> OCOMS_ERR_NOT_FOUND"
  by (simp_all add: rc_defs)

section \<open>Machine \<open>int\<close>\<close>

definition INT_MAX :: int where "INT_MAX = 2147483647"
definition INT_MIN :: int where "INT_MIN = - 2147483648"

text \<open>The result of a signed operation: overflow is undefined.\<close>

definition chk :: "int \<Rightarrow> int option" where
  "chk i = (if INT_MIN \<le> i \<and> i \<le> INT_MAX then Some i else None)"

text \<open>C division and remainder truncate towards zero; by zero they are undefined.\<close>

definition cdiv :: "int \<Rightarrow> int \<Rightarrow> int option" where
  "cdiv a b = (if b = 0 then None else chk (a sdiv b))"

definition cmod :: "int \<Rightarrow> int \<Rightarrow> int option" where
  "cmod a b = (if b = 0 then None else chk (a smod b))"

text \<open>Conversion of an \<open>int\<close> to the 64-bit \<open>size_t\<close>, and \<open>size_t\<close> results reduced modulo its range.\<close>

definition size_t :: "int \<Rightarrow> nat" where
  "size_t i = nat (i mod 2 ^ 64)"

definition size_norm :: "nat \<Rightarrow> nat" where
  "size_norm n = n mod 2 ^ 64"

lemma chk_Some [simp]: "INT_MIN \<le> i \<Longrightarrow> i \<le> INT_MAX \<Longrightarrow> chk i = Some i"
  by (simp add: chk_def)

lemma chk_eq_Some: "chk i = Some j \<longleftrightarrow> j = i \<and> INT_MIN \<le> i \<and> i \<le> INT_MAX"
  by (auto simp: chk_def)

lemma sdiv_nonneg: "0 \<le> a \<Longrightarrow> 0 < b \<Longrightarrow> a sdiv b = a div (b::int)"
  by (cases "a = 0") (auto simp: signed_divide_int_def)

lemma smod_nonneg: "0 \<le> a \<Longrightarrow> 0 < b \<Longrightarrow> a smod b = a mod (b::int)"
  by (cases "a = 0") (auto simp: signed_modulo_int_def)

lemma cdiv_nonneg [c_simps]:
  assumes "0 \<le> a" and "0 < b" and "a \<le> INT_MAX"
  shows "cdiv a b = Some (a div b)"
proof -
  have "0 \<le> a div b" using assms by (simp add: pos_imp_zdiv_nonneg_iff)
  moreover have "a div b \<le> a"
  proof (cases "a = 0")
    case True
    then show ?thesis by simp
  next
    case False
    with assms show ?thesis
      by (cases "b = 1") (auto intro!: less_imp_le [OF int_div_less_self])
  qed
  ultimately show ?thesis using assms by (simp add: cdiv_def sdiv_nonneg INT_MIN_def)
qed

lemma cmod_nonneg [c_simps]:
  assumes "0 \<le> a" and "0 < b" and "b \<le> INT_MAX"
  shows "cmod a b = Some (a mod b)"
proof -
  have "0 \<le> a mod b" and "a mod b < b" using assms by simp_all
  then have "- 2147483648 \<le> a mod b" and "a mod b \<le> INT_MAX" using assms(3) by linarith+
  then show ?thesis using assms(1,2) by (simp add: cmod_def smod_nonneg INT_MIN_def)
qed

lemma size_t_nonneg: "0 \<le> i \<Longrightarrow> i < 2 ^ 64 \<Longrightarrow> size_t i = nat i"
  by (simp add: size_t_def)

section \<open>Checked access to arrays\<close>

definition rd :: "'a list \<Rightarrow> int \<Rightarrow> 'a option" where
  "rd xs i = (if 0 \<le> i \<and> i < int (length xs) then Some (xs ! nat i) else None)"

definition wr :: "'a list \<Rightarrow> int \<Rightarrow> 'a \<Rightarrow> 'a list option" where
  "wr xs i x = (if 0 \<le> i \<and> i < int (length xs) then Some (xs[nat i := x]) else None)"

definition assert_c :: "bool \<Rightarrow> unit option" where
  "assert_c b = (if b then Some () else None)"

lemma rd_Some [c_simps]: "0 \<le> i \<Longrightarrow> i < int (length xs) \<Longrightarrow> rd xs i = Some (xs ! nat i)"
  by (simp add: rd_def)

lemma wr_Some [c_simps]: "0 \<le> i \<Longrightarrow> i < int (length xs) \<Longrightarrow> wr xs i x = Some (xs[nat i := x])"
  by (simp add: wr_def)

lemma rd_eq_Some: "rd xs i = Some x \<longleftrightarrow> 0 \<le> i \<and> i < int (length xs) \<and> x = xs ! nat i"
  by (auto simp: rd_def)

lemma wr_eq_Some: "wr xs i x = Some ys \<longleftrightarrow> 0 \<le> i \<and> i < int (length xs) \<and> ys = xs[nat i := x]"
  by (auto simp: wr_def)

lemma assert_c_True [simp]: "assert_c True = Some ()"
  by (simp add: assert_c_def)

lemma assert_c_Some [simp]: "assert_c b = Some u \<longleftrightarrow> b"
  by (simp add: assert_c_def)

text \<open>The same for unsigned indices.\<close>

definition rdn :: "'a list \<Rightarrow> nat \<Rightarrow> 'a option" where
  "rdn xs i = (if i < length xs then Some (xs ! i) else None)"

definition wrn :: "'a list \<Rightarrow> nat \<Rightarrow> 'a \<Rightarrow> 'a list option" where
  "wrn xs i x = (if i < length xs then Some (xs[i := x]) else None)"

lemma rdn_Some [simp]: "i < length xs \<Longrightarrow> rdn xs i = Some (xs ! i)"
  by (simp add: rdn_def)

lemma wrn_Some [simp]: "i < length xs \<Longrightarrow> wrn xs i x = Some (xs[i := x])"
  by (simp add: wrn_def)

lemma rdn_eq_Some: "rdn xs i = Some x \<longleftrightarrow> i < length xs \<and> x = xs ! i"
  by (auto simp: rdn_def)

text \<open>Counting the elements with a property across an update.\<close>

lemma length_filter_update:
  "i < length xs \<Longrightarrow> length (filter P (xs[i := x])) + (if P (xs ! i) then 1 else 0)
     = length (filter P xs) + (if P x then 1 else 0)"
proof (induction xs arbitrary: i)
  case (Cons y xs)
  then show ?case by (cases i) auto
qed simp

text \<open>
  The C library's allocator is a parameter: \<open>malloc n\<close> is \<open>None\<close> when it returns a null pointer,
  otherwise the \<open>n\<close> cells it returns, with whatever they hold.  \<open>realloc\<close> keeps the cells of the
  old block that fit; on a null pointer it allocates.
\<close>

type_synonym 'a allocator = "nat \<Rightarrow> 'a list option"

definition malloc_ok :: "'a allocator \<Rightarrow> bool" where
  "malloc_ok m \<longleftrightarrow> (\<forall>n xs. m n = Some xs \<longrightarrow> length xs = n)"

definition realloc :: "'a allocator \<Rightarrow> 'a list option \<Rightarrow> nat \<Rightarrow> 'a list option" where
  "realloc m old n =
     map_option (\<lambda>fresh. case old of None \<Rightarrow> fresh | Some xs \<Rightarrow> take n xs @ drop (length xs) fresh) (m n)"

lemma malloc_okD: "malloc_ok m \<Longrightarrow> m n = Some xs \<Longrightarrow> length xs = n"
  by (simp add: malloc_ok_def)

lemma malloc_ok_replicate [simp]: "malloc_ok (\<lambda>n. Some (replicate n x))"
  by (simp add: malloc_ok_def)

lemma malloc_ok_fail [simp]: "malloc_ok (\<lambda>n. None)"
  by (simp add: malloc_ok_def)

lemma realloc_length: "malloc_ok m \<Longrightarrow> realloc m old n = Some ys \<Longrightarrow> length ys = n"
  by (auto simp: realloc_def malloc_ok_def split: option.splits)

lemma realloc_grow:
  "malloc_ok m \<Longrightarrow> realloc m (Some xs) n = Some ys \<Longrightarrow> length xs \<le> n \<Longrightarrow>
   \<exists>junk. ys = xs @ junk \<and> length junk = n - length xs"
  by (auto simp: realloc_def malloc_ok_def)

section \<open>\<open>memset\<close> and lists\<close>

text \<open>\<open>memset_from xs i n x\<close> stores \<open>x\<close> in the \<open>n\<close> cells from index \<open>i\<close>.\<close>

definition memset_at :: "'a list \<Rightarrow> nat \<Rightarrow> nat \<Rightarrow> 'a \<Rightarrow> 'a list option" where
  "memset_at xs i n x =
     (if i + n \<le> length xs then Some (take i xs @ replicate n x @ drop (i + n) xs) else None)"

lemma memset_at_all [simp]: "memset_at xs 0 (length xs) x = Some (replicate (length xs) x)"
  by (simp add: memset_at_def)

lemma memset_at_tail:
  "length junk = n \<Longrightarrow> memset_at (xs @ junk) (length xs) n x = Some (xs @ replicate n x)"
  by (simp add: memset_at_def)

lemma nth_append_replicate:
  "i < length xs + n \<Longrightarrow> (xs @ replicate n x) ! i = (if i < length xs then xs ! i else x)"
  by (auto simp: nth_append)

section \<open>Loops\<close>

text \<open>A loop over a list of items that passes a state on.\<close>

fun foldM :: "('a \<Rightarrow> 's \<Rightarrow> 's option) \<Rightarrow> 'a list \<Rightarrow> 's \<Rightarrow> 's option" where
  "foldM f [] s = Some s"
| "foldM f (x # xs) s = do { s' \<leftarrow> f x s; foldM f xs s' }"

lemma foldM_append: "foldM f (xs @ ys) s = do { s' \<leftarrow> foldM f xs s; foldM f ys s' }"
proof (induction xs arbitrary: s)
  case (Cons a xs)
  then have "foldM f (xs @ ys) = (\<lambda>s. foldM f xs s \<bind> foldM f ys)" by (rule ext)
  then show ?case by (cases "f a s") simp_all
qed simp

end
