(* ===== verification/Bitmap.thy ===== *)
theory Bitmap
  imports Prelude
begin

text \<open>
  The growing bitmap of \<open>ocoms/util/ocoms_bitmap.c\<close>: a byte array with its size in bytes and a
  bound.  The struct is the record \<open>bitmap\<close>; the functions take the struct pointer as an option
  (the code tests it for null) and return the status code with the struct as the call left it.
  The specification is the set of the indices whose bit is set.
\<close>

unbundle bit_operations_syntax

section \<open>Model\<close>

record bitmap =
  bm_bitmap :: "8 word list option"
  bm_array_size :: int
  bm_max_size :: int

definition SIZE_OF_CHAR :: int where [simp]: "SIZE_OF_CHAR = 8"

definition ocoms_bitmap_construct :: bitmap where
  "ocoms_bitmap_construct = \<lparr>bm_bitmap = None, bm_array_size = 0, bm_max_size = INT_MAX\<rparr>"

text \<open>The number of bytes that hold the given number of bits.\<close>

definition bm_bytes_for :: "int \<Rightarrow> int option" where
  "bm_bytes_for n = do {
     q \<leftarrow> cdiv n SIZE_OF_CHAR;
     r \<leftarrow> cmod n SIZE_OF_CHAR;
     chk (q + (if r = 0 then 0 else 1)) }"

definition ocoms_bitmap_set_max_size :: "bitmap option \<Rightarrow> int \<Rightarrow> (int \<times> bitmap option) option" where
  "ocoms_bitmap_set_max_size bm max_size = (case bm of
     None \<Rightarrow> Some (OCOMS_ERR_BAD_PARAM, None)
   | Some b \<Rightarrow> do {
       actual_size \<leftarrow> bm_bytes_for max_size;
       Some (OCOMS_SUCCESS, Some (b\<lparr>bm_max_size := actual_size\<rparr>)) })"

definition bm_fill :: "bitmap \<Rightarrow> 8 word \<Rightarrow> bitmap option" where
  "bm_fill b x = do {
     bs \<leftarrow> bm_bitmap b;
     bs' \<leftarrow> memset_at bs 0 (size_t (bm_array_size b)) x;
     Some (b\<lparr>bm_bitmap := Some bs'\<rparr>) }"

definition ocoms_bitmap_clear_all_bits :: "bitmap option \<Rightarrow> (int \<times> bitmap option) option" where
  "ocoms_bitmap_clear_all_bits bm = (case bm of
     None \<Rightarrow> Some (OCOMS_ERR_BAD_PARAM, None)
   | Some b \<Rightarrow> do { b' \<leftarrow> bm_fill b 0; Some (OCOMS_SUCCESS, Some b') })"

definition ocoms_bitmap_set_all_bits :: "bitmap option \<Rightarrow> (int \<times> bitmap option) option" where
  "ocoms_bitmap_set_all_bits bm = (case bm of
     None \<Rightarrow> Some (OCOMS_ERR_BAD_PARAM, None)
   | Some b \<Rightarrow> do { b' \<leftarrow> bm_fill b 255; Some (OCOMS_SUCCESS, Some b') })"

definition ocoms_bitmap_init ::
  "8 word allocator \<Rightarrow> bitmap option \<Rightarrow> int \<Rightarrow> (int \<times> bitmap option) option" where
  "ocoms_bitmap_init malloc bm nbits = (case bm of
     None \<Rightarrow> Some (OCOMS_ERR_BAD_PARAM, None)
   | Some b \<Rightarrow>
       if nbits \<le> 0 \<or> bm_max_size b < nbits then Some (OCOMS_ERR_BAD_PARAM, Some b)
       else do {
         actual_size \<leftarrow> bm_bytes_for nbits;
         let b1 = b\<lparr>bm_array_size := actual_size, bm_bitmap := malloc (size_t actual_size)\<rparr>;
         if bm_bitmap b1 = None then Some (OCOMS_ERR_OUT_OF_RESOURCE, Some b1)
         else do {
           r \<leftarrow> ocoms_bitmap_clear_all_bits (Some b1);
           Some (OCOMS_SUCCESS, snd r) } })"

text \<open>
  The growth step of \<open>ocoms_bitmap_set_bit\<close>: the new size is a multiple of the old one.  When
  \<open>realloc\<close> fails the code has already overwritten the only pointer to the old block.
\<close>

definition bm_grow :: "8 word allocator \<Rightarrow> bitmap \<Rightarrow> int \<Rightarrow> (int \<times> bitmap) option" where
  "bm_grow malloc b index = do {
     q \<leftarrow> cdiv index (bm_array_size b);
     q1 \<leftarrow> chk (q + 1);
     new_size \<leftarrow> chk (q1 * bm_array_size b);
     case realloc malloc (bm_bitmap b) (size_t new_size) of
       None \<Rightarrow> Some (OCOMS_ERR_OUT_OF_RESOURCE, b\<lparr>bm_bitmap := None\<rparr>)
     | Some bs \<Rightarrow> do {
         bs' \<leftarrow> memset_at bs (nat (bm_array_size b)) (size_t (new_size - bm_array_size b)) 0;
         Some (OCOMS_SUCCESS, b\<lparr>bm_bitmap := Some bs', bm_array_size := new_size\<rparr>) } }"

definition bm_or_at :: "bitmap \<Rightarrow> int \<Rightarrow> 8 word \<Rightarrow> bitmap option" where
  "bm_or_at b index ones = do {
     bs \<leftarrow> bm_bitmap b;
     x \<leftarrow> rd bs index;
     bs' \<leftarrow> wr bs index (x OR ones);
     Some (b\<lparr>bm_bitmap := Some bs'\<rparr>) }"

definition ocoms_bitmap_set_bit ::
  "8 word allocator \<Rightarrow> bitmap option \<Rightarrow> int \<Rightarrow> (int \<times> bitmap option) option" where
  "ocoms_bitmap_set_bit malloc bm bitno = (case bm of
     None \<Rightarrow> Some (OCOMS_ERR_BAD_PARAM, None)
   | Some b \<Rightarrow>
       if bitno < 0 \<or> bm_max_size b < bitno then Some (OCOMS_ERR_BAD_PARAM, Some b)
       else do {
         index \<leftarrow> cdiv bitno SIZE_OF_CHAR;
         offset \<leftarrow> cmod bitno SIZE_OF_CHAR;
         r \<leftarrow> (if bm_array_size b \<le> index then bm_grow malloc b index
               else Some (OCOMS_SUCCESS, b));
         if fst r \<noteq> OCOMS_SUCCESS then Some (fst r, Some (snd r))
         else do {
           b' \<leftarrow> bm_or_at (snd r) index (push_bit (nat offset) 1);
           Some (OCOMS_SUCCESS, Some b') } })"

definition ocoms_bitmap_clear_bit :: "bitmap option \<Rightarrow> int \<Rightarrow> (int \<times> bitmap option) option" where
  "ocoms_bitmap_clear_bit bm bitno =
     (if bitno < 0 then Some (OCOMS_ERR_BAD_PARAM, bm)
      else case bm of
        None \<Rightarrow> Some (OCOMS_ERR_BAD_PARAM, None)
      | Some b \<Rightarrow> do {
          nbits \<leftarrow> chk (bm_array_size b * SIZE_OF_CHAR);
          if nbits \<le> bitno then Some (OCOMS_ERR_BAD_PARAM, Some b)
          else do {
            index \<leftarrow> cdiv bitno SIZE_OF_CHAR;
            offset \<leftarrow> cmod bitno SIZE_OF_CHAR;
            if bm_array_size b \<le> index then Some (OCOMS_ERR_BAD_PARAM, Some b)
            else do {
              bs \<leftarrow> bm_bitmap b;
              x \<leftarrow> rd bs index;
              bs' \<leftarrow> wr bs index (x AND NOT (push_bit (nat offset) 1));
              Some (OCOMS_SUCCESS, Some (b\<lparr>bm_bitmap := Some bs'\<rparr>)) } } })"

definition ocoms_bitmap_is_set_bit :: "bitmap option \<Rightarrow> int \<Rightarrow> bool option" where
  "ocoms_bitmap_is_set_bit bm bitno =
     (if bitno < 0 then Some False
      else case bm of
        None \<Rightarrow> Some False
      | Some b \<Rightarrow> do {
          nbits \<leftarrow> chk (bm_array_size b * SIZE_OF_CHAR);
          if nbits \<le> bitno then Some False
          else do {
            index \<leftarrow> cdiv bitno SIZE_OF_CHAR;
            offset \<leftarrow> cmod bitno SIZE_OF_CHAR;
            if bm_array_size b \<le> index then Some False
            else do {
              bs \<leftarrow> bm_bitmap b;
              x \<leftarrow> rd bs index;
              Some (x AND push_bit (nat offset) 1 \<noteq> 0) } } })"

text \<open>The two loops of \<open>ocoms_bitmap_find_and_set_first_unset_bit\<close>.\<close>

function bm_skip_full :: "8 word list \<Rightarrow> int \<Rightarrow> int \<Rightarrow> int option" where
  "bm_skip_full bs n i =
     (if i < n then do {
        x \<leftarrow> rd bs i;
        if x = 255 then bm_skip_full bs n (i + 1) else Some i }
      else Some i)"
  by pat_completeness auto
termination
  by (relation "measure (\<lambda>(bs, n, i). nat (n - i))") auto

declare bm_skip_full.simps [simp del]

lemma drop_bit_odd_less:
  fixes w :: "8 word"
  assumes "w AND 1 \<noteq> 0"
  shows "unat (drop_bit 1 w) < unat w"
proof -
  have "w \<noteq> 0" using assms by auto
  then have "0 < unat w" by (simp add: unat_gt_0)
  moreover have "unat (drop_bit 1 w) = unat w div 2"
    by (metis unat_drop_bit_eq drop_bit_eq_div power_one_right)
  ultimately show ?thesis by simp
qed

function bm_trailing_ones :: "8 word \<Rightarrow> int \<Rightarrow> int" where
  "bm_trailing_ones temp position =
     (if temp AND 1 \<noteq> 0 then bm_trailing_ones (drop_bit 1 temp) (position + 1) else position)"
  by pat_completeness auto
termination
  by (relation "measure (\<lambda>(temp, position). unat temp)") (auto dest: drop_bit_odd_less)

declare bm_trailing_ones.simps [simp del]

definition ocoms_bitmap_find_and_set_first_unset_bit ::
  "8 word allocator \<Rightarrow> bitmap option \<Rightarrow> int \<Rightarrow> (int \<times> int \<times> bitmap option) option" where
  "ocoms_bitmap_find_and_set_first_unset_bit malloc bm position = (case bm of
     None \<Rightarrow> Some (OCOMS_ERR_BAD_PARAM, position, None)
   | Some b \<Rightarrow> do {
       bs \<leftarrow> (if 0 < bm_array_size b then bm_bitmap b else Some []);
       i \<leftarrow> bm_skip_full bs (bm_array_size b) 0;
       if i = bm_array_size b then do {
         p \<leftarrow> chk (bm_array_size b * SIZE_OF_CHAR);
         r \<leftarrow> ocoms_bitmap_set_bit malloc (Some b) p;
         Some (fst r, p, snd r) }
       else do {
         temp \<leftarrow> rd bs i;
         b' \<leftarrow> bm_or_at b i (temp + 1);
         base \<leftarrow> chk (i * SIZE_OF_CHAR);
         p \<leftarrow> chk (bm_trailing_ones temp 0 + base);
         Some (OCOMS_SUCCESS, p, Some b') } })"

section \<open>Specification: the set of set bits\<close>

definition bm_bits :: "bitmap \<Rightarrow> int set" where
  "bm_bits b = (case bm_bitmap b of None \<Rightarrow> {}
     | Some bs \<Rightarrow> {k. 0 \<le> k \<and> k < 8 * int (length bs) \<and> bit (bs ! nat (k div 8)) (nat (k mod 8))})"

definition bm_wf :: "bitmap \<Rightarrow> bool" where
  "bm_wf b \<longleftrightarrow> (\<exists>bs. bm_bitmap b = Some bs \<and> int (length bs) = bm_array_size b)
     \<and> 0 < bm_array_size b \<and> bm_array_size b * 8 \<le> INT_MAX"

lemma bm_wfE:
  assumes "bm_wf b"
  obtains bs where "bm_bitmap b = Some bs" and "bm_array_size b = int (length bs)"
    and "bs \<noteq> []" and "int (length bs) * 8 \<le> INT_MAX"
proof -
  from assms obtain bs where "bm_bitmap b = Some bs" and "int (length bs) = bm_array_size b"
    and "0 < bm_array_size b" and "bm_array_size b * 8 \<le> INT_MAX"
    by (auto simp: bm_wf_def)
  then show thesis by (intro that [of bs]) auto
qed

lemma bm_bits_bounds: "k \<in> bm_bits b \<Longrightarrow> 0 \<le> k"
  by (auto simp: bm_bits_def split: option.splits)

lemma bm_bits_outside: "bm_wf b \<Longrightarrow> 8 * bm_array_size b \<le> k \<Longrightarrow> k \<notin> bm_bits b"
  by (auto simp: bm_bits_def elim!: bm_wfE)

lemma and_pow2: "(x AND 2 ^ n \<noteq> 0) = bit x n" for x :: "8 word"
  by (simp add: bit_iff_and_push_bit_not_eq_0 push_bit_eq_mult)

lemma byte_or_bit: "j < 8 \<Longrightarrow> bit (x OR 2 ^ i) j \<longleftrightarrow> bit x j \<or> i = j" for x :: "8 word"
  by (auto simp: bit_or_iff bit_exp_iff)

lemma byte_andnot_bit: "j < 8 \<Longrightarrow> bit (x AND NOT (2 ^ i)) j \<longleftrightarrow> bit x j \<and> i \<noteq> j" for x :: "8 word"
  by (auto simp: bit_and_iff bit_not_iff bit_exp_iff)

lemma mem_bm_bits:
  "bm_bitmap b = Some bs \<Longrightarrow> k \<in> bm_bits b \<longleftrightarrow>
     0 \<le> k \<and> k div 8 < int (length bs) \<and> bit (bs ! nat (k div 8)) (nat (k mod 8))"
  by (auto simp: bm_bits_def)

lemma bm_bits_update:
  assumes "bm_bitmap b = Some bs" and "0 \<le> i" and "i < int (length bs)"
  shows "k \<in> bm_bits (b\<lparr>bm_bitmap := Some (bs[nat i := x])\<rparr>) \<longleftrightarrow>
    (if k div 8 = i then 0 \<le> k \<and> bit x (nat (k mod 8)) else k \<in> bm_bits b)"
proof (cases "k div 8 = i")
  case True
  then show ?thesis using assms by (simp add: mem_bm_bits)
next
  case False
  then have "0 \<le> k \<Longrightarrow> nat (k div 8) \<noteq> nat i"
    using assms(2) by (simp add: eq_nat_nat_iff pos_imp_zdiv_nonneg_iff)
  then show ?thesis using False assms
    by (cases "0 \<le> k") (simp_all add: mem_bm_bits)
qed
lemma byte_pos_eq: "(k::int) div 8 = j div 8 \<Longrightarrow> k mod 8 = j mod 8 \<Longrightarrow> k = j"
  by (metis div_mult_mod_eq)
lemma nat_mod8 [simp]: "nat (k mod 8) < 8"
  by (simp add: nat_less_iff)

lemma nat_mod8_eq [simp]: "nat (j mod 8) = nat (k mod 8) \<longleftrightarrow> j mod 8 = k mod 8" for j k :: int
  by (simp add: eq_nat_nat_iff)
lemma bm_bits_set1:
  assumes "bm_bitmap b = Some bs" and "0 \<le> k" and "k div 8 < int (length bs)"
    and "\<And>j. j < 8 \<Longrightarrow> bit x j \<longleftrightarrow> bit (bs ! nat (k div 8)) j \<or> nat (k mod 8) = j"
  shows "bm_bits (b\<lparr>bm_bitmap := Some (bs[nat (k div 8) := x])\<rparr>) = insert k (bm_bits b)"
proof (rule set_eqI)
  fix j
  have i: "0 \<le> k div 8" using assms(2) by simp
  show "j \<in> bm_bits (b\<lparr>bm_bitmap := Some (bs[nat (k div 8) := x])\<rparr>) \<longleftrightarrow> j \<in> insert k (bm_bits b)"
  proof (cases "j div 8 = k div 8")
    case True
    then have "j = k \<longleftrightarrow> k mod 8 = j mod 8" using byte_pos_eq [of j k] by auto
    moreover from True have "0 \<le> j \<longleftrightarrow> 0 \<le> k"
      by (metis pos_imp_zdiv_nonneg_iff zero_less_numeral)
    ultimately show ?thesis
      unfolding bm_bits_update [OF assms(1) i assms(3)] using assms(1,2,3) True
      by (simp add: mem_bm_bits assms(4)) blast
  next
    case False
    then show ?thesis unfolding bm_bits_update [OF assms(1) i assms(3)] by auto
  qed
qed

lemma bm_bits_clear1:
  assumes "bm_bitmap b = Some bs" and "0 \<le> k" and "k div 8 < int (length bs)"
    and "\<And>j. j < 8 \<Longrightarrow> bit x j \<longleftrightarrow> bit (bs ! nat (k div 8)) j \<and> nat (k mod 8) \<noteq> j"
  shows "bm_bits (b\<lparr>bm_bitmap := Some (bs[nat (k div 8) := x])\<rparr>) = bm_bits b - {k}"
proof (rule set_eqI)
  fix j
  have i: "0 \<le> k div 8" using assms(2) by simp
  show "j \<in> bm_bits (b\<lparr>bm_bitmap := Some (bs[nat (k div 8) := x])\<rparr>) \<longleftrightarrow> j \<in> bm_bits b - {k}"
  proof (cases "j div 8 = k div 8")
    case True
    then have "j = k \<longleftrightarrow> k mod 8 = j mod 8" using byte_pos_eq [of j k] by auto
    with True show ?thesis
      unfolding bm_bits_update [OF assms(1) i assms(3)] using assms(1,3)
      by (simp add: mem_bm_bits assms(4)) 
  next
    case False
    then show ?thesis unfolding bm_bits_update [OF assms(1) i assms(3)] by auto
  qed
qed

lemma bit_index_bounds:
  assumes "0 \<le> k" and "k \<le> INT_MAX"
  shows "cdiv k 8 = Some (k div 8)" and "cmod k 8 = Some (k mod 8)"
  using assms by (simp_all add: c_simps INT_MAX_def)

lemma bm_bytes_for_eq:
  assumes "0 \<le> n" and "n \<le> INT_MAX"
  shows "bm_bytes_for n = Some ((n + 7) div 8)"
proof -
  have "(8 * (n div 8) + (n mod 8 + 7)) div 8 = n div 8 + (n mod 8 + 7) div 8"
    by (simp only: div_mult_self4 zero_neq_numeral not_False_eq_True)
  moreover have "(n mod 8 + 7) div 8 = (if n mod 8 = 0 then 0 else 1)"
  proof (cases "n mod 8 = 0")
    case False
    moreover have "0 \<le> n mod 8" "n mod 8 < 8" by simp_all
    ultimately show ?thesis by auto
  qed auto
  ultimately have "n div 8 + (if n mod 8 = 0 then 0 else 1) = (n + 7) div 8"
    by (simp add: add.assoc [symmetric])
  moreover have "(n + 7) div 8 \<le> INT_MAX" using assms by (auto simp: INT_MAX_def)
  moreover have "INT_MIN \<le> (n + 7) div 8" using assms by (auto simp: INT_MIN_def)
  ultimately show ?thesis
    by (simp add: bm_bytes_for_def bit_index_bounds assms)
qed

section \<open>Initialisation\<close>

lemma bm_fill_replicate:
  assumes "bm_bitmap b = Some bs" and "bm_array_size b = int (length bs)" and "int (length bs) < 2 ^ 64"
  shows "bm_fill b x = Some (b\<lparr>bm_bitmap := Some (replicate (length bs) x)\<rparr>)"
  using assms by (simp add: bm_fill_def size_t_nonneg)

lemma bm_bits_replicate0 [simp]: "bm_bits (b\<lparr>bm_bitmap := Some (replicate n 0)\<rparr>) = {}"
  by (auto simp: bm_bits_def nat_less_iff)

lemma ocoms_bitmap_init_ok:
  assumes "malloc_ok malloc" and "malloc (nat ((n + 7) div 8)) = Some bs"
    and "0 < n" and "n \<le> bm_max_size b" and "n \<le> INT_MAX - 7"
  shows "\<exists>b'. ocoms_bitmap_init malloc (Some b) n = Some (OCOMS_SUCCESS, Some b')
    \<and> bm_wf b' \<and> bm_bits b' = {} \<and> bm_array_size b' = (n + 7) div 8
    \<and> bm_max_size b' = bm_max_size b"
proof -
  have len: "length bs = nat ((n + 7) div 8)" using assms(1,2) by (rule malloc_okD)
  have sz: "size_t ((n + 7) div 8) = nat ((n + 7) div 8)"
    using assms by (intro size_t_nonneg) (auto simp: INT_MAX_def)
  have pos: "0 < (n + 7) div 8" and small: "(n + 7) div 8 * 8 \<le> INT_MAX" using assms by linarith+
  have "int (length bs) < 2 ^ 64" using len small pos by (simp add: INT_MAX_def)
  then show ?thesis
    using assms pos small
    by (simp add: ocoms_bitmap_init_def bm_bytes_for_eq sz Let_def ocoms_bitmap_clear_all_bits_def
        bm_fill_replicate len bm_wf_def)
qed

section \<open>Single bits\<close>

lemma ocoms_bitmap_is_set_bit_iff:
  assumes "bm_wf b"
  shows "ocoms_bitmap_is_set_bit (Some b) k = Some (k \<in> bm_bits b)"
proof (cases "0 \<le> k \<and> k < 8 * bm_array_size b")
  case True
  from assms obtain bs where bs: "bm_bitmap b = Some bs" "bm_array_size b = int (length bs)"
    "int (length bs) * 8 \<le> INT_MAX" by (rule bm_wfE)
  have "k \<le> INT_MAX" and "k div 8 < int (length bs)" and "0 \<le> k div 8" using True bs by auto
  moreover have "chk (bm_array_size b * 8) = Some (bm_array_size b * 8)"
    using bs by (simp add: INT_MIN_def)
  ultimately show ?thesis
    using True bs by (simp add: ocoms_bitmap_is_set_bit_def bit_index_bounds c_simps and_pow2 bm_bits_def)
next
  case False
  then have "k \<notin> bm_bits b" using assms bm_bits_bounds [of k b] bm_bits_outside [of b k] by auto
  moreover from assms have "chk (bm_array_size b * 8) = Some (bm_array_size b * 8)"
    by (simp add: bm_wf_def INT_MIN_def)
  ultimately show ?thesis using False by (auto simp: ocoms_bitmap_is_set_bit_def mult.commute)
qed

lemma bm_wf_update:
  "bm_wf b \<Longrightarrow> bm_bitmap b = Some bs \<Longrightarrow> length bs' = length bs \<Longrightarrow> bm_wf (b\<lparr>bm_bitmap := Some bs'\<rparr>)"
  by (auto simp: bm_wf_def)

lemma bm_or_at_bit:
  assumes "bm_wf b" and "0 \<le> k" and "k div 8 < bm_array_size b"
  shows "\<exists>b'. bm_or_at b (k div 8) (push_bit (nat (k mod 8)) 1) = Some b' \<and> bm_wf b'
    \<and> bm_bits b' = insert k (bm_bits b) \<and> bm_array_size b' = bm_array_size b
    \<and> bm_max_size b' = bm_max_size b"
proof -
  from assms(1) obtain bs where bs: "bm_bitmap b = Some bs" "bm_array_size b = int (length bs)"
    by (rule bm_wfE)
  have i: "0 \<le> k div 8" "k div 8 < int (length bs)" using assms bs by auto
  let ?x = "bs ! nat (k div 8) OR push_bit (nat (k mod 8)) 1"
  have "bm_bits (b\<lparr>bm_bitmap := Some (bs[nat (k div 8) := ?x])\<rparr>) = insert k (bm_bits b)"
    using bs(1) assms(2) i(2) by (rule bm_bits_set1) (simp add: byte_or_bit)
  moreover have "bm_or_at b (k div 8) (push_bit (nat (k mod 8)) 1)
      = Some (b\<lparr>bm_bitmap := Some (bs[nat (k div 8) := ?x])\<rparr>)"
    using bs i by (simp add: bm_or_at_def c_simps)
  ultimately show ?thesis using assms(1) bs by (simp add: bm_wf_update)
qed

lemma ocoms_bitmap_clear_bit_ok:
  assumes "bm_wf b" and "0 \<le> k" and "k < 8 * bm_array_size b"
  shows "\<exists>b'. ocoms_bitmap_clear_bit (Some b) k = Some (OCOMS_SUCCESS, Some b') \<and> bm_wf b'
    \<and> bm_bits b' = bm_bits b - {k} \<and> bm_array_size b' = bm_array_size b"
proof -
  from assms(1) obtain bs where bs: "bm_bitmap b = Some bs" "bm_array_size b = int (length bs)"
    "int (length bs) * 8 \<le> INT_MAX" by (rule bm_wfE)
  have i: "0 \<le> k div 8" "k div 8 < int (length bs)" and k: "k \<le> INT_MAX" using assms bs by auto
  let ?x = "bs ! nat (k div 8) AND NOT (push_bit (nat (k mod 8)) 1)"
  have "bm_bits (b\<lparr>bm_bitmap := Some (bs[nat (k div 8) := ?x])\<rparr>) = bm_bits b - {k}"
    using bs(1) assms(2) i(2) by (rule bm_bits_clear1) (simp add: byte_andnot_bit)
  moreover have "chk (bm_array_size b * 8) = Some (bm_array_size b * 8)"
    using bs by (simp add: INT_MIN_def)
  then have "ocoms_bitmap_clear_bit (Some b) k
      = Some (OCOMS_SUCCESS, Some (b\<lparr>bm_bitmap := Some (bs[nat (k div 8) := ?x])\<rparr>))"
    using bs i k assms by (simp add: ocoms_bitmap_clear_bit_def bit_index_bounds c_simps)
  ultimately show ?thesis using assms(1) bs by (simp add: bm_wf_update)
qed

section \<open>Growing\<close>

lemma grow_size:
  fixes i n :: int
  assumes "0 < n" and "n \<le> i"
  shows "i < (i div n + 1) * n" and "(i div n + 1) * n \<le> i + n"
proof -
  have "i = i div n * n + i mod n" and "0 \<le> i mod n" and "i mod n < n" using assms by simp_all
  then show "i < (i div n + 1) * n" and "(i div n + 1) * n \<le> i + n"
    by (simp_all only: distrib_right mult_1)
qed

lemma bm_bits_append0:
  assumes "bm_bitmap b = Some bs"
  shows "bm_bits (b\<lparr>bm_bitmap := Some (bs @ replicate m 0), bm_array_size := n\<rparr>) = bm_bits b"
proof -
  have *: "bit ((bs @ replicate m 0) ! nat (k div 8)) (nat (k mod 8)) \<longleftrightarrow>
      k < 8 * int (length bs) \<and> bit (bs ! nat (k div 8)) (nat (k mod 8))"
    if "0 \<le> k" and "k < 8 * (int (length bs) + int m)" for k
  proof (cases "k < 8 * int (length bs)")
    case True
    with that have "nat (k div 8) < length bs" by (simp add: nat_less_iff)
    with True show ?thesis by (simp add: nth_append)
  next
    case False
    with that have "k div 8 < int (length bs + m)" and "\<not> k div 8 < int (length bs)" by auto
    with that have "nat (k div 8) < length bs + m" and "\<not> nat (k div 8) < length bs" by auto
    with False show ?thesis by (simp add: nth_append_replicate)
  qed
  then show ?thesis using assms by (auto simp: bm_bits_def)
qed

lemma bm_grow_ok:
  assumes wf: "bm_wf b" and i: "bm_array_size b \<le> i" and small: "(i + bm_array_size b) * 8 \<le> INT_MAX"
    and m: "malloc_ok malloc" "malloc (nat ((i div bm_array_size b + 1) * bm_array_size b)) \<noteq> None"
  shows "\<exists>b'. bm_grow malloc b i = Some (OCOMS_SUCCESS, b') \<and> bm_wf b' \<and> bm_bits b' = bm_bits b
    \<and> i < bm_array_size b' \<and> bm_max_size b' = bm_max_size b"
proof -
  from wf obtain bs where bs: "bm_bitmap b = Some bs" "bm_array_size b = int (length bs)"
    "bs \<noteq> []" by (rule bm_wfE)
  let ?n = "bm_array_size b" and ?s = "(i div bm_array_size b + 1) * bm_array_size b"
  have n: "0 < ?n" using bs by simp
  note s = grow_size [OF n i]
  have q: "0 \<le> i div ?n" "i div ?n \<le> i"
    using n i zdiv_mono2 [of i 1 ?n] by (simp_all add: pos_imp_zdiv_nonneg_iff)
  have d: "cdiv i ?n = Some (i div ?n)" "chk (i div ?n + 1) = Some (i div ?n + 1)"
    "chk ?s = Some ?s"
    using n i small s q by (simp_all add: c_simps INT_MIN_def)
  have "int (length bs) < ?s" "0 < ?s" using s(1) i n bs(2) by linarith+
  moreover have "?s < 2 ^ 64" using s(2) small by (simp add: INT_MAX_def)
  moreover have "?s - ?n < 2 ^ 64" using n \<open>?s < 2 ^ 64\<close> by linarith
  ultimately have big: "int (length bs) < ?s" "0 < ?s" "?s < 2 ^ 64" "?s - ?n < 2 ^ 64" .
  then have sz: "size_t ?s = nat ?s" "size_t (?s - ?n) = nat (?s - ?n)"
    using bs by (intro size_t_nonneg; simp)+
  from m(2) obtain fresh where f: "malloc (nat ?s) = Some fresh" by blast
  then obtain junk where junk: "realloc malloc (Some bs) (nat ?s) = Some (bs @ junk)"
      "length junk = nat ?s - length bs"
    using realloc_grow [OF m(1), of bs "nat ?s" "the (realloc malloc (Some bs) (nat ?s))"] big
    by (auto simp: realloc_def)
  have "memset_at (bs @ junk) (nat ?n) (nat (?s - ?n)) 0 = Some (bs @ replicate (nat (?s - ?n)) 0)"
    using bs junk memset_at_tail [of junk "nat (?s - ?n)" bs 0] by (simp add: nat_diff_distrib)
  then have "bm_grow malloc b i = Some (OCOMS_SUCCESS,
      b\<lparr>bm_bitmap := Some (bs @ replicate (nat (?s - ?n)) 0), bm_array_size := ?s\<rparr>)"
    using d sz junk bs by (simp add: bm_grow_def)
  moreover have "bm_wf (b\<lparr>bm_bitmap := Some (bs @ replicate (nat (?s - ?n)) 0), bm_array_size := ?s\<rparr>)"
    using big bs s small by (simp add: bm_wf_def)
  ultimately show ?thesis using s bs by (simp add: bm_bits_append0)
qed

text \<open>Setting a bit inserts it into the set, growing the array when it has to.\<close>

lemma bm_set_bit_ok:
  assumes wf: "bm_wf b" and k: "0 \<le> k" "k \<le> bm_max_size b" "k \<le> INT_MAX"
    and small: "bm_array_size b \<le> k div 8 \<Longrightarrow> (k div 8 + bm_array_size b) * 8 \<le> INT_MAX"
    and m: "malloc_ok malloc" "\<And>n. malloc n \<noteq> None"
  shows "\<exists>b'. ocoms_bitmap_set_bit malloc (Some b) k = Some (OCOMS_SUCCESS, Some b') \<and> bm_wf b'
    \<and> bm_bits b' = insert k (bm_bits b) \<and> bm_max_size b' = bm_max_size b"
proof -
  obtain g where g: "(if bm_array_size b \<le> k div 8 then bm_grow malloc b (k div 8)
        else Some (OCOMS_SUCCESS, b)) = Some (OCOMS_SUCCESS, g)"
      "bm_wf g" "bm_bits g = bm_bits b" "k div 8 < bm_array_size g" "bm_max_size g = bm_max_size b"
    using bm_grow_ok [OF wf _ small m(1)] m(2) wf by (cases "bm_array_size b \<le> k div 8") auto
  obtain b' where "bm_or_at g (k div 8) (push_bit (nat (k mod 8)) 1) = Some b'" "bm_wf b'"
      "bm_bits b' = insert k (bm_bits g)" "bm_max_size b' = bm_max_size g"
    using bm_or_at_bit [OF g(2) k(1) g(4)] by blast
  with g k show ?thesis by (simp add: ocoms_bitmap_set_bit_def bit_index_bounds)
qed

section \<open>The first unset bit\<close>

lemma bytes_all: "(\<forall>w::8 word. P w) \<longleftrightarrow> list_all (\<lambda>k. P (word_of_nat k)) [0..<256]"
proof
  assume "list_all (\<lambda>k. P (word_of_nat k)) [0..<256]"
  then have *: "P (word_of_nat k)" if "k < 256" for k using that by (simp add: list_all_iff)
  show "\<forall>w::8 word. P w"
  proof
    fix w :: "8 word"
    have "unat w < 256" using unsigned_less [of w] by simp
    from * [OF this] show "P w" by simp
  qed
qed (simp add: list_all_iff)

text \<open>
  The inner loop counts the low ones of a byte that is not full, and \<open>x OR (x + 1)\<close> sets the lowest
  clear bit and no other.  Both are checked on every byte.
\<close>

lemma byte_lowest_clear:
  "\<forall>w::8 word. w \<noteq> 255 \<longrightarrow> list_ex (\<lambda>n. bm_trailing_ones w 0 = int n \<and> \<not> bit w n
     \<and> list_all (bit w) [0..<n] \<and> w OR (w + 1) = w OR 2 ^ n) [0..<8]"
  unfolding bytes_all by code_simp

lemma bm_trailing_onesE:
  fixes w :: "8 word"
  assumes "w \<noteq> 255"
  obtains n where "n < 8" and "bm_trailing_ones w 0 = int n" and "\<not> bit w n"
    and "\<forall>j < n. bit w j" and "w OR (w + 1) = w OR 2 ^ n"
proof -
  from byte_lowest_clear assms obtain n where "n \<in> set [0..<8]"
    and "bm_trailing_ones w 0 = int n \<and> \<not> bit w n \<and> list_all (bit w) [0..<n] \<and> w OR (w + 1) = w OR 2 ^ n"
    unfolding list_ex_iff by blast
  then show thesis by (intro that [of n]) (auto simp: list_all_iff)
qed

lemma bm_skip_full_spec:
  "n = int (length bs) \<Longrightarrow> 0 \<le> i \<Longrightarrow> i \<le> n \<Longrightarrow>
   \<exists>j. bm_skip_full bs n i = Some j \<and> i \<le> j \<and> j \<le> n
     \<and> (\<forall>k. i \<le> k \<and> k < j \<longrightarrow> bs ! nat k = 255) \<and> (j < n \<longrightarrow> bs ! nat j \<noteq> 255)"
proof (induction bs n i rule: bm_skip_full.induct)
  case (1 bs n i)
  show ?case
  proof (cases "i < n \<and> bs ! nat i = 255")
    case True
    then have "rd bs i = Some 255" using "1.prems" by (simp add: c_simps)
    moreover from this obtain j where "bm_skip_full bs n (i + 1) = Some j" "i + 1 \<le> j" "j \<le> n"
      "\<forall>k. i + 1 \<le> k \<and> k < j \<longrightarrow> bs ! nat k = 255" "j < n \<longrightarrow> bs ! nat j \<noteq> 255"
      using "1.IH" [of 255] "1.prems" True by auto
    moreover from calculation True have "\<forall>k. i \<le> k \<and> k < j \<longrightarrow> bs ! nat k = 255"
      by (metis add1_zle_eq order_le_less)
    ultimately show ?thesis using True by (auto simp: bm_skip_full.simps [of bs n i])
  next
    case False
    then have "bm_skip_full bs n i = Some i" using "1.prems"
      by (subst bm_skip_full.simps) (auto simp: c_simps)
    moreover have "i < n \<longrightarrow> bs ! nat i \<noteq> 255" using False by simp
    ultimately show ?thesis using "1.prems" by auto
  qed
qed

lemma full_byte_bits:
  assumes "bm_bitmap b = Some bs" and "0 \<le> k" and "k div 8 < int (length bs)"
    and "bs ! nat (k div 8) = 255"
  shows "k \<in> bm_bits b"
proof -
  have "list_all (bit (255 :: 8 word)) [0..<8]" by code_simp
  then have "bit (255 :: 8 word) n" if "n < 8" for n using that by (simp add: list_all_iff)
  then show ?thesis using assms by (simp add: mem_bm_bits)
qed

lemma bm_find_in_byte:
  assumes wf: "bm_wf b" and bs: "bm_bitmap b = Some bs" and i: "0 \<le> i" "i < int (length bs)"
    and full: "\<forall>k. 0 \<le> k \<and> k < i \<longrightarrow> bs ! nat k = 255" and w: "bs ! nat i \<noteq> 255"
  shows "\<exists>p b'. bm_or_at b i (bs ! nat i + 1) = Some b' \<and> p = bm_trailing_ones (bs ! nat i) 0 + i * 8
    \<and> bm_wf b' \<and> 0 \<le> p \<and> p < 8 * int (length bs) \<and> p \<notin> bm_bits b
    \<and> (\<forall>q. 0 \<le> q \<and> q < p \<longrightarrow> q \<in> bm_bits b) \<and> bm_bits b' = insert p (bm_bits b)
    \<and> bm_array_size b' = bm_array_size b \<and> bm_max_size b' = bm_max_size b"
proof -
  from w obtain n where n: "n < 8" "bm_trailing_ones (bs ! nat i) 0 = int n" "\<not> bit (bs ! nat i) n"
    "\<forall>j < n. bit (bs ! nat i) j" "bs ! nat i OR (bs ! nat i + 1) = bs ! nat i OR 2 ^ n"
    by (rule bm_trailing_onesE)
  define p where "p = int n + i * 8"
  have p: "p div 8 = i" "p mod 8 = int n" using n(1) by (simp_all add: p_def)
  have "0 \<le> p" "p < 8 * int (length bs)" using n(1) i by (simp_all add: p_def)
  moreover have "p \<notin> bm_bits b" using n(3) by (simp add: mem_bm_bits [OF bs] p)
  moreover have "\<forall>q. 0 \<le> q \<and> q < p \<longrightarrow> q \<in> bm_bits b"
  proof (intro allI impI)
    fix q assume q: "0 \<le> q \<and> q < p"
    show "q \<in> bm_bits b"
    proof (cases "q div 8 < i")
      case True
      then show ?thesis using q full i by (intro full_byte_bits [OF bs]) auto
    next
      case False
      then have "q div 8 = i" "q mod 8 < int n"
        using q p zdiv_mono1 [of q p 8] by (simp_all add: p_def) presburger+
      then show ?thesis using q i n(4) by (simp add: mem_bm_bits [OF bs] nat_less_iff)
    qed
  qed
  moreover have "bm_or_at b i (bs ! nat i + 1) = bm_or_at b (p div 8) (push_bit (nat (p mod 8)) 1)"
    using bs i n(5) by (simp add: bm_or_at_def c_simps p)
  moreover have "p div 8 < bm_array_size b" using p i wf bs by (auto simp: bm_wf_def)
  ultimately show ?thesis using bm_or_at_bit [OF wf, of p] n(2) by (auto simp: p_def)
qed

lemma bm_find_first_ok:
  assumes wf: "bm_wf b" and m: "malloc_ok malloc" "\<And>n. malloc n \<noteq> None"
    and room: "\<forall>q. 0 \<le> q \<and> q < 8 * bm_array_size b \<longrightarrow> q \<in> bm_bits b
      \<Longrightarrow> 8 * bm_array_size b \<le> bm_max_size b \<and> 2 * bm_array_size b * 8 \<le> INT_MAX"
  shows "\<exists>p b'. ocoms_bitmap_find_and_set_first_unset_bit malloc (Some b) pos
      = Some (OCOMS_SUCCESS, p, Some b') \<and> bm_wf b' \<and> 0 \<le> p \<and> p \<notin> bm_bits b
    \<and> (\<forall>q. 0 \<le> q \<and> q < p \<longrightarrow> q \<in> bm_bits b) \<and> bm_bits b' = insert p (bm_bits b)"
proof -
  from wf obtain bs where bs: "bm_bitmap b = Some bs" "bm_array_size b = int (length bs)" "bs \<noteq> []"
    "int (length bs) * 8 \<le> INT_MAX" by (rule bm_wfE)
  obtain i where i: "bm_skip_full bs (bm_array_size b) 0 = Some i" "0 \<le> i" "i \<le> bm_array_size b"
    "\<forall>k. 0 \<le> k \<and> k < i \<longrightarrow> bs ! nat k = 255" "i < bm_array_size b \<longrightarrow> bs ! nat i \<noteq> 255"
    using bm_skip_full_spec [OF bs(2), of 0] bs(2) by auto
  show ?thesis
  proof (cases "i = bm_array_size b")
    case True
    let ?p = "8 * bm_array_size b"
    have full: "\<forall>q. 0 \<le> q \<and> q < ?p \<longrightarrow> q \<in> bm_bits b"
    proof (intro allI impI full_byte_bits [OF bs(1)])
      fix q assume q: "0 \<le> q \<and> q < ?p"
      then have "q div 8 < i" and "0 \<le> q div 8" using True by auto
      with i(4) show "bs ! nat (q div 8) = 255" by blast
    qed (use bs(2) in auto)
    note r = room [OF full]
    have "?p \<notin> bm_bits b" using bm_bits_outside [OF wf] by simp
    moreover have "?p \<le> INT_MAX" using bs by simp
    moreover obtain b' where "ocoms_bitmap_set_bit malloc (Some b) ?p = Some (OCOMS_SUCCESS, Some b')"
      "bm_wf b'" "bm_bits b' = insert ?p (bm_bits b)"
      using bm_set_bit_ok [OF wf, of ?p malloc] m r bs by auto
    ultimately show ?thesis using True i bs full
      by (simp add: ocoms_bitmap_find_and_set_first_unset_bit_def mult.commute INT_MIN_def)
  next
    case False
    with i have lt: "i < int (length bs)" "bs ! nat i \<noteq> 255" using bs by auto
    obtain p b' where p: "bm_or_at b i (bs ! nat i + 1) = Some b'"
      "p = bm_trailing_ones (bs ! nat i) 0 + i * 8" "bm_wf b'" "0 \<le> p" "p < 8 * int (length bs)"
      "p \<notin> bm_bits b" "\<forall>q. 0 \<le> q \<and> q < p \<longrightarrow> q \<in> bm_bits b" "bm_bits b' = insert p (bm_bits b)"
      using bm_find_in_byte [OF wf bs(1) i(2) lt(1) i(4) lt(2)] by blast
    have "chk (i * 8) = Some (i * 8)" "chk p = Some p"
      using i p bs lt by (simp_all add: INT_MIN_def)
    then show ?thesis using False i lt p bs
      by (simp add: ocoms_bitmap_find_and_set_first_unset_bit_def c_simps)
  qed
qed

section \<open>Properties\<close>

text \<open>
  setting a bit in range returns success, keeps the invariant, and afterwards exactly that bit
  is set in addition to those that were set, as observed with \<open>ocoms_bitmap_is_set_bit\<close> at every
  index, also when the array had to grow.
\<close>

theorem set_bit_then_test:
  assumes "bm_wf b" and "0 \<le> k" and "k \<le> bm_max_size b" and "k \<le> INT_MAX"
    and "bm_array_size b \<le> k div 8 \<longrightarrow> (k div 8 + bm_array_size b) * 8 \<le> INT_MAX"
    and "malloc_ok malloc" and "\<forall>n. malloc n \<noteq> None"
  shows "\<exists>b'. ocoms_bitmap_set_bit malloc (Some b) k = Some (OCOMS_SUCCESS, Some b') \<and> bm_wf b'
    \<and> (\<forall>j. ocoms_bitmap_is_set_bit (Some b') j
            = Some (j = k \<or> ocoms_bitmap_is_set_bit (Some b) j = Some True))"
proof -
  obtain b' where b': "ocoms_bitmap_set_bit malloc (Some b) k = Some (OCOMS_SUCCESS, Some b')"
    "bm_wf b'" "bm_bits b' = insert k (bm_bits b)"
    using bm_set_bit_ok [OF assms(1-4)] assms(5-7) by blast
  then show ?thesis
    by (auto simp: ocoms_bitmap_is_set_bit_iff assms(1))
qed

theorem set_bit_then_test_witness:
  "\<exists>b'. ocoms_bitmap_set_bit (\<lambda>n. Some (replicate n 7))
       (Some \<lparr>bm_bitmap = Some [0], bm_array_size = 1, bm_max_size = INT_MAX\<rparr>) 12
     = Some (OCOMS_SUCCESS, Some b') \<and> bm_wf b'
    \<and> (\<forall>j. ocoms_bitmap_is_set_bit (Some b') j = Some (j = 12 \<or> ocoms_bitmap_is_set_bit
         (Some \<lparr>bm_bitmap = Some [0], bm_array_size = 1, bm_max_size = INT_MAX\<rparr>) j = Some True))"
  by (rule set_bit_then_test) (simp_all add: bm_wf_def INT_MAX_def)

text \<open>
  C1: \<open>ocoms_bitmap_find_and_set_first_unset_bit\<close> returns the least clear index and sets it, and
  grows the bitmap when every bit below its size is set.
\<close>

theorem find_first_unset_least:
  assumes "bm_wf b" and "malloc_ok malloc" and "\<forall>n. malloc n \<noteq> None"
    and "8 * bm_array_size b \<le> bm_max_size b" and "2 * bm_array_size b * 8 \<le> INT_MAX"
  shows "\<exists>p b'. ocoms_bitmap_find_and_set_first_unset_bit malloc (Some b) pos
      = Some (OCOMS_SUCCESS, p, Some b') \<and> bm_wf b' \<and> 0 \<le> p
    \<and> ocoms_bitmap_is_set_bit (Some b) p = Some False
    \<and> (\<forall>q. 0 \<le> q \<and> q < p \<longrightarrow> ocoms_bitmap_is_set_bit (Some b) q = Some True)
    \<and> (\<forall>j. ocoms_bitmap_is_set_bit (Some b') j
            = Some (j = p \<or> ocoms_bitmap_is_set_bit (Some b) j = Some True))"
proof -
  obtain p b' where "ocoms_bitmap_find_and_set_first_unset_bit malloc (Some b) pos
      = Some (OCOMS_SUCCESS, p, Some b')" "bm_wf b'" "0 \<le> p" "p \<notin> bm_bits b"
    "\<forall>q. 0 \<le> q \<and> q < p \<longrightarrow> q \<in> bm_bits b" "bm_bits b' = insert p (bm_bits b)"
    using bm_find_first_ok [OF assms(1,2), of pos] assms(3-5) by blast
  then show ?thesis by (auto simp: ocoms_bitmap_is_set_bit_iff assms(1))
qed

theorem find_first_unset_least_witness:
  "\<exists>p b'. ocoms_bitmap_find_and_set_first_unset_bit (\<lambda>n. Some (replicate n 0))
       (Some \<lparr>bm_bitmap = Some [255], bm_array_size = 1, bm_max_size = INT_MAX\<rparr>) 0
      = Some (OCOMS_SUCCESS, p, Some b') \<and> bm_wf b' \<and> 0 \<le> p
    \<and> ocoms_bitmap_is_set_bit (Some \<lparr>bm_bitmap = Some [255], bm_array_size = 1, bm_max_size = INT_MAX\<rparr>) p
        = Some False
    \<and> (\<forall>q. 0 \<le> q \<and> q < p \<longrightarrow> ocoms_bitmap_is_set_bit
        (Some \<lparr>bm_bitmap = Some [255], bm_array_size = 1, bm_max_size = INT_MAX\<rparr>) q = Some True)
    \<and> (\<forall>j. ocoms_bitmap_is_set_bit (Some b') j = Some (j = p \<or> ocoms_bitmap_is_set_bit
        (Some \<lparr>bm_bitmap = Some [255], bm_array_size = 1, bm_max_size = INT_MAX\<rparr>) j = Some True))"
  by (rule find_first_unset_least) (simp_all add: bm_wf_def INT_MAX_def)

text \<open>
  \<open>ocoms_bitmap_set_max_size\<close> takes a number of bits but stores a number of bytes, which
  \<open>ocoms_bitmap_set_bit\<close> compares with bit indices: after a limit of \<open>n\<close> bits, every bit above
  \<open>n/8\<close> (rounded up) is refused, although it lies below the limit.
\<close>

theorem max_size_counts_bytes:
  assumes "0 \<le> n" and "n \<le> INT_MAX" and "(n + 7) div 8 < k"
  shows "\<exists>b'. ocoms_bitmap_set_max_size (Some b) n = Some (OCOMS_SUCCESS, Some b')
    \<and> ocoms_bitmap_set_bit malloc (Some b') k = Some (OCOMS_ERR_BAD_PARAM, Some b')"
  using assms by (simp add: ocoms_bitmap_set_max_size_def bm_bytes_for_eq ocoms_bitmap_set_bit_def)

theorem max_size_counts_bytes_witness:
  "\<exists>b'. ocoms_bitmap_set_max_size (Some ocoms_bitmap_construct) 64 = Some (OCOMS_SUCCESS, Some b')
    \<and> ocoms_bitmap_set_bit (\<lambda>n. Some (replicate n 0)) (Some b') 9 = Some (OCOMS_ERR_BAD_PARAM, Some b')"
  by (rule max_size_counts_bytes) (simp_all add: INT_MAX_def)

end
