(* ===== verification/Interfaces.thy ===== *)
theory Interfaces
  imports Prelude
begin

text \<open>
  The contracts the components offer each other, as locales.  A keyed store is what the pointer
  array, the hash tables and the environment provide: a partial map that a successful \<open>put\<close>
  updates at one key and a successful \<open>del\<close> clears at one key.  Operations return \<open>None\<close> when the
  code reports an error.  A digest is what the checksum routines provide: a state that
  absorbs bytes piece by piece.  A stack is what the item lists and the LIFO without atomic
  instructions provide.  The clients' lemmas are proved here once.
\<close>

section \<open>Keyed stores\<close>

datatype ('k, 'v) store_op = Put 'k 'v | Del 'k

fun run_store ::
  "('s \<Rightarrow> 'k \<Rightarrow> 'v \<Rightarrow> 's option) \<Rightarrow> ('s \<Rightarrow> 'k \<Rightarrow> 's option) \<Rightarrow> 's \<Rightarrow> ('k, 'v) store_op list \<Rightarrow> 's option" where
  "run_store put del s [] = Some s"
| "run_store put del s (Put k v # ops) = do { s' \<leftarrow> put s k v; run_store put del s' ops }"
| "run_store put del s (Del k # ops) = do { s' \<leftarrow> del s k; run_store put del s' ops }"

text \<open>What the operations mean for the map.\<close>

fun map_ops :: "('k \<rightharpoonup> 'v) \<Rightarrow> ('k, 'v) store_op list \<Rightarrow> ('k \<rightharpoonup> 'v)" where
  "map_ops m [] = m"
| "map_ops m (Put k v # ops) = map_ops (m(k \<mapsto> v)) ops"
| "map_ops m (Del k # ops) = map_ops (m(k := None)) ops"

locale keyed_store =
  fixes inv :: "'s \<Rightarrow> bool" and look :: "'s \<Rightarrow> 'k \<Rightarrow> 'v option"
    and put :: "'s \<Rightarrow> 'k \<Rightarrow> 'v \<Rightarrow> 's option"
  assumes put_inv: "inv s \<Longrightarrow> put s k v = Some s' \<Longrightarrow> inv s'"
    and put_look: "inv s \<Longrightarrow> put s k v = Some s' \<Longrightarrow> look s' = (look s)(k \<mapsto> v)"
begin

lemma put_same: "inv s \<Longrightarrow> put s k v = Some s' \<Longrightarrow> look s' k = Some v"
  by (simp add: put_look)

lemma put_other: "inv s \<Longrightarrow> put s k v = Some s' \<Longrightarrow> k' \<noteq> k \<Longrightarrow> look s' k' = look s k'"
  by (simp add: put_look)

lemma put_overwrites:
  "inv s \<Longrightarrow> put s k v = Some s1 \<Longrightarrow> put s1 k w = Some s2 \<Longrightarrow> look s2 = (look s)(k \<mapsto> w)"
  using put_look [of s k v s1] put_look [of s1 k w s2] put_inv [of s k v s1] by simp

end

locale keyed_store_del = keyed_store inv look put
  for inv :: "'s \<Rightarrow> bool" and look :: "'s \<Rightarrow> 'k \<Rightarrow> 'v option"
    and put :: "'s \<Rightarrow> 'k \<Rightarrow> 'v \<Rightarrow> 's option" +
  fixes del :: "'s \<Rightarrow> 'k \<Rightarrow> 's option"
  assumes del_inv: "inv s \<Longrightarrow> del s k = Some s' \<Longrightarrow> inv s'"
    and del_look: "inv s \<Longrightarrow> del s k = Some s' \<Longrightarrow> look s' = (look s)(k := None)"
begin

lemma del_same: "inv s \<Longrightarrow> del s k = Some s' \<Longrightarrow> look s' k = None"
  by (simp add: del_look)

text \<open>Any sequence of operations that succeeds refines the same sequence on the map.\<close>

lemma run_store_refines:
  "inv s \<Longrightarrow> run_store put del s ops = Some s' \<Longrightarrow> inv s' \<and> look s' = map_ops (look s) ops"
proof (induction ops arbitrary: s)
  case Nil
  then show ?case by simp
next
  case (Cons x ops)
  show ?case
  proof (cases x)
    case (Put k v)
    with Cons.prems obtain s1 where "put s k v = Some s1" "run_store put del s1 ops = Some s'"
      by (auto simp: bind_eq_Some_conv)
    with Cons.IH [of s1] Cons.prems(1) Put show ?thesis by (simp add: put_inv put_look fun_upd_def)
  next
    case (Del k)
    with Cons.prems obtain s1 where "del s k = Some s1" "run_store put del s1 ops = Some s'"
      by (auto simp: bind_eq_Some_conv)
    with Cons.IH [of s1] Cons.prems(1) Del show ?thesis by (simp add: del_inv del_look fun_upd_def)
  qed
qed

end

section \<open>Digests\<close>

text \<open>Feeding pieces of data one after the other.\<close>

fun feed :: "('s \<Rightarrow> 'c \<Rightarrow> 's option) \<Rightarrow> 's \<Rightarrow> 'c list \<Rightarrow> 's option" where
  "feed absorb s [] = Some s"
| "feed absorb s (c # cs) = do { s' \<leftarrow> absorb s c; feed absorb s' cs }"

text \<open>
  A digest absorbs a piece when the piece is acceptable; the state it reaches is a function
  \<open>result\<close> of the old state and of the bytes of the piece, and absorbing is compositional.
\<close>

locale digest =
  fixes inv :: "'s \<Rightarrow> bool" and ok :: "'c \<Rightarrow> bool" and data :: "'c \<Rightarrow> 'b list"
    and absorb :: "'s \<Rightarrow> 'c \<Rightarrow> 's option" and result :: "'s \<Rightarrow> 'b list \<Rightarrow> 's"
  assumes absorb: "inv s \<Longrightarrow> ok c \<Longrightarrow> absorb s c = Some (result s (data c))"
    and result_inv: "inv s \<Longrightarrow> inv (result s bs)"
    and result_nil: "inv s \<Longrightarrow> result s [] = s"
    and result_append: "inv s \<Longrightarrow> result (result s a) b = result s (a @ b)"
begin

lemma feed_result:
  "inv s \<Longrightarrow> \<forall>c \<in> set cs. ok c \<Longrightarrow> feed absorb s cs = Some (result s (concat (map data cs)))"
  by (induction cs arbitrary: s) (simp_all add: absorb result_inv result_nil result_append)

text \<open>How the data is cut into pieces does not matter.\<close>

lemma feed_segmentation:
  "inv s \<Longrightarrow> \<forall>c \<in> set cs \<union> set ds. ok c \<Longrightarrow> concat (map data cs) = concat (map data ds) \<Longrightarrow>
   feed absorb s cs = feed absorb s ds"
  by (simp add: feed_result)

end

section \<open>Stacks\<close>

datatype 'a stack_op = Push 'a | Pop

fun run_stack ::
  "('s \<Rightarrow> 'a \<Rightarrow> 's option) \<Rightarrow> ('s \<Rightarrow> ('a option \<times> 's) option) \<Rightarrow> 's \<Rightarrow> 'a stack_op list \<Rightarrow> ('a option list \<times> 's) option" where
  "run_stack push pop s [] = Some ([], s)"
| "run_stack push pop s (Push x # ops) = do { s' \<leftarrow> push s x; run_stack push pop s' ops }"
| "run_stack push pop s (Pop # ops) = do { (r, s1) \<leftarrow> pop s; (rs, s2) \<leftarrow> run_stack push pop s1 ops; Some (r # rs, s2) }"

text \<open>The same on the sequence of the items, where \<open>ok\<close> says which items may be pushed.\<close>

fun stack_spec :: "('a list \<Rightarrow> 'a \<Rightarrow> bool) \<Rightarrow> 'a list \<Rightarrow> 'a stack_op list \<Rightarrow> ('a option list \<times> 'a list) option" where
  "stack_spec ok xs [] = Some ([], xs)"
| "stack_spec ok xs (Push x # ops) = (if ok xs x then stack_spec ok (x # xs) ops else None)"
| "stack_spec ok [] (Pop # ops) = do { (rs, ys) \<leftarrow> stack_spec ok [] ops; Some (None # rs, ys) }"
| "stack_spec ok (x # xs) (Pop # ops) = do { (rs, ys) \<leftarrow> stack_spec ok xs ops; Some (Some x # rs, ys) }"

locale stack =
  fixes rep :: "'s \<Rightarrow> 'a list \<Rightarrow> bool" and ok :: "'a list \<Rightarrow> 'a \<Rightarrow> bool"
    and push :: "'s \<Rightarrow> 'a \<Rightarrow> 's option" and pop :: "'s \<Rightarrow> ('a option \<times> 's) option"
  assumes push_rep: "rep s xs \<Longrightarrow> ok xs x \<Longrightarrow> \<exists>s'. push s x = Some s' \<and> rep s' (x # xs)"
    and pop_rep: "rep s (x # xs) \<Longrightarrow> \<exists>s'. pop s = Some (Some x, s') \<and> rep s' xs"
    and pop_nil: "rep s [] \<Longrightarrow> \<exists>s'. pop s = Some (None, s') \<and> rep s' []"
begin

lemma run_stack_refines:
  "rep s xs \<Longrightarrow> stack_spec ok xs ops = Some (rs, ys) \<Longrightarrow> \<exists>s'. run_stack push pop s ops = Some (rs, s') \<and> rep s' ys"
proof (induction ops arbitrary: s xs rs)
  case Nil
  then show ?case by (cases xs) auto
next
  case (Cons oper ops)
  show ?case
  proof (cases oper)
    case (Push x)
    with Cons.prems have "ok xs x" "stack_spec ok (x # xs) ops = Some (rs, ys)" by (cases xs; simp split: if_splits)+
    moreover from this obtain s1 where "push s x = Some s1" "rep s1 (x # xs)" using push_rep [OF Cons.prems(1)] by blast
    ultimately show ?thesis using Cons.IH [of s1 "x # xs" rs] Push by auto
  next
    case Pop
    show ?thesis
    proof (cases xs)
      case Nil
      with Cons.prems Pop obtain rs' where "stack_spec ok [] ops = Some (rs', ys)" "rs = None # rs'" by (auto simp: bind_eq_Some_conv)
      moreover obtain s1 where "pop s = Some (None, s1)" "rep s1 []" using pop_nil [of s] Cons.prems(1) Nil by blast
      ultimately show ?thesis using Cons.IH [of s1 "[]" rs'] Pop by auto
    next
      case prev: (Cons x r)
      with Cons.prems(2) Pop obtain rs' where "stack_spec ok r ops = Some (rs', ys)" "rs = Some x # rs'" by (auto simp: bind_eq_Some_conv)
      moreover obtain s1 where "pop s = Some (Some x, s1)" "rep s1 r" using pop_rep [of s x r] Cons.prems(1) prev by blast
      ultimately show ?thesis using Cons.IH [of s1 r rs'] Pop by auto
    qed
  qed
qed

end

end
