(* ===== verification/Pointer_Array.thy ===== *)
theory Pointer_Array
  imports Interfaces
begin

text \<open>
  The growing table of pointers of \<open>ocoms/util/ocoms_pointer_array.c\<close> and its inline functions in
  \<open>ocoms_pointer_array.h\<close>.  A pointer is an option (\<open>None\<close> is the null pointer, which marks a free
  slot); the table keeps its size, the number of free slots and the lowest free index.  The lock
  taken around every operation is not part of the state: the operations are the critical sections.
\<close>

section \<open>Model\<close>

record 'p parray =
  pa_lowest_free :: int
  pa_number_free :: int
  pa_size :: int
  pa_max_size :: int
  pa_block_size :: int
  pa_addr :: "'p option list option"

definition TABLE_INIT :: int where "TABLE_INIT = 1"
definition TABLE_GROW :: int where "TABLE_GROW = 2"

text \<open>The bound \<open>configure.ac\<close> defines.\<close>

definition OCOMS_FORTRAN_HANDLE_MAX :: int where "OCOMS_FORTRAN_HANDLE_MAX = 128"

definition ocoms_pointer_array_construct :: "'p parray" where
  "ocoms_pointer_array_construct = \<lparr>pa_lowest_free = 0, pa_number_free = 0, pa_size = 0,
     pa_max_size = INT_MAX, pa_block_size = 0, pa_addr = None\<rparr>"

definition ocoms_pointer_array_destruct :: "'p parray \<Rightarrow> 'p parray" where
  "ocoms_pointer_array_destruct t = t\<lparr>pa_addr := None, pa_size := 0\<rparr>"

text \<open>
  \<open>calloc_ok n\<close> says whether the C library can provide \<open>n\<close> zeroed bytes; pointers take 8.  The
  conversions of the counts to \<open>size_t\<close> and back are the code's.
\<close>

definition ocoms_pointer_array_init ::
  "(nat \<Rightarrow> bool) \<Rightarrow> 'p parray option \<Rightarrow> int \<Rightarrow> int \<Rightarrow> int \<Rightarrow> int \<times> 'p parray option" where
  "ocoms_pointer_array_init calloc_ok a initial_allocation max_size block_size = (case a of
     None \<Rightarrow> (OCOMS_ERR_BAD_PARAM, None)
   | Some t \<Rightarrow>
       if max_size < block_size then (OCOMS_ERR_BAD_PARAM, Some t)
       else
         let n = (if 0 < initial_allocation then initial_allocation else block_size);
             num_bytes = size_norm (size_t n * 8);
             t1 = t\<lparr>pa_max_size := max_size, pa_block_size := block_size,
                    pa_number_free := n, pa_size := n\<rparr>
         in if calloc_ok num_bytes
            then (OCOMS_SUCCESS, Some (t1\<lparr>pa_addr := Some (replicate (num_bytes div 8) None)\<rparr>))
            else (OCOMS_ERR_OUT_OF_RESOURCE, Some (t1\<lparr>pa_addr := None\<rparr>)))"

text \<open>
  The size \<open>grow_table\<close> settles on, or no size when it refuses; then the reallocation, whose new
  cells are set to null.
\<close>

definition pa_new_size :: "'p parray \<Rightarrow> int \<Rightarrow> int \<Rightarrow> int option" where
  "pa_new_size t soft hard =
     (if pa_max_size t < soft \<and> pa_max_size t < hard then None
      else let new_size = (if pa_max_size t < soft then hard else soft)
           in if pa_max_size t \<le> new_size then None else Some new_size)"

definition grow_table ::
  "'p option allocator \<Rightarrow> 'p parray \<Rightarrow> int \<Rightarrow> int \<Rightarrow> (bool \<times> 'p parray) option" where
  "grow_table malloc t soft hard = (case pa_new_size t soft hard of
     None \<Rightarrow> Some (False, t)
   | Some new_size \<Rightarrow>
       (case realloc malloc (pa_addr t) (size_t new_size) of
          None \<Rightarrow> Some (False, t)
        | Some p \<Rightarrow> do {
            free' \<leftarrow> chk (pa_number_free t + (new_size - pa_size t));
            p' \<leftarrow> (if pa_size t < new_size
                  then memset_at p (nat (pa_size t)) (nat (new_size - pa_size t)) None else Some p);
            Some (True, t\<lparr>pa_number_free := free', pa_addr := Some p', pa_size := new_size\<rparr>) }))"

text \<open>The searches for the next free slot: from \<open>i\<close> up to the size, else the given default.\<close>

function pa_next_free :: "'p option list \<Rightarrow> int \<Rightarrow> int \<Rightarrow> int \<Rightarrow> int option" where
  "pa_next_free xs n i dflt =
     (if i < n then do {
        x \<leftarrow> rd xs i;
        if x = None then Some i else pa_next_free xs n (i + 1) dflt }
      else Some dflt)"
  by pat_completeness auto
termination
  by (relation "measure (\<lambda>(xs, n, i, dflt). nat (n - i))") auto

declare pa_next_free.simps [simp del]

definition ocoms_pointer_array_add ::
  "'p option allocator \<Rightarrow> 'p parray \<Rightarrow> 'p option \<Rightarrow> (int \<times> 'p parray) option" where
  "ocoms_pointer_array_add malloc t0 ptr = do {
     r \<leftarrow> (if pa_number_free t0 = 0 then do {
             soft \<leftarrow> (if pa_addr t0 = None then Some TABLE_INIT else chk (pa_size t0 * TABLE_GROW));
             grow_table malloc t0 soft OCOMS_FORTRAN_HANDLE_MAX }
           else Some (True, t0));
     if \<not> fst r then Some (OCOMS_ERR_OUT_OF_RESOURCE, snd r)
     else do {
       let t = snd r;
       assert_c (pa_addr t \<noteq> None \<and> 0 < pa_size t);
       assert_c (0 \<le> pa_lowest_free t \<and> pa_lowest_free t < pa_size t);
       assert_c (0 < pa_number_free t \<and> pa_number_free t \<le> pa_size t);
       let index = pa_lowest_free t;
       xs \<leftarrow> pa_addr t;
       x \<leftarrow> rd xs index;
       assert_c (x = None);
       xs' \<leftarrow> wr xs index ptr;
       let t' = t\<lparr>pa_addr := Some xs', pa_number_free := pa_number_free t - 1\<rparr>;
       low \<leftarrow> (if 0 < pa_number_free t'
               then pa_next_free xs' (pa_size t') (index + 1) (pa_lowest_free t')
               else Some (pa_size t'));
       Some (index, t'\<lparr>pa_lowest_free := low\<rparr>) } }"

text \<open>The size asked for when the given index must fit.\<close>

definition pa_soft_for :: "int \<Rightarrow> int option" where
  "pa_soft_for index = do {
     q \<leftarrow> cdiv index TABLE_GROW;
     q1 \<leftarrow> chk (q + 1);
     chk (q1 * TABLE_GROW) }"

definition ocoms_pointer_array_set_item ::
  "'p option allocator \<Rightarrow> 'p parray \<Rightarrow> int \<Rightarrow> 'p option \<Rightarrow> (int \<times> 'p parray) option" where
  "ocoms_pointer_array_set_item malloc t0 index v = do {
     r \<leftarrow> (if pa_size t0 \<le> index then do {
             soft \<leftarrow> pa_soft_for index;
             grow_table malloc t0 soft index }
           else Some (True, t0));
     if \<not> fst r then Some (OCOMS_ERROR, snd r)
     else do {
       let t = snd r;
       xs \<leftarrow> pa_addr t;
       old \<leftarrow> rd xs index;
       t' \<leftarrow> (if v = None
              then Some (t\<lparr>pa_lowest_free := (if index < pa_lowest_free t then index else pa_lowest_free t),
                           pa_number_free := (if old \<noteq> None then pa_number_free t + 1 else pa_number_free t)\<rparr>)
              else do {
                let nf = (if old = None then pa_number_free t - 1 else pa_number_free t);
                low \<leftarrow> (if index = pa_lowest_free t
                        then pa_next_free xs (pa_size t) (index + 1) (pa_size t)
                        else Some (pa_lowest_free t));
                Some (t\<lparr>pa_lowest_free := low, pa_number_free := nf\<rparr>) });
       xs' \<leftarrow> wr xs index v;
       Some (OCOMS_SUCCESS, t'\<lparr>pa_addr := Some xs'\<rparr>) } }"

definition ocoms_pointer_array_test_and_set_item ::
  "'p option allocator \<Rightarrow> 'p parray \<Rightarrow> int \<Rightarrow> 'p option \<Rightarrow> (bool \<times> 'p parray) option" where
  "ocoms_pointer_array_test_and_set_item malloc t0 index v = do {
     assert_c (0 \<le> index);
     used \<leftarrow> (if index < pa_size t0
              then do { xs \<leftarrow> pa_addr t0; x \<leftarrow> rd xs index; Some (x \<noteq> None) }
              else Some False);
     if used then Some (False, t0)
     else do {
       r \<leftarrow> (if pa_size t0 \<le> index then do {
               soft \<leftarrow> pa_soft_for index;
               grow_table malloc t0 soft index }
             else Some (True, t0));
       if \<not> fst r then Some (False, snd r)
       else do {
         let t = snd r;
         xs \<leftarrow> pa_addr t;
         xs' \<leftarrow> wr xs index v;
         let t' = t\<lparr>pa_addr := Some xs', pa_number_free := pa_number_free t - 1\<rparr>;
         low \<leftarrow> (if index = pa_lowest_free t'
                 then pa_next_free xs' (pa_size t') index (pa_size t')
                 else Some (pa_lowest_free t'));
         Some (True, t'\<lparr>pa_lowest_free := low\<rparr>) } } }"

definition ocoms_pointer_array_set_size ::
  "'p option allocator \<Rightarrow> 'p parray \<Rightarrow> int \<Rightarrow> (int \<times> 'p parray) option" where
  "ocoms_pointer_array_set_size malloc t new_size =
     (if pa_size t < new_size then do {
        r \<leftarrow> grow_table malloc t new_size new_size;
        Some (if fst r then OCOMS_SUCCESS else OCOMS_ERROR, snd r) }
      else Some (OCOMS_SUCCESS, t))"

definition ocoms_pointer_array_get_item :: "'p parray \<Rightarrow> int \<Rightarrow> 'p option option" where
  "ocoms_pointer_array_get_item t element_index =
     (if pa_size t \<le> element_index then Some None
      else do { xs \<leftarrow> pa_addr t; rd xs element_index })"

definition ocoms_pointer_array_get_size :: "'p parray \<Rightarrow> int" where
  "ocoms_pointer_array_get_size t = pa_size t"

definition ocoms_pointer_array_remove_all :: "'p parray \<Rightarrow> 'p parray option" where
  "ocoms_pointer_array_remove_all t =
     (if pa_number_free t = pa_size t then Some t
      else do {
        addr' \<leftarrow> (if 0 < pa_size t
                 then do { xs \<leftarrow> pa_addr t;
                           xs' \<leftarrow> memset_at xs 0 (nat (pa_size t)) None;
                           Some (Some xs') }
                 else Some (pa_addr t));
        Some (t\<lparr>pa_lowest_free := 0, pa_number_free := pa_size t, pa_addr := addr'\<rparr>) })"

section \<open>Invariant and view\<close>

definition free_count :: "'p option list \<Rightarrow> nat" where
  "free_count xs = length (filter (\<lambda>x. x = None) xs)"

definition first_free :: "'p option list \<Rightarrow> nat" where
  "first_free xs = length (takeWhile (\<lambda>x. x \<noteq> None) xs)"

definition pa_cells :: "'p parray \<Rightarrow> 'p option list" where
  "pa_cells t = (case pa_addr t of None \<Rightarrow> [] | Some xs \<Rightarrow> xs)"

definition pa_wf :: "'p parray \<Rightarrow> bool" where
  "pa_wf t \<longleftrightarrow> pa_size t = int (length (pa_cells t)) \<and> pa_number_free t = int (free_count (pa_cells t))
     \<and> pa_lowest_free t = int (first_free (pa_cells t)) \<and> pa_size t \<le> INT_MAX"

text \<open>The pointer stored at an index, as a client sees it.\<close>

definition pa_look :: "'p parray \<Rightarrow> int \<Rightarrow> 'p option" where
  "pa_look t i = (if 0 \<le> i \<and> i < pa_size t then pa_cells t ! nat i else None)"

lemma first_free_le [simp]: "first_free xs \<le> length xs"
  by (simp add: first_free_def length_takeWhile_le)

lemma first_free_None: "first_free xs < length xs \<Longrightarrow> xs ! first_free xs = None"
  using nth_length_takeWhile [of "\<lambda>x. x \<noteq> None" xs] by (simp add: first_free_def)

lemma first_free_less: "i < first_free xs \<Longrightarrow> xs ! i \<noteq> None"
proof -
  assume "i < first_free xs"
  then have i: "i < length (takeWhile (\<lambda>x. x \<noteq> None) xs)" by (simp add: first_free_def)
  then have "takeWhile (\<lambda>x. x \<noteq> None) xs ! i \<noteq> None" using set_takeWhileD [OF nth_mem] by blast
  then show ?thesis using takeWhile_nth [OF i] by simp
qed

lemma first_free_eqI:
  assumes "k \<le> length xs" and "\<And>i. i < k \<Longrightarrow> xs ! i \<noteq> None" and "k < length xs \<Longrightarrow> xs ! k = None"
  shows "first_free xs = k"
proof (rule linorder_cases [of "first_free xs" k])
  assume "first_free xs < k"
  then show ?thesis using assms(1) assms(2) [of "first_free xs"] first_free_None [of xs] by simp
next
  assume "k < first_free xs"
  moreover from this have "k < length xs" using first_free_le [of xs] by linarith
  ultimately show ?thesis using assms(3) first_free_less [of k xs] by simp
qed

lemma free_count_le [simp]: "free_count xs \<le> length xs"
  by (simp add: free_count_def)

lemma free_count_0_iff: "free_count xs = 0 \<longleftrightarrow> first_free xs = length xs"
  by (induction xs) (auto simp: first_free_def free_count_def)

lemma free_count_append [simp]: "free_count (xs @ ys) = free_count xs + free_count ys"
  by (simp add: free_count_def)

lemma free_count_replicate [simp]: "free_count (replicate n None) = n"
  by (induction n) (simp_all add: free_count_def)

lemma free_count_Cons [simp]: "free_count (x # xs) = (if x = None then 1 else 0) + free_count xs"
  by (simp add: free_count_def)

lemma first_free_replicate [simp]: "first_free (replicate n None) = 0"
  by (cases n) (simp_all add: first_free_def)

lemma free_count_update:
  "i < length xs \<Longrightarrow> free_count (xs[i := v]) + (if xs ! i = None then 1 else 0)
     = free_count xs + (if v = None then 1 else 0)"
proof (induction xs arbitrary: i)
  case (Cons x xs)
  then show ?case by (cases i) auto
qed simp

lemma first_free_append_free [simp]: "first_free (xs @ replicate n None) = first_free xs"
proof (cases n)
  case (Suc m)
  show ?thesis
  proof (rule first_free_eqI)
    fix i assume "i < first_free xs"
    then show "(xs @ replicate n None) ! i \<noteq> None"
      using first_free_less [of i xs] less_le_trans [OF _ first_free_le, of i xs]
      by (simp add: nth_append)
  next
    assume "first_free xs < length (xs @ replicate n None)"
    then show "(xs @ replicate n None) ! first_free xs = None"
      using first_free_None [of xs] by (auto simp: nth_append)
  qed (simp add: trans_le_add1)
qed simp

text \<open>The search loop.\<close>

lemma pa_next_free_spec:
  "n = int (length xs) \<Longrightarrow> 0 \<le> i \<Longrightarrow> i \<le> n \<Longrightarrow>
   pa_next_free xs n i d = Some (let j = nat i + first_free (drop (nat i) xs)
                                 in if j < length xs then int j else d)"
proof (induction xs n i d rule: pa_next_free.induct)
  case (1 xs n i d)
  show ?case
  proof (cases "i < n")
    case True
    then have i: "nat i < length xs" using "1.prems" by simp
    then have drop: "drop (nat i) xs = xs ! nat i # drop (Suc (nat i)) xs" by (rule Cons_nth_drop_Suc [symmetric])
    have rd: "rd xs i = Some (xs ! nat i)" using True "1.prems" by (simp add: c_simps)
    have suc: "nat (i + 1) = Suc (nat i)" using "1.prems" by simp
    show ?thesis
    proof (cases "xs ! nat i = None")
      case N: True
      then show ?thesis using True rd i "1.prems" drop
        by (subst pa_next_free.simps) (simp add: first_free_def)
    next
      case N: False
      then have "pa_next_free xs n i d = pa_next_free xs n (i + 1) d"
        using True rd by (subst pa_next_free.simps) auto
      also have "\<dots> = Some (let j = nat (i + 1) + first_free (drop (nat (i + 1)) xs)
                                 in if j < length xs then int j else d)"
        using True rd N "1.prems" by (intro "1.IH") simp_all
      finally show ?thesis using N drop suc by (simp add: first_free_def)
    qed
  next
    case False
    then show ?thesis using "1.prems" by (subst pa_next_free.simps) (simp add: first_free_def)
  qed
qed

text \<open>Filling the first free slot moves the first free index to the next free one.\<close>

lemma first_free_fill:
  assumes "first_free xs < length xs"
  shows "first_free (xs[first_free xs := Some p])
    = Suc (first_free xs) + first_free (drop (Suc (first_free xs)) xs)"
proof -
  let ?k = "first_free xs" and ?r = "drop (Suc (first_free xs)) xs"
  have len: "first_free ?r \<le> length xs - Suc ?k" using first_free_le [of ?r] by simp
  show ?thesis
  proof (rule first_free_eqI)
    show "Suc ?k + first_free ?r \<le> length (xs[?k := Some p])" using len assms by simp
  next
    fix i assume i: "i < Suc ?k + first_free ?r"
    show "xs[?k := Some p] ! i \<noteq> None"
    proof (cases "Suc ?k \<le> i")
      case True
      then have "i - Suc ?k < first_free ?r" using i by linarith
      then have "?r ! (i - Suc ?k) \<noteq> None" by (rule first_free_less)
      then show ?thesis using True i len assms by simp
    next
      case False
      then show ?thesis using assms first_free_less [of i xs] by (cases "i = ?k") auto
    qed
  next
    assume "Suc ?k + first_free ?r < length (xs[?k := Some p])"
    then have "first_free ?r < length ?r" by simp
    then show "xs[?k := Some p] ! (Suc ?k + first_free ?r) = None"
      using first_free_None [of ?r] assms by simp
  qed
qed

section \<open>Growing\<close>

lemma grow_table_cases:
  assumes wf: "pa_wf t" and m: "malloc_ok malloc"
    and new: "\<forall>n. pa_new_size t soft hard = Some n \<longrightarrow> pa_size t < n \<and> n \<le> INT_MAX"
  shows "(grow_table malloc t soft hard = Some (False, t)
        \<and> (pa_new_size t soft hard = None \<or> (\<exists>n. malloc n = None)))
    \<or> (\<exists>n t'. pa_new_size t soft hard = Some n \<and> grow_table malloc t soft hard = Some (True, t') \<and> pa_wf t'
        \<and> pa_size t' = n \<and> pa_max_size t' = pa_max_size t
        \<and> pa_cells t' = pa_cells t @ replicate (nat (n - pa_size t)) None)"
proof (cases "pa_new_size t soft hard")
  case None
  then show ?thesis by (simp add: grow_table_def)
next
  case (Some n)
  from wf have sz: "pa_size t = int (length (pa_cells t))" by (simp add: pa_wf_def)
  from new Some have n: "pa_size t < n" "n \<le> INT_MAX" by auto
  have nn: "size_t n = nat n" using n sz by (intro size_t_nonneg) (simp_all add: INT_MAX_def)
  show ?thesis
  proof (cases "realloc malloc (pa_addr t) (size_t n)")
    case None
    then have "malloc (size_t n) = None" by (simp add: realloc_def)
    then have "grow_table malloc t soft hard = Some (False, t)"
      using Some None by (simp add: grow_table_def)
    with \<open>malloc (size_t n) = None\<close> show ?thesis by blast
  next
    case r: (Some ys)
    have "\<exists>junk. ys = pa_cells t @ junk \<and> length junk = nat n - length (pa_cells t)"
    proof (cases "pa_addr t")
      case None
      with r m show ?thesis by (auto simp: pa_cells_def realloc_def nn dest: malloc_okD)
    next
      case a: (Some xs)
      with r sz n realloc_grow [OF m, of xs "nat n" ys] show ?thesis by (simp add: nn pa_cells_def)
    qed
    then obtain junk where ys: "ys = pa_cells t @ junk" "length junk = nat n - length (pa_cells t)" by blast
    have k: "nat (n - pa_size t) = length junk" using ys(2) sz n by simp
    have mem: "memset_at ys (nat (pa_size t)) (nat (n - pa_size t)) None
        = Some (pa_cells t @ replicate (nat (n - pa_size t)) None)"
      unfolding ys(1) k using memset_at_tail [of junk "length junk" "pa_cells t" None] sz by simp
    have fr: "chk (pa_number_free t + (n - pa_size t)) = Some (pa_number_free t + (n - pa_size t))"
    proof -
      have "0 \<le> pa_number_free t" "pa_number_free t \<le> pa_size t"
        using wf free_count_le [of "pa_cells t"] by (simp_all add: pa_wf_def)
      then show ?thesis using n sz by (intro chk_Some) (simp_all add: INT_MIN_def)
    qed
    define t' where "t' = t\<lparr>pa_number_free := pa_number_free t + (n - pa_size t),
      pa_addr := Some (pa_cells t @ replicate (nat (n - pa_size t)) None), pa_size := n\<rparr>"
    have "grow_table malloc t soft hard = Some (True, t')"
      using Some r n fr mem by (simp add: grow_table_def t'_def)
    moreover have "pa_cells t' = pa_cells t @ replicate (nat (n - pa_size t)) None"
      by (simp add: t'_def pa_cells_def)
    moreover have "pa_wf t'"
      using wf n sz calculation(2) by (simp add: pa_wf_def t'_def)
    ultimately show ?thesis using Some by (auto simp: t'_def)
  qed
qed

lemma pa_look_cells:
  "pa_wf t \<Longrightarrow> pa_look t i = (if 0 \<le> i \<and> i < int (length (pa_cells t)) then pa_cells t ! nat i else None)"
  by (simp add: pa_look_def pa_wf_def)

lemma pa_look_grown:
  assumes "pa_wf t" and "pa_wf t'" and "pa_cells t' = pa_cells t @ replicate k None"
  shows "pa_look t' = pa_look t"
proof
  fix i
  show "pa_look t' i = pa_look t i"
    by (cases "nat i < length (pa_cells t)")
      (auto simp: pa_look_cells assms nth_append)
qed

text \<open>A table with its cells, counter and lowest free index replaced.\<close>

lemma pa_wf_replace:
  assumes "pa_wf t" and "length xs = length (pa_cells t)"
  shows "pa_wf (t\<lparr>pa_addr := Some xs, pa_number_free := int (free_count xs),
    pa_lowest_free := int (first_free xs)\<rparr>)"
  using assms by (simp add: pa_wf_def pa_cells_def)

lemma pa_addr_cells: "pa_wf t \<Longrightarrow> 0 < pa_size t \<Longrightarrow> pa_addr t = Some (pa_cells t)"
  by (auto simp: pa_wf_def pa_cells_def split: option.splits)

lemma pa_look_upd:
  assumes "pa_wf t" and "pa_wf t'" and "pa_cells t' = (pa_cells t)[nat i := v]" and "0 \<le> i" "i < pa_size t"
  shows "pa_look t' = (pa_look t)(i := v)"
proof
  fix j
  show "pa_look t' j = ((pa_look t)(i := v)) j"
    using assms(4,5) assms(1)
    by (auto simp: pa_look_cells [OF assms(1)] pa_look_cells [OF assms(2)] assms(3) nth_list_update
        pa_wf_def)
qed

section \<open>Adding\<close>

lemma pa_add_step:
  assumes wf: "pa_wf t" and nf: "0 < pa_number_free t"
  shows "\<exists>t'. ocoms_pointer_array_add malloc t (Some p) = Some (pa_lowest_free t, t') \<and> pa_wf t'
    \<and> pa_cells t' = (pa_cells t)[nat (pa_lowest_free t) := Some p] \<and> pa_max_size t' = pa_max_size t
    \<and> pa_size t' = pa_size t"
proof -
  let ?xs = "pa_cells t" let ?k = "first_free ?xs" let ?ys = "?xs[?k := Some p]"
  from wf have t: "pa_size t = int (length ?xs)" "pa_number_free t = int (free_count ?xs)"
    "pa_lowest_free t = int ?k" by (simp_all add: pa_wf_def)
  have k: "?k < length ?xs"
    using nf t free_count_0_iff [of ?xs] first_free_le [of ?xs] by linarith
  have addr: "pa_addr t = Some ?xs" using k wf t(1) by (intro pa_addr_cells) auto
  have cnt: "free_count ?xs = Suc (free_count ?ys)"
    using free_count_update [OF k, of "Some p"] first_free_None [OF k] by simp
  have "?xs \<noteq> []" using k by auto
  have low: "(if 0 < int (free_count ?ys) then pa_next_free ?ys (pa_size t) (int ?k + 1) (int ?k)
      else Some (pa_size t)) = Some (int (first_free ?ys))"
  proof (cases "free_count ?ys = 0")
    case True
    then show ?thesis using free_count_0_iff [of ?ys] t by simp
  next
    case False
    let ?j = "Suc ?k + first_free (drop (Suc ?k) ?xs)"
    have ff: "first_free ?ys = ?j" by (rule first_free_fill [OF k])
    have "first_free ?ys < length ?ys"
      using False free_count_0_iff [of ?ys] first_free_le [of ?ys] by linarith
    moreover have "pa_next_free ?ys (pa_size t) (int ?k + 1) (int ?k)
       = Some (let j = Suc ?k + first_free (drop (Suc ?k) ?ys) in if j < length ?ys then int j else int ?k)"
      using pa_next_free_spec [of "pa_size t" ?ys "int ?k + 1" "int ?k"] t k by (simp add: nat_add_distrib)
    ultimately show ?thesis using False ff by (simp add: Let_def drop_update_cancel)
  qed
  from low t have lows: "0 < free_count ?ys \<Longrightarrow>
      pa_next_free ?ys (int (length ?xs)) (int ?k + 1) (int ?k) = Some (int (first_free ?ys))"
    "free_count ?ys = 0 \<Longrightarrow> int (length ?xs) = int (first_free ?ys)" by simp_all
  have "ocoms_pointer_array_add malloc t (Some p) = Some (pa_lowest_free t,
     t\<lparr>pa_addr := Some ?ys, pa_number_free := int (free_count ?ys), pa_lowest_free := int (first_free ?ys)\<rparr>)"
    using k t addr lows cnt first_free_None [OF k] free_count_le [of ?xs] \<open>?xs \<noteq> []\<close>
    by (simp add: ocoms_pointer_array_add_def c_simps Let_def)
  moreover have "pa_wf (t\<lparr>pa_addr := Some ?ys, pa_number_free := int (free_count ?ys),
      pa_lowest_free := int (first_free ?ys)\<rparr>)"
    by (rule pa_wf_replace [OF wf]) simp
  ultimately show ?thesis using t by (simp add: pa_cells_def)
qed

text \<open>
  \<open>ocoms_pointer_array_add\<close> on a table it can grow: the table is left alone, or the lowest free
  index is returned and holds the pointer.
\<close>

lemma pa_add_ok:
  assumes wf: "pa_wf t" and m: "malloc_ok malloc"
    and room: "pa_number_free t = 0 \<Longrightarrow> (0 < pa_size t \<or> pa_addr t = None)
      \<and> (pa_size t < OCOMS_FORTRAN_HANDLE_MAX \<or> pa_size t * 2 \<le> pa_max_size t)"
    and big: "pa_size t * 2 \<le> INT_MAX"
  shows "ocoms_pointer_array_add malloc t (Some p) = Some (OCOMS_ERR_OUT_OF_RESOURCE, t)
    \<or> (\<exists>i t'. ocoms_pointer_array_add malloc t (Some p) = Some (i, t') \<and> pa_wf t' \<and> 0 \<le> i
        \<and> i < pa_size t' \<and> pa_look t i = None \<and> (\<forall>j. 0 \<le> j \<and> j < i \<longrightarrow> pa_look t j \<noteq> None)
        \<and> pa_look t' = (pa_look t)(i \<mapsto> p))"
proof -
  have step: "\<exists>i t'. ocoms_pointer_array_add malloc u (Some p) = Some (i, t') \<and> pa_wf t' \<and> 0 \<le> i
        \<and> i < pa_size t' \<and> pa_look t i = None \<and> (\<forall>j. 0 \<le> j \<and> j < i \<longrightarrow> pa_look t j \<noteq> None)
        \<and> pa_look t' = (pa_look t)(i \<mapsto> p)"
    if u: "pa_wf u" "0 < pa_number_free u" "pa_look u = pa_look t" for u
  proof -
    from pa_add_step [OF u(1,2)] obtain t' where
      t': "ocoms_pointer_array_add malloc u (Some p) = Some (pa_lowest_free u, t')" "pa_wf t'"
      "pa_cells t' = (pa_cells u)[nat (pa_lowest_free u) := Some p]" "pa_size t' = pa_size u" by blast
    have low: "pa_lowest_free u = int (first_free (pa_cells u))" and sz: "pa_size u = int (length (pa_cells u))"
      using u(1) by (simp_all add: pa_wf_def)
    have "free_count (pa_cells u) \<noteq> 0" using u(1,2) by (simp add: pa_wf_def)
    then have "first_free (pa_cells u) \<noteq> length (pa_cells u)" by (simp add: free_count_0_iff)
    then have lt: "first_free (pa_cells u) < length (pa_cells u)"
      using first_free_le le_neq_implies_less by blast
    have "pa_look t' = (pa_look u)(pa_lowest_free u \<mapsto> p)"
      using lt low sz by (intro pa_look_upd [OF u(1) t'(2,3)]) simp_all
    moreover have "pa_look u (pa_lowest_free u) = None"
      using lt low first_free_None [OF lt] by (simp add: pa_look_cells [OF u(1)])
    moreover have "\<forall>j. 0 \<le> j \<and> j < pa_lowest_free u \<longrightarrow> pa_look u j \<noteq> None"
    proof (intro allI impI)
      fix j assume j: "0 \<le> j \<and> j < pa_lowest_free u"
      then have "nat j < first_free (pa_cells u)" using low by (simp add: nat_less_iff)
      then have "pa_cells u ! nat j \<noteq> None" by (rule first_free_less)
      moreover have "pa_look u j = pa_cells u ! nat j"
        unfolding pa_look_cells [OF u(1)] using j low lt by auto
      ultimately show "pa_look u j \<noteq> None" by metis
    qed
    ultimately show ?thesis using t' u(3) lt low sz by (intro exI [of _ "pa_lowest_free u"] exI [of _ t']) simp
  qed
  show ?thesis
  proof (cases "pa_number_free t = 0")
    case False
    then have "0 < pa_number_free t" using wf by (simp add: pa_wf_def)
    with step [OF wf] show ?thesis by blast
  next
    case True
    let ?soft = "if pa_addr t = None then TABLE_INIT else pa_size t * TABLE_GROW"
    let ?g = "grow_table malloc t ?soft OCOMS_FORTRAN_HANDLE_MAX"
    have sz: "pa_size t = int (length (pa_cells t))" "pa_size t \<le> INT_MAX" using wf by (simp_all add: pa_wf_def)
    have empty: "pa_addr t = None \<Longrightarrow> pa_size t = 0" using sz by (simp add: pa_cells_def)
    have chk: "(if pa_addr t = None then Some TABLE_INIT else chk (pa_size t * TABLE_GROW)) = Some ?soft"
      using big sz by (simp add: TABLE_GROW_def INT_MIN_def)
    have add: "ocoms_pointer_array_add malloc t (Some p) = (case ?g of None \<Rightarrow> None
       | Some r \<Rightarrow> if \<not> fst r then Some (OCOMS_ERR_OUT_OF_RESOURCE, snd r)
                  else if pa_number_free (snd r) = 0 then None
                  else ocoms_pointer_array_add malloc (snd r) (Some p))"
      using True chk unfolding ocoms_pointer_array_add_def
      by (simp split: option.split) (auto simp: assert_c_def Let_def)
    have new: "\<forall>n. pa_new_size t ?soft OCOMS_FORTRAN_HANDLE_MAX = Some n \<longrightarrow> pa_size t < n \<and> n \<le> INT_MAX"
      using room [OF True] big empty sz
      by (auto simp: pa_new_size_def Let_def TABLE_GROW_def TABLE_INIT_def OCOMS_FORTRAN_HANDLE_MAX_def
          INT_MAX_def split: if_splits)
    from grow_table_cases [OF wf m new] show ?thesis
    proof (elim disjE conjE exE)
      assume "?g = Some (False, t)"
      then show ?thesis by (simp add: add)
    next
      fix n t1
      assume t1: "pa_new_size t ?soft OCOMS_FORTRAN_HANDLE_MAX = Some n" "?g = Some (True, t1)" "pa_wf t1"
        "pa_size t1 = n" "pa_cells t1 = pa_cells t @ replicate (nat (n - pa_size t)) None"
      have "0 < pa_number_free t1" using t1(3,5) new [rule_format, OF t1(1)] by (simp add: pa_wf_def)
      with step [OF t1(3) this pa_look_grown [OF wf t1(3,5)]] add t1(2) show ?thesis by simp
    qed (simp_all add: add)
  qed
qed

section \<open>Storing at an index\<close>

lemma first_free_clear:
  assumes "i < length xs"
  shows "first_free (xs[i := None]) = (if i < first_free xs then i else first_free xs)"
proof (rule first_free_eqI)
  show "(if i < first_free xs then i else first_free xs) \<le> length (xs[i := None])"
    using assms by simp
  fix j assume "j < (if i < first_free xs then i else first_free xs)"
  then show "xs[i := None] ! j \<noteq> None" using first_free_less [of j xs] by (auto split: if_splits)
next
  assume "(if i < first_free xs then i else first_free xs) < length (xs[i := None])"
  then show "xs[i := None] ! (if i < first_free xs then i else first_free xs) = None"
    using assms first_free_None [of xs] by (auto simp: nth_list_update)
qed

lemma first_free_keep:
  assumes "i < length xs" and "i \<noteq> first_free xs"
  shows "first_free (xs[i := Some p]) = first_free xs"
proof (rule first_free_eqI)
  fix j assume "j < first_free xs"
  then show "xs[i := Some p] ! j \<noteq> None"
    using first_free_less [of j xs] assms(1) by (cases "i = j") auto
next
  assume "first_free xs < length (xs[i := Some p])"
  then show "xs[i := Some p] ! first_free xs = None" using assms(2) first_free_None [of xs] by simp
qed simp

lemma pa_soft_for_eq:
  assumes "0 \<le> i" and "i + 2 \<le> INT_MAX"
  shows "pa_soft_for i = Some ((i div 2 + 1) * 2)"
proof -
  have "0 \<le> i div 2" "i div 2 \<le> i" "i div 2 * 2 \<le> i" using assms by auto
  then show ?thesis using assms
    by (simp add: pa_soft_for_def TABLE_GROW_def c_simps INT_MIN_def)
qed

lemma pa_grow_for_cases:
  assumes wf: "pa_wf t" and m: "malloc_ok malloc" and i: "0 \<le> i" "i + 2 \<le> pa_max_size t"
    and mx: "pa_max_size t \<le> INT_MAX"
  defines "G \<equiv> (if pa_size t \<le> i then do { soft \<leftarrow> pa_soft_for i; grow_table malloc t soft i }
           else Some (True, t))"
  shows "(G = Some (False, t) \<and> pa_size t \<le> i)
    \<or> (\<exists>u. G = Some (True, u) \<and> pa_wf u \<and> i < pa_size u \<and> pa_look u = pa_look t
         \<and> pa_max_size u = pa_max_size t \<and> (i < pa_size t \<longrightarrow> u = t))"
proof (cases "pa_size t \<le> i")
  case False
  then show ?thesis using wf by (simp add: G_def)
next
  case True
  let ?soft = "(i div 2 + 1) * 2"
  have "i < ?soft" by presburger
  moreover have "?soft \<le> i + 2" by presburger
  ultimately have soft: "i < ?soft" "?soft \<le> i + 2" .
  have G: "G = grow_table malloc t ?soft i"
    using True i mx pa_soft_for_eq [of i] by (simp add: G_def)
  have new: "pa_size t < n \<and> n \<le> INT_MAX" "n = ?soft" if "pa_new_size t ?soft i = Some n" for n
    using that soft i mx True by (auto simp: pa_new_size_def Let_def split: if_splits)
  from new(1) have "\<forall>n. pa_new_size t ?soft i = Some n \<longrightarrow> pa_size t < n \<and> n \<le> INT_MAX" by blast
  from grow_table_cases [OF wf m this] show ?thesis
  proof (elim disjE conjE exE)
    assume "grow_table malloc t ?soft i = Some (False, t)"
    then show ?thesis using True by (simp add: G)
  next
    fix n u
    assume u: "pa_new_size t ?soft i = Some n" "grow_table malloc t ?soft i = Some (True, u)" "pa_wf u"
      "pa_size u = n" "pa_max_size u = pa_max_size t"
      "pa_cells u = pa_cells t @ replicate (nat (n - pa_size t)) None"
    then show ?thesis using new(2) [OF u(1)] soft pa_look_grown [OF wf u(3,6)] True
      by (simp add: G)
  qed (use True in \<open>simp_all add: G\<close>)
qed

text \<open>What storing does to a table that has the index.\<close>

definition pa_stored :: "'p parray \<Rightarrow> int \<Rightarrow> 'p option \<Rightarrow> 'p parray" where
  "pa_stored t i v = (let xs = (pa_cells t)[nat i := v] in
     t\<lparr>pa_addr := Some xs, pa_number_free := int (free_count xs), pa_lowest_free := int (first_free xs)\<rparr>)"

lemma pa_stored_wf: "pa_wf t \<Longrightarrow> pa_wf (pa_stored t i v)"
  by (simp add: pa_stored_def Let_def pa_wf_replace)

lemma pa_stored_look:
  assumes "pa_wf t" and "0 \<le> i" and "i < pa_size t"
  shows "pa_look (pa_stored t i v) = (pa_look t)(i := v)"
  using assms(1) pa_stored_wf [OF assms(1)] _ assms(2,3)
  by (rule pa_look_upd) (simp add: pa_stored_def Let_def pa_cells_def)

lemma pa_next_after_fill:
  assumes n: "n = int (length xs)" and k: "first_free xs < length xs"
  shows "pa_next_free xs n (int (first_free xs) + 1) n = Some (int (first_free (xs[first_free xs := Some p])))"
    and "pa_next_free (xs[first_free xs := Some p]) n (int (first_free xs)) n
           = Some (int (first_free (xs[first_free xs := Some p])))"
proof -
  let ?k = "first_free xs" let ?ys = "xs[?k := Some p]"
  have ff: "first_free ?ys = Suc ?k + first_free (drop (Suc ?k) xs)" by (rule first_free_fill [OF k])
  have le: "first_free (drop (Suc ?k) xs) \<le> length xs - Suc ?k"
    using first_free_le [of "drop (Suc ?k) xs"] by simp
  have suc: "nat (int ?k + 1) = Suc ?k" by simp
  show "pa_next_free xs n (int ?k + 1) n = Some (int (first_free ?ys))"
    using pa_next_free_spec [OF n, of "int ?k + 1" n] n k le ff unfolding suc by (auto simp: Let_def)
  have "drop ?k ?ys = Some p # drop (Suc ?k) xs"
    using k by (simp add: Cons_nth_drop_Suc [symmetric] drop_update_cancel)
  then have "?k + first_free (drop ?k ?ys) = first_free ?ys"
    by (simp add: ff) (simp add: first_free_def)
  then show "pa_next_free ?ys n (int ?k) n = Some (int (first_free ?ys))"
    using pa_next_free_spec [of n ?ys "int ?k" n] n k first_free_le [of ?ys] by (auto simp: Let_def)
qed

lemma pa_set_item_step:
  assumes wf: "pa_wf t" and i: "0 \<le> i" "i < pa_size t"
  shows "ocoms_pointer_array_set_item malloc t i v = Some (OCOMS_SUCCESS, pa_stored t i v)"
proof -
  let ?xs = "pa_cells t" let ?ys = "?xs[nat i := v]"
  from wf have t: "pa_size t = int (length ?xs)" "pa_number_free t = int (free_count ?xs)"
    "pa_lowest_free t = int (first_free ?xs)" by (simp_all add: pa_wf_def)
  have addr: "pa_addr t = Some ?xs" using i wf by (intro pa_addr_cells) simp_all
  have ni: "nat i < length ?xs" using i t by simp
  note cnt = free_count_update [OF ni, of v]
  show ?thesis
  proof (cases v)
    case None
    then show ?thesis
      using i t addr ni cnt first_free_clear [OF ni]
      by (auto simp: ocoms_pointer_array_set_item_def c_simps pa_stored_def Let_def zless_nat_eq_int_zless
          nat_less_iff)
  next
    case (Some p)
    have nf: "(if ?xs ! nat i = None then int (free_count ?xs) - 1 else int (free_count ?xs)) = int (free_count ?ys)"
      using cnt Some by auto
    have low: "(if i = int (first_free ?xs) then pa_next_free ?xs (pa_size t) (i + 1) (pa_size t)
        else Some (int (first_free ?xs))) = Some (int (first_free ?ys))"
    proof (cases "i = int (first_free ?xs)")
      case True
      then show ?thesis using pa_next_after_fill(1) [OF t(1), of p] ni Some by simp
    next
      case False
      then have "nat i \<noteq> first_free ?xs" using i by auto
      then show ?thesis using False first_free_keep [OF ni] Some by simp
    qed
    show ?thesis
      using i addr low nf Some t
      by (simp add: ocoms_pointer_array_set_item_def c_simps pa_stored_def Let_def cong: if_cong)
  qed
qed

lemma pa_test_and_set_step:
  assumes wf: "pa_wf t" and i: "0 \<le> i" "i < pa_size t" and free: "pa_look t i = None"
  shows "ocoms_pointer_array_test_and_set_item malloc t i (Some p) = Some (True, pa_stored t i (Some p))"
proof -
  let ?xs = "pa_cells t" let ?ys = "?xs[nat i := Some p]"
  from wf have t: "pa_size t = int (length ?xs)" "pa_number_free t = int (free_count ?xs)"
    "pa_lowest_free t = int (first_free ?xs)" by (simp_all add: pa_wf_def)
  have addr: "pa_addr t = Some ?xs" using i wf by (intro pa_addr_cells) simp_all
  have ni: "nat i < length ?xs" using i t by simp
  have x: "?xs ! nat i = None" using free i t by (simp add: pa_look_cells [OF wf])
  have nf: "int (free_count ?xs) - 1 = int (free_count ?ys)"
    using free_count_update [OF ni, of "Some p"] x by simp
  have low: "(if i = int (first_free ?xs) then pa_next_free ?ys (pa_size t) i (pa_size t)
        else Some (int (first_free ?xs))) = Some (int (first_free ?ys))"
  proof (cases "i = int (first_free ?xs)")
    case True
    then show ?thesis using pa_next_after_fill(2) [OF t(1), of p] ni by simp
  next
    case False
    then have "nat i \<noteq> first_free ?xs" using i by auto
    then show ?thesis using False first_free_keep [OF ni] by simp
  qed
  show ?thesis
    using i addr low nf t x
    by (simp add: ocoms_pointer_array_test_and_set_item_def c_simps pa_stored_def Let_def cong: if_cong)
qed

text \<open>
  The two storing operations on any well-formed table: they fail without an effect, or the index
  holds the value afterwards and every other index what it held.
\<close>

lemma pa_set_item_cases:
  assumes wf: "pa_wf t" and m: "malloc_ok malloc" and i: "0 \<le> i" "i + 2 \<le> pa_max_size t"
    and mx: "pa_max_size t \<le> INT_MAX"
  shows "(ocoms_pointer_array_set_item malloc t i v = Some (OCOMS_ERROR, t) \<and> pa_size t \<le> i)
    \<or> (\<exists>t'. ocoms_pointer_array_set_item malloc t i v = Some (OCOMS_SUCCESS, t') \<and> pa_wf t'
         \<and> pa_max_size t' = pa_max_size t \<and> pa_look t' = (pa_look t)(i := v))"
  using pa_grow_for_cases [OF wf m i mx]
proof (elim disjE conjE exE)
  assume "(if pa_size t \<le> i then do { soft \<leftarrow> pa_soft_for i; grow_table malloc t soft i }
           else Some (True, t)) = Some (False, t)" and "pa_size t \<le> i"
  then show ?thesis unfolding ocoms_pointer_array_set_item_def by simp
next
  fix u
  assume g: "(if pa_size t \<le> i then do { soft \<leftarrow> pa_soft_for i; grow_table malloc t soft i }
           else Some (True, t)) = Some (True, u)"
    and u: "pa_wf u" "i < pa_size u" "pa_look u = pa_look t" "pa_max_size u = pa_max_size t"
  have "ocoms_pointer_array_set_item malloc t i v = ocoms_pointer_array_set_item malloc u i v"
    using u(2) unfolding ocoms_pointer_array_set_item_def g by simp
  also have "\<dots> = Some (OCOMS_SUCCESS, pa_stored u i v)" by (rule pa_set_item_step [OF u(1) i(1) u(2)])
  finally show ?thesis
    using pa_stored_wf [OF u(1)] pa_stored_look [OF u(1) i(1) u(2)] u(3,4)
    by (simp add: pa_stored_def Let_def)
qed

lemma pa_test_and_set_cases:
  assumes wf: "pa_wf t" and m: "malloc_ok malloc" and i: "0 \<le> i" "i + 2 \<le> pa_max_size t"
    and mx: "pa_max_size t \<le> INT_MAX"
  shows "(ocoms_pointer_array_test_and_set_item malloc t i (Some p) = Some (False, t)
       \<and> (pa_look t i \<noteq> None \<or> pa_size t \<le> i))
    \<or> (\<exists>t'. ocoms_pointer_array_test_and_set_item malloc t i (Some p) = Some (True, t') \<and> pa_wf t'
         \<and> pa_look t i = None \<and> pa_look t' = (pa_look t)(i \<mapsto> p))"
proof (cases "i < pa_size t \<and> pa_look t i \<noteq> None")
  case True
  then have "pa_addr t = Some (pa_cells t)" and "rd (pa_cells t) i = Some (pa_look t i)"
    using i wf by (auto intro!: pa_addr_cells simp: rd_def pa_look_cells) (simp_all add: pa_wf_def)
  then show ?thesis using True i by (simp add: ocoms_pointer_array_test_and_set_item_def)
next
  case False
  have used: "(if i < pa_size t then do { xs \<leftarrow> pa_addr t; x \<leftarrow> rd xs i; Some (x \<noteq> None) }
      else Some False) = Some False"
    using False i wf pa_addr_cells [OF wf]
    by (auto simp: rd_def pa_look_cells) (simp_all add: pa_wf_def)
  show ?thesis
    using pa_grow_for_cases [OF wf m i mx]
  proof (elim disjE conjE exE)
    assume "(if pa_size t \<le> i then do { soft \<leftarrow> pa_soft_for i; grow_table malloc t soft i }
           else Some (True, t)) = Some (False, t)" and "pa_size t \<le> i"
    then show ?thesis using used i unfolding ocoms_pointer_array_test_and_set_item_def by simp
  next
    fix u
    assume g: "(if pa_size t \<le> i then do { soft \<leftarrow> pa_soft_for i; grow_table malloc t soft i }
           else Some (True, t)) = Some (True, u)"
      and u: "pa_wf u" "i < pa_size u" "pa_look u = pa_look t"
    have free: "pa_look u i = None" using False u i wf by (auto simp: pa_look_def)
    have "ocoms_pointer_array_test_and_set_item malloc u i (Some p) = Some (True, pa_stored u i (Some p))"
      by (rule pa_test_and_set_step [OF u(1) i(1) u(2) free])
    moreover have "ocoms_pointer_array_test_and_set_item malloc t i (Some p)
        = ocoms_pointer_array_test_and_set_item malloc u i (Some p)"
      using u(2) i free pa_addr_cells [OF u(1)] u(1)
      unfolding ocoms_pointer_array_test_and_set_item_def g used
      by (simp add: rd_def pa_look_cells) (simp add: pa_wf_def)
    ultimately show ?thesis
      using pa_stored_wf [OF u(1)] pa_stored_look [OF u(1) i(1) u(2)] u(3) free by simp
  qed
qed

lemma pa_get_item_eq:
  "pa_wf t \<Longrightarrow> 0 \<le> i \<Longrightarrow> ocoms_pointer_array_get_item t i = Some (pa_look t i)"
  using pa_addr_cells [of t]
  by (auto simp: ocoms_pointer_array_get_item_def pa_look_def rd_def) (simp_all add: pa_wf_def)

section \<open>The other operations\<close>

lemma pa_init_ok:
  assumes "0 < (if 0 < ini then ini else blk)" and "(if 0 < ini then ini else blk) \<le> INT_MAX"
    and "blk \<le> mx" and "\<forall>n. calloc_ok n"
  shows "\<exists>t'. ocoms_pointer_array_init calloc_ok (Some ocoms_pointer_array_construct) ini mx blk
      = (OCOMS_SUCCESS, Some t') \<and> pa_wf t' \<and> pa_max_size t' = mx \<and> (\<forall>i. pa_look t' i = None)"
proof -
  let ?n = "if 0 < ini then ini else blk"
  have "size_t ?n = nat ?n" using assms(1,2) by (intro size_t_nonneg) (simp_all add: INT_MAX_def split: if_splits)
  moreover have "size_norm (nat ?n * 8) = nat ?n * 8"
    using assms(2) by (simp add: size_norm_def INT_MAX_def)
  ultimately show ?thesis using assms
    by (simp add: ocoms_pointer_array_init_def ocoms_pointer_array_construct_def Let_def pa_wf_def
        pa_cells_def pa_look_def)
qed

lemma pa_remove_all_ok:
  assumes wf: "pa_wf t"
  shows "\<exists>t'. ocoms_pointer_array_remove_all t = Some t' \<and> pa_wf t' \<and> pa_size t' = pa_size t
    \<and> (\<forall>i. pa_look t' i = None)"
proof (cases "pa_number_free t = pa_size t")
  case True
  have "xs ! i = None" if "free_count xs = length xs" and "i < length xs" for i and xs :: "'a option list"
  proof (rule ccontr)
    assume "xs ! i \<noteq> None"
    then have "length (filter (\<lambda>x. x = None) xs) < length xs"
      using that(2) by (intro length_filter_less [of "xs ! i"]) auto
    then show False using that(1) by (simp add: free_count_def)
  qed
  then have "pa_look t i = None" for i
    using True wf by (auto simp: pa_look_def pa_wf_def)
  with True wf show ?thesis by (simp add: ocoms_pointer_array_remove_all_def)
next
  case False
  then have pos: "0 < pa_size t"
    using wf by (cases "pa_cells t") (auto simp: pa_wf_def free_count_def)
  let ?t = "t\<lparr>pa_lowest_free := 0, pa_number_free := pa_size t,
    pa_addr := Some (replicate (length (pa_cells t)) None)\<rparr>"
  have sz: "nat (pa_size t) = length (pa_cells t)" using wf by (simp add: pa_wf_def)
  have cells: "pa_cells ?t = replicate (length (pa_cells t)) None" by (simp add: pa_cells_def [of ?t])
  then have "pa_wf ?t" using wf by (simp add: pa_wf_def)
  moreover have "\<forall>i. pa_look ?t i = None" using cells wf by (simp add: pa_look_def pa_wf_def nat_less_iff)
  moreover have "ocoms_pointer_array_remove_all t = Some ?t"
    using False pos sz pa_addr_cells [OF wf pos] by (simp add: ocoms_pointer_array_remove_all_def)
  ultimately show ?thesis by simp
qed

lemma pa_set_size_cases:
  assumes wf: "pa_wf t" and m: "malloc_ok malloc" and n: "n \<le> INT_MAX"
  shows "(ocoms_pointer_array_set_size malloc t n = Some (OCOMS_ERROR, t) \<and> pa_size t < n)
    \<or> (\<exists>t'. ocoms_pointer_array_set_size malloc t n = Some (OCOMS_SUCCESS, t') \<and> pa_wf t'
         \<and> n \<le> pa_size t' \<and> pa_look t' = pa_look t)"
proof (cases "pa_size t < n")
  case False
  then show ?thesis using wf by (simp add: ocoms_pointer_array_set_size_def)
next
  case True
  then have "\<forall>k. pa_new_size t n n = Some k \<longrightarrow> pa_size t < k \<and> k \<le> INT_MAX"
    using n by (auto simp: pa_new_size_def Let_def split: if_splits)
  from grow_table_cases [OF wf m this] show ?thesis
  proof (elim disjE conjE exE)
    fix k t'
    assume t': "pa_new_size t n n = Some k" "grow_table malloc t n n = Some (True, t')" "pa_wf t'"
      "pa_size t' = k" "pa_cells t' = pa_cells t @ replicate (nat (k - pa_size t)) None"
    have "k = n" using t'(1) by (auto simp: pa_new_size_def Let_def split: if_splits)
    then show ?thesis using t' True pa_look_grown [OF wf t'(3,5)]
      by (simp add: ocoms_pointer_array_set_size_def)
  qed (use True in \<open>simp_all add: ocoms_pointer_array_set_size_def\<close>)
qed

section \<open>Interface\<close>

text \<open>
  As a keyed store: the state is the allocator with the table, \<open>put\<close> stores a pointer at an index
  that lies two below the bound, \<open>del\<close> stores null.
\<close>

type_synonym 'p pa_store = "'p option allocator \<times> 'p parray"

definition pas_inv :: "'p pa_store \<Rightarrow> bool" where
  "pas_inv s \<longleftrightarrow> malloc_ok (fst s) \<and> pa_wf (snd s) \<and> pa_max_size (snd s) \<le> INT_MAX"

definition pas_look :: "'p pa_store \<Rightarrow> int \<Rightarrow> 'p option" where
  "pas_look s = pa_look (snd s)"

definition pas_set :: "'p pa_store \<Rightarrow> int \<Rightarrow> 'p option \<Rightarrow> 'p pa_store option" where
  "pas_set s i v =
     (if 0 \<le> i \<and> i + 2 \<le> pa_max_size (snd s) then do {
        r \<leftarrow> ocoms_pointer_array_set_item (fst s) (snd s) i v;
        if fst r = OCOMS_SUCCESS then Some (fst s, snd r) else None }
      else None)"

definition pas_put :: "'p pa_store \<Rightarrow> int \<Rightarrow> 'p \<Rightarrow> 'p pa_store option" where
  "pas_put s i p = pas_set s i (Some p)"

definition pas_del :: "'p pa_store \<Rightarrow> int \<Rightarrow> 'p pa_store option" where
  "pas_del s i = pas_set s i None"

lemma pas_set_refines:
  assumes "pas_inv s" and "pas_set s i v = Some s'"
  shows "pas_inv s' \<and> pas_look s' = (pas_look s)(i := v)"
proof -
  from assms have wf: "pa_wf (snd s)" "malloc_ok (fst s)" "pa_max_size (snd s) \<le> INT_MAX"
    by (simp_all add: pas_inv_def)
  from assms(2) have i: "0 \<le> i" "i + 2 \<le> pa_max_size (snd s)" by (simp_all add: pas_set_def split: if_splits)
  from pa_set_item_cases [OF wf(1,2) i wf(3), of v] show ?thesis
    using assms(2) i wf by (auto simp: pas_set_def pas_inv_def pas_look_def)
qed

interpretation pas: keyed_store_del pas_inv pas_look pas_put pas_del
  by unfold_locales (auto simp: pas_put_def pas_del_def dest: pas_set_refines)

section \<open>Properties\<close>

text \<open>A table of two slots, the second free, and a full one of 130 slots, for the witnesses.\<close>

definition pa_two :: "nat parray" where
  "pa_two = \<lparr>pa_lowest_free = 1, pa_number_free = 1, pa_size = 2, pa_max_size = 100,
     pa_block_size = 2, pa_addr = Some [Some 7, None]\<rparr>"

definition pa_full :: "nat parray" where
  "pa_full = \<lparr>pa_lowest_free = 130, pa_number_free = 0, pa_size = 130, pa_max_size = 200,
     pa_block_size = 2, pa_addr = Some (replicate 130 (Some 7))\<rparr>"

definition pa_one :: "nat parray" where
  "pa_one = \<lparr>pa_lowest_free = 1, pa_number_free = 0, pa_size = 1, pa_max_size = 100,
     pa_block_size = 1, pa_addr = Some [Some 7]\<rparr>"

lemma pa_one_wf: "pa_wf pa_one"
  by (simp add: pa_wf_def pa_one_def pa_cells_def free_count_def first_free_def INT_MAX_def)

lemma pa_two_wf: "pa_wf pa_two"
  by (simp add: pa_wf_def pa_two_def pa_cells_def free_count_def first_free_def INT_MAX_def)

lemma pa_full_wf: "pa_wf pa_full"
  by (simp add: pa_wf_def pa_full_def pa_cells_def free_count_def first_free_def INT_MAX_def)

text \<open>
  When a full table grows: the number of slots it asks for must lie below the maximum, and the C library
  must provide them.
\<close>

definition pa_next_size :: "'p parray \<Rightarrow> int" where
  "pa_next_size t = (let n = (if pa_addr t = None then 1 else 2 * pa_size t)
     in if n \<le> pa_max_size t then n else OCOMS_FORTRAN_HANDLE_MAX)"

definition pa_can_grow :: "'p option allocator \<Rightarrow> 'p parray \<Rightarrow> bool" where
  "pa_can_grow malloc t \<longleftrightarrow> pa_next_size t < pa_max_size t \<and> malloc (size_t (pa_next_size t)) \<noteq> None"

lemma pa_new_size_next:
  "pa_new_size t (if pa_addr t = None then TABLE_INIT else pa_size t * TABLE_GROW) OCOMS_FORTRAN_HANDLE_MAX =
     (if pa_next_size t < pa_max_size t then Some (pa_next_size t) else None)"
  by (cases "pa_addr t") (auto simp: pa_new_size_def pa_next_size_def Let_def TABLE_INIT_def TABLE_GROW_def mult.commute)

lemma pa_free_slot:
  assumes "pa_wf t"
  shows "pa_number_free t = 0 \<longleftrightarrow> \<not> (\<exists>i. 0 \<le> i \<and> i < pa_size t \<and> ocoms_pointer_array_get_item t i = Some None)"
proof -
  have sz: "pa_size t = int (length (pa_cells t))" "pa_number_free t = int (free_count (pa_cells t))" using assms by (simp_all add: pa_wf_def)
  have "(\<exists>i. 0 \<le> i \<and> i < pa_size t \<and> ocoms_pointer_array_get_item t i = Some None) \<longleftrightarrow> (\<exists>n < length (pa_cells t). pa_cells t ! n = None)"
  proof
    assume "\<exists>i. 0 \<le> i \<and> i < pa_size t \<and> ocoms_pointer_array_get_item t i = Some None"
    then obtain i where i: "0 \<le> i" "i < pa_size t" "ocoms_pointer_array_get_item t i = Some None" by blast
    then show "\<exists>n < length (pa_cells t). pa_cells t ! n = None"
      using pa_get_item_eq [OF assms i(1)] pa_look_cells [OF assms, of i] sz by (intro exI [of _ "nat i"]) simp
  next
    assume "\<exists>n < length (pa_cells t). pa_cells t ! n = None"
    then obtain n where "n < length (pa_cells t)" "pa_cells t ! n = None" by blast
    then show "\<exists>i. 0 \<le> i \<and> i < pa_size t \<and> ocoms_pointer_array_get_item t i = Some None"
      using pa_get_item_eq [OF assms, of "int n"] pa_look_cells [OF assms, of "int n"] sz by (intro exI [of _ "int n"]) simp
  qed
  moreover have "first_free (pa_cells t) = length (pa_cells t) \<longleftrightarrow> \<not> (\<exists>n < length (pa_cells t). pa_cells t ! n = None)"
    using first_free_le [of "pa_cells t"] first_free_None [of "pa_cells t"] first_free_less [of _ "pa_cells t"] le_neq_implies_less by metis
  ultimately show ?thesis using sz(2) free_count_0_iff [of "pa_cells t"] by simp
qed

lemma pa_add_refuses:
  assumes wf: "pa_wf t" and big: "pa_size t * 2 \<le> INT_MAX"
  shows "ocoms_pointer_array_add malloc t (Some p) = Some (OCOMS_ERR_OUT_OF_RESOURCE, u) \<longrightarrow> pa_number_free t = 0 \<and> \<not> pa_can_grow malloc t"
    and "pa_number_free t = 0 \<Longrightarrow> \<not> pa_can_grow malloc t \<Longrightarrow>
      ocoms_pointer_array_add malloc t (Some p) = Some (OCOMS_ERR_OUT_OF_RESOURCE, t)"
proof -
  let ?soft = "if pa_addr t = None then TABLE_INIT else pa_size t * TABLE_GROW"
  have sz: "0 \<le> pa_size t" using wf by (simp add: pa_wf_def)
  have chk: "(if pa_addr t = None then Some TABLE_INIT else chk (pa_size t * TABLE_GROW)) = Some ?soft"
    using big sz by (simp add: TABLE_GROW_def INT_MIN_def)
  have no: "\<exists>u. grow_table malloc t ?soft OCOMS_FORTRAN_HANDLE_MAX = Some (False, u) \<Longrightarrow> \<not> pa_can_grow malloc t"
    unfolding grow_table_def pa_new_size_next by (auto simp: pa_can_grow_def realloc_def split: if_splits option.splits bind_splits)
  show "ocoms_pointer_array_add malloc t (Some p) = Some (OCOMS_ERR_OUT_OF_RESOURCE, u) \<longrightarrow> pa_number_free t = 0 \<and> \<not> pa_can_grow malloc t"
    using no chk unfolding ocoms_pointer_array_add_def
    by (auto simp: assert_c_def Let_def OCOMS_ERR_OUT_OF_RESOURCE_def split: if_splits bind_splits)
  show "ocoms_pointer_array_add malloc t (Some p) = Some (OCOMS_ERR_OUT_OF_RESOURCE, t)"
    if "pa_number_free t = 0" "\<not> pa_can_grow malloc t"
  proof -
    have "grow_table malloc t ?soft OCOMS_FORTRAN_HANDLE_MAX = Some (False, t)"
      using that(2) unfolding grow_table_def pa_new_size_next by (auto simp: pa_can_grow_def realloc_def)
    then show ?thesis using that(1) chk unfolding ocoms_pointer_array_add_def by simp
  qed
qed



text \<open>
  \<open>ocoms_pointer_array_set_item\<close> on an index two below the bound either reports an error and
  leaves the table alone, or makes \<open>ocoms_pointer_array_get_item\<close> return the stored value there
  and what it returned before at every other index, with the counters kept consistent.
\<close>

theorem set_item_then_get:
  assumes "pa_wf t" and "malloc_ok malloc" and "0 \<le> i" and "i + 2 \<le> pa_max_size t"
    and "pa_max_size t \<le> INT_MAX"
  shows "ocoms_pointer_array_set_item malloc t i v = Some (OCOMS_ERROR, t)
    \<or> (\<exists>t'. ocoms_pointer_array_set_item malloc t i v = Some (OCOMS_SUCCESS, t') \<and> pa_wf t'
        \<and> (\<forall>j\<ge>0. ocoms_pointer_array_get_item t' j
              = (if j = i then Some v else ocoms_pointer_array_get_item t j)))"
  using pa_set_item_cases [OF assms, of v] assms(1) by (auto simp: pa_get_item_eq)

theorem set_item_then_get_witness:
  "ocoms_pointer_array_set_item (\<lambda>n. Some (replicate n None)) pa_two 5 (Some 9) = Some (OCOMS_ERROR, pa_two)
    \<or> (\<exists>t'. ocoms_pointer_array_set_item (\<lambda>n. Some (replicate n None)) pa_two 5 (Some 9) = Some (OCOMS_SUCCESS, t') \<and> pa_wf t'
        \<and> (\<forall>j\<ge>0. ocoms_pointer_array_get_item t' j
              = (if j = 5 then Some (Some 9) else ocoms_pointer_array_get_item pa_two j)))"
  by (rule set_item_then_get [OF pa_two_wf]) (simp_all add: pa_two_def INT_MAX_def)

text \<open>
  \<open>ocoms_pointer_array_test_and_set_item\<close> never overwrites: it returns true only for an index
  that was free, which then holds the value, and false leaves the table unchanged.
\<close>

theorem test_and_set_reserves:
  assumes "pa_wf t" and "malloc_ok malloc" and "0 \<le> i" and "i + 2 \<le> pa_max_size t"
    and "pa_max_size t \<le> INT_MAX"
  shows "ocoms_pointer_array_test_and_set_item malloc t i (Some p) = Some (False, t)
    \<or> (\<exists>t'. ocoms_pointer_array_test_and_set_item malloc t i (Some p) = Some (True, t') \<and> pa_wf t'
        \<and> ocoms_pointer_array_get_item t i = Some None
        \<and> (\<forall>j\<ge>0. ocoms_pointer_array_get_item t' j
              = (if j = i then Some (Some p) else ocoms_pointer_array_get_item t j)))"
  using pa_test_and_set_cases [OF assms, of p] assms(1,3) by (auto simp: pa_get_item_eq)

theorem test_and_set_reserves_witness:
  "ocoms_pointer_array_test_and_set_item (\<lambda>n. Some (replicate n None)) pa_two 1 (Some 9) = Some (False, pa_two)
    \<or> (\<exists>t'. ocoms_pointer_array_test_and_set_item (\<lambda>n. Some (replicate n None)) pa_two 1 (Some 9) = Some (True, t') \<and> pa_wf t'
        \<and> ocoms_pointer_array_get_item pa_two 1 = Some None
        \<and> (\<forall>j\<ge>0. ocoms_pointer_array_get_item t' j
              = (if j = 1 then Some (Some 9) else ocoms_pointer_array_get_item pa_two j)))"
  by (rule test_and_set_reserves [OF pa_two_wf]) (simp_all add: pa_two_def INT_MAX_def)

text \<open>
  C3: any sequence of successful stores and clears on a pointer array leaves exactly the map that
  the same sequence produces from the map it held before.
\<close>

theorem pointer_array_refines_map:
  assumes "malloc_ok malloc" and "pa_wf t" and "pa_max_size t \<le> INT_MAX"
    and "run_store pas_put pas_del (malloc, t) ops = Some (malloc', t')"
  shows "pa_wf t' \<and> pa_look t' = map_ops (pa_look t) ops"
  using pas.run_store_refines [of "(malloc, t)" ops "(malloc', t')"] assms
  by (simp add: pas_inv_def pas_look_def)

theorem pointer_array_refines_map_witness:
  "\<exists>t'. run_store pas_put pas_del ((\<lambda>n. Some (replicate n None)), pa_two) [Put 1 9, Del 0] = Some ((\<lambda>n. Some (replicate n None)), t')
    \<and> pa_wf t' \<and> pa_look t' = map_ops (pa_look pa_two) [Put 1 9, Del 0]"
proof -
  have "ocoms_pointer_array_set_item (\<lambda>n. Some (replicate n None)) pa_two 1 (Some 9)
      = Some (OCOMS_SUCCESS, pa_stored pa_two 1 (Some 9))"
    by (rule pa_set_item_step [OF pa_two_wf]) (simp_all add: pa_two_def)
  moreover have "ocoms_pointer_array_set_item (\<lambda>n. Some (replicate n None)) (pa_stored pa_two 1 (Some 9)) 0 None
      = Some (OCOMS_SUCCESS, pa_stored (pa_stored pa_two 1 (Some 9)) 0 None)"
    by (rule pa_set_item_step [OF pa_stored_wf [OF pa_two_wf]]) (simp_all add: pa_two_def pa_stored_def Let_def)
  ultimately have "run_store pas_put pas_del ((\<lambda>n. Some (replicate n None)), pa_two) [Put 1 9, Del 0]
      = Some ((\<lambda>n. Some (replicate n None)), pa_stored (pa_stored pa_two 1 (Some 9)) 0 None)"
    by (simp add: pas_put_def pas_del_def pas_set_def) (simp add: pa_two_def pa_stored_def Let_def)
  moreover from this have "pa_wf (pa_stored (pa_stored pa_two 1 (Some 9)) 0 None)
      \<and> pa_look (pa_stored (pa_stored pa_two 1 (Some 9)) 0 None) = map_ops (pa_look pa_two) [Put 1 9, Del 0]"
    by (intro pointer_array_refines_map [of "(\<lambda>n. Some (replicate n None))"] pa_two_wf) (simp_all add: pa_two_def INT_MAX_def)
  ultimately show ?thesis by blast
qed

text \<open>
  storing at an even index one below the bound writes past the table: \<open>grow_table\<close> then
  settles for a size equal to the index, so that the write at the index is out of bounds.
\<close>

theorem set_item_overflows_at_bound:
  assumes "pa_wf t" and "malloc_ok malloc" and "\<forall>n. malloc n \<noteq> None"
    and "0 \<le> i" and "pa_size t \<le> i" and "even i" and "pa_max_size t = i + 1" and "i + 2 \<le> INT_MAX"
  shows "ocoms_pointer_array_set_item malloc t i v = None"
proof -
  have soft: "pa_soft_for i = Some (i + 2)" using assms pa_soft_for_eq [of i] by simp
  have new: "pa_new_size t (i + 2) i = Some i" using assms by (simp add: pa_new_size_def)
  have nn: "size_t i = nat i" using assms by (intro size_t_nonneg) (simp_all add: INT_MAX_def)
  from assms(3) obtain fresh where "malloc (nat i) = Some fresh" by blast
  then obtain ys where ys: "realloc malloc (pa_addr t) (nat i) = Some ys" by (simp add: realloc_def)
  then have len: "length ys = nat i" by (rule realloc_length [OF assms(2)])
  show ?thesis
  proof (cases "grow_table malloc t (i + 2) i")
    case None
    then show ?thesis using assms(5) soft by (simp add: ocoms_pointer_array_set_item_def)
  next
    case (Some r)
    then obtain p where "fst r" "pa_addr (snd r) = Some p" "length p = nat i"
      using new ys len by (auto simp: grow_table_def nn bind_eq_Some_conv memset_at_def split: if_splits)
    then show ?thesis using Some assms(4,5) soft by (simp add: ocoms_pointer_array_set_item_def rd_def)
  qed
qed

theorem set_item_overflows_at_bound_witness:
  "ocoms_pointer_array_set_item (\<lambda>n. Some (replicate n None)) (pa_two\<lparr>pa_max_size := 5\<rparr>) 4 (Some 9) = None"
  by (rule set_item_overflows_at_bound)
    (simp_all add: pa_wf_def pa_two_def pa_cells_def free_count_def first_free_def INT_MAX_def)

text \<open>
  adding to a full table whose doubled size exceeds a bound above 128 shrinks it: the size
  falls to 128, below the index that is then used, so the assertions of the code fail.
\<close>

theorem add_shrinks_full_table:
  assumes "pa_wf t" and "pa_number_free t = 0" and "OCOMS_FORTRAN_HANDLE_MAX < pa_size t"
    and "OCOMS_FORTRAN_HANDLE_MAX < pa_max_size t" and "pa_max_size t < pa_size t * 2"
    and "pa_size t * 2 \<le> INT_MAX" and "malloc 128 = Some fresh"
  shows "ocoms_pointer_array_add malloc t (Some p) = None
    \<and> (\<exists>u. grow_table malloc t (pa_size t * 2) OCOMS_FORTRAN_HANDLE_MAX = Some (True, u)
        \<and> pa_size u = OCOMS_FORTRAN_HANDLE_MAX)"
proof -
  have H: "OCOMS_FORTRAN_HANDLE_MAX = 128" by (simp add: OCOMS_FORTRAN_HANDLE_MAX_def)
  have new: "pa_new_size t (pa_size t * 2) 128 = Some 128"
    using assms by (simp add: pa_new_size_def H)
  have sz: "size_t 128 = 128" by (simp add: size_t_def)
  have addr: "pa_addr t = Some (pa_cells t)" using assms by (intro pa_addr_cells) (simp_all add: H)
  obtain ys where ys: "realloc malloc (pa_addr t) 128 = Some ys" using assms(7) by (simp add: realloc_def)
  define u where "u = t\<lparr>pa_number_free := 128 - pa_size t, pa_addr := Some ys, pa_size := 128\<rparr>"
  have g: "grow_table malloc t (pa_size t * 2) 128 = Some (True, u)"
    using new ys assms sz by (simp add: grow_table_def H INT_MIN_def INT_MAX_def u_def)
  have "\<not> 0 < pa_number_free u" using assms(3) by (simp add: u_def H)
  moreover have "(if pa_addr t = None then Some TABLE_INIT else chk (pa_size t * TABLE_GROW)) = Some (pa_size t * 2)"
    using addr assms by (simp add: TABLE_GROW_def H INT_MIN_def)
  ultimately have "ocoms_pointer_array_add malloc t (Some p) = None"
    using assms(2) g by (simp add: ocoms_pointer_array_add_def H assert_c_def Let_def)
  with g show ?thesis by (simp add: H u_def)
qed

theorem add_shrinks_full_table_witness:
  "ocoms_pointer_array_add (\<lambda>n. Some (replicate n None)) pa_full (Some 9) = None
    \<and> (\<exists>u. grow_table (\<lambda>n. Some (replicate n None)) pa_full (pa_size pa_full * 2) OCOMS_FORTRAN_HANDLE_MAX = Some (True, u)
        \<and> pa_size u = OCOMS_FORTRAN_HANDLE_MAX)"
  by (rule add_shrinks_full_table [OF pa_full_wf])
    (simp_all add: pa_full_def INT_MAX_def OCOMS_FORTRAN_HANDLE_MAX_def)

end
