(* ===== verification/Hash_Table.thy ===== *)
theory Hash_Table
  imports Interfaces "HOL-Library.Multiset"
begin

text \<open>
  The open-addressing hash table of \<open>ocoms/util/ocoms_hash_table.c\<close>: one array of elements with a
  valid flag, linear probing from the key's hash, growth by rehashing, and removal that moves the
  followers of the removed element back.  Keys are 32-bit or 64-bit integers or byte strings; the
  key union with the table's method record is the datatype \<open>hkey\<close>, and reading another member than
  the one stored is \<open>None\<close>.  The probe loops are \<^theory_text>\<open>partial_function\<close>s: on a table
  without an invalid element they never return, which is \<open>None\<close> too.
\<close>

section \<open>Model\<close>

datatype hkey = U32 "32 word" | U64 "64 word" | PTR "8 word list"

datatype hmethods = Methods_uint32 | Methods_uint64 | Methods_ptr

text \<open>A value is a pointer, null being \<open>None\<close>.\<close>

record 'v helt =
  he_valid :: bool
  he_key :: hkey
  he_value :: "'v option"

record 'v htable =
  ht_table :: "'v helt list option"
  ht_capacity :: nat
  ht_size :: nat
  ht_growth_trigger :: nat
  ht_density_numer :: int
  ht_density_denom :: int
  ht_growth_numer :: int
  ht_growth_denom :: int
  ht_type_methods :: "hmethods option"

text \<open>An element as \<open>calloc\<close> leaves it.\<close>

definition he_zero :: "'v helt" where
  "he_zero = \<lparr>he_valid = False, he_key = U32 0, he_value = None\<rparr>"

definition ocoms_hash_table_construct :: "'v htable" where
  "ocoms_hash_table_construct = \<lparr>ht_table = None, ht_capacity = 0, ht_size = 0, ht_growth_trigger = 0,
     ht_density_numer = 0, ht_density_denom = 0, ht_growth_numer = 0, ht_growth_denom = 0,
     ht_type_methods = None\<rparr>"

definition ocoms_hash_round_capacity_up :: "nat \<Rightarrow> nat" where
  "ocoms_hash_round_capacity_up capacity = size_norm (size_norm (capacity + 29) div 30 * 30 + 1)"

text \<open>\<open>n * numer / denom\<close> in \<open>size_t\<close>, the \<open>int\<close> factors converted to it.\<close>

definition size_ratio :: "nat \<Rightarrow> int \<Rightarrow> int \<Rightarrow> nat option" where
  "size_ratio n numer denom =
     (if size_t denom = 0 then None else Some (size_norm (n * size_t numer) div size_t denom))"

definition ocoms_hash_table_init2 ::
  "(nat \<Rightarrow> bool) \<Rightarrow> 'v htable \<Rightarrow> nat \<Rightarrow> int \<Rightarrow> int \<Rightarrow> int \<Rightarrow> int \<Rightarrow> (int \<times> 'v htable) option" where
  "ocoms_hash_table_init2 calloc_ok ht estimated_max_size density_numer density_denom
      growth_numer growth_denom = do {
     est_capacity \<leftarrow> size_ratio estimated_max_size density_denom density_numer;
     let capacity = ocoms_hash_round_capacity_up est_capacity;
     if \<not> calloc_ok capacity then Some (OCOMS_ERR_OUT_OF_RESOURCE, ht\<lparr>ht_table := None\<rparr>)
     else do {
       trigger \<leftarrow> size_ratio capacity density_numer density_denom;
       Some (OCOMS_SUCCESS, ht\<lparr>ht_table := Some (replicate capacity he_zero),
         ht_capacity := capacity, ht_density_numer := density_numer,
         ht_density_denom := density_denom, ht_growth_numer := growth_numer,
         ht_growth_denom := growth_denom, ht_growth_trigger := trigger,
         ht_type_methods := None\<rparr>) } }"

definition ocoms_hash_table_init ::
  "(nat \<Rightarrow> bool) \<Rightarrow> 'v htable \<Rightarrow> nat \<Rightarrow> (int \<times> 'v htable) option" where
  "ocoms_hash_table_init calloc_ok ht table_size = ocoms_hash_table_init2 calloc_ok ht table_size 1 2 2 1"

text \<open>The element destructor of the table's methods: byte-string keys are freed and cleared.\<close>

fun elt_destructor :: "hmethods \<Rightarrow> 'v helt \<Rightarrow> 'v helt" where
  "elt_destructor Methods_ptr e = e\<lparr>he_key := PTR []\<rparr>"
| "elt_destructor _ e = e"

definition he_clear :: "hmethods option \<Rightarrow> 'v helt \<Rightarrow> 'v helt" where
  "he_clear m e =
     (let e' = (if he_valid e then (case m of None \<Rightarrow> e | Some mm \<Rightarrow> elt_destructor mm e) else e)
      in e'\<lparr>he_valid := False, he_value := None\<rparr>)"

definition ocoms_hash_table_remove_all :: "'v htable \<Rightarrow> (int \<times> 'v htable) option" where
  "ocoms_hash_table_remove_all ht = do {
     tbl' \<leftarrow> (if ht_capacity ht = 0 then Some (ht_table ht)
             else do { tbl \<leftarrow> ht_table ht; assert_c (ht_capacity ht \<le> length tbl);
                       Some (Some (map (he_clear (ht_type_methods ht)) (take (ht_capacity ht) tbl)
                                   @ drop (ht_capacity ht) tbl)) });
     Some (OCOMS_SUCCESS, ht\<lparr>ht_table := tbl', ht_size := 0, ht_type_methods := None\<rparr>) }"

section \<open>Hashing\<close>

definition HASH_MULTIPLIER :: "64 word" where "HASH_MULTIPLIER = 31"

definition ocoms_hash_hash_key_ptr :: "8 word list \<Rightarrow> 64 word" where
  "ocoms_hash_hash_key_ptr key = foldl (\<lambda>h c. HASH_MULTIPLIER * h + ucast c) 0 key"

definition ocoms_hash_hash_elt_uint32 :: "hkey \<Rightarrow> 64 word option" where
  "ocoms_hash_hash_elt_uint32 k = (case k of U32 x \<Rightarrow> Some (ucast x) | _ \<Rightarrow> None)"

definition ocoms_hash_hash_elt_uint64 :: "hkey \<Rightarrow> 64 word option" where
  "ocoms_hash_hash_elt_uint64 k = (case k of U64 x \<Rightarrow> Some x | _ \<Rightarrow> None)"

definition ocoms_hash_hash_elt_ptr :: "hkey \<Rightarrow> 64 word option" where
  "ocoms_hash_hash_elt_ptr k = (case k of PTR x \<Rightarrow> Some (ocoms_hash_hash_key_ptr x) | _ \<Rightarrow> None)"

fun hash_elt :: "hmethods \<Rightarrow> hkey \<Rightarrow> 64 word option" where
  "hash_elt Methods_uint32 k = ocoms_hash_hash_elt_uint32 k"
| "hash_elt Methods_uint64 k = ocoms_hash_hash_elt_uint64 k"
| "hash_elt Methods_ptr k = ocoms_hash_hash_elt_ptr k"

text \<open>The first index to probe.\<close>

definition ht_home :: "hmethods \<Rightarrow> nat \<Rightarrow> hkey \<Rightarrow> nat option" where
  "ht_home m capacity k = (if capacity = 0 then None else map_option (\<lambda>h. unat h mod capacity) (hash_elt m k))"

text \<open>Comparison with the key an element holds: reading another union member is undefined.\<close>

fun hkey_eq :: "hkey \<Rightarrow> hkey \<Rightarrow> bool option" where
  "hkey_eq (U32 a) (U32 b) = Some (a = b)"
| "hkey_eq (U64 a) (U64 b) = Some (a = b)"
| "hkey_eq (PTR a) (PTR b) = Some (length a = length b \<and> a = b)"
| "hkey_eq _ _ = None"

section \<open>The loops\<close>

definition ht_wrap :: "nat \<Rightarrow> nat \<Rightarrow> nat" where
  "ht_wrap capacity ii = (if ii = capacity then 0 else ii)"

text \<open>The search of get, set and remove: stops at the key (\<open>True\<close>) or at an invalid element.\<close>

partial_function (option) ht_probe ::
  "'v helt list \<Rightarrow> nat \<Rightarrow> hkey \<Rightarrow> nat \<Rightarrow> (bool \<times> nat) option" where
  "ht_probe tbl capacity k ii0 = do {
     let ii = ht_wrap capacity ii0;
     elt \<leftarrow> rdn tbl ii;
     if \<not> he_valid elt then Some (False, ii)
     else do {
       eq \<leftarrow> hkey_eq (he_key elt) k;
       if eq then Some (True, ii) else ht_probe tbl capacity k (ii + 1) } }"

text \<open>The inner loop of \<open>ocoms_hash_grow\<close>: the first invalid element.\<close>

partial_function (option) ht_free_slot :: "'v helt list \<Rightarrow> nat \<Rightarrow> nat \<Rightarrow> nat option" where
  "ht_free_slot tbl capacity ii0 = do {
     let ii = ht_wrap capacity ii0;
     elt \<leftarrow> rdn tbl ii;
     if \<not> he_valid elt then Some ii else ht_free_slot tbl capacity (ii + 1) }"

fun ht_reinsert :: "hmethods option \<Rightarrow> nat \<Rightarrow> 'v helt list \<Rightarrow> 'v helt list \<Rightarrow> 'v helt list option" where
  "ht_reinsert mo capacity new_table [] = Some new_table"
| "ht_reinsert mo capacity new_table (old_elt # rest) =
     (if he_valid old_elt then do {
        m \<leftarrow> mo;
        h \<leftarrow> ht_home m capacity (he_key old_elt);
        ii \<leftarrow> ht_free_slot new_table capacity h;
        tbl \<leftarrow> wrn new_table ii old_elt;
        ht_reinsert mo capacity tbl rest }
      else ht_reinsert mo capacity new_table rest)"

definition ocoms_hash_grow :: "(nat \<Rightarrow> bool) \<Rightarrow> 'v htable \<Rightarrow> (int \<times> 'v htable) option" where
  "ocoms_hash_grow calloc_ok ht = do {
     scaled \<leftarrow> size_ratio (ht_capacity ht) (ht_growth_numer ht) (ht_growth_denom ht);
     let new_capacity = ocoms_hash_round_capacity_up scaled;
     if \<not> calloc_ok new_capacity then Some (OCOMS_ERR_OUT_OF_RESOURCE, ht)
     else do {
       old_table \<leftarrow> ht_table ht;
       assert_c (ht_capacity ht \<le> length old_table);
       new_table \<leftarrow> ht_reinsert (ht_type_methods ht) new_capacity
                      (replicate new_capacity he_zero) (take (ht_capacity ht) old_table);
       trigger \<leftarrow> size_ratio new_capacity (ht_density_numer ht) (ht_density_denom ht);
       Some (OCOMS_SUCCESS, ht\<lparr>ht_table := Some new_table, ht_capacity := new_capacity,
                              ht_growth_trigger := trigger\<rparr>) } }"

text \<open>
  The loops of \<open>ocoms_hash_table_remove_elt_at\<close>.  The inner one looks, from the home of the element
  at \<open>ii\<close>, for an invalid element before \<open>ii\<close>; \<open>None\<close> inside the result means that the element stays.
\<close>

partial_function (option) ht_relocate :: "'v helt list \<Rightarrow> nat \<Rightarrow> nat \<Rightarrow> nat \<Rightarrow> nat option option" where
  "ht_relocate elts capacity ii jj0 = do {
     let jj = ht_wrap capacity jj0;
     if jj = ii then Some None
     else do {
       elt \<leftarrow> rdn elts jj;
       if \<not> he_valid elt then Some (Some jj) else ht_relocate elts capacity ii (jj + 1) } }"

partial_function (option) ht_compact ::
  "hmethods \<Rightarrow> nat \<Rightarrow> 'v helt list \<Rightarrow> nat \<Rightarrow> 'v helt list option" where
  "ht_compact m capacity elts ii0 = do {
     let ii = ht_wrap capacity ii0;
     elt \<leftarrow> rdn elts ii;
     if \<not> he_valid elt then Some elts
     else do {
       h \<leftarrow> ht_home m capacity (he_key elt);
       r \<leftarrow> ht_relocate elts capacity ii h;
       elts' \<leftarrow> (case r of None \<Rightarrow> Some elts
                 | Some jj \<Rightarrow> do { e1 \<leftarrow> wrn elts jj elt; wrn e1 ii (elt\<lparr>he_valid := False\<rparr>) });
       ht_compact m capacity elts' (ii + 1) } }"

definition ocoms_hash_table_remove_elt_at :: "'v htable \<Rightarrow> nat \<Rightarrow> (int \<times> 'v htable) option" where
  "ocoms_hash_table_remove_elt_at ht ii = do {
     elts \<leftarrow> ht_table ht;
     elt \<leftarrow> rdn elts ii;
     if \<not> he_valid elt then Some (OCOMS_ERROR, ht)
     else do {
       m \<leftarrow> ht_type_methods ht;
       elts1 \<leftarrow> wrn elts ii (elt_destructor m (elt\<lparr>he_valid := False\<rparr>));
       elts2 \<leftarrow> ht_compact m (ht_capacity ht) elts1 (ii + 1);
       Some (OCOMS_SUCCESS, ht\<lparr>ht_table := Some elts2, ht_size := size_t (int (ht_size ht) - 1)\<rparr>) } }"

section \<open>Get, set and remove\<close>

text \<open>
  The checks made when \<open>OCOMS_ENABLE_DEBUG\<close> is set (\<open>dbg\<close>): the code to return, if they fail.
\<close>

definition ht_debug_check :: "bool \<Rightarrow> int \<Rightarrow> hmethods \<Rightarrow> 'v htable \<Rightarrow> int option" where
  "ht_debug_check dbg uninit_rc m ht =
     (if \<not> dbg then None
      else if ht_capacity ht = 0 then Some uninit_rc
      else if ht_type_methods ht \<noteq> None \<and> ht_type_methods ht \<noteq> Some m then Some OCOMS_ERROR
      else None)"

text \<open>
  The three key types share the text of these functions up to the key's type; \<open>m\<close> and \<open>k\<close> carry it.
  \<open>get\<close> also returns what it stores through \<open>value\<close>, if it does.
\<close>

definition ht_get_value ::
  "bool \<Rightarrow> hmethods \<Rightarrow> 'v htable \<Rightarrow> hkey \<Rightarrow> (int \<times> 'v option option \<times> 'v htable) option" where
  "ht_get_value dbg m ht k = (case ht_debug_check dbg OCOMS_ERROR m ht of
     Some rc \<Rightarrow> Some (rc, None, ht)
   | None \<Rightarrow> do {
       let ht' = ht\<lparr>ht_type_methods := Some m\<rparr>;
       h \<leftarrow> ht_home m (ht_capacity ht') k;
       tbl \<leftarrow> ht_table ht';
       r \<leftarrow> ht_probe tbl (ht_capacity ht') k h;
       if fst r then do { elt \<leftarrow> rdn tbl (snd r); Some (OCOMS_SUCCESS, Some (he_value elt), ht') }
       else Some (OCOMS_ERR_NOT_FOUND, None, ht') })"

definition ht_set_value ::
  "(nat \<Rightarrow> bool) \<Rightarrow> bool \<Rightarrow> hmethods \<Rightarrow> 'v htable \<Rightarrow> hkey \<Rightarrow> 'v option \<Rightarrow> (int \<times> 'v htable) option" where
  "ht_set_value calloc_ok dbg m ht k v = (case ht_debug_check dbg OCOMS_ERR_BAD_PARAM m ht of
     Some rc \<Rightarrow> Some (rc, ht)
   | None \<Rightarrow> do {
       let ht' = ht\<lparr>ht_type_methods := Some m\<rparr>;
       h \<leftarrow> ht_home m (ht_capacity ht') k;
       tbl \<leftarrow> ht_table ht';
       r \<leftarrow> ht_probe tbl (ht_capacity ht') k h;
       elt \<leftarrow> rdn tbl (snd r);
       if fst r then do {
         tbl' \<leftarrow> wrn tbl (snd r) (elt\<lparr>he_value := v\<rparr>);
         Some (OCOMS_SUCCESS, ht'\<lparr>ht_table := Some tbl'\<rparr>) }
       else do {
         tbl' \<leftarrow> wrn tbl (snd r) (elt\<lparr>he_key := k, he_value := v, he_valid := True\<rparr>);
         let ht2 = ht'\<lparr>ht_table := Some tbl', ht_size := size_norm (ht_size ht' + 1)\<rparr>;
         if ht_growth_trigger ht2 \<le> ht_size ht2 then do {
           g \<leftarrow> ocoms_hash_grow calloc_ok ht2;
           Some (if fst g \<noteq> OCOMS_SUCCESS then (fst g, snd g) else (OCOMS_SUCCESS, snd g)) }
         else Some (OCOMS_SUCCESS, ht2) } })"

definition ht_remove_value :: "bool \<Rightarrow> hmethods \<Rightarrow> 'v htable \<Rightarrow> hkey \<Rightarrow> (int \<times> 'v htable) option" where
  "ht_remove_value dbg m ht k = (case ht_debug_check dbg OCOMS_ERROR m ht of
     Some rc \<Rightarrow> Some (rc, ht)
   | None \<Rightarrow> do {
       let ht' = ht\<lparr>ht_type_methods := Some m\<rparr>;
       h \<leftarrow> ht_home m (ht_capacity ht') k;
       tbl \<leftarrow> ht_table ht';
       r \<leftarrow> ht_probe tbl (ht_capacity ht') k h;
       if fst r then ocoms_hash_table_remove_elt_at ht' (snd r)
       else Some (OCOMS_ERR_NOT_FOUND, ht') })"

definition ocoms_hash_table_get_value_uint32 where
  "ocoms_hash_table_get_value_uint32 dbg ht key = ht_get_value dbg Methods_uint32 ht (U32 key)"

definition ocoms_hash_table_set_value_uint32 where
  "ocoms_hash_table_set_value_uint32 calloc_ok dbg ht key v =
     ht_set_value calloc_ok dbg Methods_uint32 ht (U32 key) v"

definition ocoms_hash_table_remove_value_uint32 where
  "ocoms_hash_table_remove_value_uint32 dbg ht key = ht_remove_value dbg Methods_uint32 ht (U32 key)"

definition ocoms_hash_table_get_value_uint64 where
  "ocoms_hash_table_get_value_uint64 dbg ht key = ht_get_value dbg Methods_uint64 ht (U64 key)"

definition ocoms_hash_table_set_value_uint64 where
  "ocoms_hash_table_set_value_uint64 calloc_ok dbg ht key v =
     ht_set_value calloc_ok dbg Methods_uint64 ht (U64 key) v"

definition ocoms_hash_table_remove_value_uint64 where
  "ocoms_hash_table_remove_value_uint64 dbg ht key = ht_remove_value dbg Methods_uint64 ht (U64 key)"

definition ocoms_hash_table_get_value_ptr where
  "ocoms_hash_table_get_value_ptr dbg ht key = ht_get_value dbg Methods_ptr ht (PTR key)"

text \<open>
  A new byte-string key is copied into memory from \<open>malloc\<close>, whose result the code does not check:
  \<open>malloc_ok_for n\<close> says whether it can provide \<open>n\<close> bytes.
\<close>

definition ocoms_hash_table_set_value_ptr where
  "ocoms_hash_table_set_value_ptr calloc_ok malloc_ok_for dbg ht key v = do {
     g \<leftarrow> ht_get_value dbg Methods_ptr ht (PTR key);
     assert_c (fst g = OCOMS_ERR_NOT_FOUND \<longrightarrow> key \<noteq> [] \<longrightarrow> malloc_ok_for (length key));
     ht_set_value calloc_ok dbg Methods_ptr ht (PTR key) v }"

definition ocoms_hash_table_remove_value_ptr where
  "ocoms_hash_table_remove_value_ptr dbg ht key = ht_remove_value dbg Methods_ptr ht (PTR key)"

section \<open>Traversal\<close>

text \<open>
  \<open>ocoms_hash_table_get_next_elt\<close>: a node is the index of an element, \<open>None\<close> the null pointer.
\<close>

function ht_next_valid :: "'v helt list \<Rightarrow> nat \<Rightarrow> nat \<Rightarrow> nat option option" where
  "ht_next_valid tbl capacity ii =
     (if ii < capacity then do {
        elt \<leftarrow> rdn tbl ii;
        if he_valid elt then Some (Some ii) else ht_next_valid tbl capacity (ii + 1) }
      else Some None)"
  by auto
termination by (relation "measure (\<lambda>(tbl, capacity, ii). capacity - ii)") auto

declare ht_next_valid.simps [simp del]

definition ocoms_hash_table_get_next_elt :: "'v htable \<Rightarrow> nat option \<Rightarrow> (int \<times> nat option) option" where
  "ocoms_hash_table_get_next_elt ht prev_elt = do {
     let start = (case prev_elt of None \<Rightarrow> 0 | Some i \<Rightarrow> i + 1);
     r \<leftarrow> (if start < ht_capacity ht then do { tbl \<leftarrow> ht_table ht; ht_next_valid tbl (ht_capacity ht) start }
          else Some None);
     Some (case r of None \<Rightarrow> (OCOMS_ERROR, None) | Some ii \<Rightarrow> (OCOMS_SUCCESS, Some ii)) }"

text \<open>The key, the value and the node stored through the out parameters, on success.\<close>

definition ocoms_hash_table_get_next_key_uint32 ::
  "'v htable \<Rightarrow> nat option \<Rightarrow> (int \<times> (32 word \<times> 'v option \<times> nat) option) option" where
  "ocoms_hash_table_get_next_key_uint32 ht in_node = do {
     r \<leftarrow> ocoms_hash_table_get_next_elt ht in_node;
     if fst r = OCOMS_SUCCESS then do {
       ii \<leftarrow> snd r; tbl \<leftarrow> ht_table ht; elt \<leftarrow> rdn tbl ii;
       key \<leftarrow> (case he_key elt of U32 x \<Rightarrow> Some x | _ \<Rightarrow> None);
       Some (OCOMS_SUCCESS, Some (key, he_value elt, ii)) }
     else Some (OCOMS_ERROR, None) }"

definition ocoms_hash_table_get_next_key_uint64 ::
  "'v htable \<Rightarrow> nat option \<Rightarrow> (int \<times> (64 word \<times> 'v option \<times> nat) option) option" where
  "ocoms_hash_table_get_next_key_uint64 ht in_node = do {
     r \<leftarrow> ocoms_hash_table_get_next_elt ht in_node;
     if fst r = OCOMS_SUCCESS then do {
       ii \<leftarrow> snd r; tbl \<leftarrow> ht_table ht; elt \<leftarrow> rdn tbl ii;
       key \<leftarrow> (case he_key elt of U64 x \<Rightarrow> Some x | _ \<Rightarrow> None);
       Some (OCOMS_SUCCESS, Some (key, he_value elt, ii)) }
     else Some (OCOMS_ERROR, None) }"

definition ocoms_hash_table_get_next_key_ptr ::
  "'v htable \<Rightarrow> nat option \<Rightarrow> (int \<times> (8 word list \<times> 'v option \<times> nat) option) option" where
  "ocoms_hash_table_get_next_key_ptr ht in_node = do {
     r \<leftarrow> ocoms_hash_table_get_next_elt ht in_node;
     if fst r = OCOMS_SUCCESS then do {
       ii \<leftarrow> snd r; tbl \<leftarrow> ht_table ht; elt \<leftarrow> rdn tbl ii;
       key \<leftarrow> (case he_key elt of PTR x \<Rightarrow> Some x | _ \<Rightarrow> None);
       Some (OCOMS_SUCCESS, Some (key, he_value elt, ii)) }
     else Some (OCOMS_ERROR, None) }"

definition ocoms_hash_table_get_first_key_uint32 where
  "ocoms_hash_table_get_first_key_uint32 ht = ocoms_hash_table_get_next_key_uint32 ht None"

definition ocoms_hash_table_get_first_key_uint64 where
  "ocoms_hash_table_get_first_key_uint64 ht = ocoms_hash_table_get_next_key_uint64 ht None"

definition ocoms_hash_table_get_first_key_ptr where
  "ocoms_hash_table_get_first_key_ptr ht = ocoms_hash_table_get_next_key_ptr ht None"

section \<open>Positions on the ring of slots\<close>

text \<open>The number of steps from slot \<open>p\<close> to slot \<open>x\<close>, and the slot after \<open>p\<close>.\<close>

definition dst :: "nat \<Rightarrow> nat \<Rightarrow> nat \<Rightarrow> nat" where
  "dst cap p x = (if p \<le> x then x - p else x + cap - p)"

definition nxt :: "nat \<Rightarrow> nat \<Rightarrow> nat" where
  "nxt cap p = ht_wrap cap (p + 1)"

lemma nxt_less [simp]: "p < cap \<Longrightarrow> nxt cap p < cap"
  by (simp add: nxt_def ht_wrap_def)

lemma ht_wrap_nxt [simp]: "p < cap \<Longrightarrow> ht_wrap cap (Suc p) = nxt cap p"
  by (simp add: nxt_def)

lemma ht_wrap_id [simp]: "p < cap \<Longrightarrow> ht_wrap cap p = p"
  by (simp add: ht_wrap_def)

lemma dst_self [simp]: "dst cap p p = 0"
  by (simp add: dst_def)

lemma dst_less [simp]: "p < cap \<Longrightarrow> x < cap \<Longrightarrow> dst cap p x < cap"
  by (auto simp: dst_def)

lemma dst_eq_0 [simp]: "p < cap \<Longrightarrow> x < cap \<Longrightarrow> dst cap p x = 0 \<longleftrightarrow> x = p"
  by (auto simp: dst_def)

lemma dst_nxt: "p < cap \<Longrightarrow> x < cap \<Longrightarrow> x \<noteq> p \<Longrightarrow> dst cap (nxt cap p) x = dst cap p x - 1"
  by (auto simp: dst_def nxt_def ht_wrap_def)

lemma dst_to_nxt: "p < cap \<Longrightarrow> g < cap \<Longrightarrow> nxt cap p \<noteq> g \<Longrightarrow> dst cap g (nxt cap p) = dst cap g p + 1"
  by (auto simp: dst_def nxt_def ht_wrap_def)

lemma dst_inj: "p < cap \<Longrightarrow> x < cap \<Longrightarrow> y < cap \<Longrightarrow> dst cap p x = dst cap p y \<Longrightarrow> x = y"
  by (auto simp: dst_def split: if_splits)

text \<open>Walking around the ring meets every slot, so a slot at which to stop is met.\<close>

lemma ring_induct [consumes 3, case_names stop step]:
  assumes "p < cap" and "f < cap" and "stop f"
    and stop: "\<And>p. p < cap \<Longrightarrow> stop p \<Longrightarrow> P p"
    and step: "\<And>p. p < cap \<Longrightarrow> \<not> stop p \<Longrightarrow> P (nxt cap p) \<Longrightarrow> P p"
  shows "P p"
  using assms(1)
proof (induction "dst cap p f" arbitrary: p rule: less_induct)
  case less
  show ?case
  proof (cases "stop p")
    case True
    with less.prems show ?thesis by (rule stop)
  next
    case False
    with assms(3) have ne: "f \<noteq> p" by auto
    then have "dst cap (nxt cap p) f < dst cap p f"
      using dst_nxt [of p cap f] dst_eq_0 [of p cap f] less.prems assms(2) by linarith
    then have "P (nxt cap p)" using less.hyps less.prems by simp
    with less.prems False show ?thesis by (rule step)
  qed
qed

text \<open>\<open>j\<close> is the first slot from \<open>p\<close> on at which \<open>stop\<close> holds.\<close>

definition first_from :: "nat \<Rightarrow> (nat \<Rightarrow> bool) \<Rightarrow> nat \<Rightarrow> nat \<Rightarrow> bool" where
  "first_from cap stop p j \<longleftrightarrow>
     j < cap \<and> stop j \<and> (\<forall>x < cap. dst cap p x < dst cap p j \<longrightarrow> \<not> stop x)"

lemma first_here: "p < cap \<Longrightarrow> stop p \<Longrightarrow> first_from cap stop p p"
  by (simp add: first_from_def)

lemma first_next:
  assumes "p < cap" and "\<not> stop p" and "first_from cap stop (nxt cap p) j"
  shows "first_from cap stop p j"
proof -
  have j: "j < cap" "stop j" "j \<noteq> p" using assms by (auto simp: first_from_def)
  { fix x assume x: "x < cap" "dst cap p x < dst cap p j"
    have "\<not> stop x"
    proof (cases "x = p")
      case False
      with x j assms(1) have "dst cap (nxt cap p) x < dst cap (nxt cap p) j"
        using dst_nxt [of p cap x] dst_nxt [of p cap j] dst_eq_0 [of p cap x] by linarith
      with x(1) assms(3) show ?thesis by (simp add: first_from_def)
    qed (use assms in simp) }
  with j show ?thesis by (simp add: first_from_def)
qed

lemma first_before: "first_from cap stop p j \<Longrightarrow> x < cap \<Longrightarrow> dst cap p x < dst cap p j \<Longrightarrow> \<not> stop x"
  by (simp add: first_from_def)

section \<open>The invariant of a table\<close>

fun key_kind :: "hmethods \<Rightarrow> hkey \<Rightarrow> bool" where
  "key_kind Methods_uint32 (U32 _) = True"
| "key_kind Methods_uint64 (U64 _) = True"
| "key_kind Methods_ptr (PTR _) = True"
| "key_kind _ _ = False"

definition khome :: "hmethods \<Rightarrow> nat \<Rightarrow> hkey \<Rightarrow> nat" where
  "khome m cap k = unat (the (hash_elt m k)) mod cap"

lemma hkey_eq_kind: "key_kind m a \<Longrightarrow> key_kind m b \<Longrightarrow> hkey_eq a b = Some (a = b)"
  by (cases m; cases a; cases b) auto

lemma ht_home_kind: "key_kind m k \<Longrightarrow> 0 < cap \<Longrightarrow> ht_home m cap k = Some (khome m cap k)"
  by (cases m; cases k)
     (auto simp: ht_home_def khome_def ocoms_hash_hash_elt_uint32_def ocoms_hash_hash_elt_uint64_def
       ocoms_hash_hash_elt_ptr_def)

lemma khome_less [simp]: "0 < cap \<Longrightarrow> khome m cap k < cap"
  by (simp add: khome_def)

text \<open>The entries of a table, and what it maps a key to.\<close>

definition entries :: "'v helt list \<Rightarrow> (hkey \<times> 'v option) multiset" where
  "entries tbl = mset (map (\<lambda>e. (he_key e, he_value e)) (filter he_valid tbl))"

definition ht_look :: "'v helt list \<Rightarrow> hkey \<Rightarrow> 'v option option" where
  "ht_look tbl k = map_option he_value (find (\<lambda>e. he_valid e \<and> he_key e = k) tbl)"

text \<open>
  Every key has the kind of the table, and from the home of every element to the element there is
  no invalid slot: the probe loops get to it.
\<close>

definition probe_ok :: "hmethods \<Rightarrow> nat \<Rightarrow> 'v helt list \<Rightarrow> bool" where
  "probe_ok m cap tbl \<longleftrightarrow> length tbl = cap \<and> 0 < cap \<and>
     (\<forall>i < cap. he_valid (tbl ! i) \<longrightarrow> key_kind m (he_key (tbl ! i)) \<and>
        (\<forall>j < cap. dst cap (khome m cap (he_key (tbl ! i))) j < dst cap (khome m cap (he_key (tbl ! i))) i
           \<longrightarrow> he_valid (tbl ! j)))"

definition keys_distinct :: "(hkey \<times> 'v) multiset \<Rightarrow> bool" where
  "keys_distinct M \<longleftrightarrow> (\<forall>k v w N. M = add_mset (k, v) N \<longrightarrow> (k, w) \<notin># N)"

lemma probe_okD:
  "probe_ok m cap tbl \<Longrightarrow> length tbl = cap" "probe_ok m cap tbl \<Longrightarrow> 0 < cap"
  "probe_ok m cap tbl \<Longrightarrow> i < cap \<Longrightarrow> he_valid (tbl ! i) \<Longrightarrow> key_kind m (he_key (tbl ! i))"
  by (auto simp: probe_ok_def)

lemma probe_ok_path:
  "probe_ok m cap tbl \<Longrightarrow> i < cap \<Longrightarrow> he_valid (tbl ! i) \<Longrightarrow> j < cap \<Longrightarrow>
   dst cap (khome m cap (he_key (tbl ! i))) j < dst cap (khome m cap (he_key (tbl ! i))) i \<Longrightarrow>
   he_valid (tbl ! j)"
  unfolding probe_ok_def by blast

lemma entries_size: "size (entries tbl) = length (filter he_valid tbl)"
  unfolding entries_def by (simp only: size_mset length_map)

lemma entries_append: "entries (xs @ ys) = entries xs + entries ys"
  by (simp add: entries_def)

lemma entries_empty [simp]: "entries (replicate n he_zero) = {#}"
  by (simp add: entries_def he_zero_def)

lemma entries_Nil [simp]: "entries [] = {#}"
  by (simp add: entries_def)

lemma entries_Cons: "entries (e # tbl) = (if he_valid e then {#(he_key e, he_value e)#} else {#}) + entries tbl"
  by (simp add: entries_def)

lemma entries_update:
  "i < length tbl \<Longrightarrow>
   entries (tbl[i := e]) + (if he_valid (tbl ! i) then {#(he_key (tbl ! i), he_value (tbl ! i))#} else {#})
     = entries tbl + (if he_valid e then {#(he_key e, he_value e)#} else {#})"
proof (induction tbl arbitrary: i)
  case (Cons a tbl)
  show ?case
  proof (cases i)
    case 0
    then show ?thesis by (simp add: entries_Cons)
  next
    case (Suc n)
    show ?thesis using Cons.prems Cons.IH [of n] unfolding Suc nth_Cons_Suc
      by (cases "he_valid a") (simp_all add: entries_Cons split del: if_split)
  qed
qed simp

lemma entries_fill:
  "i < length tbl \<Longrightarrow> \<not> he_valid (tbl ! i) \<Longrightarrow> he_valid e \<Longrightarrow>
   entries (tbl[i := e]) = add_mset (he_key e, he_value e) (entries tbl)"
  using entries_update [of i tbl e] by simp

lemma entries_clear:
  assumes "i < length tbl" and "he_valid (tbl ! i)" and "\<not> he_valid e"
  shows "entries tbl = add_mset (he_key (tbl ! i), he_value (tbl ! i)) (entries (tbl[i := e]))"
  using entries_update [OF assms(1), of e] assms(2,3) by simp

lemma entries_in: "i < length tbl \<Longrightarrow> he_valid (tbl ! i) \<Longrightarrow> (he_key (tbl ! i), he_value (tbl ! i)) \<in># entries tbl"
  by (auto simp: entries_def intro!: image_eqI)

lemma entries_inD:
  "(k, v) \<in># entries tbl \<Longrightarrow> \<exists>i < length tbl. he_valid (tbl ! i) \<and> he_key (tbl ! i) = k \<and> he_value (tbl ! i) = v"
  by (auto simp: entries_def in_set_conv_nth)

lemma keys_distinct_gone: "keys_distinct (add_mset (k, v) M) \<Longrightarrow> (k, w) \<notin># M"
  by (simp add: keys_distinct_def)

lemma keys_distinctD:
  assumes "keys_distinct M" and "(k, v) \<in># M" and "(k, w) \<in># M"
  shows "v = w"
proof -
  from assms(2) obtain N where N: "M = add_mset (k, v) N" by (metis insert_DiffM)
  have "(k, w) \<notin># N" using assms(1) unfolding N by (rule keys_distinct_gone)
  with assms(3) N show ?thesis by simp
qed

lemma keys_distinct_remove:
  assumes "keys_distinct (add_mset p M)"
  shows "keys_distinct M"
  unfolding keys_distinct_def
proof (intro allI impI)
  fix k v w N assume "M = add_mset (k, v) N"
  then have "add_mset p M = add_mset (k, v) (add_mset p N)" by (simp add: add_mset_commute)
  with assms have "(k, w) \<notin># add_mset p N" unfolding keys_distinct_def by blast
  then show "(k, w) \<notin># N" by simp
qed

lemma keys_distinct_add:
  assumes "keys_distinct M" and "\<forall>v. (k, v) \<notin># M"
  shows "keys_distinct (add_mset (k, v) M)"
  unfolding keys_distinct_def
proof (intro allI impI)
  fix k' v' w N assume eq: "add_mset (k, v) M = add_mset (k', v') N"
  show "(k', w) \<notin># N"
  proof (cases "(k', v') = (k, v)")
    case True
    with eq assms(2) show ?thesis by simp
  next
    case False
    with eq obtain N' where N': "M = add_mset (k', v') N'" "N = add_mset (k, v) N'"
      unfolding add_eq_conv_ex by blast
    have "(k', w) \<notin># N'" using assms(1) unfolding N'(1) by (rule keys_distinct_gone)
    moreover have "k' \<noteq> k" using assms(2) N'(1) by auto
    ultimately show ?thesis using N'(2) by simp
  qed
qed

lemma keys_distinct_replace:
  "keys_distinct (add_mset (k, v) M) \<Longrightarrow> keys_distinct (add_mset (k, w) M)"
  using keys_distinct_remove [of "(k, v)" M] keys_distinct_gone [of k v M] by (simp add: keys_distinct_add)

lemma keys_distinct_empty [simp]: "keys_distinct {#}"
  by (simp add: keys_distinct_def)

lemma ht_look_Some:
  assumes "keys_distinct (entries tbl)"
  shows "ht_look tbl k = Some v \<longleftrightarrow> (k, v) \<in># entries tbl"
proof (rule iffI)
  assume "ht_look tbl k = Some v"
  then obtain e where "find (\<lambda>e. he_valid e \<and> he_key e = k) tbl = Some e" "he_value e = v"
    by (auto simp: ht_look_def)
  then show "(k, v) \<in># entries tbl"
    by (auto simp: find_Some_iff intro: entries_in)
next
  assume a: "(k, v) \<in># entries tbl"
  obtain e where e: "find (\<lambda>e. he_valid e \<and> he_key e = k) tbl = Some e"
    using a by (cases "find (\<lambda>e. he_valid e \<and> he_key e = k) tbl") (auto simp: find_None_iff entries_def)
  then have "(k, he_value e) \<in># entries tbl" by (auto simp: find_Some_iff intro: entries_in)
  from keys_distinctD [OF assms this a] e show "ht_look tbl k = Some v" by (simp add: ht_look_def)
qed

lemma ht_look_None:
  "ht_look tbl k = None \<longleftrightarrow> (\<forall>v. (k, v) \<notin># entries tbl)"
  by (auto simp: ht_look_def find_None_iff entries_def)

lemma ht_look_eqI:
  assumes "\<And>x. ht_look t1 k = Some x \<longleftrightarrow> ht_look t2 k = Some x"
  shows "ht_look t1 k = ht_look t2 k"
proof (cases "ht_look t1 k")
  case None
  then show ?thesis using assms [of "the (ht_look t2 k)"] by (cases "ht_look t2 k") simp_all
next
  case (Some x)
  then show ?thesis using assms [of x] by simp
qed

lemma ht_look_cong:
  assumes "keys_distinct (entries t1)" and "entries t2 = entries t1"
  shows "ht_look t2 = ht_look t1"
  using assms ht_look_Some [of t1] ht_look_Some [of t2] by (auto intro!: ext ht_look_eqI)

text \<open>The effect of adding, replacing and removing one entry.\<close>

lemma ht_look_upd:
  assumes "keys_distinct (add_mset (k, v) M)" and "entries tbl' = add_mset (k, v) M"
    and "\<forall>k' v'. k' \<noteq> k \<longrightarrow> ((k', v') \<in># M \<longleftrightarrow> (k', v') \<in># entries tbl)" and "keys_distinct (entries tbl)"
  shows "ht_look tbl' = (ht_look tbl)(k \<mapsto> v)"
proof
  fix k'
  have d: "keys_distinct (entries tbl')" using assms by simp
  show "ht_look tbl' k' = ((ht_look tbl)(k \<mapsto> v)) k'"
  proof (cases "k' = k")
    case True
    then show ?thesis using ht_look_Some [OF d, of k v] assms(2) by simp
  next
    case False
    then have "ht_look tbl' k' = Some x \<longleftrightarrow> ht_look tbl k' = Some x" for x
      using ht_look_Some [OF d, of k' x] ht_look_Some [OF assms(4), of k' x] assms(2,3) by auto
    then have "ht_look tbl' k' = ht_look tbl k'" by (rule ht_look_eqI)
    with False show ?thesis by simp
  qed
qed

lemma ht_look_del:
  assumes "keys_distinct (entries tbl)" and "entries tbl = add_mset (k, v) (entries tbl')"
  shows "ht_look tbl' = (ht_look tbl)(k := None)"
proof
  fix k'
  have d: "keys_distinct (entries tbl')" using assms keys_distinct_remove by metis
  show "ht_look tbl' k' = ((ht_look tbl)(k := None)) k'"
  proof (cases "k' = k")
    case True
    then show ?thesis using assms keys_distinct_gone [of k v "entries tbl'"] by (simp add: ht_look_None)
  next
    case False
    then have "ht_look tbl' k' = Some x \<longleftrightarrow> ht_look tbl k' = Some x" for x
      using ht_look_Some [OF d, of k' x] ht_look_Some [OF assms(1), of k' x] assms(2) by auto
    then have "ht_look tbl' k' = ht_look tbl k'" by (rule ht_look_eqI)
    with False show ?thesis by simp
  qed
qed

section \<open>The loops on such a table\<close>

lemma ht_probe_first:
  assumes "p < cap" and "f < cap" and "length tbl = cap" and "\<not> he_valid (tbl ! f)"
    and kinds: "\<forall>i < cap. he_valid (tbl ! i) \<longrightarrow> key_kind m (he_key (tbl ! i))" and "key_kind m k"
  shows "\<exists>j. first_from cap (\<lambda>i. \<not> he_valid (tbl ! i) \<or> he_key (tbl ! i) = k) p j \<and>
             ht_probe tbl cap k p = Some (he_valid (tbl ! j), j)"
  using assms(1,2) disjI1 [OF assms(4), of "he_key (tbl ! f) = k"]
proof (induction rule: ring_induct [where stop = "\<lambda>i. \<not> he_valid (tbl ! i) \<or> he_key (tbl ! i) = k"])
  case (stop p)
  then have "ht_probe tbl cap k p = Some (he_valid (tbl ! p), p)"
    using assms by (subst ht_probe.simps) (auto simp: hkey_eq_kind [of m])
  with stop show ?case by (auto intro: first_here)
next
  case (step p)
  then obtain j where j: "first_from cap (\<lambda>i. \<not> he_valid (tbl ! i) \<or> he_key (tbl ! i) = k) (nxt cap p) j"
    "ht_probe tbl cap k (nxt cap p) = Some (he_valid (tbl ! j), j)" by blast
  have "ht_probe tbl cap k p = ht_probe tbl cap k (p + 1)"
    using step assms by (subst ht_probe.simps) (simp add: hkey_eq_kind [of m])
  also have "\<dots> = ht_probe tbl cap k (nxt cap p)"
    using step by (subst (1 2) ht_probe.simps) simp
  finally show ?case using j first_next [OF step(1,2) j(1)] by auto
qed

lemma ht_free_slot_first:
  assumes "p < cap" and "f < cap" and "length tbl = cap" and "\<not> he_valid (tbl ! f)"
  shows "\<exists>j. first_from cap (\<lambda>i. \<not> he_valid (tbl ! i)) p j \<and> ht_free_slot tbl cap p = Some j"
  using assms(1,2) assms(4)
proof (induction rule: ring_induct [where stop = "\<lambda>i. \<not> he_valid (tbl ! i)"])
  case (stop p)
  then have "ht_free_slot tbl cap p = Some p" using assms by (subst ht_free_slot.simps) simp
  with stop show ?case by (auto intro: first_here)
next
  case (step p)
  then obtain j where j: "first_from cap (\<lambda>i. \<not> he_valid (tbl ! i)) (nxt cap p) j"
    "ht_free_slot tbl cap (nxt cap p) = Some j" by blast
  have "ht_free_slot tbl cap p = ht_free_slot tbl cap (p + 1)"
    using step assms by (subst ht_free_slot.simps) simp
  also have "\<dots> = ht_free_slot tbl cap (nxt cap p)"
    using step by (subst (1 2) ht_free_slot.simps) simp
  finally show ?case using j first_next [OF step(1,2) j(1)] by auto
qed

lemma ht_relocate_first:
  assumes "p < cap" and "ii < cap" and "length tbl = cap"
  shows "\<exists>j. first_from cap (\<lambda>j. j = ii \<or> \<not> he_valid (tbl ! j)) p j \<and>
             ht_relocate tbl cap ii p = Some (if j = ii then None else Some j)"
  using assms(1,2) disjI1 [OF refl [of ii], of "\<not> he_valid (tbl ! ii)"]
proof (induction rule: ring_induct [where stop = "\<lambda>j. j = ii \<or> \<not> he_valid (tbl ! j)"])
  case (stop p)
  then have "ht_relocate tbl cap ii p = Some (if p = ii then None else Some p)"
    using assms by (subst ht_relocate.simps) auto
  with stop show ?case by (auto intro: first_here)
next
  case (step p)
  then obtain j where j: "first_from cap (\<lambda>j. j = ii \<or> \<not> he_valid (tbl ! j)) (nxt cap p) j"
    "ht_relocate tbl cap ii (nxt cap p) = Some (if j = ii then None else Some j)" by blast
  have "ht_relocate tbl cap ii p = ht_relocate tbl cap ii (p + 1)"
    using step assms by (subst ht_relocate.simps) simp
  also have "\<dots> = ht_relocate tbl cap ii (nxt cap p)"
    using step by (subst (1 2) ht_relocate.simps) simp
  finally show ?case using j first_next [OF step(1,2) j(1)] by auto
qed

section \<open>Insertion and growth\<close>

lemma free_slot_exists:
  assumes "length tbl = cap" and "size (entries tbl) < cap"
  obtains f where "f < cap" and "\<not> he_valid (tbl ! f)"
proof -
  have "\<exists>f < cap. \<not> he_valid (tbl ! f)"
  proof (rule ccontr)
    assume "\<not> (\<exists>f < cap. \<not> he_valid (tbl ! f))"
    then have "\<forall>x \<in> set tbl. he_valid x" using assms(1) by (auto simp: in_set_conv_nth)
    then have "length (filter he_valid tbl) = length tbl" by (simp add: filter_True)
    with assms show False by (simp add: entries_size)
  qed
  with that show ?thesis by blast
qed

lemma probe_okI:
  assumes "length tbl = cap" and "0 < cap"
    and "\<And>i. i < cap \<Longrightarrow> he_valid (tbl ! i) \<Longrightarrow> key_kind m (he_key (tbl ! i))"
    and "\<And>i j. i < cap \<Longrightarrow> he_valid (tbl ! i) \<Longrightarrow> j < cap \<Longrightarrow>
      dst cap (khome m cap (he_key (tbl ! i))) j < dst cap (khome m cap (he_key (tbl ! i))) i \<Longrightarrow>
      he_valid (tbl ! j)"
  shows "probe_ok m cap tbl"
  unfolding probe_ok_def using assms by blast

lemma probe_ok_fill:
  assumes ok: "probe_ok m cap tbl" and j: "j < cap" "\<not> he_valid (tbl ! j)" "he_valid e"
    and "key_kind m (he_key e)"
    and path: "\<forall>x < cap. dst cap (khome m cap (he_key e)) x < dst cap (khome m cap (he_key e)) j \<longrightarrow> he_valid (tbl ! x)"
  shows "probe_ok m cap (tbl[j := e])"
proof (rule probe_okI)
  fix i x assume i: "i < cap" "he_valid (tbl[j := e] ! i)" and x: "x < cap"
    "dst cap (khome m cap (he_key (tbl[j := e] ! i))) x < dst cap (khome m cap (he_key (tbl[j := e] ! i))) i"
  have "x = j \<or> he_valid (tbl ! x)"
  proof (cases "i = j")
    case True
    with x path j probe_okD(1) [OF ok] show ?thesis by simp
  next
    case False
    with i x probe_ok_path [OF ok, of i x] show ?thesis by simp
  qed
  with j x probe_okD(1) [OF ok] show "he_valid (tbl[j := e] ! x)" by (cases "x = j") simp_all
next
  fix i assume "i < cap" "he_valid (tbl[j := e] ! i)"
  with assms probe_okD [OF ok] show "key_kind m (he_key (tbl[j := e] ! i))" by (cases "i = j") simp_all
qed (use probe_okD [OF ok] in simp_all)

lemma probe_ok_same:
  assumes ok: "probe_ok m cap tbl" and j: "j < cap" "he_valid (tbl ! j)" "he_valid e"
    and k: "he_key e = he_key (tbl ! j)"
  shows "probe_ok m cap (tbl[j := e])"
proof -
  have val: "he_valid (tbl[j := e] ! i) = he_valid (tbl ! i)"
    and key: "he_key (tbl[j := e] ! i) = he_key (tbl ! i)" if "i < cap" for i
    using that assms probe_okD(1) [OF ok] by (cases "i = j"; simp)+
  show ?thesis
  proof (rule probe_okI)
    fix i x assume "i < cap" "he_valid (tbl[j := e] ! i)" "x < cap"
      "dst cap (khome m cap (he_key (tbl[j := e] ! i))) x < dst cap (khome m cap (he_key (tbl[j := e] ! i))) i"
    with probe_ok_path [OF ok, of i x] show "he_valid (tbl[j := e] ! x)" by (simp only: val key)
  next
    fix i assume "i < cap" "he_valid (tbl[j := e] ! i)"
    with probe_okD(3) [OF ok, of i] show "key_kind m (he_key (tbl[j := e] ! i))" by (simp only: val key)
  qed (use probe_okD(1,2) [OF ok] in simp_all)
qed

lemma probe_ok_empty: "0 < cap \<Longrightarrow> probe_ok m cap (replicate cap he_zero)"
  by (simp add: probe_ok_def he_zero_def)

lemma ht_reinsert_ok:
  assumes "probe_ok m cap tbl" and "\<forall>e \<in> set old. he_valid e \<longrightarrow> key_kind m (he_key e)"
    and "size (entries tbl) + size (entries old) < cap"
  shows "\<exists>tbl'. ht_reinsert (Some m) cap tbl old = Some tbl' \<and> probe_ok m cap tbl' \<and>
           entries tbl' = entries tbl + entries old"
  using assms
proof (induction old arbitrary: tbl)
  case Nil
  then show ?case by simp
next
  case (Cons e old)
  show ?case
  proof (cases "he_valid e")
    case False
    with Cons show ?thesis by (simp add: entries_Cons)
  next
    case True
    let ?h = "khome m cap (he_key e)"
    have kind: "key_kind m (he_key e)" and len: "length tbl = cap" and pos: "0 < cap"
      using True Cons.prems by (simp_all add: probe_okD)
    obtain f where f: "f < cap" "\<not> he_valid (tbl ! f)"
      using free_slot_exists [OF len] Cons.prems(3) by auto
    obtain j where j: "first_from cap (\<lambda>i. \<not> he_valid (tbl ! i)) ?h j" "ht_free_slot tbl cap ?h = Some j"
      using ht_free_slot_first [OF khome_less [OF pos] f(1) len f(2)] by blast
    then have jf: "j < cap" "\<not> he_valid (tbl ! j)" by (simp_all add: first_from_def)
    have ok: "probe_ok m cap (tbl[j := e])"
      using probe_ok_fill [OF Cons.prems(1) jf True kind] first_before [OF j(1)] by blast
    have ent: "entries (tbl[j := e]) = add_mset (he_key e, he_value e) (entries tbl)"
      using jf True len by (simp add: entries_fill)
    have "\<exists>tbl'. ht_reinsert (Some m) cap (tbl[j := e]) old = Some tbl' \<and> probe_ok m cap tbl' \<and>
            entries tbl' = entries (tbl[j := e]) + entries old"
      using Cons.IH [OF ok] Cons.prems(2,3) True by (simp add: ent entries_Cons)
    then show ?thesis using True kind pos j(2) jf(1) len by (simp add: ht_home_kind ent entries_Cons)
  qed
qed

text \<open>
  The invariant of a hash table made by \<open>ocoms_hash_table_init\<close> (density 1/2, growth 2/1) whose keys
  are of kind \<open>m\<close>.  \<open>ht_pre\<close> leaves out the free slot, which a failed growth can lose.
\<close>

definition ht_pre :: "hmethods \<Rightarrow> 'v htable \<Rightarrow> bool" where
  "ht_pre m ht \<longleftrightarrow> (case ht_table ht of None \<Rightarrow> False
     | Some tbl \<Rightarrow> probe_ok m (ht_capacity ht) tbl \<and> keys_distinct (entries tbl)
         \<and> ht_size ht = size (entries tbl))
     \<and> ht_type_methods ht \<in> {None, Some m} \<and> ht_capacity ht < 2 ^ 59
     \<and> ht_density_numer ht = 1 \<and> ht_density_denom ht = 2
     \<and> ht_growth_numer ht = 2 \<and> ht_growth_denom ht = 1
     \<and> ht_growth_trigger ht = ht_capacity ht div 2"

definition ht_wf :: "hmethods \<Rightarrow> 'v htable \<Rightarrow> bool" where
  "ht_wf m ht \<longleftrightarrow> ht_pre m ht \<and> ht_size ht < ht_capacity ht"

definition ht_map :: "'v htable \<Rightarrow> hkey \<Rightarrow> 'v option option" where
  "ht_map ht k = (case ht_table ht of None \<Rightarrow> None | Some tbl \<Rightarrow> ht_look tbl k)"

text \<open>
  \<open>calloc\<close> does not return an array of 40-byte elements larger than the address space.
\<close>

definition calloc_sane :: "(nat \<Rightarrow> bool) \<Rightarrow> bool" where
  "calloc_sane calloc_ok \<longleftrightarrow> (\<forall>n. calloc_ok n \<longrightarrow> n < 2 ^ 59)"

lemma ht_pre_table: "ht_pre m ht \<Longrightarrow> \<exists>tbl. ht_table ht = Some tbl"
  by (cases "ht_table ht") (simp_all add: ht_pre_def)

lemma ht_preD:
  assumes "ht_pre m ht" and "ht_table ht = Some tbl"
  shows "probe_ok m (ht_capacity ht) tbl" and "keys_distinct (entries tbl)"
    and "ht_size ht = size (entries tbl)" and "ht_type_methods ht \<in> {None, Some m}"
    and "ht_capacity ht < 2 ^ 59" and "ht_density_numer ht = 1" and "ht_density_denom ht = 2"
    and "ht_growth_numer ht = 2" and "ht_growth_denom ht = 1"
    and "ht_growth_trigger ht = ht_capacity ht div 2"
  using assms by (simp_all add: ht_pre_def)

lemma size_ratio_double: "cap < 2 ^ 59 \<Longrightarrow> size_ratio cap 2 1 = Some (2 * cap)"
  by (simp add: size_ratio_def size_t_def size_norm_def)

lemma size_ratio_half: "cap < 2 ^ 59 \<Longrightarrow> size_ratio cap 1 2 = Some (cap div 2)"
  by (simp add: size_ratio_def size_t_def size_norm_def)

lemma round_capacity_up:
  assumes "n < 2 ^ 62"
  shows "ocoms_hash_round_capacity_up n = (n + 29) div 30 * 30 + 1"
    and "n < ocoms_hash_round_capacity_up n" and "ocoms_hash_round_capacity_up n mod 30 = 1"
proof -
  have "(n + 29) div 30 * 30 \<le> n + 29" by simp
  then show eq: "ocoms_hash_round_capacity_up n = (n + 29) div 30 * 30 + 1"
    using assms by (simp add: ocoms_hash_round_capacity_up_def size_norm_def)
  have "n \<le> (n + 29) div 30 * 30" by presburger
  then show "n < ocoms_hash_round_capacity_up n" by (simp add: eq)
  show "ocoms_hash_round_capacity_up n mod 30 = 1" by (simp add: eq mod_Suc)
qed


lemma grow_ok:
  assumes "ht_pre m ht" and "ht_type_methods ht = Some m" and "calloc_sane calloc_ok"
  shows "\<exists>rc ht'. ocoms_hash_grow calloc_ok ht = Some (rc, ht') \<and> ht_pre m ht' \<and>
           ht_map ht' = ht_map ht \<and> ht_size ht' = ht_size ht \<and> ht_type_methods ht' = Some m \<and>
           (if calloc_ok (ocoms_hash_round_capacity_up (2 * ht_capacity ht))
            then rc = OCOMS_SUCCESS \<and> ht_wf m ht' else rc = OCOMS_ERR_OUT_OF_RESOURCE \<and> ht' = ht)"
proof -
  obtain tbl where tbl: "ht_table ht = Some tbl" using ht_pre_table [OF assms(1)] by blast
  note D = ht_preD [OF assms(1) tbl]
  let ?n = "ocoms_hash_round_capacity_up (2 * ht_capacity ht)"
  show ?thesis
  proof (cases "calloc_ok ?n")
    case False
    then show ?thesis
      using assms D tbl by (simp add: ocoms_hash_grow_def size_ratio_double)
  next
    case True
    then have n: "?n < 2 ^ 59" using assms(3) by (simp add: calloc_sane_def)
    have gt: "2 * ht_capacity ht < ?n" using round_capacity_up(2) D(5) by simp
    have len: "length tbl = ht_capacity ht" using D(1) by (rule probe_okD)
    have "\<forall>e \<in> set tbl. he_valid e \<longrightarrow> key_kind m (he_key e)"
      using probe_okD(3) [OF D(1)] len by (auto simp: in_set_conv_nth)
    moreover have sz: "size (entries tbl) \<le> ht_capacity ht" using len by (simp add: entries_size flip: len)
    ultimately obtain tbl' where t': "ht_reinsert (Some m) ?n (replicate ?n he_zero) tbl = Some tbl'"
      "probe_ok m ?n tbl'" "entries tbl' = entries tbl"
      using ht_reinsert_ok [OF probe_ok_empty, of ?n, where m = m and old = tbl] gt by auto
    then have "ht_look tbl' = ht_look tbl" using D(2) ht_look_cong by blast
    then have map: "ht_map (ht\<lparr>ht_table := Some tbl', ht_capacity := ?n, ht_growth_trigger := ?n div 2\<rparr>) = ht_map ht"
      using tbl by (simp add: ht_map_def fun_eq_iff)
    have grow: "ocoms_hash_grow calloc_ok ht = Some (OCOMS_SUCCESS,
        ht\<lparr>ht_table := Some tbl', ht_capacity := ?n, ht_growth_trigger := ?n div 2\<rparr>)"
      using True t' D tbl len n assms(2)
      by (simp add: ocoms_hash_grow_def size_ratio_double size_ratio_half Let_def)
    have wf: "ht_wf m (ht\<lparr>ht_table := Some tbl', ht_capacity := ?n, ht_growth_trigger := ?n div 2\<rparr>)"
      using t' D n gt sz by (simp add: ht_wf_def ht_pre_def)
    show ?thesis using grow map wf True assms(2) by (simp add: ht_wf_def)
  qed
qed

section \<open>Get and set\<close>

lemma probe_finds:
  assumes ok: "probe_ok m cap tbl" and d: "keys_distinct (entries tbl)" and "size (entries tbl) < cap"
    and k: "key_kind m k"
  shows "\<exists>j < cap. ht_probe tbl cap k (khome m cap k) = Some (he_valid (tbl ! j), j) \<and>
     (he_valid (tbl ! j) \<longrightarrow> he_key (tbl ! j) = k \<and> ht_look tbl k = Some (he_value (tbl ! j))) \<and>
     (\<not> he_valid (tbl ! j) \<longrightarrow> ht_look tbl k = None \<and>
        (\<forall>x < cap. dst cap (khome m cap k) x < dst cap (khome m cap k) j \<longrightarrow> he_valid (tbl ! x)))"
proof -
  let ?h = "khome m cap k"
  have len: "length tbl = cap" and pos: "0 < cap" using ok by (simp_all add: probe_okD)
  obtain f where f: "f < cap" "\<not> he_valid (tbl ! f)" using free_slot_exists [OF len assms(3)] by blast
  have kinds: "\<forall>i < cap. he_valid (tbl ! i) \<longrightarrow> key_kind m (he_key (tbl ! i))"
    using probe_okD(3) [OF ok] by blast
  obtain j where j: "first_from cap (\<lambda>i. \<not> he_valid (tbl ! i) \<or> he_key (tbl ! i) = k) ?h j"
    "ht_probe tbl cap k ?h = Some (he_valid (tbl ! j), j)"
    using ht_probe_first [OF khome_less [OF pos] f(1) len f(2) kinds k] by blast
  have jc: "j < cap" using j(1) by (simp add: first_from_def)
  have path: "he_valid (tbl ! x) \<and> he_key (tbl ! x) \<noteq> k" if "x < cap" "dst cap ?h x < dst cap ?h j" for x
    using first_before [OF j(1) that] by simp
  show ?thesis
  proof (intro exI [of _ j] conjI impI)
    assume v: "he_valid (tbl ! j)"
    then show kj: "he_key (tbl ! j) = k" using j(1) by (simp add: first_from_def)
    have "(k, he_value (tbl ! j)) \<in># entries tbl" using entries_in [of j tbl] v jc len kj by simp
    with d show "ht_look tbl k = Some (he_value (tbl ! j))" by (simp add: ht_look_Some)
  next
    assume nv: "\<not> he_valid (tbl ! j)"
    show "ht_look tbl k = None" unfolding ht_look_None
    proof (intro allI notI)
      fix v assume "(k, v) \<in># entries tbl"
      then obtain i where i: "i < cap" "he_valid (tbl ! i)" "he_key (tbl ! i) = k"
        using entries_inD len by blast
      then have "dst cap ?h j \<le> dst cap ?h i" using path [of i] by (meson not_le)
      moreover have "i \<noteq> j" using i nv by blast
      ultimately have "dst cap ?h j < dst cap ?h i"
        using dst_inj [OF khome_less [OF pos] i(1) jc] by (metis le_neq_implies_less)
      with probe_ok_path [OF ok i(1,2) jc] i(3) nv show False by simp
    qed
  qed (use j jc path in auto)
qed

lemma ht_debug_ok: "ht_pre m ht \<Longrightarrow> ht_debug_check dbg rc m ht = None"
  using ht_pre_table [of m ht] by (auto simp: ht_debug_check_def ht_pre_def probe_ok_def)

lemma ht_wf_pre: "ht_wf m ht \<Longrightarrow> ht_pre m ht"
  by (simp add: ht_wf_def)

lemma ht_wf_table:
  assumes "ht_wf m ht"
  obtains tbl where "ht_table ht = Some tbl" "probe_ok m (ht_capacity ht) tbl"
    "keys_distinct (entries tbl)" "size (entries tbl) < ht_capacity ht" "ht_size ht = size (entries tbl)"
  using assms ht_pre_table [of m ht] by (auto simp: ht_wf_def ht_pre_def)

lemma ht_get_value_ok:
  assumes "ht_wf m ht" and "key_kind m k"
  shows "ht_get_value dbg m ht k = Some (case ht_map ht k of
     Some v \<Rightarrow> (OCOMS_SUCCESS, Some v, ht\<lparr>ht_type_methods := Some m\<rparr>)
   | None \<Rightarrow> (OCOMS_ERR_NOT_FOUND, None, ht\<lparr>ht_type_methods := Some m\<rparr>))"
proof -
  obtain tbl where T: "ht_table ht = Some tbl" "probe_ok m (ht_capacity ht) tbl"
    "keys_distinct (entries tbl)" "size (entries tbl) < ht_capacity ht" "ht_size ht = size (entries tbl)"
    using assms(1) by (rule ht_wf_table)
  note P = probe_okD(1,2) [OF T(2)]
  from probe_finds [OF T(2-4) assms(2)] show ?thesis
    using T P assms(2) ht_debug_ok [OF ht_wf_pre [OF assms(1)]]
    by (auto simp: ht_get_value_def ht_home_kind ht_map_def Let_def)
qed

text \<open>The state in which \<open>set\<close> leaves the table before it grows.\<close>

lemma ht_set_value_ok:
  assumes wf: "ht_wf m ht" and k: "key_kind m k" and calloc: "calloc_sane calloc_ok"
  shows "\<exists>rc ht'. ht_set_value calloc_ok dbg m ht k v = Some (rc, ht') \<and> ht_pre m ht' \<and>
     ht_map ht' = (ht_map ht)(k \<mapsto> v) \<and> ht_type_methods ht' = Some m \<and>
     (rc = OCOMS_SUCCESS \<longrightarrow> ht_wf m ht') \<and>
     (rc \<noteq> OCOMS_SUCCESS \<longrightarrow> rc = OCOMS_ERR_OUT_OF_RESOURCE \<and> ht_map ht k = None \<and>
        ht_size ht' = ht_size ht + 1 \<and> ht_capacity ht' = ht_capacity ht) \<and>
     (ht_map ht k = None \<and> ht_growth_trigger ht \<le> ht_size ht + 1 \<and>
        \<not> calloc_ok (ocoms_hash_round_capacity_up (2 * ht_capacity ht)) \<longrightarrow> rc = OCOMS_ERR_OUT_OF_RESOURCE) \<and>
     (calloc_ok (ocoms_hash_round_capacity_up (2 * ht_capacity ht)) \<longrightarrow> rc = OCOMS_SUCCESS) \<and>
     (ht_size ht + 1 < ht_growth_trigger ht \<longrightarrow> rc = OCOMS_SUCCESS \<and> ht_size ht' \<le> ht_size ht + 1 \<and>
        ht_growth_trigger ht' = ht_growth_trigger ht)"
proof -
  obtain tbl where T: "ht_table ht = Some tbl" "probe_ok m (ht_capacity ht) tbl"
    "keys_distinct (entries tbl)" "size (entries tbl) < ht_capacity ht" "ht_size ht = size (entries tbl)"
    using wf by (rule ht_wf_table)
  note P = probe_okD(1,2) [OF T(2)] and D = ht_preD [OF ht_wf_pre [OF wf] T(1)]
  let ?cap = "ht_capacity ht"
  obtain j where j: "j < ?cap" "ht_probe tbl ?cap k (khome m ?cap k) = Some (he_valid (tbl ! j), j)"
    and found: "he_valid (tbl ! j) \<Longrightarrow> he_key (tbl ! j) = k \<and> ht_look tbl k = Some (he_value (tbl ! j))"
    and free: "\<not> he_valid (tbl ! j) \<Longrightarrow> ht_look tbl k = None \<and>
        (\<forall>x < ?cap. dst ?cap (khome m ?cap k) x < dst ?cap (khome m ?cap k) j \<longrightarrow> he_valid (tbl ! x))"
    using probe_finds [OF T(2-4) k] by blast
  have jl: "j < length tbl" using j(1) P(1) by simp
  show ?thesis
  proof (cases "he_valid (tbl ! j)")
    case True
    let ?e = "(tbl ! j)\<lparr>he_value := v\<rparr>"
    let ?ht = "ht\<lparr>ht_type_methods := Some m, ht_table := Some (tbl[j := ?e])\<rparr>"
    from found [OF True] have kj: "he_key (tbl ! j) = k" by simp
    have run: "ht_set_value calloc_ok dbg m ht k v = Some (OCOMS_SUCCESS, ?ht)"
      using T P k j jl True ht_debug_ok [OF ht_wf_pre [OF wf]]
      by (simp add: ht_set_value_def ht_home_kind Let_def)
    obtain M where M1: "entries tbl = add_mset (k, he_value (tbl ! j)) M"
      using multi_member_split [OF entries_in [OF jl True]] kj by auto
    have "entries (tbl[j := ?e]) + {#(k, he_value (tbl ! j))#} = entries tbl + {#(k, v)#}"
      using entries_update [OF jl, of ?e] True kj by simp
    then have M: "entries tbl = add_mset (k, he_value (tbl ! j)) M"
      "entries (tbl[j := ?e]) = add_mset (k, v) M"
      unfolding M1 by (simp_all add: add_mset_commute [of "(k, v)"])
    have dis: "keys_distinct (add_mset (k, v) M)" using T(3) unfolding M(1) by (rule keys_distinct_replace)
    have look: "ht_look (tbl[j := ?e]) = (ht_look tbl)(k \<mapsto> v)"
      by (rule ht_look_upd [OF dis M(2) _ T(3)]) (simp add: M(1))
    have "probe_ok m ?cap (tbl[j := ?e])" using probe_ok_same [OF T(2) j(1) True] True by simp
    then have "ht_wf m ?ht"
      using D T(4) dis M by (simp add: ht_wf_def ht_pre_def)
    moreover have "ht_map ?ht = (ht_map ht)(k \<mapsto> v)" using look T(1) by (simp add: ht_map_def fun_eq_iff)
    moreover have "ht_map ht k \<noteq> None" using found [OF True] T(1) by (simp add: ht_map_def)
    ultimately show ?thesis using run ht_wf_pre by fastforce
  next
    case False
    let ?e = "(tbl ! j)\<lparr>he_key := k, he_value := v, he_valid := True\<rparr>"
    let ?ht = "ht\<lparr>ht_type_methods := Some m, ht_table := Some (tbl[j := ?e]), ht_size := ht_size ht + 1\<rparr>"
    from free [OF False] have new: "\<forall>v. (k, v) \<notin># entries tbl" by (simp add: ht_look_None)
    have ent: "entries (tbl[j := ?e]) = add_mset (k, v) (entries tbl)"
      using entries_fill [OF jl False, of ?e] by simp
    have dis: "keys_distinct (add_mset (k, v) (entries tbl))" using T(3) new by (rule keys_distinct_add)
    have look: "ht_look (tbl[j := ?e]) = (ht_look tbl)(k \<mapsto> v)"
      by (rule ht_look_upd [OF dis ent _ T(3)]) simp
    have probe: "probe_ok m ?cap (tbl[j := ?e])"
      using probe_ok_fill [OF T(2) j(1) False, of ?e] k free [OF False] by simp
    have small: "size_norm (ht_size ht + 1) = ht_size ht + 1"
      using T(4,5) D(5) by (simp add: size_norm_def)
    have pre: "ht_pre m ?ht" using D dis ent probe by (simp add: ht_pre_def)
    have map: "ht_map ?ht = (ht_map ht)(k \<mapsto> v)" using look T(1) by (simp add: ht_map_def fun_eq_iff)
    have none: "ht_map ht k = None" using free [OF False] T(1) by (simp add: ht_map_def)
    have unf: "ht_set_value calloc_ok dbg m ht k v =
       (if ht_growth_trigger ?ht \<le> ht_size ?ht then do {
           g \<leftarrow> ocoms_hash_grow calloc_ok ?ht;
           Some (if fst g \<noteq> OCOMS_SUCCESS then (fst g, snd g) else (OCOMS_SUCCESS, snd g)) }
         else Some (OCOMS_SUCCESS, ?ht))"
      using T P k j jl False small ht_debug_ok [OF ht_wf_pre [OF wf]]
      by (simp add: ht_set_value_def ht_home_kind Let_def)
    show ?thesis
    proof (cases "ht_growth_trigger ?ht \<le> ht_size ?ht")
      case False
      then have "ht_wf m ?ht" using pre D(10) by (simp add: ht_wf_def)
      with False unf pre map show ?thesis by simp
    next
      case True
      have "ht_type_methods ?ht = Some m" by simp
      from grow_ok [OF pre this calloc] obtain rc ht' where g: "ocoms_hash_grow calloc_ok ?ht = Some (rc, ht')"
        "ht_pre m ht'" "ht_map ht' = ht_map ?ht" "ht_size ht' = ht_size ?ht" "ht_type_methods ht' = Some m"
        "if calloc_ok (ocoms_hash_round_capacity_up (2 * ht_capacity ?ht))
            then rc = OCOMS_SUCCESS \<and> ht_wf m ht' else rc = OCOMS_ERR_OUT_OF_RESOURCE \<and> ht' = ?ht"
        by blast
      have run: "ht_set_value calloc_ok dbg m ht k v = Some (rc, ht')"
        using unf True g(1) by auto
      show ?thesis
        by (rule exI [of _ rc], rule exI [of _ ht'])
          (use run g map none True in \<open>auto split: if_splits\<close>)
    qed
  qed
qed

section \<open>Removal\<close>

lemma dst_add:
  "h < cap \<Longrightarrow> g < cap \<Longrightarrow> i < cap \<Longrightarrow> dst cap h g \<le> dst cap h i \<Longrightarrow>
   dst cap h i = dst cap h g + dst cap g i"
  by (auto simp: dst_def split: if_splits)

lemma dst_add_less:
  "h < cap \<Longrightarrow> g < cap \<Longrightarrow> p < cap \<Longrightarrow> dst cap h g + dst cap g p < cap \<Longrightarrow>
   dst cap h p = dst cap h g + dst cap g p"
  by (auto simp: dst_def split: if_splits)

lemma dst_nxt_self: "p < cap \<Longrightarrow> nxt cap p \<noteq> p \<Longrightarrow> dst cap p (nxt cap p) = 1"
  by (auto simp: dst_def nxt_def ht_wrap_def split: if_splits)

lemma nxt_neq: "p < cap \<Longrightarrow> g < cap \<Longrightarrow> g \<noteq> p \<Longrightarrow> nxt cap p \<noteq> p"
  by (auto simp: nxt_def ht_wrap_def)

lemma nxt_eq_dst: "p < cap \<Longrightarrow> nxt cap p = g \<Longrightarrow> dst cap g p = cap - 1"
  by (auto simp: dst_def nxt_def ht_wrap_def split: if_splits)

text \<open>
  The state of the compaction loop: \<open>g\<close> is the one hole that elements after it may have to move
  into, \<open>p\<close> the slot looked at next.  Every element is reached from its home without an invalid
  slot other than \<open>g\<close>; those between \<open>g\<close> and \<open>p\<close> do not need \<open>g\<close>; all slots between are in use.
\<close>

definition hole_ok :: "hmethods \<Rightarrow> nat \<Rightarrow> 'v helt list \<Rightarrow> nat \<Rightarrow> nat \<Rightarrow> bool" where
  "hole_ok m cap T g p \<longleftrightarrow> length T = cap \<and> g < cap \<and> p < cap \<and> p \<noteq> g \<and> \<not> he_valid (T ! g) \<and>
     (\<forall>i < cap. he_valid (T ! i) \<longrightarrow> key_kind m (he_key (T ! i))) \<and>
     (\<forall>i < cap. he_valid (T ! i) \<longrightarrow> (\<forall>j < cap. 
        dst cap (khome m cap (he_key (T ! i))) j < dst cap (khome m cap (he_key (T ! i))) i \<longrightarrow>
        he_valid (T ! j) \<or> j = g \<and> dst cap g p \<le> dst cap g i)) \<and>
     (\<forall>x < cap. 0 < dst cap g x \<and> dst cap g x < dst cap g p \<longrightarrow> he_valid (T ! x))"

lemma hole_okI:
  assumes "length T = cap" "g < cap" "p < cap" "p \<noteq> g" "\<not> he_valid (T ! g)"
    and "\<And>i. i < cap \<Longrightarrow> he_valid (T ! i) \<Longrightarrow> key_kind m (he_key (T ! i))"
    and "\<And>i j. i < cap \<Longrightarrow> he_valid (T ! i) \<Longrightarrow> j < cap \<Longrightarrow>
        dst cap (khome m cap (he_key (T ! i))) j < dst cap (khome m cap (he_key (T ! i))) i \<Longrightarrow>
        he_valid (T ! j) \<or> j = g \<and> dst cap g p \<le> dst cap g i"
    and "\<And>x. x < cap \<Longrightarrow> 0 < dst cap g x \<Longrightarrow> dst cap g x < dst cap g p \<Longrightarrow> he_valid (T ! x)"
  shows "hole_ok m cap T g p"
  unfolding hole_ok_def using assms by blast

lemma hole_okD:
  assumes "hole_ok m cap T g p"
  shows "length T = cap" "g < cap" "p < cap" "p \<noteq> g" "\<not> he_valid (T ! g)"
    and "i < cap \<Longrightarrow> he_valid (T ! i) \<Longrightarrow> key_kind m (he_key (T ! i))"
    and "x < cap \<Longrightarrow> 0 < dst cap g x \<Longrightarrow> dst cap g x < dst cap g p \<Longrightarrow> he_valid (T ! x)"
  using assms unfolding hole_ok_def by blast+

lemma hole_ok_path:
  assumes "hole_ok m cap T g p" and "i < cap" and "he_valid (T ! i)" and "j < cap"
    and "dst cap (khome m cap (he_key (T ! i))) j < dst cap (khome m cap (he_key (T ! i))) i"
  shows "he_valid (T ! j) \<or> j = g \<and> dst cap g p \<le> dst cap g i"
  using assms unfolding hole_ok_def by blast

text \<open>At the next invalid slot no element needs the hole any more.\<close>

lemma hole_ok_done:
  assumes H: "hole_ok m cap T g p" and "\<not> he_valid (T ! p)"
  shows "probe_ok m cap T"
proof (rule probe_okI)
  fix i j assume i: "i < cap" "he_valid (T ! i)" and j: "j < cap"
    "dst cap (khome m cap (he_key (T ! i))) j < dst cap (khome m cap (he_key (T ! i))) i"
  let ?h = "khome m cap (he_key (T ! i))"
  note D = hole_okD [OF H]
  have h: "?h < cap" using i by (intro khome_less) simp
  show "he_valid (T ! j)"
  proof (rule ccontr)
    assume "\<not> he_valid (T ! j)"
    with hole_ok_path [OF H i j] have jg: "j = g" and le: "dst cap g p \<le> dst cap g i" by auto
    have "i \<noteq> p" using i assms(2) by blast
    with le have less: "dst cap g p < dst cap g i"
      using dst_inj [OF D(2,3) i(1)] by (metis le_neq_implies_less)
    have add: "dst cap ?h i = dst cap ?h g + dst cap g i"
      using dst_add [OF h D(2) i(1)] j(2) jg by simp
    have "dst cap ?h i < cap" using h i(1) by simp
    then have "dst cap ?h p = dst cap ?h g + dst cap g p"
      using dst_add_less [OF h D(2,3)] add less by simp
    then have "dst cap ?h p < dst cap ?h i" using add less by simp
    with hole_ok_path [OF H i D(3)] assms(2) D(4) show False by blast
  qed
qed (use hole_okD [OF H] in auto)

lemma hole_ok_stay:
  assumes H: "hole_ok m cap T g p" and p: "he_valid (T ! p)" and f: "f < cap" "f \<noteq> g" "\<not> he_valid (T ! f)"
    and path: "\<forall>x < cap. dst cap (khome m cap (he_key (T ! p))) x < dst cap (khome m cap (he_key (T ! p))) p
      \<longrightarrow> he_valid (T ! x)"
  shows "hole_ok m cap T g (nxt cap p)"
proof -
  note D = hole_okD [OF H]
  have "f \<noteq> p" using p f by blast
  have "0 < dst cap g f" using f(1,2) D(2) by (metis dst_eq_0 gr0I)
  then have "dst cap g p \<le> dst cap g f" using D(7) [OF f(1)] f(3) by (meson not_le)
  then have "dst cap g p < dst cap g f" using dst_inj [OF D(2,3) f(1)] \<open>f \<noteq> p\<close> by (metis le_neq_implies_less)
  then have less: "dst cap g p < cap - 1" using f(1) D(2) dst_less [of g cap f] by linarith
  then have ne: "nxt cap p \<noteq> g" using nxt_eq_dst [OF D(3)] by fastforce
  have step: "dst cap g (nxt cap p) = dst cap g p + 1" using dst_to_nxt D(2,3) ne by blast
  show ?thesis
  proof (rule hole_okI)
    fix i j assume i: "i < cap" "he_valid (T ! i)" and j: "j < cap"
      "dst cap (khome m cap (he_key (T ! i))) j < dst cap (khome m cap (he_key (T ! i))) i"
    show "he_valid (T ! j) \<or> j = g \<and> dst cap g (nxt cap p) \<le> dst cap g i"
    proof (cases "i = p")
      case True
      with j path show ?thesis by simp
    next
      case False
      have "dst cap g p \<noteq> dst cap g i" using dst_inj [OF D(2,3) i(1)] False by blast
      with hole_ok_path [OF H i j] step show ?thesis by auto
    qed
  next
    fix x assume x: "x < cap" "0 < dst cap g x" "dst cap g x < dst cap g (nxt cap p)"
    show "he_valid (T ! x)"
    proof (cases "x = p")
      case False
      then have "dst cap g x \<noteq> dst cap g p" using dst_inj [OF D(2) x(1) D(3)] by blast
      with x step D(7) [OF x(1,2)] show ?thesis by simp
    qed (use p in simp)
  qed (use D ne in auto)
qed

lemma hole_ok_move:
  assumes H: "hole_ok m cap T g p" and p: "he_valid (T ! p)"
    and path: "\<forall>x < cap. dst cap (khome m cap (he_key (T ! p))) x < dst cap (khome m cap (he_key (T ! p))) g
      \<longrightarrow> x \<noteq> p \<and> he_valid (T ! x)"
  shows "hole_ok m cap (T[g := T ! p, p := (T ! p)\<lparr>he_valid := False\<rparr>]) p (nxt cap p)" (is "hole_ok m cap ?T _ _")
proof -
  note D = hole_okD [OF H]
  have val: "he_valid (?T ! x) \<longleftrightarrow> x \<noteq> p \<and> (x = g \<or> he_valid (T ! x))" if "x < cap" for x
    using that D p by (simp add: nth_list_update)
  have key: "he_key (?T ! x) = (if x = g then he_key (T ! p) else he_key (T ! x))" if "x < cap" "x \<noteq> p" for x
    using that D by (simp add: nth_list_update)
  have ne: "nxt cap p \<noteq> p" using nxt_neq D(2-4) by metis
  have one: "dst cap p (nxt cap p) = 1" using dst_nxt_self D(3) ne by blast
  show ?thesis
  proof (rule hole_okI)
    fix i j assume i: "i < cap" "he_valid (?T ! i)" and j: "j < cap"
      "dst cap (khome m cap (he_key (?T ! i))) j < dst cap (khome m cap (he_key (?T ! i))) i"
    have ip: "i \<noteq> p" using i val by blast
    then have "1 \<le> dst cap p i" using dst_eq_0 [OF D(3) i(1)] by linarith
    moreover have "he_valid (?T ! j) \<or> j = p"
    proof (cases "i = g")
      case True
      with j i path key ip val show ?thesis by auto
    next
      case False
      then have "he_valid (T ! i)" using i val by blast
      moreover have "dst cap (khome m cap (he_key (T ! i))) j < dst cap (khome m cap (he_key (T ! i))) i"
        using j(2) key [OF i(1) ip] False by simp
      ultimately show ?thesis using hole_ok_path [OF H i(1) _ j(1)] val [OF j(1)] by blast
    qed
    ultimately show "he_valid (?T ! j) \<or> j = p \<and> dst cap p (nxt cap p) \<le> dst cap p i" using one by auto
  next
    fix i assume "i < cap" "he_valid (?T ! i)"
    then show "key_kind m (he_key (?T ! i))" using val key D(6) p D(3) by auto
  next
    show "\<not> he_valid (?T ! p)" using val D(3) by blast
  qed (use D ne one in simp_all)
qed

lemma ht_compact_wrap: "p < cap \<Longrightarrow> ht_compact m cap T (p + 1) = ht_compact m cap T (nxt cap p)"
  by (subst (1 2) ht_compact.simps) simp

lemma entries_move:
  assumes "g < length T" "p < length T" "p \<noteq> g" "\<not> he_valid (T ! g)" "he_valid (T ! p)"
  shows "entries (T[g := T ! p, p := (T ! p)\<lparr>he_valid := False\<rparr>]) = entries T"
proof -
  have "entries (T[g := T ! p]) = add_mset (he_key (T ! p), he_value (T ! p)) (entries T)"
    using assms by (simp add: entries_fill)
  moreover have "entries (T[g := T ! p]) = add_mset (he_key (T ! p), he_value (T ! p))
      (entries (T[g := T ! p, p := (T ! p)\<lparr>he_valid := False\<rparr>]))"
    using entries_clear [of p "T[g := T ! p]" "(T ! p)\<lparr>he_valid := False\<rparr>"] assms by simp
  ultimately show ?thesis by simp
qed

lemma ht_compact_ok:
  assumes "hole_ok m cap T g p" and "f < cap" "f \<noteq> g" "\<not> he_valid (T ! f)"
  shows "\<exists>T'. ht_compact m cap T p = Some T' \<and> probe_ok m cap T' \<and> entries T' = entries T"
  using assms
proof (induction "dst cap p f" arbitrary: T g p rule: less_induct)
  case less
  note H = less.prems(1) and D = hole_okD [OF less.prems(1)]
  show ?case
  proof (cases "he_valid (T ! p)")
    case False
    then have "ht_compact m cap T p = Some T" using D(1,3) by (subst ht_compact.simps) simp
    with hole_ok_done [OF H False] show ?thesis by simp
  next
    case True
    let ?h = "khome m cap (he_key (T ! p))"
    have pos: "0 < cap" using D(3) by simp
    have kind: "key_kind m (he_key (T ! p))" using D(3,6) True by blast
    have fp: "f \<noteq> p" using True less.prems(4) by blast
    then have dec: "dst cap (nxt cap p) f < dst cap p f"
      using dst_nxt [OF D(3) less.prems(2) fp] dst_eq_0 [OF D(3) less.prems(2)] by linarith
    obtain jj where j: "first_from cap (\<lambda>j. j = p \<or> \<not> he_valid (T ! j)) ?h jj"
      "ht_relocate T cap p ?h = Some (if jj = p then None else Some jj)"
      using ht_relocate_first [OF khome_less [OF pos] D(3,1)] by blast
    have jc: "jj < cap" using j(1) by (simp add: first_from_def)
    show ?thesis
    proof (cases "jj = p")
      case eq: True
      have "hole_ok m cap T g (nxt cap p)"
        by (rule hole_ok_stay [OF H True less.prems(2-4)]) (use first_before [OF j(1)] eq in blast)
      from less.hyps [OF dec this less.prems(2-4)]
      obtain T' where "ht_compact m cap T (nxt cap p) = Some T'" "probe_ok m cap T'" "entries T' = entries T"
        by blast
      moreover have "ht_compact m cap T p = ht_compact m cap T (p + 1)"
        using True kind pos D(1,3) j(2) eq by (subst ht_compact.simps) (simp add: ht_home_kind)
      ultimately show ?thesis using ht_compact_wrap [OF D(3)] by metis
    next
      case ne: False
      have inv: "\<not> he_valid (T ! jj)" using j(1) ne by (simp add: first_from_def)
      have "\<not> dst cap ?h p < dst cap ?h jj" using first_before [OF j(1) D(3)] by blast
      moreover have "dst cap ?h p \<noteq> dst cap ?h jj" using dst_inj [OF khome_less [OF pos] D(3) jc] ne by blast
      ultimately have "dst cap ?h jj < dst cap ?h p" by linarith
      with hole_ok_path [OF H D(3) True jc] inv have jg: "jj = g" by blast
      let ?T = "T[g := T ! p, p := (T ! p)\<lparr>he_valid := False\<rparr>]"
      have "hole_ok m cap ?T p (nxt cap p)"
        by (rule hole_ok_move [OF H True]) (use first_before [OF j(1)] jg in blast)
      moreover have "\<not> he_valid (?T ! f)" using less.prems(2-4) fp by simp
      ultimately obtain T' where "ht_compact m cap ?T (nxt cap p) = Some T'" "probe_ok m cap T'"
        "entries T' = entries ?T"
        using less.hyps [OF dec _ less.prems(2) fp, of ?T] by blast
      moreover have "ht_compact m cap T p = ht_compact m cap ?T (p + 1)"
        using True kind pos D(1-3) j(2) jg ne by (subst ht_compact.simps) (simp add: ht_home_kind)
      moreover have "entries ?T = entries T" using entries_move D(1-5) True by metis
      ultimately show ?thesis using ht_compact_wrap [OF D(3)] by metis
    qed
  qed
qed

lemma elt_destructor_valid [simp]: "he_valid (elt_destructor m e) = he_valid e"
  by (cases m) simp_all

lemma hole_ok_start:
  assumes ok: "probe_ok m cap T" and g: "g < cap" and f: "f < cap" "f \<noteq> g" and e: "\<not> he_valid e"
  shows "hole_ok m cap (T[g := e]) g (nxt cap g)"
proof -
  note P = probe_okD [OF ok]
  have ne: "nxt cap g \<noteq> g" using nxt_neq f g by metis
  have one: "dst cap g (nxt cap g) = 1" using dst_nxt_self g ne by blast
  have val: "he_valid (T[g := e] ! x) \<longleftrightarrow> x \<noteq> g \<and> he_valid (T ! x)" if "x < cap" for x
    using that g e P(1) by (simp add: nth_list_update)
  have key: "T[g := e] ! x = T ! x" if "x \<noteq> g" for x
    using that by simp
  show ?thesis
  proof (rule hole_okI)
    fix i j assume i: "i < cap" "he_valid (T[g := e] ! i)" and j: "j < cap"
      "dst cap (khome m cap (he_key (T[g := e] ! i))) j < dst cap (khome m cap (he_key (T[g := e] ! i))) i"
    have ig: "i \<noteq> g" "he_valid (T ! i)" using i val by simp_all
    then have "he_valid (T ! j)" using probe_ok_path [OF ok i(1) _ j(1)] j(2) key by simp
    moreover have "1 \<le> dst cap g i" using dst_eq_0 [OF g i(1)] ig by linarith
    ultimately show "he_valid (T[g := e] ! j) \<or> j = g \<and> dst cap g (nxt cap g) \<le> dst cap g i"
      using val [OF j(1)] one by auto
  next
    fix i assume "i < cap" "he_valid (T[g := e] ! i)"
    then show "key_kind m (he_key (T[g := e] ! i))" using val key P(3) by auto
  qed (use P g ne one e in simp_all)
qed

lemma remove_elt_at_ok:
  assumes wf: "ht_wf m ht" and m: "ht_type_methods ht = Some m" and tbl: "ht_table ht = Some tbl"
    and i: "i < ht_capacity ht" "he_valid (tbl ! i)"
  shows "\<exists>ht'. ocoms_hash_table_remove_elt_at ht i = Some (OCOMS_SUCCESS, ht') \<and> ht_wf m ht' \<and>
     ht_map ht' = (ht_map ht)(he_key (tbl ! i) := None) \<and> ht_size ht = ht_size ht' + 1 \<and>
     ht_type_methods ht' = Some m"
proof -
  note D = ht_preD [OF ht_wf_pre [OF wf] tbl]
  let ?cap = "ht_capacity ht" and ?e = "elt_destructor m ((tbl ! i)\<lparr>he_valid := False\<rparr>)"
  have len: "length tbl = ?cap" using D(1) by (rule probe_okD)
  have size: "size (entries tbl) < ?cap" using wf D(3) by (simp add: ht_wf_def)
  obtain f where f: "f < ?cap" "\<not> he_valid (tbl ! f)" using free_slot_exists [OF len size] by blast
  have fi: "f \<noteq> i" using f(2) i(2) by blast
  have hole: "hole_ok m ?cap (tbl[i := ?e]) i (nxt ?cap i)"
    by (rule hole_ok_start [OF D(1) i(1) f(1) fi]) simp
  have "\<not> he_valid (tbl[i := ?e] ! f)" using f fi by simp
  from ht_compact_ok [OF hole f(1) fi this] obtain T' where T': "ht_compact m ?cap (tbl[i := ?e]) (nxt ?cap i) = Some T'"
    "probe_ok m ?cap T'" "entries T' = entries (tbl[i := ?e])" by blast
  have ent: "entries tbl = add_mset (he_key (tbl ! i), he_value (tbl ! i)) (entries T')"
    using entries_clear [of i tbl ?e] i len T'(3) by simp
  let ?ht = "ht\<lparr>ht_table := Some T', ht_size := ht_size ht - 1\<rparr>"
  have sz: "ht_size ht = size (entries T') + 1" using D(3) ent by simp
  have "size_t (int (ht_size ht) - 1) = ht_size ht - 1"
    using sz size D(3,5) by (subst size_t_nonneg) simp_all
  then have run: "ocoms_hash_table_remove_elt_at ht i = Some (OCOMS_SUCCESS, ?ht)"
    using tbl i len m T'(1) ht_compact_wrap [OF i(1), of m "tbl[i := ?e]"]
    by (simp add: ocoms_hash_table_remove_elt_at_def)
  have "keys_distinct (entries T')" using D(2) unfolding ent by (rule keys_distinct_remove)
  then have "ht_wf m ?ht" using D T'(2) sz size m by (auto simp: ht_wf_def ht_pre_def)
  moreover have "ht_map ?ht = (ht_map ht)(he_key (tbl ! i) := None)"
    using ht_look_del [OF D(2) ent] tbl by (simp add: ht_map_def fun_eq_iff)
  ultimately show ?thesis using run sz m by simp
qed

lemma ht_wf_typed: "ht_wf m ht \<Longrightarrow> ht_wf m (ht\<lparr>ht_type_methods := Some m\<rparr>)"
  by (cases "ht_table ht") (simp_all add: ht_wf_def ht_pre_def)

lemma ht_map_typed [simp]: "ht_map (ht\<lparr>ht_type_methods := x\<rparr>) = ht_map ht"
  by (simp add: ht_map_def fun_eq_iff)

lemma ht_remove_value_ok:
  assumes wf: "ht_wf m ht" and k: "key_kind m k"
  shows "\<exists>rc ht'. ht_remove_value dbg m ht k = Some (rc, ht') \<and> ht_wf m ht' \<and>
     ht_map ht' = (ht_map ht)(k := None) \<and> ht_type_methods ht' = Some m \<and>
     rc = (if ht_map ht k = None then OCOMS_ERR_NOT_FOUND else OCOMS_SUCCESS) \<and>
     ht_size ht = ht_size ht' + (if ht_map ht k = None then 0 else 1)"
proof -
  obtain tbl where T: "ht_table ht = Some tbl" "probe_ok m (ht_capacity ht) tbl"
    "keys_distinct (entries tbl)" "size (entries tbl) < ht_capacity ht" "ht_size ht = size (entries tbl)"
    using wf by (rule ht_wf_table)
  note P = probe_okD(1,2) [OF T(2)]
  let ?cap = "ht_capacity ht" and ?ht = "ht\<lparr>ht_type_methods := Some m\<rparr>"
  obtain j where j: "j < ?cap" "ht_probe tbl ?cap k (khome m ?cap k) = Some (he_valid (tbl ! j), j)"
    and found: "he_valid (tbl ! j) \<Longrightarrow> he_key (tbl ! j) = k \<and> ht_look tbl k = Some (he_value (tbl ! j))"
    and free: "\<not> he_valid (tbl ! j) \<Longrightarrow> ht_look tbl k = None"
    using probe_finds [OF T(2-4) k] by blast
  have run: "ht_remove_value dbg m ht k =
     (if he_valid (tbl ! j) then ocoms_hash_table_remove_elt_at ?ht j else Some (OCOMS_ERR_NOT_FOUND, ?ht))"
    using T P k j ht_debug_ok [OF ht_wf_pre [OF wf]]
    by (simp add: ht_remove_value_def ht_home_kind Let_def)
  show ?thesis
  proof (cases "he_valid (tbl ! j)")
    case True
    with found T(1) have look: "he_key (tbl ! j) = k" "ht_map ht k \<noteq> None" by (simp_all add: ht_map_def)
    from remove_elt_at_ok [OF ht_wf_typed [OF wf], of tbl j] T(1) j(1) True
    obtain ht' where "ocoms_hash_table_remove_elt_at ?ht j = Some (OCOMS_SUCCESS, ht')" "ht_wf m ht'"
      "ht_map ht' = (ht_map ht)(k := None)" "ht_size ht = ht_size ht' + 1" "ht_type_methods ht' = Some m"
      by (auto simp: look(1))
    with run True look(2) show ?thesis by simp
  next
    case False
    then have "ht_map ht k = None" using free T(1) by (simp add: ht_map_def)
    moreover from this have "(ht_map ht)(k := None) = ht_map ht" by (simp add: fun_upd_idem)
    ultimately show ?thesis using run False ht_wf_typed [OF wf] by simp
  qed
qed

section \<open>Construction and removal of everything\<close>

lemma init_ok:
  assumes "calloc_sane calloc_ok" and "n < 2 ^ 60" and "ht_size ht = 0"
  shows "\<exists>rc ht'. ocoms_hash_table_init calloc_ok ht n = Some (rc, ht') \<and>
     (if calloc_ok (ocoms_hash_round_capacity_up (2 * n))
      then rc = OCOMS_SUCCESS \<and> ht_wf m ht' \<and> ht_map ht' = Map.empty \<and> n \<le> ht_growth_trigger ht'
      else rc = OCOMS_ERR_OUT_OF_RESOURCE)"
proof -
  let ?n = "ocoms_hash_round_capacity_up (2 * n)"
  have est: "size_ratio n 2 1 = Some (2 * n)"
    using assms(2) by (simp add: size_ratio_def size_t_def size_norm_def)
  show ?thesis
  proof (cases "calloc_ok ?n")
    case False
    then show ?thesis using est by (simp add: ocoms_hash_table_init_def ocoms_hash_table_init2_def)
  next
    case True
    then have n: "?n < 2 ^ 59" using assms(1) by (simp add: calloc_sane_def)
    have gt: "2 * n < ?n" using assms(2) by (intro round_capacity_up(2)) simp
    let ?ht = "ht\<lparr>ht_table := Some (replicate ?n he_zero), ht_capacity := ?n, ht_growth_trigger := ?n div 2,
      ht_density_numer := 1, ht_density_denom := 2, ht_growth_numer := 2, ht_growth_denom := 1,
      ht_type_methods := None\<rparr>"
    have "ocoms_hash_table_init calloc_ok ht n = Some (OCOMS_SUCCESS, ?ht)"
      using True est n by (simp add: ocoms_hash_table_init_def ocoms_hash_table_init2_def Let_def size_ratio_half)
    moreover have "ht_wf m ?ht"
      using n gt assms(3) by (simp add: ht_wf_def ht_pre_def probe_ok_empty)
    moreover have "ht_map ?ht = Map.empty"
      by (simp add: ht_map_def ht_look_None fun_eq_iff)
    moreover have "n \<le> ?n div 2" using gt by simp
    ultimately show ?thesis using True by simp
  qed
qed

lemma he_clear_valid [simp]: "\<not> he_valid (he_clear m e)"
  by (simp add: he_clear_def Let_def)

lemma remove_all_ok:
  assumes "ht_pre m ht"
  shows "\<exists>ht'. ocoms_hash_table_remove_all ht = Some (OCOMS_SUCCESS, ht') \<and> ht_wf m' ht' \<and>
     ht_map ht' = Map.empty \<and> ht_size ht' = 0 \<and> ht_capacity ht' = ht_capacity ht"
proof -
  obtain tbl where tbl: "ht_table ht = Some tbl" using ht_pre_table [OF assms] by blast
  note D = ht_preD [OF assms tbl] and P = probe_okD(1,2) [OF ht_preD(1) [OF assms tbl]]
  let ?T = "map (he_clear (ht_type_methods ht)) tbl"
  have "entries ?T = {#}" by (simp add: entries_def filter_empty_conv)
  moreover have "probe_ok m' (ht_capacity ht) ?T" using P by (simp add: probe_ok_def)
  ultimately show ?thesis
    using D P tbl by (simp add: ocoms_hash_table_remove_all_def ht_wf_def ht_pre_def ht_map_def ht_look_None fun_eq_iff)
qed

section \<open>Traversal visits every entry once\<close>

lemma ht_next_valid_drop:
  "length tbl = cap \<Longrightarrow>
   (ht_next_valid tbl cap s = Some None \<and> filter he_valid (drop s tbl) = []) \<or>
   (\<exists>i. ht_next_valid tbl cap s = Some (Some i) \<and> i < cap \<and> he_valid (tbl ! i) \<and>
        filter he_valid (drop s tbl) = tbl ! i # filter he_valid (drop (Suc i) tbl))"
proof (induction tbl cap s rule: ht_next_valid.induct)
  case (1 tbl cap s)
  show ?case
  proof (cases "s < cap")
    case False
    with 1 show ?thesis by (simp add: ht_next_valid.simps [of tbl cap s])
  next
    case True
    then have d: "drop s tbl = tbl ! s # drop (Suc s) tbl" using 1(2) by (simp add: Cons_nth_drop_Suc)
    show ?thesis
    proof (cases "he_valid (tbl ! s)")
      case v: True
      then show ?thesis using True 1(2) d by (simp add: ht_next_valid.simps [of tbl cap s])
    next
      case v: False
      have "ht_next_valid tbl cap s = ht_next_valid tbl cap (Suc s)"
        using v True 1(2) by (simp add: ht_next_valid.simps [of tbl cap s])
      moreover have "filter he_valid (drop s tbl) = filter he_valid (drop (Suc s) tbl)" using v d by simp
      moreover have "rdn tbl s = Some (tbl ! s)" using True 1(2) by simp
      ultimately show ?thesis using 1(1) [OF True _ v] 1(2) by simp
    qed
  qed
qed

text \<open>The loop of a caller: \<open>get_first_key\<close>, then \<open>get_next_key\<close> from each node until the error.\<close>

fun ht_keys_from :: "nat \<Rightarrow> 'v htable \<Rightarrow> nat option \<Rightarrow> (64 word \<times> 'v option) list option" where
  "ht_keys_from 0 ht node = None"
| "ht_keys_from (Suc fuel) ht node = do {
     r \<leftarrow> (case node of None \<Rightarrow> ocoms_hash_table_get_first_key_uint64 ht
            | Some i \<Rightarrow> ocoms_hash_table_get_next_key_uint64 ht (Some i));
     if fst r \<noteq> OCOMS_SUCCESS then Some []
     else do {
       (key, v, node') \<leftarrow> snd r;
       rest \<leftarrow> ht_keys_from fuel ht (Some node');
       Some ((key, v) # rest) } }"

definition elt_u64 :: "'v helt \<Rightarrow> 64 word" where
  "elt_u64 e = (case he_key e of U64 x \<Rightarrow> x | _ \<Rightarrow> 0)"

lemma ht_keys_from_ok:
  assumes "ht_table ht = Some tbl" and "probe_ok Methods_uint64 (ht_capacity ht) tbl"
    and "length (filter he_valid (drop (case node of None \<Rightarrow> 0 | Some i \<Rightarrow> Suc i) tbl)) < fuel"
  shows "ht_keys_from fuel ht node = Some (map (\<lambda>e. (elt_u64 e, he_value e))
     (filter he_valid (drop (case node of None \<Rightarrow> 0 | Some i \<Rightarrow> Suc i) tbl)))"
  using assms(3)
proof (induction fuel arbitrary: node)
  case 0
  then show ?case by simp
next
  case (Suc fuel)
  let ?s = "case node of None \<Rightarrow> 0 | Some i \<Rightarrow> Suc i" and ?cap = "ht_capacity ht"
  have len: "length tbl = ?cap" using assms(2) by (rule probe_okD)
  have call: "(case node of None \<Rightarrow> ocoms_hash_table_get_first_key_uint64 ht
      | Some i \<Rightarrow> ocoms_hash_table_get_next_key_uint64 ht (Some i)) = ocoms_hash_table_get_next_key_uint64 ht node"
    by (simp add: ocoms_hash_table_get_first_key_uint64_def split: option.split)
  have elt: "ocoms_hash_table_get_next_elt ht node = do { r \<leftarrow> ht_next_valid tbl ?cap ?s;
     Some (case r of None \<Rightarrow> (OCOMS_ERROR, None) | Some ii \<Rightarrow> (OCOMS_SUCCESS, Some ii)) }"
  proof -
    have "?s < ?cap \<or> ht_next_valid tbl ?cap ?s = Some None" by (simp add: ht_next_valid.simps [of tbl ?cap ?s])
    then show ?thesis unfolding ocoms_hash_table_get_next_elt_def Let_def Suc_eq_plus1 [symmetric]
      by (cases "?s < ?cap") (simp_all add: assms(1))
  qed
  from ht_next_valid_drop [OF len, of ?s] show ?case
  proof (elim disjE exE conjE)
    assume "ht_next_valid tbl ?cap ?s = Some None" "filter he_valid (drop ?s tbl) = []"
    then show ?thesis unfolding ht_keys_from.simps call
      by (simp add: elt ocoms_hash_table_get_next_key_uint64_def)
  next
    fix i
    assume i: "ht_next_valid tbl ?cap ?s = Some (Some i)" "i < ?cap" "he_valid (tbl ! i)"
      and fl: "filter he_valid (drop ?s tbl) = tbl ! i # filter he_valid (drop (Suc i) tbl)"
    obtain k where k: "he_key (tbl ! i) = U64 k"
      using probe_okD(3) [OF assms(2) i(2,3)] by (cases "he_key (tbl ! i)") auto
    have "ht_keys_from fuel ht (Some i) = Some (map (\<lambda>e. (elt_u64 e, he_value e)) (filter he_valid (drop (Suc i) tbl)))"
      using Suc.IH [of "Some i"] Suc.prems unfolding fl by simp
    moreover have "ocoms_hash_table_get_next_key_uint64 ht node = Some (OCOMS_SUCCESS, Some (k, he_value (tbl ! i), i))"
      using i(1,2) k len assms(1) by (simp add: elt ocoms_hash_table_get_next_key_uint64_def)
    ultimately show ?thesis unfolding ht_keys_from.simps call fl by (simp add: elt_u64_def k)
  qed
qed

lemma keys_distinct_list: "keys_distinct (mset ys) \<Longrightarrow> distinct (map fst ys)"
proof (induction ys)
  case (Cons y ys)
  have d: "keys_distinct (mset ys)" using Cons.prems keys_distinct_remove by simp
  have "(fst y, w) \<notin># mset ys" for w
    using keys_distinct_gone [of "fst y" "snd y" "mset ys"] Cons.prems by simp
  then have "fst y \<notin> fst ` set ys" by (metis imageE prod.collapse set_mset_mset)
  with Cons.IH [OF d] show ?case by simp
qed simp

lemma ht_keys_ok:
  assumes "ht_wf Methods_uint64 ht"
  obtains xs where "ht_keys_from (ht_size ht + 1) ht None = Some xs" "distinct (map fst xs)"
    "\<forall>k v. (k, v) \<in> set xs \<longleftrightarrow> ht_map ht (U64 k) = Some v" "length xs = ht_size ht"
proof -
  obtain tbl where T: "ht_table ht = Some tbl" "probe_ok Methods_uint64 (ht_capacity ht) tbl"
    "keys_distinct (entries tbl)" "size (entries tbl) < ht_capacity ht" "ht_size ht = size (entries tbl)"
    using assms by (rule ht_wf_table)
  let ?F = "filter he_valid tbl"
  have u64: "he_key e = U64 (elt_u64 e)" if "e \<in> set ?F" for e
  proof -
    have "key_kind Methods_uint64 (he_key e)"
      using that probe_okD(1,3) [OF T(2)] by (auto simp: in_set_conv_nth [of _ tbl])
    then show ?thesis by (cases "he_key e") (simp_all add: elt_u64_def)
  qed
  have run: "ht_keys_from (ht_size ht + 1) ht None = Some (map (\<lambda>e. (elt_u64 e, he_value e)) ?F)"
    using ht_keys_from_ok [OF T(1,2), of None "ht_size ht + 1"] T(5) by (simp add: entries_size)
  have "distinct (map he_key ?F)"
    using keys_distinct_list [of "map (\<lambda>e. (he_key e, he_value e)) ?F"] T(3) by (simp add: entries_def comp_def)
  then have dis: "distinct (map elt_u64 ?F)" using u64 by (auto simp: distinct_map inj_on_def)
  have mem: "(k, v) \<in> set (map (\<lambda>e. (elt_u64 e, he_value e)) ?F) \<longleftrightarrow> ht_map ht (U64 k) = Some v" for k v
  proof -
    have "ht_map ht (U64 k) = Some v \<longleftrightarrow> (U64 k, v) \<in> (\<lambda>e. (he_key e, he_value e)) ` set ?F"
      using T(1,3) by (simp add: ht_map_def ht_look_Some entries_def)
    also have "\<dots> \<longleftrightarrow> (k, v) \<in> (\<lambda>e. (elt_u64 e, he_value e)) ` set ?F"
    proof
      assume "(U64 k, v) \<in> (\<lambda>e. (he_key e, he_value e)) ` set ?F"
      then obtain e where "e \<in> set ?F" "he_key e = U64 k" "he_value e = v" by force
      then show "(k, v) \<in> (\<lambda>e. (elt_u64 e, he_value e)) ` set ?F"
        by (intro image_eqI [of _ _ e]) (simp_all add: elt_u64_def)
    next
      assume "(k, v) \<in> (\<lambda>e. (elt_u64 e, he_value e)) ` set ?F"
      then obtain e where "e \<in> set ?F" "elt_u64 e = k" "he_value e = v" by force
      then show "(U64 k, v) \<in> (\<lambda>e. (he_key e, he_value e)) ` set ?F"
        using u64 by (intro image_eqI [of _ _ e]) simp_all
    qed
    finally show ?thesis by simp
  qed
  show ?thesis
    by (rule that [OF run]) (use dis mem T(5) in \<open>simp_all add: comp_def entries_size del: set_map\<close>)
qed

section \<open>A full table\<close>

text \<open>Without an invalid slot the search for an absent key goes round for ever.\<close>

lemma ht_probe_diverges:
  assumes "length tbl = cap" and "p \<le> cap" and "0 < cap"
    and "\<forall>i < cap. he_valid (tbl ! i) \<and> key_kind m (he_key (tbl ! i)) \<and> he_key (tbl ! i) \<noteq> k" and "key_kind m k"
  shows "ht_probe tbl cap k p = None"
proof (rule ccontr)
  assume "ht_probe tbl cap k p \<noteq> None"
  then obtain r where "ht_probe tbl cap k p = Some r" by blast
  then have "\<not> (length tbl = cap \<and> p \<le> cap \<and> 0 < cap \<and> key_kind m k \<and>
     (\<forall>i < cap. he_valid (tbl ! i) \<and> key_kind m (he_key (tbl ! i)) \<and> he_key (tbl ! i) \<noteq> k))"
  proof (rule ht_probe.raw_induct [rotated, where P = "\<lambda>tbl cap k p r. \<not> (length tbl = cap \<and> p \<le> cap \<and> 0 < cap \<and> key_kind m k \<and>
     (\<forall>i < cap. he_valid (tbl ! i) \<and> key_kind m (he_key (tbl ! i)) \<and> he_key (tbl ! i) \<noteq> k))"])
    fix self tbl cap k p r
    assume IH: "\<And>tbl cap k p r. self tbl cap k p = Some r \<Longrightarrow> \<not> (length tbl = cap \<and> p \<le> cap \<and> 0 < cap \<and> key_kind m k \<and>
        (\<forall>i < cap. he_valid (tbl ! i) \<and> key_kind m (he_key (tbl ! i)) \<and> he_key (tbl ! i) \<noteq> k))"
      and run: "(let ii = ht_wrap cap p in do {
         elt \<leftarrow> rdn tbl ii;
         if \<not> he_valid elt then Some (False, ii)
         else do {
           eq \<leftarrow> hkey_eq (he_key elt) k;
           if eq then Some (True, ii) else self tbl cap k (ii + 1) } }) = Some r"
    show "\<not> (length tbl = cap \<and> p \<le> cap \<and> 0 < cap \<and> key_kind m k \<and>
        (\<forall>i < cap. he_valid (tbl ! i) \<and> key_kind m (he_key (tbl ! i)) \<and> he_key (tbl ! i) \<noteq> k))"
    proof
      assume A: "length tbl = cap \<and> p \<le> cap \<and> 0 < cap \<and> key_kind m k \<and>
        (\<forall>i < cap. he_valid (tbl ! i) \<and> key_kind m (he_key (tbl ! i)) \<and> he_key (tbl ! i) \<noteq> k)"
      then have w: "ht_wrap cap p < cap" by (auto simp: ht_wrap_def)
      then have "self tbl cap k (ht_wrap cap p + 1) = Some r"
        using run A by (simp add: hkey_eq_kind [of m] Let_def)
      moreover have "ht_wrap cap p + 1 \<le> cap" using w by simp
      ultimately show False using IH A by blast
    qed
  qed
  with assms show False by blast
qed

lemma full_table_diverges:
  assumes pre: "ht_pre m ht" and full: "ht_size ht = ht_capacity ht" and k: "key_kind m k" and "ht_map ht k = None"
  shows "ht_get_value dbg m ht k = None"
proof -
  obtain tbl where tbl: "ht_table ht = Some tbl" using ht_pre_table [OF pre] by blast
  note D = ht_preD [OF pre tbl] and P = probe_okD [OF ht_preD(1) [OF pre tbl]]
  have "length (filter he_valid tbl) = length tbl" using D(3) full P(1) by (simp add: entries_size)
  then have "filter he_valid tbl = tbl" by (metis length_filter_less less_irrefl filter_True)
  then have val: "\<forall>i < ht_capacity ht. he_valid (tbl ! i)" using P(1) by (metis filter_eq_Cons_iff filter_id_conv nth_mem)
  have "he_key (tbl ! i) \<noteq> k" if "i < ht_capacity ht" for i
    using entries_in [of i tbl] val that P(1) assms(4) tbl by (auto simp: ht_map_def ht_look_None)
  then have "ht_probe tbl (ht_capacity ht) k (khome m (ht_capacity ht) k) = None"
    using P val k by (intro ht_probe_diverges [of _ _ _ m]) (auto intro: less_imp_le)
  then show ?thesis
    using tbl P(2) k ht_debug_ok [OF pre] by (simp add: ht_get_value_def ht_home_kind Let_def)
qed

section \<open>The tables as keyed stores\<close>

text \<open>
  A table with the parameters of its operations: whether debug checks are compiled in, and what
  \<open>calloc\<close> and \<open>malloc\<close> can provide.  An operation that returns an error code is \<open>None\<close> here.
\<close>

type_synonym 'v hstore = "bool \<times> (nat \<Rightarrow> bool) \<times> (nat \<Rightarrow> bool) \<times> 'v htable"

fun hs_inv :: "hmethods \<Rightarrow> 'v hstore \<Rightarrow> bool" where
  "hs_inv m (dbg, c, ml, ht) \<longleftrightarrow> calloc_sane c \<and> ht_wf m ht"

definition hs_commit :: "'v hstore \<Rightarrow> (int \<times> 'v htable) option \<Rightarrow> 'v hstore option" where
  "hs_commit s r = (case (s, r) of ((dbg, c, ml, _), Some (rc, ht')) \<Rightarrow>
     if rc = OCOMS_SUCCESS then Some (dbg, c, ml, ht') else None | _ \<Rightarrow> None)"

fun u32_look :: "'v hstore \<Rightarrow> 32 word \<Rightarrow> 'v option option" where
  "u32_look (_, _, _, ht) k = ht_map ht (U32 k)"
fun u32_put :: "'v hstore \<Rightarrow> 32 word \<Rightarrow> 'v option \<Rightarrow> 'v hstore option" where
  "u32_put (dbg, c, ml, ht) k v = hs_commit (dbg, c, ml, ht) (ocoms_hash_table_set_value_uint32 c dbg ht k v)"
fun u32_del :: "'v hstore \<Rightarrow> 32 word \<Rightarrow> 'v hstore option" where
  "u32_del (dbg, c, ml, ht) k = hs_commit (dbg, c, ml, ht) (ocoms_hash_table_remove_value_uint32 dbg ht k)"

fun u64_look :: "'v hstore \<Rightarrow> 64 word \<Rightarrow> 'v option option" where
  "u64_look (_, _, _, ht) k = ht_map ht (U64 k)"
fun u64_put :: "'v hstore \<Rightarrow> 64 word \<Rightarrow> 'v option \<Rightarrow> 'v hstore option" where
  "u64_put (dbg, c, ml, ht) k v = hs_commit (dbg, c, ml, ht) (ocoms_hash_table_set_value_uint64 c dbg ht k v)"
fun u64_del :: "'v hstore \<Rightarrow> 64 word \<Rightarrow> 'v hstore option" where
  "u64_del (dbg, c, ml, ht) k = hs_commit (dbg, c, ml, ht) (ocoms_hash_table_remove_value_uint64 dbg ht k)"

fun ptr_look :: "'v hstore \<Rightarrow> 8 word list \<Rightarrow> 'v option option" where
  "ptr_look (_, _, _, ht) k = ht_map ht (PTR k)"
fun ptr_put :: "'v hstore \<Rightarrow> 8 word list \<Rightarrow> 'v option \<Rightarrow> 'v hstore option" where
  "ptr_put (dbg, c, ml, ht) k v = hs_commit (dbg, c, ml, ht) (ocoms_hash_table_set_value_ptr c ml dbg ht k v)"
fun ptr_del :: "'v hstore \<Rightarrow> 8 word list \<Rightarrow> 'v hstore option" where
  "ptr_del (dbg, c, ml, ht) k = hs_commit (dbg, c, ml, ht) (ocoms_hash_table_remove_value_ptr dbg ht k)"

lemma hs_put_ok:
  assumes "hs_inv m (dbg, c, ml, ht)" and "key_kind m k"
    and "hs_commit (dbg, c, ml, ht) (ht_set_value c dbg m ht k v) = Some s'"
  shows "\<exists>ht'. s' = (dbg, c, ml, ht') \<and> hs_inv m s' \<and> ht_map ht' = (ht_map ht)(k \<mapsto> v)"
proof -
  from assms(1) have "ht_wf m ht" "calloc_sane c" by simp_all
  from ht_set_value_ok [OF this(1) assms(2) this(2), of dbg v] assms(1,3) show ?thesis
    by (auto simp: hs_commit_def split: if_splits)
qed

lemma hs_del_ok:
  assumes "hs_inv m (dbg, c, ml, ht)" and "key_kind m k"
    and "hs_commit (dbg, c, ml, ht) (ht_remove_value dbg m ht k) = Some s'"
  shows "\<exists>ht'. s' = (dbg, c, ml, ht') \<and> hs_inv m s' \<and> ht_map ht' = (ht_map ht)(k := None)"
proof -
  from assms(1) have "ht_wf m ht" by simp
  from ht_remove_value_ok [OF this assms(2), of dbg] assms(1,3) show ?thesis
    by (auto simp: hs_commit_def split: if_splits)
qed

lemmas typed_defs = ocoms_hash_table_set_value_uint32_def ocoms_hash_table_set_value_uint64_def
  ocoms_hash_table_remove_value_uint32_def ocoms_hash_table_remove_value_uint64_def
  ocoms_hash_table_remove_value_ptr_def ocoms_hash_table_get_value_uint32_def
  ocoms_hash_table_get_value_uint64_def ocoms_hash_table_get_value_ptr_def

lemma set_value_ptr_eq:
  "ocoms_hash_table_set_value_ptr c ml dbg ht k v = Some r \<Longrightarrow> ht_set_value c dbg Methods_ptr ht (PTR k) v = Some r"
  by (auto simp: ocoms_hash_table_set_value_ptr_def bind_eq_Some_conv)

lemma ptr_put_eq:
  "ptr_put (dbg, c, ml, ht) k v = Some s' \<Longrightarrow>
   hs_commit (dbg, c, ml, ht) (ht_set_value c dbg Methods_ptr ht (PTR k) v) = Some s'"
  by (auto simp: hs_commit_def dest: set_value_ptr_eq split: option.splits)

interpretation u32: keyed_store_del "hs_inv Methods_uint32" u32_look u32_put u32_del
proof
  fix s s' :: "'a hstore" and k v
  assume inv: "hs_inv Methods_uint32 s" and put: "u32_put s k v = Some s'"
  obtain dbg c ml ht where s: "s = (dbg, c, ml, ht)" by (cases s) auto
  from hs_put_ok [of Methods_uint32 dbg c ml ht "U32 k" v s'] inv put
  obtain ht' where "s' = (dbg, c, ml, ht')" "hs_inv Methods_uint32 s'" "ht_map ht' = (ht_map ht)(U32 k \<mapsto> v)"
    by (auto simp: s typed_defs)
  then show "hs_inv Methods_uint32 s'" "u32_look s' = (u32_look s)(k \<mapsto> v)" by (auto simp: s fun_eq_iff)
next
  fix s s' :: "'a hstore" and k
  assume inv: "hs_inv Methods_uint32 s" and del: "u32_del s k = Some s'"
  obtain dbg c ml ht where s: "s = (dbg, c, ml, ht)" by (cases s) auto
  from hs_del_ok [of Methods_uint32 dbg c ml ht "U32 k" s'] inv del
  obtain ht' where "s' = (dbg, c, ml, ht')" "hs_inv Methods_uint32 s'" "ht_map ht' = (ht_map ht)(U32 k := None)"
    by (auto simp: s typed_defs)
  then show "hs_inv Methods_uint32 s'" "u32_look s' = (u32_look s)(k := None)" by (auto simp: s fun_eq_iff)
qed

interpretation u64: keyed_store_del "hs_inv Methods_uint64" u64_look u64_put u64_del
proof
  fix s s' :: "'a hstore" and k v
  assume inv: "hs_inv Methods_uint64 s" and put: "u64_put s k v = Some s'"
  obtain dbg c ml ht where s: "s = (dbg, c, ml, ht)" by (cases s) auto
  from hs_put_ok [of Methods_uint64 dbg c ml ht "U64 k" v s'] inv put
  obtain ht' where "s' = (dbg, c, ml, ht')" "hs_inv Methods_uint64 s'" "ht_map ht' = (ht_map ht)(U64 k \<mapsto> v)"
    by (auto simp: s typed_defs)
  then show "hs_inv Methods_uint64 s'" "u64_look s' = (u64_look s)(k \<mapsto> v)" by (auto simp: s fun_eq_iff)
next
  fix s s' :: "'a hstore" and k
  assume inv: "hs_inv Methods_uint64 s" and del: "u64_del s k = Some s'"
  obtain dbg c ml ht where s: "s = (dbg, c, ml, ht)" by (cases s) auto
  from hs_del_ok [of Methods_uint64 dbg c ml ht "U64 k" s'] inv del
  obtain ht' where "s' = (dbg, c, ml, ht')" "hs_inv Methods_uint64 s'" "ht_map ht' = (ht_map ht)(U64 k := None)"
    by (auto simp: s typed_defs)
  then show "hs_inv Methods_uint64 s'" "u64_look s' = (u64_look s)(k := None)" by (auto simp: s fun_eq_iff)
qed

interpretation ptr: keyed_store_del "hs_inv Methods_ptr" ptr_look ptr_put ptr_del
proof
  fix s s' :: "'a hstore" and k v
  assume inv: "hs_inv Methods_ptr s" and put: "ptr_put s k v = Some s'"
  obtain dbg c ml ht where s: "s = (dbg, c, ml, ht)" by (cases s) auto
  from hs_put_ok [of Methods_ptr dbg c ml ht "PTR k" v s'] inv put
  obtain ht' where "s' = (dbg, c, ml, ht')" "hs_inv Methods_ptr s'" "ht_map ht' = (ht_map ht)(PTR k \<mapsto> v)"
    by (auto simp: s simp del: ptr_put.simps hs_inv.simps dest: ptr_put_eq)
  then show "hs_inv Methods_ptr s'" "ptr_look s' = (ptr_look s)(k \<mapsto> v)" by (auto simp: s fun_eq_iff)
next
  fix s s' :: "'a hstore" and k
  assume inv: "hs_inv Methods_ptr s" and del: "ptr_del s k = Some s'"
  obtain dbg c ml ht where s: "s = (dbg, c, ml, ht)" by (cases s) auto
  from hs_del_ok [of Methods_ptr dbg c ml ht "PTR k" s'] inv del
  obtain ht' where "s' = (dbg, c, ml, ht')" "hs_inv Methods_ptr s'" "ht_map ht' = (ht_map ht)(PTR k := None)"
    by (auto simp: s typed_defs)
  then show "hs_inv Methods_ptr s'" "ptr_look s' = (ptr_look s)(k := None)" by (auto simp: s fun_eq_iff)
qed

section \<open>Concrete tables\<close>

definition ht_of :: "'v helt list \<Rightarrow> 'v htable" where
  "ht_of tbl = \<lparr>ht_table = Some tbl, ht_capacity = length tbl, ht_size = length (filter he_valid tbl),
     ht_growth_trigger = length tbl div 2, ht_density_numer = 1, ht_density_denom = 2,
     ht_growth_numer = 2, ht_growth_denom = 1, ht_type_methods = None\<rparr>"

definition elt_of :: "hkey \<Rightarrow> nat \<Rightarrow> nat helt" where
  "elt_of k v = \<lparr>he_valid = True, he_key = k, he_value = Some v\<rparr>"

lemma ht_of_wf:
  assumes "probe_ok m (length tbl) tbl" and "keys_distinct (entries tbl)" and "length tbl < 2 ^ 59"
    and "length (filter he_valid tbl) < length tbl"
  shows "ht_wf m (ht_of tbl)"
  using assms by (simp add: ht_wf_def ht_pre_def ht_of_def entries_size)

lemma ht_one_wf: "ht_wf m (ht_of [he_zero])"
  by (rule ht_of_wf) (simp_all add: probe_ok_def entries_def he_zero_def)

lemma probe_ok_home:
  assumes "probe_ok m cap tbl" and "\<not> he_valid (tbl ! j)" and "key_kind m k" and "khome m cap k = j"
  shows "probe_ok m cap (tbl[j := elt_of k v])"
proof -
  have "j < cap" using assms(4) khome_less [OF probe_okD(2) [OF assms(1)], of m k] by simp
  then show ?thesis by (rule probe_ok_fill [OF assms(1) _ assms(2)]) (simp_all add: elt_of_def assms)
qed

lemma ht_ptr_wf: "ht_wf Methods_ptr (ht_of [he_zero, elt_of (PTR [1]) 7, he_zero])"
proof (rule ht_of_wf)
  have "khome Methods_ptr 3 (PTR [1]) = 1"
    by (simp add: khome_def ocoms_hash_hash_elt_ptr_def ocoms_hash_hash_key_ptr_def HASH_MULTIPLIER_def)
  then have "probe_ok Methods_ptr 3 ((replicate 3 he_zero)[1 := elt_of (PTR [1]) 7])"
    by (intro probe_ok_home probe_ok_empty) (simp_all add: he_zero_def)
  then show "probe_ok Methods_ptr (length [he_zero, elt_of (PTR [1]) 7, he_zero]) [he_zero, elt_of (PTR [1]) 7, he_zero]"
    by (simp add: numeral_3_eq_3)
qed (simp_all add: entries_def he_zero_def elt_of_def keys_distinct_add)

lemma ht_u64_wf: "ht_wf Methods_uint64 (ht_of [elt_of (U64 3) 7, he_zero, elt_of (U64 5) 8])"
proof (rule ht_of_wf)
  have "khome Methods_uint64 3 (U64 3) = 0" "khome Methods_uint64 3 (U64 5) = 2"
    by (simp_all add: khome_def ocoms_hash_hash_elt_uint64_def)
  then have "probe_ok Methods_uint64 3 ((replicate 3 he_zero)[0 := elt_of (U64 3) 7, 2 := elt_of (U64 5) 8])"
    by (intro probe_ok_home probe_ok_empty) (simp_all add: he_zero_def)
  then show "probe_ok Methods_uint64 (length [elt_of (U64 3) 7, he_zero, elt_of (U64 5) 8])
      [elt_of (U64 3) 7, he_zero, elt_of (U64 5) 8]"
    by (simp add: numeral_3_eq_3 numeral_2_eq_2)
qed (simp_all add: entries_def he_zero_def elt_of_def keys_distinct_add)

section \<open>Properties\<close>

text \<open>
  C4: Any sequence of set and remove operations on a table with byte-string keys that all succeed
  acts on the table exactly as it does on a finite map, whatever growth and compaction happen on
  the way, and keeps the table's invariant.
\<close>

theorem hash_table_refines_map:
  assumes "hs_inv Methods_ptr s" and "run_store ptr_put ptr_del s ops = Some s'"
  shows "hs_inv Methods_ptr s' \<and> ptr_look s' = map_ops (ptr_look s) ops"
  by (rule ptr.run_store_refines [OF assms])

theorem hash_table_refines_map_witness:
  "\<exists>s'. run_store ptr_put ptr_del (True, \<lambda>n. n < 1000, \<lambda>_. True, ht_of [he_zero, elt_of (PTR [1]) 7, he_zero])
      [Del [1]] = Some s' \<and> hs_inv Methods_ptr s' \<and> ptr_look s' [1] = None"
proof -
  let ?s = "(True, \<lambda>n. n < 1000, \<lambda>_::nat. True, ht_of [he_zero, elt_of (PTR [1]) 7, he_zero])"
  have inv: "hs_inv Methods_ptr ?s" using ht_ptr_wf by (simp add: calloc_sane_def)
  have "ht_map (ht_of [he_zero, elt_of (PTR [1]) 7, he_zero]) (PTR [1]) \<noteq> None"
    by (simp add: ht_map_def ht_of_def ht_look_def he_zero_def elt_of_def)
  with ht_remove_value_ok [OF ht_ptr_wf, of "PTR [1]" True]
  obtain s' where run: "run_store ptr_put ptr_del ?s [Del [1]] = Some s'"
    by (auto simp: typed_defs hs_commit_def)
  from hash_table_refines_map [OF inv run] run show ?thesis by auto
qed

text \<open>
  On a well-formed table, setting a value always returns, with success or out-of-resource;
  after success every lookup returns the value of the last set for its key, and lookups of other
  keys return what they returned before.
\<close>

theorem set_value_then_get:
  assumes "ht_wf Methods_uint32 ht" and "calloc_sane calloc_ok"
  shows "\<exists>rc ht'. ocoms_hash_table_set_value_uint32 calloc_ok dbg ht key v = Some (rc, ht') \<and>
     (rc = OCOMS_SUCCESS \<or> rc = OCOMS_ERR_OUT_OF_RESOURCE) \<and>
     (rc = OCOMS_SUCCESS \<longrightarrow> ht_wf Methods_uint32 ht' \<and>
       (\<forall>k. ocoms_hash_table_get_value_uint32 dbg ht' k =
          Some (case if k = key then Some v else ht_map ht (U32 k) of
                  Some x \<Rightarrow> (OCOMS_SUCCESS, Some x, ht') | None \<Rightarrow> (OCOMS_ERR_NOT_FOUND, None, ht'))))"
proof -
  have "key_kind Methods_uint32 (U32 key)" by simp
  from ht_set_value_ok [OF assms(1) this assms(2), of dbg v] obtain rc ht' where
    S: "ht_set_value calloc_ok dbg Methods_uint32 ht (U32 key) v = Some (rc, ht')"
      "ht_map ht' = (ht_map ht)(U32 key \<mapsto> v)" "ht_type_methods ht' = Some Methods_uint32"
      "rc = OCOMS_SUCCESS \<longrightarrow> ht_wf Methods_uint32 ht'"
      "rc \<noteq> OCOMS_SUCCESS \<longrightarrow> rc = OCOMS_ERR_OUT_OF_RESOURCE" by blast
  have "ht'\<lparr>ht_type_methods := Some Methods_uint32\<rparr> = ht'" using S(3) by simp
  with S show ?thesis by (auto simp: typed_defs ht_get_value_ok split: option.split)
qed

theorem set_value_then_get_witness:
  "\<exists>rc ht'. ocoms_hash_table_set_value_uint32 (\<lambda>n. n < 100) True (ht_of [he_zero]) 5 (Some (7::nat)) = Some (rc, ht') \<and>
     (rc = OCOMS_SUCCESS \<longrightarrow> ocoms_hash_table_get_value_uint32 True ht' 5 = Some (OCOMS_SUCCESS, Some (Some 7), ht'))"
proof -
  have c: "calloc_sane (\<lambda>n. n < 100)" by (simp add: calloc_sane_def)
  from set_value_then_get [OF ht_one_wf c, of True 5 "Some (7::nat)"] show ?thesis by auto
qed

text \<open>
  On a well-formed table removing a key always returns, with success exactly when the key was
  present; afterwards the key is not found, and every other key is found with its value although
  its element may have been moved.
\<close>

theorem remove_value_then_get:
  assumes "ht_wf Methods_ptr ht"
  shows "\<exists>rc ht'. ocoms_hash_table_remove_value_ptr dbg ht key = Some (rc, ht') \<and>
     ht_wf Methods_ptr ht' \<and>
     rc = (if ht_map ht (PTR key) = None then OCOMS_ERR_NOT_FOUND else OCOMS_SUCCESS) \<and>
     ht_size ht = ht_size ht' + (if ht_map ht (PTR key) = None then 0 else 1) \<and>
     (\<forall>k. ocoms_hash_table_get_value_ptr dbg ht' k =
        Some (case if k = key then None else ht_map ht (PTR k) of
                Some x \<Rightarrow> (OCOMS_SUCCESS, Some x, ht') | None \<Rightarrow> (OCOMS_ERR_NOT_FOUND, None, ht')))"
proof -
  have "key_kind Methods_ptr (PTR key)" by simp
  from ht_remove_value_ok [OF assms this, of dbg] obtain rc ht' where
    S: "ht_remove_value dbg Methods_ptr ht (PTR key) = Some (rc, ht')" "ht_wf Methods_ptr ht'"
      "ht_map ht' = (ht_map ht)(PTR key := None)" "ht_type_methods ht' = Some Methods_ptr"
      "rc = (if ht_map ht (PTR key) = None then OCOMS_ERR_NOT_FOUND else OCOMS_SUCCESS)"
      "ht_size ht = ht_size ht' + (if ht_map ht (PTR key) = None then 0 else 1)" by blast
  have "ht'\<lparr>ht_type_methods := Some Methods_ptr\<rparr> = ht'" using S(4) by simp
  with S show ?thesis by (auto simp: typed_defs ht_get_value_ok split: option.split)
qed

theorem remove_value_then_get_witness:
  "\<exists>ht'. ocoms_hash_table_remove_value_ptr True (ht_of [he_zero, elt_of (PTR [1]) 7, he_zero]) [1]
      = Some (OCOMS_SUCCESS, ht') \<and>
     ocoms_hash_table_get_value_ptr True ht' [1] = Some (OCOMS_ERR_NOT_FOUND, None, ht')"
proof -
  have "ht_map (ht_of [he_zero, elt_of (PTR [1]) 7, he_zero]) (PTR [1]) \<noteq> None"
    by (simp add: ht_map_def ht_of_def ht_look_def he_zero_def elt_of_def)
  with remove_value_then_get [OF ht_ptr_wf, of True "[1]"] show ?thesis by auto
qed

text \<open>
  C5: Traversing a table with get-first-key and get-next-key until the error return visits every
  entry exactly once, with the value a lookup returns, and ends after as many steps as there are
  entries.
\<close>

theorem traversal_visits_once:
  assumes "ht_wf Methods_uint64 ht"
  shows "\<exists>xs. ht_keys_from (ht_size ht + 1) ht None = Some xs \<and> distinct (map fst xs) \<and>
     length xs = ht_size ht \<and>
     (\<forall>k v. (k, v) \<in> set xs \<longleftrightarrow> ocoms_hash_table_get_value_uint64 dbg ht k =
        Some (OCOMS_SUCCESS, Some v, ht\<lparr>ht_type_methods := Some Methods_uint64\<rparr>))"
proof -
  obtain xs where "ht_keys_from (ht_size ht + 1) ht None = Some xs" "distinct (map fst xs)"
    "\<forall>k v. (k, v) \<in> set xs \<longleftrightarrow> ht_map ht (U64 k) = Some v" "length xs = ht_size ht"
    using assms by (rule ht_keys_ok)
  with ht_get_value_ok [OF assms] show ?thesis
    by (auto simp: typed_defs split: option.split)
qed

theorem traversal_visits_once_witness:
  "\<exists>xs. ht_keys_from 3 (ht_of [elt_of (U64 3) 7, he_zero, elt_of (U64 5) 8]) None = Some xs \<and>
     distinct (map fst xs) \<and> length xs = 2"
  using traversal_visits_once [OF ht_u64_wf, of True]
  by (auto simp: ht_of_def he_zero_def elt_of_def numeral_3_eq_3 numeral_2_eq_2)

text \<open>
  When the table cannot grow, \<open>set\<close> reports out-of-resource but has stored the element all the
  same; once that takes the last invalid slot, looking up a key that is not in the table never
  returns.
\<close>

theorem failed_growth_lookup_diverges:
  assumes "ht_wf Methods_uint32 ht" and "calloc_sane calloc_ok" and "ht_map ht (U32 key) = None"
    and "ht_size ht + 1 = ht_capacity ht"
    and "\<not> calloc_ok (ocoms_hash_round_capacity_up (2 * ht_capacity ht))"
  shows "\<exists>ht'. ocoms_hash_table_set_value_uint32 calloc_ok dbg ht key v = Some (OCOMS_ERR_OUT_OF_RESOURCE, ht') \<and>
     ht_map ht' (U32 key) = Some v \<and>
     (\<forall>k. k \<noteq> key \<and> ht_map ht (U32 k) = None \<longrightarrow> ocoms_hash_table_get_value_uint32 dbg ht' k = None)"
proof -
  have key: "key_kind Methods_uint32 (U32 key)" by simp
  have "ht_growth_trigger ht \<le> ht_size ht + 1"
    using assms(1,4) by (simp add: ht_wf_def ht_pre_def)
  with ht_set_value_ok [OF assms(1) key assms(2), of dbg v] assms(3,5) obtain ht' where
    S: "ht_set_value calloc_ok dbg Methods_uint32 ht (U32 key) v = Some (OCOMS_ERR_OUT_OF_RESOURCE, ht')"
      "ht_pre Methods_uint32 ht'" "ht_map ht' = (ht_map ht)(U32 key \<mapsto> v)"
      "ht_size ht' = ht_size ht + 1" "ht_capacity ht' = ht_capacity ht" by auto
  have "ht_get_value dbg Methods_uint32 ht' (U32 k) = None" if "k \<noteq> key" "ht_map ht (U32 k) = None" for k
    by (rule full_table_diverges [OF S(2)]) (use S that assms(4) in simp_all)
  with S show ?thesis by (simp add: typed_defs)
qed

theorem failed_growth_lookup_diverges_witness:
  "\<exists>ht'. ocoms_hash_table_set_value_uint32 (\<lambda>n. n \<le> 1) True (ht_of [he_zero]) 5 (Some (7::nat))
      = Some (OCOMS_ERR_OUT_OF_RESOURCE, ht') \<and> ocoms_hash_table_get_value_uint32 True ht' 6 = None"
proof -
  have "ht_map (ht_of [he_zero]) (U32 x) = (None :: nat option option)" for x
    by (simp add: ht_map_def ht_of_def ht_look_def he_zero_def)
  with failed_growth_lookup_diverges [OF ht_one_wf, of "\<lambda>n. n \<le> 1" 5 True "Some (7::nat)"] show ?thesis
    by (auto simp: calloc_sane_def ht_of_def he_zero_def round_capacity_up)
qed

end
