(* ===== verification/Argv.thy ===== *)
theory Argv
  imports Interfaces
begin

text \<open>
  The null-terminated string vectors of \<open>ocoms/util/argv.c\<close>.  A \<open>char **\<close> block is the list of its
  cells, \<open>None\<close> in a cell being the null pointer; a vector is such a block or the null pointer.
  Reading past the block is undefined, so a vector without a terminator cannot be scanned.  The
  strings the vector owns are values: the code copies them in with \<open>strdup\<close> and never writes into
  them.  A C string is the list of its characters before the terminator.  A delimiter is a
  character, as at every call site.
\<close>

section \<open>Model\<close>

type_synonym cells = "string option list"

text \<open>
  The allocator: the cells of new vectors, their contents unspecified, and whether memory for a
  string of a number of bytes, and its initial contents, can be had.
\<close>

record argv_mem =
  cell_alloc :: "string option allocator"
  char_alloc :: "char allocator"

definition ARGSIZE :: nat where "ARGSIZE = 128"

text \<open>\<open>strdup\<close>: the copied string, \<open>None\<close> for the null pointer.\<close>

definition strdup :: "argv_mem \<Rightarrow> string \<Rightarrow> string option" where
  "strdup m s = (if char_alloc m (length s + 1) = None then None else Some s)"

fun argv_scan :: "cells \<Rightarrow> nat option" where
  "argv_scan [] = None"
| "argv_scan (None # cs) = Some 0"
| "argv_scan (Some s # cs) = map_option Suc (argv_scan cs)"

definition ocoms_argv_count :: "cells option \<Rightarrow> int option" where
  "ocoms_argv_count argv = (case argv of None \<Rightarrow> Some 0
     | Some cs \<Rightarrow> do { n \<leftarrow> argv_scan cs; chk (int n) })"

definition ocoms_argv_append_nosize :: "argv_mem \<Rightarrow> cells option \<Rightarrow> string \<Rightarrow> (int \<times> cells option) option" where
  "ocoms_argv_append_nosize m argv arg = do {
     r \<leftarrow> (case argv of
        None \<Rightarrow> (case cell_alloc m 2 of None \<Rightarrow> Some None
          | Some cs \<Rightarrow> do { c1 \<leftarrow> wr cs 0 None; c2 \<leftarrow> wr c1 1 None; Some (Some (0, c2)) })
      | Some cs \<Rightarrow> do {
          argc \<leftarrow> ocoms_argv_count argv;
          n \<leftarrow> chk (argc + 2);
          Some (map_option (\<lambda>cs'. (argc, cs')) (realloc (cell_alloc m) (Some cs) (nat n))) });
     case r of None \<Rightarrow> Some (OCOMS_ERR_OUT_OF_RESOURCE, None)
     | Some (argc, cs) \<Rightarrow> do {
         cs1 \<leftarrow> wr cs argc (strdup m arg);
         if strdup m arg = None then Some (OCOMS_ERR_OUT_OF_RESOURCE, Some cs1)
         else do { cs2 \<leftarrow> wr cs1 (argc + 1) None; Some (OCOMS_SUCCESS, Some cs2) } } }"

definition ocoms_argv_append ::
  "argv_mem \<Rightarrow> int \<Rightarrow> cells option \<Rightarrow> string \<Rightarrow> (int \<times> int \<times> cells option) option" where
  "ocoms_argv_append m argc argv arg = do {
     (rc, argv') \<leftarrow> ocoms_argv_append_nosize m argv arg;
     if rc \<noteq> OCOMS_SUCCESS then Some (rc, argc, argv')
     else do { n \<leftarrow> ocoms_argv_count argv'; Some (OCOMS_SUCCESS, n, argv') } }"

text \<open>The loop that moves the first \<open>i\<close> cells one cell on, from the last to the first.\<close>

fun argv_shift :: "nat \<Rightarrow> cells \<Rightarrow> cells option" where
  "argv_shift 0 cs = Some cs"
| "argv_shift (Suc i) cs = do { c \<leftarrow> rdn cs i; cs' \<leftarrow> wrn cs (Suc i) c; argv_shift i cs' }"

definition ocoms_argv_prepend_nosize :: "argv_mem \<Rightarrow> cells option \<Rightarrow> string \<Rightarrow> (int \<times> cells option) option" where
  "ocoms_argv_prepend_nosize m argv arg = (case argv of
     None \<Rightarrow> (case cell_alloc m 2 of None \<Rightarrow> Some (OCOMS_ERR_OUT_OF_RESOURCE, None)
       | Some cs \<Rightarrow> do { c1 \<leftarrow> wr cs 0 (strdup m arg); c2 \<leftarrow> wr c1 1 None; Some (OCOMS_SUCCESS, Some c2) })
   | Some cs \<Rightarrow> do {
       argc \<leftarrow> ocoms_argv_count argv;
       n \<leftarrow> chk (argc + 2);
       case realloc (cell_alloc m) (Some cs) (nat n) of None \<Rightarrow> Some (OCOMS_ERR_OUT_OF_RESOURCE, None)
       | Some c0 \<Rightarrow> do {
           c1 \<leftarrow> wr c0 (argc + 1) None;
           c2 \<leftarrow> argv_shift (nat argc) c1;
           c3 \<leftarrow> wr c2 0 (strdup m arg);
           Some (OCOMS_SUCCESS, Some c3) } })"

text \<open>The search of \<open>append_unique\<close>: the index of the argument, if it is there.\<close>

fun argv_find :: "cells \<Rightarrow> nat \<Rightarrow> string \<Rightarrow> nat option option" where
  "argv_find [] i arg = None"
| "argv_find (None # cs) i arg = Some None"
| "argv_find (Some s # cs) i arg = (if arg = s then Some (Some i) else argv_find cs (Suc i) arg)"

definition ocoms_argv_append_unique_nosize ::
  "argv_mem \<Rightarrow> cells option \<Rightarrow> string \<Rightarrow> bool \<Rightarrow> (int \<times> cells option) option" where
  "ocoms_argv_append_unique_nosize m argv arg overwrite = (case argv of
     None \<Rightarrow> ocoms_argv_append_nosize m argv arg
   | Some cs \<Rightarrow> do {
       r \<leftarrow> argv_find cs 0 arg;
       case r of
         Some i \<Rightarrow> do {
           cs' \<leftarrow> (if overwrite then wrn cs i (strdup m arg) else Some cs);
           Some (OCOMS_SUCCESS, Some cs') }
       | None \<Rightarrow> ocoms_argv_append_nosize m argv arg })"

section \<open>Splitting\<close>

text \<open>
  The loop of \<open>ocoms_argv_split_inter\<close>.  \<open>src\<close> is what is left of the string; the inner loop's
  token and the rest from its delimiter on are \<open>takeWhile\<close> and \<open>dropWhile\<close>.  The result is the
  returned pointer.
\<close>

lemma rest_shorter [simp]: "src \<noteq> [] \<Longrightarrow> length (dropWhile P src) - Suc 0 < length src"
proof -
  assume "src \<noteq> []"
  moreover have "length (dropWhile P src) \<le> length src" by (rule length_dropWhile_le)
  ultimately show ?thesis by (cases src) simp_all
qed

function argv_split_loop ::
  "argv_mem \<Rightarrow> char \<Rightarrow> bool \<Rightarrow> string \<Rightarrow> int \<Rightarrow> cells option \<Rightarrow> cells option option" where
  "argv_split_loop m delimiter include_empty src argc argv =
     (if src = [] then Some argv
      else let arg = takeWhile (\<lambda>c. c \<noteq> delimiter) src; p = dropWhile (\<lambda>c. c \<noteq> delimiter) src in
        if arg = [] then
          (if include_empty then do {
             (rc, argc', argv') \<leftarrow> ocoms_argv_append m argc argv '''';
             if rc \<noteq> OCOMS_SUCCESS then Some None
             else argv_split_loop m delimiter include_empty (drop 1 p) argc' argv' }
           else argv_split_loop m delimiter include_empty (drop 1 p) argc argv)
        else if p = [] then do {
          (rc, argc', argv') \<leftarrow> ocoms_argv_append m argc argv src;
          if rc \<noteq> OCOMS_SUCCESS then Some None
          else argv_split_loop m delimiter include_empty p argc' argv' }
        else if length arg > ARGSIZE - 1 then
          (case char_alloc m (length arg + 1) of None \<Rightarrow> Some None
           | Some argtemp \<Rightarrow> do {
               (rc, argc', argv') \<leftarrow> ocoms_argv_append m argc argv arg;
               if rc \<noteq> OCOMS_SUCCESS then Some None
               else argv_split_loop m delimiter include_empty (drop 1 p) argc' argv' })
        else do {
          assert_c (length arg < ARGSIZE);
          (rc, argc', argv') \<leftarrow> ocoms_argv_append m argc argv arg;
          if rc \<noteq> OCOMS_SUCCESS then Some None
          else argv_split_loop m delimiter include_empty (drop 1 p) argc' argv' })"
  by auto
termination
  by (relation "measure (\<lambda>(m, d, e, src, argc, argv). length src)") auto

declare argv_split_loop.simps [simp del]

definition ocoms_argv_split_inter ::
  "argv_mem \<Rightarrow> string option \<Rightarrow> char \<Rightarrow> bool \<Rightarrow> cells option option" where
  "ocoms_argv_split_inter m src_string delimiter include_empty = (case src_string of
     None \<Rightarrow> Some None | Some src \<Rightarrow> argv_split_loop m delimiter include_empty src 0 None)"

definition ocoms_argv_split :: "argv_mem \<Rightarrow> string option \<Rightarrow> char \<Rightarrow> cells option option" where
  "ocoms_argv_split m src_string delimiter = ocoms_argv_split_inter m src_string delimiter False"

definition ocoms_argv_split_with_empty :: "argv_mem \<Rightarrow> string option \<Rightarrow> char \<Rightarrow> cells option option" where
  "ocoms_argv_split_with_empty m src_string delimiter = ocoms_argv_split_inter m src_string delimiter True"

section \<open>Joining\<close>

text \<open>The character at an offset of a string, its terminator included.\<close>

definition cchar :: "string \<Rightarrow> nat \<Rightarrow> char option" where
  "cchar s i = (if i < length s then Some (s ! i) else if i = length s then Some (CHR 0x00) else None)"

text \<open>
  The loop that fills the joined string: \<open>n\<close> characters from index \<open>i\<close> on, the cell \<open>p\<close> and the
  offset \<open>pp\<close> in its string being the position read.  The pointer after a string's end may be null,
  if it is not read through.
\<close>

fun argv_fill :: "cells \<Rightarrow> char \<Rightarrow> nat \<Rightarrow> nat \<Rightarrow> nat \<Rightarrow> nat \<Rightarrow> char list \<Rightarrow> char list option" where
  "argv_fill cs delimiter i 0 p pp str = Some str"
| "argv_fill cs delimiter i (Suc n) p pp str = do {
     cell \<leftarrow> rdn cs p; s \<leftarrow> cell; c \<leftarrow> cchar s pp;
     if c = CHR 0x00 then do {
       str' \<leftarrow> wrn str i delimiter;
       next_cell \<leftarrow> rdn cs (p + 1);
       argv_fill cs delimiter (i + 1) n (p + 1) 0 str' }
     else do { str' \<leftarrow> wrn str i c; argv_fill cs delimiter (i + 1) n p (pp + 1) str' } }"

text \<open>The string a buffer holds.\<close>

definition cstring :: "char list \<Rightarrow> string option" where
  "cstring str = (if CHR 0x00 \<in> set str then Some (takeWhile (\<lambda>c. c \<noteq> CHR 0x00) str) else None)"

fun argv_total :: "cells \<Rightarrow> nat option" where
  "argv_total [] = None"
| "argv_total (None # cs) = Some 0"
| "argv_total (Some s # cs) = map_option (\<lambda>n. n + (length s + 1)) (argv_total cs)"

text \<open>
  \<open>str[--str_len] = 0\<close> and the loop; the result is the returned string.  With \<open>str_len\<close> zero the
  decrement wraps and the write is outside every object.
\<close>

definition argv_join_fill :: "argv_mem \<Rightarrow> cells \<Rightarrow> nat \<Rightarrow> nat \<Rightarrow> char \<Rightarrow> string option option" where
  "argv_join_fill m cs start str_len delimiter = (case char_alloc m str_len of None \<Rightarrow> Some None
     | Some str \<Rightarrow> do {
         str1 \<leftarrow> (if str_len = 0 then None else wrn str (str_len - 1) (CHR 0x00));
         str2 \<leftarrow> argv_fill cs delimiter 0 (str_len - 1) start 0 str1;
         map_option Some (cstring str2) })"

definition ocoms_argv_join :: "argv_mem \<Rightarrow> cells option \<Rightarrow> char \<Rightarrow> string option option" where
  "ocoms_argv_join m argv delimiter = (case argv of None \<Rightarrow> Some (strdup m '''')
     | Some cs \<Rightarrow> do {
         c0 \<leftarrow> rdn cs 0;
         if c0 = None then Some (strdup m '''')
         else do {
           str_len \<leftarrow> argv_total cs;
           argv_join_fill m cs 0 str_len delimiter } })"

text \<open>The total length of the strings at indices from \<open>i\<close> up to \<open>end\<close> or the terminator.\<close>

fun argv_range_total :: "cells \<Rightarrow> nat \<Rightarrow> nat \<Rightarrow> nat option" where
  "argv_range_total [] i end_idx = None"
| "argv_range_total (None # cs) i end_idx = Some 0"
| "argv_range_total (Some s # cs) i end_idx =
     (if i < end_idx then map_option (\<lambda>n. n + (length s + 1)) (argv_range_total cs (i + 1) end_idx) else Some 0)"

definition ocoms_argv_join_range ::
  "argv_mem \<Rightarrow> cells option \<Rightarrow> nat \<Rightarrow> nat \<Rightarrow> char \<Rightarrow> string option option" where
  "ocoms_argv_join_range m argv start end' delimiter = (case argv of None \<Rightarrow> Some (strdup m '''')
     | Some cs \<Rightarrow> do {
         c0 \<leftarrow> rdn cs 0;
         if c0 = None then Some (strdup m '''')
         else do {
           count \<leftarrow> ocoms_argv_count argv;
           if sint (word_of_nat start :: 32 word) > count then Some (strdup m '''')
           else do {
             assert_c (start \<le> length cs);
             str_len \<leftarrow> argv_range_total (drop start cs) start end';
             argv_join_fill m cs start str_len delimiter } } })"

section \<open>Length, copy, delete and insert\<close>

definition SIZEOF_PTR :: nat where "SIZEOF_PTR = 8"

fun argv_len_from :: "cells \<Rightarrow> nat option" where
  "argv_len_from [] = None"
| "argv_len_from (None # cs) = Some 0"
| "argv_len_from (Some s # cs) = map_option (\<lambda>n. n + (length s + 1 + SIZEOF_PTR)) (argv_len_from cs)"

definition ocoms_argv_len :: "cells option \<Rightarrow> nat option" where
  "ocoms_argv_len argv = (case argv of None \<Rightarrow> Some 0
     | Some cs \<Rightarrow> map_option (\<lambda>n. SIZEOF_PTR + n) (argv_len_from cs))"

fun argv_copy_loop :: "argv_mem \<Rightarrow> cells \<Rightarrow> int \<Rightarrow> cells option \<Rightarrow> cells option option" where
  "argv_copy_loop m [] dupc dupv = None"
| "argv_copy_loop m (None # cs) dupc dupv = Some dupv"
| "argv_copy_loop m (Some s # cs) dupc dupv = do {
     (rc, dupc', dupv') \<leftarrow> ocoms_argv_append m dupc dupv s;
     if rc \<noteq> OCOMS_SUCCESS then Some None else argv_copy_loop m cs dupc' dupv' }"

definition ocoms_argv_copy :: "argv_mem \<Rightarrow> cells option \<Rightarrow> cells option option" where
  "ocoms_argv_copy m argv = (case argv of None \<Rightarrow> Some None
     | Some cs \<Rightarrow> do {
         dupv \<leftarrow> cell_alloc m 1;
         dupv' \<leftarrow> wr dupv 0 None;
         argv_copy_loop m cs 0 (Some dupv') })"

text \<open>The loop that moves \<open>n\<close> cells from \<open>i + d\<close> on to \<open>i\<close> on.\<close>

fun argv_pull :: "nat \<Rightarrow> nat \<Rightarrow> nat \<Rightarrow> cells \<Rightarrow> cells option" where
  "argv_pull i d 0 cs = Some cs"
| "argv_pull i d (Suc n) cs = do { c \<leftarrow> rdn cs (i + d); cs' \<leftarrow> wrn cs i c; argv_pull (i + 1) d n cs' }"

text \<open>
  \<open>argv\<close> is the value of \<open>*argv\<close>; a null \<open>argv\<close> itself behaves like a null \<open>*argv\<close>.  A failed
  \<open>realloc\<close> keeps the old block.
\<close>

definition ocoms_argv_delete ::
  "argv_mem \<Rightarrow> int \<Rightarrow> cells option \<Rightarrow> int \<Rightarrow> int \<Rightarrow> (int \<times> int \<times> cells option) option" where
  "ocoms_argv_delete m argc argv start num_to_delete = (case argv of
     None \<Rightarrow> Some (OCOMS_SUCCESS, argc, argv)
   | Some cs \<Rightarrow>
     if num_to_delete = 0 then Some (OCOMS_SUCCESS, argc, argv)
     else do {
       count \<leftarrow> ocoms_argv_count argv;
       if start > count then Some (OCOMS_SUCCESS, argc, argv)
       else if start < 0 \<or> num_to_delete < 0 then Some (OCOMS_ERR_BAD_PARAM, argc, argv)
       else do {
         stop \<leftarrow> chk (start + num_to_delete);
         rest \<leftarrow> chk (count - stop);
         let suffix_count = (if rest < 0 then 0 else rest);
         cs1 \<leftarrow> argv_pull (nat start) (nat num_to_delete) (nat suffix_count) cs;
         let i = start + suffix_count;
         cs2 \<leftarrow> wr cs1 i None;
         let cs3 = (case realloc (cell_alloc m) (Some cs2) (nat (i + 1)) of Some tmp \<Rightarrow> tmp | None \<Rightarrow> cs2);
         argc' \<leftarrow> chk (argc - num_to_delete);
         Some (OCOMS_SUCCESS, argc', Some cs3) } })"

text \<open>The loop that moves \<open>n\<close> cells from \<open>i\<close> on to \<open>i + d\<close> on, from the last to the first.\<close>

fun argv_push :: "nat \<Rightarrow> nat \<Rightarrow> nat \<Rightarrow> cells \<Rightarrow> cells option" where
  "argv_push i d 0 cs = Some cs"
| "argv_push i d (Suc n) cs = do { c \<leftarrow> rdn cs (i + n); cs' \<leftarrow> wrn cs (i + d + n) c; argv_push i d n cs' }"

text \<open>The loop that copies the first \<open>n\<close> strings of the source to index \<open>i\<close> on.\<close>

fun argv_dup_into :: "argv_mem \<Rightarrow> cells \<Rightarrow> nat \<Rightarrow> nat \<Rightarrow> cells \<Rightarrow> cells option" where
  "argv_dup_into m source i 0 cs = Some cs"
| "argv_dup_into m [] i (Suc n) cs = None"
| "argv_dup_into m (c # source) i (Suc n) cs = do {
     s \<leftarrow> c; cs' \<leftarrow> wrn cs i (strdup m s); argv_dup_into m source (i + 1) n cs' }"

text \<open>Appending the source's strings one by one; the code ignores the return codes.\<close>

fun argv_append_all :: "argv_mem \<Rightarrow> cells \<Rightarrow> nat \<Rightarrow> int \<Rightarrow> cells option \<Rightarrow> cells option option" where
  "argv_append_all m source 0 argc argv = Some argv"
| "argv_append_all m [] (Suc n) argc argv = None"
| "argv_append_all m (c # source) (Suc n) argc argv = do {
     s \<leftarrow> c; (rc, argc', argv') \<leftarrow> ocoms_argv_append m argc argv s; argv_append_all m source n argc' argv' }"

definition ocoms_argv_insert ::
  "argv_mem \<Rightarrow> cells option \<Rightarrow> int \<Rightarrow> cells option \<Rightarrow> (int \<times> cells option) option" where
  "ocoms_argv_insert m target start source = (case target of
     None \<Rightarrow> Some (OCOMS_ERR_BAD_PARAM, target)
   | Some tcs \<Rightarrow>
     if start < 0 then Some (OCOMS_ERR_BAD_PARAM, target)
     else case source of None \<Rightarrow> Some (OCOMS_SUCCESS, target)
     | Some scs \<Rightarrow> do {
         target_count \<leftarrow> ocoms_argv_count target;
         source_count \<leftarrow> ocoms_argv_count source;
         if start > target_count then do {
           target' \<leftarrow> argv_append_all m scs (nat source_count) target_count target;
           Some (OCOMS_SUCCESS, target') }
         else do {
           total \<leftarrow> chk (target_count + source_count);
           total1 \<leftarrow> chk (total + 1);
           cs0 \<leftarrow> realloc (cell_alloc m) (Some tcs) (nat total1);
           let suffix_count = target_count - start;
           cs1 \<leftarrow> argv_push (nat start) (nat source_count) (nat suffix_count) cs0;
           cs2 \<leftarrow> wr cs1 (start + suffix_count + source_count) None;
           cs3 \<leftarrow> argv_dup_into m scs (nat start) (nat source_count) cs2;
           Some (OCOMS_SUCCESS, Some cs3) } })"

definition ocoms_argv_insert_element ::
  "argv_mem \<Rightarrow> cells option \<Rightarrow> int \<Rightarrow> string option \<Rightarrow> (int \<times> cells option) option" where
  "ocoms_argv_insert_element m target location source = (case target of
     None \<Rightarrow> Some (OCOMS_ERR_BAD_PARAM, target)
   | Some tcs \<Rightarrow>
     if location < 0 then Some (OCOMS_ERR_BAD_PARAM, target)
     else case source of None \<Rightarrow> Some (OCOMS_SUCCESS, target)
     | Some s \<Rightarrow> do {
         target_count \<leftarrow> ocoms_argv_count target;
         if location > target_count then do {
           (rc, argc', target') \<leftarrow> ocoms_argv_append m target_count target s;
           Some (OCOMS_SUCCESS, target') }
         else do {
           total \<leftarrow> chk (target_count + 2);
           cs0 \<leftarrow> realloc (cell_alloc m) (Some tcs) (nat total);
           let suffix_count = target_count - location;
           cs1 \<leftarrow> argv_push (nat location) 1 (nat suffix_count) cs0;
           cs2 \<leftarrow> wr cs1 (location + suffix_count + 1) None;
           cs3 \<leftarrow> wr cs2 location (strdup m s);
           Some (OCOMS_SUCCESS, Some cs3) } })"

section \<open>What a vector represents\<close>

definition represents :: "cells \<Rightarrow> string list \<Rightarrow> bool" where
  "represents cs xs \<longleftrightarrow> length xs < length cs \<and> (\<forall>i < length xs. cs ! i = Some (xs ! i)) \<and> cs ! length xs = None"

fun argv_rep :: "cells option \<Rightarrow> string list \<Rightarrow> bool" where
  "argv_rep None xs = (xs = [])"
| "argv_rep (Some cs) xs = represents cs xs"

text \<open>An allocator whose blocks have the size asked for; one that never fails.\<close>

definition argv_mem_ok :: "argv_mem \<Rightarrow> bool" where
  "argv_mem_ok m \<longleftrightarrow> malloc_ok (cell_alloc m) \<and> malloc_ok (char_alloc m)"

definition argv_mem_total :: "argv_mem \<Rightarrow> bool" where
  "argv_mem_total m \<longleftrightarrow> (\<forall>n. cell_alloc m n \<noteq> None) \<and> (\<forall>n. char_alloc m n \<noteq> None)"

lemma represents_nil: "represents cs [] \<longleftrightarrow> cs \<noteq> [] \<and> cs ! 0 = None"
  by (auto simp: represents_def)

lemma represents_cons: "represents (c # cs) (x # xs) \<longleftrightarrow> c = Some x \<and> represents cs xs"
  by (auto simp: represents_def All_less_Suc2)

lemma represents_hd: "represents cs xs \<Longrightarrow> cs \<noteq> []"
  by (auto simp: represents_def)

lemma represents_scan: "represents cs xs \<Longrightarrow> argv_scan cs = Some (length xs)"
proof (induction xs arbitrary: cs)
  case Nil
  then show ?case by (cases cs) (auto simp: represents_def)
next
  case (Cons x xs)
  then show ?case by (cases cs) (auto simp: represents_cons, auto simp: represents_def)
qed

lemma argv_count_ok:
  "argv_rep argv xs \<Longrightarrow> int (length xs) \<le> INT_MAX \<Longrightarrow> ocoms_argv_count argv = Some (int (length xs))"
  by (cases argv) (simp_all add: ocoms_argv_count_def represents_scan INT_MIN_def)

lemma realloc_total: "argv_mem_total m \<Longrightarrow> \<exists>ys. realloc (cell_alloc m) old n = Some ys"
  by (auto simp: realloc_def argv_mem_total_def)

lemma realloc_nth:
  assumes "malloc_ok a" and "realloc a (Some xs) n = Some ys"
  shows "length ys = n \<and> (\<forall>i < n. i < length xs \<longrightarrow> ys ! i = xs ! i)"
proof -
  obtain fresh where f: "a n = Some fresh" "ys = take n xs @ drop (length xs) fresh"
    using assms(2) by (auto simp: realloc_def)
  with assms(1) have "length fresh = n" by (simp add: malloc_okD)
  with f(2) show ?thesis by (auto simp: nth_append)
qed

lemma strdup_cases: "strdup m s = None \<or> strdup m s = Some s"
  by (simp add: strdup_def)

lemma strdup_total [simp]: "argv_mem_total m \<Longrightarrow> strdup m s = Some s"
  by (auto simp: strdup_def argv_mem_total_def)

section \<open>Appending\<close>

lemma append_at_end:
  assumes "length cs = length xs + 2" and "\<forall>i < length xs. cs ! i = Some (xs ! i)" and "int (length xs) + 2 \<le> INT_MAX"
  shows "\<exists>rc cs'. (do {
         cs1 \<leftarrow> wr cs (int (length xs)) (strdup m arg);
         if strdup m arg = None then Some (OCOMS_ERR_OUT_OF_RESOURCE, Some cs1)
         else do { cs2 \<leftarrow> wr cs1 (int (length xs) + 1) None; Some (OCOMS_SUCCESS, Some cs2) } }) = Some (rc, Some cs') \<and>
     (rc = OCOMS_SUCCESS \<longrightarrow> represents cs' (xs @ [arg])) \<and> (argv_mem_total m \<longrightarrow> rc = OCOMS_SUCCESS) \<and>
     (rc = OCOMS_SUCCESS \<or> rc = OCOMS_ERR_OUT_OF_RESOURCE)"
proof (cases "strdup m arg = None")
  case True
  then show ?thesis using assms by (auto simp: c_simps)
next
  case False
  then have "strdup m arg = Some arg" by (auto simp: strdup_def split: if_splits)
  moreover have "nat (int (length xs) + 1) = length xs + 1" by simp
  ultimately show ?thesis using assms
    by (auto simp: c_simps represents_def nth_append nth_list_update)
qed

lemma append_nosize_ok:
  assumes "argv_rep argv xs" and "argv_mem_ok m" and "int (length xs) + 2 \<le> INT_MAX"
  shows "\<exists>rc argv'. ocoms_argv_append_nosize m argv arg = Some (rc, argv') \<and>
     (rc = OCOMS_SUCCESS \<longrightarrow> (\<exists>cs. argv' = Some cs \<and> represents cs (xs @ [arg]))) \<and>
     (argv_mem_total m \<longrightarrow> rc = OCOMS_SUCCESS) \<and> (rc = OCOMS_SUCCESS \<or> rc = OCOMS_ERR_OUT_OF_RESOURCE)"
proof (cases argv)
  case None
  then have xs: "xs = []" using assms(1) by simp
  show ?thesis
  proof (cases "cell_alloc m 2")
    case a: None
    then show ?thesis using None by (auto simp: ocoms_argv_append_nosize_def argv_mem_total_def)
  next
    case a: (Some cs)
    then have len: "length cs = 2" using assms(2) unfolding argv_mem_ok_def by (blast dest: malloc_okD)
    from append_at_end [of "cs[0 := None, 1 := None]" xs m arg] len xs assms(3) a None show ?thesis
      by (auto simp: ocoms_argv_append_nosize_def c_simps)
  qed
next
  case (Some cs)
  have count: "ocoms_argv_count argv = Some (int (length xs))"
    using assms by (intro argv_count_ok) auto
  have n: "chk (int (length xs) + 2) = Some (int (length xs) + 2)" using assms(3) by (simp add: INT_MIN_def)
  have nat: "nat (int (length xs) + 2) = length xs + 2" by simp
  show ?thesis
  proof (cases "realloc (cell_alloc m) (Some cs) (length xs + 2)")
    case r: None
    then have "\<not> argv_mem_total m" using realloc_total [of m "Some cs" "length xs + 2"] by auto
    with r Some count n nat show ?thesis by (auto simp: ocoms_argv_append_nosize_def)
  next
    case r: (Some cs')
    have "malloc_ok (cell_alloc m)" using assms(2) by (simp add: argv_mem_ok_def)
    from realloc_nth [OF this r] assms(1) Some
    have "length cs' = length xs + 2" "\<forall>i < length xs. cs' ! i = Some (xs ! i)"
      by (auto simp: represents_def)
    from append_at_end [OF this assms(3), of m arg] r Some count n nat show ?thesis
      by (auto simp: ocoms_argv_append_nosize_def)
  qed
qed

lemma append_ok:
  assumes "argv_rep argv xs" and "argv_mem_ok m" and "int (length xs) + 2 \<le> INT_MAX"
  shows "\<exists>rc argc' argv'. ocoms_argv_append m argc argv arg = Some (rc, argc', argv') \<and>
     (rc = OCOMS_SUCCESS \<longrightarrow> argv_rep argv' (xs @ [arg]) \<and> argv' \<noteq> None \<and> argc' = int (length xs) + 1) \<and>
     (argv_mem_total m \<longrightarrow> rc = OCOMS_SUCCESS) \<and> (rc = OCOMS_SUCCESS \<or> rc = OCOMS_ERR_OUT_OF_RESOURCE)"
proof -
  from append_nosize_ok [OF assms, of arg] obtain rc argv' where A:
    "ocoms_argv_append_nosize m argv arg = Some (rc, argv')"
    "rc = OCOMS_SUCCESS \<Longrightarrow> \<exists>cs. argv' = Some cs \<and> represents cs (xs @ [arg])"
    "argv_mem_total m \<longrightarrow> rc = OCOMS_SUCCESS" "rc = OCOMS_SUCCESS \<or> rc = OCOMS_ERR_OUT_OF_RESOURCE" by blast
  show ?thesis
  proof (cases "rc = OCOMS_SUCCESS")
    case False
    then show ?thesis using A by (auto simp: ocoms_argv_append_def)
  next
    case True
    with A(2) obtain cs where cs: "argv' = Some cs" "represents cs (xs @ [arg])" by blast
    then have "ocoms_argv_count argv' = Some (int (length xs) + 1)"
      using argv_count_ok [of argv' "xs @ [arg]"] assms(3) by simp
    with A True cs show ?thesis by (simp add: ocoms_argv_append_def)
  qed
qed

section \<open>Splitting\<close>

text \<open>The fields of a string between delimiters, empty ones included.\<close>

fun fields :: "char \<Rightarrow> string \<Rightarrow> string list" where
  "fields d [] = [[]]"
| "fields d (c # s) = (if c = d then [] # fields d s else (c # hd (fields d s)) # tl (fields d s))"

text \<open>
  What the split functions return: the fields that are not empty, or all of them except an empty
  one after the last delimiter.
\<close>

definition tokens :: "bool \<Rightarrow> char \<Rightarrow> string \<Rightarrow> string list" where
  "tokens include_empty d s =
     (if include_empty then (if last (fields d s) = [] then butlast (fields d s) else fields d s)
      else filter (\<lambda>x. x \<noteq> []) (fields d s))"

lemma fields_neq [simp]: "fields d s \<noteq> []"
  by (cases s) auto

lemma fields_single: "d \<notin> set a \<Longrightarrow> fields d a = [a]"
  by (induction a) auto

lemma fields_append: "d \<notin> set a \<Longrightarrow> fields d (a @ d # s) = a # fields d s"
  by (induction a) auto

lemma length_fields: "length (fields d s) \<le> Suc (length s)"
  by (induction s) (simp_all add: le_SucI Suc_leI)

lemma tokens_nil [simp]: "tokens e d [] = []"
  by (simp add: tokens_def)

lemma tokens_single: "d \<notin> set a \<Longrightarrow> a \<noteq> [] \<Longrightarrow> tokens e d a = [a]"
  by (simp add: tokens_def fields_single)

lemma tokens_append:
  "d \<notin> set a \<Longrightarrow> tokens e d (a @ d # s) = (if a = [] \<and> \<not> e then [] else [a]) @ tokens e d s"
  by (simp add: tokens_def fields_append)

lemma token_split:
  fixes src :: string and d :: char
  defines "a \<equiv> takeWhile (\<lambda>c. c \<noteq> d) src" and "p \<equiv> dropWhile (\<lambda>c. c \<noteq> d) src"
  shows "d \<notin> set a" and "p \<noteq> [] \<Longrightarrow> src = a @ d # drop 1 p" and "p = [] \<Longrightarrow> src = a"
proof -
  show "d \<notin> set a" unfolding a_def by (auto dest: set_takeWhileD)
  have eq: "src = a @ p" by (simp add: a_def p_def)
  show "p = [] \<Longrightarrow> src = a" using eq by simp
  assume "p \<noteq> []"
  then have "hd p = d" unfolding p_def using hd_dropWhile [of "\<lambda>c. c \<noteq> d" src] by simp
  with \<open>p \<noteq> []\<close> eq show "src = a @ d # drop 1 p" by (cases p) auto
qed

lemma tokens_step:
  assumes "dropWhile (\<lambda>c. c \<noteq> d) src \<noteq> []"
  shows "tokens e d src = (if takeWhile (\<lambda>c. c \<noteq> d) src = [] \<and> \<not> e then [] else [takeWhile (\<lambda>c. c \<noteq> d) src])
     @ tokens e d (drop 1 (dropWhile (\<lambda>c. c \<noteq> d) src))"
  by (subst token_split(2) [OF assms], rule tokens_append, rule token_split(1))

lemma split_append_step:
  assumes "argv_rep argv xs" and "argv_mem_ok m" and "int (length xs) + 2 \<le> INT_MAX"
    and rest: "\<And>argc' argv'. argv_rep argv' (xs @ [arg]) \<Longrightarrow> \<exists>r. loop argc' argv' = Some r \<and>
       (r \<noteq> None \<or> argv_mem_total m \<longrightarrow> argv_rep r (xs @ [arg] @ ys))"
  shows "\<exists>r. (do { (rc, argc', argv') \<leftarrow> ocoms_argv_append m argc argv arg;
       if rc \<noteq> OCOMS_SUCCESS then Some None else loop argc' argv' }) = Some r \<and>
     (r \<noteq> None \<or> argv_mem_total m \<longrightarrow> argv_rep r (xs @ [arg] @ ys))"
proof -
  from append_ok [OF assms(1-3), of argc arg] obtain rc argc' argv' where A:
    "ocoms_argv_append m argc argv arg = Some (rc, argc', argv')"
    "rc = OCOMS_SUCCESS \<Longrightarrow> argv_rep argv' (xs @ [arg])" "argv_mem_total m \<Longrightarrow> rc = OCOMS_SUCCESS" by blast
  show ?thesis
  proof (cases "rc = OCOMS_SUCCESS")
    case False
    with A show ?thesis by auto
  next
    case True
    with A rest [OF A(2) [OF True], of argc'] show ?thesis by auto
  qed
qed

lemma split_loop_ok:
  assumes "argv_mem_ok m" and "argv_rep argv xs" and "int (length xs) + int (length src) + 2 \<le> INT_MAX"
  shows "\<exists>r. argv_split_loop m d e src argc argv = Some r \<and>
     (r \<noteq> None \<or> argv_mem_total m \<longrightarrow> argv_rep r (xs @ tokens e d src))"
  using assms(2,3)
proof (induction "length src" arbitrary: src argc argv xs rule: less_induct)
  case less
  let ?a = "takeWhile (\<lambda>c. c \<noteq> d) src" and ?p = "dropWhile (\<lambda>c. c \<noteq> d) src"
  show ?case
  proof (cases "src = []")
    case True
    then show ?thesis using less.prems by (simp add: argv_split_loop.simps)
  next
    case ne: False
    have room: "int (length xs) + 2 \<le> INT_MAX" using less.prems(2) by simp
    have shorter: "length (drop 1 ?p) < length src" using ne by simp
    have after: "\<exists>r. argv_split_loop m d e (drop 1 ?p) argc' argv' = Some r \<and>
        (r \<noteq> None \<or> argv_mem_total m \<longrightarrow> argv_rep r (xs @ [?a] @ tokens e d (drop 1 ?p)))"
      if "argv_rep argv' (xs @ [?a])" for argc' argv'
      using less.hyps [OF shorter that, of argc'] shorter less.prems(2) by simp
    from split_append_step [where loop = "argv_split_loop m d e (drop 1 ?p)" and argc = argc
        and ys = "tokens e d (drop 1 ?p)", OF less.prems(1) assms(1) room after] obtain r where
      r: "(do { (rc, argc', argv') \<leftarrow> ocoms_argv_append m argc argv ?a;
           if rc \<noteq> OCOMS_SUCCESS then Some None else argv_split_loop m d e (drop 1 ?p) argc' argv' }) = Some r"
        "r \<noteq> None \<or> argv_mem_total m \<longrightarrow> argv_rep r (xs @ [?a] @ tokens e d (drop 1 ?p))" by blast
    show ?thesis
    proof (cases "?p = []")
      case True
      then have a: "?a = src" using token_split(3) [of d src] by simp
      then have tok: "tokens e d src = [src]" using ne token_split(1) [of d src] by (intro tokens_single) (simp_all only: a not_False_eq_True)
      have nil: "\<exists>r. argv_split_loop m d e [] argc' argv' = Some r \<and>
          (r \<noteq> None \<or> argv_mem_total m \<longrightarrow> argv_rep r (xs @ [src] @ []))"
        if "argv_rep argv' (xs @ [src])" for argc' argv'
        using that by (simp add: argv_split_loop.simps)
      from split_append_step [where loop = "argv_split_loop m d e []" and ys = "[]" and argc = argc,
          OF less.prems(1) assms(1) room nil] obtain r where
        r: "(do { (rc, argc', argv') \<leftarrow> ocoms_argv_append m argc argv src;
             if rc \<noteq> OCOMS_SUCCESS then Some None else argv_split_loop m d e [] argc' argv' }) = Some r"
          "r \<noteq> None \<or> argv_mem_total m \<longrightarrow> argv_rep r (xs @ [src] @ [])" by blast
      have "argv_split_loop m d e src argc argv = Some r"
        unfolding r(1) [symmetric] by (subst argv_split_loop.simps) (simp only: Let_def a True ne if_False if_True simp_thms)
      with r(2) show ?thesis by (simp add: tok)
    next
      case False
      note step = tokens_step [OF False, of e]
      consider "?a = []" "e" | "?a = []" "\<not> e" | "?a \<noteq> []" "length ?a > ARGSIZE - 1"
        | "?a \<noteq> []" "\<not> length ?a > ARGSIZE - 1" by blast
      then show ?thesis
      proof cases
        case 1
        have "argv_split_loop m d e src argc argv = Some r"
          unfolding r(1) [symmetric] by (subst argv_split_loop.simps) (simp only: Let_def 1 ne if_False if_True simp_thms)
        with r(2) 1 step show ?thesis by (simp del: drop_Suc)
      next
        case 2
        have "int (length xs) + int (length (drop 1 ?p)) + 2 \<le> INT_MAX" using shorter less.prems(2) by linarith
        from less.hyps [OF shorter less.prems(1) this, of argc] 2 ne False show ?thesis
          unfolding argv_split_loop.simps [of m d e src] step by (simp add: Let_def)
      next
        case 3
        show ?thesis
        proof (cases "char_alloc m (length ?a + 1)")
          case None
          then have "\<not> argv_mem_total m" by (auto simp: argv_mem_total_def)
          with None 3 ne False show ?thesis
            unfolding argv_split_loop.simps [of m d e src] by (auto simp: Let_def)
        next
          case (Some b)
          have "argv_split_loop m d e src argc argv = Some r"
            unfolding r(1) [symmetric]
            by (subst argv_split_loop.simps) (simp only: Let_def 3 False ne Some option.case if_False if_True simp_thms)
          with r(2) 3 step show ?thesis by simp
        qed
      next
        case 4
        then have "length ?a < ARGSIZE" by (simp add: ARGSIZE_def)
        then have "argv_split_loop m d e src argc argv = Some r"
          unfolding r(1) [symmetric]
          by (subst argv_split_loop.simps)
             (simp only: Let_def 4 False ne assert_c_True bind.bind_lunit if_False if_True simp_thms)
        with r(2) 4 step show ?thesis by simp
      qed
    qed
  qed
qed

lemma split_inter_ok:
  assumes "argv_mem_ok m" and "int (length s) + 2 \<le> INT_MAX"
  shows "\<exists>r. ocoms_argv_split_inter m (Some s) d e = Some r \<and>
     (r \<noteq> None \<or> argv_mem_total m \<longrightarrow> argv_rep r (tokens e d s))"
  using split_loop_ok [OF assms(1), of None "[]" s d e 0] assms(2)
  by (simp add: ocoms_argv_split_inter_def)

section \<open>Joining\<close>

text \<open>The strings with the delimiter between them.\<close>

fun join_with :: "char \<Rightarrow> string list \<Rightarrow> string" where
  "join_with d [] = []"
| "join_with d (x # xs) = x @ concat (map (\<lambda>t. d # t) xs)"

definition no_nul :: "string \<Rightarrow> bool" where
  "no_nul s \<longleftrightarrow> CHR 0x00 \<notin> set s"

lemma length_join: "length (join_with d (x # xs)) + 1 = (\<Sum>t \<leftarrow> x # xs. length t + 1)"
  by (induction xs arbitrary: x) auto

lemma total_ok: "represents cs xs \<Longrightarrow> argv_total cs = Some (\<Sum>t \<leftarrow> xs. length t + 1)"
proof (induction xs arbitrary: cs)
  case Nil
  then show ?case by (cases cs) (auto simp: represents_nil)
next
  case (Cons x xs)
  then show ?case by (cases cs) (auto simp: represents_cons, auto simp: represents_def)
qed

lemma range_total_ok:
  "represents cs xs \<Longrightarrow> argv_range_total cs i e = Some (\<Sum>t \<leftarrow> take (e - i) xs. length t + 1)"
proof (induction xs arbitrary: cs i)
  case Nil
  then show ?case by (cases cs) (auto simp: represents_nil)
next
  case (Cons x xs)
  then obtain cs' where cs: "cs = Some x # cs'" "represents cs' xs"
    by (cases cs) (auto simp: represents_cons, auto simp: represents_def)
  show ?case
  proof (cases "i < e")
    case True
    then have "e - i = Suc (e - (i + 1))" by simp
    with Cons.IH [OF cs(2), of "i + 1"] True cs(1) show ?thesis by simp
  qed (use cs in simp)
qed

lemma represents_drop: "represents cs xs \<Longrightarrow> n \<le> length xs \<Longrightarrow> represents (drop n cs) (drop n xs)"
  by (auto simp: represents_def)

lemma argv_fill_ok:
  assumes "represents cs xs" and "\<forall>x \<in> set xs. no_nul x" and "p < length xs" and "pp \<le> length (xs ! p)"
    and "n = length (drop pp (xs ! p) @ concat (map (\<lambda>t. d # t) (take k (drop (Suc p) xs))))"
    and "i + n \<le> length str"
  shows "argv_fill cs d i n p pp str = Some (take i str @ drop pp (xs ! p) @
     concat (map (\<lambda>t. d # t) (take k (drop (Suc p) xs))) @ drop (i + n) str)"
  using assms(3-)
proof (induction n arbitrary: i p pp str k)
  case 0
  then have pp: "pp = length (xs ! p)"
    and e: "concat (map (\<lambda>t. d # t) (take k (drop (Suc p) xs))) = []" unfolding length_0_conv [symmetric] length_append by (simp_all del: length_0_conv)
  show ?case unfolding argv_fill.simps e using pp by simp
next
  case (Suc n)
  have cell: "rdn cs p = Some (Some (xs ! p))" using assms(1) Suc.prems(1) by (simp add: represents_def)
  have i: "i < length str" using Suc.prems(4) by simp
  show ?case
  proof (cases "pp < length (xs ! p)")
    case True
    let ?c = "xs ! p ! pp"
    have "?c \<noteq> CHR 0x00" using assms(2) Suc.prems(1) True unfolding no_nul_def by (metis nth_mem)
    then have "argv_fill cs d i (Suc n) p pp str = argv_fill cs d (i + 1) n p (pp + 1) (str[i := ?c])"
      using cell i True by (simp add: cchar_def)
    also have "\<dots> = Some (take (i + 1) (str[i := ?c]) @ drop (pp + 1) (xs ! p) @
        concat (map (\<lambda>t. d # t) (take k (drop (Suc p) xs))) @ drop (i + 1 + n) (str[i := ?c]))"
      using Suc.prems True by (intro Suc.IH) auto
    also have "take (i + 1) (str[i := ?c]) = take i str @ [?c]" using i by (simp add: take_Suc_conv_app_nth)
    finally show ?thesis using True by (simp flip: Cons_nth_drop_Suc)
  next
    case False
    then have pp: "pp = length (xs ! p)" using Suc.prems(2) by simp
    with Suc.prems(3) obtain t ts where t: "take k (drop (Suc p) xs) = t # ts"
      by (cases "take k (drop (Suc p) xs)") auto
    then have sp: "Suc p < length xs" by (metis drop_eq_Nil list.distinct(1) not_le take_Nil)
    obtain k' where k: "k = Suc k'" using t by (cases k) auto
    have d: "drop (Suc p) xs = xs ! Suc p # drop (Suc (Suc p)) xs" using sp by (simp add: Cons_nth_drop_Suc)
    have tt: "t = xs ! Suc p" "ts = take k' (drop (Suc (Suc p)) xs)" using t unfolding d k by simp_all
    have "rdn cs (p + 1) = Some (cs ! (p + 1))" using assms(1) sp by (simp add: represents_def)
    then have "argv_fill cs d i (Suc n) p pp str = argv_fill cs d (i + 1) n (p + 1) 0 (str[i := d])"
      using cell i pp by (simp add: cchar_def)
    also have "\<dots> = Some (take (i + 1) (str[i := d]) @ drop 0 (xs ! (p + 1)) @
        concat (map (\<lambda>t. d # t) (take k' (drop (Suc (p + 1)) xs))) @ drop (i + 1 + n) (str[i := d]))"
      using Suc.prems sp pp t tt by (intro Suc.IH) auto
    also have "take (i + 1) (str[i := d]) = take i str @ [d]" using i by (simp add: take_Suc_conv_app_nth)
    finally show ?thesis using pp t tt by simp
  qed
qed

lemma cstring_ok: "no_nul s \<Longrightarrow> cstring (s @ CHR 0x00 # rest) = Some s"
proof -
  assume "no_nul s"
  then have "x \<in> set s \<Longrightarrow> x \<noteq> CHR 0x00" for x by (auto simp: no_nul_def)
  then show ?thesis by (simp add: cstring_def takeWhile_append2)
qed

lemma join_fill_ok:
  assumes m: "argv_mem_ok m" and rep: "represents cs xs" and nn: "\<forall>x \<in> set xs. no_nul x" and d: "d \<noteq> CHR 0x00"
    and start: "start < length xs" and seg: "ys = take (Suc k) (drop start xs)"
    and len: "str_len = (\<Sum>t \<leftarrow> ys. length t + 1)"
  shows "argv_join_fill m cs start str_len d =
     Some (if char_alloc m str_len = None then None else Some (join_with d ys))"
proof (cases "char_alloc m str_len")
  case None
  then show ?thesis by (simp add: argv_join_fill_def)
next
  case (Some str)
  then have ls: "length str = str_len" using m unfolding argv_mem_ok_def by (blast dest: malloc_okD)
  have ys: "ys = xs ! start # take k (drop (Suc start) xs)"
    unfolding seg using start by (simp flip: Cons_nth_drop_Suc)
  let ?out = "join_with d ys"
  have out: "?out = drop 0 (xs ! start) @ concat (map (\<lambda>t. d # t) (take k (drop (Suc start) xs)))"
    unfolding ys by simp
  have n: "str_len = length ?out + 1" unfolding len ys by (rule length_join [symmetric])
  let ?str = "str[str_len - 1 := CHR 0x00]"
  have fill: "argv_fill cs d 0 (str_len - 1) start 0 ?str = Some (?out @ drop (str_len - 1) ?str)"
    using argv_fill_ok [OF rep nn start, of 0 "str_len - 1" d k 0 ?str] n ls by (simp add: out)
  have "drop (str_len - 1) ?str = [CHR 0x00]"
    using n ls by (intro nth_equalityI) simp_all
  moreover have "\<forall>t \<in> set ys. no_nul t" using nn unfolding seg by (meson in_set_dropD in_set_takeD)
  then have "no_nul ?out" using d unfolding ys by (auto simp: no_nul_def)
  ultimately show ?thesis using Some fill n ls by (simp add: argv_join_fill_def cstring_ok)
qed

lemma join_ok:
  assumes "argv_mem_ok m" and "represents cs xs" and "\<forall>x \<in> set xs. no_nul x" and "d \<noteq> CHR 0x00"
  shows "ocoms_argv_join m (Some cs) d =
     Some (if char_alloc m (length (join_with d xs) + 1) = None then None else Some (join_with d xs))"
proof (cases xs)
  case Nil
  then show ?thesis using assms(2) by (auto simp: ocoms_argv_join_def represents_nil strdup_def)
next
  case (Cons x xs')
  then have "rdn cs 0 = Some (Some x)" using assms(2)
    by (cases cs) (auto simp: represents_cons, auto simp: represents_def)
  moreover have "argv_join_fill m cs 0 (\<Sum>t \<leftarrow> xs. length t + 1) d =
      Some (if char_alloc m (\<Sum>t \<leftarrow> xs. length t + 1) = None then None else Some (join_with d xs))"
    using Cons by (intro join_fill_ok [OF assms, where k = "length xs'"]) simp_all
  moreover have "(\<Sum>t \<leftarrow> xs. length t + 1) = length (join_with d xs) + 1"
    unfolding Cons by (rule length_join [symmetric])
  ultimately show ?thesis using total_ok [OF assms(2)] by (simp add: ocoms_argv_join_def)
qed

lemma fields_join:
  "xs \<noteq> [] \<Longrightarrow> \<forall>x \<in> set xs. d \<notin> set x \<Longrightarrow> fields d (join_with d xs) = xs"
proof (induction xs)
  case (Cons x xs)
  show ?case
  proof (cases xs)
    case Nil
    with Cons.prems show ?thesis by (simp add: fields_single)
  next
    case (Cons y ys)
    then have "fields d (join_with d (x # xs)) = fields d (x @ d # join_with d xs)" by simp
    also have "\<dots> = x # fields d (join_with d xs)" using Cons.prems by (intro fields_append) simp
    finally show ?thesis using Cons.IH Cons.prems Cons by simp
  qed
qed simp

lemma tokens_join:
  assumes "\<forall>x \<in> set xs. d \<notin> set x \<and> x \<noteq> []"
  shows "tokens e d (join_with d xs) = xs"
proof (cases "xs = []")
  case False
  then have "fields d (join_with d xs) = xs" using assms by (intro fields_join) auto
  moreover have "last xs \<noteq> []" using assms False by auto
  moreover have "filter (\<lambda>x. x \<noteq> []) xs = xs" using assms by (simp add: filter_id_conv)
  ultimately show ?thesis by (simp add: tokens_def)
qed simp

section \<open>Moving cells\<close>

lemma wr_int: "n < length xs \<Longrightarrow> wr xs (int n) x = Some (xs[n := x])"
  by (simp add: wr_def)

lemma argv_push_ok:
  assumes "i + d + n \<le> length cs"
  shows "\<exists>cs'. argv_push i d n cs = Some cs' \<and> length cs' = length cs \<and>
     (\<forall>x < length cs. cs' ! x = (if i + d \<le> x \<and> x < i + d + n then cs ! (x - d) else cs ! x))"
  using assms
proof (induction n arbitrary: cs)
  case 0
  then show ?case by auto
next
  case (Suc n)
  let ?cs = "cs[i + d + n := cs ! (i + n)]"
  from Suc.IH [of ?cs] Suc.prems obtain cs' where cs': "argv_push i d n ?cs = Some cs'" "length cs' = length cs"
    "\<forall>x < length cs. cs' ! x = (if i + d \<le> x \<and> x < i + d + n then ?cs ! (x - d) else ?cs ! x)" by auto
  have "cs' ! x = (if i + d \<le> x \<and> x < i + d + Suc n then cs ! (x - d) else cs ! x)" if "x < length cs" for x
    using cs'(3) that Suc.prems by (auto simp: nth_list_update)
  with cs' Suc.prems show ?case by simp
qed

lemma argv_pull_ok:
  assumes "i + d + n \<le> length cs"
  shows "\<exists>cs'. argv_pull i d n cs = Some cs' \<and> length cs' = length cs \<and>
     (\<forall>x < length cs. cs' ! x = (if i \<le> x \<and> x < i + n then cs ! (x + d) else cs ! x))"
  using assms
proof (induction n arbitrary: i cs)
  case 0
  then show ?case by auto
next
  case (Suc n)
  let ?cs = "cs[i := cs ! (i + d)]"
  from Suc.IH [of "i + 1" ?cs] Suc.prems obtain cs' where cs': "argv_pull (i + 1) d n ?cs = Some cs'"
    "length cs' = length cs"
    "\<forall>x < length cs. cs' ! x = (if i + 1 \<le> x \<and> x < i + 1 + n then ?cs ! (x + d) else ?cs ! x)" by auto
  have "cs' ! x = (if i \<le> x \<and> x < i + Suc n then cs ! (x + d) else cs ! x)" if "x < length cs" for x
    using cs'(3) that Suc.prems by (cases "x = i") (auto simp: nth_list_update)
  with cs' Suc.prems show ?case by simp
qed

lemma argv_shift_push: "argv_shift n cs = argv_push 0 1 n cs"
proof (induction n arbitrary: cs)
  case (Suc n)
  then have "argv_shift n = argv_push 0 1 n" by (simp add: fun_eq_iff)
  then show ?case by simp
qed simp

lemma argv_dup_into_ok:
  assumes "argv_mem_total m" and "represents source ys" and "i + length ys \<le> length cs"
  shows "\<exists>cs'. argv_dup_into m source i (length ys) cs = Some cs' \<and> length cs' = length cs \<and>
     (\<forall>x < length cs. cs' ! x = (if i \<le> x \<and> x < i + length ys then Some (ys ! (x - i)) else cs ! x))"
  using assms(2,3)
proof (induction ys arbitrary: i source cs)
  case Nil
  then show ?case by auto
next
  case (Cons y ys)
  then obtain source' where src: "source = Some y # source'" "represents source' ys"
    by (cases source) (auto simp: represents_cons, auto simp: represents_def)
  let ?cs = "cs[i := Some y]"
  from Cons.IH [OF src(2), of "i + 1" ?cs] Cons.prems obtain cs' where cs':
    "argv_dup_into m source' (i + 1) (length ys) ?cs = Some cs'" "length cs' = length cs"
    "\<forall>x < length cs. cs' ! x = (if i + 1 \<le> x \<and> x < i + 1 + length ys then Some (ys ! (x - (i + 1))) else ?cs ! x)"
    by auto
  have "cs' ! x = (if i \<le> x \<and> x < i + length (y # ys) then Some ((y # ys) ! (x - i)) else cs ! x)"
    if "x < length cs" for x
    using cs'(3) that Cons.prems by (cases "x = i") (auto simp: nth_list_update nth_Cons' Suc_diff_Suc)
  with cs' Cons.prems src assms(1) show ?case by simp
qed

lemma append_all_ok:
  assumes "argv_mem_total m" and "argv_mem_ok m" and "represents source ys" and "argv_rep argv xs"
    and "int (length xs) + int (length ys) + 2 \<le> INT_MAX"
  shows "\<exists>r. argv_append_all m source (length ys) argc argv = Some r \<and> argv_rep r (xs @ ys)"
  using assms(3-)
proof (induction ys arbitrary: source argc argv xs)
  case Nil
  then show ?case by simp
next
  case (Cons y ys)
  then obtain source' where src: "source = Some y # source'" "represents source' ys"
    by (cases source) (auto simp: represents_cons, auto simp: represents_def)
  have "int (length xs) + 2 \<le> INT_MAX" using Cons.prems(3) by simp
  from append_ok [OF Cons.prems(2) assms(2) this, of argc y] assms(1) obtain argc' argv' where
    A: "ocoms_argv_append m argc argv y = Some (OCOMS_SUCCESS, argc', argv')" "argv_rep argv' (xs @ [y])" by auto
  from Cons.IH [OF src(2) A(2), of argc'] Cons.prems(3) A(1) src(1) show ?case by auto
qed

section \<open>Prepend, append-unique, insert and delete\<close>

lemma representsI:
  assumes "length ys < length cs" and "\<And>i. i < length ys \<Longrightarrow> cs ! i = Some (ys ! i)" and "cs ! length ys = None"
  shows "represents cs ys"
  using assms by (simp add: represents_def)

lemma prepend_ok:
  assumes "argv_rep argv xs" and "argv_mem_ok m" and "argv_mem_total m" and "int (length xs) + 2 \<le> INT_MAX"
  shows "\<exists>cs. ocoms_argv_prepend_nosize m argv arg = Some (OCOMS_SUCCESS, Some cs) \<and> represents cs (arg # xs)"
proof (cases argv)
  case None
  then have xs: "xs = []" using assms(1) by simp
  from assms(3) obtain cs where a: "cell_alloc m 2 = Some cs" by (auto simp: argv_mem_total_def)
  then have "length cs = 2" using assms(2) unfolding argv_mem_ok_def by (blast dest: malloc_okD)
  with a None xs assms(3) show ?thesis
    by (auto simp: ocoms_argv_prepend_nosize_def c_simps represents_def)
next
  case (Some cs)
  have count: "ocoms_argv_count argv = Some (int (length xs))" using assms by (intro argv_count_ok) auto
  have n: "chk (int (length xs) + 2) = Some (int (length xs) + 2)" using assms(4) by (simp add: INT_MIN_def)
  have nat: "nat (int (length xs) + 2) = length xs + 2" "nat (int (length xs) + 1) = length xs + 1" by simp_all
  obtain c0 where r: "realloc (cell_alloc m) (Some cs) (length xs + 2) = Some c0" using realloc_total [OF assms(3)] by blast
  have "malloc_ok (cell_alloc m)" using assms(2) by (simp add: argv_mem_ok_def)
  from realloc_nth [OF this r] assms(1) Some
  have c0: "length c0 = length xs + 2" "\<forall>i < length xs. c0 ! i = Some (xs ! i)"
    by (auto simp: represents_def)
  let ?c1 = "c0[length xs + 1 := None]"
  from argv_push_ok [of 0 1 "length xs" ?c1] c0(1) obtain c2 where c2:
    "argv_shift (length xs) ?c1 = Some c2" "length c2 = length xs + 2"
    "\<forall>x < length xs + 2. c2 ! x = (if 1 \<le> x \<and> x < 1 + length xs then ?c1 ! (x - 1) else ?c1 ! x)"
    by (auto simp: argv_shift_push)
  have "represents (c2[0 := Some arg]) (arg # xs)"
  proof (rule representsI)
    fix i assume "i < length (arg # xs)"
    then show "c2[0 := Some arg] ! i = Some ((arg # xs) ! i)"
      using c2 c0 by (cases i) (simp_all add: nth_list_update)
  qed (use c2 c0 in simp_all)
  then show ?thesis using Some count n nat r c0 c2 assms(3)
    by (simp add: ocoms_argv_prepend_nosize_def c_simps)
qed

lemma argv_find_ok:
  "represents cs xs \<Longrightarrow> argv_find cs i arg =
     Some (if arg \<in> set xs then Some (i + length (takeWhile (\<lambda>x. x \<noteq> arg) xs)) else None)"
proof (induction xs arbitrary: cs i)
  case Nil
  then show ?case by (cases cs) (auto simp: represents_nil)
next
  case (Cons x xs)
  then obtain cs' where "cs = Some x # cs'" "represents cs' xs"
    by (cases cs) (auto simp: represents_cons, auto simp: represents_def)
  with Cons.IH show ?case by auto
qed

lemma append_unique_ok:
  assumes "argv_rep argv xs" and "argv_mem_ok m" and "argv_mem_total m" and "int (length xs) + 2 \<le> INT_MAX"
  shows "\<exists>argv'. ocoms_argv_append_unique_nosize m argv arg overwrite = Some (OCOMS_SUCCESS, argv') \<and>
     argv_rep argv' (if arg \<in> set xs then xs else xs @ [arg])"
proof -
  from append_nosize_ok [OF assms(1,2,4), of arg] assms(3) obtain cs' where
    app: "ocoms_argv_append_nosize m argv arg = Some (OCOMS_SUCCESS, Some cs')" "represents cs' (xs @ [arg])" by auto
  show ?thesis
  proof (cases argv)
    case None
    with app assms(1) show ?thesis by (simp add: ocoms_argv_append_unique_nosize_def)
  next
    case (Some cs)
    then have rep: "represents cs xs" using assms(1) by simp
    show ?thesis
    proof (cases "arg \<in> set xs")
      case False
      with Some app argv_find_ok [OF rep, of 0 arg] show ?thesis by (simp add: ocoms_argv_append_unique_nosize_def)
    next
      case True
      let ?i = "length (takeWhile (\<lambda>x. x \<noteq> arg) xs)"
      have i: "?i < length xs" "xs ! ?i = arg"
        using True nth_length_takeWhile [of "\<lambda>x. x \<noteq> arg" xs] takeWhile_eq_all_conv [of "\<lambda>x. x \<noteq> arg" xs]
          length_takeWhile_le [of "\<lambda>x. x \<noteq> arg" xs]
        by (metis (full_types) append_Nil2 append_eq_conv_conj le_neq_implies_less takeWhile_dropWhile_id take_all_iff order_refl)+
      then have "cs[?i := Some arg] = cs" "?i < length cs"
        using rep by (auto simp: represents_def intro!: list_update_same_conv [THEN iffD2])
      with True Some rep argv_find_ok [OF rep, of 0 arg] assms(3) show ?thesis
        by (simp add: ocoms_argv_append_unique_nosize_def)
    qed
  qed
qed

lemma insert_ok:
  assumes rep: "represents tcs xs" and src: "represents scs ys"
    and m: "argv_mem_ok m" "argv_mem_total m" and start: "0 \<le> start"
    and room: "int (length xs) + int (length ys) + 2 \<le> INT_MAX"
  shows "\<exists>r. ocoms_argv_insert m (Some tcs) start (Some scs) = Some (OCOMS_SUCCESS, r) \<and>
     argv_rep r (take (nat start) xs @ ys @ drop (nat start) xs)"
proof -
  have ct: "ocoms_argv_count (Some tcs) = Some (int (length xs))" "ocoms_argv_count (Some scs) = Some (int (length ys))"
    using argv_count_ok [of "Some tcs" xs] argv_count_ok [of "Some scs" ys] rep src room by simp_all
  show ?thesis
  proof (cases "start > int (length xs)")
    case True
    have "argv_rep (Some tcs) xs" using rep by simp
    from append_all_ok [OF m(2,1) src this room, of "int (length xs)"] True ct start show ?thesis
      by (auto simp: ocoms_argv_insert_def)
  next
    case False
    let ?s = "nat start" and ?x = "length xs" and ?y = "length ys"
    have s: "?s \<le> ?x" "start = int ?s" using False start by auto
    have chk: "chk (int ?x + int ?y) = Some (int ?x + int ?y)" "chk (int ?x + int ?y + 1) = Some (int ?x + int ?y + 1)"
      using room by (simp_all add: INT_MIN_def)
    have nat: "nat (int ?x + int ?y + 1) = ?x + ?y + 1" "nat (int ?x - start) = ?x - ?s" using s by linarith+
    obtain c0 where r: "realloc (cell_alloc m) (Some tcs) (?x + ?y + 1) = Some c0"
      using realloc_total [OF m(2)] by blast
    have "malloc_ok (cell_alloc m)" using m(1) by (simp add: argv_mem_ok_def)
    from realloc_nth [OF this r] rep
    have c0: "length c0 = ?x + ?y + 1" "\<forall>i < ?x. c0 ! i = Some (xs ! i)" by (auto simp: represents_def)
    from argv_push_ok [of ?s ?y "?x - ?s" c0] c0(1) s(1) obtain c1 where c1:
      "argv_push ?s ?y (?x - ?s) c0 = Some c1" "length c1 = ?x + ?y + 1"
      "\<forall>x < ?x + ?y + 1. c1 ! x = (if ?s + ?y \<le> x \<and> x < ?x + ?y then c0 ! (x - ?y) else c0 ! x)" by auto
    let ?c2 = "c1[?x + ?y := None]"
    from argv_dup_into_ok [OF m(2) src, of ?s ?c2] c1(2) s(1) obtain c3 where c3:
      "argv_dup_into m scs ?s ?y ?c2 = Some c3" "length c3 = ?x + ?y + 1"
      "\<forall>x < ?x + ?y + 1. c3 ! x = (if ?s \<le> x \<and> x < ?s + ?y then Some (ys ! (x - ?s)) else ?c2 ! x)" by auto
    have "represents c3 (take ?s xs @ ys @ drop ?s xs)"
    proof (rule representsI)
      fix i assume "i < length (take ?s xs @ ys @ drop ?s xs)"
      then have i: "i < ?x + ?y" using s(1) by simp
      have v: "c3 ! i = (if ?s \<le> i \<and> i < ?s + ?y then Some (ys ! (i - ?s))
          else if ?s + ?y \<le> i then c0 ! (i - ?y) else c0 ! i)"
        using c3(3) c1(3) i by simp
      show "c3 ! i = Some ((take ?s xs @ ys @ drop ?s xs) ! i)"
        unfolding v using i s(1) c0(2) by (auto simp: nth_append)
    next
      have "length (take ?s xs @ ys @ drop ?s xs) = ?x + ?y" using s(1) by simp
      moreover have "c3 ! (?x + ?y) = None" using c3(3) c1(2) s(1) by simp
      ultimately show "c3 ! length (take ?s xs @ ys @ drop ?s xs) = None" by (simp only:)
    qed (use c3 s in simp_all)
    moreover have "wr c1 (start + (int ?x - start) + int ?y) None = Some ?c2"
      using wr_int [of "?x + ?y" c1 None] c1(2) by simp
    ultimately show ?thesis using False start ct chk nat r c1(1) c3(1)
      by (simp add: ocoms_argv_insert_def Let_def)
  qed
qed

lemma delete_ok:
  assumes rep: "represents cs xs" and m: "argv_mem_ok m"
    and start: "0 \<le> start" "start \<le> int (length xs)" and num: "0 < num" "start + num \<le> INT_MAX"
    and room: "int (length xs) \<le> INT_MAX" and argc: "INT_MIN \<le> argc - num" "argc \<le> INT_MAX"
  shows "\<exists>cs'. ocoms_argv_delete m argc (Some cs) start num = Some (OCOMS_SUCCESS, argc - num, Some cs') \<and>
     represents cs' (take (nat start) xs @ drop (nat (start + num)) xs)"
proof -
  have ct: "ocoms_argv_count (Some cs) = Some (int (length xs))" using argv_count_ok [of "Some cs" xs] rep room by simp
  let ?s = "nat start" and ?n = "nat num" and ?x = "length xs"
  let ?k = "?x - (?s + ?n)"
  have s: "?s \<le> ?x" "start = int ?s" "num = int ?n" using start num by auto
  have chk: "chk (start + num) = Some (start + num)" "chk (int ?x - (start + num)) = Some (int ?x - (start + num))"
    "chk (argc - num) = Some (argc - num)"
    using start num room argc by (simp_all add: INT_MIN_def INT_MAX_def)
  have suffix: "nat (if int ?x - (start + num) < 0 then 0 else int ?x - (start + num)) = ?k"
    "start + (if int ?x - (start + num) < 0 then 0 else int ?x - (start + num)) = int (?s + ?k)"
    using s start num by auto
  have len: "?x < length cs" using rep by (simp add: represents_def)
  have sk: "?s + ?k \<le> ?x" using s by simp
  obtain c1 where c1: "argv_pull ?s ?n ?k cs = Some c1" "length c1 = length cs"
    "\<forall>x < length cs. c1 ! x = (if ?s \<le> x \<and> x < ?s + ?k then cs ! (x + ?n) else cs ! x)"
  proof (cases "?k = 0")
    case True
    with that [of cs] show ?thesis by simp
  next
    case False
    then have "?s + ?n + ?k \<le> length cs" using len by simp
    from argv_pull_ok [OF this] that show ?thesis by blast
  qed
  let ?c2 = "c1[?s + ?k := None]" and ?r = "take ?s xs @ drop (nat (start + num)) xs"
  have sn: "nat (start + num) = ?s + ?n" using start num by (simp add: nat_add_distrib)
  have lr: "length ?r = ?s + ?k" using s sn by simp
  have c2: "represents ?c2 ?r"
  proof (rule representsI)
    fix i assume "i < length ?r"
    then have i: "i < ?s + ?k" using lr by simp
    then have "?c2 ! i = (if ?s \<le> i then cs ! (i + ?n) else cs ! i)" using c1 sk len by simp
    also have "\<dots> = Some (?r ! i)"
    proof (cases "?s \<le> i")
      case True
      then have "?s + ?n \<le> ?x" "i + ?n < ?x" using i by linarith+
      then have "drop (?s + ?n) xs ! (i - ?s) = xs ! (i + ?n)" using True by (simp add: add.commute)
      with True \<open>i + ?n < ?x\<close> s rep show ?thesis unfolding sn by (simp add: represents_def nth_append)
    next
      case False
      with s rep show ?thesis by (simp add: represents_def nth_append)
    qed
    finally show "?c2 ! i = Some (?r ! i)" .
  qed (use c1 sk len lr in simp_all)
  let ?c3 = "case realloc (cell_alloc m) (Some ?c2) (?s + ?k + 1) of Some tmp \<Rightarrow> tmp | None \<Rightarrow> ?c2"
  have c3: "represents ?c3 ?r"
  proof (cases "realloc (cell_alloc m) (Some ?c2) (?s + ?k + 1)")
    case (Some ys)
    have "malloc_ok (cell_alloc m)" using m by (simp add: argv_mem_ok_def)
    from realloc_nth [OF this Some] c2 lr have "represents ys ?r" by (auto simp: represents_def)
    with Some show ?thesis by simp
  qed (use c2 in simp)
  have "wr c1 (int (?s + ?k)) None = Some ?c2" using c1(2) sk len by (intro wr_int) linarith
  moreover have "nat (start + int ?k + 1) = Suc (?s + ?k)" using start by (simp add: nat_add_distrib)
  ultimately have "ocoms_argv_delete m argc (Some cs) start num = Some (OCOMS_SUCCESS, argc - num, Some ?c3)"
    using ct chk suffix c1(1) start num by (simp add: ocoms_argv_delete_def Let_def)
  with c3 show ?thesis by blast
qed

lemma sint_small: "n \<le> 2147483647 \<Longrightarrow> sint (word_of_nat n :: 32 word) = int n"
  by (simp add: signed_of_nat signed_take_bit_int_eq_self)

lemma join_range_ok:
  assumes "argv_mem_ok m" and rep: "represents cs xs" and "\<forall>x \<in> set xs. no_nul x" and "d \<noteq> CHR 0x00"
    and s: "start < length xs" "start < end'" and room: "int (length xs) \<le> INT_MAX"
  shows "ocoms_argv_join_range m (Some cs) start end' d =
     Some (if char_alloc m (length (join_with d (take (end' - start) (drop start xs))) + 1) = None then None
           else Some (join_with d (take (end' - start) (drop start xs))))"
proof -
  obtain k where k: "end' - start = Suc k" using s(2) by (cases "end' - start") auto
  let ?ys = "take (Suc k) (drop start xs)"
  have ys: "?ys = xs ! start # take k (drop (Suc start) xs)" using s(1) by (simp flip: Cons_nth_drop_Suc)
  have c0: "cs ! 0 \<noteq> None" "cs \<noteq> []"
    using rep s(1) by (cases xs; auto simp: represents_def)+
  have "ocoms_argv_count (Some cs) = Some (int (length xs))" using argv_count_ok [of "Some cs" xs] rep room by simp
  moreover have "sint (word_of_nat start :: 32 word) = int start"
    using s(1) room by (intro sint_small) (simp add: INT_MAX_def)
  moreover have "argv_range_total (drop start cs) start end' = Some (\<Sum>t \<leftarrow> ?ys. length t + 1)"
    using range_total_ok [OF represents_drop [OF rep less_imp_le [OF s(1)]], of start end'] k by simp
  moreover have "argv_join_fill m cs start (\<Sum>t \<leftarrow> ?ys. length t + 1) d =
      Some (if char_alloc m (\<Sum>t \<leftarrow> ?ys. length t + 1) = None then None else Some (join_with d ?ys))"
    by (rule join_fill_ok [OF assms(1-4) s(1) refl refl])
  moreover have "(\<Sum>t \<leftarrow> ?ys. length t + 1) = length (join_with d ?ys) + 1"
    unfolding ys by (rule length_join [symmetric])
  moreover have "start \<le> length cs" using rep s(1) by (simp add: represents_def)
  ultimately show ?thesis using c0 s(1) k by (auto simp: ocoms_argv_join_range_def)
qed

section \<open>Copying\<close>

lemma copy_loop_ok:
  assumes "argv_mem_total m" and "argv_mem_ok m" and "represents cs ys" and "argv_rep (Some dv) xs"
    and "int (length xs) + int (length ys) + 2 \<le> INT_MAX"
  shows "\<exists>r. argv_copy_loop m cs dupc (Some dv) = Some (Some r) \<and> represents r (xs @ ys)"
  using assms(3-)
proof (induction ys arbitrary: cs dupc dv xs)
  case Nil
  then show ?case by (cases cs) (auto simp: represents_nil)
next
  case (Cons y ys)
  then obtain cs' where cs: "cs = Some y # cs'" "represents cs' ys"
    by (cases cs) (auto simp: represents_cons, auto simp: represents_def)
  have "int (length xs) + 2 \<le> INT_MAX" using Cons.prems(3) by simp
  from append_ok [OF Cons.prems(2) assms(2) this, of dupc y] assms(1) obtain n r where
    A: "ocoms_argv_append m dupc (Some dv) y = Some (OCOMS_SUCCESS, n, Some r)" "argv_rep (Some r) (xs @ [y])"
    by auto
  from Cons.IH [OF cs(2) A(2), of n] Cons.prems(3) A(1) cs(1) show ?case by auto
qed

lemma copy_ok:
  assumes "argv_mem_total m" and "argv_mem_ok m" and "represents cs ys" and "int (length ys) + 2 \<le> INT_MAX"
  shows "\<exists>r. ocoms_argv_copy m (Some cs) = Some (Some r) \<and> represents r ys"
proof -
  obtain d where d: "cell_alloc m 1 = Some d" using assms(1) by (auto simp: argv_mem_total_def)
  then have "length d = 1" using assms(2) unfolding argv_mem_ok_def by (blast dest: malloc_okD)
  then have "wr d 0 None = Some [None]" by (cases d) (simp_all add: wr_def)
  moreover have "argv_rep (Some [None]) []" by (simp add: represents_nil)
  from copy_loop_ok [OF assms(1-3) this, of 0] assms(4) obtain r where
    "argv_copy_loop m cs 0 (Some [None]) = Some (Some r)" "represents r ys" by auto
  ultimately show ?thesis using d by (simp add: ocoms_argv_copy_def)
qed

section \<open>Properties\<close>

text \<open>An allocator that never fails, and a vector, for the examples.\<close>

definition mem_always :: argv_mem where
  "mem_always = \<lparr>cell_alloc = \<lambda>n. Some (replicate n None), char_alloc = \<lambda>n. Some (replicate n CHR 0x41)\<rparr>"

lemma mem_always_ok [simp]: "argv_mem_ok mem_always" "argv_mem_total mem_always"
  by (simp_all add: mem_always_def argv_mem_ok_def argv_mem_total_def)

lemma represents_example: "represents [Some ''a'', Some ''bc'', None] [''a'', ''bc'']"
  by (simp add: represents_cons represents_nil)

text \<open>
  C6: Splitting a string is memory safe and returns; the vector it returns holds the fields between
  the delimiters, without the empty ones, or with all but an empty last one in the with-empty
  variant.  Only a failed allocation makes it return the null pointer instead.
\<close>

theorem split_returns_tokens:
  assumes "argv_mem_ok m" and "int (length s) + 2 \<le> INT_MAX"
  shows "\<exists>r r'. ocoms_argv_split m (Some s) d = Some r \<and> ocoms_argv_split_with_empty m (Some s) d = Some r' \<and>
     (r \<noteq> None \<or> argv_mem_total m \<longrightarrow> argv_rep r (tokens False d s)) \<and>
     (r' \<noteq> None \<or> argv_mem_total m \<longrightarrow> argv_rep r' (tokens True d s))"
  using split_inter_ok [OF assms, of d False] split_inter_ok [OF assms, of d True]
  by (auto simp: ocoms_argv_split_def ocoms_argv_split_with_empty_def)

theorem split_returns_tokens_witness:
  "\<exists>r. ocoms_argv_split mem_always (Some ''a,,b,'') (CHR '','') = Some r \<and> argv_rep r [''a'', ''b'']"
proof -
  have "int (length ''a,,b,'') + 2 \<le> INT_MAX" by (simp add: INT_MAX_def)
  from split_returns_tokens [OF mem_always_ok(1) this, where d = "CHR 0x2C"] show ?thesis
    by (auto simp: tokens_def)
qed

text \<open>
  C7: Joining a vector of non-empty strings that do not contain the delimiter and splitting the
  result gives the vector same, with both split functions.
\<close>

theorem join_then_split:
  assumes "argv_mem_ok m" and "argv_mem_total m" and "represents cs xs" and "d \<noteq> CHR 0x00"
    and "\<forall>x \<in> set xs. no_nul x \<and> d \<notin> set x \<and> x \<noteq> []"
    and "int (length (join_with d xs)) + 2 \<le> INT_MAX"
  shows "\<exists>s r r'. ocoms_argv_join m (Some cs) d = Some (Some s) \<and>
     ocoms_argv_split m (Some s) d = Some r \<and> argv_rep r xs \<and>
     ocoms_argv_split_with_empty m (Some s) d = Some r' \<and> argv_rep r' xs"
proof -
  have tok: "tokens e d (join_with d xs) = xs" for e using assms(5) by (intro tokens_join) blast
  have "ocoms_argv_join m (Some cs) d = Some (Some (join_with d xs))"
    using join_ok [OF assms(1,3) _ assms(4)] assms(2,5) by (auto simp: argv_mem_total_def)
  with split_inter_ok [OF assms(1,6), of d False] split_inter_ok [OF assms(1,6), of d True] assms(2) tok
  show ?thesis by (auto simp: ocoms_argv_split_def ocoms_argv_split_with_empty_def)
qed

theorem join_then_split_witness:
  "\<exists>s r. ocoms_argv_join mem_always (Some [Some ''a'', Some ''bc'', None]) (CHR '','') = Some (Some s) \<and>
     ocoms_argv_split mem_always (Some s) (CHR '','') = Some r \<and> argv_rep r [''a'', ''bc'']"
proof -
  have "\<forall>x \<in> set [''a'', ''bc'']. no_nul x \<and> CHR '','' \<notin> set x \<and> x \<noteq> []" by (simp add: no_nul_def)
  from join_then_split [OF mem_always_ok represents_example _ this] show ?thesis by (auto simp: INT_MAX_def)
qed

text \<open>
  Inserting a vector's strings into another at an index in range puts them between the first
  strings and the rest, and deleting as many from the same index restores the vector.
\<close>

theorem insert_then_delete:
  assumes "argv_mem_ok m" and "argv_mem_total m" and "represents tcs xs" and "represents scs ys"
    and "0 \<le> start" and "start \<le> int (length xs)" and "ys \<noteq> []"
    and "int (length xs) + int (length ys) + 2 \<le> INT_MAX"
  shows "\<exists>cs1 cs2. ocoms_argv_insert m (Some tcs) start (Some scs) = Some (OCOMS_SUCCESS, Some cs1) \<and>
     represents cs1 (take (nat start) xs @ ys @ drop (nat start) xs) \<and>
     ocoms_argv_delete m (int (length xs) + int (length ys)) (Some cs1) start (int (length ys))
       = Some (OCOMS_SUCCESS, int (length xs), Some cs2) \<and> represents cs2 xs"
proof -
  let ?zs = "take (nat start) xs @ ys @ drop (nat start) xs"
  from insert_ok [OF assms(3,4,1,2,5,8)] obtain r where
    I: "ocoms_argv_insert m (Some tcs) start (Some scs) = Some (OCOMS_SUCCESS, r)" "argv_rep r ?zs" by blast
  have s: "nat start \<le> length xs" using assms(5,6) by simp
  obtain cs1 where cs1: "r = Some cs1" "represents cs1 ?zs"
    using I(2) assms(7) by (cases r) auto
  have "nat (start + int (length ys)) = nat start + length ys" using assms(5) by (simp add: nat_add_distrib)
  then have same: "take (nat start) ?zs @ drop (nat (start + int (length ys))) ?zs = xs" using s by simp
  have len: "length ?zs = length xs + length ys" using s by simp
  have "start \<le> int (length ?zs)" "0 < int (length ys)" "start + int (length ys) \<le> INT_MAX"
    "int (length ?zs) \<le> INT_MAX" "INT_MIN \<le> int (length xs) + int (length ys) - int (length ys)"
    "int (length xs) + int (length ys) \<le> INT_MAX"
    using assms(5-8) unfolding len by (simp_all add: INT_MIN_def)
  from delete_ok [OF cs1(2) assms(1,5) this] I(1) cs1 show ?thesis unfolding same by auto
qed

theorem insert_then_delete_witness:
  "\<exists>cs1 cs2. ocoms_argv_insert mem_always (Some [Some ''a'', Some ''bc'', None]) 1 (Some [Some ''x'', None])
      = Some (OCOMS_SUCCESS, Some cs1) \<and> represents cs1 [''a'', ''x'', ''bc''] \<and>
     ocoms_argv_delete mem_always 3 (Some cs1) 1 1 = Some (OCOMS_SUCCESS, 2, Some cs2) \<and>
     represents cs2 [''a'', ''bc'']"
proof -
  have "represents [Some ''x'', None] [''x'']" by (simp add: represents_cons represents_nil)
  from insert_then_delete [OF mem_always_ok represents_example this, of 1] show ?thesis
    by (simp add: INT_MAX_def)
qed

text \<open>
  Deleting more strings than there are from an index takes the whole number from the caller's
  count all the same: the vector keeps \<open>start\<close> strings, the count is less than that.
\<close>

theorem delete_miscounts_argc:
  assumes "argv_mem_ok m" and "represents cs xs" and "0 \<le> start" and "start \<le> int (length xs)"
    and "int (length xs) < start + num" and "start + num \<le> INT_MAX"
  shows "\<exists>cs' argc'. ocoms_argv_delete m (int (length xs)) (Some cs) start num = Some (OCOMS_SUCCESS, argc', Some cs') \<and>
     ocoms_argv_count (Some cs') = Some start \<and> argc' < start"
proof -
  have num: "0 < num" "INT_MIN \<le> int (length xs) - num" using assms(3-6) by (simp_all add: INT_MIN_def INT_MAX_def)
  have len: "int (length xs) \<le> INT_MAX" using assms(5,6) by simp
  have "drop (nat (start + num)) xs = []" using assms(3,5) by simp
  with delete_ok [OF assms(2,1,3,4) num(1) assms(6) len num(2) len] obtain cs' where
    D: "ocoms_argv_delete m (int (length xs)) (Some cs) start num = Some (OCOMS_SUCCESS, int (length xs) - num, Some cs')"
      "represents cs' (take (nat start) xs)" by auto
  have "ocoms_argv_count (Some cs') = Some start"
    using argv_count_ok [of "Some cs'" "take (nat start) xs"] D(2) assms(3,4) len by simp
  with D(1) assms(5) show ?thesis by auto
qed

theorem delete_miscounts_argc_witness:
  "\<exists>cs' argc'. ocoms_argv_delete mem_always 2 (Some [Some ''a'', Some ''bc'', None]) 1 5 = Some (OCOMS_SUCCESS, argc', Some cs') \<and>
     ocoms_argv_count (Some cs') = Some 1 \<and> argc' < 1"
  using delete_miscounts_argc [OF mem_always_ok(1) represents_example, of 1 5] by (simp add: INT_MAX_def)

text \<open>
  Joining the range that starts at the number of strings passes the range check, computes a
  total length of zero and then writes before the start of the result.
\<close>

theorem join_range_underflow:
  assumes "represents cs xs" and "xs \<noteq> []" and "int (length xs) \<le> INT_MAX" and "char_alloc m 0 \<noteq> None"
  shows "ocoms_argv_join_range m (Some cs) (length xs) end' d = None"
proof -
  have c0: "cs ! 0 \<noteq> None" "cs \<noteq> []" using assms(1,2) by (cases xs; auto simp: represents_def)+
  have "ocoms_argv_count (Some cs) = Some (int (length xs))" using argv_count_ok [of "Some cs" xs] assms by simp
  moreover have "sint (word_of_nat (length xs) :: 32 word) = int (length xs)"
    using assms(3) by (intro sint_small) (simp add: INT_MAX_def)
  moreover have "argv_range_total (drop (length xs) cs) (length xs) end' = Some 0"
    using range_total_ok [OF represents_drop [OF assms(1) order_refl], of "length xs" end'] by simp
  ultimately show ?thesis using c0 assms(4)
    by (auto simp: ocoms_argv_join_range_def argv_join_fill_def)
qed

theorem join_range_underflow_witness:
  "ocoms_argv_join_range mem_always (Some [Some ''a'', Some ''bc'', None]) 2 5 (CHR '','') = None"
proof -
  have "char_alloc mem_always 0 \<noteq> None" by (simp add: mem_always_def)
  from join_range_underflow [OF represents_example _ _ this, of 5 "CHR 0x2C"] show ?thesis
    by (simp add: INT_MAX_def numeral_2_eq_2)
qed

end
