(* ===== verification/Environ.thy ===== *)
theory Environ
  imports Argv
begin

text \<open>
  The environment functions of \<open>ocoms/util/ocoms_environ.c\<close> over the vectors of \<open>Argv\<close>.  Whether
  \<open>*env\<close> is the process's own \<open>environ\<close>, and what \<open>putenv\<close> then makes of it, are parameters; so is
  \<open>getenv\<close>.  \<open>asprintf\<close> yields the null pointer when the memory for its result cannot be had.
\<close>

section \<open>Model\<close>

record env_ctx =
  ec_mem :: argv_mem
  ec_is_environ :: bool
  ec_putenv :: "cells \<Rightarrow> string \<Rightarrow> cells"

text \<open>The search for an entry that begins with \<open>name=\<close>: its index, if there is one.\<close>

fun env_find :: "cells \<Rightarrow> nat \<Rightarrow> string \<Rightarrow> nat option option" where
  "env_find [] i compare = None"
| "env_find (None # cs) i compare = Some None"
| "env_find (Some s # cs) i compare =
     (if take (length compare) s = compare then Some (Some i) else env_find cs (Suc i) compare)"

text \<open>\<open>env\<close> is \<open>None\<close> for a null \<open>env\<close> pointer, otherwise the vector it points to.\<close>

definition ocoms_setenv ::
  "env_ctx \<Rightarrow> string \<Rightarrow> string option \<Rightarrow> bool \<Rightarrow> cells option option \<Rightarrow> (int \<times> cells option option) option" where
  "ocoms_setenv ctx name v overwrite env =
     (let newvalue = strdup (ec_mem ctx) (case v of None \<Rightarrow> name @ ''='' | Some x \<Rightarrow> name @ ''='' @ x) in
      case newvalue of None \<Rightarrow> Some (OCOMS_ERR_OUT_OF_RESOURCE, env)
      | Some nv \<Rightarrow> (case env of None \<Rightarrow> Some (OCOMS_ERR_BAD_PARAM, env)
        | Some None \<Rightarrow> do {
            (rc, i, e) \<leftarrow> ocoms_argv_append (ec_mem ctx) 0 None nv;
            Some (OCOMS_SUCCESS, Some e) }
        | Some (Some cs) \<Rightarrow>
          if ec_is_environ ctx then Some (OCOMS_SUCCESS, Some (Some (ec_putenv ctx cs nv)))
          else (case strdup (ec_mem ctx) (name @ ''='') of
              None \<Rightarrow> Some (OCOMS_ERR_OUT_OF_RESOURCE, env)
            | Some compare \<Rightarrow> do {
                r \<leftarrow> env_find cs 0 compare;
                case r of
                  Some i \<Rightarrow>
                    if overwrite then do { cs' \<leftarrow> wrn cs i (Some nv); Some (OCOMS_SUCCESS, Some (Some cs')) }
                    else Some (OCOMS_EXISTS, env)
                | None \<Rightarrow> do {
                    i \<leftarrow> ocoms_argv_count (Some cs);
                    (rc, i', e) \<leftarrow> ocoms_argv_append (ec_mem ctx) i (Some cs) nv;
                    Some (OCOMS_SUCCESS, Some e) } })))"

text \<open>The inner loop of \<open>unsetenv\<close>: every cell takes the next one's pointer, up to the terminator.\<close>

function env_close_gap :: "cells \<Rightarrow> nat \<Rightarrow> cells option" where
  "env_close_gap cs i =
     (if i < length cs then
        (if cs ! i = None then Some cs
         else do { c \<leftarrow> rdn cs (i + 1); env_close_gap (cs[i := c]) (i + 1) })
      else None)"
  by auto
termination by (relation "measure (\<lambda>(cs, i). length cs - i)") auto

declare env_close_gap.simps [simp del]

definition ocoms_unsetenv :: "env_ctx \<Rightarrow> string \<Rightarrow> cells option \<Rightarrow> (int \<times> cells option) option" where
  "ocoms_unsetenv ctx name env = (case env of None \<Rightarrow> Some (OCOMS_SUCCESS, env)
     | Some cs \<Rightarrow> (case strdup (ec_mem ctx) (name @ ''='') of
           None \<Rightarrow> Some (OCOMS_ERR_OUT_OF_RESOURCE, env)
         | Some compare \<Rightarrow> do {
             r \<leftarrow> env_find cs 0 compare;
             case r of None \<Rightarrow> Some (OCOMS_ERR_NOT_FOUND, env)
             | Some i \<Rightarrow> do { cs' \<leftarrow> env_close_gap cs i; Some (OCOMS_SUCCESS, Some cs') } }))"

text \<open>One step of the loop of \<open>merge\<close>; \<open>ret\<close> is never the process's own environment.\<close>

definition env_merge_one :: "argv_mem \<Rightarrow> string \<Rightarrow> cells option \<Rightarrow> (int \<times> cells option option) option" where
  "env_merge_one m e ret =
     (let ctx = \<lparr>ec_mem = m, ec_is_environ = False, ec_putenv = \<lambda>cs s. cs\<rparr> in
      if CHR ''='' \<notin> set e then ocoms_setenv ctx e None False (Some ret)
      else do {
        copy \<leftarrow> strdup m e;
        ocoms_setenv ctx (takeWhile (\<lambda>c. c \<noteq> CHR ''='') copy)
          (Some (drop 1 (dropWhile (\<lambda>c. c \<noteq> CHR ''='') copy))) False (Some ret) })"

fun env_merge_loop :: "argv_mem \<Rightarrow> cells \<Rightarrow> cells option \<Rightarrow> cells option option" where
  "env_merge_loop m [] ret = None"
| "env_merge_loop m (None # cs) ret = Some ret"
| "env_merge_loop m (Some e # cs) ret = do {
     (rc, env) \<leftarrow> env_merge_one m e ret;
     ret' \<leftarrow> env;
     env_merge_loop m cs ret' }"

definition ocoms_environ_merge :: "argv_mem \<Rightarrow> cells option \<Rightarrow> cells option \<Rightarrow> cells option option" where
  "ocoms_environ_merge m minor major = (case major of
     None \<Rightarrow> (case minor of None \<Rightarrow> Some None | Some _ \<Rightarrow> ocoms_argv_copy m minor)
   | Some _ \<Rightarrow> do {
       ret \<leftarrow> ocoms_argv_copy m major;
       case minor of None \<Rightarrow> Some ret | Some cs \<Rightarrow> env_merge_loop m cs ret })"

definition OCOMS_DEFAULT_TMPDIR :: string where "OCOMS_DEFAULT_TMPDIR = ''/tmp''"

definition ocoms_tmp_directory :: "(string \<Rightarrow> string option) \<Rightarrow> string" where
  "ocoms_tmp_directory getenv = (case getenv ''TMPDIR'' of Some s \<Rightarrow> s
     | None \<Rightarrow> (case getenv ''TEMP'' of Some s \<Rightarrow> s
     | None \<Rightarrow> (case getenv ''TMP'' of Some s \<Rightarrow> s | None \<Rightarrow> OCOMS_DEFAULT_TMPDIR)))"

definition ocoms_home_directory :: "(string \<Rightarrow> string option) \<Rightarrow> string option" where
  "ocoms_home_directory getenv = getenv ''HOME''"

section \<open>The environment as a map\<close>

definition entry_name :: "string \<Rightarrow> string" where
  "entry_name e = takeWhile (\<lambda>c. c \<noteq> CHR ''='') e"

definition entry_value :: "string \<Rightarrow> string" where
  "entry_value e = drop 1 (dropWhile (\<lambda>c. c \<noteq> CHR ''='') e)"

definition is_entry :: "string \<Rightarrow> bool" where
  "is_entry e \<longleftrightarrow> CHR ''='' \<in> set e"

definition name_ok :: "string \<Rightarrow> bool" where
  "name_ok k \<longleftrightarrow> CHR ''='' \<notin> set k"

definition env_lookup :: "string list \<Rightarrow> string \<Rightarrow> string option" where
  "env_lookup xs k = map_option entry_value (find (\<lambda>e. is_entry e \<and> entry_name e = k) xs)"

definition names_distinct :: "string list \<Rightarrow> bool" where
  "names_distinct xs \<longleftrightarrow> distinct (map entry_name (filter is_entry xs))"

lemma entry_new [simp]:
  "name_ok k \<Longrightarrow> is_entry (k @ CHR ''='' # v)"
  "name_ok k \<Longrightarrow> entry_name (k @ CHR ''='' # v) = k"
  "name_ok k \<Longrightarrow> entry_value (k @ CHR ''='' # v) = v"
proof -
  assume "name_ok k"
  then have "x \<in> set k \<Longrightarrow> x \<noteq> CHR ''=''" for x by (auto simp: name_ok_def)
  then show "is_entry (k @ CHR ''='' # v)" "entry_name (k @ CHR ''='' # v) = k" "entry_value (k @ CHR ''='' # v) = v"
    by (simp_all add: is_entry_def entry_name_def entry_value_def takeWhile_append2 dropWhile_append2)
qed

lemma entry_match:
  assumes "name_ok k"
  shows "take (length (k @ ''='')) e = k @ ''='' \<longleftrightarrow> is_entry e \<and> entry_name e = k"
proof
  assume t: "take (length (k @ ''='')) e = k @ ''=''"
  have "e = take (length (k @ ''='')) e @ drop (length (k @ ''='')) e" by simp
  then have "e = k @ CHR ''='' # drop (length (k @ ''='')) e" unfolding t by simp
  then obtain r where "e = k @ CHR ''='' # r" by blast
  with assms show "is_entry e \<and> entry_name e = k" by simp
next
  assume a: "is_entry e \<and> entry_name e = k"
  then have ne: "dropWhile (\<lambda>c. c \<noteq> CHR ''='') e \<noteq> []" by (auto simp: is_entry_def)
  then have "hd (dropWhile (\<lambda>c. c \<noteq> CHR ''='') e) = CHR ''=''"
    using hd_dropWhile [of "\<lambda>c. c \<noteq> CHR ''=''" e] by simp
  with ne a have "e = k @ CHR ''='' # entry_value e"
    unfolding entry_value_def entry_name_def
    by (metis drop0 drop_Suc_Cons list.collapse takeWhile_dropWhile_id One_nat_def)
  then show "take (length (k @ ''='')) e = k @ ''=''"
    by (metis append.assoc append_Cons append_Nil append_eq_conv_conj)
qed

lemma env_find_ok:
  "represents cs xs \<Longrightarrow> name_ok k \<Longrightarrow> env_find cs i (k @ ''='') =
     Some (if \<exists>e \<in> set xs. is_entry e \<and> entry_name e = k
           then Some (i + length (takeWhile (\<lambda>e. \<not> (is_entry e \<and> entry_name e = k)) xs)) else None)"
proof (induction xs arbitrary: cs i)
  case Nil
  then show ?case by (cases cs) (auto simp: represents_nil)
next
  case (Cons x xs)
  then obtain cs' where "cs = Some x # cs'" "represents cs' xs"
    by (cases cs) (auto simp: represents_cons, auto simp: represents_def)
  with Cons.IH [of cs' "Suc i"] Cons.prems(2) show ?case
    by (simp add: entry_match del: length_append)
qed

lemma close_gap_ok:
  "represents cs xs \<Longrightarrow> i < length xs \<Longrightarrow>
   \<exists>cs'. env_close_gap cs i = Some cs' \<and> represents cs' (take i xs @ drop (Suc i) xs)"
proof (induction "length xs - i" arbitrary: cs xs i)
  case 0
  then show ?case by simp
next
  case (Suc n)
  have len: "i < length cs" "Suc i < length cs" "cs ! i = Some (xs ! i)"
    using Suc.prems by (auto simp: represents_def)
  let ?c = "cs[i := cs ! Suc i]"
  have step: "env_close_gap cs i = env_close_gap ?c (Suc i)"
    using len by (simp add: env_close_gap.simps [of cs i])
  show ?case
  proof (cases "Suc i < length xs")
    case False
    then have i: "Suc i = length xs" using Suc.prems(2) by simp
    then have "cs ! Suc i = None" using Suc.prems(1) by (simp add: represents_def)
    then have "env_close_gap ?c (Suc i) = Some ?c" using len by (subst env_close_gap.simps) simp
    moreover have "represents ?c (take i xs @ drop (Suc i) xs)"
      using Suc.prems i \<open>cs ! Suc i = None\<close> by (auto simp: represents_def nth_append)
    ultimately show ?thesis using step by simp
  next
    case True
    let ?x = "xs[i := xs ! Suc i]"
    have "represents ?c ?x" using Suc.prems True by (auto simp: represents_def nth_list_update)
    moreover have "n = length ?x - Suc i" using Suc.hyps(2) by simp
    ultimately obtain cs' where cs': "env_close_gap ?c (Suc i) = Some cs'"
      "represents cs' (take (Suc i) ?x @ drop (Suc (Suc i)) ?x)"
      using Suc.hyps(1) [of ?x "Suc i" ?c] True by auto
    have "take (Suc i) ?x = take i xs @ [xs ! Suc i]" using Suc.prems(2) by (simp add: take_Suc_conv_app_nth)
    moreover have "drop (Suc i) xs = xs ! Suc i # drop (Suc (Suc i)) xs" using True by (simp add: Cons_nth_drop_Suc)
    ultimately have "take (Suc i) ?x @ drop (Suc (Suc i)) ?x = take i xs @ drop (Suc i) xs" by simp
    with cs' step show ?thesis by simp
  qed
qed

lemma represents_update: "represents cs xs \<Longrightarrow> i < length xs \<Longrightarrow> represents (cs[i := Some e]) (xs[i := e])"
  by (auto simp: represents_def nth_list_update)

text \<open>Setting and unsetting on the list of entries.\<close>

definition env_hit :: "string \<Rightarrow> string \<Rightarrow> bool" where
  "env_hit k e \<longleftrightarrow> is_entry e \<and> entry_name e = k"

fun env_put :: "string list \<Rightarrow> string \<Rightarrow> string \<Rightarrow> string list" where
  "env_put [] k e = [e]"
| "env_put (x # xs) k e = (if env_hit k x then e # xs else x # env_put xs k e)"

fun env_del :: "string list \<Rightarrow> string \<Rightarrow> string list" where
  "env_del [] k = []"
| "env_del (x # xs) k = (if env_hit k x then xs else x # env_del xs k)"

lemma env_put_found:
  "\<exists>e \<in> set xs. env_hit k e \<Longrightarrow>
   env_put xs k n = xs[length (takeWhile (\<lambda>e. \<not> env_hit k e) xs) := n] \<and>
   length (takeWhile (\<lambda>e. \<not> env_hit k e) xs) < length xs"
  by (induction xs) auto

lemma env_put_new: "\<not> (\<exists>e \<in> set xs. env_hit k e) \<Longrightarrow> env_put xs k n = xs @ [n]"
  by (induction xs) auto

lemma env_del_found:
  "\<exists>e \<in> set xs. env_hit k e \<Longrightarrow>
   env_del xs k = take (length (takeWhile (\<lambda>e. \<not> env_hit k e) xs)) xs
     @ drop (Suc (length (takeWhile (\<lambda>e. \<not> env_hit k e) xs))) xs"
  by (induction xs) auto

lemma env_lookup_hit: "env_lookup xs k = map_option entry_value (find (env_hit k) xs)"
  unfolding env_lookup_def env_hit_def by simp

lemma env_lookup_None: "env_lookup xs k = None \<longleftrightarrow> \<not> (\<exists>e \<in> set xs. env_hit k e)"
  by (auto simp: env_lookup_hit find_None_iff)

lemma env_hit_new: "name_ok k \<Longrightarrow> env_hit k' (k @ CHR ''='' # v) \<longleftrightarrow> k' = k"
  by (auto simp: env_hit_def)

lemma env_lookup_put: "name_ok k \<Longrightarrow> env_lookup (env_put xs k (k @ CHR ''='' # v)) = (env_lookup xs)(k \<mapsto> v)"
proof (induction xs)
  case Nil
  then show ?case by (auto simp: env_lookup_hit env_hit_new fun_eq_iff)
next
  case (Cons x xs)
  then show ?case by (auto simp: env_lookup_hit env_hit_new fun_eq_iff) (auto simp: env_hit_def)
qed

lemma names_put: "name_ok k \<Longrightarrow> set (map entry_name (filter is_entry (env_put xs k (k @ CHR ''='' # v))))
    \<subseteq> insert k (set (map entry_name (filter is_entry xs)))"
  by (induction xs) auto

lemma names_distinct_put:
  "name_ok k \<Longrightarrow> names_distinct xs \<Longrightarrow> names_distinct (env_put xs k (k @ CHR ''='' # v))"
proof (induction xs)
  case Nil
  then show ?case by (simp add: names_distinct_def)
next
  case (Cons x xs)
  then show ?case using names_put [of k xs v]
    by (auto simp: names_distinct_def env_hit_def split: if_splits)
qed

lemma names_distinct_del: "names_distinct xs \<Longrightarrow> names_distinct (env_del xs k)"
proof (induction xs)
  case (Cons x xs)
  have "set (env_del xs k) \<subseteq> set xs" by (induction xs) auto
  with Cons show ?case by (auto simp: names_distinct_def split: if_splits)
qed simp

lemma env_lookup_del: "names_distinct xs \<Longrightarrow> env_lookup (env_del xs k) = (env_lookup xs)(k := None)"
proof (induction xs)
  case Nil
  then show ?case by (auto simp: env_lookup_hit)
next
  case (Cons x xs)
  have d: "names_distinct xs" using Cons.prems by (auto simp: names_distinct_def split: if_splits)
  show ?case
  proof (cases "env_hit k x")
    case True
    have "\<not> env_hit k e" if "e \<in> set xs" for e
    proof
      assume hit: "env_hit k e"
      then have "e \<in> {x \<in> set xs. is_entry x}" using that by (simp add: env_hit_def)
      then have "entry_name e \<in> entry_name ` {x \<in> set xs. is_entry x}" by (rule imageI)
      with hit True Cons.prems show False by (auto simp: names_distinct_def env_hit_def)
    qed
    then have "env_lookup xs k = None" by (auto simp: env_lookup_None)
    moreover have "k' \<noteq> k \<Longrightarrow> \<not> env_hit k' x" for k' using True by (auto simp: env_hit_def)
    ultimately show ?thesis using True by (auto simp: env_lookup_hit fun_eq_iff)
  next
    case False
    with Cons.IH [OF d] show ?thesis by (auto simp: env_lookup_hit fun_eq_iff)
  qed
qed

lemma setenv_ok:
  assumes rep: "represents cs xs" and m: "argv_mem_ok (ec_mem c)" "argv_mem_total (ec_mem c)" "\<not> ec_is_environ c"
    and k: "name_ok k" and room: "int (length xs) + 2 \<le> INT_MAX"
  shows "\<exists>cs'. ocoms_setenv c k v overwrite (Some (Some cs)) =
       Some (if env_lookup xs k \<noteq> None \<and> \<not> overwrite then OCOMS_EXISTS else OCOMS_SUCCESS, Some (Some cs')) \<and>
     represents cs' (if env_lookup xs k \<noteq> None \<and> \<not> overwrite then xs
       else env_put xs k (k @ CHR ''='' # (case v of None \<Rightarrow> '''' | Some x \<Rightarrow> x)))"
proof -
  let ?e = "k @ CHR ''='' # (case v of None \<Rightarrow> '''' | Some x \<Rightarrow> x)"
  have nv: "strdup (ec_mem c) (case v of None \<Rightarrow> k @ ''='' | Some x \<Rightarrow> k @ ''='' @ x) = Some ?e"
    using m by (simp split: option.split)
  note find = env_find_ok [OF rep k, of 0, folded env_hit_def]
  show ?thesis
  proof (cases "\<exists>e \<in> set xs. env_hit k e")
    case True
    let ?i = "length (takeWhile (\<lambda>e. \<not> env_hit k e) xs)"
    have i: "?i < length xs" "env_put xs k ?e = xs[?i := ?e]" using env_put_found [OF True] by blast+
    have "represents (cs[?i := Some ?e]) (xs[?i := ?e])"
      using rep i(1) by (rule represents_update)
    moreover have "?i < length cs" using i(1) rep by (simp add: represents_def)
    moreover have "env_lookup xs k \<noteq> None" using True by (simp add: env_lookup_None)
    ultimately show ?thesis using True find nv m rep i
      by (auto simp: ocoms_setenv_def Let_def)
  next
    case False
    have "argv_rep (Some cs) xs" using rep by simp
    from append_ok [OF this m(1) room, of "int (length xs)" ?e] m(2) obtain n cs' where
      A: "ocoms_argv_append (ec_mem c) (int (length xs)) (Some cs) ?e = Some (OCOMS_SUCCESS, n, Some cs')"
        "represents cs' (xs @ [?e])" by auto
    have "ocoms_argv_count (Some cs) = Some (int (length xs))" using argv_count_ok [of "Some cs" xs] rep room by simp
    moreover have "env_lookup xs k = None" using False by (simp add: env_lookup_None)
    ultimately show ?thesis using False find nv m A env_put_new [OF False]
      by (auto simp: ocoms_setenv_def Let_def)
  qed
qed

lemma unsetenv_ok:
  assumes rep: "represents cs xs" and m: "argv_mem_total (ec_mem c)" and k: "name_ok k"
  shows "\<exists>cs'. ocoms_unsetenv c k (Some cs) =
       Some (if env_lookup xs k = None then OCOMS_ERR_NOT_FOUND else OCOMS_SUCCESS, Some cs') \<and>
     represents cs' (env_del xs k)"
proof -
  note find = env_find_ok [OF rep k, of 0, folded env_hit_def]
  show ?thesis
  proof (cases "\<exists>e \<in> set xs. env_hit k e")
    case True
    let ?i = "length (takeWhile (\<lambda>e. \<not> env_hit k e) xs)"
    have "?i < length xs" using env_put_found [OF True] by blast
    from close_gap_ok [OF rep this] obtain cs' where "env_close_gap cs ?i = Some cs'"
      "represents cs' (env_del xs k)" unfolding env_del_found [OF True] by blast
    moreover have "env_lookup xs k \<noteq> None" using True by (simp add: env_lookup_None)
    ultimately show ?thesis using True find m by (auto simp: ocoms_unsetenv_def)
  next
    case False
    then have "env_lookup xs k = None" by (simp add: env_lookup_None)
    moreover have "env_del xs k = xs" using False by (induction xs) auto
    ultimately show ?thesis using False find m rep by (auto simp: ocoms_unsetenv_def)
  qed
qed

section \<open>Merging\<close>

definition minor_lookup :: "string list \<Rightarrow> string \<Rightarrow> string option" where
  "minor_lookup ys k = map_option entry_value (find (\<lambda>e. entry_name e = k) ys)"

lemma entry_name_ok: "name_ok (entry_name e)"
  by (auto simp: name_ok_def entry_name_def dest: set_takeWhileD)

lemma not_entry: "CHR ''='' \<notin> set e \<Longrightarrow> entry_name e = e \<and> entry_value e = ''''"
proof -
  assume "CHR ''='' \<notin> set e"
  then have a: "\<forall>x \<in> set e. x \<noteq> CHR ''=''" by auto
  then have "dropWhile (\<lambda>c. c \<noteq> CHR ''='') e = []" by simp
  then have "entry_value e = ''''" by (simp only: entry_value_def drop_Nil)
  with a show ?thesis by (simp add: entry_name_def takeWhile_eq_all_conv)
qed

lemma minor_setenv:
  assumes "represents zc zs" and m: "argv_mem_ok m" "argv_mem_total m" and "int (length zs) + 2 \<le> INT_MAX"
  shows "\<exists>rc zc'. env_merge_one m e (Some zc) = Some (rc, Some (Some zc')) \<and>
     represents zc' (if env_lookup zs (entry_name e) \<noteq> None then zs
        else env_put zs (entry_name e) (entry_name e @ CHR ''='' # entry_value e))"
proof -
  let ?c = "\<lparr>ec_mem = m, ec_is_environ = False, ec_putenv = \<lambda>cs s. cs\<rparr>"
  have c: "argv_mem_ok (ec_mem ?c)" "argv_mem_total (ec_mem ?c)" "\<not> ec_is_environ ?c" using m by simp_all
  note S = setenv_ok [OF assms(1) c entry_name_ok assms(4), of e _ False, simplified]
  show ?thesis
  proof (cases "CHR ''='' \<in> set e")
    case True
    with S [of "Some (entry_value e)"] m show ?thesis
      by (auto simp: env_merge_one_def Let_def entry_name_def entry_value_def)
  next
    case False
    with S [of None] not_entry [of e] show ?thesis by (auto simp: env_merge_one_def Let_def)
  qed
qed

lemma merge_loop_ok:
  assumes "argv_mem_ok m" and "argv_mem_total m" and "represents cs ys" and "represents zc zs"
    and "names_distinct zs" and "int (length zs) + int (length ys) + 2 \<le> INT_MAX"
  shows "\<exists>r rs. env_merge_loop m cs (Some zc) = Some (Some r) \<and> represents r rs \<and> names_distinct rs \<and>
     env_lookup rs = minor_lookup ys ++ env_lookup zs"
  using assms(3-)
proof (induction ys arbitrary: cs zc zs)
  case Nil
  then have "env_merge_loop m cs (Some zc) = Some (Some zc)" by (cases cs) (auto simp: represents_nil)
  moreover have "minor_lookup [] = Map.empty" by (auto simp: minor_lookup_def)
  ultimately show ?case using Nil by auto
next
  case (Cons y ys)
  then obtain cs' where cs: "cs = Some y # cs'" "represents cs' ys"
    by (cases cs) (auto simp: represents_cons, auto simp: represents_def)
  let ?k = "entry_name y" and ?v = "entry_value y"
  let ?zs = "if env_lookup zs ?k \<noteq> None then zs else env_put zs ?k (?k @ CHR ''='' # ?v)"
  have "int (length zs) + 2 \<le> INT_MAX" using Cons.prems(4) by simp
  from minor_setenv [OF Cons.prems(2) assms(1,2) this, of y] obtain rc zc' where
    S: "env_merge_loop m cs (Some zc) = env_merge_loop m cs' (Some zc')" "represents zc' ?zs"
    unfolding cs(1) by auto
  have "length ?zs \<le> Suc (length zs)" using env_put_new [of zs ?k] by (simp add: env_lookup_None)
  then have room: "int (length ?zs) + int (length ys) + 2 \<le> INT_MAX" using Cons.prems(4) by simp
  have dis: "names_distinct ?zs" using Cons.prems(3) names_distinct_put [OF entry_name_ok] by simp
  from Cons.IH [OF cs(2) S(2) dis room] obtain r rs where R: "env_merge_loop m cs (Some zc) = Some (Some r)"
    "represents r rs" "names_distinct rs" "env_lookup rs = minor_lookup ys ++ env_lookup ?zs"
    unfolding S(1) by blast
  have "minor_lookup ys ++ env_lookup ?zs = minor_lookup (y # ys) ++ env_lookup zs"
  proof
    fix k
    show "(minor_lookup ys ++ env_lookup ?zs) k = (minor_lookup (y # ys) ++ env_lookup zs) k"
    proof (cases "k = ?k")
      case True
      then show ?thesis
        by (auto simp: map_add_def minor_lookup_def env_lookup_put [OF entry_name_ok] split: option.splits)
    next
      case False
      then have "minor_lookup (y # ys) k = minor_lookup ys k" by (auto simp: minor_lookup_def)
      with False show ?thesis
        by (simp add: map_add_def env_lookup_put [OF entry_name_ok] split: option.split)
    qed
  qed
  with R show ?case by auto
qed

section \<open>The environment as a keyed store\<close>

type_synonym env_state = "env_ctx \<times> cells"

definition env_list :: "cells \<Rightarrow> string list" where
  "env_list cs = map the (takeWhile (\<lambda>c. c \<noteq> None) cs)"

lemma represents_env_list: "represents cs xs \<Longrightarrow> env_list cs = xs"
proof (induction xs arbitrary: cs)
  case Nil
  then show ?case by (cases cs) (auto simp: represents_nil env_list_def)
next
  case (Cons x xs)
  then obtain cs' where "cs = Some x # cs'" "represents cs' xs"
    by (cases cs) (auto simp: represents_cons, auto simp: represents_def)
  with Cons.IH show ?case by (simp add: env_list_def)
qed

fun env_inv :: "env_state \<Rightarrow> bool" where
  "env_inv (c, cs) \<longleftrightarrow> represents cs (env_list cs) \<and> names_distinct (env_list cs) \<and>
     argv_mem_ok (ec_mem c) \<and> argv_mem_total (ec_mem c) \<and> \<not> ec_is_environ c"

fun env_look :: "env_state \<Rightarrow> string \<Rightarrow> string option" where
  "env_look (c, cs) k = env_lookup (env_list cs) k"

text \<open>Setting with overwriting and unsetting, for names without \<open>=\<close> in vectors with room.\<close>

fun env_set :: "env_state \<Rightarrow> string \<Rightarrow> string \<Rightarrow> env_state option" where
  "env_set (c, cs) k v =
     (if name_ok k \<and> int (length cs) + 2 \<le> INT_MAX then
        (case ocoms_setenv c k (Some v) True (Some (Some cs)) of
           Some (rc, Some (Some cs')) \<Rightarrow> if rc = OCOMS_SUCCESS then Some (c, cs') else None | _ \<Rightarrow> None)
      else None)"

fun env_unset :: "env_state \<Rightarrow> string \<Rightarrow> env_state option" where
  "env_unset (c, cs) k =
     (if name_ok k then (case ocoms_unsetenv c k (Some cs) of
           Some (rc, Some cs') \<Rightarrow> if rc = OCOMS_SUCCESS then Some (c, cs') else None | _ \<Rightarrow> None)
      else None)"

lemma env_set_ok:
  assumes "env_inv s" and "env_set s k v = Some s'"
  shows "env_inv s' \<and> env_look s' = (env_look s)(k \<mapsto> v)"
proof -
  obtain c cs where s: "s = (c, cs)" by (cases s)
  let ?xs = "env_list cs"
  have I: "represents cs ?xs" "names_distinct ?xs" "argv_mem_ok (ec_mem c)" "argv_mem_total (ec_mem c)"
    "\<not> ec_is_environ c" using assms(1) s by simp_all
  have k: "name_ok k" "int (length cs) + 2 \<le> INT_MAX" using assms(2) s by (simp_all split: if_splits)
  have "int (length ?xs) + 2 \<le> INT_MAX" using I(1) k(2) by (simp add: represents_def)
  from setenv_ok [OF I(1,3,4,5) k(1) this, of "Some v" True] obtain cs' where
    S: "ocoms_setenv c k (Some v) True (Some (Some cs)) = Some (OCOMS_SUCCESS, Some (Some cs'))"
      "represents cs' (env_put ?xs k (k @ CHR ''='' # v))" by auto
  have s': "s' = (c, cs')" using assms(2) S(1) k unfolding s by simp
  have "env_list cs' = env_put ?xs k (k @ CHR ''='' # v)" using S(2) by (rule represents_env_list)
  with S(2) I names_distinct_put [OF k(1) I(2)] show ?thesis
    by (simp add: s s' env_lookup_put [OF k(1)] fun_eq_iff)
qed

lemma env_unset_ok:
  assumes "env_inv s" and "env_unset s k = Some s'"
  shows "env_inv s' \<and> env_look s' = (env_look s)(k := None)"
proof -
  obtain c cs where s: "s = (c, cs)" by (cases s)
  let ?xs = "env_list cs"
  have I: "represents cs ?xs" "names_distinct ?xs" "argv_mem_ok (ec_mem c)" "argv_mem_total (ec_mem c)"
    "\<not> ec_is_environ c" using assms(1) s by simp_all
  have k: "name_ok k" using assms(2) s by (simp split: if_splits)
  from unsetenv_ok [OF I(1,4) k] obtain cs' where
    S: "ocoms_unsetenv c k (Some cs) = Some (if env_lookup ?xs k = None then OCOMS_ERR_NOT_FOUND else OCOMS_SUCCESS, Some cs')"
      "represents cs' (env_del ?xs k)" by blast
  have s': "s' = (c, cs')" using assms(2) S(1) k unfolding s by (simp split: if_splits)
  have "env_list cs' = env_del ?xs k" using S(2) by (rule represents_env_list)
  with S(2) I names_distinct_del [OF I(2)] show ?thesis
    by (simp add: s s' env_lookup_del [OF I(2)] fun_eq_iff)
qed

interpretation envs: keyed_store_del env_inv env_look env_set env_unset
  by unfold_locales (use env_set_ok env_unset_ok in blast)+

section \<open>Properties\<close>

definition ctx_always :: env_ctx where
  "ctx_always = \<lparr>ec_mem = mem_always, ec_is_environ = False, ec_putenv = \<lambda>cs s. cs\<rparr>"

lemma env_example:
  "represents [Some ''A=1'', Some ''B=2'', None] [''A=1'', ''B=2'']" "names_distinct [''A=1'', ''B=2'']"
  by (simp_all add: represents_cons represents_nil names_distinct_def is_entry_def entry_name_def)

text \<open>
  Setting a variable keeps one entry per name: an existing entry is replaced only when
  overwriting is allowed (otherwise \<open>OCOMS_EXISTS\<close> and no change), a new one is appended; every
  other variable keeps its value.
\<close>

theorem setenv_updates:
  assumes "represents cs xs" and "names_distinct xs" and "argv_mem_ok (ec_mem c)" and "argv_mem_total (ec_mem c)"
    and "\<not> ec_is_environ c" and "name_ok k" and "int (length xs) + 2 \<le> INT_MAX"
  shows "\<exists>rc cs' xs'. ocoms_setenv c k (Some v) overwrite (Some (Some cs)) = Some (rc, Some (Some cs')) \<and>
     represents cs' xs' \<and> names_distinct xs' \<and>
     (if env_lookup xs k \<noteq> None \<and> \<not> overwrite then rc = OCOMS_EXISTS \<and> xs' = xs
      else rc = OCOMS_SUCCESS \<and> env_lookup xs' = (env_lookup xs)(k \<mapsto> v))"
proof -
  from setenv_ok [OF assms(1,3,4,5,6,7), of "Some v" overwrite, unfolded option.case] obtain cs' where
    S: "ocoms_setenv c k (Some v) overwrite (Some (Some cs)) =
       Some (if env_lookup xs k \<noteq> None \<and> \<not> overwrite then OCOMS_EXISTS else OCOMS_SUCCESS, Some (Some cs'))"
    "represents cs' (if env_lookup xs k \<noteq> None \<and> \<not> overwrite then xs else env_put xs k (k @ CHR ''='' # v))"
    by blast
  show ?thesis
  proof (cases "env_lookup xs k \<noteq> None \<and> \<not> overwrite")
    case True
    with S assms(2) show ?thesis by auto
  next
    case False
    with S names_distinct_put [OF assms(6,2)] env_lookup_put [OF assms(6)] show ?thesis by auto
  qed
qed

theorem setenv_updates_witness:
  "\<exists>cs'. ocoms_setenv ctx_always ''A'' (Some ''x'') False (Some (Some [Some ''A=1'', Some ''B=2'', None]))
      = Some (OCOMS_EXISTS, Some (Some cs')) \<and> represents cs' [''A=1'', ''B=2'']"
proof -
  have "env_lookup [''A=1'', ''B=2''] ''A'' \<noteq> None"
    by (simp add: env_lookup_def is_entry_def entry_name_def)
  moreover have "name_ok ''A''" by (simp add: name_ok_def)
  ultimately show ?thesis
    using setenv_updates [OF env_example, of ctx_always "''A''" "''x''" False]
    by (auto simp: ctx_always_def INT_MAX_def)
qed

text \<open>
  C8: Merging two environments gives one entry per name; a variable of the major environment keeps
  its value there, any other has the value of its first entry in the minor one.
\<close>

theorem merge_prefers_major:
  assumes "argv_mem_ok m" and "argv_mem_total m" and "represents maj xs" and "represents mnr ys"
    and "names_distinct xs" and "int (length xs) + int (length ys) + 2 \<le> INT_MAX"
  shows "\<exists>r rs. ocoms_environ_merge m (Some mnr) (Some maj) = Some (Some r) \<and> represents r rs \<and>
     names_distinct rs \<and> env_lookup rs = minor_lookup ys ++ env_lookup xs"
proof -
  have "int (length xs) + 2 \<le> INT_MAX" using assms(6) by simp
  from copy_ok [OF assms(2,1,3) this] obtain zc where "ocoms_argv_copy m (Some maj) = Some (Some zc)" "represents zc xs"
    by blast
  with merge_loop_ok [OF assms(1,2,4) _ assms(5,6), of zc] show ?thesis
    by (simp add: ocoms_environ_merge_def)
qed

theorem merge_prefers_major_witness:
  "\<exists>r rs. ocoms_environ_merge mem_always (Some [Some ''A=9'', Some ''C'', None]) (Some [Some ''A=1'', Some ''B=2'', None])
      = Some (Some r) \<and> represents r rs \<and> env_lookup rs ''A'' = Some ''1'' \<and> env_lookup rs ''C'' = Some ''''"
proof -
  have mnr: "represents [Some ''A=9'', Some ''C'', None] [''A=9'', ''C'']"
    by (simp add: represents_cons represents_nil)
  have "env_lookup [''A=1'', ''B=2''] ''A'' = Some ''1''" "env_lookup [''A=1'', ''B=2''] ''C'' = None"
    "minor_lookup [''A=9'', ''C''] ''C'' = Some ''''"
    by (simp_all add: env_lookup_def minor_lookup_def is_entry_def entry_name_def entry_value_def)
  moreover obtain r rs where "ocoms_environ_merge mem_always (Some [Some ''A=9'', Some ''C'', None])
      (Some [Some ''A=1'', Some ''B=2'', None]) = Some (Some r)" "represents r rs"
    "env_lookup rs = minor_lookup [''A=9'', ''C''] ++ env_lookup [''A=1'', ''B=2'']"
    using merge_prefers_major [OF mem_always_ok env_example(1) mnr env_example(2)] by (auto simp: INT_MAX_def)
  ultimately show ?thesis by (intro exI [of _ r] exI [of _ rs]) (simp add: map_add_def)
qed

text \<open>
  C9: Any sequence of successful overwriting sets and unsets acts on an environment as it does on a
  map from names to values.
\<close>

theorem environ_refines_map:
  assumes "env_inv s" and "run_store env_set env_unset s ops = Some s'"
  shows "env_inv s' \<and> env_look s' = map_ops (env_look s) ops"
  by (rule envs.run_store_refines [OF assms])

theorem environ_refines_map_witness:
  "\<exists>s'. run_store env_set env_unset (ctx_always, [Some ''A=1'', Some ''B=2'', None]) [Del ''A''] = Some s' \<and>
     env_look s' ''A'' = None \<and> env_look s' ''B'' = Some ''2''"
proof -
  let ?cs = "[Some ''A=1'', Some ''B=2'', None]"
  have l: "env_list ?cs = [''A=1'', ''B=2'']" by (simp add: env_list_def)
  have inv: "env_inv (ctx_always, ?cs)" using env_example by (simp add: l ctx_always_def)
  have k: "name_ok ''A''" by (simp add: name_ok_def)
  have look: "env_lookup [''A=1'', ''B=2''] ''A'' \<noteq> None" "env_lookup [''A=1'', ''B=2''] ''B'' = Some ''2''"
    by (simp_all add: env_lookup_def is_entry_def entry_name_def entry_value_def)
  from unsetenv_ok [OF env_example(1) _ k, of ctx_always] look obtain s' where
    run: "run_store env_set env_unset (ctx_always, ?cs) [Del ''A''] = Some s'"
    using k by (auto simp: ctx_always_def)
  from environ_refines_map [OF inv run] run look show ?thesis by (auto simp: l)
qed

text \<open>
  C10: When the vector cannot be grown, setting a new variable reports success, although the vector
  is gone: the code ignores the failed append.
\<close>

theorem setenv_loses_environment:
  assumes "represents cs xs" and "name_ok k" and "env_lookup xs k = None" and "\<not> ec_is_environ c"
    and "int (length xs) + 2 \<le> INT_MAX" and "\<forall>n. char_alloc (ec_mem c) n \<noteq> None"
    and "cell_alloc (ec_mem c) (length xs + 2) = None"
  shows "ocoms_setenv c k (Some v) overwrite (Some (Some cs)) = Some (OCOMS_SUCCESS, Some None)"
proof -
  have dup: "strdup (ec_mem c) s = Some s" for s using assms(6) by (auto simp: strdup_def)
  have count: "ocoms_argv_count (Some cs) = Some (int (length xs))"
    using argv_count_ok [of "Some cs" xs] assms(1,5) by simp
  have "nat (int (length xs) + 2) = length xs + 2" by simp
  then have "ocoms_argv_append (ec_mem c) n (Some cs) s = Some (OCOMS_ERR_OUT_OF_RESOURCE, n, None)" for n s
    using count assms(5,7)
    by (simp add: ocoms_argv_append_def ocoms_argv_append_nosize_def realloc_def INT_MIN_def)
  moreover have "\<not> (\<exists>e \<in> set xs. is_entry e \<and> entry_name e = k)"
    using assms(3) by (auto simp: env_lookup_None env_hit_def)
  ultimately show ?thesis
    using dup count assms(4) env_find_ok [OF assms(1,2), of 0] by (auto simp: ocoms_setenv_def Let_def)
qed

theorem setenv_loses_environment_witness:
  "ocoms_setenv \<lparr>ec_mem = \<lparr>cell_alloc = \<lambda>n. None, char_alloc = \<lambda>n. Some (replicate n CHR 0x41)\<rparr>,
      ec_is_environ = False, ec_putenv = \<lambda>cs s. cs\<rparr> ''C'' (Some ''x'') True (Some (Some [Some ''A=1'', Some ''B=2'', None]))
    = Some (OCOMS_SUCCESS, Some None)"
  by (rule setenv_loses_environment [OF env_example(1)])
    (simp_all add: name_ok_def env_lookup_def is_entry_def entry_name_def INT_MAX_def)

end
