(* ===== verification/Checksum.thy ===== *)
theory Checksum
  imports Interfaces
begin

unbundle bit_operations_syntax

text \<open>
  The checksums of \<open>ocoms/util/crc.c\<close>: the additive checksums over \<open>unsigned long\<close> and \<open>unsigned
  int\<close> words, with and without copying, and the table-driven CRC-32.  The code for the two word
  sizes is the same text over another type, so it is modelled once over \<open>'w word\<close> and
  instantiated at 64 and 32 bits (an LP64 platform, whose alignment of \<open>long\<close> is 8).

  An object that \<open>memcpy\<close> writes into (\<open>temp\<close> and \<open>*lastPartialLong\<close>) is its list of bytes; \<open>wob\<close>
  reads it as a word, in either byte order.  The source is the list of bytes at an address, the
  destination another; they do not overlap.  A read or write through a word pointer is undefined
  unless its address is aligned.
\<close>

section \<open>Words in memory\<close>

type_synonym bytes = "8 word list"

definition wsize :: "'w::len itself \<Rightarrow> nat" where
  "wsize T = LENGTH('w) div 8"

definition wob :: "bool \<Rightarrow> bytes \<Rightarrow> 'w::len word" where
  "wob bigendian bs = word_rcat (if bigendian then bs else rev bs)"

definition get_bytes :: "bytes \<Rightarrow> nat \<Rightarrow> nat \<Rightarrow> bytes option" where
  "get_bytes src pos n = (if pos + n \<le> length src then Some (take n (drop pos src)) else None)"

definition put_bytes :: "bytes \<Rightarrow> nat \<Rightarrow> bytes \<Rightarrow> bytes option" where
  "put_bytes dst pos bs =
     (if pos + length bs \<le> length dst then Some (take pos dst @ bs @ drop (pos + length bs) dst) else None)"

definition zero_word :: "'w::len itself \<Rightarrow> bytes" where
  "zero_word T = replicate (wsize T) 0"

text \<open>What a call is given: the source, the addresses of source and destination, the byte order.\<close>

record cs_in =
  ci_src :: bytes
  ci_saddr :: nat
  ci_daddr :: nat
  ci_bigendian :: bool

text \<open>The variables of a call: positions in source and destination, the sum, the length left to
  copy and the partial word with its length.\<close>

record 'w cs_state =
  cs_spos :: nat
  cs_dpos :: nat
  cs_dst :: bytes
  cs_sum :: "'w"
  cs_len :: nat
  cs_part :: bytes
  cs_plen :: nat

definition src_aligned :: "'w::len itself \<Rightarrow> cs_in \<Rightarrow> nat \<Rightarrow> bool" where
  "src_aligned T ci pos \<longleftrightarrow> (ci_saddr ci + pos) mod wsize T = 0"

definition dst_aligned :: "'w::len itself \<Rightarrow> cs_in \<Rightarrow> nat \<Rightarrow> bool" where
  "dst_aligned T ci pos \<longleftrightarrow> (ci_daddr ci + pos) mod wsize T = 0"

section \<open>Checksum without copying\<close>

text \<open>One word is added: through the pointer (\<open>ra\<close>) or through \<open>memcpy\<close>.\<close>

definition csum_word :: "bool \<Rightarrow> cs_in \<Rightarrow> ('w::len word) cs_state \<Rightarrow> ('w word) cs_state option" where
  "csum_word ra ci s = do {
     assert_c (ra \<longrightarrow> src_aligned TYPE('w) ci (cs_spos s));
     bs \<leftarrow> get_bytes (ci_src ci) (cs_spos s) (wsize TYPE('w));
     Some (s\<lparr>cs_sum := cs_sum s + wob (ci_bigendian ci) bs, cs_spos := cs_spos s + wsize TYPE('w)\<rparr>) }"

fun csum_words :: "bool \<Rightarrow> cs_in \<Rightarrow> nat \<Rightarrow> ('w::len word) cs_state \<Rightarrow> ('w word) cs_state option" where
  "csum_words ra ci 0 s = Some s"
| "csum_words ra ci (Suc n) s = do { s' \<leftarrow> csum_word ra ci s; csum_words ra ci n s' }"

text \<open>The words loop over \<open>csumlen/sizeof\<close> words and the reset after it.\<close>

definition csum_run :: "bool \<Rightarrow> cs_in \<Rightarrow> ('w::len word) cs_state \<Rightarrow> ('w word) cs_state option" where
  "csum_run ra ci s = do {
     s' \<leftarrow> csum_words ra ci (cs_len s div wsize TYPE('w)) s;
     Some (s'\<lparr>cs_len := cs_len s - cs_len s div wsize TYPE('w) * wsize TYPE('w),
              cs_part := zero_word TYPE('w), cs_plen := 0\<rparr>) }"

text \<open>\<open>memcpy\<close> of \<open>n\<close> source bytes into the partial word, whose change goes into the sum.\<close>

definition csum_merge :: "cs_in \<Rightarrow> nat \<Rightarrow> ('w::len word) cs_state \<Rightarrow> (('w word) cs_state \<times> bytes) option" where
  "csum_merge ci n s = do {
     bs \<leftarrow> get_bytes (ci_src ci) (cs_spos s) n;
     temp \<leftarrow> put_bytes (cs_part s) (cs_plen s) bs;
     Some (s\<lparr>cs_sum := cs_sum s + (wob (ci_bigendian ci) temp - wob (ci_bigendian ci) (cs_part s)),
             cs_spos := cs_spos s + n, cs_len := cs_len s - n\<rparr>, temp) }"

text \<open>The \<open>NO\<close> branches: not enough data to fill the partial word.\<close>

definition csum_absorb :: "cs_in \<Rightarrow> ('w::len word) cs_state \<Rightarrow> ('w word) cs_state option" where
  "csum_absorb ci s = do {
     (s', temp) \<leftarrow> csum_merge ci (cs_len s) s;
     Some (s'\<lparr>cs_part := temp, cs_plen := cs_plen s + cs_len s, cs_len := 0\<rparr>) }"

text \<open>What is left after the words, less than a word's worth.\<close>

definition csum_tail :: "cs_in \<Rightarrow> ('w::len word) cs_state \<Rightarrow> ('w word) cs_state option" where
  "csum_tail ci s =
     (if cs_len s = 0 then Some s
      else if cs_plen s \<noteq> 0 then
        (if cs_len s \<ge> wsize TYPE('w) - cs_plen s then do {
           (s1, temp) \<leftarrow> csum_merge ci (wsize TYPE('w) - cs_plen s) s;
           bs \<leftarrow> get_bytes (ci_src ci) (cs_spos s1) (cs_len s1);
           temp' \<leftarrow> put_bytes (zero_word TYPE('w)) 0 bs;
           Some (s1\<lparr>cs_plen := cs_len s1, cs_sum := cs_sum s1 + wob (ci_bigendian ci) temp', cs_part := temp'\<rparr>) }
         else do {
           (s1, temp) \<leftarrow> csum_merge ci (cs_len s) s;
           Some (s1\<lparr>cs_part := temp, cs_plen := cs_plen s + cs_len s\<rparr>) })
      else do {
        bs \<leftarrow> get_bytes (ci_src ci) (cs_spos s) (cs_len s);
        temp \<leftarrow> put_bytes (cs_part s) 0 bs;
        Some (s\<lparr>cs_sum := cs_sum s + wob (ci_bigendian ci) temp, cs_part := temp, cs_plen := cs_len s\<rparr>) })"

text \<open>
  \<open>ocoms_csum_partial\<close> and \<open>ocoms_uicsum_partial\<close>: the checksum of the first \<open>csumlen\<close> bytes and the
  new partial word.
\<close>

definition csum_partial ::
  "cs_in \<Rightarrow> nat \<Rightarrow> bytes \<Rightarrow> nat \<Rightarrow> (('w::len word) \<times> bytes \<times> nat) option" where
  "csum_partial ci csumlen part plen = do {
     let s = \<lparr>cs_spos = 0, cs_dpos = 0, cs_dst = [], cs_sum = 0, cs_len = csumlen, cs_part = part, cs_plen = plen\<rparr>;
     (fin, s1) \<leftarrow>
       (if src_aligned TYPE('w) ci 0 then
          (if plen \<noteq> 0 then
             (if csumlen \<ge> wsize TYPE('w) - plen then do {
                (s1, temp) \<leftarrow> csum_merge ci (wsize TYPE('w) - plen) s;
                s2 \<leftarrow> csum_run False ci s1;
                Some (False, s2) }
              else map_option (Pair False) (csum_absorb ci s))
           else do {
             s1 \<leftarrow> csum_run True ci s;
             Some (csumlen mod wsize TYPE('w) = 0, s1) })
        else
          (if plen \<noteq> 0 then
             (if csumlen \<ge> wsize TYPE('w) - plen then do {
                (s1, temp) \<leftarrow> csum_merge ci (wsize TYPE('w) - plen) s;
                s2 \<leftarrow> csum_run (src_aligned TYPE('w) ci (cs_spos s1)) ci s1;
                Some (False, s2) }
              else map_option (Pair False) (csum_absorb ci s))
           else map_option (Pair False) (csum_run False ci s)));
     s2 \<leftarrow> (if fin then Some s1 else csum_tail ci s1);
     Some (cs_sum s2, cs_part s2, cs_plen s2) }"

definition ocoms_csum_partial :: "cs_in \<Rightarrow> nat \<Rightarrow> bytes \<Rightarrow> nat \<Rightarrow> (64 word \<times> bytes \<times> nat) option" where
  "ocoms_csum_partial = csum_partial"

definition ocoms_uicsum_partial :: "cs_in \<Rightarrow> nat \<Rightarrow> bytes \<Rightarrow> nat \<Rightarrow> (32 word \<times> bytes \<times> nat) option" where
  "ocoms_uicsum_partial = csum_partial"

definition ocoms_csum :: "cs_in \<Rightarrow> nat \<Rightarrow> 64 word option" where
  "ocoms_csum ci csumlen = map_option fst (ocoms_csum_partial ci csumlen (replicate 8 0) 0)"

definition ocoms_uicsum :: "cs_in \<Rightarrow> nat \<Rightarrow> 32 word option" where
  "ocoms_uicsum ci csumlen = map_option fst (ocoms_uicsum_partial ci csumlen (replicate 4 0) 0)"

section \<open>Checksum with copying\<close>

text \<open>One word is copied and added; \<open>ra\<close> and \<open>wa\<close> tell the accesses through the word pointers.\<close>

definition bcopy_word :: "bool \<Rightarrow> bool \<Rightarrow> cs_in \<Rightarrow> ('w::len word) cs_state \<Rightarrow> ('w word) cs_state option" where
  "bcopy_word ra wa ci s = do {
     assert_c (ra \<longrightarrow> src_aligned TYPE('w) ci (cs_spos s));
     bs \<leftarrow> get_bytes (ci_src ci) (cs_spos s) (wsize TYPE('w));
     assert_c (wa \<longrightarrow> dst_aligned TYPE('w) ci (cs_dpos s));
     dst \<leftarrow> put_bytes (cs_dst s) (cs_dpos s) bs;
     Some (s\<lparr>cs_sum := cs_sum s + wob (ci_bigendian ci) bs, cs_spos := cs_spos s + wsize TYPE('w),
             cs_dst := dst, cs_dpos := cs_dpos s + wsize TYPE('w)\<rparr>) }"

fun bcopy_words :: "bool \<Rightarrow> bool \<Rightarrow> cs_in \<Rightarrow> nat \<Rightarrow> ('w::len word) cs_state \<Rightarrow> ('w word) cs_state option" where
  "bcopy_words ra wa ci 0 s = Some s"
| "bcopy_words ra wa ci (Suc n) s = do { s' \<leftarrow> bcopy_word ra wa ci s; bcopy_words ra wa ci n s' }"

text \<open>The loops over a word count, and the loops that count \<open>copylen\<close> down.\<close>

definition bcopy_run :: "bool \<Rightarrow> bool \<Rightarrow> cs_in \<Rightarrow> ('w::len word) cs_state \<Rightarrow> ('w word) cs_state option" where
  "bcopy_run ra wa ci s = do {
     s' \<leftarrow> bcopy_words ra wa ci (cs_len s div wsize TYPE('w)) s;
     Some (s'\<lparr>cs_len := cs_len s - cs_len s div wsize TYPE('w) * wsize TYPE('w)\<rparr>) }"

function bcopy_while :: "bool \<Rightarrow> bool \<Rightarrow> cs_in \<Rightarrow> ('w::len word) cs_state \<Rightarrow> ('w word) cs_state option" where
  "bcopy_while ra wa ci s =
     (if 0 < wsize TYPE('w) \<and> wsize TYPE('w) \<le> cs_len s then do {
        s' \<leftarrow> bcopy_word ra wa ci s;
        bcopy_while ra wa ci (s'\<lparr>cs_len := cs_len s - wsize TYPE('w)\<rparr>) }
      else Some s)"
  by auto
termination by (relation "measure (\<lambda>(ra, wa, ci, s). cs_len s)") auto

declare bcopy_while.simps [simp del]

definition part_reset :: "('w::len word) cs_state \<Rightarrow> ('w word) cs_state" where
  "part_reset s = s\<lparr>cs_part := zero_word TYPE('w), cs_plen := 0\<rparr>"

text \<open>The \<open>YES\<close> branches: the partial word is filled, its new bytes are copied.\<close>

definition bcopy_fill :: "cs_in \<Rightarrow> nat \<Rightarrow> ('w::len word) cs_state \<Rightarrow> (('w word) cs_state \<times> bytes) option" where
  "bcopy_fill ci n s = do {
     (s1, temp) \<leftarrow> csum_merge ci n s;
     dst \<leftarrow> put_bytes (cs_dst s) (cs_dpos s) (take n (drop (cs_plen s) temp));
     Some (s1\<lparr>cs_dst := dst, cs_dpos := cs_dpos s + n\<rparr>, temp) }"

definition bcopy_absorb :: "cs_in \<Rightarrow> ('w::len word) cs_state \<Rightarrow> ('w word) cs_state option" where
  "bcopy_absorb ci s = do {
     (s', temp) \<leftarrow> bcopy_fill ci (cs_len s) s;
     Some (s'\<lparr>cs_part := temp, cs_plen := cs_plen s + cs_len s, cs_len := 0\<rparr>) }"

text \<open>Source and destination aligned; the flag is the early return.\<close>

definition bcopy_both_aligned :: "cs_in \<Rightarrow> nat \<Rightarrow> ('w::len word) cs_state \<Rightarrow> (bool \<times> ('w word) cs_state) option" where
  "bcopy_both_aligned ci residue s =
     (if cs_plen s \<noteq> 0 then
        (if cs_len s \<ge> wsize TYPE('w) - cs_plen s then do {
           (s1, temp) \<leftarrow> bcopy_fill ci (wsize TYPE('w) - cs_plen s) s;
           s2 \<leftarrow> bcopy_while False False ci s1;
           Some (False, part_reset s2) }
         else map_option (Pair False) (bcopy_absorb ci s))
      else do {
        s1 \<leftarrow> bcopy_words True True ci (cs_len s div wsize TYPE('w)) s;
        let s2 = part_reset s1;
        if cs_len s mod wsize TYPE('w) = 0 \<and> residue = 0 then Some (True, s2)
        else Some (False, s2\<lparr>cs_len := cs_len s - cs_len s div wsize TYPE('w) * wsize TYPE('w)\<rparr>) })"

text \<open>Only the source aligned.\<close>

definition bcopy_src_aligned :: "cs_in \<Rightarrow> ('w::len word) cs_state \<Rightarrow> ('w word) cs_state option" where
  "bcopy_src_aligned ci s =
     (if cs_plen s \<noteq> 0 then
        (if cs_len s \<ge> wsize TYPE('w) - cs_plen s then do {
           (s1, temp) \<leftarrow> bcopy_fill ci (wsize TYPE('w) - cs_plen s) s;
           s2 \<leftarrow> (if dst_aligned TYPE('w) ci (cs_dpos s1) then bcopy_run False True ci s1
                 else bcopy_while False False ci s1);
           Some (part_reset s2) }
         else bcopy_absorb ci s)
      else do { s1 \<leftarrow> bcopy_while True False ci s; Some (part_reset s1) })"

text \<open>Only the destination aligned.\<close>

definition bcopy_dst_aligned :: "cs_in \<Rightarrow> ('w::len word) cs_state \<Rightarrow> ('w word) cs_state option" where
  "bcopy_dst_aligned ci s =
     (if cs_plen s \<noteq> 0 then
        (if cs_len s \<ge> wsize TYPE('w) - cs_plen s then do {
           (s1, temp) \<leftarrow> bcopy_fill ci (wsize TYPE('w) - cs_plen s) s;
           s2 \<leftarrow> (if src_aligned TYPE('w) ci (cs_spos s1) then bcopy_while True False ci s1
                 else bcopy_while False False ci s1);
           Some (part_reset s2) }
         else bcopy_absorb ci s)
      else do { s1 \<leftarrow> bcopy_while False True ci s; Some (part_reset s1) })"

text \<open>Neither aligned.\<close>

definition bcopy_unaligned :: "cs_in \<Rightarrow> ('w::len word) cs_state \<Rightarrow> ('w word) cs_state option" where
  "bcopy_unaligned ci s =
     (if cs_plen s \<noteq> 0 then
        (if cs_len s \<ge> wsize TYPE('w) - cs_plen s then do {
           (s1, temp) \<leftarrow> bcopy_fill ci (wsize TYPE('w) - cs_plen s) s;
           s2 \<leftarrow> (if src_aligned TYPE('w) ci (cs_spos s1) \<and> dst_aligned TYPE('w) ci (cs_dpos s1)
                 then bcopy_run True True ci s1 else bcopy_while False False ci s1);
           Some (part_reset s2) }
         else bcopy_absorb ci s)
      else do { s1 \<leftarrow> bcopy_while False False ci s; Some (part_reset s1) })"

text \<open>The last bytes, when nothing is to be summed beyond what is copied.\<close>

definition bcopy_tail :: "cs_in \<Rightarrow> ('w::len word) cs_state \<Rightarrow> ('w word) cs_state option" where
  "bcopy_tail ci s = do {
     rest \<leftarrow> get_bytes (ci_src ci) (cs_spos s) (cs_len s);
     if cs_plen s \<noteq> 0 then do {
       copytemp \<leftarrow> put_bytes (zero_word TYPE('w)) 0 rest;
       dst \<leftarrow> put_bytes (cs_dst s) (cs_dpos s) (take (cs_len s) copytemp);
       if cs_len s \<ge> wsize TYPE('w) - cs_plen s then do {
         (s1, temp) \<leftarrow> csum_merge ci (wsize TYPE('w) - cs_plen s) s;
         bs \<leftarrow> get_bytes (ci_src ci) (cs_spos s1) (cs_len s1);
         temp' \<leftarrow> put_bytes (zero_word TYPE('w)) 0 bs;
         Some (s1\<lparr>cs_dst := dst, cs_plen := cs_len s1, cs_sum := cs_sum s1 + wob (ci_bigendian ci) temp',
                  cs_part := temp'\<rparr>) }
       else do {
         (s1, temp) \<leftarrow> csum_merge ci (cs_len s) s;
         Some (s1\<lparr>cs_dst := dst, cs_part := temp, cs_plen := cs_plen s + cs_len s\<rparr>) } }
     else do {
       temp \<leftarrow> put_bytes (cs_part s) 0 rest;
       dst \<leftarrow> put_bytes (cs_dst s) (cs_dpos s) (take (cs_len s) temp);
       Some (s\<lparr>cs_dst := dst, cs_sum := cs_sum s + wob (ci_bigendian ci) temp, cs_part := temp,
               cs_plen := cs_len s\<rparr>) } }"

text \<open>Summing \<open>residue\<close> bytes beyond those that are copied.\<close>

definition bcopy_residue :: "cs_in \<Rightarrow> nat \<Rightarrow> ('w::len word) cs_state \<Rightarrow> ('w word) cs_state option" where
  "bcopy_residue ci residue s = do {
     s0 \<leftarrow> (if cs_len s \<noteq> 0 then do {
             bs \<leftarrow> get_bytes (ci_src ci) (cs_spos s) (cs_len s);
             temp \<leftarrow> put_bytes (zero_word TYPE('w)) 0 bs;
             dst \<leftarrow> put_bytes (cs_dst s) (cs_dpos s) (take (cs_len s) temp);
             Some (s\<lparr>cs_dst := dst\<rparr>) }
           else Some s);
     (s1, residue1) \<leftarrow>
       (if residue < wsize TYPE('w) - cs_len s - cs_plen s then do {
          (s1, temp) \<leftarrow> csum_merge ci (cs_len s + residue) s0;
          Some (s1\<lparr>cs_part := temp, cs_plen := cs_plen s + (cs_len s + residue)\<rparr>, 0) }
        else do {
          (s1, temp) \<leftarrow> csum_merge ci (wsize TYPE('w) - cs_plen s) s0;
          Some (part_reset s1, residue - (wsize TYPE('w) - cs_plen s - cs_len s)) });
     s2 \<leftarrow> csum_words (residue1 \<noteq> 0 \<and> src_aligned TYPE('w) ci (cs_spos s1)) ci (residue1 div wsize TYPE('w)) s1;
     let residue2 = residue1 - residue1 div wsize TYPE('w) * wsize TYPE('w);
     if residue2 \<noteq> 0 then do {
       bs \<leftarrow> get_bytes (ci_src ci) (cs_spos s2) residue2;
       temp \<leftarrow> put_bytes (zero_word TYPE('w)) 0 bs;
       Some (s2\<lparr>cs_sum := cs_sum s2 + wob (ci_bigendian ci) temp, cs_part := temp, cs_plen := residue2\<rparr>) }
     else Some s2 }"

text \<open>
  \<open>ocoms_bcopy_csum_partial\<close> and \<open>ocoms_bcopy_uicsum_partial\<close>: the checksum, the destination and the
  new partial word.
\<close>

definition bcopy_csum_partial ::
  "cs_in \<Rightarrow> bytes \<Rightarrow> nat \<Rightarrow> nat \<Rightarrow> bytes \<Rightarrow> nat \<Rightarrow> (('w::len word) \<times> bytes \<times> bytes \<times> nat) option" where
  "bcopy_csum_partial ci destination copylen csumlen part plen = do {
     let s = \<lparr>cs_spos = 0, cs_dpos = 0, cs_dst = destination, cs_sum = 0, cs_len = copylen,
              cs_part = part, cs_plen = plen\<rparr>;
     let residue = (if csumlen > copylen then csumlen - copylen else 0);
     (fin, s1) \<leftarrow>
       (if src_aligned TYPE('w) ci 0 \<and> dst_aligned TYPE('w) ci 0 then bcopy_both_aligned ci residue s
        else if src_aligned TYPE('w) ci 0 then map_option (Pair False) (bcopy_src_aligned ci s)
        else if dst_aligned TYPE('w) ci 0 then map_option (Pair False) (bcopy_dst_aligned ci s)
        else map_option (Pair False) (bcopy_unaligned ci s));
     s2 \<leftarrow> (if fin then Some s1
           else if cs_len s1 \<noteq> 0 \<and> residue = 0 then bcopy_tail ci s1
           else if residue \<noteq> 0 then bcopy_residue ci residue s1
           else Some s1);
     Some (cs_sum s2, cs_dst s2, cs_part s2, cs_plen s2) }"

definition ocoms_bcopy_csum_partial ::
  "cs_in \<Rightarrow> bytes \<Rightarrow> nat \<Rightarrow> nat \<Rightarrow> bytes \<Rightarrow> nat \<Rightarrow> (64 word \<times> bytes \<times> bytes \<times> nat) option" where
  "ocoms_bcopy_csum_partial = bcopy_csum_partial"

definition ocoms_bcopy_uicsum_partial ::
  "cs_in \<Rightarrow> bytes \<Rightarrow> nat \<Rightarrow> nat \<Rightarrow> bytes \<Rightarrow> nat \<Rightarrow> (32 word \<times> bytes \<times> bytes \<times> nat) option" where
  "ocoms_bcopy_uicsum_partial = bcopy_csum_partial"

definition ocoms_bcopy_csum :: "cs_in \<Rightarrow> bytes \<Rightarrow> nat \<Rightarrow> nat \<Rightarrow> (64 word \<times> bytes) option" where
  "ocoms_bcopy_csum ci destination copylen csumlen =
     map_option (\<lambda>(c, d, p). (c, d)) (ocoms_bcopy_csum_partial ci destination copylen csumlen (replicate 8 0) 0)"

definition ocoms_bcopy_uicsum :: "cs_in \<Rightarrow> bytes \<Rightarrow> nat \<Rightarrow> nat \<Rightarrow> (32 word \<times> bytes) option" where
  "ocoms_bcopy_uicsum ci destination copylen csumlen =
     map_option (\<lambda>(c, d, p). (c, d)) (ocoms_bcopy_uicsum_partial ci destination copylen csumlen (replicate 4 0) 0)"

section \<open>The 16-bit checksum\<close>

fun csum16_sum :: "bool \<Rightarrow> bytes \<Rightarrow> 32 word \<Rightarrow> 32 word" where
  "csum16_sum be (a # b # bs) csum = csum16_sum be bs (csum + ucast (wob be [a, b] :: 16 word))"
| "csum16_sum be [a] csum = csum + ucast a"
| "csum16_sum be [] csum = csum"

lemma mod_plus_div_less: "0 < n div k \<Longrightarrow> 1 < k \<Longrightarrow> n mod k + n div k < (n :: nat)"
proof -
  assume a: "0 < n div k" "1 < k"
  then have "n div k < k * (n div k)" by simp
  then show ?thesis using mult_div_mod_eq [of k n] by linarith
qed

lemma csum16_fold_less: "drop_bit 16 (c :: 32 word) \<noteq> 0 \<Longrightarrow> unat ((c AND 0xFFFF) + drop_bit 16 c) < unat c"
proof -
  assume h: "drop_bit 16 c \<noteq> 0"
  let ?n = "unat c"
  have "c AND 0xFFFF = take_bit 16 c" by (simp add: take_bit_eq_mask mask_eq_exp_minus_1)
  then have m: "unat (c AND 0xFFFF) = ?n mod 2 ^ 16" by (simp add: unsigned_take_bit_eq) (simp add: take_bit_eq_mod)
  have d: "unat (drop_bit 16 c) = ?n div 2 ^ 16" by (simp add: unat_drop_bit_eq) (simp add: drop_bit_eq_div)
  have lt: "?n < 2 ^ 32" using unsigned_less [of c, where ?'a = nat] by simp
  have pos: "0 < ?n div 2 ^ 16" using h d by (metis gr0I unat_eq_zero)
  have "?n mod 2 ^ 16 + ?n div 2 ^ 16 < ?n" using pos by (rule mod_plus_div_less) simp
  then show ?thesis using lt m d by (simp add: unat_word_ariths)
qed

function csum16_fold :: "32 word \<Rightarrow> 32 word" where
  "csum16_fold csum = (if drop_bit 16 csum \<noteq> 0 then csum16_fold ((csum AND 0xFFFF) + drop_bit 16 csum) else csum)"
  by auto
termination by (relation "measure unat") (simp_all add: csum16_fold_less)

declare csum16_fold.simps [simp del]

definition ocoms_csum16 :: "cs_in \<Rightarrow> nat \<Rightarrow> 16 word option" where
  "ocoms_csum16 ci csumlen = do {
     assert_c (csumlen > 1 \<longrightarrow> ci_saddr ci mod 2 = 0);
     bs \<leftarrow> get_bytes (ci_src ci) 0 csumlen;
     Some (ucast (csum16_fold (csum16_sum (ci_bigendian ci) bs 0))) }"

section \<open>CRC-32\<close>

definition CRC_POLYNOMIAL :: "32 word" where "CRC_POLYNOMIAL = 0x04c11db7"
definition CRC_INITIAL_REGISTER :: "32 word" where "CRC_INITIAL_REGISTER = 0xffffffff"

text \<open>One bit of the table generation.\<close>

definition crc_bit :: "32 word \<Rightarrow> 32 word" where
  "crc_bit crc_accum = (if crc_accum AND 0x80000000 \<noteq> 0 then push_bit 1 crc_accum XOR CRC_POLYNOMIAL
     else push_bit 1 crc_accum)"

text \<open>The globals: whether the table has been initialised, and the table.\<close>

record crc_globals =
  crc_table_initialized :: bool
  crc_table :: "32 word list"

definition ocoms_initialize_crc_table :: "crc_globals \<Rightarrow> crc_globals" where
  "ocoms_initialize_crc_table g = g\<lparr>crc_table := map (\<lambda>i. (crc_bit ^^ 8) (push_bit 24 (word_of_nat i))) [0..<256],
     crc_table_initialized := True\<rparr>"

definition crc_setup :: "crc_globals \<Rightarrow> crc_globals" where
  "crc_setup g = (if \<not> crc_table_initialized g then ocoms_initialize_crc_table g else g)"

definition crc_byte :: "32 word list \<Rightarrow> 32 word \<Rightarrow> 8 word \<Rightarrow> 32 word option" where
  "crc_byte table partial_crc t = do {
     let i = (drop_bit 24 partial_crc XOR ucast t) AND 0xff;
     e \<leftarrow> rdn table (unat i);
     Some (push_bit 8 partial_crc XOR e) }"

fun crc_bytes :: "32 word list \<Rightarrow> bytes \<Rightarrow> 32 word \<Rightarrow> 32 word option" where
  "crc_bytes table [] crc = Some crc"
| "crc_bytes table (t # ts) crc = do { crc' \<leftarrow> crc_byte table crc t; crc_bytes table ts crc' }"

text \<open>The loop over whole integers: an aligned read of four bytes, then a loop over them.\<close>

function crc_ints :: "32 word list \<Rightarrow> cs_in \<Rightarrow> nat \<Rightarrow> nat \<Rightarrow> 32 word \<Rightarrow> (nat \<times> nat \<times> 32 word) option" where
  "crc_ints table ci pos len crc =
     (if len \<ge> 4 then do {
        assert_c ((ci_saddr ci + pos) mod 4 = 0);
        tmp \<leftarrow> get_bytes (ci_src ci) pos 4;
        crc' \<leftarrow> crc_bytes table tmp crc;
        crc_ints table ci (pos + 4) (len - 4) crc' }
      else Some (pos, len, crc))"
  by auto
termination by (relation "measure (\<lambda>(t, ci, pos, len, crc). len)") auto

declare crc_ints.simps [simp del]

definition ocoms_uicrc_partial ::
  "crc_globals \<Rightarrow> cs_in \<Rightarrow> nat \<Rightarrow> 32 word \<Rightarrow> (32 word \<times> crc_globals) option" where
  "ocoms_uicrc_partial g ci crclen partial_crc = do {
     let g' = crc_setup g;
     crc \<leftarrow> (if ci_saddr ci mod 4 = 0 then do {
              (pos, len, crc) \<leftarrow> crc_ints (crc_table g') ci 0 crclen partial_crc;
              ts \<leftarrow> get_bytes (ci_src ci) pos len;
              crc_bytes (crc_table g') ts crc }
            else do {
              ts \<leftarrow> get_bytes (ci_src ci) 0 crclen;
              crc_bytes (crc_table g') ts partial_crc });
     Some (crc, g') }"

definition ocoms_uicrc :: "crc_globals \<Rightarrow> cs_in \<Rightarrow> nat \<Rightarrow> (32 word \<times> crc_globals) option" where
  "ocoms_uicrc g ci crclen = ocoms_uicrc_partial g ci crclen CRC_INITIAL_REGISTER"

text \<open>The copying variant: the integers, then the bytes left to copy, then the bytes only summed.\<close>

function bcopy_crc_ints ::
  "32 word list \<Rightarrow> cs_in \<Rightarrow> bytes \<Rightarrow> nat \<Rightarrow> nat \<Rightarrow> 32 word \<Rightarrow> (bytes \<times> nat \<times> nat \<times> 32 word) option" where
  "bcopy_crc_ints table ci dst pos len crc =
     (if len \<ge> 4 then do {
        assert_c ((ci_saddr ci + pos) mod 4 = 0 \<and> (ci_daddr ci + pos) mod 4 = 0);
        tmp \<leftarrow> get_bytes (ci_src ci) pos 4;
        dst' \<leftarrow> put_bytes dst pos tmp;
        crc' \<leftarrow> crc_bytes table tmp crc;
        bcopy_crc_ints table ci dst' (pos + 4) (len - 4) crc' }
      else Some (dst, pos, len, crc))"
  by auto
termination by (relation "measure (\<lambda>(t, ci, dst, pos, len, crc). len)") auto

declare bcopy_crc_ints.simps [simp del]

fun bcopy_crc_bytes ::
  "32 word list \<Rightarrow> bytes \<Rightarrow> bytes \<Rightarrow> nat \<Rightarrow> 32 word \<Rightarrow> (bytes \<times> 32 word) option" where
  "bcopy_crc_bytes table [] dst pos crc = Some (dst, crc)"
| "bcopy_crc_bytes table (t # ts) dst pos crc = do {
     dst' \<leftarrow> wrn dst pos t;
     crc' \<leftarrow> crc_byte table crc t;
     bcopy_crc_bytes table ts dst' (pos + 1) crc' }"

definition ocoms_bcopy_uicrc_partial ::
  "crc_globals \<Rightarrow> cs_in \<Rightarrow> bytes \<Rightarrow> nat \<Rightarrow> nat \<Rightarrow> 32 word \<Rightarrow> (32 word \<times> bytes \<times> crc_globals) option" where
  "ocoms_bcopy_uicrc_partial g ci destination copylen crclen partial_crc = do {
     let crclenresidue = (if crclen > copylen then crclen - copylen else 0);
     let g' = crc_setup g;
     (dst, pos, len, crc) \<leftarrow>
       (if ci_saddr ci mod 4 = 0 \<and> ci_daddr ci mod 4 = 0
        then bcopy_crc_ints (crc_table g') ci destination 0 copylen partial_crc
        else Some (destination, 0, copylen, partial_crc));
     ts \<leftarrow> get_bytes (ci_src ci) pos len;
     (dst', crc') \<leftarrow> bcopy_crc_bytes (crc_table g') ts dst pos crc;
     rest \<leftarrow> get_bytes (ci_src ci) (pos + len) crclenresidue;
     crc2 \<leftarrow> crc_bytes (crc_table g') rest crc';
     Some (crc2, dst', g') }"

definition ocoms_bcopy_uicrc ::
  "crc_globals \<Rightarrow> cs_in \<Rightarrow> bytes \<Rightarrow> nat \<Rightarrow> nat \<Rightarrow> (32 word \<times> bytes \<times> crc_globals) option" where
  "ocoms_bcopy_uicrc g ci destination copylen crclen =
     ocoms_bcopy_uicrc_partial g ci destination copylen crclen CRC_INITIAL_REGISTER"

section \<open>What the checksum of a byte sequence is\<close>

text \<open>The bytes padded with zeros to a word; the sum of all words, the last one padded; the bytes
  of the last, incomplete word.\<close>

definition pad :: "'w::len itself \<Rightarrow> bytes \<Rightarrow> bytes" where
  "pad T bs = bs @ replicate (wsize T - length bs) 0"

function csum_spec :: "bool \<Rightarrow> bytes \<Rightarrow> 'w::len word" where
  "csum_spec be bs =
     (if wsize TYPE('w) = 0 \<or> length bs < wsize TYPE('w) then wob be (pad TYPE('w) bs)
      else wob be (take (wsize TYPE('w)) bs) + csum_spec be (drop (wsize TYPE('w)) bs))"
  by auto
termination by (relation "measure (\<lambda>(be, bs). length bs)") auto

function csum_rest :: "'w::len itself \<Rightarrow> bytes \<Rightarrow> bytes" where
  "csum_rest T bs =
     (if wsize T = 0 \<or> length bs < wsize T then bs else csum_rest T (drop (wsize T) bs))"
  by auto
termination by (relation "measure (\<lambda>(T, bs). length bs)") auto

declare csum_spec.simps [simp del] csum_rest.simps [simp del]

lemma pad_nil: "pad T [] = zero_word T"
  by (simp add: pad_def zero_word_def)

lemma length_pad: "length bs \<le> wsize T \<Longrightarrow> length (pad T bs) = wsize T"
  by (simp add: pad_def)

lemma wob_zero [simp]: "wob be (replicate n 0) = (0 :: 'w::len word)"
proof -
  have "horner_sum uint (2 ^ 8) (replicate n (0 :: 8 word)) = 0" by (induction n) simp_all
  then have "word_rcat (replicate n (0 :: 8 word)) = (0 :: 'w word)" by (simp add: word_rcat_def)
  then show ?thesis by (simp add: wob_def)
qed

lemma wob_pad_nil [simp]: "wob be (pad T []) = 0"
  by (simp add: pad_def)

lemma put_pad:
  "length p + length bs \<le> wsize T \<Longrightarrow> put_bytes (pad T p) (length p) bs = Some (pad T (p @ bs))"
  by (simp add: put_bytes_def pad_def)

lemma put_zero: "length bs \<le> wsize T \<Longrightarrow> put_bytes (zero_word T) 0 bs = Some (pad T bs)"
  using put_pad [of "[]" bs T] by (simp add: pad_nil)

lemma spec_short: "length bs < wsize TYPE('w) \<Longrightarrow> csum_spec be bs = (wob be (pad TYPE('w) bs) :: 'w::len word)"
  by (simp add: csum_spec.simps)

lemma spec_nil [simp]: "csum_spec be [] = (0 :: 'w::len word)"
  by (cases "wsize TYPE('w) = 0"; subst csum_spec.simps; simp)

lemma rest_short: "length bs < wsize T \<Longrightarrow> csum_rest T bs = bs"
  by (simp add: csum_rest.simps)

lemma rest_nil [simp]: "csum_rest T [] = []"
  by (cases "wsize T = 0"; subst csum_rest.simps; simp)

lemma spec_word: "0 < wsize TYPE('w) \<Longrightarrow> length a = wsize TYPE('w) \<Longrightarrow>
    csum_spec be (a @ b) = wob be a + (csum_spec be b :: 'w::len word)"
  by (subst csum_spec.simps) simp

lemma rest_word: "0 < wsize T \<Longrightarrow> length a = wsize T \<Longrightarrow> csum_rest T (a @ b) = csum_rest T b"
  by (subst csum_rest.simps) simp

lemma length_rest: "0 < wsize T \<Longrightarrow> length (csum_rest T bs) < wsize T"
proof (induction T bs rule: csum_rest.induct)
  case (1 T bs)
  then show ?case by (subst csum_rest.simps) auto
qed

text \<open>A sequence in two parts: the second part continues from the first one's partial word.\<close>

lemma spec_append:
  assumes W: "0 < wsize TYPE('w::len)"
  shows "csum_spec be (a @ b) = (csum_spec be a :: 'w word) - wob be (pad TYPE('w) (csum_rest TYPE('w) a))
      + csum_spec be (csum_rest TYPE('w) a @ b)
    \<and> csum_rest TYPE('w) (a @ b) = csum_rest TYPE('w) (csum_rest TYPE('w) a @ b)"
proof (induction "length a" arbitrary: a rule: less_induct)
  case less
  show ?case
  proof (cases "length a < wsize TYPE('w)")
    case True
    then show ?thesis by (simp add: spec_short rest_short)
  next
    case False
    let ?w = "take (wsize TYPE('w)) a" and ?a = "drop (wsize TYPE('w)) a"
    have a: "a = ?w @ ?a" "length ?w = wsize TYPE('w)" using False by simp_all
    have ab: "a @ b = ?w @ (?a @ b)" by simp
    have "length ?a < length a" using False W by simp
    note IH = less.hyps [OF this]
    have s: "csum_spec be (a @ b) = wob be ?w + (csum_spec be (?a @ b) :: 'w word)"
      "csum_spec be a = wob be ?w + (csum_spec be ?a :: 'w word)"
      using spec_word [OF W a(2), of be] a(1) ab by metis+
    have r: "csum_rest TYPE('w) (a @ b) = csum_rest TYPE('w) (?a @ b)" "csum_rest TYPE('w) a = csum_rest TYPE('w) ?a"
      using rest_word [OF W a(2)] a(1) ab by metis+
    show ?thesis using IH unfolding s r by simp
  qed
qed

lemma rest_rest [simp]: "0 < wsize T \<Longrightarrow> csum_rest T (csum_rest T a) = csum_rest T a"
  using rest_short length_rest by blast

lemma spec_boundary:
  assumes "0 < wsize TYPE('w::len)" and "csum_rest TYPE('w) a = []"
  shows "csum_spec be (a @ b) = csum_spec be a + (csum_spec be b :: 'w word)"
    and "csum_rest TYPE('w) (a @ b) = csum_rest TYPE('w) b"
  using spec_append [OF assms(1), of be a b] assms(2) by simp_all

lemma rest_full: "length a = wsize T \<Longrightarrow> csum_rest T a = []"
  by (cases "wsize T = 0") (use rest_word [of T a "[]"] in auto)

lemma spec_full: "length a = wsize TYPE('w) \<Longrightarrow> csum_spec be a = (wob be a :: 'w::len word)"
proof (cases "wsize TYPE('w) = 0")
  case False
  assume "length a = wsize TYPE('w)"
  with False spec_word [where 'w = 'w, of a be "[]"] show ?thesis by simp
next
  case True
  assume "length a = wsize TYPE('w)"
  with True show ?thesis by (subst csum_spec.simps) (simp add: pad_def)
qed

lemma get_take: "pos + n \<le> length src \<Longrightarrow> get_bytes src pos n = Some (take n (drop pos src))"
  by (simp add: get_bytes_def)

lemma take_split: "take (n + k) xs = take n xs @ take k (drop n xs)"
  by (rule take_add)

section \<open>States\<close>

text \<open>
  After \<open>n\<close> source bytes, with the partial word \<open>p\<close> at the start: the sum and the partial word are
  those of \<open>p\<close> followed by the \<open>n\<close> bytes.
\<close>

definition cs_at :: "bytes \<Rightarrow> cs_in \<Rightarrow> nat \<Rightarrow> ('w::len word) cs_state \<Rightarrow> bool" where
  "cs_at p ci n s \<longleftrightarrow> cs_spos s = n \<and> n \<le> length (ci_src ci) \<and>
     cs_sum s = csum_spec (ci_bigendian ci) (p @ take n (ci_src ci)) - csum_spec (ci_bigendian ci) p \<and>
     cs_part s = pad TYPE('w) (csum_rest TYPE('w) (p @ take n (ci_src ci))) \<and>
     cs_plen s = length (csum_rest TYPE('w) (p @ take n (ci_src ci)))"

text \<open>After \<open>n\<close> bytes that end on a word boundary, before the partial word is reset.\<close>

definition cs_boundary :: "bytes \<Rightarrow> cs_in \<Rightarrow> nat \<Rightarrow> ('w::len word) cs_state \<Rightarrow> bool" where
  "cs_boundary p ci n s \<longleftrightarrow> cs_spos s = n \<and> n \<le> length (ci_src ci) \<and>
     cs_sum s = csum_spec (ci_bigendian ci) (p @ take n (ci_src ci)) - csum_spec (ci_bigendian ci) p \<and>
     csum_rest TYPE('w) (p @ take n (ci_src ci)) = []"

lemma boundary_reset:
  "cs_boundary p ci n (s :: ('w::len word) cs_state) \<Longrightarrow>
   cs_at p ci n (s\<lparr>cs_part := zero_word TYPE('w), cs_plen := 0\<rparr>)"
  by (simp add: cs_boundary_def cs_at_def pad_nil)

lemma boundary_len [simp]:
  "cs_boundary p ci n (s\<lparr>cs_len := l\<rparr>) = cs_boundary p ci n s" "cs_at p ci n (s\<lparr>cs_len := l\<rparr>) = cs_at p ci n s"
  "cs_boundary p ci n (s\<lparr>cs_part := q\<rparr>) = cs_boundary p ci n s" "cs_boundary p ci n (s\<lparr>cs_plen := l\<rparr>) = cs_boundary p ci n s"
  "cs_boundary p ci n (s\<lparr>cs_dst := d\<rparr>) = cs_boundary p ci n s" "cs_at p ci n (s\<lparr>cs_dst := d\<rparr>) = cs_at p ci n s"
  "cs_boundary p ci n (s\<lparr>cs_dpos := l\<rparr>) = cs_boundary p ci n s" "cs_at p ci n (s\<lparr>cs_dpos := l\<rparr>) = cs_at p ci n s"
  by (simp_all add: cs_boundary_def cs_at_def)

lemma boundary_word:
  assumes W: "0 < wsize TYPE('w::len)" and b: "cs_boundary p ci n (s :: ('w word) cs_state)"
    and room: "n + wsize TYPE('w) \<le> length (ci_src ci)"
  shows "cs_boundary p ci (n + wsize TYPE('w)) (s\<lparr>
     cs_sum := cs_sum s + wob (ci_bigendian ci) (take (wsize TYPE('w)) (drop n (ci_src ci))),
     cs_spos := cs_spos s + wsize TYPE('w)\<rparr>)"
proof -
  let ?W = "wsize TYPE('w)"
  let ?w = "take ?W (drop n (ci_src ci))"
  have w: "length ?w = ?W" using room by simp
  have r: "csum_rest TYPE('w) (p @ take n (ci_src ci)) = []" using b by (simp add: cs_boundary_def)
  have "p @ take (n + ?W) (ci_src ci) = (p @ take n (ci_src ci)) @ ?w" by (simp add: take_split)
  with spec_boundary(1) [OF W r, of "ci_bigendian ci" ?w] spec_boundary(2) [OF W r, of ?w]
    spec_full [OF w, of "ci_bigendian ci"] rest_full [OF w]
  show ?thesis using b room by (simp add: cs_boundary_def)
qed

lemma csum_words_ok:
  assumes W: "0 < wsize TYPE('w::len)" and b: "cs_boundary p ci n (s :: ('w word) cs_state)"
    and room: "n + k * wsize TYPE('w) \<le> length (ci_src ci)" and al: "ra \<longrightarrow> src_aligned TYPE('w) ci n"
  shows "\<exists>s'. csum_words ra ci k s = Some s' \<and> cs_boundary p ci (n + k * wsize TYPE('w)) s' \<and> cs_len s' = cs_len s
     \<and> cs_dst s' = cs_dst s \<and> cs_dpos s' = cs_dpos s \<and> cs_part s' = cs_part s \<and> cs_plen s' = cs_plen s"
  using b room al
proof (induction k arbitrary: n s)
  case 0
  then show ?case by simp
next
  case (Suc k)
  let ?W = "wsize TYPE('w)"
  let ?s = "s\<lparr>cs_sum := cs_sum s + wob (ci_bigendian ci) (take ?W (drop n (ci_src ci))), cs_spos := cs_spos s + ?W\<rparr>"
  have n: "cs_spos s = n" using Suc.prems(1) by (simp add: cs_boundary_def)
  have "csum_word ra ci s = Some ?s"
    using Suc.prems n by (simp add: csum_word_def get_take)
  moreover have "cs_boundary p ci (n + ?W) ?s" using Suc.prems by (intro boundary_word [OF W]) simp_all
  moreover have "ra \<longrightarrow> src_aligned TYPE('w) ci (n + ?W)"
    using Suc.prems(3) by (simp add: src_aligned_def flip: add.assoc)
  moreover have "n + ?W + k * ?W \<le> length (ci_src ci)" using Suc.prems(2) by (simp add: add.assoc)
  ultimately show ?case using Suc.IH [of "n + ?W" ?s] by (simp add: add.assoc)
qed

text \<open>Merging bytes into the partial word.\<close>

lemma csum_merge_ok:
  assumes W: "0 < wsize TYPE('w::len)" and at: "cs_at p ci n (s :: ('w word) cs_state)"
    and fit: "cs_plen s + k \<le> wsize TYPE('w)" and room: "n + k \<le> length (ci_src ci)"
  shows "\<exists>s' temp. csum_merge ci k s = Some (s', temp) \<and> cs_len s' = cs_len s - k \<and>
     cs_dst s' = cs_dst s \<and> cs_dpos s' = cs_dpos s \<and> cs_plen s' = cs_plen s \<and> cs_part s' = cs_part s \<and>
     take k (drop (cs_plen s) temp) = take k (drop n (ci_src ci)) \<and>
     (cs_plen s + k < wsize TYPE('w) \<longrightarrow> cs_at p ci (n + k) (s'\<lparr>cs_part := temp, cs_plen := cs_plen s + k\<rparr>)) \<and>
     (cs_plen s + k = wsize TYPE('w) \<longrightarrow> cs_boundary p ci (n + k) s')"
proof -
  let ?W = "wsize TYPE('w)" and ?be = "ci_bigendian ci"
  let ?q = "csum_rest TYPE('w) (p @ take n (ci_src ci))" and ?x = "take k (drop n (ci_src ci))"
  have A: "cs_spos s = n" "cs_part s = pad TYPE('w) ?q" "cs_plen s = length ?q"
    "cs_sum s = csum_spec ?be (p @ take n (ci_src ci)) - csum_spec ?be p"
    using at by (simp_all add: cs_at_def)
  have lx: "length ?x = k" using room by simp
  have put: "put_bytes (cs_part s) (cs_plen s) ?x = Some (pad TYPE('w) (?q @ ?x))"
    using put_pad [of ?q ?x "TYPE('w)"] fit lx A by simp
  have run: "csum_merge ci k s = Some (s\<lparr>cs_sum := cs_sum s + (wob ?be (pad TYPE('w) (?q @ ?x)) - wob ?be (cs_part s)),
             cs_spos := n + k, cs_len := cs_len s - k\<rparr>, pad TYPE('w) (?q @ ?x))"
    using put A(1) room by (simp add: csum_merge_def get_take)
  have split: "p @ take (n + k) (ci_src ci) = (p @ take n (ci_src ci)) @ ?x" by (simp add: take_split)
  note app = spec_append [OF W, of ?be "p @ take n (ci_src ci)" ?x, folded split]
  have drp: "take k (drop (cs_plen s) (pad TYPE('w) (?q @ ?x))) = ?x" using A(3) lx by (simp add: pad_def)
  have sumx: "(csum_spec ?be (?q @ ?x) :: 'w word) = wob ?be (pad TYPE('w) (?q @ ?x))" if "length (?q @ ?x) \<le> ?W"
  proof (cases "length (?q @ ?x) < ?W")
    case True
    then show ?thesis by (rule spec_short)
  next
    case False
    then have "length (?q @ ?x) = ?W" using that by simp
    then show ?thesis using spec_full [where 'w = 'w, of "?q @ ?x" ?be] by (simp add: pad_def)
  qed
  have le: "length (?q @ ?x) \<le> ?W" using fit A(3) lx by simp
  have sum: "cs_sum s + (wob ?be (pad TYPE('w) (?q @ ?x)) - wob ?be (cs_part s))
      = csum_spec ?be (p @ take (n + k) (ci_src ci)) - csum_spec ?be p"
    using app sumx [OF le] A(2,4) by simp
  have "csum_rest TYPE('w) (p @ take (n + k) (ci_src ci)) = ?q @ ?x" if "cs_plen s + k < ?W"
    using app that A(3) lx rest_short [of "?q @ ?x" "TYPE('w)"] by simp
  moreover have "csum_rest TYPE('w) (p @ take (n + k) (ci_src ci)) = []" if "cs_plen s + k = ?W"
    using app that A(3) lx rest_full [of "?q @ ?x" "TYPE('w)"] by simp
  ultimately show ?thesis
    using run sum drp A room lx by (auto simp: cs_at_def cs_boundary_def)
qed

section \<open>The checksum without copying\<close>

lemma cs_at_start:
  assumes "length p < wsize TYPE('w::len)"
  shows "cs_at p ci 0 \<lparr>cs_spos = 0, cs_dpos = d, cs_dst = dst, cs_sum = (0 :: 'w word), cs_len = l,
     cs_part = pad TYPE('w) p, cs_plen = length p\<rparr>"
  using assms by (simp add: cs_at_def rest_short)

lemma cs_boundary_start:
  "cs_boundary [] ci 0 \<lparr>cs_spos = 0, cs_dpos = d, cs_dst = dst, cs_sum = (0 :: 'w::len word), cs_len = l,
     cs_part = part, cs_plen = plen\<rparr>"
  by (simp add: cs_boundary_def)

lemma csum_run_ok:
  assumes W: "0 < wsize TYPE('w::len)" and b: "cs_boundary p ci n (s :: ('w word) cs_state)"
    and room: "n + cs_len s \<le> length (ci_src ci)" and al: "ra \<longrightarrow> src_aligned TYPE('w) ci n"
  shows "\<exists>s'. csum_run ra ci s = Some s' \<and> cs_at p ci (n + cs_len s div wsize TYPE('w) * wsize TYPE('w)) s' \<and>
     cs_len s' = cs_len s mod wsize TYPE('w) \<and> cs_plen s' = 0"
proof -
  let ?W = "wsize TYPE('w)" and ?k = "cs_len s div wsize TYPE('w)"
  have "?k * ?W \<le> cs_len s" by simp
  with room have "n + ?k * ?W \<le> length (ci_src ci)" by linarith
  from csum_words_ok [OF W b this al] obtain s' where
    s': "csum_words ra ci ?k s = Some s'" "cs_boundary p ci (n + ?k * ?W) s'" by blast
  from boundary_reset [OF s'(2)]
  have "cs_at p ci (n + ?k * ?W) (s'\<lparr>cs_len := cs_len s - ?k * ?W, cs_part := zero_word TYPE('w), cs_plen := 0\<rparr>)"
    by (simp add: cs_at_def)
  with s'(1) show ?thesis by (simp add: csum_run_def minus_div_mult_eq_mod)
qed

text \<open>At the end of a call the position in the source does not matter.\<close>

definition cs_done :: "bytes \<Rightarrow> cs_in \<Rightarrow> nat \<Rightarrow> ('w::len word) cs_state \<Rightarrow> bool" where
  "cs_done p ci n s \<longleftrightarrow> cs_at p ci n (s\<lparr>cs_spos := n\<rparr>)"

lemma cs_at_done: "cs_at p ci n s \<Longrightarrow> cs_done p ci n s"
  by (simp add: cs_done_def cs_at_def)

lemma csum_tail_ok:
  assumes W: "0 < wsize TYPE('w::len)" and at: "cs_at p ci n (s :: ('w word) cs_state)"
    and left: "cs_len s = 0 \<or> cs_plen s = 0 \<and> cs_len s < wsize TYPE('w)"
    and room: "n + cs_len s \<le> length (ci_src ci)"
  shows "\<exists>s'. csum_tail ci s = Some s' \<and> cs_done p ci (n + cs_len s) s'"
proof (cases "cs_len s = 0")
  case True
  then show ?thesis using cs_at_done [OF at] by (simp add: csum_tail_def)
next
  case False
  let ?W = "wsize TYPE('w)" and ?k = "cs_len s"
  have k: "cs_plen s = 0" "?k < ?W" using left False by simp_all
  then have fit: "cs_plen s + ?k \<le> ?W" by simp
  from csum_merge_ok [OF W at fit room] k obtain s' temp where
    M: "csum_merge ci ?k s = Some (s', temp)" "cs_at p ci (n + ?k) (s'\<lparr>cs_part := temp, cs_plen := cs_plen s + ?k\<rparr>)"
    by auto
  have part: "cs_part s = zero_word TYPE('w)" using at k(1) by (simp add: cs_at_def pad_nil)
  obtain bs where bs: "get_bytes (ci_src ci) (cs_spos s) ?k = Some bs" "put_bytes (cs_part s) 0 bs = Some temp"
    "cs_sum s' = cs_sum s + wob (ci_bigendian ci) temp" "cs_spos s' = cs_spos s + ?k"
    using M(1) k(1) part by (auto simp: csum_merge_def bind_eq_Some_conv zero_word_def)
  have "cs_done p ci (n + ?k) (s\<lparr>cs_sum := cs_sum s', cs_part := temp, cs_plen := ?k\<rparr>)"
    using M(2) k(1) by (simp add: cs_done_def cs_at_def)
  moreover have "csum_tail ci s = Some (s\<lparr>cs_sum := cs_sum s', cs_part := temp, cs_plen := ?k\<rparr>)"
    using bs False k(1) by (simp add: csum_tail_def)
  ultimately show ?thesis by blast
qed

text \<open>
  The checksum of the first \<open>csumlen\<close> bytes, continuing from the partial word \<open>p\<close>, is the change of
  the sum of words; whatever the alignment of the source.
\<close>

lemma csum_partial_ok:
  assumes W: "0 < wsize TYPE('w::len)" and p: "length p < wsize TYPE('w)" and room: "csumlen \<le> length (ci_src ci)"
  defines "q \<equiv> csum_rest TYPE('w) (p @ take csumlen (ci_src ci))"
  shows "csum_partial ci csumlen (pad TYPE('w) p) (length p) = Some
     (csum_spec (ci_bigendian ci) (p @ take csumlen (ci_src ci)) - csum_spec (ci_bigendian ci) p :: 'w word,
      pad TYPE('w) q, length q)"
proof -
  let ?W = "wsize TYPE('w)"
  define s :: "'w word cs_state" where "s = \<lparr>cs_spos = 0, cs_dpos = 0, cs_dst = [], cs_sum = 0, cs_len = csumlen,
    cs_part = pad TYPE('w) p, cs_plen = length p\<rparr>"
  have at: "cs_at p ci 0 s" unfolding s_def by (rule cs_at_start [OF p])
  have sl: "cs_len s = csumlen" "cs_plen s = length p" by (simp_all add: s_def)
  have result: ?thesis if "cs_done p ci csumlen s2"
    and "csum_partial ci csumlen (pad TYPE('w) p) (length p) = Some (cs_sum s2, cs_part s2, cs_plen s2)"
    for s2 :: "'w word cs_state"
    using that by (simp add: cs_done_def cs_at_def q_def)
  have run: "\<exists>s1. csum_run ra ci s' = Some s1 \<and> (\<exists>s2. csum_tail ci s1 = Some s2 \<and> cs_done p ci csumlen s2)"
    if "cs_boundary p ci n s'" "n + cs_len s' = csumlen" "ra \<longrightarrow> src_aligned TYPE('w) ci n" for ra n and s' :: "'w word cs_state"
  proof -
    from csum_run_ok [OF W that(1) _ that(3)] room that(2) obtain s1 where
      s1: "csum_run ra ci s' = Some s1" "cs_at p ci (n + cs_len s' div ?W * ?W) s1" "cs_len s1 = cs_len s' mod ?W" "cs_plen s1 = 0"
      by auto
    have "n + cs_len s' div ?W * ?W + cs_len s1 = csumlen" using s1(3) that(2) by (simp add: add.assoc)
    with csum_tail_ok [OF W s1(2)] s1(3,4) W room show ?thesis using s1(1) by auto
  qed
  show ?thesis
  proof (cases "length p = 0")
    case True
    then have pn: "p = []" by simp
    have sd: "s = \<lparr>cs_spos = 0, cs_dpos = 0, cs_dst = [], cs_sum = 0, cs_len = csumlen,
      cs_part = pad TYPE('w) [], cs_plen = 0\<rparr>" by (simp add: s_def pn)
    have b: "cs_boundary p ci 0 s" unfolding pn s_def by (rule cs_boundary_start)
    show ?thesis
    proof (cases "src_aligned TYPE('w) ci 0")
      case al: True
      from run [OF b, of True] sl al obtain s1 s2 where
        r: "csum_run True ci s = Some s1" "csum_tail ci s1 = Some s2" "cs_done p ci csumlen s2" by auto
      show ?thesis
      proof (cases "csumlen mod ?W = 0")
        case False
        with r True al show ?thesis
          by (intro result [OF r(3)]) (simp add: csum_partial_def Let_def pn flip: sd)
      next
        case early: True
        have "cs_len s1 = 0" using csum_run_ok [OF W b, of True] r(1) sl early room al by auto
        with r(2) have "s2 = s1" by (simp add: csum_tail_def)
        with r True al early show ?thesis
          by (intro result [OF r(3)]) (simp add: csum_partial_def Let_def pn flip: sd)
      qed
    next
      case al: False
      from run [OF b, of False] sl obtain s1 s2 where
        r: "csum_run False ci s = Some s1" "csum_tail ci s1 = Some s2" "cs_done p ci csumlen s2" by auto
      with True al show ?thesis
        by (intro result [OF r(3)]) (simp add: csum_partial_def Let_def pn flip: sd)
    qed
  next
    case plen: False
    show ?thesis
    proof (cases "csumlen \<ge> ?W - length p")
      case True
      let ?k = "?W - length p"
      have fit: "cs_plen s + ?k \<le> ?W" "0 + ?k \<le> length (ci_src ci)" "cs_plen s + ?k = ?W"
        using p sl room True by simp_all
      from csum_merge_ok [OF W at fit(1,2)] fit(3) sl obtain s1 temp where
        m: "csum_merge ci ?k s = Some (s1, temp)" "cs_boundary p ci ?k s1" "cs_len s1 = csumlen - ?k" by auto
      let ?ra = "\<not> src_aligned TYPE('w) ci 0 \<and> src_aligned TYPE('w) ci (cs_spos s1)"
      have "cs_spos s1 = ?k" using m(2) by (simp add: cs_boundary_def)
      with run [OF m(2), of ?ra] m(3) True obtain s2 s3 where
        r: "csum_run ?ra ci s1 = Some s2" "csum_tail ci s2 = Some s3" "cs_done p ci csumlen s3" by auto
      show ?thesis
        by (rule result [OF r(3)])
          (use m(1) r(1,2) plen True in \<open>cases "src_aligned TYPE('w) ci 0"; simp add: csum_partial_def Let_def flip: s_def\<close>)
    next
      case False
      have fit: "cs_plen s + csumlen \<le> ?W" "0 + csumlen \<le> length (ci_src ci)" "cs_plen s + csumlen < ?W"
        using p sl room False by simp_all
      from csum_merge_ok [OF W at fit(1,2)] fit(3) sl obtain s1 temp where
        m: "csum_merge ci csumlen s = Some (s1, temp)"
          "cs_at p ci csumlen (s1\<lparr>cs_part := temp, cs_plen := length p + csumlen\<rparr>)" by auto
      have ab: "csum_absorb ci s = Some (s1\<lparr>cs_part := temp, cs_plen := length p + csumlen, cs_len := 0\<rparr>)"
        using m(1) sl by (simp add: csum_absorb_def)
      have at': "cs_at p ci csumlen (s1\<lparr>cs_part := temp, cs_plen := length p + csumlen, cs_len := 0\<rparr>)"
        using m(2) by (simp add: cs_at_def)
      show ?thesis
        by (rule result [OF cs_at_done [OF at']])
          (use ab plen False in \<open>cases "src_aligned TYPE('w) ci 0"; simp add: csum_partial_def csum_tail_def Let_def flip: s_def\<close>)
    qed
  qed
qed

section \<open>The checksum with copying\<close>

text \<open>The destination has been written up to the position in the source, the rest is as before.\<close>

definition in_sync :: "cs_in \<Rightarrow> bytes \<Rightarrow> 'w cs_state \<Rightarrow> bool" where
  "in_sync ci d0 s \<longleftrightarrow> cs_dpos s = cs_spos s \<and>
     cs_dst s = take (cs_spos s) (ci_src ci) @ drop (cs_spos s) d0"

lemma put_copied:
  assumes "n + k \<le> length src" and "n + k \<le> length d0"
  shows "put_bytes (take n src @ drop n d0) n (take k (drop n src)) = Some (take (n + k) src @ drop (n + k) d0)"
  using assms by (simp add: put_bytes_def take_add min_absorb2 add.commute [of k n])

lemma in_sync_simps [simp]:
  "in_sync ci d0 (s\<lparr>cs_len := l\<rparr>) = in_sync ci d0 s" "in_sync ci d0 (s\<lparr>cs_part := q\<rparr>) = in_sync ci d0 s"
  "in_sync ci d0 (s\<lparr>cs_plen := l\<rparr>) = in_sync ci d0 s" "in_sync ci d0 (s\<lparr>cs_sum := c\<rparr>) = in_sync ci d0 s"
  by (simp_all add: in_sync_def)

lemma boundary_spos: "cs_boundary p ci n s \<Longrightarrow> cs_spos s = n"
  by (simp add: cs_boundary_def)

lemma at_spos: "cs_at p ci n s \<Longrightarrow> cs_spos s = n"
  by (simp add: cs_at_def)

lemma aligned_step:
  "src_aligned TYPE('w::len) ci n \<Longrightarrow> src_aligned TYPE('w) ci (n + wsize TYPE('w))"
  "dst_aligned TYPE('w) ci n \<Longrightarrow> dst_aligned TYPE('w) ci (n + wsize TYPE('w))"
  by (simp_all add: src_aligned_def dst_aligned_def flip: add.assoc)

lemma bcopy_word_ok:
  assumes W: "0 < wsize TYPE('w::len)" and b: "cs_boundary p ci n (s :: ('w word) cs_state)"
    and sync: "in_sync ci d0 s" and room: "n + wsize TYPE('w) \<le> length (ci_src ci)" "n + wsize TYPE('w) \<le> length d0"
    and al: "ra \<longrightarrow> src_aligned TYPE('w) ci n" "wa \<longrightarrow> dst_aligned TYPE('w) ci n"
  shows "\<exists>s'. bcopy_word ra wa ci s = Some s' \<and> cs_boundary p ci (n + wsize TYPE('w)) s' \<and> in_sync ci d0 s' \<and>
     cs_len s' = cs_len s"
proof -
  let ?W = "wsize TYPE('w)"
  have n: "cs_spos s = n" "cs_dpos s = n" "cs_dst s = take n (ci_src ci) @ drop n d0"
    using boundary_spos [OF b] sync by (simp_all add: in_sync_def)
  have put: "put_bytes (take n (ci_src ci) @ drop n d0) n (take ?W (drop n (ci_src ci)))
      = Some (take (n + ?W) (ci_src ci) @ drop (n + ?W) d0)"
    by (rule put_copied [OF room])
  let ?s = "s\<lparr>cs_sum := cs_sum s + wob (ci_bigendian ci) (take ?W (drop n (ci_src ci))), cs_spos := n + ?W,
    cs_dst := take (n + ?W) (ci_src ci) @ drop (n + ?W) d0, cs_dpos := n + ?W\<rparr>"
  have "bcopy_word ra wa ci s = Some ?s"
    using al n room put by (simp add: bcopy_word_def get_take)
  moreover have "cs_boundary p ci (n + ?W) ?s"
    using boundary_word [OF W b room(1)] n by (simp add: cs_boundary_def)
  moreover have "in_sync ci d0 ?s" by (simp add: in_sync_def)
  ultimately show ?thesis by auto
qed

lemma bcopy_words_ok:
  assumes W: "0 < wsize TYPE('w::len)" and b: "cs_boundary p ci n (s :: ('w word) cs_state)"
    and sync: "in_sync ci d0 s" and room: "n + k * wsize TYPE('w) \<le> length (ci_src ci)" "n + k * wsize TYPE('w) \<le> length d0"
    and al: "ra \<longrightarrow> src_aligned TYPE('w) ci n" "wa \<longrightarrow> dst_aligned TYPE('w) ci n"
  shows "\<exists>s'. bcopy_words ra wa ci k s = Some s' \<and> cs_boundary p ci (n + k * wsize TYPE('w)) s' \<and> in_sync ci d0 s' \<and>
     cs_len s' = cs_len s"
  using b sync room al
proof (induction k arbitrary: n s)
  case 0
  then show ?case by simp
next
  case (Suc k)
  let ?W = "wsize TYPE('w)"
  have r: "n + ?W \<le> length (ci_src ci)" "n + ?W \<le> length d0" using Suc.prems(3,4) by simp_all
  from bcopy_word_ok [OF W Suc.prems(1,2) r Suc.prems(5,6)] obtain s1 where
    s1: "bcopy_word ra wa ci s = Some s1" "cs_boundary p ci (n + ?W) s1" "in_sync ci d0 s1" "cs_len s1 = cs_len s" by blast
  have "n + ?W + k * ?W \<le> length (ci_src ci)" "n + ?W + k * ?W \<le> length d0"
    using Suc.prems(3,4) by (simp_all add: add.assoc)
  moreover have "ra \<longrightarrow> src_aligned TYPE('w) ci (n + ?W)" "wa \<longrightarrow> dst_aligned TYPE('w) ci (n + ?W)"
    using Suc.prems(5,6) aligned_step by blast+
  ultimately obtain s2 where "bcopy_words ra wa ci k s1 = Some s2" "cs_boundary p ci (n + ?W + k * ?W) s2"
    "in_sync ci d0 s2" "cs_len s2 = cs_len s1"
    using Suc.IH [OF s1(2,3)] by blast
  with s1 show ?case by (simp add: add.assoc)
qed

text \<open>What every words loop of the code does.\<close>

definition words_done :: "bytes \<Rightarrow> cs_in \<Rightarrow> bytes \<Rightarrow> nat \<Rightarrow> nat \<Rightarrow> ('w::len word) cs_state \<Rightarrow> bool" where
  "words_done p ci d0 n len s \<longleftrightarrow> cs_boundary p ci (n + len div wsize TYPE('w) * wsize TYPE('w)) s \<and>
     in_sync ci d0 s \<and> cs_len s = len mod wsize TYPE('w)"

lemma bcopy_run_ok:
  assumes W: "0 < wsize TYPE('w::len)" and b: "cs_boundary p ci n (s :: ('w word) cs_state)"
    and sync: "in_sync ci d0 s" and room: "n + cs_len s \<le> length (ci_src ci)" "n + cs_len s \<le> length d0"
    and al: "ra \<longrightarrow> src_aligned TYPE('w) ci n" "wa \<longrightarrow> dst_aligned TYPE('w) ci n"
  shows "\<exists>s'. bcopy_run ra wa ci s = Some s' \<and> words_done p ci d0 n (cs_len s) s'"
proof -
  let ?W = "wsize TYPE('w)" and ?k = "cs_len s div wsize TYPE('w)"
  have "?k * ?W \<le> cs_len s" by simp
  with room have r: "n + ?k * ?W \<le> length (ci_src ci)" "n + ?k * ?W \<le> length d0" by linarith+
  from bcopy_words_ok [OF W b sync r al] show ?thesis
    by (auto simp: bcopy_run_def words_done_def minus_div_mult_eq_mod)
qed

lemma bcopy_while_ok:
  assumes W: "0 < wsize TYPE('w::len)" and b: "cs_boundary p ci n (s :: ('w word) cs_state)"
    and sync: "in_sync ci d0 s" and room: "n + cs_len s \<le> length (ci_src ci)" "n + cs_len s \<le> length d0"
    and al: "ra \<longrightarrow> src_aligned TYPE('w) ci n" "wa \<longrightarrow> dst_aligned TYPE('w) ci n"
  shows "\<exists>s'. bcopy_while ra wa ci s = Some s' \<and> words_done p ci d0 n (cs_len s) s'"
  using b sync room al
proof (induction "cs_len s" arbitrary: n s rule: less_induct)
  case less
  let ?W = "wsize TYPE('w)"
  show ?case
  proof (cases "?W \<le> cs_len s")
    case False
    then have "bcopy_while ra wa ci s = Some s" by (simp add: bcopy_while.simps [of ra wa ci s])
    moreover have "words_done p ci d0 n (cs_len s) s" using less.prems(1,2) False by (simp add: words_done_def)
    ultimately show ?thesis by simp
  next
    case True
    have r: "n + ?W \<le> length (ci_src ci)" "n + ?W \<le> length d0" using less.prems(3,4) True by simp_all
    from bcopy_word_ok [OF W less.prems(1,2) r less.prems(5,6)] obtain s1 where
      s1: "bcopy_word ra wa ci s = Some s1" "cs_boundary p ci (n + ?W) s1" "in_sync ci d0 s1" by blast
    let ?s = "s1\<lparr>cs_len := cs_len s - ?W\<rparr>"
    have step: "bcopy_while ra wa ci s = bcopy_while ra wa ci ?s"
      using True W s1(1) by (simp add: bcopy_while.simps [of ra wa ci s])
    have "cs_len ?s < cs_len s" using True W by simp
    moreover have "cs_boundary p ci (n + ?W) ?s" "in_sync ci d0 ?s" using s1(2,3) by simp_all
    moreover have "n + ?W + cs_len ?s \<le> length (ci_src ci)" "n + ?W + cs_len ?s \<le> length d0"
      using less.prems(3,4) True by simp_all
    moreover have "ra \<longrightarrow> src_aligned TYPE('w) ci (n + ?W)" "wa \<longrightarrow> dst_aligned TYPE('w) ci (n + ?W)"
      using less.prems(5,6) aligned_step by blast+
    ultimately obtain s2 where s2: "bcopy_while ra wa ci ?s = Some s2" "words_done p ci d0 (n + ?W) (cs_len ?s) s2"
      using less.hyps [of ?s "n + ?W"] by blast
    have "cs_len s div ?W = Suc ((cs_len s - ?W) div ?W)" "cs_len s mod ?W = (cs_len s - ?W) mod ?W"
      using True W by (simp_all add: le_div_geq le_mod_geq)
    then have "words_done p ci d0 n (cs_len s) s2" using s2(2) by (simp add: words_done_def add.assoc)
    with s2(1) step show ?thesis by simp
  qed
qed

lemma bcopy_fill_ok:
  assumes W: "0 < wsize TYPE('w::len)" and at: "cs_at p ci n (s :: ('w word) cs_state)" and sync: "in_sync ci d0 s"
    and fit: "cs_plen s + k \<le> wsize TYPE('w)" and room: "n + k \<le> length (ci_src ci)" "n + k \<le> length d0"
  shows "\<exists>s' temp. bcopy_fill ci k s = Some (s', temp) \<and> cs_len s' = cs_len s - k \<and> in_sync ci d0 s' \<and>
     (cs_plen s + k < wsize TYPE('w) \<longrightarrow> cs_at p ci (n + k) (s'\<lparr>cs_part := temp, cs_plen := cs_plen s + k\<rparr>)) \<and>
     (cs_plen s + k = wsize TYPE('w) \<longrightarrow> cs_boundary p ci (n + k) s')"
proof -
  from csum_merge_ok [OF W at fit room(1)] obtain s1 temp where
    m: "csum_merge ci k s = Some (s1, temp)" "cs_len s1 = cs_len s - k" "cs_dst s1 = cs_dst s"
      "take k (drop (cs_plen s) temp) = take k (drop n (ci_src ci))"
      "cs_plen s + k < wsize TYPE('w) \<longrightarrow> cs_at p ci (n + k) (s1\<lparr>cs_part := temp, cs_plen := cs_plen s + k\<rparr>)"
      "cs_plen s + k = wsize TYPE('w) \<longrightarrow> cs_boundary p ci (n + k) s1" by blast
  have n: "cs_spos s = n" "cs_dpos s = n" "cs_dst s = take n (ci_src ci) @ drop n d0"
    using at_spos [OF at] sync by (simp_all add: in_sync_def)
  have spos: "cs_spos s1 = n + k"
    using m(1) n(1) by (auto simp: csum_merge_def bind_eq_Some_conv)
  let ?s = "s1\<lparr>cs_dst := take (n + k) (ci_src ci) @ drop (n + k) d0, cs_dpos := n + k\<rparr>"
  have "bcopy_fill ci k s = Some (?s, temp)"
    using m(1,4) n put_copied [OF room] by (simp add: bcopy_fill_def)
  moreover have "in_sync ci d0 ?s" using spos by (simp add: in_sync_def)
  ultimately show ?thesis using m(2,5,6) by (auto simp: cs_at_def)
qed

text \<open>What the first part of the code establishes, whatever the alignment.\<close>

definition head_done :: "bytes \<Rightarrow> cs_in \<Rightarrow> bytes \<Rightarrow> nat \<Rightarrow> ('w::len word) cs_state \<Rightarrow> bool" where
  "head_done p ci d0 copylen s \<longleftrightarrow> cs_len s \<le> copylen \<and> cs_at p ci (copylen - cs_len s) s \<and> in_sync ci d0 s \<and>
     (cs_len s = 0 \<or> cs_plen s = 0 \<and> cs_len s < wsize TYPE('w))"

lemma words_head:
  assumes W: "0 < wsize TYPE('w::len)" and w: "words_done p ci d0 n len (s :: ('w word) cs_state)" and "n + len = copylen"
  shows "head_done p ci d0 copylen (part_reset s)"
proof -
  let ?W = "wsize TYPE('w)"
  have "n + len div ?W * ?W = copylen - len mod ?W"
    using assms(3) by (metis Nat.add_diff_assoc minus_mod_eq_div_mult mod_less_eq_dividend)
  moreover have "len mod ?W \<le> copylen" using assms(3) mod_less_eq_dividend [of len ?W] by linarith
  ultimately show ?thesis
    using w W boundary_reset by (auto simp: words_done_def head_done_def part_reset_def)
qed

lemma absorb_head:
  assumes W: "0 < wsize TYPE('w::len)" and at: "cs_at p ci 0 (s :: ('w word) cs_state)" and sync: "in_sync ci d0 s"
    and fit: "\<not> wsize TYPE('w) - cs_plen s \<le> cs_len s"
    and room: "cs_len s \<le> length (ci_src ci)" "cs_len s \<le> length d0"
  shows "\<exists>s'. bcopy_absorb ci s = Some s' \<and> head_done p ci d0 (cs_len s) s'"
proof -
  have f: "cs_plen s + cs_len s \<le> wsize TYPE('w)" "cs_plen s + cs_len s < wsize TYPE('w)"
    "0 + cs_len s \<le> length (ci_src ci)" "0 + cs_len s \<le> length d0" using fit room by simp_all
  from bcopy_fill_ok [OF W at sync f(1,3,4)] f(2) obtain s1 temp where
    "bcopy_fill ci (cs_len s) s = Some (s1, temp)" "in_sync ci d0 s1"
    "cs_at p ci (cs_len s) (s1\<lparr>cs_part := temp, cs_plen := cs_plen s + cs_len s\<rparr>)" by auto
  moreover from this(3) have "cs_at p ci (cs_len s) (s1\<lparr>cs_part := temp, cs_plen := cs_plen s + cs_len s, cs_len := 0\<rparr>)"
    by (simp add: cs_at_def)
  ultimately show ?thesis by (simp add: bcopy_absorb_def head_done_def)
qed

text \<open>Filling the partial word, then any of the word loops.\<close>

lemma fill_head:
  fixes loop :: "('w::len word) cs_state \<Rightarrow> ('w word) cs_state option"
  assumes W: "0 < wsize TYPE('w)" and at: "cs_at p ci 0 (s :: ('w word) cs_state)" and sync: "in_sync ci d0 s"
    and fit: "wsize TYPE('w) - cs_plen s \<le> cs_len s" "cs_plen s \<le> wsize TYPE('w)"
    and room: "cs_len s \<le> length (ci_src ci)" "cs_len s \<le> length d0"
    and loop: "\<forall>s1. cs_boundary p ci (wsize TYPE('w) - cs_plen s) s1 \<and> in_sync ci d0 s1 \<and>
        cs_len s1 = cs_len s - (wsize TYPE('w) - cs_plen s) \<longrightarrow>
        (\<exists>s2. loop s1 = Some s2 \<and> words_done p ci d0 (wsize TYPE('w) - cs_plen s) (cs_len s1) s2)"
  shows "\<exists>s1 temp s2. bcopy_fill ci (wsize TYPE('w) - cs_plen s) s = Some (s1, temp) \<and> loop s1 = Some s2 \<and>
     head_done p ci d0 (cs_len s) (part_reset s2)"
proof -
  let ?k = "wsize TYPE('w) - cs_plen s"
  have f: "cs_plen s + ?k \<le> wsize TYPE('w)" "cs_plen s + ?k = wsize TYPE('w)"
    "0 + ?k \<le> length (ci_src ci)" "0 + ?k \<le> length d0" using fit room by simp_all
  from bcopy_fill_ok [OF W at sync f(1,3,4)] f(2) obtain s1 temp where
    s1: "bcopy_fill ci ?k s = Some (s1, temp)" "in_sync ci d0 s1" "cs_boundary p ci ?k s1" "cs_len s1 = cs_len s - ?k"
    by auto
  with loop obtain s2 where s2: "loop s1 = Some s2" "words_done p ci d0 ?k (cs_len s1) s2" by blast
  have "head_done p ci d0 (cs_len s) (part_reset s2)"
    by (rule words_head [OF W s2(2)]) (use s1(4) fit in simp)
  with s1(1) s2(1) show ?thesis by blast
qed

lemma loops_ok:
  assumes W: "0 < wsize TYPE('w::len)" and b: "cs_boundary p ci n (s1 :: ('w word) cs_state)" "in_sync ci d0 s1"
    and room: "n + cs_len s1 \<le> length (ci_src ci)" "n + cs_len s1 \<le> length d0"
  shows "\<exists>s2. bcopy_while False False ci s1 = Some s2 \<and> words_done p ci d0 n (cs_len s1) s2"
    and "\<exists>s2. (if dst_aligned TYPE('w) ci (cs_dpos s1) then bcopy_run False True ci s1
         else bcopy_while False False ci s1) = Some s2 \<and> words_done p ci d0 n (cs_len s1) s2"
    and "\<exists>s2. (if src_aligned TYPE('w) ci (cs_spos s1) then bcopy_while True False ci s1
         else bcopy_while False False ci s1) = Some s2 \<and> words_done p ci d0 n (cs_len s1) s2"
    and "\<exists>s2. (if src_aligned TYPE('w) ci (cs_spos s1) \<and> dst_aligned TYPE('w) ci (cs_dpos s1)
         then bcopy_run True True ci s1 else bcopy_while False False ci s1) = Some s2 \<and>
         words_done p ci d0 n (cs_len s1) s2"
proof -
  have pos: "cs_spos s1 = n" "cs_dpos s1 = n" using boundary_spos [OF b(1)] b(2) by (simp_all add: in_sync_def)
  note wh = bcopy_while_ok [OF W b room] and rn = bcopy_run_ok [OF W b room]
  show "\<exists>s2. bcopy_while False False ci s1 = Some s2 \<and> words_done p ci d0 n (cs_len s1) s2"
    by (rule wh) simp_all
  show "\<exists>s2. (if dst_aligned TYPE('w) ci (cs_dpos s1) then bcopy_run False True ci s1
         else bcopy_while False False ci s1) = Some s2 \<and> words_done p ci d0 n (cs_len s1) s2"
    using wh [of False False] rn [of False True] pos by simp
  show "\<exists>s2. (if src_aligned TYPE('w) ci (cs_spos s1) then bcopy_while True False ci s1
         else bcopy_while False False ci s1) = Some s2 \<and> words_done p ci d0 n (cs_len s1) s2"
    using wh [of False False] wh [of True False] pos by simp
  show "\<exists>s2. (if src_aligned TYPE('w) ci (cs_spos s1) \<and> dst_aligned TYPE('w) ci (cs_dpos s1)
         then bcopy_run True True ci s1 else bcopy_while False False ci s1) = Some s2 \<and>
         words_done p ci d0 n (cs_len s1) s2"
    using wh [of False False] rn [of True True] pos by simp
qed

lemma heads_ok:
  assumes W: "0 < wsize TYPE('w::len)" and p: "length p < wsize TYPE('w)"
    and room: "copylen \<le> length (ci_src ci)" "copylen \<le> length d0"
  defines "s \<equiv> \<lparr>cs_spos = 0, cs_dpos = 0, cs_dst = d0, cs_sum = (0 :: 'w word), cs_len = copylen,
     cs_part = pad TYPE('w) p, cs_plen = length p\<rparr>"
  shows "src_aligned TYPE('w) ci 0 \<and> dst_aligned TYPE('w) ci 0 \<Longrightarrow>
      \<exists>fin s1. bcopy_both_aligned ci residue s = Some (fin, s1) \<and>
        (if fin then residue = 0 \<and> cs_at p ci copylen s1 \<and> cs_dst s1 = take copylen (ci_src ci) @ drop copylen d0
         else head_done p ci d0 copylen s1)"
    and "src_aligned TYPE('w) ci 0 \<Longrightarrow> \<exists>s1. bcopy_src_aligned ci s = Some s1 \<and> head_done p ci d0 copylen s1"
    and "dst_aligned TYPE('w) ci 0 \<Longrightarrow> \<exists>s1. bcopy_dst_aligned ci s = Some s1 \<and> head_done p ci d0 copylen s1"
    and "\<exists>s1. bcopy_unaligned ci s = Some s1 \<and> head_done p ci d0 copylen s1"
proof -
  let ?W = "wsize TYPE('w)"
  have sl: "cs_len s = copylen" "cs_plen s = length p" "cs_dst s = d0" by (simp_all add: s_def)
  have at: "cs_at p ci 0 s" unfolding s_def by (rule cs_at_start [OF p])
  have sync: "in_sync ci d0 s" by (simp add: s_def in_sync_def)
  have ab: "\<exists>s'. bcopy_absorb ci s = Some s' \<and> head_done p ci d0 copylen s'" if "\<not> ?W - length p \<le> copylen"
    using absorb_head [OF W at sync] room that sl by simp
  have fill: "\<exists>s1 temp s2. bcopy_fill ci (?W - length p) s = Some (s1, temp) \<and> loop s1 = Some s2 \<and>
     head_done p ci d0 copylen (part_reset s2)"
    if "?W - length p \<le> copylen"
      "\<And>n s1. cs_boundary p ci n (s1 :: 'w word cs_state) \<Longrightarrow> in_sync ci d0 s1 \<Longrightarrow>
        n + cs_len s1 \<le> length (ci_src ci) \<Longrightarrow> n + cs_len s1 \<le> length d0 \<Longrightarrow>
        \<exists>s2. loop s1 = Some s2 \<and> words_done p ci d0 n (cs_len s1) s2"
    for loop :: "'w word cs_state \<Rightarrow> 'w word cs_state option"
  proof (rule fill_head [OF W at sync, of loop, unfolded sl])
    show "\<forall>s1. cs_boundary p ci (?W - length p) s1 \<and> in_sync ci d0 s1 \<and> cs_len s1 = copylen - (?W - length p) \<longrightarrow>
        (\<exists>s2. loop s1 = Some s2 \<and> words_done p ci d0 (?W - length p) (cs_len s1) s2)"
    proof (intro allI impI, elim conjE)
      fix s1 :: "'w word cs_state" assume "cs_boundary p ci (?W - length p) s1" "in_sync ci d0 s1" "cs_len s1 = copylen - (?W - length p)"
      then show "\<exists>s2. loop s1 = Some s2 \<and> words_done p ci d0 (?W - length p) (cs_len s1) s2"
        using that(1) room by (intro that(2)) simp_all
    qed
  qed (use that(1) p room in simp_all)
  have start: "\<exists>s'. bcopy_while ra wa ci s = Some s' \<and> head_done p ci d0 copylen (part_reset s')"
    if "length p = 0" "ra \<longrightarrow> src_aligned TYPE('w) ci 0" "wa \<longrightarrow> dst_aligned TYPE('w) ci 0" for ra wa
  proof -
    have "cs_boundary p ci 0 s" using that(1) by (simp add: s_def cs_boundary_start)
    from bcopy_while_ok [OF W this sync _ _ that(2,3)] room sl obtain s' where
      "bcopy_while ra wa ci s = Some s'" "words_done p ci d0 0 copylen s'" by auto
    with words_head [OF W, of p ci d0 0 copylen s'] show ?thesis by simp
  qed
  note L = loops_ok [OF W]
  { assume al: "src_aligned TYPE('w) ci 0 \<and> dst_aligned TYPE('w) ci 0"
    show "\<exists>fin s1. bcopy_both_aligned ci residue s = Some (fin, s1) \<and>
        (if fin then residue = 0 \<and> cs_at p ci copylen s1 \<and> cs_dst s1 = take copylen (ci_src ci) @ drop copylen d0
         else head_done p ci d0 copylen s1)"
    proof (cases "length p = 0")
      case True
      let ?k = "copylen div ?W"
      have b: "cs_boundary p ci 0 s" using True by (simp add: s_def cs_boundary_start)
      have "?k * ?W \<le> copylen" by simp
      with room have r: "0 + ?k * ?W \<le> length (ci_src ci)" "0 + ?k * ?W \<le> length d0" by linarith+
      from bcopy_words_ok [OF W b sync r, of True True] al obtain s1 where
        s1: "bcopy_words True True ci ?k s = Some s1" "cs_boundary p ci (?k * ?W) s1" "in_sync ci d0 s1" by auto
      have at1: "cs_at p ci (?k * ?W) (part_reset s1)" using boundary_reset [OF s1(2)] by (simp add: part_reset_def)
      have spos: "cs_spos s1 = ?k * ?W" using boundary_spos [OF s1(2)] .
      have eq: "copylen - (copylen - ?k * ?W) = ?k * ?W" by (rule diff_diff_cancel) simp
      have eq2: "copylen - ?k * ?W = copylen mod ?W" by (rule minus_div_mult_eq_mod)
      show ?thesis
      proof (cases "copylen mod ?W = 0 \<and> residue = 0")
        case fin: True
        then have k: "?k * ?W = copylen" using div_mult_mod_eq [of copylen ?W] by linarith
        have "cs_dst (part_reset s1) = take copylen (ci_src ci) @ drop copylen d0"
          using s1(3) spos k by (simp add: part_reset_def in_sync_def)
        moreover have "bcopy_both_aligned ci residue s = Some (True, part_reset s1)"
          using True sl s1(1) fin by (simp add: bcopy_both_aligned_def Let_def)
        ultimately show ?thesis using at1 k fin by auto
      next
        case fin: False
        let ?s = "part_reset s1\<lparr>cs_len := copylen - ?k * ?W\<rparr>"
        have "head_done p ci d0 copylen ?s"
          unfolding head_done_def
        proof (intro conjI)
          have "cs_len ?s = copylen - ?k * ?W" by simp
          then have "copylen - cs_len ?s = ?k * ?W" by (simp only: eq)
          with at1 show "cs_at p ci (copylen - cs_len ?s) ?s" by (simp only: boundary_len)
          show "cs_len ?s = 0 \<or> cs_plen ?s = 0 \<and> cs_len ?s < ?W" using W by (simp add: part_reset_def eq2)
        qed (use s1(3) in \<open>simp_all add: part_reset_def\<close>)
        moreover have "bcopy_both_aligned ci residue s = Some (False, ?s)"
          using True sl s1(1) fin by (auto simp: bcopy_both_aligned_def Let_def)
        ultimately show ?thesis by auto
      qed
    next
      case False
      show ?thesis
      proof (cases "?W - length p \<le> copylen")
        case True
        from fill [OF True L(1)] obtain s1 temp s2 where
          "bcopy_fill ci (?W - length p) s = Some (s1, temp)" "bcopy_while False False ci s1 = Some s2"
          "head_done p ci d0 copylen (part_reset s2)" by blast
        with False True sl show ?thesis
          by (intro exI [of _ False] exI [of _ "part_reset s2"]) (simp add: bcopy_both_aligned_def)
      next
        case no: False
        from ab [OF no] False no sl show ?thesis by (auto simp: bcopy_both_aligned_def)
      qed
    qed }
  { assume al: "src_aligned TYPE('w) ci 0"
    show "\<exists>s1. bcopy_src_aligned ci s = Some s1 \<and> head_done p ci d0 copylen s1"
    proof (cases "length p = 0")
      case True
      with start [of True False] al sl show ?thesis by (auto simp: bcopy_src_aligned_def)
    next
      case False
      show ?thesis
      proof (cases "?W - length p \<le> copylen")
        case True
        from fill [OF True L(2)] False True sl show ?thesis by (auto simp: bcopy_src_aligned_def)
      next
        case no: False
        from ab [OF no] False no sl show ?thesis by (auto simp: bcopy_src_aligned_def)
      qed
    qed }
  { assume al: "dst_aligned TYPE('w) ci 0"
    show "\<exists>s1. bcopy_dst_aligned ci s = Some s1 \<and> head_done p ci d0 copylen s1"
    proof (cases "length p = 0")
      case True
      with start [of False True] al sl show ?thesis by (auto simp: bcopy_dst_aligned_def)
    next
      case False
      show ?thesis
      proof (cases "?W - length p \<le> copylen")
        case True
        from fill [OF True L(3)] False True sl show ?thesis by (auto simp: bcopy_dst_aligned_def)
      next
        case no: False
        from ab [OF no] False no sl show ?thesis by (auto simp: bcopy_dst_aligned_def)
      qed
    qed }
  show "\<exists>s1. bcopy_unaligned ci s = Some s1 \<and> head_done p ci d0 copylen s1"
  proof (cases "length p = 0")
    case True
    with start [of False False] sl show ?thesis by (auto simp: bcopy_unaligned_def)
  next
    case False
    show ?thesis
    proof (cases "?W - length p \<le> copylen")
      case True
      from fill [OF True L(4)] False True sl show ?thesis by (auto simp: bcopy_unaligned_def)
    next
      case no: False
      from ab [OF no] False no sl show ?thesis by (auto simp: bcopy_unaligned_def)
    qed
  qed
qed

lemma head_pos:
  assumes "head_done p ci d0 copylen s"
  shows "cs_spos s = copylen - cs_len s" "cs_dpos s = copylen - cs_len s"
    "cs_dst s = take (copylen - cs_len s) (ci_src ci) @ drop (copylen - cs_len s) d0"
  using assms by (simp_all add: head_done_def in_sync_def cs_at_def)

lemma head_dst_done:
  assumes "head_done p ci d0 copylen s" and "cs_len s = 0"
  shows "cs_dst s = take copylen (ci_src ci) @ drop copylen d0"
  using head_pos(3) [OF assms(1)] assms(2) by simp

lemma head_put:
  assumes "head_done p ci d0 copylen s" and "copylen \<le> length (ci_src ci)" and "copylen \<le> length d0"
  shows "put_bytes (cs_dst s) (cs_dpos s) (take (cs_len s) (drop (cs_spos s) (ci_src ci)))
    = Some (take copylen (ci_src ci) @ drop copylen d0)"
proof -
  have l: "copylen - cs_len s + cs_len s = copylen" using assms(1) by (simp add: head_done_def)
  have "put_bytes (take (copylen - cs_len s) (ci_src ci) @ drop (copylen - cs_len s) d0) (copylen - cs_len s)
      (take (cs_len s) (drop (copylen - cs_len s) (ci_src ci)))
    = Some (take (copylen - cs_len s + cs_len s) (ci_src ci) @ drop (copylen - cs_len s + cs_len s) d0)"
    using assms(2,3) l by (intro put_copied) simp_all
  then show ?thesis by (simp only: head_pos [OF assms(1)] l)
qed

lemma head_get:
  assumes "head_done p ci d0 copylen s" and "copylen \<le> length (ci_src ci)"
  shows "get_bytes (ci_src ci) (cs_spos s) (cs_len s) = Some (take (cs_len s) (drop (cs_spos s) (ci_src ci)))"
    and "length (take (cs_len s) (drop (cs_spos s) (ci_src ci))) = cs_len s"
proof -
  have "cs_spos s + cs_len s = copylen" using assms(1) head_pos(1) [OF assms(1)] by (simp add: head_done_def)
  then show "get_bytes (ci_src ci) (cs_spos s) (cs_len s) = Some (take (cs_len s) (drop (cs_spos s) (ci_src ci)))"
    "length (take (cs_len s) (drop (cs_spos s) (ci_src ci))) = cs_len s"
    using assms(2) by (simp_all add: get_take)
qed

lemma length_piece: "a + k \<le> length xs \<Longrightarrow> length (take k (drop a xs)) = k"
  by simp

lemma take_pad: "take (length x) (pad T x) = x"
  by (simp add: pad_def)

text \<open>Adding the last bytes after a word boundary.\<close>

lemma boundary_last:
  assumes W: "0 < wsize TYPE('w::len)" and b: "csum_rest TYPE('w) (p @ take n (ci_src ci)) = []"
    and sum: "cs_sum (s :: ('w word) cs_state) = csum_spec (ci_bigendian ci) (p @ take n (ci_src ci)) - csum_spec (ci_bigendian ci) p"
    and x: "x = take k (drop n (ci_src ci))" "length x = k" "k < wsize TYPE('w)" and room: "n + k \<le> length (ci_src ci)"
  shows "cs_done p ci (n + k) (s\<lparr>cs_sum := cs_sum s + wob (ci_bigendian ci) (pad TYPE('w) x),
     cs_part := pad TYPE('w) x, cs_plen := k\<rparr>)"
proof -
  have sx: "length x < wsize TYPE('w)" using x by simp
  have split: "p @ take (n + k) (ci_src ci) = (p @ take n (ci_src ci)) @ x" using x by (simp add: take_split)
  from spec_boundary(1) [OF W b, of "ci_bigendian ci" x] spec_boundary(2) [OF W b, of x]
    spec_short [OF sx, of "ci_bigendian ci"] rest_short [OF sx] sum x room
  show ?thesis unfolding cs_done_def cs_at_def split by simp
qed

lemma cs_done_dst [simp]: "cs_done p ci n (s\<lparr>cs_dst := d\<rparr>) = cs_done p ci n s"
  by (simp add: cs_done_def cs_at_def)

lemma bcopy_tail_ok:
  assumes W: "0 < wsize TYPE('w::len)" and h: "head_done p ci d0 copylen (s :: ('w word) cs_state)"
    and len: "cs_len s \<noteq> 0" and room: "copylen \<le> length (ci_src ci)" "copylen \<le> length d0"
  shows "\<exists>s'. bcopy_tail ci s = Some s' \<and> cs_done p ci copylen s' \<and>
     cs_dst s' = take copylen (ci_src ci) @ drop copylen d0"
proof -
  let ?x = "take (cs_len s) (drop (cs_spos s) (ci_src ci))"
  note g = head_get [OF h room(1)] and pt = head_put [OF h room]
  have H: "cs_plen s = 0" "cs_len s < wsize TYPE('w)" "cs_at p ci (copylen - cs_len s) s" "cs_len s \<le> copylen"
    using h len by (auto simp: head_done_def)
  have part: "cs_part s = zero_word TYPE('w)" "csum_rest TYPE('w) (p @ take (copylen - cs_len s) (ci_src ci)) = []"
    using H(1,3) by (simp_all add: cs_at_def pad_nil)
  have put: "put_bytes (cs_part s) 0 ?x = Some (pad TYPE('w) ?x)"
    using put_zero [of ?x "TYPE('w)"] g(2) H(2) part(1) by simp
  have dstx: "take (cs_len s) (pad TYPE('w) ?x) = ?x" using take_pad [of ?x "TYPE('w)"] unfolding g(2) .
  let ?s = "s\<lparr>cs_sum := cs_sum s + wob (ci_bigendian ci) (pad TYPE('w) ?x), cs_part := pad TYPE('w) ?x, cs_plen := cs_len s\<rparr>"
  have "cs_done p ci (copylen - cs_len s + cs_len s) ?s"
    using H(2-4) g(2) head_pos(1) [OF h] room by (intro boundary_last [OF W part(2)]) (simp_all add: cs_at_def)
  then have "cs_done p ci copylen ?s" using H(4) by simp
  then have "cs_done p ci copylen (?s\<lparr>cs_dst := take copylen (ci_src ci) @ drop copylen d0\<rparr>)"
    by (simp only: cs_done_dst)
  moreover have "bcopy_tail ci s = Some (?s\<lparr>cs_dst := take copylen (ci_src ci) @ drop copylen d0\<rparr>)"
    using g(1) put dstx pt H(1) by (simp add: bcopy_tail_def)
  ultimately show ?thesis by auto
qed

lemma residue_last:
  assumes W: "0 < wsize TYPE('w::len)" and b: "cs_boundary p ci n (s :: ('w word) cs_state)"
    and part: "cs_part s = zero_word TYPE('w)" "cs_plen s = 0" and k: "k < wsize TYPE('w)"
    and room: "n + k \<le> length (ci_src ci)"
  shows "\<exists>s'. (if k \<noteq> 0 then do {
       bs \<leftarrow> get_bytes (ci_src ci) (cs_spos s) k;
       temp \<leftarrow> put_bytes (zero_word TYPE('w)) 0 bs;
       Some (s\<lparr>cs_sum := cs_sum s + wob (ci_bigendian ci) temp, cs_part := temp, cs_plen := k\<rparr>) }
     else Some s) = Some s' \<and> cs_done p ci (n + k) s' \<and> cs_dst s' = cs_dst s"
proof (cases "k = 0")
  case True
  have "cs_at p ci n (s\<lparr>cs_part := zero_word TYPE('w), cs_plen := 0\<rparr>)" by (rule boundary_reset [OF b])
  then have "cs_at p ci n s" using part by (simp add: cs_at_def)
  with True cs_at_done [of p ci n s] show ?thesis by simp
next
  case False
  let ?y = "take k (drop n (ci_src ci))"
  have ly: "length ?y = k" using room by (rule length_piece)
  have get: "get_bytes (ci_src ci) (cs_spos s) k = Some ?y" using boundary_spos [OF b] room by (simp add: get_take)
  have put: "put_bytes (zero_word TYPE('w)) 0 ?y = Some (pad TYPE('w) ?y)" using ly k by (intro put_zero) simp
  have "cs_done p ci (n + k) (s\<lparr>cs_sum := cs_sum s + wob (ci_bigendian ci) (pad TYPE('w) ?y), cs_part := pad TYPE('w) ?y, cs_plen := k\<rparr>)"
    using b by (intro boundary_last [OF W _ _ refl ly k room]) (simp_all add: cs_boundary_def)
  with False get put show ?thesis by simp
qed

lemma bcopy_residue_ok:
  assumes W: "0 < wsize TYPE('w::len)" and h: "head_done p ci d0 copylen (s :: ('w word) cs_state)"
    and res: "0 < residue" and room: "copylen + residue \<le> length (ci_src ci)" "copylen \<le> length d0"
  shows "\<exists>s'. bcopy_residue ci residue s = Some s' \<and> cs_done p ci (copylen + residue) s' \<and>
     cs_dst s' = take copylen (ci_src ci) @ drop copylen d0"
proof -
  let ?W = "wsize TYPE('w)" and ?D = "take copylen (ci_src ci) @ drop copylen d0"
  let ?x = "take (cs_len s) (drop (cs_spos s) (ci_src ci))" and ?n = "copylen - cs_len s"
  have cl: "copylen \<le> length (ci_src ci)" using room(1) by simp
  note g = head_get [OF h cl] and pt = head_put [OF h cl room(2)]
  have H: "cs_len s = 0 \<or> cs_plen s = 0 \<and> cs_len s < ?W" "cs_at p ci ?n s" "cs_len s \<le> copylen"
    using h by (auto simp: head_done_def)
  have plen: "cs_plen s < ?W" using H(2) length_rest [OF W] by (simp add: cs_at_def)
  let ?s0 = "s\<lparr>cs_dst := ?D\<rparr>"
  have s0: "(if cs_len s \<noteq> 0 then do {
             bs \<leftarrow> get_bytes (ci_src ci) (cs_spos s) (cs_len s);
             temp \<leftarrow> put_bytes (zero_word TYPE('w)) 0 bs;
             dst \<leftarrow> put_bytes (cs_dst s) (cs_dpos s) (take (cs_len s) temp);
             Some (s\<lparr>cs_dst := dst\<rparr>) }
           else Some s) = Some ?s0"
  proof (cases "cs_len s = 0")
    case True
    then show ?thesis using head_dst_done [OF h True] by simp
  next
    case False
    then have "cs_len s \<le> ?W" using H(1) by simp
    then have "put_bytes (zero_word TYPE('w)) 0 ?x = Some (pad TYPE('w) ?x)" using g(2) by (intro put_zero) simp
    moreover have "take (cs_len s) (pad TYPE('w) ?x) = ?x" using take_pad [of ?x "TYPE('w)"] unfolding g(2) .
    ultimately show ?thesis using False g(1) pt by simp
  qed
  have at0: "cs_at p ci ?n ?s0" using H(2) by simp
  have s0s: "cs_len ?s0 = cs_len s" "cs_plen ?s0 = cs_plen s" by simp_all
  show ?thesis
  proof (cases "residue < ?W - cs_len s - cs_plen s")
    case True
    let ?k = "cs_len s + residue"
    have f: "cs_plen ?s0 + ?k \<le> ?W" "cs_plen s + ?k < ?W" "?n + ?k \<le> length (ci_src ci)"
      using True H(3) room by simp_all
    from csum_merge_ok [OF W at0 f(1,3)] f(2) obtain s1 temp where
      m: "csum_merge ci ?k ?s0 = Some (s1, temp)" "cs_dst s1 = ?D"
        "cs_at p ci (?n + ?k) (s1\<lparr>cs_part := temp, cs_plen := cs_plen s + ?k\<rparr>)" by auto
    have "?n + ?k = copylen + residue" using H(3) by simp
    with m True show ?thesis using s0
      by (intro exI [of _ "s1\<lparr>cs_part := temp, cs_plen := cs_plen s + ?k\<rparr>"])
         (simp add: bcopy_residue_def cs_at_done)
  next
    case False
    let ?k = "?W - cs_plen s" and ?r = "residue - (?W - cs_plen s - cs_len s)"
    have lk: "cs_len s \<le> ?k" using H(1) plen by auto
    have f: "cs_plen ?s0 + ?k \<le> ?W" "cs_plen s + ?k = ?W" "?n + ?k \<le> length (ci_src ci)"
      using False H(3) room plen lk by simp_all
    from csum_merge_ok [OF W at0 f(1,3)] f(2) obtain s1 temp where
      m: "csum_merge ci ?k ?s0 = Some (s1, temp)" "cs_dst s1 = ?D" "cs_boundary p ci (?n + ?k) s1" by auto
    have total: "?n + ?k + ?r = copylen + residue" using False H(3) lk by simp
    let ?s1 = "part_reset s1" and ?q = "?r div ?W" and ?r2 = "?r - ?r div ?W * ?W"
    have b1: "cs_boundary p ci (?n + ?k) ?s1" using m(3) by (simp add: part_reset_def)
    have r2: "?r2 = ?r mod ?W" by (rule minus_div_mult_eq_mod)
    have qle: "?q * ?W \<le> ?r" by simp
    then have rq: "?n + ?k + ?q * ?W \<le> length (ci_src ci)" using total room(1) by linarith
    have spos: "cs_spos ?s1 = ?n + ?k" using boundary_spos [OF b1] .
    let ?ra = "?r \<noteq> 0 \<and> src_aligned TYPE('w) ci (cs_spos ?s1)"
    have "?ra \<longrightarrow> src_aligned TYPE('w) ci (?n + ?k)" using spos by simp
    from csum_words_ok [OF W b1 rq this] obtain s2 where
      s2: "csum_words ?ra ci ?q ?s1 = Some s2" "cs_boundary p ci (?n + ?k + ?q * ?W) s2" "cs_dst s2 = ?D"
        "cs_part s2 = zero_word TYPE('w)" "cs_plen s2 = 0"
      using m(2) by (auto simp: part_reset_def)
    have pre: "bcopy_residue ci residue s = (if ?r2 \<noteq> 0 then do {
       bs \<leftarrow> get_bytes (ci_src ci) (cs_spos s2) ?r2;
       temp \<leftarrow> put_bytes (zero_word TYPE('w)) 0 bs;
       Some (s2\<lparr>cs_sum := cs_sum s2 + wob (ci_bigendian ci) temp, cs_part := temp, cs_plen := ?r2\<rparr>) }
     else Some s2)"
      unfolding bcopy_residue_def s0 bind.bind_lunit if_not_P [OF False] s0s m(1) prod.case Let_def s2(1) by (rule refl)
    have tot2: "?n + ?k + ?q * ?W + ?r2 = copylen + residue" using total qle by linarith
    have lt: "?r2 < ?W" unfolding r2 using W by simp
    have room2: "?n + ?k + ?q * ?W + ?r2 \<le> length (ci_src ci)" unfolding tot2 by (rule room(1))
    from residue_last [OF W s2(2,4,5) lt room2] show ?thesis unfolding pre tot2 s2(3) .
  qed
qed

lemma bcopy_csum_ok:
  assumes W: "0 < wsize TYPE('w::len)" and p: "length p < wsize TYPE('w)"
    and room: "max copylen csumlen \<le> length (ci_src ci)" "copylen \<le> length d0"
  defines "q \<equiv> csum_rest TYPE('w) (p @ take (max copylen csumlen) (ci_src ci))"
  shows "bcopy_csum_partial ci d0 copylen csumlen (pad TYPE('w) p) (length p) = Some
     (csum_spec (ci_bigendian ci) (p @ take (max copylen csumlen) (ci_src ci)) - csum_spec (ci_bigendian ci) p :: 'w word,
      take copylen (ci_src ci) @ drop copylen d0, pad TYPE('w) q, length q)"
proof -
  let ?s = "\<lparr>cs_spos = 0, cs_dpos = 0, cs_dst = d0, cs_sum = (0 :: 'w word), cs_len = copylen,
     cs_part = pad TYPE('w) p, cs_plen = length p\<rparr>"
  let ?res = "if csumlen > copylen then csumlen - copylen else 0"
  let ?D = "take copylen (ci_src ci) @ drop copylen d0"
  have cl: "copylen \<le> length (ci_src ci)" using room(1) by simp
  note heads = heads_ok [OF W p cl room(2)]
  have head: "\<exists>fin s1. (if src_aligned TYPE('w) ci 0 \<and> dst_aligned TYPE('w) ci 0 then bcopy_both_aligned ci ?res ?s
        else if src_aligned TYPE('w) ci 0 then map_option (Pair False) (bcopy_src_aligned ci ?s)
        else if dst_aligned TYPE('w) ci 0 then map_option (Pair False) (bcopy_dst_aligned ci ?s)
        else map_option (Pair False) (bcopy_unaligned ci ?s)) = Some (fin, s1) \<and>
      (if fin then ?res = 0 \<and> cs_at p ci copylen s1 \<and> cs_dst s1 = ?D else head_done p ci d0 copylen s1)"
  proof (cases "src_aligned TYPE('w) ci 0 \<and> dst_aligned TYPE('w) ci 0")
    case True
    from heads(1) [OF this, of ?res] True show ?thesis by (simp only: if_True simp_thms)
  next
    case False
    show ?thesis
    proof (cases "src_aligned TYPE('w) ci 0")
      case True
      from heads(2) [OF True] obtain s1 where "bcopy_src_aligned ci ?s = Some s1" "head_done p ci d0 copylen s1" by blast
      with True False show ?thesis by (intro exI [of _ False] exI [of _ s1]) simp
    next
      case ns: False
      show ?thesis
      proof (cases "dst_aligned TYPE('w) ci 0")
        case True
        from heads(3) [OF True] obtain s1 where "bcopy_dst_aligned ci ?s = Some s1" "head_done p ci d0 copylen s1" by blast
        with True ns show ?thesis by (intro exI [of _ False] exI [of _ s1]) simp
      next
        case nd: False
        from heads(4) obtain s1 where "bcopy_unaligned ci ?s = Some s1" "head_done p ci d0 copylen s1" by blast
        with nd ns show ?thesis by (intro exI [of _ False] exI [of _ s1]) simp
      qed
    qed
  qed
  then obtain fin s1 where hd: "(if src_aligned TYPE('w) ci 0 \<and> dst_aligned TYPE('w) ci 0 then bcopy_both_aligned ci ?res ?s
        else if src_aligned TYPE('w) ci 0 then map_option (Pair False) (bcopy_src_aligned ci ?s)
        else if dst_aligned TYPE('w) ci 0 then map_option (Pair False) (bcopy_dst_aligned ci ?s)
        else map_option (Pair False) (bcopy_unaligned ci ?s)) = Some (fin, s1)"
    and s1: "if fin then ?res = 0 \<and> cs_at p ci copylen s1 \<and> cs_dst s1 = ?D else head_done p ci d0 copylen s1" by blast
  have "\<exists>s2. (if fin then Some s1
           else if cs_len s1 \<noteq> 0 \<and> ?res = 0 then bcopy_tail ci s1
           else if ?res \<noteq> 0 then bcopy_residue ci ?res s1
           else Some s1) = Some s2 \<and> cs_done p ci (max copylen csumlen) s2 \<and> cs_dst s2 = ?D"
  proof (cases fin)
    case True
    then have "csumlen \<le> copylen" using s1 by (simp split: if_splits)
    with True s1 cs_at_done [of p ci copylen s1] show ?thesis by (simp add: max_absorb1)
  next
    case False
    then have h: "head_done p ci d0 copylen s1" using s1 by simp
    show ?thesis
    proof (cases "?res = 0")
      case True
      then have m: "max copylen csumlen = copylen" by (simp split: if_splits)
      show ?thesis
      proof (cases "cs_len s1 = 0")
        case l: True
        then have "cs_at p ci copylen s1" using h by (simp add: head_done_def)
        with False True l m head_dst_done [OF h l] cs_at_done show ?thesis by auto
      next
        case l: False
        from bcopy_tail_ok [OF W h l cl room(2)] False True l m show ?thesis by simp
      qed
    next
      case r: False
      then have m: "max copylen csumlen = copylen + ?res" by (auto split: if_splits)
      have "copylen + ?res \<le> length (ci_src ci)" using room(1) unfolding m .
      from bcopy_residue_ok [OF W h _ this room(2)] False r m show ?thesis by (simp split: if_splits)
    qed
  qed
  then obtain s2 where s2: "(if fin then Some s1
           else if cs_len s1 \<noteq> 0 \<and> ?res = 0 then bcopy_tail ci s1
           else if ?res \<noteq> 0 then bcopy_residue ci ?res s1
           else Some s1) = Some s2" "cs_done p ci (max copylen csumlen) s2" "cs_dst s2 = ?D" by blast
  have "bcopy_csum_partial ci d0 copylen csumlen (pad TYPE('w) p) (length p) = Some (cs_sum s2, cs_dst s2, cs_part s2, cs_plen s2)"
    unfolding bcopy_csum_partial_def Let_def hd bind.bind_lunit prod.case s2(1) by (rule refl)
  with s2(2,3) show ?thesis by (simp add: cs_done_def cs_at_def q_def)
qed

section \<open>CRC\<close>

text \<open>The reference: each byte goes into the top of the register, which then takes eight bit steps.\<close>

definition crc_ref_byte :: "32 word \<Rightarrow> 8 word \<Rightarrow> 32 word" where
  "crc_ref_byte crc b = (crc_bit ^^ 8) (crc XOR push_bit 24 (ucast b))"

definition crc_ref :: "32 word \<Rightarrow> bytes \<Rightarrow> 32 word" where
  "crc_ref = foldl crc_ref_byte"

definition crc_table_ok :: "crc_globals \<Rightarrow> bool" where
  "crc_table_ok g \<longleftrightarrow> (crc_table_initialized g \<longrightarrow> crc_table g = crc_table (ocoms_initialize_crc_table g))"

lemma top_bit: "crc AND 0x80000000 \<noteq> 0 \<longleftrightarrow> bit (crc :: 32 word) 31"
  using and_exp_eq_0_iff_not_bit [of crc 31] by simp

lemma crc_bit_alt: "crc_bit a = push_bit 1 a XOR (if bit a 31 then CRC_POLYNOMIAL else 0)"
  unfolding crc_bit_def top_bit by simp

lemma crc_bit_xor: "crc_bit (a XOR b) = crc_bit a XOR crc_bit b"
  unfolding crc_bit_alt bit_xor_iff push_bit_xor by (auto intro!: bit_word_eqI simp: bit_simps)

lemma crc_bits_xor: "(crc_bit ^^ n) (a XOR b) = (crc_bit ^^ n) a XOR (crc_bit ^^ n) b"
  by (induction n) (simp_all add: crc_bit_xor)

lemma crc_bits_low: "k \<le> 8 \<Longrightarrow> (crc_bit ^^ k) (take_bit 24 a) = push_bit k (take_bit 24 a)"
proof (induction k)
  case (Suc k)
  then have "(crc_bit ^^ Suc k) (take_bit 24 a) = crc_bit (push_bit k (take_bit 24 a))" by simp
  moreover have "\<not> bit (push_bit k (take_bit 24 a)) 31" using Suc.prems unfolding bit_push_bit_iff bit_take_bit_iff by auto
  ultimately show ?case unfolding crc_bit_alt by (simp add: push_bit_push_bit)
qed simp

lemma split_top: "(a :: 32 word) XOR push_bit 24 (ucast b)
   = take_bit 24 a XOR push_bit 24 ((drop_bit 24 a XOR ucast b) AND 0xff)" for b :: "8 word"
proof -
  have m: "(0xff :: 32 word) = Bit_Operations.mask 8" by (simp add: mask_eq_exp_minus_1)
  show ?thesis unfolding m
    by (rule bit_word_eqI) (auto simp: bit_simps)
qed

lemma push_low: "push_bit 8 (take_bit 24 a) = push_bit 8 (a :: 32 word)"
  by (rule bit_word_eqI) (auto simp: bit_simps)

lemma index_less: "unat ((x :: 32 word) AND 0xff) < 256"
proof -
  have "x AND 0xff \<le> 0xff" by (rule word_and_le1)
  then show ?thesis by (simp add: word_le_nat_alt)
qed

lemma crc_byte_ref: "crc_byte (crc_table (ocoms_initialize_crc_table g)) crc b = Some (crc_ref_byte crc b)"
proof -
  let ?i = "(drop_bit 24 crc XOR ucast b) AND 0xff"
  have "crc_ref_byte crc b = (crc_bit ^^ 8) (take_bit 24 crc) XOR (crc_bit ^^ 8) (push_bit 24 ?i)"
    unfolding crc_ref_byte_def split_top [of crc b] by (rule crc_bits_xor)
  also have "(crc_bit ^^ 8) (take_bit 24 crc) = push_bit 8 crc" using crc_bits_low [of 8 crc] push_low by simp
  finally show ?thesis using index_less [of "drop_bit 24 crc XOR ucast b"]
    by (simp add: crc_byte_def ocoms_initialize_crc_table_def Let_def del: funpow.simps)
qed

lemma crc_bytes_ref:
  "crc_bytes (crc_table (ocoms_initialize_crc_table g)) bs crc = Some (crc_ref crc bs)"
  by (induction bs arbitrary: crc) (simp_all add: crc_byte_ref crc_ref_def)

lemma crc_ref_append: "crc_ref crc (a @ b) = crc_ref (crc_ref crc a) b"
  by (simp add: crc_ref_def)

lemma crc_setup_table: "crc_table_ok g \<Longrightarrow> crc_table (crc_setup g) = crc_table (ocoms_initialize_crc_table g)"
  by (simp add: crc_table_ok_def crc_setup_def)

lemma crc_setup_setup [simp]: "crc_setup (crc_setup g) = crc_setup g"
  by (simp add: crc_setup_def ocoms_initialize_crc_table_def)

lemma init_init: "crc_table (ocoms_initialize_crc_table (ocoms_initialize_crc_table g)) = crc_table (ocoms_initialize_crc_table g)"
  by (simp add: ocoms_initialize_crc_table_def)

lemma crc_setup_ok: "crc_table_ok g \<Longrightarrow> crc_table_ok (crc_setup g)"
  by (simp add: crc_table_ok_def crc_setup_def init_init)

text \<open>The loop over whole integers sums the bytes it passes, if every read is aligned.\<close>

lemma crc_ints_ref:
  assumes "pos + len \<le> length (ci_src ci)" and "(ci_saddr ci + pos) mod 4 = 0"
  shows "crc_ints (crc_table (ocoms_initialize_crc_table g)) ci pos len crc
    = Some (pos + (len - len mod 4), len mod 4, crc_ref crc (take (len - len mod 4) (drop pos (ci_src ci))))"
  using assms
proof (induction len arbitrary: pos crc rule: less_induct)
  case (less len)
  show ?case
  proof (cases "len \<ge> 4")
    case False
    then show ?thesis by (subst crc_ints.simps) (simp add: crc_ref_def)
  next
    case True
    let ?tmp = "take 4 (drop pos (ci_src ci))"
    have al: "(ci_saddr ci + (pos + 4)) mod 4 = 0" using less.prems(2) by presburger
    have m: "(len - 4) mod 4 = len mod 4" "4 + (len - 4 - len mod 4) = len - len mod 4"
      using True mod_less_eq_dividend [of len 4] by (simp_all add: le_mod_geq)
    have "take (len - len mod 4) (drop pos (ci_src ci)) = ?tmp @ take (len - 4 - len mod 4) (drop (pos + 4) (ci_src ci))"
      using take_add [of 4 "len - 4 - len mod 4" "drop pos (ci_src ci)"] m(2) by (simp add: add.commute)
    moreover have "pos + 4 + (len - 4 - len mod 4) = pos + (len - len mod 4)" using m(2) by simp
    ultimately show ?thesis using True less.prems less.IH [of "len - 4" "pos + 4" "crc_ref crc ?tmp"] al m(1)
      by (subst crc_ints.simps) (simp add: get_take crc_bytes_ref crc_ref_append)
  qed
qed

lemma take_mod: "take (n - n mod 4) xs @ take (n mod 4) (drop (n - n mod 4) xs) = take n xs"
  by (metis take_add le_add_diff_inverse2 mod_less_eq_dividend)

lemma uicrc_ok:
  assumes "crc_table_ok g" and "crclen \<le> length (ci_src ci)"
  shows "ocoms_uicrc_partial g ci crclen crc = Some (crc_ref crc (take crclen (ci_src ci)), crc_setup g)"
proof (cases "ci_saddr ci mod 4 = 0")
  case False
  then show ?thesis using assms
    by (simp add: ocoms_uicrc_partial_def crc_setup_table get_take crc_bytes_ref)
next
  case True
  let ?n = "crclen - crclen mod 4"
  have r: "?n + crclen mod 4 \<le> length (ci_src ci)" using assms(2) by simp
  have "crc_ref (crc_ref crc (take ?n (ci_src ci))) (take (crclen mod 4) (drop ?n (ci_src ci)))
    = crc_ref crc (take crclen (ci_src ci))"
    unfolding crc_ref_append [symmetric] take_mod by (rule refl)
  then show ?thesis using assms True r crc_ints_ref [of 0 crclen ci g crc]
    by (simp add: ocoms_uicrc_partial_def crc_setup_table Let_def get_take crc_bytes_ref)
qed

text \<open>The same for the copying variant.\<close>

lemma bcopy_crc_bytes_ref:
  assumes "pos + length ts \<le> length dst"
  shows "bcopy_crc_bytes (crc_table (ocoms_initialize_crc_table g)) ts dst pos crc
    = Some (take pos dst @ ts @ drop (pos + length ts) dst, crc_ref crc ts)"
  using assms
proof (induction ts arbitrary: dst pos crc)
  case (Cons t ts)
  have "take (Suc pos) (dst[pos := t]) = take pos dst @ [t]" using Cons.prems by (simp add: take_Suc_conv_app_nth)
  then show ?case using Cons by (simp add: crc_byte_ref crc_ref_def)
qed (simp add: crc_ref_def)

lemma bcopy_crc_ints_ref:
  assumes "pos + len \<le> length (ci_src ci)" and "pos + len \<le> length dst"
    and "(ci_saddr ci + pos) mod 4 = 0" and "(ci_daddr ci + pos) mod 4 = 0"
    and "dst = take pos (ci_src ci) @ drop pos d0" and "length d0 = length dst"
  shows "\<exists>n. n + len mod 4 = pos + len \<and> bcopy_crc_ints (crc_table (ocoms_initialize_crc_table g)) ci dst pos len crc
    = Some (take n (ci_src ci) @ drop n d0, n, len mod 4, crc_ref crc (take (n - pos) (drop pos (ci_src ci))))"
  using assms
proof (induction len arbitrary: pos crc dst rule: less_induct)
  case (less len)
  show ?case
  proof (cases "len \<ge> 4")
    case False
    then show ?thesis using less.prems(5) by (subst bcopy_crc_ints.simps) (simp add: crc_ref_def)
  next
    case True
    let ?tmp = "take 4 (drop pos (ci_src ci))" and ?dst = "take (pos + 4) (ci_src ci) @ drop (pos + 4) d0"
    have al: "(ci_saddr ci + (pos + 4)) mod 4 = 0" "(ci_daddr ci + (pos + 4)) mod 4 = 0"
      using less.prems(3,4) by presburger+
    have put: "put_bytes dst pos ?tmp = Some ?dst"
      unfolding less.prems(5) using True less.prems(1,2,6) by (intro put_copied) simp_all
    have m: "(len - 4) mod 4 = len mod 4" using True by (simp add: le_mod_geq)
    have "length ?dst = length dst" using True less.prems(1,2,6) by simp
    have pre: "len - 4 < len" "pos + 4 + (len - 4) \<le> length (ci_src ci)" "pos + 4 + (len - 4) \<le> length ?dst"
      "length d0 = length ?dst" using True less.prems(1,2,6) \<open>length ?dst = length dst\<close> by simp_all
    from less.IH [OF pre(1,2,3) al refl pre(4), of "crc_ref crc ?tmp"] True obtain n where
      n: "n + len mod 4 = pos + len" "bcopy_crc_ints (crc_table (ocoms_initialize_crc_table g)) ci ?dst (pos + 4) (len - 4) (crc_ref crc ?tmp)
        = Some (take n (ci_src ci) @ drop n d0, n, len mod 4, crc_ref (crc_ref crc ?tmp) (take (n - (pos + 4)) (drop (pos + 4) (ci_src ci))))"
      unfolding m using le_add_diff_inverse [OF True] unfolding add.assoc [of pos] by auto
    have "pos + 4 \<le> n" using n(1) True by presburger
    then have k: "n - pos = 4 + (n - (pos + 4))" by simp
    have "take (n - pos) (drop pos (ci_src ci)) = ?tmp @ take (n - (pos + 4)) (drop (pos + 4) (ci_src ci))"
      unfolding k take_add by (simp add: add.commute)
    then have "bcopy_crc_ints (crc_table (ocoms_initialize_crc_table g)) ci dst pos len crc
      = Some (take n (ci_src ci) @ drop n d0, n, len mod 4, crc_ref crc (take (n - pos) (drop pos (ci_src ci))))"
      using n(2) True less.prems(1,3,4) put
      by (subst bcopy_crc_ints.simps) (simp add: get_take crc_bytes_ref crc_ref_append)
    with n(1) show ?thesis by blast
  qed
qed

lemma bcopy_uicrc_ok:
  assumes ok: "crc_table_ok g" and room: "max copylen crclen \<le> length (ci_src ci)" "copylen \<le> length d0"
  shows "ocoms_bcopy_uicrc_partial g ci d0 copylen crclen crc = Some
     (crc_ref crc (take (max copylen crclen) (ci_src ci)), take copylen (ci_src ci) @ drop copylen d0, crc_setup g)"
proof -
  let ?T = "crc_table (crc_setup g)" and ?al = "ci_saddr ci mod 4 = 0 \<and> ci_daddr ci mod 4 = 0"
  let ?res = "if crclen > copylen then crclen - copylen else 0"
  note T = crc_setup_table [OF ok]
  have "\<exists>n len. n + len = copylen \<and>
    (if ?al then bcopy_crc_ints ?T ci d0 0 copylen crc else Some (d0, 0, copylen, crc))
      = Some (take n (ci_src ci) @ drop n d0, n, len, crc_ref crc (take n (ci_src ci)))"
    using bcopy_crc_ints_ref [of 0 copylen ci d0 d0 g crc] room
    by (cases ?al) (auto simp: T crc_ref_def)
  then obtain n len where n: "n + len = copylen"
    "(if ?al then bcopy_crc_ints ?T ci d0 0 copylen crc else Some (d0, 0, copylen, crc))
      = Some (take n (ci_src ci) @ drop n d0, n, len, crc_ref crc (take n (ci_src ci)))" by blast
  let ?ts = "take len (drop n (ci_src ci))" and ?rest = "take ?res (drop copylen (ci_src ci))"
  have g1: "get_bytes (ci_src ci) n len = Some ?ts" using n(1) room by (simp add: get_take)
  have lts: "length ?ts = len" using n(1) room by (intro length_piece) simp
  let ?D = "take n (ci_src ci) @ drop n d0"
  have "n \<le> length (ci_src ci)" "n + len \<le> length d0" using n(1) room by simp_all
  then have "bcopy_crc_bytes ?T ?ts ?D n (crc_ref crc (take n (ci_src ci)))
    = Some (take n ?D @ ?ts @ drop (n + length ?ts) ?D, crc_ref (crc_ref crc (take n (ci_src ci))) ?ts)"
    unfolding T using lts by (intro bcopy_crc_bytes_ref) simp
  moreover have "take n ?D @ ?ts @ drop (n + length ?ts) ?D = take copylen (ci_src ci) @ drop copylen d0"
    using \<open>n \<le> length (ci_src ci)\<close> n(1) unfolding lts by (auto simp: take_split [of n len])
  moreover have "crc_ref (crc_ref crc (take n (ci_src ci))) ?ts = crc_ref crc (take copylen (ci_src ci))"
    unfolding n(1) [symmetric] take_split by (simp add: crc_ref_append)
  ultimately have bs: "bcopy_crc_bytes ?T ?ts ?D n (crc_ref crc (take n (ci_src ci)))
    = Some (take copylen (ci_src ci) @ drop copylen d0, crc_ref crc (take copylen (ci_src ci)))" by simp
  have mx: "max copylen crclen = copylen + ?res" by simp
  then have g2: "get_bytes (ci_src ci) (n + len) ?res = Some ?rest" using n(1) room by (intro get_take [THEN trans]) simp_all
  have fin: "crc_ref crc (take (max copylen crclen) (ci_src ci)) = crc_ref (crc_ref crc (take copylen (ci_src ci))) ?rest"
    unfolding mx take_split by (rule crc_ref_append)
  show ?thesis unfolding ocoms_bcopy_uicrc_partial_def Let_def n(2) bind.bind_lunit prod.case g1 bs g2
    by (simp only: T crc_bytes_ref bind.bind_lunit fin)
qed

section \<open>The convertor's running checksum\<close>

text \<open>
  The fields of a convertor that \<open>COMPUTE_CSUM\<close> and \<open>MEMCPY_CSUM\<close> of
  \<open>datatype/ocoms_datatype_checksum.h\<close> keep: the sum so far and the partial word with its length.
\<close>

record csum_convertor =
  checksum :: "32 word"
  csum_ui1 :: bytes
  csum_ui2 :: nat

definition COMPUTE_CSUM :: "csum_convertor \<Rightarrow> cs_in \<times> nat \<Rightarrow> csum_convertor option" where
  "COMPUTE_CSUM conv = (\<lambda>(ci, blength). do {
     (c, ui1, ui2) \<leftarrow> ocoms_uicsum_partial ci blength (csum_ui1 conv) (csum_ui2 conv);
     Some \<lparr>checksum = checksum conv + c, csum_ui1 = ui1, csum_ui2 = ui2\<rparr> })"

definition MEMCPY_CSUM :: "csum_convertor \<Rightarrow> cs_in \<Rightarrow> bytes \<Rightarrow> nat \<Rightarrow> (csum_convertor \<times> bytes) option" where
  "MEMCPY_CSUM conv ci dst blength = do {
     (c, dst', ui1, ui2) \<leftarrow> ocoms_bcopy_uicsum_partial ci dst blength blength (csum_ui1 conv) (csum_ui2 conv);
     Some (\<lparr>checksum = checksum conv + c, csum_ui1 = ui1, csum_ui2 = ui2\<rparr>, dst') }"

text \<open>A piece is a source and a length; the state is well formed when the partial word is padded.\<close>

definition piece_ok :: "bool \<Rightarrow> cs_in \<times> nat \<Rightarrow> bool" where
  "piece_ok be = (\<lambda>(ci, n). ci_bigendian ci = be \<and> n \<le> length (ci_src ci))"

definition piece_data :: "cs_in \<times> nat \<Rightarrow> bytes" where
  "piece_data = (\<lambda>(ci, n). take n (ci_src ci))"

definition conv_inv :: "csum_convertor \<Rightarrow> bool" where
  "conv_inv conv \<longleftrightarrow> (\<exists>p. length p < 4 \<and> csum_ui1 conv = pad TYPE(32) p \<and> csum_ui2 conv = length p)"

definition conv_result :: "bool \<Rightarrow> csum_convertor \<Rightarrow> bytes \<Rightarrow> csum_convertor" where
  "conv_result be conv bs =
     (let p = take (csum_ui2 conv) (csum_ui1 conv); q = csum_rest TYPE(32) (p @ bs) in
      \<lparr>checksum = checksum conv + (csum_spec be (p @ bs) - csum_spec be p),
       csum_ui1 = pad TYPE(32) q, csum_ui2 = length q\<rparr>)"

lemma wsize_simps [simp]: "wsize TYPE(64) = 8" "wsize TYPE(32) = 4"
  by (simp_all add: wsize_def)

lemma conv_invE:
  assumes "conv_inv conv"
  obtains c p where "conv = \<lparr>checksum = c, csum_ui1 = pad TYPE(32) p, csum_ui2 = length p\<rparr>" "length p < 4"
  using assms by (cases conv) (auto simp: conv_inv_def)

lemma conv_result_at:
  "length p < 4 \<Longrightarrow> conv_result be \<lparr>checksum = c, csum_ui1 = pad TYPE(32) p, csum_ui2 = length p\<rparr> bs =
   \<lparr>checksum = c + (csum_spec be (p @ bs) - csum_spec be p),
    csum_ui1 = pad TYPE(32) (csum_rest TYPE(32) (p @ bs)), csum_ui2 = length (csum_rest TYPE(32) (p @ bs))\<rparr>"
  by (simp add: conv_result_def Let_def take_pad)

lemma COMPUTE_CSUM_ok: "conv_inv conv \<Longrightarrow> piece_ok be c \<Longrightarrow> COMPUTE_CSUM conv c = Some (conv_result be conv (piece_data c))"
proof (cases c)
  fix ci n
  assume "conv_inv conv" and p: "piece_ok be c" and c: "c = (ci, n)"
  then obtain s q where q: "conv = \<lparr>checksum = s, csum_ui1 = pad TYPE(32) q, csum_ui2 = length q\<rparr>" "length q < 4"
    by (blast elim: conv_invE)
  with p c csum_partial_ok [of q n ci, where 'w = 32] show ?thesis
    by (simp add: COMPUTE_CSUM_def ocoms_uicsum_partial_def piece_ok_def piece_data_def conv_result_at [OF q(2)])
qed

lemma conv_result_append: "conv_inv conv \<Longrightarrow> conv_result be (conv_result be conv a) b = conv_result be conv (a @ b)"
proof -
  assume "conv_inv conv"
  then obtain s p where p: "conv = \<lparr>checksum = s, csum_ui1 = pad TYPE(32) p, csum_ui2 = length p\<rparr>" "length p < 4"
    by (blast elim: conv_invE)
  let ?q = "csum_rest TYPE(32) (p @ a)"
  have q: "length ?q < 4" using length_rest [of "TYPE(32)" "p @ a"] by simp
  from spec_append [of be "p @ a" b, where 'w = 32] spec_short [of ?q be, where 'w = 32] q
  show ?thesis unfolding p(1) conv_result_at [OF p(2)] conv_result_at [OF q] by simp
qed

interpretation conv_csum: digest conv_inv "piece_ok be" piece_data COMPUTE_CSUM "conv_result be" for be
proof unfold_locales
  show "conv_inv s \<Longrightarrow> piece_ok be c \<Longrightarrow> COMPUTE_CSUM s c = Some (conv_result be s (piece_data c))" for s c
    by (rule COMPUTE_CSUM_ok)
  show "conv_inv (conv_result be s bs)" if "conv_inv s" for s bs
    using that length_rest [of "TYPE(32)"] by (auto elim!: conv_invE simp: conv_result_at) (auto simp: conv_inv_def)
  show "conv_result be s [] = s" if "conv_inv s" for s
    using that by (auto elim!: conv_invE simp: conv_result_at rest_short)
  show "conv_inv s \<Longrightarrow> conv_result be (conv_result be s a) b = conv_result be s (a @ b)" for s a b
    by (rule conv_result_append)
qed

text \<open>The CRC register with the globals is a digest too.\<close>

definition crc_absorb :: "32 word \<times> crc_globals \<Rightarrow> cs_in \<times> nat \<Rightarrow> (32 word \<times> crc_globals) option" where
  "crc_absorb = (\<lambda>(crc, g) (ci, n). ocoms_uicrc_partial g ci n crc)"

definition crc_inv :: "32 word \<times> crc_globals \<Rightarrow> bool" where
  "crc_inv = (\<lambda>(crc, g). crc_table_ok g \<and> crc_table_initialized g)"

definition crc_result :: "32 word \<times> crc_globals \<Rightarrow> bytes \<Rightarrow> 32 word \<times> crc_globals" where
  "crc_result = (\<lambda>(crc, g) bs. (crc_ref crc bs, g))"

interpretation crc: digest crc_inv "piece_ok be" piece_data crc_absorb crc_result for be
proof unfold_locales
  show "crc_absorb s c = Some (crc_result s (piece_data c))" if "crc_inv s" "piece_ok be c" for s c
    using that by (auto simp: crc_absorb_def crc_inv_def piece_ok_def piece_data_def crc_result_def uicrc_ok crc_setup_def
      split: prod.splits)
qed (auto simp: crc_inv_def crc_result_def crc_ref_append split: prod.splits, simp add: crc_ref_def)

section \<open>The 16-bit checksum adds modulo 65535\<close>

fun sum16 :: "bool \<Rightarrow> bytes \<Rightarrow> nat" where
  "sum16 be (a # b # bs) = unat (wob be [a, b] :: 16 word) + sum16 be bs"
| "sum16 be [a] = unat a"
| "sum16 be [] = 0"

lemma unat_less_16: "unat (x :: 16 word) \<le> 65535" 
  using unsigned_less [of x, where ?'a = nat] by simp

lemma unat_less_8: "unat (x :: 8 word) \<le> 255" 
  using unsigned_less [of x, where ?'a = nat] by simp

lemma sum16_bound: "2 * sum16 be bs \<le> 65535 * (length bs + 1)"
proof (induction be bs rule: sum16.induct)
  case (1 be a b bs)
  then show ?case using unat_less_16 [of "wob be [a, b]"] by simp
next
  case (2 be a)
  then show ?case using unat_less_8 [of a] by simp
qed simp

lemma unat_add_small: "unat (c :: 32 word) + unat d < 2 ^ 32 \<Longrightarrow> unat (c + d) = unat c + unat d"
  by (simp add: unat_word_ariths)

lemma unat_ucast_small: "unat x < 2 ^ 32 \<Longrightarrow> unat (ucast x :: 32 word) = unat x"
  by (simp add: unsigned_ucast_eq take_bit_nat_eq_self)

lemma csum16_sum_ok: "unat c + sum16 be bs < 2 ^ 32 \<Longrightarrow> unat (csum16_sum be bs c) = unat c + sum16 be bs"
proof (induction be bs arbitrary: c rule: sum16.induct)
  case (1 be a b bs)
  have u: "unat (ucast (wob be [a, b] :: 16 word) :: 32 word) = unat (wob be [a, b] :: 16 word)"
    by (rule unat_ucast_small) (use unat_less_16 [of "wob be [a, b]"] in simp)
  have "unat (c + ucast (wob be [a, b] :: 16 word)) = unat c + unat (wob be [a, b] :: 16 word)"
    using "1.prems" u by (subst unat_add_small) simp_all
  then show ?case using 1 by simp
next
  case (2 be a)
  have u: "unat (ucast a :: 32 word) = unat a"
    by (rule unat_ucast_small) (use unat_less_8 [of a] in simp)
  then show ?case using 2 by (simp add: unat_add_small)
qed simp

lemma csum16_fold_ok: "unat (csum16_fold c) mod 65535 = unat c mod 65535 \<and> unat (csum16_fold c) < 2 ^ 16"
proof (induction c rule: csum16_fold.induct)
  case (1 c)
  let ?n = "unat c"
  have d: "unat (drop_bit 16 c) = ?n div 2 ^ 16" by (simp add: unat_drop_bit_eq) (simp add: drop_bit_eq_div)
  show ?case
  proof (cases "drop_bit 16 c = 0")
    case True
    then have "?n div 2 ^ 16 = 0" using d by simp
    then have "?n < 2 ^ 16" by simp
    then show ?thesis using True by (subst csum16_fold.simps, subst csum16_fold.simps) simp
  next
    case False
    have "c AND 0xFFFF = take_bit 16 c" by (simp add: take_bit_eq_mask mask_eq_exp_minus_1)
    then have m: "unat (c AND 0xFFFF) = ?n mod 2 ^ 16" by (simp add: unsigned_take_bit_eq) (simp add: take_bit_eq_mod)
    have lt: "?n < 2 ^ 32" using unsigned_less [of c, where ?'a = nat] by simp
    then have "unat ((c AND 0xFFFF) + drop_bit 16 c) = ?n mod 2 ^ 16 + ?n div 2 ^ 16"
      using m d by (subst unat_add_small) simp_all
    moreover have "?n mod 65535 = (?n mod 2 ^ 16 + ?n div 2 ^ 16) mod 65535"
    proof -
      have "?n = ?n mod 2 ^ 16 + ?n div 2 ^ 16 + 65535 * (?n div 2 ^ 16)" using div_mult_mod_eq [of ?n "2 ^ 16"] by simp
      then show ?thesis by (metis mod_mult_self2)
    qed
    ultimately show ?thesis using False 1 [OF False] by (subst csum16_fold.simps, subst (2) csum16_fold.simps) simp
  qed
qed

section \<open>Properties\<close>

lemma csum64_eq:
  assumes "length p < 8" and "n \<le> length (ci_src ci)"
  shows "ocoms_csum_partial ci n (pad TYPE(64) p) (length p) = Some
     (csum_spec (ci_bigendian ci) (p @ take n (ci_src ci)) - csum_spec (ci_bigendian ci) p,
      pad TYPE(64) (csum_rest TYPE(64) (p @ take n (ci_src ci))), length (csum_rest TYPE(64) (p @ take n (ci_src ci))))"
  using csum_partial_ok [of p n ci, where 'w = 64] assms by (simp add: ocoms_csum_partial_def)

lemma csum32_eq:
  assumes "length p < 4" and "n \<le> length (ci_src ci)"
  shows "ocoms_uicsum_partial ci n (pad TYPE(32) p) (length p) = Some
     (csum_spec (ci_bigendian ci) (p @ take n (ci_src ci)) - csum_spec (ci_bigendian ci) p,
      pad TYPE(32) (csum_rest TYPE(32) (p @ take n (ci_src ci))), length (csum_rest TYPE(32) (p @ take n (ci_src ci))))"
  using csum_partial_ok [of p n ci, where 'w = 32] assms by (simp add: ocoms_uicsum_partial_def)

text \<open>
  \<open>ocoms_csum\<close> and \<open>ocoms_uicsum\<close> read only the given bytes and return the sum of the native
  words of the data, the last one padded with zeros, whatever the alignment of the source.
\<close>

theorem csum_sums_words:
  assumes "csumlen \<le> length (ci_src ci)"
  shows "ocoms_csum ci csumlen = Some (csum_spec (ci_bigendian ci) (take csumlen (ci_src ci))) \<and>
         ocoms_uicsum ci csumlen = Some (csum_spec (ci_bigendian ci) (take csumlen (ci_src ci)))"
  using csum64_eq [of "[]" csumlen ci] csum32_eq [of "[]" csumlen ci] assms
  by (simp add: ocoms_csum_def ocoms_uicsum_def pad_nil zero_word_def)

theorem csum_sums_words_witness:
  "ocoms_uicsum \<lparr>ci_src = [1, 2, 3, 4, 5, 6], ci_saddr = 3, ci_daddr = 0, ci_bigendian = False\<rparr> 6
     = Some (csum_spec False [1, 2, 3, 4, 5, 6])"
  using csum_sums_words [of 6 "\<lparr>ci_src = [1, 2, 3, 4, 5, 6], ci_saddr = 3, ci_daddr = 0, ci_bigendian = False\<rparr>"] by simp

text \<open>
  C11: Copying while summing (\<open>ocoms_bcopy_csum_partial\<close> and \<open>ocoms_bcopy_uicsum_partial\<close>) copies
  exactly the first \<open>copylen\<close> bytes and returns the checksum and partial word that the routine
  without copying returns for the longer of the two lengths, in all sixteen alignment cases.
\<close>

theorem bcopy_csum_agrees:
  assumes "max copylen csumlen \<le> length (ci_src ci)" and "copylen \<le> length d"
    and "length p < 8" and "length q < 4"
  shows "ocoms_bcopy_csum_partial ci d copylen csumlen (pad TYPE(64) p) (length p) =
     map_option (\<lambda>(c, pl, n). (c, take copylen (ci_src ci) @ drop copylen d, pl, n))
       (ocoms_csum_partial ci (max copylen csumlen) (pad TYPE(64) p) (length p)) \<and>
   ocoms_bcopy_uicsum_partial ci d copylen csumlen (pad TYPE(32) q) (length q) =
     map_option (\<lambda>(c, pl, n). (c, take copylen (ci_src ci) @ drop copylen d, pl, n))
       (ocoms_uicsum_partial ci (max copylen csumlen) (pad TYPE(32) q) (length q)) \<and>
   ocoms_csum_partial ci (max copylen csumlen) (pad TYPE(64) p) (length p) \<noteq> None \<and>
   ocoms_uicsum_partial ci (max copylen csumlen) (pad TYPE(32) q) (length q) \<noteq> None"
  using bcopy_csum_ok [of p copylen csumlen ci d, where 'w = 64] bcopy_csum_ok [of q copylen csumlen ci d, where 'w = 32]
    csum64_eq [OF assms(3,1)] csum32_eq [OF assms(4,1)] assms
  by (simp add: ocoms_bcopy_csum_partial_def ocoms_bcopy_uicsum_partial_def)

theorem bcopy_csum_agrees_witness:
  "ocoms_bcopy_uicsum_partial \<lparr>ci_src = [1, 2, 3, 4, 5, 6], ci_saddr = 3, ci_daddr = 4, ci_bigendian = True\<rparr>
      [0, 0, 0] 2 5 (pad TYPE(32) [7]) (length [7 :: 8 word]) =
   map_option (\<lambda>(c, pl, n). (c, [1, 2, 0], pl, n))
     (ocoms_uicsum_partial \<lparr>ci_src = [1, 2, 3, 4, 5, 6], ci_saddr = 3, ci_daddr = 4, ci_bigendian = True\<rparr>
        5 (pad TYPE(32) [7]) (length [7 :: 8 word]))"
  using bcopy_csum_agrees [of 2 5 "\<lparr>ci_src = [1, 2, 3, 4, 5, 6], ci_saddr = 3, ci_daddr = 4, ci_bigendian = True\<rparr>"
    "[0, 0, 0]" "[]" "[7]"] by simp

text \<open>
  C12: The running checksum of a convertor does not depend on how the data is cut into segments:
  after any sequence of \<open>COMPUTE_CSUM\<close> on pieces at any addresses and of any lengths, also lengths
  that are no multiple of the word size, it is the checksum of the whole data.
\<close>

theorem convertor_checksum_of_whole:
  assumes "\<forall>c \<in> set cs. piece_ok be c"
  shows "\<exists>conv. feed COMPUTE_CSUM \<lparr>checksum = 0, csum_ui1 = zero_word TYPE(32), csum_ui2 = 0\<rparr> cs = Some conv \<and>
     checksum conv = csum_spec be (concat (map piece_data cs))"
proof -
  let ?c = "\<lparr>checksum = 0, csum_ui1 = zero_word TYPE(32), csum_ui2 = 0\<rparr>"
  have "conv_inv ?c" by (auto simp: conv_inv_def pad_nil intro: exI [of _ "[]"])
  from conv_csum.feed_result [OF this assms] show ?thesis by (simp add: conv_result_def Let_def)
qed

theorem convertor_checksum_of_whole_witness:
  "\<exists>conv. feed COMPUTE_CSUM \<lparr>checksum = 0, csum_ui1 = zero_word TYPE(32), csum_ui2 = 0\<rparr>
      [(\<lparr>ci_src = [1, 2, 3, 4, 5], ci_saddr = 1, ci_daddr = 0, ci_bigendian = False\<rparr>, 5),
       (\<lparr>ci_src = [6, 7], ci_saddr = 10, ci_daddr = 0, ci_bigendian = False\<rparr>, 1)] = Some conv \<and>
     checksum conv = csum_spec False [1, 2, 3, 4, 5, 6]"
  using convertor_checksum_of_whole [of "[(\<lparr>ci_src = [1, 2, 3, 4, 5], ci_saddr = 1, ci_daddr = 0, ci_bigendian = False\<rparr>, 5),
       (\<lparr>ci_src = [6, 7], ci_saddr = 10, ci_daddr = 0, ci_bigendian = False\<rparr>, 1)]" False]
  by (simp add: piece_ok_def piece_data_def)

text \<open>
  C13: The table-driven CRC equals the bitwise CRC-32 over the same bytes, for aligned and unaligned
  sources, on the first call (which builds the table) and on later ones; the copying variant returns
  the CRC of the longer length and copies the first \<open>copylen\<close> bytes.
\<close>

theorem crc_is_bitwise:
  assumes "crc_table_ok g" and "max copylen crclen \<le> length (ci_src ci)" and "copylen \<le> length d"
  shows "\<exists>g'. crc_table_ok g' \<and> crc_table_initialized g' \<and>
    ocoms_uicrc_partial g ci crclen crc = Some (crc_ref crc (take crclen (ci_src ci)), g') \<and>
    ocoms_bcopy_uicrc_partial g ci d copylen crclen crc = Some
      (crc_ref crc (take (max copylen crclen) (ci_src ci)), take copylen (ci_src ci) @ drop copylen d, g')"
  using uicrc_ok [of g crclen ci crc] bcopy_uicrc_ok [OF assms, of crc] assms crc_setup_ok [OF assms(1)]
  by (intro exI [of _ "crc_setup g"]) (simp add: crc_setup_def ocoms_initialize_crc_table_def)

theorem crc_is_bitwise_witness:
  "\<exists>g'. ocoms_bcopy_uicrc_partial \<lparr>crc_table_initialized = False, crc_table = replicate 256 0\<rparr>
      \<lparr>ci_src = [1, 2, 3, 4, 5, 6], ci_saddr = 4, ci_daddr = 8, ci_bigendian = False\<rparr> (replicate 5 0) 5 6 CRC_INITIAL_REGISTER
    = Some (crc_ref CRC_INITIAL_REGISTER [1, 2, 3, 4, 5, 6], [1, 2, 3, 4, 5], g')"
  using crc_is_bitwise [of "\<lparr>crc_table_initialized = False, crc_table = replicate 256 0\<rparr>" 5 6
    "\<lparr>ci_src = [1, 2, 3, 4, 5, 6], ci_saddr = 4, ci_daddr = 8, ci_bigendian = False\<rparr>" "replicate 5 0" CRC_INITIAL_REGISTER]
  by (auto simp: crc_table_ok_def)

text \<open>
  \<open>ocoms_csum16\<close> folds to sixteen bits without loss: on up to 128 KiB of 16-bit aligned data the
  result is congruent to the sum of the 16-bit words (and a last odd byte) modulo 65535.
\<close>

theorem csum16_modulo_65535:
  assumes "csumlen \<le> length (ci_src ci)" and "csumlen \<le> 131072" and "csumlen > 1 \<longrightarrow> even (ci_saddr ci)"
  shows "\<exists>c. ocoms_csum16 ci csumlen = Some c \<and>
     unat c mod 65535 = sum16 (ci_bigendian ci) (take csumlen (ci_src ci)) mod 65535"
proof -
  let ?bs = "take csumlen (ci_src ci)"
  let ?c = "csum16_fold (csum16_sum (ci_bigendian ci) ?bs 0)"
  have "2 * sum16 (ci_bigendian ci) ?bs \<le> 65535 * 131073"
    using sum16_bound [of "ci_bigendian ci" ?bs] assms(1,2) by (simp add: min_absorb2)
  then have "unat (csum16_sum (ci_bigendian ci) ?bs 0) = sum16 (ci_bigendian ci) ?bs"
    using csum16_sum_ok [of 0 "ci_bigendian ci" ?bs] by simp
  moreover have "unat (ucast ?c :: 16 word) = unat ?c"
    using csum16_fold_ok [of "csum16_sum (ci_bigendian ci) ?bs 0"] by (simp add: unsigned_ucast_eq take_bit_nat_eq_self)
  ultimately show ?thesis using csum16_fold_ok [of "csum16_sum (ci_bigendian ci) ?bs 0"] assms
    by (simp add: ocoms_csum16_def get_take even_iff_mod_2_eq_zero)
qed

theorem csum16_modulo_65535_witness:
  "\<exists>c. ocoms_csum16 \<lparr>ci_src = [255, 255, 255, 255, 9], ci_saddr = 2, ci_daddr = 0, ci_bigendian = False\<rparr> 5 = Some c \<and>
     unat c mod 65535 = sum16 False [255, 255, 255, 255, 9] mod 65535"
  using csum16_modulo_65535 [of 5 "\<lparr>ci_src = [255, 255, 255, 255, 9], ci_saddr = 2, ci_daddr = 0, ci_bigendian = False\<rparr>"] by simp

end
