(* ===== verification/C_Strings.thy ===== *)
theory C_Strings
  imports Prelude
begin

text \<open>
  What the components use of the C library's string functions: character classes, conversion of
  numbers from and to strings, comparison without case, and search.  A string is the list of
  its characters before the terminator.
\<close>

section \<open>Characters\<close>

definition c_isspace :: "char \<Rightarrow> bool" where
  "c_isspace c \<longleftrightarrow> c = CHR '' '' \<or> 9 \<le> (of_char c :: nat) \<and> (of_char c :: nat) \<le> 13"

definition c_isdigit :: "char \<Rightarrow> bool" where
  "c_isdigit c \<longleftrightarrow> 48 \<le> (of_char c :: nat) \<and> (of_char c :: nat) \<le> 57"

definition c_tolower :: "char \<Rightarrow> char" where
  "c_tolower c = (if 65 \<le> (of_char c :: nat) \<and> (of_char c :: nat) \<le> 90 then char_of ((of_char c :: nat) + 32) else c)"

text \<open>Whether \<open>strcasecmp\<close> returns 0, and \<open>strncasecmp\<close> with the length of its second argument.\<close>

definition strcaseeq :: "string \<Rightarrow> string \<Rightarrow> bool" where
  "strcaseeq a b \<longleftrightarrow> map c_tolower a = map c_tolower b"

definition strcase_prefix :: "string \<Rightarrow> string \<Rightarrow> bool" where
  "strcase_prefix p s \<longleftrightarrow> length p \<le> length s \<and> strcaseeq p (take (length p) s)"

text \<open>\<open>strstr\<close>: what precedes the first occurrence, and what follows it.\<close>

fun strstr :: "string \<Rightarrow> string \<Rightarrow> (string \<times> string) option" where
  "strstr p [] = (if p = [] then Some ([], []) else None)"
| "strstr p (c # s) = (if take (length p) (c # s) = p then Some ([], drop (length p) (c # s))
     else map_option (\<lambda>(a, b). (c # a, b)) (strstr p s))"

lemma strstr_Some: "strstr p s = Some (a, b) \<Longrightarrow> s = a @ p @ b"
proof (induction s arbitrary: a)
  case (Cons c s)
  then show ?case by (auto split: if_splits) (metis append_take_drop_id)+
qed (simp split: if_splits)

section \<open>Numbers in strings\<close>

definition c_digit :: "char \<Rightarrow> nat" where
  "c_digit c = (let n = of_char (c_tolower c) :: nat in
     if 48 \<le> n \<and> n \<le> 57 then n - 48 else if 97 \<le> n \<and> n \<le> 122 then n - 87 else 99)"

definition is_digit_in :: "nat \<Rightarrow> char \<Rightarrow> bool" where
  "is_digit_in base c \<longleftrightarrow> c_digit c < base"

definition digits_in :: "nat \<Rightarrow> string \<Rightarrow> nat" where
  "digits_in base s = foldl (\<lambda>n c. base * n + c_digit c) 0 s"

text \<open>The base that base 0 stands for, and the string behind the prefix \<open>0x\<close>.\<close>

definition c_base :: "nat \<Rightarrow> string \<Rightarrow> nat \<times> string" where
  "c_base base s =
     (if base = 0 then
        (if take 1 s = ''0'' \<and> map c_tolower (take 1 (drop 1 s)) = ''x'' \<and> (\<exists>c \<in> set (take 1 (drop 2 s)). is_digit_in 16 c)
         then (16, drop 2 s) else if take 1 s = ''0'' then (8, s) else (10, s))
      else (base, s))"

text \<open>The sign, the magnitude and the rest of the string; \<open>None\<close> when there are no digits.\<close>

definition c_number :: "nat \<Rightarrow> string \<Rightarrow> (bool \<times> nat \<times> string) option" where
  "c_number base s =
     (let s1 = dropWhile c_isspace s;
          neg = (take 1 s1 = ''-'');
          s2 = (if neg \<or> take 1 s1 = ''+'' then drop 1 s1 else s1);
          (b, s3) = c_base base s2;
          ds = takeWhile (is_digit_in b) s3
      in if ds = [] then None else Some (neg, digits_in b ds, dropWhile (is_digit_in b) s3))"

text \<open>\<open>strtoull\<close> and \<open>strtol\<close> with their end pointers; out of range the result is clamped.\<close>

definition c_strtoull :: "nat \<Rightarrow> string \<Rightarrow> 64 word \<times> string" where
  "c_strtoull base s = (case c_number base s of
     None \<Rightarrow> (0, s)
   | Some (neg, v, rest) \<Rightarrow> (if 2 ^ 64 \<le> v then - 1 else if neg then - of_nat v else of_nat v, rest))"

definition c_strtol :: "nat \<Rightarrow> string \<Rightarrow> int \<times> string" where
  "c_strtol base s = (case c_number base s of
     None \<Rightarrow> (0, s)
   | Some (neg, v, rest) \<Rightarrow> (max (- (2 ^ 63)) (min (2 ^ 63 - 1) (if neg then - int v else int v)), rest))"

text \<open>The conversion \<open>%d\<close> and its like.\<close>

fun dec :: "nat \<Rightarrow> string" where
  "dec n = (if n < 10 then [char_of (48 + n)] else dec (n div 10) @ [char_of (48 + n mod 10)])"

declare dec.simps [simp del]

definition dec_int :: "int \<Rightarrow> string" where
  "dec_int i = (if i < 0 then CHR ''-'' # dec (nat (- i)) else dec (nat i))"

lemma of_char_dec: "n < 10 \<Longrightarrow> (of_char (char_of (48 + n) :: char) :: nat) = 48 + n"
  by simp

lemma dec_digit:
  assumes "n < 10"
  shows "c_isdigit (char_of (48 + n))" "c_digit (char_of (48 + n)) = n" "c_tolower (char_of (48 + n)) = char_of (48 + n)"
    "\<not> c_isspace (char_of (48 + n))" "char_of (48 + n) \<noteq> CHR ''-''" "char_of (48 + n) \<noteq> CHR ''+''"
proof -
  let ?c = "char_of (48 + n) :: char"
  have c: "(of_char ?c :: nat) = 48 + n" using assms by (rule of_char_dec)
  show "c_isdigit ?c" using c assms by (simp add: c_isdigit_def)
  show l: "c_tolower ?c = ?c" unfolding c_tolower_def c using assms by simp
  show "c_digit ?c = n" unfolding c_digit_def l c using assms by simp
  have "?c \<noteq> CHR '' ''" "?c \<noteq> CHR ''-''" "?c \<noteq> CHR ''+''" using c by (auto dest: arg_cong [of _ _ "of_char :: char \<Rightarrow> nat"])
  then show "\<not> c_isspace ?c" "?c \<noteq> CHR ''-''" "?c \<noteq> CHR ''+''" using c by (simp_all add: c_isspace_def)
qed

lemma dec_nonempty [simp]: "dec n \<noteq> []"
  by (subst dec.simps) simp

lemma dec_digits: "c \<in> set (dec n) \<Longrightarrow> \<exists>d::nat. d < 10 \<and> c = char_of (48 + d)"
proof (induction n rule: dec.induct)
  case (1 n)
  show ?case
  proof (cases "n < 10")
    case True
    then show ?thesis using 1(2) by (subst (asm) dec.simps) auto
  next
    case False
    then have "dec n = dec (n div 10) @ [char_of (48 + n mod 10)]" by (subst dec.simps) simp
    then consider "c \<in> set (dec (n div 10))" | "c = char_of (48 + n mod 10)" using 1(2) by auto
    then show ?thesis
    proof cases
      case 2
      then show ?thesis by (intro exI [of _ "n mod 10"]) simp
    qed (use 1(1) False in blast)
  qed
qed

lemma digits_in_dec: "digits_in 10 (dec n) = n"
proof (induction n rule: dec.induct)
  case (1 n)
  show ?case
  proof (cases "n < 10")
    case True
    then show ?thesis by (subst dec.simps) (simp add: digits_in_def dec_digit)
  next
    case False
    then have "dec n = dec (n div 10) @ [char_of (48 + n mod 10)]" by (subst dec.simps) simp
    then show ?thesis using 1 False dec_digit(2) [of "n mod 10"] by (simp add: digits_in_def)
  qed
qed

lemma hd_dec_zero: "take 1 (dec n) = ''0'' \<Longrightarrow> n = 0"
proof (induction n rule: dec.induct)
  case (1 n)
  show ?case
  proof (cases "n < 10")
    case True
    then have "char_of (48 + n) = CHR ''0''" using 1(2) by (subst (asm) dec.simps) simp
    then have "(of_char (char_of (48 + n) :: char) :: nat) = of_char (CHR ''0'')" by simp
    then show ?thesis using of_char_dec [OF True] by simp
  next
    case False
    then have "dec n = dec (n div 10) @ [char_of (48 + n mod 10)]" by (subst dec.simps) simp
    then have "take 1 (dec (n div 10)) = ''0''" using 1(2) by (cases "dec (n div 10)") auto
    then show ?thesis using 1(1) False by simp
  qed
qed

text \<open>Reading back what was printed, in front of a string that does not continue the number.\<close>

definition ends_number :: "string \<Rightarrow> bool" where
  "ends_number r \<longleftrightarrow> (\<forall>c \<in> set (take 1 r). 10 \<le> c_digit c \<and> c_tolower c \<noteq> CHR ''x'')"

lemma ends_number_Nil [simp]: "ends_number []"
  by (simp add: ends_number_def)

lemma dec_0: "dec 0 = ''0''"
proof -
  have "(of_char (char_of (48::nat) :: char) :: nat) = of_char (CHR ''0'')" by simp
  then have "char_of (48::nat) = CHR ''0''" by (simp only: of_char_eq_iff)
  then show ?thesis by (subst dec.simps) simp
qed

lemma c_base_dec:
  assumes base: "base = 0 \<or> base = 10" and r: "ends_number r"
  shows "\<exists>b. c_base base (dec n @ r) = (b, dec n @ r) \<and> takeWhile (is_digit_in b) (dec n @ r) = dec n \<and>
     dropWhile (is_digit_in b) (dec n @ r) = r \<and> digits_in b (dec n) = n"
proof (cases "base = 0 \<and> n = 0")
  case True
  have "\<not> (\<exists>c \<in> set (take 1 r). is_digit_in 8 c) \<and> map c_tolower (take 1 r) \<noteq> ''x''"
    using r by (cases r) (auto simp: ends_number_def is_digit_in_def)
  moreover have "is_digit_in 8 (CHR ''0'')" "digits_in 8 ''0'' = 0" by (simp_all add: is_digit_in_def c_digit_def c_tolower_def digits_in_def)
  ultimately show ?thesis using True unfolding dec_0 by (cases r) (simp_all add: c_base_def dec_0)
next
  case False
  then have "base = 10 \<or> take 1 (dec n @ r) \<noteq> ''0''" using base hd_dec_zero [of n] by (cases "dec n") auto
  then have b: "c_base base (dec n @ r) = (10, dec n @ r)" using base by (auto simp: c_base_def)
  have "\<forall>c \<in> set (dec n). is_digit_in 10 c" using dec_digits [of _ n] dec_digit(2) by (fastforce simp: is_digit_in_def)
  moreover have "\<forall>c \<in> set (take 1 r). \<not> is_digit_in 10 c" using r by (auto simp: ends_number_def is_digit_in_def)
  ultimately have "takeWhile (is_digit_in 10) (dec n @ r) = dec n" "dropWhile (is_digit_in 10) (dec n @ r) = r"
    by (cases r; simp add: takeWhile_append2 dropWhile_append2)+
  then show ?thesis using b digits_in_dec by auto
qed

lemma c_number_dec:
  assumes "base = 0 \<or> base = 10" and "ends_number r"
  shows "c_number base (dec n @ r) = Some (False, n, r)" and "c_number base (CHR ''-'' # dec n @ r) = Some (True, n, r)"
proof -
  obtain b where b: "c_base base (dec n @ r) = (b, dec n @ r)" "takeWhile (is_digit_in b) (dec n @ r) = dec n"
    "dropWhile (is_digit_in b) (dec n @ r) = r" "digits_in b (dec n) = n" using c_base_dec [OF assms] by blast
  obtain c cs where d: "dec n = c # cs" by (cases "dec n") auto
  then have c: "\<not> c_isspace c" "c \<noteq> CHR ''-''" "c \<noteq> CHR ''+''" using dec_digits [of c n] dec_digit(4-6) by auto
  have s: "dropWhile c_isspace (dec n @ r) = dec n @ r" "take 1 (dec n @ r) \<noteq> ''-''" "take 1 (dec n @ r) \<noteq> ''+''" using c d by simp_all
  show "c_number base (dec n @ r) = Some (False, n, r)" using s(2,3) by (simp add: c_number_def Let_def s(1) b)
  have m: "\<not> c_isspace (CHR ''-'')" by (simp add: c_isspace_def)
  show "c_number base (CHR ''-'' # dec n @ r) = Some (True, n, r)" by (simp add: c_number_def Let_def m b)
qed

lemma c_strtoull_dec: "base = 0 \<or> base = 10 \<Longrightarrow> n < 2 ^ 64 \<Longrightarrow> ends_number r \<Longrightarrow> c_strtoull base (dec n @ r) = (of_nat n, r)"
  by (simp add: c_strtoull_def c_number_dec)

lemma c_strtoull_neg:
  "base = 0 \<or> base = 10 \<Longrightarrow> n < 2 ^ 64 \<Longrightarrow> ends_number r \<Longrightarrow> c_strtoull base (CHR ''-'' # dec n @ r) = (- of_nat n, r)"
  by (simp add: c_strtoull_def c_number_dec)

lemma c_strtol_dec_int: "base = 0 \<or> base = 10 \<Longrightarrow> \<bar>i\<bar> < 2 ^ 63 \<Longrightarrow> c_strtol base (dec_int i) = (i, [])"
  using c_number_dec [of base "[]" "nat (- i)"] c_number_dec [of base "[]" "nat i"] by (auto simp: c_strtol_def dec_int_def)

end
