(* ===== verification/Mca_Var_Values.thy ===== *)
theory Mca_Var_Values
  imports Argv C_Strings
begin

text \<open>
  The values of MCA variables: the enumerators of \<open>ocoms/mca/base/mca_base_var_enum.c\<close> and the
  conversions between strings and stored values of \<open>mca_base_var.c\<close>.  \<open>asprintf\<close> is \<open>strdup\<close> of the
  formatted string; \<open>strtod\<close> and the formatting of doubles, whose bits are a 64-bit word, are
  parameters.  Messages on \<open>stderr\<close> are left out.
\<close>

unbundle bit_operations_syntax

definition OCOMS_ERR_PERM :: int where "OCOMS_ERR_PERM = - 17"
definition OCOMS_ERR_VALUE_OUT_OF_BOUNDS :: int where "OCOMS_ERR_VALUE_OUT_OF_BOUNDS = - 18"

text \<open>The environment variable of an MCA variable.\<close>

definition mca_prefix :: string where "mca_prefix = ''OMPI_MCA_''"

text \<open>\<open>asprintf\<close> allocates its result; without memory the pointer stays null here.\<close>

definition ocoms_mca_base_var_env_name :: "argv_mem \<Rightarrow> string \<Rightarrow> string option" where
  "ocoms_mca_base_var_env_name m param_name = strdup m (mca_prefix @ param_name)"

section \<open>Enumerators\<close>

text \<open>The static boolean enumerator, and the ones made from a table of values.\<close>

record ocoms_mca_base_var_enum_value_t =
  ev_value :: int
  ev_string :: "string option"

datatype ocoms_mca_base_var_enum_t = Enum_bool | Enum_table (enum_name: string) (enum_values: "ocoms_mca_base_var_enum_value_t list")

definition ocoms_mca_base_var_enum_create ::
  "argv_mem \<Rightarrow> bool \<Rightarrow> bool \<Rightarrow> string \<Rightarrow> (int \<times> string) list \<Rightarrow> int \<times> ocoms_mca_base_var_enum_t option" where
  "ocoms_mca_base_var_enum_create m obj_new calloc name vs =
     (if \<not> obj_new then (OCOMS_ERR_OUT_OF_RESOURCE, None)
      else case strdup m name of
        None \<Rightarrow> (OCOMS_ERR_OUT_OF_RESOURCE, None)
      | Some nm \<Rightarrow>
          if \<not> calloc then (OCOMS_ERR_OUT_OF_RESOURCE, None)
          else (OCOMS_SUCCESS, Some (Enum_table nm (map (\<lambda>(v, s). \<lparr>ev_value = v, ev_string = strdup m s\<rparr>) vs))))"

fun enum_get_count :: "ocoms_mca_base_var_enum_t \<Rightarrow> int" where
  "enum_get_count Enum_bool = 2"
| "enum_get_count (Enum_table nm vs) = int (length vs)"

text \<open>The value and the string at an index; a negative index is outside the table.\<close>

fun enum_get_value :: "ocoms_mca_base_var_enum_t \<Rightarrow> int \<Rightarrow> (int \<times> (int \<times> string option) option) option" where
  "enum_get_value Enum_bool index =
     (if 1 < index then Some (OCOMS_ERR_VALUE_OUT_OF_BOUNDS, None)
      else Some (OCOMS_SUCCESS, Some (if index \<noteq> 0 then 1 else 0, Some (if index \<noteq> 0 then ''true'' else ''false''))))"
| "enum_get_value (Enum_table nm vs) index =
     (if int (length vs) \<le> index then Some (OCOMS_ERR_VALUE_OUT_OF_BOUNDS, None)
      else do { e \<leftarrow> rd vs index; Some (OCOMS_SUCCESS, Some (ev_value e, ev_string e)) })"

text \<open>The conversion of a \<open>long\<close> to \<open>int\<close>.\<close>

definition to_int :: "int \<Rightarrow> int" where
  "to_int v = sint (word_of_int v :: 32 word)"

text \<open>The first entry that has the value, if the string is a number, or the name, whatever its case.\<close>

fun enum_search :: "(int \<times> bool) \<Rightarrow> string \<Rightarrow> ocoms_mca_base_var_enum_value_t list \<Rightarrow> ocoms_mca_base_var_enum_value_t option option" where
  "enum_search (v, is_int) s [] = Some None"
| "enum_search (v, is_int) s (e # es) =
     (if is_int \<and> v = ev_value e then Some (Some e)
      else do { name \<leftarrow> ev_string e;
                if strcaseeq s name then Some (Some e) else enum_search (v, is_int) s es })"

fun enum_value_from_string :: "ocoms_mca_base_var_enum_t \<Rightarrow> string \<Rightarrow> (int \<times> int option) option" where
  "enum_value_from_string Enum_bool s =
     (let (l, rest) = c_strtol 10 s; v = to_int l in
      if rest = [] then Some (OCOMS_SUCCESS, Some (if v \<noteq> 0 then 1 else 0))
      else if s = ''true'' \<or> s = ''t'' \<or> s = ''enabled'' then Some (OCOMS_SUCCESS, Some 1)
      else if s = ''false'' \<or> s = ''f'' \<or> s = ''disabled'' then Some (OCOMS_SUCCESS, Some 0)
      else Some (OCOMS_ERR_VALUE_OUT_OF_BOUNDS, None))"
| "enum_value_from_string (Enum_table nm vs) s = do {
     let (l, rest) = c_strtol 0 s;
     r \<leftarrow> enum_search (to_int l, rest = []) s vs;
     Some (case r of None \<Rightarrow> (OCOMS_ERR_VALUE_OUT_OF_BOUNDS, None) | Some e \<Rightarrow> (OCOMS_SUCCESS, Some (ev_value e))) }"

fun enum_string_from_value :: "ocoms_mca_base_var_enum_t \<Rightarrow> int \<Rightarrow> int \<times> string option" where
  "enum_string_from_value Enum_bool v = (OCOMS_SUCCESS, Some (if v \<noteq> 0 then ''true'' else ''false''))"
| "enum_string_from_value (Enum_table nm vs) v =
     (case find (\<lambda>e. v = ev_value e) vs of
        None \<Rightarrow> (OCOMS_ERR_VALUE_OUT_OF_BOUNDS, None)
      | Some e \<Rightarrow> (OCOMS_SUCCESS, ev_string e))"

text \<open>The list of the values; the loop stops at an entry without a string.\<close>

fun enum_dump_loop :: "argv_mem \<Rightarrow> string option \<Rightarrow> ocoms_mca_base_var_enum_value_t list \<Rightarrow> int \<times> string option" where
  "enum_dump_loop m tmp [] = (OCOMS_SUCCESS, tmp)"
| "enum_dump_loop m tmp (e # es) = (case ev_string e of
     None \<Rightarrow> (OCOMS_SUCCESS, tmp)
   | Some s \<Rightarrow>
       (case strdup m ((case tmp of None \<Rightarrow> '''' | Some t \<Rightarrow> t @ '', '') @ dec_int (ev_value e) @ '':'' @ [CHR 0x22] @ s @ [CHR 0x22]) of
          None \<Rightarrow> (OCOMS_ERR_OUT_OF_RESOURCE, None)
        | Some out \<Rightarrow> enum_dump_loop m (Some out) es))"

fun enum_dump :: "argv_mem \<Rightarrow> ocoms_mca_base_var_enum_t \<Rightarrow> int \<times> string option" where
  "enum_dump m Enum_bool =
     (case strdup m ''0: f|false|disabled, 1: t|true|enabled'' of
        None \<Rightarrow> (OCOMS_ERR_OUT_OF_RESOURCE, None) | Some s \<Rightarrow> (OCOMS_SUCCESS, Some s))"
| "enum_dump m (Enum_table nm vs) = enum_dump_loop m None vs"

section \<open>Stored values\<close>

datatype ocoms_mca_base_var_type_t = MCA_BASE_VAR_TYPE_INT | MCA_BASE_VAR_TYPE_UNSIGNED_INT
  | MCA_BASE_VAR_TYPE_UNSIGNED_LONG | MCA_BASE_VAR_TYPE_UNSIGNED_LONG_LONG | MCA_BASE_VAR_TYPE_SIZE_T
  | MCA_BASE_VAR_TYPE_STRING | MCA_BASE_VAR_TYPE_BOOL | MCA_BASE_VAR_TYPE_DOUBLE | MCA_BASE_VAR_TYPE_MAX

text \<open>What the storage of a variable holds, by the member of the union that was written last.\<close>

datatype ocoms_mca_base_var_storage_t = Int_store "32 word" | Long_store "64 word" | Bool_store bool
  | Double_store "64 word" | String_store "string option"

text \<open>The C library and the home directory, as the conversions use them.\<close>

record var_ctx =
  vc_mem :: argv_mem
  vc_home :: "string option"
  vc_strtod :: "string \<Rightarrow> 64 word"
  vc_show_double :: "64 word \<Rightarrow> string"

section \<open>Strings\<close>

text \<open>
  The loop that is meant to expand \<open>~/\<close> behind a colon: everything before the colon is
  overwritten by the empty string, since the pointer \<open>p\<close> to it is never set.
\<close>

partial_function (option) expand_loop :: "argv_mem \<Rightarrow> string option \<Rightarrow> string \<Rightarrow> (int \<times> string option) option" where
  "expand_loop m home value = (case strstr '':~/'' value of
     None \<Rightarrow> Some (OCOMS_SUCCESS, Some value)
   | Some (before, tmp) \<Rightarrow>
       (case strdup m ('''' @ '':'' @ (case home of None \<Rightarrow> '''' | Some h \<Rightarrow> h @ ''/'') @ tmp) of
          None \<Rightarrow> Some (OCOMS_ERR_OUT_OF_RESOURCE, None)
        | Some value' \<Rightarrow> expand_loop m home value'))"

definition var_set_string :: "var_ctx \<Rightarrow> string option \<Rightarrow> (int \<times> string option) option" where
  "var_set_string c value = (case value of
     None \<Rightarrow> Some (OCOMS_SUCCESS, None)
   | Some v \<Rightarrow>
       if v = [] then Some (OCOMS_SUCCESS, None)
       else if take 2 v = ''~/'' then
         (case vc_home c of
            Some home \<Rightarrow> (case strdup (vc_mem c) (home @ ''/'' @ drop 2 v) of
                None \<Rightarrow> Some (OCOMS_ERROR, None)
              | Some w \<Rightarrow> expand_loop (vc_mem c) (vc_home c) w)
          | None \<Rightarrow> (case strdup (vc_mem c) (drop 2 v) of
                None \<Rightarrow> Some (OCOMS_ERR_OUT_OF_RESOURCE, None)
              | Some w \<Rightarrow> expand_loop (vc_mem c) (vc_home c) w))
       else (case strdup (vc_mem c) v of
           None \<Rightarrow> Some (OCOMS_ERR_OUT_OF_RESOURCE, None)
         | Some w \<Rightarrow> expand_loop (vc_mem c) (vc_home c) w))"

section \<open>Numbers\<close>

text \<open>The binary multiplier a unit stands for; the cases of the switch fall through.\<close>

definition unit_shift :: "string \<Rightarrow> nat" where
  "unit_shift tmp = (if take 1 tmp \<in> {''G'', ''g''} then 30
     else if take 1 tmp \<in> {''M'', ''m''} then 20 else if take 1 tmp \<in> {''K'', ''k''} then 10 else 0)"

definition int_from_string :: "string option \<Rightarrow> ocoms_mca_base_var_enum_t option \<Rightarrow> (int \<times> 64 word option) option" where
  "int_from_string src enumerator = (case src of
     None \<Rightarrow> Some (OCOMS_SUCCESS, if enumerator = None then Some 0 else None)
   | Some s \<Rightarrow>
       if s = [] then Some (OCOMS_SUCCESS, if enumerator = None then Some 0 else None)
       else (case enumerator of
         Some e \<Rightarrow> do {
           (ret, v) \<leftarrow> enum_value_from_string e s;
           if ret \<noteq> OCOMS_SUCCESS then Some (ret, None)
           else do { i \<leftarrow> v; Some (OCOMS_SUCCESS, Some (word_of_int i)) } }
       | None \<Rightarrow>
           let (value, tmp) = c_strtoull 0 s;
               is_int = (tmp = []);
               value' = (if \<not> is_int \<and> tmp \<noteq> s then push_bit (unit_shift tmp) value else value)
           in Some (OCOMS_SUCCESS, Some value')))"

text \<open>
  Storing a converted string: the return code and the new contents of the storage.  A double is
  converted from a string that must exist.
\<close>

definition high_bits :: "64 word" where "high_bits = 0xffffffff00000000"

definition store_int :: "ocoms_mca_base_var_type_t \<Rightarrow> 64 word \<Rightarrow> ocoms_mca_base_var_storage_t" where
  "store_int t v = (case t of
     MCA_BASE_VAR_TYPE_INT \<Rightarrow> Int_store (ucast v)
   | MCA_BASE_VAR_TYPE_UNSIGNED_INT \<Rightarrow> Int_store (ucast v)
   | MCA_BASE_VAR_TYPE_BOOL \<Rightarrow> Bool_store (v \<noteq> 0)
   | _ \<Rightarrow> Long_store v)"

definition var_set_from_string ::
  "var_ctx \<Rightarrow> ocoms_mca_base_var_type_t \<Rightarrow> ocoms_mca_base_var_enum_t option \<Rightarrow> ocoms_mca_base_var_storage_t \<Rightarrow>
   string option \<Rightarrow> (int \<times> ocoms_mca_base_var_storage_t) option" where
  "var_set_from_string c t enumerator dst src =
     (if t \<in> {MCA_BASE_VAR_TYPE_INT, MCA_BASE_VAR_TYPE_UNSIGNED_INT, MCA_BASE_VAR_TYPE_UNSIGNED_LONG,
              MCA_BASE_VAR_TYPE_UNSIGNED_LONG_LONG, MCA_BASE_VAR_TYPE_BOOL, MCA_BASE_VAR_TYPE_SIZE_T} then do {
        (ret, v) \<leftarrow> int_from_string src enumerator;
        let int_value = (case v of None \<Rightarrow> 0 | Some w \<Rightarrow> w);
        if ret = OCOMS_ERR_VALUE_OUT_OF_BOUNDS \<or> (t = MCA_BASE_VAR_TYPE_INT \<and> int_value AND high_bits \<noteq> 0)
        then Some (OCOMS_ERR_VALUE_OUT_OF_BOUNDS, dst)
        else Some (ret, store_int t int_value) }
      else if t = MCA_BASE_VAR_TYPE_DOUBLE then do { s \<leftarrow> src; Some (OCOMS_SUCCESS, Double_store (vc_strtod c s)) }
      else if t = MCA_BASE_VAR_TYPE_STRING then do {
        (rc, s) \<leftarrow> var_set_string c src;
        Some (OCOMS_SUCCESS, String_store s) }
      else Some (OCOMS_ERROR, dst))"

text \<open>The string of a value, as it is shown and exported; the member read must be the one written.\<close>

definition show_value :: "var_ctx \<Rightarrow> ocoms_mca_base_var_type_t \<Rightarrow> ocoms_mca_base_var_storage_t \<Rightarrow> string option" where
  "show_value c t v = (case (t, v) of
     (MCA_BASE_VAR_TYPE_INT, Int_store w) \<Rightarrow> Some (dec_int (sint w))
   | (MCA_BASE_VAR_TYPE_UNSIGNED_INT, Int_store w) \<Rightarrow> Some (dec (unat w))
   | (MCA_BASE_VAR_TYPE_UNSIGNED_LONG, Long_store w) \<Rightarrow> Some (dec (unat w))
   | (MCA_BASE_VAR_TYPE_UNSIGNED_LONG_LONG, Long_store w) \<Rightarrow> Some (dec (unat w))
   | (MCA_BASE_VAR_TYPE_SIZE_T, Long_store w) \<Rightarrow> Some (dec (unat w))
   | (MCA_BASE_VAR_TYPE_BOOL, Bool_store b) \<Rightarrow> Some (dec (of_bool b))
   | (MCA_BASE_VAR_TYPE_DOUBLE, Double_store d) \<Rightarrow> Some (vc_show_double c d)
   | (MCA_BASE_VAR_TYPE_STRING, String_store s) \<Rightarrow> Some (case s of None \<Rightarrow> '''' | Some x \<Rightarrow> x)
   | _ \<Rightarrow> None)"

definition sample_ctx :: var_ctx where
  "sample_ctx = \<lparr>vc_mem = mem_always, vc_home = Some ''/home/u'', vc_strtod = \<lambda>s. 0, vc_show_double = \<lambda>d. ''0''\<rparr>"

section \<open>Numbers: what is stored\<close>

lemma int_from_string_number:
  "c_strtoull 0 s = (v, tmp) \<Longrightarrow> s \<noteq> [] \<Longrightarrow> tmp \<noteq> s \<Longrightarrow> int_from_string (Some s) None =
   Some (OCOMS_SUCCESS, Some (if tmp = [] then v else push_bit (unit_shift tmp) v))"
  by (simp add: int_from_string_def)

lemma dec_int_nonempty [simp]: "dec_int i \<noteq> []" "[] \<noteq> dec_int i"
  by (simp_all add: dec_int_def) (metis dec_nonempty)

lemma of_char_tolower:
  "(of_char (c_tolower c) :: nat) = (if 65 \<le> (of_char c :: nat) \<and> (of_char c :: nat) \<le> 90 then of_char c + 32 else of_char c)"
  by (simp add: c_tolower_def)

lemma of_char_x: "(of_char (CHR ''x'') :: nat) = 120"
  by simp

lemma unit_shift_ends: "unit_shift u \<noteq> 0 \<Longrightarrow> ends_number u"
proof -
  assume u: "unit_shift u \<noteq> 0"
  obtain c r where u': "u = c # r" using u by (cases u) (simp_all add: unit_shift_def)
  have "c \<in> set ''GgMmKk''" using u unfolding u' unit_shift_def by (auto split: if_splits)
  note c = u' this
  have "10 \<le> c_digit c \<and> (of_char (c_tolower c) :: nat) \<noteq> 120" if "c \<in> set ''GgMmKk''" for c
    using that by (auto simp: c_digit_def of_char_tolower)
  then have "\<forall>c \<in> set ''GgMmKk''. 10 \<le> c_digit c \<and> c_tolower c \<noteq> CHR ''x''" by (metis of_char_x)
  moreover have "set (take 1 u) = {c}" using c(1) by simp
  ultimately show "ends_number u" using c(2) unfolding ends_number_def by (metis empty_iff insert_iff)
qed

lemma push_bit_of_nat: "push_bit k (of_nat n :: 64 word) = of_nat (n * 2 ^ k)"
  by (simp add: push_bit_eq_mult mult.commute)

text \<open>
  A decimal number with one of the units K, M or G, in either case, sets a variable of a 64-bit
  type to the number times 1024, 1048576 or 1073741824, reduced modulo the 64-bit range without an
  error; whatever follows the unit is ignored.
\<close>

theorem units_scale:
  assumes "t \<in> {MCA_BASE_VAR_TYPE_UNSIGNED_LONG, MCA_BASE_VAR_TYPE_UNSIGNED_LONG_LONG, MCA_BASE_VAR_TYPE_SIZE_T}"
    and "n < 2 ^ 64" and "unit_shift u \<noteq> 0"
  shows "var_set_from_string c t None dst (Some (dec n @ u)) = Some (OCOMS_SUCCESS, Long_store (of_nat (n * 2 ^ unit_shift u)))"
proof -
  have "int_from_string (Some (dec n @ u)) None = Some (OCOMS_SUCCESS, Some (of_nat (n * 2 ^ unit_shift u)))"
  proof -
    have "c_strtoull 0 (dec n @ u) = (of_nat n, u)" using assms(2) unit_shift_ends [OF assms(3)] by (intro c_strtoull_dec) simp_all
    moreover have "u \<noteq> []" using assms(3) by (auto simp: unit_shift_def)
    ultimately show ?thesis by (subst int_from_string_number) (auto simp: push_bit_of_nat simp del: of_nat_mult)
  qed
  then show ?thesis using assms(1) by (auto simp: var_set_from_string_def store_int_def OCOMS_ERR_VALUE_OUT_OF_BOUNDS_def OCOMS_SUCCESS_def)
qed

theorem units_scale_witness:
  "var_set_from_string sample_ctx MCA_BASE_VAR_TYPE_SIZE_T None (Long_store 0) (Some (dec 64 @ ''Kb'')) =
     Some (OCOMS_SUCCESS, Long_store (of_nat (64 * 2 ^ unit_shift ''Kb''))) \<and> unit_shift ''Kb'' = 10"
  using units_scale [of MCA_BASE_VAR_TYPE_SIZE_T 64 "''Kb''"] by (simp add: unit_shift_def)

lemma high_bits_zero: "v AND high_bits = 0 \<longleftrightarrow> unat v < 2 ^ 32"
proof -
  have "high_bits = NOT (mask 32)" by (simp add: high_bits_def mask_eq_exp_minus_1)
  then have "v AND high_bits = 0 \<longleftrightarrow> take_bit 32 v = v"
    by (auto simp: bit_eq_iff bit_and_iff bit_not_iff bit_mask_iff bit_take_bit_iff dest: bit_imp_le_length)
  also have "\<dots> \<longleftrightarrow> unat (take_bit 32 v) = unat v" by (rule word_unat_eq_iff)
  also have "\<dots> \<longleftrightarrow> unat v < 2 ^ 32" by (simp add: unsigned_take_bit_eq take_bit_nat_eq_self_iff)
  finally show ?thesis .
qed

lemma unat_small: "m < 2 ^ 64 \<Longrightarrow> unat (of_nat m :: 64 word) = m"
  by (simp add: unsigned_of_nat take_bit_nat_eq_self)

lemma unat_neg_of_nat: "0 < n \<Longrightarrow> n < 2 ^ 64 \<Longrightarrow> unat (- of_nat n :: 64 word) = 2 ^ 64 - n"
proof -
  assume n: "0 < n" "n < 2 ^ 64"
  then have "(of_nat (2 ^ 64 - n) :: 64 word) = of_nat (2 ^ 64) - of_nat n" by (intro of_nat_diff) simp
  moreover have "(of_nat (2 ^ 64) :: 64 word) = 0" by simp
  ultimately have "(- of_nat n :: 64 word) = of_nat (2 ^ 64 - n)" by (simp only: diff_0)
  then show ?thesis unfolding \<open>- of_nat n = of_nat (2 ^ 64 - n)\<close> using n by (intro unat_small) simp
qed

text \<open>
  C23: An integer variable of type \<open>int\<close> takes no negative value from a string: every decimal number
  with a minus sign, down to -2^63, is refused as out of bounds and the stored value stays; a
  number from 2^31 up to 2^32 - 1, which does not fit the type, is taken and stored as a
  negative value.
\<close>

theorem negative_int_rejected:
  assumes "0 < n" and "n \<le> 2 ^ 63" and "2 ^ 31 \<le> k" and "k < 2 ^ 32"
  shows "var_set_from_string c MCA_BASE_VAR_TYPE_INT None dst (Some (dec_int (- int n))) = Some (OCOMS_ERR_VALUE_OUT_OF_BOUNDS, dst) \<and>
    var_set_from_string c MCA_BASE_VAR_TYPE_INT None dst (Some (dec_int (int k))) = Some (OCOMS_SUCCESS, Int_store (word_of_int (int k - 2 ^ 32)))"
proof -
  have d: "dec_int (- int n) = CHR ''-'' # dec n @ []" "dec_int (int k) = dec k @ []" using assms(1) by (simp_all add: dec_int_def)
  have "c_strtoull 0 (dec_int (- int n)) = (- of_nat n, [])" unfolding d(1) using assms(1,2) by (intro c_strtoull_neg) simp_all
  then have i1: "int_from_string (Some (dec_int (- int n))) None = Some (OCOMS_SUCCESS, Some (- of_nat n))"
    by (subst int_from_string_number) auto
  have "c_strtoull 0 (dec_int (int k)) = (of_nat k, [])" unfolding d(2) using assms(4) by (intro c_strtoull_dec) simp_all
  then have i2: "int_from_string (Some (dec_int (int k))) None = Some (OCOMS_SUCCESS, Some (of_nat k))"
    by (subst int_from_string_number) auto
  have "(- of_nat n :: 64 word) AND high_bits \<noteq> 0" using unat_neg_of_nat [of n] assms(1,2) unfolding high_bits_zero by simp
  moreover have "(of_nat k :: 64 word) AND high_bits = 0" unfolding high_bits_zero using assms(4) by (simp add: unsigned_of_nat take_bit_nat_eq_self)
  moreover have "(ucast (of_nat k :: 64 word) :: 32 word) = word_of_int (int k - 2 ^ 32)"
  proof -
    have "(4294967296 :: 32 word) = 0" by transfer (simp add: take_bit_eq_mod)
    then have "(word_of_int (int k - 2 ^ 32) :: 32 word) = of_nat k" by simp
    moreover have "(ucast (of_nat k :: 64 word) :: 32 word) = of_nat k" by (intro word_uint_eq_iff [THEN iffD2]) (simp add: unsigned_ucast_eq unsigned_of_nat)
    ultimately show ?thesis by simp
  qed
  ultimately show ?thesis
    by (simp add: var_set_from_string_def i1 i2 store_int_def OCOMS_ERR_VALUE_OUT_OF_BOUNDS_def OCOMS_SUCCESS_def)
qed

theorem negative_int_rejected_witness:
  "var_set_from_string sample_ctx MCA_BASE_VAR_TYPE_INT None (Int_store 7) (Some (dec_int (- int 1))) = Some (OCOMS_ERR_VALUE_OUT_OF_BOUNDS, Int_store 7) \<and>
    var_set_from_string sample_ctx MCA_BASE_VAR_TYPE_INT None (Int_store 7) (Some (dec_int (int 4294967295))) = Some (OCOMS_SUCCESS, Int_store (word_of_int (int 4294967295 - 2 ^ 32)))"
  by (rule negative_int_rejected) simp_all

section \<open>Strings: the home directory\<close>

text \<open>
  When a string value contains \<open>:~/\<close>, all that precedes it is lost: whatever the prefix, the value
  that is stored starts with a colon, followed by the home directory and the rest.
\<close>

theorem home_expansion_drops_prefix:
  assumes "argv_mem_total (vc_mem c)" and "vc_home c = Some home" and "take 2 v \<noteq> ''~/''"
    and "strstr '':~/'' v = Some (before, rest)" and "strstr '':~/'' ('':'' @ home @ ''/'' @ rest) = None"
  shows "var_set_string c (Some v) = Some (OCOMS_SUCCESS, Some ('':'' @ home @ ''/'' @ rest)) \<and> v = before @ '':~/'' @ rest"
proof -
  have ne: "v \<noteq> []" using assms(4) by auto
  have e1: "expand_loop (vc_mem c) (Some home) v = expand_loop (vc_mem c) (Some home) ('':'' @ home @ ''/'' @ rest)"
    using assms(1,4) by (subst expand_loop.simps) simp
  have e2: "expand_loop (vc_mem c) (Some home) ('':'' @ home @ ''/'' @ rest) = Some (OCOMS_SUCCESS, Some ('':'' @ home @ ''/'' @ rest))"
    using assms(5) by (subst expand_loop.simps) simp
  have "var_set_string c (Some v) = expand_loop (vc_mem c) (Some home) v"
    using ne assms(1-3) by (simp add: var_set_string_def)
  then show ?thesis using e1 e2 strstr_Some [OF assms(4)] by simp
qed

theorem home_expansion_drops_prefix_witness:
  "var_set_string sample_ctx (Some ''/opt/lib:~/lib'') = Some (OCOMS_SUCCESS, Some ('':'' @ ''/home/u'' @ ''/'' @ ''lib'')) \<and>
   ''/opt/lib:~/lib'' = ''/opt/lib'' @ '':~/'' @ ''lib''"
  by (rule home_expansion_drops_prefix) (simp_all add: sample_ctx_def)

text \<open>A string without the pattern is copied.\<close>

lemma var_set_string_plain:
  "argv_mem_total (vc_mem c) \<Longrightarrow> v \<noteq> [] \<Longrightarrow> take 2 v \<noteq> ''~/'' \<Longrightarrow> strstr '':~/'' v = None \<Longrightarrow>
   var_set_string c (Some v) = Some (OCOMS_SUCCESS, Some v)"
  by (simp add: var_set_string_def expand_loop.simps [of _ _ v])

section \<open>Enumerators: names and values\<close>

lemma enum_search_find:
  "\<forall>e \<in> set es. ev_string e \<noteq> None \<Longrightarrow>
   enum_search (v, i) s es = Some (find (\<lambda>e. i \<and> v = ev_value e \<or> strcaseeq s (the (ev_string e))) es)"
  by (induction es) auto

lemma find_unique: "x \<in> set xs \<Longrightarrow> P x \<Longrightarrow> \<forall>y \<in> set xs. P y \<longrightarrow> y = x \<Longrightarrow> find P xs = Some x"
proof (induction xs)
  case (Cons z xs)
  show ?case
  proof (cases "P z")
    case True
    then have "z = x" by (intro Cons.prems(3) [rule_format]) (rule list.set_intros(1))
    then show ?thesis using True by simp
  next
    case False
    have "x \<in> set xs" using False Cons.prems(1,2) by (metis set_ConsD)
    moreover have "\<forall>y \<in> set xs. P y \<longrightarrow> y = x" by (metis Cons.prems(3) list.set_intros(2))
    ultimately have "find P xs = Some x" by (intro Cons.IH Cons.prems(2))
    then show ?thesis using False by simp
  qed
qed simp

lemma to_int_id: "INT_MIN \<le> v \<Longrightarrow> v \<le> INT_MAX \<Longrightarrow> to_int v = v"
  by (simp add: to_int_def INT_MIN_def INT_MAX_def signed_of_int signed_take_bit_int_eq_self)

lemma tolower_low: "(of_char (c_tolower c) :: nat) < 65 \<Longrightarrow> c_tolower c = c"
  using of_char_tolower [of c] by (simp add: c_tolower_def split: if_splits)

lemma lower_unique: "map c_tolower s = map c_tolower t \<Longrightarrow> \<forall>c \<in> set t. (of_char c :: nat) < 65 \<Longrightarrow> s = t"
proof (induction t arbitrary: s)
  case (Cons c t)
  then obtain d s' where s: "s = d # s'" "c_tolower d = c_tolower c" "map c_tolower s' = map c_tolower t" by (cases s) auto
  have "(of_char (c_tolower c) :: nat) < 65" using Cons.prems(2) of_char_tolower [of c] by simp
  then have "c_tolower c = c" "c_tolower d = d" using tolower_low [of c] tolower_low [of d] s(2) by simp_all
  then show ?case using s Cons.IH [of s'] Cons.prems(2) by simp
qed simp

lemma dec_int_low: "c \<in> set (dec_int i) \<Longrightarrow> (of_char c :: nat) < 65"
  using dec_digits [of c "nat i"] dec_digits [of c "nat (- i)"] by (auto simp: dec_int_def split: if_splits)

lemma enum_create_total:
  "argv_mem_total m \<Longrightarrow> ocoms_mca_base_var_enum_create m True True name vs =
   (OCOMS_SUCCESS, Some (Enum_table name (map (\<lambda>(v, s). \<lparr>ev_value = v, ev_string = Some s\<rparr>) vs)))"
  by (simp add: ocoms_mca_base_var_enum_create_def)

text \<open>
  C22: An enumerator made from a table with distinct values of type \<open>int\<close> and names that are
  distinct whatever their case and are no numbers translates back and forth: the string of a value
  is its name, and both the name, in any case, and the decimal number are translated to the value;
  a string that is neither is out of bounds.
\<close>

theorem enum_round_trip:
  assumes "argv_mem_total m" and "distinct (map fst vs)" and "distinct (map (map c_tolower \<circ> snd) vs)"
    and "\<forall>(v, s) \<in> set vs. INT_MIN \<le> v \<and> v \<le> INT_MAX \<and> snd (c_strtol 0 s) \<noteq> []"
  shows "\<exists>e. ocoms_mca_base_var_enum_create m True True name vs = (OCOMS_SUCCESS, Some e) \<and>
    (\<forall>(v, s) \<in> set vs. enum_string_from_value e v = (OCOMS_SUCCESS, Some s) \<and>
      (\<forall>s'. strcaseeq s' s \<and> snd (c_strtol 0 s') \<noteq> [] \<longrightarrow> enum_value_from_string e s' = Some (OCOMS_SUCCESS, Some v)) \<and>
      enum_value_from_string e (dec_int v) = Some (OCOMS_SUCCESS, Some v)) \<and>
    (\<forall>s'. snd (c_strtol 0 s') \<noteq> [] \<and> (\<forall>(v, s) \<in> set vs. \<not> strcaseeq s' s) \<longrightarrow>
      enum_value_from_string e s' = Some (OCOMS_ERR_VALUE_OUT_OF_BOUNDS, None))"
proof -
  define es where "es = map (\<lambda>(v, s). \<lparr>ev_value = v, ev_string = Some s\<rparr>) vs"
  have some: "\<forall>e \<in> set es. ev_string e \<noteq> None" by (auto simp: es_def)
  have inj1: "s = s'" if "(v, s) \<in> set vs" "(v, s') \<in> set vs" for v s s' using that assms(2) by (meson eq_key_imp_eq_value)
  have inj2: "p = q" if "p \<in> set vs" "q \<in> set vs" "map c_tolower (snd p) = map c_tolower (snd q)" for p q
    using that assms(3) by (auto simp: distinct_map inj_on_def)
  have search: "enum_value_from_string (Enum_table name es) s' =
      Some (case find (\<lambda>e. snd (c_strtol 0 s') = [] \<and> to_int (fst (c_strtol 0 s')) = ev_value e \<or> strcaseeq s' (the (ev_string e))) es of
        None \<Rightarrow> (OCOMS_ERR_VALUE_OUT_OF_BOUNDS, None) | Some e \<Rightarrow> (OCOMS_SUCCESS, Some (ev_value e)))" for s'
    by (simp add: enum_search_find [OF some] split: prod.splits)
  have val: "enum_string_from_value (Enum_table name es) v = (OCOMS_SUCCESS, Some s)" if vs: "(v, s) \<in> set vs" for v s
  proof -
    have "find (\<lambda>e. v = ev_value e) es = Some \<lparr>ev_value = v, ev_string = Some s\<rparr>"
      using vs inj1 by (intro find_unique) (auto simp: es_def)
    then show ?thesis by simp
  qed
  have str: "enum_value_from_string (Enum_table name es) s' = Some (OCOMS_SUCCESS, Some v)"
    if vs: "(v, s) \<in> set vs" and s': "strcaseeq s' s" "snd (c_strtol 0 s') \<noteq> []" for v s s'
  proof -
    have "find (\<lambda>e. snd (c_strtol 0 s') = [] \<and> to_int (fst (c_strtol 0 s')) = ev_value e \<or> strcaseeq s' (the (ev_string e))) es =
        Some \<lparr>ev_value = v, ev_string = Some s\<rparr>"
    proof (rule find_unique)
      show "\<lparr>ev_value = v, ev_string = Some s\<rparr> \<in> set es" using vs by (force simp: es_def)
      show "\<forall>y \<in> set es. snd (c_strtol 0 s') = [] \<and> to_int (fst (c_strtol 0 s')) = ev_value y \<or> strcaseeq s' (the (ev_string y)) \<longrightarrow>
          y = \<lparr>ev_value = v, ev_string = Some s\<rparr>"
      proof (intro ballI impI)
        fix y assume "y \<in> set es" "snd (c_strtol 0 s') = [] \<and> to_int (fst (c_strtol 0 s')) = ev_value y \<or> strcaseeq s' (the (ev_string y))"
        then obtain w t where y: "(w, t) \<in> set vs" "y = \<lparr>ev_value = w, ev_string = Some t\<rparr>" "strcaseeq s' t"
          using s'(2) by (auto simp: es_def)
        then have "(v, s) = (w, t)" using inj2 [OF vs y(1)] s'(1) by (simp add: strcaseeq_def)
        then show "y = \<lparr>ev_value = v, ev_string = Some s\<rparr>" using y(2) by simp
      qed
    qed (use s' in simp)
    then show ?thesis unfolding search by simp
  qed
  have num: "enum_value_from_string (Enum_table name es) (dec_int v) = Some (OCOMS_SUCCESS, Some v)"
    if vs: "(v, s) \<in> set vs" for v s
  proof -
    have r: "INT_MIN \<le> v" "v \<le> INT_MAX" using assms(4) vs by auto
    then have l: "c_strtol 0 (dec_int v) = (v, [])" by (intro c_strtol_dec_int) (simp_all add: INT_MIN_def INT_MAX_def)
    have "\<not> strcaseeq (dec_int v) t" if t: "(w, t) \<in> set vs" for w t
    proof
      assume "strcaseeq (dec_int v) t"
      then have "map c_tolower t = map c_tolower (dec_int v)" by (simp add: strcaseeq_def)
      then have "t = dec_int v" by (rule lower_unique) (use dec_int_low in blast)
      moreover have "snd (c_strtol 0 t) \<noteq> []" using assms(4) t by fastforce
      ultimately show False using l by simp
    qed
    then have "find (\<lambda>e. snd (c_strtol 0 (dec_int v)) = [] \<and> to_int (fst (c_strtol 0 (dec_int v))) = ev_value e \<or> strcaseeq (dec_int v) (the (ev_string e))) es =
        Some \<lparr>ev_value = v, ev_string = Some s\<rparr>"
      using vs inj1 by (intro find_unique) (auto simp: es_def l to_int_id [OF r])
    then show ?thesis unfolding search by simp
  qed
  have none: "enum_value_from_string (Enum_table name es) s' = Some (OCOMS_ERR_VALUE_OUT_OF_BOUNDS, None)"
    if "snd (c_strtol 0 s') \<noteq> []" "\<forall>(v, s) \<in> set vs. \<not> strcaseeq s' s" for s'
  proof -
    have "find (\<lambda>e. snd (c_strtol 0 s') = [] \<and> to_int (fst (c_strtol 0 s')) = ev_value e \<or> strcaseeq s' (the (ev_string e))) es = None"
      using that by (auto simp: find_None_iff es_def)
    then show ?thesis unfolding search by simp
  qed
  show ?thesis
    using enum_create_total [OF assms(1)] val str num none
    by (intro exI [of _ "Enum_table name es"] conjI) (auto simp: es_def simp del: enum_value_from_string.simps enum_string_from_value.simps)
qed

theorem enum_round_trip_witness:
  "\<exists>e. ocoms_mca_base_var_enum_create mem_always True True ''level'' [(0, ''None''), (7, ''Full'')] = (OCOMS_SUCCESS, Some e) \<and>
    enum_string_from_value e 7 = (OCOMS_SUCCESS, Some ''Full'') \<and> enum_value_from_string e (dec_int 7) = Some (OCOMS_SUCCESS, Some 7)"
proof -
  have n: "snd (c_strtol 0 ''None'') \<noteq> []" "snd (c_strtol 0 ''Full'') \<noteq> []"
    by (simp_all add: c_strtol_def c_number_def c_base_def c_isspace_def is_digit_in_def c_digit_def c_tolower_def Let_def)
  have d: "map c_tolower ''None'' \<noteq> map c_tolower ''Full''" by (simp add: c_tolower_def)
  show ?thesis
    using enum_round_trip [of mem_always "[(0, ''None''), (7, ''Full'')]" "''level''"] n d
    by (auto simp: INT_MIN_def INT_MAX_def simp del: enum_value_from_string.simps enum_string_from_value.simps)
qed

end
