(* ===== verification/Cmd_Line.thy ===== *)
theory Cmd_Line
  imports Mca_Var_Values
begin

text \<open>
  The command line parser of \<open>ocoms/util/cmd_line.c\<close>.  An option's address is its index in the
  list of options, which only grows.  The variables that options point to are cells of a store,
  and the strings handed to \<open>putenv\<close> are collected in order.  What is printed to \<open>stderr\<close> and the
  mutex of the handle are left out; \<open>obj_new\<close> tells whether \<open>OBJ_NEW\<close> finds memory.
\<close>

section \<open>Data\<close>

datatype ocoms_cmd_line_type_t =
    OCOMS_CMD_LINE_TYPE_NULL | OCOMS_CMD_LINE_TYPE_STRING | OCOMS_CMD_LINE_TYPE_INT
  | OCOMS_CMD_LINE_TYPE_SIZE_T | OCOMS_CMD_LINE_TYPE_BOOL | OCOMS_CMD_LINE_TYPE_MAX

record ocoms_cmd_line_option_t =
  clo_short_name :: char
  clo_single_dash_name :: "string option"
  clo_long_name :: "string option"
  clo_num_params :: int
  clo_description :: "string option"
  clo_type :: ocoms_cmd_line_type_t
  clo_mca_param_env_var :: "string option"
  clo_variable_dest :: "nat option"

record ocoms_cmd_line_param_t =
  clp_arg :: "string option"
  clp_option :: nat
  clp_argc :: int
  clp_argv :: "cells option"

record ocoms_cmd_line_t =
  lcl_options :: "ocoms_cmd_line_option_t list"
  lcl_params :: "ocoms_cmd_line_param_t list"
  lcl_argc :: int
  lcl_argv :: "cells option"
  lcl_tail_argc :: int
  lcl_tail_argv :: "cells option"

record ocoms_cmd_line_init_t =
  ocl_mca_param_name :: "string option"
  ocl_cmd_short_name :: char
  ocl_cmd_single_dash_name :: "string option"
  ocl_cmd_long_name :: "string option"
  ocl_num_params :: int
  ocl_variable_dest :: "nat option"
  ocl_variable_type :: ocoms_cmd_line_type_t
  ocl_description :: "string option"

text \<open>What an option's variable holds after it has been set.\<close>

datatype cmd_value = String_val "string option" | Int_val int | Size_val "64 word" | Bool_val bool

record cmd_world =
  env_puts :: "string list"
  dests :: "nat \<Rightarrow> cmd_value option"

definition OCOMS_ERR_SILENT :: int where "OCOMS_ERR_SILENT = - 43"

definition special_empty_token :: string where
  "special_empty_token = [CHR 0x01, CHR 0x02, CHR 0x03, CHR 0x04, CHR 0x05, CHR 0x06, CHR 0x07, CHR 0x08, CHR 0x09, CHR 0x0A]"

section \<open>Making options\<close>

definition cmd_line_constructor :: ocoms_cmd_line_t where
  "cmd_line_constructor = \<lparr>lcl_options = [], lcl_params = [], lcl_argc = 0, lcl_argv = None,
     lcl_tail_argc = 0, lcl_tail_argv = None\<rparr>"

definition unnamed :: "ocoms_cmd_line_init_t \<Rightarrow> bool" where
  "unnamed e \<longleftrightarrow> ocl_cmd_short_name e = CHR 0x00 \<and> ocl_cmd_single_dash_name e = None \<and> ocl_cmd_long_name e = None"

definition make_opt :: "argv_mem \<Rightarrow> bool \<Rightarrow> ocoms_cmd_line_t option \<Rightarrow> ocoms_cmd_line_init_t \<Rightarrow> int \<times> ocoms_cmd_line_t option" where
  "make_opt m obj_new cmd e = (case cmd of None \<Rightarrow> (OCOMS_ERR_BAD_PARAM, cmd)
   | Some c \<Rightarrow>
     if unnamed e then (OCOMS_ERR_BAD_PARAM, cmd)
     else if ocl_num_params e < 0 then (OCOMS_ERR_BAD_PARAM, cmd)
     else if \<not> obj_new then (OCOMS_ERR_OUT_OF_RESOURCE, cmd)
     else let dup = (\<lambda>s. Option.bind s (strdup m));
          opt = \<lparr>clo_short_name = ocl_cmd_short_name e,
                 clo_single_dash_name = dup (ocl_cmd_single_dash_name e),
                 clo_long_name = dup (ocl_cmd_long_name e),
                 clo_num_params = ocl_num_params e,
                 clo_description = dup (ocl_description e),
                 clo_type = ocl_variable_type e,
                 clo_mca_param_env_var = Option.bind (ocl_mca_param_name e) (ocoms_mca_base_var_env_name m),
                 clo_variable_dest = ocl_variable_dest e\<rparr>
       in (OCOMS_SUCCESS, Some (c\<lparr>lcl_options := lcl_options c @ [opt]\<rparr>)))"

text \<open>The loop over a table, which ends at the first entry without a name.\<close>

fun create_loop :: "argv_mem \<Rightarrow> bool \<Rightarrow> ocoms_cmd_line_t option \<Rightarrow> ocoms_cmd_line_init_t list \<Rightarrow>
    (int \<times> ocoms_cmd_line_t option) option" where
  "create_loop m obj_new cmd [] = None"
| "create_loop m obj_new cmd (e # table) =
     (if unnamed e then Some (OCOMS_SUCCESS, cmd)
      else let (ret, cmd') = make_opt m obj_new cmd e in
        if ret \<noteq> OCOMS_SUCCESS then Some (ret, cmd') else create_loop m obj_new cmd' table)"

definition ocoms_cmd_line_create :: "argv_mem \<Rightarrow> bool \<Rightarrow> ocoms_cmd_line_t option \<Rightarrow>
    ocoms_cmd_line_init_t list option \<Rightarrow> (int \<times> ocoms_cmd_line_t option) option" where
  "ocoms_cmd_line_create m obj_new cmd table = (case cmd of None \<Rightarrow> Some (OCOMS_ERR_BAD_PARAM, cmd)
   | Some _ \<Rightarrow> (case table of None \<Rightarrow> Some (OCOMS_SUCCESS, Some cmd_line_constructor)
     | Some es \<Rightarrow> create_loop m obj_new (Some cmd_line_constructor) es))"

definition ocoms_cmd_line_make_opt_mca :: "argv_mem \<Rightarrow> bool \<Rightarrow> ocoms_cmd_line_t option \<Rightarrow>
    ocoms_cmd_line_init_t \<Rightarrow> int \<times> ocoms_cmd_line_t option" where
  "ocoms_cmd_line_make_opt_mca m obj_new cmd entry =
     (if unnamed entry then (OCOMS_SUCCESS, cmd) else make_opt m obj_new cmd entry)"

definition ocoms_cmd_line_make_opt3 :: "argv_mem \<Rightarrow> bool \<Rightarrow> ocoms_cmd_line_t option \<Rightarrow> char \<Rightarrow>
    string option \<Rightarrow> string option \<Rightarrow> int \<Rightarrow> string option \<Rightarrow> int \<times> ocoms_cmd_line_t option" where
  "ocoms_cmd_line_make_opt3 m obj_new cmd short_name sd_name long_name num_params desc =
     make_opt m obj_new cmd \<lparr>ocl_mca_param_name = None, ocl_cmd_short_name = short_name,
       ocl_cmd_single_dash_name = sd_name, ocl_cmd_long_name = long_name, ocl_num_params = num_params,
       ocl_variable_dest = None, ocl_variable_type = OCOMS_CMD_LINE_TYPE_NULL, ocl_description = desc\<rparr>"

section \<open>Finding options\<close>

definition option_matches :: "string \<Rightarrow> ocoms_cmd_line_option_t \<Rightarrow> bool" where
  "option_matches option_name opt \<longleftrightarrow>
     clo_long_name opt = Some option_name \<or> clo_single_dash_name opt = Some option_name \<or>
     (length option_name = 1 \<and> hd option_name = clo_short_name opt)"

fun find_from :: "nat \<Rightarrow> ocoms_cmd_line_option_t list \<Rightarrow> string \<Rightarrow> nat option" where
  "find_from i [] option_name = None"
| "find_from i (opt # opts) option_name =
     (if option_matches option_name opt then Some i else find_from (Suc i) opts option_name)"

definition find_option :: "ocoms_cmd_line_option_t list \<Rightarrow> string \<Rightarrow> nat option" where
  "find_option opts option_name = find_from 0 opts option_name"

section \<open>Setting a variable\<close>

text \<open>\<open>strtol\<close> and \<open>strtoul\<close> in base 10: blanks, a sign, the digits; out of range the result is clamped.\<close>

definition digits_value :: "string \<Rightarrow> int" where
  "digits_value s = foldl (\<lambda>n c. 10 * n + (of_char c - 48)) 0 (takeWhile c_isdigit s)"

definition signed_part :: "string \<Rightarrow> bool \<times> int" where
  "signed_part s = (case dropWhile c_isspace s of
      [] \<Rightarrow> (False, 0)
    | c # r \<Rightarrow> if c = CHR ''-'' then (True, digits_value r)
               else if c = CHR ''+'' then (False, digits_value r) else (False, digits_value (c # r)))"

definition strtol :: "string \<Rightarrow> int" where
  "strtol s = (let (neg, v) = signed_part s in max (- (2 ^ 63)) (min (2 ^ 63 - 1) (if neg then - v else v)))"

definition strtoul :: "string \<Rightarrow> 64 word" where
  "strtoul s = (let (neg, v) = signed_part s in
     if v \<ge> 2 ^ 64 then - 1 else if neg then - word_of_int v else word_of_int v)"

definition all_digits :: "string \<Rightarrow> bool" where
  "all_digits sval \<longleftrightarrow> (\<forall>c \<in> set sval. c_isdigit c \<or> c = CHR ''-'')"

definition set_dest :: "argv_mem \<Rightarrow> ocoms_cmd_line_option_t \<Rightarrow> string \<Rightarrow> cmd_world \<Rightarrow> int \<times> cmd_world" where
  "set_dest m opt sval w =
     (let ival = sint (word_of_int (strtol sval) :: 32 word);
          lval = strtoul sval;
          str = (case clo_mca_param_env_var opt of None \<Rightarrow> None
            | Some var \<Rightarrow> (case clo_type opt of
                OCOMS_CMD_LINE_TYPE_STRING \<Rightarrow> strdup m (var @ ''='' @ sval)
              | OCOMS_CMD_LINE_TYPE_INT \<Rightarrow> strdup m (var @ ''='' @ sval)
              | OCOMS_CMD_LINE_TYPE_SIZE_T \<Rightarrow> strdup m (var @ ''='' @ sval)
              | OCOMS_CMD_LINE_TYPE_BOOL \<Rightarrow> strdup m (var @ ''=1'')
              | _ \<Rightarrow> None));
          w1 = (case str of None \<Rightarrow> w | Some s \<Rightarrow> w\<lparr>env_puts := env_puts w @ [s]\<rparr>);
          put = (\<lambda>d v. w1\<lparr>dests := (dests w1)(d \<mapsto> v)\<rparr>)
      in case clo_variable_dest opt of None \<Rightarrow> (OCOMS_SUCCESS, w1)
       | Some d \<Rightarrow> (case clo_type opt of
           OCOMS_CMD_LINE_TYPE_STRING \<Rightarrow> (OCOMS_SUCCESS, put d (String_val (strdup m sval)))
         | OCOMS_CMD_LINE_TYPE_INT \<Rightarrow>
             if all_digits sval then (OCOMS_SUCCESS, put d (Int_val ival)) else (OCOMS_ERR_SILENT, w1)
         | OCOMS_CMD_LINE_TYPE_SIZE_T \<Rightarrow>
             if all_digits sval then (OCOMS_SUCCESS, put d (Size_val lval)) else (OCOMS_ERR_SILENT, w1)
         | OCOMS_CMD_LINE_TYPE_BOOL \<Rightarrow> (OCOMS_SUCCESS, put d (Bool_val True))
         | _ \<Rightarrow> (OCOMS_SUCCESS, w1)))"

section \<open>Splitting a token into short options\<close>

text \<open>A string of a vector: the cell must hold one.\<close>

definition argv_at :: "cells option \<Rightarrow> int \<Rightarrow> string option" where
  "argv_at argv i = do { cs \<leftarrow> argv; c \<leftarrow> rd cs i; c }"

text \<open>
  The output vector with its count and the number of arguments used.  \<open>split_params\<close> is the loop over
  an option's parameters, \<open>split_token\<close> the one over the letters; return codes of the appends are
  ignored.  \<open>args\<close> is the vector from some index on.
\<close>

type_synonym split_state = "nat \<times> int \<times> cells option"

fun split_params :: "argv_mem \<Rightarrow> cells \<Rightarrow> int \<Rightarrow> nat \<Rightarrow> split_state \<Rightarrow> split_state option" where
  "split_params m args num_args 0 st = Some st"
| "split_params m args num_args (Suc n) (used, argc, argv) =
     (if int used < num_args then do {
        arg \<leftarrow> argv_at (Some args) (int used);
        (rc, argc', argv') \<leftarrow> ocoms_argv_append m argc argv arg;
        split_params m args num_args n (used + 1, argc', argv') }
      else do {
        (rc, argc', argv') \<leftarrow> ocoms_argv_append m argc argv special_empty_token;
        split_params m args num_args n (used, argc', argv') })"

fun split_token :: "argv_mem \<Rightarrow> ocoms_cmd_line_option_t list \<Rightarrow> bool \<Rightarrow> cells \<Rightarrow> int \<Rightarrow> string \<Rightarrow>
    split_state \<Rightarrow> (int \<times> split_state) option" where
  "split_token m opts ignore_unknown args num_args [] st = Some (OCOMS_SUCCESS, st)"
| "split_token m opts ignore_unknown args num_args (c # token) (used, argc, argv) =
     (let fake_token = [CHR ''-'', c] in
      case find_option opts (drop 1 fake_token) of
        None \<Rightarrow>
          if \<not> ignore_unknown then Some (OCOMS_ERR_BAD_PARAM, (used, argc, argv))
          else do {
            (rc, argc', argv') \<leftarrow> ocoms_argv_append m argc argv fake_token;
            split_token m opts ignore_unknown args num_args token (used, argc', argv') }
      | Some k \<Rightarrow> do {
          (rc, argc', argv') \<leftarrow> ocoms_argv_append m argc argv fake_token;
          st' \<leftarrow> split_params m args num_args (nat (clo_num_params (opts ! k))) (used, argc', argv');
          split_token m opts ignore_unknown args num_args token st' })"

definition split_shorts :: "argv_mem \<Rightarrow> ocoms_cmd_line_option_t list \<Rightarrow> string \<Rightarrow> cells \<Rightarrow> bool \<Rightarrow>
    (int \<times> split_state) option" where
  "split_shorts m opts token args ignore_unknown = do {
     num_args \<leftarrow> ocoms_argv_count (Some args);
     if token = [] then Some (OCOMS_ERR_BAD_PARAM, (0, 0, None))
     else split_token m opts ignore_unknown args num_args token (0, 0, None) }"

section \<open>Parsing\<close>

definition free_parse_results :: "ocoms_cmd_line_t \<Rightarrow> ocoms_cmd_line_t" where
  "free_parse_results cmd = cmd\<lparr>lcl_params := [], lcl_argv := None, lcl_argc := 0,
     lcl_tail_argv := None, lcl_tail_argc := 0\<rparr>"

text \<open>Everything from index \<open>i\<close> on goes to the tail.\<close>

fun to_tail :: "argv_mem \<Rightarrow> nat \<Rightarrow> int \<Rightarrow> ocoms_cmd_line_t \<Rightarrow> ocoms_cmd_line_t option" where
  "to_tail m 0 i cmd = Some cmd"
| "to_tail m (Suc n) i cmd = do {
     arg \<leftarrow> argv_at (lcl_argv cmd) i;
     (rc, argc', argv') \<leftarrow> ocoms_argv_append m (lcl_tail_argc cmd) (lcl_tail_argv cmd) arg;
     to_tail m n (i + 1) (cmd\<lparr>lcl_tail_argc := argc', lcl_tail_argv := argv'\<rparr>) }"

definition copy_to_tail :: "argv_mem \<Rightarrow> int \<Rightarrow> ocoms_cmd_line_t \<Rightarrow> ocoms_cmd_line_t option" where
  "copy_to_tail m i cmd = to_tail m (nat (lcl_argc cmd - i)) i cmd"

text \<open>
  How the loop over an option's parameters ends: with all of them, by the jump to \<open>error\<close> at some
  index, or with the return code of \<open>set_dest\<close>.  When the parameter is the special token, the code frees
  the vector of the parameters saved so far, and the release of \<open>param\<close> runs the destructor, which frees the
  same vector again: undefined behaviour unless there is no vector yet.
\<close>

datatype params_end = Params_done int int "cells option" | Params_error int | Params_return int

fun take_params :: "argv_mem \<Rightarrow> ocoms_cmd_line_t \<Rightarrow> ocoms_cmd_line_option_t \<Rightarrow> nat \<Rightarrow> nat \<Rightarrow> int \<Rightarrow>
    int \<Rightarrow> cells option \<Rightarrow> cmd_world \<Rightarrow> (params_end \<times> cmd_world) option" where
  "take_params m cmd opt j 0 i argc argv w = Some (Params_done i argc argv, w)"
| "take_params m cmd opt j (Suc n) i argc argv w =
     (if i \<ge> lcl_argc cmd then Some (Params_error i, w)
      else do {
        arg \<leftarrow> argv_at (lcl_argv cmd) i;
        if arg = special_empty_token then (if argv \<noteq> None then None else Some (Params_error i, w))
        else do {
          (rc, argc', argv') \<leftarrow> ocoms_argv_append m argc argv arg;
          if j = 0 \<and> (clo_mca_param_env_var opt \<noteq> None \<or> clo_variable_dest opt \<noteq> None) then
            (let (ret, w') = set_dest m opt arg w in
             if ret \<noteq> OCOMS_SUCCESS then Some (Params_return ret, w')
             else take_params m cmd opt (j + 1) n (i + 1) argc' argv' w')
          else take_params m cmd opt (j + 1) n (i + 1) argc' argv' w } })"

text \<open>
  What one iteration of the main loop leaves: the next index and whether an error was printed, the
  end of the loop, or an early return.
\<close>

datatype step_end = Next int bool | Return int

text \<open>An option has been recognised at index \<open>i\<close>.\<close>

definition handle_option :: "argv_mem \<Rightarrow> bool \<Rightarrow> ocoms_cmd_line_t \<Rightarrow> nat \<Rightarrow> int \<Rightarrow> bool \<Rightarrow> cmd_world \<Rightarrow>
    (step_end \<times> ocoms_cmd_line_t \<times> cmd_world) option" where
  "handle_option m obj_new cmd k i printed_error w =
     (if \<not> obj_new then Some (Return OCOMS_ERR_OUT_OF_RESOURCE, cmd, w)
      else do {
        opt \<leftarrow> rdn (lcl_options cmd) k;
        cs \<leftarrow> lcl_argv cmd;
        arg \<leftarrow> rd cs (i + 1);
        (e, w1) \<leftarrow> take_params m cmd opt 0 (nat (clo_num_params opt)) (i + 1) 0 None w;
        case e of
          Params_return ret \<Rightarrow> Some (Return ret, cmd, w1)
        | Params_error i' \<Rightarrow> do {
            cmd' \<leftarrow> copy_to_tail m i' cmd;
            Some (Next (lcl_argc cmd) True, cmd', w1) }
        | Params_done i' argc argv \<Rightarrow>
            (let (ret, w2) = (if clo_num_params opt = 0 then set_dest m opt ''1'' w1 else (OCOMS_SUCCESS, w1)) in
             if ret \<noteq> OCOMS_SUCCESS then Some (Return ret, cmd, w2)
             else Some (Next i' printed_error,
               cmd\<lparr>lcl_params := lcl_params cmd @ [\<lparr>clp_arg = arg, clp_option = k, clp_argc = argc, clp_argv = argv\<rparr>]\<rparr>, w2)) })"

text \<open>An unknown option or token at index \<open>i\<close>.\<close>

definition handle_unknown :: "argv_mem \<Rightarrow> bool \<Rightarrow> ocoms_cmd_line_t \<Rightarrow> bool \<Rightarrow> int \<Rightarrow> bool \<Rightarrow> cmd_world \<Rightarrow>
    (step_end \<times> ocoms_cmd_line_t \<times> cmd_world) option" where
  "handle_unknown m ignore_unknown cmd is_unknown_option i printed_error w = do {
     cmd' \<leftarrow> copy_to_tail m i cmd;
     Some (Next (lcl_argc cmd) (printed_error \<or> \<not> ignore_unknown \<or> is_unknown_option), cmd', w) }"

text \<open>A token with a single dash that is no option: it is split, and replaced if its first letter is one.\<close>

definition try_shorts :: "argv_mem \<Rightarrow> bool \<Rightarrow> ocoms_cmd_line_t \<Rightarrow> int \<Rightarrow> string \<Rightarrow>
    (nat option \<times> ocoms_cmd_line_t) option" where
  "try_shorts m ignore_unknown cmd i token = do {
     cs \<leftarrow> lcl_argv cmd;
     assert_c (0 \<le> i + 1 \<and> i + 1 \<le> int (length cs));
     (ret, used, shortsc, shortsv) \<leftarrow> split_shorts m (lcl_options cmd) (drop 1 token) (drop (nat (i + 1)) cs) ignore_unknown;
     if ret = OCOMS_SUCCESS then do {
       first \<leftarrow> argv_at shortsv 0;
       case find_option (lcl_options cmd) (drop 1 first) of None \<Rightarrow> Some (None, cmd)
       | Some k \<Rightarrow> do {
           (rc1, argc1, argv1) \<leftarrow> ocoms_argv_delete m (lcl_argc cmd) (lcl_argv cmd) i (1 + int used);
           (rc2, argv2) \<leftarrow> ocoms_argv_insert m argv1 i shortsv;
           argc2 \<leftarrow> ocoms_argv_count argv2;
           Some (Some k, cmd\<lparr>lcl_argc := argc2, lcl_argv := argv2\<rparr>) } }
     else Some (None, cmd) }"

text \<open>One iteration of the main loop.\<close>

definition parse_step :: "argv_mem \<Rightarrow> bool \<Rightarrow> bool \<Rightarrow> ocoms_cmd_line_t \<Rightarrow> int \<Rightarrow> bool \<Rightarrow> cmd_world \<Rightarrow>
    (step_end \<times> ocoms_cmd_line_t \<times> cmd_world) option" where
  "parse_step m obj_new ignore_unknown cmd i printed_error w = do {
     token \<leftarrow> argv_at (lcl_argv cmd) i;
     if token = ''--'' then do {
       cmd' \<leftarrow> copy_to_tail m (i + 1) cmd;
       Some (Next (lcl_argc cmd) printed_error, cmd', w) }
     else if take 1 token \<noteq> ''-'' then handle_unknown m ignore_unknown cmd False i printed_error w
     else if take 2 token = ''--'' then
       (case find_option (lcl_options cmd) (drop 2 token) of
          None \<Rightarrow> handle_unknown m ignore_unknown cmd True i printed_error w
        | Some k \<Rightarrow> handle_option m obj_new cmd k i printed_error w)
     else
       (case find_option (lcl_options cmd) (drop 1 token) of
          Some k \<Rightarrow> handle_option m obj_new cmd k i printed_error w
        | None \<Rightarrow> do {
            (opt, cmd') \<leftarrow> try_shorts m ignore_unknown cmd i token;
            case opt of
              None \<Rightarrow> handle_unknown m ignore_unknown cmd' True i printed_error w
            | Some k \<Rightarrow> handle_option m obj_new cmd' k i printed_error w }) }"

text \<open>The main loop: its value is \<open>None\<close> also when it does not end.\<close>

partial_function (option) parse_loop :: "argv_mem \<Rightarrow> bool \<Rightarrow> bool \<Rightarrow> ocoms_cmd_line_t \<Rightarrow> int \<Rightarrow> bool \<Rightarrow> cmd_world \<Rightarrow>
    (int \<times> ocoms_cmd_line_t \<times> cmd_world) option" where
  "parse_loop m obj_new ignore_unknown cmd i printed_error w =
     (if i < lcl_argc cmd then do {
        (e, cmd', w') \<leftarrow> parse_step m obj_new ignore_unknown cmd i printed_error w;
        case e of Return ret \<Rightarrow> Some (ret, cmd', w')
        | Next i' printed' \<Rightarrow> parse_loop m obj_new ignore_unknown cmd' i' printed' w' }
      else Some (if printed_error then OCOMS_ERR_SILENT else OCOMS_SUCCESS, cmd, w))"

definition ocoms_cmd_line_parse :: "argv_mem \<Rightarrow> bool \<Rightarrow> ocoms_cmd_line_t \<Rightarrow> bool \<Rightarrow> int \<Rightarrow> cells option \<Rightarrow> cmd_world \<Rightarrow>
    (int \<times> ocoms_cmd_line_t \<times> cmd_world) option" where
  "ocoms_cmd_line_parse m obj_new cmd ignore_unknown argc argv w =
     (if argc = 0 \<or> argv = None then Some (OCOMS_SUCCESS, cmd, w)
      else do {
        argv' \<leftarrow> ocoms_argv_copy m argv;
        parse_loop m obj_new ignore_unknown ((free_parse_results cmd)\<lparr>lcl_argc := argc, lcl_argv := argv'\<rparr>) 1 False w })"

section \<open>Queries\<close>

definition ocoms_cmd_line_get_ninsts :: "ocoms_cmd_line_t \<Rightarrow> string \<Rightarrow> int option" where
  "ocoms_cmd_line_get_ninsts cmd opt = (case find_option (lcl_options cmd) opt of None \<Rightarrow> Some 0
     | Some k \<Rightarrow> chk (int (length (filter (\<lambda>p. clp_option p = k) (lcl_params cmd)))))"

definition ocoms_cmd_line_is_taken :: "ocoms_cmd_line_t \<Rightarrow> string \<Rightarrow> bool option" where
  "ocoms_cmd_line_is_taken cmd opt = map_option (\<lambda>n. n > 0) (ocoms_cmd_line_get_ninsts cmd opt)"

text \<open>The search for the \<open>inst\<close>-th instance; the result is the value of the returned pointer.\<close>

fun get_param_loop :: "ocoms_cmd_line_param_t list \<Rightarrow> nat \<Rightarrow> int \<Rightarrow> int \<Rightarrow> int \<Rightarrow> string option option" where
  "get_param_loop [] k num_found inst idx = Some None"
| "get_param_loop (p # ps) k num_found inst idx =
     (if clp_option p = k then
        (if num_found = inst then do { cs \<leftarrow> clp_argv p; rd cs idx }
         else do { n \<leftarrow> chk (num_found + 1); get_param_loop ps k n inst idx })
      else get_param_loop ps k num_found inst idx)"

definition ocoms_cmd_line_get_param :: "ocoms_cmd_line_t \<Rightarrow> string \<Rightarrow> int \<Rightarrow> int \<Rightarrow> string option option" where
  "ocoms_cmd_line_get_param cmd opt inst idx = (case find_option (lcl_options cmd) opt of None \<Rightarrow> Some None
     | Some k \<Rightarrow> (if idx < clo_num_params (lcl_options cmd ! k)
                  then get_param_loop (lcl_params cmd) k 0 inst idx else Some None))"

definition ocoms_cmd_line_get_argc :: "ocoms_cmd_line_t option \<Rightarrow> int" where
  "ocoms_cmd_line_get_argc cmd = (case cmd of Some c \<Rightarrow> lcl_argc c | None \<Rightarrow> OCOMS_ERROR)"

definition ocoms_cmd_line_get_argv :: "ocoms_cmd_line_t option \<Rightarrow> int \<Rightarrow> string option option" where
  "ocoms_cmd_line_get_argv cmd index = (case cmd of None \<Rightarrow> Some None
     | Some c \<Rightarrow> if index \<ge> lcl_argc c \<or> index < 0 then Some None
       else do { cs \<leftarrow> lcl_argv c; rd cs index })"

definition ocoms_cmd_line_get_tail :: "argv_mem \<Rightarrow> ocoms_cmd_line_t option \<Rightarrow> (int \<times> (int \<times> cells option) option) option" where
  "ocoms_cmd_line_get_tail m cmd = (case cmd of None \<Rightarrow> Some (OCOMS_ERROR, None)
     | Some c \<Rightarrow> do {
         tailv \<leftarrow> ocoms_argv_copy m (lcl_tail_argv c);
         Some (OCOMS_SUCCESS, Some (lcl_tail_argc c, tailv)) })"

section \<open>The parser on lists of strings\<close>

text \<open>
  A reference for what parsing means: the tokens left are a list, an option's parameters are taken
  from it, a token of several short options is expanded in place.  \<open>Freed_twice\<close> is the special token
  after at least one parameter of the option.
\<close>

datatype grab = Got "string list" "string list" | Ran_out "string list" | Bad int | Freed_twice

fun grab_params :: "argv_mem \<Rightarrow> ocoms_cmd_line_option_t \<Rightarrow> nat \<Rightarrow> nat \<Rightarrow> string list \<Rightarrow> string list \<Rightarrow> cmd_world \<Rightarrow> grab \<times> cmd_world" where
  "grab_params m opt j 0 acc toks w = (Got acc toks, w)"
| "grab_params m opt j (Suc n) acc [] w = (Ran_out [], w)"
| "grab_params m opt j (Suc n) acc (t # ts) w =
     (if t = special_empty_token then (if acc \<noteq> [] then Freed_twice else Ran_out (t # ts), w)
      else if j = 0 \<and> (clo_mca_param_env_var opt \<noteq> None \<or> clo_variable_dest opt \<noteq> None) then
        (let (ret, w') = set_dest m opt t w in
         if ret \<noteq> OCOMS_SUCCESS then (Bad ret, w') else grab_params m opt (j + 1) n (acc @ [t]) ts w')
      else grab_params m opt (j + 1) n (acc @ [t]) ts w)"

abbreviation num_params :: "ocoms_cmd_line_option_t \<Rightarrow> nat" where
  "num_params opt \<equiv> nat (clo_num_params opt)"

fun expand :: "ocoms_cmd_line_option_t list \<Rightarrow> bool \<Rightarrow> string \<Rightarrow> string list \<Rightarrow> (string list \<times> string list) option" where
  "expand opts ign [] args = Some ([], args)"
| "expand opts ign (c # cs) args =
     (case find_option opts [c] of
        None \<Rightarrow> if \<not> ign then None else map_option (apfst ((#) [CHR ''-'', c])) (expand opts ign cs args)
      | Some k \<Rightarrow> let n = num_params (opts ! k) in
          map_option (apfst (\<lambda>out. [CHR ''-'', c] # take n args @ replicate (n - length args) special_empty_token @ out))
            (expand opts ign cs (drop n args)))"

text \<open>The option that a token is, the token itself and the tokens after it.\<close>

definition recognize :: "ocoms_cmd_line_option_t list \<Rightarrow> bool \<Rightarrow> string \<Rightarrow> string list \<Rightarrow> (nat \<times> string \<times> string list) option" where
  "recognize opts ign t ts =
     (if take 2 t = ''--'' then map_option (\<lambda>k. (k, t, ts)) (find_option opts (drop 2 t))
      else case find_option opts (drop 1 t) of
        Some k \<Rightarrow> Some (k, t, ts)
      | None \<Rightarrow> if drop 1 t = [] then None else
          (case expand opts ign (drop 1 t) ts of
             Some (t' # out, rest) \<Rightarrow> map_option (\<lambda>k. (k, t', out @ rest)) (find_option opts (drop 1 t'))
           | _ \<Rightarrow> None))"

text \<open>The weight bounds the number of tokens that a token can become.\<close>

definition max_params :: "ocoms_cmd_line_option_t list \<Rightarrow> nat" where
  "max_params opts = foldr (\<lambda>opt n. max (num_params opt) n) opts 0"

definition weight :: "ocoms_cmd_line_option_t list \<Rightarrow> string \<Rightarrow> nat" where
  "weight opts t = (if 2 < length t \<and> take 1 t = ''-'' then 1 + length t * (max_params opts + 1) else 1)"

definition weights :: "ocoms_cmd_line_option_t list \<Rightarrow> string list \<Rightarrow> nat" where
  "weights opts ts = (\<Sum>t \<leftarrow> ts. weight opts t)"

lemma weights_simps [simp]:
  "weights opts [] = 0" "weights opts (t # ts) = weight opts t + weights opts ts"
  "weights opts (ts @ us) = weights opts ts + weights opts us"
  by (simp_all add: weights_def)

lemma weight_pos [simp]: "0 < weight opts t" "Suc 0 \<le> weight opts t"
  by (simp_all add: weight_def)

lemma length_weights: "length ts \<le> weights opts ts"
  by (induction ts) (auto simp: weight_def)

lemma weights_drop: "weights opts (drop n ts) \<le> weights opts ts"
  by (metis append_take_drop_id weights_simps(3) le_add2)

lemma weight_special [simp]: "weight opts special_empty_token = 1"
  by (simp add: weight_def special_empty_token_def)

lemma weight_short [simp]: "weight opts [CHR ''-'', c] = 1"
  by (simp add: weight_def)

lemma weights_special [simp]: "weights opts (replicate n special_empty_token) = n"
  by (induction n) simp_all

lemma max_params_ge: "k < length opts \<Longrightarrow> num_params (opts ! k) \<le> max_params opts"
  unfolding max_params_def by (induction opts arbitrary: k) (auto simp: nth_Cons split: nat.splits, fastforce)

lemma find_from_Some: "find_from i opts s = Some k \<Longrightarrow> i \<le> k \<and> k < i + length opts \<and> option_matches s (opts ! (k - i))"
  by (induction opts arbitrary: i) (force simp: nth_Cons' split: if_splits)+

lemma find_option_Some: "find_option opts s = Some k \<Longrightarrow> k < length opts \<and> option_matches s (opts ! k)"
  unfolding find_option_def using find_from_Some by fastforce

text \<open>What is expanded: its weight, and that the arguments left are a suffix.\<close>

lemma expand_weights:
  "expand opts ign cs args = Some (out, rest) \<Longrightarrow>
   weights opts out + weights opts rest \<le> length cs * (max_params opts + 1) + weights opts args"
proof (induction cs arbitrary: args out rest)
  case (Cons c cs)
  show ?case
  proof (cases "find_option opts [c]")
    case None
    with Cons.prems obtain out' where "expand opts ign cs args = Some (out', rest)" "out = [CHR ''-'', c] # out'"
      by (auto split: if_splits)
    with Cons.IH [of args out' rest] show ?thesis by simp
  next
    case (Some k)
    let ?n = "num_params (opts ! k)"
    from Some Cons.prems obtain out' where o: "expand opts ign cs (drop ?n args) = Some (out', rest)"
      "out = [CHR ''-'', c] # take ?n args @ replicate (?n - length args) special_empty_token @ out'"
      by (auto simp: Let_def)
    have "?n \<le> max_params opts" using Some by (simp add: find_option_Some max_params_ge)
    moreover have "weights opts (take ?n args) + weights opts (drop ?n args) = weights opts args"
      by (metis append_take_drop_id weights_simps(3))
    ultimately show ?thesis using Cons.IH [OF o(1)] o(2) by simp
  qed
qed simp

lemma expand_suffix: "expand opts ign cs args = Some (out, rest) \<Longrightarrow> \<exists>u. u \<le> length args \<and> rest = drop u args"
proof (induction cs arbitrary: args out rest)
  case (Cons c cs)
  show ?case
  proof (cases "find_option opts [c]")
    case None
    with Cons show ?thesis by (auto split: if_splits)
  next
    case (Some k)
    let ?n = "num_params (opts ! k)"
    from Some Cons.prems obtain out' where "expand opts ign cs (drop ?n args) = Some (out', rest)" by (auto simp: Let_def)
    from Cons.IH [OF this] obtain u where u: "u \<le> length (drop ?n args)" "rest = drop (u + ?n) args" by auto
    show ?thesis
    proof (cases "?n \<le> length args")
      case True
      then show ?thesis using u by (intro exI [of _ "u + ?n"]) simp
    next
      case False
      then show ?thesis using u by (intro exI [of _ "length args"]) simp
    qed
  qed
qed auto

lemma expand_nonempty: "expand opts ign (c # cs) args = Some (out, rest) \<Longrightarrow> \<exists>out'. out = [CHR ''-'', c] # out'"
  by (auto simp: Let_def split: option.splits if_splits)

lemma recognize_weights:
  assumes "recognize opts ign t ts = Some (k, t', ts')" and "take 1 t = ''-''"
  shows "weights opts (t' # ts') \<le> weights opts (t # ts) \<and> k < length opts"
proof (cases "take 2 t = ''--'' \<or> find_option opts (drop 1 t) \<noteq> None")
  case True
  with assms(1) show ?thesis by (auto simp: recognize_def dest: find_option_Some split: if_splits)
next
  case False
  with assms(1) obtain out rest where e: "drop 1 t \<noteq> []" "expand opts ign (drop 1 t) ts = Some (t' # out, rest)"
    "ts' = out @ rest" "find_option opts (drop 1 t') = Some k"
    by (auto simp: recognize_def split: if_splits option.splits list.splits)
  obtain c cs where c: "t = CHR ''-'' # c # cs" using e(1) assms(2) by (cases t; cases "tl t") auto
  from expand_nonempty [of opts ign c cs] e(2) c have t': "t' = [CHR ''-'', c]" by auto
  have "cs \<noteq> []" using False e(4) t' c by auto
  then have "weight opts t = 1 + length t * (max_params opts + 1)" using c by (cases cs) (simp_all add: weight_def)
  with expand_weights [OF e(2)] e(3,4) c show ?thesis by (auto dest: find_option_Some)
qed

lemma grab_suffix: "grab_params m opt j n acc toks w = (Got args rest, w') \<Longrightarrow>
   n \<le> length toks \<and> args = acc @ take n toks \<and> rest = drop n toks"
  by (induction m opt j n acc toks w rule: grab_params.induct) (auto simp: Let_def split: if_splits prod.splits)

lemma step_weights:
  assumes "recognize opts ign t ts = Some (k, t', ts')" and "take 1 t = ''-''"
    and "grab_params m opt j n acc ts' w = (Got args rest, w')"
  shows "weights opts rest < weights opts (t # ts)"
proof -
  have "weights opts rest \<le> weights opts ts'" using grab_suffix [OF assms(3)] weights_drop by simp
  also have "weights opts ts' < weights opts (t' # ts')" by simp
  also have "weights opts (t' # ts') \<le> weights opts (t # ts)" using recognize_weights [OF assms(1,2)] by simp
  finally show ?thesis .
qed

type_synonym cmd_use = "string option \<times> nat \<times> string list"

type_synonym parse_result = "int \<times> cmd_use list \<times> string list \<times> string list \<times> cmd_world"

text \<open>The reference has no result when the parameters of an option are freed twice.\<close>

function (sequential) parse_spec ::
  "argv_mem \<Rightarrow> ocoms_cmd_line_option_t list \<Rightarrow> bool \<Rightarrow> string list \<Rightarrow> cmd_world \<Rightarrow> parse_result option" where
  "parse_spec m opts ign [] w = Some (OCOMS_SUCCESS, [], [], [], w)"
| "parse_spec m opts ign (t # ts) w =
     (if t = ''--'' then Some (OCOMS_SUCCESS, [], ts, t # ts, w)
      else if take 1 t \<noteq> ''-'' then Some (if ign then OCOMS_SUCCESS else OCOMS_ERR_SILENT, [], t # ts, t # ts, w)
      else case recognize opts ign t ts of
        None \<Rightarrow> Some (OCOMS_ERR_SILENT, [], t # ts, t # ts, w)
      | Some (k, t', ts') \<Rightarrow>
          (let opt = opts ! k; n = num_params opt in
           case grab_params m opt 0 n [] ts' w of
             (Bad ret, w1) \<Rightarrow> Some (ret, [], [], t' # ts', w1)
           | (Freed_twice, w1) \<Rightarrow> None
           | (Ran_out rest, w1) \<Rightarrow> Some (OCOMS_ERR_SILENT, [], rest, t' # ts', w1)
           | (Got args rest, w1) \<Rightarrow>
               (let (ret, w2) = (if clo_num_params opt = 0 then set_dest m opt ''1'' w1 else (OCOMS_SUCCESS, w1)) in
                if ret \<noteq> OCOMS_SUCCESS then Some (ret, [], [], t' # ts', w2)
                else map_option (\<lambda>(rc, uses, tail, av, w3).
                  (rc, (if ts' = [] then None else Some (hd ts'), k, args) # uses, tail, t' # take n ts' @ av, w3))
                  (parse_spec m opts ign rest w2))))"
  by pat_completeness auto
termination
proof (relation "measure (\<lambda>(m, opts, ign, ts, w). weights opts ts)", goal_cases)
  case (2 m opts ign t ts w r k p t' ts')
  then show ?case using step_weights [OF _ _ sym, of opts ign t ts k t' ts'] by (auto simp del: weights_simps)
qed simp

declare parse_spec.simps(2) [simp del]

section \<open>The parser implements the reference\<close>

definition mem_fine :: "argv_mem \<Rightarrow> bool" where
  "mem_fine m \<longleftrightarrow> argv_mem_ok m \<and> argv_mem_total m"

lemma append_fine:
  assumes "mem_fine m" and "argv_rep argv xs" and "int (length xs) + 2 \<le> INT_MAX"
  shows "\<exists>argv'. ocoms_argv_append m argc argv a = Some (OCOMS_SUCCESS, int (length xs) + 1, argv') \<and> argv_rep argv' (xs @ [a]) \<and> argv' \<noteq> None"
  using append_ok [of argv xs m argc a] assms by (auto simp: mem_fine_def)

lemma argv_at_ok: "argv_rep argv xs \<Longrightarrow> i < length xs \<Longrightarrow> argv_at argv (int i) = Some (xs ! i)"
  by (cases argv) (auto simp: argv_at_def represents_def rd_def)

lemma copy_fine:
  assumes "mem_fine m" and "represents cs xs" and "int (length xs) + 2 \<le> INT_MAX"
  shows "\<exists>a. ocoms_argv_copy m (Some cs) = Some a \<and> argv_rep a xs \<and> a \<noteq> None"
  using copy_ok [of m cs xs] assms by (auto simp: mem_fine_def)

lemma to_tail_ok:
  assumes m: "mem_fine m" and xs: "argv_rep argv xs"
  shows "lcl_argv cmd = argv \<Longrightarrow> i + n = length xs \<Longrightarrow> argv_rep (lcl_tail_argv cmd) ys \<Longrightarrow> lcl_tail_argc cmd = int (length ys) \<Longrightarrow>
    int (length ys + n) + 2 \<le> INT_MAX \<Longrightarrow>
    \<exists>a. to_tail m n (int i) cmd = Some (cmd\<lparr>lcl_tail_argc := int (length ys + n), lcl_tail_argv := a\<rparr>) \<and> argv_rep a (ys @ drop i xs)"
proof (induction n arbitrary: i cmd ys)
  case 0
  then show ?case by (intro exI [of _ "lcl_tail_argv cmd"]) simp
next
  case (Suc n)
  let ?x = "xs ! i"
  have at: "argv_at argv (int i) = Some ?x" using xs Suc.prems(2) by (intro argv_at_ok) simp_all
  from append_fine [OF m Suc.prems(3), of "lcl_tail_argc cmd" ?x] Suc.prems(5) obtain a where
    a: "ocoms_argv_append m (lcl_tail_argc cmd) (lcl_tail_argv cmd) ?x = Some (OCOMS_SUCCESS, int (length ys) + 1, a)"
      "argv_rep a (ys @ [?x])" by auto
  have d: "drop i xs = ?x # drop (Suc i) xs" using Suc.prems(2) by (simp add: Cons_nth_drop_Suc)
  from Suc.IH [of "cmd\<lparr>lcl_tail_argc := int (length ys) + 1, lcl_tail_argv := a\<rparr>" "Suc i" "ys @ [?x]"] a(2) Suc.prems d
  show ?case by (simp add: at a(1) [unfolded Suc.prems(4)] add.commute)
qed

lemma copy_to_tail_ok:
  assumes "mem_fine m" and "argv_rep (lcl_argv cmd) xs" and "lcl_argc cmd = int (length xs)" and "i \<le> length xs"
    and "lcl_tail_argv cmd = None" and "lcl_tail_argc cmd = 0" and "int (length xs) + 2 \<le> INT_MAX"
  shows "\<exists>a. copy_to_tail m (int i) cmd = Some (cmd\<lparr>lcl_tail_argc := int (length xs - i), lcl_tail_argv := a\<rparr>) \<and> argv_rep a (drop i xs)"
proof -
  have "nat (lcl_argc cmd - int i) = length xs - i" using assms(3,4) by simp
  with to_tail_ok [OF assms(1,2) refl, of i "length xs - i" "[]"] assms(4-) show ?thesis
    by (simp add: copy_to_tail_def)
qed

text \<open>How the loop over parameters ends, against the reference.\<close>

fun params_match :: "string list \<Rightarrow> nat \<Rightarrow> grab \<times> cmd_world \<Rightarrow> (params_end \<times> cmd_world) option \<Rightarrow> bool" where
  "params_match xs i (Got args rest, w') r \<longleftrightarrow>
     (\<exists>a. r = Some (Params_done (int i) (int (length args)) a, w') \<and> argv_rep a args)"
| "params_match xs i (Ran_out rest, w') r \<longleftrightarrow>
     (\<exists>i'. r = Some (Params_error (int i'), w') \<and> i' \<le> length xs \<and> rest = drop i' xs)"
| "params_match xs i (Bad ret, w') r \<longleftrightarrow> r = Some (Params_return ret, w')"
| "params_match xs i (Freed_twice, w') r \<longleftrightarrow> r = None"

lemma take_params_ok:
  assumes m: "mem_fine m" and xs: "argv_rep (lcl_argv cmd) xs" "lcl_argc cmd = int (length xs)"
  shows "i \<le> length xs \<Longrightarrow> argv_rep argv acc \<Longrightarrow> argc = int (length acc) \<Longrightarrow> int (length acc + (length xs - i)) + 2 \<le> INT_MAX \<Longrightarrow>
   (argv = None) = (acc = []) \<Longrightarrow> params_match xs (i + n) (grab_params m opt j n acc (drop i xs) w) (take_params m cmd opt j n (int i) argc argv w)"
proof (induction n arbitrary: i j acc argc argv w)
  case 0
  then show ?case by simp
next
  case (Suc n)
  show ?case
  proof (cases "i < length xs")
    case False
    with Suc.prems(1) have "i = length xs" by simp
    then show ?thesis using xs(2) by (auto intro: exI [of _ "length xs"])
  next
    case True
    let ?x = "xs ! i"
    have at: "argv_at (lcl_argv cmd) (int i) = Some ?x" using xs(1) True by (rule argv_at_ok)
    have d: "drop i xs = ?x # drop (Suc i) xs" using True by (simp add: Cons_nth_drop_Suc)
    have "int (length acc) + 2 \<le> INT_MAX" using Suc.prems(4) by simp
    from append_fine [OF m Suc.prems(2) this, of argc ?x] obtain a where
      a: "ocoms_argv_append m argc argv ?x = Some (OCOMS_SUCCESS, int (length acc) + 1, a)" "argv_rep a (acc @ [?x])" "a \<noteq> None" by blast
    have some: "(a = None) = (acc @ [?x] = [])" using a(3) by simp
    have pre: "Suc i \<le> length xs" "int (length acc) + 1 = int (length (acc @ [?x]))"
      "int (length (acc @ [?x]) + (length xs - Suc i)) + 2 \<le> INT_MAX" using True Suc.prems(4) by simp_all
    have IH: "params_match xs (i + Suc n) (grab_params m opt (j + 1) n (acc @ [?x]) (drop (Suc i) xs) w1)
        (take_params m cmd opt (j + 1) n (int i + 1) (int (length acc) + 1) a w1)" for w1
      using Suc.IH [OF pre(1) a(2) pre(2,3) some, of "j + 1" w1] by (simp add: add.commute)
    have step: "take_params m cmd opt j (Suc n) (int i) argc argv w =
      (if ?x = special_empty_token then (if acc \<noteq> [] then None else Some (Params_error (int i), w))
       else if j = 0 \<and> (clo_mca_param_env_var opt \<noteq> None \<or> clo_variable_dest opt \<noteq> None) then
         (let (ret, w') = set_dest m opt ?x w in
             if ret \<noteq> OCOMS_SUCCESS then Some (Params_return ret, w')
             else take_params m cmd opt (j + 1) n (int i + 1) (int (length acc) + 1) a w')
       else take_params m cmd opt (j + 1) n (int i + 1) (int (length acc) + 1) a w)"
      using True xs(2) at a(1) Suc.prems(5) by (simp del: not_None_eq)
    show ?thesis unfolding step d using IH True d by (auto simp: Let_def split: prod.splits intro: exI [of _ i])
  qed
qed

lemma split_params_ok:
  assumes m: "mem_fine m" and args: "represents args ts"
  shows "used \<le> length ts \<Longrightarrow> argv_rep argv out \<Longrightarrow> argc = int (length out) \<Longrightarrow> int (length out + n) + 2 \<le> INT_MAX \<Longrightarrow>
    \<exists>argv'. split_params m args (int (length ts)) n (used, argc, argv) =
       Some (min (used + n) (length ts), int (length out + n), argv') \<and>
     argv_rep argv' (out @ take n (drop used ts) @ replicate (n - (length ts - used)) special_empty_token)"
proof (induction n arbitrary: used argc argv out)
  case 0
  then show ?case by simp
next
  case (Suc n)
  have room: "int (length out) + 2 \<le> INT_MAX" using Suc.prems(4) by simp
  show ?case
  proof (cases "used < length ts")
    case True
    have at: "argv_at (Some args) (int used) = Some (ts ! used)" using args True by (intro argv_at_ok) simp_all
    from append_fine [OF m Suc.prems(2) room, of argc "ts ! used"] obtain a where
      a: "ocoms_argv_append m argc argv (ts ! used) = Some (OCOMS_SUCCESS, int (length out) + 1, a)" "argv_rep a (out @ [ts ! used])" by auto
    have d: "drop used ts = ts ! used # drop (Suc used) ts" using True by (simp add: Cons_nth_drop_Suc)
    have pre: "Suc used \<le> length ts" "int (length out) + 1 = int (length (out @ [ts ! used]))"
      "int (length (out @ [ts ! used]) + n) + 2 \<le> INT_MAX" using True Suc.prems(4) by simp_all
    from Suc.IH [OF pre(1) a(2) pre(2,3)] True at a(1) d show ?thesis by simp
  next
    case False
    then have u: "used = length ts" using Suc.prems(1) by simp
    from append_fine [OF m Suc.prems(2) room, of argc special_empty_token] obtain a where
      a: "ocoms_argv_append m argc argv special_empty_token = Some (OCOMS_SUCCESS, int (length out) + 1, a)"
        "argv_rep a (out @ [special_empty_token])" by auto
    have pre: "int (length out) + 1 = int (length (out @ [special_empty_token]))"
      "int (length (out @ [special_empty_token]) + n) + 2 \<le> INT_MAX" using Suc.prems(4) by simp_all
    from Suc.IH [OF Suc.prems(1) a(2) pre] False a(1) u show ?thesis by simp
  qed
qed

lemma split_token_ok:
  assumes m: "mem_fine m" and args: "represents args ts"
  shows "used \<le> length ts \<Longrightarrow> argv_rep argv out \<Longrightarrow> argc = int (length out) \<Longrightarrow>
    int (length out + length cs * (max_params opts + 1)) + 2 \<le> INT_MAX \<Longrightarrow>
    (case expand opts ign cs (drop used ts) of
       None \<Rightarrow> \<exists>st. split_token m opts ign args (int (length ts)) cs (used, argc, argv) = Some (OCOMS_ERR_BAD_PARAM, st)
     | Some (o', rest) \<Rightarrow> \<exists>used' argv'. split_token m opts ign args (int (length ts)) cs (used, argc, argv) =
           Some (OCOMS_SUCCESS, used', int (length (out @ o')), argv') \<and> used' \<le> length ts \<and> rest = drop used' ts \<and> argv_rep argv' (out @ o'))"
proof (induction cs arbitrary: used argc argv out)
  case Nil
  then show ?case by auto
next
  case (Cons c cs)
  let ?f = "[CHR ''-'', c]"
  define B where "B = length cs * (max_params opts + 1)"
  have prem: "int (length out + (max_params opts + 1) + B) + 2 \<le> INT_MAX" using Cons.prems(4) by (simp add: B_def)
  then have room: "int (length out) + 2 \<le> INT_MAX" by simp
  from append_fine [OF m Cons.prems(2) room, of argc ?f] obtain a where
    a: "ocoms_argv_append m argc argv ?f = Some (OCOMS_SUCCESS, int (length out) + 1, a)" "argv_rep a (out @ [?f])" by auto
  show ?case
  proof (cases "find_option opts [c]")
    case None
    show ?thesis
    proof (cases ign)
      case False
      then show ?thesis using None by (simp add: Let_def)
    next
      case True
      have pre: "int (length out) + 1 = int (length (out @ [?f]))"
        "int (length (out @ [?f]) + length cs * (max_params opts + 1)) + 2 \<le> INT_MAX"
        unfolding B_def [symmetric] using prem by simp_all
      from Cons.IH [OF Cons.prems(1) a(2) pre] None True a(1) show ?thesis
        by (auto simp: Let_def split: option.splits)
    qed
  next
    case (Some k)
    let ?n = "num_params (opts ! k)"
    have n: "?n \<le> max_params opts" using Some by (simp add: find_option_Some max_params_ge)
    have pre: "int (length out) + 1 = int (length (out @ [?f]))" "int (length (out @ [?f]) + ?n) + 2 \<le> INT_MAX"
      using prem n unfolding length_append list.size by (simp, linarith)
    let ?o = "out @ [?f] @ take ?n (drop used ts) @ replicate (?n - (length ts - used)) special_empty_token"
    from split_params_ok [OF m args Cons.prems(1) a(2) pre] obtain b where
      b: "split_params m args (int (length ts)) ?n (used, int (length out) + 1, a) =
        Some (min (used + ?n) (length ts), int (length (out @ [?f]) + ?n), b)" "argv_rep b ?o" by auto
    have lo: "length ?o = length (out @ [?f]) + ?n" using Cons.prems(1) by simp
    have "drop (min (used + ?n) (length ts)) ts = drop ?n (drop used ts)"
      by (cases "used + ?n \<le> length ts") (simp_all add: add.commute)
    moreover have "int (length (out @ [?f]) + ?n) = int (length ?o)" unfolding lo by (rule refl)
    moreover have "int (length ?o + length cs * (max_params opts + 1)) + 2 \<le> INT_MAX"
      unfolding lo B_def [symmetric] using prem n by (simp, linarith)
    ultimately have IH: "case expand opts ign cs (drop ?n (drop used ts)) of
       None \<Rightarrow> \<exists>st. split_token m opts ign args (int (length ts)) cs (min (used + ?n) (length ts), int (length (out @ [?f]) + ?n), b) = Some (OCOMS_ERR_BAD_PARAM, st)
     | Some (o', rest) \<Rightarrow> \<exists>used' argv'. split_token m opts ign args (int (length ts)) cs (min (used + ?n) (length ts), int (length (out @ [?f]) + ?n), b) =
           Some (OCOMS_SUCCESS, used', int (length (?o @ o')), argv') \<and> used' \<le> length ts \<and> rest = drop used' ts \<and> argv_rep argv' (?o @ o')"
      using Cons.IH [OF _ b(2), of "min (used + ?n) (length ts)" "int (length (out @ [?f]) + ?n)"] by simp
    have step: "split_token m opts ign args (int (length ts)) (c # cs) (used, argc, argv) =
      split_token m opts ign args (int (length ts)) cs (min (used + ?n) (length ts), int (length (out @ [?f]) + ?n), b)"
      using Some a(1) b(1) by (simp add: Let_def)
    show ?thesis unfolding step using IH Some by (auto simp: Let_def split: option.splits)
  qed
qed

lemma represents_suffix: "represents cs (a @ b) \<Longrightarrow> n = length a \<Longrightarrow> represents (drop n cs) b"
  using represents_drop [of cs "a @ b" "length a"] by simp

text \<open>Enough room for what the tokens left can become, in the \<open>int\<close> counts of the vectors.\<close>

definition parse_room :: "ocoms_cmd_line_option_t list \<Rightarrow> nat \<Rightarrow> string list \<Rightarrow> bool" where
  "parse_room opts n toks \<longleftrightarrow> int (n + weights opts toks + max_params opts) + 3 \<le> INT_MAX"

lemma shorts_room:
  assumes "parse_room opts n (t # ts)" and "take 1 t = ''-''"
  shows "int (length (drop 1 t) * (max_params opts + 1)) + 2 \<le> INT_MAX"
proof (cases "2 < length t")
  case True
  define B where "B = length (drop 1 t) * (max_params opts + 1)"
  have "B \<le> length t * (max_params opts + 1)" unfolding B_def by (intro mult_le_mono1) simp
  also have "\<dots> \<le> weight opts t" using True assms(2) by (simp add: weight_def)
  finally have "int B + 2 \<le> INT_MAX" using assms(1) by (simp add: parse_room_def)
  then show ?thesis by (simp only: B_def)
next
  case False
  define B where "B = length (drop 1 t) * (max_params opts + 1)"
  have "length (drop 1 t) \<le> 1" using False by simp
  then have "B \<le> 1 * (max_params opts + 1)" unfolding B_def by (rule mult_le_mono1)
  then have "int B + 2 \<le> INT_MAX" using assms(1) weight_pos(2) [of opts t] by (simp add: parse_room_def)
  then show ?thesis by (simp only: B_def)
qed

lemma try_shorts_ok:
  assumes m: "mem_fine m" and rep: "argv_rep (lcl_argv cmd) (done @ t # ts)"
    and argc: "lcl_argc cmd = int (length (done @ t # ts))" and t: "take 1 t = ''-''" "take 2 t \<noteq> ''--''"
    and nf: "find_option (lcl_options cmd) (drop 1 t) = None"
    and room: "parse_room (lcl_options cmd) (length done) (t # ts)"
  shows "case recognize (lcl_options cmd) ign t ts of
      None \<Rightarrow> try_shorts m ign cmd (int (length done)) t = Some (None, cmd)
    | Some (k, t', ts') \<Rightarrow> \<exists>a. try_shorts m ign cmd (int (length done)) t =
          Some (Some k, cmd\<lparr>lcl_argc := int (length (done @ t' # ts')), lcl_argv := a\<rparr>) \<and> argv_rep a (done @ t' # ts')"
proof -
  let ?opts = "lcl_options cmd" and ?i = "int (length done)"
  obtain cs where cs: "lcl_argv cmd = Some cs" "represents cs (done @ t # ts)" using rep by (cases "lcl_argv cmd") simp_all
  let ?args = "drop (nat (?i + 1)) cs"
  have args: "represents ?args ts" using cs(2) by (intro represents_suffix [of cs "done @ [t]"]) simp_all
  have len: "length (done @ t # ts) < length cs" using cs(2) by (simp add: represents_def)
  have "length ts \<le> weights ?opts ts" by (rule length_weights)
  then have small: "int (length (done @ t # ts)) + 2 \<le> INT_MAX" using room weight_pos(2) [of ?opts t] by (simp add: parse_room_def)
  have cnt: "ocoms_argv_count (Some ?args) = Some (int (length ts))"
    using argv_count_ok [of "Some ?args" ts] args small by simp
  show ?thesis
  proof (cases "drop 1 t = []")
    case True
    have "split_shorts m ?opts (drop 1 t) ?args ign = Some (OCOMS_ERR_BAD_PARAM, 0, 0, None)"
      using cnt True by (simp add: split_shorts_def)
    then show ?thesis using True t nf cs(1) len by (simp add: recognize_def try_shorts_def)
  next
    case False
    have e: "split_shorts m ?opts (drop 1 t) ?args ign = split_token m ?opts ign ?args (int (length ts)) (drop 1 t) (0, 0, None)"
      using cnt False by (simp add: split_shorts_def)
    have r: "int (length ([] :: string list) + length (drop 1 t) * (max_params ?opts + 1)) + 2 \<le> INT_MAX"
      using shorts_room [OF room t(1)] by (simp only: list.size add_0)
    have z: "argv_rep None []" "0 = int (length ([] :: string list))" by simp_all
    from split_token_ok [OF m args le0 z r, of ign, unfolded drop_0 append_Nil]
    have sp: "case expand ?opts ign (drop 1 t) ts of
       None \<Rightarrow> \<exists>st. split_shorts m ?opts (drop 1 t) ?args ign = Some (OCOMS_ERR_BAD_PARAM, st)
     | Some (o', rest) \<Rightarrow> \<exists>used' argv'. split_shorts m ?opts (drop 1 t) ?args ign =
           Some (OCOMS_SUCCESS, used', int (length o'), argv') \<and> used' \<le> length ts \<and> rest = drop used' ts \<and> argv_rep argv' o'"
      unfolding e .
    show ?thesis
    proof (cases "expand ?opts ign (drop 1 t) ts")
      case None
      with sp obtain st where "split_shorts m ?opts (drop 1 t) ?args ign = Some (OCOMS_ERR_BAD_PARAM, st)" by auto
      then show ?thesis using False None t nf cs(1) len by (cases st) (simp add: recognize_def try_shorts_def)
    next
      case (Some p)
      then obtain o' rest where e: "expand ?opts ign (drop 1 t) ts = Some (o', rest)" by (cases p) simp
      with sp obtain used argv' where s: "split_shorts m ?opts (drop 1 t) ?args ign = Some (OCOMS_SUCCESS, used, int (length o'), argv')"
        "used \<le> length ts" "rest = drop used ts" "argv_rep argv' o'" by auto
      obtain c cs' where c: "drop 1 t = c # cs'" using False by (cases "drop 1 t") auto
      with e expand_nonempty obtain out where o': "o' = [CHR ''-'', c] # out" by metis
      have first: "argv_at argv' 0 = Some [CHR ''-'', c]" using argv_at_ok [OF s(4), of 0] o' by simp
      show ?thesis
      proof (cases "find_option ?opts [c]")
        case None
        then show ?thesis using e c o' t nf cs(1) len s(1) first by (simp add: recognize_def try_shorts_def)
      next
        case (Some k)
        have rec: "recognize ?opts ign t ts = Some (k, [CHR ''-'', c], out @ rest)"
          using e c o' t nf Some by (simp add: recognize_def)
        have "int used \<le> int (length ts)" using s(2) by simp
        then have num: "?i + (1 + int used) \<le> INT_MAX" using small by simp
        have "argv_mem_ok m" using m by (simp add: mem_fine_def)
        from delete_ok [OF cs(2) this, of ?i "1 + int used" "lcl_argc cmd"] num small argc \<open>int used \<le> int (length ts)\<close>
        obtain cs1 where d: "ocoms_argv_delete m (lcl_argc cmd) (Some cs) ?i (1 + int used)
            = Some (OCOMS_SUCCESS, lcl_argc cmd - (1 + int used), Some cs1)"
          "represents cs1 (take (nat ?i) (done @ t # ts) @ drop (nat (?i + (1 + int used))) (done @ t # ts))"
          by (auto simp: INT_MIN_def)
        have "nat (?i + (1 + int used)) = length (done @ [t]) + used" by simp
        then have "drop (nat (?i + (1 + int used))) ((done @ [t]) @ ts) = drop used ts" by (simp only: drop_append) simp
        then have r1: "represents cs1 (done @ rest)" using d(2) s(3) by simp
        obtain scs where scs: "argv' = Some scs" "represents scs o'" using s(4) o' by (cases argv') simp_all
        have "length (done @ rest) + length o' \<le> length done + weights ?opts (t # ts)"
          using recognize_weights [OF rec t(1)] length_weights [of "o' @ rest" ?opts] o' by simp
        then have big: "int (length (done @ rest)) + int (length o') + 2 \<le> INT_MAX" using room by (simp add: parse_room_def)
        have "mem_fine m" by fact
        then have mm: "argv_mem_ok m" "argv_mem_total m" by (simp_all add: mem_fine_def)
        from insert_ok [OF r1 scs(2) mm, of ?i] big obtain r where
          ins: "ocoms_argv_insert m (Some cs1) ?i (Some scs) = Some (OCOMS_SUCCESS, r)" "argv_rep r (done @ o' @ rest)" by auto
        have cntr: "ocoms_argv_count r = Some (int (length (done @ o' @ rest)))"
          using ins(2) big by (intro argv_count_ok) simp_all
        have "try_shorts m ign cmd ?i t = Some (Some k, cmd\<lparr>lcl_argc := int (length (done @ o' @ rest)), lcl_argv := r\<rparr>)"
          unfolding try_shorts_def using cs(1) len s(1) first Some d(1) ins(1) cntr scs(1) by simp
        then show ?thesis unfolding rec using ins(2) o' by auto
      qed
    qed
  qed
qed

definition parsing :: "ocoms_cmd_line_t \<Rightarrow> string list \<Rightarrow> bool" where
  "parsing cmd xs \<longleftrightarrow> argv_rep (lcl_argv cmd) xs \<and> lcl_argc cmd = int (length xs) \<and>
     lcl_tail_argv cmd = None \<and> lcl_tail_argc cmd = 0"

fun param_rep :: "ocoms_cmd_line_param_t \<Rightarrow> cmd_use \<Rightarrow> bool" where
  "param_rep p (a, k, args) \<longleftrightarrow> clp_arg p = a \<and> clp_option p = k \<and> clp_argc p = int (length args) \<and> argv_rep (clp_argv p) args"

definition parsed :: "ocoms_cmd_line_option_t list \<Rightarrow> ocoms_cmd_line_t \<Rightarrow> string list \<Rightarrow> cmd_use list \<Rightarrow> string list \<Rightarrow> bool" where
  "parsed opts cmd xs uses tail \<longleftrightarrow> lcl_options cmd = opts \<and> argv_rep (lcl_argv cmd) xs \<and> lcl_argc cmd = int (length xs) \<and>
     list_all2 param_rep (lcl_params cmd) uses \<and> argv_rep (lcl_tail_argv cmd) tail \<and> lcl_tail_argc cmd = int (length tail)"

lemma parse_room_le:
  "parse_room opts n xs \<Longrightarrow> n' + weights opts ys \<le> n + weights opts xs \<Longrightarrow> parse_room opts n' ys"
  by (simp add: parse_room_def)

lemma parse_room_length: "parse_room opts n xs \<Longrightarrow> int (n + length xs) + 2 \<le> INT_MAX"
  using length_weights [of xs opts] by (simp add: parse_room_def)

lemma copy_tail_parsed:
  assumes "mem_fine m" and "parsing cmd xs" and "i \<le> length xs" and "int (length xs) + 2 \<le> INT_MAX"
    and "list_all2 param_rep (lcl_params cmd) us"
  shows "\<exists>cmd'. copy_to_tail m (int i) cmd = Some cmd' \<and> lcl_argc cmd' = lcl_argc cmd \<and>
     parsed (lcl_options cmd) cmd' xs us (drop i xs)"
  using copy_to_tail_ok [OF assms(1), of cmd xs i] assms by (auto simp: parsing_def parsed_def)

lemma loop_end: "i \<ge> lcl_argc cmd \<Longrightarrow>
   parse_loop m o' ign cmd i pr w = Some (if pr then OCOMS_ERR_SILENT else OCOMS_SUCCESS, cmd, w)"
  by (subst parse_loop.simps) simp

text \<open>An option that has been recognised, against the reference.\<close>

lemma handle_option_ok:
  fixes opts
  defines "opt k \<equiv> opts ! k"
  assumes m: "mem_fine m" and opts: "lcl_options cmd = opts" "k < length opts"
    and st: "parsing cmd (done @ t # ts)" and us: "list_all2 param_rep (lcl_params cmd) us"
    and room: "int (length (done @ t # ts)) + 2 \<le> INT_MAX"
  shows
   "grab_params m (opt k) 0 (num_params (opt k)) [] ts w = (Bad ret, w1) \<Longrightarrow>
      handle_option m True cmd k (int (length done)) pr w = Some (Return ret, cmd, w1)"
   "grab_params m (opt k) 0 (num_params (opt k)) [] ts w = (Freed_twice, w1) \<Longrightarrow>
      handle_option m True cmd k (int (length done)) pr w = None"
   "grab_params m (opt k) 0 (num_params (opt k)) [] ts w = (Ran_out rest, w1) \<Longrightarrow>
      \<exists>cmd'. handle_option m True cmd k (int (length done)) pr w = Some (Next (lcl_argc cmd) True, cmd', w1) \<and>
        lcl_argc cmd' = lcl_argc cmd \<and> parsed opts cmd' (done @ t # ts) us rest"
   "grab_params m (opt k) 0 (num_params (opt k)) [] ts w = (Got args rest, w1) \<Longrightarrow>
      (if clo_num_params (opt k) = 0 then set_dest m (opt k) ''1'' w1 else (OCOMS_SUCCESS, w1)) = (ret, w2) \<Longrightarrow>
      (if ret \<noteq> OCOMS_SUCCESS then handle_option m True cmd k (int (length done)) pr w = Some (Return ret, cmd, w2)
       else \<exists>p. handle_option m True cmd k (int (length done)) pr w =
          Some (Next (int (length done + 1 + num_params (opt k))) pr, cmd\<lparr>lcl_params := lcl_params cmd @ [p]\<rparr>, w2) \<and>
          param_rep p (if ts = [] then None else Some (hd ts), k, args))"
proof -
  let ?xs = "done @ t # ts" and ?i = "length done + 1"
  obtain cs where cs: "lcl_argv cmd = Some cs" "represents cs ?xs" using st by (cases "lcl_argv cmd") (simp_all add: parsing_def)
  have ac: "lcl_argc cmd = int (length ?xs)" "argv_rep (lcl_argv cmd) ?xs" using st by (simp_all add: parsing_def)
  have arg: "rd cs (int (length done) + 1) = Some (if ts = [] then None else Some (hd ts))"
  proof -
    have "represents (drop ?i cs) ts" using cs(2) by (intro represents_suffix [of cs "done @ [t]"]) simp_all
    then have r: "?i < length cs" "cs ! ?i = (if ts = [] then None else Some (hd ts))"
      by (auto simp: represents_def hd_conv_nth elim: allE [of _ 0])
    then show ?thesis by (auto simp: rd_def nat_add_distrib)
  qed
  have opt: "rdn (lcl_options cmd) k = Some (opt k)" using opts by (simp add: opt_def)
  have i: "?i \<le> length ?xs" "int (length ([] :: string list) + (length ?xs - ?i)) + 2 \<le> INT_MAX" using room by simp_all
  have d: "drop ?i ?xs = ts" by simp
  have z: "argv_rep None []" "0 = int (length ([] :: string list))" "(None = (None :: cells option)) = (([] :: string list) = [])" by simp_all
  have tp: "params_match ?xs (?i + num_params (opt k)) (grab_params m (opt k) 0 (num_params (opt k)) [] ts w)
     (take_params m cmd (opt k) 0 (num_params (opt k)) (int (length done) + 1) 0 None w)"
    using take_params_ok [OF m ac(2,1) i(1) z(1,2) i(2) z(3), of "num_params (opt k)" "opt k" 0 w] unfolding d by (simp add: add.commute)
  show "handle_option m True cmd k (int (length done)) pr w = Some (Return ret, cmd, w1)"
    if "grab_params m (opt k) 0 (num_params (opt k)) [] ts w = (Bad ret, w1)"
    using tp opt cs(1) arg unfolding that by (simp add: handle_option_def)
  show "handle_option m True cmd k (int (length done)) pr w = None"
    if "grab_params m (opt k) 0 (num_params (opt k)) [] ts w = (Freed_twice, w1)"
    using tp opt cs(1) arg unfolding that by (simp add: handle_option_def)
  show "\<exists>cmd'. handle_option m True cmd k (int (length done)) pr w = Some (Next (lcl_argc cmd) True, cmd', w1) \<and>
        lcl_argc cmd' = lcl_argc cmd \<and> parsed opts cmd' ?xs us rest"
    if "grab_params m (opt k) 0 (num_params (opt k)) [] ts w = (Ran_out rest, w1)"
  proof -
    from tp that obtain i' where i': "take_params m cmd (opt k) 0 (num_params (opt k)) (int (length done) + 1) 0 None w
      = Some (Params_error (int i'), w1)" "i' \<le> length ?xs" "rest = drop i' ?xs" by auto
    from copy_tail_parsed [OF m st i'(2) room us] show ?thesis
      using i' opt cs(1) arg opts by (auto simp: handle_option_def)
  qed
  show "if ret \<noteq> OCOMS_SUCCESS then handle_option m True cmd k (int (length done)) pr w = Some (Return ret, cmd, w2)
       else \<exists>p. handle_option m True cmd k (int (length done)) pr w =
          Some (Next (int (length done + 1 + num_params (opt k))) pr, cmd\<lparr>lcl_params := lcl_params cmd @ [p]\<rparr>, w2) \<and>
          param_rep p (if ts = [] then None else Some (hd ts), k, args)"
    if g: "grab_params m (opt k) 0 (num_params (opt k)) [] ts w = (Got args rest, w1)"
      and sd: "(if clo_num_params (opt k) = 0 then set_dest m (opt k) ''1'' w1 else (OCOMS_SUCCESS, w1)) = (ret, w2)"
  proof -
    from tp g obtain a where a: "take_params m cmd (opt k) 0 (num_params (opt k)) (int (length done) + 1) 0 None w
      = Some (Params_done (int (?i + num_params (opt k))) (int (length args)) a, w1)" "argv_rep a args" by auto
    let ?p = "\<lparr>clp_arg = if ts = [] then None else Some (hd ts), clp_option = k, clp_argc = int (length args), clp_argv = a\<rparr>"
    have "handle_option m True cmd k (int (length done)) pr w = (if ret \<noteq> OCOMS_SUCCESS then Some (Return ret, cmd, w2)
             else Some (Next (int (?i + num_params (opt k))) pr, cmd\<lparr>lcl_params := lcl_params cmd @ [?p]\<rparr>, w2))"
      using a(1) opt cs(1) arg sd by (simp add: handle_option_def Let_def del: of_nat_add)
    moreover have "param_rep ?p (if ts = [] then None else Some (hd ts), k, args)" using a(2) by simp
    ultimately show ?thesis by (cases "ret = OCOMS_SUCCESS") (simp_all only: simp_thms if_True if_False, blast)
  qed
qed

lemma spec_consumed:
  assumes "recognize opts ign t ts = Some (k, t', ts')" and "take 1 t = ''-''"
    and "grab_params m opt j n [] ts' w = (Got args rest, w')" and "parse_room opts d (t # ts)"
  shows "parse_room opts (d + 1 + n) rest"
proof (rule parse_room_le [OF assms(4)])
  have g: "n \<le> length ts'" "rest = drop n ts'" using grab_suffix [OF assms(3)] by simp_all
  have "n \<le> weights opts (take n ts')" using length_weights [of "take n ts'" opts] g(1) by simp
  moreover have "weights opts (take n ts') + weights opts (drop n ts') = weights opts ts'"
    by (metis append_take_drop_id weights_simps(3))
  moreover have "weights opts (t' # ts') \<le> weights opts (t # ts)" using recognize_weights [OF assms(1,2)] by simp
  ultimately show "d + 1 + n + weights opts rest \<le> d + weights opts (t # ts)"
    unfolding g(2) weights_simps using weight_pos(2) [of opts t'] by linarith
qed


lemma not_option_token: "recognize opts ign t ts = Some r \<Longrightarrow> take 2 t = ''--'' \<Longrightarrow>
   \<exists>k. r = (k, t, ts) \<and> find_option opts (drop 2 t) = Some k"
  by (auto simp: recognize_def)

text \<open>One step on an option token, whichever way it was recognised.\<close>

lemma parse_step_option:
  assumes m: "mem_fine m" and st: "parsing cmd (done @ t # ts)" and t: "take 1 t = ''-''" "t \<noteq> ''--''"
    and room: "parse_room (lcl_options cmd) (length done) (t # ts)"
  shows "case recognize (lcl_options cmd) ign t ts of
      None \<Rightarrow> parse_step m True ign cmd (int (length done)) pr w = handle_unknown m ign cmd True (int (length done)) pr w
    | Some (k, t', ts') \<Rightarrow> \<exists>cmd1. lcl_options cmd1 = lcl_options cmd \<and> lcl_params cmd1 = lcl_params cmd \<and>
        parsing cmd1 (done @ t' # ts') \<and>
        parse_step m True ign cmd (int (length done)) pr w = handle_option m True cmd1 k (int (length done)) pr w"
proof -
  have st': "argv_rep (lcl_argv cmd) (done @ t # ts)" "lcl_argc cmd = int (length (done @ t # ts))"
    "lcl_tail_argv cmd = None" "lcl_tail_argc cmd = 0" using st by (simp_all add: parsing_def)
  have at: "argv_at (lcl_argv cmd) (int (length done)) = Some t"
    using argv_at_ok [OF st'(1), of "length done"] by simp
  show ?thesis
  proof (cases "take 2 t = ''--''")
    case True
    show ?thesis
    proof (cases "find_option (lcl_options cmd) (drop 2 t)")
      case None
      then show ?thesis using at t True by (simp add: parse_step_def recognize_def)
    next
      case (Some k)
      then have "parse_step m True ign cmd (int (length done)) pr w = handle_option m True cmd k (int (length done)) pr w"
        using at t True by (simp add: parse_step_def)
      then show ?thesis using Some st True by (auto simp: recognize_def)
    qed
  next
    case nl: False
    show ?thesis
    proof (cases "find_option (lcl_options cmd) (drop 1 t)")
      case (Some k)
      then have "parse_step m True ign cmd (int (length done)) pr w = handle_option m True cmd k (int (length done)) pr w"
        using at t nl by (simp add: parse_step_def)
      then show ?thesis using Some st nl by (auto simp: recognize_def)
    next
      case None
      note ts = try_shorts_ok [OF m st'(1,2) t(1) nl None room, of ign]
      show ?thesis
      proof (cases "recognize (lcl_options cmd) ign t ts")
        case rn: None
        then show ?thesis using ts at t nl None by (simp add: parse_step_def)
      next
        case (Some r)
        obtain k t' ts' where r: "r = (k, t', ts')" by (cases r)
        from ts Some r obtain a where a: "try_shorts m ign cmd (int (length done)) t =
          Some (Some k, cmd\<lparr>lcl_argc := int (length (done @ t' # ts')), lcl_argv := a\<rparr>)" "argv_rep a (done @ t' # ts')" by auto
        let ?cmd1 = "cmd\<lparr>lcl_argc := int (length (done @ t' # ts')), lcl_argv := a\<rparr>"
        have "parse_step m True ign cmd (int (length done)) pr w = handle_option m True ?cmd1 k (int (length done)) pr w"
          using a(1) at t nl None by (simp add: parse_step_def del: length_append)
        moreover have "parsing ?cmd1 (done @ t' # ts')" using a(2) st'(3,4) by (simp add: parsing_def)
        ultimately show ?thesis unfolding Some r prod.case option.case by (intro exI [of _ ?cmd1]) simp
      qed
    qed
  qed
qed

lemma loop_step: "i < lcl_argc cmd \<Longrightarrow> parse_step m o' ign cmd i pr w = Some (e, cmd', w') \<Longrightarrow>
   parse_loop m o' ign cmd i pr w = (case e of Return ret \<Rightarrow> Some (ret, cmd', w')
     | Next i' pr' \<Rightarrow> parse_loop m o' ign cmd' i' pr' w')"
  by (subst parse_loop.simps) simp

lemma tail_step:
  assumes "mem_fine m" and "parsing cmd (done @ t # ts)" and "i \<le> length (done @ t # ts)"
    and "parse_room (lcl_options cmd) (length done) (t # ts)" and us: "list_all2 param_rep (lcl_params cmd) us"
    and step: "\<And>cmd'. copy_to_tail m (int i) cmd = Some cmd' \<Longrightarrow>
       parse_step m True ign cmd (int (length done)) False w = Some (Next (lcl_argc cmd) pr, cmd', w)"
  shows "\<exists>cmd'. parse_loop m True ign cmd (int (length done)) False w = Some (if pr then OCOMS_ERR_SILENT else OCOMS_SUCCESS, cmd', w) \<and>
     parsed (lcl_options cmd) cmd' (done @ t # ts) us (drop i (done @ t # ts))"
proof -
  have room: "int (length (done @ t # ts)) + 2 \<le> INT_MAX" using parse_room_length [OF assms(4)] by simp
  from copy_tail_parsed [OF assms(1,2,3) room us] obtain cmd' where
    c: "copy_to_tail m (int i) cmd = Some cmd'" "lcl_argc cmd' = lcl_argc cmd" "parsed (lcl_options cmd) cmd' (done @ t # ts) us (drop i (done @ t # ts))"
    by blast
  have "int (length done) < lcl_argc cmd" using assms(2) by (simp add: parsing_def)
  from loop_step [OF this step [OF c(1)]] loop_end [of cmd' "lcl_argc cmd"] c(2,3) show ?thesis by simp
qed

lemma loop_crash: "i < lcl_argc cmd \<Longrightarrow> parse_step m o' ign cmd i pr w = None \<Longrightarrow> parse_loop m o' ign cmd i pr w = None"
  by (subst parse_loop.simps) simp

lemma parse_loop_ok:
  "mem_fine m \<Longrightarrow> parse_spec m opts ign toks w = res \<Longrightarrow> lcl_options cmd = opts \<Longrightarrow> parsing cmd (done @ toks) \<Longrightarrow>
    list_all2 param_rep (lcl_params cmd) us \<Longrightarrow> parse_room opts (length done) toks \<Longrightarrow>
    (case res of None \<Rightarrow> parse_loop m True ign cmd (int (length done)) False w = None
     | Some (rc, uses, tail, av, w') \<Rightarrow>
         \<exists>cmd'. parse_loop m True ign cmd (int (length done)) False w = Some (rc, cmd', w') \<and> parsed opts cmd' (done @ av) (us @ uses) tail)"
proof (induction m opts ign toks w arbitrary: res cmd us "done" rule: parse_spec.induct)
  case (1 m opts ign w)
  then show ?case using loop_end [of cmd "int (length done)"] by (auto simp: parsing_def parsed_def)
next
  case (2 m opts ign t ts w)
  note m = 2(2) and spec = 2(3) and lo = 2(4) and st = 2(5) and us = 2(6) and room = 2(7)
  have at: "argv_at (lcl_argv cmd) (int (length done)) = Some t"
    using argv_at_ok [of "lcl_argv cmd" "done @ t # ts" "length done"] st by (simp add: parsing_def)
  have lt: "int (length done) < lcl_argc cmd" using st by (simp add: parsing_def)
  show ?case
  proof (cases "t = ''--''")
    case True
    have "\<exists>cmd'. parse_loop m True ign cmd (int (length done)) False w = Some (if False then OCOMS_ERR_SILENT else OCOMS_SUCCESS, cmd', w) \<and>
      parsed (lcl_options cmd) cmd' (done @ t # ts) us (drop (length done + 1) (done @ t # ts))"
      using True at by (intro tail_step [OF m st _ room [folded lo] us]) (simp_all add: parse_step_def add.commute)
    then show ?thesis using spec True lo by (auto simp: parse_spec.simps(2))
  next
    case nt: False
    show ?thesis
    proof (cases "take 1 t = ''-''")
      case False
      have "\<exists>cmd'. parse_loop m True ign cmd (int (length done)) False w = Some (if \<not> ign then OCOMS_ERR_SILENT else OCOMS_SUCCESS, cmd', w) \<and>
        parsed (lcl_options cmd) cmd' (done @ t # ts) us (drop (length done) (done @ t # ts))"
        using False nt at by (intro tail_step [OF m st _ room [folded lo] us]) (simp_all add: parse_step_def handle_unknown_def)
      then show ?thesis using spec False nt lo by (auto simp: parse_spec.simps(2) split: if_splits)
    next
      case d: True
      note ps = parse_step_option [OF m st d nt room [folded lo], of ign False w]
      show ?thesis
      proof (cases "recognize opts ign t ts")
        case None
        have "\<exists>cmd'. parse_loop m True ign cmd (int (length done)) False w = Some (if True then OCOMS_ERR_SILENT else OCOMS_SUCCESS, cmd', w) \<and>
          parsed (lcl_options cmd) cmd' (done @ t # ts) us (drop (length done) (done @ t # ts))"
          using ps None lo by (intro tail_step [OF m st _ room [folded lo] us]) (simp_all add: handle_unknown_def)
        then show ?thesis using spec None d nt lo by (auto simp: parse_spec.simps(2))
      next
        case (Some r)
        obtain k t' ts' where r: "r = (k, t', ts')" by (cases r)
        note rec = Some [unfolded r]
        from ps rec lo obtain cmd1 where c1: "lcl_options cmd1 = opts" "lcl_params cmd1 = lcl_params cmd" "parsing cmd1 (done @ t' # ts')"
          "parse_step m True ign cmd (int (length done)) False w = handle_option m True cmd1 k (int (length done)) False w" by auto
        let ?opt = "opts ! k"
        have k: "k < length opts" using recognize_weights [OF rec d] by simp
        have room1: "parse_room opts (length done) (t' # ts')"
          using recognize_weights [OF rec d] room by (intro parse_room_le [OF room]) simp
        have us1: "list_all2 param_rep (lcl_params cmd1) us" using us c1(2) by simp
        have len: "int (length (done @ t' # ts')) + 2 \<le> INT_MAX" using parse_room_length [OF room1] by simp
        note ho = handle_option_ok [OF m c1(1) k c1(3) us1 len, where w = w and pr = False]
        have ac1: "lcl_argc cmd1 = int (length (done @ t' # ts'))" using c1(3) by (simp add: parsing_def)
        have stay: "parsed opts cmd1 (done @ t' # ts') us []" using c1 us1 by (simp add: parsing_def parsed_def)
        obtain g w1 where g: "grab_params m ?opt 0 (num_params ?opt) [] ts' w = (g, w1)" by (cases "grab_params m ?opt 0 (num_params ?opt) [] ts' w")
        show ?thesis
        proof (cases g)
          case (Bad ret)
          then have "parse_loop m True ign cmd (int (length done)) False w = Some (ret, cmd1, w1)"
            using ho(1) g loop_step [OF lt c1(4) [THEN trans]] by simp
          then show ?thesis using spec Bad g d nt rec stay by (auto simp: parse_spec.simps(2) Let_def)
        next
          case Freed_twice
          then have "parse_loop m True ign cmd (int (length done)) False w = None"
            using ho(2) g c1(4) by (intro loop_crash [OF lt]) simp
          then show ?thesis using spec Freed_twice g d nt rec by (auto simp: parse_spec.simps(2) Let_def)
        next
          case (Ran_out rest)
          with ho(3) g obtain cmd' where "handle_option m True cmd1 k (int (length done)) False w = Some (Next (lcl_argc cmd1) True, cmd', w1)"
            "lcl_argc cmd' = lcl_argc cmd1" "parsed opts cmd' (done @ t' # ts') us rest" by blast
          moreover from this have "parse_loop m True ign cmd (int (length done)) False w = Some (OCOMS_ERR_SILENT, cmd', w1)"
            using loop_step [OF lt c1(4) [THEN trans]] loop_end [of cmd' "lcl_argc cmd1"] by simp
          ultimately show ?thesis using spec Ran_out g d nt rec by (auto simp: parse_spec.simps(2) Let_def)
        next
          case (Got args rest)
          obtain ret w2 where sd: "(if clo_num_params ?opt = 0 then set_dest m ?opt ''1'' w1 else (OCOMS_SUCCESS, w1)) = (ret, w2)"
            by (cases "if clo_num_params ?opt = 0 then set_dest m ?opt ''1'' w1 else (OCOMS_SUCCESS, w1)")
          note ho3 = ho(4) [OF g [unfolded Got] sd]
          show ?thesis
          proof (cases "ret = OCOMS_SUCCESS")
            case False
            then have "parse_loop m True ign cmd (int (length done)) False w = Some (ret, cmd1, w2)"
              using ho3 loop_step [OF lt c1(4) [THEN trans]] by simp
            then show ?thesis using spec Got g d nt rec stay sd False by (auto simp: parse_spec.simps(2) Let_def)
          next
            case True
            let ?n = "num_params ?opt" and ?a = "if ts' = [] then None else Some (hd ts')"
            from ho3 True obtain p where p: "handle_option m True cmd1 k (int (length done)) False w =
              Some (Next (int (length done + 1 + ?n)) False, cmd1\<lparr>lcl_params := lcl_params cmd1 @ [p]\<rparr>, w2)"
              "param_rep p (?a, k, args)" by auto
            let ?cmd2 = "cmd1\<lparr>lcl_params := lcl_params cmd1 @ [p]\<rparr>" and ?done = "done @ t' # take ?n ts'"
            define res1 where "res1 = parse_spec m opts ign rest w2"
            have out: "res = map_option (\<lambda>(rc, uses, tail, av, w3). (rc, (?a, k, args) # uses, tail, t' # take ?n ts' @ av, w3)) res1"
              using spec Got g d nt rec sd True by (simp add: parse_spec.simps(2) Let_def res1_def)
            have gs: "?n \<le> length ts'" "rest = drop ?n ts'" using grab_suffix [OF g [unfolded Got]] by simp_all
            have all: "?done @ rest = done @ t' # ts'" and ld: "length ?done = length done + 1 + ?n" using gs by simp_all
            have pa: "parsing ?cmd2 (?done @ rest)" using c1(3) unfolding all by (simp add: parsing_def)
            have la: "list_all2 param_rep (lcl_params ?cmd2) (us @ [(?a, k, args)])" using us1 p(2) by (simp add: list_all2_appendI)
            have pr: "parse_room opts (length ?done) rest"
              unfolding ld by (rule spec_consumed [OF rec d g [unfolded Got] room])
            have "lcl_options ?cmd2 = opts" using c1(1) by simp
            from 2(1) [OF nt _ rec refl refl refl refl g [symmetric, unfolded Got] refl sd [symmetric] refl _ m res1_def [symmetric] this pa la pr] d True
            have IH: "case res1 of None \<Rightarrow> parse_loop m True ign ?cmd2 (int (length ?done)) False w2 = None
              | Some (rc, uses, tail, av, w') \<Rightarrow> \<exists>cmd'. parse_loop m True ign ?cmd2 (int (length ?done)) False w2 = Some (rc, cmd', w') \<and>
                  parsed opts cmd' (?done @ av) ((us @ [(?a, k, args)]) @ uses) tail" by blast
            have "parse_loop m True ign cmd (int (length done)) False w = parse_loop m True ign ?cmd2 (int (length ?done)) False w2"
              using p(1) loop_step [OF lt c1(4) [THEN trans]] unfolding ld by simp
            note step = this
            show ?thesis
            proof (cases res1)
              case None
              then show ?thesis using IH step out by simp
            next
              case (Some r1)
              obtain rc1 uses1 tail1 av1 w3 where r1: "r1 = (rc1, uses1, tail1, av1, w3)" by (rule prod_cases5)
              from IH obtain cmd' where "parse_loop m True ign ?cmd2 (int (length ?done)) False w2 = Some (rc1, cmd', w3)"
                "parsed opts cmd' (?done @ av1) ((us @ [(?a, k, args)]) @ uses1) tail1" unfolding Some r1 option.case prod.case by blast
              then show ?thesis using step unfolding out Some r1 by simp
            qed
          qed
        qed
      qed
    qed
  qed
qed

section \<open>Properties\<close>

lemma parse_ok:
  assumes m: "mem_fine m" and cs: "represents cs (prog # toks)" and room: "parse_room (lcl_options cmd) 1 toks"
  shows "case parse_spec m (lcl_options cmd) ign toks w of
       None \<Rightarrow> ocoms_cmd_line_parse m True cmd ign (int (length (prog # toks))) (Some cs) w = None
     | Some (rc, uses, tail, av, w') \<Rightarrow>
         \<exists>cmd'. ocoms_cmd_line_parse m True cmd ign (int (length (prog # toks))) (Some cs) w = Some (rc, cmd', w') \<and>
           parsed (lcl_options cmd) cmd' (prog # av) uses tail"
proof -
  from copy_fine [OF m cs] parse_room_length [OF room] obtain a where
    a: "ocoms_argv_copy m (Some cs) = Some a" "argv_rep a (prog # toks)" by auto
  let ?cmd = "(free_parse_results cmd)\<lparr>lcl_argc := int (length (prog # toks)), lcl_argv := a\<rparr>"
  have "lcl_options ?cmd = lcl_options cmd" "parsing ?cmd ([prog] @ toks)" "list_all2 param_rep (lcl_params ?cmd) []"
    "parse_room (lcl_options cmd) (length [prog]) toks"
    using a(2) room by (simp_all add: free_parse_results_def parsing_def)
  from parse_loop_ok [OF m refl this, of ign w] show ?thesis using a(1) by (auto simp: ocoms_cmd_line_parse_def split: option.splits)
qed

lemma parse_ok_Some:
  assumes "mem_fine m" and "represents cs (prog # toks)" and "parse_room (lcl_options cmd) 1 toks"
    and "parse_spec m (lcl_options cmd) ign toks w = Some (rc, uses, tail, av, w')"
  shows "\<exists>cmd'. ocoms_cmd_line_parse m True cmd ign (int (length (prog # toks))) (Some cs) w = Some (rc, cmd', w') \<and>
     parsed (lcl_options cmd) cmd' (prog # av) uses tail"
  using parse_ok [OF assms(1-3), of ign w] assms(4) by simp

text \<open>A use of an option: a token that names it directly, and its arguments.\<close>

definition names_option :: "ocoms_cmd_line_option_t list \<Rightarrow> string \<Rightarrow> nat \<Rightarrow> bool" where
  "names_option opts t k \<longleftrightarrow> take 1 t = ''-'' \<and> t \<noteq> ''--'' \<and>
     find_option opts (if take 2 t = ''--'' then drop 2 t else drop 1 t) = Some k"

definition plain_use :: "ocoms_cmd_line_option_t list \<Rightarrow> string \<times> nat \<times> string list \<Rightarrow> bool" where
  "plain_use opts = (\<lambda>(t, k, args). names_option opts t k \<and> int (length args) = clo_num_params (opts ! k) \<and>
     special_empty_token \<notin> set args \<and> clo_mca_param_env_var (opts ! k) = None \<and> clo_variable_dest (opts ! k) = None)"

definition use_tokens :: "(string \<times> nat \<times> string list) list \<Rightarrow> string list" where
  "use_tokens us = concat (map (\<lambda>(t, k, args). t # args) us)"

lemma use_tokens_simps [simp]: "use_tokens [] = []" "use_tokens ((t, k, args) # us) = t # args @ use_tokens us"
  by (simp_all add: use_tokens_def)

lemma grab_plain:
  assumes "clo_mca_param_env_var opt = None" and "clo_variable_dest opt = None"
  shows "special_empty_token \<notin> set args \<Longrightarrow> grab_params m opt j (length args) acc (args @ rest) w = (Got (acc @ args) rest, w)"
  by (induction args arbitrary: j acc) (use assms in auto)

lemma set_dest_plain: "clo_mca_param_env_var opt = None \<Longrightarrow> clo_variable_dest opt = None \<Longrightarrow> set_dest m opt s w = (OCOMS_SUCCESS, w)"
  by (simp add: set_dest_def Let_def)

lemma recognize_named: "names_option opts t k \<Longrightarrow> recognize opts ign t ts = Some (k, t, ts)"
  by (auto simp: names_option_def recognize_def split: if_splits)

lemma spec_uses:
  assumes "\<forall>u \<in> set us. plain_use opts u" and "parse_spec m opts ign rest w = Some (rc, uses, tail, av, w')"
  shows "\<exists>uses'. parse_spec m opts ign (use_tokens us @ rest) w = Some (rc, uses' @ uses, tail, use_tokens us @ av, w') \<and>
     map snd uses' = map snd us"
  using assms(1)
proof (induction us)
  case Nil
  then show ?case using assms(2) by simp
next
  case (Cons u us)
  obtain t k args where u: "u = (t, k, args)" by (cases u)
  with Cons.prems have p: "names_option opts t k" "int (length args) = clo_num_params (opts ! k)" "special_empty_token \<notin> set args"
    "clo_mca_param_env_var (opts ! k) = None" "clo_variable_dest (opts ! k) = None" by (auto simp: plain_use_def)
  from Cons obtain uses' where IH: "parse_spec m opts ign (use_tokens us @ rest) w = Some (rc, uses' @ uses, tail, use_tokens us @ av, w')"
    "map snd uses' = map snd us" by auto
  have n: "num_params (opts ! k) = length args" "clo_num_params (opts ! k) = 0 \<longleftrightarrow> args = []" using p(2) by auto
  have "take 1 t = ''-''" "t \<noteq> ''--''" using p(1) by (simp_all add: names_option_def)
  with IH recognize_named [OF p(1), of ign] grab_plain [OF p(4,5,3), of m 0 "[]" "use_tokens us @ rest" w]
    set_dest_plain [OF p(4,5)]
  show ?case unfolding u by (simp add: parse_spec.simps(2) Let_def n)
qed

text \<open>The queries after parsing, from the list of uses.\<close>

definition uses_of :: "cmd_use list \<Rightarrow> nat \<Rightarrow> string list list" where
  "uses_of uses k = map (\<lambda>u. snd (snd u)) (filter (\<lambda>u. fst (snd u) = k) uses)"

lemma ninsts_ok:
  assumes "parsed opts cmd xs uses tail" and "find_option opts name = Some k" and "int (length uses) \<le> INT_MAX"
  shows "ocoms_cmd_line_get_ninsts cmd name = Some (int (length (uses_of uses k)))"
proof -
  have a: "list_all2 param_rep (lcl_params cmd) uses" using assms(1) by (simp add: parsed_def)
  then have "length (filter (\<lambda>p. clp_option p = k) (lcl_params cmd)) = length (uses_of uses k)"
    unfolding uses_of_def by (induction rule: list_all2_induct) auto
  moreover have "length (uses_of uses k) \<le> length uses" by (simp add: uses_of_def)
  ultimately show ?thesis using assms by (simp add: ocoms_cmd_line_get_ninsts_def parsed_def INT_MIN_def)
qed

lemma get_param_loop_ok:
  assumes "list_all2 param_rep ps uses" and "inst < length (uses_of uses k)" and "idx < length (uses_of uses k ! inst)"
    and "int (n + length ps) \<le> INT_MAX"
  shows "get_param_loop ps k (int n) (int (n + inst)) (int idx) = Some (Some (uses_of uses k ! inst ! idx))"
  using assms
proof (induction arbitrary: n inst rule: list_all2_induct)
  case Nil
  then show ?case by (simp add: uses_of_def)
next
  case (Cons p ps u uses)
  obtain a k' args where u: "u = (a, k', args)" by (cases u)
  have p: "clp_option p = k'" "argv_rep (clp_argv p) args" using Cons.hyps(1) u by simp_all
  show ?case
  proof (cases "k' = k")
    case False
    then have e: "uses_of (u # uses) k = uses_of uses k" by (simp add: uses_of_def u)
    from Cons.IH [of inst n] Cons.prems False p(1) show ?thesis unfolding e by simp
  next
    case True
    then have e: "uses_of (u # uses) k = args # uses_of uses k" by (simp add: uses_of_def u)
    show ?thesis
    proof (cases inst)
      case 0
      then obtain cs where "clp_argv p = Some cs" "represents cs args" using p(2) Cons.prems(2) unfolding e by (cases "clp_argv p") auto
      with 0 Cons.prems(2) True p(1) show ?thesis unfolding e by (simp add: represents_def rd_def)
    next
      case (Suc i)
      have "int (Suc n + length ps) \<le> INT_MAX" using Cons.prems(3) by simp
      with Cons.IH [of i "Suc n"] Cons.prems(1,2) Suc have "get_param_loop ps k (int (Suc n)) (int (Suc n + i)) (int idx) = Some (Some (uses_of uses k ! i ! idx))"
        unfolding e by simp
      moreover have "chk (int n + 1) = Some (int (Suc n))" using Cons.prems(3) by (simp add: INT_MIN_def add.commute)
      ultimately show ?thesis using Suc True p(1) unfolding e by simp
    qed
  qed
qed

text \<open>
  C14: Parsing does what the reference parser on lists of strings does, for every argument vector that
  fits the counters and every combination of options.  Where the reference has a result, parsing
  terminates without undefined behaviour and leaves the options used, their arguments, the tail, the
  expanded argument vector, the variables set and the return code of the reference.  Where an empty token
  stands for a later parameter of an option whose first ones have been saved, the reference has no result
  and parsing frees the saved parameters twice.
\<close>

theorem parse_refines_reference:
  assumes "mem_fine m" and "represents cs (prog # toks)" and "parse_room (lcl_options cmd) 1 toks"
  shows "case parse_spec m (lcl_options cmd) ign toks w of
       None \<Rightarrow> ocoms_cmd_line_parse m True cmd ign (int (length (prog # toks))) (Some cs) w = None
     | Some (rc, uses, tail, av, w') \<Rightarrow>
         \<exists>cmd'. ocoms_cmd_line_parse m True cmd ign (int (length (prog # toks))) (Some cs) w = Some (rc, cmd', w') \<and>
           parsed (lcl_options cmd) cmd' (prog # av) uses tail"
  by (rule parse_ok [OF assms])

text \<open>
  C15: A command line written from a list of option uses, \<open>--\<close> and a tail is read back: parsing
  succeeds, each option is reported as often as it was used, \<open>ocoms_cmd_line_get_param\<close> returns
  every argument of every instance, and \<open>ocoms_cmd_line_get_tail\<close> the tail.
\<close>

theorem parse_reads_back:
  assumes m: "mem_fine m" and cs: "represents cs (prog # use_tokens us @ ''--'' # rest)"
    and uses: "\<forall>u \<in> set us. plain_use (lcl_options cmd) u"
    and room: "parse_room (lcl_options cmd) 1 (use_tokens us @ ''--'' # rest)"
  shows "\<exists>cmd'. ocoms_cmd_line_parse m True cmd ign (int (length (prog # use_tokens us @ ''--'' # rest))) (Some cs) w
      = Some (OCOMS_SUCCESS, cmd', w) \<and>
    (\<exists>t. ocoms_cmd_line_get_tail m (Some cmd') = Some (OCOMS_SUCCESS, Some (int (length rest), t)) \<and> argv_rep t rest) \<and>
    (\<forall>name k. find_option (lcl_options cmd) name = Some k \<longrightarrow>
      (let insts = map (\<lambda>(t, k, args). args) (filter (\<lambda>(t, k', args). k' = k) us) in
       ocoms_cmd_line_get_ninsts cmd' name = Some (int (length insts)) \<and>
       (\<forall>inst < length insts. \<forall>idx < nat (clo_num_params (lcl_options cmd ! k)).
          ocoms_cmd_line_get_param cmd' name (int inst) (int idx) = Some (Some (insts ! inst ! idx)))))"
proof -
  let ?opts = "lcl_options cmd" and ?toks = "use_tokens us @ ''--'' # rest"
  have "parse_spec m ?opts ign (''--'' # rest) w = Some (OCOMS_SUCCESS, [], rest, ''--'' # rest, w)"
    by (simp add: parse_spec.simps(2))
  from spec_uses [OF uses this] obtain uses' where
    sp: "parse_spec m ?opts ign ?toks w = Some (OCOMS_SUCCESS, uses', rest, ?toks, w)" "map snd uses' = map snd us" by auto
  from parse_ok_Some [OF m cs room sp(1)] obtain cmd' where
    p: "ocoms_cmd_line_parse m True cmd ign (int (length (prog # ?toks))) (Some cs) w = Some (OCOMS_SUCCESS, cmd', w)"
      "parsed ?opts cmd' (prog # ?toks) uses' rest" by blast
  have len: "int (1 + length ?toks) + 2 \<le> INT_MAX" by (rule parse_room_length [OF room])
  have lu: "length uses' = length us" using sp(2) by (metis length_map)
  have "length us \<le> length (use_tokens us)" by (induction us) auto
  then have luses: "int (length uses') \<le> INT_MAX" using len lu by simp
  have insts: "uses_of uses' k = map (\<lambda>(t, k, args). args) (filter (\<lambda>(t, k', args). k' = k) us)" for k
    using sp(2) unfolding uses_of_def
    by (induction uses' arbitrary: us) (auto simp: Cons_eq_map_conv split: prod.splits)
  have tail: "\<exists>t. ocoms_cmd_line_get_tail m (Some cmd') = Some (OCOMS_SUCCESS, Some (int (length rest), t)) \<and> argv_rep t rest"
  proof (cases "lcl_tail_argv cmd'")
    case None
    then show ?thesis using p(2) by (auto simp: ocoms_cmd_line_get_tail_def ocoms_argv_copy_def parsed_def)
  next
    case (Some tcs)
    then have "represents tcs rest" using p(2) by (simp add: parsed_def)
    from copy_fine [OF m this] len Some p(2) show ?thesis by (auto simp: ocoms_cmd_line_get_tail_def parsed_def)
  qed
  have par: "ocoms_cmd_line_get_param cmd' name (int inst) (int idx) = Some (Some (uses_of uses' k ! inst ! idx))"
    if f: "find_option ?opts name = Some k" and i: "inst < length (uses_of uses' k)" and n: "idx < nat (clo_num_params (?opts ! k))" for name k inst idx
  proof -
    have "uses_of uses' k ! inst \<in> set (uses_of uses' k)" using i by simp
    then obtain t where "(t, k, uses_of uses' k ! inst) \<in> set us" unfolding insts by auto
    with uses have "int (length (uses_of uses' k ! inst)) = clo_num_params (?opts ! k)" by (auto simp: plain_use_def)
    then have "idx < length (uses_of uses' k ! inst)" using n by simp
    moreover have a: "list_all2 param_rep (lcl_params cmd') uses'" "lcl_options cmd' = ?opts" using p(2) by (simp_all add: parsed_def)
    ultimately have "get_param_loop (lcl_params cmd') k (int 0) (int (0 + inst)) (int idx) = Some (Some (uses_of uses' k ! inst ! idx))"
      using luses list_all2_lengthD [OF a(1)] i by (intro get_param_loop_ok [OF a(1)]) simp_all
    then show ?thesis using f n a(2) by (simp add: ocoms_cmd_line_get_param_def)
  qed
  show ?thesis
    using p(1) tail par ninsts_ok [OF p(2) _ luses] unfolding insts [symmetric] Let_def by blast
qed

text \<open>An example: \<open>-v\<close> without parameter, \<open>--file\<close> with one, \<open>--num\<close> with an integer variable.\<close>

definition ex_options :: "ocoms_cmd_line_option_t list" where
  "ex_options =
     [\<lparr>clo_short_name = CHR ''v'', clo_single_dash_name = None, clo_long_name = None, clo_num_params = 0, clo_description = None,
       clo_type = OCOMS_CMD_LINE_TYPE_NULL, clo_mca_param_env_var = None, clo_variable_dest = None\<rparr>,
      \<lparr>clo_short_name = CHR ''f'', clo_single_dash_name = None, clo_long_name = Some ''file'', clo_num_params = 1, clo_description = None,
       clo_type = OCOMS_CMD_LINE_TYPE_NULL, clo_mca_param_env_var = None, clo_variable_dest = None\<rparr>,
      \<lparr>clo_short_name = CHR ''n'', clo_single_dash_name = None, clo_long_name = Some ''num'', clo_num_params = 1, clo_description = None,
       clo_type = OCOMS_CMD_LINE_TYPE_INT, clo_mca_param_env_var = None, clo_variable_dest = Some 0\<rparr>]"

definition ex_cmd :: ocoms_cmd_line_t where
  "ex_cmd = cmd_line_constructor\<lparr>lcl_options := ex_options\<rparr>"

definition ex_world :: cmd_world where
  "ex_world = \<lparr>env_puts = [], dests = (\<lambda>_. None)\<rparr>"

lemma mem_fine_always [simp]: "mem_fine mem_always"
  by (simp add: mem_fine_def)

lemma ex_cmd_options [simp]: "lcl_options ex_cmd = ex_options"
  by (simp add: ex_cmd_def)

lemma ex_max_params [simp]: "max_params ex_options = 1"
  by (simp add: ex_options_def max_params_def)

lemma represents_cells: "represents (map Some xs @ [None]) xs"
  by (simp add: represents_def nth_append)

definition ex_two :: ocoms_cmd_line_t where
  "ex_two = cmd_line_constructor\<lparr>lcl_options :=
     [\<lparr>clo_short_name = CHR ''n'', clo_single_dash_name = None, clo_long_name = None, clo_num_params = 2, clo_description = None,
       clo_type = OCOMS_CMD_LINE_TYPE_NULL, clo_mca_param_env_var = None, clo_variable_dest = None\<rparr>,
      \<lparr>clo_short_name = CHR ''q'', clo_single_dash_name = None, clo_long_name = None, clo_num_params = 0, clo_description = None,
       clo_type = OCOMS_CMD_LINE_TYPE_NULL, clo_mca_param_env_var = None, clo_variable_dest = None\<rparr>]\<rparr>"

text \<open>
  A line that is parsed, and \<open>-nq a\<close>, where \<open>n\<close> takes two parameters: the second is missing after the first
  has been saved.
\<close>

theorem parse_refines_reference_witness:
  "(\<exists>cmd'. ocoms_cmd_line_parse mem_always True ex_cmd True 4 (Some [Some ''x'', Some ''-vf'', Some ''a'', Some ''b'', None]) ex_world
      = Some (OCOMS_SUCCESS, cmd', ex_world) \<and>
    parsed ex_options cmd' [''x'', ''-v'', ''-f'', ''a'', ''b''] [(Some ''-f'', 0, []), (Some ''a'', 1, [''a''])] [''b'']) \<and>
   ocoms_cmd_line_parse mem_always True ex_two True 3 (Some [Some ''x'', Some ''-nq'', Some ''a'', None]) ex_world = None"
proof -
  have "parse_spec mem_always ex_options True [''-vf'', ''a'', ''b''] ex_world =
      Some (OCOMS_SUCCESS, [(Some ''-f'', 0, []), (Some ''a'', 1, [''a''])], [''b''], [''-v'', ''-f'', ''a'', ''b''], ex_world)"
    by (simp add: parse_spec.simps(2) recognize_def find_option_def ex_options_def option_matches_def Let_def
      special_empty_token_def set_dest_def)
  moreover have "parse_spec mem_always (lcl_options ex_two) True [''-nq'', ''a''] ex_world = None"
    by (simp add: parse_spec.simps(2) recognize_def find_option_def ex_two_def option_matches_def Let_def
      special_empty_token_def set_dest_def numeral_2_eq_2)
  moreover have "parse_room (lcl_options ex_two) 1 [''-nq'', ''a'']"
    by (simp add: parse_room_def weight_def INT_MAX_def ex_two_def max_params_def)
  ultimately show ?thesis
    using represents_cells [of "[''x'', ''-vf'', ''a'', ''b'']"] represents_cells [of "[''x'', ''-nq'', ''a'']"]
      parse_refines_reference [of mem_always "[Some ''x'', Some ''-vf'', Some ''a'', Some ''b'', None]" "''x''"
        "[''-vf'', ''a'', ''b'']" ex_cmd True ex_world]
      parse_refines_reference [of mem_always "[Some ''x'', Some ''-nq'', Some ''a'', None]" "''x''" "[''-nq'', ''a'']" ex_two True ex_world]
    by (simp add: parse_room_def weight_def INT_MAX_def)
qed

theorem parse_reads_back_witness:
  "\<exists>cmd'. ocoms_cmd_line_parse mem_always True ex_cmd False 6
      (Some [Some ''x'', Some ''--file'', Some ''a'', Some ''-v'', Some ''--'', Some ''b'', None]) ex_world
      = Some (OCOMS_SUCCESS, cmd', ex_world) \<and>
    ocoms_cmd_line_get_param cmd' ''file'' 0 0 = Some (Some ''a'')"
proof -
  have f: "find_option ex_options ''file'' = Some 1" by (simp add: find_option_def ex_options_def option_matches_def)
  have "\<forall>u \<in> set [(''--file'', 1, [''a'']), (''-v'', 0, [])]. plain_use ex_options u"
    by (simp add: plain_use_def names_option_def find_option_def ex_options_def option_matches_def special_empty_token_def)
  with parse_reads_back [of mem_always "[Some ''x'', Some ''--file'', Some ''a'', Some ''-v'', Some ''--'', Some ''b'', None]" "''x''"
    "[(''--file'', 1, [''a'']), (''-v'', 0, [])]" "[''b'']" ex_cmd False ex_world]
  obtain cmd' where "ocoms_cmd_line_parse mem_always True ex_cmd False 6
      (Some [Some ''x'', Some ''--file'', Some ''a'', Some ''-v'', Some ''--'', Some ''b'', None]) ex_world
      = Some (OCOMS_SUCCESS, cmd', ex_world)"
    and q: "\<forall>name k. find_option ex_options name = Some k \<longrightarrow>
      (let insts = map (\<lambda>(t, k, args). args) (filter (\<lambda>(t, k', args). k' = k) [(''--file'', 1, [''a'']), (''-v'', 0, [])]) in
       ocoms_cmd_line_get_ninsts cmd' name = Some (int (length insts)) \<and>
       (\<forall>inst < length insts. \<forall>idx < nat (clo_num_params (ex_options ! k)).
          ocoms_cmd_line_get_param cmd' name (int inst) (int idx) = Some (Some (insts ! inst ! idx))))"
    using represents_cells [of "[''x'', ''--file'', ''a'', ''-v'', ''--'', ''b'']"]
    by (auto simp: parse_room_def weight_def INT_MAX_def)
  moreover have "ocoms_cmd_line_get_param cmd' ''file'' 0 0 = Some (Some ''a'')"
    using q [rule_format, OF f] by (simp add: Let_def ex_options_def)
  ultimately show ?thesis by blast
qed

text \<open>
  A token of combined short options means what the separate options mean: parsing it and parsing
  the command line in which it is replaced by its letters, each followed by its parameters, both have
  undefined behaviour, or return the same code and leave the same argument vector, uses, tail and variables.
\<close>

theorem combined_shorts_equivalent:
  assumes m: "mem_fine m" and known: "find_option (lcl_options cmd) [c] \<noteq> None"
    and token: "find_option (lcl_options cmd) (c # cs) = None" "c \<noteq> CHR ''-''"
    and exp: "expand (lcl_options cmd) ign (c # cs) ts = Some (out, rest)"
    and cells: "represents as (prog # (CHR ''-'' # c # cs) # ts)" "represents bs (prog # out @ rest)"
    and room: "parse_room (lcl_options cmd) 1 ((CHR ''-'' # c # cs) # ts)"
  shows "ocoms_cmd_line_parse m True cmd ign (int (length (prog # (CHR ''-'' # c # cs) # ts))) (Some as) w = None \<and>
       ocoms_cmd_line_parse m True cmd ign (int (length (prog # out @ rest))) (Some bs) w = None \<or>
     (\<exists>rc cmd1 cmd2 w' xs uses tail.
     ocoms_cmd_line_parse m True cmd ign (int (length (prog # (CHR ''-'' # c # cs) # ts))) (Some as) w = Some (rc, cmd1, w') \<and>
     ocoms_cmd_line_parse m True cmd ign (int (length (prog # out @ rest))) (Some bs) w = Some (rc, cmd2, w') \<and>
     parsed (lcl_options cmd) cmd1 xs uses tail \<and> parsed (lcl_options cmd) cmd2 xs uses tail)"
proof -
  let ?opts = "lcl_options cmd" and ?t = "CHR ''-'' # c # cs"
  obtain k where k: "find_option ?opts [c] = Some k" using known by blast
  obtain out' where o': "out = [CHR ''-'', c] # out'" using expand_nonempty [OF exp] by blast
  have r1: "recognize ?opts ign ?t ts = Some (k, [CHR ''-'', c], out' @ rest)"
    using token exp k o' by (simp add: recognize_def)
  have r2: "recognize ?opts ign [CHR ''-'', c] (out' @ rest) = Some (k, [CHR ''-'', c], out' @ rest)"
    using token k by (simp add: recognize_def)
  have same: "parse_spec m ?opts ign (?t # ts) w = parse_spec m ?opts ign (out @ rest) w"
    unfolding o' append_Cons using r1 r2 token(2) by (simp add: parse_spec.simps(2))
  have room2: "parse_room ?opts 1 (out @ rest)"
    using recognize_weights [OF r1] o' by (intro parse_room_le [OF room]) simp
  show ?thesis
    using parse_ok [OF m cells(1) room, of ign w] parse_ok [OF m cells(2) room2, of ign w] unfolding same
    by (cases "parse_spec m ?opts ign (out @ rest) w") fastforce+
qed

text \<open>
  Parsing stops at the first token that is no option: the options before it have been taken, the
  token and everything after it are the tail.  The return code reports an error for an unknown
  option always, for a token without a dash only if unknown tokens are not to be ignored.
\<close>

theorem parse_stops_at_unknown:
  assumes m: "mem_fine m" and cs: "represents cs (prog # use_tokens us @ t # ts)"
    and uses: "\<forall>u \<in> set us. plain_use (lcl_options cmd) u"
    and room: "parse_room (lcl_options cmd) 1 (use_tokens us @ t # ts)"
    and unknown: "t \<noteq> ''--''" "take 1 t = ''-'' \<longrightarrow> recognize (lcl_options cmd) ign t ts = None"
  shows "\<exists>cmd' taken. ocoms_cmd_line_parse m True cmd ign (int (length (prog # use_tokens us @ t # ts))) (Some cs) w
      = Some (if ign \<and> take 1 t \<noteq> ''-'' then OCOMS_SUCCESS else OCOMS_ERR_SILENT, cmd', w) \<and>
    parsed (lcl_options cmd) cmd' (prog # use_tokens us @ t # ts) taken (t # ts) \<and> map snd taken = map snd us"
proof -
  have "parse_spec m (lcl_options cmd) ign (t # ts) w =
    Some (if ign \<and> take 1 t \<noteq> ''-'' then OCOMS_SUCCESS else OCOMS_ERR_SILENT, [], t # ts, t # ts, w)"
    using unknown by (auto simp: parse_spec.simps(2))
  from spec_uses [OF uses this] obtain uses' where
    "parse_spec m (lcl_options cmd) ign (use_tokens us @ t # ts) w =
      Some (if ign \<and> take 1 t \<noteq> ''-'' then OCOMS_SUCCESS else OCOMS_ERR_SILENT, uses', t # ts, use_tokens us @ t # ts, w)"
    "map snd uses' = map snd us" by auto
  with parse_ok_Some [OF m cs room this(1)] show ?thesis by blast
qed

theorem parse_stops_at_unknown_witness:
  "\<exists>cmd' taken. ocoms_cmd_line_parse mem_always True ex_cmd True 4 (Some [Some ''x'', Some ''-v'', Some ''--fo'', Some ''b'', None]) ex_world
      = Some (OCOMS_ERR_SILENT, cmd', ex_world) \<and>
    parsed ex_options cmd' [''x'', ''-v'', ''--fo'', ''b''] taken [''--fo'', ''b''] \<and> map snd taken = [(0, [])]"
proof -
  have "recognize ex_options True ''--fo'' [''b''] = None" "\<forall>u \<in> set [(''-v'', 0, [])]. plain_use ex_options u"
    by (simp_all add: recognize_def plain_use_def names_option_def find_option_def ex_options_def option_matches_def)
  then show ?thesis
    using parse_stops_at_unknown [of mem_always "[Some ''x'', Some ''-v'', Some ''--fo'', Some ''b'', None]" "''x''" "[(''-v'', 0, [])]" "''--fo''" "[''b'']" ex_cmd True ex_world]
    represents_cells [of "[''x'', ''-v'', ''--fo'', ''b'']"]
    by (simp add: parse_room_def weight_def INT_MAX_def)
qed

text \<open>
  When the argument of an integer option is no integer, parsing returns early: the tokens that
  were not examined are not in the tail, which stays empty.
\<close>

theorem integer_mismatch_drops_tail:
  assumes m: "mem_fine m" and cs: "represents cs (prog # use_tokens us @ t # arg # ts)"
    and uses: "\<forall>u \<in> set us. plain_use (lcl_options cmd) u"
    and room: "parse_room (lcl_options cmd) 1 (use_tokens us @ t # arg # ts)"
    and int_opt: "names_option (lcl_options cmd) t k" "clo_num_params (lcl_options cmd ! k) > 0"
      "clo_type (lcl_options cmd ! k) = OCOMS_CMD_LINE_TYPE_INT" "clo_variable_dest (lcl_options cmd ! k) = Some d"
    and arg: "\<not> all_digits arg" "arg \<noteq> special_empty_token"
  shows "\<exists>cmd' w' taken. ocoms_cmd_line_parse m True cmd ign (int (length (prog # use_tokens us @ t # arg # ts))) (Some cs) w
      = Some (OCOMS_ERR_SILENT, cmd', w') \<and>
    parsed (lcl_options cmd) cmd' (prog # use_tokens us @ t # arg # ts) taken [] \<and> map snd taken = map snd us"
proof -
  let ?opt = "lcl_options cmd ! k"
  obtain n where n: "num_params ?opt = Suc n" using int_opt(2) by (cases "num_params ?opt") simp_all
  obtain w1 where w1: "set_dest m ?opt arg w = (OCOMS_ERR_SILENT, w1)" using int_opt(3,4) arg(1)
    by (simp add: set_dest_def Let_def)
  have "OCOMS_ERR_SILENT \<noteq> OCOMS_SUCCESS" by (simp add: OCOMS_ERR_SILENT_def OCOMS_SUCCESS_def)
  then have "grab_params m ?opt 0 (num_params ?opt) [] (arg # ts) w = (Bad OCOMS_ERR_SILENT, w1)"
    using n w1 int_opt(4) arg(2) by simp
  moreover have "take 1 t = ''-''" "t \<noteq> ''--''" using int_opt(1) by (simp_all add: names_option_def)
  ultimately have "parse_spec m (lcl_options cmd) ign (t # arg # ts) w = Some (OCOMS_ERR_SILENT, [], [], t # arg # ts, w1)"
    using recognize_named [OF int_opt(1), of ign "arg # ts"] by (simp add: parse_spec.simps(2) Let_def)
  from spec_uses [OF uses this] obtain uses' where
    "parse_spec m (lcl_options cmd) ign (use_tokens us @ t # arg # ts) w =
      Some (OCOMS_ERR_SILENT, uses', [], use_tokens us @ t # arg # ts, w1)" "map snd uses' = map snd us" by auto
  with parse_ok_Some [OF m cs room this(1)] show ?thesis by blast
qed

theorem integer_mismatch_drops_tail_witness:
  "\<exists>cmd' w' taken. ocoms_cmd_line_parse mem_always True ex_cmd True 4 (Some [Some ''x'', Some ''--num'', Some ''two'', Some ''b'', None]) ex_world
      = Some (OCOMS_ERR_SILENT, cmd', w') \<and> parsed ex_options cmd' [''x'', ''--num'', ''two'', ''b''] taken [] \<and> map snd taken = []"
proof -
  have "names_option ex_options ''--num'' 2" "clo_num_params (ex_options ! 2) > 0" "\<not> all_digits ''two''" "''two'' \<noteq> special_empty_token"
    "clo_type (ex_options ! 2) = OCOMS_CMD_LINE_TYPE_INT" "clo_variable_dest (ex_options ! 2) = Some 0"
    by (simp_all add: names_option_def find_option_def ex_options_def option_matches_def all_digits_def c_isdigit_def special_empty_token_def)
  then show ?thesis
    using integer_mismatch_drops_tail [of mem_always "[Some ''x'', Some ''--num'', Some ''two'', Some ''b'', None]" "''x''" "[]" "''--num''" "''two''" "[''b'']" ex_cmd 2 0 True ex_world]
    represents_cells [of "[''x'', ''--num'', ''two'', ''b'']"]
    by (simp add: parse_room_def weight_def INT_MAX_def)
qed

lemma digit_not_special: "c_isdigit c \<Longrightarrow> \<not> c_isspace c \<and> c \<noteq> CHR ''-'' \<and> c \<noteq> CHR ''+''"
  by (auto simp: c_isdigit_def c_isspace_def)

lemma digits_value_nonneg: "0 \<le> digits_value s"
proof -
  have "\<forall>c \<in> set cs. c_isdigit c \<Longrightarrow> 0 \<le> n \<Longrightarrow> 0 \<le> foldl (\<lambda>n c. 10 * n + (of_char c - 48)) n cs" for cs and n :: int
  proof (induction cs arbitrary: n)
    case (Cons c cs)
    then have "48 \<le> (of_char c :: nat)" by (simp add: c_isdigit_def)
    then have "(0 :: int) \<le> of_char c - 48" by (metis diff_ge_0_iff_ge numeral_le_iff of_nat_le_iff of_nat_numeral of_nat_of_char)
    with Cons show ?case by simp
  qed simp
  then show ?thesis unfolding digits_value_def by (auto dest: set_takeWhileD)
qed

lemma signed_part_digits:
  assumes "ds \<noteq> []" and "\<forall>c \<in> set ds. c_isdigit c"
  shows "signed_part ds = (False, digits_value ds)" and "signed_part (CHR ''-'' # ds) = (True, digits_value ds)"
proof -
  obtain c cs where c: "ds = c # cs" using assms(1) by (cases ds) auto
  have "\<not> c_isspace c \<and> c \<noteq> CHR ''-'' \<and> c \<noteq> CHR ''+''" using assms(2) c by (simp add: digit_not_special)
  then show "signed_part ds = (False, digits_value ds)" by (simp add: signed_part_def c)
  show "signed_part (CHR ''-'' # ds) = (True, digits_value ds)" by (simp add: signed_part_def c_isspace_def)
qed

text \<open>
  The check of numeric arguments looks at the characters only.  An integer option with a string
  of digits stores the value reduced to the \<open>int\<close> range, without reporting overflow (values that fit
  are stored as they are), and an option of type \<open>size_t\<close> accepts a negative number and stores it
  modulo \<open>2 ^ 64\<close>.
\<close>

theorem numeric_argument_reduced:
  assumes ds: "ds \<noteq> []" "\<forall>c \<in> set ds. c_isdigit c" and opt: "clo_variable_dest opt = Some d" "clo_mca_param_env_var opt = None"
    and range: "digits_value ds < 2 ^ 63"
  shows "(clo_type opt = OCOMS_CMD_LINE_TYPE_INT \<longrightarrow>
      set_dest m opt ds w = (OCOMS_SUCCESS, w\<lparr>dests := (dests w)(d \<mapsto> Int_val ((digits_value ds + 2 ^ 31) mod 2 ^ 32 - 2 ^ 31))\<rparr>)) \<and>
    (clo_type opt = OCOMS_CMD_LINE_TYPE_SIZE_T \<longrightarrow>
      set_dest m opt ds w = (OCOMS_SUCCESS, w\<lparr>dests := (dests w)(d \<mapsto> Size_val (word_of_int (digits_value ds)))\<rparr>) \<and>
      set_dest m opt (CHR ''-'' # ds) w = (OCOMS_SUCCESS, w\<lparr>dests := (dests w)(d \<mapsto> Size_val (word_of_int (2 ^ 64 - digits_value ds)))\<rparr>))"
proof -
  have digits: "all_digits ds" "all_digits (CHR ''-'' # ds)" using ds(2) by (simp_all add: all_digits_def)
  note sp = signed_part_digits [OF ds]
  have l: "strtol ds = digits_value ds" using sp(1) range digits_value_nonneg [of ds] by (simp add: strtol_def)
  have ul: "strtoul ds = word_of_int (digits_value ds)" using sp(1) range by (simp add: strtoul_def)
  have "(word_of_int (2 ^ 64 - digits_value ds) :: 64 word) = word_of_int (- digits_value ds)"
    by (simp add: word_of_int_eq_iff take_bit_eq_mod)
  then have un: "strtoul (CHR ''-'' # ds) = word_of_int (2 ^ 64 - digits_value ds)" using sp(2) range by (simp add: strtoul_def)
  have s: "sint (word_of_int v :: 32 word) = (v + 2 ^ 31) mod 2 ^ 32 - 2 ^ 31" for v
    by (simp add: signed_take_bit_eq_take_bit_shift signed_of_int take_bit_eq_mod)
  show ?thesis using digits opt l ul un s by (simp add: set_dest_def Let_def)
qed

theorem numeric_argument_reduced_witness:
  "snd (set_dest mem_always (ex_options ! 2) ''4294967301'' ex_world) = ex_world\<lparr>dests := [0 \<mapsto> Int_val 5]\<rparr>"
proof -
  have v: "digits_value ''4294967301'' = 4294967301" by (simp add: digits_value_def c_isdigit_def)
  have d: "\<forall>c \<in> set ''4294967301''. c_isdigit c" by (simp add: c_isdigit_def)
  show ?thesis
    using numeric_argument_reduced [of "''4294967301''" "ex_options ! 2" 0 mem_always ex_world] v d
    by (simp add: ex_options_def ex_world_def)
qed

end
