(* ===== verification/Item_List.thy ===== *)
theory Item_List
  imports Interfaces "HOL-Library.Multiset"
begin

text \<open>
  The doubly linked lists of \<open>ocoms/util/ocoms_list.h\<close> and \<open>ocoms_list.c\<close>, on an explicit store that maps
  addresses to items, so that aliasing is visible.  A list is named by the address of its
  sentinel; its length counter, a \<open>size_t\<close>, is kept beside the store.  An access to an address
  without an item is undefined.  The model is the build without \<open>OCOMS_ENABLE_DEBUG\<close>.
\<close>

section \<open>The store\<close>

type_synonym addr = nat

record ocoms_list_item_t =
  ocoms_list_next :: addr
  ocoms_list_prev :: addr
  item_free :: int

record list_store =
  items :: "addr \<Rightarrow> ocoms_list_item_t option"
  ocoms_list_length :: "addr \<Rightarrow> 64 word"

definition NULL :: addr where "NULL = 0"

definition get_next :: "list_store \<Rightarrow> addr \<Rightarrow> addr option" where
  "get_next s a = map_option ocoms_list_next (items s a)"

definition get_prev :: "list_store \<Rightarrow> addr \<Rightarrow> addr option" where
  "get_prev s a = map_option ocoms_list_prev (items s a)"

definition set_next :: "list_store \<Rightarrow> addr \<Rightarrow> addr \<Rightarrow> list_store option" where
  "set_next s a b = map_option (\<lambda>i. s\<lparr>items := (items s)(a \<mapsto> i\<lparr>ocoms_list_next := b\<rparr>)\<rparr>) (items s a)"

definition set_prev :: "list_store \<Rightarrow> addr \<Rightarrow> addr \<Rightarrow> list_store option" where
  "set_prev s a b = map_option (\<lambda>i. s\<lparr>items := (items s)(a \<mapsto> i\<lparr>ocoms_list_prev := b\<rparr>)\<rparr>) (items s a)"

definition add_length :: "list_store \<Rightarrow> addr \<Rightarrow> 64 word \<Rightarrow> list_store" where
  "add_length s l n = s\<lparr>ocoms_list_length := (ocoms_list_length s)(l := ocoms_list_length s l + n)\<rparr>"

section \<open>Operations\<close>

definition ocoms_list_item_construct :: "list_store \<Rightarrow> addr \<Rightarrow> list_store" where
  "ocoms_list_item_construct s a =
     s\<lparr>items := (items s)(a \<mapsto> \<lparr>ocoms_list_next = NULL, ocoms_list_prev = NULL, item_free = 1\<rparr>)\<rparr>"

definition ocoms_list_construct :: "list_store \<Rightarrow> addr \<Rightarrow> list_store option" where
  "ocoms_list_construct s l = do {
     s1 \<leftarrow> set_next s l l;
     s2 \<leftarrow> set_prev s1 l l;
     Some (s2\<lparr>ocoms_list_length := (ocoms_list_length s2)(l := 0)\<rparr>) }"

definition ocoms_list_destruct :: "list_store \<Rightarrow> addr \<Rightarrow> list_store option" where
  "ocoms_list_destruct s l = ocoms_list_construct s l"

definition ocoms_list_is_empty :: "list_store \<Rightarrow> addr \<Rightarrow> bool option" where
  "ocoms_list_is_empty s l = map_option (\<lambda>n. n = l) (get_next s l)"

definition ocoms_list_get_first :: "list_store \<Rightarrow> addr \<Rightarrow> addr option" where
  "ocoms_list_get_first s l = get_next s l"

definition ocoms_list_get_last :: "list_store \<Rightarrow> addr \<Rightarrow> addr option" where
  "ocoms_list_get_last s l = get_prev s l"

definition ocoms_list_get_end :: "addr \<Rightarrow> addr" where
  "ocoms_list_get_end l = l"

definition ocoms_list_get_size :: "list_store \<Rightarrow> addr \<Rightarrow> 64 word" where
  "ocoms_list_get_size s l = ocoms_list_length s l"

definition ocoms_list_remove_item :: "list_store \<Rightarrow> addr \<Rightarrow> addr \<Rightarrow> (addr \<times> list_store) option" where
  "ocoms_list_remove_item s l item = do {
     p \<leftarrow> get_prev s item;
     n \<leftarrow> get_next s item;
     s1 \<leftarrow> set_next s p n;
     n' \<leftarrow> get_next s1 item;
     p' \<leftarrow> get_prev s1 item;
     s2 \<leftarrow> set_prev s1 n' p';
     r \<leftarrow> get_prev s2 item;
     Some (r, add_length s2 l (- 1)) }"

definition ocoms_list_append :: "list_store \<Rightarrow> addr \<Rightarrow> addr \<Rightarrow> list_store option" where
  "ocoms_list_append s l item = do {
     p \<leftarrow> get_prev s l;
     s1 \<leftarrow> set_prev s item p;
     p' \<leftarrow> get_prev s1 l;
     s2 \<leftarrow> set_next s1 p' item;
     s3 \<leftarrow> set_next s2 item l;
     s4 \<leftarrow> set_prev s3 l item;
     Some (add_length s4 l 1) }"

definition ocoms_list_prepend :: "list_store \<Rightarrow> addr \<Rightarrow> addr \<Rightarrow> list_store option" where
  "ocoms_list_prepend s l item = do {
     n \<leftarrow> get_next s l;
     s1 \<leftarrow> set_next s item n;
     s2 \<leftarrow> set_prev s1 item l;
     n' \<leftarrow> get_next s2 l;
     s3 \<leftarrow> set_prev s2 n' item;
     s4 \<leftarrow> set_next s3 l item;
     Some (add_length s4 l 1) }"

definition ocoms_list_remove_first :: "list_store \<Rightarrow> addr \<Rightarrow> (addr \<times> list_store) option" where
  "ocoms_list_remove_first s l =
     (if ocoms_list_length s l = 0 then Some (NULL, s)
      else do {
        let s0 = add_length s l (- 1);
        item \<leftarrow> get_next s0 l;
        n \<leftarrow> get_next s0 item;
        p \<leftarrow> get_prev s0 item;
        s1 \<leftarrow> set_prev s0 n p;
        n' \<leftarrow> get_next s1 item;
        s2 \<leftarrow> set_next s1 l n';
        Some (item, s2) })"

definition ocoms_list_remove_last :: "list_store \<Rightarrow> addr \<Rightarrow> (addr \<times> list_store) option" where
  "ocoms_list_remove_last s l =
     (if ocoms_list_length s l = 0 then Some (NULL, s)
      else do {
        let s0 = add_length s l (- 1);
        item \<leftarrow> get_prev s0 l;
        p \<leftarrow> get_prev s0 item;
        n \<leftarrow> get_next s0 item;
        s1 \<leftarrow> set_next s0 p n;
        p' \<leftarrow> get_prev s1 item;
        s2 \<leftarrow> set_prev s1 l p';
        Some (item, s2) })"

definition ocoms_list_insert_pos :: "list_store \<Rightarrow> addr \<Rightarrow> addr \<Rightarrow> addr \<Rightarrow> list_store option" where
  "ocoms_list_insert_pos s l pos item = do {
     s1 \<leftarrow> set_next s item pos;
     p \<leftarrow> get_prev s1 pos;
     s2 \<leftarrow> set_prev s1 item p;
     p' \<leftarrow> get_prev s2 pos;
     s3 \<leftarrow> set_next s2 p' item;
     s4 \<leftarrow> set_prev s3 pos item;
     Some (add_length s4 l 1) }"

text \<open>Following \<open>n\<close> next pointers.\<close>

fun walk :: "list_store \<Rightarrow> nat \<Rightarrow> addr \<Rightarrow> addr option" where
  "walk s 0 a = Some a"
| "walk s (Suc n) a = do { b \<leftarrow> get_next s a; walk s n b }"

text \<open>The counter of the walk to the place of an insertion is an \<open>int\<close>: past \<open>INT_MAX\<close> it overflows.\<close>

definition ocoms_list_insert :: "list_store \<Rightarrow> addr \<Rightarrow> addr \<Rightarrow> int \<Rightarrow> (bool \<times> list_store) option" where
  "ocoms_list_insert s l item idx =
     (if idx \<ge> sint (ocoms_list_length s l) then Some (False, s)
      else do {
        s' \<leftarrow> (if idx = 0 then ocoms_list_prepend s l item
              else if idx - 1 > 2147483647 then None
              else do {
                first \<leftarrow> get_next s l;
                ptr \<leftarrow> walk s (nat (idx - 1)) first;
                nxt \<leftarrow> get_next s ptr;
                s1 \<leftarrow> set_next s item nxt;
                s2 \<leftarrow> set_prev s1 item ptr;
                s3 \<leftarrow> set_prev s2 nxt item;
                set_next s3 ptr item });
        Some (True, add_length s' l 1) })"

definition ocoms_list_transfer :: "list_store \<Rightarrow> addr \<Rightarrow> addr \<Rightarrow> addr \<Rightarrow> list_store option" where
  "ocoms_list_transfer s pos begin' end' =
     (if pos = end' then Some s
      else do {
        a \<leftarrow> get_prev s end';
        s1 \<leftarrow> set_next s a pos;
        b \<leftarrow> get_prev s1 begin';
        s2 \<leftarrow> set_next s1 b end';
        c \<leftarrow> get_prev s2 pos;
        s3 \<leftarrow> set_next s2 c begin';
        tmp \<leftarrow> get_prev s3 pos;
        d \<leftarrow> get_prev s3 end';
        s4 \<leftarrow> set_prev s3 pos d;
        e \<leftarrow> get_prev s4 begin';
        s5 \<leftarrow> set_prev s4 end' e;
        set_prev s5 begin' tmp })"

definition ocoms_list_join :: "list_store \<Rightarrow> addr \<Rightarrow> addr \<Rightarrow> addr \<Rightarrow> list_store option" where
  "ocoms_list_join s thislist pos xlist =
     (if ocoms_list_get_size s xlist \<noteq> 0 then do {
        first \<leftarrow> ocoms_list_get_first s xlist;
        s1 \<leftarrow> ocoms_list_transfer s pos first (ocoms_list_get_end xlist);
        let s2 = add_length s1 thislist (ocoms_list_length s1 xlist);
        Some (s2\<lparr>ocoms_list_length := (ocoms_list_length s2)(xlist := 0)\<rparr>) }
      else Some s)"

text \<open>The number of steps from one item to another; the walk may not end.\<close>

partial_function (option) count_to :: "list_store \<Rightarrow> addr \<Rightarrow> addr \<Rightarrow> 64 word \<Rightarrow> 64 word option" where
  "count_to s tmp stop change =
     (if tmp = stop then Some change
      else do { n \<leftarrow> get_next s tmp; count_to s n stop (change + 1) })"

definition ocoms_list_splice :: "list_store \<Rightarrow> addr \<Rightarrow> addr \<Rightarrow> addr \<Rightarrow> addr \<Rightarrow> addr \<Rightarrow> list_store option" where
  "ocoms_list_splice s thislist pos xlist first last' =
     (if first \<noteq> last' then do {
        change \<leftarrow> count_to s first last' 0;
        s1 \<leftarrow> ocoms_list_transfer s pos first last';
        Some (add_length (add_length s1 thislist change) xlist (- change)) }
      else Some s)"

text \<open>
  Sorting: the array of \<open>malloc\<close>, whose size in bytes wraps, is filled with the items removed, \<open>qsort\<close> of the C library permutes it
  by the comparison, the items are appended again.
\<close>

lemma remove_first_length:
  "ocoms_list_remove_first s l = Some (item, s') \<Longrightarrow> ocoms_list_length s l \<noteq> 0 \<Longrightarrow>
   ocoms_list_length s' l = ocoms_list_length s l - 1"
  by (auto simp: ocoms_list_remove_first_def add_length_def set_prev_def set_next_def bind_eq_Some_conv Let_def)

function remove_all_items :: "list_store \<Rightarrow> addr \<Rightarrow> addr list \<Rightarrow> nat \<Rightarrow> (list_store \<times> addr list \<times> nat) option" where
  "remove_all_items s l arr index =
     (if ocoms_list_length s l = 0 then Some (s, arr, index)
      else do {
        (item, s') \<leftarrow> ocoms_list_remove_first s l;
        if item = NULL then Some (s', arr, index)
        else do { arr' \<leftarrow> wrn arr index item; remove_all_items s' l arr' (index + 1) } })"
  by auto
termination
  by (relation "measure (\<lambda>(s, l, arr, index). unat (ocoms_list_length s l))")
    (auto dest!: remove_first_length simp: unat_minus_one unat_gt_0)

declare remove_all_items.simps [simp del]

fun append_items :: "list_store \<Rightarrow> addr \<Rightarrow> addr list \<Rightarrow> list_store option" where
  "append_items s l [] = Some s"
| "append_items s l (a # as) = do { s' \<leftarrow> ocoms_list_append s l a; append_items s' l as }"

definition ocoms_list_sort :: "addr allocator \<Rightarrow> (addr list \<Rightarrow> addr list) \<Rightarrow> list_store \<Rightarrow> addr \<Rightarrow> (int \<times> list_store) option" where
  "ocoms_list_sort m qsort s l =
     (if ocoms_list_length s l = 0 then Some (OCOMS_SUCCESS, s)
      else case m (unat (8 * ocoms_list_length s l) div 8) of
        None \<Rightarrow> Some (OCOMS_ERR_OUT_OF_RESOURCE, s)
      | Some arr \<Rightarrow> do {
          (s1, arr1, index) \<leftarrow> remove_all_items s l arr 0;
          s2 \<leftarrow> append_items s1 l (qsort (take index arr1));
          Some (OCOMS_SUCCESS, s2) })"

section \<open>What a list holds\<close>

text \<open>Neighbours in a sequence of addresses point at each other.\<close>

fun linked :: "list_store \<Rightarrow> addr list \<Rightarrow> bool" where
  "linked s (a # b # r) \<longleftrightarrow> get_next s a = Some b \<and> get_prev s b = Some a \<and> linked s (b # r)"
| "linked s _ \<longleftrightarrow> True"

definition list_rep :: "list_store \<Rightarrow> addr \<Rightarrow> addr list \<Rightarrow> bool" where
  "list_rep s l xs \<longleftrightarrow> distinct (l # xs) \<and> NULL \<notin> set (l # xs) \<and> linked s (l # xs @ [l]) \<and>
     length xs < 2 ^ 64 \<and> ocoms_list_length s l = of_nat (length xs)"

definition is_item :: "list_store \<Rightarrow> addr \<Rightarrow> bool" where
  "is_item s a \<longleftrightarrow> a \<noteq> NULL \<and> items s a \<noteq> None"

lemma set_next_eq: "is_item s a \<Longrightarrow> \<exists>s'. set_next s a b = Some s' \<and> (\<forall>c. get_next s' c = (if c = a then Some b else get_next s c)) \<and>
   get_prev s' = get_prev s \<and> ocoms_list_length s' = ocoms_list_length s \<and> (\<forall>c. is_item s' c = is_item s c)"
  by (auto simp: is_item_def set_next_def get_next_def get_prev_def fun_eq_iff)

lemma set_prev_eq: "is_item s a \<Longrightarrow> \<exists>s'. set_prev s a b = Some s' \<and> (\<forall>c. get_prev s' c = (if c = a then Some b else get_prev s c)) \<and>
   get_next s' = get_next s \<and> ocoms_list_length s' = ocoms_list_length s \<and> (\<forall>c. is_item s' c = is_item s c)"
  by (auto simp: is_item_def set_prev_def get_next_def get_prev_def fun_eq_iff)

lemma get_next_item: "get_next s a = Some b \<Longrightarrow> a \<noteq> NULL \<Longrightarrow> is_item s a"
  by (auto simp: get_next_def is_item_def)

lemma get_prev_item: "get_prev s a = Some b \<Longrightarrow> a \<noteq> NULL \<Longrightarrow> is_item s a"
  by (auto simp: get_prev_def is_item_def)

text \<open>Sequences.\<close>

lemma linked_append: "linked s (A @ a # B) \<longleftrightarrow> linked s (A @ [a]) \<and> linked s (a # B)"
proof (induction A)
  case (Cons x A)
  then show ?case by (cases A) simp_all
qed simp

lemma linked_mid: "linked s (A @ p # q # B) \<longleftrightarrow> linked s (A @ [p]) \<and> linked s (q # B) \<and> get_next s p = Some q \<and> get_prev s q = Some p"
  by (subst linked_append) auto

lemma linked_cong:
  "\<forall>a \<in> set (butlast ws). get_next s' a = get_next s a \<Longrightarrow> \<forall>a \<in> set (tl ws). get_prev s' a = get_prev s a \<Longrightarrow>
   linked s ws \<Longrightarrow> linked s' ws"
  by (induction s ws rule: linked.induct) (auto split: if_splits)


lemma in_set_tl: "x \<in> set (tl xs) \<Longrightarrow> x \<in> set xs"
  by (cases xs) auto

text \<open>The places next to a link of a ring.\<close>

lemma ring_split:
  assumes "l # xs @ [l] = A @ p # q # B" and "distinct (l # xs)"
  shows "p \<notin> set A" "p \<notin> set (butlast (q # B))" "q \<notin> set (tl (A @ [p]))" "q \<notin> set B"
proof -
  have "butlast (l # xs @ [l]) = butlast (A @ p # q # B)" by (simp only: assms(1))
  then have b: "l # xs = A @ p # butlast (q # B)" by (simp add: butlast_append del: butlast.simps(2)) simp
  have "tl (l # xs @ [l]) = tl (A @ p # q # B)" by (simp only: assms(1))
  then have t: "xs @ [l] = tl (A @ [p]) @ q # B" by (cases A) simp_all
  have "distinct (A @ p # butlast (q # B))" using assms(2) unfolding b .
  then show "p \<notin> set A" "p \<notin> set (butlast (q # B))" by auto
  have "distinct (xs @ [l])" using assms(2) by auto
  then show "q \<notin> set (tl (A @ [p]))" "q \<notin> set B" unfolding t by auto
qed

text \<open>What the operations leave: an item between two neighbours, two neighbours joined.\<close>

definition joined :: "list_store \<Rightarrow> list_store \<Rightarrow> addr \<Rightarrow> addr \<Rightarrow> bool" where
  "joined s s' p q \<longleftrightarrow> (\<forall>c. get_next s' c = (if c = p then Some q else get_next s c)) \<and>
     (\<forall>c. get_prev s' c = (if c = q then Some p else get_prev s c)) \<and> (\<forall>c. is_item s' c = is_item s c)"

definition inserted :: "list_store \<Rightarrow> list_store \<Rightarrow> addr \<Rightarrow> addr \<Rightarrow> addr \<Rightarrow> bool" where
  "inserted s s' p x q \<longleftrightarrow> (\<forall>c. get_next s' c = (if c = p then Some x else if c = x then Some q else get_next s c)) \<and>
     (\<forall>c. get_prev s' c = (if c = q then Some x else if c = x then Some p else get_prev s c)) \<and> (\<forall>c. is_item s' c = is_item s c)"

lemma linked_inserted:
  assumes "linked s (A @ p # q # B)" and "inserted s s' p x q"
    and "p \<notin> set A" "p \<notin> set (butlast (q # B))" "q \<notin> set (tl (A @ [p]))" "q \<notin> set B"
    and "x \<notin> set (A @ p # q # B)"
  shows "linked s' (A @ p # x # q # B)"
proof -
  have l: "linked s (A @ [p])" "linked s (q # B)" using assms(1) by (simp_all add: linked_mid)
  have "x \<notin> set (tl (A @ [p]))" "x \<notin> set (butlast (q # B))" using assms(7) by (auto dest: in_set_tl in_set_butlastD)
  then have "linked s' (A @ [p])" "linked s' (q # B)"
    using assms(2-7) by (auto intro!: linked_cong [OF _ _ l(1)] linked_cong [OF _ _ l(2)] simp: inserted_def butlast_append dest: in_set_butlastD)
  moreover have "get_next s' p = Some x" "get_prev s' x = Some p" "get_next s' x = Some q" "get_prev s' q = Some x"
    using assms(2,7) by (auto simp: inserted_def)
  ultimately show ?thesis by (simp add: linked_mid)
qed

lemma linked_joined:
  assumes "linked s (A @ p # x # q # B)" and "joined s s' p q"
    and "p \<notin> set A" "p \<notin> set (butlast (q # B))" "q \<notin> set (tl (A @ [p]))" "q \<notin> set B"
  shows "linked s' (A @ p # q # B)"
proof -
  have l: "linked s (A @ [p])" "linked s (q # B)" using assms(1) by (simp_all add: linked_mid)
  have "linked s' (A @ [p])" "linked s' (q # B)"
    using assms(2-6) by (auto intro!: linked_cong [OF _ _ l(1)] linked_cong [OF _ _ l(2)] simp: joined_def butlast_append dest: in_set_butlastD)
  then show ?thesis using assms(2) by (simp add: linked_mid joined_def)
qed

lemma linked_frame:
  assumes "linked s ws" and "set ws \<inter> X = {}"
    and "\<forall>c. c \<notin> X \<longrightarrow> get_next s' c = get_next s c \<and> get_prev s' c = get_prev s c"
  shows "linked s' ws"
  using assms(2,3) by (intro linked_cong [OF _ _ assms(1)]) (auto dest!: in_set_butlastD in_set_tl)

text \<open>A ring whose list is cut at some place.\<close>

lemma ring_cut:
  obtains A B p q where "p = last (l # ys)" "q = hd (zs @ [l])" "l # ys = A @ [p]" "zs @ [l] = q # B"
    "l # (ys @ zs) @ [l] = A @ p # q # B"
proof
  let ?p = "last (l # ys)" and ?q = "hd (zs @ [l])"
  show "?p = last (l # ys)" "?q = hd (zs @ [l])" by simp_all
  show y: "l # ys = butlast (l # ys) @ [?p]" by (rule append_butlast_last_id [symmetric]) simp
  show z: "zs @ [l] = ?q # tl (zs @ [l])" by simp
  have "l # (ys @ zs) @ [l] = (l # ys) @ (zs @ [l])" by simp
  also have "\<dots> = (butlast (l # ys) @ [?p]) @ (?q # tl (zs @ [l]))" by (rule arg_cong2 [OF y z, of append])
  finally show "l # (ys @ zs) @ [l] = butlast (l # ys) @ ?p # ?q # tl (zs @ [l])" by (simp only: append_assoc append.simps)
qed

lemma list_rep_neighbours:
  assumes "list_rep s l (ys @ zs)"
  shows "get_next s (last (l # ys)) = Some (hd (zs @ [l]))" "get_prev s (hd (zs @ [l])) = Some (last (l # ys))"
    "is_item s (last (l # ys))" "is_item s (hd (zs @ [l]))"
proof -
  obtain A B p q where r: "p = last (l # ys)" "q = hd (zs @ [l])" "l # ys = A @ [p]" "zs @ [l] = q # B"
    "l # (ys @ zs) @ [l] = A @ p # q # B" by (rule ring_cut)
  have "linked s (A @ p # q # B)" using assms unfolding list_rep_def r(5) [symmetric] by blast
  then have n: "get_next s p = Some q" "get_prev s q = Some p" by (simp_all add: linked_mid)
  have "p \<in> set (l # ys)" "q \<in> set (zs @ [l])" unfolding r(3,4) by simp_all
  then have "p \<noteq> NULL" "q \<noteq> NULL" using assms unfolding list_rep_def by auto
  with n have "is_item s p" "is_item s q" by (blast intro: get_next_item get_prev_item)+
  with n show "get_next s (last (l # ys)) = Some (hd (zs @ [l]))" "get_prev s (hd (zs @ [l])) = Some (last (l # ys))"
    "is_item s (last (l # ys))" "is_item s (hd (zs @ [l]))" unfolding r(1,2) by simp_all
qed

lemma list_rep_inserted:
  assumes rep: "list_rep s l (ys @ zs)" and x: "x \<notin> set (l # ys @ zs)" "x \<noteq> NULL"
    and ins: "inserted s s' (last (l # ys)) x (hd (zs @ [l]))"
    and len: "ocoms_list_length s' l = ocoms_list_length s l + 1" "length (ys @ zs) + 1 < 2 ^ 64"
  shows "list_rep s' l (ys @ x # zs)"
proof -
  obtain A B p q where r: "p = last (l # ys)" "q = hd (zs @ [l])" "l # ys = A @ [p]" "zs @ [l] = q # B"
    "l # (ys @ zs) @ [l] = A @ p # q # B" by (rule ring_cut)
  have d: "distinct (l # ys @ zs)" using rep by (simp add: list_rep_def)
  have "linked s (A @ p # q # B)" using rep unfolding list_rep_def r(5) [symmetric] by blast
  moreover have "x \<notin> set (A @ p # q # B)" unfolding r(5) [symmetric] using x(1) by simp
  ultimately have "linked s' (A @ p # x # q # B)"
    using ring_split [OF r(5) d] ins unfolding r(1,2) [symmetric] by (intro linked_inserted)
  moreover have "A @ p # x # q # B = (A @ [p]) @ x # (q # B)" by simp
  ultimately have ring: "linked s' (l # (ys @ x # zs) @ [l])" unfolding r(3,4) [symmetric] by simp
  have "ocoms_list_length s' l = of_nat (length (ys @ x # zs))" using rep len(1) by (simp add: list_rep_def)
  moreover have "distinct (l # ys @ x # zs)" "NULL \<notin> set (l # ys @ x # zs)" using rep x by (auto simp: list_rep_def)
  ultimately show ?thesis unfolding list_rep_def using ring len(2) by simp
qed

lemma list_rep_joined:
  assumes rep: "list_rep s l (ys @ x # zs)" and j: "joined s s' (last (l # ys)) (hd (zs @ [l]))"
    and len: "ocoms_list_length s' l = ocoms_list_length s l - 1"
  shows "list_rep s' l (ys @ zs)"
proof -
  obtain A B p q where r: "p = last (l # ys)" "q = hd (zs @ [l])" "l # ys = A @ [p]" "zs @ [l] = q # B"
    "l # (ys @ zs) @ [l] = A @ p # q # B" by (rule ring_cut)
  have d: "distinct (l # ys @ zs)" using rep by (auto simp: list_rep_def)
  have "linked s (l # (ys @ x # zs) @ [l])" using rep unfolding list_rep_def by blast
  moreover have "l # (ys @ x # zs) @ [l] = (l # ys) @ x # (zs @ [l])" by simp
  ultimately have "linked s (A @ p # x # q # B)" unfolding r(3,4) append_assoc append.simps by (simp only:)
  moreover have "joined s s' p q" unfolding r(1,2) by (rule j)
  ultimately have "linked s' (A @ p # q # B)" by (rule linked_joined) (rule ring_split [OF r(5) d])+
  then have ring: "linked s' (l # (ys @ zs) @ [l])" unfolding r(5) .
  have "ocoms_list_length s' l = of_nat (length (ys @ zs))" using rep len by (simp add: list_rep_def)
  moreover have "NULL \<notin> set (l # ys @ zs)" using rep by (auto simp: list_rep_def)
  moreover have "length (ys @ zs) < 2 ^ 64" using rep by (simp add: list_rep_def)
  ultimately show ?thesis unfolding list_rep_def using ring d by simp
qed

section \<open>The operations\<close>

lemmas store_defs = set_next_def set_prev_def get_next_def get_prev_def is_item_def add_length_def

lemma insert_pos_ins:
  assumes "get_prev s q = Some p" and "is_item s p" "is_item s q" "is_item s x" and "x \<noteq> p" "x \<noteq> q"
  shows "\<exists>s'. ocoms_list_insert_pos s l q x = Some s' \<and> inserted s s' p x q \<and>
     ocoms_list_length s' = (ocoms_list_length s)(l := ocoms_list_length s l + 1)"
  using assms unfolding ocoms_list_insert_pos_def inserted_def store_defs by (cases "p = q") auto

lemma list_append_ins:
  assumes "get_prev s l = Some p" and "is_item s p" "is_item s l" "is_item s x" and "x \<noteq> p" "x \<noteq> l"
  shows "\<exists>s'. ocoms_list_append s l x = Some s' \<and> inserted s s' p x l \<and>
     ocoms_list_length s' = (ocoms_list_length s)(l := ocoms_list_length s l + 1)"
  using assms unfolding ocoms_list_append_def inserted_def store_defs by (cases "p = l") auto

lemma list_prepend_ins:
  assumes "get_next s l = Some q" and "is_item s q" "is_item s l" "is_item s x" and "x \<noteq> q" "x \<noteq> l"
  shows "\<exists>s'. ocoms_list_prepend s l x = Some s' \<and> inserted s s' l x q \<and>
     ocoms_list_length s' = (ocoms_list_length s)(l := ocoms_list_length s l + 1)"
  using assms unfolding ocoms_list_prepend_def inserted_def store_defs by (cases "q = l") auto

lemma remove_item_joins:
  assumes "get_prev s x = Some p" "get_next s x = Some q" and "is_item s p" "is_item s q" "is_item s x" and "x \<noteq> p" "x \<noteq> q"
  shows "\<exists>s'. ocoms_list_remove_item s l x = Some (p, s') \<and> joined s s' p q \<and>
     ocoms_list_length s' = (ocoms_list_length s)(l := ocoms_list_length s l - 1)"
  using assms unfolding ocoms_list_remove_item_def joined_def store_defs by (cases "p = q") auto

lemma remove_first_joins:
  assumes "get_next s l = Some x" "get_prev s x = Some l" "get_next s x = Some q" and "is_item s l" "is_item s q" "is_item s x"
    and "x \<noteq> l" "x \<noteq> q" and "ocoms_list_length s l \<noteq> 0"
  shows "\<exists>s'. ocoms_list_remove_first s l = Some (x, s') \<and> joined s s' l q \<and>
     ocoms_list_length s' = (ocoms_list_length s)(l := ocoms_list_length s l - 1)"
  using assms unfolding ocoms_list_remove_first_def joined_def store_defs Let_def by (cases "l = q") auto

lemma remove_last_joins:
  assumes "get_prev s l = Some x" "get_next s x = Some l" "get_prev s x = Some p" and "is_item s l" "is_item s p" "is_item s x"
    and "x \<noteq> l" "x \<noteq> p" and "ocoms_list_length s l \<noteq> 0"
  shows "\<exists>s'. ocoms_list_remove_last s l = Some (x, s') \<and> joined s s' p l \<and>
     ocoms_list_length s' = (ocoms_list_length s)(l := ocoms_list_length s l - 1)"
  using assms unfolding ocoms_list_remove_last_def joined_def store_defs Let_def by (cases "l = p") auto

text \<open>Lists that share no item with the one that changes are left alone.\<close>

definition untouched :: "list_store \<Rightarrow> list_store \<Rightarrow> addr set \<Rightarrow> bool" where
  "untouched s s' X \<longleftrightarrow> (\<forall>m zs. set (m # zs) \<inter> X = {} \<longrightarrow> list_rep s m zs \<longrightarrow> list_rep s' m zs)"

lemma untouchedI:
  assumes "\<And>c. c \<notin> X \<Longrightarrow> get_next s' c = get_next s c \<and> get_prev s' c = get_prev s c \<and> ocoms_list_length s' c = ocoms_list_length s c"
  shows "untouched s s' X"
  unfolding untouched_def
proof (intro allI impI)
  fix m zs assume d: "set (m # zs) \<inter> X = {}" and r: "list_rep s m zs"
  then have "linked s (m # zs @ [m])" by (simp add: list_rep_def)
  then have "linked s' (m # zs @ [m])"
    by (rule linked_frame [where X = X]) (use d assms in auto)
  moreover have "ocoms_list_length s' m = ocoms_list_length s m" using d assms by simp
  moreover have "distinct (m # zs) \<and> NULL \<notin> set (m # zs) \<and> length zs < 2 ^ 64" "ocoms_list_length s m = of_nat (length zs)"
    using r unfolding list_rep_def by blast+
  ultimately show "list_rep s' m zs" unfolding list_rep_def by (simp only: simp_thms)
qed

lemma list_rep_parts:
  shows "last (l # ys) \<in> set (l # ys @ zs)" "hd (zs @ [l]) \<in> set (l # ys @ zs)"
proof -
  have "last (l # ys) \<in> set (l # ys)" by (rule last_in_set) simp
  then show "last (l # ys) \<in> set (l # ys @ zs)" by auto
  have "hd (zs @ [l]) \<in> set (zs @ [l])" by (rule hd_in_set) simp
  then show "hd (zs @ [l]) \<in> set (l # ys @ zs)" by auto
qed

lemma insert_between:
  assumes rep: "list_rep s l (ys @ zs)" and x: "x \<notin> set (l # ys @ zs)" "x \<noteq> NULL" and len: "length (ys @ zs) + 1 < 2 ^ 64"
    and op: "\<exists>s'. f = Some s' \<and> inserted s s' (last (l # ys)) x (hd (zs @ [l])) \<and>
       ocoms_list_length s' = (ocoms_list_length s)(l := ocoms_list_length s l + 1)"
  shows "\<exists>s'. f = Some s' \<and> list_rep s' l (ys @ x # zs) \<and> untouched s s' (set (l # ys @ x # zs)) \<and> (\<forall>a. is_item s' a = is_item s a)"
proof -
  from op obtain s' where s': "f = Some s'" "inserted s s' (last (l # ys)) x (hd (zs @ [l]))"
    "ocoms_list_length s' = (ocoms_list_length s)(l := ocoms_list_length s l + 1)" by blast
  have "list_rep s' l (ys @ x # zs)" using list_rep_inserted [OF rep x s'(2)] s'(3) len by simp
  moreover have "untouched s s' (set (l # ys @ x # zs))"
    using s'(2,3) list_rep_parts [where l = l and ys = ys and zs = zs] by (intro untouchedI) (auto simp: inserted_def)
  ultimately show ?thesis using s'(1,2) by (auto simp: inserted_def)
qed

lemma join_between:
  assumes rep: "list_rep s l (ys @ x # zs)"
    and op: "\<exists>s'. f = Some (r, s') \<and> joined s s' (last (l # ys)) (hd (zs @ [l])) \<and>
       ocoms_list_length s' = (ocoms_list_length s)(l := ocoms_list_length s l - 1)"
  shows "\<exists>s'. f = Some (r, s') \<and> list_rep s' l (ys @ zs) \<and> untouched s s' (set (l # ys @ x # zs)) \<and> (\<forall>a. is_item s' a = is_item s a)"
proof -
  from op obtain s' where s': "f = Some (r, s')" "joined s s' (last (l # ys)) (hd (zs @ [l]))"
    "ocoms_list_length s' = (ocoms_list_length s)(l := ocoms_list_length s l - 1)" by blast
  have "list_rep s' l (ys @ zs)" using list_rep_joined [OF rep s'(2)] s'(3) by simp
  moreover have "untouched s s' (set (l # ys @ x # zs))"
  proof (rule untouchedI)
    fix c assume c: "c \<notin> set (l # ys @ x # zs)"
    have "c \<noteq> last (l # ys)" "c \<noteq> hd (zs @ [l])" "c \<noteq> l" using list_rep_parts [where l = l and ys = ys and zs = zs] c by auto
    then show "get_next s' c = get_next s c \<and> get_prev s' c = get_prev s c \<and> ocoms_list_length s' c = ocoms_list_length s c"
      using s'(2,3) by (simp add: joined_def)
  qed
  ultimately show ?thesis using s'(1,2) by (auto simp: joined_def)
qed

lemma insert_pos_ok:
  assumes rep: "list_rep s l (ys @ zs)" and x: "x \<notin> set (l # ys @ zs)" "is_item s x" and len: "length (ys @ zs) + 1 < 2 ^ 64"
  shows "\<exists>s'. ocoms_list_insert_pos s l (hd (zs @ [l])) x = Some s' \<and> list_rep s' l (ys @ x # zs) \<and>
     untouched s s' (set (l # ys @ x # zs)) \<and> (\<forall>a. is_item s' a = is_item s a)"
proof (rule insert_between [OF rep x(1) _ len])
  show "x \<noteq> NULL" using x(2) by (simp add: is_item_def)
  note n = list_rep_neighbours [OF rep] and p = list_rep_parts [where l = l and ys = ys and zs = zs]
  show "\<exists>s'. ocoms_list_insert_pos s l (hd (zs @ [l])) x = Some s' \<and> inserted s s' (last (l # ys)) x (hd (zs @ [l])) \<and>
     ocoms_list_length s' = (ocoms_list_length s)(l := ocoms_list_length s l + 1)"
    using insert_pos_ins [OF n(2,3,4) x(2)] x(1) p by metis
qed

lemma list_append_ok:
  assumes rep: "list_rep s l xs" and x: "x \<notin> set (l # xs)" "is_item s x" and len: "length xs + 1 < 2 ^ 64"
  shows "\<exists>s'. ocoms_list_append s l x = Some s' \<and> list_rep s' l (xs @ [x]) \<and>
     untouched s s' (set (l # xs @ [x])) \<and> (\<forall>a. is_item s' a = is_item s a)"
proof (rule insert_between [of s l xs "[]" x, simplified append_Nil2, OF rep _ _ len])
  show "x \<noteq> NULL" "x \<notin> set (l # xs)" using x by (simp_all add: is_item_def)
  have rep': "list_rep s l (xs @ [])" using rep by simp
  note n = list_rep_neighbours [OF rep', unfolded append_Nil list.sel]
  have "x \<noteq> last (l # xs)" "x \<noteq> l" using list_rep_parts(1) [of l xs "[]"] x(1) by (auto simp del: last.simps)
  from list_append_ins [OF n(2,3,4) x(2) this]
  show "\<exists>s'. ocoms_list_append s l x = Some s' \<and> inserted s s' (last (l # xs)) x (hd ([] @ [l])) \<and>
     ocoms_list_length s' = (ocoms_list_length s)(l := ocoms_list_length s l + 1)" unfolding append_Nil list.sel .
qed

lemma list_prepend_ok:
  assumes rep: "list_rep s l xs" and x: "x \<notin> set (l # xs)" "is_item s x" and len: "length xs + 1 < 2 ^ 64"
  shows "\<exists>s'. ocoms_list_prepend s l x = Some s' \<and> list_rep s' l (x # xs) \<and>
     untouched s s' (set (l # x # xs)) \<and> (\<forall>a. is_item s' a = is_item s a)"
proof (rule insert_between [of s l "[]" xs x, unfolded append_Nil, OF rep _ _ len])
  show "x \<noteq> NULL" "x \<notin> set (l # xs)" using x by (simp_all add: is_item_def)
  have rep': "list_rep s l ([] @ xs)" using rep by simp
  note n = list_rep_neighbours [OF rep', unfolded last_ConsL [OF refl]]
  have "x \<noteq> hd (xs @ [l])" "x \<noteq> l" using list_rep_parts(2) [of xs l "[]"] x(1) by auto
  from list_prepend_ins [OF n(1,4,3) x(2) this]
  show "\<exists>s'. ocoms_list_prepend s l x = Some s' \<and> inserted s s' (last [l]) x (hd (xs @ [l])) \<and>
     ocoms_list_length s' = (ocoms_list_length s)(l := ocoms_list_length s l + 1)" unfolding last_ConsL [OF refl] .
qed

lemma list_remove_item_ok:
  assumes rep: "list_rep s l (ys @ x # zs)"
  shows "\<exists>s'. ocoms_list_remove_item s l x = Some (last (l # ys), s') \<and> list_rep s' l (ys @ zs) \<and>
     untouched s s' (set (l # ys @ x # zs)) \<and> (\<forall>a. is_item s' a = is_item s a)"
proof (rule join_between [OF rep])
  have rep': "list_rep s l ((ys @ [x]) @ zs)" using rep by simp
  note m = list_rep_neighbours [OF rep, unfolded append_Cons list.sel]
  note n = list_rep_neighbours [OF rep', unfolded append_Cons [symmetric] last_snoc]
  have "x \<notin> set (l # ys)" "x \<notin> set (zs @ [l])" using rep by (auto simp: list_rep_def)
  then have d: "x \<noteq> last (l # ys)" "x \<noteq> hd (zs @ [l])"
    using last_in_set [of "l # ys"] hd_in_set [of "zs @ [l]"] by (auto simp del: last.simps)
  from remove_item_joins [OF m(2) n(1) m(3) n(4) m(4) d]
  show "\<exists>s'. ocoms_list_remove_item s l x = Some (last (l # ys), s') \<and> joined s s' (last (l # ys)) (hd (zs @ [l])) \<and>
     ocoms_list_length s' = (ocoms_list_length s)(l := ocoms_list_length s l - 1)" .
qed

lemma list_rep_size: "list_rep s l xs \<Longrightarrow> unat (ocoms_list_length s l) = length xs"
  by (simp add: list_rep_def unsigned_of_nat take_bit_nat_eq_self)

lemma list_rep_length_nonzero: "list_rep s l xs \<Longrightarrow> xs \<noteq> [] \<Longrightarrow> ocoms_list_length s l \<noteq> 0"
  by (drule list_rep_size) auto

lemma list_remove_first_ok:
  assumes rep: "list_rep s l (x # zs)"
  shows "\<exists>s'. ocoms_list_remove_first s l = Some (x, s') \<and> list_rep s' l zs \<and>
     untouched s s' (set (l # x # zs)) \<and> (\<forall>a. is_item s' a = is_item s a)"
proof (rule join_between [of s l "[]" x zs, unfolded append_Nil, OF rep])
  have rep': "list_rep s l ([] @ x # zs)" "list_rep s l ([x] @ zs)" using rep by simp_all
  note m = list_rep_neighbours [OF rep'(1), unfolded append_Cons list.sel last_ConsL [OF refl]]
  note n = list_rep_neighbours [OF rep'(2), unfolded last_ConsR [OF list.distinct(2)] last_ConsL [OF refl]]
  have "x \<noteq> l" "x \<notin> set (zs @ [l])" using rep by (auto simp: list_rep_def)
  then have "x \<noteq> l" "x \<noteq> hd (zs @ [l])" using hd_in_set [of "zs @ [l]"] by auto
  moreover have "ocoms_list_length s l \<noteq> 0" using list_rep_length_nonzero [OF rep] by simp
  ultimately show "\<exists>s'. ocoms_list_remove_first s l = Some (x, s') \<and> joined s s' (last [l]) (hd (zs @ [l])) \<and>
     ocoms_list_length s' = (ocoms_list_length s)(l := ocoms_list_length s l - 1)"
    unfolding last_ConsL [OF refl] using remove_first_joins [OF m(1,2) n(1) m(3) n(4) m(4)] by blast
qed

lemma list_remove_last_ok:
  assumes rep: "list_rep s l (ys @ [x])"
  shows "\<exists>s'. ocoms_list_remove_last s l = Some (x, s') \<and> list_rep s' l ys \<and>
     untouched s s' (set (l # ys @ [x])) \<and> (\<forall>a. is_item s' a = is_item s a)"
proof (rule join_between [of s l ys x "[]", unfolded append_Nil2, OF rep])
  have rep': "list_rep s l ((ys @ [x]) @ [])" using rep by simp
  note m = list_rep_neighbours [OF rep, unfolded append_Cons list.sel]
  note n = list_rep_neighbours [OF rep', unfolded append_Cons [symmetric] last_snoc append_Nil list.sel]
  have "x \<noteq> l" "x \<notin> set (l # ys)" using rep by (auto simp: list_rep_def)
  then have "x \<noteq> l" "x \<noteq> last (l # ys)" using last_in_set [of "l # ys"] by (auto simp del: last.simps)
  moreover have "ocoms_list_length s l \<noteq> 0" using list_rep_length_nonzero [OF rep] by simp
  ultimately show "\<exists>s'. ocoms_list_remove_last s l = Some (x, s') \<and> joined s s' (last (l # ys)) (hd ([] @ [l])) \<and>
     ocoms_list_length s' = (ocoms_list_length s)(l := ocoms_list_length s l - 1)"
    unfolding append_Nil list.sel using remove_last_joins [OF n(2,1) m(2) n(4) m(3) m(4)] by blast
qed

lemma list_remove_empty:
  "list_rep s l [] \<Longrightarrow> ocoms_list_remove_first s l = Some (NULL, s) \<and> ocoms_list_remove_last s l = Some (NULL, s)"
  by (simp add: list_rep_def ocoms_list_remove_first_def ocoms_list_remove_last_def)

text \<open>Reads.\<close>

lemma list_reads:
  assumes "list_rep s l xs"
  shows "ocoms_list_get_first s l = Some (hd (xs @ [l]))" "ocoms_list_get_last s l = Some (last (l # xs))"
    "ocoms_list_is_empty s l = Some (xs = [])" "unat (ocoms_list_get_size s l) = length xs"
proof -
  have r: "list_rep s l ([] @ xs)" "list_rep s l (xs @ [])" using assms by simp_all
  show f: "ocoms_list_get_first s l = Some (hd (xs @ [l]))"
    using list_rep_neighbours(1) [OF r(1)] by (simp add: ocoms_list_get_first_def)
  show "ocoms_list_get_last s l = Some (last (l # xs))"
    using list_rep_neighbours(2) [OF r(2)] by (simp add: ocoms_list_get_last_def)
  have "hd (xs @ [l]) = l \<longleftrightarrow> xs = []" using assms by (cases xs) (auto simp: list_rep_def)
  then show "ocoms_list_is_empty s l = Some (xs = [])"
    using f by (auto simp: ocoms_list_is_empty_def ocoms_list_get_first_def)
  show "unat (ocoms_list_get_size s l) = length xs"
    using list_rep_size [OF assms] by (simp add: ocoms_list_get_size_def)
qed

text \<open>Walking along a list.\<close>

lemma linked_walk: "linked s (a # ws) \<Longrightarrow> n \<le> length ws \<Longrightarrow> walk s n a = Some ((a # ws) ! n)"
proof (induction n arbitrary: a ws)
  case (Suc n)
  then show ?case by (cases ws) auto
qed simp

lemma list_walk:
  assumes "list_rep s l xs" and "i < length xs"
  shows "walk s i (hd (xs @ [l])) = Some (xs ! i)"
proof -
  obtain x r where xs: "xs = x # r" using assms(2) by (cases xs) auto
  have "linked s (l # x # (r @ [l]))" using assms(1) unfolding list_rep_def xs by simp
  then have "linked s (x # (r @ [l]))" by (simp only: linked.simps)
  then have "walk s i x = Some ((x # r @ [l]) ! i)" by (rule linked_walk) (use assms(2) xs in simp)
  moreover have "(x # r @ [l]) ! i = (x # r) ! i" using nth_append [of "x # r" "[l]" i] assms(2) xs by simp
  ultimately show ?thesis unfolding xs by simp
qed

text \<open>Insertion at an index.\<close>

lemma link_between_ins:
  assumes "is_item s p" "is_item s q" "is_item s x" "x \<noteq> p" "x \<noteq> q"
  shows "\<exists>s'. do { s1 \<leftarrow> set_next s x q; s2 \<leftarrow> set_prev s1 x p; s3 \<leftarrow> set_prev s2 q x; set_next s3 p x } = Some s' \<and>
     inserted s (add_length s' l 1) p x q \<and>
     ocoms_list_length (add_length s' l 1) = (ocoms_list_length s)(l := ocoms_list_length s l + 1)"
  using assms unfolding inserted_def store_defs by (cases "p = q") auto

lemma list_insert_ok:
  assumes rep: "list_rep s l xs" and x: "x \<notin> set (l # xs)" "is_item s x"
    and idx: "0 < idx" "idx < int (length xs)" "idx \<le> 2147483648" and len: "length xs < 2 ^ 63"
  shows "\<exists>s'. ocoms_list_insert s l x idx = Some (True, s') \<and> list_rep s' l (take (nat idx) xs @ x # drop (nat idx) xs) \<and>
     untouched s s' (set (l # xs) \<union> {x}) \<and> (\<forall>a. is_item s' a = is_item s a)"
proof -
  define i where "i = nat idx"
  have i: "0 < i" "i < length xs" "idx = int i" "nat (idx - 1) = i - 1" using idx by (simp_all add: i_def nat_diff_distrib)
  let ?ys = "take i xs" and ?zs = "drop i xs"
  have rep': "list_rep s l (?ys @ ?zs)" using rep by simp
  note n = list_rep_neighbours [OF rep']
  have sl: "sint (ocoms_list_length s l) = int (length xs)"
    using rep len by (simp add: list_rep_def signed_of_nat signed_take_bit_int_eq_self)
  have "?ys \<noteq> []" using i by auto
  then have p: "last (l # ?ys) = xs ! (i - 1)" using i by (simp add: last_conv_nth)
  have "walk s (i - 1) (hd (xs @ [l])) = Some (xs ! (i - 1))" using i by (intro list_walk [OF rep]) simp
  then have w: "walk s (nat (idx - 1)) (hd (xs @ [l])) = Some (last (l # ?ys))" unfolding p i(4) .
  have first: "get_next s l = Some (hd (xs @ [l]))" using list_reads(1) [OF rep] by (simp add: ocoms_list_get_first_def)
  have d: "x \<noteq> last (l # ?ys)" "x \<noteq> hd (?zs @ [l])"
    using list_rep_parts [where l = l and ys = ?ys and zs = ?zs] x(1) by (metis append_take_drop_id)+
  obtain s0 where s0: "do { s1 \<leftarrow> set_next s x (hd (?zs @ [l])); s2 \<leftarrow> set_prev s1 x (last (l # ?ys));
        s3 \<leftarrow> set_prev s2 (hd (?zs @ [l])) x; set_next s3 (last (l # ?ys)) x } = Some s0"
      "inserted s (add_length s0 l 1) (last (l # ?ys)) x (hd (?zs @ [l]))"
      "ocoms_list_length (add_length s0 l 1) = (ocoms_list_length s)(l := ocoms_list_length s l + 1)"
    using link_between_ins [OF n(3,4) x(2) d] by blast
  have run: "ocoms_list_insert s l x idx = Some (True, add_length s0 l 1)"
    unfolding ocoms_list_insert_def using idx sl first w n(1) s0(1) by (simp add: linorder_not_le [symmetric])
  have "\<exists>s'. Some (add_length s0 l 1) = Some s' \<and> list_rep s' l (?ys @ x # ?zs) \<and>
      untouched s s' (set (l # ?ys @ x # ?zs)) \<and> (\<forall>a. is_item s' a = is_item s a)"
    using s0(2,3) x len by (intro insert_between [OF rep']) (auto simp: is_item_def)
  moreover have "set (l # ?ys @ x # ?zs) = set (l # xs) \<union> {x}"
    using arg_cong [OF append_take_drop_id [of i xs], of set] by (auto simp del: append_take_drop_id)
  ultimately show ?thesis using run unfolding i_def by auto
qed

lemma list_insert_beyond:
  assumes "list_rep s l xs" and "int (length xs) \<le> idx" and "length xs < 2 ^ 63"
  shows "ocoms_list_insert s l x idx = Some (False, s)"
proof -
  have "sint (ocoms_list_length s l) = int (length xs)"
    using assms(1,3) by (simp add: list_rep_def signed_of_nat signed_take_bit_int_eq_self)
  then show ?thesis using assms(2) by (simp add: ocoms_list_insert_def)
qed

section \<open>Sequences of operations\<close>

datatype list_op = Op_append addr | Op_prepend addr | Op_insert_pos addr addr | Op_insert addr int |
  Op_remove_first | Op_remove_last | Op_remove_item addr | Op_first | Op_last | Op_size | Op_empty

text \<open>The results of the operations, as numbers.\<close>

fun list_apply :: "list_store \<Rightarrow> addr \<Rightarrow> list_op \<Rightarrow> (nat \<times> list_store) option" where
  "list_apply s l (Op_append x) = map_option (Pair 0) (ocoms_list_append s l x)"
| "list_apply s l (Op_prepend x) = map_option (Pair 0) (ocoms_list_prepend s l x)"
| "list_apply s l (Op_insert_pos p x) = map_option (Pair 0) (ocoms_list_insert_pos s l p x)"
| "list_apply s l (Op_insert x i) = map_option (map_prod of_bool id) (ocoms_list_insert s l x i)"
| "list_apply s l Op_remove_first = ocoms_list_remove_first s l"
| "list_apply s l Op_remove_last = ocoms_list_remove_last s l"
| "list_apply s l (Op_remove_item x) = ocoms_list_remove_item s l x"
| "list_apply s l Op_first = map_option (\<lambda>a. (a, s)) (ocoms_list_get_first s l)"
| "list_apply s l Op_last = map_option (\<lambda>a. (a, s)) (ocoms_list_get_last s l)"
| "list_apply s l Op_size = Some (unat (ocoms_list_get_size s l), s)"
| "list_apply s l Op_empty = map_option (\<lambda>b. (of_bool b, s)) (ocoms_list_is_empty s l)"

fun list_run :: "list_store \<Rightarrow> addr \<Rightarrow> list_op list \<Rightarrow> (nat list \<times> list_store) option" where
  "list_run s l [] = Some ([], s)"
| "list_run s l (op # ops) = do { (r, s1) \<leftarrow> list_apply s l op; (rs, s2) \<leftarrow> list_run s1 l ops; Some (r # rs, s2) }"

text \<open>
  What they promise, on the sequence of the items: \<open>None\<close> where the caller breaks the contract (an
  item that is not constructed, is in the list already, or is the sentinel; an item to remove
  that is not in the list; the index 0; a length the counter cannot hold).
\<close>

definition may_add :: "addr \<Rightarrow> (addr \<Rightarrow> bool) \<Rightarrow> addr list \<Rightarrow> addr \<Rightarrow> bool" where
  "may_add l it xs x \<longleftrightarrow> it x \<and> x \<notin> set (l # xs) \<and> length xs + 1 < 2 ^ 64"

fun seq_apply :: "addr \<Rightarrow> (addr \<Rightarrow> bool) \<Rightarrow> addr list \<Rightarrow> list_op \<Rightarrow> (nat \<times> addr list) option" where
  "seq_apply l it xs (Op_append x) = (if may_add l it xs x then Some (0, xs @ [x]) else None)"
| "seq_apply l it xs (Op_prepend x) = (if may_add l it xs x then Some (0, x # xs) else None)"
| "seq_apply l it xs (Op_insert_pos p x) = (if may_add l it xs x \<and> p \<in> set (l # xs)
     then Some (0, takeWhile (\<lambda>a. a \<noteq> p) xs @ x # dropWhile (\<lambda>a. a \<noteq> p) xs) else None)"
| "seq_apply l it xs (Op_insert x i) =
     (if 2 ^ 63 \<le> length xs then None else if int (length xs) \<le> i then Some (0, xs)
      else if may_add l it xs x \<and> 0 < i \<and> i \<le> 2147483648 then Some (1, take (nat i) xs @ x # drop (nat i) xs) else None)"
| "seq_apply l it xs Op_remove_first = Some (case xs of [] \<Rightarrow> (NULL, []) | x # r \<Rightarrow> (x, r))"
| "seq_apply l it xs Op_remove_last = Some (if xs = [] then (NULL, []) else (last xs, butlast xs))"
| "seq_apply l it xs (Op_remove_item x) = (if x \<in> set xs then Some (last (l # takeWhile (\<lambda>a. a \<noteq> x) xs), remove1 x xs) else None)"
| "seq_apply l it xs Op_first = Some (hd (xs @ [l]), xs)"
| "seq_apply l it xs Op_last = Some (last (l # xs), xs)"
| "seq_apply l it xs Op_size = Some (length xs, xs)"
| "seq_apply l it xs Op_empty = Some (of_bool (xs = []), xs)"

fun seq_run :: "addr \<Rightarrow> (addr \<Rightarrow> bool) \<Rightarrow> addr list \<Rightarrow> list_op list \<Rightarrow> (nat list \<times> addr list) option" where
  "seq_run l it xs [] = Some ([], xs)"
| "seq_run l it xs (op # ops) = do { (r, ys) \<leftarrow> seq_apply l it xs op; (rs, zs) \<leftarrow> seq_run l it ys ops; Some (r # rs, zs) }"

fun op_items :: "list_op \<Rightarrow> addr set" where
  "op_items (Op_append x) = {x}"
| "op_items (Op_prepend x) = {x}"
| "op_items (Op_insert_pos p x) = {x}"
| "op_items (Op_insert x i) = {x}"
| "op_items _ = {}"

lemma untouched_refl [simp]: "untouched s s X"
  by (simp add: untouched_def)

lemma untouched_mono: "untouched s s' X \<Longrightarrow> X \<subseteq> Y \<Longrightarrow> untouched s s' Y"
  unfolding untouched_def by blast

lemma untouched_trans: "untouched s s1 X \<Longrightarrow> untouched s1 s2 Y \<Longrightarrow> untouched s s2 (X \<union> Y)"
  unfolding untouched_def by (simp add: Int_Un_distrib)

lemma seq_apply_items: "seq_apply l it xs op = Some (r, ys) \<Longrightarrow> set ys \<subseteq> set xs \<union> op_items op"
  by (cases op) (auto split: if_splits list.splits dest: set_takeWhileD set_dropWhileD in_set_takeD in_set_dropD
    in_set_butlastD notin_set_remove1 dest!: set_mp [OF set_remove1_subset])

lemma list_apply_refines:
  assumes rep: "list_rep s l xs" and sq: "seq_apply l (is_item s) xs op = Some (r, ys)"
  shows "\<exists>s'. list_apply s l op = Some (r, s') \<and> list_rep s' l ys \<and> untouched s s' (set (l # xs) \<union> op_items op) \<and>
     (\<forall>a. is_item s' a = is_item s a)"
proof (cases op)
  case (Op_append x)
  then show ?thesis using list_append_ok [OF rep, of x] sq
    by (auto simp: may_add_def split: if_splits elim: untouched_mono)
next
  case (Op_prepend x)
  then show ?thesis using list_prepend_ok [OF rep, of x] sq
    by (auto simp: may_add_def split: if_splits elim: untouched_mono)
next
  case (Op_insert_pos p x)
  let ?t = "takeWhile (\<lambda>a. a \<noteq> p) xs" and ?d = "dropWhile (\<lambda>a. a \<noteq> p) xs"
  have c: "may_add l (is_item s) xs x" "p \<in> set (l # xs)" "ys = ?t @ x # ?d" "r = 0" using sq Op_insert_pos by (auto split: if_splits)
  have rep': "list_rep s l (?t @ ?d)" using rep by simp
  have p: "hd (?d @ [l]) = p"
  proof (cases "p \<in> set xs")
    case True
    then have "?d \<noteq> []" by (auto simp: dropWhile_eq_Nil_conv)
    then show ?thesis using hd_dropWhile [of "\<lambda>a. a \<noteq> p" xs] by simp
  next
    case False
    then have "?d = []" by (simp add: dropWhile_eq_Nil_conv) metis
    then have "hd (?d @ [l]) = l" by (simp only: append_Nil list.sel)
    moreover have "p = l" using c(2) False by simp
    ultimately show ?thesis by (simp only:)
  qed
  have e: "set ?t \<union> set ?d = set xs" unfolding set_append [symmetric] by simp
  have "x \<notin> set (l # ?t @ ?d)" "is_item s x" "length (?t @ ?d) + 1 < 2 ^ 64" using c(1) by (simp_all add: may_add_def)
  from insert_pos_ok [OF rep' this] obtain s' where s': "ocoms_list_insert_pos s l p x = Some s'" "list_rep s' l ys"
    "untouched s s' (set (l # ?t @ x # ?d))" "\<forall>a. is_item s' a = is_item s a" unfolding p c(3) by blast
  moreover have "set (l # ?t @ x # ?d) = set (l # xs) \<union> {x}" using e by auto
  ultimately show ?thesis using Op_insert_pos c(4) by simp
next
  case (Op_insert x i)
  show ?thesis
  proof (cases "int (length xs) \<le> i")
    case True
    then have "r = 0" "ys = xs" "length xs < 2 ^ 63" using sq Op_insert by (simp_all split: if_splits)
    then show ?thesis using list_insert_beyond [OF rep True, of x] rep Op_insert by simp
  next
    case False
    then have c: "may_add l (is_item s) xs x" "0 < i" "i \<le> 2147483648" "length xs < 2 ^ 63" "r = 1"
      "ys = take (nat i) xs @ x # drop (nat i) xs" using sq Op_insert by (simp_all split: if_splits)
    have "x \<notin> set (l # xs)" "is_item s x" using c(1) by (simp_all add: may_add_def)
    from list_insert_ok [OF rep this c(2) _ c(3,4)] False show ?thesis unfolding c(5,6) Op_insert by auto
  qed
next
  case Op_remove_first
  then show ?thesis using list_remove_first_ok list_remove_empty rep sq
    by (cases xs) fastforce+
next
  case Op_remove_last
  show ?thesis
  proof (cases "xs = []")
    case True
    then show ?thesis using list_remove_empty rep sq Op_remove_last by simp
  next
    case False
    then have e: "xs = butlast xs @ [last xs]" by simp
    have "list_rep s l (butlast xs @ [last xs])" using rep e by simp
    from list_remove_last_ok [OF this] show ?thesis using False sq Op_remove_last unfolding e [symmetric] by auto
  qed
next
  case (Op_remove_item x)
  then have "x \<in> set xs" using sq by (simp split: if_splits)
  then obtain us vs where xs: "xs = us @ x # vs" "x \<notin> set us" by (meson split_list_first)
  have "takeWhile (\<lambda>a. a \<noteq> x) xs = us" unfolding xs(1) using xs(2) by (subst takeWhile_append2) auto
  moreover have "remove1 x xs = us @ vs" using xs by (simp add: remove1_append)
  ultimately have "r = last (l # us)" "ys = us @ vs" using sq Op_remove_item \<open>x \<in> set xs\<close> by (auto simp del: last.simps)
  then show ?thesis using list_remove_item_ok [of s l us x vs] rep Op_remove_item unfolding xs(1) by (simp del: last.simps)
qed (use rep sq list_reads [OF rep] in auto)

lemma list_run_refines:
  "list_rep s l xs \<Longrightarrow> seq_run l (is_item s) xs ops = Some (rs, ys) \<Longrightarrow>
   \<exists>s'. list_run s l ops = Some (rs, s') \<and> list_rep s' l ys \<and> untouched s s' (set (l # xs) \<union> \<Union> (op_items ` set ops))"
proof (induction ops arbitrary: s xs rs)
  case (Cons op ops)
  obtain r xs1 rs1 where sq: "seq_apply l (is_item s) xs op = Some (r, xs1)" "seq_run l (is_item s) xs1 ops = Some (rs1, ys)" "rs = r # rs1"
    using Cons.prems(2) by (auto simp: bind_eq_Some_conv)
  obtain s1 where s1: "list_apply s l op = Some (r, s1)" "list_rep s1 l xs1" "untouched s s1 (set (l # xs) \<union> op_items op)"
    "\<forall>a. is_item s1 a = is_item s a" using list_apply_refines [OF Cons.prems(1) sq(1)] by blast
  have "is_item s1 = is_item s" using s1(4) by blast
  then obtain s' where s': "list_run s1 l ops = Some (rs1, s')" "list_rep s' l ys"
    "untouched s1 s' (set (l # xs1) \<union> \<Union> (op_items ` set ops))" using Cons.IH [OF s1(2)] sq(2) by auto
  have "(set (l # xs) \<union> op_items op) \<union> (set (l # xs1) \<union> \<Union> (op_items ` set ops)) \<subseteq> set (l # xs) \<union> \<Union> (op_items ` set (op # ops))"
    using seq_apply_items [OF sq(1)] by auto
  with untouched_trans [OF s1(3) s'(3)] have "untouched s s' (set (l # xs) \<union> \<Union> (op_items ` set (op # ops)))"
    by (rule untouched_mono)
  then show ?case using s1(1) s'(1,2) sq(3) by (auto intro!: exI [of _ s'])
qed simp

text \<open>
  C16: Every sequence of list operations that keeps to the contract (only constructed items that
  are not in the list are added, no insertion at index 0) runs without undefined behaviour, returns
  what the same operations on the sequence of items return, and leaves a well-formed ring that holds
  the resulting sequence.  A list that shares no item with it is not touched.
\<close>

theorem list_ops_refine:
  assumes "list_rep s l xs" and "seq_run l (is_item s) xs ops = Some (rs, ys)"
    and "list_rep s m zs" and "set (m # zs) \<inter> (set (l # xs) \<union> \<Union> (op_items ` set ops)) = {}"
  shows "\<exists>s'. list_run s l ops = Some (rs, s') \<and> list_rep s' l ys \<and> list_rep s' m zs"
  using list_run_refines [OF assms(1,2)] assms(3,4) unfolding untouched_def by blast

text \<open>A store with two lists, at 1 and 2, and items at 3 to 7; the second list holds 7 and 6.\<close>

definition sample_lists :: list_store where
  "sample_lists = \<lparr>items = (\<lambda>a. if a = 1 then Some \<lparr>ocoms_list_next = 1, ocoms_list_prev = 1, item_free = 1\<rparr>
      else if a = 2 then Some \<lparr>ocoms_list_next = 7, ocoms_list_prev = 6, item_free = 1\<rparr>
      else if a = 7 then Some \<lparr>ocoms_list_next = 6, ocoms_list_prev = 2, item_free = 1\<rparr>
      else if a = 6 then Some \<lparr>ocoms_list_next = 2, ocoms_list_prev = 7, item_free = 1\<rparr>
      else if a \<in> {3, 4, 5} then Some \<lparr>ocoms_list_next = 0, ocoms_list_prev = 0, item_free = 1\<rparr> else None),
     ocoms_list_length = (\<lambda>a. if a = 2 then 2 else 0)\<rparr>"

lemma sample_lists_rep: "list_rep sample_lists 1 []" "list_rep sample_lists 2 [7, 6]"
  by (simp_all add: list_rep_def sample_lists_def get_next_def get_prev_def NULL_def)

lemma sample_lists_item: "is_item sample_lists = (\<lambda>a. a \<in> {1, 2, 3, 4, 5, 6, 7})"
  by (auto simp: is_item_def sample_lists_def NULL_def fun_eq_iff)

abbreviation "sample_ops \<equiv> [Op_append 3, Op_prepend 4, Op_insert 5 1, Op_insert 5 7, Op_last, Op_remove_item 5, Op_remove_first, Op_size]"

theorem list_ops_refine_witness:
  "\<exists>s'. list_run sample_lists 1 sample_ops = Some ([0, 0, 1, 0, 3, 4, 4, 1], s') \<and> list_rep s' 1 [3] \<and> list_rep s' 2 [7, 6]"
  by (rule list_ops_refine [OF sample_lists_rep(1) _ sample_lists_rep(2)])
    (simp_all add: sample_lists_item may_add_def)

section \<open>Insertion at index 0\<close>

lemma linked_unique:
  "linked s (a # xs @ [l]) \<Longrightarrow> linked s (a # ys @ [l]) \<Longrightarrow> l \<notin> set xs \<Longrightarrow> l \<notin> set ys \<Longrightarrow> xs = ys"
proof (induction xs arbitrary: a ys)
  case Nil
  then show ?case by (cases ys) auto
next
  case (Cons x xs)
  obtain y ys' where ys: "ys = y # ys'" using Cons.prems by (cases ys) auto
  have "x = y" "linked s (x # xs @ [l])" "linked s (y # ys' @ [l])" using Cons.prems(1,2) unfolding ys by simp_all
  then show ?case using Cons.IH [of x ys'] Cons.prems(3,4) unfolding ys by simp
qed

lemma linked_items: "items s' = items s \<Longrightarrow> linked s' ws = linked s ws"
  by (induction s ws rule: linked.induct) (simp_all add: get_next_def get_prev_def)

lemma list_rep_unique: "list_rep s' l ys \<Longrightarrow> list_rep s l xs \<Longrightarrow> items s' = items s \<Longrightarrow> ys = xs"
  using linked_items [of s' s] linked_unique [of s l ys l xs] by (auto simp: list_rep_def)

text \<open>
  Inserting at index 0 of a non-empty list links the item in first place, but the length is counted
  by the prepend and again by the insertion: no sequence of items is represented any more, although
  with one subtracted from the counter the list would be right.
\<close>

theorem insert_at_zero_counts_twice:
  assumes "list_rep s l xs" and "xs \<noteq> []" and "may_add l (is_item s) xs x" and "length xs < 2 ^ 63"
  shows "\<exists>s'. ocoms_list_insert s l x 0 = Some (True, s') \<and> list_rep (add_length s' l (- 1)) l (x # xs) \<and>
     ocoms_list_get_size s' l = of_nat (length xs) + 2 \<and> (\<forall>ys. \<not> list_rep s' l ys)"
proof -
  have x: "x \<notin> set (l # xs)" "is_item s x" "length xs + 1 < 2 ^ 64" using assms(3) by (simp_all add: may_add_def)
  obtain s1 where s1: "ocoms_list_prepend s l x = Some s1" "list_rep s1 l (x # xs)" using list_prepend_ok [OF assms(1) x] by blast
  let ?s = "add_length s1 l 1"
  have "sint (ocoms_list_length s l) = int (length xs)"
    using assms(1,4) by (simp add: list_rep_def signed_of_nat signed_take_bit_int_eq_self)
  then have run: "ocoms_list_insert s l x 0 = Some (True, ?s)" using assms(2) s1(1) by (simp add: ocoms_list_insert_def)
  have len: "ocoms_list_length s1 l = of_nat (length (x # xs))" using s1(2) by (simp add: list_rep_def)
  have undo: "add_length ?s l (- 1) = s1" by (simp add: add_length_def)
  have "\<not> list_rep ?s l ys" for ys
  proof
    assume r: "list_rep ?s l ys"
    have "items ?s = items s1" by (simp add: add_length_def)
    then have "ys = x # xs" using list_rep_unique [OF r s1(2)] by blast
    then have "ocoms_list_length ?s l = ocoms_list_length s1 l" using r s1(2) unfolding list_rep_def by (simp only:)
    then show False by (simp add: add_length_def)
  qed
  then show ?thesis using run s1(2) undo len by (auto simp: ocoms_list_get_size_def add_length_def)
qed

theorem insert_at_zero_counts_twice_witness:
  "\<exists>s'. ocoms_list_insert sample_lists 2 3 0 = Some (True, s') \<and> list_rep (add_length s' 2 (- 1)) 2 [3, 7, 6] \<and>
     ocoms_list_get_size s' 2 = of_nat (length [7, 6 :: addr]) + 2 \<and> (\<forall>ys. \<not> list_rep s' 2 ys)"
  by (rule insert_at_zero_counts_twice [OF sample_lists_rep(2)]) (simp_all add: sample_lists_item may_add_def)

section \<open>Moving a segment to another list\<close>

text \<open>
  \<open>transfer\<close> moves the items from \<open>begin\<close> up to, not including, \<open>end\<close> in front of \<open>pos\<close>.  Seen
  from the rings of two separate lists, three links change.
\<close>

definition moved :: "list_store \<Rightarrow> list_store \<Rightarrow> addr \<Rightarrow> addr \<Rightarrow> addr \<Rightarrow> addr \<Rightarrow> addr \<Rightarrow> addr \<Rightarrow> bool" where
  "moved s s' p pos b e q k \<longleftrightarrow>
     (\<forall>c. get_next s' c = (if c = e then Some pos else if c = q then Some k else if c = p then Some b else get_next s c)) \<and>
     (\<forall>c. get_prev s' c = (if c = b then Some p else if c = k then Some q else if c = pos then Some e else get_prev s c)) \<and>
     (\<forall>c. is_item s' c = is_item s c) \<and> ocoms_list_length s' = ocoms_list_length s"

lemma transfer_moves:
  assumes "get_prev s pos = Some p" "get_prev s b = Some q" "get_prev s k = Some e"
    and "is_item s p" "is_item s pos" "is_item s b" "is_item s q" "is_item s k" "is_item s e"
    and "pos \<noteq> k" "pos \<noteq> b" "k \<noteq> b" "p \<noteq> q" "p \<noteq> e" "q \<noteq> e"
  shows "\<exists>s'. ocoms_list_transfer s pos b k = Some s' \<and> moved s s' p pos b e q k"
proof -
  obtain s1 where s1: "set_next s e pos = Some s1" "\<forall>c. get_next s1 c = (if c = e then Some pos else get_next s c)"
    "get_prev s1 = get_prev s" "ocoms_list_length s1 = ocoms_list_length s" "\<forall>c. is_item s1 c = is_item s c"
    using set_next_eq [OF assms(9)] by blast
  have "is_item s1 q" using s1(5) assms(7) by simp
  then obtain s2 where s2: "set_next s1 q k = Some s2" "\<forall>c. get_next s2 c = (if c = q then Some k else get_next s1 c)"
    "get_prev s2 = get_prev s1" "ocoms_list_length s2 = ocoms_list_length s1" "\<forall>c. is_item s2 c = is_item s1 c"
    using set_next_eq by blast
  have "is_item s2 p" using s1(5) s2(5) assms(4) by simp
  then obtain s3 where s3: "set_next s2 p b = Some s3" "\<forall>c. get_next s3 c = (if c = p then Some b else get_next s2 c)"
    "get_prev s3 = get_prev s2" "ocoms_list_length s3 = ocoms_list_length s2" "\<forall>c. is_item s3 c = is_item s2 c"
    using set_next_eq by blast
  have "is_item s3 pos" using s1(5) s2(5) s3(5) assms(5) by simp
  then obtain s4 where s4: "set_prev s3 pos e = Some s4" "\<forall>c. get_prev s4 c = (if c = pos then Some e else get_prev s3 c)"
    "get_next s4 = get_next s3" "ocoms_list_length s4 = ocoms_list_length s3" "\<forall>c. is_item s4 c = is_item s3 c"
    using set_prev_eq by blast
  have "is_item s4 k" using s1(5) s2(5) s3(5) s4(5) assms(8) by simp
  then obtain s5 where s5: "set_prev s4 k q = Some s5" "\<forall>c. get_prev s5 c = (if c = k then Some q else get_prev s4 c)"
    "get_next s5 = get_next s4" "ocoms_list_length s5 = ocoms_list_length s4" "\<forall>c. is_item s5 c = is_item s4 c"
    using set_prev_eq by blast
  have "is_item s5 b" using s1(5) s2(5) s3(5) s4(5) s5(5) assms(6) by simp
  then obtain s6 where s6: "set_prev s5 b p = Some s6" "\<forall>c. get_prev s6 c = (if c = b then Some p else get_prev s5 c)"
    "get_next s6 = get_next s5" "ocoms_list_length s6 = ocoms_list_length s5" "\<forall>c. is_item s6 c = is_item s5 c"
    using set_prev_eq by blast
  have "ocoms_list_transfer s pos b k = Some s6"
    using assms(1-3,10-12) s1(1,3) s2(1,3) s3(1,3) s4(1,2) s5(1) s6(1) by (simp add: ocoms_list_transfer_def)
  moreover have "moved s s6 p pos b e q k"
    unfolding moved_def using assms(13-15) s1(2-5) s2(2-5) s3(2-5) s4(2-5) s5(2-5) s6(2-5) by auto
  ultimately show ?thesis by blast
qed

text \<open>The two rings before: \<open>A @ [p]\<close> and \<open>pos # B\<close>; \<open>C @ [q]\<close>, the segment from \<open>b\<close> to \<open>e\<close>, and \<open>k # D\<close>.\<close>

lemma moved_linked:
  assumes m: "moved s s' p pos b e q k" and w: "linked s ws"
    and "e \<notin> set (butlast ws)" "q \<notin> set (butlast ws)" "p \<notin> set (butlast ws)"
    and "b \<notin> set (tl ws)" "k \<notin> set (tl ws)" "pos \<notin> set (tl ws)"
  shows "linked s' ws"
  using m assms(3-8) by (intro linked_cong [OF _ _ w]) (auto simp: moved_def)

lemma linked_parts: "linked s (A @ B) \<Longrightarrow> linked s A \<and> linked s B"
proof (induction A)
  case (Cons a A)
  then show ?case by (cases "A @ B"; cases A) (auto simp del: append_is_Nil_conv)
qed simp

text \<open>The places of one ring do not meet the changes in the other.\<close>

lemma moved_segments:
  assumes m: "moved s s' p pos b e q k"
    and l: "linked s (A @ [p])" "linked s (pos # B)" "linked s (C @ [q])" "linked s (k # D)" "linked s ms"
    and a: "p \<notin> set A" "p \<notin> set (butlast (pos # B))" "pos \<notin> set (tl (A @ [p]))" "pos \<notin> set B"
    and c: "q \<notin> set C" "q \<notin> set (butlast (k # D))" "k \<notin> set (tl (C @ [q]))" "k \<notin> set D"
    and d: "b \<in> set ms" "e \<in> set ms" "e \<notin> set (butlast ms)" "b \<notin> set (tl ms)"
    and sep: "(set (A @ [p]) \<union> set (pos # B)) \<inter> (set (C @ [q]) \<union> set (k # D)) = {}"
      "(set (A @ [p]) \<union> set (pos # B)) \<inter> set ms = {}" "(set (C @ [q]) \<union> set (k # D)) \<inter> set ms = {}"
  shows "linked s' (A @ [p])" "linked s' (pos # B)" "linked s' (C @ [q])" "linked s' (k # D)" "linked s' ms"
proof -
  show "linked s' (A @ [p])"
    by (rule moved_linked [OF m l(1)]) (use a d(1,2) sep in_set_tl [of b] in_set_tl [of k] in \<open>fastforce+\<close>)
  show "linked s' (pos # B)"
    by (rule moved_linked [OF m l(2)]) (use a d(1,2) sep in_set_butlastD [of e "pos # B"] in_set_butlastD [of q "pos # B"] in \<open>fastforce simp del: butlast.simps\<close>)+
  show "linked s' (C @ [q])"
    by (rule moved_linked [OF m l(3)]) (use c d(1,2) sep in_set_tl [of b] in_set_tl [of pos] in \<open>fastforce+\<close>)
  show "linked s' (k # D)"
    by (rule moved_linked [OF m l(4)]) (use c d(1,2) sep in_set_butlastD [of e "k # D"] in_set_butlastD [of p "k # D"] in \<open>fastforce simp del: butlast.simps\<close>)+
  show "linked s' ms"
    by (rule moved_linked [OF m l(5)]) (use d sep in \<open>auto dest!: in_set_butlastD in_set_tl\<close>)
qed

lemma list_rep_moved:
  assumes rep: "list_rep s l (as @ bs)" and xrep: "list_rep s x (cs @ ms @ ds)" and ms: "ms \<noteq> []"
    and sep: "set (l # as @ bs) \<inter> set (x # cs @ ms @ ds) = {}"
    and m: "moved s s' (last (l # as)) (hd (bs @ [l])) (hd ms) (last ms) (last (x # cs)) (hd (ds @ [x]))"
    and len: "ocoms_list_length s2 = (ocoms_list_length s)(l := of_nat (length (as @ ms @ bs)), x := of_nat (length (cs @ ds)))"
      "items s2 = items s'" "length (as @ ms @ bs) < 2 ^ 64"
  shows "list_rep s2 l (as @ ms @ bs)" "list_rep s2 x (cs @ ds)"
proof -
  obtain A B p pos where r: "p = last (l # as)" "pos = hd (bs @ [l])" "l # as = A @ [p]" "bs @ [l] = pos # B"
    "l # (as @ bs) @ [l] = A @ p # pos # B" by (rule ring_cut)
  obtain C D q k where t: "q = last (x # cs)" "k = hd (ds @ [x])" "x # cs = C @ [q]" "ds @ [x] = k # D"
    "x # (cs @ ds) @ [x] = C @ q # k # D" by (rule ring_cut)
  obtain b M where M: "ms = b # M" using ms by (cases ms) auto
  obtain N e where N: "ms = N @ [e]" using ms by (cases ms rule: rev_cases) auto
  have m': "moved s s' p pos b e q k" using m unfolding r(1,2) t(1,2) using M N by (metis list.sel(1) last_snoc)
  have dl: "distinct (l # as @ bs)" "NULL \<notin> set (l # as @ bs)" "linked s (l # (as @ bs) @ [l])" using rep unfolding list_rep_def by blast+
  have dx: "distinct (x # cs @ ms @ ds)" "NULL \<notin> set (x # cs @ ms @ ds)" "linked s (x # (cs @ ms @ ds) @ [x])"
    "length (cs @ ms @ ds) < 2 ^ 64" using xrep unfolding list_rep_def by blast+
  have L: "linked s (A @ [p])" "linked s (pos # B)" using dl(3) unfolding r(5) by (simp_all add: linked_mid)
  have "x # (cs @ ms @ ds) @ [x] = (C @ [q]) @ ms @ (k # D)" unfolding t(3,4) [symmetric] by simp
  then have X: "linked s ((C @ [q]) @ ms @ (k # D))" using dx(3) by simp
  then have X': "linked s (C @ [q])" "linked s ms" "linked s (k # D)" by (blast dest: linked_parts)+
  have in3: "b \<in> set ms" "e \<in> set ms" unfolding M by simp (simp add: N [unfolded M])
  have dm: "distinct ms" "distinct (x # cs @ ds)" "NULL \<notin> set ms" using dx(1,2) by auto
  have em: "e \<notin> set (butlast ms)" using dm(1) unfolding N by simp
  have bm: "b \<notin> set (tl ms)" using dm(1) unfolding M by simp
  have sets: "set (A @ [p]) \<union> set (pos # B) = set (l # as @ bs)" "set (C @ [q]) \<union> set (k # D) = set (x # cs @ ds)"
    unfolding r(3,4) [symmetric] t(3,4) [symmetric] by auto
  have sp: "(set (A @ [p]) \<union> set (pos # B)) \<inter> (set (C @ [q]) \<union> set (k # D)) = {}"
      "(set (A @ [p]) \<union> set (pos # B)) \<inter> set ms = {}" "(set (C @ [q]) \<union> set (k # D)) \<inter> set ms = {}"
    unfolding sets using sep dx(1) by auto
  note Y = moved_segments [OF m' L X'(1,3,2) ring_split [OF r(5) dl(1)] ring_split [OF t(5) dm(2)] in3 em bm sp]
  have "p \<noteq> q" "p \<noteq> e" "q \<noteq> e" "pos \<noteq> b" "k \<noteq> b" "pos \<noteq> k" using sp in3 by auto
  then have new: "get_next s' p = Some b" "get_prev s' b = Some p" "get_next s' e = Some pos" "get_prev s' pos = Some e"
    "get_next s' q = Some k" "get_prev s' k = Some q" using m' by (auto simp: moved_def)
  have it: "linked s2 = linked s'" using linked_items [OF len(2)] by blast
  have "linked s' (N @ e # pos # B)" using Y(5,2) new(3,4) unfolding N linked_mid by blast
  moreover have "N @ e # pos # B = b # M @ pos # B" using arg_cong [OF trans [OF N [symmetric] M], of "\<lambda>w. w @ pos # B"] by simp
  ultimately have "linked s' (b # M @ pos # B)" by (simp only:)
  then have "linked s' (A @ p # b # M @ pos # B)" using Y(1) new(1,2) unfolding linked_mid by blast
  moreover have "A @ p # b # M @ pos # B = l # (as @ ms @ bs) @ [l]"
    using arg_cong2 [OF r(3) arg_cong2 [OF M r(4), of append], of append] by simp
  ultimately have R1: "linked s2 (l # (as @ ms @ bs) @ [l])" unfolding it by (simp only:)
  have "linked s' (C @ q # k # D)" using Y(3,4) new(5,6) unfolding linked_mid by blast
  then have R2: "linked s2 (x # (cs @ ds) @ [x])" unfolding it t(5) .
  have "l \<noteq> x" using sep by auto
  then show "list_rep s2 l (as @ ms @ bs)"
    unfolding list_rep_def using R1 len(1,3) dl(1,2) dm sep by auto
  show "list_rep s2 x (cs @ ds)"
    unfolding list_rep_def using R2 len(1) dx(1,2,4) by auto
qed

lemma count_to_linked:
  "linked s (ms @ k # D) \<Longrightarrow> k \<notin> set ms \<Longrightarrow> count_to s (hd (ms @ [k])) k n = Some (n + of_nat (length ms))"
proof (induction ms arbitrary: n)
  case Nil
  then show ?case by (simp add: count_to.simps)
next
  case (Cons a ms)
  have "get_next s a = Some (hd (ms @ [k]))" "linked s (ms @ k # D)" using Cons.prems(1) by (cases ms; simp)+
  then show ?case using Cons.IH [of "n + 1"] Cons.prems(2) by (simp add: count_to.simps [of s a] add.assoc)
qed

lemma moved_untouched:
  assumes "moved s s' p pos b e q k" and "{p, pos, b, e, q, k, l, x} \<subseteq> X"
    and "items s2 = items s'" and "ocoms_list_length s2 = (ocoms_list_length s)(l := v, x := w)"
  shows "untouched s s2 X"
proof (rule untouchedI)
  fix c assume "c \<notin> X"
  then have "c \<notin> {p, pos, b, e, q, k, l, x}" using assms(2) by blast
  then have "get_next s' c = get_next s c" "get_prev s' c = get_prev s c" "ocoms_list_length s2 c = ocoms_list_length s c"
    using assms(1,4) by (simp_all add: moved_def)
  then show "get_next s2 c = get_next s c \<and> get_prev s2 c = get_prev s c \<and> ocoms_list_length s2 c = ocoms_list_length s c"
    using assms(3) by (simp add: get_next_def get_prev_def)
qed

text \<open>The transfer between two lists, with the lengths that fit.\<close>

lemma transfer_between:
  assumes rep: "list_rep s l (as @ bs)" and xrep: "list_rep s x (cs @ ms @ ds)" and ms: "ms \<noteq> []"
    and sep: "set (l # as @ bs) \<inter> set (x # cs @ ms @ ds) = {}" and len: "length (as @ ms @ bs) < 2 ^ 64"
  shows "\<exists>s'. ocoms_list_transfer s (hd (bs @ [l])) (hd ms) (hd (ds @ [x])) = Some s' \<and> ocoms_list_length s' = ocoms_list_length s \<and>
     (\<forall>s2. items s2 = items s' \<longrightarrow> ocoms_list_length s2 =
        (ocoms_list_length s)(l := of_nat (length (as @ ms @ bs)), x := of_nat (length (cs @ ds))) \<longrightarrow>
        list_rep s2 l (as @ ms @ bs) \<and> list_rep s2 x (cs @ ds) \<and> untouched s s2 (set (l # as @ bs) \<union> set (x # cs @ ms @ ds)))"
proof -
  obtain b M where M: "ms = b # M" using ms by (cases ms) auto
  obtain N e where N: "ms = N @ [e]" using ms by (cases ms rule: rev_cases) auto
  have hl: "hd ms = b" "last ms = e" using M N by (metis list.sel(1) last_snoc)+
  have x1: "list_rep s x ((cs @ ms) @ ds)" using xrep by simp
  have x2: "list_rep s x (cs @ (ms @ ds))" using xrep by simp
  have e: "last (x # cs @ ms) = e" unfolding N by simp
  have b: "hd ((ms @ ds) @ [x]) = b" unfolding M by simp
  let ?p = "last (l # as)" and ?pos = "hd (bs @ [l])" and ?q = "last (x # cs)" and ?k = "hd (ds @ [x])"
  note n1 = list_rep_neighbours [OF rep]
  note n2 = list_rep_neighbours [OF x1, unfolded e]
  note n3 = list_rep_neighbours [OF x2, unfolded b]
  note i = list_rep_parts [where l = l and ys = as and zs = bs] list_rep_parts [where l = x and ys = cs and zs = ds]
  have ibe: "b \<in> set ms" "e \<in> set ms" unfolding M by simp (simp add: N [unfolded M])
  have dx: "distinct (x # cs @ ms @ ds)" using xrep by (simp only: list_rep_def)
  have "set (x # cs @ ds) \<inter> set ms = {}" "set (x # cs @ ds) \<subseteq> set (x # cs @ ms @ ds)" "set ms \<subseteq> set (x # cs @ ms @ ds)" using dx by auto
  then have d: "?pos \<noteq> ?k" "?pos \<noteq> b" "?k \<noteq> b" "?p \<noteq> ?q" "?p \<noteq> e" "?q \<noteq> e"
    using sep i ibe by (metis (no_types, lifting) disjoint_iff subsetD)+
  obtain s' where s': "ocoms_list_transfer s ?pos b ?k = Some s'" "moved s s' ?p ?pos b e ?q ?k"
    using transfer_moves [OF n1(2) n3(2) n2(2) n1(3,4) n3(4,3) n2(4,3) d] by blast
  have "{?p, ?pos, b, e, ?q, ?k, l, x} \<subseteq> set (l # as @ bs) \<union> set (x # cs @ ms @ ds)"
    using i ibe by (auto simp del: last.simps)
  then show ?thesis
    using s' list_rep_moved [OF rep xrep ms sep, unfolded hl, OF s'(2) _ _ len] moved_untouched [OF s'(2)]
    unfolding hl by (intro exI [of _ s'] conjI allI impI) (simp_all only: moved_def)
qed

text \<open>
  C17: \<open>ocoms_list_splice\<close> takes a contiguous (possibly empty) segment out of one list and puts it, in
  order, in front of a position of another; both lists stay well-formed with the right lengths, and
  all other lists are left alone.
\<close>

theorem splice_moves_segment:
  assumes rep: "list_rep s l (as @ bs)" and xrep: "list_rep s x (cs @ ms @ ds)"
    and sep: "set (l # as @ bs) \<inter> set (x # cs @ ms @ ds) = {}" and len: "length (as @ ms @ bs) < 2 ^ 64"
  shows "\<exists>s'. ocoms_list_splice s l (hd (bs @ [l])) x (hd (ms @ ds @ [x])) (hd (ds @ [x])) = Some s' \<and>
    list_rep s' l (as @ ms @ bs) \<and> list_rep s' x (cs @ ds) \<and> untouched s s' (set (l # as @ bs) \<union> set (x # cs @ ms @ ds))"
proof (cases "ms = []")
  case True
  then show ?thesis using rep xrep by (simp add: ocoms_list_splice_def)
next
  case False
  obtain C D q k where t: "q = last (x # cs)" "k = hd (ds @ [x])" "x # cs = C @ [q]" "ds @ [x] = k # D"
    "x # (cs @ ds) @ [x] = C @ q # k # D" by (rule ring_cut)
  have h: "hd (ms @ ds @ [x]) = hd ms" "hd (ms @ [k]) = hd ms" using False by simp_all
  have dx: "distinct (x # cs @ ms @ ds)" "linked s (x # (cs @ ms @ ds) @ [x])" using xrep unfolding list_rep_def by blast+
  have "x # (cs @ ms @ ds) @ [x] = (x # cs) @ ms @ (k # D)" unfolding t(4) [symmetric] by simp
  then have "linked s (ms @ k # D)" using linked_parts [of s "x # cs" "ms @ k # D"] dx(2) by simp
  moreover have "k \<in> set (ds @ [x])" unfolding t(4) by simp
  then have "k \<notin> set ms" "hd ms \<noteq> k" using dx(1) hd_in_set [OF False] by auto
  ultimately have count: "count_to s (hd ms) k 0 = Some (of_nat (length ms))" and ne: "hd ms \<noteq> k"
    using count_to_linked [of s ms k D 0] unfolding h(2) by simp_all
  obtain s1 where s1: "ocoms_list_transfer s (hd (bs @ [l])) (hd ms) k = Some s1" "ocoms_list_length s1 = ocoms_list_length s"
    "\<And>s2. items s2 = items s1 \<Longrightarrow> ocoms_list_length s2 =
        (ocoms_list_length s)(l := of_nat (length (as @ ms @ bs)), x := of_nat (length (cs @ ds))) \<Longrightarrow>
        list_rep s2 l (as @ ms @ bs) \<and> list_rep s2 x (cs @ ds) \<and> untouched s s2 (set (l # as @ bs) \<union> set (x # cs @ ms @ ds))"
    using transfer_between [OF rep xrep False sep len] unfolding t(2) [symmetric] by blast
  let ?s2 = "add_length (add_length s1 l (of_nat (length ms))) x (- of_nat (length ms))"
  have "l \<noteq> x" using sep by auto
  moreover have "ocoms_list_length s l = of_nat (length (as @ bs))" "ocoms_list_length s x = of_nat (length (cs @ ms @ ds))"
    using rep xrep unfolding list_rep_def by blast+
  ultimately have "ocoms_list_length ?s2 = (ocoms_list_length s)(l := of_nat (length (as @ ms @ bs)), x := of_nat (length (cs @ ds)))"
    using s1(2) by (simp add: add_length_def fun_eq_iff)
  moreover have "items ?s2 = items s1" by (simp add: add_length_def)
  ultimately have "list_rep ?s2 l (as @ ms @ bs) \<and> list_rep ?s2 x (cs @ ds) \<and>
      untouched s ?s2 (set (l # as @ bs) \<union> set (x # cs @ ms @ ds))" by (intro s1(3))
  moreover have "ocoms_list_splice s l (hd (bs @ [l])) x (hd (ms @ ds @ [x])) (hd (ds @ [x])) = Some ?s2"
    unfolding h(1) t(2) [symmetric] ocoms_list_splice_def using count s1(1) ne by simp
  ultimately show ?thesis by blast
qed

theorem splice_moves_segment_witness:
  "\<exists>s'. ocoms_list_splice sample_lists 1 1 2 7 6 = Some s' \<and> list_rep s' 1 [7] \<and> list_rep s' 2 [6] \<and>
     untouched sample_lists s' (set [1] \<union> set [2, 7, 6])"
  using splice_moves_segment [of sample_lists 1 "[]" "[]" 2 "[]" "[7]" "[6]"] sample_lists_rep by simp

text \<open>
  \<open>ocoms_list_join\<close> moves all the items of a list, in order, in front of a position of another and
  leaves the first one empty.
\<close>

theorem join_moves_all:
  assumes rep: "list_rep s l (as @ bs)" and xrep: "list_rep s x ms"
    and sep: "set (l # as @ bs) \<inter> set (x # ms) = {}" and len: "length (as @ ms @ bs) < 2 ^ 64"
  shows "\<exists>s'. ocoms_list_join s l (hd (bs @ [l])) x = Some s' \<and>
    list_rep s' l (as @ ms @ bs) \<and> list_rep s' x [] \<and> untouched s s' (set (l # as @ bs) \<union> set (x # ms))"
proof (cases "ms = []")
  case True
  moreover from this have "ocoms_list_get_size s x = 0" using xrep by (simp add: ocoms_list_get_size_def list_rep_def)
  ultimately show ?thesis using rep xrep by (simp add: ocoms_list_join_def)
next
  case False
  have xrep': "list_rep s x ([] @ ms @ [])" and sep': "set (l # as @ bs) \<inter> set (x # [] @ ms @ []) = {}" using xrep sep by simp_all
  have size: "ocoms_list_get_size s x \<noteq> 0" using list_rep_length_nonzero [OF xrep False] by (simp add: ocoms_list_get_size_def)
  have first: "ocoms_list_get_first s x = Some (hd ms)" using list_reads(1) [OF xrep] False by simp
  obtain s1 where t: "ocoms_list_transfer s (hd (bs @ [l])) (hd ms) (hd ([] @ [x])) = Some s1" "ocoms_list_length s1 = ocoms_list_length s"
    "\<forall>s2. items s2 = items s1 \<longrightarrow> ocoms_list_length s2 =
        (ocoms_list_length s)(l := of_nat (length (as @ ms @ bs)), x := of_nat (length ([] @ [] :: addr list))) \<longrightarrow>
        list_rep s2 l (as @ ms @ bs) \<and> list_rep s2 x ([] @ []) \<and>
        untouched s s2 (set (l # as @ bs) \<union> set (x # [] @ ms @ []))"
    using transfer_between [OF rep xrep' False sep' len] by blast
  have s1: "ocoms_list_transfer s (hd (bs @ [l])) (hd ms) x = Some s1" "ocoms_list_length s1 = ocoms_list_length s" using t by simp_all
  define s2 where "s2 = add_length s1 l (ocoms_list_length s1 x)"
  let ?s2 = "s2\<lparr>ocoms_list_length := (ocoms_list_length s2)(x := 0)\<rparr>"
  have "l \<noteq> x" using sep by auto
  moreover have "ocoms_list_length s l = of_nat (length (as @ bs))" "ocoms_list_length s x = of_nat (length ms)"
    using rep xrep unfolding list_rep_def by blast+
  ultimately have "ocoms_list_length ?s2 = (ocoms_list_length s)(l := of_nat (length (as @ ms @ bs)), x := 0)"
    using s1(2) by (simp add: add_length_def fun_eq_iff s2_def)
  moreover have "items ?s2 = items s1" by (simp add: add_length_def s2_def)
  ultimately have "list_rep ?s2 l (as @ ms @ bs) \<and> list_rep ?s2 x [] \<and> untouched s ?s2 (set (l # as @ bs) \<union> set (x # ms))"
    using spec [OF t(3), of ?s2] by simp
  moreover have "ocoms_list_join s l (hd (bs @ [l])) x = Some ?s2"
    using size first s1(1) by (simp add: ocoms_list_join_def ocoms_list_get_end_def s2_def Let_def)
  ultimately show ?thesis by blast
qed

theorem join_moves_all_witness:
  "\<exists>s'. ocoms_list_join sample_lists 1 1 2 = Some s' \<and> list_rep s' 1 [7, 6] \<and> list_rep s' 2 [] \<and>
     untouched sample_lists s' (set [1] \<union> set [2, 7, 6])"
  using join_moves_all [of sample_lists 1 "[]" "[]" 2 "[7, 6]"] sample_lists_rep by simp

section \<open>Sorting\<close>

lemma remove_all_items_ok:
  "list_rep s l xs \<Longrightarrow> i + length xs \<le> length arr \<Longrightarrow>
   \<exists>s' arr'. remove_all_items s l arr i = Some (s', arr', i + length xs) \<and> list_rep s' l [] \<and>
     take (i + length xs) arr' = take i arr @ xs \<and> untouched s s' (set (l # xs)) \<and> (\<forall>a. is_item s' a = is_item s a)"
proof (induction xs arbitrary: s i arr)
  case Nil
  then have "ocoms_list_length s l = 0" by (simp add: list_rep_def)
  then show ?case using Nil by (simp add: remove_all_items.simps [of s])
next
  case (Cons x xs)
  obtain s1 where s1: "ocoms_list_remove_first s l = Some (x, s1)" "list_rep s1 l xs" "untouched s s1 (set (l # x # xs))"
    "\<forall>a. is_item s1 a = is_item s a" using list_remove_first_ok [OF Cons.prems(1)] by blast
  have "x \<noteq> NULL" using Cons.prems(1) by (auto simp: list_rep_def)
  moreover have "i + 1 + length xs \<le> length (arr[i := x])" "i < length arr" using Cons.prems(2) by simp_all
  moreover obtain s' arr' where s': "remove_all_items s1 l (arr[i := x]) (i + 1) = Some (s', arr', i + 1 + length xs)" "list_rep s' l []"
    "take (i + 1 + length xs) arr' = take (i + 1) (arr[i := x]) @ xs" "untouched s1 s' (set (l # xs))" "\<forall>a. is_item s' a = is_item s1 a"
    using Cons.IH [OF s1(2) \<open>i + 1 + length xs \<le> length (arr[i := x])\<close>] by blast
  moreover have "ocoms_list_length s l \<noteq> 0" using list_rep_length_nonzero [OF Cons.prems(1)] by simp
  ultimately have run: "remove_all_items s l arr i = Some (s', arr', i + 1 + length xs)"
    using s1(1) by (simp add: remove_all_items.simps [of s])
  have "take (i + 1) (arr[i := x]) = take i arr @ [x]" using \<open>i < length arr\<close> by (simp add: take_Suc_conv_app_nth)
  moreover have "untouched s s' (set (l # x # xs))"
    by (rule untouched_mono [OF untouched_trans [OF s1(3) s'(4)]]) auto
  ultimately show ?case using run s' s1(4) by (intro exI [of _ s'] exI [of _ arr']) simp
qed

lemma append_items_ok:
  "list_rep s l xs \<Longrightarrow> distinct ys \<Longrightarrow> set ys \<inter> set (l # xs) = {} \<Longrightarrow> \<forall>y \<in> set ys. is_item s y \<Longrightarrow> length (xs @ ys) < 2 ^ 64 \<Longrightarrow>
   \<exists>s'. append_items s l ys = Some s' \<and> list_rep s' l (xs @ ys) \<and> untouched s s' (set (l # xs @ ys))"
proof (induction ys arbitrary: s xs)
  case (Cons y ys)
  obtain s1 where s1: "ocoms_list_append s l y = Some s1" "list_rep s1 l (xs @ [y])" "untouched s s1 (set (l # xs @ [y]))"
    "\<forall>a. is_item s1 a = is_item s a" using list_append_ok [OF Cons.prems(1), of y] Cons.prems(3-5) by auto
  obtain s' where s': "append_items s1 l ys = Some s'" "list_rep s' l ((xs @ [y]) @ ys)" "untouched s1 s' (set (l # (xs @ [y]) @ ys))"
    using Cons.IH [OF s1(2)] Cons.prems(2-5) s1(4) by auto
  have "untouched s s' (set (l # xs @ y # ys))"
    by (rule untouched_mono [OF untouched_trans [OF s1(3) s'(3)]]) auto
  then show ?case using s1(1) s'(1,2) by simp
qed simp

text \<open>
  C18: For any \<open>qsort\<close> that permutes and sorts its array, \<open>ocoms_list_sort\<close> leaves a well-formed list
  with the same items in sorted order, or reports that the array cannot be allocated and changes
  nothing.
\<close>

theorem list_sort_sorts:
  assumes rep: "list_rep s l xs" and items: "length xs < 2 ^ 61" and malloc: "malloc_ok m"
    and qsort: "\<forall>ys. mset (qsort ys) = mset ys \<and> sorted_wrt R (qsort ys)"
  shows "\<exists>s' ys r. ocoms_list_sort m qsort s l = Some (r, s') \<and> list_rep s' l ys \<and> mset ys = mset xs \<and> untouched s s' (set (l # xs)) \<and>
    (if xs \<noteq> [] \<and> m (length xs) = None then r = OCOMS_ERR_OUT_OF_RESOURCE \<and> s' = s else r = OCOMS_SUCCESS \<and> sorted_wrt R ys)"
proof (cases "xs = []")
  case True
  then have "ocoms_list_length s l = 0" using rep by (simp add: list_rep_def)
  then show ?thesis using True rep by (auto simp: ocoms_list_sort_def intro!: exI [of _ s] exI [of _ "[]"])
next
  case False
  then have n: "ocoms_list_length s l \<noteq> 0" using list_rep_length_nonzero [OF rep] by simp
  have "8 * ocoms_list_length s l = of_nat (8 * length xs)" using rep by (simp add: list_rep_def)
  then have bytes: "unat (8 * ocoms_list_length s l) div 8 = length xs"
    using items by (simp add: unsigned_of_nat take_bit_nat_eq_self del: of_nat_mult)
  show ?thesis
  proof (cases "m (length xs)")
    case None
    then show ?thesis using False rep n bytes by (auto simp: ocoms_list_sort_def)
  next
    case (Some arr)
    then have "0 + length xs \<le> length arr" using malloc by (simp add: malloc_ok_def)
    then obtain s1 arr1 where s1: "remove_all_items s l arr 0 = Some (s1, arr1, length xs)" "list_rep s1 l []" "take (length xs) arr1 = xs"
      "untouched s s1 (set (l # xs))" "\<forall>a. is_item s1 a = is_item s a"
      using remove_all_items_ok [OF rep, of 0 arr] by auto
    have d: "distinct (l # xs)" "linked s (l # xs @ [l])" using rep unfolding list_rep_def by blast+
    have perm: "set (qsort xs) = set xs" "distinct (qsort xs)" "length (qsort xs) = length xs"
      using qsort d(1) mset_eq_setD mset_eq_length mset_eq_imp_distinct_iff by (metis distinct.simps(2))+
    have "\<forall>y \<in> set xs. is_item s y"
    proof
      fix y assume "y \<in> set xs"
      then obtain us vs where "xs = (us @ [y]) @ vs" using split_list by fastforce
      then have "list_rep s l ((us @ [y]) @ vs)" using rep by simp
      from list_rep_neighbours(3) [OF this] show "is_item s y" by simp
    qed
    then obtain s2 where s2: "append_items s1 l (qsort xs) = Some s2" "list_rep s2 l (qsort xs)" "untouched s1 s2 (set (l # qsort xs))"
      using append_items_ok [OF s1(2), of "qsort xs"] perm s1(5) d(1) items by auto
    have "untouched s s2 (set (l # xs))" by (rule untouched_mono [OF untouched_trans [OF s1(4) s2(3)]]) (simp add: perm)
    then show ?thesis using n bytes Some s1(1,3) s2(1,2) qsort by (auto simp: ocoms_list_sort_def)
  qed
qed

theorem list_sort_sorts_witness:
  "\<exists>s' ys r. ocoms_list_sort (\<lambda>n. Some (replicate n 0)) (sort :: addr list \<Rightarrow> addr list) sample_lists 2 = Some (r, s') \<and> list_rep s' 2 ys \<and>
     mset ys = mset [7, 6] \<and> untouched sample_lists s' (set [2, 7, 6]) \<and> r = OCOMS_SUCCESS \<and> sorted_wrt (\<le>) ys"
  using list_sort_sorts [of sample_lists 2 "[7, 6]" "\<lambda>n. Some (replicate n 0)" "sort" "(\<le>)"] sample_lists_rep(2) by simp

section \<open>A list as a stack\<close>

definition list_push :: "addr \<Rightarrow> list_store \<Rightarrow> addr \<Rightarrow> list_store option" where
  "list_push l s x = ocoms_list_prepend s l x"

definition list_pop :: "addr \<Rightarrow> list_store \<Rightarrow> (addr option \<times> list_store) option" where
  "list_pop l s = map_option (\<lambda>(a, s'). (if a = NULL then None else Some a, s')) (ocoms_list_remove_first s l)"

definition stack_rep :: "(addr \<Rightarrow> bool) \<Rightarrow> addr \<Rightarrow> list_store \<Rightarrow> addr list \<Rightarrow> bool" where
  "stack_rep it l s xs \<longleftrightarrow> list_rep s l xs \<and> (\<forall>a. is_item s a = it a)"

interpretation list_stack: stack "stack_rep it l" "may_add l it" "list_push l" "list_pop l" for it l
proof unfold_locales
  fix s xs x assume r: "stack_rep it l s xs" "may_add l it xs x"
  then show "\<exists>s'. list_push l s x = Some s' \<and> stack_rep it l s' (x # xs)"
    using list_prepend_ok [of s l xs x] by (auto simp: stack_rep_def may_add_def list_push_def)
next
  fix s x xs assume r: "stack_rep it l s (x # xs)"
  then have "x \<noteq> NULL" by (auto simp: stack_rep_def list_rep_def)
  then show "\<exists>s'. list_pop l s = Some (Some x, s') \<and> stack_rep it l s' xs"
    using list_remove_first_ok [of s l x xs] r by (auto simp: stack_rep_def list_pop_def)
next
  fix s assume "stack_rep it l s []"
  then show "\<exists>s'. list_pop l s = Some (None, s') \<and> stack_rep it l s' []"
    using list_remove_empty [of s l] by (auto simp: stack_rep_def list_pop_def)
qed

text \<open>
  Prepending and removing the first item make a list a stack: every sequence of pushes and pops
  returns what a stack returns.
\<close>

theorem list_prepend_pop_is_stack:
  assumes "list_rep s l xs" and "stack_spec (may_add l (is_item s)) xs ops = Some (rs, ys)"
  shows "\<exists>s'. run_stack (list_push l) (list_pop l) s ops = Some (rs, s') \<and> list_rep s' l ys"
  using list_stack.run_stack_refines [of "is_item s" l s xs ops rs ys] assms by (auto simp: stack_rep_def)

theorem list_prepend_pop_is_stack_witness:
  "\<exists>s'. run_stack (list_push 1) (list_pop 1) sample_lists [Push 3, Push 4, Pop, Push 5, Pop, Pop, Pop] =
     Some ([Some 4, Some 5, Some 3, None], s') \<and> list_rep s' 1 []"
  by (rule list_prepend_pop_is_stack [OF sample_lists_rep(1)]) (simp add: sample_lists_item may_add_def)

end
