(* ===== verification/Atomic_Lifo.thy ===== *)
theory Atomic_Lifo
  imports Item_List
begin

text \<open>
  The LIFO of \<open>ocoms/util/ocoms_atomic_lifo.h\<close>: a stack of items linked by their next pointers up to a
  ghost element, shared by threads.  The multi-threaded code is a step relation whose steps are the
  accesses to shared memory, one at a time, in the order of the code (the barriers make the order of
  the code the order of the memory, so the interleaving of steps is sequentially consistent); the
  single-threaded code is modelled by functions.  Two fields of the items matter, the next pointer
  and \<open>item_free\<close>; they are functions of the address of the item, since items are never freed while a
  thread may look at them.
\<close>

section \<open>Shared memory and program counters\<close>

record atomic_lifo =
  ocoms_lifo_head :: addr
  ocoms_lifo_ghost :: addr
  lifo_next :: "addr \<Rightarrow> addr"
  lifo_free :: "addr \<Rightarrow> int"

definition ocoms_atomic_lifo_construct :: "atomic_lifo \<Rightarrow> addr \<Rightarrow> atomic_lifo" where
  "ocoms_atomic_lifo_construct m g =
     m\<lparr>ocoms_lifo_ghost := g, ocoms_lifo_head := g, lifo_next := (lifo_next m)(g := g), lifo_free := (lifo_free m)(g := 1)\<rparr>"

definition ocoms_atomic_lifo_is_empty :: "atomic_lifo \<Rightarrow> bool" where
  "ocoms_atomic_lifo_is_empty m \<longleftrightarrow> ocoms_lifo_head m = ocoms_lifo_ghost m"

text \<open>Where a thread is, with the values its registers hold.\<close>

datatype lifo_pc = Idle
  | Push_head addr | Push_store addr addr | Push_old addr | Push_cas addr addr | Push_release addr | Push_return addr
  | Pop_head | Pop_claim addr | Pop_next addr | Pop_cas addr addr | Pop_unclaim addr | Pop_clear addr | Pop_empty

text \<open>The calls and returns of the operations, and the places where they take effect.\<close>

datatype lifo_event = Call_push addr | Lin_push addr | Ret_push addr
  | Call_pop | Lin_pop "addr option" | Ret_pop "addr option" | Is_empty bool

definition cmpset_head :: "atomic_lifo \<Rightarrow> addr \<Rightarrow> addr \<Rightarrow> bool \<times> atomic_lifo" where
  "cmpset_head m old new = (if ocoms_lifo_head m = old then (True, m\<lparr>ocoms_lifo_head := new\<rparr>) else (False, m))"

definition cmpset_free :: "atomic_lifo \<Rightarrow> addr \<Rightarrow> int \<Rightarrow> int \<Rightarrow> bool \<times> atomic_lifo" where
  "cmpset_free m x old new = (if lifo_free m x = old then (True, m\<lparr>lifo_free := (lifo_free m)(x := new)\<rparr>) else (False, m))"

section \<open>The steps of the code\<close>

fun ocoms_atomic_lifo_push :: "atomic_lifo \<Rightarrow> lifo_pc \<Rightarrow> (lifo_event list \<times> atomic_lifo \<times> lifo_pc) option" where
  "ocoms_atomic_lifo_push m (Push_head x) = Some ([], m, Push_store x (ocoms_lifo_head m))"
| "ocoms_atomic_lifo_push m (Push_store x h) = Some ([], m\<lparr>lifo_next := (lifo_next m)(x := h)\<rparr>, Push_old x)"
| "ocoms_atomic_lifo_push m (Push_old x) = Some ([], m, Push_cas x (lifo_next m x))"
| "ocoms_atomic_lifo_push m (Push_cas x old) =
     (case cmpset_head m old x of
        (True, m') \<Rightarrow> Some ([Lin_push x], m', Push_release x)
      | (False, m') \<Rightarrow> Some ([], m', Push_head x))"
| "ocoms_atomic_lifo_push m (Push_release x) = Some ([], snd (cmpset_free m x 1 0), Push_return x)"
| "ocoms_atomic_lifo_push m (Push_return x) = Some ([Ret_push (lifo_next m x)], m, Idle)"
| "ocoms_atomic_lifo_push m _ = None"

fun ocoms_atomic_lifo_pop :: "atomic_lifo \<Rightarrow> lifo_pc \<Rightarrow> (lifo_event list \<times> atomic_lifo \<times> lifo_pc) option" where
  "ocoms_atomic_lifo_pop m Pop_head =
     (if ocoms_lifo_head m = ocoms_lifo_ghost m then Some ([Lin_pop None], m, Pop_empty)
      else Some ([], m, Pop_claim (ocoms_lifo_head m)))"
| "ocoms_atomic_lifo_pop m (Pop_claim x) =
     (case cmpset_free m x 0 1 of
        (True, m') \<Rightarrow> Some ([], m', Pop_next x)
      | (False, m') \<Rightarrow> Some ([], m', Pop_head))"
| "ocoms_atomic_lifo_pop m (Pop_next x) = Some ([], m, Pop_cas x (lifo_next m x))"
| "ocoms_atomic_lifo_pop m (Pop_cas x n) =
     (case cmpset_head m x n of
        (True, m') \<Rightarrow> Some ([Lin_pop (Some x)], m', Pop_clear x)
      | (False, m') \<Rightarrow> Some ([], m', Pop_unclaim x))"
| "ocoms_atomic_lifo_pop m (Pop_unclaim x) = Some ([], snd (cmpset_free m x 1 0), Pop_head)"
| "ocoms_atomic_lifo_pop m (Pop_clear x) =
     Some ([Ret_pop (Some x)], m\<lparr>lifo_next := (lifo_next m)(x := NULL)\<rparr>, Idle)"
| "ocoms_atomic_lifo_pop m Pop_empty = Some ([Ret_pop None], m, Idle)"
| "ocoms_atomic_lifo_pop m _ = None"

section \<open>Threads\<close>

record lifo_sys =
  lifo_mem :: atomic_lifo
  lifo_pcs :: "nat \<Rightarrow> lifo_pc"

text \<open>The items from an address to the ghost, and the item a thread works on alone.\<close>

fun chain :: "(addr \<Rightarrow> addr) \<Rightarrow> addr \<Rightarrow> addr \<Rightarrow> addr list \<Rightarrow> bool" where
  "chain nx g h [] \<longleftrightarrow> h = g"
| "chain nx g h (y # ys) \<longleftrightarrow> h = y \<and> y \<noteq> g \<and> chain nx g (nx y) ys"

fun holds :: "lifo_pc \<Rightarrow> addr option" where
  "holds (Push_head x) = Some x"
| "holds (Push_store x h) = Some x"
| "holds (Push_old x) = Some x"
| "holds (Push_cas x h) = Some x"
| "holds (Push_release x) = Some x"
| "holds (Pop_next x) = Some x"
| "holds (Pop_cas x n) = Some x"
| "holds (Pop_unclaim x) = Some x"
| "holds (Pop_clear x) = Some x"
| "holds _ = None"

definition lifo_items :: "atomic_lifo \<Rightarrow> addr list \<Rightarrow> bool" where
  "lifo_items m ys \<longleftrightarrow> chain (lifo_next m) (ocoms_lifo_ghost m) (ocoms_lifo_head m) ys"

text \<open>
  The contract of the callers: only an item that is constructed, is not in the LIFO, and is not in the
  hands of another call is pushed.
\<close>

definition may_push :: "lifo_sys \<Rightarrow> addr \<Rightarrow> bool" where
  "may_push s x \<longleftrightarrow> x \<noteq> NULL \<and> x \<noteq> ocoms_lifo_ghost (lifo_mem s) \<and> lifo_free (lifo_mem s) x = 1 \<and>
     (\<forall>ys. lifo_items (lifo_mem s) ys \<longrightarrow> x \<notin> set ys) \<and> (\<forall>t. holds (lifo_pcs s t) \<noteq> Some x)"

inductive lifo_step :: "lifo_sys \<Rightarrow> (nat \<times> lifo_event) list \<Rightarrow> lifo_sys \<Rightarrow> bool" where
  call_push: "lifo_pcs s t = Idle \<Longrightarrow> may_push s x \<Longrightarrow>
     lifo_step s [(t, Call_push x)] (s\<lparr>lifo_pcs := (lifo_pcs s)(t := Push_head x)\<rparr>)"
| call_pop: "lifo_pcs s t = Idle \<Longrightarrow>
     lifo_step s [(t, Call_pop)] (s\<lparr>lifo_pcs := (lifo_pcs s)(t := Pop_head)\<rparr>)"
| is_empty: "lifo_pcs s t = Idle \<Longrightarrow>
     lifo_step s [(t, Is_empty (ocoms_atomic_lifo_is_empty (lifo_mem s)))] s"
| push: "ocoms_atomic_lifo_push (lifo_mem s) (lifo_pcs s t) = Some (es, m, pc) \<Longrightarrow>
     lifo_step s (map (Pair t) es) \<lparr>lifo_mem = m, lifo_pcs = (lifo_pcs s)(t := pc)\<rparr>"
| pop: "ocoms_atomic_lifo_pop (lifo_mem s) (lifo_pcs s t) = Some (es, m, pc) \<Longrightarrow>
     lifo_step s (map (Pair t) es) \<lparr>lifo_mem = m, lifo_pcs = (lifo_pcs s)(t := pc)\<rparr>"

inductive lifo_exec :: "lifo_sys \<Rightarrow> (nat \<times> lifo_event) list \<Rightarrow> lifo_sys \<Rightarrow> bool" where
  none: "lifo_exec s [] s"
| more: "lifo_exec s es s1 \<Longrightarrow> lifo_step s1 fs s2 \<Longrightarrow> lifo_exec s (es @ fs) s2"

inductive_cases lifo_stepE: "lifo_step s es s'"

text \<open>A constructed LIFO, no thread inside an operation, all items constructed.\<close>

definition lifo_start :: "lifo_sys \<Rightarrow> addr \<Rightarrow> bool" where
  "lifo_start s g \<longleftrightarrow> g \<noteq> NULL \<and> (\<exists>m. lifo_mem s = ocoms_atomic_lifo_construct m g \<and> (\<forall>x. lifo_free m x = 1)) \<and>
     (\<forall>t. lifo_pcs s t = Idle)"

section \<open>What a stack does\<close>

fun lin_run :: "addr list \<Rightarrow> lifo_event list \<Rightarrow> addr list option" where
  "lin_run xs [] = Some xs"
| "lin_run xs (Lin_push x # es) = lin_run (x # xs) es"
| "lin_run xs (Lin_pop None # es) = (if xs = [] then lin_run [] es else None)"
| "lin_run xs (Lin_pop (Some x) # es) = (case xs of y # r \<Rightarrow> if x = y then lin_run r es else None | [] \<Rightarrow> None)"
| "lin_run xs (Is_empty b # es) = (if b = (xs = []) then lin_run xs es else None)"
| "lin_run xs (_ # es) = lin_run xs es"

text \<open>
  Where a thread is in its operation: each call takes effect once, before it returns, and a pop returns
  the item with which it took effect.
\<close>

datatype stage = Out | In_push addr | Done_push | In_pop | Done_pop "addr option"

fun advance :: "stage \<Rightarrow> lifo_event \<Rightarrow> stage option" where
  "advance Out (Call_push x) = Some (In_push x)"
| "advance (In_push x) (Lin_push y) = (if x = y then Some Done_push else None)"
| "advance Done_push (Ret_push v) = Some Out"
| "advance Out Call_pop = Some In_pop"
| "advance In_pop (Lin_pop r) = Some (Done_pop r)"
| "advance (Done_pop r) (Ret_pop v) = (if r = v then Some Out else None)"
| "advance Out (Is_empty b) = Some Out"
| "advance _ _ = None"

fun thread_run :: "stage \<Rightarrow> lifo_event list \<Rightarrow> stage option" where
  "thread_run st [] = Some st"
| "thread_run st (e # es) = do { st' \<leftarrow> advance st e; thread_run st' es }"

definition events_of :: "nat \<Rightarrow> (nat \<times> lifo_event) list \<Rightarrow> lifo_event list" where
  "events_of t es = map snd (filter (\<lambda>e. fst e = t) es)"

section \<open>The invariant\<close>

fun inside :: "lifo_pc \<Rightarrow> bool" where
  "inside (Push_release x) = True"
| "inside (Pop_next x) = True"
| "inside (Pop_cas x n) = True"
| "inside (Pop_unclaim x) = True"
| "inside _ = False"

fun pc_ok :: "atomic_lifo \<Rightarrow> lifo_pc \<Rightarrow> bool" where
  "pc_ok m (Push_cas x old) = (lifo_next m x = old)"
| "pc_ok m (Pop_cas x n) = (lifo_next m x = n)"
| "pc_ok m _ = True"

definition mem_ok :: "atomic_lifo \<Rightarrow> addr list \<Rightarrow> bool" where
  "mem_ok m ys \<longleftrightarrow> lifo_items m ys \<and> distinct ys \<and> NULL \<notin> set ys \<and> (\<forall>x. lifo_free m x = 0 \<longrightarrow> x \<in> set ys)"

definition thread_inv :: "atomic_lifo \<Rightarrow> addr list \<Rightarrow> lifo_pc \<Rightarrow> bool" where
  "thread_inv m ys pc \<longleftrightarrow> pc_ok m pc \<and> (\<forall>x. holds pc = Some x \<longrightarrow>
     lifo_free m x = 1 \<and> x \<noteq> ocoms_lifo_ghost m \<and> x \<noteq> NULL \<and> (x \<in> set ys \<longleftrightarrow> inside pc))"

definition apart :: "(nat \<Rightarrow> lifo_pc) \<Rightarrow> bool" where
  "apart pcs \<longleftrightarrow> (\<forall>t u x. holds (pcs t) = Some x \<longrightarrow> holds (pcs u) = Some x \<longrightarrow> t = u)"

definition lifo_inv :: "lifo_sys \<Rightarrow> addr list \<Rightarrow> bool" where
  "lifo_inv s ys \<longleftrightarrow> mem_ok (lifo_mem s) ys \<and> (\<forall>t. thread_inv (lifo_mem s) ys (lifo_pcs s t)) \<and> apart (lifo_pcs s) \<and>
     (\<forall>x \<in> set ys. lifo_free (lifo_mem s) x = 0 \<or> (\<exists>t. holds (lifo_pcs s t) = Some x))"

lemma chain_unique: "chain nx g h xs \<Longrightarrow> chain nx g h ys \<Longrightarrow> xs = ys"
proof (induction xs arbitrary: h ys)
  case Nil
  then show ?case by (cases ys) auto
next
  case (Cons x xs)
  then show ?case by (cases ys) auto
qed

lemma chain_upd: "x \<notin> set ys \<Longrightarrow> chain (nx(x := v)) g h ys = chain nx g h ys"
  by (induction ys arbitrary: h) auto

lemma chain_ghost: "chain nx g h ys \<Longrightarrow> g \<notin> set ys"
  by (induction ys arbitrary: h) auto

text \<open>
  What one thread does while it holds an item leaves the others alone: the item's fields may
  change, another item's may not.
\<close>

lemma thread_inv_frame:
  assumes "thread_inv m ys pc" and "holds pc \<noteq> Some x" and "ocoms_lifo_ghost m' = ocoms_lifo_ghost m"
    and "\<forall>y. y \<noteq> x \<longrightarrow> lifo_next m' y = lifo_next m y \<and> lifo_free m' y = lifo_free m y \<and> (y \<in> set ys' \<longleftrightarrow> y \<in> set ys)"
  shows "thread_inv m' ys' pc"
  using assms by (cases pc) (auto simp: thread_inv_def)

lemma apart_upd:
  assumes "apart pcs" and "\<forall>x. holds pc = Some x \<longrightarrow> (\<forall>u. u \<noteq> t \<longrightarrow> holds (pcs u) \<noteq> Some x)"
  shows "apart (pcs(t := pc))"
proof -
  have "v = w" if h: "holds ((pcs(t := pc)) v) = Some x" "holds ((pcs(t := pc)) w) = Some x" for v w x
  proof -
    consider "v = t" "w = t" | "v = t" "w \<noteq> t" | "v \<noteq> t" "w = t" | "v \<noteq> t" "w \<noteq> t" by blast
    then show ?thesis
    proof cases
      case 2
      then show ?thesis using h assms(2) unfolding fun_upd_apply by simp
    next
      case 3
      then show ?thesis using h assms(2) unfolding fun_upd_apply by simp
    next
      case 4
      then show ?thesis using h assms(1) unfolding apart_def fun_upd_apply if_not_P [OF 4(1)] if_not_P [OF 4(2)] by blast
    qed simp
  qed
  then show ?thesis unfolding apart_def by blast
qed

text \<open>A step of a thread on the item it holds, or comes to hold, or lets go.\<close>

lemma lifo_inv_step:
  assumes inv: "lifo_inv s ys" and m': "mem_ok m' ys'" "thread_inv m' ys' pc" "ocoms_lifo_ghost m' = ocoms_lifo_ghost (lifo_mem s)"
    and others: "\<forall>u. u \<noteq> t \<longrightarrow> holds (lifo_pcs s u) \<noteq> Some x"
    and frame: "\<forall>y. y \<noteq> x \<longrightarrow> lifo_next m' y = lifo_next (lifo_mem s) y \<and> lifo_free m' y = lifo_free (lifo_mem s) y \<and> (y \<in> set ys' \<longleftrightarrow> y \<in> set ys)"
    and pc: "holds pc = Some x \<or> holds pc = None" "holds (lifo_pcs s t) = Some x \<or> holds (lifo_pcs s t) = None"
    and free: "x \<in> set ys' \<longrightarrow> lifo_free m' x = 0 \<or> holds pc = Some x"
  shows "lifo_inv \<lparr>lifo_mem = m', lifo_pcs = (lifo_pcs s)(t := pc)\<rparr> ys'"
proof -
  have "thread_inv m' ys' (((lifo_pcs s)(t := pc)) u)" for u
  proof (cases "u = t")
    case False
    moreover have "thread_inv (lifo_mem s) ys (lifo_pcs s u)" using inv by (simp add: lifo_inv_def)
    ultimately show ?thesis using thread_inv_frame [OF _ _ m'(3) frame] others by simp
  qed (simp add: m'(2))
  moreover have "apart ((lifo_pcs s)(t := pc))"
    using inv others pc by (intro apart_upd) (auto simp: lifo_inv_def)
  moreover have "lifo_free m' y = 0 \<or> (\<exists>u. holds (((lifo_pcs s)(t := pc)) u) = Some y)" if y: "y \<in> set ys'" for y
  proof (cases "y = x")
    case True
    then show ?thesis using free y by auto
  next
    case False
    then have "lifo_free m' y = lifo_free (lifo_mem s) y" "y \<in> set ys" using frame y by auto
    then consider "lifo_free m' y = 0" | u where "holds (lifo_pcs s u) = Some y" using inv by (auto simp: lifo_inv_def)
    then show ?thesis
    proof cases
      case 2
      then have "u \<noteq> t" using pc(2) False by auto
      then show ?thesis using 2 by (intro disjI2 exI [of _ u]) simp
    qed simp
  qed
  ultimately show ?thesis using m'(1) by (simp add: lifo_inv_def)
qed

lemma held_alone:
  "lifo_inv s ys \<Longrightarrow> holds (lifo_pcs s t) = Some x \<Longrightarrow> u \<noteq> t \<Longrightarrow> holds (lifo_pcs s u) \<noteq> Some x"
  unfolding lifo_inv_def apart_def by blast

lemma free_unheld: "lifo_inv s ys \<Longrightarrow> lifo_free (lifo_mem s) x = 0 \<Longrightarrow> holds (lifo_pcs s u) \<noteq> Some x"
  unfolding lifo_inv_def thread_inv_def by force

lemmas lifo_mem_defs = mem_ok_def lifo_items_def thread_inv_def

lemma push_step_inv:
  assumes inv: "lifo_inv s ys" and st: "ocoms_atomic_lifo_push (lifo_mem s) (lifo_pcs s t) = Some (es, m', pc)"
  shows "\<exists>ys'. lifo_inv \<lparr>lifo_mem = m', lifo_pcs = (lifo_pcs s)(t := pc)\<rparr> ys' \<and> lin_run ys es = Some ys'"
proof -
  let ?m = "lifo_mem s"
  have m: "mem_ok ?m ys" "thread_inv ?m ys (lifo_pcs s t)" using inv by (simp_all add: lifo_inv_def)
  note others = held_alone [OF inv, of t]
  show ?thesis
  proof (cases "lifo_pcs s t")
    case (Push_head x)
    then show ?thesis using st m others
      by (intro exI [of _ ys] conjI lifo_inv_step [OF inv, where x = x]) (auto simp: lifo_mem_defs)
  next
    case (Push_store x h)
    then show ?thesis using st m others
      by (intro exI [of _ ys] conjI lifo_inv_step [OF inv, where x = x]) (auto simp: lifo_mem_defs chain_upd)
  next
    case (Push_old x)
    then show ?thesis using st m others
      by (intro exI [of _ ys] conjI lifo_inv_step [OF inv, where x = x]) (auto simp: lifo_mem_defs)
  next
    case (Push_cas x old)
    show ?thesis
    proof (cases "ocoms_lifo_head ?m = old")
      case True
      then show ?thesis using st m others Push_cas
        by (intro exI [of _ "x # ys"] conjI lifo_inv_step [OF inv, where x = x]) (auto simp: lifo_mem_defs cmpset_head_def)
    next
      case False
      then show ?thesis using st m others Push_cas
        by (intro exI [of _ ys] conjI lifo_inv_step [OF inv, where x = x]) (auto simp: lifo_mem_defs cmpset_head_def)
    qed
  next
    case (Push_release x)
    then show ?thesis using st m others
      by (intro exI [of _ ys] conjI lifo_inv_step [OF inv, where x = x]) (auto simp: lifo_mem_defs cmpset_free_def split: if_splits)
  next
    case (Push_return x)
    then show ?thesis using st m others
      by (intro exI [of _ ys] conjI lifo_inv_step [OF inv, where x = NULL]) (use inv in \<open>auto simp: lifo_mem_defs lifo_inv_def\<close>)
  qed (use st in simp_all)
qed

lemma pop_step_inv:
  assumes inv: "lifo_inv s ys" and st: "ocoms_atomic_lifo_pop (lifo_mem s) (lifo_pcs s t) = Some (es, m', pc)"
  shows "\<exists>ys'. lifo_inv \<lparr>lifo_mem = m', lifo_pcs = (lifo_pcs s)(t := pc)\<rparr> ys' \<and> lin_run ys es = Some ys'"
proof -
  let ?m = "lifo_mem s"
  have m: "mem_ok ?m ys" "thread_inv ?m ys (lifo_pcs s t)" using inv by (simp_all add: lifo_inv_def)
  note others = held_alone [OF inv, of t]
  have null: "\<forall>u. holds (lifo_pcs s u) \<noteq> Some NULL" using inv by (auto simp: lifo_inv_def thread_inv_def)
  show ?thesis
  proof (cases "lifo_pcs s t")
    case Pop_head
    then show ?thesis using st m null
      by (intro exI [of _ ys] conjI lifo_inv_step [OF inv, where x = NULL]) (cases ys; auto simp: lifo_mem_defs split: if_splits)+
  next
    case (Pop_claim x)
    show ?thesis
    proof (cases "lifo_free ?m x = 0")
      case True
      then show ?thesis using st m free_unheld [OF inv True] Pop_claim
        by (intro exI [of _ ys] conjI lifo_inv_step [OF inv, where x = x]) (auto simp: lifo_mem_defs cmpset_free_def split: if_splits dest: chain_ghost)
    next
      case False
      then show ?thesis using st m null Pop_claim
        by (intro exI [of _ ys] conjI lifo_inv_step [OF inv, where x = NULL]) (auto simp: lifo_mem_defs cmpset_free_def split: if_splits)
    qed
  next
    case (Pop_next x)
    then show ?thesis using st m others
      by (intro exI [of _ ys] conjI lifo_inv_step [OF inv, where x = x]) (auto simp: lifo_mem_defs)
  next
    case (Pop_cas x n)
    show ?thesis
    proof (cases "ocoms_lifo_head ?m = x")
      case True
      then obtain r where "ys = x # r" using m Pop_cas by (cases ys) (auto simp: lifo_mem_defs)
      then show ?thesis using st m others Pop_cas True
        by (intro exI [of _ r] conjI lifo_inv_step [OF inv, where x = x]) (auto simp: lifo_mem_defs cmpset_head_def)
    next
      case False
      then show ?thesis using st m others Pop_cas
        by (intro exI [of _ ys] conjI lifo_inv_step [OF inv, where x = x]) (auto simp: lifo_mem_defs cmpset_head_def)
    qed
  next
    case (Pop_unclaim x)
    then show ?thesis using st m others
      by (intro exI [of _ ys] conjI lifo_inv_step [OF inv, where x = x]) (auto simp: lifo_mem_defs cmpset_free_def split: if_splits)
  next
    case (Pop_clear x)
    then show ?thesis using st m others
      by (intro exI [of _ ys] conjI lifo_inv_step [OF inv, where x = x]) (auto simp: lifo_mem_defs chain_upd)
  next
    case Pop_empty
    then show ?thesis using st m null
      by (intro exI [of _ ys] conjI lifo_inv_step [OF inv, where x = NULL]) (auto simp: lifo_mem_defs)
  qed (use st in simp_all)
qed

lemma lin_run_append: "lin_run xs (a @ b) = do { ys \<leftarrow> lin_run xs a; lin_run ys b }"
proof (induction a arbitrary: xs)
  case (Cons e a)
  then show ?case
  proof (cases e)
    case (Lin_pop r)
    then show ?thesis using Cons by (cases r; cases xs) auto
  qed simp_all
qed simp

lemma thread_run_append: "thread_run st (a @ b) = do { st' \<leftarrow> thread_run st a; thread_run st' b }"
  by (induction a arbitrary: st) (simp_all add: bind_assoc)

lemma lifo_step_inv:
  assumes "lifo_step s es s'" and inv: "lifo_inv s ys"
  shows "\<exists>ys'. lifo_inv s' ys' \<and> lin_run ys (map snd es) = Some ys'"
  using assms(1)
proof cases
  case (call_push t x)
  have x: "x \<noteq> NULL" "x \<noteq> ocoms_lifo_ghost (lifo_mem s)" "lifo_free (lifo_mem s) x = 1" "x \<notin> set ys" "\<forall>t. holds (lifo_pcs s t) \<noteq> Some x"
    using call_push(4) inv by (auto simp: may_push_def lifo_inv_def mem_ok_def)
  have "lifo_inv \<lparr>lifo_mem = lifo_mem s, lifo_pcs = (lifo_pcs s)(t := Push_head x)\<rparr> ys"
    using x inv call_push(3) by (intro lifo_inv_step [OF inv, where x = x]) (auto simp: lifo_inv_def thread_inv_def)
  then show ?thesis unfolding call_push by (simp add: lifo_inv_def)
next
  case (call_pop t)
  have "lifo_inv \<lparr>lifo_mem = lifo_mem s, lifo_pcs = (lifo_pcs s)(t := Pop_head)\<rparr> ys"
    using inv call_pop(3) by (intro lifo_inv_step [OF inv, where x = NULL]) (auto simp: lifo_inv_def thread_inv_def mem_ok_def)
  then show ?thesis unfolding call_pop by (simp add: lifo_inv_def)
next
  case (is_empty t)
  have "ocoms_atomic_lifo_is_empty (lifo_mem s) = (ys = [])"
    using inv by (cases ys) (auto simp: lifo_inv_def lifo_mem_defs ocoms_atomic_lifo_is_empty_def)
  then show ?thesis using inv is_empty by simp
next
  case (push t es' m pc)
  then show ?thesis using push_step_inv [OF inv push(3)] by (simp add: comp_def)
next
  case (pop t es' m pc)
  then show ?thesis using pop_step_inv [OF inv pop(3)] by (simp add: comp_def)
qed

fun stage_of :: "lifo_pc \<Rightarrow> stage" where
  "stage_of (Push_head x) = In_push x"
| "stage_of (Push_store x h) = In_push x"
| "stage_of (Push_old x) = In_push x"
| "stage_of (Push_cas x h) = In_push x"
| "stage_of (Push_release x) = Done_push"
| "stage_of (Push_return x) = Done_push"
| "stage_of (Pop_clear x) = Done_pop (Some x)"
| "stage_of Pop_empty = Done_pop None"
| "stage_of Idle = Out"
| "stage_of _ = In_pop"

lemma push_step_stage: "ocoms_atomic_lifo_push m pc = Some (es, m', pc') \<Longrightarrow> thread_run (stage_of pc) es = Some (stage_of pc')"
  by (cases pc) (auto simp: cmpset_head_def split: if_splits)

lemma pop_step_stage: "ocoms_atomic_lifo_pop m pc = Some (es, m', pc') \<Longrightarrow> thread_run (stage_of pc) es = Some (stage_of pc')"
  by (cases pc) (auto simp: cmpset_head_def cmpset_free_def split: if_splits)

lemma events_of_append: "events_of t (a @ b) = events_of t a @ events_of t b"
  by (simp add: events_of_def)

lemma events_of_map: "events_of u (map (Pair t) es) = (if u = t then es else [])"
  by (induction es) (auto simp: events_of_def)

lemma lifo_step_stage:
  "lifo_step s es s' \<Longrightarrow> thread_run (stage_of (lifo_pcs s u)) (events_of u es) = Some (stage_of (lifo_pcs s' u))"
  by (erule lifo_stepE) (auto simp: events_of_map push_step_stage pop_step_stage, auto simp: events_of_def)

lemma lifo_exec_inv:
  "lifo_exec s es s' \<Longrightarrow> lifo_inv s ys \<Longrightarrow> (\<exists>ys'. lifo_inv s' ys' \<and> lin_run ys (map snd es) = Some ys') \<and>
   thread_run (stage_of (lifo_pcs s u)) (events_of u es) = Some (stage_of (lifo_pcs s' u))"
proof (induction rule: lifo_exec.induct)
  case (more s es s1 fs s2)
  then show ?case using lifo_step_inv [OF more.hyps(2)] lifo_step_stage [OF more.hyps(2), of u]
    by (fastforce simp: lin_run_append thread_run_append events_of_append)
qed (simp add: events_of_def)

lemma lifo_start_inv: "lifo_start s g \<Longrightarrow> lifo_inv s []"
  by (auto simp: lifo_start_def lifo_inv_def lifo_mem_defs ocoms_atomic_lifo_construct_def apart_def split: if_splits)

text \<open>
  C19: Any interleaving of pushes, pops and tests for emptiness by any number of threads is
  linearizable: the LIFO behaves as if each operation took effect at once at one point between its
  call and its return, on a stack that starts empty; pops return the items of that stack, and the
  items reachable from the head are always that stack.
\<close>

theorem lifo_linearizable:
  assumes "lifo_start s0 g" and "lifo_exec s0 es s"
  shows "(\<exists>ys. lin_run [] (map snd es) = Some ys \<and> lifo_items (lifo_mem s) ys \<and> distinct ys) \<and>
    (\<forall>t. thread_run Out (events_of t es) \<noteq> None)"
proof -
  have "stage_of (lifo_pcs s0 t) = Out" for t using assms(1) by (simp add: lifo_start_def)
  with lifo_exec_inv [OF assms(2) lifo_start_inv [OF assms(1)]] show ?thesis
    by (fastforce simp: lifo_inv_def mem_ok_def)
qed

text \<open>Schedules: the next thread to take a step; an idle thread starts to pop.\<close>

fun schedule :: "lifo_sys \<Rightarrow> nat list \<Rightarrow> ((nat \<times> lifo_event) list \<times> lifo_sys) option" where
  "schedule s [] = Some ([], s)"
| "schedule s (t # ts) = (if lifo_pcs s t = Idle
     then do { (fs, s2) \<leftarrow> schedule (s\<lparr>lifo_pcs := (lifo_pcs s)(t := Pop_head)\<rparr>) ts; Some ((t, Call_pop) # fs, s2) }
     else case ocoms_atomic_lifo_push (lifo_mem s) (lifo_pcs s t) of
       Some (es, m, pc) \<Rightarrow> do { (fs, s2) \<leftarrow> schedule \<lparr>lifo_mem = m, lifo_pcs = (lifo_pcs s)(t := pc)\<rparr> ts; Some (map (Pair t) es @ fs, s2) }
     | None \<Rightarrow> (case ocoms_atomic_lifo_pop (lifo_mem s) (lifo_pcs s t) of
         Some (es, m, pc) \<Rightarrow> do { (fs, s2) \<leftarrow> schedule \<lparr>lifo_mem = m, lifo_pcs = (lifo_pcs s)(t := pc)\<rparr> ts; Some (map (Pair t) es @ fs, s2) }
       | None \<Rightarrow> None))"

lemma lifo_exec_cons: "lifo_exec s1 fs s2 \<Longrightarrow> lifo_step s es s1 \<Longrightarrow> lifo_exec s (es @ fs) s2"
proof (induction rule: lifo_exec.induct)
  case (none s1)
  then show ?case using lifo_exec.more [OF lifo_exec.none none] by simp
next
  case (more s1 es' s3 fs s2)
  then show ?case using lifo_exec.more [of s "es @ es'" s3 fs s2] by simp
qed

lemma schedule_exec: "schedule s ts = Some (es, s') \<Longrightarrow> lifo_exec s es s'"
proof (induction ts arbitrary: s es)
  case Nil
  then show ?case by (simp add: lifo_exec.none)
next
  case (Cons t ts)
  show ?case
  proof (cases "lifo_pcs s t = Idle")
    case True
    with Cons.prems obtain fs where "schedule (s\<lparr>lifo_pcs := (lifo_pcs s)(t := Pop_head)\<rparr>) ts = Some (fs, s')" "es = (t, Call_pop) # fs"
      by (auto simp: bind_eq_Some_conv)
    then show ?thesis using lifo_exec_cons [OF Cons.IH lifo_step.call_pop [OF True]] by simp
  next
    case False
    show ?thesis
    proof (cases "ocoms_atomic_lifo_push (lifo_mem s) (lifo_pcs s t)")
      case (Some r)
      obtain es1 m pc where r: "r = (es1, m, pc)" by (metis prod_cases3)
      with Cons.prems False Some obtain fs where "schedule \<lparr>lifo_mem = m, lifo_pcs = (lifo_pcs s)(t := pc)\<rparr> ts = Some (fs, s')"
        "es = map (Pair t) es1 @ fs" by (auto simp: bind_eq_Some_conv)
      then show ?thesis using lifo_exec_cons [OF Cons.IH lifo_step.push] Some r by simp
    next
      case None
      with Cons.prems False obtain es1 m pc where r: "ocoms_atomic_lifo_pop (lifo_mem s) (lifo_pcs s t) = Some (es1, m, pc)"
        by (auto split: option.splits)
      with Cons.prems False None obtain fs where "schedule \<lparr>lifo_mem = m, lifo_pcs = (lifo_pcs s)(t := pc)\<rparr> ts = Some (fs, s')"
        "es = map (Pair t) es1 @ fs" by (auto simp: bind_eq_Some_conv)
      then show ?thesis using lifo_exec_cons [OF Cons.IH lifo_step.pop] r by simp
    qed
  qed
qed

text \<open>A pop between the release of the pushed item and the return of the push.\<close>

lemma push_then_pop_schedule:
  assumes "lifo_start s0 g" and x: "x \<noteq> g" "x \<noteq> NULL"
  defines "s1 \<equiv> s0\<lparr>lifo_pcs := (lifo_pcs s0)(0 := Push_head x)\<rparr>"
  shows "\<exists>s. schedule s1 [0, 0, 0, 0, 0, 1, 1, 1, 1, 1, 1, 0] =
    Some ([(0, Lin_push x), (1, Call_pop), (1, Lin_pop (Some x)), (1, Ret_pop (Some x)), (0, Ret_push NULL)], s)"
proof -
  obtain m where m: "lifo_mem s0 = ocoms_atomic_lifo_construct m g" "\<forall>y. lifo_free m y = 1" "\<forall>t. lifo_pcs s0 t = Idle"
    using assms(1) by (auto simp: lifo_start_def)
  then show ?thesis using x
    by (simp add: s1_def ocoms_atomic_lifo_construct_def cmpset_head_def cmpset_free_def)
qed

lemma chain_at_ghost: "chain nx g g ys \<longleftrightarrow> ys = []"
  by (cases ys) auto

lemma start_may_push: "lifo_start s0 g \<Longrightarrow> x \<noteq> g \<Longrightarrow> x \<noteq> NULL \<Longrightarrow> may_push s0 x"
  by (auto simp: lifo_start_def may_push_def ocoms_atomic_lifo_construct_def lifo_items_def chain_at_ghost)

text \<open>
  The value a push returns is read from the item after the item has been released: if another
  thread pops the item first, the push returns the null pointer and not the old head, here the ghost,
  by which the caller would see that the LIFO was empty.
\<close>

theorem push_returns_after_release:
  assumes "lifo_start s0 g" and "x \<noteq> g" "x \<noteq> NULL"
  shows "\<exists>s. lifo_exec s0 [(0, Call_push x), (0, Lin_push x), (1, Call_pop), (1, Lin_pop (Some x)), (1, Ret_pop (Some x)),
    (0, Ret_push NULL)] s \<and> ocoms_lifo_ghost (lifo_mem s0) \<noteq> NULL \<and> ocoms_atomic_lifo_is_empty (lifo_mem s0)"
proof -
  have "lifo_pcs s0 0 = Idle" using assms(1) by (simp add: lifo_start_def)
  then have "lifo_step s0 [(0, Call_push x)] (s0\<lparr>lifo_pcs := (lifo_pcs s0)(0 := Push_head x)\<rparr>)"
    using start_may_push [OF assms] by (rule lifo_step.call_push)
  moreover obtain s where "schedule (s0\<lparr>lifo_pcs := (lifo_pcs s0)(0 := Push_head x)\<rparr>) [0, 0, 0, 0, 0, 1, 1, 1, 1, 1, 1, 0] =
    Some ([(0, Lin_push x), (1, Call_pop), (1, Lin_pop (Some x)), (1, Ret_pop (Some x)), (0, Ret_push NULL)], s)"
    using push_then_pop_schedule [OF assms] by blast
  ultimately have "lifo_exec s0 [(0, Call_push x), (0, Lin_push x), (1, Call_pop), (1, Lin_pop (Some x)), (1, Ret_pop (Some x)), (0, Ret_push NULL)] s"
    using lifo_exec_cons [OF schedule_exec] by fastforce
  moreover have "g \<noteq> NULL" "ocoms_lifo_ghost (lifo_mem s0) = g" "ocoms_lifo_head (lifo_mem s0) = g"
    using assms(1) by (auto simp: lifo_start_def ocoms_atomic_lifo_construct_def)
  ultimately show ?thesis by (auto simp: ocoms_atomic_lifo_is_empty_def)
qed

definition lifo_demo :: lifo_sys where
  "lifo_demo = \<lparr>lifo_mem = \<lparr>ocoms_lifo_head = 1, ocoms_lifo_ghost = 1, lifo_next = (\<lambda>x. if x = 1 then 1 else 0), lifo_free = (\<lambda>x. 1)\<rparr>,
     lifo_pcs = (\<lambda>t. Idle)\<rparr>"

lemma lifo_demo_start: "lifo_start lifo_demo 1"
  unfolding lifo_start_def lifo_demo_def
  by (auto simp: ocoms_atomic_lifo_construct_def NULL_def fun_eq_iff
    intro!: exI [of _ "\<lparr>ocoms_lifo_head = 1, ocoms_lifo_ghost = 1, lifo_next = (\<lambda>x. if x = 1 then 1 else 0), lifo_free = (\<lambda>x. 1)\<rparr>"])

theorem push_returns_after_release_witness:
  "\<exists>s. lifo_exec lifo_demo [(0, Call_push 2), (0, Lin_push 2), (1, Call_pop), (1, Lin_pop (Some 2)), (1, Ret_pop (Some 2)),
    (0, Ret_push NULL)] s \<and> ocoms_lifo_ghost (lifo_mem lifo_demo) \<noteq> NULL \<and> ocoms_atomic_lifo_is_empty (lifo_mem lifo_demo)"
  by (rule push_returns_after_release [OF lifo_demo_start]) (simp_all add: NULL_def)

theorem lifo_linearizable_witness:
  "\<exists>es s. es = [(0, Call_pop), (1, Call_pop), (0, Lin_pop None), (1, Lin_pop None), (0, Ret_pop None)] \<and> lifo_exec lifo_demo es s \<and>
     (\<exists>ys. lin_run [] (map snd es) = Some ys \<and> lifo_items (lifo_mem s) ys \<and> distinct ys) \<and>
     (\<forall>t. thread_run Out (events_of t es) \<noteq> None)"
proof -
  obtain s where "schedule lifo_demo [0, 1, 0, 1, 0] = Some ([(0, Call_pop), (1, Call_pop), (0, Lin_pop None), (1, Lin_pop None), (0, Ret_pop None)], s)"
    by (simp add: lifo_demo_def)
  then have e: "lifo_exec lifo_demo [(0, Call_pop), (1, Call_pop), (0, Lin_pop None), (1, Lin_pop None), (0, Ret_pop None)] s"
    by (rule schedule_exec)
  show ?thesis using e lifo_linearizable [OF lifo_demo_start e] by blast
qed

section \<open>Progress\<close>

lemma pop_spins:
  assumes "lifo_pcs s t = Pop_head \<or> lifo_pcs s t = Pop_claim h" and "ocoms_lifo_head (lifo_mem s) = h"
    and "h \<noteq> ocoms_lifo_ghost (lifo_mem s)" and "lifo_free (lifo_mem s) h \<noteq> 0"
  shows "\<exists>s'. schedule s (replicate n t) = Some ([], s') \<and> lifo_mem s' = lifo_mem s \<and> lifo_pcs s' t \<in> {Pop_head, Pop_claim h}"
  using assms
proof (induction n arbitrary: s)
  case (Suc n)
  define pc where "pc = (if lifo_pcs s t = Pop_head then Pop_claim h else Pop_head)"
  have "schedule s (replicate (Suc n) t) =
      do { (fs, s2) \<leftarrow> schedule \<lparr>lifo_mem = lifo_mem s, lifo_pcs = (lifo_pcs s)(t := pc)\<rparr> (replicate n t); Some (fs, s2) }"
    using Suc.prems by (auto simp: pc_def cmpset_free_def)
  moreover have "\<exists>s'. schedule \<lparr>lifo_mem = lifo_mem s, lifo_pcs = (lifo_pcs s)(t := pc)\<rparr> (replicate n t) = Some ([], s') \<and>
      lifo_mem s' = lifo_mem s \<and> lifo_pcs s' t \<in> {Pop_head, Pop_claim h}"
    using Suc.IH [of "\<lparr>lifo_mem = lifo_mem s, lifo_pcs = (lifo_pcs s)(t := pc)\<rparr>"] Suc.prems(2-4) by (simp add: pc_def)
  ultimately show ?case by fastforce
qed auto

text \<open>
  C20: What one thread does alone, the others stopped anywhere.  A push finishes after six steps and
  returns the old head.  A pop of an empty LIFO finishes after two steps with nothing; a pop finishes
  after five steps with the first item if no other thread holds that item; but while another thread
  stands between claiming the first item and taking it, or between linking it and releasing it, a
  pop goes on for ever: the LIFO is not lock-free.
\<close>

theorem lifo_progress_alone:
  assumes "lifo_start s0 g" and "lifo_exec s0 es s"
  shows "(\<forall>x. lifo_pcs s t = Push_head x \<longrightarrow> (\<exists>s'. schedule s (replicate 6 t) =
      Some ([(t, Lin_push x), (t, Ret_push (ocoms_lifo_head (lifo_mem s)))], s') \<and> lifo_pcs s' t = Idle)) \<and>
    (\<forall>h. lifo_pcs s t = Pop_head \<longrightarrow> ocoms_lifo_head (lifo_mem s) = h \<longrightarrow>
      (if h = ocoms_lifo_ghost (lifo_mem s) then \<exists>s'. schedule s (replicate 2 t) = Some ([(t, Lin_pop None), (t, Ret_pop None)], s') \<and> lifo_pcs s' t = Idle
       else if \<exists>u. holds (lifo_pcs s u) = Some h then \<forall>n. \<exists>s'. schedule s (replicate n t) = Some ([], s') \<and> lifo_pcs s' t \<noteq> Idle
       else \<exists>s'. schedule s (replicate 5 t) = Some ([(t, Lin_pop (Some h)), (t, Ret_pop (Some h))], s') \<and> lifo_pcs s' t = Idle))"
proof -
  obtain ys where inv: "lifo_inv s ys" using lifo_exec_inv [OF assms(2) lifo_start_inv [OF assms(1)]] by blast
  have n: "replicate 6 t = [t, t, t, t, t, t]" "replicate 2 t = [t, t]" "replicate 5 t = [t, t, t, t, t]" by (simp_all add: numeral_eq_Suc)
  have push: "\<exists>s'. schedule s (replicate 6 t) = Some ([(t, Lin_push x), (t, Ret_push (ocoms_lifo_head (lifo_mem s)))], s') \<and> lifo_pcs s' t = Idle"
    if "lifo_pcs s t = Push_head x" for x
    using that unfolding n by (simp add: cmpset_head_def cmpset_free_def)
  have empty: "\<exists>s'. schedule s (replicate 2 t) = Some ([(t, Lin_pop None), (t, Ret_pop None)], s') \<and> lifo_pcs s' t = Idle"
    if "lifo_pcs s t = Pop_head" "ocoms_lifo_head (lifo_mem s) = ocoms_lifo_ghost (lifo_mem s)"
    using that unfolding n by simp
  have spin: "\<exists>s'. schedule s (replicate n t) = Some ([], s') \<and> lifo_pcs s' t \<noteq> Idle"
    if h: "lifo_pcs s t = Pop_head" "ocoms_lifo_head (lifo_mem s) = h" "h \<noteq> ocoms_lifo_ghost (lifo_mem s)" and u: "holds (lifo_pcs s u) = Some h" for h u n
  proof -
    have "lifo_free (lifo_mem s) h \<noteq> 0" using free_unheld [OF inv] u by blast
    from pop_spins [OF disjI1 [OF h(1)] h(2,3) this] show ?thesis by fastforce
  qed
  have free: "\<exists>s'. schedule s (replicate 5 t) = Some ([(t, Lin_pop (Some h)), (t, Ret_pop (Some h))], s') \<and> lifo_pcs s' t = Idle"
    if h: "lifo_pcs s t = Pop_head" "ocoms_lifo_head (lifo_mem s) = h" "h \<noteq> ocoms_lifo_ghost (lifo_mem s)" and u: "\<nexists>u. holds (lifo_pcs s u) = Some h" for h
  proof -
    have "h \<in> set ys" using inv h(2,3) by (cases ys) (auto simp: lifo_inv_def lifo_mem_defs)
    then have "lifo_free (lifo_mem s) h = 0" using inv u by (auto simp: lifo_inv_def)
    then show ?thesis using h unfolding n by (simp add: cmpset_head_def cmpset_free_def)
  qed
  show ?thesis using push empty spin free by auto
qed

theorem lifo_progress_alone_witness:
  "\<exists>s. lifo_pcs s 0 = Pop_head \<and> lifo_pcs s 1 = Pop_head \<and> (\<exists>s'. schedule s [0, 0] = Some ([(0, Lin_pop None), (0, Ret_pop None)], s'))"
proof -
  obtain s es where s: "schedule lifo_demo [0, 1] = Some (es, s)" "lifo_pcs s 0 = Pop_head" "lifo_pcs s 1 = Pop_head"
    "ocoms_lifo_head (lifo_mem s) = ocoms_lifo_ghost (lifo_mem s)" by (simp add: lifo_demo_def)
  have "replicate 2 (0::nat) = [0, 0]" by (simp add: numeral_2_eq_2)
  with lifo_progress_alone [OF lifo_demo_start schedule_exec [OF s(1)], of 0] s(2,4)
  have "\<exists>s'. schedule s [0, 0] = Some ([(0, Lin_pop None), (0, Ret_pop None)], s')" by (auto simp del: schedule.simps)
  with s(2,3) show ?thesis by blast
qed

section \<open>Without threads\<close>

text \<open>The code that is compiled without \<open>OCOMS_ENABLE_MULTI_THREADS\<close>; the result of \<open>pop\<close> is \<open>None\<close> for null.\<close>

definition lifo_push_single :: "atomic_lifo \<Rightarrow> addr \<Rightarrow> addr \<times> atomic_lifo" where
  "lifo_push_single m x =
     (let m1 = m\<lparr>lifo_next := (lifo_next m)(x := ocoms_lifo_head m)\<rparr>;
          m2 = m1\<lparr>ocoms_lifo_head := x\<rparr>
      in (lifo_next m2 x, m2))"

definition lifo_pop_single :: "atomic_lifo \<Rightarrow> addr option \<times> atomic_lifo" where
  "lifo_pop_single m =
     (let item = ocoms_lifo_head m; m1 = m\<lparr>ocoms_lifo_head := lifo_next m item\<rparr>
      in if item = ocoms_lifo_ghost m1 then (None, m1)
         else (Some item, m1\<lparr>lifo_next := (lifo_next m1)(item := NULL)\<rparr>))"

definition lifo_rep :: "addr \<Rightarrow> atomic_lifo \<Rightarrow> addr list \<Rightarrow> bool" where
  "lifo_rep g m ys \<longleftrightarrow> ocoms_lifo_ghost m = g \<and> lifo_next m g = g \<and> lifo_items m ys \<and> distinct ys"

interpretation lifo_stack: stack "lifo_rep g" "\<lambda>ys x. x \<noteq> g \<and> x \<notin> set ys"
  "\<lambda>m x. Some (snd (lifo_push_single m x))" "\<lambda>m. Some (lifo_pop_single m)" for g
proof unfold_locales
  fix m ys x assume "lifo_rep g m ys" "x \<noteq> g \<and> x \<notin> set ys"
  then show "\<exists>s'. Some (snd (lifo_push_single m x)) = Some s' \<and> lifo_rep g s' (x # ys)"
    by (auto simp: lifo_rep_def lifo_push_single_def lifo_items_def Let_def chain_upd)
next
  fix m x ys assume "lifo_rep g m (x # ys)"
  then show "\<exists>s'. Some (lifo_pop_single m) = Some (Some x, s') \<and> lifo_rep g s' ys"
    by (auto simp: lifo_rep_def lifo_pop_single_def lifo_items_def Let_def chain_upd)
next
  fix m assume "lifo_rep g m []"
  then show "\<exists>s'. Some (lifo_pop_single m) = Some (None, s') \<and> lifo_rep g s' []"
    by (auto simp: lifo_rep_def lifo_pop_single_def lifo_items_def Let_def)
qed

text \<open>
  Without threads, every sequence of pushes and pops on a constructed LIFO returns what a stack
  returns, if no item is pushed that is in the LIFO.
\<close>

theorem lifo_single_is_stack:
  assumes "stack_spec (\<lambda>ys x. x \<noteq> g \<and> x \<notin> set ys) [] ops = Some (rs, ys)"
  shows "\<exists>m'. run_stack (\<lambda>m x. Some (snd (lifo_push_single m x))) (\<lambda>m. Some (lifo_pop_single m))
     (ocoms_atomic_lifo_construct m g) ops = Some (rs, m') \<and> lifo_items m' ys \<and> lifo_next m' g = g"
  using lifo_stack.run_stack_refines [of g "ocoms_atomic_lifo_construct m g" "[]" ops rs ys] assms
  by (auto simp: lifo_rep_def ocoms_atomic_lifo_construct_def lifo_items_def)

theorem lifo_single_is_stack_witness:
  "\<exists>m'. run_stack (\<lambda>m x. Some (snd (lifo_push_single m x))) (\<lambda>m. Some (lifo_pop_single m))
     (ocoms_atomic_lifo_construct (lifo_mem lifo_demo) 1) [Push 2, Push 3, Pop, Pop, Pop, Push 2] =
     Some ([Some 3, Some 2, None], m') \<and> lifo_items m' [2] \<and> lifo_next m' 1 = 1"
  by (rule lifo_single_is_stack) simp

end
