(* ===== verification/Value_Array.thy ===== *)
theory Value_Array
  imports Prelude
begin

text \<open>
  The growing arrays of fixed-size items of \<open>ocoms/util/ocoms_value_array.c\<close> and \<open>.h\<close>: a block of
  bytes, the size of an item, the number of items in use and the number there is room for.  The
  sizes are \<open>size_t\<close> values, whose arithmetic wraps; \<open>realloc\<close> is the parameter of \<open>Prelude\<close>.
\<close>

section \<open>Model\<close>

type_synonym bytes = "8 word list"

record ocoms_value_array_t =
  array_items :: "bytes option"
  array_item_sizeof :: nat
  array_size :: nat
  array_alloc_size :: nat

definition ocoms_value_array_construct :: ocoms_value_array_t where
  "ocoms_value_array_construct = \<lparr>array_items = None, array_item_sizeof = 0, array_size = 0, array_alloc_size = 0\<rparr>"

definition ocoms_value_array_init :: "8 word allocator \<Rightarrow> ocoms_value_array_t \<Rightarrow> nat \<Rightarrow> int \<times> ocoms_value_array_t" where
  "ocoms_value_array_init m a item_sizeof =
     (let items = realloc m (array_items a) item_sizeof;
          a' = \<lparr>array_items = items, array_item_sizeof = item_sizeof, array_size = 0, array_alloc_size = 1\<rparr>
      in (if items \<noteq> None then OCOMS_SUCCESS else OCOMS_ERR_OUT_OF_RESOURCE, a'))"

definition ocoms_value_array_reserve :: "8 word allocator \<Rightarrow> ocoms_value_array_t \<Rightarrow> nat \<Rightarrow> int \<times> ocoms_value_array_t" where
  "ocoms_value_array_reserve m a n =
     (if array_alloc_size a < n then
        (case realloc m (array_items a) (size_norm (array_item_sizeof a * n)) of
           None \<Rightarrow> (OCOMS_ERR_OUT_OF_RESOURCE, a\<lparr>array_items := None, array_size := 0, array_alloc_size := 0\<rparr>)
         | Some items \<Rightarrow> (OCOMS_SUCCESS, a\<lparr>array_items := Some items, array_alloc_size := n\<rparr>))
      else (OCOMS_SUCCESS, a))"

definition ocoms_value_array_get_size :: "ocoms_value_array_t \<Rightarrow> nat" where
  "ocoms_value_array_get_size a = array_size a"

text \<open>Doubling the room until it is enough: it never is when there is none, or when doubling wraps to zero.\<close>

partial_function (option) double_until :: "nat \<Rightarrow> nat \<Rightarrow> nat option" where
  "double_until alloc n = (if alloc < n then double_until (size_norm (2 * alloc)) n else Some alloc)"

text \<open>\<open>dbg\<close> stands for \<open>OCOMS_ENABLE_DEBUG\<close>.\<close>

definition ocoms_value_array_set_size ::
  "bool \<Rightarrow> 8 word allocator \<Rightarrow> ocoms_value_array_t \<Rightarrow> nat \<Rightarrow> (int \<times> ocoms_value_array_t) option" where
  "ocoms_value_array_set_size dbg m a n =
     (if dbg \<and> array_item_sizeof a = 0 then Some (OCOMS_ERR_BAD_PARAM, a)
      else if array_alloc_size a < n then do {
        alloc \<leftarrow> double_until (array_alloc_size a) n;
        case realloc m (array_items a) (size_norm (alloc * array_item_sizeof a)) of
          None \<Rightarrow> Some (OCOMS_ERR_OUT_OF_RESOURCE, a\<lparr>array_items := None, array_alloc_size := alloc\<rparr>)
        | Some items \<Rightarrow> Some (OCOMS_SUCCESS, a\<lparr>array_items := Some items, array_alloc_size := alloc, array_size := n\<rparr>) }
      else Some (OCOMS_SUCCESS, a\<lparr>array_size := n\<rparr>))"

text \<open>The address of an item is its offset in the block; \<open>None\<close> stands for the null pointer.\<close>

definition ocoms_value_array_get_item ::
  "bool \<Rightarrow> 8 word allocator \<Rightarrow> ocoms_value_array_t \<Rightarrow> nat \<Rightarrow> (nat option \<times> ocoms_value_array_t) option" where
  "ocoms_value_array_get_item dbg m a item_index = do {
     (rc, a') \<leftarrow> (if array_size a \<le> item_index then ocoms_value_array_set_size dbg m a (size_norm (item_index + 1))
                 else Some (OCOMS_SUCCESS, a));
     Some (if rc \<noteq> OCOMS_SUCCESS then None else Some (size_norm (item_index * array_item_sizeof a')), a') }"

text \<open>Copies of bytes inside an object of a given size.\<close>

definition read_bytes :: "bytes option \<Rightarrow> nat \<Rightarrow> nat \<Rightarrow> bytes option" where
  "read_bytes b off n = do { bs \<leftarrow> b; if off + n \<le> length bs then Some (take n (drop off bs)) else None }"

definition write_bytes :: "bytes option \<Rightarrow> nat \<Rightarrow> bytes \<Rightarrow> bytes option" where
  "write_bytes b off xs = do { bs \<leftarrow> b;
     if off + length xs \<le> length bs then Some (take off bs @ xs @ drop (off + length xs) bs) else None }"

definition ocoms_value_array_set_item ::
  "bool \<Rightarrow> 8 word allocator \<Rightarrow> ocoms_value_array_t \<Rightarrow> nat \<Rightarrow> bytes \<Rightarrow> (int \<times> ocoms_value_array_t) option" where
  "ocoms_value_array_set_item dbg m a item_index item = do {
     (rc, a') \<leftarrow> (if array_size a \<le> item_index then ocoms_value_array_set_size dbg m a (size_norm (item_index + 1))
                 else Some (OCOMS_SUCCESS, a));
     if rc \<noteq> OCOMS_SUCCESS then Some (rc, a')
     else do {
       src \<leftarrow> read_bytes (Some item) 0 (array_item_sizeof a');
       items \<leftarrow> write_bytes (array_items a') (size_norm (item_index * array_item_sizeof a')) src;
       Some (OCOMS_SUCCESS, a'\<lparr>array_items := Some items\<rparr>) } }"

definition ocoms_value_array_append_item ::
  "bool \<Rightarrow> 8 word allocator \<Rightarrow> ocoms_value_array_t \<Rightarrow> bytes \<Rightarrow> (int \<times> ocoms_value_array_t) option" where
  "ocoms_value_array_append_item dbg m a item = ocoms_value_array_set_item dbg m a (array_size a) item"

definition ocoms_value_array_remove_item ::
  "bool \<Rightarrow> ocoms_value_array_t \<Rightarrow> nat \<Rightarrow> (int \<times> ocoms_value_array_t) option" where
  "ocoms_value_array_remove_item dbg a item_index =
     (if dbg \<and> array_size a \<le> item_index then Some (OCOMS_ERR_BAD_PARAM, a)
      else do {
        let sz = array_item_sizeof a;
        let n = size_t (int sz * (int (array_size a) - int item_index - 1));
        src \<leftarrow> read_bytes (array_items a) (size_norm (sz * (item_index + 1))) n;
        items \<leftarrow> write_bytes (array_items a) (size_norm (sz * item_index)) src;
        Some (OCOMS_SUCCESS, a\<lparr>array_items := Some items, array_size := size_t (int (array_size a) - 1)\<rparr>) })"

section \<open>The items\<close>

text \<open>
  The array holds the items \<open>xs\<close> when the block starts with their bytes and has the room it says, less
  than half of the address space.
\<close>

definition va_rep :: "ocoms_value_array_t \<Rightarrow> bytes list \<Rightarrow> bool" where
  "va_rep a xs \<longleftrightarrow> 0 < array_item_sizeof a \<and> (\<forall>x \<in> set xs. length x = array_item_sizeof a) \<and>
     array_size a = length xs \<and> 0 < array_alloc_size a \<and> length xs \<le> array_alloc_size a \<and>
     array_alloc_size a * array_item_sizeof a < 2 ^ 63 \<and>
     (\<exists>rest. array_items a = Some (concat xs @ rest) \<and> length (concat xs @ rest) = array_alloc_size a * array_item_sizeof a)"

lemma length_concat_same: "\<forall>x \<in> set xs. length x = n \<Longrightarrow> length (concat xs) = length xs * n"
  by (induction xs) auto

lemma take_concat_same: "\<forall>x \<in> set xs. length x = n \<Longrightarrow> take (i * n) (concat xs) = concat (take i xs)"
proof (induction xs arbitrary: i)
  case (Cons x xs)
  then show ?case by (cases i) auto
qed simp

lemma drop_concat_same: "\<forall>x \<in> set xs. length x = n \<Longrightarrow> drop (i * n) (concat xs) = concat (drop i xs)"
proof (induction xs arbitrary: i)
  case (Cons x xs)
  then show ?case by (cases i) auto
qed simp

lemma double_until_ok: "0 < a \<Longrightarrow> n \<le> 2 ^ 62 \<Longrightarrow> a \<le> 2 ^ 63 \<Longrightarrow> \<exists>b. double_until a n = Some b \<and> n \<le> b \<and> a \<le> b \<and> (b = a \<or> b < 2 * n)"
proof (induction "2 ^ 64 - a" arbitrary: a rule: less_induct)
  case less
  show ?case
  proof (cases "a < n")
    case False
    then show ?thesis by (simp add: double_until.simps [of a n])
  next
    case True
    then have "size_norm (2 * a) = 2 * a" using less.prems by (simp add: size_norm_def)
    moreover have "\<exists>b. double_until (2 * a) n = Some b \<and> n \<le> b \<and> 2 * a \<le> b \<and> (b = 2 * a \<or> b < 2 * n)"
      using less.prems True by (intro less.hyps) simp_all
    ultimately show ?thesis using True by (fastforce simp: double_until.simps [of a n])
  qed
qed

text \<open>Without room to start from the doubling never ends.\<close>

lemma double_until_zero: "0 < n \<Longrightarrow> double_until 0 n = None"
proof (rule ccontr)
  assume n: "0 < n" and "double_until 0 n \<noteq> None"
  then obtain b where "double_until 0 n = Some b" by blast
  then have "\<not> ((0::nat) = 0 \<and> 0 < n)"
    by (rule double_until.raw_induct [rotated, where P = "\<lambda>a n b. \<not> (a = 0 \<and> 0 < n)"])
      (auto simp: size_norm_def split: if_splits, rule ccontr, fastforce)
  with n show False by simp
qed

lemma size_bounds: "(2::nat) ^ 64 = 2 * 2 ^ 63" "(2::nat) ^ 63 = 2 * 2 ^ 62"
  by simp_all

lemma va_repD:
  assumes "va_rep a xs"
  shows "\<exists>bs. array_items a = Some bs \<and> length bs = array_alloc_size a * array_item_sizeof a \<and>
    take (length xs * array_item_sizeof a) bs = concat xs"
  using assms length_concat_same [of xs "array_item_sizeof a"] by (auto simp: va_rep_def)

lemma va_repI:
  assumes "0 < array_item_sizeof a" "\<forall>x \<in> set xs. length x = array_item_sizeof a" "array_size a = length xs"
    "0 < array_alloc_size a" "length xs \<le> array_alloc_size a" "array_alloc_size a * array_item_sizeof a < 2 ^ 63"
    "array_items a = Some bs" "length bs = array_alloc_size a * array_item_sizeof a" "take (length xs * array_item_sizeof a) bs = concat xs"
  shows "va_rep a xs"
proof -
  have "bs = concat xs @ drop (length xs * array_item_sizeof a) bs" using assms(9) by (metis append_take_drop_id)
  then show ?thesis using assms(1-8) unfolding va_rep_def by (metis (no_types, lifting))
qed

text \<open>Making room for a number of items; what is in the room beyond the old items is unspecified.\<close>

lemma va_set_size_ok:
  assumes rep: "va_rep a xs" and m: "malloc_ok m" and n: "2 * n * array_item_sizeof a < 2 ^ 63" "length xs \<le> n"
  shows "(\<exists>a'. ocoms_value_array_set_size dbg m a n = Some (OCOMS_ERR_OUT_OF_RESOURCE, a')) \<or>
    (\<exists>a' ys. ocoms_value_array_set_size dbg m a n = Some (OCOMS_SUCCESS, a') \<and> va_rep a' (xs @ ys) \<and>
       length (xs @ ys) = n \<and> array_item_sizeof a' = array_item_sizeof a)"
proof -
  let ?z = "array_item_sizeof a"
  have r: "0 < ?z" "\<forall>x \<in> set xs. length x = ?z" "array_size a = length xs" "0 < array_alloc_size a"
    "length xs \<le> array_alloc_size a" "array_alloc_size a * ?z < 2 ^ 63" using rep by (simp_all add: va_rep_def)
  obtain bs where bs: "array_items a = Some bs" "length bs = array_alloc_size a * ?z" "take (length xs * ?z) bs = concat xs"
    using va_repD [OF rep] by blast
  have fill: "\<exists>ys. va_rep a' (xs @ ys) \<and> length (xs @ ys) = n"
    if a': "array_items a' = Some cs" "length cs = array_alloc_size a' * ?z" "array_item_sizeof a' = ?z" "array_size a' = n"
      "n \<le> array_alloc_size a'" "0 < array_alloc_size a'" "array_alloc_size a' * ?z < 2 ^ 63" "take (length xs * ?z) cs = concat xs" for a' cs
  proof -
    define ys where "ys = map (\<lambda>i. take ?z (drop ((length xs + i) * ?z) cs)) [0..<n - length xs]"
    have ny: "length ys = n - length xs" by (simp add: ys_def)
    have fits: "(length xs + i + 1) * ?z \<le> length cs" if "i < n - length xs" for i
      unfolding a'(2) using that a'(5) n(2) by (intro mult_right_mono) simp_all
    have "length (take ?z (drop ((length xs + i) * ?z) cs)) = ?z" if "i < n - length xs" for i
      using fits [OF that] by (simp add: algebra_simps)
    then have items: "\<forall>x \<in> set ys. length x = ?z" by (simp add: ys_def)
    have cat: "take ((length xs + k) * ?z) cs = concat xs @ concat (take k ys)" if "k \<le> n - length xs" for k
      using that
    proof (induction k)
      case (Suc k)
      have "take ((length xs + Suc k) * ?z) cs = take ((length xs + k) * ?z) cs @ take ?z (drop ((length xs + k) * ?z) cs)"
        using take_add [of "(length xs + k) * ?z" ?z cs] by (simp add: add.commute)
      also have "\<dots> = concat xs @ concat (take (Suc k) ys)"
        using Suc by (simp add: take_Suc_conv_app_nth ny) (simp add: ys_def)
      finally show ?case .
    qed (simp add: a'(8))
    have "take (length (xs @ ys) * ?z) cs = concat (xs @ ys)" using cat [of "n - length xs"] n(2) ny by simp
    moreover have "\<forall>x \<in> set (xs @ ys). length x = array_item_sizeof a'" using items r(2) a'(3) by auto
    moreover have "array_size a' = length (xs @ ys)" "length (xs @ ys) \<le> array_alloc_size a'" using a'(4,5) ny n(2) by simp_all
    ultimately have "va_rep a' (xs @ ys)" using r(1) a'(1,2,3,6,7) by (intro va_repI [where bs = cs]) simp_all
    then show ?thesis using n(2) ny by (intro exI [of _ ys]) simp
  qed
  show ?thesis
  proof (cases "array_alloc_size a < n")
    case False
    then show ?thesis using fill [of "a\<lparr>array_size := n\<rparr>" bs] bs r n
      by (auto simp: ocoms_value_array_set_size_def)
  next
    case True
    have "n \<le> n * ?z" "array_alloc_size a \<le> array_alloc_size a * ?z" using r(1) by simp_all
    then have "n \<le> 2 ^ 62" "array_alloc_size a \<le> 2 ^ 63" using n(1) [unfolded mult.assoc] r(6) size_bounds by linarith+
    then obtain b where b: "double_until (array_alloc_size a) n = Some b" "n \<le> b" "array_alloc_size a \<le> b" "b < 2 * n"
      using double_until_ok [OF r(4), of n] True by auto
    have bz: "b * ?z < 2 ^ 63" using n(1) b(4) r(1) by (meson less_imp_le_nat le_less_trans mult_right_mono zero_le)
    then have norm: "size_norm (b * ?z) = b * ?z" by (simp add: size_norm_def)
    show ?thesis
    proof (cases "realloc m (Some bs) (b * ?z)")
      case None
      then show ?thesis using True b(1) bs(1) norm r(1) by (simp add: ocoms_value_array_set_size_def)
    next
      case (Some cs)
      obtain junk where cs: "cs = bs @ junk" "length junk = b * ?z - length bs"
        using realloc_grow [OF m Some] b(3) bs(2) by (auto intro: mult_right_mono)
      have "length cs = b * ?z" using realloc_length [OF m Some] .
      moreover have "take (length xs * ?z) cs = concat xs" unfolding cs(1) using bs(2,3) r(5) mult_right_mono [OF r(5), of ?z] by simp
      ultimately show ?thesis using fill [of "a\<lparr>array_items := Some cs, array_alloc_size := b, array_size := n\<rparr>" cs]
          True b bs(1) norm r(1) bz Some n by (auto simp: ocoms_value_array_set_size_def)
    qed
  qed
qed


lemma va_write_ok:
  assumes rep: "va_rep a xs" and i: "i < length xs" and x: "length x = array_item_sizeof a"
  shows "\<exists>bs. write_bytes (array_items a) (size_norm (i * array_item_sizeof a)) x = Some bs \<and> va_rep (a\<lparr>array_items := Some bs\<rparr>) (xs[i := x])"
proof -
  let ?z = "array_item_sizeof a"
  have r: "0 < ?z" "\<forall>x \<in> set xs. length x = ?z" "array_size a = length xs" "0 < array_alloc_size a"
    "length xs \<le> array_alloc_size a" "array_alloc_size a * ?z < 2 ^ 63" using rep by (simp_all add: va_rep_def)
  obtain bs where bs: "array_items a = Some bs" "length bs = array_alloc_size a * ?z" "take (length xs * ?z) bs = concat xs"
    using va_repD [OF rep] by blast
  have le: "i * ?z + ?z \<le> length xs * ?z" using mult_right_mono [of "Suc i" "length xs" ?z] i by simp
  have "length xs * ?z \<le> array_alloc_size a * ?z" using r(5) by (rule mult_right_mono) simp
  from order_trans [OF le this] have in_block: "i * ?z + ?z \<le> length bs" unfolding bs(2) .
  then have "i * ?z < 2 ^ 63" using r(6) unfolding bs(2) by linarith
  then have norm: "size_norm (i * ?z) = i * ?z" by (simp add: size_norm_def)
  let ?bs = "take (i * ?z) bs @ x @ drop (i * ?z + ?z) bs"
  have w: "write_bytes (array_items a) (size_norm (i * ?z)) x = Some ?bs"
    using bs(1) in_block x by (simp add: write_bytes_def norm)
  have t: "take (i * ?z) bs = concat (take i xs)"
  proof -
    have "take (i * ?z) bs = take (i * ?z) (take (length xs * ?z) bs)" using i by (simp add: min_def)
    then show ?thesis unfolding bs(3) using take_concat_same [OF r(2)] by simp
  qed
  have d: "take (length xs * ?z - (i * ?z + ?z)) (drop (i * ?z + ?z) bs) = concat (drop (Suc i) xs)"
  proof -
    have "take (length xs * ?z - (i * ?z + ?z)) (drop (i * ?z + ?z) bs) = drop (Suc i * ?z) (take (length xs * ?z) bs)"
      by (simp add: drop_take add.commute)
    then show ?thesis unfolding bs(3) using drop_concat_same [OF r(2), of "Suc i"] by simp
  qed
  have lc: "length (concat (take i xs)) = i * ?z" using arg_cong [OF t, of length] in_block by simp
  have "take (length xs * ?z) ?bs = concat (take i xs) @ x @ concat (drop (Suc i) xs)"
    using t d x in_block le lc i by simp
  also have "\<dots> = concat (xs[i := x])" using i by (simp add: upd_conv_take_nth_drop)
  finally have "take (length xs * ?z) ?bs = concat (xs[i := x])" .
  moreover have "length ?bs = array_alloc_size a * ?z" using in_block x bs(2) by simp
  moreover have "\<forall>y \<in> set (xs[i := x]). length y = ?z" using r(2) x set_update_subset_insert [of xs i x] by auto
  ultimately have "va_rep (a\<lparr>array_items := Some ?bs\<rparr>) (xs[i := x])"
    using r by (intro va_repI [where bs = ?bs]) simp_all
  with w show ?thesis by blast
qed

lemma va_set_item_ok:
  assumes rep: "va_rep a xs" and m: "malloc_ok m" and x: "length x = array_item_sizeof a"
    and small: "2 * (i + 1) * array_item_sizeof a < 2 ^ 63"
  shows "(\<exists>a'. ocoms_value_array_set_item dbg m a i x = Some (OCOMS_ERR_OUT_OF_RESOURCE, a')) \<or>
    (\<exists>a' ys. ocoms_value_array_set_item dbg m a i x = Some (OCOMS_SUCCESS, a') \<and> va_rep a' ((xs @ ys)[i := x]) \<and>
       length (xs @ ys) = max (length xs) (i + 1) \<and> array_item_sizeof a' = array_item_sizeof a)"
proof -
  have z: "0 < array_item_sizeof a" "array_size a = length xs" using rep by (simp_all add: va_rep_def)
  have run: "\<exists>a'. (do { src \<leftarrow> read_bytes (Some x) 0 (array_item_sizeof b);
       items \<leftarrow> write_bytes (array_items b) (size_norm (i * array_item_sizeof b)) src;
       Some (OCOMS_SUCCESS, b\<lparr>array_items := Some items\<rparr>) }) = Some (OCOMS_SUCCESS, a') \<and> va_rep a' (zs[i := x]) \<and>
       array_item_sizeof a' = array_item_sizeof a"
    if b: "va_rep b zs" "i < length zs" "array_item_sizeof b = array_item_sizeof a" for b zs
  proof -
    obtain bs where "write_bytes (array_items b) (size_norm (i * array_item_sizeof b)) x = Some bs"
      "va_rep (b\<lparr>array_items := Some bs\<rparr>) (zs[i := x])" using va_write_ok [OF b(1,2)] x b(3) by auto
    moreover have "read_bytes (Some x) 0 (array_item_sizeof b) = Some x" using x b(3) by (simp add: read_bytes_def)
    ultimately show ?thesis using b(3) by simp
  qed
  show ?thesis
  proof (cases "length xs \<le> i")
    case False
    then have "ocoms_value_array_set_item dbg m a i x = do { src \<leftarrow> read_bytes (Some x) 0 (array_item_sizeof a);
       items \<leftarrow> write_bytes (array_items a) (size_norm (i * array_item_sizeof a)) src;
       Some (OCOMS_SUCCESS, a\<lparr>array_items := Some items\<rparr>) }" using z(2) by (simp add: ocoms_value_array_set_item_def)
    moreover obtain a' where "(do { src \<leftarrow> read_bytes (Some x) 0 (array_item_sizeof a);
       items \<leftarrow> write_bytes (array_items a) (size_norm (i * array_item_sizeof a)) src;
       Some (OCOMS_SUCCESS, a\<lparr>array_items := Some items\<rparr>) }) = Some (OCOMS_SUCCESS, a')" "va_rep a' (xs[i := x])"
       "array_item_sizeof a' = array_item_sizeof a" using run [OF rep] False by auto
    ultimately show ?thesis using False by (intro disjI2 exI [of _ a'] exI [of _ "[]"]) simp
  next
    case True
    have "i + 1 \<le> (i + 1) * array_item_sizeof a" using mult_le_mono2 [of 1 "array_item_sizeof a" "i + 1"] z(1) by simp
    then have norm: "size_norm (i + 1) = i + 1" using small using size_bounds unfolding size_norm_def mult.assoc by (intro mod_less) linarith
    from va_set_size_ok [OF rep m, of "i + 1" dbg] small True
    consider a' where "ocoms_value_array_set_size dbg m a (i + 1) = Some (OCOMS_ERR_OUT_OF_RESOURCE, a')"
      | a' ys where "ocoms_value_array_set_size dbg m a (i + 1) = Some (OCOMS_SUCCESS, a')" "va_rep a' (xs @ ys)"
        "length (xs @ ys) = i + 1" "array_item_sizeof a' = array_item_sizeof a" by (auto simp: algebra_simps)
    then show ?thesis
    proof cases
      case 1
      then show ?thesis using True z(2) norm by (simp add: ocoms_value_array_set_item_def)
    next
      case 2
      then obtain a2 where "ocoms_value_array_set_item dbg m a i x = Some (OCOMS_SUCCESS, a2)" "va_rep a2 ((xs @ ys)[i := x])"
        "array_item_sizeof a2 = array_item_sizeof a"
        using run [OF 2(2) _ 2(4)] True z(2) norm by (auto simp: ocoms_value_array_set_item_def)
      with 2(3) True show ?thesis by (intro disjI2 exI [of _ a2] exI [of _ ys]) simp
    qed
  qed
qed

lemma va_append_ok:
  assumes rep: "va_rep a xs" and m: "malloc_ok m" and x: "length x = array_item_sizeof a"
    and small: "2 * (length xs + 1) * array_item_sizeof a < 2 ^ 63"
  shows "(\<exists>a'. ocoms_value_array_append_item dbg m a x = Some (OCOMS_ERR_OUT_OF_RESOURCE, a')) \<or>
    (\<exists>a'. ocoms_value_array_append_item dbg m a x = Some (OCOMS_SUCCESS, a') \<and> va_rep a' (xs @ [x]) \<and> array_item_sizeof a' = array_item_sizeof a)"
proof -
  have size: "array_size a = length xs" using rep by (simp add: va_rep_def)
  have "(xs @ ys)[length xs := x] = xs @ [x]" if l: "length (xs @ ys) = max (length xs) (length xs + 1)" for ys
  proof -
    obtain y where "ys = [y]" using l by (cases ys) auto
    then show ?thesis by (simp add: list_update_append)
  qed
  with va_set_item_ok [OF rep m x small, of dbg] show ?thesis
    unfolding ocoms_value_array_append_item_def size by metis
qed

lemma size_t_int: "k < 2 ^ 64 \<Longrightarrow> size_t (int k) = k"
  by (simp add: size_t_def)

lemma va_remove_ok:
  assumes rep: "va_rep a xs" and i: "i < length xs"
  shows "\<exists>a'. ocoms_value_array_remove_item dbg a i = Some (OCOMS_SUCCESS, a') \<and> va_rep a' (take i xs @ drop (Suc i) xs) \<and>
    array_item_sizeof a' = array_item_sizeof a"
proof -
  let ?z = "array_item_sizeof a" and ?n = "length xs"
  have r: "0 < ?z" "\<forall>x \<in> set xs. length x = ?z" "array_size a = ?n" "0 < array_alloc_size a"
    "?n \<le> array_alloc_size a" "array_alloc_size a * ?z < 2 ^ 63" using rep by (simp_all add: va_rep_def)
  obtain bs where bs: "array_items a = Some bs" "length bs = array_alloc_size a * ?z" "take (?n * ?z) bs = concat xs"
    using va_repD [OF rep] by blast
  have nz: "?n * ?z \<le> length bs" unfolding bs(2) using r(5) by (rule mult_right_mono) simp
  have le: "Suc i * ?z \<le> ?n * ?z" using i by (intro mult_right_mono) simp_all
  have split: "?n * ?z = Suc i * ?z + (?n - Suc i) * ?z" using i by (metis Suc_leI add_mult_distrib le_add_diff_inverse)
  have "(?n - Suc i) * ?z \<le> array_alloc_size a * ?z" using split nz unfolding bs(2) by linarith
  then have rest: "(?n - Suc i) * ?z < 2 ^ 64" using r(6) size_bounds by linarith
  have "int ?z * (int ?n - int i - 1) = int ((?n - Suc i) * ?z)" using i by (simp add: of_nat_diff)
  then have n: "size_t (int ?z * (int ?n - int i - 1)) = (?n - Suc i) * ?z"
    using size_t_int [of "(?n - Suc i) * ?z"] rest by (simp only:)
  have norm: "size_norm (?z * (i + 1)) = Suc i * ?z" "size_norm (?z * i) = i * ?z"
  proof -
    have "Suc i * ?z < 2 ^ 64" using le nz r(6) size_bounds unfolding bs(2) by linarith
    moreover from this have "i * ?z < 2 ^ 64" by simp
    ultimately show "size_norm (?z * (i + 1)) = Suc i * ?z" "size_norm (?z * i) = i * ?z"
      unfolding size_norm_def by (simp_all only: mult.commute [of ?z] Suc_eq_plus1 [symmetric] mod_less)
  qed
  let ?src = "take ((?n - Suc i) * ?z) (drop (Suc i * ?z) bs)"
  let ?bs = "take (i * ?z) bs @ ?src @ drop (i * ?z + (?n - Suc i) * ?z) bs"
  have ls: "length ?src = (?n - Suc i) * ?z" using nz split by simp
  have rd: "read_bytes (array_items a) (Suc i * ?z) ((?n - Suc i) * ?z) = Some ?src"
    using bs(1) nz split by (simp add: read_bytes_def)
  have wrt: "write_bytes (array_items a) (i * ?z) ?src = Some ?bs"
    unfolding write_bytes_def bs(1) ls using nz split by simp
  have sz: "size_t (int ?n - 1) = ?n - 1"
  proof -
    have "?n \<le> ?n * ?z" using r(1) by simp
    then have "?n - 1 < 2 ^ 64" using nz r(6) size_bounds unfolding bs(2) by linarith
    moreover have "int ?n - 1 = int (?n - 1)" using i by simp
    ultimately show ?thesis using size_t_int [of "?n - 1"] by (simp only:)
  qed
  have t: "take (i * ?z) bs = concat (take i xs)"
  proof -
    have "take (i * ?z) bs = take (i * ?z) (take (?n * ?z) bs)" using i by (simp add: min_def)
    then show ?thesis unfolding bs(3) using take_concat_same [OF r(2)] by simp
  qed
  have s: "?src = concat (drop (Suc i) xs)"
  proof -
    have "?src = drop (Suc i * ?z) (take (?n * ?z) bs)" using split by (simp only: drop_take) simp
    then show ?thesis unfolding bs(3) using drop_concat_same [OF r(2), of "Suc i"] by simp
  qed
  have "length (take (i * ?z) bs @ ?src) = (?n - 1) * ?z"
  proof -
    have "length (take (i * ?z) bs) = i * ?z" using nz le by simp
    moreover have "i * ?z + (?n - Suc i) * ?z = (?n - 1) * ?z" using i by (simp add: add_mult_distrib [symmetric])
    ultimately show ?thesis using ls by (simp only: length_append)
  qed
  then have "take ((?n - 1) * ?z) ?bs = take (i * ?z) bs @ ?src" by (metis append_assoc append_eq_conv_conj)
  then have "take ((?n - 1) * ?z) ?bs = concat (take i xs @ drop (Suc i) xs)" unfolding t s by simp
  moreover have "length ?bs = array_alloc_size a * ?z"
  proof -
    have "length (take (i * ?z) bs) = i * ?z" using nz le by simp
    moreover have "i * ?z + (?n - Suc i) * ?z \<le> length bs" using nz split by simp
    ultimately show ?thesis unfolding length_append ls length_drop bs(2) [symmetric] by simp
  qed
  ultimately have "va_rep (a\<lparr>array_items := Some ?bs, array_size := ?n - 1\<rparr>) (take i xs @ drop (Suc i) xs)"
  proof -
    define B where "B = ?bs"
    assume B: "take ((?n - 1) * ?z) ?bs = concat (take i xs @ drop (Suc i) xs)" "length ?bs = array_alloc_size a * ?z"
    have "\<forall>x \<in> set (take i xs @ drop (Suc i) xs). length x = ?z" using r(2) by (auto dest: in_set_takeD in_set_dropD)
    moreover have "length (take i xs @ drop (Suc i) xs) = ?n - 1" using i by simp
    ultimately show ?thesis
      unfolding B_def [symmetric] using r(1,4,5,6) B [folded B_def] by (intro va_repI [where bs = B]) (simp_all only: select_convs surjective update_convs simp_thms option.inject, simp_all)
  qed
  moreover have "ocoms_value_array_remove_item dbg a i = Some (OCOMS_SUCCESS, a\<lparr>array_items := Some ?bs, array_size := ?n - 1\<rparr>)"
    using i r(3) unfolding ocoms_value_array_remove_item_def Let_def r(3) n norm rd
    by (simp only: bind.bind_lunit option.simps wrt sz) (simp add: wrt)
  ultimately show ?thesis by auto
qed


lemma va_item_at:
  assumes rep: "va_rep a xs" and i: "i < length xs"
  shows "ocoms_value_array_get_item dbg m a i = Some (Some (i * array_item_sizeof a), a)"
    "read_bytes (array_items a) (i * array_item_sizeof a) (array_item_sizeof a) = Some (xs ! i)"
proof -
  let ?z = "array_item_sizeof a"
  have r: "0 < ?z" "\<forall>x \<in> set xs. length x = ?z" "array_size a = length xs" "length xs \<le> array_alloc_size a" "array_alloc_size a * ?z < 2 ^ 63"
    using rep by (simp_all add: va_rep_def)
  obtain bs where bs: "array_items a = Some bs" "length bs = array_alloc_size a * ?z" "take (length xs * ?z) bs = concat xs"
    using va_repD [OF rep] by blast
  have "Suc i * ?z \<le> length xs * ?z" "length xs * ?z \<le> length bs" unfolding bs(2) using i r(4) by (intro mult_right_mono; simp)+
  then have le: "i * ?z + ?z \<le> length bs" "i * ?z + ?z \<le> length xs * ?z" by simp_all
  then have "i * ?z < 2 ^ 64" using r(5) size_bounds unfolding bs(2) by linarith
  then have "size_norm (i * ?z) = i * ?z" by (simp add: size_norm_def)
  then show "ocoms_value_array_get_item dbg m a i = Some (Some (i * ?z), a)"
    using i r(3) by (simp add: ocoms_value_array_get_item_def)
  have "take ?z (drop (i * ?z) bs) = take ?z (drop (i * ?z) (take (length xs * ?z) bs))"
    using le(2) by (simp add: drop_take)
  also have "\<dots> = xs ! i"
    unfolding bs(3) using drop_concat_same [OF r(2), of i] i r(2) by (simp add: Cons_nth_drop_Suc [symmetric])
  finally show "read_bytes (array_items a) (i * ?z) ?z = Some (xs ! i)" using bs(1) le(1) by (simp add: read_bytes_def)
qed

text \<open>
  C21: A value array is a list of items: while the bytes it needs, doubled, stay below half of the address
  space, appending adds an item at the end or reports that memory is short; an item in range is
  replaced without failing, removed with the later ones closing the gap, and found at the offset that
  is returned; the size is the number of items.
\<close>

theorem value_array_is_list:
  assumes "va_rep a xs" and "malloc_ok m" and "length x = array_item_sizeof a"
    and "2 * (length xs + 1) * array_item_sizeof a < 2 ^ 63"
  shows "((\<exists>a'. ocoms_value_array_append_item dbg m a x = Some (OCOMS_ERR_OUT_OF_RESOURCE, a')) \<or>
      (\<exists>a'. ocoms_value_array_append_item dbg m a x = Some (OCOMS_SUCCESS, a') \<and> va_rep a' (xs @ [x]))) \<and>
    (\<forall>i < length xs. (\<exists>a'. ocoms_value_array_set_item dbg m a i x = Some (OCOMS_SUCCESS, a') \<and> va_rep a' (xs[i := x])) \<and>
      (\<exists>a'. ocoms_value_array_remove_item dbg a i = Some (OCOMS_SUCCESS, a') \<and> va_rep a' (take i xs @ drop (Suc i) xs)) \<and>
      (\<exists>off. ocoms_value_array_get_item dbg m a i = Some (Some off, a) \<and>
         read_bytes (array_items a) off (array_item_sizeof a) = Some (xs ! i))) \<and>
    ocoms_value_array_get_size a = length xs"
proof -
  have "\<exists>a'. ocoms_value_array_set_item dbg m a i x = Some (OCOMS_SUCCESS, a') \<and> va_rep a' (xs[i := x])" if i: "i < length xs" for i
  proof -
    have size: "array_size a = length xs" using assms(1) by (simp add: va_rep_def)
    obtain bs where "write_bytes (array_items a) (size_norm (i * array_item_sizeof a)) x = Some bs" "va_rep (a\<lparr>array_items := Some bs\<rparr>) (xs[i := x])"
      using va_write_ok [OF assms(1) i assms(3)] by blast
    then show ?thesis using i size assms(3) by (simp add: ocoms_value_array_set_item_def read_bytes_def)
  qed
  moreover have "ocoms_value_array_get_size a = length xs" using assms(1) by (simp add: va_rep_def ocoms_value_array_get_size_def)
  ultimately show ?thesis
    using va_append_ok [OF assms, of dbg] va_remove_ok [OF assms(1), of _ dbg] va_item_at [OF assms(1)] by blast
qed

lemma append_without_init:
  "ocoms_value_array_append_item False m (ocoms_value_array_construct\<lparr>array_item_sizeof := z\<rparr>) x = None"
  by (simp add: ocoms_value_array_append_item_def ocoms_value_array_set_item_def ocoms_value_array_set_size_def
    ocoms_value_array_construct_def size_norm_def double_until_zero)

definition va_sample :: ocoms_value_array_t where
  "va_sample = \<lparr>array_items = Some [1, 2, 3, 4], array_item_sizeof = 2, array_size = 1, array_alloc_size = 2\<rparr>"

lemma va_sample_rep: "va_rep va_sample [[1, 2]]"
  by (rule va_repI [where bs = "[1, 2, 3, 4]"]) (simp_all add: va_sample_def)

theorem value_array_is_list_witness:
  "((\<exists>a'. ocoms_value_array_append_item True (\<lambda>n. Some (replicate n 0)) va_sample [5, 6] = Some (OCOMS_ERR_OUT_OF_RESOURCE, a')) \<or>
      (\<exists>a'. ocoms_value_array_append_item True (\<lambda>n. Some (replicate n 0)) va_sample [5, 6] = Some (OCOMS_SUCCESS, a') \<and> va_rep a' [[1, 2], [5, 6]])) \<and>
    (\<exists>a'. ocoms_value_array_set_item True (\<lambda>n. Some (replicate n 0)) va_sample 0 [5, 6] = Some (OCOMS_SUCCESS, a') \<and> va_rep a' [[5, 6]])"
  using value_array_is_list [OF va_sample_rep malloc_ok_replicate [of 0], of "[5, 6]" True] by (simp add: va_sample_def)

end
