(* ===== verification/Keyval.thy ===== *)
theory Keyval
  imports C_Strings
begin

text \<open>
  The files of MCA parameters: their scanner (\<open>ocoms/util/keyval/keyval_lex.l\<close>) and parser
  (\<open>ocoms/util/keyval_parse.c\<close>), and what is parsed from a file of well-formed lines.  Messages are
  left out.
\<close>

section \<open>The scanner\<close>

datatype keyval_token = KEYVAL_PARSE_DONE | KEYVAL_PARSE_ERROR | KEYVAL_PARSE_NEWLINE | KEYVAL_PARSE_EQUAL
  | KEYVAL_PARSE_SINGLE_WORD | KEYVAL_PARSE_VALUE

datatype start_condition = INITIAL | VALUE | COMMENT

text \<open>
  The scanner's state: the start condition, what is left of the input, the text of the last token,
  and the flag that the end was seen.
\<close>

record scanner =
  sc_start :: start_condition
  sc_input :: string
  sc_text :: string
  sc_done :: bool

definition is_white :: "char \<Rightarrow> bool" where
  "is_white x \<longleftrightarrow> x \<in> {CHR 0x0C, CHR 0x09, CHR 0x0B, CHR '' ''}"

definition is_word :: "char \<Rightarrow> bool" where
  "is_word x \<longleftrightarrow> (let n = (of_char x :: nat) in (65 \<le> n \<and> n \<le> 90) \<or> (97 \<le> n \<and> n \<le> 122)) \<or> c_isdigit x \<or>
     x \<in> {CHR ''_'', CHR ''-'', CHR ''.''}"

abbreviation newline :: char where "newline \<equiv> CHR 0x0A"

abbreviation is_blank :: "char \<Rightarrow> bool" where "is_blank x \<equiv> x = CHR '' '' \<or> x = CHR 0x09"

text \<open>
  The longest match of each start condition: the token if there is one, its text and the new
  condition.  The scanner goes on behind the text.
\<close>

type_synonym scan_result = "keyval_token option \<times> string \<times> start_condition"

definition scan_initial :: "string \<Rightarrow> scan_result" where
  "scan_initial s =
     (let w = takeWhile is_white s; r = dropWhile is_white s; line = takeWhile (\<lambda>x. x \<noteq> newline) s in
      if take 1 r = [newline] then (Some KEYVAL_PARSE_NEWLINE, w @ [newline], INITIAL)
      else if (take 1 s = ''#'' \<or> take 2 s = ''//'') \<and> newline \<in> set s then (Some KEYVAL_PARSE_NEWLINE, line @ [newline], INITIAL)
      else if take 2 s = ''/*'' then (Some KEYVAL_PARSE_NEWLINE, ''/*'', COMMENT)
      else if take 1 r = ''='' then (Some KEYVAL_PARSE_EQUAL, w @ ''='' @ takeWhile is_white (tl r), VALUE)
      else if w \<noteq> [] then (None, w, INITIAL)
      else if takeWhile is_word s \<noteq> [] then (Some KEYVAL_PARSE_SINGLE_WORD, takeWhile is_word s, INITIAL)
      else (Some KEYVAL_PARSE_ERROR, take 1 s, INITIAL))"

definition scan_comment :: "string \<Rightarrow> scan_result" where
  "scan_comment s =
     (let stars = takeWhile (\<lambda>x. x = CHR ''*'') s; r = dropWhile (\<lambda>x. x = CHR ''*'') s in
      if stars \<noteq> [] \<and> take 1 r = ''/'' then (Some KEYVAL_PARSE_NEWLINE, stars @ ''/'', INITIAL)
      else if stars \<noteq> [] then (None, stars @ takeWhile (\<lambda>x. x \<noteq> CHR ''*'' \<and> x \<noteq> CHR ''/'' \<and> x \<noteq> newline) r, COMMENT)
      else if take 1 s = [newline] then (Some KEYVAL_PARSE_NEWLINE, [newline], COMMENT)
      else (None, takeWhile (\<lambda>x. x \<noteq> CHR ''*'' \<and> x \<noteq> newline) s, COMMENT))"

text \<open>
  A value is the rest of its line without the blanks at the end.  A last line of blanks without a
  newline matches no rule, and the scanner copies its characters to the output.
\<close>

definition scan_value :: "string \<Rightarrow> scan_result" where
  "scan_value s =
     (let w = takeWhile is_white s; r = dropWhile is_white s; line = takeWhile (\<lambda>x. x \<noteq> newline) s;
          v = rev (dropWhile is_blank (rev line)) in
      if take 1 r = [newline] then (Some KEYVAL_PARSE_NEWLINE, w @ [newline], INITIAL)
      else if v \<noteq> [] then (Some KEYVAL_PARSE_VALUE, v, VALUE)
      else (None, take 1 s, VALUE))"

definition scan_step :: "start_condition \<Rightarrow> string \<Rightarrow> scan_result" where
  "scan_step st s = (case st of INITIAL \<Rightarrow> scan_initial s | VALUE \<Rightarrow> scan_value s | COMMENT \<Rightarrow> scan_comment s)"

lemma scan_text_nonempty: "s \<noteq> [] \<Longrightarrow> scan_step st s = (t, x, st') \<Longrightarrow> x \<noteq> []"
  by (cases s; cases st)
    (auto simp: scan_step_def scan_initial_def scan_comment_def scan_value_def Let_def split: if_splits)

function keyval_yylex :: "scanner \<Rightarrow> keyval_token \<times> scanner" where
  "keyval_yylex sc =
     (if sc_input sc = [] then (KEYVAL_PARSE_DONE, sc\<lparr>sc_done := True, sc_text := []\<rparr>)
      else case scan_step (sc_start sc) (sc_input sc) of
        (t, x, st) \<Rightarrow>
          let sc' = sc\<lparr>sc_start := st, sc_input := drop (length x) (sc_input sc), sc_text := x\<rparr>
          in case t of Some tok \<Rightarrow> (tok, sc') | None \<Rightarrow> keyval_yylex sc')"
  by pat_completeness auto

termination
  by (relation "measure (length \<circ> sc_input)") (auto dest!: scan_text_nonempty [rotated, OF sym])

declare keyval_yylex.simps [simp del]

section \<open>The parser\<close>

text \<open>
  The buffer for names is kept between files; \<open>ocoms_util_keyval_parse_finalize\<close> frees it and leaves
  the pointer to it, with its length.
\<close>

datatype key_block = Null_block | Block nat | Freed_block

record key_buffer =
  key_block :: key_block
  key_buffer_len :: nat

definition key_buffer_static :: key_buffer where
  "key_buffer_static = \<lparr>key_block = Null_block, key_buffer_len = 0\<rparr>"

definition ocoms_util_keyval_parse_finalize :: "key_buffer \<Rightarrow> (int \<times> key_buffer) option" where
  "ocoms_util_keyval_parse_finalize kb = (case key_block kb of
     Null_block \<Rightarrow> Some (OCOMS_SUCCESS, kb)
   | Block n \<Rightarrow> Some (OCOMS_SUCCESS, kb\<lparr>key_block := Freed_block\<rparr>)
   | Freed_block \<Rightarrow> None)"

text \<open>Room for a name; \<open>False\<close> is the lack of memory.\<close>

definition save_key :: "(nat \<Rightarrow> bool) \<Rightarrow> string \<Rightarrow> key_buffer \<Rightarrow> (bool \<times> key_buffer) option" where
  "save_key ralloc name kb =
     (if key_buffer_len kb < length name + 1 then
        (if key_block kb = Freed_block then None
         else if ralloc (length name + 1) then Some (True, \<lparr>key_block = Block (length name + 1), key_buffer_len = length name + 1\<rparr>)
         else Some (False, key_buffer_static))
      else (case key_block kb of Block n \<Rightarrow> do { assert_c (key_buffer_len kb \<le> n); Some (True, kb) } | _ \<Rightarrow> None))"

text \<open>The callback gets the name, the value or a null pointer, and its own state.\<close>

type_synonym 's keyval_callback = "string \<Rightarrow> string option \<Rightarrow> 's \<Rightarrow> 's option"

definition parse_line ::
  "(nat \<Rightarrow> bool) \<Rightarrow> 's keyval_callback \<Rightarrow> scanner \<times> key_buffer \<times> 's \<Rightarrow> (int \<times> scanner \<times> key_buffer \<times> 's) option" where
  "parse_line ralloc callback st = do {
     let (sc, kb, s) = st;
     let name = sc_text sc;
     (ok, kb) \<leftarrow> save_key ralloc name kb;
     if \<not> ok then Some (OCOMS_ERR_TEMP_OUT_OF_RESOURCE, sc, kb, s)
     else do {
       let (v, sc) = keyval_yylex sc;
       if sc_done sc \<or> v \<noteq> KEYVAL_PARSE_EQUAL then Some (OCOMS_ERROR, sc, kb, s)
       else do {
         let (v, sc) = keyval_yylex sc;
         if v = KEYVAL_PARSE_SINGLE_WORD \<or> v = KEYVAL_PARSE_VALUE then do {
           s \<leftarrow> callback name (Some (sc_text sc)) s;
           let (v, sc) = keyval_yylex sc;
           Some (if v = KEYVAL_PARSE_NEWLINE \<or> v = KEYVAL_PARSE_DONE then OCOMS_SUCCESS else OCOMS_ERROR, sc, kb, s) }
         else if v = KEYVAL_PARSE_DONE \<or> v = KEYVAL_PARSE_NEWLINE then do {
           s \<leftarrow> callback name None s;
           Some (OCOMS_SUCCESS, sc, kb, s) }
         else Some (OCOMS_ERROR, sc, kb, s) } } }"


definition scan_weight :: "scanner \<Rightarrow> nat" where
  "scan_weight sc = length (sc_input sc) + (if sc_done sc then 0 else 1)"

lemma yylex_weight: "scan_weight (snd (keyval_yylex sc)) \<le> scan_weight sc \<and>
    (\<not> sc_done sc \<longrightarrow> scan_weight (snd (keyval_yylex sc)) < scan_weight sc)"
proof (induction sc rule: keyval_yylex.induct)
  case (1 sc)
  obtain t x st where step: "scan_step (sc_start sc) (sc_input sc) = (t, x, st)" by (metis prod_cases3)
  show ?case
  proof (cases "sc_input sc = []")
    case True
    then show ?thesis by (subst (1 2) keyval_yylex.simps) (simp add: scan_weight_def)
  next
    case False
    then have "x \<noteq> []" using scan_text_nonempty step by blast
    then have "length (sc_input sc) - length x < length (sc_input sc)" using False by simp
    then show ?thesis using 1 [OF False step [symmetric] refl refl] False step
      by (subst (1 2) keyval_yylex.simps) (auto simp: Let_def scan_weight_def split: option.splits if_splits)
  qed
qed

lemma yylex_le: "keyval_yylex sc = (v, sc') \<Longrightarrow> scan_weight sc' \<le> scan_weight sc"
  using yylex_weight [of sc] by simp

lemma yylex_less: "keyval_yylex sc = (v, sc') \<Longrightarrow> \<not> sc_done sc \<Longrightarrow> scan_weight sc' < scan_weight sc"
  using yylex_weight [of sc] by simp

lemma parse_line_weight:
  assumes "parse_line ralloc callback (sc, kb, s) = Some (rc, sc', kb', s')"
  shows "scan_weight sc' \<le> scan_weight sc"
proof -
  obtain v1 sc1 where 1: "keyval_yylex sc = (v1, sc1)" by fastforce
  obtain v2 sc2 where 2: "keyval_yylex sc1 = (v2, sc2)" by fastforce
  obtain v3 sc3 where 3: "keyval_yylex sc2 = (v3, sc3)" by fastforce
  have "sc' \<in> {sc, sc1, sc2, sc3}" using assms 1 2 3
    by (auto simp: parse_line_def Let_def bind_eq_Some_conv split: if_splits)
  then show ?thesis using yylex_le [OF 1] yylex_le [OF 2] yylex_le [OF 3] by auto
qed

text \<open>The loop over the lines; it always ends, since every token takes some of the input.\<close>

function keyval_loop :: "(nat \<Rightarrow> bool) \<Rightarrow> 's keyval_callback \<Rightarrow> scanner \<times> key_buffer \<times> 's \<Rightarrow> (key_buffer \<times> 's) option" where
  "keyval_loop ralloc callback (sc, kb, s) =
     (if sc_done sc then Some (kb, s)
      else case keyval_yylex sc of (v, sc1) \<Rightarrow>
        if v = KEYVAL_PARSE_SINGLE_WORD then
          (case parse_line ralloc callback (sc1, kb, s) of None \<Rightarrow> None
           | Some (rc, sc2, kb2, s2) \<Rightarrow> keyval_loop ralloc callback (sc2, kb2, s2))
        else keyval_loop ralloc callback (sc1, kb, s))"
  by pat_completeness auto

termination
  by (relation "measure (\<lambda>(ralloc, callback, sc, kb, s). scan_weight sc)")
    (auto dest!: yylex_less [OF sym] parse_line_weight)

declare keyval_loop.simps [simp del]

text \<open>\<open>fopen\<close> gives the contents of a file that can be opened.\<close>

definition ocoms_util_keyval_parse ::
  "(string \<Rightarrow> string option) \<Rightarrow> (nat \<Rightarrow> bool) \<Rightarrow> string \<Rightarrow> 's keyval_callback \<Rightarrow> key_buffer \<times> 's \<Rightarrow> (int \<times> key_buffer \<times> 's) option" where
  "ocoms_util_keyval_parse fopen ralloc filename callback st = (case fopen filename of
     None \<Rightarrow> Some (OCOMS_ERR_NOT_FOUND, st)
   | Some text \<Rightarrow> do {
       st' \<leftarrow> keyval_loop ralloc callback
         (\<lparr>sc_start = INITIAL, sc_input = text, sc_text = [], sc_done = False\<rparr>, fst st, snd st);
       Some (OCOMS_SUCCESS, st') })"

section \<open>Lines\<close>

text \<open>
  The lines of a well-formed file: blank lines, comments, and assignments with space before the
  name, around the equals sign and, as blanks, after the value.
\<close>

datatype param_line = Blank_line string | Hash_comment string | Slash_comment string
  | Assignment string string string string string string

fun line_text :: "param_line \<Rightarrow> string" where
  "line_text (Blank_line w) = w @ [newline]"
| "line_text (Hash_comment x) = ''#'' @ x @ [newline]"
| "line_text (Slash_comment x) = ''//'' @ x @ [newline]"
| "line_text (Assignment w n w1 w2 v w3) = w @ n @ w1 @ ''='' @ w2 @ v @ w3 @ [newline]"

fun line_ok :: "param_line \<Rightarrow> bool" where
  "line_ok (Blank_line w) \<longleftrightarrow> list_all is_white w"
| "line_ok (Hash_comment x) \<longleftrightarrow> newline \<notin> set x"
| "line_ok (Slash_comment x) \<longleftrightarrow> newline \<notin> set x"
| "line_ok (Assignment w n w1 w2 v w3) \<longleftrightarrow> list_all is_white w \<and> n \<noteq> [] \<and> list_all is_word n \<and> list_all is_white w1 \<and>
     list_all is_white w2 \<and> list_all is_blank w3 \<and> newline \<notin> set v \<and> (v \<noteq> [] \<longrightarrow> \<not> is_white (hd v) \<and> \<not> is_blank (last v))"

fun line_assigns :: "param_line \<Rightarrow> (string \<times> string option) list" where
  "line_assigns (Assignment w n w1 w2 v w3) = [(n, if v = [] then None else Some v)]"
| "line_assigns _ = []"

definition file_text :: "param_line list \<Rightarrow> string" where
  "file_text ls = concat (map line_text ls)"

definition file_assigns :: "param_line list \<Rightarrow> (string \<times> string option) list" where
  "file_assigns ls = concat (map line_assigns ls)"

definition key_buffer_ok :: "key_buffer \<Rightarrow> bool" where
  "key_buffer_ok kb \<longleftrightarrow> (case key_block kb of Null_block \<Rightarrow> key_buffer_len kb = 0 | Block n \<Rightarrow> key_buffer_len kb = n | Freed_block \<Rightarrow> False)"

lemma save_key_ok: "key_buffer_ok kb \<Longrightarrow> \<forall>n. ralloc n \<Longrightarrow> \<exists>kb'. save_key ralloc name kb = Some (True, kb') \<and> key_buffer_ok kb'"
  by (auto simp: save_key_def key_buffer_ok_def split: key_block.splits)

lemma takeWhile_all: "list_all P w \<Longrightarrow> takeWhile P (w @ r) = w @ takeWhile P r"
  by (induction w) auto

lemma dropWhile_all: "list_all P w \<Longrightarrow> dropWhile P (w @ r) = dropWhile P r"
  by (induction w) auto

lemma takeWhile_line: "newline \<notin> set x \<Longrightarrow> takeWhile (\<lambda>y. y \<noteq> newline) (x @ newline # r) = x"
  by (induction x) auto

lemma white_facts [simp]: "\<not> is_white newline" "\<not> is_white (CHR ''='')" "\<not> is_word newline" "\<not> is_word (CHR ''='')"
    "\<not> is_white (CHR ''#'')" "\<not> is_white (CHR ''/'')"
  by (simp_all add: is_white_def is_word_def c_isdigit_def)

lemma word_not_white: "is_word x \<Longrightarrow> \<not> is_white x \<and> x \<noteq> CHR ''#'' \<and> x \<noteq> CHR ''/'' \<and> x \<noteq> newline \<and> x \<noteq> CHR ''=''"
  by (auto simp: is_word_def is_white_def c_isdigit_def)

lemma blank_white: "is_blank x \<Longrightarrow> is_white x"
  by (auto simp: is_white_def)


lemma yylex_token:
  assumes "scan_step (sc_start sc) (x @ r) = (Some v, x, st)" and "sc_input sc = x @ r" and "x \<noteq> []"
  shows "keyval_yylex sc = (v, sc\<lparr>sc_start := st, sc_input := r, sc_text := x\<rparr>)"
  using assms by (subst keyval_yylex.simps) simp

lemma yylex_skip:
  assumes "scan_step (sc_start sc) (x @ r) = (None, x, st)" and "sc_input sc = x @ r" and "x \<noteq> []"
  shows "keyval_yylex sc = keyval_yylex (sc\<lparr>sc_start := st, sc_input := r, sc_text := x\<rparr>)"
  using assms by (subst keyval_yylex.simps) simp

lemma take1_append: "take 1 (x @ y) = (if x = [] then take 1 y else [hd x])"
  by (cases x) simp_all

lemma list_all_hd: "list_all P x \<Longrightarrow> x \<noteq> [] \<Longrightarrow> P (hd x)"
  by (cases x) simp_all

lemma scan_blank: "list_all is_white w \<Longrightarrow> scan_initial (w @ newline # r) = (Some KEYVAL_PARSE_NEWLINE, w @ [newline], INITIAL)"
  by (simp add: scan_initial_def Let_def takeWhile_all dropWhile_all)

lemma scan_hash: "newline \<notin> set x \<Longrightarrow>
    scan_initial (''#'' @ x @ newline # r) = (Some KEYVAL_PARSE_NEWLINE, ''#'' @ x @ [newline], INITIAL)"
  by (simp add: scan_initial_def Let_def takeWhile_line)

lemma scan_slash: "newline \<notin> set x \<Longrightarrow>
    scan_initial (''//'' @ x @ newline # r) = (Some KEYVAL_PARSE_NEWLINE, ''//'' @ x @ [newline], INITIAL)"
  by (simp add: scan_initial_def Let_def takeWhile_line)

lemma hd_cases:
  assumes "list_all is_white w" and "\<not> is_white c" "c \<noteq> CHR ''#''" "c \<noteq> CHR ''/''"
  shows "take 1 (w @ c # r) \<noteq> ''#''" "take 2 (w @ c # r) \<noteq> ''//''" "take 2 (w @ c # r) \<noteq> ''/*''"
  using assms by (cases w; auto)+

lemma scan_indent:
  assumes "list_all is_white w" "w \<noteq> []" and "is_word c"
  shows "scan_initial (w @ c # r) = (None, w, INITIAL)"
proof -
  have c: "\<not> is_white c" "c \<noteq> CHR ''#''" "c \<noteq> CHR ''/''" "c \<noteq> newline" "c \<noteq> CHR ''=''"
    using word_not_white [OF assms(3)] by simp_all
  then show ?thesis using hd_cases [OF assms(1) c(1-3), of r] assms(2)
    unfolding scan_initial_def Let_def takeWhile_all [OF assms(1)] dropWhile_all [OF assms(1)] by simp
qed

lemma scan_word:
  assumes "list_all is_word n" "n \<noteq> []" and "\<not> is_word c"
  shows "scan_initial (n @ c # r) = (Some KEYVAL_PARSE_SINGLE_WORD, n, INITIAL)"
proof -
  obtain d m where n: "n = d # m" using assms(2) by (cases n) auto
  then have "is_word d" using assms(1) by simp
  from word_not_white [OF this] have d: "\<not> is_white d" "d \<noteq> CHR ''#''" "d \<noteq> CHR ''/''" "d \<noteq> newline" "d \<noteq> CHR ''=''" by simp_all
  have "takeWhile is_word (n @ c # r) = n" using assms by (simp add: takeWhile_all)
  then show ?thesis using d unfolding scan_initial_def Let_def n by simp
qed

lemma scan_equal:
  assumes "list_all is_white w"
  shows "scan_initial (w @ CHR ''='' # r) = (Some KEYVAL_PARSE_EQUAL, w @ ''='' @ takeWhile is_white r, VALUE)"
  using hd_cases [OF assms, of "CHR ''=''" r]
  unfolding scan_initial_def Let_def takeWhile_all [OF assms] dropWhile_all [OF assms] by simp

lemma scan_value_end: "list_all is_white w \<Longrightarrow> scan_value (w @ newline # r) = (Some KEYVAL_PARSE_NEWLINE, w @ [newline], INITIAL)"
  by (simp add: scan_value_def Let_def takeWhile_all dropWhile_all)

lemma rev_strip:
  assumes "list_all is_blank w" "v \<noteq> []" "\<not> is_blank (last v)"
  shows "rev (dropWhile is_blank (rev (v @ w))) = v"
proof -
  have "list_all is_blank (rev w)" using assms(1) by (simp add: list_all_iff)
  then have "dropWhile is_blank (rev (v @ w)) = dropWhile is_blank (rev v)" by (simp add: dropWhile_all)
  also have "\<dots> = rev v"
  proof (cases "rev v")
    case (Cons c cs)
    then have "last v = c" by (metis hd_rev list.sel(1))
    then show ?thesis using Cons assms(3) by simp
  qed (use assms(2) in simp)
  finally show ?thesis by simp
qed

lemma scan_value_text:
  assumes "list_all is_blank w" "v \<noteq> []" "\<not> is_blank (last v)" "\<not> is_white (hd v)" "newline \<notin> set v"
  shows "scan_value (v @ w @ newline # r) = (Some KEYVAL_PARSE_VALUE, v, VALUE)"
proof -
  have "newline \<notin> set w" using assms(1) by (induction w) auto
  then have "newline \<notin> set (v @ w)" using assms(5) by simp
  then have line: "takeWhile (\<lambda>x. x \<noteq> newline) (v @ w @ newline # r) = v @ w"
    using takeWhile_line [of "v @ w" r] by simp
  obtain d m where v: "v = d # m" using assms(2) by (cases v) auto
  have "d \<noteq> newline" using assms(5) v by auto
  moreover have "\<not> is_white d" using assms(4) v by simp
  ultimately show ?thesis using rev_strip [OF assms(1-3)] unfolding scan_value_def Let_def line by (simp add: v)
qed


section \<open>What is parsed\<close>

definition at_line :: "string \<Rightarrow> string \<Rightarrow> scanner" where
  "at_line r x = \<lparr>sc_start = INITIAL, sc_input = r, sc_text = x, sc_done = False\<rparr>"

definition at_value :: "string \<Rightarrow> string \<Rightarrow> scanner" where
  "at_value r x = \<lparr>sc_start = VALUE, sc_input = r, sc_text = x, sc_done = False\<rparr>"

lemma at_line_token:
  "scan_initial (x @ r) = (Some v, x, st) \<Longrightarrow> x \<noteq> [] \<Longrightarrow>
   keyval_yylex (at_line (x @ r) y) = (v, (at_line r x)\<lparr>sc_start := st\<rparr>)"
  by (subst yylex_token [of _ x r]) (auto simp: at_line_def scan_step_def)

lemma at_value_token:
  "scan_value (x @ r) = (Some v, x, st) \<Longrightarrow> x \<noteq> [] \<Longrightarrow>
   keyval_yylex (at_value (x @ r) y) = (v, (at_value r x)\<lparr>sc_start := st\<rparr>)"
  by (subst yylex_token [of _ x r]) (auto simp: at_value_def scan_step_def)

lemma at_simps [simp]:
  "(at_line r x)\<lparr>sc_start := INITIAL\<rparr> = at_line r x" "(at_line r x)\<lparr>sc_start := VALUE\<rparr> = at_value r x"
  "(at_value r x)\<lparr>sc_start := VALUE\<rparr> = at_value r x" "(at_value r x)\<lparr>sc_start := INITIAL\<rparr> = at_line r x"
  "sc_done (at_line r x) = False" "sc_done (at_value r x) = False" "sc_text (at_line r x) = x" "sc_text (at_value r x) = x"
  by (simp_all add: at_line_def at_value_def)

lemma at_line_word:
  assumes "list_all is_white w" and "list_all is_word n" "n \<noteq> []" and "\<not> is_word c"
  shows "keyval_yylex (at_line (w @ n @ c # r) y) = (KEYVAL_PARSE_SINGLE_WORD, at_line (c # r) n)"
proof -
  have word: "keyval_yylex (at_line (n @ c # r) z) = (KEYVAL_PARSE_SINGLE_WORD, at_line (c # r) n)" for z
    using at_line_token [OF scan_word [OF assms(2,3,4), of r] assms(3), of z] by simp
  show ?thesis
  proof (cases "w = []")
    case False
    obtain d m where n: "n = d # m" using assms(3) by (cases n) auto
    then have "is_word d" using assms(2) by simp
    from scan_indent [OF assms(1) False this, of "m @ c # r"] have
      "keyval_yylex (at_line (w @ n @ c # r) y) = keyval_yylex (at_line (n @ c # r) w)"
      by (subst yylex_skip [of _ w "n @ c # r"]) (simp_all add: at_line_def scan_step_def n False)
    then show ?thesis using word by simp
  qed (simp add: word)
qed

lemma loop_newline:
  assumes "keyval_yylex (at_line t y) = (KEYVAL_PARSE_NEWLINE, at_line r x)"
  shows "keyval_loop ralloc callback (at_line t y, kb, s) = keyval_loop ralloc callback (at_line r x, kb, s)"
  using assms by (subst keyval_loop.simps) simp

lemma white_before_equal: "list_all is_white w1 \<Longrightarrow> \<exists>c q. w1 @ CHR ''='' # r = c # q \<and> \<not> is_word c"
  by (cases w1) (auto dest: word_not_white)

lemma value_tokens:
  assumes "line_ok (Assignment w n w1 w2 v w3)"
  shows "\<exists>u t x. keyval_yylex (at_line (w1 @ CHR ''='' # w2 @ v @ w3 @ newline # r) n) = (KEYVAL_PARSE_EQUAL, at_value t u) \<and>
    (if v = [] then keyval_yylex (at_value t u) = (KEYVAL_PARSE_NEWLINE, at_line r x)
     else \<exists>t'. keyval_yylex (at_value t u) = (KEYVAL_PARSE_VALUE, at_value t' v) \<and>
       keyval_yylex (at_value t' v) = (KEYVAL_PARSE_NEWLINE, at_line r x))"
proof -
  have ok: "list_all is_white w1" "list_all is_white w2" "list_all is_blank w3" "newline \<notin> set v" using assms by simp_all
  have w3: "list_all is_white w3" using ok(3) by (induction w3) (auto simp: blank_white)
  let ?u = "w1 @ ''='' @ takeWhile is_white (w2 @ v @ w3 @ newline # r)"
  let ?t = "dropWhile is_white (w2 @ v @ w3 @ newline # r)"
  have s: "?u @ ?t = w1 @ CHR ''='' # w2 @ v @ w3 @ newline # r" by simp
  have "scan_initial (?u @ ?t) = (Some KEYVAL_PARSE_EQUAL, ?u, VALUE)" unfolding s by (rule scan_equal [OF ok(1)])
  from at_line_token [OF this] have eq: "keyval_yylex (at_line (w1 @ CHR ''='' # w2 @ v @ w3 @ newline # r) n) = (KEYVAL_PARSE_EQUAL, at_value ?t ?u)"
    unfolding s by simp
  show ?thesis
  proof (cases "v = []")
    case True
    then have "?t = newline # r" using ok(2) w3 by (simp add: dropWhile_all)
    moreover have "keyval_yylex (at_value (newline # r) ?u) = (KEYVAL_PARSE_NEWLINE, at_line r [newline])"
      using at_value_token [of "[newline]" r] scan_value_end [of "[]" r] by simp
    ultimately show ?thesis using eq True by metis
  next
    case False
    have v: "\<not> is_white (hd v)" "\<not> is_blank (last v)" using assms False by simp_all
    then have t: "?t = v @ w3 @ newline # r" using ok(2) False by (cases v) (simp_all add: dropWhile_all)
    have val: "keyval_yylex (at_value (v @ w3 @ newline # r) ?u) = (KEYVAL_PARSE_VALUE, at_value (w3 @ newline # r) v)"
      using at_value_token [OF scan_value_text [OF ok(3) False v(2,1) ok(4)] False] by simp
    have "keyval_yylex (at_value (w3 @ newline # r) v) = (KEYVAL_PARSE_NEWLINE, at_line r (w3 @ [newline]))"
      using at_value_token [of "w3 @ [newline]" r KEYVAL_PARSE_NEWLINE INITIAL v] scan_value_end [OF w3, of r] by simp
    then show ?thesis using eq val False unfolding t by auto
  qed
qed

lemma loop_line:
  assumes "line_ok l" and "\<forall>n. ralloc n" and "key_buffer_ok kb"
    and "foldM (\<lambda>(n, v). callback n v) (line_assigns l) s = Some s'"
  shows "\<exists>x kb'. keyval_loop ralloc callback (at_line (line_text l @ r) y, kb, s) = keyval_loop ralloc callback (at_line r x, kb', s') \<and> key_buffer_ok kb'"
proof (cases l)
  case (Blank_line w)
  then have "keyval_yylex (at_line (line_text l @ r) y) = (KEYVAL_PARSE_NEWLINE, at_line r (w @ [newline]))"
    using at_line_token [of "w @ [newline]" r] scan_blank [of w r] assms(1) by simp
  moreover have "s = s'" using assms(4) Blank_line by simp
  ultimately show ?thesis using assms(3) loop_newline by metis
next
  case (Hash_comment z)
  then have "keyval_yylex (at_line (line_text l @ r) y) = (KEYVAL_PARSE_NEWLINE, at_line r (''#'' @ z @ [newline]))"
    using at_line_token [of "''#'' @ z @ [newline]" r] scan_hash [of z r] assms(1) by simp
  moreover have "s = s'" using assms(4) Hash_comment by simp
  ultimately show ?thesis using assms(3) loop_newline by metis
next
  case (Slash_comment z)
  then have "keyval_yylex (at_line (line_text l @ r) y) = (KEYVAL_PARSE_NEWLINE, at_line r (''//'' @ z @ [newline]))"
    using at_line_token [of "''//'' @ z @ [newline]" r] scan_slash [of z r] assms(1) by simp
  moreover have "s = s'" using assms(4) Slash_comment by simp
  ultimately show ?thesis using assms(3) loop_newline by metis
next
  case (Assignment w n w1 w2 v w3)
  note ok = assms(1) [unfolded Assignment]
  let ?r = "w2 @ v @ w3 @ newline # r"
  obtain c q where c: "w1 @ CHR ''='' # ?r = c # q" "\<not> is_word c" using white_before_equal [of w1 ?r] ok by auto
  have word: "keyval_yylex (at_line (line_text l @ r) y) = (KEYVAL_PARSE_SINGLE_WORD, at_line (w1 @ CHR ''='' # ?r) n)"
    using at_line_word [of w n c q y] ok c by (simp add: Assignment)
  obtain kb' where kb: "save_key ralloc n kb = Some (True, kb')" "key_buffer_ok kb'" using save_key_ok [OF assms(3,2)] by blast
  from value_tokens [OF ok, of r] obtain u t x where T:
    "keyval_yylex (at_line (w1 @ CHR ''='' # ?r) n) = (KEYVAL_PARSE_EQUAL, at_value t u)"
    "if v = [] then keyval_yylex (at_value t u) = (KEYVAL_PARSE_NEWLINE, at_line r x)
     else \<exists>t'. keyval_yylex (at_value t u) = (KEYVAL_PARSE_VALUE, at_value t' v) \<and>
       keyval_yylex (at_value t' v) = (KEYVAL_PARSE_NEWLINE, at_line r x)" by blast
  have "parse_line ralloc callback (at_line (w1 @ CHR ''='' # ?r) n, kb, s) = Some (OCOMS_SUCCESS, at_line r x, kb', s')"
    using T kb(1) assms(4) by (auto simp: parse_line_def Let_def Assignment bind_eq_Some_conv split: if_splits)
  then show ?thesis using word kb(2) by (subst keyval_loop.simps) auto
qed

lemma loop_lines:
  assumes "\<forall>n. ralloc n"
  shows "\<forall>l \<in> set ls. line_ok l \<Longrightarrow> key_buffer_ok kb \<Longrightarrow> foldM (\<lambda>(n, v). callback n v) (file_assigns ls) s = Some s' \<Longrightarrow>
    \<exists>kb'. keyval_loop ralloc callback (at_line (file_text ls) y, kb, s) = Some (kb', s') \<and> key_buffer_ok kb'"
proof (induction ls arbitrary: kb s y)
  case Nil
  have "keyval_yylex (at_line [] y) = (KEYVAL_PARSE_DONE, (at_line [] [])\<lparr>sc_done := True\<rparr>)"
    by (subst keyval_yylex.simps) (simp add: at_line_def)
  then have "keyval_loop ralloc callback (at_line [] y, kb, s) = Some (kb, s)"
    by (subst keyval_loop.simps, simp) (simp add: keyval_loop.simps)
  then show ?case using Nil by (simp add: file_text_def file_assigns_def)
next
  case (Cons l ls)
  from Cons.prems(3) obtain s1 where s1: "foldM (\<lambda>(n, v). callback n v) (line_assigns l) s = Some s1"
    "foldM (\<lambda>(n, v). callback n v) (file_assigns ls) s1 = Some s'"
    by (auto simp: file_assigns_def foldM_append bind_eq_Some_conv)
  have "line_ok l" using Cons.prems(1) by simp
  from loop_line [OF this assms Cons.prems(2) s1(1), of "file_text ls" y] obtain x kb1 where
    "keyval_loop ralloc callback (at_line (line_text l @ file_text ls) y, kb, s) = keyval_loop ralloc callback (at_line (file_text ls) x, kb1, s1)"
    "key_buffer_ok kb1" by blast
  moreover obtain kb' where "keyval_loop ralloc callback (at_line (file_text ls) x, kb1, s1) = Some (kb', s')" "key_buffer_ok kb'"
    using Cons.IH [OF _ calculation(2) s1(2)] Cons.prems(1) by auto
  ultimately show ?case by (simp add: file_text_def)
qed

lemma parse_lines:
  assumes "fopen filename = Some (file_text ls)" and "\<forall>l \<in> set ls. line_ok l" and "\<forall>n. ralloc n" and "key_buffer_ok kb"
    and "foldM (\<lambda>(n, v). callback n v) (file_assigns ls) s = Some s'"
  shows "\<exists>kb'. ocoms_util_keyval_parse fopen ralloc filename callback (kb, s) = Some (OCOMS_SUCCESS, kb', s') \<and> key_buffer_ok kb'"
  using loop_lines [OF assms(3,2,4,5), of "[]"] assms(1) by (auto simp: ocoms_util_keyval_parse_def at_line_def)

end
