(* ===== verification/Mca_State.thy ===== *)
theory Mca_State
  imports Mca_Var_Values Hash_Table Pointer_Array Environ Keyval
begin

text \<open>
  The state shared by the MCA variable system of \<open>ocoms/mca/base\<close>: the registered variables of
  \<open>mca_base_var.c\<close>, their groups of \<open>mca_base_var_group.c\<close> and the performance variables of
  \<open>mca_base_pvar.c\<close>, each kind in a pointer array with a hash table from names to indices, and the
  small operations on them that the larger ones share.

  The objects live in a heap, a list indexed by address that only grows, and the pointer arrays hold
  their addresses.  The storage of a variable belongs to its user: it is a map from addresses to
  what they hold.  A value array of indices is its list of items (theory \<open>Value_Array\<close>), and
  \<open>None\<close> is one that has been constructed but not initialised, to which appending never returns
  (lemma \<open>append_without_init\<close>).  Memory for value arrays is taken to be available; reference counts
  of enumerators, and messages whose arguments exist, are left out.
\<close>

section \<open>Constants\<close>

datatype ocoms_mca_base_var_source_t = MCA_BASE_VAR_SOURCE_DEFAULT | MCA_BASE_VAR_SOURCE_COMMAND_LINE
  | MCA_BASE_VAR_SOURCE_ENV | MCA_BASE_VAR_SOURCE_FILE | MCA_BASE_VAR_SOURCE_SET
  | MCA_BASE_VAR_SOURCE_OVERRIDE | MCA_BASE_VAR_SOURCE_MAX

fun source_code :: "ocoms_mca_base_var_source_t \<Rightarrow> nat" where
  "source_code MCA_BASE_VAR_SOURCE_DEFAULT = 0"
| "source_code MCA_BASE_VAR_SOURCE_COMMAND_LINE = 1"
| "source_code MCA_BASE_VAR_SOURCE_ENV = 2"
| "source_code MCA_BASE_VAR_SOURCE_FILE = 3"
| "source_code MCA_BASE_VAR_SOURCE_SET = 4"
| "source_code MCA_BASE_VAR_SOURCE_OVERRIDE = 5"
| "source_code MCA_BASE_VAR_SOURCE_MAX = 6"

text \<open>The sources are compared by their codes, as C does.\<close>

instantiation ocoms_mca_base_var_source_t :: linorder
begin

definition less_eq_ocoms_mca_base_var_source_t :: "ocoms_mca_base_var_source_t \<Rightarrow> ocoms_mca_base_var_source_t \<Rightarrow> bool" where
  "less_eq_ocoms_mca_base_var_source_t a b \<longleftrightarrow> source_code a \<le> source_code b"

definition less_ocoms_mca_base_var_source_t :: "ocoms_mca_base_var_source_t \<Rightarrow> ocoms_mca_base_var_source_t \<Rightarrow> bool" where
  "less_ocoms_mca_base_var_source_t a b \<longleftrightarrow> source_code a < source_code b"

instance
proof
  fix a b :: ocoms_mca_base_var_source_t
  show "a \<le> b \<Longrightarrow> b \<le> a \<Longrightarrow> a = b"
    unfolding less_eq_ocoms_mca_base_var_source_t_def by (cases a; cases b) simp_all
qed (auto simp: less_eq_ocoms_mca_base_var_source_t_def less_ocoms_mca_base_var_source_t_def)

end

type_synonym flags = "32 word"

definition MCA_BASE_VAR_FLAG_INTERNAL :: flags where "MCA_BASE_VAR_FLAG_INTERNAL = 0x0001"
definition MCA_BASE_VAR_FLAG_DEFAULT_ONLY :: flags where "MCA_BASE_VAR_FLAG_DEFAULT_ONLY = 0x0002"
definition MCA_BASE_VAR_FLAG_SETTABLE :: flags where "MCA_BASE_VAR_FLAG_SETTABLE = 0x0004"
definition MCA_BASE_VAR_FLAG_DEPRECATED :: flags where "MCA_BASE_VAR_FLAG_DEPRECATED = 0x0008"
definition MCA_BASE_VAR_FLAG_OVERRIDE :: flags where "MCA_BASE_VAR_FLAG_OVERRIDE = 0x0010"
definition MCA_BASE_VAR_FLAG_ENVIRONMENT_ONLY :: flags where "MCA_BASE_VAR_FLAG_ENVIRONMENT_ONLY = 0x0020"
definition MCA_BASE_VAR_FLAG_DWG :: flags where "MCA_BASE_VAR_FLAG_DWG = 0x0040"
definition MCA_BASE_VAR_FLAG_VALID :: flags where "MCA_BASE_VAR_FLAG_VALID = 0x00010000"
definition MCA_BASE_VAR_FLAG_SYNONYM :: flags where "MCA_BASE_VAR_FLAG_SYNONYM = 0x00020000"

definition MCA_BASE_VAR_SYN_FLAG_DEPRECATED :: flags where "MCA_BASE_VAR_SYN_FLAG_DEPRECATED = 0x0001"
definition MCA_BASE_VAR_SYN_FLAG_INTERNAL :: flags where "MCA_BASE_VAR_SYN_FLAG_INTERNAL = 0x0002"

lemmas var_flag_defs = MCA_BASE_VAR_FLAG_INTERNAL_def MCA_BASE_VAR_FLAG_DEFAULT_ONLY_def MCA_BASE_VAR_FLAG_SETTABLE_def
  MCA_BASE_VAR_FLAG_DEPRECATED_def MCA_BASE_VAR_FLAG_OVERRIDE_def MCA_BASE_VAR_FLAG_ENVIRONMENT_ONLY_def
  MCA_BASE_VAR_FLAG_DWG_def MCA_BASE_VAR_FLAG_VALID_def MCA_BASE_VAR_FLAG_SYNONYM_def
  MCA_BASE_VAR_SYN_FLAG_DEPRECATED_def MCA_BASE_VAR_SYN_FLAG_INTERNAL_def

definition MCA_BASE_PVAR_FLAG_IWG :: flags where "MCA_BASE_PVAR_FLAG_IWG = 0x040"
definition MCA_BASE_PVAR_FLAG_READONLY :: flags where "MCA_BASE_PVAR_FLAG_READONLY = 0x080"
definition MCA_BASE_PVAR_FLAG_CONTINUOUS :: flags where "MCA_BASE_PVAR_FLAG_CONTINUOUS = 0x100"
definition MCA_BASE_PVAR_FLAG_ATOMIC :: flags where "MCA_BASE_PVAR_FLAG_ATOMIC = 0x200"
definition MCA_BASE_PVAR_FLAG_INVALID :: flags where "MCA_BASE_PVAR_FLAG_INVALID = 0x400"

definition isset :: "flags \<Rightarrow> flags \<Rightarrow> bool" where
  "isset f w \<longleftrightarrow> w AND f \<noteq> 0"

section \<open>Objects\<close>

record ocoms_mca_base_var_t =
  mbv_index :: int
  mbv_group_index :: int
  mbv_info_lvl :: int
  mbv_type :: ocoms_mca_base_var_type_t
  mbv_variable_name :: "string option"
  mbv_full_name :: "string option"
  mbv_long_name :: "string option"
  mbv_synonyms :: "int list option"
  mbv_flags :: flags
  mbv_scope :: int
  mbv_source :: ocoms_mca_base_var_source_t
  mbv_synonym_for :: int
  mbv_description :: "string option"
  mbv_source_file :: "string option"
  mbv_enumerator :: "ocoms_mca_base_var_enum_t option"
  mbv_bind :: int
  mbv_storage :: "nat option"

definition var_constructor :: ocoms_mca_base_var_t where
  "var_constructor = \<lparr>mbv_index = 0, mbv_group_index = 0, mbv_info_lvl = 0, mbv_type = MCA_BASE_VAR_TYPE_MAX,
     mbv_variable_name = None, mbv_full_name = None, mbv_long_name = None, mbv_synonyms = Some [], mbv_flags = 0,
     mbv_scope = 0, mbv_source = MCA_BASE_VAR_SOURCE_DEFAULT, mbv_synonym_for = 0, mbv_description = None,
     mbv_source_file = None, mbv_enumerator = None, mbv_bind = 0, mbv_storage = None\<rparr>"

abbreviation "VAR_IS_VALID v \<equiv> isset MCA_BASE_VAR_FLAG_VALID (mbv_flags v)"
abbreviation "VAR_IS_SYNONYM v \<equiv> isset MCA_BASE_VAR_FLAG_SYNONYM (mbv_flags v)"
abbreviation "VAR_IS_INTERNAL v \<equiv> isset MCA_BASE_VAR_FLAG_INTERNAL (mbv_flags v)"
abbreviation "VAR_IS_DEFAULT_ONLY v \<equiv> isset MCA_BASE_VAR_FLAG_DEFAULT_ONLY (mbv_flags v)"
abbreviation "VAR_IS_SETTABLE v \<equiv> isset MCA_BASE_VAR_FLAG_SETTABLE (mbv_flags v)"
abbreviation "VAR_IS_DEPRECATED v \<equiv> isset MCA_BASE_VAR_FLAG_DEPRECATED (mbv_flags v)"

record ocoms_mca_base_var_group_t =
  group_isvalid :: bool
  group_full_name :: "string option"
  group_project :: "string option"
  group_framework :: "string option"
  group_component :: "string option"
  group_description :: "string option"
  group_subgroups :: "int list option"
  group_vars :: "int list option"
  group_pvars :: "int list option"

definition ocoms_mca_base_var_group_constructor :: ocoms_mca_base_var_group_t where
  "ocoms_mca_base_var_group_constructor = \<lparr>group_isvalid = False, group_full_name = None, group_project = None,
     group_framework = None, group_component = None, group_description = None, group_subgroups = Some [],
     group_vars = Some [], group_pvars = Some []\<rparr>"

text \<open>
  A function pointer of a performance variable: null, the default of \<open>mca_base_pvar.c\<close>, or a function
  of the component that registered the variable.
\<close>

datatype pvar_fn = No_fn | Default_fn | Component_fn nat

text \<open>The list of the handles bound to a performance variable is the list of their addresses.\<close>

record ocoms_mca_base_pvar_t =
  pvar_index :: int
  pvar_group_index :: int
  pvar_name :: "string option"
  pvar_description :: "string option"
  pvar_verbosity :: int
  pvar_var_class :: int
  pvar_type :: ocoms_mca_base_var_type_t
  pvar_enumerator :: "ocoms_mca_base_var_enum_t option"
  pvar_bind :: int
  pvar_flags :: flags
  pvar_get_value :: pvar_fn
  pvar_set_value :: pvar_fn
  pvar_notify :: pvar_fn
  pvar_ctx :: "nat option"
  pvar_bound_handles :: "nat list"

definition ocoms_mca_base_pvar_contructor :: ocoms_mca_base_pvar_t where
  "ocoms_mca_base_pvar_contructor = \<lparr>pvar_index = 0, pvar_group_index = 0, pvar_name = None, pvar_description = None,
     pvar_verbosity = 0, pvar_var_class = 0, pvar_type = MCA_BASE_VAR_TYPE_INT, pvar_enumerator = None, pvar_bind = 0,
     pvar_flags = 0, pvar_get_value = No_fn, pvar_set_value = No_fn, pvar_notify = No_fn, pvar_ctx = None,
     pvar_bound_handles = []\<rparr>"

text \<open>A value that was read from a parameter file.\<close>

record ocoms_mca_base_var_file_value_t =
  mbvfv_var :: "string option"
  mbvfv_value :: "string option"
  mbvfv_file :: "string option"

section \<open>State and environment\<close>

record mca =
  vs_ready :: bool
  vs_vars :: "nat parray"
  vs_heap :: "ocoms_mca_base_var_t list"
  vs_count :: int
  vs_hash :: "int htable"
  vs_file_values :: "ocoms_mca_base_var_file_value_t list"
  vs_override_values :: "ocoms_mca_base_var_file_value_t list"
  vs_file_list :: "cells option"
  vs_home :: "string option"
  vs_cwd :: "string option"
  vs_store :: "nat \<Rightarrow> ocoms_mca_base_var_storage_t option"
  vs_gready :: bool
  vs_groups :: "nat parray"
  vs_gheap :: "ocoms_mca_base_var_group_t list"
  vs_ghash :: "int htable"
  vs_gcount :: int
  vs_stamp :: int
  vs_pready :: bool
  vs_pvars :: "nat parray"
  vs_pheap :: "ocoms_mca_base_pvar_t list"
  vs_phash :: "int htable"
  vs_pcount :: int
  vs_key_buffer :: key_buffer

text \<open>
  What the system is given: the C library's memory for strings and the conversions of doubles, for
  zeroed blocks, for keys of hash tables, for the cells of pointer arrays and for new objects; the
  environment; the three bytes that follow a \<open>bool\<close> in its user's memory; and whether the build has
  \<open>OCOMS_ENABLE_DEBUG\<close>.
\<close>

record mca_ctx =
  mc_val :: var_ctx
  mc_calloc :: "nat \<Rightarrow> bool"
  mc_malloc :: "nat \<Rightarrow> bool"
  mc_cells :: "nat option allocator"
  mc_obj_new :: bool
  mc_getenv :: "string \<Rightarrow> string option"
  mc_pad :: "nat \<Rightarrow> 24 word"
  mc_dbg :: bool

abbreviation mc_mem :: "mca_ctx \<Rightarrow> argv_mem" where "mc_mem c \<equiv> vc_mem (mc_val c)"

definition vctx :: "mca_ctx \<Rightarrow> mca \<Rightarrow> var_ctx" where
  "vctx c s = mc_val c\<lparr>vc_home := vs_home s\<rparr>"

text \<open>
  The static variables of \<open>mca_base_var.c\<close> that are themselves the storage of registered variables
  have the first addresses.
\<close>

definition ADDR_FILES :: nat where "ADDR_FILES = 0"
definition ADDR_OVERRIDE_FILE :: nat where "ADDR_OVERRIDE_FILE = 1"
definition ADDR_SUPPRESS_WARNING :: nat where "ADDR_SUPPRESS_WARNING = 2"
definition ADDR_FILE_PREFIX :: nat where "ADDR_FILE_PREFIX = 3"
definition ADDR_FILE_PATH :: nat where "ADDR_FILE_PATH = 4"
definition ADDR_FORCE_PATH :: nat where "ADDR_FORCE_PATH = 5"

lemmas addr_defs = ADDR_FILES_def ADDR_OVERRIDE_FILE_def ADDR_SUPPRESS_WARNING_def ADDR_FILE_PREFIX_def
  ADDR_FILE_PATH_def ADDR_FORCE_PATH_def

text \<open>The object a pointer points to; and its update.\<close>

definition the_var :: "mca \<Rightarrow> nat option \<Rightarrow> ocoms_mca_base_var_t option" where
  "the_var s p = do { a \<leftarrow> p; rdn (vs_heap s) a }"

definition upd_var :: "nat \<Rightarrow> (ocoms_mca_base_var_t \<Rightarrow> ocoms_mca_base_var_t) \<Rightarrow> mca \<Rightarrow> mca option" where
  "upd_var a f s = do { v \<leftarrow> rdn (vs_heap s) a; Some (s\<lparr>vs_heap := (vs_heap s)[a := f v]\<rparr>) }"

definition upd_group :: "nat \<Rightarrow> (ocoms_mca_base_var_group_t \<Rightarrow> ocoms_mca_base_var_group_t) \<Rightarrow> mca \<Rightarrow> mca option" where
  "upd_group a f s = do { g \<leftarrow> rdn (vs_gheap s) a; Some (s\<lparr>vs_gheap := (vs_gheap s)[a := f g]\<rparr>) }"

definition upd_pvar :: "nat \<Rightarrow> (ocoms_mca_base_pvar_t \<Rightarrow> ocoms_mca_base_pvar_t) \<Rightarrow> mca \<Rightarrow> mca option" where
  "upd_pvar a f s = do { p \<leftarrow> rdn (vs_pheap s) a; Some (s\<lparr>vs_pheap := (vs_pheap s)[a := f p]\<rparr>) }"

text \<open>Appending an index to a value array, and its items.\<close>

definition va_append :: "int \<Rightarrow> int list option \<Rightarrow> int list option option" where
  "va_append i a = do { xs \<leftarrow> a; Some (Some (xs @ [i])) }"

definition va_items :: "int list option \<Rightarrow> int list" where
  "va_items a = (case a of None \<Rightarrow> [] | Some xs \<Rightarrow> xs)"

section \<open>Names and indices\<close>

text \<open>
  Names are hashed by their bytes; an index is stored as a pointer, so that index 0 is the null
  pointer.
\<close>

definition name_bytes :: "string \<Rightarrow> 8 word list" where
  "name_bytes s = map (\<lambda>c. word_of_nat (of_char c)) s"

definition index_ptr :: "int \<Rightarrow> int option" where
  "index_ptr i = (if i = 0 then None else Some i)"

definition ptr_index :: "int option \<Rightarrow> int" where
  "ptr_index p = (case p of None \<Rightarrow> 0 | Some i \<Rightarrow> i)"

definition find_name :: "mca_ctx \<Rightarrow> int htable \<Rightarrow> string \<Rightarrow> (int \<times> int option \<times> int htable) option" where
  "find_name c ht name = do {
     (rc, v, ht') \<leftarrow> ocoms_hash_table_get_value_ptr (mc_dbg c) ht (name_bytes name);
     Some (rc, map_option ptr_index v, ht') }"

definition set_name :: "mca_ctx \<Rightarrow> int htable \<Rightarrow> string \<Rightarrow> int \<Rightarrow> (int \<times> int htable) option" where
  "set_name c ht name index =
     ocoms_hash_table_set_value_ptr (mc_calloc c) (mc_malloc c) (mc_dbg c) ht (name_bytes name) (index_ptr index)"

text \<open>
  The name made of up to four parts.  With no part at all the result has no room for a terminator,
  and every caller goes on to read it.
\<close>

fun join_names :: "string \<Rightarrow> string option list \<Rightarrow> string" where
  "join_names acc [] = acc"
| "join_names acc (None # ns) = join_names acc ns"
| "join_names acc (Some n # ns) = join_names ((if acc = [] then [] else acc @ ''_'') @ n) ns"

definition ocoms_mca_base_var_generate_full_name4 ::
  "mca_ctx \<Rightarrow> string option \<Rightarrow> string option \<Rightarrow> string option \<Rightarrow> string option \<Rightarrow> (int \<times> string option) option" where
  "ocoms_mca_base_var_generate_full_name4 c project framework component variable =
     (let names = [project, framework, component, variable];
          len = sum_list (map (\<lambda>n. case n of None \<Rightarrow> 0 | Some s \<Rightarrow> length s + 1) names)
      in if \<not> mc_calloc c len then Some (OCOMS_ERR_OUT_OF_RESOURCE, None)
         else if len = 0 then None
         else Some (OCOMS_SUCCESS, Some (join_names '''' names)))"

text \<open>Duplicating a string that may be null.\<close>

definition strdup_opt :: "argv_mem \<Rightarrow> string option \<Rightarrow> string option" where
  "strdup_opt m s = Option.bind s (strdup m)"

section \<open>Looking variables up\<close>

definition var_get_one :: "mca \<Rightarrow> int \<Rightarrow> (int \<times> nat option) option" where
  "var_get_one s index =
     (if \<not> vs_ready s then Some (OCOMS_ERROR, None)
      else if index < 0 then Some (OCOMS_ERR_BAD_PARAM, None)
      else do {
        p \<leftarrow> ocoms_pointer_array_get_item (vs_vars s) index;
        Some (if p = None then (OCOMS_ERR_BAD_PARAM, None) else (OCOMS_SUCCESS, p)) })"

definition var_get :: "mca \<Rightarrow> int \<Rightarrow> bool \<Rightarrow> (int \<times> nat option) option" where
  "var_get s index original = do {
     (rc, p) \<leftarrow> var_get_one s index;
     if rc \<noteq> OCOMS_SUCCESS \<or> \<not> original then Some (rc, p)
     else do {
       v \<leftarrow> the_var s p;
       if VAR_IS_SYNONYM v then var_get_one s (mbv_synonym_for v) else Some (rc, p) } }"

definition ocoms_mca_base_var_get :: "mca \<Rightarrow> int \<Rightarrow> (int \<times> nat option) option" where
  "ocoms_mca_base_var_get s index = var_get s index False"

definition ocoms_mca_base_var_deregister :: "mca \<Rightarrow> int \<Rightarrow> (int \<times> mca) option" where
  "ocoms_mca_base_var_deregister s index = do {
     (rc, p) \<leftarrow> var_get s index False;
     if rc \<noteq> OCOMS_SUCCESS then Some (rc, s)
     else do {
       a \<leftarrow> p;
       v \<leftarrow> rdn (vs_heap s) a;
       if \<not> VAR_IS_VALID v then Some (OCOMS_ERR_BAD_PARAM, s)
       else do {
         s1 \<leftarrow> upd_var a (\<lambda>v. v\<lparr>mbv_flags := mbv_flags v AND NOT MCA_BASE_VAR_FLAG_VALID\<rparr>) s;
         if VAR_IS_SYNONYM v then Some (OCOMS_SUCCESS, s1)
         else do {
           s2 \<leftarrow> (if mbv_type v = MCA_BASE_VAR_TYPE_STRING then do {
                     addr \<leftarrow> mbv_storage v;
                     st \<leftarrow> vs_store s1 addr;
                     (case st of String_store x \<Rightarrow> Some (s1\<lparr>vs_store := (vs_store s1)(addr := Some (String_store None))\<rparr>)
                      | _ \<Rightarrow> None) }
                   else Some s1);
           s3 \<leftarrow> upd_var a (\<lambda>v. v\<lparr>mbv_enumerator := None, mbv_storage := None\<rparr>) s2;
           Some (OCOMS_SUCCESS, s3) } } } }"

section \<open>Looking groups and performance variables up\<close>

definition ocoms_mca_base_var_group_get_internal :: "mca \<Rightarrow> int \<Rightarrow> bool \<Rightarrow> (int \<times> nat option) option" where
  "ocoms_mca_base_var_group_get_internal s group_index invalidok =
     (if group_index < 0 then Some (OCOMS_ERR_NOT_FOUND, None)
      else do {
        p \<leftarrow> ocoms_pointer_array_get_item (vs_groups s) group_index;
        case p of None \<Rightarrow> Some (OCOMS_ERR_NOT_FOUND, None)
        | Some a \<Rightarrow> do {
            g \<leftarrow> rdn (vs_gheap s) a;
            Some (if \<not> invalidok \<and> \<not> group_isvalid g then (OCOMS_ERR_NOT_FOUND, None) else (OCOMS_SUCCESS, Some a)) } })"

definition ocoms_mca_base_pvar_get_internal :: "mca \<Rightarrow> int \<Rightarrow> bool \<Rightarrow> (int \<times> nat option) option" where
  "ocoms_mca_base_pvar_get_internal s index invalidok =
     (if vs_pcount s \<le> index then Some (OCOMS_ERR_VALUE_OUT_OF_BOUNDS, None)
      else do {
        p \<leftarrow> ocoms_pointer_array_get_item (vs_pvars s) index;
        a \<leftarrow> p;
        v \<leftarrow> rdn (vs_pheap s) a;
        Some (if isset MCA_BASE_PVAR_FLAG_INVALID (pvar_flags v) \<and> \<not> invalidok
              then (OCOMS_ERR_VALUE_OUT_OF_BOUNDS, None) else (OCOMS_SUCCESS, Some a)) })"

definition ocoms_mca_base_pvar_get :: "mca \<Rightarrow> int \<Rightarrow> (int \<times> nat option) option" where
  "ocoms_mca_base_pvar_get s index = ocoms_mca_base_pvar_get_internal s index False"

definition ocoms_mca_base_pvar_mark_invalid :: "mca \<Rightarrow> int \<Rightarrow> (int \<times> mca) option" where
  "ocoms_mca_base_pvar_mark_invalid s index = do {
     (rc, p) \<leftarrow> ocoms_mca_base_pvar_get_internal s index False;
     if rc \<noteq> OCOMS_SUCCESS then Some (rc, s)
     else do {
       a \<leftarrow> p;
       s' \<leftarrow> upd_pvar a (\<lambda>v. v\<lparr>pvar_flags := pvar_flags v OR MCA_BASE_PVAR_FLAG_INVALID\<rparr>) s;
       Some (OCOMS_SUCCESS, s') } }"

end
