(* ===== verification/Mca_Group.thy ===== *)
theory Mca_Group
  imports Mca_State
begin

text \<open>
  The groups of MCA variables of \<open>ocoms/mca/base/mca_base_var_group.c\<close>: registration with the parent
  group, lookup by name, membership, flags, and deregistration with everything below a group.
\<close>

section \<open>Set-up\<close>

definition ocoms_mca_base_var_group_init :: "mca_ctx \<Rightarrow> mca \<Rightarrow> (int \<times> mca) option" where
  "ocoms_mca_base_var_group_init c s =
     (if vs_gready s then Some (OCOMS_SUCCESS, s)
      else
        case ocoms_pointer_array_init (mc_calloc c) (Some ocoms_pointer_array_construct) 128 16384 128 of
          (ret, None) \<Rightarrow> Some (ret, s)
        | (ret, Some t) \<Rightarrow>
            if ret \<noteq> OCOMS_SUCCESS then Some (ret, s\<lparr>vs_groups := t\<rparr>)
            else do {
              (ret2, ht) \<leftarrow> ocoms_hash_table_init (mc_calloc c) ocoms_hash_table_construct 256;
              let s1 = s\<lparr>vs_groups := t, vs_ghash := ht\<rparr>;
              Some (if ret2 \<noteq> OCOMS_SUCCESS then (ret2, s1)
                    else (OCOMS_SUCCESS, s1\<lparr>vs_gready := True, vs_gcount := 0\<rparr>)) })"

text \<open>The objects are released; nothing refers to them any more.\<close>

definition ocoms_mca_base_var_group_finalize :: "mca \<Rightarrow> int \<times> mca" where
  "ocoms_mca_base_var_group_finalize s =
     (OCOMS_SUCCESS, if vs_gready s
        then s\<lparr>vs_groups := ocoms_pointer_array_destruct (vs_groups s), vs_ghash := (vs_ghash s)\<lparr>ht_table := None\<rparr>,
               vs_gcount := 0, vs_gready := False\<rparr>
        else s)"

section \<open>Lookup\<close>

text \<open>
  The group must be valid whatever \<open>invalidok\<close> says, since the code passes \<open>false\<close> on.
\<close>

definition group_find_by_name :: "mca_ctx \<Rightarrow> mca \<Rightarrow> string \<Rightarrow> bool \<Rightarrow> (int \<times> int option \<times> mca) option" where
  "group_find_by_name c s full_name invalidok = do {
     (rc, tmp, ht) \<leftarrow> find_name c (vs_ghash s) full_name;
     let s1 = s\<lparr>vs_ghash := ht\<rparr>;
     if rc \<noteq> OCOMS_SUCCESS then Some (rc, None, s1)
     else do {
       i \<leftarrow> tmp;
       (rc, p) \<leftarrow> ocoms_mca_base_var_group_get_internal s1 i False;
       if rc \<noteq> OCOMS_SUCCESS then Some (rc, None, s1)
       else do {
         a \<leftarrow> p;
         g \<leftarrow> rdn (vs_gheap s1) a;
         Some (if invalidok \<or> group_isvalid g then (OCOMS_SUCCESS, Some i, s1) else (OCOMS_ERR_NOT_FOUND, None, s1)) } } }"

definition group_find :: "mca_ctx \<Rightarrow> mca \<Rightarrow> string option \<Rightarrow> string option \<Rightarrow> string option \<Rightarrow> bool \<Rightarrow> (int \<times> mca) option" where
  "group_find c s project_name framework_name component_name invalidok =
     (if \<not> vs_ready s then Some (OCOMS_ERR_NOT_FOUND, s)
      else do {
        (ret, full_name) \<leftarrow> ocoms_mca_base_var_generate_full_name4 c None framework_name component_name None;
        if ret \<noteq> OCOMS_SUCCESS then Some (OCOMS_ERROR, s)
        else do {
          name \<leftarrow> full_name;
          (ret, index, s1) \<leftarrow> group_find_by_name c s name invalidok;
          Some (if ret < 0 then ret else (case index of None \<Rightarrow> 0 | Some i \<Rightarrow> i), s1) } })"

definition ocoms_mca_base_var_group_find ::
  "mca_ctx \<Rightarrow> mca \<Rightarrow> string option \<Rightarrow> string option \<Rightarrow> string option \<Rightarrow> (int \<times> mca) option" where
  "ocoms_mca_base_var_group_find c s project_name framework_name component_name =
     group_find c s project_name framework_name component_name False"

definition ocoms_mca_base_var_group_find_by_name :: "mca_ctx \<Rightarrow> mca \<Rightarrow> string \<Rightarrow> (int \<times> int option \<times> mca) option" where
  "ocoms_mca_base_var_group_find_by_name c s full_name = group_find_by_name c s full_name False"

definition ocoms_mca_base_var_group_get :: "mca \<Rightarrow> int \<Rightarrow> (int \<times> nat option) option" where
  "ocoms_mca_base_var_group_get s group_index = ocoms_mca_base_var_group_get_internal s group_index False"

section \<open>Registration\<close>

text \<open>The strings of a new group; a copy that fails ends the registration.\<close>

definition group_strings ::
  "argv_mem \<Rightarrow> string option \<Rightarrow> string option \<Rightarrow> string option \<Rightarrow> string option \<Rightarrow> ocoms_mca_base_var_group_t option" where
  "group_strings m project framework component description =
     (if list_all (\<lambda>x. x = None \<or> strdup_opt m x \<noteq> None) [project, framework, component, description]
      then Some (ocoms_mca_base_var_group_constructor\<lparr>group_isvalid := True,
             group_project := strdup_opt m project, group_framework := strdup_opt m framework,
             group_component := strdup_opt m component, group_description := strdup_opt m description\<rparr>)
      else None)"

text \<open>A group that is there already is valid again.\<close>

definition revalidate_group :: "mca \<Rightarrow> int \<Rightarrow> (int \<times> mca) option" where
  "revalidate_group s group_id = do {
     (_, p) \<leftarrow> ocoms_mca_base_var_group_get_internal s group_id True;
     a \<leftarrow> p;
     s1 \<leftarrow> upd_group a (\<lambda>g. g\<lparr>group_isvalid := True\<rparr>) s;
     stamp \<leftarrow> chk (vs_stamp s1 + 1);
     Some (group_id, s1\<lparr>vs_stamp := stamp\<rparr>) }"

text \<open>Entering a new group in the array and the table of names.\<close>

definition enter_group :: "mca_ctx \<Rightarrow> mca \<Rightarrow> ocoms_mca_base_var_group_t \<Rightarrow> string \<Rightarrow> (int \<times> mca) option" where
  "enter_group c s grp full_name = do {
     (group_id, groups) \<leftarrow> ocoms_pointer_array_add (mc_cells c) (vs_groups s) (Some (length (vs_gheap s)));
     if group_id < 0 then Some (OCOMS_ERROR, s\<lparr>vs_groups := groups\<rparr>)
     else do {
       (_, ht) \<leftarrow> set_name c (vs_ghash s) full_name group_id;
       count \<leftarrow> chk (vs_gcount s + 1);
       stamp \<leftarrow> chk (vs_stamp s + 1);
       Some (group_id, s\<lparr>vs_groups := groups, vs_gheap := vs_gheap s @ [grp\<lparr>group_full_name := Some full_name\<rparr>],
                         vs_ghash := ht, vs_gcount := count, vs_stamp := stamp\<rparr>) } }"

text \<open>Entering a group in its parent.\<close>

definition enter_in_parent :: "mca \<Rightarrow> int \<Rightarrow> int \<Rightarrow> mca option" where
  "enter_in_parent s parent_id group_id = do {
     (_, p) \<leftarrow> ocoms_mca_base_var_group_get_internal s parent_id False;
     a \<leftarrow> p;
     g \<leftarrow> rdn (vs_gheap s) a;
     subgroups \<leftarrow> va_append group_id (group_subgroups g);
     upd_group a (\<lambda>g. g\<lparr>group_subgroups := subgroups\<rparr>) s }"

function group_register ::
  "mca_ctx \<Rightarrow> mca \<Rightarrow> string option \<Rightarrow> string option \<Rightarrow> string option \<Rightarrow> string option \<Rightarrow> (int \<times> mca) option" where
  "group_register c s project0 framework_name component_name description =
     (if project0 = None \<and> framework_name = None \<and> component_name = None then Some (- 1, s)
      else do {
        let project_name = (if framework_name \<noteq> None \<or> component_name \<noteq> None then None else project0);
        (found, s1) \<leftarrow> group_find c s project_name framework_name component_name True;
        if 0 \<le> found then revalidate_group s1 found
        else do {
          assert_c (mc_obj_new c);
          case group_strings (mc_mem c) project_name framework_name component_name description of
            None \<Rightarrow> Some (OCOMS_ERR_OUT_OF_RESOURCE, s1)
          | Some grp \<Rightarrow> do {
              (parent_id, s2) \<leftarrow> (if framework_name \<noteq> None \<and> component_name \<noteq> None
                 then group_register c s1 project_name framework_name None None else Some (- 1, s1));
              (ret, name) \<leftarrow> ocoms_mca_base_var_generate_full_name4 c None project_name framework_name component_name;
              if ret \<noteq> OCOMS_SUCCESS then Some (ret, s2)
              else do {
                full_name \<leftarrow> name;
                (group_id, s3) \<leftarrow> enter_group c s2 grp full_name;
                if group_id < 0 \<or> parent_id < 0 then Some (group_id, s3)
                else do { s4 \<leftarrow> enter_in_parent s3 parent_id group_id; Some (group_id, s4) } } } } })"
  by pat_completeness auto
termination
  by (relation "measure (\<lambda>(c, s, p, f, cn, d). case cn of None \<Rightarrow> 0 | Some _ \<Rightarrow> 1)") auto

declare group_register.simps [simp del]

definition ocoms_mca_base_var_group_register ::
  "mca_ctx \<Rightarrow> mca \<Rightarrow> string option \<Rightarrow> string option \<Rightarrow> string option \<Rightarrow> string option \<Rightarrow> (int \<times> mca) option" where
  "ocoms_mca_base_var_group_register c s project_name framework_name component_name description =
     group_register c s project_name framework_name component_name description"

text \<open>The names a component carries.\<close>

record ocoms_mca_base_component_t =
  mca_type_name :: string
  mca_component_name :: string

definition ocoms_mca_base_var_group_component_register ::
  "mca_ctx \<Rightarrow> mca \<Rightarrow> ocoms_mca_base_component_t \<Rightarrow> string option \<Rightarrow> (int \<times> mca) option" where
  "ocoms_mca_base_var_group_component_register c s component description =
     group_register c s None (Some (mca_type_name component)) (Some (mca_component_name component)) description"

section \<open>Members\<close>

text \<open>The index of an item in an array of indices.\<close>

fun index_of :: "int \<Rightarrow> int list \<Rightarrow> nat \<Rightarrow> nat option" where
  "index_of x [] i = None"
| "index_of x (y # ys) i = (if y = x then Some i else index_of x ys (Suc i))"

definition ocoms_mca_base_var_group_add_var :: "mca \<Rightarrow> int \<Rightarrow> int \<Rightarrow> (int \<times> mca) option" where
  "ocoms_mca_base_var_group_add_var s group_index param_index = do {
     (ret, p) \<leftarrow> ocoms_mca_base_var_group_get_internal s group_index False;
     if ret \<noteq> OCOMS_SUCCESS then Some (ret, s)
     else do {
       a \<leftarrow> p;
       g \<leftarrow> rdn (vs_gheap s) a;
       case index_of param_index (va_items (group_vars g)) 0 of
         Some i \<Rightarrow> Some (int i, s)
       | None \<Rightarrow> do {
           vars \<leftarrow> va_append param_index (group_vars g);
           s1 \<leftarrow> upd_group a (\<lambda>g. g\<lparr>group_vars := vars\<rparr>) s;
           stamp \<leftarrow> chk (vs_stamp s1 + 1);
           Some (int (length (va_items vars)) - 1, s1\<lparr>vs_stamp := stamp\<rparr>) } } }"

definition ocoms_mca_base_var_group_add_pvar :: "mca \<Rightarrow> int \<Rightarrow> int \<Rightarrow> (int \<times> mca) option" where
  "ocoms_mca_base_var_group_add_pvar s group_index param_index = do {
     (ret, p) \<leftarrow> ocoms_mca_base_var_group_get_internal s group_index False;
     if ret \<noteq> OCOMS_SUCCESS then Some (ret, s)
     else do {
       a \<leftarrow> p;
       g \<leftarrow> rdn (vs_gheap s) a;
       case index_of param_index (va_items (group_pvars g)) 0 of
         Some i \<Rightarrow> Some (int i, s)
       | None \<Rightarrow> do {
           pvars \<leftarrow> va_append param_index (group_pvars g);
           s1 \<leftarrow> upd_group a (\<lambda>g. g\<lparr>group_pvars := pvars\<rparr>) s;
           stamp \<leftarrow> chk (vs_stamp s1 + 1);
           Some (int (length (va_items pvars)) - 1, s1\<lparr>vs_stamp := stamp\<rparr>) } } }"

text \<open>Setting or clearing flags of a variable; no flag is masked out.\<close>

definition ocoms_mca_base_var_set_flag :: "mca \<Rightarrow> int \<Rightarrow> flags \<Rightarrow> bool \<Rightarrow> (int \<times> mca) option" where
  "ocoms_mca_base_var_set_flag s index flag on = do {
     (ret, p) \<leftarrow> var_get s index True;
     if ret \<noteq> OCOMS_SUCCESS then Some (OCOMS_ERR_BAD_PARAM, s)
     else do {
       a \<leftarrow> p;
       v \<leftarrow> rdn (vs_heap s) a;
       if VAR_IS_SYNONYM v then Some (OCOMS_ERR_BAD_PARAM, s)
       else do {
         s1 \<leftarrow> upd_var a (\<lambda>v. v\<lparr>mbv_flags := (mbv_flags v AND NOT flag) OR (if on then flag else 0)\<rparr>) s;
         Some (OCOMS_SUCCESS, s1) } } }"

definition ocoms_mca_base_var_group_set_var_flag :: "mca \<Rightarrow> int \<Rightarrow> flags \<Rightarrow> bool \<Rightarrow> (int \<times> mca) option" where
  "ocoms_mca_base_var_group_set_var_flag s group_index flags on = do {
     (ret, p) \<leftarrow> ocoms_mca_base_var_group_get_internal s group_index False;
     if ret \<noteq> OCOMS_SUCCESS then Some (ret, s)
     else do {
       a \<leftarrow> p;
       g \<leftarrow> rdn (vs_gheap s) a;
       s1 \<leftarrow> foldM (\<lambda>i s. if 0 \<le> i then do { (_, s') \<leftarrow> ocoms_mca_base_var_set_flag s i flags on; Some s' } else Some s)
              (va_items (group_vars g)) s;
       Some (OCOMS_SUCCESS, s1) } }"

section \<open>Deregistration\<close>

text \<open>The loops over the members of a group: those that go with it are deregistered or invalidated.\<close>

definition dereg_member :: "int \<Rightarrow> mca \<Rightarrow> mca option" where
  "dereg_member i s = do {
     (ret, p) \<leftarrow> ocoms_mca_base_var_get s i;
     if ret \<noteq> OCOMS_SUCCESS then Some s
     else do {
       v \<leftarrow> the_var s p;
       if \<not> isset MCA_BASE_VAR_FLAG_DWG (mbv_flags v) then Some s
       else do { (_, s') \<leftarrow> ocoms_mca_base_var_deregister s i; Some s' } } }"

definition dereg_pvar :: "int \<Rightarrow> mca \<Rightarrow> mca option" where
  "dereg_pvar i s = do {
     (ret, p) \<leftarrow> ocoms_mca_base_pvar_get s i;
     if ret \<noteq> OCOMS_SUCCESS then Some s
     else do {
       a \<leftarrow> p;
       v \<leftarrow> rdn (vs_pheap s) a;
       if \<not> isset MCA_BASE_PVAR_FLAG_IWG (pvar_flags v) then Some s
       else do { (_, s') \<leftarrow> ocoms_mca_base_pvar_mark_invalid s i; Some s' } } }"

text \<open>The rule that lets a recursive call stand inside \<open>foldM\<close>.\<close>

lemma foldM_mono [partial_function_mono]:
  assumes "\<And>x s. mono_option (\<lambda>f. g f x s)"
  shows "mono_option (\<lambda>f. foldM (g f) xs s)"
proof (induction xs arbitrary: s)
  case Nil
  show ?case by (simp add: option.const_mono)
next
  case (Cons x xs)
  show ?case unfolding foldM.simps by (intro bind_mono assms Cons.IH)
qed

text \<open>
  The arrays are emptied by destroying and constructing them, without initialising them.
\<close>

partial_function (option) ocoms_mca_base_var_group_deregister :: "mca \<Rightarrow> int \<Rightarrow> (int \<times> mca) option" where
  "ocoms_mca_base_var_group_deregister s group_index = do {
     (ret, p) \<leftarrow> ocoms_mca_base_var_group_get_internal s group_index False;
     if ret \<noteq> OCOMS_SUCCESS then Some (ret, s)
     else do {
       a \<leftarrow> p;
       g \<leftarrow> rdn (vs_gheap s) a;
       s1 \<leftarrow> upd_group a (\<lambda>g. g\<lparr>group_isvalid := False\<rparr>) s;
       s2 \<leftarrow> foldM dereg_member (va_items (group_vars g)) s1;
       s3 \<leftarrow> upd_group a (\<lambda>g. g\<lparr>group_vars := None\<rparr>) s2;
       s4 \<leftarrow> foldM dereg_pvar (va_items (group_pvars g)) s3;
       s5 \<leftarrow> upd_group a (\<lambda>g. g\<lparr>group_pvars := None\<rparr>) s4;
       s6 \<leftarrow> foldM (\<lambda>i s. do { (_, s') \<leftarrow> ocoms_mca_base_var_group_deregister s i; Some s' })
              (va_items (group_subgroups g)) s5;
       s7 \<leftarrow> upd_group a (\<lambda>g. g\<lparr>group_subgroups := None\<rparr>) s6;
       stamp \<leftarrow> chk (vs_stamp s7 + 1);
       Some (OCOMS_SUCCESS, s7\<lparr>vs_stamp := stamp\<rparr>) } }"

section \<open>Queries\<close>

definition ocoms_mca_base_var_group_get_count :: "mca \<Rightarrow> int" where
  "ocoms_mca_base_var_group_get_count s = vs_gcount s"

definition ocoms_mca_base_var_group_get_stamp :: "mca \<Rightarrow> int" where
  "ocoms_mca_base_var_group_get_stamp s = vs_stamp s"

end
