(* ===== verification/Mca_Var.thy ===== *)
theory Mca_Var
  imports Mca_Group
begin

text \<open>
  The MCA variables of \<open>ocoms/mca/base/mca_base_var.c\<close>: registration, the search for the initial value
  in the override file, the environment and the parameter files, synonyms, reading and setting, and
  the environment made from the variables.
\<close>

section \<open>Finding variables\<close>

definition var_find_by_name :: "mca_ctx \<Rightarrow> mca \<Rightarrow> string \<Rightarrow> bool \<Rightarrow> (int \<times> int option \<times> mca) option" where
  "var_find_by_name c s full_name invalidok = do {
     (rc, tmp, ht) \<leftarrow> find_name c (vs_hash s) full_name;
     let s1 = s\<lparr>vs_hash := ht\<rparr>;
     if rc \<noteq> OCOMS_SUCCESS then Some (rc, None, s1)
     else do {
       i \<leftarrow> tmp;
       (_, p) \<leftarrow> var_get s1 i False;
       ok \<leftarrow> (if invalidok then Some True else map_option (\<lambda>v. VAR_IS_VALID v) (the_var s1 p));
       Some (if ok then (OCOMS_SUCCESS, Some i, s1) else (OCOMS_ERR_NOT_FOUND, None, s1)) } }"

definition var_find ::
  "mca_ctx \<Rightarrow> mca \<Rightarrow> string option \<Rightarrow> string option \<Rightarrow> string option \<Rightarrow> string option \<Rightarrow> bool \<Rightarrow> (int \<times> mca) option" where
  "var_find c s project_name framework_name component_name variable_name invalidok = do {
     (ret, full_name) \<leftarrow> ocoms_mca_base_var_generate_full_name4 c None framework_name component_name variable_name;
     if ret \<noteq> OCOMS_SUCCESS then Some (OCOMS_ERROR, s)
     else do {
       name \<leftarrow> full_name;
       (ret, index, s1) \<leftarrow> var_find_by_name c s name invalidok;
       if ret \<noteq> OCOMS_SUCCESS then Some (ret, s1) else do { i \<leftarrow> index; Some (i, s1) } } }"

definition ocoms_mca_base_var_find ::
  "mca_ctx \<Rightarrow> mca \<Rightarrow> string option \<Rightarrow> string option \<Rightarrow> string option \<Rightarrow> string option \<Rightarrow> (int \<times> mca) option" where
  "ocoms_mca_base_var_find c s project_name framework_name component_name variable_name =
     var_find c s project_name framework_name component_name variable_name False"

definition ocoms_mca_base_var_find_by_name :: "mca_ctx \<Rightarrow> mca \<Rightarrow> string \<Rightarrow> (int \<times> int option \<times> mca) option" where
  "ocoms_mca_base_var_find_by_name c s full_name = var_find_by_name c s full_name False"

section \<open>Values\<close>

definition has_type :: "ocoms_mca_base_var_type_t \<Rightarrow> ocoms_mca_base_var_storage_t \<Rightarrow> bool" where
  "has_type t v = (case v of
     Int_store w \<Rightarrow> t = MCA_BASE_VAR_TYPE_INT \<or> t = MCA_BASE_VAR_TYPE_UNSIGNED_INT
   | Long_store w \<Rightarrow> t \<in> {MCA_BASE_VAR_TYPE_UNSIGNED_LONG, MCA_BASE_VAR_TYPE_UNSIGNED_LONG_LONG, MCA_BASE_VAR_TYPE_SIZE_T}
   | Bool_store b \<Rightarrow> t = MCA_BASE_VAR_TYPE_BOOL
   | Double_store d \<Rightarrow> t = MCA_BASE_VAR_TYPE_DOUBLE
   | String_store x \<Rightarrow> t = MCA_BASE_VAR_TYPE_STRING)"

text \<open>
  What reading the \<open>int\<close> member of the union at an address gives: for a \<open>bool\<close>, its byte and the
  three that follow.
\<close>

definition read_int :: "24 word \<Rightarrow> ocoms_mca_base_var_storage_t \<Rightarrow> int option" where
  "read_int pad v = (case v of
     Int_store w \<Rightarrow> Some (sint w)
   | Bool_store b \<Rightarrow> Some (sint (push_bit 8 (ucast pad) OR of_bool b :: 32 word))
   | _ \<Rightarrow> None)"

text \<open>Converting a string into the storage of a variable; a string there is released first.\<close>

definition store_from_string :: "mca_ctx \<Rightarrow> mca \<Rightarrow> nat \<Rightarrow> string option \<Rightarrow> (int \<times> mca) option" where
  "store_from_string c s a src = do {
     v \<leftarrow> rdn (vs_heap s) a;
     addr \<leftarrow> mbv_storage v;
     dst \<leftarrow> vs_store s addr;
     assert_c (mbv_type v = MCA_BASE_VAR_TYPE_STRING \<longrightarrow> has_type MCA_BASE_VAR_TYPE_STRING dst);
     (ret, dst') \<leftarrow> var_set_from_string (vctx c s) (mbv_type v) (mbv_enumerator v) dst src;
     Some (ret, s\<lparr>vs_store := (vs_store s)(addr := Some dst')\<rparr>) }"

definition append_filename_to_list :: "mca_ctx \<Rightarrow> mca \<Rightarrow> string \<Rightarrow> (string option \<times> mca) option" where
  "append_filename_to_list c s filename = do {
     (_, files) \<leftarrow> ocoms_argv_append_unique_nosize (mc_mem c) (vs_file_list s) filename False;
     count \<leftarrow> ocoms_argv_count files;
     let s1 = s\<lparr>vs_file_list := files\<rparr>;
     Some (case files of None \<Rightarrow> None
           | Some cs \<Rightarrow> if Some filename \<in> set (take (nat count) cs) then Some filename else None, s1) }"

section \<open>The initial value\<close>

text \<open>
  The variable whose value is looked for: the original of a synonym, unless that has a value from a
  source at least as good, when the code returns success (\<open>Inl\<close>).
\<close>

definition target_of :: "mca \<Rightarrow> nat \<Rightarrow> ocoms_mca_base_var_source_t \<Rightarrow> (int + nat) option" where
  "target_of s a limit = do {
     v \<leftarrow> rdn (vs_heap s) a;
     if VAR_IS_SYNONYM v then do {
       (ret, p) \<leftarrow> var_get s (mbv_synonym_for v) True;
       if ret \<noteq> OCOMS_SUCCESS then Some (Inl OCOMS_ERROR)
       else do {
         b \<leftarrow> p;
         w \<leftarrow> rdn (vs_heap s) b;
         Some (if limit \<le> mbv_source w then Inl OCOMS_SUCCESS else Inr b) } }
     else Some (Inr a) }"

text \<open>
  The source of a value found in the environment, as the environment gives it: the file is entered
  in the list of files and compared with the override file.
\<close>

definition env_source :: "mca_ctx \<Rightarrow> mca \<Rightarrow> nat \<Rightarrow> string option \<Rightarrow> mca option" where
  "env_source c s b source_env = do {
     s1 \<leftarrow> upd_var b (\<lambda>v. v\<lparr>mbv_source := MCA_BASE_VAR_SOURCE_ENV\<rparr>) s;
     case source_env of None \<Rightarrow> Some s1
     | Some src \<Rightarrow>
         if strcase_prefix ''file:'' src then do {
           (f, s2) \<leftarrow> append_filename_to_list c s1 (drop 5 src);
           name \<leftarrow> f;
           ov \<leftarrow> vs_store s2 ADDR_OVERRIDE_FILE;
           over \<leftarrow> (case ov of String_store x \<Rightarrow> x | _ \<Rightarrow> None);
           upd_var b (\<lambda>v. v\<lparr>mbv_source_file := f,
             mbv_source := (if name = over then MCA_BASE_VAR_SOURCE_OVERRIDE else MCA_BASE_VAR_SOURCE_FILE)\<rparr>) s2 }
         else if strcaseeq src ''command'' then upd_var b (\<lambda>v. v\<lparr>mbv_source := MCA_BASE_VAR_SOURCE_COMMAND_LINE\<rparr>) s1
         else Some s1 }"

text \<open>
  The message about a deprecated variable set in the environment has a format for one argument more
  than it is given.
\<close>

definition var_set_from_env :: "mca_ctx \<Rightarrow> mca \<Rightarrow> nat \<Rightarrow> (int \<times> mca) option" where
  "var_set_from_env c s a = do {
     v0 \<leftarrow> rdn (vs_heap s) a;
     full_name \<leftarrow> mbv_full_name v0;
     t \<leftarrow> target_of s a MCA_BASE_VAR_SOURCE_ENV;
     case t of Inl ret \<Rightarrow> Some (ret, s)
     | Inr b \<Rightarrow> do {
         v \<leftarrow> rdn (vs_heap s) b;
         case (strdup (mc_mem c) (mca_prefix @ ''SOURCE_'' @ full_name), strdup (mc_mem c) (mca_prefix @ full_name)) of
           (Some source, Some value) \<Rightarrow>
             (case mc_getenv c value of
                None \<Rightarrow> Some (OCOMS_ERR_NOT_FOUND, s)
              | Some value_env \<Rightarrow>
                  if VAR_IS_DEFAULT_ONLY v then Some (OCOMS_ERR_NOT_FOUND, s)
                  else if mbv_source v = MCA_BASE_VAR_SOURCE_OVERRIDE then Some (OCOMS_ERR_NOT_FOUND, s)
                  else do {
                    s1 \<leftarrow> env_source c s b (mc_getenv c source);
                    v1 \<leftarrow> rdn (vs_heap s1) b;
                    assert_c (\<not> (VAR_IS_DEPRECATED v0 \<and> mbv_source v1 = MCA_BASE_VAR_SOURCE_ENV));
                    store_from_string c s1 b (Some value_env) })
         | _ \<Rightarrow> Some (OCOMS_ERROR, s) } }"

text \<open>The first entry of a list of file values that has one of two names.\<close>

fun find_file_value ::
  "string \<Rightarrow> string \<Rightarrow> ocoms_mca_base_var_file_value_t list \<Rightarrow> ocoms_mca_base_var_file_value_t option option" where
  "find_file_value full long [] = Some None"
| "find_file_value full long (fv # fvs) = do {
     name \<leftarrow> mbvfv_var fv;
     if name = full \<or> name = long then Some (Some fv) else find_file_value full long fvs }"

definition var_set_from_file ::
  "mca_ctx \<Rightarrow> mca \<Rightarrow> nat \<Rightarrow> ocoms_mca_base_var_file_value_t list \<Rightarrow> (int \<times> mca) option" where
  "var_set_from_file c s a file_values = do {
     v0 \<leftarrow> rdn (vs_heap s) a;
     full_name \<leftarrow> mbv_full_name v0;
     long_name \<leftarrow> mbv_long_name v0;
     t \<leftarrow> target_of s a MCA_BASE_VAR_SOURCE_FILE;
     case t of Inl ret \<Rightarrow> Some (ret, s)
     | Inr b \<Rightarrow> do {
         v \<leftarrow> rdn (vs_heap s) b;
         r \<leftarrow> find_file_value full_name long_name file_values;
         case r of None \<Rightarrow> Some (OCOMS_ERR_NOT_FOUND, s)
         | Some fv \<Rightarrow>
             if VAR_IS_DEFAULT_ONLY v then Some (OCOMS_ERR_NOT_FOUND, s)
             else if isset MCA_BASE_VAR_FLAG_ENVIRONMENT_ONLY (mbv_flags v) then Some (OCOMS_ERR_NOT_FOUND, s)
             else if mbv_source v = MCA_BASE_VAR_SOURCE_OVERRIDE then Some (OCOMS_ERR_NOT_FOUND, s)
             else do {
               s1 \<leftarrow> upd_var b (\<lambda>v. v\<lparr>mbv_source_file := (if mbvfv_file fv \<noteq> None then mbvfv_file fv else mbv_source_file v),
                                      mbv_source := MCA_BASE_VAR_SOURCE_FILE\<rparr>) s;
               store_from_string c s1 b (mbvfv_value fv) } } }"

definition var_set_initial :: "mca_ctx \<Rightarrow> mca \<Rightarrow> nat \<Rightarrow> (int \<times> mca) option" where
  "var_set_initial c s a = do {
     s1 \<leftarrow> upd_var a (\<lambda>v. v\<lparr>mbv_source := MCA_BASE_VAR_SOURCE_DEFAULT\<rparr>) s;
     (ret, s2) \<leftarrow> var_set_from_file c s1 a (vs_override_values s1);
     s3 \<leftarrow> (if ret = OCOMS_SUCCESS
            then upd_var a (\<lambda>v. v\<lparr>mbv_flags := NOT MCA_BASE_VAR_FLAG_SETTABLE AND (mbv_flags v OR MCA_BASE_VAR_FLAG_OVERRIDE),
                                  mbv_source := MCA_BASE_VAR_SOURCE_OVERRIDE\<rparr>) s2
            else Some s2);
     (ret, s4) \<leftarrow> var_set_from_env c s3 a;
     if ret \<noteq> OCOMS_ERR_NOT_FOUND then Some (ret, s4)
     else do {
       (ret, s5) \<leftarrow> var_set_from_file c s4 a (vs_file_values s4);
       if ret \<noteq> OCOMS_ERR_NOT_FOUND then Some (ret, s5) else Some (OCOMS_SUCCESS, s5) } }"

section \<open>Registration\<close>

text \<open>The arguments of a registration.\<close>

record var_spec =
  vr_project :: "string option"
  vr_framework :: "string option"
  vr_component :: "string option"
  vr_name :: "string option"
  vr_description :: "string option"
  vr_type :: ocoms_mca_base_var_type_t
  vr_enumerator :: "ocoms_mca_base_var_enum_t option"
  vr_bind :: int
  vr_flags :: flags
  vr_info_lvl :: int
  vr_scope :: int
  vr_synonym_for :: int
  vr_storage :: "nat option"

definition MCA_BASE_VAR_SCOPE_LOCAL :: int where "MCA_BASE_VAR_SCOPE_LOCAL = 2"

text \<open>
  The object of a new variable.  Read-only, constant and default-only variables cannot be set.
\<close>

definition not_settable :: "var_spec \<Rightarrow> bool" where
  "not_settable r \<longleftrightarrow> vr_scope r < MCA_BASE_VAR_SCOPE_LOCAL \<or> isset MCA_BASE_VAR_FLAG_DEFAULT_ONLY (vr_flags r)"

definition variable_object ::
  "mca_ctx \<Rightarrow> var_spec \<Rightarrow> int \<Rightarrow> string option \<Rightarrow> string option \<Rightarrow> string option \<Rightarrow> int \<Rightarrow> ocoms_mca_base_var_t" where
  "variable_object c r group_index name full_name long_name var_index = var_constructor\<lparr>mbv_type := vr_type r,
     mbv_flags := (if not_settable r then vr_flags r AND NOT MCA_BASE_VAR_FLAG_SETTABLE else vr_flags r),
     mbv_group_index := group_index, mbv_info_lvl := vr_info_lvl r, mbv_scope := vr_scope r,
     mbv_synonym_for := vr_synonym_for r, mbv_bind := vr_bind r,
     mbv_description := strdup_opt (mc_mem c) (vr_description r), mbv_variable_name := name,
     mbv_full_name := full_name, mbv_long_name := long_name, mbv_index := var_index\<rparr>"

text \<open>A new variable: its index and address, or the code of the error (\<open>Inl\<close>).\<close>

definition new_variable :: "mca_ctx \<Rightarrow> mca \<Rightarrow> var_spec \<Rightarrow> ((int + int \<times> nat) \<times> mca) option" where
  "new_variable c s r = do {
     (group_index, s1) \<leftarrow> ocoms_mca_base_var_group_register c s None (vr_framework r) (vr_component r) None;
     if group_index < - 1 then Some (Inl group_index, s1)
     else do {
       if not_settable r \<and> isset MCA_BASE_VAR_FLAG_DEFAULT_ONLY (vr_flags r) \<and> isset MCA_BASE_VAR_FLAG_SETTABLE (vr_flags r)
       then Some (Inl OCOMS_ERROR, s1)
       else do {
         assert_c (mc_obj_new c);
         let name = strdup_opt (mc_mem c) (vr_name r);
         if vr_name r \<noteq> None \<and> name = None then Some (Inl OCOMS_ERR_OUT_OF_RESOURCE, s1)
         else do {
           (ret, full_name) \<leftarrow> ocoms_mca_base_var_generate_full_name4 c None None None (vr_name r);
           if ret \<noteq> OCOMS_SUCCESS then Some (Inl OCOMS_ERROR, s1)
           else do {
             (ret, long_name) \<leftarrow> ocoms_mca_base_var_generate_full_name4 c None (vr_framework r) (vr_component r) (vr_name r);
             if ret \<noteq> OCOMS_SUCCESS then Some (Inl OCOMS_ERROR, s1)
             else do {
               let address = length (vs_heap s1);
               (var_index, vars) \<leftarrow> ocoms_pointer_array_add (mc_cells c) (vs_vars s1) (Some address);
               if var_index < 0 then Some (Inl OCOMS_ERROR, s1\<lparr>vs_vars := vars\<rparr>)
               else do {
                 let s2 = s1\<lparr>vs_vars := vars,
                   vs_heap := vs_heap s1 @ [variable_object c r group_index name full_name long_name var_index]\<rparr>;
                 s3 \<leftarrow> (if 0 \<le> group_index
                        then map_option snd (ocoms_mca_base_var_group_add_var s2 group_index var_index) else Some s2);
                 count \<leftarrow> chk (vs_count s3 + 1);
                 key \<leftarrow> full_name;
                 (_, ht) \<leftarrow> set_name c (vs_hash s3) key var_index;
                 Some (Inr (var_index, address), s3\<lparr>vs_count := count, vs_hash := ht\<rparr>) } } } } } } }"

text \<open>A variable that is there already, valid or not: its group must exist and its type is kept.\<close>

definition old_variable :: "mca \<Rightarrow> int \<Rightarrow> var_spec \<Rightarrow> (int + int \<times> nat) option" where
  "old_variable s var_index r = do {
     (ret, p) \<leftarrow> var_get s var_index False;
     if ret \<noteq> OCOMS_SUCCESS then Some (Inl OCOMS_ERROR)
     else do {
       a \<leftarrow> p;
       v \<leftarrow> rdn (vs_heap s) a;
       (ret, _) \<leftarrow> ocoms_mca_base_var_group_get_internal s (mbv_group_index v) True;
       if ret \<noteq> OCOMS_SUCCESS then Some (Inl OCOMS_ERROR)
       else if mbv_type v \<noteq> vr_type r then Some (Inl OCOMS_ERR_VALUE_OUT_OF_BOUNDS)
       else Some (Inr (var_index, a)) } }"

text \<open>Attaching the storage, whose string is copied, or entering a synonym at its original.\<close>

definition attach_storage :: "mca_ctx \<Rightarrow> mca \<Rightarrow> int \<Rightarrow> nat \<Rightarrow> var_spec \<Rightarrow> mca option" where
  "attach_storage c s var_index a r =
     (if isset MCA_BASE_VAR_FLAG_SYNONYM (vr_flags r) then do {
        p \<leftarrow> ocoms_pointer_array_get_item (vs_vars s) (vr_synonym_for r);
        ao \<leftarrow> p;
        orig \<leftarrow> rdn (vs_heap s) ao;
        syns \<leftarrow> va_append var_index (mbv_synonyms orig);
        upd_var ao (\<lambda>v. v\<lparr>mbv_synonyms := syns\<rparr>) s }
      else do {
        s1 \<leftarrow> upd_var a (\<lambda>v. v\<lparr>mbv_storage := vr_storage r\<rparr>) s;
        if vr_type r = MCA_BASE_VAR_TYPE_STRING then do {
          addr \<leftarrow> vr_storage r;
          st \<leftarrow> vs_store s1 addr;
          (case st of
             String_store x \<Rightarrow> Some (s1\<lparr>vs_store := (vs_store s1)(addr := Some (String_store (strdup_opt (mc_mem c) x)))\<rparr>)
           | _ \<Rightarrow> None) }
        else Some s1 })"

text \<open>\<open>init\<close> is the initialisation of the system, which runs first when it has not been done.\<close>

definition register_variable :: "(mca \<Rightarrow> (int \<times> mca) option) \<Rightarrow> mca_ctx \<Rightarrow> mca \<Rightarrow> var_spec \<Rightarrow> (int \<times> mca) option" where
  "register_variable init c s0 r = do {
     assert_c ((isset MCA_BASE_VAR_FLAG_SYNONYM (vr_flags r) \<or> vr_storage r \<noteq> None) \<and> vr_type r \<noteq> MCA_BASE_VAR_TYPE_MAX);
     s \<leftarrow> (if vs_ready s0 then Some s0 else map_option snd (init s0));
     (found, s1) \<leftarrow> var_find c s None None None (vr_name r) True;
     (res, s2) \<leftarrow> (if found < 0 then new_variable c s1 r else map_option (\<lambda>x. (x, s1)) (old_variable s1 found r));
     case res of Inl ret \<Rightarrow> Some (ret, s2)
     | Inr (var_index, a) \<Rightarrow> do {
         v \<leftarrow> rdn (vs_heap s2) a;
         let enumerator = (if mbv_type v = MCA_BASE_VAR_TYPE_BOOL then Some Enum_bool else vr_enumerator r);
         s3 \<leftarrow> upd_var a (\<lambda>v. v\<lparr>mbv_enumerator := enumerator\<rparr>) s2;
         s4 \<leftarrow> attach_storage c s3 var_index a r;
         (ret, s5) \<leftarrow> var_set_initial c s4 a;
         if ret \<noteq> OCOMS_SUCCESS then Some (ret, s5)
         else do {
           s6 \<leftarrow> upd_var a (\<lambda>v. v\<lparr>mbv_flags := mbv_flags v OR MCA_BASE_VAR_FLAG_VALID\<rparr>) s5;
           Some (var_index, s6) } } }"

definition ocoms_mca_base_var_register ::
  "(mca \<Rightarrow> (int \<times> mca) option) \<Rightarrow> mca_ctx \<Rightarrow> mca \<Rightarrow> var_spec \<Rightarrow> (int \<times> mca) option" where
  "ocoms_mca_base_var_register init c s r = do {
     assert_c (vr_enumerator r = None \<or> vr_type r = MCA_BASE_VAR_TYPE_INT);
     register_variable init c s (r\<lparr>vr_synonym_for := - 1\<rparr>) }"

definition ocoms_mca_base_component_var_register ::
  "(mca \<Rightarrow> (int \<times> mca) option) \<Rightarrow> mca_ctx \<Rightarrow> mca \<Rightarrow> ocoms_mca_base_component_t \<Rightarrow> var_spec \<Rightarrow> (int \<times> mca) option" where
  "ocoms_mca_base_component_var_register init c s component r =
     ocoms_mca_base_var_register init c s (r\<lparr>vr_project := None, vr_framework := Some (mca_type_name component),
       vr_component := Some (mca_component_name component), vr_flags := vr_flags r OR MCA_BASE_VAR_FLAG_DWG\<rparr>)"

record ocoms_mca_base_framework_t =
  fw_project :: string
  fw_name :: string

definition ocoms_mca_base_framework_var_register ::
  "(mca \<Rightarrow> (int \<times> mca) option) \<Rightarrow> mca_ctx \<Rightarrow> mca \<Rightarrow> ocoms_mca_base_framework_t \<Rightarrow> var_spec \<Rightarrow> (int \<times> mca) option" where
  "ocoms_mca_base_framework_var_register init c s framework r =
     ocoms_mca_base_var_register init c s (r\<lparr>vr_project := Some (fw_project framework),
       vr_framework := Some (fw_name framework), vr_component := Some ''base'',
       vr_flags := vr_flags r OR MCA_BASE_VAR_FLAG_DWG\<rparr>)"

text \<open>A synonym is registered with the properties of its original.\<close>

definition synonym_spec ::
  "ocoms_mca_base_var_t \<Rightarrow> int \<Rightarrow> string option \<Rightarrow> string option \<Rightarrow> string option \<Rightarrow> string option \<Rightarrow> flags \<Rightarrow> var_spec" where
  "synonym_spec v synonym_for project_name framework_name component_name synonym_name flags =
     \<lparr>vr_project = project_name, vr_framework = framework_name,
      vr_component = component_name, vr_name = synonym_name, vr_description = mbv_description v,
      vr_type = mbv_type v, vr_enumerator = mbv_enumerator v, vr_bind = mbv_bind v,
      vr_flags = MCA_BASE_VAR_FLAG_SYNONYM
        OR (if isset MCA_BASE_VAR_SYN_FLAG_DEPRECATED flags then MCA_BASE_VAR_FLAG_DEPRECATED else 0)
        OR (if isset MCA_BASE_VAR_SYN_FLAG_INTERNAL flags then MCA_BASE_VAR_FLAG_INTERNAL else 0),
      vr_info_lvl = mbv_info_lvl v, vr_scope = mbv_scope v, vr_synonym_for = synonym_for, vr_storage = None\<rparr>"

definition ocoms_mca_base_var_register_synonym ::
  "(mca \<Rightarrow> (int \<times> mca) option) \<Rightarrow> mca_ctx \<Rightarrow> mca \<Rightarrow> int \<Rightarrow> string option \<Rightarrow> string option \<Rightarrow> string option \<Rightarrow>
   string option \<Rightarrow> flags \<Rightarrow> (int \<times> mca) option" where
  "ocoms_mca_base_var_register_synonym init c s synonym_for project_name framework_name component_name synonym_name flags = do {
     (ret, p) \<leftarrow> var_get s synonym_for False;
     if ret \<noteq> OCOMS_SUCCESS then Some (OCOMS_ERR_BAD_PARAM, s)
     else do {
       v \<leftarrow> the_var s p;
       if VAR_IS_SYNONYM v then Some (OCOMS_ERR_BAD_PARAM, s)
       else register_variable init c s
         (synonym_spec v synonym_for project_name framework_name component_name synonym_name flags) } }"

end
