(* ===== verification/Mca_Var_Ops.thy ===== *)
theory Mca_Var_Ops
  imports Mca_Var
begin

text \<open>
  What is done with registered MCA variables (\<open>ocoms/mca/base/mca_base_var.c\<close>): reading and setting
  values, the environment strings for child processes, the check for exclusive variables, and the
  descriptions for users.
\<close>

section \<open>Reading and setting\<close>

text \<open>The storage, the source and the file of the source, when the code is success.\<close>

definition ocoms_mca_base_var_get_value ::
  "mca \<Rightarrow> int \<Rightarrow> (int \<times> (nat option \<times> ocoms_mca_base_var_source_t \<times> string option) option) option" where
  "ocoms_mca_base_var_get_value s index = do {
     (ret, p) \<leftarrow> var_get s index True;
     if ret \<noteq> OCOMS_SUCCESS then Some (ret, None)
     else do {
       v \<leftarrow> the_var s p;
       Some (if \<not> VAR_IS_VALID v then (OCOMS_ERR_BAD_PARAM, None)
             else (OCOMS_SUCCESS, Some (mbv_storage v, mbv_source v, mbv_source_file v))) } }"

text \<open>
  The value is what the caller's pointer points to; for a string it is the pointer itself.  The
  enumerator of a \<open>bool\<close> accepts every number, so what it reads behind the caller's \<open>bool\<close> does not
  matter.
\<close>

definition value_valid :: "ocoms_mca_base_var_enum_t option \<Rightarrow> ocoms_mca_base_var_storage_t \<Rightarrow> int option" where
  "value_valid enumerator value = (case enumerator of
     None \<Rightarrow> Some OCOMS_SUCCESS
   | Some e \<Rightarrow> do { i \<leftarrow> read_int 0 value; Some (fst (enum_string_from_value e i)) })"

definition ocoms_mca_base_var_set_value ::
  "mca_ctx \<Rightarrow> mca \<Rightarrow> int \<Rightarrow> ocoms_mca_base_var_storage_t \<Rightarrow> ocoms_mca_base_var_source_t \<Rightarrow> string option \<Rightarrow> (int \<times> mca) option" where
  "ocoms_mca_base_var_set_value c s index value source source_file = do {
     (ret, p) \<leftarrow> var_get s index True;
     if ret \<noteq> OCOMS_SUCCESS then Some (ret, s)
     else do {
       a \<leftarrow> p;
       v \<leftarrow> rdn (vs_heap s) a;
       if \<not> VAR_IS_VALID v then Some (OCOMS_ERR_BAD_PARAM, s)
       else if \<not> VAR_IS_SETTABLE v then Some (OCOMS_ERR_PERM, s)
       else do {
         ret \<leftarrow> value_valid (mbv_enumerator v) value;
         if ret \<noteq> OCOMS_SUCCESS then Some (ret, s)
         else do {
           addr \<leftarrow> mbv_storage v;
           old \<leftarrow> vs_store s addr;
           assert_c (has_type (mbv_type v) value \<and> has_type (mbv_type v) old);
           new \<leftarrow> (case value of
              String_store x \<Rightarrow> map_option (\<lambda>r. String_store (snd r)) (var_set_string (vctx c s) x)
            | _ \<Rightarrow> Some value);
           s1 \<leftarrow> upd_var a (\<lambda>v. v\<lparr>mbv_source := source\<rparr>) (s\<lparr>vs_store := (vs_store s)(addr := Some new)\<rparr>);
           case source_file of
             Some f \<Rightarrow>
               if source = MCA_BASE_VAR_SOURCE_FILE then do {
                 (file, s2) \<leftarrow> append_filename_to_list c s1 f;
                 s3 \<leftarrow> upd_var a (\<lambda>v. v\<lparr>mbv_source_file := file\<rparr>) s2;
                 Some (OCOMS_SUCCESS, s3) }
               else Some (OCOMS_SUCCESS, s1)
           | None \<Rightarrow> Some (OCOMS_SUCCESS, s1) } } } }"

section \<open>Showing values\<close>

text \<open>
  The value of a variable, of its original if it is a synonym.  When the enumerator does not know
  the value, the string that is copied was never set.
\<close>

definition var_value_string :: "mca_ctx \<Rightarrow> mca \<Rightarrow> nat \<Rightarrow> (int \<times> string option) option" where
  "var_value_string c s a = do {
     v \<leftarrow> rdn (vs_heap s) a;
     assert_c (mbv_type v \<noteq> MCA_BASE_VAR_TYPE_MAX);
     (ret, r) \<leftarrow> ocoms_mca_base_var_get_value s (mbv_index v);
     if ret \<noteq> OCOMS_SUCCESS then Some (ret, None)
     else do {
       (p, _) \<leftarrow> r;
       addr \<leftarrow> p;
       value \<leftarrow> vs_store s addr;
       case mbv_enumerator v of
         None \<Rightarrow> do {
           str \<leftarrow> show_value (vctx c s) (mbv_type v) value;
           Some (case strdup (mc_mem c) str of None \<Rightarrow> (OCOMS_ERR_OUT_OF_RESOURCE, None) | Some x \<Rightarrow> (OCOMS_SUCCESS, Some x)) }
       | Some e \<Rightarrow> do {
           i \<leftarrow> read_int (mc_pad c addr) value;
           let (ret, tmp) = enum_string_from_value e i;
           str \<leftarrow> tmp;
           Some (ret, strdup (mc_mem c) str) } } }"

definition var_source_names :: "ocoms_mca_base_var_source_t \<Rightarrow> string" where
  "var_source_names x = (case x of
     MCA_BASE_VAR_SOURCE_DEFAULT \<Rightarrow> ''default'' | MCA_BASE_VAR_SOURCE_COMMAND_LINE \<Rightarrow> ''command line''
   | MCA_BASE_VAR_SOURCE_ENV \<Rightarrow> ''environment'' | MCA_BASE_VAR_SOURCE_FILE \<Rightarrow> ''file''
   | MCA_BASE_VAR_SOURCE_SET \<Rightarrow> ''set'' | MCA_BASE_VAR_SOURCE_OVERRIDE \<Rightarrow> ''override''
   | MCA_BASE_VAR_SOURCE_MAX \<Rightarrow> '''')"

definition source_name :: "mca_ctx \<Rightarrow> ocoms_mca_base_var_t \<Rightarrow> string option option" where
  "source_name c v =
     (if mbv_source v = MCA_BASE_VAR_SOURCE_FILE \<or> mbv_source v = MCA_BASE_VAR_SOURCE_OVERRIDE then do {
        f \<leftarrow> mbv_source_file v;
        Some (strdup (mc_mem c) (''file ('' @ f @ '')'')) }
      else if MCA_BASE_VAR_SOURCE_MAX \<le> mbv_source v then Some (strdup (mc_mem c) ''unknown(!!)'')
      else Some (strdup (mc_mem c) (var_source_names (mbv_source v))))"

section \<open>The environment of child processes\<close>

text \<open>
  The string that says where a value comes from, if there is one; \<open>None\<close> inside is the jump to the
  error exit.
\<close>

definition source_entry :: "mca_ctx \<Rightarrow> ocoms_mca_base_var_t \<Rightarrow> string \<Rightarrow> string option option option" where
  "source_entry c v full_name =
     (if mbv_source v = MCA_BASE_VAR_SOURCE_FILE \<or> mbv_source v = MCA_BASE_VAR_SOURCE_OVERRIDE then do {
        f \<leftarrow> mbv_source_file v;
        Some (Some (strdup (mc_mem c) (mca_prefix @ ''SOURCE_'' @ full_name @ ''=FILE:'' @ f))) }
      else if mbv_source v = MCA_BASE_VAR_SOURCE_COMMAND_LINE then
        Some (Some (strdup (mc_mem c) (mca_prefix @ ''SOURCE_'' @ full_name @ ''=COMMAND_LINE'')))
      else if mbv_source v = MCA_BASE_VAR_SOURCE_MAX then Some None
      else Some (Some None))"

text \<open>One turn of the loop: the count and the vector, or nothing when it jumps to the error exit.\<close>

definition build_env_step ::
  "mca_ctx \<Rightarrow> mca \<Rightarrow> bool \<Rightarrow> int \<Rightarrow> int \<times> cells option \<Rightarrow> (bool \<times> int \<times> cells option) option" where
  "build_env_step c s internal i env = do {
     p \<leftarrow> ocoms_pointer_array_get_item (vs_vars s) i;
     case p of None \<Rightarrow> Some (True, env)
     | Some a \<Rightarrow> do {
         v \<leftarrow> rdn (vs_heap s) a;
         if mbv_source v = MCA_BASE_VAR_SOURCE_DEFAULT \<or> (\<not> internal \<and> VAR_IS_INTERNAL v) then Some (True, env)
         else do {
           null_string \<leftarrow> (if mbv_type v = MCA_BASE_VAR_TYPE_STRING then do {
                addr \<leftarrow> mbv_storage v;
                st \<leftarrow> vs_store s addr;
                (case st of String_store x \<Rightarrow> Some (x = None) | _ \<Rightarrow> None) } else Some False);
           if null_string then Some (True, env)
           else do {
             (ret, vs) \<leftarrow> var_value_string c s a;
             if ret \<noteq> OCOMS_SUCCESS then Some (False, env)
             else do {
               value \<leftarrow> vs;
               full_name \<leftarrow> mbv_full_name v;
               case strdup (mc_mem c) (mca_prefix @ full_name @ ''='' @ value) of
                 None \<Rightarrow> Some (False, env)
               | Some str \<Rightarrow> do {
                   (_, env1) \<leftarrow> ocoms_argv_append (mc_mem c) (fst env) (snd env) str;
                   se \<leftarrow> source_entry c v full_name;
                   case se of None \<Rightarrow> Some (False, env1)
                   | Some None \<Rightarrow> Some (True, env1)
                   | Some (Some str2) \<Rightarrow> do {
                       (_, env2) \<leftarrow> ocoms_argv_append (mc_mem c) (fst env1) (snd env1) str2;
                       Some (True, env2) } } } } } } }"

fun build_env_loop ::
  "mca_ctx \<Rightarrow> mca \<Rightarrow> bool \<Rightarrow> nat list \<Rightarrow> int \<times> cells option \<Rightarrow> (int \<times> int \<times> cells option) option" where
  "build_env_loop c s internal [] env = Some (OCOMS_SUCCESS, env)"
| "build_env_loop c s internal (i # is) env = do {
     (ok, env') \<leftarrow> build_env_step c s internal (int i) env;
     if ok then build_env_loop c s internal is env'
     else Some (OCOMS_ERR_NOT_FOUND, if 0 < fst env' then (0, None) else env') }"

definition ocoms_mca_base_var_build_env ::
  "mca_ctx \<Rightarrow> mca \<Rightarrow> cells option \<Rightarrow> int \<Rightarrow> bool \<Rightarrow> (int \<times> int \<times> cells option) option" where
  "ocoms_mca_base_var_build_env c s env num_env internal =
     (if \<not> vs_ready s then Some (OCOMS_ERROR, num_env, env)
      else build_env_loop c s internal [0..<nat (ocoms_pointer_array_get_size (vs_vars s))] (num_env, env))"

section \<open>Checks and queries\<close>

definition ocoms_mca_base_var_check_exclusive ::
  "mca_ctx \<Rightarrow> mca \<Rightarrow> string option \<Rightarrow> string option \<Rightarrow> string option \<Rightarrow> string option \<Rightarrow>
   string option \<Rightarrow> string option \<Rightarrow> string option \<Rightarrow> (int \<times> mca) option" where
  "ocoms_mca_base_var_check_exclusive c s project type_a component_a param_a type_b component_b param_b = do {
     (ai, s1) \<leftarrow> ocoms_mca_base_var_find c s None type_a component_a param_a;
     if ai < 0 then Some (OCOMS_ERR_NOT_FOUND, s1)
     else do {
       (bi, s2) \<leftarrow> ocoms_mca_base_var_find c s1 None type_b component_b param_b;
       if bi < 0 then Some (OCOMS_ERR_NOT_FOUND, s2)
       else do {
         (_, pa) \<leftarrow> var_get s2 ai True;
         (_, pb) \<leftarrow> var_get s2 bi True;
         va \<leftarrow> the_var s2 pa;
         vb \<leftarrow> the_var s2 pb;
         if mbv_source va \<noteq> MCA_BASE_VAR_SOURCE_DEFAULT \<and> mbv_source vb \<noteq> MCA_BASE_VAR_SOURCE_DEFAULT then do {
           _ \<leftarrow> source_name c va;
           _ \<leftarrow> source_name c vb;
           Some (OCOMS_ERR_BAD_PARAM, s2) }
         else Some (OCOMS_SUCCESS, s2) } } }"

definition ocoms_mca_base_var_get_count :: "mca \<Rightarrow> int" where
  "ocoms_mca_base_var_get_count s = vs_count s"

end
