(* ===== verification/Mca_Initial.thy ===== *)
theory Mca_Initial
  imports Mca_Var_Ops
begin

text \<open>
  Where the initial value of an MCA variable comes from: the flags as bits, the objects, and the search
  of \<open>var_set_initial\<close> in \<open>ocoms/mca/base/mca_base_var.c\<close> described by the list of the offers that the
  override file, the environment and the parameter files make.
\<close>

section \<open>Flags\<close>

lemma flag_powers:
  "MCA_BASE_VAR_FLAG_INTERNAL = 2 ^ 0" "MCA_BASE_VAR_FLAG_DEFAULT_ONLY = 2 ^ 1" "MCA_BASE_VAR_FLAG_SETTABLE = 2 ^ 2"
  "MCA_BASE_VAR_FLAG_DEPRECATED = 2 ^ 3" "MCA_BASE_VAR_FLAG_OVERRIDE = 2 ^ 4" "MCA_BASE_VAR_FLAG_ENVIRONMENT_ONLY = 2 ^ 5"
  "MCA_BASE_VAR_FLAG_DWG = 2 ^ 6" "MCA_BASE_VAR_FLAG_VALID = 2 ^ 16" "MCA_BASE_VAR_FLAG_SYNONYM = 2 ^ 17"
  "MCA_BASE_PVAR_FLAG_IWG = 2 ^ 6" "MCA_BASE_PVAR_FLAG_READONLY = 2 ^ 7" "MCA_BASE_PVAR_FLAG_CONTINUOUS = 2 ^ 8"
  "MCA_BASE_PVAR_FLAG_INVALID = 2 ^ 10"
  by (simp_all add: var_flag_defs MCA_BASE_PVAR_FLAG_IWG_def MCA_BASE_PVAR_FLAG_READONLY_def
      MCA_BASE_PVAR_FLAG_CONTINUOUS_def MCA_BASE_PVAR_FLAG_INVALID_def)

lemma isset_power: "isset (2 ^ k) w \<longleftrightarrow> bit w k"
  by (simp add: isset_def and_exp_eq_0_iff_not_bit)

text \<open>Each flag is a bit of the word.\<close>

lemma isset_flag_bits:
  "isset MCA_BASE_VAR_FLAG_INTERNAL w \<longleftrightarrow> bit w 0" "isset MCA_BASE_VAR_FLAG_DEFAULT_ONLY w \<longleftrightarrow> bit w 1"
  "isset MCA_BASE_VAR_FLAG_SETTABLE w \<longleftrightarrow> bit w 2" "isset MCA_BASE_VAR_FLAG_DEPRECATED w \<longleftrightarrow> bit w 3"
  "isset MCA_BASE_VAR_FLAG_OVERRIDE w \<longleftrightarrow> bit w 4" "isset MCA_BASE_VAR_FLAG_ENVIRONMENT_ONLY w \<longleftrightarrow> bit w 5"
  "isset MCA_BASE_VAR_FLAG_DWG w \<longleftrightarrow> bit w 6" "isset MCA_BASE_VAR_FLAG_VALID w \<longleftrightarrow> bit w 16"
  "isset MCA_BASE_VAR_FLAG_SYNONYM w \<longleftrightarrow> bit w 17"
  "isset MCA_BASE_PVAR_FLAG_IWG w \<longleftrightarrow> bit w 6" "isset MCA_BASE_PVAR_FLAG_READONLY w \<longleftrightarrow> bit w 7"
  "isset MCA_BASE_PVAR_FLAG_CONTINUOUS w \<longleftrightarrow> bit w 8" "isset MCA_BASE_PVAR_FLAG_INVALID w \<longleftrightarrow> bit w 10"
  by (simp_all only: flag_powers isset_power)

lemma bit_flags:
  "bit MCA_BASE_VAR_FLAG_INTERNAL n \<longleftrightarrow> n = 0" "bit MCA_BASE_VAR_FLAG_DEFAULT_ONLY n \<longleftrightarrow> n = 1"
  "bit MCA_BASE_VAR_FLAG_SETTABLE n \<longleftrightarrow> n = 2" "bit MCA_BASE_VAR_FLAG_DEPRECATED n \<longleftrightarrow> n = 3"
  "bit MCA_BASE_VAR_FLAG_OVERRIDE n \<longleftrightarrow> n = 4" "bit MCA_BASE_VAR_FLAG_ENVIRONMENT_ONLY n \<longleftrightarrow> n = 5"
  "bit MCA_BASE_VAR_FLAG_DWG n \<longleftrightarrow> n = 6" "bit MCA_BASE_VAR_FLAG_VALID n \<longleftrightarrow> n = 16"
  "bit MCA_BASE_VAR_FLAG_SYNONYM n \<longleftrightarrow> n = 17" "bit MCA_BASE_PVAR_FLAG_INVALID n \<longleftrightarrow> n = 10"
  unfolding flag_powers bit_exp_iff by auto

lemmas flag_simps = isset_flag_bits bit_flags bit_and_iff bit_or_iff bit_not_iff

section \<open>Objects\<close>

lemma the_var_Some [simp]: "a < length (vs_heap s) \<Longrightarrow> the_var s (Some a) = Some (vs_heap s ! a)"
  by (simp add: the_var_def)

lemma upd_var_Some [simp]:
  "a < length (vs_heap s) \<Longrightarrow> upd_var a f s = Some (s\<lparr>vs_heap := (vs_heap s)[a := f (vs_heap s ! a)]\<rparr>)"
  by (simp add: upd_var_def)

lemma upd_group_Some [simp]:
  "a < length (vs_gheap s) \<Longrightarrow> upd_group a f s = Some (s\<lparr>vs_gheap := (vs_gheap s)[a := f (vs_gheap s ! a)]\<rparr>)"
  by (simp add: upd_group_def)

lemma upd_pvar_Some [simp]:
  "a < length (vs_pheap s) \<Longrightarrow> upd_pvar a f s = Some (s\<lparr>vs_pheap := (vs_pheap s)[a := f (vs_pheap s ! a)]\<rparr>)"
  by (simp add: upd_pvar_def)

lemma vctx_simps [simp]:
  "vctx c (s\<lparr>vs_heap := h\<rparr>) = vctx c s" "vctx c (s\<lparr>vs_store := m\<rparr>) = vctx c s" "vctx c (s\<lparr>vs_hash := ht\<rparr>) = vctx c s"
  "vctx c (s\<lparr>vs_file_list := l\<rparr>) = vctx c s" "vc_mem (vctx c s) = mc_mem c"
  by (simp_all add: vctx_def)

section \<open>The initial value\<close>

lemma target_plain: "a < length (vs_heap s) \<Longrightarrow> \<not> VAR_IS_SYNONYM (vs_heap s ! a) \<Longrightarrow> target_of s a limit = Some (Inr a)"
  by (simp add: target_of_def)

lemma find_file_value_find:
  "\<forall>fv \<in> set fvs. mbvfv_var fv \<noteq> None \<Longrightarrow>
   find_file_value full long fvs = Some (find (\<lambda>fv. mbvfv_var fv = Some full \<or> mbvfv_var fv = Some long) fvs)"
  by (induction fvs) auto

lemma store_from_string_plain:
  assumes "a < length (vs_heap s)" and "mbv_storage (vs_heap s ! a) = Some addr" and "vs_store s addr = Some d"
    and "has_type (mbv_type (vs_heap s ! a)) d"
    and "var_set_from_string (vctx c s) (mbv_type (vs_heap s ! a)) (mbv_enumerator (vs_heap s ! a)) d x = Some (ret, d')"
  shows "store_from_string c s a x = Some (ret, s\<lparr>vs_store := (vs_store s)(addr := Some d')\<rparr>)"
  using assms by (cases "mbv_type (vs_heap s ! a) = MCA_BASE_VAR_TYPE_STRING") (simp_all add: store_from_string_def)

text \<open>
  What the sources offer for a variable, best first.  A variable that is default-only takes nothing,
  and one that is environment-only nothing from files.
\<close>

definition file_offer :: "ocoms_mca_base_var_t \<Rightarrow> ocoms_mca_base_var_file_value_t list \<Rightarrow> string option list" where
  "file_offer v fvs = (if isset MCA_BASE_VAR_FLAG_ENVIRONMENT_ONLY (mbv_flags v) then []
     else case find (\<lambda>fv. mbvfv_var fv = mbv_full_name v \<or> mbvfv_var fv = mbv_long_name v) fvs of
       None \<Rightarrow> [] | Some fv \<Rightarrow> [mbvfv_value fv])"

definition env_offer :: "mca_ctx \<Rightarrow> ocoms_mca_base_var_t \<Rightarrow> string option list" where
  "env_offer c v = (case mbv_full_name v of None \<Rightarrow> []
     | Some n \<Rightarrow> (case mc_getenv c (mca_prefix @ n) of None \<Rightarrow> [] | Some x \<Rightarrow> [Some x]))"

definition offers :: "mca_ctx \<Rightarrow> mca \<Rightarrow> ocoms_mca_base_var_t \<Rightarrow> (ocoms_mca_base_var_source_t \<times> string option) list" where
  "offers c s v = (if VAR_IS_DEFAULT_ONLY v then []
     else map (Pair MCA_BASE_VAR_SOURCE_OVERRIDE) (file_offer v (vs_override_values s)) @
          map (Pair MCA_BASE_VAR_SOURCE_ENV) (env_offer c v) @
          map (Pair MCA_BASE_VAR_SOURCE_FILE) (file_offer v (vs_file_values s)))"

text \<open>A variable that is no synonym and not deprecated, with a value of its type in its storage.\<close>

definition plain_var :: "mca \<Rightarrow> nat \<Rightarrow> ocoms_mca_base_var_t \<Rightarrow> nat \<Rightarrow> ocoms_mca_base_var_storage_t \<Rightarrow> bool" where
  "plain_var s a v addr d \<longleftrightarrow> a < length (vs_heap s) \<and> vs_heap s ! a = v \<and> \<not> VAR_IS_SYNONYM v \<and> \<not> VAR_IS_DEPRECATED v \<and>
     mbv_full_name v \<noteq> None \<and> mbv_long_name v \<noteq> None \<and> mbv_storage v = Some addr \<and> vs_store s addr = Some d \<and> has_type (mbv_type v) d"

text \<open>Everything a list of file values offers and what the environment gives; each is convertible.\<close>

definition converts :: "mca_ctx \<Rightarrow> mca \<Rightarrow> ocoms_mca_base_var_t \<Rightarrow> ocoms_mca_base_var_storage_t \<Rightarrow> string option \<Rightarrow> ocoms_mca_base_var_storage_t \<Rightarrow> bool" where
  "converts c s v d x d' \<longleftrightarrow> var_set_from_string (vctx c s) (mbv_type v) (mbv_enumerator v) d x = Some (OCOMS_SUCCESS, d')"

definition no_source_env :: "mca_ctx \<Rightarrow> ocoms_mca_base_var_t \<Rightarrow> bool" where
  "no_source_env c v \<longleftrightarrow> argv_mem_total (mc_mem c) \<and> mc_getenv c (mca_prefix @ ''SOURCE_'' @ the (mbv_full_name v)) = None"

definition named_files :: "ocoms_mca_base_var_file_value_t list \<Rightarrow> bool" where
  "named_files fvs \<longleftrightarrow> (\<forall>fv \<in> set fvs. mbvfv_var fv \<noteq> None)"

definition sourced_files :: "ocoms_mca_base_var_file_value_t list \<Rightarrow> bool" where
  "sourced_files fvs \<longleftrightarrow> (\<forall>fv \<in> set fvs. mbvfv_file fv \<noteq> None)"

text \<open>A variable that has its value from a file knows the file.\<close>

definition knows_file :: "mca \<Rightarrow> ocoms_mca_base_var_t \<Rightarrow> bool" where
  "knows_file s w \<longleftrightarrow> (sourced_files (vs_file_values s) \<and> mbv_source w = MCA_BASE_VAR_SOURCE_FILE \<longrightarrow> mbv_source_file w \<noteq> None)"

text \<open>The outcome of a search: not found, or a new value with its source.\<close>

definition set_at :: "mca \<Rightarrow> nat \<Rightarrow> ocoms_mca_base_var_t \<Rightarrow> nat \<Rightarrow> ocoms_mca_base_var_storage_t \<Rightarrow> mca" where
  "set_at s a w addr d = s\<lparr>vs_heap := (vs_heap s)[a := w], vs_store := (vs_store s)(addr := Some d)\<rparr>"

lemma set_at_simps [simp]:
  "vs_heap (set_at s a w addr d) = (vs_heap s)[a := w]" "vs_store (set_at s a w addr d) = (vs_store s)(addr \<mapsto> d)"
  "vs_file_values (set_at s a w addr d) = vs_file_values s" "vs_override_values (set_at s a w addr d) = vs_override_values s"
  "vctx c (set_at s a w addr d) = vctx c s" "set_at (set_at s a w addr d) a w' addr d' = set_at s a w' addr d'"
  by (simp_all add: set_at_def)

lemma set_from_file_plain:
  assumes v: "plain_var s a v addr d" and names: "named_files fvs"
    and conv: "\<And>x. x \<in> set (file_offer v fvs) \<Longrightarrow> \<not> VAR_IS_DEFAULT_ONLY v \<Longrightarrow> mbv_source v \<noteq> MCA_BASE_VAR_SOURCE_OVERRIDE \<Longrightarrow> \<exists>d'. converts c s v d x d'"
  shows "if VAR_IS_DEFAULT_ONLY v \<or> mbv_source v = MCA_BASE_VAR_SOURCE_OVERRIDE \<or> file_offer v fvs = []
    then var_set_from_file c s a fvs = Some (OCOMS_ERR_NOT_FOUND, s)
    else \<exists>d' f. var_set_from_file c s a fvs = Some (OCOMS_SUCCESS, set_at s a (v\<lparr>mbv_source_file := f, mbv_source := MCA_BASE_VAR_SOURCE_FILE\<rparr>) addr d') \<and>
        converts c s v d (hd (file_offer v fvs)) d' \<and> (sourced_files fvs \<longrightarrow> f \<noteq> None)"
proof -
  obtain full long where fl: "mbv_full_name v = Some full" "mbv_long_name v = Some long" using v by (auto simp: plain_var_def)
  note p = v [unfolded plain_var_def]
  have ff: "find_file_value full long fvs = Some (find (\<lambda>fv. mbvfv_var fv = Some full \<or> mbvfv_var fv = Some long) fvs)"
    using names by (intro find_file_value_find) (simp add: named_files_def)
  show ?thesis
  proof (cases "VAR_IS_DEFAULT_ONLY v \<or> mbv_source v = MCA_BASE_VAR_SOURCE_OVERRIDE \<or> file_offer v fvs = []")
    case True
    then show ?thesis
      using p fl ff by (auto simp: var_set_from_file_def target_plain file_offer_def split: option.splits if_splits)
  next
    case False
    then obtain fv where fv: "find (\<lambda>fv. mbvfv_var fv = Some full \<or> mbvfv_var fv = Some long) fvs = Some fv"
        "\<not> isset MCA_BASE_VAR_FLAG_ENVIRONMENT_ONLY (mbv_flags v)" "file_offer v fvs = [mbvfv_value fv]"
      using fl by (auto simp: file_offer_def split: option.splits if_splits)
    obtain d' where d': "converts c s v d (mbvfv_value fv) d'" using conv [of "mbvfv_value fv"] fv(3) False by auto
    have mem: "fv \<in> set fvs" using fv(1) by (auto simp: find_Some_iff)
    let ?f = "if mbvfv_file fv \<noteq> None then mbvfv_file fv else mbv_source_file v"
    let ?s = "s\<lparr>vs_heap := (vs_heap s)[a := v\<lparr>mbv_source_file := ?f, mbv_source := MCA_BASE_VAR_SOURCE_FILE\<rparr>]\<rparr>"
    have "store_from_string c ?s a (mbvfv_value fv) = Some (OCOMS_SUCCESS, ?s\<lparr>vs_store := (vs_store ?s)(addr := Some d')\<rparr>)"
      using p d' by (intro store_from_string_plain [where d = d]) (simp_all add: converts_def)
    moreover have "var_set_from_file c s a fvs = store_from_string c ?s a (mbvfv_value fv)"
      using False p fl fv ff by (simp add: var_set_from_file_def target_plain)
    ultimately show ?thesis unfolding if_not_P [OF False]
      by (intro exI [of _ d'] exI [of _ ?f]) (use fv(3) d' mem in \<open>auto simp: set_at_def sourced_files_def\<close>)
  qed
qed

lemma set_from_env_plain:
  assumes v: "plain_var s a v addr d" and env: "no_source_env c v"
    and conv: "\<And>x. x \<in> set (env_offer c v) \<Longrightarrow> \<not> VAR_IS_DEFAULT_ONLY v \<Longrightarrow> mbv_source v \<noteq> MCA_BASE_VAR_SOURCE_OVERRIDE \<Longrightarrow> \<exists>d'. converts c s v d x d'"
  shows "if VAR_IS_DEFAULT_ONLY v \<or> mbv_source v = MCA_BASE_VAR_SOURCE_OVERRIDE \<or> env_offer c v = []
    then var_set_from_env c s a = Some (OCOMS_ERR_NOT_FOUND, s)
    else \<exists>d'. var_set_from_env c s a = Some (OCOMS_SUCCESS, set_at s a (v\<lparr>mbv_source := MCA_BASE_VAR_SOURCE_ENV\<rparr>) addr d') \<and>
        converts c s v d (hd (env_offer c v)) d'"
proof -
  obtain full where fl: "mbv_full_name v = Some full" using v by (auto simp: plain_var_def)
  note p = v [unfolded plain_var_def]
  have m: "argv_mem_total (mc_mem c)" "mc_getenv c (mca_prefix @ ''SOURCE_'' @ full) = None" using env fl by (simp_all add: no_source_env_def)
  show ?thesis
  proof (cases "VAR_IS_DEFAULT_ONLY v \<or> mbv_source v = MCA_BASE_VAR_SOURCE_OVERRIDE \<or> env_offer c v = []")
    case True
    then show ?thesis
      using p fl m by (auto simp: var_set_from_env_def target_plain env_offer_def strdup_total split: option.splits)
  next
    case False
    then obtain x where x: "mc_getenv c (mca_prefix @ full) = Some x" "env_offer c v = [Some x]"
      using fl by (auto simp: env_offer_def split: option.splits)
    obtain d' where d': "converts c s v d (Some x) d'" using conv [of "Some x"] x(2) False by auto
    let ?s = "s\<lparr>vs_heap := (vs_heap s)[a := v\<lparr>mbv_source := MCA_BASE_VAR_SOURCE_ENV\<rparr>]\<rparr>"
    have "store_from_string c ?s a (Some x) = Some (OCOMS_SUCCESS, ?s\<lparr>vs_store := (vs_store ?s)(addr := Some d')\<rparr>)"
      using p d' by (intro store_from_string_plain [where d = d]) (simp_all add: converts_def)
    then show ?thesis
      using False p fl x d' m unfolding if_not_P [OF False]
      by (intro exI [of _ d']) (simp add: var_set_from_env_def target_plain strdup_total env_source_def set_at_def)
  qed
qed

lemma conversion_type:
  assumes "var_set_from_string c t e d x = Some (ret, d')" and "has_type t d"
  shows "has_type t d'"
proof (cases t)
  case MCA_BASE_VAR_TYPE_MAX
  then show ?thesis using assms(2) by (cases d) (simp_all add: has_type_def)
qed (use assms in \<open>auto simp: var_set_from_string_def store_int_def has_type_def bind_eq_Some_conv Let_def split: if_splits prod.splits\<close>)

lemma offers_upd [simp]:
  "file_offer (v\<lparr>mbv_source := x\<rparr>) fvs = file_offer v fvs" "env_offer c (v\<lparr>mbv_source := x\<rparr>) = env_offer c v"
  by (simp_all add: file_offer_def env_offer_def)

text \<open>What the search for an initial value keeps of a variable: all but its source and three flags.\<close>

definition same_var :: "ocoms_mca_base_var_t \<Rightarrow> ocoms_mca_base_var_t \<Rightarrow> bool" where
  "same_var v w \<longleftrightarrow> w = v\<lparr>mbv_source := mbv_source w, mbv_source_file := mbv_source_file w, mbv_flags := mbv_flags w\<rparr> \<and>
     (\<forall>n. n \<noteq> 2 \<longrightarrow> n \<noteq> 4 \<longrightarrow> n \<noteq> 16 \<longrightarrow> bit (mbv_flags w) n = bit (mbv_flags v) n)"

lemma same_varD:
  assumes "same_var v w"
  shows "mbv_full_name w = mbv_full_name v" "mbv_long_name w = mbv_long_name v" "mbv_index w = mbv_index v" "mbv_type w = mbv_type v"
    "mbv_storage w = mbv_storage v" "mbv_enumerator w = mbv_enumerator v" "mbv_synonyms w = mbv_synonyms v" "mbv_synonym_for w = mbv_synonym_for v"
    "VAR_IS_SYNONYM w = VAR_IS_SYNONYM v" "VAR_IS_DEFAULT_ONLY w = VAR_IS_DEFAULT_ONLY v"
    "VAR_IS_INTERNAL w = VAR_IS_INTERNAL v" "VAR_IS_DEPRECATED w = VAR_IS_DEPRECATED v"
proof -
  have e: "w = v\<lparr>mbv_source := mbv_source w, mbv_source_file := mbv_source_file w, mbv_flags := mbv_flags w\<rparr>" using assms by (simp add: same_var_def)
  show "mbv_full_name w = mbv_full_name v" "mbv_long_name w = mbv_long_name v" "mbv_index w = mbv_index v" "mbv_type w = mbv_type v"
    "mbv_storage w = mbv_storage v" "mbv_enumerator w = mbv_enumerator v" "mbv_synonyms w = mbv_synonyms v" "mbv_synonym_for w = mbv_synonym_for v"
    by (subst e; simp)+
qed (use assms in \<open>simp_all add: same_var_def flag_simps\<close>)

lemma same_var_flags:
  "same_var v w \<Longrightarrow> (\<And>n. n \<noteq> 2 \<Longrightarrow> n \<noteq> 4 \<Longrightarrow> n \<noteq> 16 \<Longrightarrow> bit x n = bit (mbv_flags w) n) \<Longrightarrow> same_var v (w\<lparr>mbv_flags := x\<rparr>)"
  by (cases v; cases w) (simp add: same_var_def)

text \<open>The result: the first offer, converted, and its source; or the default.\<close>

definition takes_first :: "mca_ctx \<Rightarrow> mca \<Rightarrow> ocoms_mca_base_var_t \<Rightarrow> ocoms_mca_base_var_storage_t \<Rightarrow>
    (ocoms_mca_base_var_source_t \<times> string option) list \<Rightarrow> ocoms_mca_base_var_source_t \<Rightarrow> ocoms_mca_base_var_storage_t \<Rightarrow> bool" where
  "takes_first c s v d os src d' = (case os of [] \<Rightarrow> src = MCA_BASE_VAR_SOURCE_DEFAULT \<and> d' = d
     | (src1, x) # _ \<Rightarrow> src = src1 \<and> converts c s v d x d')"

lemma takes_firstI: "os \<noteq> [] \<Longrightarrow> converts c s v d (hd os) d' \<Longrightarrow> takes_first c s v d (map (Pair src) os @ xs) src d'"
  by (cases os) (simp_all add: takes_first_def)

lemma converts_source [simp]: "converts c s (v\<lparr>mbv_source := x\<rparr>) d y d' = converts c s v d y d'"
  by (simp add: converts_def)

lemma set_initial_override:
  assumes v: "plain_var s a v addr d" "mbv_source v = MCA_BASE_VAR_SOURCE_DEFAULT" "\<not> VAR_IS_DEFAULT_ONLY v"
    and files: "named_files (vs_override_values s)" "named_files (vs_file_values s)" "no_source_env c v"
    and o1: "file_offer v (vs_override_values s) \<noteq> []" "converts c s v d (hd (file_offer v (vs_override_values s))) d1"
  shows "\<exists>w d'. var_set_initial c s a = Some (OCOMS_SUCCESS, set_at s a w addr d') \<and> same_var v w \<and>
    mbv_source w = MCA_BASE_VAR_SOURCE_OVERRIDE \<and> converts c s v d (hd (file_offer v (vs_override_values s))) d'"
proof -
  have a: "a < length (vs_heap s)" "vs_heap s ! a = v" using v(1) by (simp_all add: plain_var_def)
  have same: "s\<lparr>vs_heap := (vs_heap s)[a := v\<lparr>mbv_source := MCA_BASE_VAR_SOURCE_DEFAULT\<rparr>]\<rparr> = s"
    using a v(2) by (simp add: list_update_same_conv)
  have one: "file_offer v (vs_override_values s) = [hd (file_offer v (vs_override_values s))]"
    using o1(1) by (auto simp: file_offer_def split: option.splits if_splits)
  have "\<exists>d' f. var_set_from_file c s a (vs_override_values s) = Some (OCOMS_SUCCESS,
      set_at s a (v\<lparr>mbv_source_file := f, mbv_source := MCA_BASE_VAR_SOURCE_FILE\<rparr>) addr d') \<and>
    converts c s v d (hd (file_offer v (vs_override_values s))) d'"
    using set_from_file_plain [OF v(1) files(1), of c] v o1 one by (auto split: if_splits) (metis list.set_intros(1) set_ConsD empty_iff list.set(1))
  then obtain d' f where r1: "var_set_from_file c s a (vs_override_values s) = Some (OCOMS_SUCCESS,
      set_at s a (v\<lparr>mbv_source_file := f, mbv_source := MCA_BASE_VAR_SOURCE_FILE\<rparr>) addr d')"
    "converts c s v d (hd (file_offer v (vs_override_values s))) d'" by blast
  define w where "w = v\<lparr>mbv_source_file := f, mbv_flags := NOT MCA_BASE_VAR_FLAG_SETTABLE AND (mbv_flags v OR MCA_BASE_VAR_FLAG_OVERRIDE),
    mbv_source := MCA_BASE_VAR_SOURCE_OVERRIDE\<rparr>"
  have sw: "same_var v w" by (auto simp: same_var_def w_def flag_simps dest: bit_imp_le_length)
  have "has_type (mbv_type v) d'"
    using conversion_type r1(2) v(1) unfolding converts_def plain_var_def by blast
  then have pw: "plain_var (set_at s a w addr d') a w addr d'"
    using v(1) same_varD [OF sw] by (simp add: plain_var_def)
  have ow: "mbv_source w = MCA_BASE_VAR_SOURCE_OVERRIDE" and nw: "no_source_env c w" using files(3) by (simp_all add: w_def no_source_env_def)
  have up: "(set_at s a (v\<lparr>mbv_source_file := f, mbv_source := MCA_BASE_VAR_SOURCE_FILE\<rparr>) addr d')\<lparr>vs_heap := (vs_heap s)[a :=
      v\<lparr>mbv_source_file := f, mbv_flags := NOT MCA_BASE_VAR_FLAG_SETTABLE AND (mbv_flags v OR MCA_BASE_VAR_FLAG_OVERRIDE),
        mbv_source := MCA_BASE_VAR_SOURCE_OVERRIDE\<rparr>]\<rparr> = set_at s a w addr d'"
    by (simp add: set_at_def w_def)
  have "var_set_from_env c (set_at s a w addr d') a = Some (OCOMS_ERR_NOT_FOUND, set_at s a w addr d')"
    using set_from_env_plain [OF pw nw] ow by simp
  moreover have "var_set_from_file c (set_at s a w addr d') a (vs_file_values s) = Some (OCOMS_ERR_NOT_FOUND, set_at s a w addr d')"
    using set_from_file_plain [OF pw files(2), of c] ow by simp
  ultimately have "var_set_initial c s a = Some (OCOMS_SUCCESS, set_at s a w addr d')"
    using a r1(1) by (simp add: var_set_initial_def same up)
  then show ?thesis using sw ow r1(2) by blast
qed

text \<open>Setting the source to default first changes no offer.\<close>

lemma set_initial_env:
  assumes v: "plain_var s a v addr d" "mbv_source v = MCA_BASE_VAR_SOURCE_DEFAULT"
    and files: "named_files (vs_override_values s)" "named_files (vs_file_values s)" "no_source_env c v"
    and o1: "VAR_IS_DEFAULT_ONLY v \<or> file_offer v (vs_override_values s) = []"
    and conv: "\<forall>p \<in> set (offers c s v). \<exists>d'. converts c s v d (snd p) d'"
  shows "\<exists>w d'. var_set_initial c s a = Some (OCOMS_SUCCESS, set_at s a w addr d') \<and> same_var v w \<and>
    takes_first c s v d (offers c s v) (mbv_source w) d' \<and> knows_file s w"
proof -
  have a: "a < length (vs_heap s)" "vs_heap s ! a = v" and st: "vs_store s addr = Some d" using v(1) by (simp_all add: plain_var_def)
  have same: "s\<lparr>vs_heap := (vs_heap s)[a := v\<lparr>mbv_source := MCA_BASE_VAR_SOURCE_DEFAULT\<rparr>]\<rparr> = s"
    using a v(2) by (simp add: list_update_same_conv)
  have cv: "\<exists>d'. converts c s v d x d'" if H: "x \<in> set (env_offer c v) \<union> set (file_offer v (vs_file_values s))" "\<not> VAR_IS_DEFAULT_ONLY v" for x
  proof -
    obtain src where "(src, x) \<in> set (offers c s v)" using H by (auto simp: offers_def)
    then show ?thesis using conv by fastforce
  qed
  have start: "var_set_initial c s a = do {
     (ret, s4) \<leftarrow> var_set_from_env c s a;
     if ret \<noteq> OCOMS_ERR_NOT_FOUND then Some (ret, s4)
     else do {
       (ret, s5) \<leftarrow> var_set_from_file c s4 a (vs_file_values s4);
       if ret \<noteq> OCOMS_ERR_NOT_FOUND then Some (ret, s5) else Some (OCOMS_SUCCESS, s5) } }"
    using set_from_file_plain [OF v(1) files(1), of c] a o1 by (auto simp: var_set_initial_def same)
  note en = set_from_env_plain [OF v(1) files(3)] and fi = set_from_file_plain [OF v(1) files(2), of c]
  show ?thesis
  proof (cases "VAR_IS_DEFAULT_ONLY v \<or> env_offer c v = []")
    case False
    then obtain d' where "var_set_from_env c s a = Some (OCOMS_SUCCESS, set_at s a (v\<lparr>mbv_source := MCA_BASE_VAR_SOURCE_ENV\<rparr>) addr d')"
      "converts c s v d (hd (env_offer c v)) d'" using en cv v(2) by (auto split: if_splits)
    moreover have "offers c s v = map (Pair MCA_BASE_VAR_SOURCE_ENV) (env_offer c v) @ map (Pair MCA_BASE_VAR_SOURCE_FILE) (file_offer v (vs_file_values s))"
      using o1 False by (auto simp: offers_def)
    ultimately show ?thesis using False takes_firstI
      by (intro exI [of _ "v\<lparr>mbv_source := MCA_BASE_VAR_SOURCE_ENV\<rparr>"] exI [of _ d']) (simp add: start same_var_def knows_file_def)
  next
    case e: True
    have r2: "var_set_from_env c s a = Some (OCOMS_ERR_NOT_FOUND, s)" using en cv e v(2) by (auto split: if_splits)
    show ?thesis
    proof (cases "VAR_IS_DEFAULT_ONLY v \<or> file_offer v (vs_file_values s) = []")
      case True
      have "var_set_from_file c s a (vs_file_values s) = Some (OCOMS_ERR_NOT_FOUND, s)" using fi cv True v(2) by (auto split: if_splits)
      moreover have "offers c s v = []" using o1 e True by (auto simp: offers_def)
      moreover have "set_at s a v addr d = s" using a st by (simp add: set_at_def list_update_same_conv fun_upd_idem)
      ultimately show ?thesis using v(2) by (intro exI [of _ v] exI [of _ d]) (simp add: start r2 same_var_def takes_first_def knows_file_def)
    next
      case False
      then obtain d' f where "var_set_from_file c s a (vs_file_values s) = Some (OCOMS_SUCCESS, set_at s a (v\<lparr>mbv_source_file := f, mbv_source := MCA_BASE_VAR_SOURCE_FILE\<rparr>) addr d')"
        "converts c s v d (hd (file_offer v (vs_file_values s))) d'" "sourced_files (vs_file_values s) \<longrightarrow> f \<noteq> None"
        using fi cv v(2) by (auto split: if_splits)
      moreover have "offers c s v = map (Pair MCA_BASE_VAR_SOURCE_FILE) (file_offer v (vs_file_values s)) @ []"
        using o1 e False by (auto simp: offers_def)
      ultimately show ?thesis using False takes_firstI [of "file_offer v (vs_file_values s)" c s v d d' _ "[]"]
        by (intro exI [of _ "v\<lparr>mbv_source_file := f, mbv_source := MCA_BASE_VAR_SOURCE_FILE\<rparr>"] exI [of _ d']) (simp add: start r2 same_var_def knows_file_def)
    qed
  qed
qed

lemma set_initial_default:
  "plain_var s a v addr d \<Longrightarrow> var_set_initial c s a =
   var_set_initial c (s\<lparr>vs_heap := (vs_heap s)[a := v\<lparr>mbv_source := MCA_BASE_VAR_SOURCE_DEFAULT\<rparr>]\<rparr>) a"
  by (simp add: plain_var_def var_set_initial_def)

text \<open>The initial value is the first offer.\<close>

lemma set_initial_ok:
  assumes v: "plain_var s a v addr d"
    and files: "named_files (vs_override_values s)" "named_files (vs_file_values s)" "no_source_env c v"
    and conv: "\<forall>p \<in> set (offers c s v). \<exists>d'. converts c s v d (snd p) d'"
  shows "\<exists>w d'. var_set_initial c s a = Some (OCOMS_SUCCESS, set_at s a w addr d') \<and> same_var v w \<and>
    takes_first c s v d (offers c s v) (mbv_source w) d' \<and> knows_file s w"
proof -
  let ?v = "v\<lparr>mbv_source := MCA_BASE_VAR_SOURCE_DEFAULT\<rparr>"
  let ?s = "s\<lparr>vs_heap := (vs_heap s)[a := ?v]\<rparr>"
  have p: "plain_var ?s a ?v addr d" using v by (simp add: plain_var_def)
  have e: "no_source_env c ?v" "named_files (vs_override_values ?s)" "named_files (vs_file_values ?s)" using files by (simp_all add: no_source_env_def)
  have same: "offers c ?s ?v = offers c s v" by (simp add: offers_def)
  have cs: "converts c ?s v d x d' = converts c s v d x d'" for x d' by (simp add: converts_def)
  have tf: "takes_first c ?s ?v d os src d' = takes_first c s v d os src d'" for os src d' by (simp add: takes_first_def cs split: list.split)
  have at: "set_at ?s a w addr d' = set_at s a w addr d'" for w d' by (simp add: set_at_def)
  have sv: "same_var ?v w \<Longrightarrow> same_var v w" for w by (simp add: same_var_def)
  have "\<exists>w d'. var_set_initial c ?s a = Some (OCOMS_SUCCESS, set_at ?s a w addr d') \<and> same_var ?v w \<and>
    takes_first c ?s ?v d (offers c ?s ?v) (mbv_source w) d' \<and> knows_file s w"
  proof (cases "VAR_IS_DEFAULT_ONLY ?v \<or> file_offer ?v (vs_override_values ?s) = []")
    case True
    then have "\<exists>w d'. var_set_initial c ?s a = Some (OCOMS_SUCCESS, set_at ?s a w addr d') \<and> same_var ?v w \<and>
        takes_first c ?s ?v d (offers c ?s ?v) (mbv_source w) d' \<and> knows_file ?s w"
      using conv by (intro set_initial_env [OF p _ e(2,3,1)]) (simp_all add: same cs)
    then show ?thesis by (simp add: knows_file_def)
  next
    case False
    define x where "x = hd (file_offer ?v (vs_override_values ?s))"
    obtain os where o: "offers c s v = (MCA_BASE_VAR_SOURCE_OVERRIDE, x) # os"
      using False by (cases "file_offer v (vs_override_values s)") (auto simp: offers_def x_def)
    then obtain d1 where "converts c ?s ?v d x d1" using conv cs by fastforce
    then obtain w d' where "var_set_initial c ?s a = Some (OCOMS_SUCCESS, set_at ?s a w addr d')" "same_var ?v w"
        "mbv_source w = MCA_BASE_VAR_SOURCE_OVERRIDE" "converts c ?s ?v d x d'"
      using set_initial_override [OF p _ _ e(2,3,1), of d1] False unfolding x_def [symmetric] by auto
    then show ?thesis using o unfolding same by (intro exI [of _ w] exI [of _ d']) (simp add: takes_first_def knows_file_def)
  qed
  then show ?thesis unfolding set_initial_default [OF v, of c, symmetric] same tf at using sv by blast
qed

end
