(* ===== verification/Mca_Group_Props.thy ===== *)
theory Mca_Group_Props
  imports Mca_Initial
begin

text \<open>
  The invariant of the groups of MCA variables, the names and tables they rest on, and the
  registration of a group (\<open>ocoms/mca/base/mca_base_var_group.c\<close>), which keeps it.
\<close>

section \<open>Tables that are only added to\<close>

text \<open>A pointer array whose first \<open>n\<close> slots hold the addresses 0, 1, ... and whose other slots are free.\<close>

definition pa_filled :: "nat parray \<Rightarrow> nat \<Rightarrow> bool" where
  "pa_filled t n \<longleftrightarrow> pa_wf t \<and> int n \<le> pa_size t \<and>
     (\<forall>i. pa_look t i = (if 0 \<le> i \<and> i < int n then Some (nat i) else None))"

lemma pa_filled_get: "pa_filled t n \<Longrightarrow> 0 \<le> i \<Longrightarrow> ocoms_pointer_array_get_item t i = Some (if i < int n then Some (nat i) else None)"
  by (simp add: pa_filled_def pa_get_item_eq)

lemma pa_filled_add:
  assumes "pa_filled t n" and "int n < pa_size t"
  shows "\<exists>t'. ocoms_pointer_array_add m t (Some n) = Some (int n, t') \<and> pa_filled t' (Suc n) \<and> pa_size t' = pa_size t"
proof -
  have wf: "pa_wf t" and look: "\<And>i. pa_look t i = (if 0 \<le> i \<and> i < int n then Some (nat i) else None)"
    using assms(1) by (simp_all add: pa_filled_def)
  have n: "n < length (pa_cells t)" using assms(2) wf by (simp add: pa_wf_def)
  have cell: "pa_cells t ! j = (if j < n then Some j else None)" if "j < length (pa_cells t)" for j
    using look [of "int j"] that wf by (simp add: pa_look_def pa_wf_def split: if_splits)
  have ff: "first_free (pa_cells t) = n" using n cell by (intro first_free_eqI) auto
  have "0 < pa_number_free t" using ff n wf free_count_0_iff [of "pa_cells t"] by (auto simp: pa_wf_def)
  from pa_add_step [OF wf this, of m n] ff wf obtain t' where t':
    "ocoms_pointer_array_add m t (Some n) = Some (int n, t')" "pa_wf t'" "pa_cells t' = (pa_cells t)[n := Some n]" "pa_size t' = pa_size t"
    by (auto simp: pa_wf_def)
  have "pa_look t' i = (if 0 \<le> i \<and> i < int (Suc n) then Some (nat i) else None)" for i
    using t' n cell [of "nat i"] wf assms(2) by (auto simp: pa_look_def pa_wf_def nth_list_update)
  then have "pa_filled t' (Suc n)" using t' assms(2) by (simp add: pa_filled_def)
  then show ?thesis using t' by blast
qed

text \<open>A hash table that maps names to indices.\<close>

definition ht_names :: "int htable \<Rightarrow> (string \<Rightarrow> int option) \<Rightarrow> bool" where
  "ht_names ht M \<longleftrightarrow> ht_wf Methods_ptr ht \<and> (\<forall>k. ht_map ht (PTR (name_bytes k)) = map_option index_ptr (M k))"

lemma ptr_index_ptr [simp]: "ptr_index (index_ptr i) = i"
  by (simp add: ptr_index_def index_ptr_def)

lemma name_bytes_inj [simp]: "name_bytes a = name_bytes b \<longleftrightarrow> a = b"
proof -
  have "inj (\<lambda>c :: char. word_of_nat (of_char c) :: 8 word)"
  proof (rule injI)
    fix c d :: char assume "(word_of_nat (of_char c) :: 8 word) = word_of_nat (of_char d)"
    then have "unat (word_of_nat (of_char c) :: 8 word) = unat (word_of_nat (of_char d) :: 8 word)" by simp
    moreover have "(of_char x :: nat) < 256" for x :: char using nat_of_char_less_256 [of x] by simp
    ultimately have "(of_char c :: nat) = of_char d" by (simp add: unsigned_of_nat take_bit_nat_eq_self)
    then show "c = d" by simp
  qed
  then show ?thesis unfolding name_bytes_def by (metis inj_map_eq_map)
qed

definition ht_typed :: "int htable \<Rightarrow> int htable" where
  "ht_typed ht = ht\<lparr>ht_type_methods := Some Methods_ptr\<rparr>"

lemma ht_names_typed [simp]: "ht_names ht M \<Longrightarrow> ht_names (ht_typed ht) M"
  by (simp add: ht_names_def ht_typed_def ht_wf_typed)

lemma ht_typed_fields [simp]: "ht_typed (ht_typed ht) = ht_typed ht" "ht_size (ht_typed ht) = ht_size ht"
  "ht_growth_trigger (ht_typed ht) = ht_growth_trigger ht" "ht_capacity (ht_typed ht) = ht_capacity ht"
  by (simp_all add: ht_typed_def)

lemma find_name_ok:
  "ht_names ht M \<Longrightarrow> find_name c ht k = Some (case M k of Some i \<Rightarrow> (OCOMS_SUCCESS, Some i, ht_typed ht)
     | None \<Rightarrow> (OCOMS_ERR_NOT_FOUND, None, ht_typed ht))"
  by (simp add: find_name_def ocoms_hash_table_get_value_ptr_def ht_names_def ht_get_value_ok ht_typed_def split: option.split)

text \<open>The tables have room: neither a slot nor memory is lacking.\<close>

definition ht_room :: "mca_ctx \<Rightarrow> nat \<Rightarrow> int htable \<Rightarrow> bool" where
  "ht_room c n ht \<longleftrightarrow> calloc_sane (mc_calloc c) \<and> (\<forall>m. mc_malloc c m) \<and> ht_size ht + n < ht_growth_trigger ht"

lemma ht_room_typed [simp]: "ht_room c n (ht_typed ht) = ht_room c n ht"
  by (simp add: ht_room_def)

lemma set_name_ok:
  assumes "ht_names ht M" and "ht_room c (Suc n) ht"
  shows "\<exists>ht'. set_name c ht k i = Some (OCOMS_SUCCESS, ht') \<and> ht_names ht' (M(k \<mapsto> i)) \<and> ht_room c n ht'"
proof -
  have wf: "ht_wf Methods_ptr ht" and cal: "calloc_sane (mc_calloc c)" and ml: "\<And>m. mc_malloc c m" and
    tr: "ht_size ht + 1 < ht_growth_trigger ht" using assms by (simp_all add: ht_names_def ht_room_def)
  have "key_kind Methods_ptr (PTR (name_bytes k))" by simp
  from ht_set_value_ok [OF wf this cal, of "mc_dbg c" "index_ptr i"] tr obtain ht' where
    S: "ht_set_value (mc_calloc c) (mc_dbg c) Methods_ptr ht (PTR (name_bytes k)) (index_ptr i) = Some (OCOMS_SUCCESS, ht')"
      "ht_wf Methods_ptr ht'" "ht_map ht' = (ht_map ht)(PTR (name_bytes k) \<mapsto> index_ptr i)"
      "ht_size ht' \<le> ht_size ht + 1" "ht_growth_trigger ht' = ht_growth_trigger ht"
    by metis
  have "set_name c ht k i = Some (OCOMS_SUCCESS, ht')"
    using S(1) wf ml by (simp add: set_name_def ocoms_hash_table_set_value_ptr_def ht_get_value_ok split: option.split)
  moreover have "ht_names ht' (M(k \<mapsto> i))" using S(2,3) assms(1) by (simp add: ht_names_def)
  moreover have "ht_room c n ht'" using S(4,5) assms(2) by (simp add: ht_room_def)
  ultimately show ?thesis by blast
qed

lemma ht_room_mono: "ht_room c n ht \<Longrightarrow> m \<le> n \<Longrightarrow> ht_room c m ht"
  by (simp add: ht_room_def)

section \<open>Names\<close>

definition calloc_names :: "mca_ctx \<Rightarrow> bool" where
  "calloc_names c \<longleftrightarrow> (\<forall>n. n < 2 ^ 48 \<longrightarrow> mc_calloc c n)"

lemma gen_name_one: "calloc_names c \<Longrightarrow> length n < 2 ^ 40 \<Longrightarrow>
  ocoms_mca_base_var_generate_full_name4 c None None None (Some n) = Some (OCOMS_SUCCESS, Some n)"
  by (simp add: ocoms_mca_base_var_generate_full_name4_def calloc_names_def)

text \<open>A map from names to their positions in a list.\<close>

definition name_map :: "string list \<Rightarrow> string \<Rightarrow> int option" where
  "name_map names = map_of (zip names (map int [0..<length names]))"

lemma name_map_snoc: "k \<notin> set names \<Longrightarrow> name_map (names @ [k]) = (name_map names)(k \<mapsto> int (length names))"
proof -
  assume k: "k \<notin> set names"
  have z: "zip (names @ [k]) (map int [0..<length (names @ [k])]) = zip names (map int [0..<length names]) @ [(k, int (length names))]"
    by (simp add: zip_append1)
  show ?thesis
  proof
    fix x
    show "name_map (names @ [k]) x = ((name_map names)(k \<mapsto> int (length names))) x"
      unfolding name_map_def z map_of_append map_add_def
      using k by (cases "x = k") (auto split: option.split dest!: map_of_SomeD set_zip_leftD simp: map_of_zip_is_None intro!: sym [of _ None])
  qed
qed

lemma name_map_None [simp]: "name_map names k = None \<longleftrightarrow> k \<notin> set names"
  by (simp add: name_map_def map_of_zip_is_None)

lemma name_map_nth: "distinct names \<Longrightarrow> i < length names \<Longrightarrow> name_map names (names ! i) = Some (int i)"
  unfolding name_map_def by (intro map_of_is_SomeI) (auto simp: in_set_zip)

lemma name_map_Some: "name_map names k = Some i \<Longrightarrow> 0 \<le> i \<and> i < int (length names) \<and> names ! nat i = k"
  by (auto simp: name_map_def in_set_zip dest!: map_of_SomeD)

section \<open>Well-formed groups\<close>

definition groups_wf :: "mca \<Rightarrow> bool" where
  "groups_wf s \<longleftrightarrow> pa_filled (vs_groups s) (length (vs_gheap s)) \<and>
     (\<exists>G. ht_names (vs_ghash s) G \<and> (\<forall>k i. G k = Some i \<longrightarrow> 0 \<le> i \<and> i < int (length (vs_gheap s)))) \<and>
     (\<forall>g \<in> set (vs_gheap s). group_isvalid g \<longrightarrow> group_vars g \<noteq> None \<and> group_pvars g \<noteq> None \<and> group_subgroups g \<noteq> None)"

definition short :: "string option \<Rightarrow> bool" where
  "short x \<longleftrightarrow> (\<forall>n. x = Some n \<longrightarrow> length n < 2 ^ 40)"

lemma gen_name_ok:
  assumes "calloc_names c" and "short a" "short b" "short d" "short e" and "a \<noteq> None \<or> b \<noteq> None \<or> d \<noteq> None \<or> e \<noteq> None"
  shows "ocoms_mca_base_var_generate_full_name4 c a b d e = Some (OCOMS_SUCCESS, Some (join_names '''' [a, b, d, e]))"
proof -
  let ?l = "\<lambda>n. case n of None \<Rightarrow> 0 | Some s \<Rightarrow> length s + 1"
  have le: "?l x \<le> 2 ^ 40" if "short x" for x using that by (auto simp: short_def split: option.split)
  have "?l a + ?l b + ?l d + ?l e < 2 ^ 48" using le [OF assms(2)] le [OF assms(3)] le [OF assms(4)] le [OF assms(5)] by simp
  then have "mc_calloc c (sum_list (map ?l [a, b, d, e]))" using assms(1) by (simp add: calloc_names_def add.assoc)
  moreover have "sum_list (map ?l [a, b, d, e]) \<noteq> 0" using assms(6) by (auto split: option.split)
  ultimately show ?thesis by (simp only: ocoms_mca_base_var_generate_full_name4_def Let_def if_True if_False not_True_eq_False)
qed

lemma group_get_ok:
  "groups_wf s \<Longrightarrow> 0 \<le> i \<Longrightarrow> ocoms_mca_base_var_group_get_internal s i iok =
   Some (if i < int (length (vs_gheap s)) \<and> (iok \<or> group_isvalid (vs_gheap s ! nat i)) then (OCOMS_SUCCESS, Some (nat i)) else (OCOMS_ERR_NOT_FOUND, None))"
  by (auto simp: ocoms_mca_base_var_group_get_internal_def groups_wf_def pa_filled_get)

lemma groups_wf_typed [simp]: "groups_wf s \<Longrightarrow> groups_wf (s\<lparr>vs_ghash := ht_typed (vs_ghash s)\<rparr>)"
  unfolding groups_wf_def by (auto intro: ht_names_typed)

lemma group_find_ok:
  assumes wf: "groups_wf s" "vs_ready s" "calloc_names c" and n: "short fw" "short cn" "fw \<noteq> None \<or> cn \<noteq> None"
  shows "\<exists>ret. group_find c s p fw cn iok = Some (ret, s\<lparr>vs_ghash := ht_typed (vs_ghash s)\<rparr>) \<and>
    (ret = OCOMS_ERR_NOT_FOUND \<or> 0 \<le> ret \<and> ret < int (length (vs_gheap s)) \<and> group_isvalid (vs_gheap s ! nat ret))"
proof -
  let ?s = "s\<lparr>vs_ghash := ht_typed (vs_ghash s)\<rparr>"
  have sh: "short None" by (simp add: short_def)
  obtain G where G: "ht_names (vs_ghash s) G" "\<And>k i. G k = Some i \<Longrightarrow> 0 \<le> i \<and> i < int (length (vs_gheap s))"
    using wf(1) by (auto simp: groups_wf_def)
  let ?k = "join_names '''' [None, fw, cn, None]"
  have gen: "ocoms_mca_base_var_generate_full_name4 c None fw cn None = Some (OCOMS_SUCCESS, Some ?k)"
    using n wf(3) sh by (intro gen_name_ok) auto
  have wf': "groups_wf ?s" using wf(1) by simp
  have neg: "OCOMS_ERR_NOT_FOUND < 0" by (simp add: OCOMS_ERR_NOT_FOUND_def)
  show ?thesis
  proof (cases "G ?k")
    case None
    then show ?thesis using gen wf(2) find_name_ok [OF G(1), of c ?k] neg
      by (simp add: group_find_def group_find_by_name_def del: join_names.simps)
  next
    case (Some i)
    note i = G(2) [OF Some]
    then have "ocoms_mca_base_var_group_get_internal ?s i False =
        Some (if group_isvalid (vs_gheap s ! nat i) then (OCOMS_SUCCESS, Some (nat i)) else (OCOMS_ERR_NOT_FOUND, None))"
      using group_get_ok [OF wf'] by simp
    moreover have "nat i < length (vs_gheap s)" using i by (simp add: nat_less_iff)
    ultimately show ?thesis using gen wf(2) find_name_ok [OF G(1), of c ?k] neg Some i
      by (cases "group_isvalid (vs_gheap s ! nat i)") (simp_all add: group_find_def group_find_by_name_def OCOMS_SUCCESS_def del: join_names.simps)
  qed
qed

text \<open>What does not belong to the groups stays as it is.\<close>

definition only_groups :: "mca \<Rightarrow> mca \<Rightarrow> bool" where
  "only_groups s s' \<longleftrightarrow> vs_ready s' = vs_ready s \<and> vs_vars s' = vs_vars s \<and> vs_heap s' = vs_heap s \<and> vs_count s' = vs_count s \<and>
     vs_hash s' = vs_hash s \<and> vs_file_values s' = vs_file_values s \<and> vs_override_values s' = vs_override_values s \<and> vs_file_list s' = vs_file_list s \<and>
     vs_home s' = vs_home s \<and> vs_cwd s' = vs_cwd s \<and> vs_store s' = vs_store s \<and> vs_gready s' = vs_gready s \<and>
     vs_pready s' = vs_pready s \<and> vs_pvars s' = vs_pvars s \<and> vs_pheap s' = vs_pheap s \<and> vs_phash s' = vs_phash s \<and>
     vs_pcount s' = vs_pcount s"

lemma only_groupsD:
  assumes "only_groups s s'"
  shows "vs_ready s' = vs_ready s" "vs_vars s' = vs_vars s" "vs_heap s' = vs_heap s" "vs_count s' = vs_count s"
    "vs_hash s' = vs_hash s" "vs_file_values s' = vs_file_values s" "vs_override_values s' = vs_override_values s" "vs_file_list s' = vs_file_list s"
    "vs_home s' = vs_home s" "vs_cwd s' = vs_cwd s" "vs_store s' = vs_store s" "vs_gready s' = vs_gready s"
    "vs_pready s' = vs_pready s" "vs_pvars s' = vs_pvars s" "vs_pheap s' = vs_pheap s" "vs_phash s' = vs_phash s"
    "vs_pcount s' = vs_pcount s"
  using assms by (simp_all add: only_groups_def)

lemma only_groups_trans: "only_groups a b \<Longrightarrow> only_groups b d \<Longrightarrow> only_groups a d"
  by (simp add: only_groups_def)

lemma only_groups_upd [simp]:
  "only_groups s (s\<lparr>vs_groups := a, vs_gheap := b, vs_ghash := d, vs_gcount := e, vs_stamp := f\<rparr>)"
  "only_groups s (s\<lparr>vs_ghash := d\<rparr>)" "only_groups s (s\<lparr>vs_gheap := b\<rparr>)" "only_groups s (s\<lparr>vs_ghash := d, vs_gheap := b, vs_stamp := f\<rparr>)"
  by (simp_all add: only_groups_def)

lemma strdup_opt_total [simp]: "argv_mem_total m \<Longrightarrow> strdup_opt m x = x"
  by (cases x) (simp_all add: strdup_opt_def strdup_total)

lemma group_strings_ok:
  "argv_mem_total m \<Longrightarrow> group_strings m p f n d = Some (ocoms_mca_base_var_group_constructor\<lparr>group_isvalid := True,
     group_project := p, group_framework := f, group_component := n, group_description := d\<rparr>)"
  by (simp add: group_strings_def) (metis not_None_eq)

text \<open>What registering a group needs: room for two, and counters that do not overflow.\<close>

definition group_room :: "mca_ctx \<Rightarrow> nat \<Rightarrow> mca \<Rightarrow> bool" where
  "group_room c n s \<longleftrightarrow> int (length (vs_gheap s) + n) \<le> pa_size (vs_groups s) \<and> ht_room c n (vs_ghash s) \<and>
     0 \<le> vs_stamp s \<and> vs_stamp s + int n < INT_MAX \<and> 0 \<le> vs_gcount s \<and> vs_gcount s + int n < INT_MAX"

lemma group_room_typed [simp]: "group_room c n (s\<lparr>vs_ghash := ht_typed (vs_ghash s)\<rparr>) = group_room c n s"
  by (simp add: group_room_def)

lemma groups_wf_stamp [simp]: "groups_wf (s\<lparr>vs_stamp := x\<rparr>) = groups_wf s"
  by (simp add: groups_wf_def)

lemma groups_wf_upd:
  assumes "groups_wf s" and "a < length (vs_gheap s)" and "group_isvalid g \<longrightarrow> group_vars g \<noteq> None \<and> group_pvars g \<noteq> None \<and> group_subgroups g \<noteq> None"
  shows "groups_wf (s\<lparr>vs_gheap := (vs_gheap s)[a := g]\<rparr>)"
  using assms unfolding groups_wf_def by (auto dest!: set_update_subset_insert [THEN subsetD])

text \<open>The outcome of a registration: a valid group, and room for fewer.\<close>

definition registered :: "mca_ctx \<Rightarrow> nat \<Rightarrow> mca \<Rightarrow> int \<Rightarrow> mca \<Rightarrow> bool" where
  "registered c n s i s' \<longleftrightarrow> only_groups s s' \<and> groups_wf s' \<and> group_room c n s' \<and>
     0 \<le> i \<and> i < int (length (vs_gheap s')) \<and> group_isvalid (vs_gheap s' ! nat i)"

lemma revalidate_ok:
  assumes wf: "groups_wf s" "group_room c (Suc n) s" and i: "0 \<le> i" "i < int (length (vs_gheap s))" "group_isvalid (vs_gheap s ! nat i)"
  shows "\<exists>s'. revalidate_group s i = Some (i, s') \<and> registered c n s i s'"
proof -
  have n: "nat i < length (vs_gheap s)" using i by (simp add: nat_less_iff)
  then have same: "(vs_gheap s)[nat i := (vs_gheap s ! nat i)\<lparr>group_isvalid := True\<rparr>] = vs_gheap s" using i(3) by (intro list_update_same_conv [THEN iffD2]) simp_all
  have "chk (vs_stamp s + 1) = Some (vs_stamp s + 1)" using wf(2) by (intro chk_Some) (simp_all add: INT_MIN_def group_room_def)
  then have "revalidate_group s i = Some (i, s\<lparr>vs_stamp := vs_stamp s + 1\<rparr>)"
    using n same i group_get_ok [OF wf(1) i(1), of True] by (simp add: revalidate_group_def)
  moreover have "registered c n s i (s\<lparr>vs_stamp := vs_stamp s + 1\<rparr>)"
    using wf i by (auto simp: registered_def only_groups_def group_room_def ht_room_def)
  ultimately show ?thesis by blast
qed

lemma enter_group_ok:
  assumes wf: "groups_wf s" "group_room c (Suc n) s"
    and g: "group_isvalid g" "group_vars g \<noteq> None" "group_pvars g \<noteq> None" "group_subgroups g \<noteq> None"
  shows "\<exists>s'. enter_group c s g k = Some (int (length (vs_gheap s)), s') \<and> registered c n s (int (length (vs_gheap s))) s' \<and>
    vs_gheap s' = vs_gheap s @ [g\<lparr>group_full_name := Some k\<rparr>]"
proof -
  let ?m = "length (vs_gheap s)"
  obtain G where G: "ht_names (vs_ghash s) G" "\<And>k i. G k = Some i \<Longrightarrow> 0 \<le> i \<and> i < int ?m"
    using wf(1) by (auto simp: groups_wf_def)
  obtain t where t: "ocoms_pointer_array_add (mc_cells c) (vs_groups s) (Some ?m) = Some (int ?m, t)"
    "pa_filled t (Suc ?m)" "pa_size t = pa_size (vs_groups s)"
    using pa_filled_add [of "vs_groups s" ?m "mc_cells c"] wf by (auto simp: groups_wf_def group_room_def)
  obtain ht where ht: "set_name c (vs_ghash s) k (int ?m) = Some (OCOMS_SUCCESS, ht)"
    "ht_names ht (G(k \<mapsto> int ?m))" "ht_room c n ht"
    using set_name_ok [OF G(1), of c n k "int ?m"] wf(2) by (auto simp: group_room_def)
  let ?s = "s\<lparr>vs_groups := t, vs_gheap := vs_gheap s @ [g\<lparr>group_full_name := Some k\<rparr>], vs_ghash := ht,
    vs_gcount := vs_gcount s + 1, vs_stamp := vs_stamp s + 1\<rparr>"
  have "groups_wf ?s" unfolding groups_wf_def
  proof (intro conjI exI)
    show "ht_names (vs_ghash ?s) (G(k \<mapsto> int ?m))" using ht(2) by simp
    show "\<forall>k' i. (G(k \<mapsto> int ?m)) k' = Some i \<longrightarrow> 0 \<le> i \<and> i < int (length (vs_gheap ?s))" using G(2) by (fastforce split: if_splits)
  qed (use t(2) g wf(1) in \<open>auto simp: groups_wf_def\<close>)
  then have "registered c n s (int ?m) ?s"
    using ht(3) t(3) wf(2) g(1) by (simp add: registered_def only_groups_def group_room_def)
  moreover have "chk (vs_gcount s + 1) = Some (vs_gcount s + 1)" "chk (vs_stamp s + 1) = Some (vs_stamp s + 1)"
    using wf(2) by (auto intro!: chk_Some simp: group_room_def INT_MIN_def)
  then have "enter_group c s g k = Some (int ?m, ?s)" by (simp add: enter_group_def t(1) ht(1))
  ultimately show ?thesis by (intro exI [of _ ?s]) simp
qed

lemma new_group_valid:
  "group_isvalid (ocoms_mca_base_var_group_constructor\<lparr>group_isvalid := True, group_project := a, group_framework := b, group_component := d, group_description := e\<rparr>)"
  "group_vars (ocoms_mca_base_var_group_constructor\<lparr>group_isvalid := True, group_project := a, group_framework := b, group_component := d, group_description := e\<rparr>) \<noteq> None"
  "group_pvars (ocoms_mca_base_var_group_constructor\<lparr>group_isvalid := True, group_project := a, group_framework := b, group_component := d, group_description := e\<rparr>) \<noteq> None"
  "group_subgroups (ocoms_mca_base_var_group_constructor\<lparr>group_isvalid := True, group_project := a, group_framework := b, group_component := d, group_description := e\<rparr>) \<noteq> None"
  by (simp_all add: ocoms_mca_base_var_group_constructor_def)

text \<open>The resources every registration uses.\<close>

definition mca_memory :: "mca_ctx \<Rightarrow> bool" where
  "mca_memory c \<longleftrightarrow> calloc_names c \<and> argv_mem_total (mc_mem c) \<and> mc_obj_new c"

lemma registered_trans:
  "registered c n s i s1 \<Longrightarrow> registered c m s1 j s2 \<Longrightarrow> registered c m s j s2"
  by (auto simp: registered_def intro: only_groups_trans)

lemma group_register_leaf:
  assumes wf: "groups_wf s" "group_room c (Suc n) s" "vs_ready s" "mca_memory c" and fw: "short (Some f)"
  shows "\<exists>i s'. group_register c s p (Some f) None d = Some (i, s') \<and> registered c n s i s'"
proof -
  let ?s = "s\<lparr>vs_ghash := ht_typed (vs_ghash s)\<rparr>"
  have sh: "short None" by (simp add: short_def)
  have m: "calloc_names c" "argv_mem_total (mc_mem c)" "mc_obj_new c" using wf(4) by (simp_all add: mca_memory_def)
  obtain ret where f: "group_find c s None (Some f) None True = Some (ret, ?s)"
    "ret = OCOMS_ERR_NOT_FOUND \<or> 0 \<le> ret \<and> ret < int (length (vs_gheap s)) \<and> group_isvalid (vs_gheap s ! nat ret)"
    using group_find_ok [OF wf(1,3) m(1) fw sh] by blast
  have wf': "groups_wf ?s" "group_room c (Suc n) ?s" using wf by simp_all
  have og: "only_groups s ?s" by simp
  show ?thesis
  proof (cases "0 \<le> ret")
    case True
    then obtain s' where "revalidate_group ?s ret = Some (ret, s')" "registered c n ?s ret s'"
      using revalidate_ok [OF wf', of ret] f(2) by (auto simp: OCOMS_ERR_NOT_FOUND_def)
    then show ?thesis using f(1) True only_groups_trans [OF og, of s']
      by (subst group_register.simps) (simp add: registered_def)
  next
    case False
    let ?g = "ocoms_mca_base_var_group_constructor\<lparr>group_isvalid := True, group_project := None,
      group_framework := Some f, group_component := None, group_description := d\<rparr>"
    let ?k = "join_names '''' [None, None, Some f, None]"
    have gen: "ocoms_mca_base_var_generate_full_name4 c None None (Some f) None = Some (OCOMS_SUCCESS, Some ?k)"
      using fw m(1) sh by (intro gen_name_ok) auto
    obtain s' where "enter_group c ?s ?g ?k = Some (int (length (vs_gheap ?s)), s')" "registered c n ?s (int (length (vs_gheap ?s))) s'"
      using enter_group_ok [OF wf' new_group_valid] by blast
    then show ?thesis using f(1) False m gen only_groups_trans [OF og, of s']
      by (subst group_register.simps) (simp add: group_strings_ok registered_def del: join_names.simps)
  qed
qed

lemma enter_in_parent_ok:
  assumes "registered c n s i s1" and "registered c n s j s1"
  shows "\<exists>s'. enter_in_parent s1 i j = Some s' \<and> registered c n s j s'"
proof -
  have wf: "groups_wf s1" and i: "0 \<le> i" "i < int (length (vs_gheap s1))" "group_isvalid (vs_gheap s1 ! nat i)" "nat i < length (vs_gheap s1)"
    using assms(1) by (auto simp: registered_def nat_less_iff)
  let ?g = "vs_gheap s1 ! nat i"
  have "?g \<in> set (vs_gheap s1)" using i(4) by simp
  then have a: "group_vars ?g \<noteq> None" "group_pvars ?g \<noteq> None" "group_subgroups ?g \<noteq> None"
    using wf i(3) unfolding groups_wf_def by blast+
  then obtain xs where xs: "group_subgroups ?g = Some xs" by blast
  let ?h = "?g\<lparr>group_subgroups := Some (xs @ [j])\<rparr>"
  let ?s = "s1\<lparr>vs_gheap := (vs_gheap s1)[nat i := ?h]\<rparr>"
  have "enter_in_parent s1 i j = Some ?s"
    using group_get_ok [OF wf i(1), of False] i xs by (simp add: enter_in_parent_def va_append_def)
  moreover have "groups_wf ?s" using groups_wf_upd [OF wf i(4), of ?h] a by simp
  moreover have "only_groups s ?s" using assms(2) by (simp add: registered_def only_groups_def)
  moreover have "group_isvalid (vs_gheap ?s ! nat j)" using assms(2) i(3) by (cases "nat i = nat j") (auto simp: registered_def)
  ultimately show ?thesis using assms(2) by (auto simp: registered_def group_room_def)
qed

lemma registered_mono: "registered c (Suc n) s i s' \<Longrightarrow> registered c n s i s'"
  by (auto simp: registered_def group_room_def ht_room_def)

text \<open>
  Registering a group always returns its index when it has a name and there is room, or -1 when it
  has none.
\<close>

lemma group_register_ok:
  assumes wf: "groups_wf s" "group_room c (Suc (Suc n)) s" "vs_ready s" "mca_memory c" and names: "short fw" "short cn"
  shows "\<exists>i s'. group_register c s None fw cn d = Some (i, s') \<and>
    (if fw = None \<and> cn = None then i = - 1 \<and> s' = s else registered c n s i s')"
proof (cases "fw = None \<and> cn = None")
  case True
  then show ?thesis by (simp add: group_register.simps)
next
  case False
  note some = this
  let ?s = "s\<lparr>vs_ghash := ht_typed (vs_ghash s)\<rparr>"
  have sh: "short None" by (simp add: short_def)
  have m: "calloc_names c" "argv_mem_total (mc_mem c)" "mc_obj_new c" using wf(4) by (simp_all add: mca_memory_def)
  obtain ret where f: "group_find c s None fw cn True = Some (ret, ?s)"
    "ret = OCOMS_ERR_NOT_FOUND \<or> 0 \<le> ret \<and> ret < int (length (vs_gheap s)) \<and> group_isvalid (vs_gheap s ! nat ret)"
    using group_find_ok [OF wf(1,3) m(1) names] some by blast
  have wf': "groups_wf ?s" "group_room c (Suc (Suc n)) ?s" "vs_ready ?s" using wf by simp_all
  have og: "only_groups s ?s" by simp
  show ?thesis
  proof (cases "0 \<le> ret")
    case True
    then obtain s' where "revalidate_group ?s ret = Some (ret, s')" "registered c (Suc n) ?s ret s'"
      using revalidate_ok [OF wf'(1,2), of ret] f(2) by (auto simp: OCOMS_ERR_NOT_FOUND_def)
    then show ?thesis using f(1) True some only_groups_trans [OF og, of s'] registered_mono
      by (subst group_register.simps) (auto simp: registered_def group_room_def ht_room_def)
  next
    case False
    let ?g = "ocoms_mca_base_var_group_constructor\<lparr>group_isvalid := True, group_project := None,
      group_framework := fw, group_component := cn, group_description := d\<rparr>"
    let ?k = "join_names '''' [None, None, fw, cn]"
    have gen: "ocoms_mca_base_var_generate_full_name4 c None None fw cn = Some (OCOMS_SUCCESS, Some ?k)"
      using names m(1) sh some by (intro gen_name_ok) auto
    show ?thesis
    proof (cases "fw \<noteq> None \<and> cn \<noteq> None")
      case both: True
      then obtain a b where ab: "fw = Some a" "cn = Some b" by auto
      obtain i s1 where i: "group_register c ?s None (Some a) None None = Some (i, s1)" "registered c (Suc n) ?s i s1"
        using group_register_leaf [OF wf' wf(4), of a None None] names(1) ab by blast
      then have s1: "groups_wf s1" "group_room c (Suc n) s1" by (simp_all add: registered_def)
      obtain s2 where s2: "enter_group c s1 ?g ?k = Some (int (length (vs_gheap s1)), s2)"
        "registered c n s1 (int (length (vs_gheap s1))) s2" "vs_gheap s2 = vs_gheap s1 @ [?g\<lparr>group_full_name := Some ?k\<rparr>]"
        using enter_group_ok [OF s1 new_group_valid] by blast
      have "registered c n s1 i s2" using i(2) s2 by (auto simp: registered_def nth_append nat_less_iff)
      then obtain s3 where s3: "enter_in_parent s2 i (int (length (vs_gheap s1))) = Some s3" "registered c n s1 (int (length (vs_gheap s1))) s3"
        using enter_in_parent_ok s2(2) by blast
      have "registered c n s (int (length (vs_gheap s1))) s3"
        using registered_trans [OF i(2) s3(2)] only_groups_trans [OF og] by (auto simp: registered_def)
      moreover have "0 \<le> i" using i(2) by (simp add: registered_def)
      ultimately show ?thesis using f(1) False m gen i(1) s2(1) s3(1) ab
        by (subst group_register.simps) (simp add: group_strings_ok del: join_names.simps)
    next
      case one: False
      obtain s2 where s2: "enter_group c ?s ?g ?k = Some (int (length (vs_gheap ?s)), s2)" "registered c (Suc n) ?s (int (length (vs_gheap ?s))) s2"
        using enter_group_ok [OF wf'(1,2) new_group_valid] by blast
      have "registered c n s (int (length (vs_gheap ?s))) s2"
        using registered_mono [OF s2(2)] only_groups_trans [OF og, of s2] by (simp add: registered_def)
      then show ?thesis using f(1) False m gen s2(1) one some
        by (subst group_register.simps) (cases fw; cases cn; simp add: group_strings_ok del: join_names.simps)
    qed
  qed
qed

end
