(* ===== verification/Mca_Var_Props.thy ===== *)
theory Mca_Var_Props
  imports Mca_Group_Props
begin

text \<open>
  The invariant of the MCA variables of \<open>ocoms/mca/base/mca_base_var.c\<close>: every index has its
  variable and every name its index.  Registration, of variables and of synonyms, and the search for
  the initial value keep it.
\<close>

section \<open>Well-formed variables\<close>

definition var_names :: "mca \<Rightarrow> string list" where
  "var_names s = map (the \<circ> mbv_full_name) (vs_heap s)"

definition vars_wf :: "mca \<Rightarrow> bool" where
  "vars_wf s \<longleftrightarrow> vs_ready s \<and> pa_filled (vs_vars s) (length (vs_heap s)) \<and>
     (\<forall>v \<in> set (vs_heap s). mbv_full_name v \<noteq> None) \<and> distinct (var_names s) \<and>
     ht_names (vs_hash s) (name_map (var_names s)) \<and> (\<forall>i < length (vs_heap s). mbv_index (vs_heap s ! i) = int i)"

lemma var_names_length [simp]: "length (var_names s) = length (vs_heap s)"
  by (simp add: var_names_def)

lemma var_get_one_ok: "vars_wf s \<Longrightarrow> var_get_one s i =
   Some (if 0 \<le> i \<and> i < int (length (vs_heap s)) then (OCOMS_SUCCESS, Some (nat i)) else (OCOMS_ERR_BAD_PARAM, None))"
  by (auto simp: var_get_one_def vars_wf_def pa_filled_get)

lemma var_get_ok: "vars_wf s \<Longrightarrow> a < length (vs_heap s) \<Longrightarrow> \<not> original \<or> \<not> VAR_IS_SYNONYM (vs_heap s ! a) \<Longrightarrow>
   var_get s (int a) original = Some (OCOMS_SUCCESS, Some a)"
  by (auto simp: var_get_def var_get_one_ok)

lemma vars_wf_typed [simp]: "vars_wf s \<Longrightarrow> vars_wf (s\<lparr>vs_hash := ht_typed (vs_hash s)\<rparr>)"
  by (simp add: vars_wf_def var_names_def)

lemma vars_wf_store [simp]: "vars_wf (s\<lparr>vs_store := m\<rparr>) = vars_wf s" "groups_wf (s\<lparr>vs_store := m\<rparr>) = groups_wf s"
  by (simp_all add: vars_wf_def var_names_def groups_wf_def)

lemma vars_wf_files [simp]: "vars_wf (s\<lparr>vs_file_list := m\<rparr>) = vars_wf s" "groups_wf (s\<lparr>vs_file_list := m\<rparr>) = groups_wf s"
  by (simp_all add: vars_wf_def var_names_def groups_wf_def)

lemma groups_wf_vars [simp]: "groups_wf (s\<lparr>vs_heap := h\<rparr>) = groups_wf s" "groups_wf (s\<lparr>vs_hash := ht\<rparr>) = groups_wf s"
  "groups_wf (s\<lparr>vs_count := n\<rparr>) = groups_wf s" "groups_wf (s\<lparr>vs_vars := t\<rparr>) = groups_wf s"
  by (simp_all add: groups_wf_def)

lemma vars_wf_upd:
  assumes "vars_wf s" and "a < length (vs_heap s)" and "mbv_full_name w = mbv_full_name (vs_heap s ! a)" and "mbv_index w = mbv_index (vs_heap s ! a)"
  shows "vars_wf (s\<lparr>vs_heap := (vs_heap s)[a := w]\<rparr>)"
proof -
  have "map mbv_full_name ((vs_heap s)[a := w]) = map mbv_full_name (vs_heap s)"
    using assms(2,3) by (simp add: map_update list_update_same_conv)
  from arg_cong [OF this, of "map the"] have names: "var_names (s\<lparr>vs_heap := (vs_heap s)[a := w]\<rparr>) = var_names s"
    by (simp add: var_names_def)
  have "mbv_full_name w \<noteq> None" using assms by (auto simp: vars_wf_def)
  moreover have "mbv_index ((vs_heap s)[a := w] ! i) = int i" if "i < length (vs_heap s)" for i
    using assms that by (cases "i = a") (simp_all add: vars_wf_def)
  ultimately show ?thesis
    using assms(1) names unfolding vars_wf_def by (auto dest!: set_update_subset_insert [THEN subsetD])
qed

lemma vars_wf_groups: "only_groups s s' \<Longrightarrow> vars_wf s' = vars_wf s"
  by (simp add: only_groups_def vars_wf_def var_names_def)

lemma var_find_by_name_ok:
  assumes "vars_wf s"
  shows "var_find_by_name c s k iok = Some (case name_map (var_names s) k of
      Some i \<Rightarrow> if iok \<or> VAR_IS_VALID (vs_heap s ! nat i) then (OCOMS_SUCCESS, Some i, s\<lparr>vs_hash := ht_typed (vs_hash s)\<rparr>)
                else (OCOMS_ERR_NOT_FOUND, None, s\<lparr>vs_hash := ht_typed (vs_hash s)\<rparr>)
    | None \<Rightarrow> (OCOMS_ERR_NOT_FOUND, None, s\<lparr>vs_hash := ht_typed (vs_hash s)\<rparr>))"
proof -
  let ?s = "s\<lparr>vs_hash := ht_typed (vs_hash s)\<rparr>"
  have H: "ht_names (vs_hash s) (name_map (var_names s))" using assms by (simp add: vars_wf_def)
  have wf': "vars_wf ?s" using assms by simp
  show ?thesis
  proof (cases "name_map (var_names s) k")
    case None
    then show ?thesis using find_name_ok [OF H, of c k] by (simp add: var_find_by_name_def del: name_map_None)
  next
    case (Some i)
    then have i: "0 \<le> i" "i < int (length (vs_heap s))" "nat i < length (vs_heap s)" using name_map_Some by (fastforce simp: nat_less_iff)+
    have "var_get ?s i False = Some (OCOMS_SUCCESS, Some (nat i))" using var_get_ok [OF wf', of "nat i" False] i by simp
    then show ?thesis using find_name_ok [OF H, of c k] Some i by (cases iok) (simp_all add: var_find_by_name_def)
  qed
qed

text \<open>A variable is entered in its group.\<close>

lemma add_var_ok:
  assumes wf: "groups_wf s" "group_room c (Suc n) s" and i: "0 \<le> i" "i < int (length (vs_gheap s))" "group_isvalid (vs_gheap s ! nat i)"
  shows "\<exists>ret s'. ocoms_mca_base_var_group_add_var s i v = Some (ret, s') \<and> only_groups s s' \<and> groups_wf s' \<and> group_room c n s'"
proof -
  have n: "nat i < length (vs_gheap s)" using i by (simp add: nat_less_iff)
  let ?g = "vs_gheap s ! nat i"
  have "?g \<in> set (vs_gheap s)" using n by simp
  then have a: "group_vars ?g \<noteq> None" "group_pvars ?g \<noteq> None" "group_subgroups ?g \<noteq> None"
    using wf i(3) unfolding groups_wf_def by blast+
  then obtain xs where xs: "group_vars ?g = Some xs" by blast
  show ?thesis
  proof (cases "index_of v xs 0")
    case (Some k)
    then have "ocoms_mca_base_var_group_add_var s i v = Some (int k, s)"
      using group_get_ok [OF wf(1) i(1), of False] i n xs by (simp add: ocoms_mca_base_var_group_add_var_def va_items_def)
    then show ?thesis using wf by (auto simp: only_groups_def group_room_def ht_room_def)
  next
    case None
    let ?h = "?g\<lparr>group_vars := Some (xs @ [v])\<rparr>"
    let ?s = "s\<lparr>vs_gheap := (vs_gheap s)[nat i := ?h], vs_stamp := vs_stamp s + 1\<rparr>"
    have "chk (vs_stamp s + 1) = Some (vs_stamp s + 1)" using wf(2) by (intro chk_Some) (simp_all add: INT_MIN_def group_room_def)
    then have "ocoms_mca_base_var_group_add_var s i v = Some (int (length xs), ?s)"
      using None group_get_ok [OF wf(1) i(1), of False] i n xs by (simp add: ocoms_mca_base_var_group_add_var_def va_items_def va_append_def)
    moreover have "groups_wf ?s" using groups_wf_upd [OF wf(1) n, of ?h] a by simp
    ultimately show ?thesis using wf(2) by (auto simp: only_groups_def group_room_def ht_room_def)
  qed
qed

section \<open>Registration\<close>

definition var_room :: "mca_ctx \<Rightarrow> nat \<Rightarrow> mca \<Rightarrow> bool" where
  "var_room c n s \<longleftrightarrow> int (length (vs_heap s) + n) \<le> pa_size (vs_vars s) \<and> ht_room c n (vs_hash s) \<and>
     0 \<le> vs_count s \<and> vs_count s + int n < INT_MAX \<and> group_room c (3 * n) s"

lemma group_room_mono: "group_room c n s \<Longrightarrow> m \<le> n \<Longrightarrow> group_room c m s"
  by (auto simp: group_room_def intro: ht_room_mono)

text \<open>The variable that a registration makes.\<close>

definition made_var :: "mca_ctx \<Rightarrow> var_spec \<Rightarrow> string \<Rightarrow> nat \<Rightarrow> int \<Rightarrow> ocoms_mca_base_var_t" where
  "made_var c r name n gi = variable_object c r gi (Some name) (Some name)
     (Some (join_names '''' [None, vr_framework r, vr_component r, Some name])) (int n)"

lemma made_var_simps [simp]:
  "mbv_full_name (made_var c r name n gi) = Some name" "mbv_index (made_var c r name n gi) = int n"
  "mbv_long_name (made_var c r name n gi) = Some (join_names '''' [None, vr_framework r, vr_component r, Some name])"
  "mbv_type (made_var c r name n gi) = vr_type r" "mbv_synonyms (made_var c r name n gi) = Some []"
  "mbv_synonym_for (made_var c r name n gi) = vr_synonym_for r"
  "mbv_flags (made_var c r name n gi) = (if not_settable r then vr_flags r AND NOT MCA_BASE_VAR_FLAG_SETTABLE else vr_flags r)"
  by (simp_all add: made_var_def variable_object_def var_constructor_def)

lemma new_variable_ok:
  assumes wf: "vars_wf s" "groups_wf s" "var_room c (Suc k) s" "mca_memory c"
    and names: "short (vr_framework r)" "short (vr_component r)" "vr_name r = Some name" "short (Some name)" "name \<notin> set (var_names s)"
    and flags: "\<not> (isset MCA_BASE_VAR_FLAG_DEFAULT_ONLY (vr_flags r) \<and> isset MCA_BASE_VAR_FLAG_SETTABLE (vr_flags r))"
  shows "\<exists>gi s'. new_variable c s r = Some (Inr (int (length (vs_heap s)), length (vs_heap s)), s') \<and> vars_wf s' \<and> groups_wf s' \<and> var_room c k s' \<and>
    vs_heap s' = vs_heap s @ [made_var c r name (length (vs_heap s)) gi] \<and> vs_store s' = vs_store s \<and> vs_home s' = vs_home s \<and>
    vs_file_values s' = vs_file_values s \<and> vs_override_values s' = vs_override_values s \<and> vs_file_list s' = vs_file_list s \<and>
    pa_size (vs_vars s') = pa_size (vs_vars s)"
proof -
  let ?n = "length (vs_heap s)"
  have m: "calloc_names c" "argv_mem_total (mc_mem c)" "mc_obj_new c" using wf(4) by (simp_all add: mca_memory_def)
  have ready: "vs_ready s" using wf(1) by (simp add: vars_wf_def)
  have room: "group_room c (Suc (Suc (Suc (3 * k)))) s"
  proof -
    have "3 * Suc k = Suc (Suc (Suc (3 * k)))" by simp
    then show ?thesis using wf(3) unfolding var_room_def by metis
  qed
  then obtain gi s1 where g: "ocoms_mca_base_var_group_register c s None (vr_framework r) (vr_component r) None = Some (gi, s1)"
    "if vr_framework r = None \<and> vr_component r = None then gi = - 1 \<and> s1 = s else registered c (Suc (3 * k)) s gi s1"
    using group_register_ok [OF wf(2) _ ready wf(4) names(1,2)] unfolding ocoms_mca_base_var_group_register_def by blast
  have og: "only_groups s s1" and gw: "groups_wf s1" "group_room c (Suc (3 * k)) s1" and gi: "\<not> gi < - 1"
    using g(2) wf(2) room by (auto simp: registered_def only_groups_def intro: group_room_mono split: if_splits)
  note same = only_groupsD [OF og]
  have gen: "ocoms_mca_base_var_generate_full_name4 c None None None (vr_name r) = Some (OCOMS_SUCCESS, Some name)"
    "ocoms_mca_base_var_generate_full_name4 c None (vr_framework r) (vr_component r) (vr_name r) =
       Some (OCOMS_SUCCESS, Some (join_names '''' [None, vr_framework r, vr_component r, Some name]))"
    using gen_name_ok [OF m(1), of None None None "vr_name r"] gen_name_ok [OF m(1), of None "vr_framework r" "vr_component r" "vr_name r"] names
    by (simp_all add: short_def)
  obtain t where t: "ocoms_pointer_array_add (mc_cells c) (vs_vars s) (Some ?n) = Some (int ?n, t)" "pa_filled t (Suc ?n)" "pa_size t = pa_size (vs_vars s)"
    using pa_filled_add [of "vs_vars s" ?n "mc_cells c"] wf(1,3) by (auto simp: vars_wf_def var_room_def)
  let ?v = "made_var c r name ?n gi"
  have obj: "variable_object c r gi (Some name) (Some name) (Some (join_names '''' [None, vr_framework r, vr_component r, Some name])) (int ?n) = ?v"
    by (simp add: made_var_def)
  let ?s2 = "s1\<lparr>vs_vars := t, vs_heap := vs_heap s1 @ [?v]\<rparr>"
  obtain s3 where s3: "if 0 \<le> gi then \<exists>ret. ocoms_mca_base_var_group_add_var ?s2 gi (int ?n) = Some (ret, s3) else s3 = ?s2"
    "only_groups ?s2 s3" "groups_wf s3" "group_room c (3 * k) s3"
  proof (cases "0 \<le> gi")
    case True
    then have r1: "registered c (Suc (3 * k)) s gi s1" using g(2) by (auto split: if_splits)
    have w2: "groups_wf ?s2" "group_room c (Suc (3 * k)) ?s2" using gw by (simp_all add: group_room_def)
    from add_var_ok [OF w2 True, of "int ?n"] r1 obtain ret s3 where
      "ocoms_mca_base_var_group_add_var ?s2 gi (int ?n) = Some (ret, s3)" "only_groups ?s2 s3" "groups_wf s3" "group_room c (3 * k) s3"
      by (auto simp: registered_def)
    then show ?thesis using that [of s3] True by simp
  next
    case False
    then show ?thesis using that [of ?s2] gw group_room_mono [OF gw(2), of "3 * k"] by (simp add: only_groups_def group_room_def)
  qed
  note same3 = only_groupsD [OF s3(2)]
  have H: "ht_names (vs_hash s) (name_map (var_names s))" "ht_room c (Suc k) (vs_hash s)" using wf(1,3) by (simp_all add: vars_wf_def var_room_def)
  obtain ht where ht: "set_name c (vs_hash s) name (int ?n) = Some (OCOMS_SUCCESS, ht)" "ht_names ht ((name_map (var_names s))(name \<mapsto> int ?n))" "ht_room c k ht"
    using set_name_ok [OF H] by blast
  let ?s4 = "s3\<lparr>vs_count := vs_count s + 1, vs_hash := ht\<rparr>"
  have "chk (vs_count s + 1) = Some (vs_count s + 1)" using wf(3) by (intro chk_Some) (simp_all add: INT_MIN_def var_room_def)
  then have run: "new_variable c s r = Some (Inr (int ?n, ?n), ?s4)"
    using g(1) gi gen names(3) m t(1) s3(1) ht(1) same flags
    by (cases "0 \<le> gi") (auto simp: new_variable_def same3 Let_def obj simp del: join_names.simps)
  have names4: "var_names ?s4 = var_names s @ [name]" by (simp add: var_names_def same3 same)
  have "vars_wf ?s4"
    unfolding vars_wf_def
  proof (intro conjI)
    show "ht_names (vs_hash ?s4) (name_map (var_names ?s4))" using ht(2) names(5) unfolding names4 by (simp add: name_map_snoc)
    show "distinct (var_names ?s4)" using names(5) wf(1) unfolding names4 by (simp add: vars_wf_def)
    show "\<forall>i<length (vs_heap ?s4). mbv_index (vs_heap ?s4 ! i) = int i"
      using wf(1) by (auto simp: same3 same vars_wf_def nth_append less_Suc_eq)
  qed (use wf(1) ready t(2) in \<open>auto simp: same3 same vars_wf_def\<close>)
  moreover have "groups_wf ?s4" using s3(3) by simp
  moreover have "var_room c k ?s4"
    using wf(3) t(3) ht(3) s3(4) by (simp add: var_room_def group_room_def same3 same)
  ultimately show ?thesis using run t(3) by (intro exI [of _ gi] exI [of _ ?s4]) (simp add: same3 same)
qed

text \<open>The object after its storage and enumerator are attached.\<close>

definition spec_enum :: "var_spec \<Rightarrow> ocoms_mca_base_var_enum_t option" where
  "spec_enum r = (if vr_type r = MCA_BASE_VAR_TYPE_BOOL then Some Enum_bool else vr_enumerator r)"

definition fresh_var :: "mca_ctx \<Rightarrow> var_spec \<Rightarrow> string \<Rightarrow> nat \<Rightarrow> int \<Rightarrow> ocoms_mca_base_var_t" where
  "fresh_var c r name n gi = (made_var c r name n gi)\<lparr>mbv_enumerator := spec_enum r, mbv_storage := vr_storage r\<rparr>"

lemma fresh_var_simps [simp]:
  "mbv_full_name (fresh_var c r name n gi) = Some name" "mbv_index (fresh_var c r name n gi) = int n"
  "mbv_long_name (fresh_var c r name n gi) = Some (join_names '''' [None, vr_framework r, vr_component r, Some name])"
  "mbv_type (fresh_var c r name n gi) = vr_type r" "mbv_synonyms (fresh_var c r name n gi) = Some []"
  "mbv_enumerator (fresh_var c r name n gi) = spec_enum r" "mbv_storage (fresh_var c r name n gi) = vr_storage r"
  "mbv_flags (fresh_var c r name n gi) = (if not_settable r then vr_flags r AND NOT MCA_BASE_VAR_FLAG_SETTABLE else vr_flags r)"
  by (simp_all add: fresh_var_def del: join_names.simps)

lemma fresh_var_offers:
  "vs_file_values s' = vs_file_values s \<Longrightarrow> vs_override_values s' = vs_override_values s \<Longrightarrow>
   offers c s' (fresh_var c r name n gi) = offers c s (fresh_var c r name 0 0)"
  by (simp add: offers_def file_offer_def env_offer_def del: join_names.simps)

lemma fresh_var_converts:
  "vs_home s' = vs_home s \<Longrightarrow> converts c s' (fresh_var c r name n gi) d x d' = converts c s (fresh_var c r name 0 0) d x d'"
  by (simp add: converts_def vctx_def)

text \<open>What a registration of a new variable that is no synonym asks for.\<close>

definition spec_ok :: "mca_ctx \<Rightarrow> mca \<Rightarrow> var_spec \<Rightarrow> string \<Rightarrow> nat \<Rightarrow> ocoms_mca_base_var_storage_t \<Rightarrow> bool" where
  "spec_ok c s r name addr d \<longleftrightarrow> vr_name r = Some name \<and> short (vr_framework r) \<and> short (vr_component r) \<and> short (Some name) \<and>
     \<not> isset MCA_BASE_VAR_FLAG_SYNONYM (vr_flags r) \<and> \<not> isset MCA_BASE_VAR_FLAG_DEPRECATED (vr_flags r) \<and>
     \<not> (isset MCA_BASE_VAR_FLAG_DEFAULT_ONLY (vr_flags r) \<and> isset MCA_BASE_VAR_FLAG_SETTABLE (vr_flags r)) \<and>
     vr_type r \<noteq> MCA_BASE_VAR_TYPE_MAX \<and> (vr_enumerator r = None \<or> vr_type r = MCA_BASE_VAR_TYPE_INT) \<and>
     vr_storage r = Some addr \<and> vs_store s addr = Some d \<and> has_type (vr_type r) d"

definition inputs_ok :: "mca_ctx \<Rightarrow> mca \<Rightarrow> string \<Rightarrow> bool" where
  "inputs_ok c s name \<longleftrightarrow> named_files (vs_override_values s) \<and> named_files (vs_file_values s) \<and>
     mc_getenv c (mca_prefix @ ''SOURCE_'' @ name) = None"

lemma attach_storage_plain:
  assumes "a < length (vs_heap s)" "\<not> isset MCA_BASE_VAR_FLAG_SYNONYM (vr_flags r)" "vr_storage r = Some addr"
    "vs_store s addr = Some d" "has_type (vr_type r) d" "argv_mem_total (mc_mem c)"
  shows "attach_storage c s i a r = Some (s\<lparr>vs_heap := (vs_heap s)[a := (vs_heap s ! a)\<lparr>mbv_storage := Some addr\<rparr>]\<rparr>)"
proof (cases "vr_type r = MCA_BASE_VAR_TYPE_STRING")
  case True
  then obtain x where "d = String_store x" using assms(5) by (cases d) (simp_all add: has_type_def)
  then have "(vs_store s)(addr \<mapsto> String_store x) = vs_store s" using assms(4) by (simp add: fun_upd_idem)
  then show ?thesis using assms True \<open>d = String_store x\<close> by (simp add: attach_storage_def)
qed (use assms in \<open>simp add: attach_storage_def\<close>)

lemma attach_at:
  "vs_heap s = xs @ [w] \<Longrightarrow> s\<lparr>vs_heap := xs @ [w]\<rparr> = s"
  by simp

lemma find_new_name:
  assumes "vars_wf s" "mca_memory c" "short (Some name)" "name \<notin> set (var_names s)"
  shows "var_find c s None None None (Some name) iok = Some (OCOMS_ERR_NOT_FOUND, s\<lparr>vs_hash := ht_typed (vs_hash s)\<rparr>)"
proof -
  have "ocoms_mca_base_var_generate_full_name4 c None None None (Some name) = Some (OCOMS_SUCCESS, Some name)"
    using gen_name_ok [of c None None None "Some name"] assms by (simp add: mca_memory_def short_def)
  moreover have "name_map (var_names s) name = None" using assms(4) by simp
  ultimately show ?thesis using var_find_by_name_ok [OF assms(1), of c name iok]
    by (simp add: var_find_def del: name_map_None)
qed

lemma vars_wf_set_at:
  "vars_wf s \<Longrightarrow> a < length (vs_heap s) \<Longrightarrow> mbv_full_name w = mbv_full_name (vs_heap s ! a) \<Longrightarrow>
   mbv_index w = mbv_index (vs_heap s ! a) \<Longrightarrow> vars_wf (set_at s a w addr d)"
  unfolding set_at_def using vars_wf_upd [of s a w] vars_wf_store(1) [where s = "s\<lparr>vs_heap := (vs_heap s)[a := w]\<rparr>"] by simp

lemma var_room_typed [simp]: "var_room c k (s\<lparr>vs_hash := ht_typed (vs_hash s)\<rparr>) = var_room c k s"
  by (simp add: var_room_def group_room_def)

lemma register_variable_ok:
  assumes wf: "vars_wf s" "groups_wf s" "var_room c (Suc k) s" "mca_memory c"
    and r: "spec_ok c s r name addr d" "inputs_ok c s name" and new: "name \<notin> set (var_names s)"
    and conv: "\<forall>p \<in> set (offers c s (fresh_var c r name 0 0)). \<exists>d'. converts c s (fresh_var c r name 0 0) d (snd p) d'"
  shows "\<exists>s' w d' gi. register_variable init c s r = Some (int (length (vs_heap s)), s') \<and> vars_wf s' \<and> groups_wf s' \<and> var_room c k s' \<and>
    vs_heap s' = vs_heap s @ [w] \<and> vs_store s' = (vs_store s)(addr \<mapsto> d') \<and> VAR_IS_VALID w \<and>
    same_var (fresh_var c r name (length (vs_heap s)) gi) w \<and>
    takes_first c s (fresh_var c r name 0 0) d (offers c s (fresh_var c r name 0 0)) (mbv_source w) d' \<and>
    vs_file_values s' = vs_file_values s \<and> vs_override_values s' = vs_override_values s \<and> vs_home s' = vs_home s \<and>
    pa_size (vs_vars s') = pa_size (vs_vars s) \<and> knows_file s w"
proof -
  let ?n = "length (vs_heap s)" and ?s0 = "s\<lparr>vs_hash := ht_typed (vs_hash s)\<rparr>"
  have ready: "vs_ready s" using wf(1) by (simp add: vars_wf_def)
  note sp = r(1) [unfolded spec_ok_def]
  have wf0: "vars_wf ?s0" "groups_wf ?s0" "var_room c (Suc k) ?s0" "name \<notin> set (var_names ?s0)" using wf new by (simp_all add: var_names_def)
  obtain gi s1 where s1: "new_variable c ?s0 r = Some (Inr (int ?n, ?n), s1)" "vars_wf s1" "groups_wf s1"
    "vs_heap s1 = vs_heap s @ [made_var c r name ?n gi]" "vs_store s1 = vs_store s" "vs_home s1 = vs_home s"
    "vs_file_values s1 = vs_file_values s" "vs_override_values s1 = vs_override_values s" "var_room c k s1" "pa_size (vs_vars s1) = pa_size (vs_vars s)"
    using new_variable_ok [OF wf0(1-3) wf(4), of r name] wf0(4) sp by fastforce
  let ?v = "fresh_var c r name ?n gi"
  let ?s2 = "s1\<lparr>vs_heap := vs_heap s @ [?v]\<rparr>"
  have m: "argv_mem_total (mc_mem c)" using wf(4) by (simp add: mca_memory_def)
  let ?t = "s1\<lparr>vs_heap := vs_heap s @ [(made_var c r name ?n gi)\<lparr>mbv_enumerator := spec_enum r\<rparr>]\<rparr>"
  have "attach_storage c ?t (int ?n) ?n r = Some (?t\<lparr>vs_heap := (vs_heap ?t)[?n := (vs_heap ?t ! ?n)\<lparr>mbv_storage := Some addr\<rparr>]\<rparr>)"
    using sp s1(5) m by (intro attach_storage_plain [where d = d]) simp_all
  then have att: "attach_storage c ?t (int ?n) ?n r = Some ?s2" using sp by (simp add: fresh_var_def)
  have pv: "plain_var ?s2 ?n ?v addr d" using sp s1(5) by (simp add: plain_var_def flag_simps del: join_names.simps)
  have fo: "named_files (vs_override_values ?s2)" "named_files (vs_file_values ?s2)" "no_source_env c ?v"
    using r(2) s1(7,8) m by (simp_all add: inputs_ok_def no_source_env_def)
  have of: "offers c ?s2 ?v = offers c s (fresh_var c r name 0 0)" using s1(7,8) by (intro fresh_var_offers) simp_all
  have cv: "converts c ?s2 ?v d x d' = converts c s (fresh_var c r name 0 0) d x d'" for x d' using s1(6) by (intro fresh_var_converts) simp
  obtain w d' where w: "var_set_initial c ?s2 ?n = Some (OCOMS_SUCCESS, set_at ?s2 ?n w addr d')" "same_var ?v w"
    "takes_first c ?s2 ?v d (offers c ?s2 ?v) (mbv_source w) d'" "knows_file ?s2 w"
    using set_initial_ok [OF pv fo] conv unfolding of cv by blast
  let ?w = "w\<lparr>mbv_flags := mbv_flags w OR MCA_BASE_VAR_FLAG_VALID\<rparr>"
  let ?s' = "set_at ?s2 ?n ?w addr d'"
  have heap: "vs_heap ?s' = vs_heap s @ [?w]" by simp
  have up: "set_at ?s2 ?n w addr d'\<lparr>vs_heap := vs_heap s @ [?w]\<rparr> = ?s'" by (simp add: set_at_def)
  have "register_variable init c s r = Some (int ?n, ?s')"
    using ready sp s1(1,4) att w(1) up find_new_name [OF wf(1,4) _ new, of True] 
    by (simp add: register_variable_def spec_enum_def [symmetric] OCOMS_ERR_NOT_FOUND_def cong: if_cong)
  moreover have "vars_wf ?s2"
    using vars_wf_upd [OF s1(2), of ?n ?v] s1(4) by simp
  then have "vars_wf ?s'" using same_varD [OF w(2)] by (intro vars_wf_set_at) simp_all
  moreover have "groups_wf ?s'" using s1(3) by (simp add: set_at_def)
  moreover have "VAR_IS_VALID ?w" by (simp add: flag_simps)
  moreover have "same_var ?v ?w"
    using w(2) by (rule same_var_flags) (simp add: flag_simps)
  moreover have "takes_first c s (fresh_var c r name 0 0) d (offers c s (fresh_var c r name 0 0)) (mbv_source ?w) d'"
    using w(3) unfolding of by (simp add: takes_first_def cv split: list.split_asm)
  moreover have "var_room c k ?s'" using s1(4,9) by (simp add: set_at_def var_room_def group_room_def)
  moreover have "vs_file_values ?s' = vs_file_values s \<and> vs_override_values ?s' = vs_override_values s \<and> vs_home ?s' = vs_home s \<and>
      pa_size (vs_vars ?s') = pa_size (vs_vars s)"
    using s1(6-8,10) by (simp add: set_at_def)
  moreover have "knows_file s ?w" using w(4) s1(7) by (simp add: knows_file_def)
  ultimately show ?thesis using heap s1(5) by (intro exI [of _ ?s'] exI [of _ ?w] exI [of _ d'] exI [of _ gi]) simp
qed

section \<open>What the search for a value leaves alone\<close>

lemma same_var_refl [simp]: "same_var v v"
  by (cases v) (simp add: same_var_def)

lemma same_var_trans: "same_var u v \<Longrightarrow> same_var v w \<Longrightarrow> same_var u w"
  by (cases u; cases v; cases w) (simp add: same_var_def)

text \<open>Two states whose variables differ in sources and flags only.\<close>

definition same_vars :: "mca \<Rightarrow> mca \<Rightarrow> bool" where
  "same_vars s s' \<longleftrightarrow> list_all2 same_var (vs_heap s) (vs_heap s') \<and> vs_ready s' = vs_ready s \<and> vs_vars s' = vs_vars s \<and>
     vs_hash s' = vs_hash s \<and> vs_groups s' = vs_groups s \<and> vs_gheap s' = vs_gheap s \<and> vs_ghash s' = vs_ghash s \<and>
     vs_file_values s' = vs_file_values s \<and> vs_override_values s' = vs_override_values s"

lemma same_vars_refl [simp]: "same_vars s s"
  by (simp add: same_vars_def list_all2_refl)

lemma same_vars_trans: "same_vars s t \<Longrightarrow> same_vars t u \<Longrightarrow> same_vars s u"
  by (auto simp: same_vars_def intro: list_all2_trans [OF same_var_trans])

lemma same_vars_store [simp]: "same_vars s (s\<lparr>vs_store := m\<rparr>)" "same_vars s (s\<lparr>vs_file_list := l\<rparr>)"
  by (simp_all add: same_vars_def list_all2_refl)

lemma same_vars_upd:
  assumes "upd_var a f s = Some s'" and "\<And>v. same_var v (f v)"
  shows "same_vars s s'"
proof -
  have "a < length (vs_heap s)" using assms(1) by (auto simp: upd_var_def bind_eq_Some_conv rdn_def split: if_splits)
  then show ?thesis using assms by (auto simp: same_vars_def list_all2_conv_all_nth nth_list_update)
qed

lemma same_var_upd [simp]:
  "same_var v (v\<lparr>mbv_source := x\<rparr>)" "same_var v (v\<lparr>mbv_source_file := f, mbv_source := x\<rparr>)"
  "same_var v (v\<lparr>mbv_source := x, mbv_source_file := f\<rparr>)"
  "same_var v (v\<lparr>mbv_flags := NOT MCA_BASE_VAR_FLAG_SETTABLE AND (mbv_flags v OR MCA_BASE_VAR_FLAG_OVERRIDE), mbv_source := x\<rparr>)"
  "same_var v (v\<lparr>mbv_flags := mbv_flags v OR MCA_BASE_VAR_FLAG_VALID\<rparr>)"
  by (cases v; auto simp: same_var_def flag_simps dest: bit_imp_le_length)+

text \<open>A run that keeps the variables, where \<open>st\<close> picks the state of a result; and the rules to show it along the code.\<close>

definition keeps :: "('a \<Rightarrow> mca) \<Rightarrow> mca \<Rightarrow> 'a option \<Rightarrow> bool" where
  "keeps st s m \<longleftrightarrow> (\<forall>x. m = Some x \<longrightarrow> same_vars s (st x))"

lemma keeps_end: "keeps st s None" "keeps snd s (Some (r, s))" "keeps id s (Some s)"
  by (simp_all add: keeps_def)

lemma keeps_if: "(b \<Longrightarrow> keeps st s x) \<Longrightarrow> (\<not> b \<Longrightarrow> keeps st s y) \<Longrightarrow> keeps st s (if b then x else y)"
  by simp

lemma keeps_cases:
  "(x = None \<Longrightarrow> keeps st s m) \<Longrightarrow> (\<And>y. x = Some y \<Longrightarrow> keeps st s (f y)) \<Longrightarrow> keeps st s (case x of None \<Rightarrow> m | Some y \<Rightarrow> f y)"
  "(\<And>l. keeps st s (g l)) \<Longrightarrow> (\<And>l. keeps st s (h l)) \<Longrightarrow> keeps st s (case z of Inl l \<Rightarrow> g l | Inr l \<Rightarrow> h l)"
  "(\<And>a b. keeps st s (k a b)) \<Longrightarrow> keeps st s (case p of (a, b) \<Rightarrow> k a b)"
  by (simp_all split: option.split sum.split prod.split)

lemma keeps_pure: "(\<And>x. m = Some x \<Longrightarrow> keeps st s (f x)) \<Longrightarrow> keeps st s (m \<bind> f)"
  by (cases m) (simp_all add: keeps_def)

lemma keeps_bind: "keeps snd s m \<Longrightarrow> (\<And>r s'. keeps st s' (f r s')) \<Longrightarrow> keeps st s (m \<bind> (\<lambda>(r, s'). f r s'))"
  by (cases m) (auto simp: keeps_def intro: same_vars_trans)

lemma keeps_bind_state: "keeps id s m \<Longrightarrow> (\<And>s'. keeps st s' (f s')) \<Longrightarrow> keeps st s (m \<bind> f)"
  by (cases m) (auto simp: keeps_def intro: same_vars_trans)

lemma keeps_upd: "(\<And>v. same_var v (g v)) \<Longrightarrow> keeps id s (upd_var a g s)"
  by (auto simp: keeps_def dest: same_vars_upd)

lemma store_from_string_same: "keeps snd s (store_from_string c s a x)"
  by (auto simp: keeps_def store_from_string_def bind_eq_Some_conv split: prod.splits)

lemma append_filename_same: "keeps snd s (append_filename_to_list c s f)"
  by (auto simp: keeps_def append_filename_to_list_def bind_eq_Some_conv Let_def)

lemmas keeps_rules = keeps_end keeps_if keeps_cases store_from_string_same keeps_upd same_var_upd
  keeps_bind [OF append_filename_same] keeps_bind_state [OF keeps_upd]

lemma set_from_file_same: "keeps snd s (var_set_from_file c s a fvs)"
  unfolding var_set_from_file_def by (rule keeps_rules | rule keeps_pure)+

lemma env_source_same: "keeps id s (env_source c s b x)"
  unfolding env_source_def by (rule keeps_rules | rule keeps_pure)+

lemma set_from_env_same: "keeps snd s (var_set_from_env c s a)"
  unfolding var_set_from_env_def by (rule keeps_rules keeps_bind_state [OF env_source_same] | rule keeps_pure)+

lemma set_initial_same: "keeps snd s (var_set_initial c s a)"
  unfolding var_set_initial_def
  by (rule keeps_rules keeps_bind [OF set_from_file_same] keeps_bind [OF set_from_env_same] | rule keeps_bind_state)+

lemma vars_wf_same:
  assumes "same_vars s s'" and "vars_wf s"
  shows "vars_wf s'"
proof -
  have l: "length (vs_heap s') = length (vs_heap s)" using assms(1) by (auto simp: same_vars_def dest: list_all2_lengthD)
  have v: "same_var (vs_heap s ! i) (vs_heap s' ! i)" if "i < length (vs_heap s)" for i
    using assms(1) that by (simp add: same_vars_def list_all2_conv_all_nth)
  have "map (the \<circ> mbv_full_name) (vs_heap s') = map (the \<circ> mbv_full_name) (vs_heap s)"
    using l same_varD(1) [OF v] by (intro nth_equalityI) simp_all
  then have "var_names s' = var_names s" by (simp add: var_names_def)
  moreover have "\<forall>w \<in> set (vs_heap s'). mbv_full_name w \<noteq> None"
    using assms(2) same_varD(1) [OF v] l unfolding vars_wf_def by (metis in_set_conv_nth nth_mem)
  moreover have "\<forall>i < length (vs_heap s'). mbv_index (vs_heap s' ! i) = int i"
    using assms(2) same_varD(3) [OF v] l by (simp add: vars_wf_def)
  ultimately show ?thesis using assms l by (simp add: vars_wf_def same_vars_def)
qed

lemma groups_wf_same: "same_vars s s' \<Longrightarrow> groups_wf s' = groups_wf s"
  by (simp add: same_vars_def groups_wf_def)

text \<open>The codes of a run are success or errors.\<close>

definition codes :: "(int \<times> 'a) option \<Rightarrow> bool" where
  "codes m \<longleftrightarrow> (\<forall>r x. m = Some (r, x) \<longrightarrow> r \<le> 0)"

lemma codes_end: "codes None" "r \<le> 0 \<Longrightarrow> codes (Some (r, x))"
  by (simp_all add: codes_def)

lemma codes_if: "(b \<Longrightarrow> codes m) \<Longrightarrow> (\<not> b \<Longrightarrow> codes n) \<Longrightarrow> codes (if b then m else n)"
  by simp

lemma codes_cases:
  "(x = None \<Longrightarrow> codes m) \<Longrightarrow> (\<And>y. x = Some y \<Longrightarrow> codes (f y)) \<Longrightarrow> codes (case x of None \<Rightarrow> m | Some y \<Rightarrow> f y)"
  "(\<And>l. z = Inl l \<Longrightarrow> codes (g l)) \<Longrightarrow> (\<And>l. codes (h l)) \<Longrightarrow> codes (case z of Inl l \<Rightarrow> g l | Inr l \<Rightarrow> h l)"
  "(\<And>a b. p = (a, b) \<Longrightarrow> codes (k a b)) \<Longrightarrow> codes (case p of (a, b) \<Rightarrow> k a b)"
  by (simp_all split: option.split sum.split prod.split)

lemma codes_pure: "(\<And>x. m = Some x \<Longrightarrow> codes (f x)) \<Longrightarrow> codes (m \<bind> f)"
  by (cases m) (simp_all add: codes_def)

lemma codes_bind: "codes m \<Longrightarrow> (\<And>r x. r \<le> 0 \<Longrightarrow> codes (f r x)) \<Longrightarrow> codes (m \<bind> (\<lambda>(r, x). f r x))"
  by (cases m) (simp add: codes_def, fastforce simp: codes_def)

lemma enum_codes: "codes (enum_value_from_string e s)"
proof (cases e)
  case Enum_bool
  show ?thesis unfolding Enum_bool enum_value_from_string.simps Let_def
    by (rule codes_if codes_cases | rule codes_end(2), simp add: OCOMS_SUCCESS_def OCOMS_ERR_VALUE_OUT_OF_BOUNDS_def)+
next
  case (Enum_table nm vs)
  show ?thesis unfolding Enum_table enum_value_from_string.simps Let_def
    by (rule codes_pure codes_cases(3))+ (simp add: codes_def OCOMS_SUCCESS_def OCOMS_ERR_VALUE_OUT_OF_BOUNDS_def split: option.split)
qed

lemma int_from_string_codes: "codes (int_from_string src e)"
  unfolding int_from_string_def Let_def
  by (rule codes_if codes_cases codes_bind [OF enum_codes] codes_end(1) | rule codes_pure | rule codes_end(2), simp add: OCOMS_SUCCESS_def)+

lemma var_set_from_string_codes: "codes (var_set_from_string c t e d x)"
  unfolding var_set_from_string_def Let_def
  by (rule codes_if codes_bind [OF int_from_string_codes] codes_end(1) | rule codes_pure codes_cases
      | rule codes_end(2), simp add: OCOMS_SUCCESS_def OCOMS_ERROR_def OCOMS_ERR_VALUE_OUT_OF_BOUNDS_def)+

lemma store_from_string_codes: "codes (store_from_string c s a x)"
  unfolding store_from_string_def
  by (rule codes_bind [OF var_set_from_string_codes] codes_end(1) | rule codes_pure | rule codes_end(2), simp)+

lemma target_codes: "target_of s a l = Some (Inl ret) \<Longrightarrow> ret \<le> 0"
  by (auto simp: target_of_def bind_eq_Some_conv OCOMS_ERROR_def OCOMS_SUCCESS_def split: if_splits)

lemma set_from_file_codes: "codes (var_set_from_file c s a fvs)"
  unfolding var_set_from_file_def
  by (rule codes_if codes_cases store_from_string_codes codes_end(1) | rule codes_pure
      | rule codes_end(2), use target_codes in \<open>auto simp: OCOMS_ERR_NOT_FOUND_def\<close>)+

lemma set_from_env_codes: "codes (var_set_from_env c s a)"
  unfolding var_set_from_env_def
  by (rule codes_if codes_cases store_from_string_codes codes_end(1) | rule codes_pure
      | rule codes_end(2), use target_codes in \<open>auto simp: OCOMS_ERR_NOT_FOUND_def OCOMS_ERROR_def\<close>)+

lemma set_initial_codes: "codes (var_set_initial c s a)"
  unfolding var_set_initial_def
  by (rule codes_if codes_bind [OF set_from_file_codes] codes_bind [OF set_from_env_codes] codes_end(1) | rule codes_pure codes_cases
      | rule codes_end(2), simp add: OCOMS_SUCCESS_def)+

text \<open>Entering a synonym: its original gets one more index, and nothing else changes.\<close>

lemma attach_synonym:
  assumes wf: "vars_wf s" and syn: "isset MCA_BASE_VAR_FLAG_SYNONYM (vr_flags r)" "0 \<le> vr_synonym_for r" "vr_synonym_for r < int (length (vs_heap s))"
    and run: "attach_storage c s i a r = Some s'"
  shows "vars_wf s' \<and> length (vs_heap s') = length (vs_heap s) \<and> vs_gheap s' = vs_gheap s \<and> vs_vars s' = vs_vars s \<and> vs_hash s' = vs_hash s \<and>
    (\<forall>b < length (vs_heap s). mbv_flags (vs_heap s' ! b) = mbv_flags (vs_heap s ! b) \<and>
       mbv_synonym_for (vs_heap s' ! b) = mbv_synonym_for (vs_heap s ! b) \<and> mbv_full_name (vs_heap s' ! b) = mbv_full_name (vs_heap s ! b) \<and>
       mbv_source (vs_heap s' ! b) = mbv_source (vs_heap s ! b))"
proof -
  define o' where "o' = nat (vr_synonym_for r)"
  have n: "o' < length (vs_heap s)" using syn by (simp add: o'_def nat_less_iff)
  have "ocoms_pointer_array_get_item (vs_vars s) (vr_synonym_for r) = Some (Some o')"
    using wf syn pa_filled_get [of "vs_vars s" "length (vs_heap s)"] by (simp add: vars_wf_def o'_def)
  then obtain syns where s': "s' = s\<lparr>vs_heap := (vs_heap s)[o' := (vs_heap s ! o')\<lparr>mbv_synonyms := syns\<rparr>]\<rparr>"
    using run syn(1) n by (auto simp: attach_storage_def bind_eq_Some_conv)
  have "vars_wf s'" unfolding s' using wf n by (intro vars_wf_upd) simp_all
  then show ?thesis unfolding s' using n by (auto simp: nth_list_update)
qed

text \<open>
  What registering a synonym gives, whatever values the sources have for it: an index of its own, and
  a variable that is valid and refers to the original.
\<close>

definition synonym_ok :: "var_spec \<Rightarrow> string \<Rightarrow> bool" where
  "synonym_ok r name \<longleftrightarrow> vr_name r = Some name \<and> short (vr_framework r) \<and> short (vr_component r) \<and> short (Some name) \<and>
     isset MCA_BASE_VAR_FLAG_SYNONYM (vr_flags r) \<and> \<not> isset MCA_BASE_VAR_FLAG_DEFAULT_ONLY (vr_flags r) \<and>
     vr_type r \<noteq> MCA_BASE_VAR_TYPE_MAX"

lemma register_synonym_ok:
  assumes wf: "vars_wf s" "groups_wf s" "var_room c (Suc k) s" "mca_memory c"
    and r: "synonym_ok r name" "0 \<le> vr_synonym_for r" "vr_synonym_for r < int (length (vs_heap s))" and new: "name \<notin> set (var_names s)"
    and run: "register_variable init c s r = Some (j, s')" "0 \<le> j"
  shows "j = int (length (vs_heap s)) \<and> vars_wf s' \<and> length (vs_heap s') = Suc (length (vs_heap s)) \<and>
    var_names s' = var_names s @ [name] \<and>
    VAR_IS_VALID (vs_heap s' ! length (vs_heap s)) \<and> VAR_IS_SYNONYM (vs_heap s' ! length (vs_heap s)) \<and>
    mbv_synonym_for (vs_heap s' ! length (vs_heap s)) = vr_synonym_for r \<and>
    (\<forall>b < length (vs_heap s). VAR_IS_SYNONYM (vs_heap s' ! b) = VAR_IS_SYNONYM (vs_heap s ! b))"
proof -
  let ?n = "length (vs_heap s)" and ?s0 = "s\<lparr>vs_hash := ht_typed (vs_hash s)\<rparr>"
  have ready: "vs_ready s" using wf(1) by (simp add: vars_wf_def)
  note sp = r(1) [unfolded synonym_ok_def]
  have wf0: "vars_wf ?s0" "groups_wf ?s0" "var_room c (Suc k) ?s0" "name \<notin> set (var_names ?s0)" using wf new by (simp_all add: var_names_def)
  obtain gi s1 where s1: "new_variable c ?s0 r = Some (Inr (int ?n, ?n), s1)" "vars_wf s1"
    "vs_heap s1 = vs_heap s @ [made_var c r name ?n gi]"
    using new_variable_ok [OF wf0(1-3) wf(4), of r name] wf0(4) sp by fastforce
  let ?t = "s1\<lparr>vs_heap := vs_heap s @ [(made_var c r name ?n gi)\<lparr>mbv_enumerator := spec_enum r\<rparr>]\<rparr>"
  have wt: "vars_wf ?t" using vars_wf_upd [OF s1(2), of ?n "(made_var c r name ?n gi)\<lparr>mbv_enumerator := spec_enum r\<rparr>"] s1(3)
    by (simp del: join_names.simps)
  have find: "var_find c s None None None (Some name) True = Some (OCOMS_ERR_NOT_FOUND, ?s0)"
    using find_new_name [OF wf(1,4) _ new] sp by simp
  have pre: "register_variable init c s r = do {
      s4 \<leftarrow> attach_storage c ?t (int ?n) ?n r;
      (ret, s5) \<leftarrow> var_set_initial c s4 ?n;
      if ret \<noteq> OCOMS_SUCCESS then Some (ret, s5)
      else do {
        s6 \<leftarrow> upd_var ?n (\<lambda>v. v\<lparr>mbv_flags := mbv_flags v OR MCA_BASE_VAR_FLAG_VALID\<rparr>) s5;
        Some (int ?n, s6) } }"
    using ready sp s1(1,3) find
    by (simp add: register_variable_def spec_enum_def [symmetric] OCOMS_ERR_NOT_FOUND_def cong: if_cong)
  then obtain s4 ret s5 where s4: "attach_storage c ?t (int ?n) ?n r = Some s4" and s5: "var_set_initial c s4 ?n = Some (ret, s5)"
    using run(1) unfolding pre by (auto simp: bind_eq_Some_conv)
  have "ret \<le> 0" using s5 set_initial_codes [of c s4 ?n] by (simp add: codes_def)
  have at: "vars_wf s4" "length (vs_heap s4) = Suc ?n"
    "\<forall>b < Suc ?n. mbv_flags (vs_heap s4 ! b) = mbv_flags (vs_heap ?t ! b) \<and> mbv_synonym_for (vs_heap s4 ! b) = mbv_synonym_for (vs_heap ?t ! b) \<and>
       mbv_full_name (vs_heap s4 ! b) = mbv_full_name (vs_heap ?t ! b)"
    using attach_synonym [OF wt _ r(2) _ s4] sp r(3) by simp_all
  have sv: "same_vars s4 s5" using s5 set_initial_same [of s4 c ?n] by (simp add: keeps_def)
  have l5: "length (vs_heap s5) = Suc ?n" using sv at(2) by (auto simp: same_vars_def dest: list_all2_lengthD)
  have wf5: "vars_wf s5" using vars_wf_same [OF sv at(1)] .
  have each: "same_var (vs_heap s4 ! b) (vs_heap s5 ! b)" if "b < Suc ?n" for b
    using sv at(2) that by (simp add: same_vars_def list_all2_conv_all_nth)
  let ?w = "(vs_heap s5 ! ?n)\<lparr>mbv_flags := mbv_flags (vs_heap s5 ! ?n) OR MCA_BASE_VAR_FLAG_VALID\<rparr>"
  have s': "j = int ?n" "s' = s5\<lparr>vs_heap := (vs_heap s5)[?n := ?w]\<rparr>"
    using run pre s4 s5 l5 \<open>ret \<le> 0\<close> by (auto simp: OCOMS_SUCCESS_def split: if_splits)
  have "vars_wf s'" unfolding s'(2) using wf5 l5 by (intro vars_wf_upd) simp_all
  moreover have "VAR_IS_SYNONYM (vs_heap s' ! b) = VAR_IS_SYNONYM (vs_heap s ! b)" if "b < ?n" for b
    using each [of b, THEN same_varD(9)] at(3) that s' l5 by (simp add: nth_append)
  moreover have "VAR_IS_SYNONYM (vs_heap s' ! ?n)" "mbv_synonym_for (vs_heap s' ! ?n) = vr_synonym_for r" "VAR_IS_VALID (vs_heap s' ! ?n)"
    using same_varD(8,9) [OF each [of ?n]] at(3) s' l5 sp by (simp_all add: flag_simps)
  moreover have "var_names s' = var_names s @ [name]"
  proof (rule nth_equalityI)
    show "length (var_names s') = length (var_names s @ [name])" using s' l5 by simp
    fix b assume "b < length (var_names s')"
    then have b: "b < Suc ?n" using s' l5 by simp
    show "var_names s' ! b = (var_names s @ [name]) ! b"
      using same_varD(1) [OF each [OF b]] at(3) b s' l5 by (cases "b = ?n") (auto simp: var_names_def nth_append)
  qed
  ultimately show ?thesis using s' l5 by simp
qed

end
