(* ===== verification/Mca_Init.thy ===== *)
theory Mca_Init
  imports Mca_Var_Props
begin

text \<open>
  The initialisation and finalisation of the MCA variable system (\<open>ocoms_mca_base_var_init\<close>,
  \<open>ocoms_mca_base_var_finalize\<close> of \<open>ocoms/mca/base/mca_base_var.c\<close> and their counterparts in
  \<open>mca_base_pvar.c\<close>), and the invariants that hold after it.
\<close>

section \<open>Initialisation\<close>

definition ocoms_mca_base_pvar_init :: "mca_ctx \<Rightarrow> mca \<Rightarrow> (int \<times> mca) option" where
  "ocoms_mca_base_pvar_init c s =
     (if vs_pready s then Some (OCOMS_SUCCESS, s)
      else do {
        t \<leftarrow> snd (ocoms_pointer_array_init (mc_calloc c) (Some ocoms_pointer_array_construct) 128 2048 128);
        (ret, ht) \<leftarrow> ocoms_hash_table_init (mc_calloc c) ocoms_hash_table_construct 1024;
        Some (ret, if ret \<noteq> OCOMS_SUCCESS
              then s\<lparr>vs_pvars := ocoms_pointer_array_destruct t, vs_phash := ht\<lparr>ht_table := None\<rparr>, vs_pready := False\<rparr>
              else s\<lparr>vs_pvars := t, vs_phash := ht, vs_pready := True\<rparr>) })"

definition ocoms_mca_base_pvar_finalize :: "mca \<Rightarrow> int \<times> mca" where
  "ocoms_mca_base_pvar_finalize s = (OCOMS_SUCCESS, if vs_pready s
     then s\<lparr>vs_pready := False, vs_pvars := ocoms_pointer_array_destruct (vs_pvars s), vs_phash := (vs_phash s)\<lparr>ht_table := None\<rparr>\<rparr>
     else s)"

text \<open>The tables of the variables; then those of the groups and the performance variables.\<close>

definition var_tables_init :: "mca_ctx \<Rightarrow> mca \<Rightarrow> (int \<times> mca) option" where
  "var_tables_init c s =
     (case ocoms_pointer_array_init (mc_calloc c) (Some ocoms_pointer_array_construct) 128 16384 128 of
        (ret, None) \<Rightarrow> Some (ret, s)
      | (ret, Some t) \<Rightarrow>
          if ret \<noteq> OCOMS_SUCCESS then Some (ret, s\<lparr>vs_vars := t\<rparr>)
          else do {
            (ret, ht) \<leftarrow> ocoms_hash_table_init (mc_calloc c) ocoms_hash_table_construct 1024;
            let s1 = s\<lparr>vs_vars := t, vs_count := 0, vs_file_values := [], vs_override_values := [], vs_hash := ht\<rparr>;
            Some (ret, s1) })"

text \<open>\<open>cache\<close> is \<open>ocoms_mca_base_var_cache_files(false)\<close>, whose result the code ignores.\<close>

definition ocoms_mca_base_var_init :: "(mca \<Rightarrow> (int \<times> mca) option) \<Rightarrow> mca_ctx \<Rightarrow> mca \<Rightarrow> (int \<times> mca) option" where
  "ocoms_mca_base_var_init cache c s =
     (if vs_ready s then Some (OCOMS_SUCCESS, s)
      else do {
        (ret, s1) \<leftarrow> var_tables_init c s;
        if ret \<noteq> OCOMS_SUCCESS then Some (ret, s1)
        else do {
          (ret, s2) \<leftarrow> ocoms_mca_base_var_group_init c s1;
          if ret \<noteq> OCOMS_SUCCESS then Some (ret, s2)
          else do {
            (ret, s3) \<leftarrow> ocoms_mca_base_pvar_init c s2;
            if ret \<noteq> OCOMS_SUCCESS then Some (ret, s3)
            else do {
              (_, s4) \<leftarrow> cache (s3\<lparr>vs_ready := True\<rparr>);
              Some (OCOMS_SUCCESS, s4) } } } })"

text \<open>
  The objects are released, and nothing refers to them any more; the list of files is freed, but
  the pointer to it stays.
\<close>

definition ocoms_mca_base_var_finalize :: "mca \<Rightarrow> int \<times> mca" where
  "ocoms_mca_base_var_finalize s = (OCOMS_SUCCESS,
     if vs_ready s
     then let s1 = s\<lparr>vs_vars := ocoms_pointer_array_destruct (vs_vars s), vs_file_values := [], vs_override_values := [],
                     vs_cwd := None, vs_ready := False, vs_count := 0\<rparr>;
              s2 = snd (ocoms_mca_base_var_group_finalize s1);
              s3 = snd (ocoms_mca_base_pvar_finalize s2)
          in s3\<lparr>vs_hash := (vs_hash s3)\<lparr>ht_table := None\<rparr>\<rparr>
     else s)"

section \<open>The state it establishes\<close>

text \<open>Static storage: everything is zero, and each static variable that backs an MCA variable holds its zero.\<close>

definition mca_static :: mca where
  "mca_static = \<lparr>vs_ready = False, vs_vars = ocoms_pointer_array_construct, vs_heap = [], vs_count = 0,
     vs_hash = ocoms_hash_table_construct, vs_file_values = [], vs_override_values = [], vs_file_list = None,
     vs_home = None, vs_cwd = None,
     vs_store = [ADDR_FILES \<mapsto> String_store None, ADDR_OVERRIDE_FILE \<mapsto> String_store None, ADDR_SUPPRESS_WARNING \<mapsto> Bool_store False,
       ADDR_FILE_PREFIX \<mapsto> String_store None, ADDR_FILE_PATH \<mapsto> String_store None, ADDR_FORCE_PATH \<mapsto> String_store None],
     vs_gready = False, vs_groups = ocoms_pointer_array_construct, vs_gheap = [], vs_ghash = ocoms_hash_table_construct,
     vs_gcount = 0, vs_stamp = 0, vs_pready = False, vs_pvars = ocoms_pointer_array_construct, vs_pheap = [],
     vs_phash = ocoms_hash_table_construct, vs_pcount = 0, vs_key_buffer = key_buffer_static\<rparr>"

definition tables_memory :: "mca_ctx \<Rightarrow> bool" where
  "tables_memory c \<longleftrightarrow> mca_memory c \<and> calloc_sane (mc_calloc c) \<and> (\<forall>n. mc_malloc c n)"

lemma pa_init_filled:
  assumes "tables_memory c" and "128 \<le> mx"
  shows "\<exists>t. ocoms_pointer_array_init (mc_calloc c) (Some ocoms_pointer_array_construct) 128 mx 128 = (OCOMS_SUCCESS, Some t) \<and>
    pa_filled t 0 \<and> pa_size t = 128"
proof -
  have "mc_calloc c 1024" using assms(1) by (simp add: tables_memory_def mca_memory_def calloc_names_def)
  then show ?thesis using assms(2)
    by (simp add: ocoms_pointer_array_init_def ocoms_pointer_array_construct_def Let_def pa_filled_def pa_wf_def pa_cells_def pa_look_def
        size_t_def size_norm_def INT_MAX_def nat_less_iff)
qed

lemma ht_init_names:
  assumes "tables_memory c" and "64 \<le> n" "n \<le> 1024"
  shows "\<exists>ht. ocoms_hash_table_init (mc_calloc c) ocoms_hash_table_construct n = Some (OCOMS_SUCCESS, ht) \<and> ht_names ht Map.empty \<and> ht_room c 48 ht"
proof -
  have m: "calloc_sane (mc_calloc c)" "calloc_names c" "\<forall>n. mc_malloc c n" using assms(1) by (simp_all add: tables_memory_def mca_memory_def)
  have z: "ht_size (ocoms_hash_table_construct :: int htable) = 0" by (simp add: ocoms_hash_table_construct_def)
  have "(2 * n + 29) div 30 * 30 + 1 < 2 ^ 48" using assms(3) by (simp add: div_times_less_eq_dividend [THEN order.strict_trans1])
  moreover have "ocoms_hash_round_capacity_up (2 * n) = (2 * n + 29) div 30 * 30 + 1"
    using assms(3) by (intro round_capacity_up(1)) simp
  ultimately have "mc_calloc c (ocoms_hash_round_capacity_up (2 * n))" using m(2) by (simp add: calloc_names_def)
  then obtain ht :: "int htable" where ht: "ocoms_hash_table_init (mc_calloc c) ocoms_hash_table_construct n = Some (OCOMS_SUCCESS, ht)"
    "ht_wf Methods_ptr ht" "ht_map ht = Map.empty" "n \<le> ht_growth_trigger ht"
    using init_ok [OF m(1) _ z, of n Methods_ptr] assms(3) by auto
  then have "ht_size ht = 0"
    by (auto simp: ocoms_hash_table_init_def ocoms_hash_table_init2_def Let_def bind_eq_Some_conv ocoms_hash_table_construct_def split: if_splits)
  then show ?thesis using ht m assms(2) by (intro exI [of _ ht]) (simp add: ht_names_def ht_room_def)
qed

text \<open>
  After initialisation the tables satisfy the invariants, with room for registrations.
\<close>

lemma var_tables_ok:
  assumes "tables_memory c"
  shows "\<exists>t ht. var_tables_init c s = Some (OCOMS_SUCCESS, s\<lparr>vs_vars := t, vs_count := 0, vs_file_values := [], vs_override_values := [], vs_hash := ht\<rparr>) \<and>
    pa_filled t 0 \<and> pa_size t = 128 \<and> ht_names ht Map.empty \<and> ht_room c 48 ht"
proof -
  obtain t where t: "ocoms_pointer_array_init (mc_calloc c) (Some ocoms_pointer_array_construct) 128 16384 128 = (OCOMS_SUCCESS, Some t)"
    "pa_filled t 0" "pa_size t = 128" using pa_init_filled [OF assms, of 16384] by auto
  obtain ht where "ocoms_hash_table_init (mc_calloc c) ocoms_hash_table_construct 1024 = Some (OCOMS_SUCCESS, ht)" "ht_names ht Map.empty" "ht_room c 48 ht"
    using ht_init_names [OF assms, of 1024] by auto
  then show ?thesis using t by (intro exI [of _ t] exI [of _ ht]) (simp add: var_tables_init_def)
qed

lemma group_init_ok:
  assumes "tables_memory c" and "\<not> vs_gready s"
  shows "\<exists>t ht. ocoms_mca_base_var_group_init c s = Some (OCOMS_SUCCESS, s\<lparr>vs_groups := t, vs_ghash := ht, vs_gready := True, vs_gcount := 0\<rparr>) \<and>
    pa_filled t 0 \<and> pa_size t = 128 \<and> ht_names ht Map.empty \<and> ht_room c 48 ht"
proof -
  obtain t where t: "ocoms_pointer_array_init (mc_calloc c) (Some ocoms_pointer_array_construct) 128 16384 128 = (OCOMS_SUCCESS, Some t)"
    "pa_filled t 0" "pa_size t = 128" using pa_init_filled [OF assms(1), of 16384] by auto
  obtain ht where "ocoms_hash_table_init (mc_calloc c) ocoms_hash_table_construct 256 = Some (OCOMS_SUCCESS, ht)" "ht_names ht Map.empty" "ht_room c 48 ht"
    using ht_init_names [OF assms(1), of 256] by auto
  then show ?thesis using t assms(2) by (intro exI [of _ t] exI [of _ ht]) (simp add: ocoms_mca_base_var_group_init_def)
qed

lemma pvar_init_ok:
  assumes "tables_memory c" and "\<not> vs_pready s"
  shows "\<exists>t ht. ocoms_mca_base_pvar_init c s = Some (OCOMS_SUCCESS, s\<lparr>vs_pvars := t, vs_phash := ht, vs_pready := True\<rparr>) \<and>
    pa_filled t 0 \<and> pa_size t = 128 \<and> ht_names ht Map.empty \<and> ht_room c 48 ht"
proof -
  obtain t where t: "ocoms_pointer_array_init (mc_calloc c) (Some ocoms_pointer_array_construct) 128 2048 128 = (OCOMS_SUCCESS, Some t)"
    "pa_filled t 0" "pa_size t = 128" using pa_init_filled [OF assms(1), of 2048] by auto
  obtain ht where "ocoms_hash_table_init (mc_calloc c) ocoms_hash_table_construct 1024 = Some (OCOMS_SUCCESS, ht)" "ht_names ht Map.empty" "ht_room c 48 ht"
    using ht_init_names [OF assms(1), of 1024] by auto
  then show ?thesis using t assms(2) by (intro exI [of _ t] exI [of _ ht]) (simp add: ocoms_mca_base_pvar_init_def)
qed

definition pvars_wf :: "mca \<Rightarrow> bool" where
  "pvars_wf s \<longleftrightarrow> pa_filled (vs_pvars s) (length (vs_pheap s)) \<and> vs_pcount s = int (length (vs_pheap s))"

definition started :: "mca_ctx \<Rightarrow> mca \<Rightarrow> bool" where
  "started c s \<longleftrightarrow> vars_wf s \<and> groups_wf s \<and> var_room c 16 s \<and> vs_heap s = [] \<and> vs_gheap s = [] \<and>
     vs_file_values s = [] \<and> vs_override_values s = [] \<and> vs_store s = vs_store mca_static \<and> vs_home s = None \<and> pa_size (vs_vars s) = 128 \<and> pvars_wf s"

lemma tables_init_ok:
  assumes m: "tables_memory c"
  shows "\<exists>s'. ocoms_mca_base_var_init cache c mca_static = map_option (Pair OCOMS_SUCCESS \<circ> snd) (cache s') \<and> started c s'"
proof -
  obtain t ht where 1: "var_tables_init c mca_static = Some (OCOMS_SUCCESS, mca_static\<lparr>vs_vars := t, vs_count := 0, vs_file_values := [], vs_override_values := [], vs_hash := ht\<rparr>)"
    "pa_filled t 0" "pa_size t = 128" "ht_names ht Map.empty" "ht_room c 48 ht" using var_tables_ok [OF m] by blast
  let ?s1 = "mca_static\<lparr>vs_vars := t, vs_count := 0, vs_file_values := [], vs_override_values := [], vs_hash := ht\<rparr>"
  obtain t2 h2 where 2: "ocoms_mca_base_var_group_init c ?s1 = Some (OCOMS_SUCCESS, ?s1\<lparr>vs_groups := t2, vs_ghash := h2, vs_gready := True, vs_gcount := 0\<rparr>)"
    "pa_filled t2 0" "pa_size t2 = 128" "ht_names h2 Map.empty" "ht_room c 48 h2" using group_init_ok [OF m, of ?s1] by (auto simp: mca_static_def)
  let ?s2 = "?s1\<lparr>vs_groups := t2, vs_ghash := h2, vs_gready := True, vs_gcount := 0\<rparr>"
  obtain t3 h3 where 3: "ocoms_mca_base_pvar_init c ?s2 = Some (OCOMS_SUCCESS, ?s2\<lparr>vs_pvars := t3, vs_phash := h3, vs_pready := True\<rparr>)"
    "pa_filled t3 0"
    using pvar_init_ok [OF m, of ?s2] by (auto simp: mca_static_def)
  let ?s3 = "?s2\<lparr>vs_pvars := t3, vs_phash := h3, vs_pready := True, vs_ready := True\<rparr>"
  have "ocoms_mca_base_var_init cache c mca_static = map_option (Pair OCOMS_SUCCESS \<circ> snd) (cache ?s3)"
    using 1(1) 2(1) 3(1) by (cases "cache ?s3") (auto simp: ocoms_mca_base_var_init_def mca_static_def)
  moreover have "name_map [] = Map.empty" by (simp add: name_map_def)
  then have "vars_wf ?s3" using 1 by (simp add: vars_wf_def mca_static_def var_names_def)
  moreover have "groups_wf ?s3" using 2 by (auto simp: groups_wf_def mca_static_def)
  moreover have "var_room c 16 ?s3" using 1 2 by (simp add: var_room_def group_room_def mca_static_def INT_MAX_def ht_room_def)
  moreover have "pvars_wf ?s3" using 3(2) by (simp add: pvars_wf_def mca_static_def)
  ultimately show ?thesis using 1(3) by (intro exI [of _ ?s3]) (simp add: started_def mca_static_def)
qed

end
