(* ===== verification/Mca_Registration.thy ===== *)
theory Mca_Registration
  imports Mca_Init
begin

text \<open>
  What registration of MCA variables and synonyms promises to its callers, with the registrations of
  a sample variable as the concrete inputs.
\<close>

section \<open>Sample contexts\<close>

definition sample_mca :: mca_ctx where
  "sample_mca = \<lparr>mc_val = sample_ctx, mc_calloc = \<lambda>n. n < 2 ^ 59, mc_malloc = \<lambda>_. True, mc_cells = \<lambda>n. Some (replicate n None),
     mc_obj_new = True, mc_getenv = [''OMPI_MCA_verbose'' \<mapsto> ''7''], mc_pad = \<lambda>_. 0, mc_dbg = False\<rparr>"

definition start_state :: mca where
  "start_state = snd (the (ocoms_mca_base_var_init (\<lambda>s. Some (OCOMS_SUCCESS, s)) sample_mca mca_static))"

lemma sample_tables: "tables_memory sample_mca"
  by (simp add: tables_memory_def mca_memory_def calloc_names_def calloc_sane_def sample_mca_def sample_ctx_def)

lemma sample_memory: "mca_memory sample_mca"
  using sample_tables by (simp add: tables_memory_def)

lemma start_state_ok: "started sample_mca start_state"
proof -
  obtain s' where s': "ocoms_mca_base_var_init (\<lambda>s. Some (OCOMS_SUCCESS, s)) sample_mca mca_static = map_option (Pair OCOMS_SUCCESS \<circ> snd) (Some (OCOMS_SUCCESS, s'))"
    "started sample_mca s'" using tables_init_ok [OF sample_tables, of "\<lambda>s. Some (OCOMS_SUCCESS, s)"] by blast
  then show ?thesis by (simp add: start_state_def)
qed

section \<open>Properties\<close>

lemma fresh_var_synonym [simp]:
  "offers c s (fresh_var c (r\<lparr>vr_synonym_for := x\<rparr>) name 0 0) = offers c s (fresh_var c r name 0 0)"
  "converts c s (fresh_var c (r\<lparr>vr_synonym_for := x\<rparr>) name 0 0) d y d' = converts c s (fresh_var c r name 0 0) d y d'"
  "spec_ok c s (r\<lparr>vr_synonym_for := x\<rparr>) name addr d = spec_ok c s r name addr d"
  by (simp_all add: offers_def file_offer_def env_offer_def converts_def spec_enum_def not_settable_def spec_ok_def del: join_names.simps)

lemma takes_first_synonym [simp]:
  "takes_first c s (fresh_var c (r\<lparr>vr_synonym_for := x\<rparr>) name 0 0) d os src d' = takes_first c s (fresh_var c r name 0 0) d os src d'"
  by (simp add: takes_first_def split: list.split)

text \<open>The answer to a question for a name, without the table, whose lookup may set its type.\<close>

definition found_by_name :: "mca_ctx \<Rightarrow> mca \<Rightarrow> string \<Rightarrow> (int \<times> int option) option" where
  "found_by_name c s k = map_option (\<lambda>(rc, i, _). (rc, i)) (ocoms_mca_base_var_find_by_name c s k)"

lemma found_by_name_ok:
  "vars_wf s \<Longrightarrow> found_by_name c s k = Some (case name_map (var_names s) k of
      Some i \<Rightarrow> if VAR_IS_VALID (vs_heap s ! nat i) then (OCOMS_SUCCESS, Some i) else (OCOMS_ERR_NOT_FOUND, None)
    | None \<Rightarrow> (OCOMS_ERR_NOT_FOUND, None))"
  using var_find_by_name_ok [of s c k False]
  by (simp add: found_by_name_def ocoms_mca_base_var_find_by_name_def del: name_map_None split: option.split)

lemma register_then_find_lemma:
  assumes wf: "vars_wf s" "groups_wf s" "var_room c (Suc k) s" "mca_memory c"
    and r: "spec_ok c s r name addr d" "inputs_ok c s name" and new: "name \<notin> set (var_names s)"
    and conv: "\<forall>p \<in> set (offers c s (fresh_var c r name 0 0)). \<exists>d'. converts c s (fresh_var c r name 0 0) d (snd p) d'"
  shows "\<exists>s' src d' f. ocoms_mca_base_var_register init c s r = Some (int (length (vs_heap s)), s') \<and> vars_wf s' \<and> groups_wf s' \<and> var_room c k s' \<and>
    found_by_name c s' name = Some (OCOMS_SUCCESS, Some (int (length (vs_heap s)))) \<and>
    (\<forall>k. k \<noteq> name \<longrightarrow> found_by_name c s' k = found_by_name c s k) \<and>
    ocoms_mca_base_var_get_value s' (int (length (vs_heap s))) = Some (OCOMS_SUCCESS, Some (Some addr, src, f)) \<and>
    vs_store s' = (vs_store s)(addr \<mapsto> d') \<and>
    takes_first c s (fresh_var c r name 0 0) d (offers c s (fresh_var c r name 0 0)) src d'"
proof -
  let ?n = "length (vs_heap s)" and ?r = "r\<lparr>vr_synonym_for := - 1\<rparr>"
  obtain s' w d' gi where s': "register_variable init c s ?r = Some (int ?n, s')" "vars_wf s'" "groups_wf s'" "var_room c k s'"
    "vs_heap s' = vs_heap s @ [w]" "vs_store s' = (vs_store s)(addr \<mapsto> d')" "VAR_IS_VALID w" "same_var (fresh_var c ?r name ?n gi) w"
    "takes_first c s (fresh_var c r name 0 0) d (offers c s (fresh_var c r name 0 0)) (mbv_source w) d'"
    using register_variable_ok [OF wf _ r(2) new, of ?r addr d init] r(1) conv by auto
  note w = same_varD [OF s'(8)]
  have names: "var_names s' = var_names s @ [name]" using s'(5) w(1) by (simp add: var_names_def del: join_names.simps)
  have nm: "name_map (var_names s') = (name_map (var_names s))(name \<mapsto> int ?n)" unfolding names using new by (simp add: name_map_snoc)
  have "ocoms_mca_base_var_register init c s r = Some (int ?n, s')"
    using s'(1) r(1) by (simp add: ocoms_mca_base_var_register_def spec_ok_def)
  moreover have "found_by_name c s' name = Some (OCOMS_SUCCESS, Some (int ?n))"
    using found_by_name_ok [OF s'(2), of c name] nm s'(5,7) by simp
  moreover have "found_by_name c s' k = found_by_name c s k" if "k \<noteq> name" for k
    using found_by_name_ok [OF s'(2), of c k] found_by_name_ok [OF wf(1), of c k] nm s'(5) that
      name_map_Some [of "var_names s" k]
    by (auto simp: nth_append nat_less_iff simp del: name_map_None split: option.split)
  moreover have "\<not> VAR_IS_SYNONYM w" using w(9) r(1) by (simp add: spec_ok_def flag_simps del: join_names.simps)
  then have "ocoms_mca_base_var_get_value s' (int ?n) = Some (OCOMS_SUCCESS, Some (Some addr, mbv_source w, mbv_source_file w))"
    using var_get_ok [OF s'(2), of ?n True] s'(5,7) w(5) r(1)
    by (simp add: ocoms_mca_base_var_get_value_def spec_ok_def del: join_names.simps)
  ultimately show ?thesis using s' by blast
qed

text \<open>
  C24: A conversion of a string never leaves a value of another type in the storage of a variable: for
  every type and enumerator, whatever the string and whether or not it is accepted, a storage that
  held a value of the variable's type still does.
\<close>

theorem conversion_keeps_type:
  assumes "var_set_from_string c t e d x = Some (ret, d')" and "has_type t d"
  shows "has_type t d'"
  by (rule conversion_type [OF assms])

theorem conversion_keeps_type_witness:
  "has_type MCA_BASE_VAR_TYPE_STRING (String_store None) \<and>
   var_set_from_string sample_ctx MCA_BASE_VAR_TYPE_STRING None (String_store (Some ''x'')) (Some '''') = Some (OCOMS_SUCCESS, String_store None)"
proof -
  have run: "var_set_from_string sample_ctx MCA_BASE_VAR_TYPE_STRING None (String_store (Some ''x'')) (Some '''') = Some (OCOMS_SUCCESS, String_store None)"
    by (simp add: var_set_from_string_def var_set_string_def)
  then show ?thesis using conversion_keeps_type [OF run] by (simp add: has_type_def)
qed

section \<open>Values and their strings\<close>

lemma sint_nonneg: "0 \<le> sint (w :: 32 word) \<Longrightarrow> sint w = int (unat w)"
proof -
  assume "0 \<le> sint w"
  moreover have "sint w < 2 ^ 31" using sint_lt [of w] by simp
  ultimately have "uint (word_of_int (sint w) :: 32 word) = sint w"
    by (subst uint_word_of_int_eq) (simp add: take_bit_int_eq_self)
  then show ?thesis by simp
qed

lemma number_from_dec: "n < 2 ^ 64 \<Longrightarrow> int_from_string (Some (dec n)) None = Some (OCOMS_SUCCESS, Some (of_nat n))"
  using c_strtoull_dec [of 0 n "[]"] dec_nonempty [of n, symmetric] by (subst int_from_string_number) auto

lemma ucast_of_nat: "(ucast (of_nat n :: 64 word) :: 32 word) = of_nat n"
  by (intro word_uint_eq_iff [THEN iffD2]) (simp add: unsigned_ucast_eq unsigned_of_nat)

text \<open>The values whose string stands for them: no negative number, and no string that is rewritten.\<close>

fun plain_value :: "ocoms_mca_base_var_type_t \<Rightarrow> ocoms_mca_base_var_storage_t \<Rightarrow> bool" where
  "plain_value MCA_BASE_VAR_TYPE_INT v \<longleftrightarrow> (case v of Int_store w \<Rightarrow> 0 \<le> sint w | _ \<Rightarrow> False)"
| "plain_value MCA_BASE_VAR_TYPE_STRING v \<longleftrightarrow> (case v of String_store (Some x) \<Rightarrow> x \<noteq> [] \<and> take 2 x \<noteq> ''~/'' \<and> strstr '':~/'' x = None
     | String_store None \<Rightarrow> True | _ \<Rightarrow> False)"
| "plain_value MCA_BASE_VAR_TYPE_DOUBLE v \<longleftrightarrow> False"
| "plain_value MCA_BASE_VAR_TYPE_BOOL v \<longleftrightarrow> False"
| "plain_value t v \<longleftrightarrow> has_type t v"

lemma set_from_dec_32:
  assumes "n < 2 ^ 32" and "t = MCA_BASE_VAR_TYPE_INT \<or> t = MCA_BASE_VAR_TYPE_UNSIGNED_INT"
  shows "var_set_from_string c t None d (Some (dec n)) = Some (OCOMS_SUCCESS, Int_store (of_nat n))"
proof -
  have "(of_nat n :: 64 word) AND high_bits = 0" unfolding high_bits_zero using assms(1) by (simp add: unsigned_of_nat take_bit_nat_eq_self)
  then show ?thesis using assms number_from_dec [of n]
    by (auto simp: var_set_from_string_def store_int_def ucast_of_nat OCOMS_ERR_VALUE_OUT_OF_BOUNDS_def OCOMS_SUCCESS_def)
qed

lemma set_from_dec_64:
  assumes "n < 2 ^ 64" and "t \<in> {MCA_BASE_VAR_TYPE_UNSIGNED_LONG, MCA_BASE_VAR_TYPE_UNSIGNED_LONG_LONG, MCA_BASE_VAR_TYPE_SIZE_T}"
  shows "var_set_from_string c t None d (Some (dec n)) = Some (OCOMS_SUCCESS, Long_store (of_nat n))"
  using assms number_from_dec [of n]
  by (auto simp: var_set_from_string_def store_int_def OCOMS_ERR_VALUE_OUT_OF_BOUNDS_def OCOMS_SUCCESS_def)

lemma unat_32: "unat (w :: 32 word) < 2 ^ 32" and unat_64: "unat (u :: 64 word) < 2 ^ 64"
  using unsigned_less [of w] unsigned_less [of u] by simp_all

lemma value_round_trip:
  assumes m: "argv_mem_total (vc_mem c)" and v: "plain_value t v" and x: "show_value c t v = Some x"
  shows "var_set_from_string c t None d (Some x) = Some (OCOMS_SUCCESS, v)"
proof (cases t)
  case MCA_BASE_VAR_TYPE_INT
  then obtain w where w: "v = Int_store w" "0 \<le> sint w" "x = dec_int (sint w)"
    using v x by (auto simp: show_value_def split: ocoms_mca_base_var_storage_t.splits)
  have "sint w = int (unat w)" using w(2) by (rule sint_nonneg)
  then show ?thesis using set_from_dec_32 [of "unat w" t c d] unat_32 [of w] w MCA_BASE_VAR_TYPE_INT by (simp add: dec_int_def)
next
  case MCA_BASE_VAR_TYPE_UNSIGNED_INT
  then obtain w where "v = Int_store w" "x = dec (unat w)" using v x by (auto simp: show_value_def has_type_def split: ocoms_mca_base_var_storage_t.splits)
  then show ?thesis using set_from_dec_32 [of "unat w" t c d] unat_32 [of w] MCA_BASE_VAR_TYPE_UNSIGNED_INT by simp
next
  case MCA_BASE_VAR_TYPE_STRING
  then obtain y where y: "v = String_store y" using v by (auto split: ocoms_mca_base_var_storage_t.splits)
  show ?thesis
  proof (cases y)
    case None
    then show ?thesis using y x MCA_BASE_VAR_TYPE_STRING by (simp add: show_value_def var_set_from_string_def var_set_string_def)
  next
    case (Some z)
    then show ?thesis using y x v MCA_BASE_VAR_TYPE_STRING var_set_string_plain [OF m, of z] by (simp add: show_value_def var_set_from_string_def)
  qed
next
  case MCA_BASE_VAR_TYPE_MAX
  then show ?thesis using x by (simp add: show_value_def)
qed (use v x set_from_dec_64 [OF unat_64, of t c d] in \<open>auto simp: show_value_def has_type_def split: ocoms_mca_base_var_storage_t.splits\<close>)

text \<open>A sample registration.\<close>

definition sample_spec :: var_spec where
  "sample_spec = \<lparr>vr_project = None, vr_framework = Some ''coll'', vr_component = Some ''basic'', vr_name = Some ''verbose'',
     vr_description = Some ''how much is said'', vr_type = MCA_BASE_VAR_TYPE_INT, vr_enumerator = None, vr_bind = 0,
     vr_flags = MCA_BASE_VAR_FLAG_SETTABLE, vr_info_lvl = 0, vr_scope = MCA_BASE_VAR_SCOPE_LOCAL, vr_synonym_for = - 1, vr_storage = Some 10\<rparr>"

definition sample_state :: mca where
  "sample_state = start_state\<lparr>vs_store := (vs_store start_state)(10 \<mapsto> Int_store 1)\<rparr>"

lemma sample_state_ok:
  "vars_wf sample_state" "groups_wf sample_state" "var_room sample_mca 16 sample_state" "vs_heap sample_state = []"
  "var_names sample_state = []" "vs_override_values sample_state = []" "vs_file_values sample_state = []"
  "pa_size (vs_vars sample_state) = 128"
  using start_state_ok by (simp_all add: sample_state_def started_def var_names_def var_room_def group_room_def)

lemma sample_room: "var_room sample_mca (Suc 15) sample_state"
  using sample_state_ok(3) by simp

lemma sample_spec_ok:
  "spec_ok sample_mca sample_state sample_spec ''verbose'' 10 (Int_store 1)" "inputs_ok sample_mca sample_state ''verbose''"
  using sample_state_ok
  by (simp_all add: spec_ok_def inputs_ok_def sample_spec_def sample_mca_def short_def flag_simps has_type_def sample_state_def
      named_files_def mca_prefix_def)

lemma sample_offers:
  "offers sample_mca sample_state (fresh_var sample_mca sample_spec ''verbose'' 0 0) = [(MCA_BASE_VAR_SOURCE_ENV, Some ''7'')]"
  using sample_state_ok
  by (simp add: offers_def file_offer_def env_offer_def sample_mca_def sample_spec_def mca_prefix_def not_settable_def flag_simps
      del: join_names.simps)

lemma sample_converts:
  "converts sample_mca sample_state (fresh_var sample_mca sample_spec ''verbose'' 0 0) (Int_store 1) (Some ''7'') (Int_store 7)"
proof -
  have "dec 7 = ''7''" by code_simp
  then show ?thesis using set_from_dec_32 [of 7 MCA_BASE_VAR_TYPE_INT "vctx sample_mca sample_state" "Int_store 1"]
    by (simp add: converts_def sample_spec_def spec_enum_def del: join_names.simps)
qed

text \<open>
  C25: The initial value of a variable comes from the best source that offers one, in the order
  override file, environment, parameter files, and its source says which; with no offer the storage
  keeps its default.  A default-only variable has no offers and an environment-only one none from
  files.  Nothing but this variable and its storage changes.
\<close>

theorem initial_value_by_priority:
  assumes "plain_var s a v addr d" and "named_files (vs_override_values s)" "named_files (vs_file_values s)" "no_source_env c v"
    and "\<forall>p \<in> set (offers c s v). \<exists>d'. converts c s v d (snd p) d'"
  shows "\<exists>w d'. var_set_initial c s a = Some (OCOMS_SUCCESS, s\<lparr>vs_heap := (vs_heap s)[a := w], vs_store := (vs_store s)(addr \<mapsto> d')\<rparr>) \<and>
    same_var v w \<and> takes_first c s v d (offers c s v) (mbv_source w) d'"
  using set_initial_ok [OF assms] unfolding set_at_def by blast

definition sample_var_state :: mca where
  "sample_var_state = sample_state\<lparr>vs_heap := [fresh_var sample_mca sample_spec ''verbose'' 0 0]\<rparr>"

theorem initial_value_by_priority_witness:
  "\<exists>w d'. var_set_initial sample_mca sample_var_state 0 = Some (OCOMS_SUCCESS, sample_var_state\<lparr>vs_heap := [w],
      vs_store := (vs_store sample_var_state)(10 \<mapsto> d')\<rparr>) \<and> mbv_source w = MCA_BASE_VAR_SOURCE_ENV \<and> d' = Int_store 7"
proof -
  let ?v = "fresh_var sample_mca sample_spec ''verbose'' 0 0"
  have f: "vs_override_values sample_var_state = []" "vs_file_values sample_var_state = []"
    using sample_state_ok by (simp_all add: sample_var_state_def)
  have v: "plain_var sample_var_state 0 ?v 10 (Int_store 1)"
    using sample_spec_ok(1) by (simp add: plain_var_def sample_var_state_def spec_ok_def flag_simps del: join_names.simps)
  have n: "no_source_env sample_mca ?v" by (simp add: no_source_env_def sample_mca_def sample_ctx_def mca_prefix_def)
  have o1: "offers sample_mca sample_var_state ?v = [(MCA_BASE_VAR_SOURCE_ENV, Some ''7'')]"
  proof -
    have "offers sample_mca sample_var_state v = offers sample_mca sample_state v" for v by (simp add: sample_var_state_def offers_def)
    then show ?thesis using sample_offers by simp
  qed
  have cv: "converts sample_mca sample_var_state ?v (Int_store 1) (Some ''7'') x \<longleftrightarrow> x = Int_store 7" for x
    using sample_converts by (auto simp: sample_var_state_def converts_def)
  show ?thesis
    using initial_value_by_priority [OF v _ _ n] by (simp add: f o1 cv named_files_def takes_first_def) (auto simp: sample_var_state_def)
qed

text \<open>
  C26: Registering a variable under a new name gives the next index and keeps the tables well formed;
  the variable is then found under its name and every other name is answered as before; its value
  is the storage that was registered, which holds what the best source offered, or the default.
\<close>

theorem register_then_find:
  assumes "vars_wf s" "groups_wf s" "var_room c (Suc k) s" "mca_memory c"
    and "spec_ok c s r name addr d" "inputs_ok c s name" and "name \<notin> set (var_names s)"
    and "\<forall>p \<in> set (offers c s (fresh_var c r name 0 0)). \<exists>d'. converts c s (fresh_var c r name 0 0) d (snd p) d'"
  shows "\<exists>s' src d' f. ocoms_mca_base_var_register init c s r = Some (int (length (vs_heap s)), s') \<and> vars_wf s' \<and> groups_wf s' \<and> var_room c k s' \<and>
    found_by_name c s' name = Some (OCOMS_SUCCESS, Some (int (length (vs_heap s)))) \<and>
    (\<forall>k. k \<noteq> name \<longrightarrow> found_by_name c s' k = found_by_name c s k) \<and>
    ocoms_mca_base_var_get_value s' (int (length (vs_heap s))) = Some (OCOMS_SUCCESS, Some (Some addr, src, f)) \<and>
    vs_store s' = (vs_store s)(addr \<mapsto> d') \<and>
    takes_first c s (fresh_var c r name 0 0) d (offers c s (fresh_var c r name 0 0)) src d'"
  by (rule register_then_find_lemma [OF assms])

theorem register_then_find_witness:
  "\<exists>s' f. ocoms_mca_base_var_register (\<lambda>s. None) sample_mca sample_state sample_spec = Some (0, s') \<and>
    found_by_name sample_mca s' ''verbose'' = Some (OCOMS_SUCCESS, Some 0) \<and>
    ocoms_mca_base_var_get_value s' 0 = Some (OCOMS_SUCCESS, Some (Some 10, MCA_BASE_VAR_SOURCE_ENV, f)) \<and> vs_store s' 10 = Some (Int_store 7)"
proof -
  have o1: "offers sample_mca sample_state (fresh_var sample_mca sample_spec ''verbose'' 0 0) = [(MCA_BASE_VAR_SOURCE_ENV, Some ''7'')]"
    by (rule sample_offers)
  have cv: "converts sample_mca sample_state (fresh_var sample_mca sample_spec ''verbose'' 0 0) (Int_store 1) (Some ''7'') x \<longleftrightarrow> x = Int_store 7" for x
    using sample_converts by (auto simp: converts_def)
  show ?thesis
    using register_then_find [OF sample_state_ok(1,2) sample_room sample_memory sample_spec_ok, of "\<lambda>s. None"]
    by (auto simp: sample_state_ok o1 cv takes_first_def simp del: join_names.simps)
qed

section \<open>Synonyms\<close>

lemma register_synonym_eq:
  assumes "vars_wf s" "i < length (vs_heap s)" "\<not> VAR_IS_SYNONYM (vs_heap s ! i)"
  shows "ocoms_mca_base_var_register_synonym init c s (int i) project framework component (Some name) flags =
    register_variable init c s (synonym_spec (vs_heap s ! i) (int i) project framework component (Some name) flags)"
  using var_get_ok [OF assms(1,2), of False] assms by (simp add: ocoms_mca_base_var_register_synonym_def)

lemma synonym_spec_ok:
  "short framework \<Longrightarrow> short component \<Longrightarrow> short (Some name) \<Longrightarrow> mbv_type v \<noteq> MCA_BASE_VAR_TYPE_MAX \<Longrightarrow>
   synonym_ok (synonym_spec v i project framework component (Some name) flags) name"
  "vr_synonym_for (synonym_spec v i project framework component (Some name) flags) = i"
  "vr_type (synonym_spec v i project framework component (Some name) flags) = mbv_type v"
  by (simp_all add: synonym_ok_def synonym_spec_def flag_simps)

lemma synonym_shares_value_lemma:
  assumes wf: "vars_wf s" "groups_wf s" "var_room c (Suc k) s" "mca_memory c"
    and i: "i < length (vs_heap s)" "\<not> VAR_IS_SYNONYM (vs_heap s ! i)" "mbv_type (vs_heap s ! i) \<noteq> MCA_BASE_VAR_TYPE_MAX"
    and names: "short framework" "short component" "short (Some name)" "name \<notin> set (var_names s)"
    and run: "ocoms_mca_base_var_register_synonym init c s (int i) project framework component (Some name) flags = Some (j, s')" "0 \<le> j"
  shows "j = int (length (vs_heap s)) \<and> vars_wf s' \<and> found_by_name c s' name = Some (OCOMS_SUCCESS, Some j) \<and>
    ocoms_mca_base_var_get_value s' j = ocoms_mca_base_var_get_value s' (int i) \<and>
    ocoms_mca_base_var_set_value c s' j v src file = ocoms_mca_base_var_set_value c s' (int i) v src file"
proof -
  let ?n = "length (vs_heap s)"
  define r where "r = synonym_spec (vs_heap s ! i) (int i) project framework component (Some name) flags"
  have r: "register_variable init c s r = Some (j, s')" "synonym_ok r name" "vr_synonym_for r = int i"
    using run(1) i names(1-3) unfolding register_synonym_eq [OF wf(1) i(1,2)] r_def by (simp_all add: synonym_spec_ok)
  have ok: "j = int ?n" "vars_wf s'" "length (vs_heap s') = Suc ?n" "var_names s' = var_names s @ [name]"
    "VAR_IS_VALID (vs_heap s' ! ?n)" "VAR_IS_SYNONYM (vs_heap s' ! ?n)" "mbv_synonym_for (vs_heap s' ! ?n) = int i"
    "VAR_IS_SYNONYM (vs_heap s' ! i) = VAR_IS_SYNONYM (vs_heap s ! i)"
    using register_synonym_ok [OF wf r(2) _ _ names(4) r(1) run(2)] r(3) i(1) by simp_all
  have nm: "name_map (var_names s') name = Some (int ?n)" unfolding ok(4) using names(4) by (simp add: name_map_snoc)
  have "found_by_name c s' name = Some (OCOMS_SUCCESS, Some j)"
    using found_by_name_ok [OF ok(2), of c name] nm ok(1,5) by simp
  moreover have "var_get s' j True = var_get s' (int i) True"
    using ok i by (simp add: var_get_def var_get_one_ok)
  then have "ocoms_mca_base_var_get_value s' j = ocoms_mca_base_var_get_value s' (int i)"
    "ocoms_mca_base_var_set_value c s' j v src file = ocoms_mca_base_var_set_value c s' (int i) v src file"
    by (simp_all add: ocoms_mca_base_var_get_value_def ocoms_mca_base_var_set_value_def)
  ultimately show ?thesis using ok by blast
qed

text \<open>
  C27: A synonym shares its original's value: when registering a synonym under a new name returns an
  index, the name leads to that index, and reading or setting the value through it is the same as
  through the original, for every value, source and file.
\<close>

theorem synonym_shares_value:
  assumes "vars_wf s" "groups_wf s" "var_room c (Suc k) s" "mca_memory c"
    and "i < length (vs_heap s)" "\<not> VAR_IS_SYNONYM (vs_heap s ! i)" "mbv_type (vs_heap s ! i) \<noteq> MCA_BASE_VAR_TYPE_MAX"
    and "short framework" "short component" "short (Some name)" "name \<notin> set (var_names s)"
    and "ocoms_mca_base_var_register_synonym init c s (int i) project framework component (Some name) flags = Some (j, s')" "0 \<le> j"
  shows "j = int (length (vs_heap s)) \<and> vars_wf s' \<and> found_by_name c s' name = Some (OCOMS_SUCCESS, Some j) \<and>
    ocoms_mca_base_var_get_value s' j = ocoms_mca_base_var_get_value s' (int i) \<and>
    ocoms_mca_base_var_set_value c s' j v src file = ocoms_mca_base_var_set_value c s' (int i) v src file"
  by (rule synonym_shares_value_lemma [OF assms])

text \<open>What the search for a value does with a synonym whose original has a value already.\<close>

lemma synonym_target:
  assumes wf: "vars_wf s" and a: "a < length (vs_heap s)" "VAR_IS_SYNONYM (vs_heap s ! a)" "mbv_synonym_for (vs_heap s ! a) = int i"
    and i: "i < length (vs_heap s)" "\<not> VAR_IS_SYNONYM (vs_heap s ! i)"
  shows "target_of s a limit = Some (if limit \<le> mbv_source (vs_heap s ! i) then Inl OCOMS_SUCCESS else Inr i)"
  using assms var_get_ok [OF wf i(1), of True] by (simp add: target_of_def)

lemma set_initial_synonym:
  assumes wf: "vars_wf s" and a: "a < length (vs_heap s)" "VAR_IS_SYNONYM (vs_heap s ! a)" "mbv_synonym_for (vs_heap s ! a) = int i"
    and i: "i < length (vs_heap s)" "\<not> VAR_IS_SYNONYM (vs_heap s ! i)" "i \<noteq> a"
    and names: "mbv_full_name (vs_heap s ! a) \<noteq> None" "mbv_long_name (vs_heap s ! a) \<noteq> None"
    and src: "MCA_BASE_VAR_SOURCE_ENV \<le> mbv_source (vs_heap s ! i)" "MCA_BASE_VAR_SOURCE_FILE \<le> mbv_source (vs_heap s ! i) \<or> vs_override_values s = []"
  shows "var_set_initial c s a = Some (OCOMS_SUCCESS, s\<lparr>vs_heap := (vs_heap s)[a := (if MCA_BASE_VAR_SOURCE_FILE \<le> mbv_source (vs_heap s ! i)
     then (vs_heap s ! a)\<lparr>mbv_flags := NOT MCA_BASE_VAR_FLAG_SETTABLE AND (mbv_flags (vs_heap s ! a) OR MCA_BASE_VAR_FLAG_OVERRIDE), mbv_source := MCA_BASE_VAR_SOURCE_OVERRIDE\<rparr>
     else (vs_heap s ! a)\<lparr>mbv_source := MCA_BASE_VAR_SOURCE_DEFAULT\<rparr>)]\<rparr>)"
proof -
  let ?v = "vs_heap s ! a"
  let ?d = "?v\<lparr>mbv_source := MCA_BASE_VAR_SOURCE_DEFAULT\<rparr>" and ?o = "?v\<lparr>mbv_flags := NOT MCA_BASE_VAR_FLAG_SETTABLE AND (mbv_flags ?v OR MCA_BASE_VAR_FLAG_OVERRIDE), mbv_source := MCA_BASE_VAR_SOURCE_OVERRIDE\<rparr>"
  have t: "target_of (s\<lparr>vs_heap := (vs_heap s)[a := w]\<rparr>) a limit = Some (if limit \<le> mbv_source (vs_heap s ! i) then Inl OCOMS_SUCCESS else Inr i)"
    if "w = ?d \<or> w = ?o" for w limit
  proof -
    have "vars_wf (s\<lparr>vs_heap := (vs_heap s)[a := w]\<rparr>)" using that wf a(1) by (intro vars_wf_upd) auto
    then show ?thesis using that a i by (subst synonym_target [where i = i]) (auto simp: flag_simps)
  qed
  obtain full long where fl: "mbv_full_name ?v = Some full" "mbv_long_name ?v = Some long" using names by auto
  have e: "var_set_from_env c (s\<lparr>vs_heap := (vs_heap s)[a := w]\<rparr>) a = Some (OCOMS_SUCCESS, s\<lparr>vs_heap := (vs_heap s)[a := w]\<rparr>)"
    if H: "w = ?d \<or> w = ?o" for w
    using t [OF H] H fl a(1) src(1) by (auto simp: var_set_from_env_def)
  have f: "var_set_from_file c (s\<lparr>vs_heap := (vs_heap s)[a := ?d]\<rparr>) a (vs_override_values s) =
      Some (if MCA_BASE_VAR_SOURCE_FILE \<le> mbv_source (vs_heap s ! i) then OCOMS_SUCCESS else OCOMS_ERR_NOT_FOUND, s\<lparr>vs_heap := (vs_heap s)[a := ?d]\<rparr>)"
    using t [of ?d] fl a(1) i(1,3) src(2) by (auto simp: var_set_from_file_def)
  show ?thesis
    using a(1) f e [of ?d] e [of ?o] by (auto simp: var_set_initial_def)
qed

text \<open>The variables that were there before keep all but their synonyms.\<close>

definition extends_vars :: "mca \<Rightarrow> mca \<Rightarrow> bool" where
  "extends_vars s s' \<longleftrightarrow> vs_store s' = vs_store s \<and> vs_home s' = vs_home s \<and>
     length (vs_heap s) \<le> length (vs_heap s') \<and>
     (\<forall>j < length (vs_heap s). \<exists>syns. vs_heap s' ! j = (vs_heap s ! j)\<lparr>mbv_synonyms := syns\<rparr>)"

lemma register_synonym_total:
  assumes wf: "vars_wf s" "groups_wf s" "var_room c (Suc k) s" "mca_memory c"
    and r: "synonym_ok r name" "vr_synonym_for r = int i" and new: "name \<notin> set (var_names s)"
    and i: "i < length (vs_heap s)" "\<not> VAR_IS_SYNONYM (vs_heap s ! i)" "mbv_synonyms (vs_heap s ! i) \<noteq> None"
    and src: "MCA_BASE_VAR_SOURCE_ENV \<le> mbv_source (vs_heap s ! i)" "MCA_BASE_VAR_SOURCE_FILE \<le> mbv_source (vs_heap s ! i) \<or> vs_override_values s = []"
  shows "\<exists>s'. register_variable init c s r = Some (int (length (vs_heap s)), s') \<and> length (vs_heap s') = Suc (length (vs_heap s)) \<and>
    mbv_storage (vs_heap s' ! length (vs_heap s)) = None \<and> mbv_type (vs_heap s' ! length (vs_heap s)) = vr_type r \<and>
    mbv_source (vs_heap s' ! length (vs_heap s)) = (if MCA_BASE_VAR_SOURCE_FILE \<le> mbv_source (vs_heap s ! i) then MCA_BASE_VAR_SOURCE_OVERRIDE else MCA_BASE_VAR_SOURCE_DEFAULT) \<and>
    VAR_IS_INTERNAL (vs_heap s' ! length (vs_heap s)) = isset MCA_BASE_VAR_FLAG_INTERNAL (vr_flags r) \<and> extends_vars s s'"
proof -
  let ?n = "length (vs_heap s)" and ?s0 = "s\<lparr>vs_hash := ht_typed (vs_hash s)\<rparr>"
  have ready: "vs_ready s" using wf(1) by (simp add: vars_wf_def)
  note sp = r(1) [unfolded synonym_ok_def]
  have wf0: "vars_wf ?s0" "groups_wf ?s0" "var_room c (Suc k) ?s0" "name \<notin> set (var_names ?s0)" using wf new by (simp_all add: var_names_def)
  obtain gi s1 where s1: "new_variable c ?s0 r = Some (Inr (int ?n, ?n), s1)" "vars_wf s1"
    "vs_heap s1 = vs_heap s @ [made_var c r name ?n gi]" "vs_override_values s1 = vs_override_values s"
    "vs_store s1 = vs_store s" "vs_home s1 = vs_home s"
    using new_variable_ok [OF wf0(1-3) wf(4), of r name] wf0(4) sp by fastforce
  define v where "v = (made_var c r name ?n gi)\<lparr>mbv_enumerator := spec_enum r\<rparr>"
  have v: "mbv_full_name v \<noteq> None" "mbv_long_name v \<noteq> None" "VAR_IS_SYNONYM v" "mbv_synonym_for v = int i" "mbv_storage v = None" "mbv_type v = vr_type r"
    using sp r(2) by (simp_all add: v_def flag_simps del: join_names.simps) (simp add: made_var_def variable_object_def var_constructor_def)
  let ?t = "s1\<lparr>vs_heap := vs_heap s @ [v]\<rparr>"
  have wt: "vars_wf ?t" using vars_wf_upd [OF s1(2), of ?n v] s1(3) by (simp add: v_def del: join_names.simps)
  have find: "var_find c s None None None (Some name) True = Some (OCOMS_ERR_NOT_FOUND, ?s0)"
    using find_new_name [OF wf(1,4) _ new] sp by simp
  obtain syns where syns: "mbv_synonyms (vs_heap s ! i) = Some syns" using i(3) by blast
  define oi where "oi = (vs_heap s ! i)\<lparr>mbv_synonyms := Some (syns @ [int ?n])\<rparr>"
  define u where "u = s1\<lparr>vs_heap := (vs_heap s)[i := oi] @ [v]\<rparr>"
  have "ocoms_pointer_array_get_item (vs_vars s1) (int i) = Some (Some i)"
    using wt i(1) pa_filled_get [of "vs_vars s1" "Suc ?n" "int i"] by (simp add: vars_wf_def)
  then have at: "attach_storage c ?t (int ?n) ?n r = Some u"
    using sp r(2) i(1) syns by (simp add: attach_storage_def nth_append va_append_def u_def oi_def list_update_append1)
  have wu: "vars_wf u" using vars_wf_upd [OF wt, of i oi] i(1) by (simp add: u_def oi_def list_update_append1 nth_append)
  have us: "vs_store u = vs_store s1" "vs_home u = vs_home s1" by (simp_all add: u_def)
  have iu: "vs_heap u ! i = oi" "vs_heap u ! ?n = v" "length (vs_heap u) = Suc ?n" using i(1) by (simp_all add: u_def nth_append)
  let ?b = "MCA_BASE_VAR_SOURCE_FILE \<le> mbv_source (vs_heap s ! i)"
  let ?w = "if ?b then v\<lparr>mbv_flags := NOT MCA_BASE_VAR_FLAG_SETTABLE AND (mbv_flags v OR MCA_BASE_VAR_FLAG_OVERRIDE), mbv_source := MCA_BASE_VAR_SOURCE_OVERRIDE\<rparr>
    else v\<lparr>mbv_source := MCA_BASE_VAR_SOURCE_DEFAULT\<rparr>"
  have ini: "var_set_initial c u ?n = Some (OCOMS_SUCCESS, u\<lparr>vs_heap := (vs_heap u)[?n := ?w]\<rparr>)"
    using set_initial_synonym [OF wu, of ?n i c] iu v i src s1(4) by (simp add: oi_def u_def)
  let ?x = "?w\<lparr>mbv_flags := mbv_flags ?w OR MCA_BASE_VAR_FLAG_VALID\<rparr>"
  have "register_variable init c s r = Some (int ?n, u\<lparr>vs_heap := (vs_heap u)[?n := ?x]\<rparr>)"
    using ready sp s1(1,3) find at [unfolded v_def] ini iu(3)
    by (simp add: register_variable_def spec_enum_def [symmetric] OCOMS_ERR_NOT_FOUND_def cong: if_cong)
  moreover have "\<exists>x. vs_heap u ! j = (vs_heap s ! j)\<lparr>mbv_synonyms := x\<rparr>" if "j < ?n" for j
    using that i(1)
    by (intro exI [of _ "if j = i then Some (syns @ [int ?n]) else mbv_synonyms (vs_heap s ! j)"]) (simp add: u_def oi_def nth_append nth_list_update)
  then have "extends_vars s (u\<lparr>vs_heap := (vs_heap u)[?n := ?x]\<rparr>)"
    using s1(5,6) iu(3) us by (auto simp: extends_vars_def nth_list_update)
  moreover have "VAR_IS_INTERNAL ?x = isset MCA_BASE_VAR_FLAG_INTERNAL (vr_flags r)" by (simp add: v_def flag_simps del: join_names.simps)
  ultimately show ?thesis using iu v by (intro exI [of _ "u\<lparr>vs_heap := (vs_heap u)[?n := ?x]\<rparr>"]) simp
qed

text \<open>The state after the sample registration, and a second one whose string comes from a parameter file.\<close>

lemma sample_registered:
  "\<exists>s w. ocoms_mca_base_var_register (\<lambda>s. None) sample_mca sample_state sample_spec = Some (0, s) \<and> vars_wf s \<and> groups_wf s \<and> var_room sample_mca (Suc 14) s \<and> mbv_synonyms w = Some [] \<and>
     vs_override_values s = [] \<and> pa_size (vs_vars s) = 128 \<and> vs_heap s = [w] \<and> var_names s = [''verbose''] \<and> mbv_source w = MCA_BASE_VAR_SOURCE_ENV \<and> VAR_IS_VALID w \<and>
     \<not> VAR_IS_SYNONYM w \<and> \<not> VAR_IS_INTERNAL w \<and> mbv_type w = MCA_BASE_VAR_TYPE_INT \<and> mbv_enumerator w = None \<and>
     mbv_storage w = Some 10 \<and> vs_store s 10 = Some (Int_store 7)"
proof -
  let ?r = "sample_spec\<lparr>vr_synonym_for := - 1\<rparr>"
  have cv: "converts sample_mca sample_state (fresh_var sample_mca sample_spec ''verbose'' 0 0) (Int_store 1) (Some ''7'') x \<longleftrightarrow> x = Int_store 7" for x
    using sample_converts by (auto simp: converts_def)
  have sp: "spec_ok sample_mca sample_state ?r ''verbose'' 10 (Int_store 1)" using sample_spec_ok(1) by simp
  obtain s w d' gi where s: "register_variable (\<lambda>s. None) sample_mca sample_state ?r = Some (0, s)" "vars_wf s" "vs_heap s = [w]" "VAR_IS_VALID w" "same_var (fresh_var sample_mca ?r ''verbose'' 0 gi) w" "vs_store s = (vs_store sample_state)(10 \<mapsto> d')"
    "takes_first sample_mca sample_state (fresh_var sample_mca sample_spec ''verbose'' 0 0) (Int_store 1) [(MCA_BASE_VAR_SOURCE_ENV, Some ''7'')] (mbv_source w) d'"
    "groups_wf s" "var_room sample_mca (Suc 14) s" "vs_override_values s = []" "pa_size (vs_vars s) = 128"
    using register_variable_ok [OF sample_state_ok(1,2) sample_room sample_memory sp sample_spec_ok(2), of "\<lambda>s. None"]
    by (auto simp: sample_state_ok sample_offers cv simp del: join_names.simps)
  have "ocoms_mca_base_var_register (\<lambda>s. None) sample_mca sample_state sample_spec = Some (0, s)"
    using s(1) by (simp add: ocoms_mca_base_var_register_def sample_spec_def)
  moreover have "mbv_source w = MCA_BASE_VAR_SOURCE_ENV" "d' = Int_store 7" using s(7) cv by (simp_all add: takes_first_def)
  moreover have "\<not> VAR_IS_SYNONYM w" "\<not> VAR_IS_INTERNAL w" "mbv_type w = MCA_BASE_VAR_TYPE_INT" "mbv_enumerator w = None" "mbv_synonyms w = Some []" "mbv_storage w = Some 10" "var_names s = [''verbose'']"
    using same_varD [OF s(5)] s(3) by (simp_all add: sample_spec_def spec_enum_def flag_simps var_names_def del: join_names.simps)
  ultimately show ?thesis using s by auto
qed

lemma short_sample: "short None" "short (Some ''coll'')" "short (Some ''chatty'')"
  by (simp_all add: short_def)

theorem synonym_shares_value_witness:
  "\<exists>s s'. ocoms_mca_base_var_register (\<lambda>s. None) sample_mca sample_state sample_spec = Some (0, s) \<and>
    ocoms_mca_base_var_register_synonym (\<lambda>s. None) sample_mca s 0 None (Some ''coll'') None (Some ''chatty'') 0 = Some (1, s') \<and>
    found_by_name sample_mca s' ''chatty'' = Some (OCOMS_SUCCESS, Some 1) \<and>
    ocoms_mca_base_var_get_value s' 1 = ocoms_mca_base_var_get_value s' 0"
proof -
  obtain s w where s: "ocoms_mca_base_var_register (\<lambda>s. None) sample_mca sample_state sample_spec = Some (0, s)" "vars_wf s" "groups_wf s"
     "var_room sample_mca (Suc 14) s" "vs_heap s = [w]" "var_names s = [''verbose'']" "mbv_source w = MCA_BASE_VAR_SOURCE_ENV"
     "\<not> VAR_IS_SYNONYM w" "mbv_type w = MCA_BASE_VAR_TYPE_INT" "mbv_synonyms w = Some []" "vs_override_values s = []"
    using sample_registered by blast
  let ?r = "synonym_spec w 0 None (Some ''coll'') None (Some ''chatty'') 0"
  have r: "synonym_ok ?r ''chatty''" using s(9) short_sample by (intro synonym_spec_ok) simp_all
  have eq: "ocoms_mca_base_var_register_synonym (\<lambda>s. None) sample_mca s 0 None (Some ''coll'') None (Some ''chatty'') 0 =
      register_variable (\<lambda>s. None) sample_mca s ?r"
    using register_synonym_eq [OF s(2), of 0] s(5,8) by simp
  obtain s' where s': "register_variable (\<lambda>s. None) sample_mca s ?r = Some (1, s')"
    using register_synonym_total [OF s(2-4) sample_memory r, of 0 "\<lambda>s. None"] s(5-11)
    by (auto simp: synonym_spec_ok less_eq_ocoms_mca_base_var_source_t_def)
  have run: "ocoms_mca_base_var_register_synonym (\<lambda>s. None) sample_mca s (int 0) None (Some ''coll'') None (Some ''chatty'') 0 = Some (1, s')"
    using eq s' by simp
  have "found_by_name sample_mca s' ''chatty'' = Some (OCOMS_SUCCESS, Some 1) \<and> ocoms_mca_base_var_get_value s' 1 = ocoms_mca_base_var_get_value s' (int 0)"
    using synonym_shares_value [OF s(2-4) sample_memory _ _ _ short_sample(2,1,3) _ run] s(5,6,8,9) by simp
  then show ?thesis using s(1) run by auto
qed

text \<open>The environment is built of the same entries after a registration that keeps the variables.\<close>

lemma extends_get:
  assumes "vars_wf s" "vars_wf s'" "extends_vars s s'" "j < length (vs_heap s)"
    and "ocoms_mca_base_var_get_value s (int j) = Some (OCOMS_SUCCESS, r)"
  shows "ocoms_mca_base_var_get_value s' (int j) = Some (OCOMS_SUCCESS, r)"
proof -
  have same: "\<exists>syns. vs_heap s' ! k = (vs_heap s ! k)\<lparr>mbv_synonyms := syns\<rparr>" if "k < length (vs_heap s)" for k
    using assms(3) that by (simp add: extends_vars_def)
  have len: "length (vs_heap s) \<le> length (vs_heap s')" using assms(3) by (simp add: extends_vars_def)
  obtain syns where j: "vs_heap s' ! j = (vs_heap s ! j)\<lparr>mbv_synonyms := syns\<rparr>" using same assms(4) by blast
  let ?v = "vs_heap s ! j"
  define k where "k = (if VAR_IS_SYNONYM ?v then mbv_synonym_for ?v else int j)"
  have e: "var_get t (int j) True = var_get_one t k" if "t = s \<or> t = s'" for t
    using that assms(1,2,4) len j by (auto simp: var_get_def var_get_one_ok the_var_def k_def)
  have k: "0 \<le> k" "nat k < length (vs_heap s)"
    using assms(5) e [of s] by (auto simp: ocoms_mca_base_var_get_value_def var_get_one_ok [OF assms(1)] OCOMS_SUCCESS_def OCOMS_ERR_BAD_PARAM_def split: if_splits)
  obtain syns' where k': "vs_heap s' ! nat k = (vs_heap s ! nat k)\<lparr>mbv_synonyms := syns'\<rparr>" using same k(2) by blast
  show ?thesis using assms(5) e len k k' unfolding ocoms_mca_base_var_get_value_def
    by (auto simp: var_get_one_ok [OF assms(1)] var_get_one_ok [OF assms(2)] the_var_def OCOMS_SUCCESS_def OCOMS_ERR_BAD_PARAM_def split: if_splits)
qed

lemma extends_step:
  assumes "vars_wf s" "vars_wf s'" "extends_vars s s'" "j < length (vs_heap s)"
    and "build_env_step c s internal (int j) e = Some (True, e')"
  shows "build_env_step c s' internal (int j) e = Some (True, e')"
proof -
  obtain syns where j: "vs_heap s' ! j = (vs_heap s ! j)\<lparr>mbv_synonyms := syns\<rparr>" "length (vs_heap s) \<le> length (vs_heap s')"
      "vs_store s' = vs_store s" "vs_home s' = vs_home s"
    using assms(3,4) by (auto simp: extends_vars_def)
  have items: "ocoms_pointer_array_get_item (vs_vars s) (int j) = Some (Some j)" "ocoms_pointer_array_get_item (vs_vars s') (int j) = Some (Some j)"
    using assms(1,2,4) j(2) by (auto simp: vars_wf_def pa_filled_get)
  have idx: "mbv_index (vs_heap s ! j) = int j" using assms(1,4) by (simp add: vars_wf_def)
  have vs: "var_value_string c s' j = Some (OCOMS_SUCCESS, x)" if v0: "var_value_string c s j = Some (OCOMS_SUCCESS, x)" for x
  proof -
    obtain r where r: "ocoms_mca_base_var_get_value s (int j) = Some (OCOMS_SUCCESS, r)"
      using v0 assms(4) idx by (cases "ocoms_mca_base_var_get_value s (int j)") (auto simp: var_value_string_def split: if_splits bind_splits)
    have eqs: "mbv_type (vs_heap s' ! j) = mbv_type (vs_heap s ! j)" "mbv_index (vs_heap s' ! j) = int j"
        "mbv_enumerator (vs_heap s' ! j) = mbv_enumerator (vs_heap s ! j)" "vctx c s' = vctx c s" "rdn (vs_heap s') j = Some (vs_heap s' ! j)"
        "rdn (vs_heap s) j = Some (vs_heap s ! j)"
      using j idx assms(4) by (simp_all add: vctx_def)
    show ?thesis using v0 extends_get [OF assms(1-4) r] r
      unfolding var_value_string_def eqs(5,6) bind.bind_lunit eqs(1-4) idx j(3) by simp
  qed
  let ?v = "vs_heap s ! j" and ?w = "vs_heap s' ! j"
  let ?null = "if mbv_type ?v = MCA_BASE_VAR_TYPE_STRING then do {
                addr \<leftarrow> mbv_storage ?v;
                st \<leftarrow> vs_store s addr;
                (case st of String_store x \<Rightarrow> Some (x = None) | _ \<Rightarrow> None) } else Some False"
  have eqs: "mbv_source ?w = mbv_source ?v" "mbv_flags ?w = mbv_flags ?v" "mbv_type ?w = mbv_type ?v" "mbv_storage ?w = mbv_storage ?v"
      "mbv_full_name ?w = mbv_full_name ?v" "source_entry c ?w name = source_entry c ?v name" for name
    using j(1) by (simp_all add: source_entry_def)
  have at: "rdn (vs_heap s) j = Some ?v" "rdn (vs_heap s') j = Some ?w" using assms(4) j(2) by simp_all
  define N where "N = ?null"
  note step = build_env_step_def bind.bind_lunit items option.case at
  show ?thesis
  proof (cases "mbv_source ?v = MCA_BASE_VAR_SOURCE_DEFAULT \<or> (\<not> internal \<and> VAR_IS_INTERNAL ?v) \<or> N = Some True")
    case True
    then show ?thesis using assms(5) unfolding step eqs j(3) N_def [symmetric] by auto
  next
    case False
    then have "\<exists>x. var_value_string c s j = Some (OCOMS_SUCCESS, x)"
      using assms(5) unfolding step N_def [symmetric] by (cases "var_value_string c s j") (auto split: if_splits bind_splits)
    then obtain x where x: "var_value_string c s j = Some (OCOMS_SUCCESS, x)" by blast
    show ?thesis using assms(5) unfolding step eqs j(3) N_def [symmetric] x vs [OF x] by simp
  qed
qed

lemma build_env_prefix:
  "build_env_loop c s internal (is @ js) e = Some (OCOMS_SUCCESS, r) \<Longrightarrow> \<exists>e'. build_env_loop c s internal is e = Some (OCOMS_SUCCESS, e')"
proof (induction "is" arbitrary: e)
  case (Cons i js')
  then show ?case
    by (cases "build_env_step c s internal (int i) e") (auto simp: OCOMS_SUCCESS_def OCOMS_ERR_NOT_FOUND_def split: if_splits)
qed simp

lemma build_env_same:
  "build_env_loop c s internal is e = Some (OCOMS_SUCCESS, r) \<Longrightarrow>
   (\<And>i e e'. i \<in> set is \<Longrightarrow> build_env_step c s internal (int i) e = Some (True, e') \<Longrightarrow> build_env_step c s' internal (int i) e = Some (True, e')) \<Longrightarrow>
   build_env_loop c s' internal (is @ js) e = build_env_loop c s' internal js r"
proof (induction "is" arbitrary: e)
  case (Cons i js')
  obtain e1 where e1: "build_env_step c s internal (int i) e = Some (True, e1)" "build_env_loop c s internal js' e1 = Some (OCOMS_SUCCESS, r)"
    using Cons.prems(1)
    by (cases "build_env_step c s internal (int i) e") (auto simp: OCOMS_SUCCESS_def OCOMS_ERR_NOT_FOUND_def split: if_splits)
  have "build_env_loop c s' internal (js' @ js) e1 = build_env_loop c s' internal js r"
    using e1(2) Cons.prems(2) by (intro Cons.IH) simp_all
  then show ?case using Cons.prems(2) [OF _ e1(1)] by simp
qed simp

text \<open>
  C28: A synonym of a string variable whose value came from a parameter file makes building the
  environment for child processes crash: registering the synonym succeeds, but it is left with the source
  of an override and no storage.  Where the environment could be built before, building it with the synonym
  dereferences the null storage, so it has no result, whether internal variables are asked for or not
  (unless the synonym itself is internal and they are not).
\<close>

theorem string_synonym_breaks_build_env:
  assumes "vars_wf s" "groups_wf s" "var_room c (Suc k) s" "mca_memory c"
    and "i < length (vs_heap s)" "\<not> VAR_IS_SYNONYM (vs_heap s ! i)" "mbv_type (vs_heap s ! i) = MCA_BASE_VAR_TYPE_STRING"
    and "mbv_synonyms (vs_heap s ! i) \<noteq> None" and "MCA_BASE_VAR_SOURCE_FILE \<le> mbv_source (vs_heap s ! i)"
    and "short framework" "short component" "short (Some name)" "name \<notin> set (var_names s)"
    and "internal \<or> \<not> isset MCA_BASE_VAR_SYN_FLAG_INTERNAL flags"
  shows "\<exists>s'. ocoms_mca_base_var_register_synonym init c s (int i) project framework component (Some name) flags = Some (int (length (vs_heap s)), s') \<and>
    mbv_source (vs_heap s' ! length (vs_heap s)) = MCA_BASE_VAR_SOURCE_OVERRIDE \<and> mbv_storage (vs_heap s' ! length (vs_heap s)) = None \<and>
    (\<forall>env num_env r. ocoms_mca_base_var_build_env c s env num_env internal = Some (OCOMS_SUCCESS, r) \<longrightarrow>
       ocoms_mca_base_var_build_env c s' env num_env internal = None)"
proof -
  let ?n = "length (vs_heap s)"
  define r where "r = synonym_spec (vs_heap s ! i) (int i) project framework component (Some name) flags"
  have e: "ocoms_mca_base_var_register_synonym init c s (int i) project framework component (Some name) flags = register_variable init c s r"
    unfolding r_def by (rule register_synonym_eq [OF assms(1,5,6)])
  have r: "synonym_ok r name" "vr_synonym_for r = int i" "vr_type r = MCA_BASE_VAR_TYPE_STRING"
    using assms(7,10-12) unfolding r_def by (simp_all add: synonym_spec_ok)
  have intern: "isset MCA_BASE_VAR_FLAG_INTERNAL (vr_flags r) \<Longrightarrow> internal" using assms(14) unfolding r_def synonym_spec_def by (auto simp: flag_simps split: if_splits)
  have src: "MCA_BASE_VAR_SOURCE_ENV \<le> mbv_source (vs_heap s ! i)"
    using assms(9) by (simp add: less_eq_ocoms_mca_base_var_source_t_def)
  obtain s' where s': "register_variable init c s r = Some (int ?n, s')" "length (vs_heap s') = Suc ?n"
    "mbv_storage (vs_heap s' ! ?n) = None" "mbv_type (vs_heap s' ! ?n) = MCA_BASE_VAR_TYPE_STRING"
    "mbv_source (vs_heap s' ! ?n) = MCA_BASE_VAR_SOURCE_OVERRIDE" "VAR_IS_INTERNAL (vs_heap s' ! ?n) \<Longrightarrow> internal" "extends_vars s s'"
    using register_synonym_total [OF assms(1-4) r(1,2) assms(13,5,6,8) src, of init] assms(9) r(3) intern by auto
  have wf: "vars_wf s'" using register_synonym_ok [OF assms(1-4) r(1) _ _ assms(13) s'(1)] r(2) assms(5) by simp
  then have pa: "pa_filled (vs_vars s') (Suc ?n)" "vs_ready s'" "pa_filled (vs_vars s) ?n" "vs_ready s" using s'(2) assms(1) by (simp_all add: vars_wf_def)
  have upt: "n \<le> m \<Longrightarrow> [0..<m] = [0..<n] @ [n..<m]" for n m :: nat
    using upt_add_eq_append [of 0 n "m - n"] by simp
  have bnd: "?n \<le> nat (pa_size (vs_vars s))" "?n < nat (pa_size (vs_vars s'))" using pa(1,3) unfolding pa_filled_def by linarith+
  have split: "[0..<nat (pa_size (vs_vars s))] = [0..<?n] @ [?n..<nat (pa_size (vs_vars s))]"
    "[0..<nat (pa_size (vs_vars s'))] = [0..<?n] @ ?n # [Suc ?n..<nat (pa_size (vs_vars s'))]"
    using upt [OF bnd(1)] upt [OF less_imp_le [OF bnd(2)]] upt_conv_Cons [OF bnd(2)] by simp_all
  have stuck: "build_env_step c s' internal (int ?n) e = None" for e
    using pa_filled_get [OF pa(1), of "int ?n"] s' by (auto simp: build_env_step_def)
  have "ocoms_mca_base_var_build_env c s' env num_env internal = None"
    if "ocoms_mca_base_var_build_env c s env num_env internal = Some (OCOMS_SUCCESS, q)" for env num_env q
  proof -
    have "build_env_loop c s internal ([0..<?n] @ [?n..<nat (pa_size (vs_vars s))]) (num_env, env) = Some (OCOMS_SUCCESS, q)"
      using that pa(4) by (simp add: ocoms_mca_base_var_build_env_def ocoms_pointer_array_get_size_def split)
    from build_env_prefix [OF this] obtain e' where
      e': "build_env_loop c s internal [0..<?n] (num_env, env) = Some (OCOMS_SUCCESS, e')" by blast
    have "build_env_loop c s' internal ([0..<?n] @ ?n # [Suc ?n..<nat (pa_size (vs_vars s'))]) (num_env, env) =
        build_env_loop c s' internal (?n # [Suc ?n..<nat (pa_size (vs_vars s'))]) e'"
      using extends_step [OF assms(1) wf s'(7)] by (intro build_env_same [OF e']) simp
    then show ?thesis using stuck pa(2) by (simp add: ocoms_mca_base_var_build_env_def ocoms_pointer_array_get_size_def split)
  qed
  then show ?thesis using s'(1,3,5) e by auto
qed

text \<open>A string variable that takes its value from a parameter file.\<close>

definition string_spec :: var_spec where
  "string_spec = sample_spec\<lparr>vr_name := Some ''greeting'', vr_type := MCA_BASE_VAR_TYPE_STRING\<rparr>"

definition file_state :: mca where
  "file_state = start_state\<lparr>vs_store := (vs_store start_state)(10 \<mapsto> String_store None),
     vs_file_values := [\<lparr>mbvfv_var = Some ''greeting'', mbvfv_value = Some ''hi'', mbvfv_file = Some ''/etc/params''\<rparr>]\<rparr>"

lemma vars_wf_more:
  "vars_wf (s\<lparr>vs_store := m, vs_file_values := fvs\<rparr>) = vars_wf s" "groups_wf (s\<lparr>vs_store := m, vs_file_values := fvs\<rparr>) = groups_wf s"
  by (simp_all add: vars_wf_def var_names_def groups_wf_def)

lemma file_state_ok:
  "vars_wf file_state" "groups_wf file_state" "var_room sample_mca (Suc 15) file_state" "vs_heap file_state = []"
  "var_names file_state = []" "vs_override_values file_state = []"
  using start_state_ok by (simp_all add: file_state_def started_def vars_wf_more) (simp_all add: var_names_def var_room_def group_room_def)

lemma string_registered:
  "\<exists>s w. ocoms_mca_base_var_register (\<lambda>s. None) sample_mca file_state string_spec = Some (0, s) \<and> vars_wf s \<and> groups_wf s \<and>
     var_room sample_mca (Suc 14) s \<and> vs_heap s = [w] \<and> var_names s = [''greeting''] \<and> mbv_source w = MCA_BASE_VAR_SOURCE_FILE \<and>
     \<not> VAR_IS_SYNONYM w \<and> mbv_type w = MCA_BASE_VAR_TYPE_STRING \<and> mbv_synonyms w = Some [] \<and> VAR_IS_VALID w \<and>
     mbv_storage w = Some 10 \<and> mbv_enumerator w = None \<and> mbv_source_file w \<noteq> None \<and> vs_store s 10 = Some (String_store (Some ''hi''))"
proof -
  let ?r = "string_spec\<lparr>vr_synonym_for := - 1\<rparr>" and ?v = "fresh_var sample_mca string_spec ''greeting'' 0 0"
  have o1: "offers sample_mca file_state ?v = [(MCA_BASE_VAR_SOURCE_FILE, Some ''hi'')]"
    using file_state_ok(6)
    by (simp add: offers_def file_offer_def env_offer_def sample_mca_def string_spec_def sample_spec_def mca_prefix_def not_settable_def flag_simps
      file_state_def del: join_names.simps)
  have "strstr '':~/'' ''hi'' = None" by code_simp
  moreover have "argv_mem_total (vc_mem (vctx sample_mca file_state))" using sample_memory by (simp add: mca_memory_def)
  ultimately have cv: "converts sample_mca file_state ?v (String_store None) (Some ''hi'') x \<longleftrightarrow> x = String_store (Some ''hi'')" for x
    using var_set_string_plain [of "vctx sample_mca file_state" "''hi''"]
    by (auto simp: converts_def string_spec_def var_set_from_string_def simp del: join_names.simps)
  have sp: "spec_ok sample_mca file_state ?r ''greeting'' 10 (String_store None)" "inputs_ok sample_mca file_state ''greeting''"
    using file_state_ok(6)
    by (simp_all add: spec_ok_def inputs_ok_def string_spec_def sample_spec_def sample_mca_def short_def flag_simps has_type_def file_state_def
      named_files_def mca_prefix_def)
  obtain s w d' gi where s: "register_variable (\<lambda>s. None) sample_mca file_state ?r = Some (0, s)" "vars_wf s" "groups_wf s"
    "var_room sample_mca (Suc 14) s" "vs_heap s = [w]" "same_var (fresh_var sample_mca ?r ''greeting'' 0 gi) w"
    "takes_first sample_mca file_state ?v (String_store None) [(MCA_BASE_VAR_SOURCE_FILE, Some ''hi'')] (mbv_source w) d'"
    "VAR_IS_VALID w" "knows_file file_state w" "vs_store s = (vs_store file_state)(10 \<mapsto> d')"
    using register_variable_ok [OF file_state_ok(1-3) sample_memory sp, of "\<lambda>s. None"]
    by (auto simp: file_state_ok o1 cv simp del: join_names.simps)
  have "ocoms_mca_base_var_register (\<lambda>s. None) sample_mca file_state string_spec = Some (0, s)"
    using s(1) by (simp add: ocoms_mca_base_var_register_def string_spec_def sample_spec_def)
  moreover have src: "mbv_source w = MCA_BASE_VAR_SOURCE_FILE" "d' = String_store (Some ''hi'')" using s(7) cv by (simp_all add: takes_first_def)
  moreover have "mbv_source_file w \<noteq> None" using s(9) src(1) by (simp add: knows_file_def sourced_files_def file_state_def)
  moreover have "\<not> VAR_IS_SYNONYM w" "mbv_type w = MCA_BASE_VAR_TYPE_STRING" "mbv_synonyms w = Some []" "var_names s = [''greeting'']"
      "mbv_storage w = Some 10" "mbv_enumerator w = None"
    using same_varD [OF s(6)] s(5) by (simp_all add: string_spec_def sample_spec_def spec_enum_def flag_simps var_names_def del: join_names.simps)
  ultimately show ?thesis using s by (intro exI [of _ s] exI [of _ w]) simp
qed

lemma build_env_rest:
  "\<forall>i \<in> set is. ocoms_pointer_array_get_item (vs_vars s) (int i) = Some None \<Longrightarrow> build_env_loop c s internal is e = Some (OCOMS_SUCCESS, e)"
  by (induction "is") (simp_all add: build_env_step_def)

lemma string_exported:
  assumes wf: "vars_wf s" and w: "vs_heap s = [w]" "mbv_source w = MCA_BASE_VAR_SOURCE_FILE" "\<not> VAR_IS_SYNONYM w" "VAR_IS_VALID w"
    and t: "mbv_type w = MCA_BASE_VAR_TYPE_STRING" "mbv_storage w = Some 10" "mbv_enumerator w = None" "mbv_source_file w \<noteq> None"
    and st: "vs_store s 10 = Some (String_store (Some x))"
  shows "\<exists>r. ocoms_mca_base_var_build_env sample_mca s None 0 True = Some (OCOMS_SUCCESS, r)"
proof -
  obtain f where f: "mbv_source_file w = Some f" using t(4) by blast
  have pa: "pa_filled (vs_vars s) 1" "vs_ready s" "mbv_index w = 0" and full: "mbv_full_name w \<noteq> None" using wf w(1) by (simp_all add: vars_wf_def)
  obtain full where full: "mbv_full_name w = Some full" using full by blast
  have m: "argv_mem_total (mc_mem sample_mca)" "argv_mem_ok (mc_mem sample_mca)" by (simp_all add: sample_mca_def sample_ctx_def)
  have get: "var_get s 0 True = Some (OCOMS_SUCCESS, Some 0)" using var_get_ok [OF wf, of 0 True] w(1,3) by simp
  have vs: "var_value_string sample_mca s 0 = Some (OCOMS_SUCCESS, Some x)"
    using w t st get pa(3) m(1) by (simp add: var_value_string_def ocoms_mca_base_var_get_value_def the_var_def show_value_def strdup_total)
  let ?a = "mca_prefix @ full @ ''='' @ x" and ?b = "mca_prefix @ ''SOURCE_'' @ full @ ''=FILE:'' @ f"
  obtain n1 c1 where a1: "ocoms_argv_append (mc_mem sample_mca) 0 None ?a = Some (OCOMS_SUCCESS, n1, c1)" "argv_rep c1 [?a]"
    using append_ok [of None "[]" "mc_mem sample_mca" 0 ?a] m by (auto simp: INT_MAX_def)
  obtain n2 c2 where a2: "ocoms_argv_append (mc_mem sample_mca) n1 c1 ?b = Some (OCOMS_SUCCESS, n2, c2)"
    using append_ok [OF a1(2) m(2), of n1 ?b] m(1) by (auto simp: INT_MAX_def)
  have step: "build_env_step sample_mca s True 0 (0, None) = Some (True, n2, c2)"
    using pa_filled_get [OF pa(1), of 0] w t(1,2) st vs a1(1) a2 full f m(1)
    by (simp add: build_env_step_def source_entry_def strdup_total)
  have size: "[0..<nat (pa_size (vs_vars s))] = 0 # [1..<nat (pa_size (vs_vars s))]"
    using pa(1) unfolding pa_filled_def by (simp add: upt_conv_Cons)
  have "build_env_loop sample_mca s True [1..<nat (pa_size (vs_vars s))] (n2, c2) = Some (OCOMS_SUCCESS, n2, c2)"
    using pa_filled_get [OF pa(1)] by (intro build_env_rest) auto
  then show ?thesis using step pa(2) by (simp add: ocoms_mca_base_var_build_env_def ocoms_pointer_array_get_size_def size)
qed

theorem string_synonym_breaks_build_env_witness:
  "\<exists>s s' r. ocoms_mca_base_var_register (\<lambda>s. None) sample_mca file_state string_spec = Some (0, s) \<and>
    ocoms_mca_base_var_register_synonym (\<lambda>s. None) sample_mca s 0 None (Some ''coll'') None (Some ''chatty'') 0 = Some (1, s') \<and>
    ocoms_mca_base_var_build_env sample_mca s None 0 True = Some (OCOMS_SUCCESS, r) \<and>
    ocoms_mca_base_var_build_env sample_mca s' None 0 True = None"
proof -
  obtain s w where s: "ocoms_mca_base_var_register (\<lambda>s. None) sample_mca file_state string_spec = Some (0, s)" "vars_wf s" "groups_wf s"
     "var_room sample_mca (Suc 14) s" "vs_heap s = [w]" "var_names s = [''greeting'']" "mbv_source w = MCA_BASE_VAR_SOURCE_FILE"
     "\<not> VAR_IS_SYNONYM w" "mbv_type w = MCA_BASE_VAR_TYPE_STRING" "mbv_synonyms w = Some []" "VAR_IS_VALID w"
     "mbv_storage w = Some 10" "mbv_enumerator w = None" "mbv_source_file w \<noteq> None" "vs_store s 10 = Some (String_store (Some ''hi''))"
    using string_registered by blast
  obtain r where r: "ocoms_mca_base_var_build_env sample_mca s None 0 True = Some (OCOMS_SUCCESS, r)"
    using string_exported [OF s(2,5,7,8,11,9,12-15)] by blast
  have "\<exists>s'. ocoms_mca_base_var_register_synonym (\<lambda>s. None) sample_mca s (int 0) None (Some ''coll'') None (Some ''chatty'') 0 = Some (int (length (vs_heap s)), s') \<and>
    mbv_source (vs_heap s' ! length (vs_heap s)) = MCA_BASE_VAR_SOURCE_OVERRIDE \<and> mbv_storage (vs_heap s' ! length (vs_heap s)) = None \<and>
    (\<forall>env num_env r. ocoms_mca_base_var_build_env sample_mca s env num_env True = Some (OCOMS_SUCCESS, r) \<longrightarrow>
       ocoms_mca_base_var_build_env sample_mca s' env num_env True = None)"
    by (rule string_synonym_breaks_build_env [OF s(2-4) sample_memory _ _ _ _ _ short_sample(2,1,3)])
      (simp_all add: s less_eq_ocoms_mca_base_var_source_t_def)
  then show ?thesis using s(1,5) r by auto
qed

lemma find_by_parts:
  assumes "vars_wf s" "mca_memory c" "short f" "short n" "short (Some name)"
  shows "\<exists>ret s'. ocoms_mca_base_var_find c s p f n (Some name) = Some (ret, s') \<and>
    (join_names '''' [None, f, n, Some name] \<notin> set (var_names s) \<longrightarrow> ret = OCOMS_ERR_NOT_FOUND)"
proof -
  let ?k = "join_names '''' [None, f, n, Some name]"
  have "ocoms_mca_base_var_generate_full_name4 c None f n (Some name) = Some (OCOMS_SUCCESS, Some ?k)"
    using gen_name_ok [of c None f n "Some name"] assms by (simp add: mca_memory_def short_def)
  then show ?thesis using var_find_by_name_ok [OF assms(1), of c ?k False] name_map_None [of "var_names s" ?k]
    by (cases "name_map (var_names s) ?k") (auto simp: ocoms_mca_base_var_find_def var_find_def simp del: join_names.simps split: if_splits)
qed

lemma join_names_length: "length (join_names acc ns) \<ge> length acc"
  by (induction acc ns rule: join_names.induct) (auto split: if_splits)

text \<open>
  C29: A registered variable is not found by the names it was registered with: after a registration
  under a framework and a variable name, looking for just these names returns not found, although
  the variable name alone leads to it.  (The index is kept under the variable name, and the
  lookup asks for the joined name.)
\<close>

theorem registered_names_not_found:
  assumes "vars_wf s" "groups_wf s" "var_room c (Suc k) s" "mca_memory c"
    and "spec_ok c s r name addr d" "inputs_ok c s name" and "name \<notin> set (var_names s)"
    and "\<forall>p \<in> set (offers c s (fresh_var c r name 0 0)). \<exists>d'. converts c s (fresh_var c r name 0 0) d (snd p) d'"
    and "vr_framework r = Some f" "f \<noteq> []" "join_names '''' [None, vr_framework r, vr_component r, vr_name r] \<notin> set (var_names s)"
  shows "\<exists>s' s''. ocoms_mca_base_var_register init c s r = Some (int (length (vs_heap s)), s') \<and>
    found_by_name c s' name = Some (OCOMS_SUCCESS, Some (int (length (vs_heap s)))) \<and>
    ocoms_mca_base_var_find c s' (vr_project r) (vr_framework r) (vr_component r) (vr_name r) = Some (OCOMS_ERR_NOT_FOUND, s'')"
proof -
  let ?n = "length (vs_heap s)" and ?r = "r\<lparr>vr_synonym_for := - 1\<rparr>"
  note sp = assms(5) [unfolded spec_ok_def]
  obtain s' w gi where s': "register_variable init c s ?r = Some (int ?n, s')" "vars_wf s'"
    "vs_heap s' = vs_heap s @ [w]" "VAR_IS_VALID w" "same_var (fresh_var c ?r name ?n gi) w"
    using register_variable_ok [OF assms(1-4) _ assms(6,7), of ?r addr d init] assms(5,8) by auto
  have names: "var_names s' = var_names s @ [name]" using s'(3) same_varD(1) [OF s'(5)] by (simp add: var_names_def del: join_names.simps)
  have "name_map (var_names s') name = Some (int ?n)" unfolding names using assms(7) by (simp add: name_map_snoc)
  then have "found_by_name c s' name = Some (OCOMS_SUCCESS, Some (int ?n))"
    using found_by_name_ok [OF s'(2), of c name] s'(3,4) by simp
  moreover have "join_names '''' [None, vr_framework r, vr_component r, vr_name r] \<noteq> name"
    using assms(9,10) sp by (cases "vr_component r") (auto dest: arg_cong [where f = length])
  then have "join_names '''' [None, vr_framework r, vr_component r, Some name] \<notin> set (var_names s')"
    unfolding names using assms(11) sp by (simp del: join_names.simps)
  then obtain s'' where "ocoms_mca_base_var_find c s' (vr_project r) (vr_framework r) (vr_component r) (vr_name r) = Some (OCOMS_ERR_NOT_FOUND, s'')"
    using find_by_parts [OF s'(2) assms(4), of "vr_framework r" "vr_component r" name "vr_project r"] sp by auto
  moreover have "ocoms_mca_base_var_register init c s r = Some (int ?n, s')"
    using s'(1) sp by (simp add: ocoms_mca_base_var_register_def)
  ultimately show ?thesis by blast
qed

theorem registered_names_not_found_witness:
  "\<exists>s' s''. ocoms_mca_base_var_register (\<lambda>s. None) sample_mca sample_state sample_spec = Some (0, s') \<and>
    found_by_name sample_mca s' ''verbose'' = Some (OCOMS_SUCCESS, Some 0) \<and>
    ocoms_mca_base_var_find sample_mca s' None (Some ''coll'') (Some ''basic'') (Some ''verbose'') = Some (OCOMS_ERR_NOT_FOUND, s'')"
proof -
  have cv: "converts sample_mca sample_state (fresh_var sample_mca sample_spec ''verbose'' 0 0) (Int_store 1) (Some ''7'') x \<longleftrightarrow> x = Int_store 7" for x
    using sample_converts by (auto simp: converts_def)
  have sp: "vr_project sample_spec = None" "vr_framework sample_spec = Some ''coll''" "vr_component sample_spec = Some ''basic''" "vr_name sample_spec = Some ''verbose''"
    by (simp_all add: sample_spec_def)
  show ?thesis
    using registered_names_not_found [OF sample_state_ok(1,2) sample_room sample_memory sample_spec_ok, of "''coll''" "\<lambda>s. None"]
    by (simp add: sample_state_ok sample_offers cv sp del: join_names.simps)
qed

end
