(* ===== verification/Mca_Export.thy ===== *)
theory Mca_Export
  imports Mca_Registration
begin

text \<open>
  The environment that \<open>ocoms_mca_base_var_build_env\<close> of \<open>ocoms/mca/base/mca_base_var.c\<close> makes
  for child processes, described by the entries each variable contributes.
\<close>

section \<open>Exporting the values\<close>

text \<open>What a variable contributes to the environment of a child process.\<close>

definition env_value :: "mca_ctx \<Rightarrow> mca \<Rightarrow> nat \<Rightarrow> string option" where
  "env_value c s a = (case var_value_string c s a of Some (rc, x) \<Rightarrow> if rc = OCOMS_SUCCESS then x else None | None \<Rightarrow> None)"

definition from_file :: "ocoms_mca_base_var_t \<Rightarrow> bool" where
  "from_file v \<longleftrightarrow> mbv_source v = MCA_BASE_VAR_SOURCE_FILE \<or> mbv_source v = MCA_BASE_VAR_SOURCE_OVERRIDE"

definition not_exported :: "mca \<Rightarrow> bool \<Rightarrow> ocoms_mca_base_var_t \<Rightarrow> bool" where
  "not_exported s internal v \<longleftrightarrow> mbv_source v = MCA_BASE_VAR_SOURCE_DEFAULT \<or> (\<not> internal \<and> VAR_IS_INTERNAL v) \<or>
     (mbv_type v = MCA_BASE_VAR_TYPE_STRING \<and> Option.bind (mbv_storage v) (vs_store s) = Some (String_store None))"

definition source_strings :: "ocoms_mca_base_var_t \<Rightarrow> string list" where
  "source_strings v = (if from_file v then [mca_prefix @ ''SOURCE_'' @ the (mbv_full_name v) @ ''=FILE:'' @ the (mbv_source_file v)]
     else if mbv_source v = MCA_BASE_VAR_SOURCE_COMMAND_LINE then [mca_prefix @ ''SOURCE_'' @ the (mbv_full_name v) @ ''=COMMAND_LINE'']
     else [])"

definition env_entries :: "mca_ctx \<Rightarrow> mca \<Rightarrow> bool \<Rightarrow> nat \<Rightarrow> string list" where
  "env_entries c s internal a = (let v = vs_heap s ! a in
     if not_exported s internal v then []
     else (mca_prefix @ the (mbv_full_name v) @ ''='' @ the (env_value c s a)) # source_strings v)"

text \<open>A variable that can be exported, or is left out.\<close>

definition exportable :: "mca_ctx \<Rightarrow> mca \<Rightarrow> bool \<Rightarrow> nat \<Rightarrow> bool" where
  "exportable c s internal a \<longleftrightarrow> (let v = vs_heap s ! a in not_exported s internal v \<or>
     (env_value c s a \<noteq> None \<and> mbv_source v \<noteq> MCA_BASE_VAR_SOURCE_MAX \<and> (from_file v \<longrightarrow> mbv_source_file v \<noteq> None) \<and>
      (mbv_type v = MCA_BASE_VAR_TYPE_STRING \<longrightarrow> (\<exists>x. Option.bind (mbv_storage v) (vs_store s) = Some (String_store (Some x))))))"

lemma source_entry_ok:
  assumes "argv_mem_total (mc_mem c)" and "mbv_source v \<noteq> MCA_BASE_VAR_SOURCE_MAX" and "from_file v \<longrightarrow> mbv_source_file v \<noteq> None"
  shows "source_entry c v (the (mbv_full_name v)) = Some (Some (case source_strings v of [] \<Rightarrow> None | x # _ \<Rightarrow> Some x))"
  using assms by (cases "mbv_source v") (auto simp: source_entry_def source_strings_def from_file_def)

lemma source_strings_cases: "source_strings v = [] \<or> (\<exists>x. source_strings v = [x])"
  by (simp add: source_strings_def)

lemma vars_wf_full_name: "vars_wf s \<Longrightarrow> a < length (vs_heap s) \<Longrightarrow> mbv_full_name (vs_heap s ! a) = Some (var_names s ! a)"
  unfolding vars_wf_def var_names_def by (metis comp_apply nth_map nth_mem option.collapse)

lemma build_env_skip:
  assumes "vars_wf s" "a < length (vs_heap s)" "not_exported s internal (vs_heap s ! a)"
  shows "build_env_step c s internal (int a) env = Some (True, env)"
proof -
  have "ocoms_pointer_array_get_item (vs_vars s) (int a) = Some (Some a)"
    using assms(1,2) pa_filled_get [of "vs_vars s" "length (vs_heap s)" "int a"] by (simp add: vars_wf_def)
  then show ?thesis using assms(2,3) by (auto simp: build_env_step_def not_exported_def bind_eq_Some_conv)
qed

lemma build_env_put:
  assumes wf: "vars_wf s" "a < length (vs_heap s)" and m: "argv_mem_total (mc_mem c)" "argv_mem_ok (mc_mem c)"
    and v: "exportable c s internal a" "\<not> not_exported s internal (vs_heap s ! a)"
    and env: "argv_rep (snd env) xs" "int (length xs) + 4 \<le> INT_MAX"
  shows "\<exists>env'. build_env_step c s internal (int a) env = Some (True, env') \<and> argv_rep (snd env') (xs @ env_entries c s internal a)"
proof -
  let ?v = "vs_heap s ! a"
  have g: "ocoms_pointer_array_get_item (vs_vars s) (int a) = Some (Some a)"
    using wf pa_filled_get [of "vs_vars s" "length (vs_heap s)" "int a"] by (simp add: vars_wf_def)
  note e = v(1) [unfolded exportable_def Let_def]
  obtain full where full: "mbv_full_name ?v = Some full" using vars_wf_full_name [OF wf] by blast
  obtain x where x: "var_value_string c s a = Some (OCOMS_SUCCESS, Some x)" "env_value c s a = Some x"
    using e v(2) by (auto simp: env_value_def split: option.splits if_splits)
  have ns: "(if mbv_type ?v = MCA_BASE_VAR_TYPE_STRING then do {
                addr \<leftarrow> mbv_storage ?v;
                st \<leftarrow> vs_store s addr;
                (case st of String_store x \<Rightarrow> Some (x = None) | _ \<Rightarrow> None) } else Some False) = Some False"
    using e v(2) by (auto simp: bind_eq_Some_conv)
  let ?str = "mca_prefix @ full @ ''='' @ x"
  obtain n1 c1 where a1: "ocoms_argv_append (mc_mem c) (fst env) (snd env) ?str = Some (OCOMS_SUCCESS, n1, c1)" "argv_rep c1 (xs @ [?str])"
    using append_ok [OF env(1) m(2), of "fst env" ?str] env(2) m(1) by auto
  have se: "source_entry c ?v full = Some (Some (case source_strings ?v of [] \<Rightarrow> None | x # _ \<Rightarrow> Some x))"
    using source_entry_ok [OF m(1), of ?v] e v(2) full by simp
  have step: "build_env_step c s internal (int a) env = (case source_strings ?v of [] \<Rightarrow> Some (True, n1, c1)
      | y # _ \<Rightarrow> do { (_, env2) \<leftarrow> ocoms_argv_append (mc_mem c) n1 c1 y; Some (True, env2) })"
    using g wf(2) v(2) ns x full a1 se m(1)
    by (cases internal) (simp_all add: build_env_step_def not_exported_def split: list.split)
  show ?thesis
  proof (cases "source_strings ?v")
    case Nil
    then show ?thesis using step a1(2) v(2) full x by (simp add: env_entries_def)
  next
    case (Cons y ys)
    then have ys: "ys = []" using source_strings_cases [of ?v] by simp
    obtain n2 c2 where "ocoms_argv_append (mc_mem c) n1 c1 y = Some (OCOMS_SUCCESS, n2, c2)" "argv_rep c2 ((xs @ [?str]) @ [y])"
      using append_ok [OF a1(2) m(2), of n1 y] env(2) m(1) by auto
    then show ?thesis using step Cons ys v(2) full x by (simp add: env_entries_def)
  qed
qed

lemma build_env_loop_ok:
  assumes wf: "vars_wf s" and m: "argv_mem_total (mc_mem c)" "argv_mem_ok (mc_mem c)"
  shows "\<forall>a \<in> set is. a < length (vs_heap s) \<longrightarrow> exportable c s internal a \<Longrightarrow> (\<forall>a \<in> set is. int a < pa_size (vs_vars s)) \<Longrightarrow>
    argv_rep (snd env) xs \<Longrightarrow> int (length xs + 2 * length is) + 2 \<le> INT_MAX \<Longrightarrow>
    \<exists>env'. build_env_loop c s internal is env = Some (OCOMS_SUCCESS, env') \<and>
      argv_rep (snd env') (xs @ concat (map (env_entries c s internal) (filter (\<lambda>a. a < length (vs_heap s)) is)))"
proof (induction "is" arbitrary: env xs)
  case (Cons i js)
  have "\<exists>e1. build_env_step c s internal (int i) env = Some (True, e1) \<and>
    argv_rep (snd e1) (xs @ (if i < length (vs_heap s) then env_entries c s internal i else []))"
  proof (cases "i < length (vs_heap s)")
    case False
    then have "ocoms_pointer_array_get_item (vs_vars s) (int i) = Some None"
      using wf pa_filled_get [of "vs_vars s" "length (vs_heap s)" "int i"] by (simp add: vars_wf_def)
    then show ?thesis using False Cons.prems(3) by (simp add: build_env_step_def)
  next
    case True
    then have e: "exportable c s internal i" using Cons.prems(1) by simp
    show ?thesis
    proof (cases "not_exported s internal (vs_heap s ! i)")
      case skip: True
      then show ?thesis using build_env_skip [OF wf True skip] Cons.prems(3) True by (simp add: env_entries_def)
    next
      case put: False
      then show ?thesis using build_env_put [OF wf True m e put Cons.prems(3)] Cons.prems(4) True by auto
    qed
  qed
  then obtain e1 where e1: "build_env_step c s internal (int i) env = Some (True, e1)"
    "argv_rep (snd e1) (xs @ (if i < length (vs_heap s) then env_entries c s internal i else []))" by blast
  have "length (env_entries c s internal i) \<le> 2"
    using source_strings_cases [of "vs_heap s ! i"] by (auto simp: env_entries_def Let_def)
  then have "\<exists>env'. build_env_loop c s internal js e1 = Some (OCOMS_SUCCESS, env') \<and>
      argv_rep (snd env') ((xs @ (if i < length (vs_heap s) then env_entries c s internal i else [])) @ concat (map (env_entries c s internal) (filter (\<lambda>a. a < length (vs_heap s)) js)))"
    using Cons.prems e1(2) by (intro Cons.IH) auto
  then show ?case using e1(1) by (auto split: if_splits)
qed (simp add: split_paired_Ex)

lemma build_env_ok:
  assumes wf: "vars_wf s" and m: "argv_mem_total (mc_mem c)" "argv_mem_ok (mc_mem c)"
    and v: "\<forall>a < length (vs_heap s). exportable c s internal a"
    and env: "argv_rep env xs" "int (length xs) + 2 * pa_size (vs_vars s) + 2 \<le> INT_MAX"
  shows "\<exists>n env'. ocoms_mca_base_var_build_env c s env num internal = Some (OCOMS_SUCCESS, n, env') \<and>
    argv_rep env' (xs @ concat (map (env_entries c s internal) [0..<length (vs_heap s)]))"
proof -
  let ?l = "length (vs_heap s)"
  let ?is = "[0..<nat (pa_size (vs_vars s))]"
  have r: "vs_ready s" "int ?l \<le> pa_size (vs_vars s)" using wf by (simp_all add: vars_wf_def pa_filled_def)
  have "[0..<nat (pa_size (vs_vars s))] = [0..<?l] @ [?l..<nat (pa_size (vs_vars s))]"
    using r(2) by (metis le0 le_nat_iff of_nat_0_le_iff order.trans upt_add_eq_append le_add_diff_inverse)
  then have f: "filter (\<lambda>a. a < ?l) ?is = [0..<?l]" by simp
  have "\<exists>env'. build_env_loop c s internal ?is (num, env) = Some (OCOMS_SUCCESS, env') \<and>
      argv_rep (snd env') (xs @ concat (map (env_entries c s internal) (filter (\<lambda>a. a < ?l) ?is)))"
    using v env r(2) by (intro build_env_loop_ok [OF wf m]) auto
  then show ?thesis using r(1) unfolding f by (auto simp: ocoms_mca_base_var_build_env_def ocoms_pointer_array_get_size_def)
qed

lemma env_value_plain:
  assumes wf: "vars_wf s" "i < length (vs_heap s)" and v: "VAR_IS_VALID (vs_heap s ! i)" "\<not> VAR_IS_SYNONYM (vs_heap s ! i)"
    and st: "mbv_enumerator (vs_heap s ! i) = None" "mbv_storage (vs_heap s ! i) = Some addr" "vs_store s addr = Some d"
      "plain_value (mbv_type (vs_heap s ! i)) d" and m: "argv_mem_total (mc_mem c)"
  shows "\<exists>x. show_value (vctx c s) (mbv_type (vs_heap s ! i)) d = Some x \<and> env_value c s i = Some x"
proof -
  have "mbv_index (vs_heap s ! i) = int i" using wf by (simp add: vars_wf_def)
  then have g: "ocoms_mca_base_var_get_value s (mbv_index (vs_heap s ! i)) = Some (OCOMS_SUCCESS, Some (Some addr, mbv_source (vs_heap s ! i), mbv_source_file (vs_heap s ! i)))"
    using var_get_ok [OF wf, of True] wf(2) v st(2) by (simp add: ocoms_mca_base_var_get_value_def)
  obtain x where x: "show_value (vctx c s) (mbv_type (vs_heap s ! i)) d = Some x" "mbv_type (vs_heap s ! i) \<noteq> MCA_BASE_VAR_TYPE_MAX"
    using st(4) by (cases "mbv_type (vs_heap s ! i)"; cases d) (auto simp: show_value_def has_type_def)
  then show ?thesis using g wf(2) st m by (simp add: env_value_def var_value_string_def)
qed

lemma exported_settings_lemma:
  assumes wf: "vars_wf s" and m: "argv_mem_total (mc_mem c)" "argv_mem_ok (mc_mem c)"
    and ex: "\<forall>a < length (vs_heap s). exportable c s internal a"
    and env: "argv_rep env xs" "int (length xs) + 2 * pa_size (vs_vars s) + 2 \<le> INT_MAX"
    and i: "i < length (vs_heap s)" "v = vs_heap s ! i" "\<not> not_exported s internal v" "VAR_IS_VALID v" "\<not> VAR_IS_SYNONYM v"
    and st: "mbv_enumerator v = None" "mbv_storage v = Some addr" "vs_store s addr = Some d" "plain_value (mbv_type v) d"
  shows "\<exists>n env' ys x. ocoms_mca_base_var_build_env c s env num internal = Some (OCOMS_SUCCESS, n, env') \<and> argv_rep env' (xs @ ys) \<and>
    mca_prefix @ var_names s ! i @ ''='' @ x \<in> set ys \<and>
    (\<forall>c' d'. argv_mem_total (vc_mem c') \<longrightarrow> var_set_from_string c' (mbv_type v) None d' (Some x) = Some (OCOMS_SUCCESS, d))"
proof -
  obtain x where x: "show_value (vctx c s) (mbv_type v) d = Some x" "env_value c s i = Some x"
    using env_value_plain [OF wf i(1), of addr d c] i st m(1) by auto
  obtain n env' where run: "ocoms_mca_base_var_build_env c s env num internal = Some (OCOMS_SUCCESS, n, env')"
    "argv_rep env' (xs @ concat (map (env_entries c s internal) [0..<length (vs_heap s)]))"
    using build_env_ok [OF wf m ex env] by blast
  have "mca_prefix @ var_names s ! i @ ''='' @ x \<in> set (env_entries c s internal i)"
    using i vars_wf_full_name [OF wf i(1)] x(2) by (simp add: env_entries_def)
  then have "mca_prefix @ var_names s ! i @ ''='' @ x \<in> set (concat (map (env_entries c s internal) [0..<length (vs_heap s)]))"
    using i(1) by auto
  moreover have "var_set_from_string c' (mbv_type v) None d' (Some x) = Some (OCOMS_SUCCESS, d)" if "argv_mem_total (vc_mem c')" for c' d'
  proof (rule value_round_trip [OF that st(4)])
    show "show_value c' (mbv_type v) d = Some x"
      using x(1) st(4) by (cases "mbv_type v"; cases d) (simp_all add: show_value_def)
  qed
  ultimately show ?thesis using run by blast
qed

text \<open>
  C30: The environment for child processes carries the settings over: when every variable is
  exportable or left out, building it returns success and appends to the vector, and each variable
  that is valid, no synonym, without an enumerator and not left out has an entry in it whose value, read by
  any process for a variable of the same type, gives back the stored value (negative numbers,
  doubles and strings that are rewritten excepted).
\<close>

theorem exported_settings_read_back:
  assumes "vars_wf s" and "argv_mem_total (mc_mem c)" "argv_mem_ok (mc_mem c)"
    and "\<forall>a < length (vs_heap s). exportable c s internal a"
    and "argv_rep env xs" "int (length xs) + 2 * pa_size (vs_vars s) + 2 \<le> INT_MAX"
    and "i < length (vs_heap s)" "v = vs_heap s ! i" "\<not> not_exported s internal v" "VAR_IS_VALID v" "\<not> VAR_IS_SYNONYM v"
    and "mbv_enumerator v = None" "mbv_storage v = Some addr" "vs_store s addr = Some d" "plain_value (mbv_type v) d"
  shows "\<exists>n env' ys x. ocoms_mca_base_var_build_env c s env num internal = Some (OCOMS_SUCCESS, n, env') \<and> argv_rep env' (xs @ ys) \<and>
    mca_prefix @ var_names s ! i @ ''='' @ x \<in> set ys \<and>
    (\<forall>c' d'. argv_mem_total (vc_mem c') \<longrightarrow> var_set_from_string c' (mbv_type v) None d' (Some x) = Some (OCOMS_SUCCESS, d))"
  by (rule exported_settings_lemma [OF assms])

theorem exported_settings_read_back_witness:
  "\<exists>s n env' ys x. ocoms_mca_base_var_register (\<lambda>s. None) sample_mca sample_state sample_spec = Some (0, s) \<and>
    ocoms_mca_base_var_build_env sample_mca s None 0 False = Some (OCOMS_SUCCESS, n, env') \<and> argv_rep env' ys \<and>
    mca_prefix @ ''verbose='' @ x \<in> set ys \<and>
    var_set_from_string sample_ctx MCA_BASE_VAR_TYPE_INT None (Int_store 0) (Some x) = Some (OCOMS_SUCCESS, Int_store 7)"
proof -
  obtain s w where s: "ocoms_mca_base_var_register (\<lambda>s. None) sample_mca sample_state sample_spec = Some (0, s)" "vars_wf s"
     "vs_heap s = [w]" "var_names s = [''verbose'']" "mbv_source w = MCA_BASE_VAR_SOURCE_ENV" "VAR_IS_VALID w"
     "\<not> VAR_IS_SYNONYM w" "\<not> VAR_IS_INTERNAL w" "mbv_type w = MCA_BASE_VAR_TYPE_INT" "mbv_enumerator w = None"
     "mbv_storage w = Some 10" "vs_store s 10 = Some (Int_store 7)" "pa_size (vs_vars s) = 128"
    using sample_registered by blast
  have m: "argv_mem_total (mc_mem sample_mca)" "argv_mem_ok (mc_mem sample_mca)" "argv_mem_total (vc_mem sample_ctx)"
    by (simp_all add: sample_mca_def sample_ctx_def)
  have n: "\<not> not_exported s False w" using s by (simp add: not_exported_def)
  have "sint (7 :: 32 word) = 7" by simp
  then have p: "plain_value (mbv_type w) (Int_store 7)" using s(9) by simp
  have "\<exists>x. env_value sample_mca s 0 = Some x" using env_value_plain [OF s(2), of 0 10 "Int_store 7" sample_mca] s m(1) p by auto
  then have e: "\<forall>a < length (vs_heap s). exportable sample_mca s False a" using s by (simp add: exportable_def from_file_def)
  have i: "0 < length (vs_heap s)" and v: "w = vs_heap s ! 0" and b: "int (length ([] :: string list)) + 2 * pa_size (vs_vars s) + 2 \<le> INT_MAX"
    using s(3,13) by (simp_all add: INT_MAX_def)
  obtain n env' ys x where "ocoms_mca_base_var_build_env sample_mca s None 0 False = Some (OCOMS_SUCCESS, n, env')" "argv_rep env' ys"
    "mca_prefix @ var_names s ! 0 @ ''='' @ x \<in> set ys"
    "\<forall>c' d'. argv_mem_total (vc_mem c') \<longrightarrow> var_set_from_string c' (mbv_type w) None d' (Some x) = Some (OCOMS_SUCCESS, Int_store 7)"
  proof -
    have "argv_rep None []" by simp
    from exported_settings_read_back [OF s(2) m(1,2) e this b i v n s(6,7,10-12) p, of 0] show ?thesis
      using that by auto
  qed
  then show ?thesis using s(1,4,9) m(3) by (intro exI [of _ s] exI [of _ n] exI [of _ env'] exI [of _ ys] exI [of _ x]) simp
qed

end
