(* ===== verification/Mca_Group_Dereg.thy ===== *)
theory Mca_Group_Dereg
  imports Mca_Export
begin

text \<open>
  Deregistration of groups (\<open>ocoms_mca_base_var_group_deregister\<close> of
  \<open>ocoms/mca/base/mca_base_var_group.c\<close>): it always returns and undoes what lies below a group.
\<close>

section \<open>Deregistering groups\<close>

text \<open>The invariant: valid string variables have a string in their storage, and the performance variables of groups exist.\<close>

definition string_ok :: "mca \<Rightarrow> ocoms_mca_base_var_t \<Rightarrow> bool" where
  "string_ok s v \<longleftrightarrow> (VAR_IS_VALID v \<and> \<not> VAR_IS_SYNONYM v \<and> mbv_type v = MCA_BASE_VAR_TYPE_STRING \<longrightarrow>
     (\<exists>addr x. mbv_storage v = Some addr \<and> vs_store s addr = Some (String_store x)))"

definition dereg_inv :: "mca \<Rightarrow> bool" where
  "dereg_inv s \<longleftrightarrow> vars_wf s \<and> groups_wf s \<and> pvars_wf s \<and> (\<forall>v \<in> set (vs_heap s). string_ok s v) \<and>
     (\<forall>g \<in> set (vs_gheap s). \<forall>i \<in> set (va_items (group_pvars g)). 0 \<le> i)"

text \<open>What deregistration may do: invalidate groups, and variables that go with their group.\<close>

definition valid_groups :: "mca \<Rightarrow> nat set" where
  "valid_groups s = {a. a < length (vs_gheap s) \<and> group_isvalid (vs_gheap s ! a)}"

definition undoes :: "mca \<Rightarrow> mca \<Rightarrow> bool" where
  "undoes s s' \<longleftrightarrow> length (vs_heap s') = length (vs_heap s) \<and> length (vs_gheap s') = length (vs_gheap s) \<and>
     (\<forall>a \<in> valid_groups s'. vs_gheap s' ! a = vs_gheap s ! a) \<and>
     (\<forall>a < length (vs_heap s). vs_heap s' ! a = vs_heap s ! a \<or>
        (isset MCA_BASE_VAR_FLAG_DWG (mbv_flags (vs_heap s ! a)) \<and> isset MCA_BASE_VAR_FLAG_DWG (mbv_flags (vs_heap s' ! a)) \<and> \<not> VAR_IS_VALID (vs_heap s' ! a))) \<and>
     vs_stamp s \<le> vs_stamp s' \<and> vs_stamp s' + int (card (valid_groups s')) \<le> vs_stamp s + int (card (valid_groups s))"

lemma undoes_refl [simp]: "undoes s s"
  by (simp add: undoes_def)

lemma undoes_valid: "undoes s s' \<Longrightarrow> valid_groups s' \<subseteq> valid_groups s"
  by (auto simp: undoes_def valid_groups_def)

lemma undoes_trans:
  assumes "undoes s t" and "undoes t u"
  shows "undoes s u"
proof -
  have "vs_gheap u ! a = vs_gheap s ! a" if "a \<in> valid_groups u" for a
    using assms that undoes_valid [OF assms(2)] by (auto simp: undoes_def)
  moreover have "vs_heap u ! a = vs_heap s ! a \<or>
        (isset MCA_BASE_VAR_FLAG_DWG (mbv_flags (vs_heap s ! a)) \<and> isset MCA_BASE_VAR_FLAG_DWG (mbv_flags (vs_heap u ! a)) \<and> \<not> VAR_IS_VALID (vs_heap u ! a))"
    if "a < length (vs_heap s)" for a
    using assms that unfolding undoes_def by metis
  ultimately show ?thesis using assms by (simp add: undoes_def)
qed

text \<open>One variable.\<close>

lemma string_ok_upd:
  assumes "\<forall>v \<in> set (vs_heap s). string_ok s v" and "a < length (vs_heap s)" and "\<not> VAR_IS_VALID w"
    and "m = vs_store s \<or> (\<exists>addr. m = (vs_store s)(addr \<mapsto> String_store None))"
  shows "\<forall>v \<in> set ((vs_heap s)[a := w]). string_ok (s\<lparr>vs_heap := h, vs_store := m\<rparr>) v"
proof
  fix v assume "v \<in> set ((vs_heap s)[a := w])"
  then have "v = w \<or> v \<in> set (vs_heap s)" using set_update_subset_insert by fastforce
  then show "string_ok (s\<lparr>vs_heap := h, vs_store := m\<rparr>) v"
    using assms(1,3,4) by (fastforce simp: string_ok_def)
qed

lemma deregister_ok:
  assumes inv: "dereg_inv s" and i: "0 \<le> i" "i < int (length (vs_heap s))" and dwg: "isset MCA_BASE_VAR_FLAG_DWG (mbv_flags (vs_heap s ! nat i))"
  shows "\<exists>ret s'. ocoms_mca_base_var_deregister s i = Some (ret, s') \<and> dereg_inv s' \<and> undoes s s' \<and> vs_gheap s' = vs_gheap s \<and>
    vs_stamp s' = vs_stamp s \<and> \<not> VAR_IS_VALID (vs_heap s' ! nat i) \<and> (\<forall>x. int x \<noteq> i \<longrightarrow> vs_heap s' ! x = vs_heap s ! x) \<and> vs_pheap s' = vs_pheap s"
proof -
  define a where "a = nat i"
  let ?v = "vs_heap s ! a"
  have a: "a < length (vs_heap s)" "i = int a" using i by (simp_all add: a_def nat_less_iff)
  have wf: "vars_wf s" "\<forall>v \<in> set (vs_heap s). string_ok s v" using inv by (simp_all add: dereg_inv_def)
  have g: "var_get s i False = Some (OCOMS_SUCCESS, Some a)" using var_get_ok [OF wf(1) a(1), of False] a(2) by simp
  have keep: "dereg_inv (s\<lparr>vs_heap := (vs_heap s)[a := w], vs_store := m\<rparr>) \<and> undoes s (s\<lparr>vs_heap := (vs_heap s)[a := w], vs_store := m\<rparr>)"
    if w: "w = ?v\<lparr>mbv_flags := mbv_flags ?v AND NOT MCA_BASE_VAR_FLAG_VALID\<rparr> \<or>
        w = ?v\<lparr>mbv_flags := mbv_flags ?v AND NOT MCA_BASE_VAR_FLAG_VALID, mbv_enumerator := None, mbv_storage := None\<rparr>"
      and m: "m = vs_store s \<or> (\<exists>addr. m = (vs_store s)(addr \<mapsto> String_store None))" for w m
  proof -
    have nv: "\<not> VAR_IS_VALID w" "isset MCA_BASE_VAR_FLAG_DWG (mbv_flags w)" using w dwg by (auto simp: flag_simps a_def)
    have "vars_wf (s\<lparr>vs_heap := (vs_heap s)[a := w]\<rparr>)" using wf(1) a(1) w by (intro vars_wf_upd) auto
    then have "vars_wf (s\<lparr>vs_heap := (vs_heap s)[a := w], vs_store := m\<rparr>)"
      using vars_wf_store(1) [where s = "s\<lparr>vs_heap := (vs_heap s)[a := w]\<rparr>"] by simp
    moreover have "groups_wf (s\<lparr>vs_heap := (vs_heap s)[a := w], vs_store := m\<rparr>)" using inv by (simp add: dereg_inv_def groups_wf_def)
    ultimately have "dereg_inv (s\<lparr>vs_heap := (vs_heap s)[a := w], vs_store := m\<rparr>)"
      using inv string_ok_upd [OF wf(2) a(1) nv(1) m] by (simp add: dereg_inv_def pvars_wf_def)
    moreover have "undoes s (s\<lparr>vs_heap := (vs_heap s)[a := w], vs_store := m\<rparr>)"
      using nv dwg a(1) by (auto simp: undoes_def valid_groups_def nth_list_update a_def)
    ultimately show ?thesis by simp
  qed
  let ?w1 = "?v\<lparr>mbv_flags := mbv_flags ?v AND NOT MCA_BASE_VAR_FLAG_VALID\<rparr>"
  let ?w2 = "?v\<lparr>mbv_flags := mbv_flags ?v AND NOT MCA_BASE_VAR_FLAG_VALID, mbv_enumerator := None, mbv_storage := None\<rparr>"
  have fin: "?thesis" if "ocoms_mca_base_var_deregister s i = Some (OCOMS_SUCCESS, s\<lparr>vs_heap := (vs_heap s)[a := w], vs_store := m\<rparr>)"
    "w = ?w1 \<or> w = ?w2" "m = vs_store s \<or> (\<exists>addr. m = (vs_store s)(addr \<mapsto> String_store None))" for w m
  proof -
    have "(vs_heap s)[a := w] ! x = vs_heap s ! x" if "int x \<noteq> i" for x using that a(2) by (intro nth_list_update_neq) simp
    then show ?thesis
      using that keep [OF that(2,3)] a(1) by (intro exI [of _ OCOMS_SUCCESS] exI [of _ "s\<lparr>vs_heap := (vs_heap s)[a := w], vs_store := m\<rparr>"])
        (auto simp: flag_simps a_def)
  qed
  show ?thesis
  proof (cases "VAR_IS_VALID ?v")
    case False
    then have "ocoms_mca_base_var_deregister s i = Some (OCOMS_ERR_BAD_PARAM, s)" using g a(1) by (simp add: ocoms_mca_base_var_deregister_def)
    then show ?thesis using inv False by (auto simp: a_def)
  next
    case valid: True
    show ?thesis
    proof (cases "VAR_IS_SYNONYM ?v")
      case True
      then have "ocoms_mca_base_var_deregister s i = Some (OCOMS_SUCCESS, s\<lparr>vs_heap := (vs_heap s)[a := ?w1], vs_store := vs_store s\<rparr>)"
        using g a(1) valid by (simp add: ocoms_mca_base_var_deregister_def)
      from fin [OF this] show ?thesis by simp
    next
      case plain: False
      show ?thesis
      proof (cases "mbv_type ?v = MCA_BASE_VAR_TYPE_STRING")
        case True
        then obtain addr x where "mbv_storage ?v = Some addr" "vs_store s addr = Some (String_store x)"
          using wf(2) valid plain a(1) unfolding string_ok_def by (meson nth_mem)
        then have "ocoms_mca_base_var_deregister s i = Some (OCOMS_SUCCESS, s\<lparr>vs_heap := (vs_heap s)[a := ?w2], vs_store := (vs_store s)(addr \<mapsto> String_store None)\<rparr>)"
          using g a(1) valid plain True by (simp add: ocoms_mca_base_var_deregister_def)
        from fin [OF this] show ?thesis by blast
      next
        case False
        then have "ocoms_mca_base_var_deregister s i = Some (OCOMS_SUCCESS, s\<lparr>vs_heap := (vs_heap s)[a := ?w2], vs_store := vs_store s\<rparr>)"
          using g a(1) valid plain by (simp add: ocoms_mca_base_var_deregister_def)
        from fin [OF this] show ?thesis by simp
      qed
    qed
  qed
qed

text \<open>A member that goes with its group is gone.\<close>

definition gone :: "int \<Rightarrow> mca \<Rightarrow> bool" where
  "gone i s \<longleftrightarrow> (\<forall>a < length (vs_heap s). i = int a \<longrightarrow> isset MCA_BASE_VAR_FLAG_DWG (mbv_flags (vs_heap s ! a)) \<longrightarrow> \<not> VAR_IS_VALID (vs_heap s ! a))"

lemma gone_undoes: "gone i s \<Longrightarrow> undoes s s' \<Longrightarrow> gone i s'"
  unfolding gone_def undoes_def by metis

text \<open>Steps that only change what is below the groups.\<close>

definition inner :: "mca \<Rightarrow> mca \<Rightarrow> bool" where
  "inner s s' \<longleftrightarrow> undoes s s' \<and> vs_gheap s' = vs_gheap s \<and> vs_stamp s' = vs_stamp s"

lemma inner_trans: "inner s t \<Longrightarrow> inner t u \<Longrightarrow> inner s u"
  by (auto simp: inner_def intro: undoes_trans)

lemma foldM_steps:
  assumes step: "\<And>x s. x \<in> set xs \<Longrightarrow> Q s \<Longrightarrow> \<exists>s'. f x s = Some s' \<and> Q s' \<and> R s s' \<and> P x s'"
    and refl: "\<And>s. R s s" and trans: "\<And>s t u. R s t \<Longrightarrow> R t u \<Longrightarrow> R s u" and keep: "\<And>x s s'. P x s \<Longrightarrow> R s s' \<Longrightarrow> P x s'"
  shows "Q s \<Longrightarrow> \<exists>s'. foldM f xs s = Some s' \<and> Q s' \<and> R s s' \<and> (\<forall>x \<in> set xs. P x s')"
  using step
proof (induction xs arbitrary: s)
  case (Cons x xs)
  obtain s1 where 1: "f x s = Some s1" "Q s1" "R s s1" "P x s1" using Cons.prems(2) [of x s] Cons.prems(1) by auto
  obtain s2 where "foldM f xs s1 = Some s2" "Q s2" "R s1 s2" "\<forall>x \<in> set xs. P x s2"
    using Cons.IH [OF 1(2)] Cons.prems(2) by auto
  then show ?case using 1 trans keep by auto
qed (simp add: refl)

text \<open>The variables and performance variables whose indices are not given stay as they are.\<close>

definition keeps_vars :: "int set \<Rightarrow> mca \<Rightarrow> mca \<Rightarrow> bool" where
  "keeps_vars X s s' \<longleftrightarrow> (\<forall>x. int x \<notin> X \<longrightarrow> vs_heap s' ! x = vs_heap s ! x)"

definition keeps_pvars :: "int set \<Rightarrow> mca \<Rightarrow> mca \<Rightarrow> bool" where
  "keeps_pvars X s s' \<longleftrightarrow> (\<forall>x. int x \<notin> X \<longrightarrow> vs_pheap s' ! x = vs_pheap s ! x)"

lemma keeps_refl [simp]: "keeps_vars X s s" "keeps_pvars X s s"
  by (simp_all add: keeps_vars_def keeps_pvars_def)

lemma keeps_trans:
  "keeps_vars X s t \<Longrightarrow> keeps_vars X t u \<Longrightarrow> keeps_vars X s u" "keeps_pvars X s t \<Longrightarrow> keeps_pvars X t u \<Longrightarrow> keeps_pvars X s u"
  by (simp_all add: keeps_vars_def keeps_pvars_def)

lemma keeps_mono: "keeps_vars X s t \<Longrightarrow> X \<subseteq> Y \<Longrightarrow> keeps_vars Y s t" "keeps_pvars X s t \<Longrightarrow> X \<subseteq> Y \<Longrightarrow> keeps_pvars Y s t"
  by (auto simp: keeps_vars_def keeps_pvars_def)

lemma dereg_member_ok:
  assumes inv: "dereg_inv s"
  shows "\<exists>s'. dereg_member i s = Some s' \<and> dereg_inv s' \<and> inner s s' \<and> gone i s' \<and> keeps_vars {i} s s' \<and> vs_pheap s' = vs_pheap s"
proof -
  have wf: "vars_wf s" using inv by (simp add: dereg_inv_def)
  have g: "ocoms_mca_base_var_get s i = Some (if 0 \<le> i \<and> i < int (length (vs_heap s)) then (OCOMS_SUCCESS, Some (nat i)) else (OCOMS_ERR_BAD_PARAM, None))"
    using var_get_one_ok [OF wf, of i] by (simp add: ocoms_mca_base_var_get_def var_get_def)
  show ?thesis
  proof (cases "0 \<le> i \<and> i < int (length (vs_heap s)) \<and> isset MCA_BASE_VAR_FLAG_DWG (mbv_flags (vs_heap s ! nat i))")
    case True
    then obtain ret s' where d: "ocoms_mca_base_var_deregister s i = Some (ret, s')" "dereg_inv s'" "undoes s s'" "vs_gheap s' = vs_gheap s" "vs_stamp s' = vs_stamp s"
      "\<not> VAR_IS_VALID (vs_heap s' ! nat i)" "\<forall>x. int x \<noteq> i \<longrightarrow> vs_heap s' ! x = vs_heap s ! x" "vs_pheap s' = vs_pheap s"
      using deregister_ok [OF inv, of i] by blast
    have "dereg_member i s = Some s'" using g d(1) True by (simp add: dereg_member_def nat_less_iff)
    moreover have "gone i s'" using d(6) by (auto simp: gone_def)
    ultimately show ?thesis using d by (simp add: inner_def keeps_vars_def)
  next
    case False
    then have "dereg_member i s = Some s" using g by (auto simp: dereg_member_def nat_less_iff)
    moreover have "gone i s" using False by (auto simp: gone_def)
    ultimately show ?thesis using inv by (simp add: inner_def)
  qed
qed

lemma dereg_pvar_ok:
  assumes inv: "dereg_inv s" and i: "0 \<le> i"
  shows "\<exists>s'. dereg_pvar i s = Some s' \<and> dereg_inv s' \<and> inner s s' \<and> keeps_pvars {i} s s' \<and> vs_heap s' = vs_heap s"
proof -
  have p: "pa_filled (vs_pvars s) (length (vs_pheap s))" "vs_pcount s = int (length (vs_pheap s))"
    using inv by (simp_all add: dereg_inv_def pvars_wf_def)
  have g: "ocoms_pointer_array_get_item (vs_pvars s) i = Some (if i < int (length (vs_pheap s)) then Some (nat i) else None)"
    using pa_filled_get [OF p(1) i] .
  let ?s = "s\<lparr>vs_pheap := (vs_pheap s)[nat i := (vs_pheap s ! nat i)\<lparr>pvar_flags := pvar_flags (vs_pheap s ! nat i) OR MCA_BASE_PVAR_FLAG_INVALID\<rparr>]\<rparr>"
  have "vars_wf ?s = vars_wf s" "groups_wf ?s = groups_wf s" "string_ok ?s = string_ok s"
    by (auto simp: vars_wf_def groups_wf_def string_ok_def var_names_def fun_eq_iff)
  then have "dereg_inv ?s" "inner s ?s" using inv by (simp_all add: dereg_inv_def pvars_wf_def inner_def undoes_def valid_groups_def)
  moreover have "keeps_pvars {i} s ?s" using i by (auto simp: keeps_pvars_def intro!: nth_list_update_neq)
  moreover have "dereg_pvar i s = Some s \<or> dereg_pvar i s = Some ?s"
    using g p(2) i by (auto simp: dereg_pvar_def ocoms_mca_base_pvar_get_def ocoms_mca_base_pvar_get_internal_def
        ocoms_mca_base_pvar_mark_invalid_def nat_less_iff
        OCOMS_ERR_VALUE_OUT_OF_BOUNDS_def OCOMS_SUCCESS_def)
  ultimately show ?thesis using inv by (auto simp: inner_def)
qed

text \<open>Changing a group that is not valid.\<close>

lemma upd_invalid_group:
  assumes inv: "dereg_inv s" and a: "a < length (vs_gheap s)" and g: "\<not> group_isvalid g" "va_items (group_pvars g) = [] \<or> group_pvars g = group_pvars (vs_gheap s ! a)"
  shows "dereg_inv (s\<lparr>vs_gheap := (vs_gheap s)[a := g]\<rparr>)"
    and "valid_groups (s\<lparr>vs_gheap := (vs_gheap s)[a := g]\<rparr>) = valid_groups s - {a}"
proof -
  have "vars_wf (s\<lparr>vs_gheap := (vs_gheap s)[a := g]\<rparr>) = vars_wf s" "string_ok (s\<lparr>vs_gheap := (vs_gheap s)[a := g]\<rparr>) = string_ok s"
    by (auto simp: vars_wf_def string_ok_def var_names_def fun_eq_iff)
  moreover have "groups_wf (s\<lparr>vs_gheap := (vs_gheap s)[a := g]\<rparr>)" using inv a g(1) by (intro groups_wf_upd) (simp_all add: dereg_inv_def)
  moreover have "\<forall>h \<in> set ((vs_gheap s)[a := g]). \<forall>i \<in> set (va_items (group_pvars h)). 0 \<le> i"
  proof (intro ballI)
    fix h x assume "h \<in> set ((vs_gheap s)[a := g])" and x: "x \<in> set (va_items (group_pvars h))"
    then consider "h = g" | "h \<in> set (vs_gheap s)" using set_update_subset_insert by fastforce
    then show "0 \<le> x"
    proof cases
      case 1
      then show ?thesis using x g(2) inv nth_mem [OF a] by (fastforce simp: dereg_inv_def)
    qed (use inv x in \<open>auto simp: dereg_inv_def\<close>)
  qed
  ultimately show "dereg_inv (s\<lparr>vs_gheap := (vs_gheap s)[a := g]\<rparr>)" using inv by (simp add: dereg_inv_def pvars_wf_def)
  show "valid_groups (s\<lparr>vs_gheap := (vs_gheap s)[a := g]\<rparr>) = valid_groups s - {a}"
    using g(1) a by (auto simp: valid_groups_def nth_list_update split: if_splits)
qed

text \<open>When a group is gone, so are its members and, in turn, the groups below it.\<close>

definition finished :: "mca \<Rightarrow> mca \<Rightarrow> bool" where
  "finished s s' \<longleftrightarrow> (\<forall>b \<in> valid_groups s - valid_groups s'. (\<forall>x \<in> set (va_items (group_vars (vs_gheap s ! b))). gone x s') \<and>
     (\<forall>x \<in> set (va_items (group_subgroups (vs_gheap s ! b))). 0 \<le> x \<longrightarrow> nat x \<notin> valid_groups s'))"

lemma finished_trans:
  assumes "undoes s t" "finished s t" "undoes t u" "finished t u"
  shows "finished s u"
  unfolding finished_def
proof (intro ballI)
  fix b assume b: "b \<in> valid_groups s - valid_groups u"
  show "(\<forall>x \<in> set (va_items (group_vars (vs_gheap s ! b))). gone x u) \<and>
     (\<forall>x \<in> set (va_items (group_subgroups (vs_gheap s ! b))). 0 \<le> x \<longrightarrow> nat x \<notin> valid_groups u)"
  proof (cases "b \<in> valid_groups t")
    case True
    then have "vs_gheap t ! b = vs_gheap s ! b" using assms(1) by (simp add: undoes_def)
    then show ?thesis using assms(4) True b by (auto simp: finished_def)
  next
    case False
    then show ?thesis using assms(2) b gone_undoes [OF _ assms(3)] undoes_valid [OF assms(3)] unfolding finished_def by blast
  qed
qed

definition subtree_undone :: "mca \<Rightarrow> mca \<Rightarrow> bool" where
  "subtree_undone s s' \<longleftrightarrow> undoes s s' \<and> finished s s'"

lemma subtree_undone_refl [simp]: "subtree_undone s s"
  by (simp add: subtree_undone_def finished_def)

lemma subtree_undone_trans: "subtree_undone s t \<Longrightarrow> subtree_undone t u \<Longrightarrow> subtree_undone s u"
  unfolding subtree_undone_def by (blast intro: undoes_trans finished_trans)

lemma finite_valid_groups [simp]: "finite (valid_groups s)"
  by (simp add: valid_groups_def)

definition stamp_room :: "mca \<Rightarrow> bool" where
  "stamp_room s \<longleftrightarrow> 0 \<le> vs_stamp s \<and> vs_stamp s + int (card (valid_groups s)) < INT_MAX"

lemma stamp_room_undoes: "stamp_room s \<Longrightarrow> undoes s s' \<Longrightarrow> stamp_room s'"
  by (simp add: stamp_room_def undoes_def)

lemma group_deregister_invalid:
  assumes "dereg_inv s" and "i < 0 \<or> nat i \<notin> valid_groups s"
  shows "ocoms_mca_base_var_group_deregister s i = Some (OCOMS_ERR_NOT_FOUND, s)"
proof -
  have "ocoms_mca_base_var_group_get_internal s i False = Some (OCOMS_ERR_NOT_FOUND, None)"
  proof (cases "i < 0")
    case False
    then show ?thesis using group_get_ok [of s i False] assms by (auto simp: dereg_inv_def valid_groups_def nat_less_iff)
  qed (simp add: ocoms_mca_base_var_group_get_internal_def)
  then show ?thesis by (subst ocoms_mca_base_var_group_deregister.simps) simp
qed

text \<open>What is left after the members of a group are deregistered: the group, invalid and without its arrays.\<close>

lemma deregister_members:
  assumes inv: "dereg_inv s" and a: "a \<in> valid_groups s"
  shows "\<exists>s5. (do {
       s1 \<leftarrow> upd_group a (\<lambda>g. g\<lparr>group_isvalid := False\<rparr>) s;
       s2 \<leftarrow> foldM dereg_member (va_items (group_vars (vs_gheap s ! a))) s1;
       s3 \<leftarrow> upd_group a (\<lambda>g. g\<lparr>group_vars := None\<rparr>) s2;
       s4 \<leftarrow> foldM dereg_pvar (va_items (group_pvars (vs_gheap s ! a))) s3;
       upd_group a (\<lambda>g. g\<lparr>group_pvars := None\<rparr>) s4 }) = Some s5 \<and>
     dereg_inv s5 \<and> valid_groups s5 = valid_groups s - {a} \<and> undoes s s5 \<and> vs_stamp s5 = vs_stamp s \<and>
     (\<forall>x \<in> set (va_items (group_vars (vs_gheap s ! a))). gone x s5) \<and> keeps_vars (set (va_items (group_vars (vs_gheap s ! a)))) s s5 \<and>
     keeps_pvars (set (va_items (group_pvars (vs_gheap s ! a)))) s s5 \<and> (\<forall>b. b \<noteq> a \<longrightarrow> vs_gheap s5 ! b = vs_gheap s ! b)"
proof -
  let ?g = "vs_gheap s ! a"
  have n: "a < length (vs_gheap s)" using a by (simp add: valid_groups_def)
  let ?s1 = "s\<lparr>vs_gheap := (vs_gheap s)[a := ?g\<lparr>group_isvalid := False\<rparr>]\<rparr>"
  have i1: "dereg_inv ?s1" "valid_groups ?s1 = valid_groups s - {a}" using upd_invalid_group [OF inv n, of "?g\<lparr>group_isvalid := False\<rparr>"] by simp_all
  let ?X = "set (va_items (group_vars ?g))" and ?Y = "set (va_items (group_pvars ?g))"
  let ?R = "\<lambda>s s'. inner s s' \<and> keeps_vars ?X s s' \<and> keeps_pvars ?Y s s'"
  have R_trans: "?R s t \<Longrightarrow> ?R t u \<Longrightarrow> ?R s u" for s t u by (blast intro: inner_trans keeps_trans)
  have R_refl: "?R s s" for s by (simp add: inner_def)
  have m: "\<exists>t'. dereg_member x t = Some t' \<and> dereg_inv t' \<and> ?R t t' \<and> gone x t'" if x: "x \<in> ?X" "dereg_inv t" for x t
  proof -
    obtain t' where "dereg_member x t = Some t'" "dereg_inv t'" "inner t t'" "gone x t'" "keeps_vars {x} t t'" "vs_pheap t' = vs_pheap t"
      using dereg_member_ok [OF x(2), of x] by blast
    then show ?thesis using x(1) keeps_mono(1) [of "{x}" t t' ?X] by (auto simp: keeps_pvars_def)
  qed
  have "\<exists>s2. foldM dereg_member (va_items (group_vars ?g)) ?s1 = Some s2 \<and> dereg_inv s2 \<and> ?R ?s1 s2 \<and> (\<forall>x \<in> ?X. gone x s2)"
    by (rule foldM_steps [where Q = dereg_inv, OF _ R_refl R_trans])
      (use m i1(1) in \<open>auto simp: inner_def intro: gone_undoes\<close>)
  then obtain s2 where s2: "foldM dereg_member (va_items (group_vars ?g)) ?s1 = Some s2" "dereg_inv s2" "inner ?s1 s2"
    "\<forall>x \<in> set (va_items (group_vars ?g)). gone x s2" "keeps_vars ?X ?s1 s2" "keeps_pvars ?Y ?s1 s2" by blast
  have g2: "vs_gheap s2 = vs_gheap ?s1" using s2(3) by (simp add: inner_def)
  let ?s3 = "s2\<lparr>vs_gheap := (vs_gheap s2)[a := (vs_gheap s2 ! a)\<lparr>group_vars := None\<rparr>]\<rparr>"
  have i3: "dereg_inv ?s3" using upd_invalid_group(1) [OF s2(2), of a "(vs_gheap s2 ! a)\<lparr>group_vars := None\<rparr>"] g2 n by simp
  have pos: "\<forall>x \<in> set (va_items (group_pvars ?g)). 0 \<le> x" using inv nth_mem [OF n] unfolding dereg_inv_def by blast
  have p: "\<exists>t'. dereg_pvar x t = Some t' \<and> dereg_inv t' \<and> ?R t t' \<and> True" if x: "x \<in> ?Y" "dereg_inv t" for x t
  proof -
    obtain t' where "dereg_pvar x t = Some t'" "dereg_inv t'" "inner t t'" "keeps_pvars {x} t t'" "vs_heap t' = vs_heap t"
      using dereg_pvar_ok [OF x(2), of x] pos x(1) by blast
    then show ?thesis using x(1) keeps_mono(2) [of "{x}" t t' ?Y] by (auto simp: keeps_vars_def)
  qed
  have "\<exists>s4. foldM dereg_pvar (va_items (group_pvars ?g)) ?s3 = Some s4 \<and> dereg_inv s4 \<and> ?R ?s3 s4 \<and> (\<forall>x \<in> ?Y. True)"
    by (rule foldM_steps [where Q = dereg_inv, OF p R_refl R_trans]) (use i3 in simp_all)
  then obtain s4 where s4: "foldM dereg_pvar (va_items (group_pvars ?g)) ?s3 = Some s4" "dereg_inv s4" "inner ?s3 s4"
    "keeps_vars ?X ?s3 s4" "keeps_pvars ?Y ?s3 s4" by blast
  have g4: "vs_gheap s4 = vs_gheap ?s3" using s4(3) by (simp add: inner_def)
  let ?s5 = "s4\<lparr>vs_gheap := (vs_gheap s4)[a := (vs_gheap s4 ! a)\<lparr>group_pvars := None\<rparr>]\<rparr>"
  have i5: "dereg_inv ?s5" using upd_invalid_group(1) [OF s4(2), of a "(vs_gheap s4 ! a)\<lparr>group_pvars := None\<rparr>"] g4 g2 n by (simp add: va_items_def)
  have v5: "valid_groups ?s5 = valid_groups s - {a}" using n g4 g2 by (auto simp: valid_groups_def nth_list_update split: if_splits)
  have st: "vs_stamp ?s5 = vs_stamp s" using s2(3) s4(3) by (simp add: inner_def)
  have u: "undoes ?s1 s2" "undoes ?s3 s4" using s2(3) s4(3) by (simp_all add: inner_def)
  have vars: "undoes (s\<lparr>vs_gheap := h\<rparr>) (s4\<lparr>vs_gheap := h, vs_stamp := vs_stamp s\<rparr>)" for h
  proof -
    have "undoes (s\<lparr>vs_gheap := h\<rparr>) (s2\<lparr>vs_gheap := h, vs_stamp := vs_stamp s\<rparr>)"
      using u(1) by (auto simp: undoes_def valid_groups_def)
    moreover have "undoes (s2\<lparr>vs_gheap := h, vs_stamp := vs_stamp s\<rparr>) (s4\<lparr>vs_gheap := h, vs_stamp := vs_stamp s\<rparr>)"
      using u(2) by (auto simp: undoes_def valid_groups_def)
    ultimately show ?thesis by (rule undoes_trans)
  qed
  have "undoes s ?s5"
    using vars [of "vs_gheap s"] v5 st n g4 g2 a
    by (auto simp: undoes_def nth_list_update valid_groups_def [of s] card_Diff_singleton_if)
  moreover have "gone x ?s5" if "x \<in> set (va_items (group_vars ?g))" for x
  proof -
    have "gone x s2" using s2(4) that by blast
    then have "gone x ?s3" by (simp add: gone_def)
    then have "gone x s4" using u(2) by (rule gone_undoes)
    then show ?thesis by (simp add: gone_def)
  qed
  moreover have "keeps_vars ?X s ?s5" "keeps_pvars ?Y s ?s5" using s2(5,6) s4(4,5) by (simp_all add: keeps_vars_def keeps_pvars_def)
  moreover have "vs_gheap ?s5 ! b = vs_gheap s ! b" if "b \<noteq> a" for b using that g4 g2 by simp
  ultimately show ?thesis using s2(1) s4(1) n g2 g4 i5 v5 st by (intro exI [of _ ?s5]) simp
qed

text \<open>
  The groups outside a set of groups stay as they are, and so do the variables and performance variables
  that are not members of the valid groups in it.
\<close>

definition only_below :: "nat set \<Rightarrow> mca \<Rightarrow> mca \<Rightarrow> bool" where
  "only_below D s s' \<longleftrightarrow> (\<forall>b. b \<notin> D \<longrightarrow> vs_gheap s' ! b = vs_gheap s ! b) \<and>
     keeps_vars (\<Union>b \<in> D \<inter> valid_groups s. set (va_items (group_vars (vs_gheap s ! b)))) s s' \<and>
     keeps_pvars (\<Union>b \<in> D \<inter> valid_groups s. set (va_items (group_pvars (vs_gheap s ! b)))) s s'"

lemma only_below_refl [simp]: "only_below D s s"
  by (simp add: only_below_def)

lemma only_below_trans:
  assumes "only_below D s t" "only_below D t u" "undoes s t"
  shows "only_below D s u"
proof -
  have same: "vs_gheap t ! b = vs_gheap s ! b" "b \<in> valid_groups s" if "b \<in> valid_groups t" for b
    using that assms(3) undoes_valid [OF assms(3)] by (auto simp: undoes_def)
  let ?X = "\<Union>b \<in> D \<inter> valid_groups s. set (va_items (group_vars (vs_gheap s ! b)))" and ?Y = "\<Union>b \<in> D \<inter> valid_groups s. set (va_items (group_pvars (vs_gheap s ! b)))"
  let ?Z = "\<Union>b \<in> D \<inter> valid_groups t. set (va_items (group_vars (vs_gheap t ! b)))" and ?W = "\<Union>b \<in> D \<inter> valid_groups t. set (va_items (group_pvars (vs_gheap t ! b)))"
  have sub: "?Z \<subseteq> ?X" "?W \<subseteq> ?Y" using same by fastforce+
  have k: "keeps_vars ?X s t" "keeps_pvars ?Y s t" "\<forall>b. b \<notin> D \<longrightarrow> vs_gheap t ! b = vs_gheap s ! b" using assms(1) by (simp_all add: only_below_def)
  have l: "keeps_vars ?Z t u" "keeps_pvars ?W t u" "\<forall>b. b \<notin> D \<longrightarrow> vs_gheap u ! b = vs_gheap t ! b" using assms(2) by (simp_all add: only_below_def)
  show ?thesis unfolding only_below_def
    using k(3) l(3) keeps_trans(1) [OF k(1) keeps_mono(1) [OF l(1) sub(1)]] keeps_trans(2) [OF k(2) keeps_mono(2) [OF l(2) sub(2)]] by simp
qed

lemma only_below_mono:
  assumes "only_below D s t" "D \<subseteq> E"
  shows "only_below E s t"
proof -
  have "(\<Union>b \<in> D \<inter> valid_groups s. set (va_items (group_vars (vs_gheap s ! b)))) \<subseteq> (\<Union>b \<in> E \<inter> valid_groups s. set (va_items (group_vars (vs_gheap s ! b))))"
    "(\<Union>b \<in> D \<inter> valid_groups s. set (va_items (group_pvars (vs_gheap s ! b)))) \<subseteq> (\<Union>b \<in> E \<inter> valid_groups s. set (va_items (group_pvars (vs_gheap s ! b))))"
    using assms(2) by blast+
  from keeps_mono(1) [OF _ this(1), of s t] keeps_mono(2) [OF _ this(2), of s t] show ?thesis
    using assms unfolding only_below_def by blast
qed

definition closed_below :: "nat set \<Rightarrow> mca \<Rightarrow> bool" where
  "closed_below D s \<longleftrightarrow> (\<forall>b \<in> D \<inter> valid_groups s. \<forall>x \<in> set (va_items (group_subgroups (vs_gheap s ! b))). 0 \<le> x \<longrightarrow> nat x \<in> D)"

lemma closed_below_undoes: "closed_below D s \<Longrightarrow> undoes s s' \<Longrightarrow> closed_below D s'"
  using undoes_valid [of s s'] by (auto simp: closed_below_def undoes_def)

lemma group_deregister_valid:
  assumes inv: "dereg_inv s" and i: "0 \<le> i" "nat i \<in> valid_groups s"
  shows "\<exists>s5. ocoms_mca_base_var_group_deregister s i = do {
       s6 \<leftarrow> foldM (\<lambda>i s. do { (_, s') \<leftarrow> ocoms_mca_base_var_group_deregister s i; Some s' }) (va_items (group_subgroups (vs_gheap s ! nat i))) s5;
       s7 \<leftarrow> upd_group (nat i) (\<lambda>g. g\<lparr>group_subgroups := None\<rparr>) s6;
       stamp \<leftarrow> chk (vs_stamp s7 + 1);
       Some (OCOMS_SUCCESS, s7\<lparr>vs_stamp := stamp\<rparr>) } \<and>
     dereg_inv s5 \<and> valid_groups s5 = valid_groups s - {nat i} \<and> undoes s s5 \<and> vs_stamp s5 = vs_stamp s \<and>
     (\<forall>x \<in> set (va_items (group_vars (vs_gheap s ! nat i))). gone x s5) \<and> only_below {nat i} s s5"
proof -
  let ?a = "nat i"
  have n: "?a < length (vs_gheap s)" "i < int (length (vs_gheap s))" "group_isvalid (vs_gheap s ! ?a)"
    using i by (simp_all add: valid_groups_def nat_less_iff)
  have g: "ocoms_mca_base_var_group_get_internal s i False = Some (OCOMS_SUCCESS, Some ?a)"
    using group_get_ok [of s i False] inv i n by (simp add: dereg_inv_def)
  obtain s5 where m: "(do {
       s1 \<leftarrow> upd_group ?a (\<lambda>g. g\<lparr>group_isvalid := False\<rparr>) s;
       s2 \<leftarrow> foldM dereg_member (va_items (group_vars (vs_gheap s ! ?a))) s1;
       s3 \<leftarrow> upd_group ?a (\<lambda>g. g\<lparr>group_vars := None\<rparr>) s2;
       s4 \<leftarrow> foldM dereg_pvar (va_items (group_pvars (vs_gheap s ! ?a))) s3;
       upd_group ?a (\<lambda>g. g\<lparr>group_pvars := None\<rparr>) s4 }) = Some s5"
     and s5: "dereg_inv s5 \<and> valid_groups s5 = valid_groups s - {?a} \<and> undoes s s5 \<and> vs_stamp s5 = vs_stamp s \<and>
     (\<forall>x \<in> set (va_items (group_vars (vs_gheap s ! ?a))). gone x s5)" and only: "only_below {?a} s s5"
    using deregister_members [OF inv i(2)] i(2) unfolding only_below_def by auto
  obtain s1 s2 s3 s4 where "upd_group ?a (\<lambda>g. g\<lparr>group_isvalid := False\<rparr>) s = Some s1"
    "foldM dereg_member (va_items (group_vars (vs_gheap s ! ?a))) s1 = Some s2"
    "upd_group ?a (\<lambda>g. g\<lparr>group_vars := None\<rparr>) s2 = Some s3"
    "foldM dereg_pvar (va_items (group_pvars (vs_gheap s ! ?a))) s3 = Some s4"
    "upd_group ?a (\<lambda>g. g\<lparr>group_pvars := None\<rparr>) s4 = Some s5"
    using m unfolding bind_eq_Some_conv by blast
  then have "ocoms_mca_base_var_group_deregister s i = do {
       s6 \<leftarrow> foldM (\<lambda>i s. do { (_, s') \<leftarrow> ocoms_mca_base_var_group_deregister s i; Some s' }) (va_items (group_subgroups (vs_gheap s ! nat i))) s5;
       s7 \<leftarrow> upd_group (nat i) (\<lambda>g. g\<lparr>group_subgroups := None\<rparr>) s6;
       stamp \<leftarrow> chk (vs_stamp s7 + 1);
       Some (OCOMS_SUCCESS, s7\<lparr>vs_stamp := stamp\<rparr>) }"
    by (subst ocoms_mca_base_var_group_deregister.simps) (simp add: g n(1) del: upd_group_Some)
  then show ?thesis using s5 only by blast
qed

lemma group_deregister_ok:
  "dereg_inv s \<Longrightarrow> stamp_room s \<Longrightarrow> closed_below D s \<Longrightarrow> (0 \<le> i \<longrightarrow> nat i \<in> D) \<Longrightarrow> card (valid_groups s) \<le> n \<Longrightarrow>
   \<exists>ret s'. ocoms_mca_base_var_group_deregister s i = Some (ret, s') \<and> dereg_inv s' \<and> subtree_undone s s' \<and> only_below D s s' \<and>
     (0 \<le> i \<longrightarrow> nat i \<notin> valid_groups s') \<and> ret = (if 0 \<le> i \<and> nat i \<in> valid_groups s then OCOMS_SUCCESS else OCOMS_ERR_NOT_FOUND)"
proof (induction n arbitrary: s i)
  case 0
  then have "nat i \<notin> valid_groups s" by simp
  then show ?case using group_deregister_invalid [OF 0(1), of i] 0(1) by auto
next
  case (Suc n)
  show ?case
  proof (cases "0 \<le> i \<and> nat i \<in> valid_groups s")
    case False
    then show ?thesis using group_deregister_invalid [OF Suc.prems(1), of i] Suc.prems(1) by auto
  next
    case True
    let ?a = "nat i" and ?sub = "va_items (group_subgroups (vs_gheap s ! nat i))"
    let ?f = "\<lambda>i s. do { (_, s') \<leftarrow> ocoms_mca_base_var_group_deregister s i; Some s' }"
    obtain s5 where s5: "ocoms_mca_base_var_group_deregister s i = do {
         s6 \<leftarrow> foldM ?f ?sub s5;
         s7 \<leftarrow> upd_group ?a (\<lambda>g. g\<lparr>group_subgroups := None\<rparr>) s6;
         stamp \<leftarrow> chk (vs_stamp s7 + 1);
         Some (OCOMS_SUCCESS, s7\<lparr>vs_stamp := stamp\<rparr>) }"
       "dereg_inv s5" "valid_groups s5 = valid_groups s - {?a}" "undoes s s5" "vs_stamp s5 = vs_stamp s"
       "\<forall>x \<in> set (va_items (group_vars (vs_gheap s ! ?a))). gone x s5" "only_below {?a} s s5"
      using group_deregister_valid [OF Suc.prems(1)] True by blast
    let ?Q = "\<lambda>s. dereg_inv s \<and> stamp_room s \<and> closed_below D s \<and> card (valid_groups s) \<le> n"
    let ?R = "\<lambda>s s'. subtree_undone s s' \<and> only_below D s s'"
    have aD: "?a \<in> D" "\<forall>x \<in> set ?sub. 0 \<le> x \<longrightarrow> nat x \<in> D" using Suc.prems(3,4) True by (auto simp: closed_below_def)
    have R_trans: "?R s t \<Longrightarrow> ?R t u \<Longrightarrow> ?R s u" for s t u
      using subtree_undone_trans [of s t u] only_below_trans [of D s t u] unfolding subtree_undone_def by blast
    have c5: "Suc (card (valid_groups s5)) = card (valid_groups s)" using True s5(3) by (metis card_Suc_Diff1 finite_valid_groups)
    have q5: "?Q s5" using s5 Suc.prems True c5 stamp_room_undoes closed_below_undoes by auto
    have "\<exists>s6. foldM ?f ?sub s5 = Some s6 \<and> ?Q s6 \<and> ?R s5 s6 \<and> (\<forall>x \<in> set ?sub. 0 \<le> x \<longrightarrow> nat x \<notin> valid_groups s6)"
    proof (rule foldM_steps [where Q = ?Q, OF _ _ R_trans])
      fix x t assume x: "x \<in> set ?sub" and q: "?Q t"
      then obtain ret t' where t': "ocoms_mca_base_var_group_deregister t x = Some (ret, t')" "dereg_inv t'" "subtree_undone t t'"
        "0 \<le> x \<longrightarrow> nat x \<notin> valid_groups t'" "only_below D t t'" using Suc.IH [of t x] aD(2) by blast
      then have u: "undoes t t'" by (simp add: subtree_undone_def)
      have "card (valid_groups t') \<le> n" using q card_mono [OF finite_valid_groups undoes_valid [OF u]] by linarith
      then show "\<exists>t'. ?f x t = Some t' \<and> ?Q t' \<and> ?R t t' \<and> (0 \<le> x \<longrightarrow> nat x \<notin> valid_groups t')"
        using t' q stamp_room_undoes [OF _ u] closed_below_undoes [OF _ u] by simp
    next
      fix x t t' assume "0 \<le> x \<longrightarrow> nat x \<notin> valid_groups t" "?R t t'"
      then show "0 \<le> x \<longrightarrow> nat x \<notin> valid_groups t'" using undoes_valid by (auto simp: subtree_undone_def)
    qed (use q5 in simp_all)
    then obtain s6 where s6: "foldM ?f ?sub s5 = Some s6" "?Q s6" "subtree_undone s5 s6" "\<forall>x \<in> set ?sub. 0 \<le> x \<longrightarrow> nat x \<notin> valid_groups s6"
      "only_below D s5 s6" by blast
    have u: "undoes s5 s6" "finished s5 s6" using s6(3) by (simp_all add: subtree_undone_def)
    have len: "length (vs_gheap s6) = length (vs_gheap s)" "?a < length (vs_gheap s)" using s5(4) u(1) True by (simp_all add: undoes_def valid_groups_def)
    have na: "?a \<notin> valid_groups s6" using undoes_valid [OF u(1)] s5(3) by blast
    let ?g = "(vs_gheap s6 ! ?a)\<lparr>group_subgroups := None\<rparr>"
    let ?s7 = "s6\<lparr>vs_gheap := (vs_gheap s6)[?a := ?g]\<rparr>"
    let ?s8 = "?s7\<lparr>vs_stamp := vs_stamp s6 + 1\<rparr>"
    have ng: "\<not> group_isvalid ?g" using na len by (simp add: valid_groups_def)
    have i7: "dereg_inv ?s7" "valid_groups ?s7 = valid_groups s6" using upd_invalid_group [OF _ _ ng, of s6 ?a] s6(2) len na by auto
    have "card (valid_groups s6) \<le> card (valid_groups s5)" using undoes_valid [OF u(1)] by (intro card_mono) simp_all
    have st: "0 \<le> vs_stamp s6" "vs_stamp s6 + int (card (valid_groups s6)) + 1 \<le> vs_stamp s + int (card (valid_groups s))" "vs_stamp s \<le> vs_stamp s6"
      using s6(2) u(1) s5(5) c5 True Suc.prems(2) by (auto simp: stamp_room_def undoes_def)
    then have ck: "chk (vs_stamp s6 + 1) = Some (vs_stamp s6 + 1)" using Suc.prems(2) by (intro chk_Some) (auto simp: stamp_room_def INT_MIN_def)
    have run: "ocoms_mca_base_var_group_deregister s i = Some (OCOMS_SUCCESS, ?s8)" using s5(1) s6(1) len ck by simp
    have v8: "valid_groups ?s8 = valid_groups s6" using i7(2) by (simp add: valid_groups_def)
    have "dereg_inv ?s8" using i7(1) by (simp add: dereg_inv_def vars_wf_def groups_wf_def pvars_wf_def string_ok_def var_names_def)
    moreover have "undoes s ?s8"
    proof -
      have "undoes s s6" using s5(4) u(1) by (rule undoes_trans)
      moreover have "vs_gheap ?s8 ! a = vs_gheap s6 ! a" if "a \<in> valid_groups s6" for a
        using that na by (cases "a = ?a") simp_all
      ultimately show ?thesis using v8 st by (simp add: undoes_def)
    qed
    moreover have "finished s ?s8"
      unfolding finished_def
    proof (intro ballI)
      fix b assume b: "b \<in> valid_groups s - valid_groups ?s8"
      have gs: "gone x s6 \<Longrightarrow> gone x ?s8" for x by (simp add: gone_def)
      show "(\<forall>x \<in> set (va_items (group_vars (vs_gheap s ! b))). gone x ?s8) \<and>
        (\<forall>x \<in> set (va_items (group_subgroups (vs_gheap s ! b))). 0 \<le> x \<longrightarrow> nat x \<notin> valid_groups ?s8)"
      proof (cases "b = ?a")
        case True
        then show ?thesis using s5(6) gone_undoes [OF _ u(1)] gs s6(4) v8 by simp
      next
        case False
        then have "b \<in> valid_groups s5 - valid_groups s6" using b s5(3) v8 by simp
        moreover from this have "vs_gheap s5 ! b = vs_gheap s ! b" using s5(4) by (simp add: undoes_def)
        ultimately show ?thesis using u(2) gs v8 unfolding finished_def by (metis (no_types, lifting))
      qed
    qed
    moreover have "only_below D s ?s8"
    proof -
      have "only_below D s s6" using only_below_mono [OF s5(7), of D] aD(1) s6(5) s5(4) by (intro only_below_trans [of D s s5 s6]) simp_all
      moreover have "(vs_gheap s6)[?a := ?g] ! b = vs_gheap s6 ! b" if "b \<notin> D" for b using that aD(1) by (metis nth_list_update_neq)
      ultimately show ?thesis by (simp add: only_below_def keeps_vars_def keeps_pvars_def)
    qed
    moreover have "?a \<notin> valid_groups ?s8" using na v8 by simp
    ultimately show ?thesis using run True by (simp add: subtree_undone_def)
  qed
qed

text \<open>Groups below a group, by the arrays of subgroups of the valid ones.\<close>

definition below :: "mca \<Rightarrow> (nat \<times> nat) set" where
  "below s = {(a, b). a \<in> valid_groups s \<and> int b \<in> set (va_items (group_subgroups (vs_gheap s ! a)))}"

lemma subtree_gone:
  assumes u: "subtree_undone s s'" and a: "a \<notin> valid_groups s'" and b: "(a, b) \<in> (below s)\<^sup>*"
  shows "b \<notin> valid_groups s' \<and> (b \<in> valid_groups s \<longrightarrow> (\<forall>x \<in> set (va_items (group_vars (vs_gheap s ! b))). gone x s'))"
proof -
  have "b \<notin> valid_groups s'" using b
  proof (induction rule: rtrancl_induct)
    case (step b d)
    then have "b \<in> valid_groups s - valid_groups s'" "int d \<in> set (va_items (group_subgroups (vs_gheap s ! b)))" by (auto simp: below_def)
    then have "nat (int d) \<notin> valid_groups s'" using u unfolding subtree_undone_def finished_def by (metis of_nat_0_le_iff)
    then show ?case by simp
  qed (rule a)
  then show ?thesis using u by (auto simp: subtree_undone_def finished_def)
qed

text \<open>The subtree of a group, which is empty when the group is not valid.\<close>

definition subtree :: "mca \<Rightarrow> int \<Rightarrow> nat set" where
  "subtree s i = (if 0 \<le> i \<and> nat i \<in> valid_groups s then {b. (nat i, b) \<in> (below s)\<^sup>*} else {})"

text \<open>
  C31: Deregistering a group always returns, whatever the graph of its subgroups, cycles included:
  success for a valid group and not found otherwise, with the state well formed.  The groups that are valid
  afterwards are exactly those valid before that are not in its subtree, and they are unchanged.  Every variable
  that is a member of a valid group of the subtree and goes with its group is invalid afterwards; every other
  variable is unchanged, and so is every performance variable that is no member of a valid group of the subtree.
\<close>

theorem group_deregister_undoes_subtree:
  assumes "dereg_inv s" and "stamp_room s"
  shows "\<exists>ret s'. ocoms_mca_base_var_group_deregister s i = Some (ret, s') \<and> dereg_inv s' \<and>
    ret = (if 0 \<le> i \<and> nat i \<in> valid_groups s then OCOMS_SUCCESS else OCOMS_ERR_NOT_FOUND) \<and>
    valid_groups s' = valid_groups s - subtree s i \<and> (\<forall>b. b \<notin> subtree s i \<longrightarrow> vs_gheap s' ! b = vs_gheap s ! b) \<and>
    (\<forall>x < length (vs_heap s).
       if isset MCA_BASE_VAR_FLAG_DWG (mbv_flags (vs_heap s ! x)) \<and>
          (\<exists>b \<in> subtree s i \<inter> valid_groups s. int x \<in> set (va_items (group_vars (vs_gheap s ! b))))
       then \<not> VAR_IS_VALID (vs_heap s' ! x) else vs_heap s' ! x = vs_heap s ! x) \<and>
    (\<forall>x < length (vs_pheap s). (\<forall>b \<in> subtree s i \<inter> valid_groups s. int x \<notin> set (va_items (group_pvars (vs_gheap s ! b)))) \<longrightarrow>
       vs_pheap s' ! x = vs_pheap s ! x)"
proof (cases "0 \<le> i \<and> nat i \<in> valid_groups s")
  case False
  then show ?thesis using group_deregister_invalid [OF assms(1), of i] assms(1) by (auto simp: subtree_def)
next
  case True
  let ?D = "subtree s i"
  have D: "?D = {b. (nat i, b) \<in> (below s)\<^sup>*}" using True by (simp add: subtree_def)
  have closed: "closed_below ?D s" unfolding closed_below_def
  proof (intro ballI impI)
    fix b x assume b: "b \<in> ?D \<inter> valid_groups s" and x: "x \<in> set (va_items (group_subgroups (vs_gheap s ! b)))" "0 \<le> x"
    then have "(b, nat x) \<in> below s" by (simp add: below_def)
    then show "nat x \<in> ?D" using b unfolding D by (auto intro: rtrancl_into_rtrancl)
  qed
  obtain ret s' where g: "ocoms_mca_base_var_group_deregister s i = Some (ret, s')" "dereg_inv s'" "subtree_undone s s'"
    "nat i \<notin> valid_groups s'" "ret = OCOMS_SUCCESS" "only_below ?D s s'"
    using group_deregister_ok [OF assms closed _ order.refl, of i] True by (auto simp: D)
  have u: "undoes s s'" using g(3) by (simp add: subtree_undone_def)
  have gone: "b \<notin> valid_groups s' \<and> (b \<in> valid_groups s \<longrightarrow> (\<forall>x \<in> set (va_items (group_vars (vs_gheap s ! b))). gone x s'))" if "b \<in> ?D" for b
    using subtree_gone [OF g(3,4)] that by (simp add: D)
  have len: "length (vs_gheap s') = length (vs_gheap s)" "length (vs_heap s') = length (vs_heap s)" using u by (simp_all add: undoes_def)
  have same: "vs_gheap s' ! b = vs_gheap s ! b" if "b \<notin> ?D" for b using g(6) that by (simp add: only_below_def)
  have "valid_groups s' = valid_groups s - ?D"
    using undoes_valid [OF u] gone same len by (auto simp: valid_groups_def)
  moreover have "if isset MCA_BASE_VAR_FLAG_DWG (mbv_flags (vs_heap s ! x)) \<and>
          (\<exists>b \<in> ?D \<inter> valid_groups s. int x \<in> set (va_items (group_vars (vs_gheap s ! b))))
       then \<not> VAR_IS_VALID (vs_heap s' ! x) else vs_heap s' ! x = vs_heap s ! x" if x: "x < length (vs_heap s)" for x
  proof -
    have ch: "vs_heap s' ! x = vs_heap s ! x \<or> (isset MCA_BASE_VAR_FLAG_DWG (mbv_flags (vs_heap s ! x)) \<and>
        isset MCA_BASE_VAR_FLAG_DWG (mbv_flags (vs_heap s' ! x)) \<and> \<not> VAR_IS_VALID (vs_heap s' ! x))"
      using u x by (simp add: undoes_def)
    show ?thesis
    proof (cases "\<exists>b \<in> ?D \<inter> valid_groups s. int x \<in> set (va_items (group_vars (vs_gheap s ! b)))")
      case True
      then have "gone (int x) s'" using gone by blast
      then show ?thesis using True ch x len(2) unfolding gone_def by metis
    next
      case False
      then show ?thesis using g(6) unfolding only_below_def keeps_vars_def by auto
    qed
  qed
  moreover have "vs_pheap s' ! x = vs_pheap s ! x"
    if "\<forall>b \<in> ?D \<inter> valid_groups s. int x \<notin> set (va_items (group_pvars (vs_gheap s ! b)))" for x
    using g(6) that unfolding only_below_def keeps_pvars_def by auto
  ultimately show ?thesis using g(1,2,5) same True by auto
qed

text \<open>
  Three groups, of which the first two are below each other; a variable of the first group and one of the
  third, both of which go with their group.
\<close>

definition sample_group :: "int list \<Rightarrow> int list \<Rightarrow> ocoms_mca_base_var_group_t" where
  "sample_group subs vars = ocoms_mca_base_var_group_constructor\<lparr>group_isvalid := True, group_subgroups := Some subs, group_vars := Some vars\<rparr>"

definition sample_member :: "ocoms_mca_base_var_t \<Rightarrow> ocoms_mca_base_var_t" where
  "sample_member v = v\<lparr>mbv_type := MCA_BASE_VAR_TYPE_INT, mbv_flags := MCA_BASE_VAR_FLAG_VALID OR MCA_BASE_VAR_FLAG_DWG\<rparr>"

definition three_groups :: "mca \<Rightarrow> mca" where
  "three_groups s = start_state\<lparr>vs_vars := vs_vars s, vs_hash := vs_hash s, vs_heap := map sample_member (vs_heap s),
     vs_groups := \<lparr>pa_lowest_free = 3, pa_number_free = 0, pa_size = 3, pa_max_size = 16384,
       pa_block_size = 128, pa_addr = Some [Some 0, Some 1, Some 2]\<rparr>,
     vs_gheap := [sample_group [1] [0], sample_group [0] [], sample_group [] [1]]\<rparr>"

lemma three_groups_valid: "valid_groups (three_groups s) = {0, 1, 2}"
  by (auto simp: valid_groups_def three_groups_def sample_group_def ocoms_mca_base_var_group_constructor_def less_Suc_eq numeral_2_eq_2)

lemma three_groups_ok:
  assumes "vars_wf s"
  shows "dereg_inv (three_groups s)" "stamp_room (three_groups s)"
proof -
  have p: "pa_filled (vs_groups (three_groups s)) 3"
    by (auto simp: three_groups_def pa_filled_def pa_wf_def pa_cells_def pa_look_def INT_MAX_def first_free_def free_count_def nth_Cons' split: if_splits)
  have names: "mbv_full_name \<circ> sample_member = mbv_full_name" "mbv_index (sample_member v) = mbv_index v" for v
    by (simp_all add: fun_eq_iff sample_member_def)
  have "var_names (three_groups s) = var_names s" unfolding var_names_def three_groups_def by (simp add: sample_member_def)
  moreover have "mbv_full_name (sample_member v) = mbv_full_name v" for v by (simp add: sample_member_def)
  ultimately have "vars_wf (three_groups s)"
    using assms start_state_ok names by (simp add: vars_wf_def three_groups_def started_def)
  moreover have "groups_wf (three_groups s)"
  proof -
    obtain G where G: "ht_names (vs_ghash start_state) G" "\<forall>k i. G k = Some i \<longrightarrow> 0 \<le> i \<and> i < int (length (vs_gheap start_state))"
      using start_state_ok by (auto simp: started_def groups_wf_def)
    have "vs_gheap start_state = []" using start_state_ok by (simp add: started_def)
    then have "\<forall>k i. G k = Some i \<longrightarrow> 0 \<le> i \<and> i < 3" using G(2) by fastforce
    then show ?thesis unfolding groups_wf_def using p G(1)
      by (auto simp: three_groups_def sample_group_def ocoms_mca_base_var_group_constructor_def numeral_2_eq_2 numeral_3_eq_3)
  qed
  moreover have "pvars_wf (three_groups s)" using start_state_ok by (simp add: started_def three_groups_def pvars_wf_def)
  moreover have "\<forall>v \<in> set (vs_heap (three_groups s)). string_ok (three_groups s) v"
    by (auto simp: three_groups_def string_ok_def sample_member_def)
  ultimately show "dereg_inv (three_groups s)"
    by (simp add: dereg_inv_def) (simp add: three_groups_def sample_group_def ocoms_mca_base_var_group_constructor_def va_items_def)
  show "stamp_room (three_groups s)" using start_state_ok unfolding stamp_room_def three_groups_valid
    by (simp add: three_groups_def started_def var_room_def group_room_def)
qed

lemma two_variables: "\<exists>s. vars_wf s \<and> length (vs_heap s) = 2"
proof -
  obtain s w where s: "vars_wf s" "groups_wf s" "var_room sample_mca (Suc 14) s" "vs_heap s = [w]" "var_names s = [''verbose'']"
     "mbv_source w = MCA_BASE_VAR_SOURCE_ENV" "\<not> VAR_IS_SYNONYM w" "mbv_type w = MCA_BASE_VAR_TYPE_INT" "mbv_synonyms w = Some []" "vs_override_values s = []"
    using sample_registered by blast
  let ?r = "synonym_spec w 0 None (Some ''coll'') None (Some ''chatty'') 0"
  have r: "synonym_ok ?r ''chatty''" "vr_synonym_for ?r = int 0" using s(8) short_sample by (simp_all add: synonym_spec_ok)
  obtain s' where s': "register_variable (\<lambda>s. None) sample_mca s ?r = Some (1, s')" "length (vs_heap s') = 2"
    using register_synonym_total [OF s(1-3) sample_memory r, of "\<lambda>s. None"] s(4-10)
    by (auto simp: less_eq_ocoms_mca_base_var_source_t_def)
  have "vars_wf s'" using register_synonym_ok [OF s(1-3) sample_memory r(1) _ _ _ s'(1)] r(2) s(4,5) by simp
  then show ?thesis using s'(2) by blast
qed

theorem group_deregister_undoes_subtree_witness:
  "\<exists>s s'. valid_groups s = {0, 1, 2} \<and> length (vs_heap s) = 2 \<and> VAR_IS_VALID (vs_heap s ! 0) \<and> VAR_IS_VALID (vs_heap s ! 1) \<and>
     ocoms_mca_base_var_group_deregister s 0 = Some (OCOMS_SUCCESS, s') \<and> valid_groups s' = {2} \<and>
     \<not> VAR_IS_VALID (vs_heap s' ! 0) \<and> VAR_IS_VALID (vs_heap s' ! 1)"
proof -
  obtain s0 where s0: "vars_wf s0" "length (vs_heap s0) = 2" using two_variables by blast
  let ?s = "three_groups s0"
  have g: "vs_gheap ?s = [sample_group [1] [0], sample_group [0] [], sample_group [] [1]]" "length (vs_heap ?s) = 2"
    using s0(2) by (simp_all add: three_groups_def)
  have v: "isset MCA_BASE_VAR_FLAG_DWG (mbv_flags (vs_heap ?s ! x))" "VAR_IS_VALID (vs_heap ?s ! x)" if "x < 2" for x
    using that s0(2) by (simp_all add: three_groups_def sample_member_def flag_simps)
  have sub: "subtree ?s 0 = {0, 1}"
  proof
    have "(0, 1) \<in> below ?s" by (simp add: below_def three_groups_valid g sample_group_def va_items_def)
    then show "{0, 1} \<subseteq> subtree ?s 0" by (auto simp: subtree_def three_groups_valid)
    have "b \<in> {0, 1}" if "(0, b) \<in> (below ?s)\<^sup>*" for b
      using that by (induction rule: rtrancl_induct) (auto simp: below_def three_groups_valid g sample_group_def va_items_def)
    then show "subtree ?s 0 \<subseteq> {0, 1}" by (auto simp: subtree_def)
  qed
  have vars: "va_items (group_vars (vs_gheap ?s ! 0)) = [0]" "va_items (group_vars (vs_gheap ?s ! Suc 0)) = []"
    by (simp_all add: g sample_group_def va_items_def)
  obtain s' where s': "ocoms_mca_base_var_group_deregister ?s 0 = Some (OCOMS_SUCCESS, s')" "valid_groups s' = {0, 1, 2} - {0, 1}"
    "\<forall>x < length (vs_heap ?s).
       if isset MCA_BASE_VAR_FLAG_DWG (mbv_flags (vs_heap ?s ! x)) \<and>
          (\<exists>b \<in> {0, 1} \<inter> {0, 1, 2}. int x \<in> set (va_items (group_vars (vs_gheap ?s ! b))))
       then \<not> VAR_IS_VALID (vs_heap s' ! x) else vs_heap s' ! x = vs_heap ?s ! x"
    using group_deregister_undoes_subtree [OF three_groups_ok [OF s0(1)], of 0] unfolding sub three_groups_valid by auto
  have lt: "0 < length (vs_heap ?s)" "1 < length (vs_heap ?s)" "(0::nat) < 2" using g(2) by simp_all
  have c: "\<exists>b \<in> {0, 1} \<inter> {0, 1, 2}. int 0 \<in> set (va_items (group_vars (vs_gheap ?s ! b)))"
    using vars(1) by (intro bexI [of _ 0]) simp_all
  have "int 1 \<notin> set (va_items (group_vars (vs_gheap ?s ! b)))" if "b \<in> {0, 1} \<inter> {0, 1, 2}" for b
    using that vars by (auto simp del: One_nat_def simp: One_nat_def [symmetric])
  then have n: "\<not> (isset MCA_BASE_VAR_FLAG_DWG (mbv_flags (vs_heap ?s ! 1)) \<and> (\<exists>b \<in> {0, 1} \<inter> {0, 1, 2}. int 1 \<in> set (va_items (group_vars (vs_gheap ?s ! b)))))"
    by blast
  have "\<not> VAR_IS_VALID (vs_heap s' ! 0)"
    using mp [OF spec [OF s'(3), of 0] lt(1)] unfolding if_P [OF conjI [OF v(1) [OF lt(3)] c]] .
  moreover have h1: "vs_heap s' ! 1 = vs_heap ?s ! 1"
    using mp [OF spec [OF s'(3), of 1] lt(2)] unfolding if_not_P [OF n] .
  moreover have "VAR_IS_VALID (vs_heap s' ! 1)" unfolding h1 by (rule v(2)) simp
  moreover have "valid_groups s' = {2}" unfolding s'(2) by (simp add: insert_Diff_if)
  ultimately show ?thesis using three_groups_valid [of s0] g(2) v(2) [OF lt(3)] v(2) [of 1] s'(1)
    by (intro exI [of _ ?s] exI [of _ s'] conjI) simp_all
qed

end
