(* ===== verification/Mca_Pvar.thy ===== *)
theory Mca_Pvar
  imports Mca_Init
begin

text \<open>
  The table of performance variables of \<open>ocoms/mca/base/mca_base_pvar.c\<close>: lookup by name, the
  default functions of a variable, registration and the dump for users.

  Assertions are live in a build with \<open>OCOMS_ENABLE_DEBUG\<close> (\<open>mc_dbg\<close>); other builds define
  \<open>NDEBUG\<close>.
\<close>

section \<open>Classes\<close>

definition MCA_BASE_PVAR_CLASS_STATE :: int where "MCA_BASE_PVAR_CLASS_STATE = 0"
definition MCA_BASE_PVAR_CLASS_LEVEL :: int where "MCA_BASE_PVAR_CLASS_LEVEL = 1"
definition MCA_BASE_PVAR_CLASS_SIZE :: int where "MCA_BASE_PVAR_CLASS_SIZE = 2"
definition MCA_BASE_PVAR_CLASS_PERCENTAGE :: int where "MCA_BASE_PVAR_CLASS_PERCENTAGE = 3"
definition MCA_BASE_PVAR_CLASS_HIGHWATERMARK :: int where "MCA_BASE_PVAR_CLASS_HIGHWATERMARK = 4"
definition MCA_BASE_PVAR_CLASS_LOWWATERMARK :: int where "MCA_BASE_PVAR_CLASS_LOWWATERMARK = 5"
definition MCA_BASE_PVAR_CLASS_COUNTER :: int where "MCA_BASE_PVAR_CLASS_COUNTER = 6"
definition MCA_BASE_PVAR_CLASS_AGGREGATE :: int where "MCA_BASE_PVAR_CLASS_AGGREGATE = 7"
definition MCA_BASE_PVAR_CLASS_TIMER :: int where "MCA_BASE_PVAR_CLASS_TIMER = 8"
definition MCA_BASE_PVAR_CLASS_GENERIC :: int where "MCA_BASE_PVAR_CLASS_GENERIC = 9"

lemmas pvar_class_defs = MCA_BASE_PVAR_CLASS_STATE_def MCA_BASE_PVAR_CLASS_LEVEL_def MCA_BASE_PVAR_CLASS_SIZE_def
  MCA_BASE_PVAR_CLASS_PERCENTAGE_def MCA_BASE_PVAR_CLASS_HIGHWATERMARK_def MCA_BASE_PVAR_CLASS_LOWWATERMARK_def
  MCA_BASE_PVAR_CLASS_COUNTER_def MCA_BASE_PVAR_CLASS_AGGREGATE_def MCA_BASE_PVAR_CLASS_TIMER_def
  MCA_BASE_PVAR_CLASS_GENERIC_def

definition pvar_class_names :: "string list" where
  "pvar_class_names = [''state'', ''level'', ''size'', ''percentage'', ''high watermark'', ''low watermark'',
     ''counter'', ''aggregate'', ''timer'', ''generic'']"

definition ocoms_mca_base_pvar_is_sum :: "ocoms_mca_base_pvar_t \<Rightarrow> bool" where
  "ocoms_mca_base_pvar_is_sum v \<longleftrightarrow> pvar_var_class v = MCA_BASE_PVAR_CLASS_COUNTER \<or>
     pvar_var_class v = MCA_BASE_PVAR_CLASS_TIMER \<or> pvar_var_class v = MCA_BASE_PVAR_CLASS_AGGREGATE"

definition ocoms_mca_base_pvar_is_watermark :: "ocoms_mca_base_pvar_t \<Rightarrow> bool" where
  "ocoms_mca_base_pvar_is_watermark v \<longleftrightarrow> pvar_var_class v = MCA_BASE_PVAR_CLASS_HIGHWATERMARK \<or>
     pvar_var_class v = MCA_BASE_PVAR_CLASS_LOWWATERMARK"

definition ocoms_mca_base_pvar_is_readonly :: "ocoms_mca_base_pvar_t \<Rightarrow> bool" where
  "ocoms_mca_base_pvar_is_readonly v \<longleftrightarrow> isset MCA_BASE_PVAR_FLAG_READONLY (pvar_flags v)"

definition ocoms_mca_base_pvar_is_continuous :: "ocoms_mca_base_pvar_t \<Rightarrow> bool" where
  "ocoms_mca_base_pvar_is_continuous v \<longleftrightarrow> isset MCA_BASE_PVAR_FLAG_CONTINUOUS (pvar_flags v)"

definition ocoms_mca_base_pvar_is_atomic :: "ocoms_mca_base_pvar_t \<Rightarrow> bool" where
  "ocoms_mca_base_pvar_is_atomic v \<longleftrightarrow> isset MCA_BASE_PVAR_FLAG_ATOMIC (pvar_flags v)"

definition ocoms_mca_base_pvar_is_invalid :: "ocoms_mca_base_pvar_t \<Rightarrow> bool" where
  "ocoms_mca_base_pvar_is_invalid v \<longleftrightarrow> isset MCA_BASE_PVAR_FLAG_INVALID (pvar_flags v)"

text \<open>
  Whether a class permits a type; \<open>None\<close> for a number that is no class.  The test of a counter falls
  through to that of the other numeric classes.
\<close>

definition numeric_type :: "ocoms_mca_base_var_type_t \<Rightarrow> bool" where
  "numeric_type t \<longleftrightarrow> t = MCA_BASE_VAR_TYPE_UNSIGNED_INT \<or> t = MCA_BASE_VAR_TYPE_UNSIGNED_LONG \<or>
     t = MCA_BASE_VAR_TYPE_UNSIGNED_LONG_LONG \<or> t = MCA_BASE_VAR_TYPE_DOUBLE"

definition class_permits :: "int \<Rightarrow> ocoms_mca_base_var_type_t \<Rightarrow> bool option" where
  "class_permits cl t =
     (if cl = MCA_BASE_PVAR_CLASS_STATE then Some (t = MCA_BASE_VAR_TYPE_INT)
      else if cl = MCA_BASE_PVAR_CLASS_COUNTER then Some (t \<noteq> MCA_BASE_VAR_TYPE_DOUBLE \<and> numeric_type t)
      else if cl = MCA_BASE_PVAR_CLASS_LEVEL \<or> cl = MCA_BASE_PVAR_CLASS_SIZE \<or> cl = MCA_BASE_PVAR_CLASS_HIGHWATERMARK \<or>
              cl = MCA_BASE_PVAR_CLASS_LOWWATERMARK \<or> cl = MCA_BASE_PVAR_CLASS_AGGREGATE \<or> cl = MCA_BASE_PVAR_CLASS_TIMER
      then Some (numeric_type t)
      else if cl = MCA_BASE_PVAR_CLASS_PERCENTAGE then Some (t = MCA_BASE_VAR_TYPE_DOUBLE)
      else if cl = MCA_BASE_PVAR_CLASS_GENERIC then Some True
      else None)"

section \<open>Lookup\<close>

definition ocoms_mca_base_pvar_find_by_name :: "mca_ctx \<Rightarrow> mca \<Rightarrow> string \<Rightarrow> (int \<times> int option \<times> mca) option" where
  "ocoms_mca_base_pvar_find_by_name c s full_name = do {
     (rc, tmp, ht) \<leftarrow> find_name c (vs_phash s) full_name;
     let s1 = s\<lparr>vs_phash := ht\<rparr>;
     if rc \<noteq> OCOMS_SUCCESS then Some (rc, None, s1)
     else do { i \<leftarrow> tmp; Some (OCOMS_SUCCESS, Some i, s1) } }"

definition ocoms_mca_base_pvar_find ::
  "mca_ctx \<Rightarrow> mca \<Rightarrow> string option \<Rightarrow> string option \<Rightarrow> string option \<Rightarrow> string option \<Rightarrow> (int \<times> mca) option" where
  "ocoms_mca_base_pvar_find c s project framework component name = do {
     (ret, full_name) \<leftarrow> ocoms_mca_base_var_generate_full_name4 c None framework component name;
     if ret \<noteq> OCOMS_SUCCESS then Some (OCOMS_ERROR, s)
     else do {
       key \<leftarrow> full_name;
       (ret, index, s1) \<leftarrow> ocoms_mca_base_pvar_find_by_name c s key;
       if ret \<noteq> OCOMS_SUCCESS then Some (ret, s1) else do { i \<leftarrow> index; Some (i, s1) } } }"

definition ocoms_mca_base_pvar_get_count :: "mca \<Rightarrow> int \<times> int" where
  "ocoms_mca_base_pvar_get_count s = (OCOMS_SUCCESS, vs_pcount s)"

section \<open>The default functions\<close>

text \<open>
  Reading copies one value into the buffer, writing copies one from it.  The storage holds a value of
  the variable's type; values of type string, of which one character would be copied, are left out.
\<close>

definition ocoms_mca_base_pvar_default_get_value ::
  "mca \<Rightarrow> ocoms_mca_base_pvar_t \<Rightarrow> ocoms_mca_base_var_storage_t list \<Rightarrow> (int \<times> ocoms_mca_base_var_storage_t list) option" where
  "ocoms_mca_base_pvar_default_get_value s v value = do {
     addr \<leftarrow> pvar_ctx v;
     x \<leftarrow> vs_store s addr;
     assert_c (has_type (pvar_type v) x \<and> pvar_type v \<noteq> MCA_BASE_VAR_TYPE_STRING);
     value' \<leftarrow> wrn value 0 x;
     Some (OCOMS_SUCCESS, value') }"

definition ocoms_mca_base_pvar_default_set_value ::
  "mca \<Rightarrow> ocoms_mca_base_pvar_t \<Rightarrow> ocoms_mca_base_var_storage_t list \<Rightarrow> (int \<times> mca) option" where
  "ocoms_mca_base_pvar_default_set_value s v value = do {
     addr \<leftarrow> pvar_ctx v;
     old \<leftarrow> vs_store s addr;
     x \<leftarrow> rdn value 0;
     assert_c (has_type (pvar_type v) x \<and> has_type (pvar_type v) old \<and> pvar_type v \<noteq> MCA_BASE_VAR_TYPE_STRING);
     Some (OCOMS_SUCCESS, s\<lparr>vs_store := (vs_store s)(addr \<mapsto> x)\<rparr>) }"

datatype ocoms_mca_base_pvar_event_t = MCA_BASE_PVAR_HANDLE_BIND | MCA_BASE_PVAR_HANDLE_START
  | MCA_BASE_PVAR_HANDLE_STOP | MCA_BASE_PVAR_HANDLE_UNBIND

text \<open>The answer to an event: a code, and the count if it is written.\<close>

definition ocoms_mca_base_pvar_notify_ignore :: "ocoms_mca_base_pvar_event_t \<Rightarrow> int \<times> int option" where
  "ocoms_mca_base_pvar_notify_ignore event = (OCOMS_SUCCESS, if event = MCA_BASE_PVAR_HANDLE_BIND then Some 1 else None)"

section \<open>Registration\<close>

text \<open>The arguments of \<open>ocoms_mca_base_pvar_register\<close>.\<close>

record pvar_spec =
  pr_project :: "string option"
  pr_framework :: "string option"
  pr_component :: "string option"
  pr_name :: "string option"
  pr_description :: "string option"
  pr_verbosity :: int
  pr_class :: int
  pr_type :: ocoms_mca_base_var_type_t
  pr_enumerator :: "ocoms_mca_base_var_enum_t option"
  pr_bind :: int
  pr_flags :: flags
  pr_get_value :: "nat option"
  pr_set_value :: "nat option"
  pr_notify :: "nat option"
  pr_ctx :: "nat option"

definition fn_or_default :: "nat option \<Rightarrow> pvar_fn" where
  "fn_or_default f = (case f of None \<Rightarrow> Default_fn | Some n \<Rightarrow> Component_fn n)"

text \<open>
  A new variable: its group is found or made, its index is announced to the group, and its object is
  entered in the table and, under its full name, in the hash table.  The index stored there is the one
  of the fresh object, which is still 0.
\<close>

definition new_pvar :: "mca_ctx \<Rightarrow> mca \<Rightarrow> pvar_spec \<Rightarrow> ((int + nat) \<times> mca) option" where
  "new_pvar c s r = do {
     (group_index, s1) \<leftarrow> ocoms_mca_base_var_group_register c s (pr_project r) (pr_framework r) (pr_component r) None;
     if group_index < - 1 then Some (Inl group_index, s1)
     else if \<not> mc_obj_new c then Some (Inl OCOMS_ERR_OUT_OF_RESOURCE, s1)
     else do {
       (_, name) \<leftarrow> ocoms_mca_base_var_generate_full_name4 c None (pr_framework r) (pr_component r) (pr_name r);
       case name of None \<Rightarrow> Some (Inl OCOMS_ERR_OUT_OF_RESOURCE, s1)
       | Some full_name \<Rightarrow>
           let description = strdup_opt (mc_mem c) (pr_description r) in
           if pr_description r \<noteq> None \<and> description = None then Some (Inl OCOMS_ERR_OUT_OF_RESOURCE, s1)
           else do {
             (ret, s2) \<leftarrow> ocoms_mca_base_var_group_add_pvar s1 group_index (vs_pcount s1);
             if ret < 0 then Some (Inl ret, s2)
             else do {
               let address = length (vs_pheap s2);
               let pvar = ocoms_mca_base_pvar_contructor\<lparr>pvar_name := Some full_name, pvar_description := description\<rparr>;
               (ret, pvars) \<leftarrow> ocoms_pointer_array_add (mc_cells c) (vs_pvars s2) (Some address);
               if ret < 0 then Some (Inl ret, s2\<lparr>vs_pvars := pvars\<rparr>)
               else do {
                 (_, ht) \<leftarrow> set_name c (vs_phash s2) full_name (pvar_index pvar);
                 count \<leftarrow> chk (vs_pcount s2 + 1);
                 Some (Inr address, s2\<lparr>vs_pvars := pvars, vs_phash := ht, vs_pcount := count,
                   vs_pheap := vs_pheap s2 @ [pvar\<lparr>pvar_group_index := group_index\<rparr>]\<rparr>) } } } } }"

text \<open>A variable that is found is taken as it is, without its enumerator; its group is not looked at.\<close>

definition old_pvar :: "mca_ctx \<Rightarrow> mca \<Rightarrow> int \<Rightarrow> ((int + nat) \<times> mca) option" where
  "old_pvar c s index = do {
     (ret, p) \<leftarrow> ocoms_mca_base_pvar_get_internal s index True;
     if ret \<noteq> OCOMS_SUCCESS then do { assert_c (\<not> mc_dbg c); Some (Inl OCOMS_ERROR, s) }
     else do { a \<leftarrow> p; Some (Inr a, s) } }"

text \<open>What registration writes into the object, new or old; the result is the index it writes.\<close>

definition pvar_settings :: "pvar_spec \<Rightarrow> int \<Rightarrow> ocoms_mca_base_pvar_t \<Rightarrow> ocoms_mca_base_pvar_t" where
  "pvar_settings r n v =
     (let flags = pr_flags r AND NOT MCA_BASE_PVAR_FLAG_INVALID in
      v\<lparr>pvar_verbosity := pr_verbosity r, pvar_var_class := pr_class r, pvar_type := pr_type r,
        pvar_enumerator := pr_enumerator r, pvar_bind := pr_bind r, pvar_flags := flags,
        pvar_get_value := fn_or_default (pr_get_value r), pvar_notify := fn_or_default (pr_notify r),
        pvar_set_value := (if isset MCA_BASE_PVAR_FLAG_READONLY flags then pvar_set_value v else fn_or_default (pr_set_value r)),
        pvar_ctx := pr_ctx r, pvar_index := n\<rparr>)"

text \<open>A usage error stops a build with assertions.\<close>

definition usage_error :: "mca_ctx \<Rightarrow> mca \<Rightarrow> (int \<times> mca) option" where
  "usage_error c s = do { assert_c (\<not> mc_dbg c); Some (OCOMS_ERR_BAD_PARAM, s) }"

definition ocoms_mca_base_pvar_register :: "mca_ctx \<Rightarrow> mca \<Rightarrow> pvar_spec \<Rightarrow> (int \<times> mca) option" where
  "ocoms_mca_base_pvar_register c s r =
     (if pr_get_value r = None \<and> pr_ctx r = None then usage_error c s
      else do {
        assert_c (mc_dbg c \<longrightarrow> \<not> isset 0x3f (pr_flags r));
        assert_c (mc_dbg c \<longrightarrow> class_permits (pr_class r) (pr_type r) \<noteq> None);
        if class_permits (pr_class r) (pr_type r) = Some False then usage_error c s
        else do {
          assert_c (mc_dbg c \<longrightarrow> 0 \<le> pr_verbosity r \<and> pr_verbosity r \<le> 8);
          (index, s1) \<leftarrow> ocoms_mca_base_pvar_find c s (pr_project r) (pr_framework r) (pr_component r) (pr_name r);
          (v, s2) \<leftarrow> (if OCOMS_SUCCESS \<le> index then old_pvar c s1 index else new_pvar c s1 r);
          case v of Inl ret \<Rightarrow> Some (ret, s2)
          | Inr a \<Rightarrow> do {
              s3 \<leftarrow> upd_pvar a (pvar_settings r (vs_pcount s2)) s2;
              Some (vs_pcount s2, s3) } } })"

definition ocoms_mca_base_component_pvar_register ::
  "mca_ctx \<Rightarrow> mca \<Rightarrow> ocoms_mca_base_component_t \<Rightarrow> pvar_spec \<Rightarrow> (int \<times> mca) option" where
  "ocoms_mca_base_component_pvar_register c s component r =
     ocoms_mca_base_pvar_register c s (r\<lparr>pr_project := None, pr_framework := Some (mca_type_name component),
       pr_component := Some (mca_component_name component), pr_flags := pr_flags r OR MCA_BASE_PVAR_FLAG_IWG\<rparr>)"

section \<open>The dump for users\<close>

definition var_type_names :: "ocoms_mca_base_var_type_t \<Rightarrow> string option" where
  "var_type_names t = (case t of
     MCA_BASE_VAR_TYPE_INT \<Rightarrow> Some ''int'' | MCA_BASE_VAR_TYPE_UNSIGNED_INT \<Rightarrow> Some ''unsigned''
   | MCA_BASE_VAR_TYPE_UNSIGNED_LONG \<Rightarrow> Some ''unsigned long''
   | MCA_BASE_VAR_TYPE_UNSIGNED_LONG_LONG \<Rightarrow> Some ''unsigned long long''
   | MCA_BASE_VAR_TYPE_SIZE_T \<Rightarrow> Some ''size_t'' | MCA_BASE_VAR_TYPE_STRING \<Rightarrow> Some ''string''
   | MCA_BASE_VAR_TYPE_BOOL \<Rightarrow> Some ''bool'' | MCA_BASE_VAR_TYPE_DOUBLE \<Rightarrow> Some ''double''
   | MCA_BASE_VAR_TYPE_MAX \<Rightarrow> None)"

text \<open>\<open>asprintf\<close> into the next of the lines; a line without memory stays null here.\<close>

type_synonym dump_lines = "string option list \<times> nat"

definition put_line :: "argv_mem \<Rightarrow> string \<Rightarrow> dump_lines \<Rightarrow> dump_lines option" where
  "put_line m txt out = (case out of (lines, line) \<Rightarrow> do {
     lines' \<leftarrow> wrn lines line (strdup m txt);
     Some (lines', line + 1) })"

definition put_enum_line :: "argv_mem \<Rightarrow> ocoms_mca_base_var_enum_t \<Rightarrow> string \<Rightarrow> nat \<Rightarrow> dump_lines \<Rightarrow> dump_lines option" where
  "put_enum_line m e tmp i out = do {
     (ret, r) \<leftarrow> enum_get_value e (int i);
     if ret \<noteq> OCOMS_SUCCESS then Some out
     else do {
       (v, str) \<leftarrow> r;
       txt \<leftarrow> str;
       put_line m (tmp @ ''enumerator:value:'' @ dec_int v @ '':'' @ txt) out } }"

definition yes_no :: "bool \<Rightarrow> string" where
  "yes_no b = (if b then ''true'' else ''false'')"

definition pvar_dump_parsable ::
  "mca_ctx \<Rightarrow> ocoms_mca_base_pvar_t \<Rightarrow> string \<Rightarrow> string \<Rightarrow> string \<Rightarrow> (int \<times> string option list option) option" where
  "pvar_dump_parsable c v tmp cl ty =
     (let enum_count = (case pvar_enumerator v of None \<Rightarrow> 0 | Some e \<Rightarrow> nat (enum_get_count e));
          line_count = 5 + (if pvar_description v \<noteq> None then 1 else 0) + enum_count;
          m = mc_mem c
      in if \<not> mc_calloc c ((line_count + 1) * 8) then Some (OCOMS_ERR_OUT_OF_RESOURCE, None)
         else do {
           out1 \<leftarrow> put_line m (tmp @ ''class:'' @ cl) (replicate (line_count + 1) None, 0);
           out2 \<leftarrow> put_line m (tmp @ ''read-only:'' @ yes_no (ocoms_mca_base_pvar_is_readonly v)) out1;
           out3 \<leftarrow> put_line m (tmp @ ''continuous:'' @ yes_no (ocoms_mca_base_pvar_is_continuous v)) out2;
           out4 \<leftarrow> put_line m (tmp @ ''atomic:'' @ yes_no (ocoms_mca_base_pvar_is_atomic v)) out3;
           out5 \<leftarrow> (case pvar_description v of None \<Rightarrow> Some out4 | Some d \<Rightarrow> put_line m (tmp @ ''help:'' @ d) out4);
           out6 \<leftarrow> (case pvar_enumerator v of None \<Rightarrow> Some out5
                    | Some e \<Rightarrow> foldM (put_enum_line m e tmp) [0..<enum_count] out5);
           out7 \<leftarrow> put_line m (tmp @ ''type:'' @ ty) out6;
           Some (OCOMS_SUCCESS, Some (fst out7)) })"

definition pvar_dump_pretty ::
  "mca_ctx \<Rightarrow> ocoms_mca_base_pvar_t \<Rightarrow> string \<Rightarrow> string \<Rightarrow> string \<Rightarrow> (int \<times> string option list option) option" where
  "pvar_dump_pretty c v full_name cl ty =
     (let m = mc_mem c in
      if \<not> mc_calloc c (3 * 8) then Some (OCOMS_ERR_OUT_OF_RESOURCE, None)
      else do {
        out1 \<leftarrow> put_line m (''performance '' @ [CHR 0x22] @ full_name @ [CHR 0x22] @ '' (type: '' @ ty @ '', class: '' @ cl @ '')'')
                  (replicate 3 None, 0);
        out2 \<leftarrow> (case pvar_description v of None \<Rightarrow> Some out1 | Some d \<Rightarrow> put_line m d out1);
        out3 \<leftarrow> (case pvar_enumerator v of None \<Rightarrow> Some out2
                 | Some e \<Rightarrow>
                     let (ret, values) = enum_dump m e in
                     if ret \<noteq> OCOMS_SUCCESS then Some out2
                     else do { txt \<leftarrow> values; put_line m (''Values: '' @ txt) out2 });
        Some (OCOMS_SUCCESS, Some (fst out3)) })"

definition ocoms_mca_base_pvar_dump :: "mca_ctx \<Rightarrow> mca \<Rightarrow> int \<Rightarrow> bool \<Rightarrow> (int \<times> string option list option) option" where
  "ocoms_mca_base_pvar_dump c s index parsable = do {
     (ret, p) \<leftarrow> ocoms_mca_base_pvar_get s index;
     if ret \<noteq> OCOMS_SUCCESS then Some (ret, None)
     else do {
       a \<leftarrow> p;
       v \<leftarrow> rdn (vs_pheap s) a;
       (ret, q) \<leftarrow> ocoms_mca_base_var_group_get_internal s (pvar_group_index v) True;
       if ret \<noteq> OCOMS_SUCCESS then Some (ret, None)
       else do {
         b \<leftarrow> q;
         g \<leftarrow> rdn (vs_gheap s) b;
         full_name \<leftarrow> pvar_name v;
         let component = (case group_component g of None \<Rightarrow> ''base'' | Some x \<Rightarrow> x);
         cl \<leftarrow> rd pvar_class_names (pvar_var_class v);
         ty \<leftarrow> var_type_names (pvar_type v);
         if parsable then do {
           framework \<leftarrow> group_framework g;
           pvar_dump_parsable c v (''mca:'' @ framework @ '':'' @ component @ '':pvar:'' @ full_name @ '':'') cl ty }
         else pvar_dump_pretty c v full_name cl ty } } }"

end
