(* ===== verification/Mca_Pvar_Handle.thy ===== *)
theory Mca_Pvar_Handle
  imports Mca_Pvar
begin

text \<open>
  The handles of performance variables and the sessions that own them (\<open>ocoms/mca/base/mca_base_pvar.c\<close>):
  allocation, starting and stopping, updating, reading, writing, resetting and freeing.

  Handles and sessions are objects at addresses; a handle that has been freed leaves \<open>None\<close> behind.
  The list of a session and the list of a variable hold the addresses of their handles in order
  (theory \<open>Item_List\<close>).  A buffer of a handle is the list of its elements.
\<close>

section \<open>State\<close>

definition OCOMS_ERR_NOT_SUPPORTED :: int where "OCOMS_ERR_NOT_SUPPORTED = - 8"
definition OCOMS_ERR_NOT_BOUND :: int where "OCOMS_ERR_NOT_BOUND = - 45"

type_synonym pvalue = ocoms_mca_base_var_storage_t

record ocoms_mca_base_pvar_handle_t =
  ph_session :: "nat option"
  ph_pvar :: nat
  ph_obj :: "nat option"
  ph_count :: int
  ph_last :: "pvalue list option"
  ph_current :: "pvalue list option"
  ph_tmp :: "pvalue list option"
  ph_started :: bool

record pstate =
  ps_mca :: mca
  ps_handles :: "ocoms_mca_base_pvar_handle_t option list"
  ps_sessions :: "nat list list"

text \<open>
  What the handles are given: the functions of the components, which read the application's memory;
  the C library's zeroed blocks, by which of the three it is and the number of elements; and the arithmetic of doubles.
\<close>

record pvar_env =
  pe_ctx :: mca_ctx
  pe_get_value :: "nat \<Rightarrow> ocoms_mca_base_pvar_t \<Rightarrow> nat option \<Rightarrow> mca \<Rightarrow> int \<times> pvalue list"
  pe_notify :: "nat \<Rightarrow> ocoms_mca_base_pvar_t \<Rightarrow> ocoms_mca_base_pvar_event_t \<Rightarrow> nat option \<Rightarrow> int \<times> int option"
  pe_calloc :: "nat \<Rightarrow> int \<Rightarrow> bool"
  pe_add :: "64 word \<Rightarrow> 64 word \<Rightarrow> 64 word"
  pe_sub :: "64 word \<Rightarrow> 64 word \<Rightarrow> 64 word"
  pe_less :: "64 word \<Rightarrow> 64 word \<Rightarrow> bool"

definition the_handle :: "pstate \<Rightarrow> nat \<Rightarrow> (ocoms_mca_base_pvar_handle_t \<times> ocoms_mca_base_pvar_t) option" where
  "the_handle s h = do { x \<leftarrow> rdn (ps_handles s) h; hdl \<leftarrow> x; v \<leftarrow> rdn (vs_pheap (ps_mca s)) (ph_pvar hdl); Some (hdl, v) }"

definition upd_handle :: "nat \<Rightarrow> (ocoms_mca_base_pvar_handle_t \<Rightarrow> ocoms_mca_base_pvar_handle_t) \<Rightarrow> pstate \<Rightarrow> pstate option" where
  "upd_handle h f s = do {
     x \<leftarrow> rdn (ps_handles s) h;
     hdl \<leftarrow> x;
     Some (s\<lparr>ps_handles := (ps_handles s)[h := Some (f hdl)]\<rparr>) }"

text \<open>
  Taking an item out of a list it may not be on: a debug build looks for it first; without that,
  the null pointers of an item that is on no list are followed.
\<close>

definition list_take_out :: "bool \<Rightarrow> nat \<Rightarrow> nat list \<Rightarrow> nat list option" where
  "list_take_out dbg h hs = (if h \<in> set hs then Some (remove1 h hs) else if dbg then Some hs else None)"

section \<open>Calls through a variable\<close>

text \<open>A reading function fills the front of the buffer it is given.\<close>

definition call_get_value ::
  "pvar_env \<Rightarrow> pstate \<Rightarrow> ocoms_mca_base_pvar_t \<Rightarrow> nat option \<Rightarrow> pvalue list option \<Rightarrow> (int \<times> pvalue list) option" where
  "call_get_value e s v obj buffer = do {
     value \<leftarrow> buffer;
     case pvar_get_value v of
       No_fn \<Rightarrow> None
     | Default_fn \<Rightarrow> ocoms_mca_base_pvar_default_get_value (ps_mca s) v value
     | Component_fn n \<Rightarrow> do {
         let (ret, xs) = pe_get_value e n v obj (ps_mca s);
         assert_c (length xs \<le> length value);
         Some (ret, xs @ drop (length xs) value) } }"

definition ocoms_mca_base_pvar_notify ::
  "pvar_env \<Rightarrow> ocoms_mca_base_pvar_handle_t \<Rightarrow> ocoms_mca_base_pvar_t \<Rightarrow> ocoms_mca_base_pvar_event_t \<Rightarrow> (int \<times> int option) option" where
  "ocoms_mca_base_pvar_notify e hdl v event =
     (if ocoms_mca_base_pvar_is_invalid v then Some (OCOMS_ERR_NOT_BOUND, None)
      else case pvar_notify v of
        No_fn \<Rightarrow> None
      | Default_fn \<Rightarrow> Some (ocoms_mca_base_pvar_notify_ignore event)
      | Component_fn n \<Rightarrow> Some (pe_notify e n v event (ph_obj hdl)))"

section \<open>Arithmetic on elements\<close>

definition zero_value :: "ocoms_mca_base_var_type_t \<Rightarrow> pvalue" where
  "zero_value t = (case t of
     MCA_BASE_VAR_TYPE_INT \<Rightarrow> Int_store 0 | MCA_BASE_VAR_TYPE_UNSIGNED_INT \<Rightarrow> Int_store 0
   | MCA_BASE_VAR_TYPE_BOOL \<Rightarrow> Bool_store False | MCA_BASE_VAR_TYPE_DOUBLE \<Rightarrow> Double_store 0
   | MCA_BASE_VAR_TYPE_STRING \<Rightarrow> String_store None | _ \<Rightarrow> Long_store 0)"

text \<open>A sum grows by what the counter has grown since it was last looked at; unsigned values wrap.\<close>

definition sum_value :: "pvar_env \<Rightarrow> ocoms_mca_base_var_type_t \<Rightarrow> pvalue \<Rightarrow> pvalue \<Rightarrow> pvalue \<Rightarrow> pvalue option" where
  "sum_value e t current tmp before =
     (if t = MCA_BASE_VAR_TYPE_UNSIGNED_INT then
        (case (current, tmp, before) of (Int_store c, Int_store x, Int_store l) \<Rightarrow> Some (Int_store (c + (x - l))) | _ \<Rightarrow> None)
      else if t = MCA_BASE_VAR_TYPE_UNSIGNED_LONG \<or> t = MCA_BASE_VAR_TYPE_UNSIGNED_LONG_LONG then
        (case (current, tmp, before) of (Long_store c, Long_store x, Long_store l) \<Rightarrow> Some (Long_store (c + (x - l))) | _ \<Rightarrow> None)
      else if t = MCA_BASE_VAR_TYPE_DOUBLE then
        (case (current, tmp, before) of
           (Double_store c, Double_store x, Double_store l) \<Rightarrow> Some (Double_store (pe_add e c (pe_sub e x l))) | _ \<Rightarrow> None)
      else Some current)"

text \<open>A watermark moves down or up to the value of the variable.\<close>

definition mark_value :: "pvar_env \<Rightarrow> bool \<Rightarrow> ocoms_mca_base_var_type_t \<Rightarrow> pvalue \<Rightarrow> pvalue \<Rightarrow> pvalue option" where
  "mark_value e low t current tmp =
     (if t = MCA_BASE_VAR_TYPE_UNSIGNED_INT then
        (case (current, tmp) of
           (Int_store c, Int_store x) \<Rightarrow> Some (Int_store (if low then (if x < c then x else c) else (if c < x then x else c)))
         | _ \<Rightarrow> None)
      else if t = MCA_BASE_VAR_TYPE_UNSIGNED_LONG \<or> t = MCA_BASE_VAR_TYPE_UNSIGNED_LONG_LONG then
        (case (current, tmp) of
           (Long_store c, Long_store x) \<Rightarrow> Some (Long_store (if low then (if x < c then x else c) else (if c < x then x else c)))
         | _ \<Rightarrow> None)
      else if t = MCA_BASE_VAR_TYPE_DOUBLE then
        (case (current, tmp) of
           (Double_store c, Double_store x) \<Rightarrow>
             Some (Double_store (if low then (if pe_less e x c then x else c) else (if pe_less e c x then x else c)))
         | _ \<Rightarrow> None)
      else Some current)"

fun sum_values ::
  "pvar_env \<Rightarrow> ocoms_mca_base_var_type_t \<Rightarrow> nat \<Rightarrow> pvalue list \<Rightarrow> pvalue list \<Rightarrow> pvalue list \<Rightarrow> pvalue list option" where
  "sum_values e t 0 cs xs ls = Some cs"
| "sum_values e t (Suc n) (c # cs) (x # xs) (l # ls) = do {
     c' \<leftarrow> sum_value e t c x l;
     cs' \<leftarrow> sum_values e t n cs xs ls;
     Some (c' # cs') }"
| "sum_values e t (Suc n) _ _ _ = None"

fun mark_values :: "pvar_env \<Rightarrow> bool \<Rightarrow> ocoms_mca_base_var_type_t \<Rightarrow> nat \<Rightarrow> pvalue list \<Rightarrow> pvalue list \<Rightarrow> pvalue list option" where
  "mark_values e low t 0 cs xs = Some cs"
| "mark_values e low t (Suc n) (c # cs) (x # xs) = do {
     c' \<leftarrow> mark_value e low t c x;
     cs' \<leftarrow> mark_values e low t n cs xs;
     Some (c' # cs') }"
| "mark_values e low t (Suc n) _ _ = None"

section \<open>Updating\<close>

definition handle_running :: "ocoms_mca_base_pvar_handle_t \<Rightarrow> ocoms_mca_base_pvar_t \<Rightarrow> bool" where
  "handle_running hdl v \<longleftrightarrow> ph_started hdl \<or> ocoms_mca_base_pvar_is_continuous v"

definition ocoms_mca_base_pvar_handle_update :: "pvar_env \<Rightarrow> pstate \<Rightarrow> nat \<Rightarrow> (int \<times> pstate) option" where
  "ocoms_mca_base_pvar_handle_update e s h = do {
     (hdl, v) \<leftarrow> the_handle s h;
     if ocoms_mca_base_pvar_is_invalid v then Some (OCOMS_ERR_NOT_BOUND, s)
     else if \<not> handle_running hdl v then Some (OCOMS_SUCCESS, s)
     else if ocoms_mca_base_pvar_is_sum v \<or> ocoms_mca_base_pvar_is_watermark v then do {
       (ret, tmp) \<leftarrow> call_get_value e s v (ph_obj hdl) (ph_tmp hdl);
       s1 \<leftarrow> upd_handle h (\<lambda>hdl. hdl\<lparr>ph_tmp := Some tmp\<rparr>) s;
       if ret \<noteq> OCOMS_SUCCESS then Some (OCOMS_ERROR, s1)
       else do {
         current \<leftarrow> ph_current hdl;
         if ocoms_mca_base_pvar_is_sum v then do {
           before \<leftarrow> ph_last hdl;
           current' \<leftarrow> sum_values e (pvar_type v) (nat (ph_count hdl)) current tmp before;
           s2 \<leftarrow> upd_handle h (\<lambda>hdl. hdl\<lparr>ph_current := Some current', ph_tmp := Some before, ph_last := Some tmp\<rparr>) s1;
           Some (OCOMS_SUCCESS, s2) }
         else do {
           current' \<leftarrow> mark_values e (pvar_var_class v = MCA_BASE_PVAR_CLASS_LOWWATERMARK) (pvar_type v)
                        (nat (ph_count hdl)) current tmp;
           s2 \<leftarrow> upd_handle h (\<lambda>hdl. hdl\<lparr>ph_current := Some current'\<rparr>) s1;
           Some (OCOMS_SUCCESS, s2) } } }
     else if \<not> ocoms_mca_base_pvar_is_continuous v then do {
       (ret, current) \<leftarrow> call_get_value e s v (ph_obj hdl) (ph_current hdl);
       s1 \<leftarrow> upd_handle h (\<lambda>hdl. hdl\<lparr>ph_current := Some current\<rparr>) s;
       Some (ret, s1) }
     else Some (OCOMS_SUCCESS, s) }"

definition update_bound_handle :: "pvar_env \<Rightarrow> nat option \<Rightarrow> nat \<Rightarrow> pstate \<Rightarrow> pstate option" where
  "update_bound_handle e obj h s = do {
     (hdl, _) \<leftarrow> the_handle s h;
     if ph_obj hdl \<noteq> obj then Some s
     else do { (_, s1) \<leftarrow> ocoms_mca_base_pvar_handle_update e s h; Some s1 } }"

definition ocoms_mca_base_pvar_update_all_handles :: "pvar_env \<Rightarrow> pstate \<Rightarrow> int \<Rightarrow> nat option \<Rightarrow> (int \<times> pstate) option" where
  "ocoms_mca_base_pvar_update_all_handles e s index obj = do {
     (ret, p) \<leftarrow> ocoms_mca_base_pvar_get_internal (ps_mca s) index False;
     if ret \<noteq> OCOMS_SUCCESS then Some (ret, s)
     else do {
       a \<leftarrow> p;
       v \<leftarrow> rdn (vs_pheap (ps_mca s)) a;
       s1 \<leftarrow> foldM (update_bound_handle e obj) (pvar_bound_handles v) s;
       Some (OCOMS_SUCCESS, s1) } }"

section \<open>Reading and writing\<close>

definition reads_cached :: "ocoms_mca_base_pvar_handle_t \<Rightarrow> ocoms_mca_base_pvar_t \<Rightarrow> bool" where
  "reads_cached hdl v \<longleftrightarrow> ocoms_mca_base_pvar_is_sum v \<or> ocoms_mca_base_pvar_is_watermark v \<or> \<not> handle_running hdl v"

text \<open>The elements the caller's buffer holds afterwards.\<close>

definition ocoms_mca_base_pvar_handle_read_value ::
  "pvar_env \<Rightarrow> pstate \<Rightarrow> nat \<Rightarrow> pvalue list \<Rightarrow> (int \<times> pvalue list \<times> pstate) option" where
  "ocoms_mca_base_pvar_handle_read_value e s h value = do {
     (_, v) \<leftarrow> the_handle s h;
     if ocoms_mca_base_pvar_is_invalid v then Some (OCOMS_ERR_NOT_BOUND, value, s)
     else do {
       (ret, s1) \<leftarrow> ocoms_mca_base_pvar_handle_update e s h;
       if ret \<noteq> OCOMS_SUCCESS then Some (ret, value, s1)
       else do {
         (hdl, _) \<leftarrow> the_handle s1 h;
         if reads_cached hdl v then do {
           current \<leftarrow> ph_current hdl;
           let n = nat (ph_count hdl);
           assert_c (n \<le> length current \<and> n \<le> length value);
           Some (OCOMS_SUCCESS, take n current @ drop n value, s1) }
         else do {
           (ret, value') \<leftarrow> call_get_value e s1 v (ph_obj hdl) (Some value);
           Some (ret, value', s1) } } } }"

definition ocoms_mca_base_pvar_handle_write_value ::
  "pvar_env \<Rightarrow> pstate \<Rightarrow> nat \<Rightarrow> pvalue list \<Rightarrow> (int \<times> pstate) option" where
  "ocoms_mca_base_pvar_handle_write_value e s h value = do {
     (_, v) \<leftarrow> the_handle s h;
     if ocoms_mca_base_pvar_is_invalid v then Some (OCOMS_ERR_NOT_BOUND, s)
     else if ocoms_mca_base_pvar_is_readonly v then Some (OCOMS_ERR_PERM, s)
     else do {
       (ret, s1) \<leftarrow> ocoms_mca_base_pvar_handle_update e s h;
       if ret \<noteq> OCOMS_SUCCESS then Some (ret, s1)
       else do {
         (hdl, _) \<leftarrow> the_handle s1 h;
         current \<leftarrow> ph_current hdl;
         let n = nat (ph_count hdl);
         assert_c (n \<le> length current \<and> n \<le> length value);
         s2 \<leftarrow> upd_handle h (\<lambda>hdl. hdl\<lparr>ph_current := Some (take n value @ drop n current)\<rparr>) s1;
         Some (OCOMS_SUCCESS, s2) } } }"

section \<open>Starting, stopping, resetting\<close>

definition ocoms_mca_base_pvar_handle_start :: "pvar_env \<Rightarrow> pstate \<Rightarrow> nat \<Rightarrow> (int \<times> pstate) option" where
  "ocoms_mca_base_pvar_handle_start e s h = do {
     (hdl, v) \<leftarrow> the_handle s h;
     if ocoms_mca_base_pvar_is_continuous v \<or> ph_started hdl then Some (OCOMS_ERR_NOT_SUPPORTED, s)
     else do {
       (ret, _) \<leftarrow> ocoms_mca_base_pvar_notify e hdl v MCA_BASE_PVAR_HANDLE_START;
       if ret \<noteq> OCOMS_SUCCESS then Some (ret, s)
       else do {
         s1 \<leftarrow> upd_handle h (\<lambda>hdl. hdl\<lparr>ph_started := True\<rparr>) s;
         if ocoms_mca_base_pvar_is_sum v then do {
           (ret, before) \<leftarrow> call_get_value e s1 v (ph_obj hdl) (ph_last hdl);
           s2 \<leftarrow> upd_handle h (\<lambda>hdl. hdl\<lparr>ph_last := Some before\<rparr>) s1;
           Some (ret, s2) }
         else if ocoms_mca_base_pvar_is_watermark v then do {
           (ret, current) \<leftarrow> call_get_value e s1 v (ph_obj hdl) (ph_current hdl);
           s2 \<leftarrow> upd_handle h (\<lambda>hdl. hdl\<lparr>ph_current := Some current\<rparr>) s1;
           Some (ret, s2) }
         else Some (OCOMS_SUCCESS, s1) } } }"

definition ocoms_mca_base_pvar_handle_stop :: "pvar_env \<Rightarrow> pstate \<Rightarrow> nat \<Rightarrow> (int \<times> pstate) option" where
  "ocoms_mca_base_pvar_handle_stop e s h = do {
     (hdl, v) \<leftarrow> the_handle s h;
     if ocoms_mca_base_pvar_is_invalid v then Some (OCOMS_ERR_NOT_BOUND, s)
     else if \<not> handle_running hdl v \<or> ocoms_mca_base_pvar_is_continuous v then Some (OCOMS_ERR_NOT_SUPPORTED, s)
     else do {
       (ret, s1) \<leftarrow> ocoms_mca_base_pvar_handle_update e s h;
       if ret \<noteq> OCOMS_SUCCESS then Some (ret, s1)
       else do {
         (hd1, _) \<leftarrow> the_handle s1 h;
         _ \<leftarrow> ocoms_mca_base_pvar_notify e hd1 v MCA_BASE_PVAR_HANDLE_STOP;
         s2 \<leftarrow> upd_handle h (\<lambda>hdl. hdl\<lparr>ph_started := False\<rparr>) s1;
         Some (OCOMS_SUCCESS, s2) } } }"

definition ocoms_mca_base_pvar_handle_reset :: "pvar_env \<Rightarrow> pstate \<Rightarrow> nat \<Rightarrow> (int \<times> pstate) option" where
  "ocoms_mca_base_pvar_handle_reset e s h = do {
     (hdl, v) \<leftarrow> the_handle s h;
     if ocoms_mca_base_pvar_is_invalid v then Some (OCOMS_ERR_NOT_BOUND, s)
     else if ocoms_mca_base_pvar_is_sum v then do {
       current \<leftarrow> ph_current hdl;
       let n = nat (ph_count hdl);
       assert_c (n \<le> length current);
       s1 \<leftarrow> upd_handle h (\<lambda>hdl. hdl\<lparr>ph_current := Some (replicate n (zero_value (pvar_type v)) @ drop n current)\<rparr>) s;
       if handle_running hdl v then do {
         (ret, before) \<leftarrow> call_get_value e s1 v (ph_obj hdl) (ph_last hdl);
         s2 \<leftarrow> upd_handle h (\<lambda>hdl. hdl\<lparr>ph_last := Some before\<rparr>) s1;
         Some (ret, s2) }
       else Some (OCOMS_SUCCESS, s1) }
     else if handle_running hdl v \<and> ocoms_mca_base_pvar_is_watermark v then do {
       (ret, current) \<leftarrow> call_get_value e s v (ph_obj hdl) (ph_current hdl);
       s1 \<leftarrow> upd_handle h (\<lambda>hdl. hdl\<lparr>ph_current := Some current\<rparr>) s;
       Some (ret, s1) }
     else if ocoms_mca_base_pvar_is_readonly v then Some (OCOMS_ERR_PERM, s)
     else Some (OCOMS_SUCCESS, s) }"

section \<open>Freeing\<close>

text \<open>
  The destructor tells the variable, and takes the handle out of the variable's list and, if it has
  been given one, out of the session's.
\<close>

definition handle_destructor :: "pvar_env \<Rightarrow> pstate \<Rightarrow> nat \<Rightarrow> pstate option" where
  "handle_destructor e s h = do {
     (hdl, v) \<leftarrow> the_handle s h;
     _ \<leftarrow> ocoms_mca_base_pvar_notify e hdl v MCA_BASE_PVAR_HANDLE_UNBIND;
     bound \<leftarrow> list_take_out (mc_dbg (pe_ctx e)) h (pvar_bound_handles v);
     m \<leftarrow> upd_pvar (ph_pvar hdl) (\<lambda>v. v\<lparr>pvar_bound_handles := bound\<rparr>) (ps_mca s);
     sessions \<leftarrow> (case ph_session hdl of None \<Rightarrow> Some (ps_sessions s)
       | Some x \<Rightarrow> do {
           hs \<leftarrow> rdn (ps_sessions s) x;
           hs' \<leftarrow> list_take_out (mc_dbg (pe_ctx e)) h hs;
           Some ((ps_sessions s)[x := hs']) });
     Some (s\<lparr>ps_mca := m, ps_sessions := sessions, ps_handles := (ps_handles s)[h := None]\<rparr>) }"

definition ocoms_mca_base_pvar_handle_free :: "pvar_env \<Rightarrow> pstate \<Rightarrow> nat \<Rightarrow> (int \<times> pstate) option" where
  "ocoms_mca_base_pvar_handle_free e s h = do { s1 \<leftarrow> handle_destructor e s h; Some (OCOMS_SUCCESS, s1) }"

text \<open>A session that goes destructs the handles it still has.\<close>

definition session_constructor :: "pstate \<Rightarrow> nat \<times> pstate" where
  "session_constructor s = (length (ps_sessions s), s\<lparr>ps_sessions := ps_sessions s @ [[]]\<rparr>)"

definition session_destructor :: "pvar_env \<Rightarrow> pstate \<Rightarrow> nat \<Rightarrow> pstate option" where
  "session_destructor e s x = do {
     hs \<leftarrow> rdn (ps_sessions s) x;
     foldM (\<lambda>h s. handle_destructor e s h) hs s }"

section \<open>Allocation\<close>

text \<open>
  A zeroed buffer of the handle.  From the moment the handle has its variable, every failure releases
  it, which runs the destructor although the handle is on no list yet.
\<close>

definition zero_buffer :: "ocoms_mca_base_pvar_t \<Rightarrow> int \<Rightarrow> pvalue list" where
  "zero_buffer v n = replicate (nat n) (zero_value (pvar_type v))"

definition calloc_ok :: "pvar_env \<Rightarrow> nat \<Rightarrow> int \<Rightarrow> bool" where
  "calloc_ok e buffers n \<longleftrightarrow> (0 < buffers \<longrightarrow> 0 \<le> n) \<and> list_all (\<lambda>i. pe_calloc e i n) [0..<buffers]"

text \<open>
  The result: the code, the handle that has been stored for the caller, the count, and the state.  The
  last part enters the handle in both lists.
\<close>

definition enter_handle :: "pstate \<Rightarrow> nat \<Rightarrow> nat \<Rightarrow> nat \<Rightarrow> ocoms_mca_base_pvar_t \<Rightarrow> pstate option" where
  "enter_handle s session a h v = do {
     s1 \<leftarrow> upd_handle h (\<lambda>hdl. hdl\<lparr>ph_session := Some session\<rparr>) s;
     hs \<leftarrow> rdn (ps_sessions s1) session;
     m \<leftarrow> upd_pvar a (\<lambda>v. v\<lparr>pvar_bound_handles := pvar_bound_handles v @ [h]\<rparr>) (ps_mca s1);
     let s2 = s1\<lparr>ps_mca := m, ps_sessions := (ps_sessions s1)[session := hs @ [h]]\<rparr>;
     if ocoms_mca_base_pvar_is_continuous v then upd_handle h (\<lambda>hdl. hdl\<lparr>ph_started := True\<rparr>) s2 else Some s2 }"

text \<open>The buffers, and the first value of a continuous sum or watermark.\<close>

definition handle_buffers ::
  "pvar_env \<Rightarrow> pstate \<Rightarrow> nat \<Rightarrow> ocoms_mca_base_pvar_t \<Rightarrow> nat option \<Rightarrow> int \<Rightarrow> (int + int option \<times> pstate) option" where
  "handle_buffers e s h v obj n =
     (let sum = ocoms_mca_base_pvar_is_sum v; mark = ocoms_mca_base_pvar_is_watermark v;
          continuous = ocoms_mca_base_pvar_is_continuous v; zero = zero_buffer v n
      in if \<not> calloc_ok e (if sum \<or> mark then 3 else if continuous then 0 else 1) n then Some (Inl OCOMS_ERR_OUT_OF_RESOURCE)
         else do {
           s1 \<leftarrow> (if \<not> continuous \<or> sum \<or> mark then upd_handle h (\<lambda>hdl. hdl\<lparr>ph_current := Some zero\<rparr>) s else Some s);
           if \<not> (sum \<or> mark) then Some (Inr (None, s1))
           else do {
             s2 \<leftarrow> upd_handle h (\<lambda>hdl. hdl\<lparr>ph_tmp := Some zero, ph_last := Some zero\<rparr>) s1;
             if \<not> continuous then Some (Inr (None, s2))
             else do {
               (ret, first) \<leftarrow> call_get_value e s2 v obj (Some zero);
               s3 \<leftarrow> upd_handle h (\<lambda>hdl. if sum then hdl\<lparr>ph_last := Some first\<rparr> else hdl\<lparr>ph_current := Some first\<rparr>) s2;
               Some (Inr (if ret \<noteq> OCOMS_SUCCESS then Some ret else None, s3)) } } })"

text \<open>A new handle of the variable at an address; and what is left to do once the variable has told the count.\<close>

definition new_handle :: "nat \<Rightarrow> nat option \<Rightarrow> ocoms_mca_base_pvar_handle_t" where
  "new_handle a obj = \<lparr>ph_session = None, ph_pvar = a, ph_obj = obj, ph_count = 0, ph_last = None, ph_current = None,
     ph_tmp = None, ph_started = False\<rparr>"

definition complete_handle ::
  "pvar_env \<Rightarrow> pstate \<Rightarrow> nat \<Rightarrow> nat \<Rightarrow> nat \<Rightarrow> ocoms_mca_base_pvar_t \<Rightarrow> nat option \<Rightarrow> int \<Rightarrow> (int \<times> pstate) option" where
  "complete_handle e s session h a v obj n = do {
     s2 \<leftarrow> upd_handle h (\<lambda>hdl. hdl\<lparr>ph_count := n\<rparr>) s;
     assert_c (pvar_type v \<noteq> MCA_BASE_VAR_TYPE_MAX);
     r \<leftarrow> handle_buffers e s2 h v obj n;
     case r of
       Inl ret \<Rightarrow> do { s3 \<leftarrow> handle_destructor e s2 h; Some (ret, s3) }
     | Inr (Some ret, s3) \<Rightarrow> Some (ret, s3)
     | Inr (None, s3) \<Rightarrow> do { s4 \<leftarrow> enter_handle s3 session a h v; Some (OCOMS_SUCCESS, s4) } }"

text \<open>
  \<open>obj_new\<close> tells whether there is memory for the handle, \<open>count0\<close> is the caller's \<open>*count\<close>
  before the call.  When the first value cannot be read the function returns at once, without
  releasing the handle.
\<close>

definition ocoms_mca_base_pvar_handle_alloc ::
  "pvar_env \<Rightarrow> pstate \<Rightarrow> bool \<Rightarrow> nat \<Rightarrow> int \<Rightarrow> nat option \<Rightarrow> int \<Rightarrow> (int \<times> nat option \<times> int \<times> pstate) option" where
  "ocoms_mca_base_pvar_handle_alloc e s obj_new session index obj_handle count0 = do {
     (ret, p) \<leftarrow> ocoms_mca_base_pvar_get_internal (ps_mca s) index False;
     if ret \<noteq> OCOMS_SUCCESS then Some (ret, None, count0, s)
     else do {
       a \<leftarrow> p;
       v \<leftarrow> rdn (vs_pheap (ps_mca s)) a;
       if pvar_bind v \<noteq> 0 \<and> obj_handle = None then Some (OCOMS_ERROR, None, count0, s)
       else if \<not> obj_new then Some (OCOMS_ERR_OUT_OF_RESOURCE, None, count0, s)
       else do {
         let obj = (if pvar_bind v = 0 then None else obj_handle);
         let h = length (ps_handles s);
         let s1 = s\<lparr>ps_handles := ps_handles s @ [Some (new_handle a obj)]\<rparr>;
         (ret, c) \<leftarrow> ocoms_mca_base_pvar_notify e (new_handle a obj) v MCA_BASE_PVAR_HANDLE_BIND;
         let n = (case c of None \<Rightarrow> count0 | Some x \<Rightarrow> x);
         (ret, s2) \<leftarrow> (if ret < 0 then do { s2 \<leftarrow> handle_destructor e s1 h; Some (OCOMS_ERROR, s2) }
                        else complete_handle e s1 session h a v obj n);
         Some (ret, Some h, n, s2) } } }"

end
