(* ===== verification/Mca_Pvar_Lists.thy ===== *)
theory Mca_Pvar_Lists
  imports Mca_Pvar_Handle
begin

text \<open>
  The lists of handles: what freeing a session and refusing a handle do to them.
\<close>

section \<open>Handles, sessions and lists\<close>

definition handle_of :: "pstate \<Rightarrow> nat \<Rightarrow> ocoms_mca_base_pvar_handle_t option" where
  "handle_of s h = (if h < length (ps_handles s) then ps_handles s ! h else None)"

definition bound_of :: "pstate \<Rightarrow> nat \<Rightarrow> nat list" where
  "bound_of s a = (if a < length (vs_pheap (ps_mca s)) then pvar_bound_handles (vs_pheap (ps_mca s) ! a) else [])"

text \<open>
  Every handle that has been given to a session is on the list of the session and on the list of its
  variable, once, and the lists hold nothing else; every variable can be told of events.
\<close>

definition handles_wf :: "pstate \<Rightarrow> bool" where
  "handles_wf s \<longleftrightarrow>
     (\<forall>h hdl. handle_of s h = Some hdl \<longrightarrow> ph_pvar hdl < length (vs_pheap (ps_mca s)) \<and>
        (\<forall>x. ph_session hdl = Some x \<longrightarrow> x < length (ps_sessions s))) \<and>
     (\<forall>x < length (ps_sessions s). distinct (ps_sessions s ! x) \<and>
        (\<forall>h. h \<in> set (ps_sessions s ! x) \<longleftrightarrow> (\<exists>hdl. handle_of s h = Some hdl \<and> ph_session hdl = Some x))) \<and>
     (\<forall>a < length (vs_pheap (ps_mca s)). pvar_notify (vs_pheap (ps_mca s) ! a) \<noteq> No_fn \<and> distinct (bound_of s a) \<and>
        (\<forall>h. h \<in> set (bound_of s a) \<longleftrightarrow> (\<exists>hdl. handle_of s h = Some hdl \<and> ph_session hdl \<noteq> None \<and> ph_pvar hdl = a)))"

lemma handles_wfD:
  assumes "handles_wf s"
  shows "handle_of s h = Some hdl \<Longrightarrow> ph_pvar hdl < length (vs_pheap (ps_mca s))"
    and "handle_of s h = Some hdl \<Longrightarrow> ph_session hdl = Some x \<Longrightarrow> x < length (ps_sessions s)"
    and "x < length (ps_sessions s) \<Longrightarrow> distinct (ps_sessions s ! x)"
    and "x < length (ps_sessions s) \<Longrightarrow> h \<in> set (ps_sessions s ! x) \<longleftrightarrow> (\<exists>hdl. handle_of s h = Some hdl \<and> ph_session hdl = Some x)"
    and "a < length (vs_pheap (ps_mca s)) \<Longrightarrow> pvar_notify (vs_pheap (ps_mca s) ! a) \<noteq> No_fn"
    and "a < length (vs_pheap (ps_mca s)) \<Longrightarrow> distinct (bound_of s a)"
    and "a < length (vs_pheap (ps_mca s)) \<Longrightarrow> h \<in> set (bound_of s a) \<longleftrightarrow>
      (\<exists>hdl. handle_of s h = Some hdl \<and> ph_session hdl \<noteq> None \<and> ph_pvar hdl = a)"
  using assms unfolding handles_wf_def by blast+

lemma the_handle_of: "handle_of s h = Some hdl \<Longrightarrow> ph_pvar hdl < length (vs_pheap (ps_mca s)) \<Longrightarrow>
  the_handle s h = Some (hdl, vs_pheap (ps_mca s) ! ph_pvar hdl)"
  by (auto simp: handle_of_def the_handle_def split: if_splits)

lemma notify_returns: "pvar_notify v \<noteq> No_fn \<Longrightarrow> \<exists>r. ocoms_mca_base_pvar_notify e hdl v event = Some r"
  by (auto simp: ocoms_mca_base_pvar_notify_def split: pvar_fn.split)

text \<open>The state after a handle has been released.\<close>

definition released :: "nat \<Rightarrow> ocoms_mca_base_pvar_handle_t \<Rightarrow> nat \<Rightarrow> pstate \<Rightarrow> pstate" where
  "released h hdl x s = s\<lparr>
     ps_mca := (ps_mca s)\<lparr>vs_pheap := (vs_pheap (ps_mca s))[ph_pvar hdl := (vs_pheap (ps_mca s) ! ph_pvar hdl)
       \<lparr>pvar_bound_handles := remove1 h (bound_of s (ph_pvar hdl))\<rparr>]\<rparr>,
     ps_sessions := (ps_sessions s)[x := remove1 h (ps_sessions s ! x)], ps_handles := (ps_handles s)[h := None]\<rparr>"

lemma handle_of_released: "handle_of (released h hdl x s) h' = (if h' = h then None else handle_of s h')"
  by (auto simp: handle_of_def released_def)

lemma bound_of_released: "ph_pvar hdl < length (vs_pheap (ps_mca s)) \<Longrightarrow>
  bound_of (released h hdl x s) a = (if a = ph_pvar hdl then remove1 h (bound_of s a) else bound_of s a)"
  by (auto simp: bound_of_def released_def nth_list_update)

lemma destructor_releases:
  assumes wf: "handles_wf s" and h: "handle_of s h = Some hdl" and x: "ph_session hdl = Some x"
  shows "handle_destructor e s h = Some (released h hdl x s)"
proof -
  have a: "ph_pvar hdl < length (vs_pheap (ps_mca s))" and xl: "x < length (ps_sessions s)"
    using handles_wfD(1,2) [OF wf h] x by simp_all
  have bound: "h \<in> set (bound_of s (ph_pvar hdl))" and sess: "h \<in> set (ps_sessions s ! x)"
    using handles_wfD(4) [OF wf xl] handles_wfD(7) [OF wf a] h x by auto
  obtain r where "ocoms_mca_base_pvar_notify e hdl (vs_pheap (ps_mca s) ! ph_pvar hdl) MCA_BASE_PVAR_HANDLE_UNBIND = Some r"
    using notify_returns [OF handles_wfD(5) [OF wf a]] by blast
  then show ?thesis using bound sess a xl x
    by (simp add: handle_destructor_def the_handle_of [OF h a] list_take_out_def upd_pvar_def bound_of_def released_def)
qed

lemma released_wf:
  assumes wf: "handles_wf s" and h: "handle_of s h = Some hdl" and x: "ph_session hdl = Some x"
  shows "handles_wf (released h hdl x s)"
proof -
  let ?s = "released h hdl x s"
  have a: "ph_pvar hdl < length (vs_pheap (ps_mca s))" and xl: "x < length (ps_sessions s)"
    using handles_wfD(1,2) [OF wf h] x by simp_all
  have len: "length (vs_pheap (ps_mca ?s)) = length (vs_pheap (ps_mca s))" "length (ps_sessions ?s) = length (ps_sessions s)"
    by (simp_all add: released_def)
  have notify: "pvar_notify (vs_pheap (ps_mca ?s) ! b) = pvar_notify (vs_pheap (ps_mca s) ! b)" if "b < length (vs_pheap (ps_mca s))" for b
    using that by (cases "b = ph_pvar hdl") (simp_all add: released_def)
  have sess: "ps_sessions ?s ! y = (if y = x then remove1 h (ps_sessions s ! x) else ps_sessions s ! y)" if "y < length (ps_sessions s)" for y
    using that by (simp add: released_def nth_list_update)
  have in_sess: "k \<in> set (ps_sessions ?s ! y) \<longleftrightarrow> (\<exists>d. handle_of ?s k = Some d \<and> ph_session d = Some y)" if y: "y < length (ps_sessions s)" for k y
    using handles_wfD(3,4) [OF wf y] h x by (auto simp: sess [OF y] handle_of_released)
  have in_bound: "k \<in> set (bound_of ?s b) \<longleftrightarrow> (\<exists>d. handle_of ?s k = Some d \<and> ph_session d \<noteq> None \<and> ph_pvar d = b)"
    if b: "b < length (vs_pheap (ps_mca s))" for k b
    using handles_wfD(6,7) [OF wf b] h x by (auto simp: bound_of_released [OF a] handle_of_released)
  have "distinct (ps_sessions ?s ! y)" if y: "y < length (ps_sessions s)" for y
    using handles_wfD(3) [OF wf y] by (auto simp: sess [OF y])
  moreover have "distinct (bound_of ?s b)" if b: "b < length (vs_pheap (ps_mca s))" for b
    using handles_wfD(6) [OF wf b] by (auto simp: bound_of_released [OF a])
  ultimately show ?thesis
    unfolding handles_wf_def len
    using in_sess in_bound notify handles_wfD(1,2,5) [OF wf] by (auto simp: handle_of_released split: if_splits)
qed

lemma session_handles_destructed:
  "handles_wf s \<Longrightarrow> x < length (ps_sessions s) \<Longrightarrow> ps_sessions s ! x = hs \<Longrightarrow>
   \<exists>s'. foldM (\<lambda>h s. handle_destructor e s h) hs s = Some s' \<and> handles_wf s' \<and> ps_sessions s' = (ps_sessions s)[x := []] \<and>
     length (vs_pheap (ps_mca s')) = length (vs_pheap (ps_mca s)) \<and>
     (\<forall>h. handle_of s' h = (if h \<in> set hs then None else handle_of s h))"
proof (induction hs arbitrary: s)
  case Nil
  then have "(ps_sessions s)[x := []] = ps_sessions s" using list_update_id [of "ps_sessions s" x] by simp
  with Nil show ?case by simp
next
  case (Cons h hs)
  obtain hdl where h: "handle_of s h = Some hdl" "ph_session hdl = Some x"
    using handles_wfD(4) [OF Cons.prems(1,2), of h] Cons.prems(3) by auto
  let ?s = "released h hdl x s"
  have "ps_sessions ?s = (ps_sessions s)[x := hs]" using Cons.prems by (simp add: released_def)
  moreover from this Cons.prems(2) have "ps_sessions ?s ! x = hs" "x < length (ps_sessions ?s)" by simp_all
  ultimately obtain s' where "foldM (\<lambda>h s. handle_destructor e s h) hs ?s = Some s'" "handles_wf s'" "ps_sessions s' = (ps_sessions s)[x := []]"
      "length (vs_pheap (ps_mca s')) = length (vs_pheap (ps_mca ?s))" "\<forall>k. handle_of s' k = (if k \<in> set hs then None else handle_of ?s k)"
    using Cons.IH [OF released_wf [OF Cons.prems(1) h]] by auto
  moreover have "length (vs_pheap (ps_mca ?s)) = length (vs_pheap (ps_mca s))" by (simp add: released_def)
  ultimately show ?case using destructor_releases [OF Cons.prems(1) h] by (auto simp: handle_of_released)
qed

text \<open>
  C33: Freeing a session destructs exactly the handles that belong to it, takes them off the lists of
  their variables, and keeps everything well-formed.
\<close>

theorem session_releases_handles:
  assumes "handles_wf s" and "x < length (ps_sessions s)"
  shows "\<exists>s'. session_destructor e s x = Some s' \<and> handles_wf s' \<and> ps_sessions s' = (ps_sessions s)[x := []] \<and>
    (\<forall>h. handle_of s' h = (if \<exists>hdl. handle_of s h = Some hdl \<and> ph_session hdl = Some x then None else handle_of s h)) \<and>
    (\<forall>a h. h \<in> set (bound_of s' a) \<longrightarrow> handle_of s' h \<noteq> None)"
proof -
  obtain s' where s': "foldM (\<lambda>h s. handle_destructor e s h) (ps_sessions s ! x) s = Some s'" "handles_wf s'"
      "ps_sessions s' = (ps_sessions s)[x := []]" "length (vs_pheap (ps_mca s')) = length (vs_pheap (ps_mca s))"
      "\<forall>h. handle_of s' h = (if h \<in> set (ps_sessions s ! x) then None else handle_of s h)"
    using session_handles_destructed [OF assms refl] by blast
  have "handle_of s' h \<noteq> None" if "h \<in> set (bound_of s' a)" for a h
    using handles_wfD(7) [OF s'(2), of a h] that by (cases "a < length (vs_pheap (ps_mca s'))") (auto simp: bound_of_def)
  then show ?thesis using s' handles_wfD(4) [OF assms] assms(2) by (auto simp: session_destructor_def)
qed

text \<open>
  Allocation from here on: a handle that is allocated keeps the lists well-formed; one that the
  variable refuses is destructed while it is on no list.
\<close>

definition refuses :: "pvar_env \<Rightarrow> ocoms_mca_base_pvar_t \<Rightarrow> nat option \<Rightarrow> bool" where
  "refuses e v obj \<longleftrightarrow> (case pvar_notify v of Component_fn n \<Rightarrow> fst (pe_notify e n v MCA_BASE_PVAR_HANDLE_BIND obj) < 0 | _ \<Rightarrow> False)"

text \<open>
  C34: When a component refuses to bind a handle, allocating it has undefined behaviour in a build without
  debugging: the new handle is taken out of a list it is not on.
\<close>

theorem refused_handle_crashes:
  assumes "handles_wf s" and "ocoms_mca_base_pvar_get_internal (ps_mca s) index False = Some (OCOMS_SUCCESS, Some a)"
    and "a < length (vs_pheap (ps_mca s))" and "v = vs_pheap (ps_mca s) ! a"
    and "pvar_bind v \<noteq> 0 \<longrightarrow> obj \<noteq> None" and "refuses e v (if pvar_bind v = 0 then None else obj)" and "\<not> mc_dbg (pe_ctx e)"
  shows "ocoms_mca_base_pvar_handle_alloc e s True x index obj count0 = None"
proof -
  define obj' where "obj' = (if pvar_bind v = 0 then None else obj)"
  let ?h = "length (ps_handles s)"
  let ?s1 = "s\<lparr>ps_handles := ps_handles s @ [Some (new_handle a obj')]\<rparr>"
  have v: "rdn (vs_pheap (ps_mca s)) a = Some v" using assms(3,4) by simp
  have nb: "(pvar_bind v \<noteq> 0 \<and> obj = None) = False" using assms(5) by blast
  have ok: "\<not> ocoms_mca_base_pvar_is_invalid v"
    using assms(2,3,4) by (auto simp: ocoms_mca_base_pvar_get_internal_def bind_eq_Some_conv ocoms_mca_base_pvar_is_invalid_def rc_defs split: if_splits)
  obtain n where n: "pvar_notify v = Component_fn n" "fst (pe_notify e n v MCA_BASE_PVAR_HANDLE_BIND obj') < 0"
    using assms(6) by (auto simp: refuses_def obj'_def split: pvar_fn.splits)
  have bind: "ocoms_mca_base_pvar_notify e (new_handle a obj') v MCA_BASE_PVAR_HANDLE_BIND = Some (pe_notify e n v MCA_BASE_PVAR_HANDLE_BIND obj')"
    and unbind: "ocoms_mca_base_pvar_notify e (new_handle a obj') v MCA_BASE_PVAR_HANDLE_UNBIND = Some (pe_notify e n v MCA_BASE_PVAR_HANDLE_UNBIND obj')"
    using ok n by (simp_all add: ocoms_mca_base_pvar_notify_def new_handle_def)
  have "?h \<notin> set (bound_of s a)" using handles_wfD(7) [OF assms(1,3), of ?h] by (auto simp: handle_of_def)
  then have "handle_destructor e ?s1 ?h = None"
    using assms(3,4,7) unbind
    by (simp add: handle_destructor_def the_handle_def rdn_def new_handle_def bound_of_def list_take_out_def)
  then show ?thesis
    using n(2) unfolding ocoms_mca_base_pvar_handle_alloc_def assms(2)
    by (cases "pe_notify e n v MCA_BASE_PVAR_HANDLE_BIND obj'")
      (simp add: v nb obj'_def [symmetric] bind Let_def OCOMS_SUCCESS_def del: de_Morgan_conj not_None_eq)
qed

definition with_pvar :: "ocoms_mca_base_pvar_t \<Rightarrow> pstate" where
  "with_pvar v = \<lparr>ps_mca = mca_static\<lparr>vs_pvars := \<lparr>pa_lowest_free = 1, pa_number_free = 0, pa_size = 1, pa_max_size = 100,
       pa_block_size = 1, pa_addr = Some [Some 0]\<rparr>, vs_pheap := [v], vs_pcount := 1\<rparr>, ps_handles = [], ps_sessions = [[]]\<rparr>"

definition some_pvar :: "pvar_fn \<Rightarrow> ocoms_mca_base_pvar_t" where
  "some_pvar f = ocoms_mca_base_pvar_contructor\<lparr>pvar_get_value := Default_fn, pvar_notify := f, pvar_ctx := Some 7\<rparr>"

definition one_handle :: pstate where
  "one_handle = (with_pvar (some_pvar Default_fn\<lparr>pvar_bound_handles := [0]\<rparr>))
     \<lparr>ps_handles := [Some ((new_handle 0 None)\<lparr>ph_session := Some 0, ph_count := 1\<rparr>)], ps_sessions := [[0], []]\<rparr>"

lemma one_handle_wf: "handles_wf one_handle"
  by (auto simp: handles_wf_def one_handle_def with_pvar_def some_pvar_def ocoms_mca_base_pvar_contructor_def handle_of_def bound_of_def
      new_handle_def less_Suc_eq numeral_2_eq_2)

definition plain_env :: "mca_ctx \<Rightarrow> pvar_env" where
  "plain_env c = \<lparr>pe_ctx = c, pe_get_value = \<lambda>_ _ _ _. (OCOMS_ERROR, []), pe_notify = \<lambda>_ _ _ _. (OCOMS_ERROR, None),
     pe_calloc = \<lambda>_ _. True, pe_add = (+), pe_sub = (-), pe_less = (<)\<rparr>"

definition plain_ctx :: mca_ctx where
  "plain_ctx = \<lparr>mc_val = sample_ctx, mc_calloc = \<lambda>_. True, mc_malloc = \<lambda>_. True, mc_cells = \<lambda>n. Some (replicate n None),
     mc_obj_new = True, mc_getenv = \<lambda>_. None, mc_pad = \<lambda>_. 0, mc_dbg = False\<rparr>"

theorem session_releases_handles_witness:
  "\<exists>s'. session_destructor (plain_env plain_ctx) one_handle 0 = Some s' \<and> handle_of s' 0 = None \<and> ps_sessions s' = [[], []]"
proof -
  have parts: "ps_sessions one_handle = [[0], []]" "handle_of one_handle 0 = Some ((new_handle 0 None)\<lparr>ph_session := Some 0, ph_count := 1\<rparr>)"
    by (simp_all add: one_handle_def handle_of_def)
  show ?thesis using session_releases_handles [OF one_handle_wf, of 0 "plain_env plain_ctx"] by (auto simp: parts)
qed

theorem refused_handle_crashes_witness:
  "ocoms_mca_base_pvar_handle_alloc (plain_env plain_ctx) (with_pvar (some_pvar (Component_fn 0))) True 0 0 None 0 = None"
proof (rule refused_handle_crashes [OF _ _ _ refl])
  let ?s = "with_pvar (some_pvar (Component_fn 0))"
  show "handles_wf ?s"
    by (auto simp: handles_wf_def with_pvar_def some_pvar_def ocoms_mca_base_pvar_contructor_def handle_of_def bound_of_def)
  show "ocoms_mca_base_pvar_get_internal (ps_mca ?s) 0 False = Some (OCOMS_SUCCESS, Some 0)"
    by (simp add: with_pvar_def some_pvar_def ocoms_mca_base_pvar_contructor_def ocoms_mca_base_pvar_get_internal_def
        ocoms_pointer_array_get_item_def rd_def isset_def)
  show "0 < length (vs_pheap (ps_mca ?s))" by (simp add: with_pvar_def)
  show "pvar_bind (vs_pheap (ps_mca ?s) ! 0) \<noteq> 0 \<longrightarrow> None \<noteq> None"
    by (simp add: with_pvar_def some_pvar_def ocoms_mca_base_pvar_contructor_def)
  show "refuses (plain_env plain_ctx) (vs_pheap (ps_mca ?s) ! 0) (if pvar_bind (vs_pheap (ps_mca ?s) ! 0) = 0 then None else None)"
    by (simp add: refuses_def plain_env_def with_pvar_def some_pvar_def rc_defs)
  show "\<not> mc_dbg (pe_ctx (plain_env plain_ctx))" by (simp add: plain_env_def plain_ctx_def)
qed

end
