(* ===== verification/Mca_Pvar_Watch.thy ===== *)
theory Mca_Pvar_Watch
  imports Mca_Pvar_Lists
begin

text \<open>
  Handles of counting performance variables as stopwatches: the specification, the locale of the
  arithmetic on one type of elements, and the simulation.
\<close>

section \<open>The abstract stopwatch\<close>

type_synonym store = "nat \<Rightarrow> pvalue option"

datatype handle_op = Op_start | Op_stop | Op_update | Op_read "pvalue list" | Op_reset | Op_count store

record 'a stopwatch =
  sw_running :: bool
  sw_total :: "'a list"
  sw_now :: "'a list"

definition grown :: "('a::ab_group_add) list \<Rightarrow> 'a list \<Rightarrow> 'a list \<Rightarrow> 'a list" where
  "grown tot new old = map2 (+) tot (map2 (-) new old)"

text \<open>The specification: the total grows by what the counters grow while the watch is running.\<close>

fun stopwatch_op ::
  "(store \<Rightarrow> ('a::ab_group_add) list) \<Rightarrow> ('a \<Rightarrow> pvalue) \<Rightarrow> handle_op \<Rightarrow> 'a stopwatch \<Rightarrow> (int \<times> pvalue list) \<times> 'a stopwatch" where
  "stopwatch_op counters enc Op_start w =
     (if sw_running w then ((OCOMS_ERR_NOT_SUPPORTED, []), w) else ((OCOMS_SUCCESS, []), w\<lparr>sw_running := True\<rparr>))"
| "stopwatch_op counters enc Op_stop w =
     (if sw_running w then ((OCOMS_SUCCESS, []), w\<lparr>sw_running := False\<rparr>) else ((OCOMS_ERR_NOT_SUPPORTED, []), w))"
| "stopwatch_op counters enc Op_update w = ((OCOMS_SUCCESS, []), w)"
| "stopwatch_op counters enc (Op_read buffer) w = ((OCOMS_SUCCESS, map enc (sw_total w)), w)"
| "stopwatch_op counters enc Op_reset w = ((OCOMS_SUCCESS, []), w\<lparr>sw_total := map (\<lambda>_. 0) (sw_total w)\<rparr>)"
| "stopwatch_op counters enc (Op_count st) w =
     ((OCOMS_SUCCESS, []), w\<lparr>sw_now := counters st,
        sw_total := (if sw_running w then grown (sw_total w) (counters st) (sw_now w) else sw_total w)\<rparr>)"

text \<open>The operations of the code; the application changes the counters behind the handle's back.\<close>

definition quiet :: "(int \<times> pstate) option \<Rightarrow> ((int \<times> pvalue list) \<times> pstate) option" where
  "quiet r = map_option (\<lambda>(rc, s). ((rc, []), s)) r"

fun handle_op_run :: "pvar_env \<Rightarrow> nat \<Rightarrow> handle_op \<Rightarrow> pstate \<Rightarrow> ((int \<times> pvalue list) \<times> pstate) option" where
  "handle_op_run e h Op_start s = quiet (ocoms_mca_base_pvar_handle_start e s h)"
| "handle_op_run e h Op_stop s = quiet (ocoms_mca_base_pvar_handle_stop e s h)"
| "handle_op_run e h Op_update s = quiet (ocoms_mca_base_pvar_handle_update e s h)"
| "handle_op_run e h (Op_read buffer) s =
     map_option (\<lambda>(rc, xs, s). ((rc, xs), s)) (ocoms_mca_base_pvar_handle_read_value e s h buffer)"
| "handle_op_run e h Op_reset s = quiet (ocoms_mca_base_pvar_handle_reset e s h)"
| "handle_op_run e h (Op_count st) s = Some ((OCOMS_SUCCESS, []), s\<lparr>ps_mca := (ps_mca s)\<lparr>vs_store := st\<rparr>\<rparr>)"

fun run_outputs :: "('o \<Rightarrow> 's \<Rightarrow> ('r \<times> 's) option) \<Rightarrow> 'o list \<Rightarrow> 's \<Rightarrow> ('r list \<times> 's) option" where
  "run_outputs f [] s = Some ([], s)"
| "run_outputs f (x # xs) s = do { (r, s1) \<leftarrow> f x s; (rs, s2) \<leftarrow> run_outputs f xs s1; Some (r # rs, s2) }"

fun spec_outputs :: "('o \<Rightarrow> 'w \<Rightarrow> 'r \<times> 'w) \<Rightarrow> 'o list \<Rightarrow> 'w \<Rightarrow> 'r list" where
  "spec_outputs f [] w = []"
| "spec_outputs f (x # xs) w = fst (f x w) # spec_outputs f xs (snd (f x w))"

text \<open>A stepwise simulation carries over to runs.\<close>

lemma simulation_outputs:
  assumes "\<And>x w s. ok x \<Longrightarrow> R w s \<Longrightarrow> \<exists>s'. f x s = Some (fst (g x w), s') \<and> R (snd (g x w)) s'"
  shows "R w s \<Longrightarrow> list_all ok xs \<Longrightarrow> \<exists>s'. run_outputs f xs s = Some (spec_outputs g xs w, s')"
proof (induction xs arbitrary: w s)
  case (Cons x xs)
  then obtain s1 where "f x s = Some (fst (g x w), s1)" "R (snd (g x w)) s1" using assms [of x w s] by auto
  with Cons show ?case by fastforce
qed simp

section \<open>Counting variables\<close>

text \<open>
  A performance variable that counts: a sum that is not continuous, that accepts every event, and whose
  reading function gives the counters that are in the application's memory.  The list of bound handles
  does not matter to it.
\<close>

definition counting ::
  "pvar_env \<Rightarrow> ocoms_mca_base_var_type_t \<Rightarrow> (store \<Rightarrow> bool) \<Rightarrow> (store \<Rightarrow> 'a list) \<Rightarrow> ('a \<Rightarrow> pvalue) \<Rightarrow> nat \<Rightarrow> nat option \<Rightarrow>
   ocoms_mca_base_pvar_t \<Rightarrow> bool" where
  "counting e t ok counters enc n obj v \<longleftrightarrow>
     \<not> ocoms_mca_base_pvar_is_invalid v \<and> \<not> ocoms_mca_base_pvar_is_continuous v \<and> ocoms_mca_base_pvar_is_sum v \<and> pvar_type v = t \<and>
     (\<forall>bound hdl event. ph_obj hdl = obj \<longrightarrow>
        (\<exists>c. ocoms_mca_base_pvar_notify e hdl (v\<lparr>pvar_bound_handles := bound\<rparr>) event = Some (OCOMS_SUCCESS, c))) \<and>
     (\<forall>bound s buffer. ok (vs_store (ps_mca s)) \<and> length buffer = n \<longrightarrow>
        call_get_value e s (v\<lparr>pvar_bound_handles := bound\<rparr>) obj (Some buffer)
          = Some (OCOMS_SUCCESS, map enc (counters (vs_store (ps_mca s)))))"

fun op_fits :: "(store \<Rightarrow> bool) \<Rightarrow> nat \<Rightarrow> handle_op \<Rightarrow> bool" where
  "op_fits ok n (Op_count st) \<longleftrightarrow> ok st"
| "op_fits ok n (Op_read buffer) \<longleftrightarrow> length buffer = n"
| "op_fits ok n _ \<longleftrightarrow> True"

text \<open>The simulation relation: the total is the stored sum and what has not been added to it yet.\<close>

definition watched ::
  "pvar_env \<Rightarrow> nat \<Rightarrow> ocoms_mca_base_var_type_t \<Rightarrow> (store \<Rightarrow> bool) \<Rightarrow> (store \<Rightarrow> ('a::ab_group_add) list) \<Rightarrow> ('a \<Rightarrow> pvalue) \<Rightarrow> nat \<Rightarrow>
   'a stopwatch \<Rightarrow> pstate \<Rightarrow> bool" where
  "watched e h t ok counters enc n w s \<longleftrightarrow> (\<exists>hdl v current before tmp.
     the_handle s h = Some (hdl, v) \<and> counting e t ok counters enc n (ph_obj hdl) v \<and> ph_count hdl = int n \<and>
     ph_current hdl = Some (map enc current) \<and> ph_last hdl = Some (map enc before) \<and> ph_tmp hdl = Some tmp \<and>
     length current = n \<and> length before = n \<and> length tmp = n \<and> ok (vs_store (ps_mca s)) \<and>
     sw_now w = counters (vs_store (ps_mca s)) \<and> length (sw_now w) = n \<and> sw_running w = ph_started hdl \<and>
     sw_total w = (if ph_started hdl then grown current (sw_now w) before else current))"

lemma watchedE:
  assumes "watched e h t ok counters enc n w s"
  obtains hdl v current before tmp where
    "the_handle s h = Some (hdl, v)" "counting e t ok counters enc n (ph_obj hdl) v" "ph_count hdl = int n"
    "ph_current hdl = Some (map enc current)" "ph_last hdl = Some (map enc before)" "ph_tmp hdl = Some tmp"
    "length current = n" "length before = n" "length tmp = n" "ok (vs_store (ps_mca s))"
    "sw_now w = counters (vs_store (ps_mca s))" "length (sw_now w) = n" "sw_running w = ph_started hdl"
    "sw_total w = (if ph_started hdl then grown current (sw_now w) before else current)"
  using assms unfolding watched_def by blast

lemma countingD:
  assumes "counting e t ok counters enc n obj v"
  shows "\<not> ocoms_mca_base_pvar_is_invalid v" "\<not> ocoms_mca_base_pvar_is_continuous v" "ocoms_mca_base_pvar_is_sum v" "pvar_type v = t"
    and "ok (vs_store (ps_mca s)) \<Longrightarrow> length buffer = n \<Longrightarrow>
      call_get_value e s v obj (Some buffer) = Some (OCOMS_SUCCESS, map enc (counters (vs_store (ps_mca s))))"
    and "ph_obj hdl = obj \<Longrightarrow> \<exists>c. ocoms_mca_base_pvar_notify e hdl v event = Some (OCOMS_SUCCESS, c)"
proof -
  have v: "v\<lparr>pvar_bound_handles := pvar_bound_handles v\<rparr> = v" by simp
  show "ok (vs_store (ps_mca s)) \<Longrightarrow> length buffer = n \<Longrightarrow>
      call_get_value e s v obj (Some buffer) = Some (OCOMS_SUCCESS, map enc (counters (vs_store (ps_mca s))))"
    using assms v unfolding counting_def by metis
  show "ph_obj hdl = obj \<Longrightarrow> \<exists>c. ocoms_mca_base_pvar_notify e hdl v event = Some (OCOMS_SUCCESS, c)"
    using assms v unfolding counting_def by metis
qed (use assms in \<open>auto simp: counting_def\<close>)

lemma upd_handle_eq: "the_handle s h = Some (hdl, v) \<Longrightarrow> upd_handle h f s = Some (s\<lparr>ps_handles := (ps_handles s)[h := Some (f hdl)]\<rparr>)"
  by (auto simp: the_handle_def upd_handle_def bind_eq_Some_conv)

lemma the_handle_upd:
  "the_handle s h = Some (hdl, v) \<Longrightarrow> ph_pvar hdl' = ph_pvar hdl \<Longrightarrow> the_handle (s\<lparr>ps_handles := (ps_handles s)[h := Some hdl']\<rparr>) h = Some (hdl', v)"
  by (auto simp: the_handle_def bind_eq_Some_conv rdn_def split: if_splits)

lemma the_handle_store [simp]: "the_handle (s\<lparr>ps_mca := (ps_mca s)\<lparr>vs_store := st\<rparr>\<rparr>) h = the_handle s h"
  by (simp add: the_handle_def)

lemma grown_self: "length xs = length ys \<Longrightarrow> grown xs ys ys = (xs :: ('a::ab_group_add) list)"
  by (induction xs ys rule: list_induct2) (simp_all add: grown_def)

lemma length_grown [simp]: "length (grown xs ys zs) = min (length xs) (min (length ys) (length zs))"
  by (simp add: grown_def)

lemma grown_grown:
  assumes "length a = length b" "length b = length c" "length c = length d"
  shows "grown (grown a b c) d b = grown a d (c :: ('a::ab_group_add) list)"
proof -
  have "map2 (+) (map2 (+) a (map2 (-) b c)) (map2 (-) d b) = map2 (+) a (map2 (-) d c)"
    using assms by (induction a b c d rule: list_induct4) simp_all
  then show ?thesis by (simp add: grown_def)
qed

section \<open>The simulation\<close>

text \<open>What the arithmetic on the elements of one type provides.\<close>

locale sum_type =
  fixes t :: ocoms_mca_base_var_type_t and enc :: "'a::ab_group_add \<Rightarrow> pvalue"
  assumes sum_enc: "sum_value e t (enc c) (enc x) (enc l) = Some (enc (c + (x - l)))"
    and zero_enc: "zero_value t = enc 0"
begin

lemma sum_values_enc:
  "length cs = length xs \<Longrightarrow> length xs = length ls \<Longrightarrow>
   sum_values e t (length cs) (map enc cs) (map enc xs) (map enc ls) = Some (map enc (grown cs xs ls))"
  by (induction cs xs ls rule: list_induct3) (simp_all add: sum_enc grown_def)

lemma update_running:
  assumes h: "the_handle s h = Some (hdl, v)" and c: "counting e t ok counters enc n (ph_obj hdl) v"
    and hdl: "ph_count hdl = int n" "ph_current hdl = Some (map enc current)" "ph_last hdl = Some (map enc before)" "ph_tmp hdl = Some tmp"
    and len: "length current = n" "length before = n" "length tmp = n" "length (counters (vs_store (ps_mca s))) = n"
    and ok: "ok (vs_store (ps_mca s))" and run: "ph_started hdl"
  shows "ocoms_mca_base_pvar_handle_update e s h = Some (OCOMS_SUCCESS, s\<lparr>ps_handles := (ps_handles s)[h := Some (hdl\<lparr>
     ph_current := Some (map enc (grown current (counters (vs_store (ps_mca s))) before)), ph_tmp := Some (map enc before),
     ph_last := Some (map enc (counters (vs_store (ps_mca s))))\<rparr>)]\<rparr>)"
proof -
  let ?now = "counters (vs_store (ps_mca s))"
  let ?s1 = "s\<lparr>ps_handles := (ps_handles s)[h := Some (hdl\<lparr>ph_tmp := Some (map enc ?now)\<rparr>)]\<rparr>"
  have s1: "the_handle ?s1 h = Some (hdl\<lparr>ph_tmp := Some (map enc ?now)\<rparr>, v)" using h by (rule the_handle_upd) simp
  have get: "call_get_value e s v (ph_obj hdl) (Some tmp) = Some (OCOMS_SUCCESS, map enc ?now)"
    using countingD(5) [OF c ok, of tmp] len by simp
  have sum: "sum_values e t n (map enc current) (map enc ?now) (map enc before) = Some (map enc (grown current ?now before))"
    using sum_values_enc [of current ?now before e] len by simp
  show ?thesis
    using countingD(1-4) [OF c] run hdl
    by (simp add: ocoms_mca_base_pvar_handle_update_def h handle_running_def get upd_handle_eq [OF h] upd_handle_eq [OF s1] sum)
qed

lemma update_stopped:
  assumes "the_handle s h = Some (hdl, v)" and "counting e t ok counters enc n (ph_obj hdl) v" and "\<not> ph_started hdl"
  shows "ocoms_mca_base_pvar_handle_update e s h = Some (OCOMS_SUCCESS, s)"
  using countingD(1-4) [OF assms(2)] assms(1,3) by (simp add: ocoms_mca_base_pvar_handle_update_def handle_running_def)

text \<open>Updating moves what has been counted into the stored sum and changes nothing to be seen.\<close>

lemma watched_update:
  assumes "watched e h t ok counters enc n w s"
  shows "\<exists>s' hdl v. ocoms_mca_base_pvar_handle_update e s h = Some (OCOMS_SUCCESS, s') \<and> watched e h t ok counters enc n w s' \<and>
    ps_mca s' = ps_mca s \<and> the_handle s' h = Some (hdl, v) \<and> ph_current hdl = Some (map enc (sw_total w)) \<and> ph_count hdl = int n \<and>
    (\<exists>hdl0. the_handle s h = Some (hdl0, v) \<and> ph_obj hdl0 = ph_obj hdl \<and> ph_started hdl0 = ph_started hdl)"
  using assms
proof (rule watchedE)
  fix hdl v current before tmp
  assume h: "the_handle s h = Some (hdl, v)" and c: "counting e t ok counters enc n (ph_obj hdl) v"
    and hdl: "ph_count hdl = int n" "ph_current hdl = Some (map enc current)" "ph_last hdl = Some (map enc before)" "ph_tmp hdl = Some tmp"
    and len: "length current = n" "length before = n" "length tmp = n"
    and ok: "ok (vs_store (ps_mca s))" and now: "sw_now w = counters (vs_store (ps_mca s))" "length (sw_now w) = n"
    and run: "sw_running w = ph_started hdl"
    and total: "sw_total w = (if ph_started hdl then grown current (sw_now w) before else current)"
  show ?thesis
  proof (cases "ph_started hdl")
    case True
    let ?hdl = "hdl\<lparr>ph_current := Some (map enc (grown current (sw_now w) before)), ph_tmp := Some (map enc before), ph_last := Some (map enc (sw_now w))\<rparr>"
    let ?s = "s\<lparr>ps_handles := (ps_handles s)[h := Some ?hdl]\<rparr>"
    have u: "ocoms_mca_base_pvar_handle_update e s h = Some (OCOMS_SUCCESS, ?s)"
      using update_running [OF h c hdl len _ ok True] now by simp
    have h': "the_handle ?s h = Some (?hdl, v)" using h by (rule the_handle_upd) simp
    have "watched e h t ok counters enc n w ?s"
      unfolding watched_def
      by (rule exI [of _ ?hdl], rule exI [of _ v], rule exI [of _ "grown current (sw_now w) before"], rule exI [of _ "sw_now w"],
          rule exI [of _ "map enc before"]) (use h' c hdl len ok now run total True in \<open>simp add: grown_self\<close>)
    then show ?thesis using u h' h total True hdl by auto
  next
    case False
    then show ?thesis using update_stopped [OF h c] assms h hdl total by auto
  qed
qed

lemma watched_start:
  assumes "watched e h t ok counters enc n w s"
  shows "\<exists>s'. handle_op_run e h Op_start s = Some (fst (stopwatch_op counters enc Op_start w), s') \<and>
    watched e h t ok counters enc n (snd (stopwatch_op counters enc Op_start w)) s'"
  using assms
proof (rule watchedE)
  fix hdl v current before tmp
  assume h: "the_handle s h = Some (hdl, v)" and c: "counting e t ok counters enc n (ph_obj hdl) v"
    and hdl: "ph_count hdl = int n" "ph_current hdl = Some (map enc current)" "ph_last hdl = Some (map enc before)" "ph_tmp hdl = Some tmp"
    and len: "length current = n" "length before = n" "length tmp = n"
    and ok: "ok (vs_store (ps_mca s))" and now: "sw_now w = counters (vs_store (ps_mca s))" "length (sw_now w) = n"
    and run: "sw_running w = ph_started hdl"
    and total: "sw_total w = (if ph_started hdl then grown current (sw_now w) before else current)"
  show ?thesis
  proof (cases "ph_started hdl")
    case True
    then show ?thesis using assms run h by (simp add: ocoms_mca_base_pvar_handle_start_def quiet_def)
  next
    case False
    let ?hdl = "hdl\<lparr>ph_started := True, ph_last := Some (map enc (sw_now w))\<rparr>"
    let ?s1 = "s\<lparr>ps_handles := (ps_handles s)[h := Some (hdl\<lparr>ph_started := True\<rparr>)]\<rparr>"
    let ?s = "s\<lparr>ps_handles := (ps_handles s)[h := Some ?hdl]\<rparr>"
    obtain k where k: "ocoms_mca_base_pvar_notify e hdl v MCA_BASE_PVAR_HANDLE_START = Some (OCOMS_SUCCESS, k)" using countingD(6) [OF c] by blast
    have s1: "the_handle ?s1 h = Some (hdl\<lparr>ph_started := True\<rparr>, v)" using h by (rule the_handle_upd) simp
    have h': "the_handle ?s h = Some (?hdl, v)" using h by (rule the_handle_upd) simp
    have get: "call_get_value e ?s1 v (ph_obj hdl) (Some (map enc before)) = Some (OCOMS_SUCCESS, map enc (sw_now w))"
      using countingD(5) [OF c, of ?s1 "map enc before"] ok len now by simp
    have r: "ocoms_mca_base_pvar_handle_start e s h = Some (OCOMS_SUCCESS, ?s)"
      using countingD(1-4) [OF c] False hdl
      by (simp add: ocoms_mca_base_pvar_handle_start_def h k upd_handle_eq [OF h] upd_handle_eq [OF s1] get)
    have "watched e h t ok counters enc n (w\<lparr>sw_running := True\<rparr>) ?s"
      unfolding watched_def
      by (rule exI [of _ ?hdl], rule exI [of _ v], rule exI [of _ current], rule exI [of _ "sw_now w"], rule exI [of _ tmp])
        (use h' c hdl len ok now run total False in \<open>simp add: grown_self\<close>)
    then show ?thesis using r False run by (simp add: quiet_def)
  qed
qed

lemma watched_stop:
  assumes "watched e h t ok counters enc n w s"
  shows "\<exists>s'. handle_op_run e h Op_stop s = Some (fst (stopwatch_op counters enc Op_stop w), s') \<and>
    watched e h t ok counters enc n (snd (stopwatch_op counters enc Op_stop w)) s'"
proof -
  obtain s1 hdl v hdl0 where u: "ocoms_mca_base_pvar_handle_update e s h = Some (OCOMS_SUCCESS, s1)"
    and w1: "watched e h t ok counters enc n w s1" and h1: "the_handle s1 h = Some (hdl, v)" and m: "ps_mca s1 = ps_mca s"
    and cur: "ph_current hdl = Some (map enc (sw_total w))" and h0: "the_handle s h = Some (hdl0, v)" "ph_started hdl0 = ph_started hdl"
    using watched_update [OF assms] by blast
  show ?thesis
    using w1
  proof (rule watchedE)
    fix hdl' v' current before tmp
    assume h: "the_handle s1 h = Some (hdl', v')" and c': "counting e t ok counters enc n (ph_obj hdl') v'"
      and hdl': "ph_count hdl' = int n" "ph_current hdl' = Some (map enc current)" "ph_last hdl' = Some (map enc before)" "ph_tmp hdl' = Some tmp"
      and len: "length current = n" "length before = n" "length tmp = n"
      and ok: "ok (vs_store (ps_mca s1))" and now: "sw_now w = counters (vs_store (ps_mca s1))" "length (sw_now w) = n"
      and run': "sw_running w = ph_started hdl'"
      and total: "sw_total w = (if ph_started hdl' then grown current (sw_now w) before else current)"
    have same: "hdl' = hdl" "v' = v" using h h1 by simp_all
    note c = c' [unfolded same] and hdl = hdl' [unfolded same] and run = run' [unfolded same]
    show ?thesis
    proof (cases "ph_started hdl")
      case False
      then show ?thesis using assms run h0 countingD(1-4) [OF c] by (simp add: ocoms_mca_base_pvar_handle_stop_def quiet_def handle_running_def)
    next
      case True
      let ?hdl = "hdl\<lparr>ph_started := False\<rparr>"
      let ?s = "s1\<lparr>ps_handles := (ps_handles s1)[h := Some ?hdl]\<rparr>"
      obtain k where k: "ocoms_mca_base_pvar_notify e hdl v MCA_BASE_PVAR_HANDLE_STOP = Some (OCOMS_SUCCESS, k)" using countingD(6) [OF c] by blast
      have h': "the_handle ?s h = Some (?hdl, v)" using h1 by (rule the_handle_upd) simp
      have r: "ocoms_mca_base_pvar_handle_stop e s h = Some (OCOMS_SUCCESS, ?s)"
        using countingD(1-4) [OF c] True
        by (simp add: ocoms_mca_base_pvar_handle_stop_def h0 h1 handle_running_def u k upd_handle_eq [OF h1])
      have lt: "length (sw_total w) = n" using total len now by simp
      have "watched e h t ok counters enc n (w\<lparr>sw_running := False\<rparr>) ?s"
        unfolding watched_def
        by (rule exI [of _ ?hdl], rule exI [of _ v], rule exI [of _ "sw_total w"], rule exI [of _ before], rule exI [of _ tmp])
          (use h' c hdl len ok now cur lt in simp)
      then show ?thesis using r True run by (simp add: quiet_def)
    qed
  qed
qed

lemma watched_read:
  assumes "watched e h t ok counters enc n w s" and "length buffer = n"
  shows "\<exists>s'. handle_op_run e h (Op_read buffer) s = Some (fst (stopwatch_op counters enc (Op_read buffer) w), s') \<and>
    watched e h t ok counters enc n (snd (stopwatch_op counters enc (Op_read buffer) w)) s'"
proof -
  obtain s1 hdl v hdl0 where u: "ocoms_mca_base_pvar_handle_update e s h = Some (OCOMS_SUCCESS, s1)"
    and w1: "watched e h t ok counters enc n w s1" and h1: "the_handle s1 h = Some (hdl, v)"
    and cur: "ph_current hdl = Some (map enc (sw_total w))" "ph_count hdl = int n" and h0: "the_handle s h = Some (hdl0, v)"
    using watched_update [OF assms(1)] by blast
  have c: "counting e t ok counters enc n (ph_obj hdl) v" using w1 h1 by (auto elim!: watchedE)
  have lt: "length (sw_total w) = n" using w1 by (auto elim!: watchedE)
  show ?thesis using w1 countingD(1-4) [OF c] cur lt assms(2)
    by (simp add: ocoms_mca_base_pvar_handle_read_value_def h0 u h1 reads_cached_def)
qed

lemma watched_reset:
  assumes "watched e h t ok counters enc n w s"
  shows "\<exists>s'. handle_op_run e h Op_reset s = Some (fst (stopwatch_op counters enc Op_reset w), s') \<and>
    watched e h t ok counters enc n (snd (stopwatch_op counters enc Op_reset w)) s'"
  using assms
proof (rule watchedE)
  fix hdl v current before tmp
  assume h: "the_handle s h = Some (hdl, v)" and c: "counting e t ok counters enc n (ph_obj hdl) v"
    and hdl: "ph_count hdl = int n" "ph_current hdl = Some (map enc current)" "ph_last hdl = Some (map enc before)" "ph_tmp hdl = Some tmp"
    and len: "length current = n" "length before = n" "length tmp = n"
    and ok: "ok (vs_store (ps_mca s))" and now: "sw_now w = counters (vs_store (ps_mca s))" "length (sw_now w) = n"
    and run: "sw_running w = ph_started hdl"
    and total: "sw_total w = (if ph_started hdl then grown current (sw_now w) before else current)"
  let ?zero = "replicate n (0 :: 'a)"
  let ?hdl1 = "hdl\<lparr>ph_current := Some (replicate n (enc 0))\<rparr>"
  let ?s1 = "s\<lparr>ps_handles := (ps_handles s)[h := Some ?hdl1]\<rparr>"
  let ?hdl = "?hdl1\<lparr>ph_last := Some (map enc (if ph_started hdl then sw_now w else before))\<rparr>"
  let ?s = "s\<lparr>ps_handles := (ps_handles s)[h := Some ?hdl]\<rparr>"
  have s1: "the_handle ?s1 h = Some (?hdl1, v)" using h by (rule the_handle_upd) simp
  have h': "the_handle ?s h = Some (?hdl, v)" using h by (rule the_handle_upd) simp
  have get: "call_get_value e ?s1 v (ph_obj hdl) (Some (map enc before)) = Some (OCOMS_SUCCESS, map enc (sw_now w))"
    using countingD(5) [OF c, of ?s1 "map enc before"] ok len now by simp
  have lt: "length (sw_total w) = n" using total len now by simp
  have zero: "map (\<lambda>_. 0) (sw_total w) = ?zero" using lt by (simp add: map_replicate_const)
  have stopped: "?hdl = ?hdl1" if "\<not> ph_started hdl" using that hdl by (simp add: ocoms_mca_base_pvar_handle_t.equality)
  have r: "ocoms_mca_base_pvar_handle_reset e s h = Some (OCOMS_SUCCESS, ?s)"
  proof (cases "ph_started hdl")
    case True
    then show ?thesis using countingD(1-4) [OF c] hdl len
      by (simp add: ocoms_mca_base_pvar_handle_reset_def h handle_running_def upd_handle_eq [OF h] upd_handle_eq [OF s1] get zero_enc)
  next
    case False
    show ?thesis using countingD(1-4) [OF c] hdl len False unfolding stopped [OF False]
      by (simp add: ocoms_mca_base_pvar_handle_reset_def h handle_running_def upd_handle_eq [OF h] zero_enc)
  qed
  have "watched e h t ok counters enc n (w\<lparr>sw_total := ?zero\<rparr>) ?s"
    unfolding watched_def
    by (rule exI [of _ ?hdl], rule exI [of _ v], rule exI [of _ ?zero], rule exI [of _ "if ph_started hdl then sw_now w else before"], rule exI [of _ tmp])
      (use h' c hdl len ok now run in \<open>simp add: grown_self\<close>)
  then show ?thesis using r zero by (simp add: quiet_def)
qed

lemma watched_count:
  assumes "watched e h t ok counters enc n w s" and "ok st" and "length (counters st) = n"
  shows "watched e h t ok counters enc n (snd (stopwatch_op counters enc (Op_count st) w)) (s\<lparr>ps_mca := (ps_mca s)\<lparr>vs_store := st\<rparr>\<rparr>)"
  using assms(1)
proof (rule watchedE)
  fix hdl v current before tmp
  assume h: "the_handle s h = Some (hdl, v)" and c: "counting e t ok counters enc n (ph_obj hdl) v"
    and hdl: "ph_count hdl = int n" "ph_current hdl = Some (map enc current)" "ph_last hdl = Some (map enc before)" "ph_tmp hdl = Some tmp"
    and len: "length current = n" "length before = n" "length tmp = n"
    and ok: "ok (vs_store (ps_mca s))" and now: "sw_now w = counters (vs_store (ps_mca s))" "length (sw_now w) = n"
    and run: "sw_running w = ph_started hdl"
    and total: "sw_total w = (if ph_started hdl then grown current (sw_now w) before else current)"
  show ?thesis
    unfolding watched_def
    by (rule exI [of _ hdl], rule exI [of _ v], rule exI [of _ current], rule exI [of _ before], rule exI [of _ tmp])
      (use h c hdl len now run total assms(2,3) in \<open>simp add: grown_grown\<close>)
qed

lemma watched_step:
  assumes fits: "op_fits ok n op" and counters: "\<And>st. ok st \<Longrightarrow> length (counters st) = n" and w: "watched e h t ok counters enc n w s"
  shows "\<exists>s'. handle_op_run e h op s = Some (fst (stopwatch_op counters enc op w), s') \<and>
    watched e h t ok counters enc n (snd (stopwatch_op counters enc op w)) s'"
proof (cases op)
  case Op_update
  then show ?thesis using watched_update [OF w] by (auto simp: quiet_def)
next
  case (Op_read buffer)
  then show ?thesis using watched_read [OF w] fits by simp
next
  case (Op_count st)
  then show ?thesis using watched_count [OF w, of st] counters [of st] fits by simp
qed (use watched_start [OF w] watched_stop [OF w] watched_reset [OF w] in simp_all)

lemma watched_run:
  assumes "watched e h t ok counters enc n w s" and "list_all (op_fits ok n) ops" and "\<And>st. ok st \<Longrightarrow> length (counters st) = n"
  shows "\<exists>s'. run_outputs (handle_op_run e h) ops s = Some (spec_outputs (stopwatch_op counters enc) ops w, s')"
  by (rule simulation_outputs [where ok = "op_fits ok n" and R = "watched e h t ok counters enc n", OF _ assms(1,2)])
    (rule watched_step [OF _ assms(3)])

end

lemma list_take_out_new: "h \<notin> set hs \<Longrightarrow> list_take_out dbg h hs = (if dbg then Some hs else None)"
  by (simp add: list_take_out_def)

context sum_type begin

lemma buffers_counting:
  assumes h: "rdn (ps_handles s) h = Some (Some hdl)" and kind: "\<not> ocoms_mca_base_pvar_is_continuous v" "ocoms_mca_base_pvar_is_sum v" "pvar_type v = t"
  shows "handle_buffers e s h v obj n = Some (if calloc_ok e 3 n
     then Inr (None, s\<lparr>ps_handles := (ps_handles s)[h := Some (hdl\<lparr>ph_current := Some (replicate (nat n) (enc 0)),
       ph_tmp := Some (replicate (nat n) (enc 0)), ph_last := Some (replicate (nat n) (enc 0))\<rparr>)]\<rparr>)
     else Inl OCOMS_ERR_OUT_OF_RESOURCE)"
proof -
  have "h < length (ps_handles s)" using h by (auto simp: rdn_def split: if_splits)
  then show ?thesis using h kind by (simp add: handle_buffers_def Let_def upd_handle_def zero_buffer_def zero_enc)
qed

lemma alloc_watched:
  assumes r: "ocoms_mca_base_pvar_handle_alloc e s obj_new x index obj count0 = Some (OCOMS_SUCCESS, Some h, k, s1)"
    and get: "ocoms_mca_base_pvar_get_internal (ps_mca s) index False = Some (OCOMS_SUCCESS, Some a)"
    and v: "rdn (vs_pheap (ps_mca s)) a = Some v"
    and c: "counting e t ok counters enc (nat k) (if pvar_bind v = 0 then None else obj) v"
    and ok: "ok (vs_store (ps_mca s))" "length (counters (vs_store (ps_mca s))) = nat k"
  shows "watched e h t ok counters enc (nat k)
    \<lparr>sw_running = False, sw_total = replicate (nat k) 0, sw_now = counters (vs_store (ps_mca s))\<rparr> s1"
proof -
  define obj' where "obj' = (if pvar_bind v = 0 then None else obj)"
  define h0 where "h0 = length (ps_handles s)"
  define s0 where "s0 = s\<lparr>ps_handles := ps_handles s @ [Some (new_handle a obj')]\<rparr>"
  note kind = countingD(1-4) [OF c]
  obtain kc where nt: "ocoms_mca_base_pvar_notify e (new_handle a obj') v MCA_BASE_PVAR_HANDLE_BIND = Some (OCOMS_SUCCESS, kc)"
    using countingD(6) [OF c, of "new_handle a obj'"] by (auto simp: new_handle_def obj'_def)
  have not_bound: "pvar_bind v \<noteq> 0 \<longrightarrow> obj \<noteq> None" and new: "obj_new"
    using r by (auto simp: ocoms_mca_base_pvar_handle_alloc_def get v rc_defs Let_def split: if_splits)
  have nb: "(pvar_bind v \<noteq> 0 \<and> obj = None) = False" using not_bound by auto
  have "do {
      let n = (case kc of None \<Rightarrow> count0 | Some x \<Rightarrow> x);
      (ret, s2) \<leftarrow> complete_handle e s0 x h0 a v obj' n;
      Some (ret, Some h0, n, s2) } = Some (OCOMS_SUCCESS, Some h, k, s1)"
    using r unfolding ocoms_mca_base_pvar_handle_alloc_def get
    by (simp add: v nb new nt Let_def obj'_def [symmetric] h0_def [symmetric] s0_def [symmetric] del: de_Morgan_conj not_None_eq)
      (simp add: OCOMS_SUCCESS_def s0_def)
  then have rest: "complete_handle e s0 x h0 a v obj' k = Some (OCOMS_SUCCESS, s1)" and h: "h = h0"
    by (auto simp: Let_def bind_eq_Some_conv)
  define zero where "zero = replicate (nat k) (enc 0)"
  define hdl where "hdl = (new_handle a obj')\<lparr>ph_count := k, ph_current := Some zero, ph_tmp := Some zero, ph_last := Some zero\<rparr>"
  define s2 where "s2 = s\<lparr>ps_handles := ps_handles s @ [Some (new_handle a obj'\<lparr>ph_count := k\<rparr>)]\<rparr>"
  have u2: "upd_handle h0 (\<lambda>hdl. hdl\<lparr>ph_count := k\<rparr>) s0 = Some s2"
    by (simp add: upd_handle_def s0_def s2_def h0_def rdn_def)
  have s2: "rdn (ps_handles s2) h0 = Some (Some (new_handle a obj'\<lparr>ph_count := k\<rparr>))" by (simp add: s2_def h0_def rdn_def)
  have "calloc_ok e 3 k"
    using rest u2 by (auto simp: complete_handle_def buffers_counting [OF s2 kind(2-4)] bind_eq_Some_conv split: if_splits)
  then have "handle_buffers e s2 h0 v obj' k = Some (Inr (None, s2\<lparr>ps_handles := ps_handles s @ [Some hdl]\<rparr>))"
    using buffers_counting [OF s2 kind(2-4), of e obj' k] by (simp add: hdl_def zero_def) (simp add: s2_def h0_def)
  then have enter: "enter_handle (s2\<lparr>ps_handles := ps_handles s @ [Some hdl]\<rparr>) x a h0 v = Some s1"
    using rest u2 by (simp add: complete_handle_def bind_eq_Some_conv)
  have last: "rdn (ps_handles s @ [Some hdl]) h0 = Some (Some hdl)" by (simp add: h0_def rdn_def)
  obtain m hss where m: "upd_pvar a (\<lambda>v. v\<lparr>pvar_bound_handles := pvar_bound_handles v @ [h0]\<rparr>) (ps_mca s) = Some m"
    and s1': "s1 = s\<lparr>ps_handles := ps_handles s @ [Some (hdl\<lparr>ph_session := Some x\<rparr>)], ps_mca := m, ps_sessions := hss\<rparr>"
    using enter kind(2) by (clarsimp simp: enter_handle_def upd_handle_def last bind_eq_Some_conv s2_def)
      (simp add: h0_def)
  define b where "b = pvar_bound_handles v @ [h0]"
  have s1: "ps_handles s1 = ps_handles s @ [Some (hdl\<lparr>ph_session := Some x\<rparr>)]" "vs_store (ps_mca s1) = vs_store (ps_mca s)"
      "rdn (vs_pheap (ps_mca s1)) a = Some (v\<lparr>pvar_bound_handles := b\<rparr>)"
    using m v by (auto simp: s1' upd_pvar_def b_def rdn_def split: if_splits)
  have c': "counting e t ok counters enc (nat k) obj' (v\<lparr>pvar_bound_handles := b\<rparr>)"
    using c unfolding counting_def obj'_def
    by (simp add: ocoms_mca_base_pvar_is_invalid_def ocoms_mca_base_pvar_is_continuous_def ocoms_mca_base_pvar_is_sum_def)
  have "0 \<le> k" using \<open>calloc_ok e 3 k\<close> by (simp add: calloc_ok_def)
  have h1: "the_handle s1 h0 = Some (hdl\<lparr>ph_session := Some x\<rparr>, v\<lparr>pvar_bound_handles := b\<rparr>)"
    using s1(3) by (simp add: the_handle_def s1(1) h0_def rdn_def [of "_ @ _"] hdl_def new_handle_def)
  show ?thesis
    unfolding watched_def h
    by (intro exI [of _ "hdl\<lparr>ph_session := Some x\<rparr>"] exI [of _ "v\<lparr>pvar_bound_handles := b\<rparr>"] exI [of _ "replicate (nat k) 0"] exI [of _ zero])
      (use c' ok s1(2) h1 \<open>0 \<le> k\<close> in \<open>simp add: hdl_def new_handle_def zero_def\<close>)
qed

lemma alloc_run:
  assumes "ocoms_mca_base_pvar_handle_alloc e s obj_new x index obj count0 = Some (OCOMS_SUCCESS, Some h, k, s1)"
    and "ocoms_mca_base_pvar_get_internal (ps_mca s) index False = Some (OCOMS_SUCCESS, Some a)"
    and "rdn (vs_pheap (ps_mca s)) a = Some v"
    and "counting e t ok counters enc (nat k) (if pvar_bind v = 0 then None else obj) v"
    and "ok (vs_store (ps_mca s))" and counters: "\<And>st. ok st \<Longrightarrow> length (counters st) = nat k"
    and "list_all (op_fits ok (nat k)) ops"
  shows "\<exists>s'. run_outputs (handle_op_run e h) ops s1 = Some (spec_outputs (stopwatch_op counters enc) ops
    \<lparr>sw_running = False, sw_total = replicate (nat k) 0, sw_now = counters (vs_store (ps_mca s))\<rparr>, s')"
  using alloc_watched [where ok = ok and counters = counters, OF assms(1-5) counters [OF assms(5)]] assms(7) counters
  by (rule watched_run)

end

interpretation sum32: sum_type MCA_BASE_VAR_TYPE_UNSIGNED_INT Int_store
  by unfold_locales (simp_all add: sum_value_def zero_value_def)

interpretation sum64: sum_type MCA_BASE_VAR_TYPE_UNSIGNED_LONG Long_store
  by unfold_locales (simp_all add: sum_value_def zero_value_def)

interpretation sum64_long: sum_type MCA_BASE_VAR_TYPE_UNSIGNED_LONG_LONG Long_store
  by unfold_locales (simp_all add: sum_value_def zero_value_def)

section \<open>Handles are stopwatches\<close>

text \<open>
  C32: A handle on a counting variable of an unsigned 64-bit type is a stopwatch: whatever the
  sequence of starting, stopping, updating, reading and resetting it and of changes of the counters,
  every operation returns what the stopwatch returns; in particular a read gives what the counters
  have grown, modulo the word size, while the handle was running since the last reset.
\<close>

theorem handle_is_stopwatch:
  assumes "ocoms_mca_base_pvar_handle_alloc e s obj_new x index obj count0 = Some (OCOMS_SUCCESS, Some h, k, s1)"
    and "ocoms_mca_base_pvar_get_internal (ps_mca s) index False = Some (OCOMS_SUCCESS, Some a)"
    and "rdn (vs_pheap (ps_mca s)) a = Some v"
    and "t = MCA_BASE_VAR_TYPE_UNSIGNED_LONG \<or> t = MCA_BASE_VAR_TYPE_UNSIGNED_LONG_LONG"
    and "counting e t ok counters Long_store (nat k) (if pvar_bind v = 0 then None else obj) v"
    and "ok (vs_store (ps_mca s))" and "\<And>st. ok st \<Longrightarrow> length (counters st) = nat k"
    and "list_all (op_fits ok (nat k)) ops"
  shows "\<exists>s'. run_outputs (handle_op_run e h) ops s1 = Some (spec_outputs (stopwatch_op counters Long_store) ops
    \<lparr>sw_running = False, sw_total = replicate (nat k) 0, sw_now = counters (vs_store (ps_mca s))\<rparr>, s')"
  using sum64.alloc_run [where ok = ok and counters = counters, OF assms(1-3) _ assms(6-8)]
    sum64_long.alloc_run [where ok = ok and counters = counters, OF assms(1-3) _ assms(6-8)] assms(4,5)
  by blast

definition sample_pvar :: ocoms_mca_base_pvar_t where
  "sample_pvar = ocoms_mca_base_pvar_contructor\<lparr>pvar_name := Some ''sent'', pvar_var_class := MCA_BASE_PVAR_CLASS_COUNTER,
     pvar_type := MCA_BASE_VAR_TYPE_UNSIGNED_LONG, pvar_get_value := Default_fn, pvar_notify := Default_fn, pvar_ctx := Some 7\<rparr>"

definition sample_pvar_env :: pvar_env where
  "sample_pvar_env = plain_env plain_ctx"

definition sample_pstate :: pstate where
  "sample_pstate = (let s = with_pvar sample_pvar in s\<lparr>ps_mca := (ps_mca s)\<lparr>vs_store := [7 \<mapsto> Long_store 3]\<rparr>\<rparr>)"

definition sample_holds :: "store \<Rightarrow> bool" where
  "sample_holds st = (case st 7 of Some (Long_store w) \<Rightarrow> True | _ \<Rightarrow> False)"

definition sample_counter :: "store \<Rightarrow> 64 word list" where
  "sample_counter st = [case st 7 of Some (Long_store w) \<Rightarrow> w | _ \<Rightarrow> 0]"

lemma sample_counting:
  "counting sample_pvar_env MCA_BASE_VAR_TYPE_UNSIGNED_LONG sample_holds sample_counter Long_store 1 None sample_pvar"
  by (auto simp: counting_def sample_pvar_def ocoms_mca_base_pvar_contructor_def ocoms_mca_base_pvar_is_invalid_def
      ocoms_mca_base_pvar_is_continuous_def ocoms_mca_base_pvar_is_sum_def isset_def ocoms_mca_base_pvar_notify_def
      ocoms_mca_base_pvar_notify_ignore_def call_get_value_def ocoms_mca_base_pvar_default_get_value_def sample_holds_def sample_counter_def
      has_type_def length_Suc_conv split: option.splits ocoms_mca_base_var_storage_t.splits)

definition sample_handle_ops :: "handle_op list" where
  "sample_handle_ops = [Op_start, Op_count [7 \<mapsto> Long_store 10], Op_read [Long_store 0], Op_stop, Op_count [7 \<mapsto> Long_store 50],
     Op_read [Long_store 0], Op_start, Op_start, Op_count [7 \<mapsto> Long_store 49], Op_read [Long_store 0]]"

theorem handle_is_stopwatch_witness:
  "\<exists>s1 s'. ocoms_mca_base_pvar_handle_alloc sample_pvar_env sample_pstate True 0 0 None 0 = Some (OCOMS_SUCCESS, Some 0, 1, s1) \<and>
     run_outputs (handle_op_run sample_pvar_env 0) sample_handle_ops s1 = Some ([(OCOMS_SUCCESS, []), (OCOMS_SUCCESS, []),
       (OCOMS_SUCCESS, [Long_store 7]), (OCOMS_SUCCESS, []), (OCOMS_SUCCESS, []), (OCOMS_SUCCESS, [Long_store 7]), (OCOMS_SUCCESS, []),
       (OCOMS_ERR_NOT_SUPPORTED, []), (OCOMS_SUCCESS, []), (OCOMS_SUCCESS, [Long_store 6])], s')"
proof -
  have kind: "\<not> ocoms_mca_base_pvar_is_invalid sample_pvar" "\<not> ocoms_mca_base_pvar_is_continuous sample_pvar"
    "ocoms_mca_base_pvar_is_sum sample_pvar" "pvar_type sample_pvar = MCA_BASE_VAR_TYPE_UNSIGNED_LONG"
    using countingD(1-4) [OF sample_counting] by auto
  have get: "ocoms_mca_base_pvar_get_internal (ps_mca sample_pstate) 0 False = Some (OCOMS_SUCCESS, Some 0)"
    using kind(1) by (simp add: sample_pstate_def with_pvar_def ocoms_mca_base_pvar_get_internal_def ocoms_pointer_array_get_item_def rd_def
        ocoms_mca_base_pvar_is_invalid_def)
  have v: "rdn (vs_pheap (ps_mca sample_pstate)) 0 = Some sample_pvar" by (simp add: sample_pstate_def with_pvar_def)
  have bind: "pvar_bind sample_pvar = 0" by (simp add: sample_pvar_def ocoms_mca_base_pvar_contructor_def)
  have nt: "ocoms_mca_base_pvar_notify sample_pvar_env hdl sample_pvar MCA_BASE_PVAR_HANDLE_BIND = Some (OCOMS_SUCCESS, Some 1)" for hdl
    using kind(1) by (simp add: ocoms_mca_base_pvar_notify_def ocoms_mca_base_pvar_notify_ignore_def sample_pvar_def)
  have parts: "ps_handles sample_pstate = []" "ps_sessions sample_pstate = [[]]" "vs_pheap (ps_mca sample_pstate) = [sample_pvar]"
    "calloc_ok sample_pvar_env 3 1" "0 < (1 :: int)"
    by (simp_all add: sample_pstate_def with_pvar_def calloc_ok_def sample_pvar_env_def plain_env_def list_all_iff)
  have new: "OCOMS_SUCCESS = 0" by (rule OCOMS_SUCCESS_def)
  obtain s1 where alloc: "ocoms_mca_base_pvar_handle_alloc sample_pvar_env sample_pstate True 0 0 None 0 = Some (OCOMS_SUCCESS, Some 0, 1, s1)"
    using kind by (auto simp: ocoms_mca_base_pvar_handle_alloc_def get v bind nt complete_handle_def handle_buffers_def enter_handle_def
        upd_handle_def upd_pvar_def Let_def parts new)
  show ?thesis
    using handle_is_stopwatch [OF alloc get v disjI1 [OF refl], of sample_holds sample_counter sample_handle_ops] sample_counting alloc bind
    by (auto simp: sample_handle_ops_def sample_holds_def sample_counter_def sample_pstate_def with_pvar_def grown_def)
qed

end
