(* ===== verification/Free_List.thy ===== *)
theory Free_List
  imports Atomic_Lifo
begin

text \<open>
  Free lists of \<open>ocoms/util/ocoms_free_list.c\<close> and \<open>.h\<close>: pools of descriptors that are cut from chunks of
  memory and kept on a stack.  Addresses and sizes are 64-bit words.  The stack is the sequence of its
  items (theory \<open>Atomic_Lifo\<close> shows that the concurrent one is linearizable to it); what the items hold
  besides the payload pointers, and blocking on an empty list, are left out.
\<close>

unbundle bit_operations_syntax

section \<open>State\<close>

type_synonym addr = "64 word"
type_synonym size = "64 word"

text \<open>
  A chunk is a block of memory, by its address and size.  Of an item the list keeps the pointer to its
  payload and the registration of that memory.
\<close>

record fl_config =
  fl_max_to_alloc :: size
  fl_num_per_alloc :: size
  fl_frag_size :: size
  fl_frag_alignment :: size
  fl_payload_buffer_size :: size
  fl_payload_buffer_alignment :: size
  fl_class_sizeof :: size
  fl_has_alloc :: bool

record ocoms_free_list_t = fl_config +
  fl_items :: "addr list"
  fl_num_allocated :: size
  fl_num_waiting :: size
  fl_allocations :: "(addr \<times> size) list"
  fl_info :: "addr \<Rightarrow> (addr \<times> addr) option"

text \<open>
  What it is given: \<open>malloc\<close>, which knows the blocks that are in use and returns the null address
  when it fails; the allocator of the payload, which also returns the registration; and the size of
  \<open>ocoms_free_list_item_t\<close>.
\<close>

record fl_ctx =
  fc_malloc :: "(addr \<times> size) list \<Rightarrow> size \<Rightarrow> addr"
  fc_alloc :: "(addr \<times> size) list \<Rightarrow> size \<Rightarrow> size \<Rightarrow> addr \<times> addr"
  fc_sizeof_item :: size

definition ocoms_free_list_construct :: "fl_ctx \<Rightarrow> ocoms_free_list_t" where
  "ocoms_free_list_construct c = \<lparr>fl_max_to_alloc = 0, fl_num_per_alloc = 0, fl_frag_size = fc_sizeof_item c, fl_frag_alignment = 0,
     fl_payload_buffer_size = 0, fl_payload_buffer_alignment = 0, fl_class_sizeof = fc_sizeof_item c, fl_has_alloc = False,
     fl_items = [], fl_num_allocated = 0, fl_num_waiting = 0, fl_allocations = [], fl_info = Map.empty\<rparr>"

section \<open>Growing\<close>

definition OCOMS_ALIGN :: "64 word \<Rightarrow> 64 word \<Rightarrow> 64 word" where
  "OCOMS_ALIGN x a = (x + (a - 1)) AND NOT (a - 1)"

text \<open>The loop that makes items of a chunk and pushes them on the list.\<close>

fun carve_items :: "nat \<Rightarrow> size \<Rightarrow> size \<Rightarrow> addr \<Rightarrow> addr \<Rightarrow> addr \<Rightarrow> ocoms_free_list_t \<Rightarrow> ocoms_free_list_t" where
  "carve_items 0 head_size elem_size reg ptr payload fl = fl"
| "carve_items (Suc n) head_size elem_size reg ptr payload fl =
     carve_items n head_size elem_size reg (ptr + head_size) (payload + elem_size)
       (fl\<lparr>fl_info := (fl_info fl)(ptr \<mapsto> (payload, reg)), fl_items := ptr # fl_items fl\<rparr>)"

text \<open>The size of a descriptor in a chunk, and the number of items a request is reduced to.\<close>

definition fl_head_size :: "'a fl_config_scheme \<Rightarrow> size" where
  "fl_head_size fl = OCOMS_ALIGN (if fl_has_alloc fl then fl_class_sizeof fl else fl_frag_size fl) (fl_frag_alignment fl)"

definition fl_request :: "ocoms_free_list_t \<Rightarrow> size \<Rightarrow> size" where
  "fl_request fl num_elements =
     (if 0 < fl_max_to_alloc fl \<and> fl_max_to_alloc fl < fl_num_allocated fl + num_elements
      then fl_max_to_alloc fl - fl_num_allocated fl else num_elements)"

text \<open>The payload of the items of a chunk: the size of one, the address of the first, the registration.\<close>

definition fl_payload :: "fl_ctx \<Rightarrow> ocoms_free_list_t \<Rightarrow> size \<Rightarrow> size \<times> addr \<times> addr" where
  "fl_payload c fl n =
     (let elem_size = (if fl_has_alloc fl then OCOMS_ALIGN (fl_payload_buffer_size fl) (fl_payload_buffer_alignment fl) else 0)
      in if elem_size \<noteq> 0 then (elem_size, fc_alloc c (fl_allocations fl) (n * elem_size) (fl_payload_buffer_alignment fl)) else (0, 0, 0))"

definition ocoms_free_list_grow :: "fl_ctx \<Rightarrow> ocoms_free_list_t \<Rightarrow> size \<Rightarrow> int \<times> ocoms_free_list_t" where
  "ocoms_free_list_grow c fl num_elements =
     (let n = fl_request fl num_elements in
      if n = 0 then (OCOMS_ERR_TEMP_OUT_OF_RESOURCE, fl)
      else
        let head_size = fl_head_size fl;
            alloc_size = n * head_size + fc_sizeof_item c + fl_frag_alignment fl;
            alloc_ptr = fc_malloc c (fl_allocations fl) alloc_size
        in if alloc_ptr = 0 then (OCOMS_ERR_TEMP_OUT_OF_RESOURCE, fl)
           else (case fl_payload c fl n of (elem_size, payload, reg) \<Rightarrow>
             if elem_size \<noteq> 0 \<and> payload = 0 then (OCOMS_ERR_TEMP_OUT_OF_RESOURCE, fl)
             else
               let ptr = OCOMS_ALIGN (alloc_ptr + fc_sizeof_item c) (fl_frag_alignment fl);
                   fl1 = fl\<lparr>fl_allocations := fl_allocations fl @ [(alloc_ptr, alloc_size)]\<rparr>;
                   fl2 = carve_items (unat n) head_size elem_size reg ptr payload fl1
               in (OCOMS_SUCCESS, fl2\<lparr>fl_num_allocated := fl_num_allocated fl2 + n\<rparr>)))"

section \<open>Initialisation\<close>

definition bad_alignment :: "size \<Rightarrow> bool" where
  "bad_alignment a \<longleftrightarrow> a \<le> 1 \<or> a AND (a - 1) \<noteq> 0"

text \<open>Negative numbers of elements become large ones: \<open>size_of_int\<close> is the conversion of \<open>int\<close>.\<close>

definition size_of_int :: "int \<Rightarrow> size" where
  "size_of_int i = word_of_int i"

definition ocoms_free_list_init_ex ::
  "fl_ctx \<Rightarrow> ocoms_free_list_t \<Rightarrow> size \<Rightarrow> size \<Rightarrow> size option \<Rightarrow> int \<Rightarrow> int \<Rightarrow> int \<Rightarrow> bool \<Rightarrow> int \<times> ocoms_free_list_t" where
  "ocoms_free_list_init_ex c fl elem_size alignment elem_class to_alloc max_alloc per_alloc has_alloc =
     (if bad_alignment alignment then (OCOMS_ERROR, fl)
      else
        let frag = (if fl_frag_size fl < elem_size then elem_size else fl_frag_size fl);
            cls = (case elem_class of None \<Rightarrow> fl_class_sizeof fl | Some s \<Rightarrow> s);
            fl1 = fl\<lparr>fl_frag_size := frag, fl_frag_alignment := alignment, fl_class_sizeof := cls,
              fl_payload_buffer_size := frag - cls, fl_payload_buffer_alignment := alignment,
              fl_max_to_alloc := size_of_int max_alloc, fl_num_allocated := 0, fl_num_per_alloc := size_of_int per_alloc,
              fl_has_alloc := has_alloc\<rparr>
        in if to_alloc \<noteq> 0 then ocoms_free_list_grow c fl1 (size_of_int to_alloc) else (OCOMS_SUCCESS, fl1))"

definition ocoms_free_list_init_ex_new ::
  "fl_ctx \<Rightarrow> ocoms_free_list_t \<Rightarrow> size \<Rightarrow> size \<Rightarrow> size option \<Rightarrow> size \<Rightarrow> size \<Rightarrow> int \<Rightarrow> int \<Rightarrow> int \<Rightarrow> bool \<Rightarrow> int \<times> ocoms_free_list_t" where
  "ocoms_free_list_init_ex_new c fl frag_size frag_alignment frag_class payload_size payload_alignment to_alloc max_alloc per_alloc has_alloc =
     (if bad_alignment frag_alignment \<or> (0 < payload_size \<and> bad_alignment payload_alignment) then (OCOMS_ERROR, fl)
      else
        let fl1 = fl\<lparr>fl_frag_size := (if fl_frag_size fl < frag_size then frag_size else fl_frag_size fl),
              fl_class_sizeof := (case frag_class of None \<Rightarrow> fl_class_sizeof fl | Some s \<Rightarrow> s),
              fl_payload_buffer_size := payload_size, fl_max_to_alloc := size_of_int max_alloc, fl_num_allocated := 0,
              fl_num_per_alloc := size_of_int per_alloc, fl_frag_alignment := frag_alignment,
              fl_payload_buffer_alignment := payload_alignment, fl_has_alloc := has_alloc\<rparr>
        in if to_alloc \<noteq> 0 then ocoms_free_list_grow c fl1 (size_of_int to_alloc) else (OCOMS_SUCCESS, fl1))"

section \<open>Getting and returning items\<close>

definition fl_pop :: "ocoms_free_list_t \<Rightarrow> addr option \<times> ocoms_free_list_t" where
  "fl_pop fl = (case fl_items fl of [] \<Rightarrow> (None, fl) | a # as \<Rightarrow> (Some a, fl\<lparr>fl_items := as\<rparr>))"

definition OCOMS_FREE_LIST_GET :: "fl_ctx \<Rightarrow> ocoms_free_list_t \<Rightarrow> int \<times> addr option \<times> ocoms_free_list_t" where
  "OCOMS_FREE_LIST_GET c fl =
     (case fl_pop fl of
        (Some a, fl1) \<Rightarrow> (OCOMS_SUCCESS, Some a, fl1)
      | (None, fl1) \<Rightarrow>
          let (_, fl2) = ocoms_free_list_grow c fl1 (fl_num_per_alloc fl1);
              (item, fl3) = fl_pop fl2
          in (if item = None then OCOMS_ERR_TEMP_OUT_OF_RESOURCE else OCOMS_SUCCESS, item, fl3))"

text \<open>Returning to an empty list wakes those who wait: none, one, or all.\<close>

datatype wakeup = No_wakeup | Signal | Broadcast

definition OCOMS_FREE_LIST_RETURN :: "ocoms_free_list_t \<Rightarrow> addr \<Rightarrow> wakeup \<times> ocoms_free_list_t" where
  "OCOMS_FREE_LIST_RETURN fl item =
     (if fl_items fl = [] \<and> 0 < fl_num_waiting fl then (if fl_num_waiting fl = 1 then Signal else Broadcast) else No_wakeup,
      fl\<lparr>fl_items := item # fl_items fl\<rparr>)"

text \<open>
  Growing in steps until the list has had enough items; fuel bounds the number of steps.  The
  difference of the two sizes is a signed one.
\<close>

definition ssize_diff :: "size \<Rightarrow> size \<Rightarrow> int option" where
  "ssize_diff a b = (let d = sint a - sint b in if - (2 ^ 63) \<le> d \<and> d < 2 ^ 63 then Some d else None)"

fun resize_loop :: "nat \<Rightarrow> fl_ctx \<Rightarrow> ocoms_free_list_t \<Rightarrow> size \<Rightarrow> int \<Rightarrow> (int \<times> ocoms_free_list_t) option" where
  "resize_loop 0 c fl wanted ret = None"
| "resize_loop (Suc fuel) c fl wanted ret = do {
     inc_num \<leftarrow> ssize_diff wanted (fl_num_allocated fl);
     if 0 < inc_num then
        let (ret1, fl1) = ocoms_free_list_grow c fl (fl_num_per_alloc fl)
        in if ret1 \<noteq> OCOMS_SUCCESS then Some (ret1, fl1) else resize_loop fuel c fl1 wanted ret1
     else Some (ret, fl) }"

definition ocoms_free_list_resize :: "fl_ctx \<Rightarrow> ocoms_free_list_t \<Rightarrow> size \<Rightarrow> (int \<times> ocoms_free_list_t) option" where
  "ocoms_free_list_resize c fl wanted =
     (if wanted < fl_num_allocated fl then Some (OCOMS_SUCCESS, fl)
      else resize_loop (Suc (unat wanted)) c fl wanted OCOMS_SUCCESS)"

definition ocoms_free_list_destruct :: "ocoms_free_list_t \<Rightarrow> ocoms_free_list_t" where
  "ocoms_free_list_destruct fl = fl\<lparr>fl_items := [], fl_allocations := []\<rparr>"

section \<open>Alignment\<close>

lemma unat_add_no_wrap: "unat x + unat y < 2 ^ 64 \<Longrightarrow> unat (x + y) = unat x + unat (y :: 64 word)"
  by (simp add: unat_word_ariths(1))

lemma unat_mult_small: "unat x * unat y < 2 ^ 64 \<Longrightarrow> unat (x * y) = unat x * unat (y :: 64 word)"
  by (simp add: unat_word_ariths(2))

lemma unat_less_2p: "unat (x :: 64 word) < 2 ^ 64"
  using unsigned_less [of x] by simp

lemma and_not_mask_eq: "k < 64 \<Longrightarrow> x AND NOT (2 ^ k - 1) = push_bit k (drop_bit k (x :: 64 word))"
  by (rule bit_word_eqI) (auto simp: bit_simps simp flip: mask_eq_exp_minus_1)

lemma unat_pow:
  assumes "k < 64"
  shows "unat (2 ^ k :: 64 word) = 2 ^ k"
proof -
  have "(2::nat) ^ k < 2 ^ 64" using assms by (simp only: power_strict_increasing_iff)
  then have "unat (word_of_nat (2 ^ k) :: 64 word) = 2 ^ k" by (simp only: unsigned_of_nat take_bit_nat_eq_self_iff len_num1) (simp add: take_bit_eq_mod)
  then show ?thesis by simp
qed

lemma OCOMS_ALIGN_ok:
  assumes "unat a = 2 ^ k" and "k < 64" and "unat x + 2 ^ k \<le> 2 ^ 64"
  shows "unat (OCOMS_ALIGN x a) = (unat x + 2 ^ k - 1) div 2 ^ k * 2 ^ k"
proof -
  have a: "a = 2 ^ k" using assms(1,2) by (metis unat_pow unsigned_word_eqI)
  have one: "unat (2 ^ k - 1 :: 64 word) = 2 ^ k - 1" using assms(2) by (subst unat_minus_one) (simp_all add: unat_pow)
  have s: "unat (x + (2 ^ k - 1)) = unat x + 2 ^ k - 1"
    using assms(3) by (subst unat_add_no_wrap) (simp_all add: one)
  have "unat (push_bit k (drop_bit k (x + (2 ^ k - 1)))) = (unat x + 2 ^ k - 1) div 2 ^ k * 2 ^ k"
  proof -
    have "unat (drop_bit k (x + (2 ^ k - 1))) = (unat x + 2 ^ k - 1) div 2 ^ k" unfolding unat_drop_bit_eq by (simp add: drop_bit_eq_div s)
    moreover have "(unat x + 2 ^ k - 1) div 2 ^ k * 2 ^ k < 2 ^ 64"
      using assms(3) by (metis One_nat_def Suc_pred add_gr_0 div_times_less_eq_dividend le_imp_less_Suc less_le_trans zero_less_numeral zero_less_power)
    ultimately show ?thesis by (simp add: push_bit_eq_mult unat_word_ariths unat_pow [OF assms(2)] mult.commute)
  qed
  then show ?thesis by (simp add: OCOMS_ALIGN_def a and_not_mask_eq [OF assms(2)])
qed

lemma round_up_bounds:
  assumes "0 < (m :: nat)"
  shows "n \<le> (n + m - 1) div m * m" "(n + m - 1) div m * m \<le> n + m - 1"
proof -
  show "(n + m - 1) div m * m \<le> n + m - 1" by (rule div_times_less_eq_dividend)
  have "n + m - 1 < (n + m - 1) div m * m + m" using mod_less_divisor [OF assms, of "n + m - 1"] div_mult_mod_eq [of "n + m - 1" m] by linarith
  then show "n \<le> (n + m - 1) div m * m" using assms by linarith
qed

section \<open>Invariant\<close>

text \<open>
  What is assumed of \<open>malloc\<close>: a block does not wrap around the address space and does not overlap a
  block that is in use.  And of the sizes: descriptors are not empty, the alignment is a power of two,
  and the memory for one step of growth has a size that fits in 64 bits.
\<close>

definition malloc_spec :: "fl_ctx \<Rightarrow> bool" where
  "malloc_spec c \<longleftrightarrow> (\<forall>bs n p. fc_malloc c bs n = p \<and> p \<noteq> 0 \<longrightarrow> unat p + unat n \<le> 2 ^ 64 \<and>
     (\<forall>(q, m) \<in> set bs. unat q + unat m \<le> unat p \<or> unat p + unat n \<le> unat q))"

definition fl_sane :: "fl_ctx \<Rightarrow> 'a fl_config_scheme \<Rightarrow> bool" where
  "fl_sane c fl \<longleftrightarrow> 0 < fc_sizeof_item c \<and> 0 < fl_head_size fl \<and>
     (\<exists>k < 64. unat (fl_frag_alignment fl) = 2 ^ k \<and> unat (fl_head_size fl) mod 2 ^ k = 0) \<and>
     unat (fl_num_per_alloc fl) * unat (fl_head_size fl) + unat (fc_sizeof_item c) + unat (fl_frag_alignment fl) < 2 ^ 64"

definition apart :: "nat \<Rightarrow> addr \<Rightarrow> addr \<Rightarrow> bool" where
  "apart n a b \<longleftrightarrow> unat a + n \<le> unat b \<or> unat b + n \<le> unat a"

definition in_chunk :: "fl_ctx \<Rightarrow> nat \<Rightarrow> nat \<Rightarrow> addr \<times> size \<Rightarrow> addr \<Rightarrow> bool" where
  "in_chunk c n align b a \<longleftrightarrow> (case b of (p, m) \<Rightarrow> unat p + unat (fc_sizeof_item c) \<le> unat a \<and> unat a + n \<le> unat p + unat m \<and> unat a mod align = 0)"

text \<open>
  The items on the list and those handed out (\<open>out\<close>) are different, aligned pieces of the chunks that do
  not overlap; there are as many as have been counted, and no more than the limit.
\<close>

definition fl_wf :: "fl_ctx \<Rightarrow> ocoms_free_list_t \<Rightarrow> addr list \<Rightarrow> bool" where
  "fl_wf c fl out \<longleftrightarrow>
     distinct (fl_items fl @ out) \<and> length (fl_items fl @ out) = unat (fl_num_allocated fl) \<and>
     (\<forall>a \<in> set (fl_items fl @ out). \<exists>b \<in> set (fl_allocations fl). in_chunk c (unat (fl_head_size fl)) (unat (fl_frag_alignment fl)) b a) \<and>
     (\<forall>a \<in> set (fl_items fl @ out). \<forall>b \<in> set (fl_items fl @ out). a \<noteq> b \<longrightarrow> apart (unat (fl_head_size fl)) a b) \<and>
     (0 < fl_max_to_alloc fl \<longrightarrow> fl_num_allocated fl \<le> fl_max_to_alloc fl)"

lemma carve_items_map: "map (\<lambda>i. ptr + of_nat i * hd_size) [0..<Suc n] = ptr # map (\<lambda>i. ptr + hd_size + of_nat i * hd_size) [0..<n]"
  for ptr :: "'a::comm_semiring_1"
  by (simp add: upt_conv_Cons map_Suc_upt [symmetric] algebra_simps del: upt_Suc)

lemma carve_items_fields:
  "fl_items (carve_items n hd_size elem_size reg ptr payload fl) = rev (map (\<lambda>i. ptr + of_nat i * hd_size) [0..<n]) @ fl_items fl"
  "fl_config.truncate (carve_items n hd_size elem_size reg ptr payload fl) = fl_config.truncate fl"
  "fl_num_allocated (carve_items n hd_size elem_size reg ptr payload fl) = fl_num_allocated fl"
  "fl_num_waiting (carve_items n hd_size elem_size reg ptr payload fl) = fl_num_waiting fl"
  "fl_allocations (carve_items n hd_size elem_size reg ptr payload fl) = fl_allocations fl"
proof (induction n arbitrary: ptr payload fl)
  case (Suc n)
  { case 1 show ?case using Suc(1) by (simp only: carve_items.simps carve_items_map) simp }
  { case 2 show ?case using Suc(2) by (simp add: fl_config.truncate_def) }
qed simp_all

lemma truncate_fields:
  assumes "fl_config.truncate fl' = fl_config.truncate fl"
  shows "fl_max_to_alloc fl' = fl_max_to_alloc fl" "fl_num_per_alloc fl' = fl_num_per_alloc fl"
    "fl_frag_alignment fl' = fl_frag_alignment fl" "fl_head_size fl' = fl_head_size fl" "fl_has_alloc fl' = fl_has_alloc fl"
  using assms by (simp_all add: fl_config.truncate_def fl_head_size_def)

text \<open>The items of one chunk.\<close>

lemma chunk_items:
  fixes p n h z al :: "64 word"
  assumes al: "unat al = 2 ^ k" "k < 64" and h: "0 < h" "unat h mod 2 ^ k = 0"
    and fit: "unat n * unat h + unat z + unat al < 2 ^ 64"
    and p: "unat p + unat (n * h + z + al) \<le> 2 ^ 64" and i: "i < unat n"
  defines "ptr \<equiv> OCOMS_ALIGN (p + z) al"
  shows "unat (n * h + z + al) = unat n * unat h + unat z + unat al"
    and "unat (ptr + of_nat i * h) = unat ptr + i * unat h"
    and "unat p + unat z \<le> unat ptr" and "unat ptr + unat n * unat h \<le> unat p + unat (n * h + z + al)"
    and "unat (ptr + of_nat i * h) mod 2 ^ k = 0"
proof -
  have "unat (n * h) = unat n * unat h" using fit by (intro unat_mult_small) simp
  moreover from this have "unat (n * h + z) = unat n * unat h + unat z" using fit by (subst unat_add_no_wrap) simp_all
  ultimately show size: "unat (n * h + z + al) = unat n * unat h + unat z + unat al" using fit by (subst unat_add_no_wrap) simp_all
  have nh: "0 < unat n * unat h" using i h(1) by (auto simp: unat_gt_0)
  have pz: "unat (p + z) = unat p + unat z" using p nh unfolding size by (intro unat_add_no_wrap) linarith
  have up: "unat ptr = (unat p + unat z + 2 ^ k - 1) div 2 ^ k * 2 ^ k"
    unfolding ptr_def using OCOMS_ALIGN_ok [OF al, of "p + z"] p size al(1) by (simp add: pz)
  have bnd: "unat p + unat z \<le> unat ptr" "unat ptr \<le> unat p + unat z + 2 ^ k - 1"
    unfolding up using round_up_bounds [of "2 ^ k" "unat p + unat z"] by simp_all
  then show "unat p + unat z \<le> unat ptr" "unat ptr + unat n * unat h \<le> unat p + unat (n * h + z + al)"
    using size al(1) by linarith+
  have le: "unat ptr + unat n * unat h < 2 ^ 64" using bnd(2) p size al(1) zero_less_power [of "2::nat" k] by linarith
  have ih: "i * unat h \<le> unat n * unat h" using i by simp
  have ih64: "i * unat h < 2 ^ 64" "unat ptr + i * unat h < 2 ^ 64" using ih le by linarith+
  have "unat (of_nat i :: 64 word) = i"
    using i unat_less_2p [of n] by (simp add: unsigned_of_nat take_bit_nat_eq_self_iff)
  then have "unat (of_nat i * h) = i * unat h" using unat_mult_small [of "of_nat i" h] ih64 by simp
  then show item: "unat (ptr + of_nat i * h) = unat ptr + i * unat h" using unat_add_no_wrap [of ptr "of_nat i * h"] ih64 by simp
  have "unat ptr mod 2 ^ k = 0" unfolding up by simp
  moreover have "i * unat h mod 2 ^ k = 0" using h(2) by (simp add: mod_eq_0_iff_dvd)
  ultimately show "unat (ptr + of_nat i * h) mod 2 ^ k = 0" unfolding item by (simp add: mod_eq_0_iff_dvd)
qed

section \<open>Every operation keeps the invariant\<close>

lemma distinct_words_length:
  assumes "distinct (xs :: 64 word list)" and "0 \<notin> set xs"
  shows "length xs < 2 ^ 64"
proof -
  have "length xs = card (set xs)" using assms(1) by (simp add: distinct_card)
  also have "\<dots> = card (unat ` set xs)" by (intro card_image [symmetric] inj_onI) (rule unsigned_word_eqI)
  also have "\<dots> \<le> card {1 ..< 2 ^ 64 :: nat}"
  proof (intro card_mono subsetI)
    fix i
    assume "i \<in> unat ` set xs"
    then obtain x where "x \<in> set xs" "i = unat x" by blast
    then show "i \<in> {1 ..< 2 ^ 64}" using assms(2) unat_less_2p [of x] unat_gt_0 [of x] by (cases "x = 0") auto
  qed simp
  finally show ?thesis by simp
qed

lemma request_le:
  assumes "0 < fl_max_to_alloc fl \<longrightarrow> fl_num_allocated fl \<le> fl_max_to_alloc fl"
  shows "unat (fl_request fl m) \<le> unat m"
proof (cases "0 < fl_max_to_alloc fl \<and> fl_max_to_alloc fl < fl_num_allocated fl + m")
  case True
  let ?x = "fl_max_to_alloc fl" and ?y = "fl_num_allocated fl"
  have le: "unat ?y \<le> unat ?x" using assms True by (simp add: word_le_nat_alt)
  have d: "unat (?x - ?y) = unat ?x - unat ?y" using assms True by (simp add: unat_sub)
  show ?thesis
  proof (rule ccontr)
    assume "\<not> ?thesis"
    then have "unat ?y + unat m < unat ?x" using True d by (simp add: fl_request_def)
    moreover from this have "unat (?y + m) = unat ?y + unat m" using unat_less_2p [of ?x] by (intro unat_add_no_wrap) simp
    ultimately show False using True by (simp add: word_less_nat_alt)
  qed
qed (auto simp: fl_request_def)

lemma apart_sym: "apart n a b = apart n b a"
  by (auto simp: apart_def)


lemma truncate_updates [simp]:
  "fl_config.truncate (fl\<lparr>fl_num_allocated := x\<rparr>) = fl_config.truncate fl"
  "fl_config.truncate (fl\<lparr>fl_allocations := y\<rparr>) = fl_config.truncate fl"
  "fl_config.truncate (fl\<lparr>fl_items := w\<rparr>) = fl_config.truncate (fl :: ocoms_free_list_t)"
  by (simp_all add: fl_config.truncate_def)

text \<open>Growing by a chunk.\<close>

lemma grow_keeps:
  assumes spec: "malloc_spec c" and sane: "fl_sane c fl" and wf: "fl_wf c fl out" and m: "m \<le> fl_num_per_alloc fl"
    and r: "ocoms_free_list_grow c fl m = (rc, fl')"
  shows "fl_wf c fl' out \<and> fl_config.truncate fl' = fl_config.truncate fl \<and>
    (rc = OCOMS_SUCCESS \<and> unat (fl_num_allocated fl') = unat (fl_num_allocated fl) + unat (fl_request fl m) \<and> 0 < fl_request fl m \<and>
       (\<exists>new. fl_items fl' = new @ fl_items fl \<and> length new = unat (fl_request fl m)) \<or>
     rc = OCOMS_ERR_TEMP_OUT_OF_RESOURCE \<and> fl' = fl)"
proof -
  define n where "n = fl_request fl m"
  define h where "h = fl_head_size fl"
  define z where "z = fc_sizeof_item c"
  define al where "al = fl_frag_alignment fl"
  define p where "p = fc_malloc c (fl_allocations fl) (n * h + z + al)"
  define ptr where "ptr = OCOMS_ALIGN (p + z) al"
  define new where "new = rev (map (\<lambda>i. ptr + of_nat i * h) [0..<unat n])"
  let ?size = "n * h + z + al"
  have max: "0 < fl_max_to_alloc fl \<longrightarrow> fl_num_allocated fl \<le> fl_max_to_alloc fl" using wf by (simp add: fl_wf_def)
  show ?thesis
  proof (cases "fl' = fl \<and> rc = OCOMS_ERR_TEMP_OUT_OF_RESOURCE")
    case True
    then show ?thesis using wf by simp
  next
    case False
    note defs = n_def [symmetric] h_def [symmetric] z_def [symmetric] al_def [symmetric] p_def [symmetric] ptr_def [symmetric]
    let ?fl1 = "fl\<lparr>fl_allocations := fl_allocations fl @ [(p, ?size)]\<rparr>"
    obtain elem reg payload where e: "fl_payload c fl n = (elem, payload, reg)" by (rule prod_cases3)
    have good: "n \<noteq> 0" "p \<noteq> 0" "\<not> (elem \<noteq> 0 \<and> payload = 0)"
      using r False unfolding ocoms_free_list_grow_def Let_def defs e by (cases "n = 0"; cases "p = 0"; simp split: if_splits)+
    have "(OCOMS_SUCCESS, (carve_items (unat n) h elem reg ptr payload ?fl1)\<lparr>fl_num_allocated := fl_num_allocated fl + n\<rparr>) = (rc, fl')"
      using r good unfolding ocoms_free_list_grow_def Let_def defs e by (simp only: if_False prod.case carve_items_fields(3)) simp
    then have n0: "n \<noteq> 0" and p0: "p \<noteq> 0" and rc: "rc = OCOMS_SUCCESS"
      and fl': "fl' = (carve_items (unat n) h elem reg ptr payload ?fl1)\<lparr>fl_num_allocated := fl_num_allocated fl + n\<rparr>"
      using good by blast+
    have items: "fl_items fl' = new @ fl_items fl" and config: "fl_config.truncate fl' = fl_config.truncate fl"
      and num: "fl_num_allocated fl' = fl_num_allocated fl + n" and chunks: "fl_allocations fl' = fl_allocations fl @ [(p, ?size)]"
      by (simp_all add: fl' carve_items_fields new_def)
    obtain k where k: "k < 64" "unat al = 2 ^ k" "unat h mod 2 ^ k = 0" and h0: "0 < h" and z0: "0 < z"
      and fit: "unat (fl_num_per_alloc fl) * unat h + unat z + unat al < 2 ^ 64"
      using sane unfolding fl_sane_def defs by (elim conjE exE) (rule that)
    have "unat n \<le> unat (fl_num_per_alloc fl)" using request_le [OF max, of m] m by (simp add: n_def word_le_nat_alt)
    then have "unat n * unat h \<le> unat (fl_num_per_alloc fl) * unat h" by (rule mult_le_mono1)
    then have fit_n: "unat n * unat h + unat z + unat al < 2 ^ 64" using fit by linarith
    have p: "unat p + unat ?size \<le> 2 ^ 64" "\<forall>(q, m) \<in> set (fl_allocations fl). unat q + unat m \<le> unat p \<or> unat p + unat ?size \<le> unat q"
      using spec p0 unfolding malloc_spec_def p_def by blast+
    note chunk = chunk_items [OF k(2,1) h0 k(3) fit_n p(1), folded ptr_def]
    have hn: "0 < unat h" using h0 by (simp add: word_less_nat_alt)
    have in_new: "\<exists>i < unat n. a = ptr + of_nat i * h" if "a \<in> set new" for a using that by (auto simp: new_def)
    have inside: "in_chunk c (unat h) (unat al) (p, ?size) a" if a: "a \<in> set new" for a
    proof -
      obtain i where i: "i < unat n" "a = ptr + of_nat i * h" using in_new [OF a] by blast
      have "i * unat h + unat h \<le> unat n * unat h" using mult_le_mono1 [of "Suc i" "unat n" "unat h"] i(1) by simp
      then show ?thesis using chunk(2-5) [OF i(1)] unfolding in_chunk_def z_def [symmetric] i(2) k(2) by simp
    qed
    have new_apart: "apart (unat h) a b" if ab: "a \<in> set new" "b \<in> set new" "a \<noteq> b" for a b
    proof -
      obtain i j where ij: "i < unat n" "a = ptr + of_nat i * h" "j < unat n" "b = ptr + of_nat j * h"
        using in_new [OF ab(1)] in_new [OF ab(2)] by blast
      have "i < j \<or> j < i" using ab(3) ij by (cases i j rule: linorder_cases) auto
      then show ?thesis
      proof
        assume "i < j"
        then show ?thesis using mult_le_mono1 [of "Suc i" j "unat h"] chunk(2) [OF ij(1)] chunk(2) [OF ij(3)] by (simp add: apart_def ij)
      next
        assume "j < i"
        then show ?thesis using mult_le_mono1 [of "Suc j" i "unat h"] chunk(2) [OF ij(1)] chunk(2) [OF ij(3)] by (simp add: apart_def ij)
      qed
    qed
    have old: "\<exists>b \<in> set (fl_allocations fl). in_chunk c (unat h) (unat al) b a" if "a \<in> set (fl_items fl @ out)" for a
      using wf that unfolding fl_wf_def defs by blast
    have mixed: "apart (unat h) a b" if a: "a \<in> set new" and b: "b \<in> set (fl_items fl @ out)" for a b
    proof -
      obtain q m' where q: "(q, m') \<in> set (fl_allocations fl)" "in_chunk c (unat h) (unat al) (q, m') b" using old [OF b] by force
      then have "unat q + unat m' \<le> unat p \<or> unat p + unat ?size \<le> unat q" using p(2) by blast
      then show ?thesis using inside [OF a] q(2) by (auto simp: apart_def in_chunk_def)
    qed
    have not_same: "\<not> apart (unat h) a a" for a using hn by (simp add: apart_def)
    have inj: "inj_on (\<lambda>i. ptr + of_nat i * h) {0..<unat n}"
    proof (rule inj_onI)
      fix i j assume i: "i \<in> {0..<unat n}" and j: "j \<in> {0..<unat n}" and e: "ptr + of_nat i * h = ptr + of_nat j * h"
      have "unat (ptr + of_nat i * h) = unat (ptr + of_nat j * h)" by (rule arg_cong [OF e])
      then have "unat ptr + i * unat h = unat ptr + j * unat h" using chunk(2) [of i] chunk(2) [of j] i j by (simp only: atLeastLessThan_iff)
      then show "i = j" using hn by simp
    qed
    have dnew: "distinct new" using inj by (simp add: new_def distinct_map)
    have "set new \<inter> set (fl_items fl @ out) = {}" using mixed not_same by blast
    then have dist: "distinct (new @ fl_items fl @ out)"
      using dnew wf unfolding fl_wf_def by simp
    have "0 < unat a" if "a \<in> set (new @ fl_items fl @ out)" for a
      using that inside old z0 by (fastforce simp: in_chunk_def z_def word_less_nat_alt)
    then have "0 \<notin> set (new @ fl_items fl @ out)" by fastforce
    then have "length (new @ fl_items fl @ out) < 2 ^ 64" by (rule distinct_words_length [OF dist])
    moreover have len: "length (fl_items fl @ out) = unat (fl_num_allocated fl)" using wf by (simp add: fl_wf_def)
    ultimately have sum: "unat (fl_num_allocated fl + n) = unat (fl_num_allocated fl) + unat n"
      by (intro unat_add_no_wrap) (simp add: new_def)
    have limit: "fl_num_allocated fl' \<le> fl_max_to_alloc fl" if "0 < fl_max_to_alloc fl"
      using max that unfolding num by (cases "fl_max_to_alloc fl < fl_num_allocated fl + m") (auto simp: n_def fl_request_def not_less)
    have "fl_wf c fl' out"
      unfolding fl_wf_def items chunks truncate_fields [OF config] defs
    proof (intro conjI)
      show "distinct ((new @ fl_items fl) @ out)" using dist by simp
      show "length ((new @ fl_items fl) @ out) = unat (fl_num_allocated fl')" using len sum by (simp add: num new_def)
      show "\<forall>a\<in>set ((new @ fl_items fl) @ out). \<exists>b\<in>set (fl_allocations fl @ [(p, ?size)]). in_chunk c (unat h) (unat al) b a"
        using inside old by auto
      have "apart (unat h) a b" if "a \<in> set (fl_items fl @ out)" "b \<in> set (fl_items fl @ out)" "a \<noteq> b" for a b
        using wf that unfolding fl_wf_def defs by blast
      then show "\<forall>a\<in>set ((new @ fl_items fl) @ out). \<forall>b\<in>set ((new @ fl_items fl) @ out). a \<noteq> b \<longrightarrow> apart (unat h) a b"
        using new_apart mixed apart_sym by (metis Un_iff set_append)
      show "0 < fl_max_to_alloc fl \<longrightarrow> fl_num_allocated fl' \<le> fl_max_to_alloc fl" using limit by blast
    qed
    then show ?thesis
      using config rc num sum items n0 by (auto simp: n_def [symmetric] new_def word_neq_0_conv)
  qed
qed

text \<open>Popping and pushing.\<close>

lemma pop_keeps:
  assumes "fl_wf c fl out" and "fl_pop fl = (Some a, fl')"
  shows "fl_wf c fl' (a # out)" "fl_config.truncate fl' = fl_config.truncate fl"
proof -
  obtain as where as: "fl_items fl = a # as" "fl' = fl\<lparr>fl_items := as\<rparr>" using assms(2) by (auto simp: fl_pop_def split: list.splits)
  show t: "fl_config.truncate fl' = fl_config.truncate fl" by (simp add: as)
  have "set (as @ a # out) = set (fl_items fl @ out)" "distinct (as @ a # out) = distinct (fl_items fl @ out)"
    "length (as @ a # out) = length (fl_items fl @ out)" "fl_items fl' = as" "fl_num_allocated fl' = fl_num_allocated fl"
    "fl_allocations fl' = fl_allocations fl"
    by (auto simp: as)
  then show "fl_wf c fl' (a # out)" using assms(1) unfolding fl_wf_def truncate_fields [OF t] by metis
qed

lemma pop_none: "fl_pop fl = (None, fl') \<Longrightarrow> fl' = fl \<and> fl_items fl = []"
  by (auto simp: fl_pop_def split: list.splits)

lemma return_keeps:
  assumes "fl_wf c fl out" and "a \<in> set out"
  shows "fl_wf c (snd (OCOMS_FREE_LIST_RETURN fl a)) (remove1 a out)"
    and "fl_config.truncate (snd (OCOMS_FREE_LIST_RETURN fl a)) = fl_config.truncate fl"
proof -
  let ?fl = "snd (OCOMS_FREE_LIST_RETURN fl a)"
  show t: "fl_config.truncate ?fl = fl_config.truncate fl" by (simp add: OCOMS_FREE_LIST_RETURN_def)
  have "distinct out" using assms(1) by (simp add: fl_wf_def)
  then have "set ((a # fl_items fl) @ remove1 a out) = set (fl_items fl @ out)"
    "length ((a # fl_items fl) @ remove1 a out) = length (fl_items fl @ out)"
    "distinct (fl_items fl @ out) \<Longrightarrow> distinct ((a # fl_items fl) @ remove1 a out)"
    using assms(2) length_pos_if_in_set [of a out] by (auto simp: length_remove1)
  moreover have "fl_items ?fl = a # fl_items fl" "fl_num_allocated ?fl = fl_num_allocated fl" "fl_allocations ?fl = fl_allocations fl"
    by (simp_all add: OCOMS_FREE_LIST_RETURN_def)
  ultimately show "fl_wf c ?fl (remove1 a out)" using assms(1) unfolding fl_wf_def truncate_fields [OF t] by metis
qed

lemma get_keeps:
  assumes "malloc_spec c" and "fl_sane c fl" and "fl_wf c fl out" and "OCOMS_FREE_LIST_GET c fl = (rc, item, fl')"
  shows "fl_config.truncate fl' = fl_config.truncate fl"
    and "item = Some a \<Longrightarrow> rc = OCOMS_SUCCESS \<and> fl_wf c fl' (a # out)"
    and "item = None \<Longrightarrow> rc = OCOMS_ERR_TEMP_OUT_OF_RESOURCE \<and> fl' = fl \<and> fl_items fl = []"
proof -
  obtain fl1 it where pop: "fl_pop fl = (it, fl1)" by fastforce
  have "fl_config.truncate fl' = fl_config.truncate fl \<and>
    (case item of Some a \<Rightarrow> rc = OCOMS_SUCCESS \<and> fl_wf c fl' (a # out)
     | None \<Rightarrow> rc = OCOMS_ERR_TEMP_OUT_OF_RESOURCE \<and> fl' = fl \<and> fl_items fl = [])"
  proof (cases it)
    case (Some b)
    then show ?thesis using assms(4) pop_keeps [OF assms(3)] pop by (auto simp: OCOMS_FREE_LIST_GET_def)
  next
    case None
    then have fl1: "fl1 = fl" "fl_items fl = []" using pop_none [of fl fl1] pop by simp_all
    obtain r2 fl2 where g: "ocoms_free_list_grow c fl (fl_num_per_alloc fl) = (r2, fl2)" by fastforce
    obtain it2 fl3 where pop2: "fl_pop fl2 = (it2, fl3)" by fastforce
    note keep = grow_keeps [OF assms(1-3) order_refl g]
    have res: "rc = (if it2 = None then OCOMS_ERR_TEMP_OUT_OF_RESOURCE else OCOMS_SUCCESS)" "item = it2" "fl' = fl3"
      using assms(4) pop None pop2 g fl1 by (auto simp: OCOMS_FREE_LIST_GET_def)
    show ?thesis
    proof (cases it2)
      case (Some b)
      then show ?thesis using keep pop_keeps [of c fl2 out b fl3] pop2 res by simp
    next
      case None
      then have "fl3 = fl2" "fl_items fl2 = []" using pop_none [of fl2 fl3] pop2 by simp_all
      then have "fl2 = fl" using keep fl1(2) by (auto simp: word_less_nat_alt)
      then show ?thesis using res None fl1 \<open>fl3 = fl2\<close> by simp
    qed
  qed
  then show "fl_config.truncate fl' = fl_config.truncate fl" "item = Some a \<Longrightarrow> rc = OCOMS_SUCCESS \<and> fl_wf c fl' (a # out)"
    "item = None \<Longrightarrow> rc = OCOMS_ERR_TEMP_OUT_OF_RESOURCE \<and> fl' = fl \<and> fl_items fl = []"
    by (auto split: option.splits)
qed

section \<open>A pool of descriptors\<close>

text \<open>A user takes items and gives back some of those it holds.\<close>

datatype fl_op = Fl_get | Fl_put nat

fun fl_step :: "fl_ctx \<Rightarrow> fl_op \<Rightarrow> ocoms_free_list_t \<times> addr list \<Rightarrow> ocoms_free_list_t \<times> addr list" where
  "fl_step c Fl_get (fl, out) = (case OCOMS_FREE_LIST_GET c fl of
     (_, Some a, fl') \<Rightarrow> (fl', a # out) | (_, None, fl') \<Rightarrow> (fl', out))"
| "fl_step c (Fl_put i) (fl, out) =
     (if i < length out then (snd (OCOMS_FREE_LIST_RETURN fl (out ! i)), remove1 (out ! i) out) else (fl, out))"

lemma sane_truncate: "fl_config.truncate fl' = fl_config.truncate fl \<Longrightarrow> fl_sane c fl' = fl_sane c fl"
  using truncate_fields [of fl' fl] by (simp add: fl_sane_def)

lemma fl_step_keeps:
  assumes "malloc_spec c" and "fl_sane c (fst s)" and "fl_wf c (fst s) (snd s)"
  shows "fl_wf c (fst (fl_step c x s)) (snd (fl_step c x s)) \<and> fl_config.truncate (fst (fl_step c x s)) = fl_config.truncate (fst s)"
proof (cases s)
  case (Pair fl out)
  show ?thesis
  proof (cases x)
    case Fl_get
    obtain rc item fl' where g: "OCOMS_FREE_LIST_GET c fl = (rc, item, fl')" by (metis prod_cases3)
    note get_keeps [OF assms(1) assms(2,3) [unfolded Pair fst_conv snd_conv] g]
    then show ?thesis using g Pair Fl_get assms(3) by (cases item) auto
  next
    case (Fl_put i)
    then show ?thesis using return_keeps [of c fl out "out ! i"] assms(3) Pair by auto
  qed
qed

lemma fl_steps_keep:
  "malloc_spec c \<Longrightarrow> fl_sane c (fst s) \<Longrightarrow> fl_wf c (fst s) (snd s) \<Longrightarrow>
   fl_wf c (fst (fold (fl_step c) ops s)) (snd (fold (fl_step c) ops s)) \<and> fl_config.truncate (fst (fold (fl_step c) ops s)) = fl_config.truncate (fst s)"
proof (induction ops arbitrary: s)
  case (Cons x ops)
  then show ?case using fl_step_keeps [of c s x] Cons.IH [of "fl_step c x s"] sane_truncate [of "fst (fl_step c x s)" "fst s" c] by simp
qed simp

lemma init_wf:
  assumes "malloc_spec c" and r: "ocoms_free_list_init_ex_new c (ocoms_free_list_construct c) frag_size frag_alignment frag_class payload_size
      payload_alignment to_alloc max_alloc per_alloc has_alloc = (OCOMS_SUCCESS, fl)"
    and "fl_sane c fl" and "size_of_int to_alloc \<le> size_of_int per_alloc"
  shows "fl_wf c fl [] \<and> fl_max_to_alloc fl = size_of_int max_alloc"
proof -
  obtain fl1 where fl1: "fl_items fl1 = []" "fl_num_allocated fl1 = 0" "fl_max_to_alloc fl1 = size_of_int max_alloc" "fl_num_per_alloc fl1 = size_of_int per_alloc"
      "if to_alloc \<noteq> 0 then ocoms_free_list_grow c fl1 (size_of_int to_alloc) = (OCOMS_SUCCESS, fl) else fl = fl1"
    using r by (fastforce simp: ocoms_free_list_init_ex_new_def Let_def ocoms_free_list_construct_def split: if_splits)
  have wf: "fl_wf c fl1 []" using fl1 by (simp add: fl_wf_def)
  show ?thesis
  proof (cases "to_alloc = 0")
    case False
    have g: "ocoms_free_list_grow c fl1 (size_of_int to_alloc) = (OCOMS_SUCCESS, fl)" using fl1(5) False by simp
    have "fl_config.truncate fl = fl_config.truncate fl1"
      using g by (auto simp: ocoms_free_list_grow_def Let_def carve_items_fields split: if_splits prod.splits)
    moreover from this have "fl_sane c fl1" using assms(3) sane_truncate by metis
    ultimately show ?thesis
      using grow_keeps [OF assms(1) _ wf _ g] assms(4) fl1 truncate_fields(1) [of fl fl1] by simp
  qed (use wf fl1 in simp)
qed

text \<open>
  C35: The items a user holds, whatever it took and gave back, are different and do not overlap, lie in
  the memory obtained from the C library, are aligned, and are no more than the limit.
\<close>

theorem free_list_hands_out_disjoint:
  assumes "malloc_spec c" and "ocoms_free_list_init_ex_new c (ocoms_free_list_construct c) frag_size frag_alignment frag_class payload_size
      payload_alignment to_alloc max_alloc per_alloc has_alloc = (OCOMS_SUCCESS, fl)"
    and "fl_sane c fl" and "size_of_int to_alloc \<le> size_of_int per_alloc"
    and "fold (fl_step c) ops (fl, []) = (fl', out)"
  shows "distinct out \<and> (\<forall>a \<in> set out. \<forall>b \<in> set out. a \<noteq> b \<longrightarrow> apart (unat (fl_head_size fl)) a b) \<and>
    (\<forall>a \<in> set out. \<exists>b \<in> set (fl_allocations fl'). in_chunk c (unat (fl_head_size fl)) (unat (fl_frag_alignment fl)) b a) \<and>
    (0 < size_of_int max_alloc \<longrightarrow> length out \<le> unat (size_of_int max_alloc))"
proof -
  have wf: "fl_wf c fl []" and max: "fl_max_to_alloc fl = size_of_int max_alloc" using init_wf [OF assms(1-4)] by simp_all
  have end_wf: "fl_wf c fl' out" and t: "fl_config.truncate fl' = fl_config.truncate fl"
    using fl_steps_keep [of c "(fl, [])" ops] assms(1,3,5) wf by simp_all
  have "length out \<le> unat (size_of_int max_alloc)" if "0 < size_of_int max_alloc"
    using end_wf that max truncate_fields(1) [OF t] by (simp add: fl_wf_def word_le_nat_alt)
  then show ?thesis using end_wf unfolding fl_wf_def truncate_fields [OF t] by (metis Un_iff distinct_append set_append)
qed

definition one_chunk :: fl_ctx where
  "one_chunk = \<lparr>fc_malloc = \<lambda>bs n. if bs = [] \<and> n < 0x10000 then 4096 else 0, fc_alloc = \<lambda>_ _ _. (0, 0), fc_sizeof_item = 40\<rparr>"

definition sample_free_list :: "int \<times> ocoms_free_list_t" where
  "sample_free_list = ocoms_free_list_init_ex_new one_chunk (ocoms_free_list_construct one_chunk) 100 64 None 0 64 2 3 2 False"

lemma sample_free_list_config:
  "fst sample_free_list = OCOMS_SUCCESS" "fl_config.truncate (snd sample_free_list) =
    \<lparr>fl_max_to_alloc = 3, fl_num_per_alloc = 2, fl_frag_size = 100, fl_frag_alignment = 64, fl_payload_buffer_size = 0,
     fl_payload_buffer_alignment = 64, fl_class_sizeof = 40, fl_has_alloc = False\<rparr>"
  by (simp_all add: sample_free_list_def one_chunk_def ocoms_free_list_construct_def ocoms_free_list_init_ex_new_def bad_alignment_def Let_def
      ocoms_free_list_grow_def fl_request_def fl_head_size_def fl_payload_def OCOMS_ALIGN_def size_of_int_def carve_items_fields
      word_le_nat_alt) (simp_all add: fl_config.truncate_def)

lemma one_chunk_spec: "malloc_spec one_chunk"
  by (auto simp: malloc_spec_def one_chunk_def word_less_nat_alt)

lemma sample_free_list_sane: "fl_sane one_chunk (snd sample_free_list)"
proof -
  note f = sample_free_list_config(2) [unfolded fl_config.truncate_def, simplified]
  have "fl_head_size (snd sample_free_list) = 128" using f by (simp add: fl_head_size_def OCOMS_ALIGN_def)
  then show ?thesis using f by (auto simp: fl_sane_def one_chunk_def intro!: exI [of _ 6])
qed

theorem free_list_hands_out_disjoint_witness:
  "\<exists>fl' out. fold (fl_step one_chunk) [Fl_get, Fl_get, Fl_get, Fl_put 0] (snd sample_free_list, []) = (fl', out) \<and> distinct out \<and>
     (\<forall>a \<in> set out. \<forall>b \<in> set out. a \<noteq> b \<longrightarrow> apart (unat (fl_head_size (snd sample_free_list))) a b) \<and> length out \<le> 3"
proof -
  have init: "ocoms_free_list_init_ex_new one_chunk (ocoms_free_list_construct one_chunk) 100 64 None 0 64 2 3 2 False = (OCOMS_SUCCESS, snd sample_free_list)"
    using sample_free_list_config(1) unfolding sample_free_list_def by (metis prod.collapse)
  obtain fl' out where run: "fold (fl_step one_chunk) [Fl_get, Fl_get, Fl_get, Fl_put 0] (snd sample_free_list, []) = (fl', out)" by fastforce
  show ?thesis
    using free_list_hands_out_disjoint [OF one_chunk_spec init sample_free_list_sane _ run] run by (simp add: size_of_int_def)
qed

end
