(* ===== verification/Path.thy ===== *)
theory Path
  imports Environ
begin

text \<open>
  Path names and the search for files: \<open>ocoms/util/os_path.c\<close> and \<open>path.c\<close>.  What the file system and the
  environment answer are parameters.  The build is for Linux.
\<close>

unbundle bit_operations_syntax

section \<open>Composing path names\<close>

definition path_sep :: char where "path_sep = CHR ''/''"

definition OCOMS_ENV_SEP :: char where "OCOMS_ENV_SEP = CHR '':''"

definition OCOMS_PATH_MAX :: nat where "OCOMS_PATH_MAX = 4096 + 1"

definition ocoms_path_is_absolute :: "string \<Rightarrow> bool" where
  "ocoms_path_is_absolute path = (case path of [] \<Rightarrow> False | c # _ \<Rightarrow> path_sep = c)"

text \<open>The length that the first loop adds up; then the room for the string.\<close>

fun elements_length :: "string list \<Rightarrow> nat" where
  "elements_length [] = 0"
| "elements_length (e # es) = length e + (if ocoms_path_is_absolute e then 0 else 1) + elements_length es"

definition path_room :: "bool \<Rightarrow> string list \<Rightarrow> nat" where
  "path_room relative es = elements_length es + length es * 1 + 1 + (if relative then 1 else 0)"

text \<open>The second loop: \<open>strcat\<close> must stay in a block of \<open>n\<close> characters.\<close>

fun path_fill :: "nat \<Rightarrow> string \<Rightarrow> string list \<Rightarrow> string option" where
  "path_fill n path [] = Some path"
| "path_fill n path (e # es) = do {
     let path' = (if ocoms_path_is_absolute e then path else path @ [path_sep]) @ e;
     assert_c (length path' < n);
     path_fill n path' es }"

text \<open>The list of arguments ends with a null pointer; \<open>None\<close> inside is a null pointer returned.\<close>

definition ocoms_os_path :: "argv_mem \<Rightarrow> bool \<Rightarrow> string list \<Rightarrow> string option option" where
  "ocoms_os_path m relative es =
     (if es = [] then do {
        assert_c (char_alloc m 3 \<noteq> None);
        Some (Some ((if relative then ''.'' else []) @ [path_sep])) }
      else if OCOMS_PATH_MAX < path_room relative es then Some None
      else if char_alloc m (path_room relative es) = None then Some None
      else map_option Some (path_fill (path_room relative es) (if relative then ''.'' else []) es))"

section \<open>Finding files\<close>

text \<open>
  What the system answers: \<open>statfs\<close> is given its how-manieth call for a name it is, because it is
  repeated when the name has become stale.
\<close>

record statfs_buf =
  f_type :: "64 word"
  f_bsize :: "64 word"
  f_bavail :: "64 word"

datatype statfs_result = Statfs_ok statfs_buf | Statfs_stale | Statfs_failed

record path_ctx =
  pc_mem :: argv_mem
  pc_stat :: "string \<Rightarrow> 32 word option"
  pc_statfs :: "string \<Rightarrow> nat \<Rightarrow> statfs_result"
  pc_getenv :: "string \<Rightarrow> string option"
  pc_getcwd :: "string option"
  pc_realpath :: "string \<Rightarrow> string option"

definition S_IFREG :: "32 word" where "S_IFREG = 0x8000"
definition S_IFLNK :: "32 word" where "S_IFLNK = 0xA000"
definition S_IRUSR :: "32 word" where "S_IRUSR = 0x100"
definition S_IWUSR :: "32 word" where "S_IWUSR = 0x80"
definition S_IXUSR :: "32 word" where "S_IXUSR = 0x40"
definition R_OK :: "32 word" where "R_OK = 4"
definition W_OK :: "32 word" where "W_OK = 2"
definition X_OK :: "32 word" where "X_OK = 1"

lemmas mode_defs = S_IFREG_def S_IFLNK_def S_IRUSR_def S_IWUSR_def S_IXUSR_def R_OK_def W_OK_def X_OK_def

text \<open>The tests on the mode of a file that exists.\<close>

definition mode_acceptable :: "32 word \<Rightarrow> 32 word \<Rightarrow> bool" where
  "mode_acceptable mode st_mode \<longleftrightarrow>
     \<not> (S_IFREG AND st_mode = 0 \<and> S_IFLNK AND st_mode = 0) \<and>
     \<not> (X_OK AND mode \<noteq> 0 \<and> S_IXUSR AND st_mode = 0) \<and>
     \<not> (R_OK AND mode \<noteq> 0 \<and> S_IRUSR AND st_mode = 0) \<and>
     \<not> (W_OK AND mode \<noteq> 0 \<and> S_IWUSR AND st_mode = 0)"

definition ocoms_path_access :: "path_ctx \<Rightarrow> string \<Rightarrow> string option \<Rightarrow> 32 word \<Rightarrow> string option option" where
  "ocoms_path_access c fname path mode = do {
     r \<leftarrow> ocoms_os_path (pc_mem c) False (case path of None \<Rightarrow> [fname] | Some p \<Rightarrow> [p, fname]);
     Some (case r of None \<Rightarrow> None
       | Some fullpath \<Rightarrow> (case pc_stat c fullpath of None \<Rightarrow> None
           | Some st_mode \<Rightarrow> if mode_acceptable mode st_mode then Some fullpath else None)) }"

text \<open>A variable is looked up in a vector of strings \<open>name=value\<close> first, then in the environment.\<close>

fun list_find :: "string \<Rightarrow> cells \<Rightarrow> string option option" where
  "list_find var [] = None"
| "list_find var (None # cs) = Some None"
| "list_find var (Some s # cs) =
     (if take (length var + 1) s = var @ ''='' then Some (Some (drop (length var + 1) s)) else list_find var cs)"

definition list_env_get :: "path_ctx \<Rightarrow> string \<Rightarrow> cells option \<Rightarrow> string option option" where
  "list_env_get c var l = do {
     r \<leftarrow> (case l of None \<Rightarrow> Some None | Some cs \<Rightarrow> list_find var cs);
     Some (case r of None \<Rightarrow> pc_getenv c var | Some v \<Rightarrow> Some v) }"

text \<open>
  The directory an entry of the search path names: a variable at its head is replaced, and an unset
  one names none.  \<open>Inl\<close> is the lack of memory that ends the search.
\<close>

definition search_dir :: "path_ctx \<Rightarrow> cells option \<Rightarrow> string \<Rightarrow> (unit + string option) option" where
  "search_dir c envv d =
     (if take 1 d = ''$'' then do {
        let delimit = dropWhile (\<lambda>x. x \<noteq> path_sep) d;
        r \<leftarrow> list_env_get c (tl (takeWhile (\<lambda>x. x \<noteq> path_sep) d)) envv;
        Some (case r of None \<Rightarrow> Inr None
          | Some env \<Rightarrow> if delimit = [] then Inr (Some env)
              else if char_alloc (pc_mem c) (length env + length delimit + 1) = None then Inl ()
              else Inr (Some (env @ delimit))) }
      else Some (Inr (Some d)))"

fun path_search :: "path_ctx \<Rightarrow> string \<Rightarrow> 32 word \<Rightarrow> cells option \<Rightarrow> cells \<Rightarrow> string option option" where
  "path_search c fname mode envv [] = None"
| "path_search c fname mode envv (None # ds) = Some None"
| "path_search c fname mode envv (Some d # ds) = do {
     r \<leftarrow> search_dir c envv d;
     case r of Inl _ \<Rightarrow> Some None
     | Inr None \<Rightarrow> path_search c fname mode envv ds
     | Inr (Some dir) \<Rightarrow> do {
         fullpath \<leftarrow> ocoms_path_access c fname (Some dir) mode;
         if fullpath \<noteq> None then Some fullpath else path_search c fname mode envv ds } }"

definition ocoms_path_find ::
  "path_ctx \<Rightarrow> string \<Rightarrow> cells option \<Rightarrow> 32 word \<Rightarrow> cells option \<Rightarrow> string option option" where
  "ocoms_path_find c fname pathv mode envv =
     (if ocoms_path_is_absolute fname then ocoms_path_access c fname None mode
      else do { ds \<leftarrow> pathv; path_search c fname mode envv ds })"

text \<open>The entries of a path variable are appended to a vector; empty ones are skipped.\<close>

lemma tl_dropWhile_shorter: "path \<noteq> [] \<Longrightarrow> length (tl (dropWhile P path)) < length path"
  by (cases path) (simp_all add: length_dropWhile_le le_imp_less_Suc less_imp_diff_less)

function path_env_load :: "argv_mem \<Rightarrow> string \<Rightarrow> int \<times> cells option \<Rightarrow> (int \<times> cells option) option" where
  "path_env_load m path dirs =
     (if path = [] then Some dirs
      else do {
        let dir = takeWhile (\<lambda>x. x \<noteq> OCOMS_ENV_SEP) path;
        let rest = dropWhile (\<lambda>x. x \<noteq> OCOMS_ENV_SEP) path;
        dirs' \<leftarrow> (if dir = [] then Some dirs else map_option snd (ocoms_argv_append m (fst dirs) (snd dirs) dir));
        path_env_load m (tl rest) dirs' })"
  by pat_completeness auto

termination by (relation "measure (\<lambda>(m, path, dirs). length path)") (auto simp: tl_dropWhile_shorter)

declare path_env_load.simps [simp del]

text \<open>
  The working directory replaces every \<open>.\<close>; the flag says whether there was one, and no vector is
  the lack of memory that ends the search.
\<close>

fun replace_dots :: "argv_mem \<Rightarrow> string \<Rightarrow> nat list \<Rightarrow> bool \<times> cells option \<Rightarrow> (bool \<times> cells option) option" where
  "replace_dots m wrkdir [] st = Some st"
| "replace_dots m wrkdir (i # is) (found_dot, dirv) = do {
     cs \<leftarrow> dirv;
     d \<leftarrow> rdn cs i;
     dir \<leftarrow> d;
     if dir \<noteq> ''.'' then replace_dots m wrkdir is (found_dot, dirv)
     else (case strdup m wrkdir of None \<Rightarrow> Some (True, None)
       | Some w \<Rightarrow> replace_dots m wrkdir is (True, Some (cs[i := Some w]))) }"

definition findv_dirs :: "path_ctx \<Rightarrow> cells option \<Rightarrow> string option \<Rightarrow> cells option option" where
  "findv_dirs c envv wrkdir = do {
     path \<leftarrow> list_env_get c ''PATH'' envv;
     (dirc, dirv) \<leftarrow> (case path of None \<Rightarrow> Some (0, None) | Some p \<Rightarrow> path_env_load (pc_mem c) p (0, None));
     case wrkdir of None \<Rightarrow> Some dirv
     | Some w \<Rightarrow> do {
         (found_dot, dirv') \<leftarrow> replace_dots (pc_mem c) w [0..<nat dirc] (False, dirv);
         if found_dot then Some dirv'
         else do { (_, _, dirv'') \<leftarrow> ocoms_argv_append (pc_mem c) dirc dirv' w; Some dirv'' } } }"

definition ocoms_path_findv ::
  "path_ctx \<Rightarrow> string \<Rightarrow> 32 word \<Rightarrow> cells option \<Rightarrow> string option \<Rightarrow> string option option" where
  "ocoms_path_findv c fname mode envv wrkdir = do {
     dirv \<leftarrow> findv_dirs c envv wrkdir;
     if dirv = None then Some None else ocoms_path_find c fname dirv mode envv }"

text \<open>
  \<open>realpath\<close> writes into a new block, whose contents are not specified when it fails; without a block
  it makes one that is lost.
\<close>

definition ocoms_find_absolute_path :: "path_ctx \<Rightarrow> string \<Rightarrow> string option option" where
  "ocoms_find_absolute_path c app_name = do {
     abs_app_name \<leftarrow>
       (if ocoms_path_is_absolute app_name then Some (Some app_name)
        else if take 1 app_name = ''.'' \<or> path_sep \<in> set app_name then
          (case pc_getcwd c of None \<Rightarrow> Some None
           | Some cwd \<Rightarrow> ocoms_os_path (pc_mem c) False [cwd, app_name])
        else ocoms_path_findv c app_name X_OK None None);
     case abs_app_name of None \<Rightarrow> Some None
     | Some name \<Rightarrow>
         if char_alloc (pc_mem c) OCOMS_PATH_MAX = None then Some None
         else do { p \<leftarrow> pc_realpath c name; Some (Some p) } }"

section \<open>File systems\<close>

text \<open>The call is repeated while the name is stale, five times at most.\<close>

fun statfs_trials :: "(nat \<Rightarrow> statfs_result) \<Rightarrow> nat \<Rightarrow> nat \<Rightarrow> statfs_result" where
  "statfs_trials f i 0 = f i"
| "statfs_trials f i (Suc n) = (if f i = Statfs_stale then statfs_trials f (Suc i) n else f i)"

definition fs_types :: "(64 word \<times> 64 word) list" where
  "fs_types = [(0x0BD00BD0, 0xffffffff), (0x6969, 0xffff), (0xAAD7AAEA, 0xffffffff), (0x47504653, 0xffffffff)]"

definition is_network_fs :: "64 word \<Rightarrow> bool" where
  "is_network_fs ty \<longleftrightarrow> list_ex (\<lambda>(fsid, mask). fsid = ty AND mask) fs_types"

text \<open>The part of a name before its last separator, and the part from it on.\<close>

definition last_sep :: "string \<Rightarrow> string option" where
  "last_sep file = (if path_sep \<in> set file
     then Some (path_sep # rev (takeWhile (\<lambda>x. x \<noteq> path_sep) (rev file))) else None)"

function path_nfs_loop :: "path_ctx \<Rightarrow> string \<Rightarrow> bool" where
  "path_nfs_loop c file = (case statfs_trials (pc_statfs c file) 0 4 of
     Statfs_ok buf \<Rightarrow> is_network_fs (f_type buf)
   | _ \<Rightarrow> (case last_sep file of None \<Rightarrow> False
       | Some sep \<Rightarrow> if sep = [path_sep] then False
           else path_nfs_loop c (take (length file - length sep) file)))"
  by pat_completeness auto

termination
  by (relation "measure (\<lambda>(c, file). length file)") (auto simp: last_sep_def split: if_splits dest: length_pos_if_in_set)

declare path_nfs_loop.simps [simp del]

definition ocoms_path_nfs :: "path_ctx \<Rightarrow> string \<Rightarrow> bool option" where
  "ocoms_path_nfs c fname = do { file \<leftarrow> strdup (pc_mem c) fname; Some (path_nfs_loop c file) }"

text \<open>The result is the code and what \<open>out_avail\<close> then points to.\<close>

definition ocoms_path_df :: "path_ctx \<Rightarrow> string option \<Rightarrow> 64 word option \<Rightarrow> int \<times> 64 word option" where
  "ocoms_path_df c path out_avail = (case (path, out_avail) of
     (Some p, Some _) \<Rightarrow>
       (case statfs_trials (pc_statfs c p) 0 4 of
          Statfs_ok buf \<Rightarrow> (OCOMS_SUCCESS,
            Some (f_bsize buf * (if sint (ucast (f_bavail buf) :: 32 word) < 0 then 0 else f_bavail buf)))
        | _ \<Rightarrow> (OCOMS_ERROR, Some 0))
   | _ \<Rightarrow> (OCOMS_ERROR, out_avail))"


section \<open>What is found\<close>

text \<open>The elements one after the other, each with a separator before it.\<close>

definition joined :: "string list \<Rightarrow> string" where
  "joined es = concat (map (\<lambda>e. if ocoms_path_is_absolute e then e else path_sep # e) es)"

lemma length_joined: "length (joined es) = elements_length es"
  by (induction es) (simp_all add: joined_def)

lemma path_fill_joined: "length path + elements_length es < n \<Longrightarrow> path_fill n path es = Some (path @ joined es)"
proof (induction es arbitrary: path)
  case (Cons e es)
  then show ?case by (auto simp: Let_def joined_def split: if_splits)
qed (simp add: joined_def)

text \<open>The room that is computed is enough.\<close>

lemma os_path_joined:
  assumes "es \<noteq> []"
  shows "ocoms_os_path m relative es =
    Some (if OCOMS_PATH_MAX < path_room relative es \<or> char_alloc m (path_room relative es) = None then None
          else Some ((if relative then ''.'' else []) @ joined es))"
proof -
  have "length (if relative then ''.'' else []) + elements_length es < path_room relative es"
    using assms by (auto simp: path_room_def)
  then show ?thesis using assms by (simp add: ocoms_os_path_def path_fill_joined)
qed

fun first_some :: "('a \<Rightarrow> 'b option) \<Rightarrow> 'a list \<Rightarrow> 'b option" where
  "first_some f [] = None"
| "first_some f (x # xs) = (case f x of None \<Rightarrow> first_some f xs | Some y \<Rightarrow> Some y)"

definition env_get :: "path_ctx \<Rightarrow> string list option \<Rightarrow> string \<Rightarrow> string option" where
  "env_get c env var =
     (case (case env of None \<Rightarrow> None | Some es \<Rightarrow> find (\<lambda>e. take (length var + 1) e = var @ ''='') es) of
        None \<Rightarrow> pc_getenv c var | Some e \<Rightarrow> Some (drop (length var + 1) e))"

definition dir_named :: "path_ctx \<Rightarrow> string list option \<Rightarrow> string \<Rightarrow> string option" where
  "dir_named c env d = (if take 1 d = ''$''
     then map_option (\<lambda>v. v @ dropWhile (\<lambda>x. x \<noteq> path_sep) d) (env_get c env (tl (takeWhile (\<lambda>x. x \<noteq> path_sep) d)))
     else Some d)"

text \<open>
  What the search takes, said without the code's tests on bits.  The kind of a file is a number in four
  bits of its mode, and \<open>stat\<close> answers one of seven.  Everything but directories and pipes is taken, and the
  permissions are those of the owner, whoever asks.
\<close>

definition S_IFSOCK :: "32 word" where "S_IFSOCK = 0xC000"
definition S_IFBLK :: "32 word" where "S_IFBLK = 0x6000"
definition S_IFDIR :: "32 word" where "S_IFDIR = 0x4000"
definition S_IFCHR :: "32 word" where "S_IFCHR = 0x2000"
definition S_IFIFO :: "32 word" where "S_IFIFO = 0x1000"

lemmas kind_defs = S_IFREG_def S_IFLNK_def S_IFSOCK_def S_IFBLK_def S_IFDIR_def S_IFCHR_def S_IFIFO_def

definition file_kind :: "32 word \<Rightarrow> 32 word" where "file_kind st_mode = st_mode AND 0xF000"

definition file_kinds :: "32 word list" where
  "file_kinds = [S_IFREG, S_IFLNK, S_IFSOCK, S_IFBLK, S_IFCHR, S_IFDIR, S_IFIFO]"

definition owner_may :: "32 word \<Rightarrow> 32 word \<Rightarrow> bool" where
  "owner_may mode st_mode \<longleftrightarrow> (bit mode 0 \<longrightarrow> bit st_mode 6) \<and> (bit mode 2 \<longrightarrow> bit st_mode 8) \<and> (bit mode 1 \<longrightarrow> bit st_mode 7)"

definition found_at :: "path_ctx \<Rightarrow> 32 word \<Rightarrow> string \<Rightarrow> string option" where
  "found_at c mode p = (case pc_stat c p of None \<Rightarrow> None
     | Some st_mode \<Rightarrow> if length p + 3 \<le> OCOMS_PATH_MAX \<and> file_kind st_mode \<noteq> S_IFDIR \<and> file_kind st_mode \<noteq> S_IFIFO \<and>
         owner_may mode st_mode then Some p else None)"

text \<open>Where a directory is looked for: as it is when it is absolute, and otherwise below the root.\<close>

definition from_root :: "string \<Rightarrow> string" where
  "from_root dir = (if take 1 dir = ''/'' then dir else ''/'' @ dir)"

definition file_in :: "path_ctx \<Rightarrow> 32 word \<Rightarrow> string \<Rightarrow> string \<Rightarrow> string option" where
  "file_in c mode fname dir = found_at c mode (from_root dir @ ''/'' @ fname)"

definition stat_kinds :: "path_ctx \<Rightarrow> bool" where
  "stat_kinds c \<longleftrightarrow> (\<forall>p st_mode. pc_stat c p = Some st_mode \<longrightarrow> file_kind st_mode \<in> set file_kinds)"

lemma single_bit: "(2 ^ n AND w \<noteq> 0) \<longleftrightarrow> bit (w :: 32 word) n"
  by (metis and_exp_eq_0_iff_not_bit and.commute)

lemma permission_bits:
  "(X_OK AND mode \<noteq> 0) = bit mode 0" "(W_OK AND mode \<noteq> 0) = bit mode 1" "(R_OK AND mode \<noteq> 0) = bit mode 2"
  "(S_IXUSR AND mode \<noteq> 0) = bit mode 6" "(S_IWUSR AND mode \<noteq> 0) = bit mode 7" "(S_IRUSR AND mode \<noteq> 0) = bit mode 8"
  using single_bit [of 0 mode] single_bit [of 1 mode] single_bit [of 2 mode] single_bit [of 6 mode] single_bit [of 7 mode]
    single_bit [of 8 mode]
  by (simp_all add: mode_defs)

lemma file_test:
  assumes "file_kind st_mode \<in> set file_kinds"
  shows "(S_IFREG AND st_mode = 0 \<and> S_IFLNK AND st_mode = 0) \<longleftrightarrow> file_kind st_mode = S_IFDIR \<or> file_kind st_mode = S_IFIFO"
proof -
  have "S_IFREG AND 0xF000 = S_IFREG" "S_IFLNK AND 0xF000 = S_IFLNK" by (simp_all add: kind_defs)
  moreover have "m AND file_kind st_mode = (m AND 0xF000) AND st_mode" for m by (simp add: file_kind_def ac_simps)
  ultimately have "S_IFREG AND st_mode = S_IFREG AND file_kind st_mode" "S_IFLNK AND st_mode = S_IFLNK AND file_kind st_mode" by simp_all
  then show ?thesis using assms by (auto simp: file_kinds_def kind_defs)
qed

lemma mode_acceptable_kind:
  "file_kind st_mode \<in> set file_kinds \<Longrightarrow>
    mode_acceptable mode st_mode \<longleftrightarrow> file_kind st_mode \<noteq> S_IFDIR \<and> file_kind st_mode \<noteq> S_IFIFO \<and> owner_may mode st_mode"
  using file_test [of st_mode] permission_bits [of mode] permission_bits [of st_mode]
  by (auto simp: mode_acceptable_def owner_may_def)

definition path_dirs :: "string option \<Rightarrow> string option \<Rightarrow> string list" where
  "path_dirs path wrkdir =
     (let ds = (case path of None \<Rightarrow> [] | Some p \<Rightarrow> tokens False OCOMS_ENV_SEP p)
      in case wrkdir of None \<Rightarrow> ds
         | Some w \<Rightarrow> if ''.'' \<in> set ds then map (\<lambda>d. if d = ''.'' then w else d) ds else ds @ [w])"

fun vector_rep :: "cells option \<Rightarrow> string list option \<Rightarrow> bool" where
  "vector_rep None None = True"
| "vector_rep (Some cs) (Some xs) = represents cs xs"
| "vector_rep _ _ = False"

lemma list_find_ok:
  "represents cs xs \<Longrightarrow> list_find var cs =
     Some (map_option (drop (length var + 1)) (find (\<lambda>e. take (length var + 1) e = var @ ''='') xs))"
proof (induction xs arbitrary: cs)
  case Nil
  then show ?case by (cases cs) (auto simp: represents_nil)
next
  case (Cons x xs)
  then obtain cs' where "cs = Some x # cs'" "represents cs' xs"
    by (cases cs) (auto simp: represents_cons, auto simp: represents_def)
  then show ?case using Cons.IH by simp
qed

lemma list_env_get_ok: "vector_rep l env \<Longrightarrow> list_env_get c var l = Some (env_get c env var)"
  by (cases l; cases env) (auto simp: list_env_get_def env_get_def list_find_ok split: option.splits)

lemma char_alloc_total: "argv_mem_total m \<Longrightarrow> char_alloc m n = None \<longleftrightarrow> False"
  by (simp add: argv_mem_total_def)

lemma search_dir_ok:
  assumes "vector_rep envv env" and "argv_mem_total (pc_mem c)"
  shows "search_dir c envv d = Some (Inr (dir_named c env d))"
  using assms(1) by (auto simp: char_alloc_total [OF assms(2)] search_dir_def dir_named_def Let_def list_env_get_ok split: option.splits)

lemma joined_from_root: "\<not> ocoms_path_is_absolute fname \<Longrightarrow> joined [dir, fname] = from_root dir @ ''/'' @ fname"
  by (cases dir) (auto simp: joined_def from_root_def ocoms_path_is_absolute_def path_sep_def split: list.splits)

lemma room_from_root: "path_room False [dir, fname] = length (joined [dir, fname]) + 3"
  by (simp add: path_room_def length_joined)

lemma access_in_dir:
  assumes "argv_mem_total (pc_mem c)" and "stat_kinds c" and "\<not> ocoms_path_is_absolute fname"
  shows "ocoms_path_access c fname (Some dir) mode = Some (file_in c mode fname dir)"
proof (cases "pc_stat c (joined [dir, fname])")
  case None
  then show ?thesis using assms(3)
    by (simp add: char_alloc_total [OF assms(1)] ocoms_path_access_def os_path_joined room_from_root joined_from_root file_in_def
        found_at_def split: option.splits)
next
  case (Some st_mode)
  then have "mode_acceptable mode st_mode \<longleftrightarrow> file_kind st_mode \<noteq> S_IFDIR \<and> file_kind st_mode \<noteq> S_IFIFO \<and> owner_may mode st_mode"
    using assms(2) by (intro mode_acceptable_kind) (auto simp: stat_kinds_def)
  then show ?thesis using assms(3) Some
    by (auto simp: char_alloc_total [OF assms(1)] ocoms_path_access_def os_path_joined room_from_root joined_from_root file_in_def
        found_at_def split: option.splits)
qed

lemma search_at:
  "(\<lambda>d. Option.bind (dir_named c env d) (file_in c mode fname)) = (\<lambda>d. case dir_named c env d of None \<Rightarrow> None
     | Some dir \<Rightarrow> found_at c mode (if take 1 dir = ''/'' then dir @ ''/'' @ fname else ''/'' @ dir @ ''/'' @ fname))"
  by (simp add: file_in_def from_root_def fun_eq_iff split: option.splits)

lemma path_search_ok:
  assumes "vector_rep envv env" and "argv_mem_total (pc_mem c)" and "stat_kinds c" "\<not> ocoms_path_is_absolute fname"
  shows "represents cs ds \<Longrightarrow> path_search c fname mode envv cs =
    Some (first_some (\<lambda>d. Option.bind (dir_named c env d) (file_in c mode fname)) ds)"
proof (induction ds arbitrary: cs)
  case Nil
  then show ?case by (cases cs) (auto simp: represents_nil)
next
  case (Cons d ds)
  then obtain cs' where "cs = Some d # cs'" "represents cs' ds"
    by (cases cs) (auto simp: represents_cons, auto simp: represents_def)
  then show ?case using Cons.IH
    by (auto simp: search_dir_ok [OF assms(1,2)] access_in_dir [OF assms(2-4)] split: option.splits)
qed

lemma append_total:
  assumes "argv_rep argv xs" and "argv_mem_ok m" "argv_mem_total m" and "int (length xs) + 2 \<le> INT_MAX"
  shows "\<exists>cs. ocoms_argv_append m argc argv arg = Some (OCOMS_SUCCESS, int (length xs) + 1, Some cs) \<and> represents cs (xs @ [arg])"
  using append_ok [OF assms(1,2,4), of argc arg] assms(3) by auto

lemma env_load_ok:
  assumes "argv_mem_ok m" and "argv_mem_total m"
  shows "argv_rep argv xs \<Longrightarrow> int (length xs) + int (length path) + 2 \<le> INT_MAX \<Longrightarrow>
    \<exists>argv'. path_env_load m path (int (length xs), argv) = Some (int (length (xs @ tokens False OCOMS_ENV_SEP path)), argv') \<and>
      argv_rep argv' (xs @ tokens False OCOMS_ENV_SEP path)"
proof (induction "length path" arbitrary: path xs argv rule: less_induct)
  case less
  let ?d = "takeWhile (\<lambda>x. x \<noteq> OCOMS_ENV_SEP) path" and ?r = "dropWhile (\<lambda>x. x \<noteq> OCOMS_ENV_SEP) path"
  show ?case
  proof (cases "path = []")
    case True
    then show ?thesis using less.prems by (simp add: path_env_load.simps)
  next
    case ne: False
    then have shorter: "length (tl ?r) < length path" by (rule tl_dropWhile_shorter)
    have toks: "tokens False OCOMS_ENV_SEP path = (if ?d = [] then [] else [?d]) @ tokens False OCOMS_ENV_SEP (tl ?r)"
    proof (cases "?r = []")
      case True
      then have "path = ?d" by (rule token_split(3))
      then have "tokens False OCOMS_ENV_SEP path = [?d]"
        using ne token_split(1) [of OCOMS_ENV_SEP path] tokens_single [of OCOMS_ENV_SEP path False] by simp
      moreover have "?d \<noteq> []" using \<open>path = ?d\<close> ne by metis
      ultimately show ?thesis unfolding True by simp
    next
      case False
      from tokens_step [OF False, of False] show ?thesis by (simp add: drop_Suc)
    qed
    show ?thesis
    proof (cases "?d = []")
      case True
      moreover have "int (length xs) + int (length (tl ?r)) + 2 \<le> INT_MAX" using shorter less.prems(2) by simp
      moreover have "path_env_load m path (int (length xs), argv) = path_env_load m (tl ?r) (int (length xs), argv)"
        using ne True by (subst path_env_load.simps) simp
      ultimately show ?thesis using less.hyps [OF shorter less.prems(1)] unfolding toks by simp
    next
      case False
      have "int (length xs) + 2 \<le> INT_MAX" using less.prems(2) by simp
      then obtain cs where cs: "ocoms_argv_append m (int (length xs)) argv ?d = Some (OCOMS_SUCCESS, int (length xs) + 1, Some cs)"
        "represents cs (xs @ [?d])" using append_total [OF less.prems(1) assms] by blast
      have "argv_rep (Some cs) (xs @ [?d])" "int (length (xs @ [?d])) + int (length (tl ?r)) + 2 \<le> INT_MAX"
        using cs(2) shorter less.prems(2) by simp_all
      from less.hyps [OF shorter this] obtain argv' where
        "path_env_load m (tl ?r) (int (length (xs @ [?d])), Some cs) =
           Some (int (length ((xs @ [?d]) @ tokens False OCOMS_ENV_SEP (tl ?r))), argv')"
        "argv_rep argv' ((xs @ [?d]) @ tokens False OCOMS_ENV_SEP (tl ?r))" by blast
      moreover have "path_env_load m path (int (length xs), argv) = path_env_load m (tl ?r) (int (length (xs @ [?d])), Some cs)"
        using ne False cs(1) by (subst path_env_load.simps) (simp add: add.commute)
      ultimately show ?thesis unfolding toks using False by simp
    qed
  qed
qed

lemma replace_dots_ok:
  assumes "argv_mem_total m"
  shows "represents cs xs \<Longrightarrow> k \<le> length xs \<Longrightarrow>
    \<exists>cs'. replace_dots m w [k..<length xs] (f, Some cs) = Some (f \<or> ''.'' \<in> set (drop k xs), Some cs') \<and>
      represents cs' (take k xs @ map (\<lambda>d. if d = ''.'' then w else d) (drop k xs))"
proof (induction "length xs - k" arbitrary: k xs cs f)
  case 0
  then show ?case by simp
next
  case (Suc n)
  then have k: "k < length xs" and upt: "[k..<length xs] = k # [Suc k..<length xs]" by (simp_all add: upt_conv_Cons)
  have d: "drop k xs = xs ! k # drop (Suc k) xs" using k by (simp add: Cons_nth_drop_Suc)
  have c: "rdn cs k = Some (Some (xs ! k))" using Suc.prems(1) k by (simp add: represents_def)
  show ?case
  proof (cases "xs ! k = ''.''")
    case False
    have "\<exists>cs'. replace_dots m w [Suc k..<length xs] (f, Some cs) = Some (f \<or> ''.'' \<in> set (drop (Suc k) xs), Some cs') \<and>
      represents cs' (take (Suc k) xs @ map (\<lambda>d. if d = ''.'' then w else d) (drop (Suc k) xs))"
      using Suc.hyps(1) [of xs "Suc k" cs f] Suc.hyps(2) Suc.prems(1) k by simp
    then show ?thesis using c d k False by (simp add: upt take_Suc_conv_app_nth)
  next
    case True
    let ?xs = "xs[k := w]"
    have "represents (cs[k := Some w]) ?xs" using Suc.prems(1) k by (auto simp: represents_def nth_list_update)
    then have "\<exists>cs'. replace_dots m w [Suc k..<length ?xs] (True, Some (cs[k := Some w])) = Some (True \<or> ''.'' \<in> set (drop (Suc k) ?xs), Some cs') \<and>
      represents cs' (take (Suc k) ?xs @ map (\<lambda>d. if d = ''.'' then w else d) (drop (Suc k) ?xs))"
      using Suc.hyps(1) [of ?xs "Suc k" "cs[k := Some w]" True] Suc.hyps(2) k by simp
    then show ?thesis using c d k True assms by (simp add: upt take_Suc_conv_app_nth)
  qed
qed

lemma findv_dirs_ok:
  assumes rep: "vector_rep envv env" and mem: "argv_mem_ok (pc_mem c)" "argv_mem_total (pc_mem c)"
    and path: "env_get c env ''PATH'' = path"
    and room: "\<And>p. path = Some p \<Longrightarrow> int (length p) + 3 \<le> INT_MAX"
  shows "\<exists>dirv. findv_dirs c envv wrkdir = Some dirv \<and> argv_rep dirv (path_dirs path wrkdir)"
proof -
  define ds where "ds = (case path of None \<Rightarrow> [] | Some p \<Rightarrow> tokens False OCOMS_ENV_SEP p)"
  have get: "list_env_get c ''PATH'' envv = Some path" using list_env_get_ok [OF rep, of c "''PATH''"] path by simp
  obtain dirv where d: "(case path of None \<Rightarrow> Some (0, None) | Some p \<Rightarrow> path_env_load (pc_mem c) p (0, None)) = Some (int (length ds), dirv)"
    "argv_rep dirv ds"
    using env_load_ok [OF mem, of None "[]"] room by (cases path) (force simp: ds_def)+
  have len: "int (length ds) + 2 \<le> INT_MAX"
  proof (cases path)
    case (Some p)
    have "length ds \<le> length (Argv.fields OCOMS_ENV_SEP p)" by (simp add: ds_def Some tokens_def)
    then show ?thesis using length_fields [of OCOMS_ENV_SEP p] room [OF Some] by simp
  qed (simp add: ds_def INT_MAX_def)
  show ?thesis
  proof (cases wrkdir)
    case None
    then show ?thesis using get d by (auto simp: findv_dirs_def path_dirs_def ds_def Let_def)
  next
    case (Some w)
    have "\<exists>dirv'. replace_dots (pc_mem c) w [0..<length ds] (False, dirv) = Some (''.'' \<in> set ds, dirv') \<and>
      argv_rep dirv' (map (\<lambda>d. if d = ''.'' then w else d) ds)"
    proof (cases dirv)
      case (Some cs)
      then show ?thesis using replace_dots_ok [OF mem(2), of cs ds 0 w False] d(2) by auto
    qed (use d(2) in simp)
    then obtain dirv' where r: "replace_dots (pc_mem c) w [0..<length ds] (False, dirv) = Some (''.'' \<in> set ds, dirv')"
      "argv_rep dirv' (map (\<lambda>d. if d = ''.'' then w else d) ds)" by blast
    show ?thesis
    proof (cases "''.'' \<in> set ds")
      case True
      then show ?thesis using get d(1) r Some by (simp add: findv_dirs_def path_dirs_def ds_def [symmetric] Let_def)
    next
      case False
      then have "map (\<lambda>d. if d = ''.'' then w else d) ds = ds" by (intro map_idI) auto
      with r(2) have "argv_rep dirv' ds" by simp
      from append_total [OF this mem len] obtain cs where
        "ocoms_argv_append (pc_mem c) (int (length ds)) dirv' w = Some (OCOMS_SUCCESS, int (length ds) + 1, Some cs)" "represents cs (ds @ [w])"
        by blast
      then show ?thesis using get d(1) r(1) Some False by (simp add: findv_dirs_def path_dirs_def ds_def [symmetric] Let_def)
    qed
  qed
qed

section \<open>Properties\<close>

text \<open>
  C36: what the search along the path of the given environment, else of the process, finds is the first of
  the composed names at which there is a file that is taken.  A working directory replaces the dots in the path,
  or is searched last.  A directory that is not absolute is looked for below the root, never in the working
  directory of the process; and a file is taken unless it is a directory or a pipe, so sockets and devices are
  taken as well, when the bits for its owner allow what is asked.
\<close>

theorem findv_first_accessible:
  assumes "vector_rep envv env" and "argv_mem_ok (pc_mem c)" "argv_mem_total (pc_mem c)"
    and "env_get c env ''PATH'' = path" and "\<And>p. path = Some p \<Longrightarrow> int (length p) + 3 \<le> INT_MAX"
    and "\<not> ocoms_path_is_absolute fname" and "stat_kinds c"
  shows "ocoms_path_findv c fname mode envv wrkdir =
    Some (first_some (\<lambda>d. case dir_named c env d of None \<Rightarrow> None
        | Some dir \<Rightarrow> found_at c mode (if take 1 dir = ''/'' then dir @ ''/'' @ fname else ''/'' @ dir @ ''/'' @ fname))
      (path_dirs path wrkdir))"
proof -
  obtain dirv where d: "findv_dirs c envv wrkdir = Some dirv" "argv_rep dirv (path_dirs path wrkdir)"
    using findv_dirs_ok [OF assms(1-5)] by blast
  then show ?thesis using assms(6) path_search_ok [OF assms(1,3,7,6)] unfolding search_at by (cases dirv) (auto simp: ocoms_path_findv_def ocoms_path_find_def)
qed

definition path_example :: path_ctx where
  "path_example = \<lparr>pc_mem = mem_always,
     pc_stat = [''/usr/bin/cc'' \<mapsto> 0x81ED, ''/home/e/cc'' \<mapsto> 0x81A4, ''/work/cc'' \<mapsto> 0x81ED,
       ''bin/ld'' \<mapsto> 0x81ED, ''/bin/ld'' \<mapsto> 0x81ED, ''/work/io'' \<mapsto> 0xC1ED, ''/home/io'' \<mapsto> 0x41ED],
     pc_statfs = (\<lambda>_ _. Statfs_failed), pc_getenv = [''H'' \<mapsto> ''/home''], pc_getcwd = None, pc_realpath = Some\<rparr>"

lemma path_example_kinds: "stat_kinds path_example"
  by (auto simp: stat_kinds_def path_example_def file_kind_def file_kinds_def kind_defs split: if_splits)

text \<open>
  A search with variables, a file that may not be executed and a dot; a relative directory, looked for below the
  root; and a socket, taken after a directory of its name was not.
\<close>

theorem findv_first_accessible_witness:
  "ocoms_path_findv path_example ''cc'' X_OK (Some [Some ''PATH=$H/e:$N::.'', None]) (Some ''/work'') = Some (Some ''/work/cc'') \<and>
   ocoms_path_findv path_example ''ld'' X_OK (Some [Some ''PATH=bin'', None]) None = Some (Some ''/bin/ld'') \<and>
   ocoms_path_findv path_example ''io'' R_OK (Some [Some ''PATH=$H:/work'', None]) None = Some (Some ''/work/io'')"
proof -
  let ?env = "\<lambda>p. Some [''PATH='' @ p]"
  have run: "ocoms_path_findv path_example fname mode (Some [Some (''PATH='' @ p), None]) w =
      Some (first_some (\<lambda>d. case dir_named path_example (?env p) d of None \<Rightarrow> None
          | Some dir \<Rightarrow> found_at path_example mode (if take 1 dir = ''/'' then dir @ ''/'' @ fname else ''/'' @ dir @ ''/'' @ fname))
        (path_dirs (Some p) w))"
    if "length p < 99" "\<not> ocoms_path_is_absolute fname" for fname mode p w
  proof (rule findv_first_accessible)
    show "argv_mem_ok (pc_mem path_example)" "argv_mem_total (pc_mem path_example)" by (simp_all add: path_example_def)
    show "vector_rep (Some [Some (''PATH='' @ p), None]) (?env p)" by (simp add: represents_def)
    show "env_get path_example (?env p) ''PATH'' = Some p" by (simp add: env_get_def)
    show "int (length q) + 3 \<le> INT_MAX" if "Some p = Some q" for q using that \<open>length p < 99\<close> by (simp add: INT_MAX_def)
  qed (use that path_example_kinds in simp_all)
  have relative: "\<not> ocoms_path_is_absolute ''cc''" "\<not> ocoms_path_is_absolute ''ld''" "\<not> ocoms_path_is_absolute ''io''"
    by (simp_all add: ocoms_path_is_absolute_def path_sep_def)
  have dirs: "path_dirs (Some ''$H/e:$N::.'') (Some ''/work'') = [''$H/e'', ''$N'', ''/work'']" "path_dirs (Some ''bin'') None = [''bin'']"
    "path_dirs (Some ''$H:/work'') None = [''$H'', ''/work'']"
    by (simp_all add: path_dirs_def tokens_def OCOMS_ENV_SEP_def)
  have at: "found_at path_example X_OK ''/home/e/cc'' = None" "found_at path_example X_OK ''/work/cc'' = Some ''/work/cc''"
    "found_at path_example X_OK ''/bin/ld'' = Some ''/bin/ld''" "found_at path_example R_OK ''/home/io'' = None"
    "found_at path_example R_OK ''/work/io'' = Some ''/work/io''"
    by (simp_all add: found_at_def path_example_def OCOMS_PATH_MAX_def file_kind_def kind_defs owner_may_def X_OK_def R_OK_def)
  have named: "dir_named path_example (Some [''PATH=$H/e:$N::.'']) ''$H/e'' = Some ''/home/e''"
    "dir_named path_example (Some [''PATH=$H/e:$N::.'']) ''$N'' = None" "dir_named path_example (Some [''PATH=$H/e:$N::.'']) ''/work'' = Some ''/work''"
    "dir_named path_example (Some [''PATH=bin'']) ''bin'' = Some ''bin''" "dir_named path_example (Some [''PATH=$H:/work'']) ''$H'' = Some ''/home''"
    "dir_named path_example (Some [''PATH=$H:/work'']) ''/work'' = Some ''/work''"
    by (simp_all add: dir_named_def env_get_def path_sep_def path_example_def)
  show ?thesis
    using run [of "''$H/e:$N::.''" "''cc''" X_OK "Some ''/work''"] run [of "''bin''" "''ld''" X_OK None]
      run [of "''$H:/work''" "''io''" R_OK None]
    by (simp add: relative dirs named at)
qed

lemma statfs_trials_ok:
  "f (i + k) = Statfs_ok buf \<Longrightarrow> \<forall>j < k. f (i + j) = Statfs_stale \<Longrightarrow> k \<le> n \<Longrightarrow> statfs_trials f i n = Statfs_ok buf"
proof (induction k arbitrary: i n)
  case 0
  then show ?case by (cases n) simp_all
next
  case (Suc k)
  then obtain m where "n = Suc m" "k \<le> m" by (cases n) auto
  moreover have "f i = Statfs_stale" using Suc.prems(2) by force
  moreover have "\<forall>j < k. f (Suc i + j) = Statfs_stale" using Suc.prems(2) by force
  ultimately show ?case using Suc.IH [of "Suc i" m] Suc.prems(1) by simp
qed

lemma int_negative: "sint (ucast w :: 32 word) < 0 \<longleftrightarrow> bit (w :: 64 word) 31"
  by (simp add: bit_last_iff [symmetric] bit_ucast_iff)

text \<open>
  C37: the space reported for a path is that of its file system, after at most four stale answers, but
  nothing where the number of free blocks has bit 31 set.
\<close>

theorem df_drops_large_counts:
  assumes "pc_statfs c p k = Statfs_ok buf" and "\<forall>j < k. pc_statfs c p j = Statfs_stale" and "k \<le> 4"
  shows "ocoms_path_df c (Some p) (Some x) =
    (OCOMS_SUCCESS, Some (if bit (f_bavail buf) 31 then 0 else f_bsize buf * f_bavail buf))"
  using statfs_trials_ok [of "pc_statfs c p" 0 k buf 4] assms by (simp add: ocoms_path_df_def int_negative)

theorem df_drops_large_counts_witness:
  "ocoms_path_df (path_example\<lparr>pc_statfs := \<lambda>_ i. if i = 0 then Statfs_stale else Statfs_ok \<lparr>f_type = 0xEF53, f_bsize = 4096, f_bavail = 0x80000000\<rparr>\<rparr>)
     (Some ''/home'') (Some 7) = (OCOMS_SUCCESS, Some 0)"
proof -
  let ?b = "\<lparr>f_type = 0xEF53, f_bsize = 4096, f_bavail = 0x80000000\<rparr>"
  have "bit (f_bavail ?b) 31" by (simp add: bit_word_iff_drop_bit_and drop_bit_eq_div)
  then show ?thesis
    using df_drops_large_counts [of "path_example\<lparr>pc_statfs := \<lambda>_ i. if i = 0 then Statfs_stale else Statfs_ok ?b\<rparr>" "''/home''" 1 ?b 7]
    by simp
qed

end
