(* ===== verification/Mca_Files.thy ===== *)
theory Mca_Files
  imports Mca_Registration Path
begin

text \<open>
  The parameter files of the MCA variables: \<open>ocoms/mca/base/mca_base_parse_paramfile.c\<close>, and the functions of
  \<open>mca_base_var.c\<close> that find and read the files when the system starts.  \<open>ocoms_mca_base_var_cache_files\<close>
  is the parameter \<open>cache\<close> of \<open>ocoms_mca_base_var_init\<close> (theory \<open>Mca_Init\<close>); the system is ready
  when it runs, so that its own registrations do not initialise again.
\<close>

section \<open>Reading parameter files\<close>

text \<open>
  What the system is given besides: the modes of files, the working directory, the contents of the
  files that can be opened, whether a name exists, memory for names, the installation's directories,
  and whether the build has \<open>OCOMS_WANT_HOME_CONFIG_FILES\<close>.
\<close>

record files_ctx =
  fc_mca :: mca_ctx
  fc_stat :: "string \<Rightarrow> 32 word option"
  fc_getcwd :: "string option"
  fc_fopen :: "string \<Rightarrow> string option"
  fc_access :: "string \<Rightarrow> bool"
  fc_realloc :: "nat \<Rightarrow> bool"
  fc_sysconfdir :: string
  fc_pkgdatadir :: string
  fc_home_files :: bool

abbreviation fc_mem :: "files_ctx \<Rightarrow> argv_mem" where "fc_mem c \<equiv> mc_mem (fc_mca c)"

type_synonym file_values = "ocoms_mca_base_var_file_value_t list"

text \<open>An assignment replaces the value of an entry of that name, or makes a new one.\<close>

fun save_value :: "mca_ctx \<Rightarrow> string \<Rightarrow> string \<Rightarrow> string option \<Rightarrow> file_values \<Rightarrow> file_values option" where
  "save_value c file_being_read name v [] =
     Some (if mc_obj_new c
           then [\<lparr>mbvfv_var = strdup (mc_mem c) name, mbvfv_value = strdup_opt (mc_mem c) v, mbvfv_file = Some file_being_read\<rparr>]
           else [])"
| "save_value c file_being_read name v (fv # fvs) = do {
     n \<leftarrow> mbvfv_var fv;
     if name = n then Some (fv\<lparr>mbvfv_value := strdup_opt (mc_mem c) v, mbvfv_file := Some file_being_read\<rparr> # fvs)
     else map_option (Cons fv) (save_value c file_being_read name v fvs) }"

definition ocoms_mca_base_parse_paramfile ::
  "files_ctx \<Rightarrow> string \<Rightarrow> key_buffer \<times> file_values \<Rightarrow> (int \<times> key_buffer \<times> file_values) option" where
  "ocoms_mca_base_parse_paramfile c paramfile st =
     ocoms_util_keyval_parse (fc_fopen c) (fc_realloc c) paramfile (save_value (fc_mca c) paramfile) st"

text \<open>The files are read from the last to the first.\<close>

definition read_files :: "files_ctx \<Rightarrow> mca \<Rightarrow> string option \<Rightarrow> file_values \<Rightarrow> (int \<times> mca \<times> file_values) option" where
  "read_files c s file_list fvs = do {
     files \<leftarrow> ocoms_argv_split (fc_mem c) file_list OCOMS_ENV_SEP;
     n \<leftarrow> ocoms_argv_count files;
     (kb, fvs') \<leftarrow> foldM (\<lambda>i st. do {
         cs \<leftarrow> files;
         p \<leftarrow> rdn cs i;
         name \<leftarrow> p;
         (_, st') \<leftarrow> ocoms_mca_base_parse_paramfile c name st;
         Some st' }) (rev [0..<nat n]) (vs_key_buffer s, fvs);
     Some (OCOMS_SUCCESS, s\<lparr>vs_file_list := files, vs_key_buffer := kb\<rparr>, fvs') }"

section \<open>Where the files are\<close>

text \<open>The part of \<open>path_ctx\<close> that the search for parameter files uses.\<close>

definition search_ctx :: "files_ctx \<Rightarrow> path_ctx" where
  "search_ctx c = \<lparr>pc_mem = fc_mem c, pc_stat = fc_stat c, pc_statfs = \<lambda>_ _. Statfs_failed,
     pc_getenv = mc_getenv (fc_mca c), pc_getcwd = fc_getcwd c, pc_realpath = \<lambda>_. None\<rparr>"

text \<open>The contents of a static \<open>char *\<close>, and its update.\<close>

definition string_at :: "mca \<Rightarrow> nat \<Rightarrow> string option option" where
  "string_at s a = (case vs_store s a of Some (String_store x) \<Rightarrow> Some x | _ \<Rightarrow> None)"

definition put_string :: "nat \<Rightarrow> string option \<Rightarrow> mca \<Rightarrow> mca" where
  "put_string a x s = s\<lparr>vs_store := (vs_store s)(a := Some (String_store x))\<rparr>"

text \<open>
  The name under which a file of the list is found: an absolute one as it is, one with a separator
  in the forced directory or the working directory, any other along the search path.
\<close>

definition resolve_file :: "files_ctx \<Rightarrow> mca \<Rightarrow> cells option \<Rightarrow> bool \<Rightarrow> string \<Rightarrow> string option option" where
  "resolve_file c s search_path rel_path_search f =
     (if ocoms_path_is_absolute f then
        map_option (\<lambda>r. if r = None then None else Some f) (ocoms_path_access (search_ctx c) f None R_OK)
      else if \<not> rel_path_search \<and> path_sep \<in> set f then do {
        force \<leftarrow> string_at s ADDR_FORCE_PATH;
        ocoms_path_access (search_ctx c) f (if force \<noteq> None then force else vs_cwd s) R_OK }
      else ocoms_path_find (search_ctx c) f search_path R_OK None)"

text \<open>No vector is the jump to the error exit.\<close>

fun fixup_loop ::
  "files_ctx \<Rightarrow> mca \<Rightarrow> cells option \<Rightarrow> bool \<Rightarrow> cells \<Rightarrow> int \<times> cells option \<Rightarrow> (int \<times> cells option) option option" where
  "fixup_loop c s search_path rel [] argv = None"
| "fixup_loop c s search_path rel (None # fs) argv = Some (Some argv)"
| "fixup_loop c s search_path rel (Some f # fs) argv = do {
     r \<leftarrow> resolve_file c s search_path rel f;
     case r of None \<Rightarrow> Some None
     | Some name \<Rightarrow> do {
         (_, argv') \<leftarrow> ocoms_argv_append (fc_mem c) (fst argv) (snd argv) name;
         fixup_loop c s search_path rel fs argv' } }"

definition fixup_files :: "files_ctx \<Rightarrow> mca \<Rightarrow> string option \<Rightarrow> string option \<Rightarrow> bool \<Rightarrow> (int \<times> string option) option" where
  "fixup_files c s file_list path rel_path_search = do {
     search_path \<leftarrow> ocoms_argv_split (fc_mem c) path OCOMS_ENV_SEP;
     files \<leftarrow> ocoms_argv_split (fc_mem c) file_list OCOMS_ENV_SEP;
     r \<leftarrow> (case files of None \<Rightarrow> Some (Some (0, None))
       | Some fs \<Rightarrow> fixup_loop c s search_path rel_path_search fs (0, None));
     case r of None \<Rightarrow> Some (OCOMS_ERROR, file_list)
     | Some argv \<Rightarrow> do {
         joined \<leftarrow> ocoms_argv_join (fc_mem c) (snd argv) OCOMS_ENV_SEP;
         Some (OCOMS_SUCCESS, joined) } }"

section \<open>Finding and reading the files at the start\<close>

definition MCA_BASE_VAR_SCOPE_CONSTANT :: int where "MCA_BASE_VAR_SCOPE_CONSTANT = 0"
definition MCA_BASE_VAR_SCOPE_READONLY :: int where "MCA_BASE_VAR_SCOPE_READONLY = 1"

definition base_spec :: "string \<Rightarrow> string \<Rightarrow> ocoms_mca_base_var_type_t \<Rightarrow> flags \<Rightarrow> int \<Rightarrow> int \<Rightarrow> nat \<Rightarrow> var_spec" where
  "base_spec name description ty flags lvl scope a =
     \<lparr>vr_project = Some ''ocoms'', vr_framework = Some ''mca'', vr_component = Some ''base'', vr_name = Some name,
      vr_description = Some description, vr_type = ty, vr_enumerator = None, vr_bind = 0, vr_flags = flags,
      vr_info_lvl = lvl, vr_scope = scope, vr_synonym_for = 0, vr_storage = Some a\<rparr>"

text \<open>
  A string made by \<open>asprintf\<close> becomes the value of a static variable, which is then registered, and
  the string is released: registering copied it, unless it failed and left the dangling pointer.
\<close>

definition register_string ::
  "files_ctx \<Rightarrow> mca \<Rightarrow> string \<Rightarrow> string \<Rightarrow> string \<Rightarrow> flags \<Rightarrow> int \<Rightarrow> int \<Rightarrow> nat \<Rightarrow> (int \<times> mca) option" where
  "register_string c s str name description flags lvl scope a = do {
     (ret, s1) \<leftarrow> ocoms_mca_base_var_register (\<lambda>s. Some (OCOMS_SUCCESS, s)) (fc_mca c) (put_string a (Some str) s)
       (base_spec name description MCA_BASE_VAR_TYPE_STRING flags lvl scope a);
     Some (ret, if ret < 0 then s1\<lparr>vs_store := (vs_store s1)(a := None)\<rparr> else s1) }"

definition register_null ::
  "files_ctx \<Rightarrow> mca \<Rightarrow> string \<Rightarrow> string \<Rightarrow> int \<Rightarrow> int \<Rightarrow> nat \<Rightarrow> (int \<times> mca) option" where
  "register_null c s name description lvl scope a =
     ocoms_mca_base_var_register (\<lambda>s. Some (OCOMS_SUCCESS, s)) (fc_mca c) (put_string a None s)
       (base_spec name description MCA_BASE_VAR_TYPE_STRING 0 lvl scope a)"

definition cache_dirs :: "files_ctx \<Rightarrow> mca \<Rightarrow> mca" where
  "cache_dirs c s = s\<lparr>vs_home := ocoms_home_directory (mc_getenv (fc_mca c)),
     vs_cwd := (if vs_cwd s \<noteq> None then vs_cwd s
                else case fc_getcwd c of Some d \<Rightarrow> Some d | None \<Rightarrow> strdup (fc_mem c) ''.'')\<rparr>"

text \<open>The names of the parameter files, and of the override file, from which no variable can be set otherwise.\<close>

definition cache_names :: "files_ctx \<Rightarrow> mca \<Rightarrow> (int \<times> bool \<times> mca) option" where
  "cache_names c s = do {
     files \<leftarrow> (if fc_home_files c then do {
         h \<leftarrow> vs_home s;
         strdup (fc_mem c) (h @ ''/.openmpi/mca-params.conf'' @ [OCOMS_ENV_SEP] @ fc_sysconfdir c @ ''/openmpi-mca-params.conf'') }
       else strdup (fc_mem c) (fc_sysconfdir c @ ''/openmpi-mca-params.conf''));
     (ret, s1) \<leftarrow> register_string c s files ''param_files'' ''Path for MCA configuration files containing variable values''
        0 1 MCA_BASE_VAR_SCOPE_READONLY ADDR_FILES;
     if ret \<noteq> OCOMS_SUCCESS then Some (ret, True, s1)
     else do {
       (_, s2) \<leftarrow> ocoms_mca_base_var_register_synonym (\<lambda>s. Some (OCOMS_SUCCESS, s)) (fc_mca c) s1 ret (Some ''ocoms'') (Some ''mca'')
         None (Some ''param_files'') MCA_BASE_VAR_SYN_FLAG_DEPRECATED;
       case strdup (fc_mem c) (fc_sysconfdir c @ ''/openmpi-mca-params-override.conf'') of
         None \<Rightarrow> Some (OCOMS_ERR_OUT_OF_RESOURCE, True, s2)
       | Some override \<Rightarrow> do {
           (ret, s3) \<leftarrow> register_string c s2 override ''override_param_file''
             ''Variables set in this file will override any value set in the environment or another configuration file''
             MCA_BASE_VAR_FLAG_DEFAULT_ONLY 1 MCA_BASE_VAR_SCOPE_CONSTANT ADDR_OVERRIDE_FILE;
           if ret < 0 then Some (ret, True, s3)
           else do {
             fs \<leftarrow> string_at s3 ADDR_FILES;
             f \<leftarrow> fs;
             Some (OCOMS_SUCCESS, f = ''none'', s3) } } } }"

text \<open>The search path of aggregate files, in front of which a forced one is put.\<close>

definition cache_search_path :: "files_ctx \<Rightarrow> mca \<Rightarrow> (int \<times> bool \<times> mca) option" where
  "cache_search_path c s = do {
     (_, s1) \<leftarrow> ocoms_mca_base_var_register (\<lambda>s. Some (OCOMS_SUCCESS, s)) (fc_mca c)
       (s\<lparr>vs_store := (vs_store s)(ADDR_SUPPRESS_WARNING := Some (Bool_store False))\<rparr>)
       (base_spec ''suppress_override_warning'' ''Suppress warnings when attempting to set an overridden value (default: false)''
         MCA_BASE_VAR_TYPE_BOOL 0 1 MCA_BASE_VAR_SCOPE_LOCAL ADDR_SUPPRESS_WARNING);
     (_, s2) \<leftarrow> register_null c s1 ''param_file_prefix'' ''Aggregate MCA parameter file sets'' 2 MCA_BASE_VAR_SCOPE_READONLY ADDR_FILE_PREFIX;
     cwd \<leftarrow> vs_cwd s2;
     case strdup (fc_mem c) (fc_pkgdatadir c @ ''/amca-param-sets'' @ [OCOMS_ENV_SEP] @ cwd) of
       None \<Rightarrow> Some (OCOMS_ERR_OUT_OF_RESOURCE, True, s2)
     | Some path \<Rightarrow> do {
         (ret, s3) \<leftarrow> register_string c s2 path ''param_file_path'' ''Aggregate MCA parameter Search path'' 0 2
           MCA_BASE_VAR_SCOPE_READONLY ADDR_FILE_PATH;
         if ret < 0 then Some (ret, True, s3)
         else do {
           (ret, s4) \<leftarrow> register_null c s3 ''param_file_path_force'' ''Forced Aggregate MCA parameter Search path'' 2
             MCA_BASE_VAR_SCOPE_READONLY ADDR_FORCE_PATH;
           if ret < 0 then Some (ret, True, s4)
           else do {
             force \<leftarrow> string_at s4 ADDR_FORCE_PATH;
             search \<leftarrow> string_at s4 ADDR_FILE_PATH;
             case force of None \<Rightarrow> Some (OCOMS_SUCCESS, False, s4)
             | Some d \<Rightarrow> (case search of
                   Some tmp_str \<Rightarrow> do {
                     joined \<leftarrow> strdup (fc_mem c) (d @ [OCOMS_ENV_SEP] @ tmp_str);
                     Some (OCOMS_SUCCESS, False, put_string ADDR_FILE_PATH (Some joined) s4) }
                 | None \<Rightarrow> Some (OCOMS_SUCCESS, False, put_string ADDR_FILE_PATH (strdup (fc_mem c) d) s4)) } } } }"

text \<open>The aggregate files go in front of the parameter files, if all of them are found.\<close>

definition cache_prefix :: "files_ctx \<Rightarrow> bool \<Rightarrow> mca \<Rightarrow> mca option" where
  "cache_prefix c rel_path_search s = do {
     prefix \<leftarrow> string_at s ADDR_FILE_PREFIX;
     if prefix = None then Some s
     else do {
       path \<leftarrow> string_at s ADDR_FILE_PATH;
       (ret, found) \<leftarrow> fixup_files c s prefix path rel_path_search;
       let s1 = put_string ADDR_FILE_PREFIX found s;
       if ret \<noteq> OCOMS_SUCCESS then Some s1
       else do {
         p \<leftarrow> found;
         files \<leftarrow> string_at s1 ADDR_FILES;
         f \<leftarrow> files;
         new \<leftarrow> strdup (fc_mem c) (p @ [OCOMS_ENV_SEP] @ f);
         Some (put_string ADDR_FILES (Some new) s1) } } }"

definition ocoms_mca_base_var_cache_files :: "files_ctx \<Rightarrow> bool \<Rightarrow> mca \<Rightarrow> (int \<times> mca) option" where
  "ocoms_mca_base_var_cache_files c rel_path_search s = do {
     (ret, stop, s1) \<leftarrow> cache_names c (cache_dirs c s);
     if stop then Some (ret, s1)
     else do {
       (ret, stop, s2) \<leftarrow> cache_search_path c s1;
       if stop then Some (ret, s2)
       else do {
         s3 \<leftarrow> cache_prefix c rel_path_search s2;
         files \<leftarrow> string_at s3 ADDR_FILES;
         (_, s4, fvs) \<leftarrow> read_files c s3 files (vs_file_values s3);
         let s5 = s4\<lparr>vs_file_values := fvs\<rparr>;
         override \<leftarrow> string_at s5 ADDR_OVERRIDE_FILE;
         if (case override of None \<Rightarrow> False | Some f \<Rightarrow> fc_access c f) then do {
           (_, s6, ovs) \<leftarrow> read_files c s5 override (vs_override_values s5);
           Some (OCOMS_SUCCESS, s6\<lparr>vs_override_values := ovs\<rparr>) }
         else Some (OCOMS_SUCCESS, s5) } } }"

section \<open>What the files say\<close>

text \<open>The value and the file that a list of values has for a name.\<close>

definition fv_lookup :: "file_values \<Rightarrow> string \<Rightarrow> (string option \<times> string option) option" where
  "fv_lookup fvs n = map_option (\<lambda>fv. (mbvfv_value fv, mbvfv_file fv)) (find (\<lambda>fv. mbvfv_var fv = Some n) fvs)"

definition fvs_ok :: "file_values \<Rightarrow> bool" where
  "fvs_ok fvs \<longleftrightarrow> None \<notin> mbvfv_var ` set fvs \<and> distinct (map mbvfv_var fvs)"

text \<open>What the last assignment of a file to a name gives it.\<close>

definition assigned :: "param_line list option \<Rightarrow> string \<Rightarrow> string option option" where
  "assigned content n = (case content of None \<Rightarrow> None | Some ls \<Rightarrow> map_of (rev (file_assigns ls)) n)"

definition strings_memory :: "mca_ctx \<Rightarrow> bool" where
  "strings_memory c \<longleftrightarrow> argv_mem_ok (mc_mem c) \<and> argv_mem_total (mc_mem c) \<and> mc_obj_new c"

lemma strdup_opt_strings: "argv_mem_total m \<Longrightarrow> strdup_opt m v = v"
  by (cases v) (simp_all add: strdup_opt_def)

lemma save_value_ok:
  assumes "strings_memory c"
  shows "fvs_ok fvs \<Longrightarrow> \<exists>fvs'. save_value c f n v fvs = Some fvs' \<and> fvs_ok fvs' \<and>
    mbvfv_var ` set fvs' = insert (Some n) (mbvfv_var ` set fvs) \<and> fv_lookup fvs' = (fv_lookup fvs)(n \<mapsto> (v, Some f))"
proof (induction fvs)
  case Nil
  then show ?case using assms by (auto simp: strings_memory_def strdup_opt_strings fvs_ok_def fv_lookup_def fun_eq_iff)
next
  case (Cons fv fvs)
  obtain m where m: "mbvfv_var fv = Some m" using Cons.prems by (cases "mbvfv_var fv") (simp_all add: fvs_ok_def)
  show ?case
  proof (cases "n = m")
    case True
    then show ?thesis using Cons.prems m assms
      by (auto simp: strings_memory_def strdup_opt_strings fvs_ok_def fv_lookup_def fun_eq_iff)
  next
    case False
    have "fvs_ok fvs" using Cons.prems by (simp add: fvs_ok_def)
    with Cons.IH obtain fvs' where I: "save_value c f n v fvs = Some fvs'" "fvs_ok fvs'"
      "mbvfv_var ` set fvs' = insert (Some n) (mbvfv_var ` set fvs)" "fv_lookup fvs' = (fv_lookup fvs)(n \<mapsto> (v, Some f))" by blast
    have "fv_lookup (fv # fvs') = (fv_lookup (fv # fvs))(n \<mapsto> (v, Some f))"
      using I(4) m False by (auto simp: fv_lookup_def fun_eq_iff)
    moreover have "fvs_ok (fv # fvs')" using Cons.prems m False I(2,3) unfolding fvs_ok_def list.map list.set by auto
    ultimately show ?thesis using m False I(1,3) by (intro exI [of _ "fv # fvs'"]) auto
  qed
qed

lemma save_all_ok:
  assumes "strings_memory c"
  shows "fvs_ok fvs \<Longrightarrow> \<exists>fvs'. foldM (\<lambda>(n, v). save_value c f n v) as fvs = Some fvs' \<and> fvs_ok fvs' \<and>
    fv_lookup fvs' = fv_lookup fvs ++ (\<lambda>n. map_option (\<lambda>v. (v, Some f)) (map_of (rev as) n))"
proof (induction as arbitrary: fvs)
  case Nil
  then show ?case by (auto simp: fun_eq_iff map_add_def)
next
  case (Cons a as)
  obtain n v where a: "a = (n, v)" by fastforce
  from save_value_ok [OF assms Cons.prems, of f n v] obtain fvs1 where
    1: "save_value c f n v fvs = Some fvs1" "fvs_ok fvs1" "fv_lookup fvs1 = (fv_lookup fvs)(n \<mapsto> (v, Some f))" by blast
  from Cons.IH [OF 1(2)] obtain fvs' where
    2: "foldM (\<lambda>(n, v). save_value c f n v) as fvs1 = Some fvs'" "fvs_ok fvs'"
      "fv_lookup fvs' = fv_lookup fvs1 ++ (\<lambda>n. map_option (\<lambda>v. (v, Some f)) (map_of (rev as) n))" by blast
  have "fv_lookup fvs' x = (fv_lookup fvs ++ (\<lambda>n. map_option (\<lambda>v. (v, Some f)) (map_of (rev (a # as)) n))) x" for x
    unfolding 2(3) 1(3) by (cases "map_of (rev as) x") (simp_all add: a map_add_def)
  then show ?case using 1(1) 2(1,2) by (auto simp: a)
qed

definition file_says :: "(string \<Rightarrow> param_line list option) \<Rightarrow> string \<Rightarrow> string \<Rightarrow> (string option \<times> string option) option" where
  "file_says content n f = map_option (\<lambda>v. (v, Some f)) (assigned (content f) n)"

definition readable :: "files_ctx \<Rightarrow> (string \<Rightarrow> param_line list option) \<Rightarrow> string \<Rightarrow> bool" where
  "readable c content f \<longleftrightarrow> fc_fopen c f = map_option file_text (content f) \<and> (\<forall>ls. content f = Some ls \<longrightarrow> list_all line_ok ls)"

lemma parse_paramfile_ok:
  assumes "strings_memory (fc_mca c)" "\<forall>n. fc_realloc c n" and "readable c content f" and "key_buffer_ok kb" "fvs_ok fvs"
  shows "\<exists>rc kb' fvs'. ocoms_mca_base_parse_paramfile c f (kb, fvs) = Some (rc, kb', fvs') \<and> key_buffer_ok kb' \<and> fvs_ok fvs' \<and>
    fv_lookup fvs' = fv_lookup fvs ++ (\<lambda>n. file_says content n f)"
proof (cases "content f")
  case None
  then have "ocoms_mca_base_parse_paramfile c f (kb, fvs) = Some (OCOMS_ERR_NOT_FOUND, kb, fvs)"
    using assms(3) by (simp add: ocoms_mca_base_parse_paramfile_def ocoms_util_keyval_parse_def readable_def)
  then show ?thesis using assms(4,5) None by (auto simp: file_says_def assigned_def map_add_def)
next
  case (Some ls)
  then have opened: "fc_fopen c f = Some (file_text ls)" "\<forall>l \<in> set ls. line_ok l" using assms(3) by (simp_all add: readable_def list_all_iff)
  obtain fvs' where fvs': "foldM (\<lambda>(n, v). save_value (fc_mca c) f n v) (file_assigns ls) fvs = Some fvs'" "fvs_ok fvs'"
    "fv_lookup fvs' = fv_lookup fvs ++ (\<lambda>n. map_option (\<lambda>v. (v, Some f)) (map_of (rev (file_assigns ls)) n))"
    using save_all_ok [OF assms(1,5)] by blast
  from parse_lines [of "fc_fopen c" f ls "fc_realloc c" kb "save_value (fc_mca c) f", OF opened assms(2,4) fvs'(1)]
  show ?thesis using fvs'(2,3) Some by (auto simp: ocoms_mca_base_parse_paramfile_def file_says_def assigned_def)
qed

lemma first_some_append: "first_some f (xs @ ys) = (case first_some f xs of None \<Rightarrow> first_some f ys | Some y \<Rightarrow> Some y)"
  by (induction xs) (auto split: option.splits)

text \<open>The loop over the files.\<close>

definition read_step :: "files_ctx \<Rightarrow> cells option \<Rightarrow> nat \<Rightarrow> key_buffer \<times> file_values \<Rightarrow> (key_buffer \<times> file_values) option" where
  "read_step c files i st = do {
     cs \<leftarrow> files;
     p \<leftarrow> rdn cs i;
     name \<leftarrow> p;
     (_, st') \<leftarrow> ocoms_mca_base_parse_paramfile c name st;
     Some st' }"

lemma read_loop_ok:
  assumes "strings_memory (fc_mca c)" "\<forall>n. fc_realloc c n" and "argv_rep files fs"
  shows "k \<le> length fs \<Longrightarrow> \<forall>f \<in> set (take k fs). readable c content f \<Longrightarrow> key_buffer_ok kb \<Longrightarrow> fvs_ok fvs \<Longrightarrow>
    \<exists>kb' fvs'. foldM (read_step c files) (rev [0..<k]) (kb, fvs) = Some (kb', fvs') \<and> key_buffer_ok kb' \<and> fvs_ok fvs' \<and>
      fv_lookup fvs' = fv_lookup fvs ++ (\<lambda>n. first_some (file_says content n) (take k fs))"
proof (induction k arbitrary: kb fvs)
  case 0
  then show ?case by (auto simp: map_add_def)
next
  case (Suc k)
  then have k: "k < length fs" by simp
  then obtain cs where cs: "files = Some cs" "cs ! k = Some (fs ! k)" "k < length cs"
    using assms(3) by (cases files) (auto simp: represents_def)
  have take: "take (Suc k) fs = take k fs @ [fs ! k]" using k by (simp add: take_Suc_conv_app_nth)
  then have "readable c content (fs ! k)" using Suc.prems(2) by simp
  from parse_paramfile_ok [OF assms(1,2) this Suc.prems(3,4)] obtain rc kb1 fvs1 where
    1: "ocoms_mca_base_parse_paramfile c (fs ! k) (kb, fvs) = Some (rc, kb1, fvs1)" "key_buffer_ok kb1" "fvs_ok fvs1"
      "fv_lookup fvs1 = fv_lookup fvs ++ (\<lambda>n. file_says content n (fs ! k))" by blast
  have "\<forall>f \<in> set (take k fs). readable c content f" using Suc.prems(2) by (auto simp: take)
  from Suc.IH [OF _ this 1(2,3)] k obtain kb' fvs' where
    2: "foldM (read_step c files) (rev [0..<k]) (kb1, fvs1) = Some (kb', fvs')" "key_buffer_ok kb'" "fvs_ok fvs'"
      "fv_lookup fvs' = fv_lookup fvs1 ++ (\<lambda>n. first_some (file_says content n) (take k fs))" by auto
  have "read_step c files k (kb, fvs) = Some (kb1, fvs1)" using cs 1(1) by (simp add: read_step_def)
  moreover have "fv_lookup fvs' n = (fv_lookup fvs ++ (\<lambda>n. first_some (file_says content n) (take (Suc k) fs))) n" for n
    unfolding 2(4) 1(4) take by (simp add: first_some_append map_add_def split: option.splits)
  ultimately show ?case using 2(1-3) by (auto simp: fun_eq_iff)
qed


lemma read_files_ok:
  assumes "strings_memory (fc_mca c)" "\<forall>n. fc_realloc c n" and "key_buffer_ok (vs_key_buffer s)" "fvs_ok fvs"
    and "int (length file_list) + 2 \<le> INT_MAX"
    and "\<forall>f \<in> set (tokens False OCOMS_ENV_SEP file_list). readable c content f"
  shows "\<exists>s' fvs'. read_files c s (Some file_list) fvs = Some (OCOMS_SUCCESS, s', fvs') \<and> fvs_ok fvs' \<and>
    key_buffer_ok (vs_key_buffer s') \<and> argv_rep (vs_file_list s') (tokens False OCOMS_ENV_SEP file_list) \<and>
    fv_lookup fvs' = fv_lookup fvs ++ (\<lambda>n. first_some (file_says content n) (tokens False OCOMS_ENV_SEP file_list))"
proof -
  let ?fs = "tokens False OCOMS_ENV_SEP file_list"
  have mem: "argv_mem_ok (fc_mem c)" "argv_mem_total (fc_mem c)" using assms(1) by (simp_all add: strings_memory_def)
  obtain files where files: "ocoms_argv_split (fc_mem c) (Some file_list) OCOMS_ENV_SEP = Some files" "argv_rep files ?fs"
    using split_inter_ok [OF mem(1), of file_list OCOMS_ENV_SEP False] assms(5) mem(2) by (auto simp: ocoms_argv_split_def)
  have "length ?fs \<le> length (Argv.fields OCOMS_ENV_SEP file_list)" by (simp add: tokens_def)
  then have "int (length ?fs) \<le> INT_MAX" using length_fields [of OCOMS_ENV_SEP file_list] assms(5) by simp
  then have count: "ocoms_argv_count files = Some (int (length ?fs))" by (rule argv_count_ok [OF files(2)])
  have step: "(\<lambda>i st. do { cs \<leftarrow> files; p \<leftarrow> rdn cs i; name \<leftarrow> p; (_, st') \<leftarrow> ocoms_mca_base_parse_paramfile c name st; Some st' }) = read_step c files"
    by (simp add: read_step_def fun_eq_iff)
  obtain kb' fvs' where "foldM (read_step c files) (rev [0..<length ?fs]) (vs_key_buffer s, fvs) = Some (kb', fvs')" "key_buffer_ok kb'" "fvs_ok fvs'"
    "fv_lookup fvs' = fv_lookup fvs ++ (\<lambda>n. first_some (file_says content n) ?fs)"
    using read_loop_ok [OF assms(1,2) files(2), of "length ?fs" content "vs_key_buffer s" fvs] assms(3,4,6) by auto
  then show ?thesis using files count by (auto simp: read_files_def step)
qed

text \<open>
  C38: what the parameter files of a list say about a variable is what the first of them that assigns
  it says, and in that file the last assignment; a file that cannot be opened says nothing, and what
  was known before is kept where no file says anything.
\<close>

theorem leftmost_file_wins:
  assumes "strings_memory (fc_mca c)" "\<forall>n. fc_realloc c n" and "key_buffer_ok (vs_key_buffer s)" "fvs_ok fvs"
    and "int (length file_list) + 2 \<le> INT_MAX"
    and "\<forall>f \<in> set (tokens False OCOMS_ENV_SEP file_list). readable c content f"
  shows "\<exists>s' fvs'. read_files c s (Some file_list) fvs = Some (OCOMS_SUCCESS, s', fvs') \<and> fvs_ok fvs' \<and>
    (\<forall>n. fv_lookup fvs' n = (case first_some (file_says content n) (tokens False OCOMS_ENV_SEP file_list) of
       None \<Rightarrow> fv_lookup fvs n | Some r \<Rightarrow> Some r))"
  using read_files_ok [OF assms] by (auto simp: map_add_def)

definition example_files :: "string \<Rightarrow> param_line list option" where
  "example_files = [''/a'' \<mapsto> [Hash_comment '' local'', Assignment [] ''btl'' '' '' '' '' ''self,sm'' [], Assignment [] ''btl'' [] [] ''tcp'' '' ''],
     ''/b'' \<mapsto> [Assignment '' '' ''btl'' '' '' '' '' ''sm'' [], Blank_line [], Assignment [] ''eager'' [] [] [] []]]"

definition files_example :: files_ctx where
  "files_example = \<lparr>fc_mca = sample_mca, fc_stat = \<lambda>_. None, fc_getcwd = None, fc_fopen = \<lambda>f. map_option file_text (example_files f),
     fc_access = \<lambda>_. False, fc_realloc = \<lambda>_. True, fc_sysconfdir = ''/etc'', fc_pkgdatadir = ''/usr/share'', fc_home_files = False\<rparr>"

theorem leftmost_file_wins_witness:
  "\<exists>s' fvs'. read_files files_example mca_static (Some ''/a:/c:/b'') [] = Some (OCOMS_SUCCESS, s', fvs') \<and>
     fv_lookup fvs' ''btl'' = Some (Some ''tcp'', Some ''/a'') \<and> fv_lookup fvs' ''eager'' = Some (None, Some ''/b'')"
proof -
  have toks: "tokens False OCOMS_ENV_SEP ''/a:/c:/b'' = [''/a'', ''/c'', ''/b'']" by (simp add: tokens_def OCOMS_ENV_SEP_def)
  have says: "file_says example_files ''btl'' ''/a'' = Some (Some ''tcp'', Some ''/a'')" "file_says example_files ''eager'' ''/a'' = None"
    "file_says example_files ''eager'' ''/c'' = None" "file_says example_files ''eager'' ''/b'' = Some (None, Some ''/b'')"
    by (simp_all add: file_says_def assigned_def example_files_def file_assigns_def)
  have "\<exists>s' fvs'. read_files files_example mca_static (Some ''/a:/c:/b'') [] = Some (OCOMS_SUCCESS, s', fvs') \<and> fvs_ok fvs' \<and>
    (\<forall>n. fv_lookup fvs' n = (case first_some (file_says example_files n) (tokens False OCOMS_ENV_SEP ''/a:/c:/b'') of
       None \<Rightarrow> fv_lookup [] n | Some r \<Rightarrow> Some r))"
  proof (rule leftmost_file_wins)
    show "strings_memory (fc_mca files_example)" by (simp add: files_example_def strings_memory_def sample_mca_def sample_ctx_def)
    show "\<forall>n. fc_realloc files_example n" by (simp add: files_example_def)
    show "key_buffer_ok (vs_key_buffer mca_static)" by (simp add: mca_static_def key_buffer_static_def key_buffer_ok_def)
    show "fvs_ok []" by (simp add: fvs_ok_def)
    show "int (length ''/a:/c:/b'') + 2 \<le> INT_MAX" by (simp add: INT_MAX_def)
    show "\<forall>f \<in> set (tokens False OCOMS_ENV_SEP ''/a:/c:/b''). readable files_example example_files f"
      by (simp add: toks readable_def files_example_def)
        (simp add: example_files_def is_white_def is_word_def c_isdigit_def)
  qed
  then obtain s' fvs' where r: "read_files files_example mca_static (Some ''/a:/c:/b'') [] = Some (OCOMS_SUCCESS, s', fvs')"
    "\<And>n. fv_lookup fvs' n = (case first_some (file_says example_files n) [''/a'', ''/c'', ''/b''] of
       None \<Rightarrow> fv_lookup [] n | Some r \<Rightarrow> Some r)" unfolding toks by blast
  have "fv_lookup fvs' ''btl'' = Some (Some ''tcp'', Some ''/a'')" "fv_lookup fvs' ''eager'' = Some (None, Some ''/b'')"
    using r(2) [of "''btl''"] r(2) [of "''eager''"] by (simp_all add: says)
  with r(1) show ?thesis by blast
qed

end
