(* ===== verification/Mca_Var_Dump.thy ===== *)
theory Mca_Var_Dump
  imports Mca_Pvar Mca_Registration
begin

text \<open>
  The descriptions of MCA variables for users: \<open>ocoms_mca_base_var_dump\<close> of \<open>ocoms/mca/base/mca_base_var.c\<close>.
\<close>

section \<open>The description of a variable\<close>

datatype ocoms_mca_base_var_dump_type_t = MCA_BASE_VAR_DUMP_READABLE | MCA_BASE_VAR_DUMP_PARSABLE | MCA_BASE_VAR_DUMP_SIMPLE

text \<open>The name of the variable with an index, if there is such a variable.\<close>

definition name_of_var :: "mca \<Rightarrow> int \<Rightarrow> string option option" where
  "name_of_var s i = do {
     (ret, p) \<leftarrow> var_get s i False;
     if ret \<noteq> OCOMS_SUCCESS then Some None
     else do { v \<leftarrow> the_var s p; n \<leftarrow> mbv_full_name v; Some (Some n) } }"

definition put_synonym_line :: "argv_mem \<Rightarrow> mca \<Rightarrow> string \<Rightarrow> int \<Rightarrow> dump_lines \<Rightarrow> dump_lines option" where
  "put_synonym_line m s tmp i out = do {
     r \<leftarrow> name_of_var s i;
     case r of None \<Rightarrow> Some out | Some n \<Rightarrow> put_line m (tmp @ ''synonym:name:'' @ n) out }"

definition var_dump_parsable ::
  "mca_ctx \<Rightarrow> mca \<Rightarrow> ocoms_mca_base_var_t \<Rightarrow> string option \<Rightarrow> string \<Rightarrow> string \<Rightarrow> string \<Rightarrow> (int \<times> string option list option) option" where
  "var_dump_parsable c s v original tmp value source =
     (let enum_count = (case mbv_enumerator v of None \<Rightarrow> 0 | Some e \<Rightarrow> nat (enum_get_count e));
          synonyms = va_items (mbv_synonyms v);
          line_count = 8 + (if mbv_description v \<noteq> None then 1 else 0) + (if VAR_IS_SYNONYM v then 1 else length synonyms) + enum_count;
          m = mc_mem c
      in if \<not> mc_calloc c ((line_count + 1) * 8) then Some (OCOMS_ERR_OUT_OF_RESOURCE, None)
         else do {
           out1 \<leftarrow> put_line m (tmp @ ''value:'' @ value) (replicate (line_count + 1) None, 0);
           out2 \<leftarrow> put_line m (tmp @ ''source:'' @ source) out1;
           out3 \<leftarrow> put_line m (tmp @ ''status:'' @ (if VAR_IS_DEFAULT_ONLY v then ''read-only'' else ''writeable'')) out2;
           out4 \<leftarrow> put_line m (tmp @ ''level:'' @ dec_int (mbv_info_lvl v + 1)) out3;
           out5 \<leftarrow> (case mbv_description v of None \<Rightarrow> Some out4 | Some d \<Rightarrow> put_line m (tmp @ ''help:'' @ d) out4);
           out6 \<leftarrow> (case mbv_enumerator v of None \<Rightarrow> Some out5
                    | Some e \<Rightarrow> foldM (put_enum_line m e tmp) [0..<enum_count] out5);
           out7 \<leftarrow> put_line m (tmp @ ''deprecated:'' @ (if VAR_IS_DEPRECATED v then ''yes'' else ''no'')) out6;
           ty \<leftarrow> var_type_names (mbv_type v);
           out8 \<leftarrow> put_line m (tmp @ ''type:'' @ ty) out7;
           out9 \<leftarrow> (if VAR_IS_SYNONYM v then do { n \<leftarrow> original; put_line m (tmp @ ''synonym_of:name:'' @ n) out8 }
                    else foldM (put_synonym_line m s tmp) synonyms out8);
           Some (OCOMS_SUCCESS, Some (fst out9)) })"

text \<open>The list of synonyms in the first line; after the last one comes the closing parenthesis.\<close>

fun synonym_list :: "mca \<Rightarrow> int list \<Rightarrow> string \<Rightarrow> string option" where
  "synonym_list s [] txt = Some txt"
| "synonym_list s (i # is) txt = do {
     r \<leftarrow> name_of_var s i;
     synonym_list s is (case r of None \<Rightarrow> txt | Some n \<Rightarrow> txt @ n @ (if is = [] then '')'' else '', '')) }"

definition var_dump_readable ::
  "mca_ctx \<Rightarrow> mca \<Rightarrow> ocoms_mca_base_var_t \<Rightarrow> string option \<Rightarrow> string \<Rightarrow> string \<Rightarrow> (int \<times> string option list option) option" where
  "var_dump_readable c s v original full_name value =
     (let m = mc_mem c; synonyms = va_items (mbv_synonyms v) in
      if \<not> mc_calloc c (4 * 8) then Some (OCOMS_ERR_OUT_OF_RESOURCE, None)
      else do {
        ty \<leftarrow> var_type_names (mbv_type v);
        let quoted = (\<lambda>x. [CHR 0x22] @ x @ [CHR 0x22]);
        let start = (if VAR_IS_DEFAULT_ONLY v then ''informational'' else ''parameter'') @ '' '' @ quoted full_name @
          '' (default value: '' @ quoted value @ '', type: '' @ ty @
          (if VAR_IS_DEPRECATED v then '', deprecated'' else []);
        txt \<leftarrow> (if VAR_IS_SYNONYM v then do { n \<leftarrow> original; Some (start @ '', synonym of: '' @ n @ '')'') }
               else if synonyms \<noteq> [] then synonym_list s synonyms (start @ '', synonyms: '')
               else Some (start @ '')''));
        str \<leftarrow> strdup m txt;
        out1 \<leftarrow> put_line m str (replicate 4 None, 0);
        out2 \<leftarrow> (case mbv_description v of None \<Rightarrow> Some out1 | Some d \<Rightarrow> put_line m d out1);
        out3 \<leftarrow> (case mbv_enumerator v of None \<Rightarrow> Some out2
                 | Some e \<Rightarrow>
                     let (ret, values) = enum_dump m e in
                     if ret \<noteq> OCOMS_SUCCESS then Some out2
                     else do { vals \<leftarrow> values; put_line m (''Valid values: '' @ vals) out2 });
        Some (OCOMS_SUCCESS, Some (fst out3)) })"

definition var_dump_simple :: "mca_ctx \<Rightarrow> string \<Rightarrow> string \<Rightarrow> string \<Rightarrow> (int \<times> string option list option) option" where
  "var_dump_simple c full_name value source =
     (if \<not> mc_calloc c (2 * 8) then Some (OCOMS_ERR_OUT_OF_RESOURCE, None)
      else do {
        out1 \<leftarrow> put_line (mc_mem c) (full_name @ ''='' @ value @ '' ('' @ source @ '')'') (replicate 2 None, 0);
        Some (OCOMS_SUCCESS, Some (fst out1)) })"

text \<open>The name of the original of a synonym, or the code of the error.\<close>

definition original_name :: "mca \<Rightarrow> ocoms_mca_base_var_t \<Rightarrow> (int + string option) option" where
  "original_name s v =
     (if VAR_IS_SYNONYM v then do {
        (ret, p) \<leftarrow> var_get s (mbv_synonym_for v) False;
        if ret \<noteq> OCOMS_SUCCESS then Some (Inl ret)
        else if p = None then Some (Inl OCOMS_ERR_NOT_FOUND)
        else do { w \<leftarrow> the_var s p; Some (Inr (mbv_full_name w)) } }
      else Some (Inr None))"

definition ocoms_mca_base_var_dump ::
  "mca_ctx \<Rightarrow> mca \<Rightarrow> int \<Rightarrow> ocoms_mca_base_var_dump_type_t \<Rightarrow> (int \<times> string option list option) option" where
  "ocoms_mca_base_var_dump c s index output_type = do {
     (ret, p) \<leftarrow> var_get s index False;
     if ret \<noteq> OCOMS_SUCCESS then Some (ret, None)
     else do {
       a \<leftarrow> p;
       v \<leftarrow> rdn (vs_heap s) a;
       (ret, q) \<leftarrow> ocoms_mca_base_var_group_get_internal s (mbv_group_index v) False;
       if ret \<noteq> OCOMS_SUCCESS then Some (ret, None)
       else do {
         r \<leftarrow> original_name s v;
         case r of Inl ret \<Rightarrow> Some (ret, None)
         | Inr original \<Rightarrow> do {
             b \<leftarrow> q;
             g \<leftarrow> rdn (vs_gheap s) b;
             (ret, vs) \<leftarrow> var_value_string c s a;
             if ret \<noteq> OCOMS_SUCCESS then Some (ret, None)
             else do {
               value \<leftarrow> vs;
               src \<leftarrow> source_name c v;
               case output_type of
                 MCA_BASE_VAR_DUMP_PARSABLE \<Rightarrow> do {
                   framework \<leftarrow> group_framework g;
                   full_name \<leftarrow> mbv_full_name v;
                   source \<leftarrow> src;
                   let component = (case group_component g of None \<Rightarrow> ''base'' | Some n \<Rightarrow> n);
                   var_dump_parsable c s v original (''mca:'' @ framework @ '':'' @ component @ '':param:'' @ full_name @ '':'') value source }
               | MCA_BASE_VAR_DUMP_READABLE \<Rightarrow> do { full_name \<leftarrow> mbv_full_name v; var_dump_readable c s v original full_name value }
               | MCA_BASE_VAR_DUMP_SIMPLE \<Rightarrow> do {
                   full_name \<leftarrow> mbv_full_name v;
                   source \<leftarrow> src;
                   var_dump_simple c full_name value source } } } } } }"


section \<open>What is described\<close>

text \<open>The lines written so far, in an array of \<open>n\<close> lines and a null pointer.\<close>

definition dump_rep :: "nat \<Rightarrow> dump_lines \<Rightarrow> string list \<Rightarrow> bool" where
  "dump_rep n out xs \<longleftrightarrow> fst out = map Some xs @ replicate (n + 1 - length xs) None \<and> snd out = length xs \<and> length xs \<le> n"

lemma put_line_ok:
  assumes "argv_mem_total m" and "dump_rep n out xs" and "length xs < n"
  shows "\<exists>out'. put_line m txt out = Some out' \<and> dump_rep n out' (xs @ [txt])"
proof -
  have "replicate (n + 1 - length xs) None = (None :: string option) # replicate (n - length xs) None"
    using assms(3) by (metis Suc_diff_le Suc_eq_plus1 less_imp_le replicate_Suc)
  then show ?thesis using assms
    by (cases out) (auto simp: put_line_def dump_rep_def wrn_Some list_update_append)
qed

lemma dump_start: "dump_rep n (replicate (n + 1) None, 0) []"
  by (simp add: dump_rep_def)

lemma put_opt_ok:
  assumes "argv_mem_total m" and "dump_rep n out xs" and "length xs + length (case d of None \<Rightarrow> [] | Some y \<Rightarrow> [f y]) \<le> n"
  shows "\<exists>out'. (case d of None \<Rightarrow> Some out | Some y \<Rightarrow> put_line m (f y) out) = Some out' \<and>
    dump_rep n out' (xs @ (case d of None \<Rightarrow> [] | Some y \<Rightarrow> [f y]))"
  using put_line_ok [OF assms(1,2)] assms(2,3) by (cases d) auto

lemma put_all_ok:
  assumes "argv_mem_total m" and "\<And>i out. i \<in> set js \<Longrightarrow> f i out = put_line m (g i) out"
  shows "dump_rep n out xs \<Longrightarrow> length xs + length js \<le> n \<Longrightarrow>
    \<exists>out'. foldM f js out = Some out' \<and> dump_rep n out' (xs @ map g js)"
  using assms(2)
proof (induction js arbitrary: out xs)
  case (Cons i js)
  obtain out1 where 1: "put_line m (g i) out = Some out1" "dump_rep n out1 (xs @ [g i])"
    using put_line_ok [OF assms(1) Cons.prems(1), of "g i"] Cons.prems(2) by auto
  have "length (xs @ [g i]) + length js \<le> n" using Cons.prems(2) by simp
  from Cons.IH [OF 1(2) this] Cons.prems(3) obtain out2 where
    "foldM f js out1 = Some out2" "dump_rep n out2 ((xs @ [g i]) @ map g js)" by auto
  then show ?case using 1(1) Cons.prems(3) [of i out] by simp
qed simp

text \<open>The lines of the values of an enumerator, and of the synonyms.\<close>

definition enum_named :: "ocoms_mca_base_var_enum_t \<Rightarrow> bool" where
  "enum_named e \<longleftrightarrow> (\<forall>i < nat (enum_get_count e). \<exists>v x. enum_get_value e (int i) = Some (OCOMS_SUCCESS, Some (v, Some x)))"

definition enum_line :: "string \<Rightarrow> ocoms_mca_base_var_enum_t \<Rightarrow> nat \<Rightarrow> string" where
  "enum_line tmp e i = (case enum_get_value e (int i) of
     Some (_, Some (v, Some x)) \<Rightarrow> tmp @ ''enumerator:value:'' @ dec_int v @ '':'' @ x | _ \<Rightarrow> [])"

lemma put_enum_line_ok:
  "enum_named e \<Longrightarrow> i \<in> set [0..<nat (enum_get_count e)] \<Longrightarrow> put_enum_line m e tmp i out = put_line m (enum_line tmp e i) out"
proof -
  assume e: "enum_named e" "i \<in> set [0..<nat (enum_get_count e)]"
  then obtain v x where "enum_get_value e (int i) = Some (OCOMS_SUCCESS, Some (v, Some x))" by (auto simp: enum_named_def)
  then show ?thesis by (simp add: put_enum_line_def enum_line_def)
qed

definition var_lines :: "mca \<Rightarrow> ocoms_mca_base_var_t \<Rightarrow> string option \<Rightarrow> string \<Rightarrow> string \<Rightarrow> string \<Rightarrow> string list" where
  "var_lines s v original tmp value source =
     [tmp @ ''value:'' @ value, tmp @ ''source:'' @ source,
      tmp @ ''status:'' @ (if VAR_IS_DEFAULT_ONLY v then ''read-only'' else ''writeable''),
      tmp @ ''level:'' @ dec_int (mbv_info_lvl v + 1)] @
     (case mbv_description v of None \<Rightarrow> [] | Some d \<Rightarrow> [tmp @ ''help:'' @ d]) @
     (case mbv_enumerator v of None \<Rightarrow> [] | Some e \<Rightarrow> map (enum_line tmp e) [0..<nat (enum_get_count e)]) @
     [tmp @ ''deprecated:'' @ (if VAR_IS_DEPRECATED v then ''yes'' else ''no''), tmp @ ''type:'' @ the (var_type_names (mbv_type v))] @
     (if VAR_IS_SYNONYM v then [tmp @ ''synonym_of:name:'' @ the original]
      else map (\<lambda>i. tmp @ ''synonym:name:'' @ the (the (name_of_var s i))) (va_items (mbv_synonyms v)))"


lemma put_synonym_ok: "name_of_var s i = Some (Some n) \<Longrightarrow> put_synonym_line m s tmp i out = put_line m (tmp @ ''synonym:name:'' @ the (the (name_of_var s i))) out"
  by (simp add: put_synonym_line_def)

lemma dump_represents: "dump_rep n (lines, l) xs \<Longrightarrow> represents lines xs"
  by (auto simp: dump_rep_def represents_def nth_append)

definition describable :: "mca \<Rightarrow> ocoms_mca_base_var_t \<Rightarrow> string option \<Rightarrow> bool" where
  "describable s v original \<longleftrightarrow> mbv_type v \<noteq> MCA_BASE_VAR_TYPE_MAX \<and>
     (case mbv_enumerator v of None \<Rightarrow> True | Some e \<Rightarrow> enum_named e) \<and>
     (if VAR_IS_SYNONYM v then original \<noteq> None
      else list_all (\<lambda>i. \<exists>n. name_of_var s i = Some (Some n)) (va_items (mbv_synonyms v)))"

lemma type_name: "t \<noteq> MCA_BASE_VAR_TYPE_MAX \<Longrightarrow> var_type_names t = Some (the (var_type_names t))"
  by (cases t) (simp_all add: var_type_names_def)

lemma put_named_ok:
  assumes "argv_mem_total m" and "dump_rep n out xs" and "length xs + (case e of None \<Rightarrow> 0 | Some e \<Rightarrow> nat (enum_get_count e)) \<le> n"
    and "case e of None \<Rightarrow> True | Some e \<Rightarrow> enum_named e"
  shows "\<exists>out'. (case e of None \<Rightarrow> Some out | Some e \<Rightarrow> foldM (put_enum_line m e tmp) [0..<nat (enum_get_count e)] out) = Some out' \<and>
    dump_rep n out' (xs @ (case e of None \<Rightarrow> [] | Some e \<Rightarrow> map (enum_line tmp e) [0..<nat (enum_get_count e)]))"
proof (cases e)
  case (Some e')
  then have "enum_named e'" using assms(4) by simp
  then have "put_enum_line m e' tmp i out = put_line m (enum_line tmp e' i) out" if "i \<in> set [0..<nat (enum_get_count e')]" for i out
    using put_enum_line_ok that by blast
  from put_all_ok [where js = "[0..<nat (enum_get_count e')]" and g = "enum_line tmp e'", OF assms(1) this assms(2)]
  show ?thesis using assms(3) Some by simp
qed (use assms(2) in simp)

lemma put_synonyms_ok:
  assumes "argv_mem_total m" and "dump_rep n out xs"
    and "length xs + (if VAR_IS_SYNONYM v then 1 else length (va_items (mbv_synonyms v))) \<le> n" and "describable s v original"
  shows "\<exists>out'. (if VAR_IS_SYNONYM v then do { n \<leftarrow> original; put_line m (tmp @ ''synonym_of:name:'' @ n) out }
        else foldM (put_synonym_line m s tmp) (va_items (mbv_synonyms v)) out) = Some out' \<and>
    dump_rep n out' (xs @ (if VAR_IS_SYNONYM v then [tmp @ ''synonym_of:name:'' @ the original]
      else map (\<lambda>i. tmp @ ''synonym:name:'' @ the (the (name_of_var s i))) (va_items (mbv_synonyms v))))"
proof (cases "VAR_IS_SYNONYM v")
  case True
  then obtain y where "original = Some y" using assms(4) by (auto simp: describable_def)
  then show ?thesis using put_line_ok [OF assms(1,2)] assms(3) True by simp
next
  case False
  then have "\<exists>n. name_of_var s i = Some (Some n)" if "i \<in> set (va_items (mbv_synonyms v))" for i
    using assms(4) that by (auto simp: describable_def list_all_iff)
  then have "put_synonym_line m s tmp i out = put_line m (tmp @ ''synonym:name:'' @ the (the (name_of_var s i))) out"
    if "i \<in> set (va_items (mbv_synonyms v))" for i out using put_synonym_ok that by blast
  from put_all_ok [where js = "va_items (mbv_synonyms v)" and g = "\<lambda>i. tmp @ ''synonym:name:'' @ the (the (name_of_var s i))", OF assms(1) this assms(2)]
  show ?thesis using assms(3) False by simp
qed

lemma dump_rep_full: "dump_rep n (lines, l) xs \<Longrightarrow> lines = map Some xs @ replicate (n + 1 - length xs) None"
  by (simp add: dump_rep_def)

text \<open>
  C39: the parsable description of a variable is the list of the lines about it, followed by null
  pointers: the array allocated for it has room for exactly these.
\<close>

theorem parsable_dump_lists:
  assumes "argv_mem_total (mc_mem c)" "\<forall>n. mc_calloc c n" and "describable s v original"
  shows "var_dump_parsable c s v original tmp value source =
    Some (OCOMS_SUCCESS, Some (map Some (var_lines s v original tmp value source) @ replicate 3 None))"
proof -
  let ?m = "mc_mem c"
  let ?count = "case mbv_enumerator v of None \<Rightarrow> 0 | Some e \<Rightarrow> nat (enum_get_count e)"
  let ?syn = "va_items (mbv_synonyms v)"
  define n where "n = 8 + (if mbv_description v \<noteq> None then 1 else 0) + (if VAR_IS_SYNONYM v then 1 else length ?syn) + ?count"
  define a where "a = [tmp @ ''value:'' @ value, tmp @ ''source:'' @ source,
      tmp @ ''status:'' @ (if VAR_IS_DEFAULT_ONLY v then ''read-only'' else ''writeable''), tmp @ ''level:'' @ dec_int (mbv_info_lvl v + 1)]"
  define b where "b = (case mbv_description v of None \<Rightarrow> [] | Some d \<Rightarrow> [tmp @ ''help:'' @ d])"
  define e where "e = (case mbv_enumerator v of None \<Rightarrow> [] | Some e \<Rightarrow> map (enum_line tmp e) [0..<nat (enum_get_count e)])"
  define d where "d = [tmp @ ''deprecated:'' @ (if VAR_IS_DEPRECATED v then ''yes'' else ''no''), tmp @ ''type:'' @ the (var_type_names (mbv_type v))]"
  define y where "y = (if VAR_IS_SYNONYM v then [tmp @ ''synonym_of:name:'' @ the original]
      else map (\<lambda>i. tmp @ ''synonym:name:'' @ the (the (name_of_var s i))) ?syn)"
  have len: "length a = 4" "length b = (if mbv_description v \<noteq> None then 1 else 0)" "length e = ?count" "length d = 2"
    "length y = (if VAR_IS_SYNONYM v then 1 else length ?syn)"
    by (auto simp: a_def b_def e_def d_def y_def split: option.splits)
  obtain tn where ty: "var_type_names (mbv_type v) = Some tn"
    using assms(3) type_name [of "mbv_type v"] by (auto simp: describable_def)
  have nth: "a ! 0 = tmp @ ''value:'' @ value" "a ! 1 = tmp @ ''source:'' @ source"
    "a ! 2 = tmp @ ''status:'' @ (if VAR_IS_DEFAULT_ONLY v then ''read-only'' else ''writeable'')"
    "a ! 3 = tmp @ ''level:'' @ dec_int (mbv_info_lvl v + 1)"
    "d ! 0 = tmp @ ''deprecated:'' @ (if VAR_IS_DEPRECATED v then ''yes'' else ''no'')" "d ! 1 = tmp @ ''type:'' @ tn"
    by (simp_all add: a_def d_def ty)
  note put = put_line_ok [OF assms(1)]
  obtain o1 where 1: "put_line ?m (a ! 0) (replicate (n + 1) None, 0) = Some o1" "dump_rep n o1 [a ! 0]"
    using put [OF dump_start, of n "a ! 0"] by (auto simp: n_def)
  obtain o2 where 2: "put_line ?m (a ! 1) o1 = Some o2" "dump_rep n o2 [a ! 0, a ! 1]"
    using put [OF 1(2), of "a ! 1"] by (auto simp: n_def)
  obtain o3 where 3: "put_line ?m (a ! 2) o2 = Some o3" "dump_rep n o3 [a ! 0, a ! 1, a ! 2]"
    using put [OF 2(2), of "a ! 2"] by (auto simp: n_def)
  obtain o4 where 4: "put_line ?m (a ! 3) o3 = Some o4" "dump_rep n o4 a"
    using put [OF 3(2), of "a ! 3"] by (auto simp: n_def a_def)
  obtain o5 where 5: "(case mbv_description v of None \<Rightarrow> Some o4 | Some d \<Rightarrow> put_line ?m (tmp @ ''help:'' @ d) o4) = Some o5" "dump_rep n o5 (a @ b)"
    using put_opt_ok [OF assms(1) 4(2), where d = "mbv_description v" and f = "\<lambda>d. tmp @ ''help:'' @ d"] len unfolding b_def [symmetric] by (auto simp: n_def)
  have "length (a @ b) + ?count \<le> n" using len by (simp add: n_def)
  then obtain o6 where 6: "(case mbv_enumerator v of None \<Rightarrow> Some o5
      | Some e \<Rightarrow> foldM (put_enum_line ?m e tmp) [0..<?count] o5) = Some o6" "dump_rep n o6 ((a @ b) @ e)"
    using put_named_ok [where e = "mbv_enumerator v" and tmp = tmp, OF assms(1) 5(2)] assms(3) unfolding e_def [symmetric]
    by (cases "mbv_enumerator v") (auto simp: describable_def)
  obtain o7 where 7: "put_line ?m (d ! 0) o6 = Some o7" "dump_rep n o7 (((a @ b) @ e) @ [d ! 0])"
    using put [OF 6(2), of "d ! 0"] len by (auto simp: n_def)
  obtain o8 where 8: "put_line ?m (d ! 1) o7 = Some o8" "dump_rep n o8 ((((a @ b) @ e) @ [d ! 0]) @ [d ! 1])"
    using put [OF 7(2), of "d ! 1"] len by (auto simp: n_def)
  have "((((a @ b) @ e) @ [d ! 0]) @ [d ! 1]) = (a @ b @ e) @ d" by (simp add: d_def)
  with 8(2) have rep8: "dump_rep n o8 ((a @ b @ e) @ d)" by (simp only:)
  have "length ((a @ b @ e) @ d) + (if VAR_IS_SYNONYM v then 1 else length ?syn) \<le> n" using len by (simp add: n_def)
  from put_synonyms_ok [OF assms(1) rep8 this assms(3), of tmp] obtain o9 where 9: "(if VAR_IS_SYNONYM v then do { n \<leftarrow> original; put_line ?m (tmp @ ''synonym_of:name:'' @ n) o8 }
        else foldM (put_synonym_line ?m s tmp) ?syn o8) = Some o9" "dump_rep n o9 (a @ b @ e @ d @ y)"
    unfolding y_def [symmetric] append_assoc by blast
  have lines: "var_lines s v original tmp value source = a @ b @ e @ d @ y"
    by (simp add: var_lines_def a_def b_def e_def d_def y_def)
  have "fst o9 = map Some (a @ b @ e @ d @ y) @ replicate 3 None"
    using 9(2) len by (simp add: dump_rep_def n_def)
  moreover have "var_dump_parsable c s v original tmp value source = Some (OCOMS_SUCCESS, Some (fst o9))"
    unfolding var_dump_parsable_def Let_def n_def [symmetric]
    by (simp only: assms(2) [rule_format] not_True_eq_False if_False ty bind.bind_lunit
        1(1) [unfolded nth] 2(1) [unfolded nth] 3(1) [unfolded nth] 4(1) [unfolded nth] 5(1) 6(1)
        7(1) [unfolded nth] 8(1) [unfolded nth] 9(1))
  ultimately show ?thesis by (simp only: lines)
qed


definition described_var :: ocoms_mca_base_var_t where
  "described_var = var_constructor\<lparr>mbv_type := MCA_BASE_VAR_TYPE_BOOL, mbv_enumerator := Some Enum_bool, mbv_full_name := Some ''coll_tuned'',
     mbv_description := Some ''Use the tuned collectives''\<rparr>"

theorem parsable_dump_lists_witness:
  "var_dump_parsable (sample_mca\<lparr>mc_calloc := \<lambda>_. True\<rparr>) mca_static described_var None ''tuned:'' ''true'' ''default'' =
     Some (OCOMS_SUCCESS, Some
       (map Some [''tuned:value:true'', ''tuned:source:default'', ''tuned:status:writeable'', ''tuned:level:1'',
         ''tuned:help:Use the tuned collectives'', ''tuned:enumerator:value:0:false'', ''tuned:enumerator:value:1:true'',
         ''tuned:deprecated:no'', ''tuned:type:bool''] @ [None, None, None]))"
proof -
  have digits: "dec_int 0 = ''0''" "dec_int 1 = ''1''" by code_simp+
  have named: "enum_named Enum_bool" by (auto simp: enum_named_def)
  have "describable mca_static described_var None"
    by (simp add: describable_def described_var_def var_constructor_def isset_def va_items_def named)
  moreover have "var_lines mca_static described_var None ''tuned:'' ''true'' ''default'' =
     [''tuned:value:true'', ''tuned:source:default'', ''tuned:status:writeable'', ''tuned:level:1'',
      ''tuned:help:Use the tuned collectives'', ''tuned:enumerator:value:0:false'', ''tuned:enumerator:value:1:true'',
      ''tuned:deprecated:no'', ''tuned:type:bool'']"
    by (simp add: var_lines_def described_var_def var_constructor_def isset_def va_items_def var_type_names_def enum_line_def
        digits upt_rec)
  moreover have "argv_mem_total (mc_mem (sample_mca\<lparr>mc_calloc := \<lambda>_. True\<rparr>))" by (simp add: sample_mca_def sample_ctx_def)
  ultimately show ?thesis using parsable_dump_lists [of "sample_mca\<lparr>mc_calloc := \<lambda>_. True\<rparr>" mca_static described_var None "''tuned:''" "''true''" "''default''"]
    by (simp add: numeral_3_eq_3)
qed

end
