(* ===== verification/Mca_Cmd_Line.thy ===== *)
theory Mca_Cmd_Line
  imports Cmd_Line Environ
begin

text \<open>
  The command line options that set MCA variables, and the environment made from them:
  \<open>ocoms/mca/base/mca_base_cmd_line.c\<close>.
\<close>

section \<open>The options\<close>

definition ocoms_mca_base_cmd_line_setup :: "argv_mem \<Rightarrow> bool \<Rightarrow> ocoms_cmd_line_t option \<Rightarrow> int \<times> ocoms_cmd_line_t option" where
  "ocoms_mca_base_cmd_line_setup m obj_new cmd =
     (let (ret, cmd1) = ocoms_cmd_line_make_opt3 m obj_new cmd (CHR 0x00) (Some ''mca'') (Some ''mca'') 2
        (Some ''Pass context-specific MCA parameters; they are considered global if --gmca is not used and only one context is specified (arg0 is the parameter name; arg1 is the parameter value)'')
      in if ret \<noteq> OCOMS_SUCCESS then (ret, cmd1)
         else let (ret, cmd2) = ocoms_cmd_line_make_opt3 m obj_new cmd1 (CHR 0x00) (Some ''gmca'') (Some ''gmca'') 2
                (Some ''Pass global MCA parameters that are applicable to all contexts (arg0 is the parameter name; arg1 is the parameter value)'')
              in if ret \<noteq> OCOMS_SUCCESS then (ret, cmd2)
                 else ocoms_cmd_line_make_opt_mca m obj_new cmd2
                   \<lparr>ocl_mca_param_name = Some ''mca_base_param_file_prefix'', ocl_cmd_short_name = CHR 0x00,
                    ocl_cmd_single_dash_name = Some ''am'', ocl_cmd_long_name = None, ocl_num_params = 1, ocl_variable_dest = None,
                    ocl_variable_type = OCOMS_CMD_LINE_TYPE_STRING, ocl_description = Some ''Aggregate MCA parameter set file list''\<rparr>)"

section \<open>Collecting the arguments\<close>

text \<open>A further value of a parameter is joined to the one that was saved, with a comma.\<close>

definition process_arg :: "argv_mem \<Rightarrow> string \<Rightarrow> string \<Rightarrow> cells option \<times> cells option \<Rightarrow> (cells option \<times> cells option) option" where
  "process_arg m param v st = (case st of (params, vals) \<Rightarrow> do {
     r \<leftarrow> (case params of None \<Rightarrow> Some None | Some cs \<Rightarrow> argv_find cs 0 param);
     case r of
       Some i \<Rightarrow> do {
         cs \<leftarrow> vals;
         old \<leftarrow> rdn cs i;
         str \<leftarrow> old;
         new_str \<leftarrow> strdup m (str @ '','' @ v);
         Some (params, Some (cs[i := Some new_str])) }
     | None \<Rightarrow> do {
         (_, params') \<leftarrow> ocoms_argv_append_nosize m params param;
         (_, vals') \<leftarrow> ocoms_argv_append_nosize m vals v;
         Some (params', vals') } })"

text \<open>Each parameter becomes a variable of the environment.\<close>

fun env_add_loop :: "env_ctx \<Rightarrow> cells \<Rightarrow> nat \<Rightarrow> cells option \<Rightarrow> cells option option \<Rightarrow> cells option option option" where
  "env_add_loop c [] i vals env = None"
| "env_add_loop c (None # ps) i vals env = Some env"
| "env_add_loop c (Some p # ps) i vals env = do {
     name \<leftarrow> ocoms_mca_base_var_env_name (ec_mem c) p;
     cs \<leftarrow> vals;
     v \<leftarrow> rdn cs i;
     (_, env') \<leftarrow> ocoms_setenv c name v True env;
     env_add_loop c ps (Suc i) vals env' }"

definition add_to_env :: "env_ctx \<Rightarrow> cells option \<Rightarrow> cells option \<Rightarrow> cells option option \<Rightarrow> cells option option option" where
  "add_to_env c params vals env = (case params of None \<Rightarrow> Some env | Some ps \<Rightarrow> env_add_loop c ps 0 vals env)"

definition process_instances :: "argv_mem \<Rightarrow> ocoms_cmd_line_t \<Rightarrow> string \<Rightarrow> (cells option \<times> cells option) option" where
  "process_instances m cmd opt = do {
     num_insts \<leftarrow> ocoms_cmd_line_get_ninsts cmd opt;
     foldM (\<lambda>i st. do {
         p \<leftarrow> ocoms_cmd_line_get_param cmd opt (int i) 0;
         v \<leftarrow> ocoms_cmd_line_get_param cmd opt (int i) 1;
         param \<leftarrow> p;
         val \<leftarrow> v;
         process_arg m param val st }) [0..<nat num_insts] (None, None) }"

definition ocoms_mca_base_cmd_line_process_args ::
  "env_ctx \<Rightarrow> ocoms_cmd_line_t \<Rightarrow> cells option option \<Rightarrow> cells option option \<Rightarrow>
   (int \<times> cells option option \<times> cells option option) option" where
  "ocoms_mca_base_cmd_line_process_args c cmd context_env global_env = do {
     mca \<leftarrow> ocoms_cmd_line_is_taken cmd ''mca'';
     gmca \<leftarrow> ocoms_cmd_line_is_taken cmd ''gmca'';
     if \<not> mca \<and> \<not> gmca then Some (OCOMS_SUCCESS, context_env, global_env)
     else do {
       (params, vals) \<leftarrow> process_instances (ec_mem c) cmd ''mca'';
       context_env' \<leftarrow> add_to_env c params vals context_env;
       (params, vals) \<leftarrow> process_instances (ec_mem c) cmd ''gmca'';
       global_env' \<leftarrow> add_to_env c params vals global_env;
       Some (OCOMS_SUCCESS, context_env', global_env') } }"


section \<open>What reaches the environment\<close>

text \<open>The values given for a parameter, in their order.\<close>

definition values_for :: "(string \<times> string) list \<Rightarrow> string \<Rightarrow> string list" where
  "values_for insts p = map snd (filter (\<lambda>q. fst q = p) insts)"

lemma values_for_append: "values_for (insts @ [(q, v)]) p = values_for insts p @ (if p = q then [v] else [])"
  by (simp add: values_for_def)

lemma values_for_empty: "values_for insts p = [] \<longleftrightarrow> p \<notin> fst ` set insts"
  by (auto simp: values_for_def filter_empty_conv image_iff)

lemma join_with_append: "xs \<noteq> [] \<Longrightarrow> join_with d (xs @ [v]) = join_with d xs @ d # v"
  by (cases xs) simp_all

definition collected :: "(string \<times> string) list \<Rightarrow> cells option \<times> cells option \<Rightarrow> string list \<Rightarrow> string list \<Rightarrow> bool" where
  "collected insts st ps vs \<longleftrightarrow> argv_rep (fst st) ps \<and> argv_rep (snd st) vs \<and> length vs = length ps \<and> length ps \<le> length insts \<and>
     distinct ps \<and> set ps = fst ` set insts \<and> (\<forall>i < length ps. vs ! i = join_with (CHR '','') (values_for insts (ps ! i)))"

lemma append_nosize_fine:
  assumes "mem_fine m" and "argv_rep argv xs" and "int (length xs) + 2 \<le> INT_MAX"
  shows "\<exists>argv'. ocoms_argv_append_nosize m argv a = Some (OCOMS_SUCCESS, argv') \<and> argv_rep argv' (xs @ [a])"
  using append_nosize_ok [of argv xs m a] assms by (auto simp: mem_fine_def)

lemma takeWhile_index: "x \<in> set xs \<Longrightarrow> length (takeWhile (\<lambda>y. y \<noteq> x) xs) < length xs \<and> xs ! length (takeWhile (\<lambda>y. y \<noteq> x) xs) = x"
  by (induction xs) auto

lemma process_arg_ok:
  assumes "mem_fine m" and "collected insts st ps vs" and "int (length insts) + 2 \<le> INT_MAX"
  shows "\<exists>st' ps' vs'. process_arg m p v st = Some st' \<and> collected (insts @ [(p, v)]) st' ps' vs'"
proof -
  obtain params vals where st: "st = (params, vals)" by fastforce
  have C: "argv_rep params ps" "argv_rep vals vs" "length vs = length ps" "length ps \<le> length insts" "distinct ps" "set ps = fst ` set insts"
    "\<forall>i < length ps. vs ! i = join_with (CHR '','') (values_for insts (ps ! i))"
    using assms(2) st by (simp_all add: collected_def)
  show ?thesis
  proof (cases "p \<in> set ps")
    case True
    let ?i = "length (takeWhile (\<lambda>x. x \<noteq> p) ps)"
    have i: "?i < length ps" "ps ! ?i = p" using takeWhile_index [OF True] by simp_all
    obtain pcs vcs where cs: "params = Some pcs" "represents pcs ps" "vals = Some vcs" "represents vcs vs"
      using True C(1,2,3) by (cases params; cases vals) auto
    let ?new = "vs ! ?i @ '','' @ v"
    have "rdn vcs ?i = Some (Some (vs ! ?i))" using cs(4) i C(3) by (simp add: represents_def)
    then have "process_arg m p v st = Some (params, Some (vcs[?i := Some ?new]))"
      using argv_find_ok [OF cs(2), of 0 p] True assms(1) by (simp add: process_arg_def st cs(1,3) mem_fine_def)
    moreover have "collected (insts @ [(p, v)]) (params, Some (vcs[?i := Some ?new])) ps (vs[?i := ?new])"
    proof -
      have "represents (vcs[?i := Some ?new]) (vs[?i := ?new])" using represents_update [OF cs(4)] i C(3) by simp
      moreover have "values_for insts p \<noteq> []" using True C(6) by (simp add: values_for_empty)
      then have "(vs[?i := ?new]) ! j = join_with (CHR '','') (values_for (insts @ [(p, v)]) (ps ! j))" if "j < length ps" for j
        using C(3,5,7) i that by (auto simp: values_for_append join_with_append nth_list_update nth_eq_iff_index_eq)
      ultimately show ?thesis using C True by (auto simp: collected_def insert_absorb)
    qed
    ultimately show ?thesis by blast
  next
    case False
    have room: "int (length ps) + 2 \<le> INT_MAX" using C(4) assms(3) by simp
    obtain params' where P: "ocoms_argv_append_nosize m params p = Some (OCOMS_SUCCESS, params')" "argv_rep params' (ps @ [p])"
      using append_nosize_fine [OF assms(1) C(1) room] by blast
    obtain vals' where V: "ocoms_argv_append_nosize m vals v = Some (OCOMS_SUCCESS, vals')" "argv_rep vals' (vs @ [v])"
      using append_nosize_fine [OF assms(1) C(2), of v] room C(3) by auto
    have "(case params of None \<Rightarrow> Some None | Some cs \<Rightarrow> argv_find cs 0 p) = Some None"
      using C(1) False argv_find_ok [of _ ps 0 p] by (cases params) auto
    then have "process_arg m p v st = Some (params', vals')" using P(1) V(1) by (simp add: process_arg_def st)
    moreover have "values_for insts p = []" using False C(6) by (simp add: values_for_empty)
    then have "(vs @ [v]) ! j = join_with (CHR '','') (values_for (insts @ [(p, v)]) ((ps @ [p]) ! j))" if "j < length (ps @ [p])" for j
      using C(3,7) False that by (auto simp: values_for_append nth_append less_Suc_eq)
    then have "collected (insts @ [(p, v)]) (params', vals') (ps @ [p]) (vs @ [v])"
      using C P(2) V(2) False by (auto simp: collected_def)
    ultimately show ?thesis by blast
  qed
qed


text \<open>The instances of an option with two parameters that a parsed command line reports.\<close>

definition reports :: "ocoms_cmd_line_t \<Rightarrow> string \<Rightarrow> (string \<times> string) list \<Rightarrow> bool" where
  "reports cmd opt insts \<longleftrightarrow> ocoms_cmd_line_get_ninsts cmd opt = Some (int (length insts)) \<and>
     (\<forall>i < length insts. ocoms_cmd_line_get_param cmd opt (int i) 0 = Some (Some (fst (insts ! i))) \<and>
        ocoms_cmd_line_get_param cmd opt (int i) 1 = Some (Some (snd (insts ! i))))"

lemma instances_ok:
  assumes "mem_fine m" and "reports cmd opt insts" and "int (length insts) + 2 \<le> INT_MAX"
  shows "\<exists>st ps vs. process_instances m cmd opt = Some st \<and> collected insts st ps vs"
proof -
  define f where "f = (\<lambda>i st. do {
         p \<leftarrow> ocoms_cmd_line_get_param cmd opt (int i) 0;
         v \<leftarrow> ocoms_cmd_line_get_param cmd opt (int i) 1;
         param \<leftarrow> p;
         val \<leftarrow> v;
         process_arg m param val st })"
  have "n \<le> length insts \<Longrightarrow> \<exists>st ps vs. foldM f [0..<n] (None, None) = Some st \<and> collected (take n insts) st ps vs" for n
  proof (induction n)
    case 0
    have "collected [] (None, None) [] []" by (simp add: collected_def)
    then show ?case by auto
  next
    case (Suc n)
    then obtain st ps vs where S: "foldM f [0..<n] (None, None) = Some st" "collected (take n insts) st ps vs" by auto
    have "int (length (take n insts)) + 2 \<le> INT_MAX" using assms(3) by simp
    from process_arg_ok [OF assms(1) S(2) this, of "fst (insts ! n)" "snd (insts ! n)"] obtain st' ps' vs' where
      P: "process_arg m (fst (insts ! n)) (snd (insts ! n)) st = Some st'" "collected (take (Suc n) insts) st' ps' vs'"
      using Suc.prems by (auto simp: take_Suc_conv_app_nth)
    have "f n st = Some st'" using assms(2) Suc.prems P(1) by (simp add: reports_def f_def)
    then show ?case using S(1) P(2) by (auto simp: foldM_append)
  qed
  from this [of "length insts"] show ?thesis using assms(2) by (simp add: process_instances_def reports_def f_def)
qed

lemma env_put_length: "length (env_put xs k e) \<le> length xs + 1"
  by (induction xs) auto

lemma prefixed_ok: "name_ok p \<Longrightarrow> name_ok (mca_prefix @ p)"
  by (simp add: name_ok_def mca_prefix_def)

definition env_fine :: "env_ctx \<Rightarrow> bool" where
  "env_fine c \<longleftrightarrow> mem_fine (ec_mem c) \<and> \<not> ec_is_environ c"

lemma env_add_ok:
  assumes "env_fine c"
  shows "represents pcs ps \<Longrightarrow> (\<And>j. j < length ps \<Longrightarrow> rdn vcs (i + j) = Some (Some (vs ! j))) \<Longrightarrow> length vs = length ps \<Longrightarrow>
    represents ecs xs \<Longrightarrow> \<forall>p \<in> set ps. name_ok p \<Longrightarrow> int (length xs) + int (length ps) + 2 \<le> INT_MAX \<Longrightarrow>
    \<exists>ecs' xs'. env_add_loop c pcs i (Some vcs) (Some (Some ecs)) = Some (Some (Some ecs')) \<and> represents ecs' xs' \<and>
      env_lookup xs' = env_lookup xs ++ map_of (rev (zip (map (\<lambda>p. mca_prefix @ p) ps) vs))"
proof (induction ps arbitrary: pcs i vs ecs xs)
  case Nil
  then show ?case by (cases pcs) (auto simp: represents_nil)
next
  case (Cons p ps)
  obtain pcs' where p: "pcs = Some p # pcs'" "represents pcs' ps"
    using Cons.prems(1) by (cases pcs) (auto simp: represents_cons, auto simp: represents_def)
  obtain v vs' where v: "vs = v # vs'" using Cons.prems(3) by (cases vs) auto
  have m: "argv_mem_ok (ec_mem c)" "argv_mem_total (ec_mem c)" "\<not> ec_is_environ c"
    using assms by (simp_all add: env_fine_def mem_fine_def)
  have name: "ocoms_mca_base_var_env_name (ec_mem c) p = Some (mca_prefix @ p)" using m(2) by (simp add: ocoms_mca_base_var_env_name_def)
  have ok: "name_ok (mca_prefix @ p)" using Cons.prems(5) prefixed_ok by simp
  let ?xs = "env_put xs (mca_prefix @ p) ((mca_prefix @ p) @ CHR ''='' # v)"
  have "int (length xs) + 2 \<le> INT_MAX" using Cons.prems(6) by simp
  from setenv_ok [OF Cons.prems(4) m ok this, of "Some v" True] obtain ecs1 where
    S: "ocoms_setenv c (mca_prefix @ p) (Some v) True (Some (Some ecs)) = Some (OCOMS_SUCCESS, Some (Some ecs1))" "represents ecs1 ?xs"
    by auto
  have v0: "rdn vcs i = Some (Some v)" using Cons.prems(2) [of 0] v by simp
  have rest: "rdn vcs (Suc i + j) = Some (Some (vs' ! j))" if "j < length ps" for j using Cons.prems(2) [of "Suc j"] v that by simp
  have "length vs' = length ps" "\<forall>p \<in> set ps. name_ok p" using Cons.prems(3,5) v by simp_all
  moreover have "int (length ?xs) + int (length ps) + 2 \<le> INT_MAX" using env_put_length [of xs "mca_prefix @ p"] Cons.prems(6)
    by (smt (verit, del_insts) length_Cons of_nat_Suc of_nat_le_iff of_nat_add of_nat_1)
  ultimately obtain ecs' xs' where
    R: "env_add_loop c pcs' (Suc i) (Some vcs) (Some (Some ecs1)) = Some (Some (Some ecs'))" "represents ecs' xs'"
      "env_lookup xs' = env_lookup ?xs ++ map_of (rev (zip (map (\<lambda>p. mca_prefix @ p) ps) vs'))"
    using Cons.IH [OF p(2) rest _ S(2)] by blast
  have "env_lookup xs' = env_lookup xs ++ map_of (rev (zip (map (\<lambda>p. mca_prefix @ p) (p # ps)) vs))"
    unfolding R(3) env_lookup_put [OF ok] by (simp add: v map_add_def fun_eq_iff split: option.split)
  then show ?case using R(1,2) S(1) v0 name unfolding p(1) by auto
qed

text \<open>The environment after the parameters given have been added to it.\<close>

definition with_mca :: "(string \<times> string) list \<Rightarrow> (string \<Rightarrow> string option) \<Rightarrow> string \<Rightarrow> string option" where
  "with_mca insts look k = (let p = drop (length mca_prefix) k in
     if take (length mca_prefix) k = mca_prefix \<and> values_for insts p \<noteq> [] then Some (join_with (CHR '','') (values_for insts p)) else look k)"

lemma add_to_env_ok:
  assumes "env_fine c" and "collected insts st ps vs" and "represents ecs xs" and "\<forall>(p, v) \<in> set insts. name_ok p"
    and "int (length xs) + int (length insts) + 2 \<le> INT_MAX"
  shows "\<exists>ecs' xs'. add_to_env c (fst st) (snd st) (Some (Some ecs)) = Some (Some (Some ecs')) \<and> represents ecs' xs' \<and>
    env_lookup xs' = with_mca insts (env_lookup xs)"
proof -
  have C: "argv_rep (fst st) ps" "argv_rep (snd st) vs" "length vs = length ps" "length ps \<le> length insts" "distinct ps" "set ps = fst ` set insts"
    "\<forall>i < length ps. vs ! i = join_with (CHR '','') (values_for insts (ps ! i))" using assms(2) by (simp_all add: collected_def)
  let ?names = "map (\<lambda>p. mca_prefix @ p) ps"
  have map_eq: "(env_lookup xs ++ map_of (rev (zip ?names vs))) k = with_mca insts (env_lookup xs) k" for k
  proof (cases "k \<in> set ?names")
    case True
    then obtain i where i: "i < length ps" "k = mca_prefix @ ps ! i" by (auto simp: in_set_conv_nth)
    have dist: "distinct ?names" using C(5) by (simp add: distinct_map inj_on_def)
    have "zip ?names vs ! i = (k, vs ! i)" using i C(3) by simp
    then have "(k, vs ! i) \<in> set (rev (zip ?names vs))" using i(1) C(3) nth_mem [of i "zip ?names vs"] by simp
    moreover have "distinct (map fst (rev (zip ?names vs)))" using dist C(3) by (simp add: rev_map [symmetric])
    ultimately have "map_of (rev (zip ?names vs)) k = Some (vs ! i)" by (rule map_of_is_SomeI [rotated])
    moreover have "ps ! i \<in> set ps" using i(1) by simp
    then have "values_for insts (ps ! i) \<noteq> []" using C(6) by (simp add: values_for_empty)
    ultimately show ?thesis using i C(7) by (simp add: with_mca_def Let_def map_add_def)
  next
    case False
    then have "map_of (rev (zip ?names vs)) k = None" by (auto simp: map_of_eq_None_iff dest: set_zip_leftD)
    moreover have "take (length mca_prefix) k = mca_prefix \<Longrightarrow> values_for insts (drop (length mca_prefix) k) = []"
      using False C(6) by (metis append_take_drop_id image_eqI list.set_map values_for_empty)
    ultimately show ?thesis by (auto simp add: with_mca_def Let_def map_add_def)
  qed
  show ?thesis
  proof (cases "fst st")
    case None
    then have "ps = []" using C(1) by simp
    then have "insts = []" using C(6) by simp
    then have "with_mca insts (env_lookup xs) = env_lookup xs" by (simp add: with_mca_def values_for_def fun_eq_iff)
    then show ?thesis using None assms(3) by (auto simp: add_to_env_def)
  next
    case (Some pcs)
    show ?thesis
    proof (cases "snd st")
      case None
      then have "ps = []" "insts = []" using C(2,3,6) by auto
      then have "env_add_loop c pcs 0 (snd st) (Some (Some ecs)) = Some (Some (Some ecs))"
        using C(1) Some by (cases pcs) (auto simp: represents_nil)
      moreover have "with_mca insts (env_lookup xs) = env_lookup xs" using \<open>insts = []\<close> by (simp add: with_mca_def values_for_def fun_eq_iff)
      ultimately show ?thesis using Some assms(3) by (auto simp: add_to_env_def)
    next
      case (Some vcs)
      then have "represents vcs vs" using C(2) by simp
      then have vals: "rdn vcs (0 + j) = Some (Some (vs ! j))" if "j < length ps" for j using that C(3) by (simp add: represents_def)
      have "represents pcs ps" using C(1) \<open>fst st = Some pcs\<close> by simp
      moreover have "\<forall>p \<in> set ps. name_ok p" using assms(4) C(6) by auto
      moreover have "int (length xs) + int (length ps) + 2 \<le> INT_MAX" using assms(5) C(4) by simp
      ultimately obtain ecs' xs' where "env_add_loop c pcs 0 (Some vcs) (Some (Some ecs)) = Some (Some (Some ecs'))" "represents ecs' xs'"
        "env_lookup xs' = env_lookup xs ++ map_of (rev (zip ?names vs))"
        using env_add_ok [OF assms(1) _ vals C(3) assms(3)] by blast
      then show ?thesis using Some \<open>fst st = Some pcs\<close> map_eq by (auto simp: add_to_env_def fun_eq_iff)
    qed
  qed
qed


lemma reported:
  assumes "parsed opts cmd xs uses tail" and "find_option opts opt = Some k" "clo_num_params (opts ! k) = 2"
    and "uses_of uses k = map (\<lambda>(p, v). [p, v]) insts" and "int (length uses) \<le> INT_MAX"
  shows "reports cmd opt insts"
proof -
  have len: "length (uses_of uses k) = length insts" using assms(4) by simp
  have a: "list_all2 param_rep (lcl_params cmd) uses" "lcl_options cmd = opts" using assms(1) by (simp_all add: parsed_def)
  have "get_param_loop (lcl_params cmd) k (int 0) (int (0 + i)) (int idx) = Some (Some (uses_of uses k ! i ! idx))"
    if "i < length insts" "idx < 2" for i idx
    using that assms(4,5) list_all2_lengthD [OF a(1)] len by (intro get_param_loop_ok [OF a(1)]) (simp_all split: prod.split)
  from this [of _ 0] this [of _ 1] show ?thesis
    using ninsts_ok [OF assms(1,2,5)] len assms(2,3,4) a(2)
    by (auto simp: reports_def ocoms_cmd_line_get_param_def split: prod.split)
qed

text \<open>
  C40: after a command line has been parsed, each parameter given with \<open>--mca\<close> is in the environment of
  the context and each one given with \<open>--gmca\<close> in the global one, under its name with the prefix, with
  all its values in order and commas between them; everything else stays.
\<close>

theorem command_line_reaches_environment:
  assumes "env_fine c" and "parsed opts cmd xs uses tail" "int (length uses) \<le> INT_MAX"
    and "find_option opts ''mca'' = Some k" "clo_num_params (opts ! k) = 2" "uses_of uses k = map (\<lambda>(p, v). [p, v]) as"
    and "find_option opts ''gmca'' = Some k'" "clo_num_params (opts ! k') = 2" "uses_of uses k' = map (\<lambda>(p, v). [p, v]) bs"
    and "\<forall>(p, v) \<in> set (as @ bs). name_ok p"
    and "represents ecs es" "represents gcs gs" "int (length es + length gs) + int (length (as @ bs)) + 2 \<le> INT_MAX"
  shows "\<exists>ecs' gcs' es' gs'. ocoms_mca_base_cmd_line_process_args c cmd (Some (Some ecs)) (Some (Some gcs)) =
      Some (OCOMS_SUCCESS, Some (Some ecs'), Some (Some gcs')) \<and> represents ecs' es' \<and> represents gcs' gs' \<and>
    env_lookup es' = with_mca as (env_lookup es) \<and> env_lookup gs' = with_mca bs (env_lookup gs)"
proof -
  have rep: "reports cmd ''mca'' as" "reports cmd ''gmca'' bs" using reported assms(2-9) by blast+
  have m: "mem_fine (ec_mem c)" using assms(1) by (simp add: env_fine_def)
  have taken: "ocoms_cmd_line_is_taken cmd ''mca'' = Some (as \<noteq> [])" "ocoms_cmd_line_is_taken cmd ''gmca'' = Some (bs \<noteq> [])"
    using rep by (simp_all add: ocoms_cmd_line_is_taken_def reports_def)
  have small: "int (length as) + 2 \<le> INT_MAX" "int (length bs) + 2 \<le> INT_MAX" using assms(13) by simp_all
  obtain st ps vs where A: "process_instances (ec_mem c) cmd ''mca'' = Some st" "collected as st ps vs"
    using instances_ok [OF m rep(1) small(1)] by blast
  obtain st' ps' vs' where B: "process_instances (ec_mem c) cmd ''gmca'' = Some st'" "collected bs st' ps' vs'"
    using instances_ok [OF m rep(2) small(2)] by blast
  obtain ecs' es' where E: "add_to_env c (fst st) (snd st) (Some (Some ecs)) = Some (Some (Some ecs'))" "represents ecs' es'"
    "env_lookup es' = with_mca as (env_lookup es)"
    using add_to_env_ok [OF assms(1) A(2) assms(11)] assms(10,13) by auto
  obtain gcs' gs' where G: "add_to_env c (fst st') (snd st') (Some (Some gcs)) = Some (Some (Some gcs'))" "represents gcs' gs'"
    "env_lookup gs' = with_mca bs (env_lookup gs)"
    using add_to_env_ok [OF assms(1) B(2) assms(12)] assms(10,13) by auto
  show ?thesis
  proof (cases "as = [] \<and> bs = []")
    case True
    then have "with_mca as (env_lookup es) = env_lookup es" "with_mca bs (env_lookup gs) = env_lookup gs"
      by (simp_all add: with_mca_def values_for_def fun_eq_iff)
    then show ?thesis using True taken assms(11,12) by (auto simp: ocoms_mca_base_cmd_line_process_args_def)
  next
    case False
    then have "ocoms_mca_base_cmd_line_process_args c cmd (Some (Some ecs)) (Some (Some gcs)) =
      Some (OCOMS_SUCCESS, Some (Some ecs'), Some (Some gcs'))"
      using taken A(1) B(1) E(1) G(1) by (cases st; cases st') (auto simp add: ocoms_mca_base_cmd_line_process_args_def)
    then show ?thesis using E(2,3) G(2,3) by blast
  qed
qed

definition mca_cmd :: ocoms_cmd_line_t where
  "mca_cmd = the (snd (ocoms_mca_base_cmd_line_setup mem_always True (Some cmd_line_constructor)))"

text \<open>After \<open>--mca btl tcp --gmca eager 1 --mca btl sm\<close>.\<close>

definition used_mca_cmd :: ocoms_cmd_line_t where
  "used_mca_cmd = mca_cmd\<lparr>lcl_params :=
     [\<lparr>clp_arg = None, clp_option = 0, clp_argc = 2, clp_argv = Some [Some ''btl'', Some ''tcp'', None]\<rparr>,
      \<lparr>clp_arg = None, clp_option = 1, clp_argc = 2, clp_argv = Some [Some ''eager'', Some ''1'', None]\<rparr>,
      \<lparr>clp_arg = None, clp_option = 0, clp_argc = 2, clp_argv = Some [Some ''btl'', Some ''sm'', None]\<rparr>]\<rparr>"

lemmas setup_simps = mca_cmd_def ocoms_mca_base_cmd_line_setup_def ocoms_cmd_line_make_opt3_def ocoms_cmd_line_make_opt_mca_def
  make_opt_def unnamed_def cmd_line_constructor_def Let_def

lemma mca_cmd_options:
  "length (lcl_options mca_cmd) = 3" "find_option (lcl_options mca_cmd) ''mca'' = Some 0" "find_option (lcl_options mca_cmd) ''gmca'' = Some 1"
  "clo_num_params (lcl_options mca_cmd ! 0) = 2" "clo_num_params (lcl_options mca_cmd ! 1) = 2"
  by (simp_all add: setup_simps find_option_def option_matches_def)

theorem command_line_reaches_environment_witness:
  "\<exists>ecs' gcs' es' gs'. ocoms_mca_base_cmd_line_process_args ctx_always used_mca_cmd (Some (Some [Some ''A=1'', None])) (Some (Some [None])) =
       Some (OCOMS_SUCCESS, Some (Some ecs'), Some (Some gcs')) \<and> represents ecs' es' \<and> represents gcs' gs' \<and>
     env_lookup es' ''OMPI_MCA_btl'' = Some ''tcp,sm'' \<and> env_lookup es' ''A'' = Some ''1'' \<and> env_lookup gs' ''OMPI_MCA_eager'' = Some ''1''"
proof -
  let ?uses = "[(None, 0, [''btl'', ''tcp'']), (None, 1, [''eager'', ''1'']), (None, 0, [''btl'', ''sm''])]"
  let ?as = "[(''btl'', ''tcp''), (''btl'', ''sm'')]" and ?bs = "[(''eager'', ''1'')]"
  have fine: "env_fine ctx_always" by (simp add: env_fine_def mem_fine_def ctx_always_def)
  have rep: "represents [Some x, Some y, None] [x, y]" for x y :: string by (simp add: represents_cons represents_nil)
  have env: "represents [Some ''A=1'', None] [''A=1'']" "represents [None] []" by (simp_all add: represents_cons represents_nil)
  have "lcl_argv mca_cmd = None" "lcl_argc mca_cmd = 0" "lcl_tail_argv mca_cmd = None" "lcl_tail_argc mca_cmd = 0"
    by (simp_all add: setup_simps)
  then have parsed: "parsed (lcl_options mca_cmd) used_mca_cmd [] ?uses []" by (simp add: parsed_def used_mca_cmd_def rep)
  have "\<exists>ecs' gcs' es' gs'. ocoms_mca_base_cmd_line_process_args ctx_always used_mca_cmd (Some (Some [Some ''A=1'', None])) (Some (Some [None])) =
      Some (OCOMS_SUCCESS, Some (Some ecs'), Some (Some gcs')) \<and> represents ecs' es' \<and> represents gcs' gs' \<and>
    env_lookup es' = with_mca ?as (env_lookup [''A=1'']) \<and> env_lookup gs' = with_mca ?bs (env_lookup [])"
    by (rule command_line_reaches_environment [OF fine parsed _ mca_cmd_options(2,4) _ mca_cmd_options(3,5)])
      (simp_all add: uses_of_def INT_MAX_def name_ok_def env)
  moreover have "with_mca ?as (env_lookup [''A=1'']) ''OMPI_MCA_btl'' = Some ''tcp,sm''" "with_mca ?as (env_lookup [''A=1'']) ''A'' = Some ''1''"
    "with_mca ?bs (env_lookup []) ''OMPI_MCA_eager'' = Some ''1''"
    by (simp_all add: with_mca_def values_for_def mca_prefix_def Let_def env_lookup_def is_entry_def entry_name_def entry_value_def)
  ultimately show ?thesis by metis
qed

end
