(* ===== verification/Spec2Isabelle.thy ===== *)
theory Spec2Isabelle
  imports Bitmap Pointer_Array Hash_Table Environ Checksum Cmd_Line Item_List Atomic_Lifo Value_Array Mca_Group_Dereg Mca_Pvar_Watch Free_List Path Mca_Files Mca_Var_Dump Mca_Cmd_Line
begin

text \<open>
  A model of libocoms, the portability and component library of Open MPI's collectives (sources under
  \<open>src/ocoms\<close>), with proofs that its parts do what they promise.

  \<^bold>\<open>The program.\<close>  The library has two layers.  The utilities of \<open>ocoms/util\<close> are data structures and
  string handling: bitmaps, pointer and value arrays, hash tables, linked lists, a lock-free stack,
  argument vectors, the environment, checksums, free lists, the command line, path names and the syntax of
  parameter files.  The component architecture of
  \<open>ocoms/mca/base\<close> keeps registered variables, whose values come from an override file, the
  environment, parameter files or the program; the groups of these variables; and performance
  variables with their handles.  It uses the utilities as clients do: each kind of object has a
  pointer array and a hash table from names to indices, and argument vectors carry the settings to
  child processes.

  \<^bold>\<open>Reading the definitions.\<close>  A C run is a value of \<open>'a option\<close>: \<open>None\<close> stands for undefined behaviour
  and for runs that never return, so a lemma \<open>f x = Some r\<close> states memory safety, termination and the
  result together.  Return codes are the integers of \<open>ocoms/platform/ocoms_constants.h\<close>.  Memory is a
  parameter of every operation that allocates: a predicate or function that says which requests are
  granted.  Machine integers are words, or integers with checked overflow (\<open>chk\<close>) where C leaves
  overflow undefined.  Objects with an identity live at addresses of a heap that is part of the state.

  \<^bold>\<open>The theories\<close>, with the sources they model:
    \<^item> \<open>Prelude\<close>, \<open>C_Strings\<close>: runs, checked accesses, allocators, and the functions of \<open>string.h\<close>,
      \<open>ctype.h\<close> and \<open>stdlib.h\<close> the sources call.
    \<^item> \<open>Interfaces\<close>: the locales of the contracts (finite maps, arrays of slots, sequences) that the
      containers interpret.
    \<^item> \<open>Bitmap\<close> (\<open>ocoms_bitmap.c\<close>), \<open>Pointer_Array\<close> (\<open>ocoms_pointer_array.c\<close>), \<open>Hash_Table\<close>
      (\<open>ocoms_hash_table.c\<close>), \<open>Item_List\<close> (\<open>ocoms_list.c\<close>, \<open>ocoms_list.h\<close>), \<open>Value_Array\<close>
      (\<open>ocoms_value_array.c\<close>), \<open>Atomic_Lifo\<close> (\<open>ocoms_atomic_lifo.h\<close>): the state as a record, one
      definition per operation, a well-formedness invariant every operation keeps, and a refinement of an
      abstract container.  The lock-free stack is an interleaving of atomic steps and is linearizable.
    \<^item> \<open>Argv\<close> (\<open>argv.c\<close>), \<open>Environ\<close> (\<open>ocoms_environ.c\<close>), \<open>Checksum\<close> (\<open>crc.c\<close>), \<open>Cmd_Line\<close>
      (\<open>cmd_line.c\<close>): splitting and joining as inverse operations, the environment as a map, the
      incremental checksums as functions of the bytes alone, and parsing against a reference parser.
    \<^item> \<open>Mca_Var_Values\<close> (\<open>mca_base_var_enum.c\<close> and the conversions of \<open>mca_base_var.c\<close>): enumerators and
      the conversion of strings to values.
    \<^item> \<open>Mca_State\<close>: the state of the variable system and the lookups of objects by index.
    \<^item> \<open>Mca_Group\<close> (\<open>mca_base_var_group.c\<close>); \<open>Mca_Group_Props\<close> and \<open>Mca_Group_Dereg\<close> hold its
      invariant, registration and the recursive deregistration.
    \<^item> \<open>Mca_Var\<close>, \<open>Mca_Var_Ops\<close>, \<open>Mca_Init\<close> (\<open>mca_base_var.c\<close>): registration, the search for the
      initial value, reading, setting, synonyms, the environment of child processes, initialisation and
      finalisation; \<open>Mca_Initial\<close>, \<open>Mca_Var_Props\<close>, \<open>Mca_Registration\<close> and \<open>Mca_Export\<close> hold the lemmas
      and properties.
    \<^item> \<open>Mca_Pvar\<close>, \<open>Mca_Pvar_Handle\<close> (\<open>mca_base_pvar.c\<close>): performance variables, handles and sessions.
      \<open>Mca_Pvar_Lists\<close> shows what freeing a session and refusing a handle do to the lists of handles, and
      \<open>Mca_Pvar_Watch\<close> that a handle is a stopwatch over its variable.
    \<^item> \<open>Free_List\<close> (\<open>ocoms_free_list.c\<close>, \<open>ocoms_free_list.h\<close>): descriptors are cut from chunks; those handed
      out are aligned and disjoint.
    \<^item> \<open>Path\<close> (\<open>os_path.c\<close>, \<open>path.c\<close>): composed names and the search along a path.  The specification of the search
      says which files are taken by their kind and their owner's permissions, and looks for relative directories
      below the root, as the code does.
    \<^item> \<open>Keyval\<close> (\<open>keyval_lex.l\<close>, \<open>keyval_parse.c\<close>) and \<open>Mca_Files\<close> (\<open>mca_base_parse_paramfile.c\<close> and the
      reading of files in \<open>mca_base_var.c\<close>): the scanner and parser of parameter files, and which file wins.
    \<^item> \<open>Mca_Var_Dump\<close> (\<open>ocoms_mca_base_var_dump\<close>): the lines that describe a variable.
    \<^item> \<open>Mca_Cmd_Line\<close> (\<open>mca_base_cmd_line.c\<close>): how \<open>--mca\<close> and \<open>--gmca\<close> reach the environment.

  \<^bold>\<open>Double frees.\<close>  Where the command line parser frees the saved parameters of an option a second time
  (\<open>take_params\<close>, an empty token after the first parameter), its run is \<open>None\<close>, and the reference parser
  says for which arguments that happens.

  \<^bold>\<open>Bounds.\<close>  Loops are structural recursion or have a measure.  Loops that may run forever are
  partial functions into \<open>option\<close> (for example the probing of a full hash table), and where they do end
  that is part of what is proved.

  \<^bold>\<open>Findings.\<close>  Where the code does something else than it means to, the model does what the code does:
  the manifest lists the places, and the theorems of kind \<open>error\<close> prove the important ones.

  \<^bold>\<open>Not modelled.\<close>  Messages to the user, the usage text of the command line and reference counts.  Output
  streams, network interfaces, threads, atomic assembly, memory hooks and the loading of shared objects are
  operating system interfaces, of which only what the modelled parts ask (memory, the environment, the answers
  of \<open>stat\<close> and \<open>statfs\<close>, the contents of files) is a parameter.  The data type engine (\<open>ocoms/datatype\<close>, but for
  the checksum of its convertor), red-black trees, graphs, the object system, the data store, architecture
  descriptions and the selection of components are not modelled.
\<close>

end
